(* ===== verification/Prelude.thy ===== *)
theory Prelude
  imports Complex_Main "HOL-Library.AList"
begin

text \<open>
  Shared vocabulary of the development: the exceptions of the source as values, Python's
  insertion-ordered dictionaries as association lists, Python strings as lists of code points, and
  the generic lemmas on them that the component theories use.
\<close>

section \<open>Results\<close>

text \<open>
  Every \<open>raise\<close> of the modelled code is an \<open>Inl\<close>. The constructors are the exception classes the
  modelled functions raise, with the fields a caller can read from them.
\<close>

datatype py_error =
    ValueError
  | IndexError
  | ChunkTokenLimitExceeded nat int
  | TokenBudgetError int nat "nat list"
  | ChunkBlockMatchError int
  | PipelineBackpressure int int int

type_synonym 'a res = "py_error + 'a"

definition bind_res :: "'a res \<Rightarrow> ('a \<Rightarrow> 'b res) \<Rightarrow> 'b res" where
  "bind_res r f = (case r of Inl e \<Rightarrow> Inl e | Inr x \<Rightarrow> f x)"

lemma bind_res_simps [simp]:
  "bind_res (Inl e) f = Inl e"
  "bind_res (Inr x) f = f x"
  by (simp_all add: bind_res_def)

lemma bind_res_Inr_iff: "bind_res r f = Inr y \<longleftrightarrow> (\<exists>x. r = Inr x \<and> f x = Inr y)"
  by (cases r) auto

section \<open>Ordered dictionaries\<close>

text \<open>
  A Python \<open>dict\<close> (and an \<open>OrderedDict\<close>) keeps insertion order: storing under an existing key
  replaces the value in place, a new key goes to the end. That is \<^const>\<open>AList.update\<close>;
  \<^const>\<open>AList.delete\<close> is \<open>del d[k]\<close> (or \<open>d.pop(k, None)\<close>), and \<^const>\<open>map_of\<close> is \<open>d.get(k)\<close>.
\<close>

type_synonym ('k, 'v) odict = "('k \<times> 'v) list"

abbreviation od_set :: "'k \<Rightarrow> 'v \<Rightarrow> ('k, 'v) odict \<Rightarrow> ('k, 'v) odict" where
  "od_set \<equiv> AList.update"

abbreviation od_del :: "'k \<Rightarrow> ('k, 'v) odict \<Rightarrow> ('k, 'v) odict" where
  "od_del \<equiv> AList.delete"

abbreviation od_keys :: "('k, 'v) odict \<Rightarrow> 'k list" where
  "od_keys d \<equiv> map fst d"

definition od_wf :: "('k, 'v) odict \<Rightarrow> bool" where
  "od_wf d \<longleftrightarrow> distinct (od_keys d)"

text \<open>\<open>OrderedDict.move_to_end(k)\<close>, for a key that is present.\<close>

definition od_move_to_end :: "'k \<Rightarrow> ('k, 'v) odict \<Rightarrow> ('k, 'v) odict" where
  "od_move_to_end k d = (case map_of d k of None \<Rightarrow> d | Some v \<Rightarrow> od_del k d @ [(k, v)])"

lemma od_wf_Nil [simp]: "od_wf []"
  by (simp add: od_wf_def)

lemma od_wf_set [simp]: "od_wf d \<Longrightarrow> od_wf (od_set k v d)"
  by (simp add: od_wf_def distinct_update)

lemma od_wf_del [simp]: "od_wf d \<Longrightarrow> od_wf (od_del k d)"
  by (simp add: od_wf_def distinct_delete)

lemma od_get_set [simp]: "map_of (od_set k v d) = (map_of d)(k \<mapsto> v)"
  by (simp add: update_conv')

lemma od_get_del [simp]: "map_of (od_del k d) = (map_of d)(k := None)"
  by (simp add: delete_conv')

lemma od_keys_del: "od_keys (od_del k d) = filter (\<lambda>k'. k' \<noteq> k) (od_keys d)"
  by (induction d) (auto simp: AList.delete_eq)

lemma od_set_new: "map_of d k = None \<Longrightarrow> od_set k v d = d @ [(k, v)]"
  by (induction d) auto

lemma od_keys_set: "od_keys (od_set k v d) = (if map_of d k = None then od_keys d @ [k] else od_keys d)"
  by (induction d) auto

lemma length_od_set: "length (od_set k v d) = (if map_of d k = None then Suc (length d) else length d)"
  by (induction d) auto

lemma length_od_del_le: "length (od_del k d) \<le> length d"
  by (rule length_delete_le)

lemma od_del_absent: "map_of d k = None \<Longrightarrow> od_del k d = d"
  by (induction d) (auto simp: AList.delete_eq)

lemma list_all_od_set: "list_all P d \<Longrightarrow> P (k, v) \<Longrightarrow> list_all P (od_set k v d)"
  by (induction d) auto

lemma list_all_od_del: "list_all P d \<Longrightarrow> list_all P (od_del k d)"
  by (auto simp: list_all_iff AList.delete_eq)

lemma od_wf_filter: "od_wf d \<Longrightarrow> od_wf (filter P d)"
  by (simp add: od_wf_def distinct_map_filter)

lemma od_wf_append:
  "od_wf (d @ [(k, v)]) \<longleftrightarrow> od_wf d \<and> map_of d k = None"
  by (auto simp: od_wf_def map_of_eq_None_iff)

lemma od_get_move [simp]: "map_of (od_move_to_end k d) = map_of d"
proof (cases "map_of d k")
  case (Some v)
  then have "map_of (od_del k d @ [(k, v)]) = map_of d"
    by (auto simp: fun_eq_iff map_add_def map_of_append split: option.splits)
  with Some show ?thesis by (simp add: od_move_to_end_def)
qed (simp add: od_move_to_end_def)

lemma od_wf_move [simp]: "od_wf d \<Longrightarrow> od_wf (od_move_to_end k d)"
  by (auto simp: od_move_to_end_def od_wf_append split: option.splits)

lemma length_od_del:
  assumes "od_wf d"
  shows "length (od_del k d) = (if map_of d k = None then length d else length d - 1)"
proof -
  have "od_keys (od_del k d) = remove1 k (od_keys d)"
    using assms by (simp add: od_keys_del od_wf_def distinct_remove1_removeAll removeAll_filter_not_eq eq_commute)
  then have "length (od_del k d) = length (remove1 k (od_keys d))" by (metis length_map)
  then show ?thesis by (simp add: length_remove1 map_of_eq_None_iff)
qed

lemma length_od_move [simp]: "od_wf d \<Longrightarrow> length (od_move_to_end k d) = length d"
  using length_pos_if_in_set [OF map_of_SomeD [of d k]]
  by (auto simp: od_move_to_end_def length_od_del split: option.splits)

section \<open>Bounded queues\<close>

text \<open>\<open>while len(xs) > cap: xs.popitem(last=False)\<close>.\<close>

fun evict_front :: "nat \<Rightarrow> 'a list \<Rightarrow> 'a list" where
  "evict_front cap [] = []"
| "evict_front cap (x # xs) = (if cap < length (x # xs) then evict_front cap xs else x # xs)"

lemma evict_front_drop: "evict_front cap xs = drop (length xs - cap) xs"
  by (induction xs) (auto simp: Suc_diff_le)

lemma length_evict_front [simp]: "length (evict_front cap xs) = min cap (length xs)"
  by (simp add: evict_front_drop)

lemma set_evict_front: "set (evict_front cap xs) \<subseteq> set xs"
  by (simp add: evict_front_drop set_drop_subset)

lemma set_map_filter: "set (List.map_filter f xs) = {y. \<exists>x \<in> set xs. f x = Some y}"
  by (induction xs) (auto simp: map_filter_simps split: option.splits)

section \<open>Text\<close>

text \<open>
  A Python \<open>str\<close> whose characters matter (lengths, whitespace, UTF-8 sizes) is a list of code points.
  Identifiers and keys that are only compared are HOL strings.
\<close>

type_synonym pystr = "nat list"

text \<open>\<open>str.isspace\<close> of one character: the code points Python's Unicode tables class as whitespace.\<close>

definition py_isspace :: "nat \<Rightarrow> bool" where
  "py_isspace c \<longleftrightarrow>
     (9 \<le> c \<and> c \<le> 13) \<or> (28 \<le> c \<and> c \<le> 32) \<or> c = 133 \<or> c = 160 \<or> c = 5760
     \<or> (8192 \<le> c \<and> c \<le> 8202) \<or> c = 8232 \<or> c = 8233 \<or> c = 8239 \<or> c = 8287 \<or> c = 12288"

text \<open>\<open>str.strip()\<close> and \<open>s[i:j]\<close> for \<open>0 <= i\<close> and \<open>0 <= j\<close>.\<close>

definition py_strip :: "pystr \<Rightarrow> pystr" where
  "py_strip s = rev (dropWhile py_isspace (rev (dropWhile py_isspace s)))"

definition py_rstrip :: "pystr \<Rightarrow> pystr" where
  "py_rstrip s = rev (dropWhile py_isspace (rev s))"

lemma py_strip_rstrip: "py_strip s = py_rstrip (dropWhile py_isspace s)"
  by (simp add: py_strip_def py_rstrip_def)

lemma py_rstrip_prefix: "\<exists>r. s = py_rstrip s @ r"
proof -
  have "s = rev (takeWhile py_isspace (rev s) @ dropWhile py_isspace (rev s))" by simp
  then have "s = py_rstrip s @ rev (takeWhile py_isspace (rev s))"
    unfolding py_rstrip_def rev_append .
  then show ?thesis ..
qed

lemma dropWhile_py_strip: "dropWhile py_isspace (py_strip s) = py_strip s"
proof -
  let ?d = "dropWhile py_isspace s"
  obtain r where r: "?d = py_rstrip ?d @ r" using py_rstrip_prefix by blast
  show ?thesis
  proof (cases "py_rstrip ?d")
    case (Cons c cs)
    then have "?d \<noteq> []" "hd ?d = c" using r by (metis append_Cons list.distinct(1), metis append_Cons list.sel(1))
    then have "\<not> py_isspace c" using hd_dropWhile[of py_isspace s] by simp
    then show ?thesis by (simp add: py_strip_rstrip Cons)
  qed (simp add: py_strip_rstrip)
qed

lemma py_strip_idem [simp]: "py_strip (py_strip s) = py_strip s"
proof -
  have "py_strip (py_strip s) = py_rstrip (py_strip s)" by (simp add: py_strip_rstrip[of "py_strip s"] dropWhile_py_strip)
  also have "\<dots> = py_strip s" by (simp add: py_strip_rstrip py_rstrip_def)
  finally show ?thesis .
qed

lemma py_strip_part: "\<exists>u v. s = u @ py_strip s @ v"
proof -
  obtain r where "dropWhile py_isspace s = py_strip s @ r"
    using py_rstrip_prefix by (metis py_strip_rstrip)
  then show ?thesis by (metis takeWhile_dropWhile_id)
qed

definition slice :: "nat \<Rightarrow> nat \<Rightarrow> 'a list \<Rightarrow> 'a list" where
  "slice i j xs = take (j - i) (drop i xs)"

lemma length_slice [simp]: "length (slice i j xs) = min (j - i) (length xs - i)"
  by (simp add: slice_def)

lemma slice_append: "i \<le> j \<Longrightarrow> j \<le> k \<Longrightarrow> slice i j xs @ slice j k xs = slice i k xs"
proof -
  assume ij: "i \<le> j" and jk: "j \<le> k"
  then have "slice i k xs = take ((j - i) + (k - j)) (drop i xs)" by (simp add: slice_def)
  also have "\<dots> = take (j - i) (drop i xs) @ take (k - j) (drop (j - i) (drop i xs))"
    by (rule take_add)
  also have "drop (j - i) (drop i xs) = drop j xs" using ij by simp
  finally show ?thesis by (simp add: slice_def)
qed

lemma slice_full [simp]: "length xs \<le> j \<Longrightarrow> slice 0 j xs = xs"
  by (simp add: slice_def)

text \<open>The number of UTF-8 bytes of \<open>s.encode("utf-8", errors="replace")\<close>: a lone surrogate becomes
  the one byte \<open>?\<close>.\<close>

definition utf8_width :: "nat \<Rightarrow> nat" where
  "utf8_width c =
     (if c < 128 then 1 else if c < 2048 then 2
      else if 55296 \<le> c \<and> c \<le> 57343 then 1
      else if c < 65536 then 3 else 4)"

definition utf8_len :: "pystr \<Rightarrow> nat" where
  "utf8_len s = sum_list (map utf8_width s)"

lemma utf8_width_pos [simp]: "0 < utf8_width c"
  by (simp add: utf8_width_def)

lemma utf8_width_le: "utf8_width c \<le> 4"
  by (simp add: utf8_width_def)

lemma utf8_len_simps [simp]:
  "utf8_len [] = 0"
  "utf8_len (c # s) = utf8_width c + utf8_len s"
  "utf8_len (s @ t) = utf8_len s + utf8_len t"
  by (simp_all add: utf8_len_def)

text \<open>The prefix of whole characters that fits in \<open>n\<close> bytes: what \<open>raw[:n].decode("utf-8", errors="ignore")\<close> keeps
  of an encoding.\<close>

fun take_bytes :: "nat \<Rightarrow> pystr \<Rightarrow> pystr" where
  "take_bytes n [] = []"
| "take_bytes n (c # s) = (if utf8_width c \<le> n then c # take_bytes (n - utf8_width c) s else [])"

lemma take_bytes_le: "utf8_len (take_bytes n s) \<le> n"
  by (induction n s rule: take_bytes.induct) auto

lemma take_bytes_prefix: "\<exists>k. take_bytes n s = take k s"
proof (induction n s rule: take_bytes.induct)
  case (2 n c s)
  show ?case
  proof (cases "utf8_width c \<le> n")
    case True
    with 2 obtain k where "take_bytes (n - utf8_width c) s = take k s" by blast
    with True have "take_bytes n (c # s) = take (Suc k) (c # s)" by simp
    then show ?thesis ..
  next
    case False
    then have "take_bytes n (c # s) = take 0 (c # s)" by simp
    then show ?thesis ..
  qed
qed simp

text \<open>The decimal digits of a number.\<close>

function dec_digits :: "nat \<Rightarrow> pystr" where
  "dec_digits n = (if n < 10 then [48 + n] else dec_digits (n div 10) @ [48 + n mod 10])"
  by pat_completeness auto
termination
  by (relation "measure (\<lambda>n. n)") auto

declare dec_digits.simps [simp del]

text \<open>An ASCII literal as code points.\<close>

definition lit :: "string \<Rightarrow> pystr" where
  "lit s = map of_char s"

lemma lit_simps [simp]:
  "lit [] = []"
  "lit (c # s) = of_char c # lit s"
  by (simp_all add: lit_def)

end
