(* ===== verification/UpdateFlags.thy ===== *)
theory UpdateFlags
  imports Prelude
begin

text \<open>
  The update flags of src/ontorag/kg/shared_storage.py: one list of boolean cells per namespace, one
  cell per process that opened a storage of the namespace. A writer raises every cell of its
  namespace after a commit; a process whose cell is raised reloads its file. A cell is named by its
  namespace and its position in the list: the list only grows, so a position never changes owner.
  The locale \<open>flag_board\<close> is the contract the file-backed storages rely on.
\<close>

section \<open>Namespaces\<close>

text \<open>\<open>default_ws\<close> is the module's \<open>_default_workspace\<close>, \<open>None\<close> while it is not set.\<close>

definition get_final_namespace :: "string option \<Rightarrow> string \<Rightarrow> string option \<Rightarrow> string res" where
  "get_final_namespace default_ws namespace workspace =
     (case (case workspace of None \<Rightarrow> default_ws | Some w \<Rightarrow> Some w) of
        None \<Rightarrow> Inl ValueError
      | Some w \<Rightarrow> Inr (if w \<noteq> [] then w @ '':'' @ namespace else namespace))"

section \<open>The registry\<close>

type_synonym flag_registry = "(string, bool list) odict"
type_synonym flag_handle = "string \<times> nat"

definition get_update_flag :: "flag_registry \<Rightarrow> string \<Rightarrow> flag_registry \<times> flag_handle" where
  "get_update_flag reg ns =
     (let flags = (case map_of reg ns of None \<Rightarrow> [] | Some fs \<Rightarrow> fs)
      in (od_set ns (flags @ [False]) reg, (ns, length flags)))"

definition set_all_update_flags :: "flag_registry \<Rightarrow> string \<Rightarrow> flag_registry res" where
  "set_all_update_flags reg ns =
     (case map_of reg ns of
        None \<Rightarrow> Inl ValueError
      | Some fs \<Rightarrow> Inr (od_set ns (map (\<lambda>_. True) fs) reg))"

definition clear_all_update_flags :: "flag_registry \<Rightarrow> string \<Rightarrow> flag_registry res" where
  "clear_all_update_flags reg ns =
     (case map_of reg ns of
        None \<Rightarrow> Inl ValueError
      | Some fs \<Rightarrow> Inr (od_set ns (map (\<lambda>_. False) fs) reg))"

text \<open>Reading and assigning \<open>flag.value\<close> through the handle a process keeps.\<close>

definition flag_held :: "flag_registry \<Rightarrow> flag_handle \<Rightarrow> bool" where
  "flag_held reg h = (case map_of reg (fst h) of None \<Rightarrow> False | Some fs \<Rightarrow> snd h < length fs)"

definition flag_value :: "flag_registry \<Rightarrow> flag_handle \<Rightarrow> bool" where
  "flag_value reg h =
     (case map_of reg (fst h) of None \<Rightarrow> False | Some fs \<Rightarrow> snd h < length fs \<and> fs ! snd h)"

definition set_flag_value :: "flag_registry \<Rightarrow> flag_handle \<Rightarrow> bool \<Rightarrow> flag_registry" where
  "set_flag_value reg h b =
     (case map_of reg (fst h) of None \<Rightarrow> reg | Some fs \<Rightarrow> od_set (fst h) (fs[snd h := b]) reg)"

text \<open>
  \<open>get_all_update_flags_status\<close>: the flags of the namespaces of one workspace. A name with a colon
  belongs to the workspace before its last colon, one without to the default workspace.
\<close>

definition before_last_colon :: "string \<Rightarrow> string" where
  "before_last_colon s = rev (tl (dropWhile (\<lambda>c. c \<noteq> CHR '':'') (rev s)))"

definition get_all_update_flags_status ::
    "string option \<Rightarrow> flag_registry option \<Rightarrow> string option \<Rightarrow> (string, bool list) odict" where
  "get_all_update_flags_status default_ws registry workspace =
     (case registry of
        None \<Rightarrow> []
      | Some reg \<Rightarrow>
          (let ws = (case workspace of None \<Rightarrow> default_ws | Some w \<Rightarrow> Some w);
               named = (case ws of None \<Rightarrow> [] | Some w \<Rightarrow> w)
           in filter (\<lambda>(ns, fs).
                if CHR '':'' \<in> set ns then named \<noteq> [] \<and> before_last_colon ns = named
                else named = []) reg))"

section \<open>The contract of the storages\<close>

locale flag_board =
  fixes held :: "'r \<Rightarrow> 'h \<Rightarrow> bool"
    and val :: "'r \<Rightarrow> 'h \<Rightarrow> bool"
    and assign :: "'r \<Rightarrow> 'h \<Rightarrow> bool \<Rightarrow> 'r"
    and announce :: "'r \<Rightarrow> 'n \<Rightarrow> 'r res"
    and register :: "'r \<Rightarrow> 'n \<Rightarrow> 'r \<times> 'h"
    and board :: "'h \<Rightarrow> 'n"
  assumes val_assign: "held r h \<Longrightarrow> held r h' \<Longrightarrow> val (assign r h b) h' = (if h' = h then b else val r h')"
    and held_assign: "held (assign r h b) h' = held r h'"
    and announce_total: "held r h \<Longrightarrow> \<exists>r'. announce r (board h) = Inr r'"
    and val_announce: "announce r n = Inr r' \<Longrightarrow> held r h \<Longrightarrow> val r' h = (board h = n \<or> val r h)"
    and held_announce: "announce r n = Inr r' \<Longrightarrow> held r' h = held r h"
    and register_new: "register r n = (r', h) \<Longrightarrow> held r' h \<and> \<not> val r' h \<and> \<not> held r h \<and> board h = n"
    and register_old: "register r n = (r', h) \<Longrightarrow> held r h' \<Longrightarrow> held r' h' \<and> val r' h' = val r h'"
begin

text \<open>A publication: raise the whole board, then lower the writer's own cell.\<close>

lemma publish_val:
  assumes "announce r (board h) = Inr r'" "held r h" "held r h'"
  shows "val (assign r' h False) h' \<longleftrightarrow> h' \<noteq> h \<and> (board h' = board h \<or> val r h')"
  using assms by (simp add: val_assign held_announce val_announce)

lemma publish_held:
  assumes "announce r (board h) = Inr r'"
  shows "held (assign r' h b) h' = held r h'"
  using assms by (simp add: held_assign held_announce)

lemma publish_reaches_others:
  assumes "announce r (board h) = Inr r'" "held r h" "held r h'" "h' \<noteq> h" "board h' = board h"
  shows "val (assign r' h False) h'"
  using publish_val [OF assms(1-3)] assms(4,5) by simp

end

interpretation uf: flag_board flag_held flag_value set_flag_value set_all_update_flags
  get_update_flag fst
proof unfold_locales
  fix r :: flag_registry and h h' :: flag_handle and b
  assume "flag_held r h" "flag_held r h'"
  then show "flag_value (set_flag_value r h b) h' = (if h' = h then b else flag_value r h')"
    by (cases h; cases h')
      (auto simp: flag_held_def flag_value_def set_flag_value_def nth_list_update split: option.splits if_splits)
next
  fix r :: flag_registry and h h' :: flag_handle and b
  show "flag_held (set_flag_value r h b) h' = flag_held r h'"
    by (cases h; cases h') (auto simp: flag_held_def set_flag_value_def split: option.splits if_splits)
next
  fix r :: flag_registry and h :: flag_handle
  assume "flag_held r h"
  then show "\<exists>r'. set_all_update_flags r (fst h) = Inr r'"
    by (auto simp: flag_held_def set_all_update_flags_def split: option.splits if_splits)
next
  fix r r' :: flag_registry and n and h :: flag_handle
  assume "set_all_update_flags r n = Inr r'" "flag_held r h"
  then show "flag_value r' h = (fst h = n \<or> flag_value r h)"
    by (cases h) (auto simp: flag_held_def flag_value_def set_all_update_flags_def split: option.splits if_splits)
next
  fix r r' :: flag_registry and n and h :: flag_handle
  assume "set_all_update_flags r n = Inr r'"
  then show "flag_held r' h = flag_held r h"
    by (cases h) (auto simp: flag_held_def set_all_update_flags_def split: option.splits if_splits)
next
  fix r r' :: flag_registry and n and h :: flag_handle
  assume "get_update_flag r n = (r', h)"
  then show "flag_held r' h \<and> \<not> flag_value r' h \<and> \<not> flag_held r h \<and> fst h = n"
    by (auto simp: get_update_flag_def flag_held_def flag_value_def Let_def split: option.splits if_splits)
next
  fix r r' :: flag_registry and n and h h' :: flag_handle
  assume "get_update_flag r n = (r', h)" "flag_held r h'"
  then show "flag_held r' h' \<and> flag_value r' h' = flag_value r h'"
    by (cases h'; cases h)
      (auto simp: get_update_flag_def flag_held_def flag_value_def Let_def nth_append split: option.splits if_splits)
qed

text \<open>The status of one workspace never shows a namespace of another one.\<close>

lemma status_of_own_workspace:
  assumes "(n, fs) \<in> set (get_all_update_flags_status default_ws (Some reg) (Some w))"
    and "w \<noteq> []"
  shows "before_last_colon n = w"
  using assms by (simp add: get_all_update_flags_status_def split: if_splits)

end
