(* ===== verification/JsonValues.thy ===== *)
theory JsonValues
  imports Prelude
begin

text \<open>
  JSON values, as \<open>json.loads\<close> returns them: an object is the ordered dictionary Python builds. The type of
  the numbers is a parameter: the rows that the program writes itself hold finite numbers, exact rationals
  here (\<open>jval\<close>); what a model answers may hold any number that Python reads (\<open>PyNumbers\<close>).
\<close>

datatype 'n json = JNull | JBool bool | JNum 'n | JStr pystr | JArr "'n json list"
  | JObj "(string, 'n json) odict"

type_synonym jval = "rat json"

definition jget :: "'n json \<Rightarrow> string \<Rightarrow> 'n json option" where
  "jget v k = (case v of JObj o' \<Rightarrow> map_of o' k | _ \<Rightarrow> None)"

definition jtext :: "'n json option \<Rightarrow> pystr option" where
  "jtext v = (case v of Some (JStr s) \<Rightarrow> Some s | _ \<Rightarrow> None)"

end
