(* ===== verification/SharedJson.thy ===== *)
theory SharedJson
  imports UpdateFlags JsonValues
begin

text \<open>
  The JSON storages that keep one dictionary for all processes, src/ontorag/kg/json_kv_impl.py (and the
  commit protocol src/ontorag/kg/json_doc_status_impl.py shares with it), over \<open>load_json\<close> and
  \<open>write_json\<close> of src/ontorag/utils.py. The update flags of \<open>UpdateFlags\<close> are used here with the
  opposite meaning: a raised flag says that the shared dictionary has rows the file lacks.
  A world holds the shared dictionary, the file, the flags and what every storage object has bound.
  The calls below are the critical sections under the storage lock.
\<close>

section \<open>The file\<close>

type_synonym kv_row = "(string, jval) odict"
type_synonym kv_data = "(pystr, jval) odict"

text \<open>What \<open>load_json\<close> finds: no file, only whitespace, text that is not JSON, or an object.\<close>

datatype kv_disk = Missing | Blank | Broken | Rows kv_data

datatype kv_error = KV_JSONDecodeError | KV_ValueError | KV_OSError | KV_AttributeError

definition load_json :: "kv_disk \<Rightarrow> kv_error + kv_data option" where
  "load_json d =
     (case d of Missing \<Rightarrow> Inr None | Blank \<Rightarrow> Inr None | Broken \<Rightarrow> Inl KV_JSONDecodeError
      | Rows rows \<Rightarrow> Inr (Some rows))"

definition is_surrogate :: "nat \<Rightarrow> bool" where
  "is_surrogate c \<longleftrightarrow> 55296 \<le> c \<and> c \<le> 57343"

definition SURROGATE_PATTERN :: "nat \<Rightarrow> bool" where
  "SURROGATE_PATTERN c \<longleftrightarrow> is_surrogate c \<or> c = 65534 \<or> c = 65535"

definition sanitize_string_for_json :: "pystr \<Rightarrow> pystr" where
  "sanitize_string_for_json s =
     (if \<not> list_ex SURROGATE_PATTERN s then s else filter (\<lambda>c. \<not> SURROGATE_PATTERN c) s)"

text \<open>The keys inside a row are Latin-1 strings: the pattern never matches in one.\<close>

fun sanitize_for_encoding :: "jval \<Rightarrow> jval" where
  "sanitize_for_encoding (JStr s) = JStr (sanitize_string_for_json s)"
| "sanitize_for_encoding (JObj d) = JObj (map (\<lambda>(k, v). (k, sanitize_for_encoding v)) d)"
| "sanitize_for_encoding (JArr vs) = JArr (map sanitize_for_encoding vs)"
| "sanitize_for_encoding v = v"

definition sanitize_rows :: "kv_data \<Rightarrow> kv_data" where
  "sanitize_rows d =
     fold (\<lambda>(k, v). od_set (sanitize_string_for_json k) (sanitize_for_encoding v)) d []"

text \<open>\<open>json.dump\<close> into a UTF-8 file fails on a lone surrogate.\<close>

fun utf8_encodable :: "jval \<Rightarrow> bool" where
  "utf8_encodable (JStr s) = list_all (\<lambda>c. \<not> is_surrogate c) s"
| "utf8_encodable (JObj d) = list_all (\<lambda>b. b) (map (\<lambda>(k, v). utf8_encodable v) d)"
| "utf8_encodable (JArr vs) = list_all (\<lambda>b. b) (map utf8_encodable vs)"
| "utf8_encodable v = True"

text \<open>\<open>write_json\<close>: the rows that reach the file, and whether they were sanitized on the way.\<close>

definition write_json :: "kv_data \<Rightarrow> kv_data \<times> bool" where
  "write_json d =
     (if list_all (\<lambda>(k, v). list_all (\<lambda>c. \<not> is_surrogate c) k \<and> utf8_encodable v) d then (d, False)
      else (sanitize_rows d, True))"

section \<open>The shared world\<close>

record kv_world =
  kw_data :: kv_data
  kw_disk :: kv_disk
  kw_inited :: bool
  kw_flags :: flag_registry
  kw_handle :: "nat \<Rightarrow> flag_handle option"
  kw_bound :: "nat \<Rightarrow> bool"

definition kv_update :: "kv_data \<Rightarrow> kv_data \<Rightarrow> kv_data" where
  "kv_update d new = fold (\<lambda>(k, v). od_set k v) new d"

section \<open>Legacy caches\<close>

definition is_legacy_entry :: "jval \<Rightarrow> bool" where
  "is_legacy_entry v =
     (case v of JObj entries \<Rightarrow>
        list_all (\<lambda>(h, e). case e of JObj f \<Rightarrow> map_of f ''return'' \<noteq> None | _ \<Rightarrow> False) entries
      | _ \<Rightarrow> False)"

definition generate_cache_key :: "pystr \<Rightarrow> pystr \<Rightarrow> pystr \<Rightarrow> pystr" where
  "generate_cache_key mode cache_type hash_value = mode @ [58] @ cache_type @ [58] @ hash_value"

text \<open>\<open>fmt\<close> is how an f-string renders a cache type.\<close>

definition flatten_entry ::
    "(jval \<Rightarrow> pystr) \<Rightarrow> pystr \<Rightarrow> string \<times> jval \<Rightarrow> kv_data \<Rightarrow> kv_data" where
  "flatten_entry fmt mode entry migrated =
     (let cache_type = (case jget (snd entry) ''cache_type'' of None \<Rightarrow> lit ''extract'' | Some t \<Rightarrow> fmt t)
      in od_set (generate_cache_key mode cache_type (lit (fst entry))) (snd entry) migrated)"

definition migrate_row :: "(jval \<Rightarrow> pystr) \<Rightarrow> pystr \<times> jval \<Rightarrow> kv_data \<times> nat \<Rightarrow> kv_data \<times> nat" where
  "migrate_row fmt row acc =
     (case row of (key, v) \<Rightarrow>
        (case v of
           JObj entries \<Rightarrow>
             (if is_legacy_entry v
              then (fold (flatten_entry fmt key) entries (fst acc), snd acc + length entries)
              else (od_set key v (fst acc), snd acc))
         | _ \<Rightarrow> (od_set key v (fst acc), snd acc)))"

text \<open>The migrated rows, and the rows written to the file when something was migrated.\<close>

definition migrate_legacy_cache_structure ::
    "(jval \<Rightarrow> pystr) \<Rightarrow> kv_data \<Rightarrow> kv_data \<times> kv_data option" where
  "migrate_legacy_cache_structure fmt d =
     (case d of [] \<Rightarrow> (d, None)
      | (first_key, v) # rest \<Rightarrow>
          (if count_list first_key 58 = 2 then (d, None)
           else (let (migrated, n) = fold (migrate_row fmt) d ([], 0)
                 in if 0 < n
                    then (let (written, needs_reload) = write_json migrated
                          in (if needs_reload then written else migrated, Some written))
                    else (migrated, None))))"

section \<open>Calls\<close>

text \<open>\<open>initialize\<close>: the flag of the storage object, and the load by the first process.\<close>

definition kv_register :: "string \<Rightarrow> nat \<Rightarrow> kv_world \<Rightarrow> kv_world" where
  "kv_register ns p w =
     (case get_update_flag (kw_flags w) ns of
        (reg, h) \<Rightarrow> w\<lparr>kw_flags := reg, kw_handle := (kw_handle w)(p := Some h)\<rparr>)"

definition is_cache_namespace :: "string \<Rightarrow> bool" where
  "is_cache_namespace ns \<longleftrightarrow> take 6 (rev ns) = rev ''_cache''"

definition kv_load :: "(jval \<Rightarrow> pystr) \<Rightarrow> string \<Rightarrow> nat \<Rightarrow> kv_world \<Rightarrow> kv_world \<times> kv_error option" where
  "kv_load fmt ns p w =
     (let need_init = \<not> kw_inited w;
          w1 = w\<lparr>kw_inited := True, kw_bound := (kw_bound w)(p := True)\<rparr>
      in if \<not> need_init then (w1, None)
         else (case load_json (kw_disk w) of
                 Inl e \<Rightarrow> (w1, Some e)
               | Inr loaded \<Rightarrow>
                   (let rows = (case loaded of None \<Rightarrow> [] | Some d \<Rightarrow> d);
                        (rows', written) =
                          (if is_cache_namespace ns then migrate_legacy_cache_structure fmt rows
                           else (rows, None))
                    in (w1\<lparr>kw_disk := (case written of None \<Rightarrow> kw_disk w | Some d \<Rightarrow> Rows d),
                           kw_data := kv_update (kw_data w1) rows'\<rparr>, None))))"

text \<open>The end of every writing section: raise every flag of the namespace.\<close>

definition kv_mark_dirty :: "string \<Rightarrow> kv_world \<Rightarrow> kv_world \<times> kv_error option" where
  "kv_mark_dirty ns w =
     (case set_all_update_flags (kw_flags w) ns of
        Inl e \<Rightarrow> (w, Some KV_ValueError)
      | Inr reg \<Rightarrow> (w\<lparr>kw_flags := reg\<rparr>, None))"

definition kv_put :: "string \<Rightarrow> kv_data \<Rightarrow> kv_world \<Rightarrow> kv_world \<times> kv_error option" where
  "kv_put ns new w = kv_mark_dirty ns (w\<lparr>kw_data := kv_update (kw_data w) new\<rparr>)"

definition is_text_chunks :: "string \<Rightarrow> bool" where
  "is_text_chunks ns \<longleftrightarrow> take 11 (rev ns) = rev ''text_chunks''"

definition stamp_row :: "string \<Rightarrow> int \<Rightarrow> kv_data \<Rightarrow> pystr \<Rightarrow> kv_row \<Rightarrow> kv_row" where
  "stamp_row ns now existing k v =
     (let v1 = (if is_text_chunks ns \<and> map_of v ''llm_cache_list'' = None
                then od_set ''llm_cache_list'' (JArr []) v else v);
          t = JNum (of_int now);
          v2 = (if map_of existing k \<noteq> None then od_set ''update_time'' t v1
                else od_set ''update_time'' t (od_set ''create_time'' t v1))
      in od_set ''_id'' (JStr k) v2)"

definition kv_upsert ::
    "string \<Rightarrow> int \<Rightarrow> (pystr, kv_row) odict \<Rightarrow> kv_world \<Rightarrow> kv_world \<times> kv_error option" where
  "kv_upsert ns now new w =
     (if new = [] then (w, None)
      else kv_put ns (map (\<lambda>(k, v). (k, JObj (stamp_row ns now (kw_data w) k v))) new) w)"

text \<open>\<open>pop\<close> returns \<open>None\<close> for a missing key and for a stored \<open>null\<close>.\<close>

definition pop_row :: "pystr \<Rightarrow> kv_data \<times> bool \<Rightarrow> kv_data \<times> bool" where
  "pop_row k acc =
     (od_del k (fst acc),
      snd acc \<or> (case map_of (fst acc) k of None \<Rightarrow> False | Some v \<Rightarrow> v \<noteq> JNull))"

definition kv_delete :: "string \<Rightarrow> pystr list \<Rightarrow> kv_world \<Rightarrow> kv_world \<times> kv_error option" where
  "kv_delete ns ids w =
     (let (d, any_deleted) = fold pop_row ids (kw_data w, False);
          w1 = w\<lparr>kw_data := d\<rparr>
      in if any_deleted then kv_mark_dirty ns w1 else (w1, None))"

definition kv_clear :: "string \<Rightarrow> kv_world \<Rightarrow> kv_world \<times> kv_error option" where
  "kv_clear ns w = kv_mark_dirty ns (w\<lparr>kw_data := []\<rparr>)"

text \<open>\<open>ok\<close> is whether the write of the file succeeds; \<open>_committed\<close> runs only then.\<close>

definition kv_index_done :: "string \<Rightarrow> bool \<Rightarrow> nat \<Rightarrow> kv_world \<Rightarrow> kv_world \<times> kv_error option" where
  "kv_index_done ns ok p w =
     (case kw_handle w p of
        None \<Rightarrow> (w, Some KV_AttributeError)
      | Some h \<Rightarrow>
          (if \<not> flag_value (kw_flags w) h then (w, None)
           else if \<not> ok then (w, Some KV_OSError)
           else (let (rows, needs_reload) = write_json (kw_data w);
                     w1 = w\<lparr>kw_disk := Rows rows,
                            kw_data := (if needs_reload then kv_update [] rows else kw_data w)\<rparr>
                 in case clear_all_update_flags (kw_flags w1) ns of
                      Inl e \<Rightarrow> (w1, Some KV_ValueError)
                    | Inr reg \<Rightarrow> (w1\<lparr>kw_flags := reg\<rparr>, None))))"

definition kv_drop :: "string \<Rightarrow> bool \<Rightarrow> nat \<Rightarrow> kv_world \<Rightarrow> kv_world \<times> kv_error option" where
  "kv_drop ns ok p w =
     (case kv_clear ns w of
        (w1, Some e) \<Rightarrow> (w1, Some e)
      | (w1, None) \<Rightarrow> kv_index_done ns ok p w1)"

definition kv_finalize :: "string \<Rightarrow> bool \<Rightarrow> nat \<Rightarrow> kv_world \<Rightarrow> kv_world \<times> kv_error option" where
  "kv_finalize ns ok p w = (if is_cache_namespace ns then kv_index_done ns ok p w else (w, None))"

section \<open>Reads\<close>

definition od_default :: "string \<Rightarrow> jval \<Rightarrow> kv_row \<Rightarrow> kv_row" where
  "od_default k v d = (if map_of d k = None then od_set k v d else d)"

definition row_view :: "pystr \<Rightarrow> kv_row \<Rightarrow> kv_row" where
  "row_view i d =
     od_set ''_id'' (JStr i)
       (od_default ''update_time'' (JNum 0) (od_default ''create_time'' (JNum 0) d))"

definition jtruthy :: "jval \<Rightarrow> bool" where
  "jtruthy v =
     (case v of JNull \<Rightarrow> False | JBool b \<Rightarrow> b | JNum r \<Rightarrow> r \<noteq> 0 | JStr s \<Rightarrow> s \<noteq> []
      | JArr vs \<Rightarrow> vs \<noteq> [] | JObj d \<Rightarrow> d \<noteq> [])"

text \<open>\<open>setdefault\<close> of a row that is not an object raises.\<close>

definition present_row :: "pystr \<Rightarrow> jval \<Rightarrow> kv_error + jval" where
  "present_row i v = (case v of JObj d \<Rightarrow> Inr (JObj (row_view i d)) | _ \<Rightarrow> Inl KV_AttributeError)"

definition kv_get_by_id :: "pystr \<Rightarrow> kv_world \<Rightarrow> kv_error + jval option" where
  "kv_get_by_id i w =
     (case map_of (kw_data w) i of
        None \<Rightarrow> Inr None
      | Some v \<Rightarrow> if jtruthy v then (case present_row i v of Inl e \<Rightarrow> Inl e | Inr r \<Rightarrow> Inr (Some r))
                  else Inr (if v = JNull then None else Some v))"

fun kv_get_by_ids :: "pystr list \<Rightarrow> kv_world \<Rightarrow> kv_error + jval option list" where
  "kv_get_by_ids [] w = Inr []"
| "kv_get_by_ids (i # ids) w =
     (case (case map_of (kw_data w) i of
              None \<Rightarrow> Inr None
            | Some v \<Rightarrow> if jtruthy v then (case present_row i v of Inl e \<Rightarrow> Inl e | Inr r \<Rightarrow> Inr (Some r))
                        else Inr None) of
        Inl e \<Rightarrow> Inl e
      | Inr r \<Rightarrow> (case kv_get_by_ids ids w of Inl e \<Rightarrow> Inl e | Inr rs \<Rightarrow> Inr (r # rs)))"

definition kv_filter_keys :: "pystr set \<Rightarrow> kv_world \<Rightarrow> pystr set" where
  "kv_filter_keys ks w = {k \<in> ks. k \<notin> set (od_keys (kw_data w))}"

definition kv_is_empty :: "kv_world \<Rightarrow> bool" where
  "kv_is_empty w \<longleftrightarrow> length (kw_data w) = 0"

section \<open>Runs\<close>

text \<open>The calls of the storage objects that share a namespace, in any order. An object that has not
  registered its flag loads nothing, and one that has not loaded writes nothing; \<open>Put\<close> stands for the
  writing sections of the document-status storage.\<close>

datatype kv_op =
    Kv_register nat
  | Kv_load nat
  | Kv_put nat kv_data
  | Kv_upsert nat int "(pystr, kv_row) odict"
  | Kv_delete nat "pystr list"
  | Kv_clear nat
  | Kv_flush nat bool
  | Kv_finalize nat bool

definition kv_exec :: "(jval \<Rightarrow> pystr) \<Rightarrow> string \<Rightarrow> kv_op \<Rightarrow> kv_world \<Rightarrow> kv_world" where
  "kv_exec fmt ns op w =
     (case op of
        Kv_register p \<Rightarrow> if kw_handle w p = None then kv_register ns p w else w
      | Kv_load p \<Rightarrow> if kw_handle w p \<noteq> None \<and> \<not> kw_bound w p then fst (kv_load fmt ns p w) else w
      | Kv_put p new \<Rightarrow> if kw_bound w p then fst (kv_put ns new w) else w
      | Kv_upsert p now new \<Rightarrow> if kw_bound w p then fst (kv_upsert ns now new w) else w
      | Kv_delete p ids \<Rightarrow> if kw_bound w p then fst (kv_delete ns ids w) else w
      | Kv_clear p \<Rightarrow> if kw_bound w p then fst (kv_clear ns w) else w
      | Kv_flush p ok \<Rightarrow> if kw_bound w p then fst (kv_index_done ns ok p w) else w
      | Kv_finalize p ok \<Rightarrow> if kw_bound w p then fst (kv_finalize ns ok p w) else w)"

definition kv_run :: "(jval \<Rightarrow> pystr) \<Rightarrow> string \<Rightarrow> kv_op list \<Rightarrow> kv_world \<Rightarrow> kv_world" where
  "kv_run fmt ns ops w = fold (kv_exec fmt ns) ops w"

definition kv_start :: "kv_disk \<Rightarrow> kv_world" where
  "kv_start d =
     \<lparr>kw_data = [], kw_disk = d, kw_inited = False, kw_flags = [], kw_handle = (\<lambda>_. None),
      kw_bound = (\<lambda>_. False)\<rparr>"

section \<open>The contract of the flags\<close>

text \<open>The storages of this theory also lower the whole board.\<close>

locale dirty_board = flag_board held val assign announce register board
  for held :: "'r \<Rightarrow> 'h \<Rightarrow> bool" and val :: "'r \<Rightarrow> 'h \<Rightarrow> bool" and assign :: "'r \<Rightarrow> 'h \<Rightarrow> bool \<Rightarrow> 'r"
    and announce :: "'r \<Rightarrow> 'n \<Rightarrow> 'r res" and register :: "'r \<Rightarrow> 'n \<Rightarrow> 'r \<times> 'h" and board :: "'h \<Rightarrow> 'n" +
  fixes lower :: "'r \<Rightarrow> 'n \<Rightarrow> 'r res"
  assumes lower_total: "held r h \<Longrightarrow> \<exists>r'. lower r (board h) = Inr r'"
    and val_lower: "lower r n = Inr r' \<Longrightarrow> val r' h = (board h \<noteq> n \<and> val r h)"
    and held_lower: "lower r n = Inr r' \<Longrightarrow> held r' h = held r h"
begin

lemma raise_board:
  assumes "held r h" "board h = n"
  shows "\<exists>r'. announce r n = Inr r' \<and> (\<forall>h'. held r' h' = held r h')
    \<and> (\<forall>h'. held r h' \<longrightarrow> board h' = n \<longrightarrow> val r' h')"
  using announce_total [OF assms(1)] assms held_announce val_announce by metis

lemma lower_board:
  assumes "held r h" "board h = n"
  shows "\<exists>r'. lower r n = Inr r' \<and> (\<forall>h'. held r' h' = held r h')
    \<and> (\<forall>h'. board h' = n \<longrightarrow> \<not> val r' h')"
  using lower_total [OF assms(1)] assms held_lower val_lower by metis

end

interpretation df: dirty_board flag_held flag_value set_flag_value set_all_update_flags
  get_update_flag fst clear_all_update_flags
proof unfold_locales
  fix r :: flag_registry and h :: flag_handle
  assume "flag_held r h"
  then show "\<exists>r'. clear_all_update_flags r (fst h) = Inr r'"
    by (auto simp: flag_held_def clear_all_update_flags_def split: option.splits if_splits)
next
  fix r r' :: flag_registry and n and h :: flag_handle
  assume "clear_all_update_flags r n = Inr r'"
  then show "flag_value r' h = (fst h \<noteq> n \<and> flag_value r h)"
    by (cases h) (auto simp: flag_value_def clear_all_update_flags_def split: option.splits if_splits)
next
  fix r r' :: flag_registry and n and h :: flag_handle
  assume "clear_all_update_flags r n = Inr r'"
  then show "flag_held r' h = flag_held r h"
    by (cases h) (auto simp: flag_held_def clear_all_update_flags_def split: option.splits if_splits)
qed

section \<open>Dictionaries built by assignment\<close>

lemma fold_assign_outside:
  "k \<notin> f ` set (od_keys d) \<Longrightarrow> map_of (fold (\<lambda>(k, v). od_set (f k) (g v)) d acc) k = map_of acc k"
  by (induction d arbitrary: acc) auto

lemma fold_assign_wf: "od_wf acc \<Longrightarrow> od_wf (fold (\<lambda>(k, v). od_set (f k) (g v)) d acc)"
  by (induction d arbitrary: acc) auto

lemma fold_assign_lookup:
  assumes "od_wf d" "f k = k" "\<forall>k' \<in> set (od_keys d). f k' = k \<longrightarrow> k' = k"
  shows "map_of (fold (\<lambda>(k, v). od_set (f k) (g v)) d acc) k
    = (case map_of d k of None \<Rightarrow> map_of acc k | Some v \<Rightarrow> Some (g v))"
  using assms
proof (induction d arbitrary: acc)
  case (Cons kv d)
  obtain a v where kv: "kv = (a, v)" by (cases kv)
  have wf: "od_wf d" "a \<notin> set (od_keys d)" using Cons.prems(1) kv by (auto simp: od_wf_def)
  show ?case
  proof (cases "a = k")
    case True
    have out: "k \<notin> f ` set (od_keys d)"
    proof
      assume "k \<in> f ` set (od_keys d)"
      then obtain k' where k': "k' \<in> set (od_keys d)" "f k' = k" by blast
      with Cons.prems(3) have "k' = k" by auto
      with k'(1) wf(2) True show False by blast
    qed
    show ?thesis using True kv Cons.prems(2) fold_assign_outside[OF out, of g "od_set (f a) (g v) acc"] by simp
  next
    case False
    then show ?thesis using Cons.IH[OF wf(1) Cons.prems(2)] Cons.prems(3) kv by (auto split: option.split)
  qed
qed simp

lemma fold_assign_mem:
  "(k, v) \<in> set (fold (\<lambda>(k, v). od_set (f k) (g v)) d acc)
    \<Longrightarrow> (k, v) \<in> set acc \<or> (\<exists>(a, b) \<in> set d. k = f a \<and> v = g b)"
proof (induction d arbitrary: acc)
  case (Cons kv d)
  obtain a b where kv: "kv = (a, b)" by (cases kv)
  have "(k, v) \<in> set (od_set (f a) (g b) acc)
      \<Longrightarrow> (k, v) \<in> set acc \<or> (k = f a \<and> v = g b)"
    by (induction acc) (auto split: if_splits)
  then show ?case using Cons.IH[of "od_set (f a) (g b) acc"] Cons.prems kv by auto
qed simp

lemma kv_update_fold: "kv_update d new = fold (\<lambda>(k, v). od_set (id k) (id v)) new d"
  by (simp add: kv_update_def)

lemma kv_update_lookup:
  "od_wf new \<Longrightarrow> map_of (kv_update d new) k
    = (case map_of new k of None \<Rightarrow> map_of d k | Some v \<Rightarrow> Some v)"
  unfolding kv_update_fold by (subst fold_assign_lookup) (auto split: option.split)

lemma kv_update_outside: "k \<notin> set (od_keys new) \<Longrightarrow> map_of (kv_update d new) k = map_of d k"
  unfolding kv_update_fold by (rule fold_assign_outside) simp

lemma kv_update_wf: "od_wf d \<Longrightarrow> od_wf (kv_update d new)"
  unfolding kv_update_fold by (rule fold_assign_wf)

lemma kv_update_mem: "(k, v) \<in> set (kv_update d new) \<Longrightarrow> (k, v) \<in> set d \<or> (k, v) \<in> set new"
  unfolding kv_update_fold by (drule fold_assign_mem) auto

lemma kv_update_self: "od_wf d \<Longrightarrow> kv_update [] d = d"
proof -
  have "od_wf (acc @ d) \<Longrightarrow> kv_update acc d = acc @ d" for acc
  proof (induction d arbitrary: acc)
    case (Cons kv d)
    have new: "map_of acc (fst kv) = None"
      using Cons.prems by (auto simp: od_wf_def map_of_eq_None_iff)
    show ?case using Cons.IH[of "acc @ [kv]"] Cons.prems od_set_new[OF new, of "snd kv"]
      by (simp add: kv_update_def case_prod_beta)
  qed (simp add: kv_update_def)
  from this[of "[]"] show "od_wf d \<Longrightarrow> ?thesis" by simp
qed

lemma pop_rows:
  "fold pop_row ids acc = (d, b) \<Longrightarrow>
     (\<forall>k. map_of d k = (if k \<in> set ids then None else map_of (fst acc) k))
     \<and> (od_wf (fst acc) \<longrightarrow> od_wf d) \<and> set d \<subseteq> set (fst acc)
     \<and> (snd acc \<longrightarrow> b)
     \<and> ((\<forall>(k, v) \<in> set (fst acc). v \<noteq> JNull) \<longrightarrow> \<not> b \<longrightarrow> d = fst acc)"
proof (induction ids arbitrary: acc)
  case (Cons i ids)
  have sub: "set (od_del i (fst acc)) \<subseteq> set (fst acc)" by (auto simp: AList.delete_eq)
  have keep: "od_del i (fst acc) = fst acc"
    if "\<forall>(k, v) \<in> set (fst acc). v \<noteq> JNull" "\<not> snd (pop_row i acc)"
    using that map_of_SomeD[of "fst acc" i]
    by (intro od_del_absent) (auto simp: pop_row_def split: option.splits)
  show ?case
    using Cons.IH[of "pop_row i acc"] Cons.prems sub keep
    by (auto simp: pop_row_def)
qed simp

section \<open>What a flag that is down means\<close>

definition disk_rows :: "kv_disk \<Rightarrow> kv_data" where
  "disk_rows d = (case d of Rows rows \<Rightarrow> rows | _ \<Rightarrow> [])"

definition rows_ok :: "kv_data \<Rightarrow> bool" where
  "rows_ok d \<longleftrightarrow> od_wf d \<and> (\<forall>(k, v) \<in> set d. v \<noteq> JNull)"

definition flags_ok :: "string \<Rightarrow> kv_world \<Rightarrow> bool" where
  "flags_ok ns w \<longleftrightarrow> (\<forall>p h. kw_handle w p = Some h \<longrightarrow> flag_held (kw_flags w) h \<and> fst h = ns)"

definition raised :: "kv_world \<Rightarrow> nat \<Rightarrow> bool" where
  "raised w p \<longleftrightarrow> (\<exists>h. kw_handle w p = Some h \<and> flag_value (kw_flags w) h)"

definition kv_inv :: "string \<Rightarrow> kv_world \<Rightarrow> bool" where
  "kv_inv ns w \<longleftrightarrow>
     flags_ok ns w \<and> rows_ok (kw_data w) \<and> rows_ok (disk_rows (kw_disk w)) \<and> kw_disk w \<noteq> Broken
     \<and> (\<forall>p. kw_bound w p \<longrightarrow> kw_handle w p \<noteq> None \<and> kw_inited w)
     \<and> (\<not> kw_inited w \<longrightarrow> kw_data w = [] \<and> (\<forall>p. \<not> raised w p))
     \<and> (kw_inited w \<and> (\<forall>p. \<not> raised w p) \<longrightarrow> kw_data w = disk_rows (kw_disk w))"

text \<open>Rows handed to the storage are objects, never \<open>null\<close>.\<close>

definition kv_op_ok :: "kv_op \<Rightarrow> bool" where
  "kv_op_ok op = (case op of Kv_put p new \<Rightarrow> (\<forall>(k, v) \<in> set new. v \<noteq> JNull) | _ \<Rightarrow> True)"

lemma rows_ok_update: "rows_ok d \<Longrightarrow> \<forall>(k, v) \<in> set new. v \<noteq> JNull \<Longrightarrow> rows_ok (kv_update d new)"
  using kv_update_mem[of _ _ d new] by (fastforce simp: rows_ok_def kv_update_wf)

lemma rows_ok_Nil [simp]: "rows_ok []"
  by (simp add: rows_ok_def)

lemma sanitize_not_null: "sanitize_for_encoding v = JNull \<longleftrightarrow> v = JNull"
  by (cases v) auto

lemma rows_ok_sanitize:
  assumes "rows_ok d"
  shows "rows_ok (sanitize_rows d)"
proof -
  have "v \<noteq> JNull" if h: "(k, v) \<in> set (sanitize_rows d)" for k v
    using fold_assign_mem[OF h[unfolded sanitize_rows_def]] assms sanitize_not_null
    by (auto simp: rows_ok_def)
  moreover have "od_wf (sanitize_rows d)" unfolding sanitize_rows_def by (rule fold_assign_wf) simp
  ultimately show ?thesis by (auto simp: rows_ok_def)
qed

lemma flags_okD: "flags_ok ns w \<Longrightarrow> kw_handle w p = Some h \<Longrightarrow> flag_held (kw_flags w) h \<and> fst h = ns"
  unfolding flags_ok_def by blast

lemma inv_flags: "kv_inv ns w \<Longrightarrow> flags_ok ns w"
  by (simp add: kv_inv_def)

lemma inv_bound: "kv_inv ns w \<Longrightarrow> kw_bound w p \<Longrightarrow> kw_handle w p \<noteq> None \<and> kw_inited w"
  by (simp add: kv_inv_def)

lemma inv_rows: "kv_inv ns w \<Longrightarrow> rows_ok (kw_data w)"
  by (simp add: kv_inv_def)

lemma flags_frame:
  assumes "kw_handle w' = kw_handle w" "kw_flags w' = kw_flags w"
  shows "raised w' q = raised w q" "flags_ok ns w' = flags_ok ns w"
  using assms by (simp_all add: raised_def flags_ok_def)

lemma raised_iff: "kw_handle w p = Some h \<Longrightarrow> raised w p \<longleftrightarrow> flag_value (kw_flags w) h"
  by (simp add: raised_def)

lemma mark_dirty_raises:
  assumes "flags_ok ns w" "kw_handle w p = Some h"
  shows "\<exists>reg. kv_mark_dirty ns w = (w\<lparr>kw_flags := reg\<rparr>, None)
    \<and> flags_ok ns (w\<lparr>kw_flags := reg\<rparr>)
    \<and> (\<forall>q. raised (w\<lparr>kw_flags := reg\<rparr>) q \<longleftrightarrow> kw_handle w q \<noteq> None)"
proof -
  have "flag_held (kw_flags w) h" "fst h = ns" using flags_okD[OF assms] by simp_all
  from df.raise_board[OF this] obtain reg where reg: "set_all_update_flags (kw_flags w) ns = Inr reg"
    "\<forall>h'. flag_held reg h' = flag_held (kw_flags w) h'"
    "\<forall>h'. flag_held (kw_flags w) h' \<longrightarrow> fst h' = ns \<longrightarrow> flag_value reg h'" by blast
  then show ?thesis using assms(1) by (auto simp: kv_mark_dirty_def flags_ok_def raised_def)
qed

text \<open>A writing section: the shared dictionary changes and every flag goes up.\<close>

lemma kv_inv_written:
  assumes inv: "kv_inv ns w" and b: "kw_bound w p" and d: "rows_ok d"
    and w': "w' = fst (kv_mark_dirty ns (w\<lparr>kw_data := d\<rparr>))"
  shows "kv_inv ns w'" "raised w' p"
    "kw_data w' = d" "kw_bound w' = kw_bound w" "kw_handle w' = kw_handle w" "kw_disk w' = kw_disk w"
    "snd (kv_mark_dirty ns (w\<lparr>kw_data := d\<rparr>)) = None"
proof -
  obtain h where h: "kw_handle w p = Some h" using inv b by (auto simp: kv_inv_def)
  have f: "flags_ok ns (w\<lparr>kw_data := d\<rparr>)" using inv by (simp add: kv_inv_def flags_ok_def)
  obtain reg where reg: "kv_mark_dirty ns (w\<lparr>kw_data := d\<rparr>) = (w\<lparr>kw_data := d, kw_flags := reg\<rparr>, None)"
      "flags_ok ns (w\<lparr>kw_data := d, kw_flags := reg\<rparr>)"
      "\<forall>q. raised (w\<lparr>kw_data := d, kw_flags := reg\<rparr>) q \<longleftrightarrow> kw_handle w q \<noteq> None"
    using mark_dirty_raises[OF f, of p h] h by auto
  show "raised w' p" "kw_data w' = d" "kw_bound w' = kw_bound w" "kw_handle w' = kw_handle w"
    "kw_disk w' = kw_disk w" "snd (kv_mark_dirty ns (w\<lparr>kw_data := d\<rparr>)) = None"
    using reg h by (simp_all add: w')
  have "raised w' p" using reg h by (simp add: w')
  then show "kv_inv ns w'" using inv d reg b unfolding w' by (auto simp: kv_inv_def)
qed

lemma index_done_saves:
  assumes inv: "kv_inv ns w" and b: "kw_bound w p"
    and w': "w' = fst (kv_index_done ns ok p w)"
  shows "kv_inv ns w' \<and> kw_handle w' = kw_handle w \<and> kw_bound w' = kw_bound w \<and> kw_inited w' = kw_inited w
    \<and> (if raised w p \<and> ok
       then kw_disk w' = Rows (fst (write_json (kw_data w))) \<and> kw_data w' = fst (write_json (kw_data w))
         \<and> (\<forall>q. \<not> raised w' q)
       else w' = w)"
proof -
  obtain h where h: "kw_handle w p = Some h" using inv b by (auto simp: kv_inv_def)
  have hs: "flag_held (kw_flags w) h" "fst h = ns" using flags_okD[OF inv_flags[OF inv] h] by simp_all
  show ?thesis
  proof (cases "raised w p \<and> ok")
    case False
    then have "w' = w" using h by (auto simp: w' kv_index_done_def raised_def)
    then show ?thesis using False inv by auto
  next
    case True
    obtain reg where reg: "clear_all_update_flags (kw_flags w) ns = Inr reg"
      "\<forall>h'. flag_held reg h' = flag_held (kw_flags w) h'" "\<forall>h'. fst h' = ns \<longrightarrow> \<not> flag_value reg h'"
      using df.lower_board[OF hs] by blast
    define rows where "rows = fst (write_json (kw_data w))"
    have rows: "rows_ok rows" using inv rows_ok_sanitize
      by (simp add: rows_def write_json_def kv_inv_def)
    have wf: "kv_update [] rows = rows" using rows by (simp add: rows_ok_def kv_update_self)
    have same: "\<not> snd (write_json (kw_data w)) \<longrightarrow> kw_data w = rows"
      by (simp add: rows_def write_json_def)
    have w1: "w' = w\<lparr>kw_disk := Rows rows, kw_data := rows, kw_flags := reg\<rparr>"
    proof (cases "snd (write_json (kw_data w))")
      case True
      then have wj: "write_json (kw_data w) = (rows, True)" by (simp add: rows_def prod_eq_iff)
      show ?thesis using \<open>raised w p \<and> ok\<close> h reg(1) wf
        unfolding w' by (simp add: kv_index_done_def raised_def wj)
    next
      case False
      then have e: "kw_data w = rows" using same by simp
      have wj: "write_json rows = (rows, False)" using False rows_def [symmetric]
        unfolding e by (simp add: prod_eq_iff)
      show ?thesis using \<open>raised w p \<and> ok\<close> h reg(1)
        unfolding w' by (simp add: kv_index_done_def raised_def e wj)
    qed
    have low: "\<forall>q. \<not> raised w' q"
      using inv reg(3) by (auto simp: w1 raised_def kv_inv_def flags_ok_def)
    have "flags_ok ns w'" using inv reg(2) by (simp add: w1 kv_inv_def flags_ok_def)
    then have "kv_inv ns w'" using inv rows b low
      by (auto simp: w1 kv_inv_def disk_rows_def)
    then show ?thesis using True low by (simp add: w1 rows_def)
  qed
qed

lemma register_keeps:
  assumes inv: "kv_inv ns w" and new: "kw_handle w p = None" and w': "w' = kv_register ns p w"
  shows "kv_inv ns w' \<and> kw_data w' = kw_data w \<and> kw_disk w' = kw_disk w \<and> kw_bound w' = kw_bound w
    \<and> kw_inited w' = kw_inited w \<and> kw_handle w' p \<noteq> None
    \<and> (\<forall>q. q \<noteq> p \<longrightarrow> kw_handle w' q = kw_handle w q) \<and> (\<forall>q. raised w' q \<longleftrightarrow> raised w q)"
proof -
  obtain reg h where rg: "get_update_flag (kw_flags w) ns = (reg, h)" by (cases "get_update_flag (kw_flags w) ns")
  have w1: "w' = w\<lparr>kw_flags := reg, kw_handle := (kw_handle w)(p := Some h)\<rparr>"
    by (simp add: w' kv_register_def rg)
  have h: "flag_held reg h" "\<not> flag_value reg h" "fst h = ns" using uf.register_new[OF rg] by simp_all
  have old: "flag_held (kw_flags w) h' \<Longrightarrow> flag_held reg h' \<and> flag_value reg h' = flag_value (kw_flags w) h'" for h'
    using uf.register_old[OF rg] .
  have held: "kw_handle w q = Some h' \<Longrightarrow> flag_held (kw_flags w) h' \<and> fst h' = ns" for q h'
    using flags_okD[OF inv_flags[OF inv]] .
  have r: "raised w' q \<longleftrightarrow> raised w q" for q
    using h new old held by (auto simp: w1 raised_def)
  have f: "flags_ok ns w'" using h old held by (auto simp: w1 flags_ok_def)
  have "kv_inv ns w'" using inv f r new by (auto simp: kv_inv_def w1)
  then show ?thesis using r by (simp add: w1)
qed

lemma load_keeps:
  assumes inv: "kv_inv ns w" and nc: "\<not> is_cache_namespace ns" and h: "kw_handle w p \<noteq> None"
    and w': "w' = fst (kv_load fmt ns p w)"
  shows "kv_inv ns w' \<and> kw_disk w' = kw_disk w \<and> kw_handle w' = kw_handle w \<and> kw_flags w' = kw_flags w
    \<and> (\<forall>q. kw_bound w' q \<longleftrightarrow> kw_bound w q \<or> q = p)
    \<and> kw_data w' = (if kw_inited w then kw_data w else disk_rows (kw_disk w))"
proof -
  show ?thesis
  proof (cases "kw_inited w")
    case True
    then have "w' = w\<lparr>kw_bound := (kw_bound w)(p := True)\<rparr>" by (simp add: w' kv_load_def)
    then show ?thesis using True inv h flags_frame[of w' w] by (auto simp: kv_inv_def)
  next
    case False
    obtain loaded where l: "load_json (kw_disk w) = Inr loaded"
      "(case loaded of None \<Rightarrow> [] | Some d \<Rightarrow> d) = disk_rows (kw_disk w)"
      using inv by (cases "kw_disk w") (auto simp: load_json_def disk_rows_def kv_inv_def)
    have d: "kw_data w = []" "od_wf (disk_rows (kw_disk w))"
      using False inv by (simp_all add: kv_inv_def rows_ok_def)
    have "w' = w\<lparr>kw_inited := True, kw_bound := (kw_bound w)(p := True), kw_disk := kw_disk w,
        kw_data := disk_rows (kw_disk w)\<rparr>"
      using False nc l d kv_update_self[OF d(2)] by (simp add: w' kv_load_def Let_def)
    then show ?thesis using False inv h flags_frame[of w' w] by (auto simp: kv_inv_def)
  qed
qed

section \<open>A committed write survives\<close>

lemma upsert_as_put:
  "kv_upsert ns now new w =
     (if new = [] then (w, None)
      else kv_mark_dirty ns (w\<lparr>kw_data :=
        kv_update (kw_data w) (map (\<lambda>(k, v). (k, JObj (stamp_row ns now (kw_data w) k v))) new)\<rparr>))"
  by (simp add: kv_upsert_def kv_put_def)

lemma rows_ok_stamped:
  "rows_ok d \<Longrightarrow> rows_ok (kv_update d (map (\<lambda>(k, v). (k, JObj (f k v))) new))"
  by (rule rows_ok_update) auto

lemma rows_ok_popped:
  assumes "rows_ok d" "fold pop_row ids (d, False) = (d', b)"
  shows "rows_ok d'" "\<not> b \<Longrightarrow> d' = d"
  using pop_rows[OF assms(2)] assms(1) by (auto simp: rows_ok_def)

text \<open>Every call keeps the invariant; an object that has loaded stays bound to the same flag.\<close>

lemma kv_exec_inv:
  assumes inv: "kv_inv ns w" and nc: "\<not> is_cache_namespace ns" and ok: "kv_op_ok op"
  shows "kv_inv ns (kv_exec fmt ns op w)
    \<and> (\<forall>p. kw_bound w p \<longrightarrow> kw_bound (kv_exec fmt ns op w) p
          \<and> kw_handle (kv_exec fmt ns op w) p = kw_handle w p)"
proof (cases op)
  case (Kv_register p)
  show ?thesis
  proof (cases "kw_handle w p")
    case None
    have "kw_handle (kv_register ns p w) q = kw_handle w q" if b: "kw_bound w q" for q
      using register_keeps[OF inv None refl] inv_bound [OF inv b] None by (cases "q = p") auto
    then show ?thesis using register_keeps[OF inv None refl] Kv_register None
      by (simp add: kv_exec_def)
  qed (use inv Kv_register in \<open>simp add: kv_exec_def\<close>)
next
  case (Kv_load p)
  then show ?thesis using load_keeps[OF inv nc _ refl, of p fmt] inv by (simp add: kv_exec_def)
next
  case (Kv_put p new)
  have d: "rows_ok (kv_update (kw_data w) new)"
    using inv ok Kv_put rows_ok_update by (simp add: kv_inv_def kv_op_ok_def)
  show ?thesis using kv_inv_written[OF inv _ d refl, of p] Kv_put inv
    by (auto simp: kv_exec_def kv_put_def)
next
  case (Kv_upsert p now new)
  have d: "rows_ok (kv_update (kw_data w) (map (\<lambda>(k, v). (k, JObj (stamp_row ns now (kw_data w) k v))) new))"
    using inv by (intro rows_ok_stamped) (simp add: kv_inv_def)
  show ?thesis using kv_inv_written[OF inv _ d refl, of p] Kv_upsert inv
    by (auto simp: kv_exec_def upsert_as_put)
next
  case (Kv_delete p ids)
  obtain d b where pop: "fold pop_row ids (kw_data w, False) = (d, b)" by (cases "fold pop_row ids (kw_data w, False)")
  have d: "rows_ok d" "\<not> b \<Longrightarrow> d = kw_data w" using rows_ok_popped[OF _ pop] inv by (auto simp: kv_inv_def)
  show ?thesis using kv_inv_written[OF inv _ d(1) refl, of p] d(2) Kv_delete inv
    by (cases b) (auto simp: kv_exec_def kv_delete_def pop)
next
  case (Kv_clear p)
  show ?thesis using kv_inv_written[OF inv _ rows_ok_Nil refl, of p] Kv_clear inv
    by (auto simp: kv_exec_def kv_clear_def)
next
  case (Kv_flush p ok')
  then show ?thesis using index_done_saves[OF inv _ refl, of p ok'] inv by (auto simp: kv_exec_def)
next
  case (Kv_finalize p ok')
  then show ?thesis using nc inv by (simp add: kv_exec_def kv_finalize_def)
qed

lemma kv_run_inv:
  assumes "kv_inv ns w" "\<not> is_cache_namespace ns" "\<forall>op \<in> set ops. kv_op_ok op"
  shows "kv_inv ns (kv_run fmt ns ops w)
    \<and> (\<forall>p. kw_bound w p \<longrightarrow> kw_bound (kv_run fmt ns ops w) p
          \<and> kw_handle (kv_run fmt ns ops w) p = kw_handle w p)"
  using assms(1,3)
proof (induction ops arbitrary: w)
  case (Cons op ops)
  then show ?case using kv_exec_inv[OF Cons.prems(1) assms(2), of op fmt]
    Cons.IH[of "kv_exec fmt ns op w"] by (simp add: kv_run_def)
qed (simp add: kv_run_def)

lemma kv_start_inv: "d \<noteq> Broken \<Longrightarrow> rows_ok (disk_rows d) \<Longrightarrow> kv_inv ns (kv_start d)"
  by (simp add: kv_start_def kv_inv_def flags_ok_def raised_def)

text \<open>When every flag is down the file holds the shared dictionary.\<close>

lemma clean_flags_mean_saved:
  assumes "d \<noteq> Broken" "rows_ok (disk_rows d)" "\<not> is_cache_namespace ns" "\<forall>op \<in> set ops. kv_op_ok op"
    and "w = kv_run fmt ns ops (kv_start d)" "kw_inited w" "\<forall>p. \<not> raised w p"
  shows "kw_data w = disk_rows (kw_disk w)"
  using kv_run_inv[OF kv_start_inv assms(3,4)] assms by (auto simp: kv_inv_def)

text \<open>A call spares a row when it names no key that is, or is sanitized to, the key of the row.\<close>

definition kv_spares :: "pystr \<Rightarrow> kv_op \<Rightarrow> bool" where
  "kv_spares k op =
     (case op of
        Kv_put p new \<Rightarrow> k \<notin> sanitize_string_for_json ` set (od_keys new) \<and> k \<notin> set (od_keys new)
      | Kv_upsert p now new \<Rightarrow> k \<notin> sanitize_string_for_json ` set (od_keys new) \<and> k \<notin> set (od_keys new)
      | Kv_delete p ids \<Rightarrow> k \<notin> set ids
      | Kv_clear p \<Rightarrow> False
      | _ \<Rightarrow> True)"

text \<open>No other key is sanitized to \<open>k\<close>.\<close>

definition sole_key :: "pystr \<Rightarrow> kv_data \<Rightarrow> bool" where
  "sole_key k d \<longleftrightarrow> (\<forall>k' \<in> set (od_keys d). sanitize_string_for_json k' = k \<longrightarrow> k' = k)"

text \<open>The row in memory, on its way to the file: the writer's flag is up or the file has it.\<close>

definition on_its_way :: "nat \<Rightarrow> pystr \<Rightarrow> jval \<Rightarrow> kv_world \<Rightarrow> bool" where
  "on_its_way p k v w \<longleftrightarrow>
     kw_bound w p \<and> map_of (kw_data w) k = Some v
     \<and> (raised w p \<or> map_of (disk_rows (kw_disk w)) k = Some v)
     \<and> sole_key k (kw_data w)"

lemma sanitize_string_idem: "sanitize_string_for_json (sanitize_string_for_json s) = sanitize_string_for_json s"
  by (auto simp: sanitize_string_for_json_def list_ex_iff)

lemma sanitized_keys:
  assumes "k \<in> set (od_keys (sanitize_rows d))"
  shows "\<exists>k'. k = sanitize_string_for_json k' \<and> k' \<in> set (od_keys d)"
proof -
  obtain v where "(k, v) \<in> set (sanitize_rows d)" using assms by auto
  from fold_assign_mem [OF this [unfolded sanitize_rows_def]]
  obtain a b where "(a, b) \<in> set d" "k = sanitize_string_for_json a" by auto
  then show ?thesis by force
qed

lemma sole_key_sanitized:
  assumes "sole_key k d"
  shows "sole_key k (sanitize_rows d)"
  unfolding sole_key_def
proof (intro ballI impI)
  fix k1 assume k1: "k1 \<in> set (od_keys (sanitize_rows d))" "sanitize_string_for_json k1 = k"
  obtain k2 where k2: "k1 = sanitize_string_for_json k2" "k2 \<in> set (od_keys d)"
    using sanitized_keys[OF k1(1)] by blast
  have "sanitize_string_for_json k2 = k" using k1(2) k2(1) sanitize_string_idem by simp
  then show "k1 = k" using k2(1) by simp
qed

lemma written_keeps_row:
  assumes "rows_ok d" "map_of d k = Some v"
    and "sanitize_string_for_json k = k" "sanitize_for_encoding v = v" "sole_key k d"
  shows "map_of (fst (write_json d)) k = Some v" "sole_key k (fst (write_json d))"
proof -
  have "map_of (sanitize_rows d) k = Some v"
    using fold_assign_lookup[of d sanitize_string_for_json k sanitize_for_encoding "[]"] assms
    by (simp add: sanitize_rows_def rows_ok_def sole_key_def)
  then show "map_of (fst (write_json d)) k = Some v" using assms(2) by (simp add: write_json_def)
  show "sole_key k (fst (write_json d))"
    using assms(5) sole_key_sanitized by (simp add: write_json_def)
qed

lemma written_on_its_way:
  assumes inv: "kv_inv ns w" and d: "rows_ok d"
    and r: "on_its_way p k v w" and same: "map_of d k = map_of (kw_data w) k" and keys: "sole_key k d"
  shows "on_its_way p k v (fst (kv_mark_dirty ns (w\<lparr>kw_data := d\<rparr>)))"
proof -
  have p: "kw_bound w p" using r by (simp add: on_its_way_def)
  show ?thesis using kv_inv_written[OF inv p d refl] r same keys by (simp add: on_its_way_def)
qed

lemma put_on_its_way:
  assumes inv: "kv_inv ns w" and new: "\<forall>(k, v) \<in> set new. v \<noteq> JNull" and r: "on_its_way p k v w"
    and k: "k \<notin> set (od_keys new)" "k \<notin> sanitize_string_for_json ` set (od_keys new)"
  shows "on_its_way p k v (fst (kv_put ns new w))"
  unfolding kv_put_def
proof (rule written_on_its_way [OF inv _ r])
  show "rows_ok (kv_update (kw_data w) new)" by (rule rows_ok_update [OF inv_rows [OF inv] new])
  show "map_of (kv_update (kw_data w) new) k = map_of (kw_data w) k" by (rule kv_update_outside [OF k(1)])
  show "sole_key k (kv_update (kw_data w) new)" unfolding sole_key_def
  proof (intro ballI impI)
    fix k1 assume k1: "k1 \<in> set (od_keys (kv_update (kw_data w) new))" "sanitize_string_for_json k1 = k"
    then obtain v1 where "(k1, v1) \<in> set (kv_update (kw_data w) new)" by auto
    from kv_update_mem [OF this] have "k1 \<in> set (od_keys (kw_data w)) \<or> k1 \<in> set (od_keys new)" by force
    then show "k1 = k" using k(2) k1(2) r by (auto simp: on_its_way_def sole_key_def)
  qed
qed

lemma kv_exec_on_its_way:
  assumes inv: "kv_inv ns w" and nc: "\<not> is_cache_namespace ns" and ok: "kv_op_ok op"
    and k: "sanitize_string_for_json k = k" and v: "sanitize_for_encoding v = v"
    and r: "on_its_way p k v w" and sp: "kv_spares k op"
  shows "on_its_way p k v (kv_exec fmt ns op w)"
proof (cases op)
  case (Kv_register q)
  show ?thesis
  proof (cases "kw_handle w q")
    case None
    then show ?thesis using register_keeps[OF inv None refl] r Kv_register
      by (simp add: kv_exec_def on_its_way_def)
  qed (use r Kv_register in \<open>simp add: kv_exec_def\<close>)
next
  case (Kv_load q)
  have "kw_inited w" using r inv by (auto simp: on_its_way_def kv_inv_def)
  then show ?thesis using load_keeps[OF inv nc _ refl, of q fmt] r Kv_load flags_frame(1)[of "fst (kv_load fmt ns q w)" w]
    by (auto simp: kv_exec_def on_its_way_def)
next
  case (Kv_put q new)
  then show ?thesis using put_on_its_way [OF inv _ r, of new] ok sp r
    by (simp add: kv_exec_def kv_op_ok_def kv_spares_def)
next
  case (Kv_upsert q now new)
  define rows where "rows = map (\<lambda>(k, v). (k, JObj (stamp_row ns now (kw_data w) k v))) new"
  have nn: "\<forall>(k, v) \<in> set rows. v \<noteq> JNull" by (auto simp: rows_def)
  have "k \<notin> set (od_keys rows)" "k \<notin> sanitize_string_for_json ` set (od_keys rows)"
    using sp Kv_upsert by (simp_all add: kv_spares_def rows_def case_prod_beta comp_def)
  from put_on_its_way [OF inv nn r this] show ?thesis using r Kv_upsert
    by (simp add: kv_exec_def kv_upsert_def rows_def)
next
  case (Kv_delete q ids)
  obtain d b where pop: "fold pop_row ids (kw_data w, False) = (d, b)"
    by (cases "fold pop_row ids (kw_data w, False)")
  note d = rows_ok_popped [OF inv_rows [OF inv] pop]
  have m: "map_of d k = map_of (kw_data w) k" "set d \<subseteq> set (kw_data w)"
    using pop_rows [OF pop] sp Kv_delete by (simp_all add: kv_spares_def)
  have "sole_key k d" using m(2) r by (auto simp: on_its_way_def sole_key_def)
  from written_on_its_way [OF inv d(1) r m(1) this] show ?thesis using d(2) r Kv_delete
    by (cases b) (simp_all add: kv_exec_def kv_delete_def pop)
next
  case (Kv_clear q)
  then show ?thesis using sp by (simp add: kv_spares_def)
next
  case (Kv_flush q ok')
  show ?thesis
  proof (cases "kw_bound w q \<and> raised w q \<and> ok'")
    case True
    have "map_of (kw_data w) k = Some v" "sole_key k (kw_data w)" using r by (simp_all add: on_its_way_def)
    note wr = written_keeps_row [OF inv_rows [OF inv] this(1) k v this(2)]
    show ?thesis using index_done_saves [OF inv _ refl, of q ok'] True r Kv_flush wr
      by (simp add: kv_exec_def on_its_way_def disk_rows_def)
  next
    case False
    then show ?thesis using index_done_saves[OF inv _ refl, of q ok'] r Kv_flush
      by (auto simp: kv_exec_def)
  qed
next
  case (Kv_finalize q ok')
  then show ?thesis using nc r by (simp add: kv_exec_def kv_finalize_def)
qed

lemma kv_run_on_its_way:
  assumes "kv_inv ns w" "\<not> is_cache_namespace ns" "on_its_way p k v w"
    and "sanitize_string_for_json k = k" "sanitize_for_encoding v = v"
    and "\<forall>op \<in> set ops. kv_op_ok op \<and> kv_spares k op"
  shows "kv_inv ns (kv_run fmt ns ops w) \<and> on_its_way p k v (kv_run fmt ns ops w)"
  using assms(1,3,6)
proof (induction ops arbitrary: w)
  case (Cons op ops)
  have op: "kv_op_ok op" "kv_spares k op" using Cons.prems(3) by simp_all
  show ?case
    using kv_exec_inv [OF Cons.prems(1) assms(2) op(1), of fmt] Cons.prems(3)
      kv_exec_on_its_way [OF Cons.prems(1) assms(2) op(1) assms(4,5) Cons.prems(2) op(2), of fmt]
      Cons.IH [of "kv_exec fmt ns op w"] by (simp add: kv_run_def)
qed (simp add: kv_run_def)

text \<open>A restart reads the file.\<close>

lemma restart_reads_file:
  assumes "d \<noteq> Broken" "rows_ok (disk_rows d)" "\<not> is_cache_namespace ns"
  shows "kw_data (kv_run fmt ns [Kv_register q, Kv_load q] (kv_start d)) = disk_rows d"
proof -
  note inv = kv_start_inv [OF assms(1,2), of ns]
  have h: "kw_handle (kv_start d) q = None" "\<not> kw_inited (kv_start d)" "\<not> kw_bound (kv_start d) q"
    "kw_disk (kv_start d) = d" by (simp_all add: kv_start_def)
  note r = register_keeps [OF inv h(1) refl]
  have i: "kv_inv ns (kv_register ns q (kv_start d))" "kw_handle (kv_register ns q (kv_start d)) q \<noteq> None"
    using r by simp_all
  show ?thesis using load_keeps [OF i(1) assms(3) i(2) refl, of fmt] r h
    by (simp add: kv_run_def kv_exec_def)
qed

text \<open>C14. A storage object upserts a row. Whatever the objects of all processes
  do next, other than naming the key (or one that is sanitized to it) or dropping the storage, and
  however many of their own saves fail, a save by the writer leaves the row in the file as it was
  stamped, and a restart reads it from there: no other process's save lowers the writer's flag without
  having saved the row.\<close>

theorem committed_write_survives:
  assumes "d \<noteq> Broken" "rows_ok (disk_rows d)" "\<not> is_cache_namespace ns"
    and "w = kv_run fmt ns before (kv_start d)" "\<forall>op \<in> set before. kv_op_ok op"
    and "kw_bound w p" "kv_upsert ns now new w = (w1, None)" "od_wf new" "(k, row) \<in> set new"
    and "stored = JObj (stamp_row ns now (kw_data w) k row)"
    and "sanitize_string_for_json k = k" "sanitize_for_encoding stored = stored" "sole_key k (kw_data w1)"
    and "\<forall>op \<in> set after. kv_op_ok op \<and> kv_spares k op"
    and "w2 = fst (kv_index_done ns True p (kv_run fmt ns after w1))"
  shows "map_of (disk_rows (kw_disk w2)) k = Some stored
    \<and> map_of (kw_data (kv_run fmt ns [Kv_register q, Kv_load q] (kv_start (kw_disk w2)))) k = Some stored"
proof -
  have inv: "kv_inv ns w" using kv_run_inv [OF kv_start_inv [OF assms(1,2)] assms(3,5)] assms(4) by simp
  define rows where "rows = map (\<lambda>(k, v). (k, JObj (stamp_row ns now (kw_data w) k v))) new"
  have up: "fst (kv_mark_dirty ns (w\<lparr>kw_data := kv_update (kw_data w) rows\<rparr>)) = w1"
    using assms(7,9) by (cases new) (simp_all add: upsert_as_put rows_def)
  have ok: "rows_ok (kv_update (kw_data w) rows)"
    unfolding rows_def by (rule rows_ok_stamped [OF inv_rows [OF inv]])
  note wr = kv_inv_written [OF inv assms(6) ok refl, unfolded up]
  have keys: "od_keys rows = od_keys new" by (simp add: rows_def case_prod_beta)
  have "(k, stored) \<in> set rows" using assms(9,10) by (force simp: rows_def)
  then have "map_of rows k = Some stored" using assms(8) keys by (simp add: od_wf_def)
  then have "map_of (kw_data w1) k = Some stored"
    using wr(3) kv_update_lookup [of rows "kw_data w" k] assms(8) keys by (simp add: od_wf_def)
  then have way: "on_its_way p k stored w1"
    using wr assms(6,13) by (simp add: on_its_way_def)
  define wa where "wa = kv_run fmt ns after w1"
  have a: "kv_inv ns wa" "on_its_way p k stored wa"
    using kv_run_on_its_way [OF wr(1) assms(3) way assms(11,12,14)] by (simp_all add: wa_def)
  have "kv_op_ok (Kv_flush p True)" "kv_spares k (Kv_flush p True)"
    by (simp_all add: kv_op_ok_def kv_spares_def)
  note f = kv_exec_on_its_way [OF a(1) assms(3) this(1) assms(11,12) a(2) this(2), of fmt]
  have b: "kw_bound wa p" using a(2) by (simp add: on_its_way_def)
  have w2: "kv_exec fmt ns (Kv_flush p True) wa = w2" using b by (simp add: kv_exec_def assms(15) wa_def)
  note s = index_done_saves [OF a(1) b, of w2 True, unfolded assms(15) wa_def [symmetric], OF refl, folded wa_def]
  have low: "\<not> raised w2 p" using s unfolding assms(15) wa_def by (auto split: if_splits)
  have disk: "map_of (disk_rows (kw_disk w2)) k = Some stored"
    using f low by (simp add: w2 on_its_way_def)
  have "kv_inv ns w2" using s unfolding assms(15) wa_def by blast
  then have "kw_disk w2 \<noteq> Broken" "rows_ok (disk_rows (kw_disk w2))" by (simp_all add: kv_inv_def)
  then show ?thesis using disk restart_reads_file [OF _ _ assms(3)] by simp
qed

section \<open>Two processes\<close>

definition two_objects :: "kv_op list" where
  "two_objects = [Kv_register 0, Kv_load 0, Kv_register 1, Kv_load 1]"

definition two_ready :: kv_world where
  "two_ready = kv_run (\<lambda>_. []) ''full_docs'' two_objects (kv_start Missing)"

definition row_a :: jval where
  "row_a = JObj (stamp_row ''full_docs'' 5 (kw_data two_ready) [97] [])"

definition after_a :: kv_world where
  "after_a = fst (kv_upsert ''full_docs'' 5 [([97], [])] two_ready)"

definition others_then :: "kv_op list" where
  "others_then = [Kv_upsert 1 6 [([98], [])], Kv_flush 1 False, Kv_flush 1 True, Kv_delete 1 [[98]]]"

lemmas two_defs = two_objects_def two_ready_def row_a_def after_a_def others_then_def
  kv_run_def kv_exec_def kv_start_def kv_register_def get_update_flag_def kv_load_def load_json_def
  is_cache_namespace_def kv_update_def kv_upsert_def kv_put_def kv_mark_dirty_def set_all_update_flags_def
  stamp_row_def is_text_chunks_def Let_def

lemma two_ready_simps:
  "kw_data two_ready = []" "kw_bound two_ready 0" "snd (kv_upsert ''full_docs'' 5 [([97], [])] two_ready) = None"
  "kw_data after_a = [([97], row_a)]"
  "row_a = JObj [(''create_time'', JNum 5), (''update_time'', JNum 5), (''_id'', JStr [97])]"
  by (simp_all add: two_defs)

lemma committed_write_survives_witness:
  "map_of (disk_rows (kw_disk (fst (kv_index_done ''full_docs'' True 0
      (kv_run (\<lambda>_. []) ''full_docs'' others_then after_a))))) [97] = Some row_a"
proof -
  have up: "kv_upsert ''full_docs'' 5 [([97], [])] two_ready = (after_a, None)"
    using two_ready_simps(3) by (simp add: after_a_def prod_eq_iff)
  have "sanitize_string_for_json [97] = [97]" "sanitize_string_for_json [98] = [98]"
    by (simp_all add: sanitize_string_for_json_def SURROGATE_PATTERN_def is_surrogate_def)
  then have c: "sanitize_string_for_json [97] = [97]" "sanitize_for_encoding row_a = row_a"
    "sole_key [97] (kw_data after_a)" "\<forall>op \<in> set others_then. kv_op_ok op \<and> kv_spares [97] op"
    by (simp_all add: two_ready_simps sole_key_def others_then_def kv_op_ok_def kv_spares_def)
  have b: "\<forall>op \<in> set two_objects. kv_op_ok op" "\<not> is_cache_namespace ''full_docs''" "rows_ok (disk_rows Missing)"
    by (simp_all add: two_objects_def kv_op_ok_def is_cache_namespace_def disk_rows_def)
  show ?thesis
    using committed_write_survives [OF _ b(3,2) two_ready_def b(1) two_ready_simps(2) up _ _ row_a_def c refl,
        where q=0] by (simp add: od_wf_def)
qed

text \<open>A first load that fails: the namespace counts as initialised although nothing was loaded, so the
  next object starts on an empty dictionary and its first save replaces the unreadable file.\<close>

lemma failed_first_load_is_forgotten:
  "kw_disk (kv_run (\<lambda>_. []) ''full_docs'' [Kv_register 0, Kv_load 0, Kv_register 1, Kv_load 1,
      Kv_upsert 1 5 [([97], [])], Kv_flush 1 True] (kv_start Broken)) = Rows [([97], row_a)]"
  by (simp add: two_defs kv_index_done_def flag_value_def write_json_def clear_all_update_flags_def
      is_surrogate_def)

text \<open>A second upsert under a key replaces the record, and the creation time with it: the record then
  reads back as created at \<open>0\<close>, although only the update time was meant to change.\<close>

lemma second_upsert_loses_create_time:
  assumes "kw_bound w p" "kv_inv ns w" "map_of (kw_data w) k \<noteq> None" "map_of row ''create_time'' = None"
    and "w1 = fst (kv_upsert ns now [(k, row)] w)"
  shows "\<exists>d. kv_get_by_id k w1 = Inr (Some (JObj d)) \<and> map_of d ''create_time'' = Some (JNum 0)"
proof -
  define st where "st = stamp_row ns now (kw_data w) k row"
  have ok: "rows_ok (kv_update (kw_data w) [(k, JObj st)])"
    using rows_ok_update [OF inv_rows [OF assms(2)], of "[(k, JObj st)]"] by simp
  have "kw_data w1 = kv_update (kw_data w) [(k, JObj st)]"
    using kv_inv_written(3) [OF assms(2,1) ok refl] by (simp add: assms(5) upsert_as_put st_def)
  then have "map_of (kw_data w1) k = Some (JObj st)" by (simp add: kv_update_def)
  moreover have "st \<noteq> []" "map_of st ''create_time'' = None"
    using assms(3,4) length_od_set by (auto simp: st_def stamp_row_def Let_def) 
  ultimately show ?thesis
    by (simp add: kv_get_by_id_def jtruthy_def present_row_def row_view_def od_default_def)
qed

end
