(* ===== verification/DocStatus.thy ===== *)
theory DocStatus
  imports SharedJson "HOL-Library.List_Lexorder" "HOL-Library.Product_Lexorder"
begin

text \<open>
  The document-status storage of src/ontorag/kg/json_doc_status_impl.py on the shared dictionary of
  \<open>SharedJson\<close>: its rows and their projections, the keyset pages, the point reads, the writes that are
  flushed at once, and the listing and repair of source conflicts. The types of
  src/ontorag/base.py it uses come first. A storage that has been initialised is assumed.
\<close>

section \<open>Statuses and cursors\<close>

datatype doc_status = PENDING | PARSING | ANALYZING | PROCESSING | PREPROCESSED | PROCESSED | FAILED

definition all_statuses :: "doc_status list" where
  "all_statuses = [PENDING, PARSING, ANALYZING, PROCESSING, PREPROCESSED, PROCESSED, FAILED]"

primrec status_text :: "doc_status \<Rightarrow> string" where
  "status_text PENDING = ''pending''"
| "status_text PARSING = ''parsing''"
| "status_text ANALYZING = ''analyzing''"
| "status_text PROCESSING = ''processing''"
| "status_text PREPROCESSED = ''preprocessed''"
| "status_text PROCESSED = ''processed''"
| "status_text FAILED = ''failed''"

definition status_value :: "doc_status \<Rightarrow> pystr" where
  "status_value s = lit (status_text s)"

datatype ds_error =
    DS_KeyError | DS_TypeError | DS_ValueError | DS_AttributeError
  | StorageControlPlaneError | StorageRecordNotFoundError | SourceConflictRepairCASError
  | DS_OSError | DS_RuntimeError

type_synonym 'a ds_res = "ds_error + 'a"

definition ds_bind :: "'a ds_res \<Rightarrow> ('a \<Rightarrow> 'b ds_res) \<Rightarrow> 'b ds_res" where
  "ds_bind r f = (case r of Inl e \<Rightarrow> Inl e | Inr x \<Rightarrow> f x)"

text \<open>\<open>DocStatus(raw)\<close>. A status is stored as its text; the enum member is that text too.\<close>

definition doc_status_of :: "jval \<Rightarrow> doc_status ds_res" where
  "doc_status_of raw =
     (case raw of
        JStr s \<Rightarrow> (case find (\<lambda>st. status_value st = s) all_statuses of
                    None \<Rightarrow> Inl DS_ValueError | Some st \<Rightarrow> Inr st)
      | _ \<Rightarrow> Inl DS_ValueError)"

text \<open>\<open>row.get("status") in status_values\<close>: a value that cannot be hashed raises.\<close>

definition status_member :: "jval option \<Rightarrow> doc_status list \<Rightarrow> bool ds_res" where
  "status_member v statuses =
     (case v of
        Some (JStr s) \<Rightarrow> Inr (s \<in> set (map status_value statuses))
      | Some (JArr _) \<Rightarrow> Inl DS_TypeError
      | Some (JObj _) \<Rightarrow> Inl DS_TypeError
      | _ \<Rightarrow> Inr False)"

text \<open>The cursor's opaque text is the JSON value it denotes, \<open>None\<close> for text that is not JSON.\<close>

datatype cursor = CURSOR_START | CURSOR_END | CursorAfter "jval option"

type_synonym sort_key = "pystr \<times> pystr"

definition encode_cursor :: "sort_key \<Rightarrow> jval" where
  "encode_cursor key = JArr [JStr (fst key), JStr (snd key)]"

text \<open>Two-element unpacking also takes a text of two characters or an object with two keys.\<close>

definition decode_cursor :: "jval option \<Rightarrow> sort_key ds_res" where
  "decode_cursor opaque =
     (case opaque of
        Some (JArr [JStr created, JStr doc_id]) \<Rightarrow> Inr (created, doc_id)
      | Some (JStr [a, b]) \<Rightarrow> Inr ([a], [b])
      | Some (JObj [(a, _), (b, _)]) \<Rightarrow> Inr (lit a, lit b)
      | _ \<Rightarrow> Inl StorageControlPlaneError)"

section \<open>Rows\<close>

definition row_sort_key :: "pystr \<Rightarrow> kv_row \<Rightarrow> sort_key" where
  "row_sort_key doc_id row =
     (case map_of row ''created_at'' of Some (JStr created) \<Rightarrow> (created, doc_id) | _ \<Rightarrow> ([], doc_id))"

record sched_record =
  sr_id :: pystr
  sr_status :: doc_status
  sr_created_at :: jval
  sr_updated_at :: jval
  sr_file_path :: jval
  sr_track_id :: jval
  sr_journal :: bool

definition or_null :: "jval option \<Rightarrow> jval" where
  "or_null v = (case v of None \<Rightarrow> JNull | Some x \<Rightarrow> x)"

definition or_text :: "jval option \<Rightarrow> string \<Rightarrow> jval" where
  "or_text v d = (case v of Some x \<Rightarrow> if jtruthy x then x else JStr (lit d) | None \<Rightarrow> JStr (lit d))"

definition is_text :: "jval \<Rightarrow> bool" where
  "is_text v = (case v of JStr _ \<Rightarrow> True | _ \<Rightarrow> False)"

definition has_journal :: "jval option \<Rightarrow> bool" where
  "has_journal metadata =
     (case metadata of Some (JObj m) \<Rightarrow>
        (case map_of m ''custom_chunk_patch'' of Some (JObj _) \<Rightarrow> True | _ \<Rightarrow> False)
      | _ \<Rightarrow> False)"

definition raw_scheduling_record :: "pystr \<Rightarrow> kv_row \<Rightarrow> sched_record ds_res" where
  "raw_scheduling_record doc_id row =
     (case map_of row ''status'' of
        None \<Rightarrow> Inl DS_KeyError
      | Some raw \<Rightarrow>
          (case doc_status_of raw of
             Inl e \<Rightarrow> Inl e
           | Inr status \<Rightarrow>
               (case map_of row ''created_at'' of
                  None \<Rightarrow> Inl DS_KeyError
                | Some created_at \<Rightarrow>
                    (let updated_at = (case map_of row ''updated_at'' of None \<Rightarrow> created_at | Some u \<Rightarrow> u)
                     in if \<not> is_text created_at \<or> \<not> is_text updated_at then Inl DS_TypeError
                        else Inr \<lparr>sr_id = doc_id, sr_status = status, sr_created_at = created_at,
                                  sr_updated_at = updated_at,
                                  sr_file_path = or_text (map_of row ''file_path'') ''no-file-path'',
                                  sr_track_id = or_null (map_of row ''track_id''),
                                  sr_journal = has_journal (map_of row ''metadata'')\<rparr>))))"

definition scheduling_record_from_row ::
    "pystr \<Rightarrow> kv_row \<Rightarrow> bool \<Rightarrow> sched_record option ds_res" where
  "scheduling_record_from_row doc_id row strict =
     (case raw_scheduling_record doc_id row of
        Inr r \<Rightarrow> Inr (Some r)
      | Inl e \<Rightarrow> if strict then Inl e else Inr None)"

text \<open>\<open>_scheduling_record_from_raw\<close> of the base class: no field but the status is checked.\<close>

definition scheduling_record_from_raw :: "pystr \<Rightarrow> kv_row \<Rightarrow> sched_record ds_res" where
  "scheduling_record_from_raw doc_id raw =
     (case doc_status_of (or_null (map_of raw ''status'')) of
        Inl e \<Rightarrow> Inl e
      | Inr status \<Rightarrow>
          Inr \<lparr>sr_id = doc_id, sr_status = status,
               sr_created_at = or_text (map_of raw ''created_at'') [],
               sr_updated_at = or_text (map_of raw ''updated_at'') [],
               sr_file_path = or_null (map_of raw ''file_path''),
               sr_track_id = or_null (map_of raw ''track_id''),
               sr_journal = has_journal (map_of raw ''metadata'')\<rparr>)"

text \<open>The full record, \<open>DocProcessingStatus\<close>; an absent optional field is \<open>null\<close>.\<close>

record doc_full =
  df_content_summary :: jval
  df_content_length :: jval
  df_file_path :: jval
  df_status :: jval
  df_created_at :: jval
  df_updated_at :: jval
  df_track_id :: jval
  df_chunks_count :: jval
  df_chunks_list :: jval
  df_error_msg :: jval
  df_metadata :: jval
  df_multimodal_processed :: jval
  df_content_hash :: jval

text \<open>\<open>from_stored\<close> with \<open>__post_init__\<close>: fields it does not declare are ignored.\<close>

definition from_stored :: "kv_row \<Rightarrow> doc_full ds_res" where
  "from_stored d =
     (if list_ex (\<lambda>k. map_of d k = None)
           [''content_summary'', ''content_length'', ''file_path'', ''status'', ''created_at'', ''updated_at'']
      then Inl DS_TypeError
      else (let g = (\<lambda>k. or_null (map_of d k));
                mm = g ''multimodal_processed'';
                st = (if mm = JBool False \<and> g ''status'' = JStr (status_value PROCESSED)
                      then JStr (status_value PREPROCESSED) else g ''status'')
            in Inr \<lparr>df_content_summary = g ''content_summary'', df_content_length = g ''content_length'',
                    df_file_path = g ''file_path'', df_status = st, df_created_at = g ''created_at'',
                    df_updated_at = g ''updated_at'', df_track_id = g ''track_id'',
                    df_chunks_count = g ''chunks_count'',
                    df_chunks_list = (case map_of d ''chunks_list'' of None \<Rightarrow> JArr [] | Some c \<Rightarrow> c),
                    df_error_msg = g ''error_msg'',
                    df_metadata = (case map_of d ''metadata'' of None \<Rightarrow> JObj [] | Some m \<Rightarrow> m),
                    df_multimodal_processed = mm, df_content_hash = g ''content_hash''\<rparr>))"

definition has_path :: "kv_row \<Rightarrow> bool" where
  "has_path d = (case map_of d ''file_path'' of Some v \<Rightarrow> jtruthy v | None \<Rightarrow> False)"

definition normalize_status_row :: "kv_row \<Rightarrow> kv_row" where
  "normalize_status_row d =
     (let d1 = od_del ''content'' d;
          d2 = (if has_path d1 then d1 else od_set ''file_path'' (JStr (lit ''no-file-path'')) d1)
      in od_default ''error_msg'' JNull (od_default ''metadata'' (JObj []) d2))"

lemma od_default_lookup: "map_of (od_default k v d) f = (if f = k \<and> map_of d k = None then Some v else map_of d f)"
  by (simp add: od_default_def)

lemma normalized_lookup:
  "map_of (normalize_status_row r) f =
     (if f = ''content'' then None
      else if f = ''file_path'' \<and> \<not> has_path (od_del ''content'' r) then Some (JStr (lit ''no-file-path''))
      else if f = ''metadata'' \<and> map_of r f = None then Some (JObj [])
      else if f = ''error_msg'' \<and> map_of r f = None then Some JNull
      else map_of r f)"
  unfolding normalize_status_row_def Let_def od_default_lookup
  by (cases "f = ''content''"; cases "f = ''file_path''"; cases "f = ''metadata''"; cases "f = ''error_msg''")
    simp_all

text \<open>On a row that is no object \<open>pop("content", None)\<close> raises: a list takes no default.\<close>

definition doc_processing_status_from_row :: "jval \<Rightarrow> doc_full ds_res" where
  "doc_processing_status_from_row row =
     (case row of
        JObj d \<Rightarrow> from_stored (normalize_status_row d)
      | JArr _ \<Rightarrow> Inl DS_TypeError
      | _ \<Rightarrow> Inl DS_AttributeError)"

definition row_is_hydratable :: "kv_row \<Rightarrow> bool" where
  "row_is_hydratable row = (case from_stored (normalize_status_row row) of Inr _ \<Rightarrow> True | Inl _ \<Rightarrow> False)"

lemma row_is_hydratable_iff:
  "row_is_hydratable r \<longleftrightarrow>
     list_all (\<lambda>k. map_of r k \<noteq> None)
       [''content_summary'', ''content_length'', ''status'', ''created_at'', ''updated_at'']"
  by (simp add: row_is_hydratable_def from_stored_def Let_def normalized_lookup has_path_def split: option.split)

section \<open>Pages\<close>

fun page_candidates ::
    "bool \<Rightarrow> doc_status list \<Rightarrow> sort_key option \<Rightarrow> kv_data \<Rightarrow> (sort_key \<times> pystr \<times> kv_row) list ds_res" where
  "page_candidates strict statuses last_key [] = Inr []"
| "page_candidates strict statuses last_key ((doc_id, row) # d) =
     (case row of
        JObj r \<Rightarrow>
          (case status_member (map_of r ''status'') statuses of
             Inl e \<Rightarrow> Inl e
           | Inr False \<Rightarrow> page_candidates strict statuses last_key d
           | Inr True \<Rightarrow>
               (let key = row_sort_key doc_id r
                in if (case last_key of None \<Rightarrow> False | Some l \<Rightarrow> key \<le> l)
                   then page_candidates strict statuses last_key d
                   else ds_bind (page_candidates strict statuses last_key d)
                          (\<lambda>cs. Inr ((key, doc_id, r) # cs))))
      | _ \<Rightarrow> if strict then Inl DS_TypeError else page_candidates strict statuses last_key d)"

fun project_rows ::
    "bool \<Rightarrow> (sort_key \<times> pystr \<times> kv_row) list \<Rightarrow> (pystr, sched_record) odict ds_res" where
  "project_rows strict [] = Inr []"
| "project_rows strict ((key, doc_id, r) # selected) =
     ds_bind (scheduling_record_from_row doc_id r strict) (\<lambda>rec.
       ds_bind (project_rows strict selected) (\<lambda>docs.
         Inr (case rec of None \<Rightarrow> docs | Some x \<Rightarrow> (doc_id, x) # docs)))"

text \<open>\<open>heapq.nsmallest(limit, it, key)\<close> is \<open>sorted(it, key=key)[:limit]\<close>.\<close>

definition get_docs_by_statuses_page ::
    "doc_status list \<Rightarrow> int \<Rightarrow> cursor \<Rightarrow> bool \<Rightarrow> kv_data
      \<Rightarrow> ((pystr, sched_record) odict \<times> cursor) ds_res" where
  "get_docs_by_statuses_page statuses limit_n position strict d =
     (if limit_n \<le> 0 then Inl DS_ValueError
      else if statuses = [] \<or> position = CURSOR_END then Inr ([], CURSOR_END)
      else ds_bind (case position of CursorAfter opaque \<Rightarrow> ds_bind (decode_cursor opaque) (\<lambda>k. Inr (Some k))
                    | _ \<Rightarrow> Inr None) (\<lambda>last_key.
        ds_bind (page_candidates strict statuses last_key d) (\<lambda>cs.
          let selected = take (nat limit_n) (sort_key fst cs)
          in ds_bind (project_rows strict selected) (\<lambda>docs.
               Inr (docs, if length selected < nat limit_n then CURSOR_END
                          else CursorAfter (Some (encode_cursor (fst (last selected)))))))))"

section \<open>Reads\<close>

fun get_docs_by_statuses ::
    "doc_status list \<Rightarrow> bool \<Rightarrow> kv_data \<Rightarrow> (pystr, doc_full) odict ds_res" where
  "get_docs_by_statuses statuses strict [] = Inr []"
| "get_docs_by_statuses statuses strict ((k, v) # d) =
     (if statuses = [] then Inr []
      else (let one = (case v of
                  JObj r \<Rightarrow>
                    (case map_of r ''status'' of
                       None \<Rightarrow> Inl DS_KeyError
                     | Some s \<Rightarrow>
                         (case status_member (Some s) statuses of
                            Inl e \<Rightarrow> Inl e
                          | Inr False \<Rightarrow> Inr None
                          | Inr True \<Rightarrow> ds_bind (doc_processing_status_from_row v) (\<lambda>f. Inr (Some f))))
                | _ \<Rightarrow> Inl DS_TypeError)
            in case one of
                 Inl e \<Rightarrow> if strict then Inl e else get_docs_by_statuses statuses strict d
               | Inr None \<Rightarrow> get_docs_by_statuses statuses strict d
               | Inr (Some f) \<Rightarrow>
                   ds_bind (get_docs_by_statuses statuses strict d) (\<lambda>docs. Inr ((k, f) # docs))))"

fun count_docs_by_statuses :: "doc_status list \<Rightarrow> bool \<Rightarrow> kv_data \<Rightarrow> nat ds_res" where
  "count_docs_by_statuses statuses strict [] = Inr 0"
| "count_docs_by_statuses statuses strict ((k, v) # d) =
     (if statuses = [] then Inr 0
      else (let skip = (if strict then Inl DS_TypeError else count_docs_by_statuses statuses strict d)
            in case v of
                 JObj r \<Rightarrow>
                   (if map_of r ''status'' = None then skip
                    else ds_bind (status_member (map_of r ''status'') statuses) (\<lambda>b.
                           ds_bind (count_docs_by_statuses statuses strict d) (\<lambda>n.
                             Inr (if b then Suc n else n))))
               | _ \<Rightarrow> skip))"

fun get_docs_by_ids :: "pystr list \<Rightarrow> bool \<Rightarrow> kv_data \<Rightarrow> (pystr, sched_record) odict ds_res" where
  "get_docs_by_ids [] strict d = Inr []"
| "get_docs_by_ids (i # ids) strict d =
     (case map_of d i of
        None \<Rightarrow> get_docs_by_ids ids strict d
      | Some JNull \<Rightarrow> get_docs_by_ids ids strict d
      | Some (JObj r) \<Rightarrow>
          ds_bind (scheduling_record_from_row i r strict) (\<lambda>rec.
            ds_bind (get_docs_by_ids ids strict d) (\<lambda>docs.
              Inr (case rec of None \<Rightarrow> docs | Some x \<Rightarrow> (i, x) # od_del i docs)))
      | Some _ \<Rightarrow> if strict then Inl DS_TypeError else get_docs_by_ids ids strict d)"

text \<open>Only \<open>KeyError\<close> and \<open>TypeError\<close> are handled.\<close>

fun get_full_docs_by_ids :: "pystr list \<Rightarrow> bool \<Rightarrow> kv_data \<Rightarrow> (pystr, doc_full) odict ds_res" where
  "get_full_docs_by_ids [] strict d = Inr []"
| "get_full_docs_by_ids (i # ids) strict d =
     (case map_of d i of
        None \<Rightarrow> get_full_docs_by_ids ids strict d
      | Some JNull \<Rightarrow> get_full_docs_by_ids ids strict d
      | Some row \<Rightarrow>
          (case doc_processing_status_from_row row of
             Inl e \<Rightarrow> if strict \<or> (e \<noteq> DS_KeyError \<and> e \<noteq> DS_TypeError) then Inl e
                      else get_full_docs_by_ids ids strict d
           | Inr f \<Rightarrow> ds_bind (get_full_docs_by_ids ids strict d) (\<lambda>docs. Inr ((i, f) # od_del i docs))))"

section \<open>Sources\<close>

definition is_duplicate_row :: "jval \<Rightarrow> bool" where
  "is_duplicate_row row =
     (case jget row ''metadata'' of
        Some (JObj m) \<Rightarrow> (case map_of m ''is_duplicate'' of None \<Rightarrow> False | Some v \<Rightarrow> jtruthy v)
      | _ \<Rightarrow> False)"

definition row_points_at_as_duplicate :: "jval \<Rightarrow> pystr option \<Rightarrow> bool" where
  "row_points_at_as_duplicate row doc_id =
     (case doc_id of
        None \<Rightarrow> False
      | Some i \<Rightarrow> i \<noteq> [] \<and> is_duplicate_row row
          \<and> (case jget row ''metadata'' of
               Some m \<Rightarrow> jget m ''original_doc_id'' = Some (JStr i) | None \<Rightarrow> False))"

text \<open>A row that is no object: \<open>doc_data.get\<close> raises.\<close>

fun get_doc_by_file_basename :: "pystr \<Rightarrow> kv_data \<Rightarrow> (pystr \<times> kv_row) option ds_res" where
  "get_doc_by_file_basename basename [] = Inr None"
| "get_doc_by_file_basename basename ((doc_id, v) # d) =
     (if basename = [] \<or> basename = lit ''unknown_source'' then Inr None
      else (case v of
              JObj r \<Rightarrow>
                (if map_of r ''file_path'' = Some (JStr basename) \<and> \<not> is_duplicate_row v
                 then Inr (Some (doc_id, r)) else get_doc_by_file_basename basename d)
            | _ \<Rightarrow> Inl DS_AttributeError))"

text \<open>The earliest holder of a content hash by creation time and id, in one pass.\<close>

fun content_hash_scan ::
    "pystr \<Rightarrow> pystr option \<Rightarrow> (sort_key \<times> pystr \<times> kv_row) option \<Rightarrow> kv_data
      \<Rightarrow> (sort_key \<times> pystr \<times> kv_row) option ds_res" where
  "content_hash_scan h exclude best [] = Inr best"
| "content_hash_scan h exclude best ((doc_id, v) # d) =
     (if exclude = Some doc_id \<or> row_points_at_as_duplicate v exclude
      then content_hash_scan h exclude best d
      else (case v of
              JObj r \<Rightarrow>
                (let key = row_sort_key doc_id r
                 in if map_of r ''content_hash'' = Some (JStr h)
                       \<and> (case best of None \<Rightarrow> True | Some (k, _) \<Rightarrow> key < k)
                    then content_hash_scan h exclude (Some (key, doc_id, r)) d
                    else content_hash_scan h exclude best d)
            | _ \<Rightarrow> Inl DS_AttributeError))"

definition get_doc_by_content_hash ::
    "pystr \<Rightarrow> pystr option \<Rightarrow> kv_data \<Rightarrow> (pystr \<times> kv_row) option ds_res" where
  "get_doc_by_content_hash h exclude d =
     (if h = [] then Inr None
      else ds_bind (content_hash_scan h exclude None d) (\<lambda>best.
             Inr (case best of None \<Rightarrow> None | Some (key, doc_id, r) \<Rightarrow> Some (doc_id, r))))"

definition is_primary_of :: "pystr \<Rightarrow> jval \<Rightarrow> bool" where
  "is_primary_of key v \<longleftrightarrow>
     (case v of JObj r \<Rightarrow> map_of r ''file_path'' = Some (JStr key) \<and> \<not> is_duplicate_row v | _ \<Rightarrow> False)"

definition primaries :: "pystr \<Rightarrow> kv_data \<Rightarrow> (pystr \<times> jval) list" where
  "primaries key d = filter (\<lambda>(doc_id, v). is_primary_of key v) d"

datatype source_resolution =
    SourceAbsent | SourceUnique pystr sched_record | SourceConflict "pystr list"

definition resolve_doc_source_strict :: "pystr \<Rightarrow> kv_data \<Rightarrow> source_resolution ds_res" where
  "resolve_doc_source_strict key d =
     (if key = [] \<or> key = lit ''unknown_source'' then Inr SourceAbsent
      else (case take 2 (primaries key d) of
              [] \<Rightarrow> Inr SourceAbsent
            | [(doc_id, v)] \<Rightarrow>
                (case v of
                   JObj r \<Rightarrow> ds_bind (scheduling_record_from_raw doc_id r) (\<lambda>s. Inr (SourceUnique doc_id s))
                 | _ \<Rightarrow> Inr SourceAbsent)
            | cs \<Rightarrow> Inr (SourceConflict (sort (map fst cs)))))"

definition CONFLICT_SAMPLE_CAP :: nat where
  "CONFLICT_SAMPLE_CAP = 32"

definition primary_candidates :: "pystr \<Rightarrow> kv_data \<Rightarrow> pystr list" where
  "primary_candidates key d = sort (map fst (primaries key d))"

record conflict_summary =
  cs_key :: pystr
  cs_count :: nat
  cs_sample :: "pystr list"

definition group_key :: "jval \<Rightarrow> pystr option" where
  "group_key v =
     (case v of
        JObj r \<Rightarrow>
          (case map_of r ''file_path'' of
             Some (JStr s) \<Rightarrow>
               (if s \<in> {[], lit ''unknown_source'', lit ''no-file-path''} \<or> is_duplicate_row v
                then None else Some s)
           | _ \<Rightarrow> None)
      | _ \<Rightarrow> None)"

definition group_row :: "pystr \<times> jval \<Rightarrow> (pystr, pystr list) odict \<Rightarrow> (pystr, pystr list) odict" where
  "group_row row groups =
     (case group_key (snd row) of
        None \<Rightarrow> groups
      | Some k \<Rightarrow> od_set k ((case map_of groups k of None \<Rightarrow> [] | Some ids \<Rightarrow> ids) @ [fst row]) groups)"

definition conflict_keys :: "kv_data \<Rightarrow> pystr list" where
  "conflict_keys d = sort (map fst (filter (\<lambda>(k, v). 2 \<le> length v) (fold group_row d [])))"

definition decode_conflict_cursor :: "jval option \<Rightarrow> pystr ds_res" where
  "decode_conflict_cursor opaque =
     (case opaque of Some (JStr s) \<Rightarrow> Inr s | _ \<Rightarrow> Inl StorageControlPlaneError)"

definition list_source_conflicts_page ::
    "int \<Rightarrow> cursor \<Rightarrow> kv_data \<Rightarrow> (conflict_summary list \<times> cursor) ds_res" where
  "list_source_conflicts_page limit_n position d =
     (if limit_n \<le> 0 then Inl DS_ValueError
      else if position = CURSOR_END then Inr ([], CURSOR_END)
      else ds_bind (case position of CursorAfter opaque \<Rightarrow> ds_bind (decode_conflict_cursor opaque) (\<lambda>k. Inr (Some k))
                    | _ \<Rightarrow> Inr None) (\<lambda>last_key.
        let groups = fold group_row d [];
            page_keys = take (nat limit_n)
              (filter (\<lambda>k. case last_key of None \<Rightarrow> True | Some l \<Rightarrow> k > l) (conflict_keys d));
            ids = (\<lambda>k. case map_of groups k of None \<Rightarrow> [] | Some v \<Rightarrow> v)
        in Inr (map (\<lambda>k. \<lparr>cs_key = k, cs_count = length (ids k),
                         cs_sample = take CONFLICT_SAMPLE_CAP (sort (ids k))\<rparr>) page_keys,
                if length page_keys < nat limit_n then CURSOR_END
                else CursorAfter (Some (JStr (last page_keys))))))"

section \<open>Writes\<close>

text \<open>
  The writing sections are those of \<open>SharedJson\<close>; each is followed by a save, unless it failed. The lock is
  released between the two: \<open>later\<close> is what other processes, and other calls, do to the shared world there.
\<close>

definition then_flush ::
    "string \<Rightarrow> bool \<Rightarrow> nat \<Rightarrow> (kv_world \<Rightarrow> kv_world) \<Rightarrow> kv_world \<times> kv_error option \<Rightarrow> kv_world \<times> ds_error option" where
  "then_flush ns ok p later r =
     (case r of
        (w, Some e) \<Rightarrow> (w, Some DS_ValueError)
      | (w, None) \<Rightarrow>
          (case kv_index_done ns ok p (later w) of
             (w1, None) \<Rightarrow> (w1, None)
           | (w1, Some e) \<Rightarrow> (w1, Some DS_OSError)))"

definition ds_upsert ::
    "string \<Rightarrow> bool \<Rightarrow> nat \<Rightarrow> (kv_world \<Rightarrow> kv_world) \<Rightarrow> (pystr, kv_row) odict \<Rightarrow> kv_world \<Rightarrow> kv_world \<times> ds_error option" where
  "ds_upsert ns ok p later new w =
     (if new = [] then (w, None)
      else then_flush ns ok p later
             (kv_put ns (map (\<lambda>(k, v). (k, JObj (od_default ''chunks_list'' (JArr []) v))) new) w))"

text \<open>\<open>{**row, **fields}\<close> of a row that is no object raises.\<close>

definition update_doc_status_fields ::
    "string \<Rightarrow> bool \<Rightarrow> nat \<Rightarrow> (kv_world \<Rightarrow> kv_world) \<Rightarrow> pystr \<Rightarrow> kv_row \<Rightarrow> bool \<Rightarrow> kv_world \<Rightarrow> kv_world \<times> ds_error option" where
  "update_doc_status_fields ns ok p later doc_id fs missing_ok w =
     (if map_of fs ''created_at'' \<noteq> None then (w, Some DS_ValueError)
      else (case map_of (kw_data w) doc_id of
              None \<Rightarrow> (w, if missing_ok then None else Some StorageRecordNotFoundError)
            | Some JNull \<Rightarrow> (w, if missing_ok then None else Some StorageRecordNotFoundError)
            | Some (JObj r) \<Rightarrow>
                then_flush ns ok p later (kv_put ns [(doc_id, JObj (fold (\<lambda>(k, v). od_set k v) fs r))] w)
            | Some _ \<Rightarrow> (w, Some DS_TypeError)))"

text \<open>
  The repair. \<open>digest\<close> is SHA-256, and \<open>py_dict\<close> is what \<open>dict(x)\<close> builds, or raises, for a true value
  \<open>x\<close> that is no object.
\<close>

definition conflict_fingerprint :: "(pystr \<Rightarrow> 'h) \<Rightarrow> pystr list \<Rightarrow> 'h" where
  "conflict_fingerprint digest ids = digest (concat (map (\<lambda>i. i @ [0]) ids))"

definition demoted_row :: "(jval \<Rightarrow> kv_row ds_res) \<Rightarrow> pystr \<Rightarrow> kv_row \<Rightarrow> kv_row ds_res" where
  "demoted_row py_dict primary row =
     ds_bind (case map_of row ''metadata'' of
                None \<Rightarrow> Inr []
              | Some m \<Rightarrow> if \<not> jtruthy m then Inr [] else (case m of JObj d \<Rightarrow> Inr d | _ \<Rightarrow> py_dict m))
       (\<lambda>metadata. Inr (od_set ''metadata''
          (JObj (od_set ''original_doc_id'' (JStr primary) (od_set ''is_duplicate'' (JBool True) metadata)))
          row))"

fun demote_rows ::
    "(jval \<Rightarrow> kv_row ds_res) \<Rightarrow> pystr \<Rightarrow> pystr list \<Rightarrow> kv_data \<Rightarrow> kv_data \<times> ds_error option" where
  "demote_rows py_dict primary [] d = (d, None)"
| "demote_rows py_dict primary (i # ids) d =
     (case map_of d i of
        Some (JObj r) \<Rightarrow>
          (case demoted_row py_dict primary r of
             Inl e \<Rightarrow> (d, Some e)
           | Inr r' \<Rightarrow> demote_rows py_dict primary ids (od_set i (JObj r') d))
      | _ \<Rightarrow> (d, Some DS_KeyError))"

record 'h repair_result =
  rr_count :: nat
  rr_fingerprint :: 'h
  rr_sample :: "pystr list"
  rr_committed :: bool

definition repair_source_conflict ::
    "(pystr \<Rightarrow> 'h) \<Rightarrow> (jval \<Rightarrow> kv_row ds_res) \<Rightarrow> string \<Rightarrow> bool \<Rightarrow> nat \<Rightarrow> (kv_world \<Rightarrow> kv_world)
      \<Rightarrow> pystr \<Rightarrow> pystr \<Rightarrow> int \<Rightarrow> 'h \<Rightarrow> bool \<Rightarrow> kv_world \<Rightarrow> kv_world \<times> 'h repair_result ds_res" where
  "repair_source_conflict digest py_dict ns ok p later key primary expected_count expected_fingerprint dry_run w =
     (let candidates = primary_candidates key (kw_data w);
          fingerprint = conflict_fingerprint digest candidates;
          demoted = filter (\<lambda>i. i \<noteq> primary) candidates;
          result = \<lparr>rr_count = length candidates, rr_fingerprint = fingerprint,
                    rr_sample = take CONFLICT_SAMPLE_CAP demoted, rr_committed = \<not> dry_run\<rparr>
      in if primary \<notin> set candidates then (w, Inl DS_ValueError)
         else if dry_run then (w, Inr result)
         else if int (length candidates) \<noteq> expected_count \<or> fingerprint \<noteq> expected_fingerprint
              then (w, Inl SourceConflictRepairCASError)
         else (case demote_rows py_dict primary demoted (kw_data w) of
                 (d, Some e) \<Rightarrow> (w\<lparr>kw_data := d\<rparr>, Inl e)
               | (d, None) \<Rightarrow>
                   (case then_flush ns ok p later (kv_mark_dirty ns (w\<lparr>kw_data := d\<rparr>)) of
                      (w1, Some e) \<Rightarrow> (w1, Inl e)
                    | (w1, None) \<Rightarrow> (w1, Inr result))))"

section \<open>One page of the sweep\<close>

text \<open>A row of the sweep and its key; the keys a position leaves ahead.\<close>

definition in_sweep :: "doc_status list \<Rightarrow> kv_data \<Rightarrow> pystr \<Rightarrow> sort_key \<Rightarrow> bool" where
  "in_sweep statuses d i k \<longleftrightarrow>
     (\<exists>r. map_of d i = Some (JObj r) \<and> status_member (map_of r ''status'') statuses = Inr True
        \<and> row_sort_key i r = k)"

definition ahead_of :: "cursor \<Rightarrow> sort_key \<Rightarrow> bool" where
  "ahead_of position k =
     (case position of
        CURSOR_START \<Rightarrow> True
      | CURSOR_END \<Rightarrow> False
      | CursorAfter opaque \<Rightarrow> (case decode_cursor opaque of Inr l \<Rightarrow> l < k | Inl _ \<Rightarrow> False))"

lemma ds_bind_Inr_iff: "ds_bind r f = Inr y \<longleftrightarrow> (\<exists>x. r = Inr x \<and> f x = Inr y)"
  by (cases r) (auto simp: ds_bind_def)

lemma ds_bind_simps [simp]: "ds_bind (Inr x) f = f x" "ds_bind (Inl e) f = Inl e"
  by (simp_all add: ds_bind_def)

lemma decode_encode_cursor [simp]: "decode_cursor (Some (encode_cursor k)) = Inr k"
  by (simp add: decode_cursor_def encode_cursor_def)

lemma row_sort_key_id [simp]: "snd (row_sort_key i r) = i"
  by (auto simp: row_sort_key_def split: option.split json.split)

text \<open>The first \<open>n\<close> elements of a strictly sorted list are those up to the last of them.\<close>

lemma take_strictly_sorted:
  fixes f :: "'a \<Rightarrow> 'k :: linorder"
  assumes "sorted_wrt (<) (map f s)" "0 < n" "n \<le> length s" "x \<in> set s"
  shows "x \<in> set (take n s) \<longleftrightarrow> f x \<le> f (last (take n s))"
proof -
  have "sorted_wrt (<) (map f (take n s) @ map f (drop n s))"
    using assms(1) by (simp flip: map_append)
  then have cross: "\<forall>a \<in> set (take n s). \<forall>b \<in> set (drop n s). f a < f b"
    and left: "sorted_wrt (<) (map f (take n s))" by (simp_all add: sorted_wrt_append)
  have ne: "take n s \<noteq> []" using assms(2,3) by auto
  have le: "f a \<le> f (last (take n s))" if "a \<in> set (take n s)" for a
  proof -
    have "map f (take n s) = map f (butlast (take n s)) @ [f (last (take n s))]"
      using ne by (metis append_butlast_last_id list.simps(8,9) map_append)
    then have "\<forall>b \<in> set (butlast (take n s)). f b < f (last (take n s))"
      using left by (simp add: sorted_wrt_append)
    moreover have "a \<in> set (butlast (take n s)) \<or> a = last (take n s)"
      using that ne by (metis append_butlast_last_id in_set_conv_decomp rotate1.simps(2) set_ConsD set_rotate1)
    ultimately show ?thesis by force
  qed
  have "x \<in> set (take n s) \<or> x \<in> set (drop n s)"
    using assms(4) by (metis Un_iff append_take_drop_id set_append)
  then show ?thesis using le cross last_in_set[OF ne] by (meson leD)
qed

definition beyond :: "sort_key option \<Rightarrow> sort_key \<Rightarrow> bool" where
  "beyond last_key k = (case last_key of None \<Rightarrow> True | Some l \<Rightarrow> l < k)"

definition candidate :: "doc_status list \<Rightarrow> sort_key option \<Rightarrow> pystr \<times> jval \<Rightarrow> (sort_key \<times> pystr \<times> kv_row) option" where
  "candidate sts last_key row =
     (case snd row of
        JObj r \<Rightarrow>
          (if status_member (map_of r ''status'') sts = Inr True \<and> beyond last_key (row_sort_key (fst row) r)
           then Some (row_sort_key (fst row) r, fst row, r) else None)
      | _ \<Rightarrow> None)"

lemma page_candidates_filter:
  "page_candidates strict sts last_key d = Inr cs \<Longrightarrow> cs = List.map_filter (candidate sts last_key) d"
proof (induction d arbitrary: cs)
  case (Cons row d)
  obtain i v where row: "row = (i, v)" by (cases row)
  have b: "(case last_key of None \<Rightarrow> False | Some l \<Rightarrow> row_sort_key i r \<le> l) = (\<not> beyond last_key (row_sort_key i r))" for r
    by (cases last_key) (simp_all add: beyond_def not_less)
  show ?case
  proof (cases v)
    case (JObj r)
    then show ?thesis using Cons row b
      by (auto simp: map_filter_simps candidate_def Let_def ds_bind_Inr_iff split: sum.splits bool.splits if_splits)
  qed (use Cons row in \<open>auto simp: map_filter_simps candidate_def split: if_splits\<close>)
qed (simp add: map_filter_simps)

lemma candidate_Some:
  "candidate sts last_key (i, v) = Some (k, i', r) \<longleftrightarrow>
     i' = i \<and> v = JObj r \<and> status_member (map_of r ''status'') sts = Inr True
     \<and> k = row_sort_key i r \<and> beyond last_key k"
  by (cases v) (auto simp: candidate_def)

lemma page_candidates_set:
  assumes "page_candidates strict sts last_key d = Inr cs" "od_wf d"
  shows "(k, i, r) \<in> set cs \<longleftrightarrow> map_of d i = Some (JObj r)
      \<and> status_member (map_of r ''status'') sts = Inr True \<and> k = row_sort_key i r \<and> beyond last_key k"
proof -
  have "map_of d i = Some (JObj r) \<longleftrightarrow> (i, JObj r) \<in> set d"
    using assms(2) by (simp add: od_wf_def)
  then show ?thesis
    unfolding page_candidates_filter [OF assms(1)] by (force simp: set_map_filter candidate_Some)
qed

lemma page_candidates_distinct:
  assumes "page_candidates strict sts last_key d = Inr cs" "od_wf d"
  shows "distinct (map fst cs)"
proof -
  have "distinct (map fst (List.map_filter (candidate sts last_key) d))"
    using assms(2)
  proof (induction d)
    case (Cons row d)
    obtain i v where row: "row = (i, v)" by (cases row)
    have wf: "od_wf d" "i \<notin> set (od_keys d)" using Cons.prems row by (auto simp: od_wf_def)
    have "k \<notin> set (map fst (List.map_filter (candidate sts last_key) d))" if "candidate sts last_key row = Some (k, c)" for k c
    proof
      assume "k \<in> set (map fst (List.map_filter (candidate sts last_key) d))"
      then obtain j w r where jw: "(j, w) \<in> set d" "candidate sts last_key (j, w) = Some (k, r)"
        by (auto simp: set_map_filter)
      then have "snd k = j" by (cases r) (auto simp: candidate_Some)
      moreover have "snd k = i" using that row by (cases c) (auto simp: candidate_Some)
      ultimately show False using jw(1) wf(2) by force
    qed
    then show ?case using Cons.IH wf(1) by (auto simp: map_filter_simps split: option.split)
  qed (simp add: map_filter_simps)
  then show ?thesis by (simp add: page_candidates_filter [OF assms(1)])
qed

lemma raw_record_id: "raw_scheduling_record i r = Inr rec \<Longrightarrow> sr_id rec = i \<and> sr_journal rec = has_journal (map_of r ''metadata'')"
  unfolding raw_scheduling_record_def Let_def
  by (cases "map_of r ''status''"; cases "map_of r ''created_at''") (auto split: sum.splits if_splits)

lemma project_rows_strict:
  "project_rows True sel = Inr docs \<Longrightarrow>
     od_keys docs = map (\<lambda>(k, i, r). i) sel
     \<and> (\<forall>(i, rec) \<in> set docs. \<exists>k r. (k, i, r) \<in> set sel \<and> raw_scheduling_record i r = Inr rec)"
proof (induction sel arbitrary: docs)
  case (Cons c sel)
  obtain k i r where c: "c = (k, i, r)" by (cases c)
  obtain rec docs' where d: "raw_scheduling_record i r = Inr rec" "project_rows True sel = Inr docs'"
    "docs = (i, rec) # docs'"
    using Cons.prems c by (auto simp: ds_bind_Inr_iff scheduling_record_from_row_def split: sum.splits)
  have "\<exists>k r. (k, j, r) \<in> set (c # sel) \<and> raw_scheduling_record j r = Inr x" if h: "(j, x) \<in> set docs" for j x
  proof (cases "(j, x) = (i, rec)")
    case True
    then have "(k, j, r) \<in> set (c # sel) \<and> raw_scheduling_record j r = Inr x" using d(1) c by simp
    then show ?thesis by blast
  next
    case False
    then have "(j, x) \<in> set docs'" using h d(3) by auto
    then obtain k' r' where "(k', j, r') \<in> set sel \<and> raw_scheduling_record j r' = Inr x"
      using Cons.IH [OF d(2)] by auto
    then have "(k', j, r') \<in> set (c # sel) \<and> raw_scheduling_record j r' = Inr x" by simp
    then show ?thesis by blast
  qed
  moreover have "od_keys docs = map (\<lambda>(k, i, r). i) (c # sel)" using Cons.IH [OF d(2)] d(3) c by simp
  ultimately show ?case by blast
qed simp

text \<open>What a strict page returns, and where it leaves the cursor.\<close>

lemma strict_page:
  assumes pg: "get_docs_by_statuses_page sts n position True d = Inr (docs, next_position)" and wf: "od_wf d"
  shows "(\<forall>i. i \<in> set (od_keys docs) \<longleftrightarrow>
        (\<exists>k. in_sweep sts d i k \<and> ahead_of position k \<and> \<not> ahead_of next_position k))
    \<and> (\<forall>k. ahead_of next_position k \<longrightarrow> ahead_of position k)
    \<and> (next_position \<noteq> CURSOR_END \<longrightarrow> docs \<noteq> [])
    \<and> distinct (od_keys docs)
    \<and> (\<forall>(i, rec) \<in> set docs. \<exists>r. map_of d i = Some (JObj r) \<and> raw_scheduling_record i r = Inr rec)"
proof -
  have lim: "0 < n" using pg by (auto simp: get_docs_by_statuses_page_def split: if_splits)
  show ?thesis
  proof (cases "sts = [] \<or> position = CURSOR_END")
    case True
    then have e: "docs = []" "next_position = CURSOR_END"
      using pg lim by (auto simp: get_docs_by_statuses_page_def)
    have no: "status_member v [] \<noteq> Inr True" for v
    proof (cases v)
      case (Some x)
      then show ?thesis by (cases x) (simp_all add: status_member_def)
    qed (simp add: status_member_def)
    then have "\<not> in_sweep [] d i k" for i k by (simp add: in_sweep_def)
    then show ?thesis using e True by (auto simp: ahead_of_def)
  next
    case False
    obtain last_key cs where lk: "(case position of CursorAfter opaque \<Rightarrow> ds_bind (decode_cursor opaque) (\<lambda>k. Inr (Some k))
          | _ \<Rightarrow> Inr None) = Inr last_key"
      and cs: "page_candidates True sts last_key d = Inr cs"
      and pr: "project_rows True (take (nat n) (sort_key fst cs)) = Inr docs"
      and nx: "next_position = (if length (take (nat n) (sort_key fst cs)) < nat n then CURSOR_END
                 else CursorAfter (Some (encode_cursor (fst (last (take (nat n) (sort_key fst cs)))))))"
      using pg False lim by (auto simp: get_docs_by_statuses_page_def ds_bind_Inr_iff Let_def split: if_splits)
    define sel where "sel = take (nat n) (sort_key fst cs)"
    have pos: "beyond last_key k = ahead_of position k" for k
      using lk False by (cases position) (auto simp: beyond_def ahead_of_def ds_bind_Inr_iff)
    have mem: "(k, i, r) \<in> set cs \<longleftrightarrow> map_of d i = Some (JObj r)
        \<and> status_member (map_of r ''status'') sts = Inr True \<and> k = row_sort_key i r \<and> ahead_of position k" for k i r
      using page_candidates_set [OF cs wf] pos by simp
    have st: "sorted_wrt (<) (map fst (sort_key fst cs))"
      using page_candidates_distinct [OF cs wf] by (simp add: strict_sorted_iff distinct_map)
    have cut: "x \<in> set sel \<longleftrightarrow> \<not> ahead_of next_position (fst x)" if x: "x \<in> set cs" for x
    proof (cases "length sel < nat n")
      case True
      then have "sel = sort_key fst cs" by (simp add: sel_def)
      then show ?thesis using True x by (simp add: nx sel_def ahead_of_def)
    next
      case False
      then have le: "nat n \<le> length (sort_key fst cs)" by (simp add: sel_def)
      have "x \<in> set sel \<longleftrightarrow> fst x \<le> fst (last sel)"
        unfolding sel_def by (rule take_strictly_sorted [OF st _ le]) (use lim x in auto)
      then show ?thesis using False by (simp add: nx sel_def [symmetric] ahead_of_def not_less)
    qed
    have sub: "set sel \<subseteq> set cs" unfolding sel_def by (metis set_sort set_take_subset)
    note pj = project_rows_strict [OF pr, folded sel_def]
    have ids: "i \<in> set (od_keys docs) \<longleftrightarrow>
        (\<exists>k. in_sweep sts d i k \<and> ahead_of position k \<and> \<not> ahead_of next_position k)" for i
    proof
      assume "i \<in> set (od_keys docs)"
      then obtain k r where kr: "(k, i, r) \<in> set sel" using pj by auto
      then have "(k, i, r) \<in> set cs" using sub by blast
      then show "\<exists>k. in_sweep sts d i k \<and> ahead_of position k \<and> \<not> ahead_of next_position k"
        using cut [of "(k, i, r)"] kr mem by (auto simp: in_sweep_def)
    next
      assume "\<exists>k. in_sweep sts d i k \<and> ahead_of position k \<and> \<not> ahead_of next_position k"
      then obtain k r where kr: "map_of d i = Some (JObj r)" "status_member (map_of r ''status'') sts = Inr True"
        "row_sort_key i r = k" "ahead_of position k" "\<not> ahead_of next_position k"
        by (auto simp: in_sweep_def)
      then have "(k, i, r) \<in> set cs" using mem by auto
      then have "(k, i, r) \<in> set sel" using cut [of "(k, i, r)"] kr(5) by simp
      then show "i \<in> set (od_keys docs)" using pj by force
    qed
    have adv: "ahead_of position k" if a: "ahead_of next_position k" for k
    proof -
      have full: "\<not> length sel < nat n" using a by (auto simp: nx sel_def ahead_of_def split: if_splits)
      then have ne: "sel \<noteq> []" using lim by auto
      obtain kl il rl where l: "last sel = (kl, il, rl)" by (cases "last sel")
      have "(kl, il, rl) \<in> set cs" using last_in_set [OF ne] l sub by auto
      then have "ahead_of position kl" using mem by blast
      then have "beyond last_key kl" using pos by blast
      moreover have "kl < k" using a full l by (simp add: nx sel_def [symmetric] ahead_of_def)
      ultimately have "beyond last_key k" by (auto simp: beyond_def split: option.splits)
      then show ?thesis using pos by simp
    qed
    have prog: "docs \<noteq> []" if "next_position \<noteq> CURSOR_END"
    proof -
      have "\<not> length sel < nat n" using that by (simp add: nx sel_def split: if_splits)
      then have "sel \<noteq> []" using lim by auto
      then show ?thesis using pj by auto
    qed
    have "inj_on (\<lambda>(k, i, r). i) (set sel)"
    proof (rule inj_onI)
      fix x y assume x: "x \<in> set sel" "y \<in> set sel" and e: "(\<lambda>(k, i, r). i) x = (\<lambda>(k, i, r). i) y"
      obtain k i r k' i' r' where xy: "x = (k, i, r)" "y = (k', i', r')" by (metis prod_cases3)
      have "(k, i, r) \<in> set cs" "(k', i, r') \<in> set cs" using x e sub xy by auto
      then show "x = y" using mem xy e by auto
    qed
    moreover have "distinct sel" unfolding sel_def
      using page_candidates_distinct [OF cs wf] by (simp add: distinct_map)
    ultimately have dist: "distinct (od_keys docs)" using pj by (simp add: distinct_map)
    have rec: "\<exists>r. map_of d i = Some (JObj r) \<and> raw_scheduling_record i r = Inr rec"
      if h: "(i, rec) \<in> set docs" for i rec
    proof -
      obtain k r where kr: "(k, i, r) \<in> set sel" "raw_scheduling_record i r = Inr rec" using pj h by fastforce
      then show ?thesis using sub mem by blast
    qed
    show ?thesis using ids adv prog dist rec by blast
  qed
qed

section \<open>Pages of a usable store\<close>

text \<open>Every row is an object with the fields the scheduler reads.\<close>

definition usable :: "kv_data \<Rightarrow> bool" where
  "usable d \<longleftrightarrow> (\<forall>(i, v) \<in> set d. \<exists>r rec. v = JObj r \<and> raw_scheduling_record i r = Inr rec)"

definition cursor_ok :: "cursor \<Rightarrow> bool" where
  "cursor_ok position =
     (case position of CursorAfter opaque \<Rightarrow> (case decode_cursor opaque of Inr k \<Rightarrow> True | Inl e \<Rightarrow> False)
      | _ \<Rightarrow> True)"

lemma usable_status:
  "raw_scheduling_record i r = Inr rec
    \<Longrightarrow> map_of r ''status'' = Some (JStr (status_value (sr_status rec)))
       \<and> status_member (map_of r ''status'') sts = Inr (sr_status rec \<in> set sts)"
proof -
  assume h: "raw_scheduling_record i r = Inr rec"
  obtain raw where raw: "map_of r ''status'' = Some raw" "doc_status_of raw = Inr (sr_status rec)"
    using h by (auto simp: raw_scheduling_record_def Let_def split: option.splits sum.splits if_splits)
  have "raw = JStr (status_value (sr_status rec))"
    using raw(2) by (cases raw) (auto simp: doc_status_of_def find_Some_iff split: option.splits)
  moreover have "inj status_value"
  proof (rule injI)
    fix a b assume "status_value a = status_value b"
    then show "a = b" by (cases a; cases b) (simp_all add: status_value_def)
  qed
  ultimately show ?thesis using raw(1) by (simp add: status_member_def inj_image_mem_iff)
qed

lemma candidates_total: "usable d \<Longrightarrow> \<exists>cs. page_candidates strict sts last_key d = Inr cs"
proof (induction d)
  case (Cons row d)
  obtain i v where row: "row = (i, v)" by (cases row)
  obtain r rec where r: "v = JObj r" "raw_scheduling_record i r = Inr rec"
    using Cons.prems row by (auto simp: usable_def)
  obtain cs where "page_candidates strict sts last_key d = Inr cs"
    using Cons by (auto simp: usable_def)
  then show ?case using usable_status [OF r(2), of sts] row r(1)
    by (cases "sr_status rec \<in> set sts") (auto simp: Let_def)
qed simp

lemma project_total:
  "\<forall>(k, i, r) \<in> set sel. \<exists>rec. raw_scheduling_record i r = Inr rec \<Longrightarrow> \<exists>docs. project_rows strict sel = Inr docs"
proof (induction sel)
  case (Cons c sel)
  obtain k i r where c: "c = (k, i, r)" by (rule prod_cases3)
  obtain rec where rec: "raw_scheduling_record i r = Inr rec" using Cons.prems c by auto
  obtain docs where docs: "project_rows strict sel = Inr docs" using Cons by auto
  show ?case by (simp add: c docs scheduling_record_from_row_def rec)
qed simp

lemma usable_page:
  assumes "usable d" "od_wf d" "0 < n" "cursor_ok position"
  shows "\<exists>docs next_position. get_docs_by_statuses_page sts n position True d = Inr (docs, next_position)
    \<and> cursor_ok next_position"
proof (cases "sts = [] \<or> position = CURSOR_END")
  case False
  obtain last_key where lk: "(case position of CursorAfter opaque \<Rightarrow> ds_bind (decode_cursor opaque) (\<lambda>k. Inr (Some k))
      | _ \<Rightarrow> Inr None) = Inr last_key"
    using assms(4) by (cases position) (auto simp: cursor_ok_def split: sum.splits)
  obtain cs where cs: "page_candidates True sts last_key d = Inr cs"
    using candidates_total [OF assms(1)] by blast
  have "\<exists>rec. raw_scheduling_record i r = Inr rec" if h: "(k, i, r) \<in> set (take (nat n) (sort_key fst cs))" for k i r
  proof -
    have "(k, i, r) \<in> set cs" using h in_set_takeD by (metis set_sort)
    then have "(i, JObj r) \<in> set d" using page_candidates_set [OF cs assms(2)] by (auto dest: map_of_SomeD)
    then show ?thesis using assms(1) by (auto simp: usable_def)
  qed
  then obtain docs where "project_rows True (take (nat n) (sort_key fst cs)) = Inr docs"
    using project_total [of "take (nat n) (sort_key fst cs)" True] by blast
  then show ?thesis using False assms(3) lk cs
    by (auto simp: get_docs_by_statuses_page_def Let_def cursor_ok_def)
qed (use assms in \<open>auto simp: get_docs_by_statuses_page_def cursor_ok_def\<close>)

section \<open>The repair of a source conflict\<close>

lemma primary_candidates_set:
  "od_wf d \<Longrightarrow> set (primary_candidates key d) = {i. \<exists>v. map_of d i = Some v \<and> is_primary_of key v}"
  by (force simp: primary_candidates_def primaries_def od_wf_def)

lemma primary_candidates_distinct: "od_wf d \<Longrightarrow> distinct (primary_candidates key d)"
  by (simp add: primary_candidates_def primaries_def od_wf_def distinct_map_filter)

lemma demoted_row_fields:
  assumes "demoted_row py_dict primary r = Inr r'"
  shows "is_duplicate_row (JObj r')" "f \<noteq> ''metadata'' \<Longrightarrow> map_of r' f = map_of r f"
    "\<exists>m. map_of r' ''metadata'' = Some (JObj m) \<and> map_of m ''original_doc_id'' = Some (JStr primary)"
  using assms by (auto simp: demoted_row_def ds_bind_Inr_iff is_duplicate_row_def jget_def jtruthy_def)

lemma demote_rows_effect:
  "demote_rows py_dict primary ids d = (d', None) \<Longrightarrow> distinct ids \<Longrightarrow> od_wf d \<Longrightarrow>
     od_wf d' \<and> (\<forall>i. i \<notin> set ids \<longrightarrow> map_of d' i = map_of d i)
     \<and> (\<forall>i \<in> set ids. \<exists>r r'. map_of d i = Some (JObj r) \<and> demoted_row py_dict primary r = Inr r'
          \<and> map_of d' i = Some (JObj r'))"
proof (induction ids arbitrary: d)
  case (Cons i ids)
  obtain r r' where r: "map_of d i = Some (JObj r)" "demoted_row py_dict primary r = Inr r'"
    "demote_rows py_dict primary ids (od_set i (JObj r') d) = (d', None)"
    using Cons.prems(1) by (auto split: option.splits json.splits sum.splits)
  have ih: "od_wf d' \<and> (\<forall>j. j \<notin> set ids \<longrightarrow> map_of d' j = map_of (od_set i (JObj r') d) j)
     \<and> (\<forall>j \<in> set ids. \<exists>r1 r2. map_of (od_set i (JObj r') d) j = Some (JObj r1)
          \<and> demoted_row py_dict primary r1 = Inr r2 \<and> map_of d' j = Some (JObj r2))"
    using Cons.IH [OF r(3)] Cons.prems by simp
  have fresh: "i \<notin> set ids" using Cons.prems(2) by simp
  have "\<exists>r1 r2. map_of d j = Some (JObj r1) \<and> demoted_row py_dict primary r1 = Inr r2
      \<and> map_of d' j = Some (JObj r2)" if h: "j \<in> set (i # ids)" for j
  proof (cases "j = i")
    case True
    then show ?thesis using ih fresh r by simp
  next
    case False
    then show ?thesis using ih h by auto
  qed
  then show ?case using ih fresh by auto
qed simp

lemma takeWhile_to_zero: "0 \<notin> set x \<Longrightarrow> takeWhile (\<lambda>c. c \<noteq> 0) (x @ (0 :: nat) # r) = x"
  by (induction x) auto

lemma fingerprint_input_inj:
  "concat (map (\<lambda>i. i @ [0]) xs) = concat (map (\<lambda>i. i @ [0 :: nat]) ys)
    \<Longrightarrow> \<forall>i \<in> set xs \<union> set ys. 0 \<notin> set i \<Longrightarrow> xs = ys"
proof (induction xs arbitrary: ys)
  case Nil
  then show ?case by (cases ys) auto
next
  case (Cons x xs)
  then obtain y ys' where ys: "ys = y # ys'" by (cases ys) auto
  have e: "x @ 0 # concat (map (\<lambda>i. i @ [0]) xs) = y @ 0 # concat (map (\<lambda>i. i @ [0]) ys')"
    using Cons.prems(1) ys by simp
  have "0 \<notin> set x" "0 \<notin> set y" using Cons.prems(2) ys by auto
  then have "x = y" using takeWhile_to_zero e by metis
  with e Cons.IH [of ys'] Cons.prems(2) ys show ?case by simp
qed

text \<open>A repair that is refused, or only tried, changes nothing.\<close>

lemma refused_repair_changes_nothing:
  assumes "repair_source_conflict digest py_dict ns ok p later key primary n fp dry_run w = (w', res)"
    and "dry_run \<or> primary \<notin> set (primary_candidates key (kw_data w))
      \<or> int (length (primary_candidates key (kw_data w))) \<noteq> n
      \<or> conflict_fingerprint digest (primary_candidates key (kw_data w)) \<noteq> fp"
  shows "w' = w"
  using assms by (auto simp: repair_source_conflict_def Let_def split: if_splits)

text \<open>What the demotions leave: the chosen row alone as a candidate, every other candidate marked as a
  duplicate, all else as it was.\<close>

lemma demotion_leaves_one:
  assumes wf: "od_wf rows" and nn: "\<forall>(i, v) \<in> set rows. v \<noteq> JNull"
    and prim: "primary \<in> set (primary_candidates key rows)"
    and dem: "demote_rows py_dict primary (filter (\<lambda>i. i \<noteq> primary) (primary_candidates key rows)) rows = (d, None)"
  shows "primary_candidates key d = [primary]" "rows_ok d"
    and "i \<notin> set (primary_candidates key rows) - {primary} \<Longrightarrow> map_of d i = map_of rows i"
    and "i \<in> set (primary_candidates key rows) - {primary} \<Longrightarrow> \<exists>r r'. map_of rows i = Some (JObj r)
      \<and> map_of d i = Some (JObj r') \<and> is_duplicate_row (JObj r') \<and> (\<forall>f. f \<noteq> ''metadata'' \<longrightarrow> map_of r' f = map_of r f)"
proof -
  define demoted where "demoted = filter (\<lambda>i. i \<noteq> primary) (primary_candidates key rows)"
  have dist: "distinct demoted" using primary_candidates_distinct [OF wf] by (simp add: demoted_def)
  note eff = demote_rows_effect [OF dem [folded demoted_def] dist wf]
  have sets: "set demoted = set (primary_candidates key rows) - {primary}" by (auto simp: demoted_def)
  have cand: "i \<in> set (primary_candidates key rows) \<longleftrightarrow> (\<exists>v. map_of rows i = Some v \<and> is_primary_of key v)" for i
    using primary_candidates_set [OF wf] by simp
  have "i \<in> set (primary_candidates key d) \<longleftrightarrow> i = primary" for i
  proof (cases "i \<in> set demoted")
    case True
    then obtain r r' where r: "demoted_row py_dict primary r = Inr r'" "map_of d i = Some (JObj r')"
      using eff by blast
    then have "\<not> is_primary_of key (JObj r')" using demoted_row_fields(1) [OF r(1)] by (simp add: is_primary_of_def)
    then show ?thesis using True r(2) eff primary_candidates_set [of d key] by (auto simp: demoted_def)
  next
    case False
    then have "map_of d i = map_of rows i" using eff by simp
    then have "i \<in> set (primary_candidates key d) \<longleftrightarrow> i \<in> set (primary_candidates key rows)"
      using eff primary_candidates_set [of d key] cand by simp
    then show ?thesis using False prim by (auto simp: demoted_def)
  qed
  then show "primary_candidates key d = [primary]"
    using primary_candidates_distinct [of d key] eff
    by (metis distinct_length_2_or_more empty_iff empty_set insert_iff list.exhaust list.set_intros)
  have "v \<noteq> JNull" if h: "(i, v) \<in> set d" for i v
  proof -
    have m: "map_of d i = Some v" using h eff by (simp add: od_wf_def)
    show ?thesis
    proof (cases "i \<in> set demoted")
      case True
      then show ?thesis using eff m by force
    next
      case False
      then have "map_of rows i = Some v" using eff m by simp
      then show ?thesis using nn by (auto dest: map_of_SomeD)
    qed
  qed
  then show "rows_ok d" using eff by (auto simp: rows_ok_def)
  show "map_of d i = map_of rows i" if "i \<notin> set (primary_candidates key rows) - {primary}" for i
    using eff sets that by simp
  show "\<exists>r r'. map_of rows i = Some (JObj r) \<and> map_of d i = Some (JObj r') \<and> is_duplicate_row (JObj r')
      \<and> (\<forall>f. f \<noteq> ''metadata'' \<longrightarrow> map_of r' f = map_of r f)"
    if h: "i \<in> set (primary_candidates key rows) - {primary}" for i
  proof -
    obtain r r' where "map_of rows i = Some (JObj r)" "demoted_row py_dict primary r = Inr r'"
      "map_of d i = Some (JObj r')" using eff h sets by blast
    then show ?thesis using demoted_row_fields(1,2) by blast
  qed
qed

text \<open>A row that was announced under the lock is in the file once the save after it succeeds.\<close>

lemma announced_row_is_saved:
  assumes inv: "kv_inv ns w1" "kw_bound w1 p" "raised w1 p" "\<not> is_cache_namespace ns" "\<forall>op \<in> set between. kv_op_ok op"
    and idx: "kv_index_done ns ok p (kv_run fmt ns between w1) = (w', None)"
    and row: "map_of (kw_data w1) i = Some v" "sanitize_string_for_json i = i" "sanitize_for_encoding v = v"
      "sole_key i (kw_data w1)" "\<forall>op \<in> set between. kv_spares i op"
  shows "map_of (disk_rows (kw_disk w')) i = Some v"
proof -
  define wb where "wb = kv_run fmt ns between w1"
  have b: "kv_inv ns wb" "kw_bound wb p"
    using kv_run_inv [OF inv(1,4,5)] inv(2) by (simp_all add: wb_def)
  obtain h where h: "kw_handle wb p = Some h" using inv_bound [OF b] by blast
  have saved: "ok \<or> \<not> raised wb p"
    using idx h by (auto simp: kv_index_done_def raised_def wb_def split: if_splits)
  have "on_its_way p i v w1" using inv(2,3) row by (simp add: on_its_way_def)
  then have way: "on_its_way p i v wb"
    using kv_run_on_its_way [OF inv(1,4) _ row(2,3)] inv(5) row(5) by (simp add: wb_def)
  have "kv_op_ok (Kv_flush p ok)" "kv_spares i (Kv_flush p ok)" by (simp_all add: kv_op_ok_def kv_spares_def)
  from kv_exec_on_its_way [OF b(1) inv(4) this(1) row(2,3) way this(2), of fmt]
  have "on_its_way p i v w'" using b(2) idx by (simp add: kv_exec_def wb_def)
  moreover have "\<not> raised w' p"
    using index_done_saves [OF b, of w' ok] idx saved by (auto simp: wb_def split: if_splits)
  ultimately show ?thesis by (simp add: on_its_way_def)
qed

text \<open>C15. An operator asks for the candidates of a source, and commits a
  repair with the count and the fingerprint of what was shown (the digest is collision-free, the ids hold no
  NUL). If the repair reports its commit, the candidates were still exactly those shown when the demotions
  were made, in one step that left the chosen document as the only candidate and changed nothing but the
  metadata of the others. The lock is then released, and any calls of any processes come before the save:
  each row they do not name that can be encoded (and whose key no other key is sanitized to) is in the file
  as the repair left it, the demotions among them. What they insert meanwhile, a new candidate even, is not
  touched: a commit does not say that the source is free of conflicts.\<close>

theorem repair_commits_what_was_seen:
  assumes "kv_inv ns w" "\<not> is_cache_namespace ns" "kw_bound w p" "inj digest"
    and "\<forall>i \<in> set seen \<union> set (primary_candidates key (kw_data w)). 0 \<notin> set i"
    and "\<forall>op \<in> set between. kv_op_ok op"
    and "repair_source_conflict digest py_dict ns ok p (kv_run fmt ns between) key primary (int (length seen))
           (conflict_fingerprint digest seen) False w = (w', Inr res)"
  shows "primary_candidates key (kw_data w) = seen \<and> rr_committed res
    \<and> (\<exists>d w1. (w1, None) = kv_mark_dirty ns (w\<lparr>kw_data := d\<rparr>)
         \<and> (w', None) = kv_index_done ns ok p (kv_run fmt ns between w1)
         \<and> primary_candidates key d = [primary]
         \<and> (\<forall>i. i \<notin> set seen - {primary} \<longrightarrow> map_of d i = map_of (kw_data w) i)
         \<and> (\<forall>i \<in> set seen - {primary}. \<exists>r r'. map_of (kw_data w) i = Some (JObj r) \<and> map_of d i = Some (JObj r')
              \<and> is_duplicate_row (JObj r') \<and> (\<forall>f. f \<noteq> ''metadata'' \<longrightarrow> map_of r' f = map_of r f))
         \<and> (\<forall>i v. map_of d i = Some v \<longrightarrow> sanitize_string_for_json i = i \<longrightarrow> sanitize_for_encoding v = v
              \<longrightarrow> sole_key i d \<longrightarrow> (\<forall>op \<in> set between. kv_spares i op) \<longrightarrow> map_of (disk_rows (kw_disk w')) i = Some v))"
proof -
  define cand where "cand = primary_candidates key (kw_data w)"
  have wf: "od_wf (kw_data w)" and nn: "\<forall>(i, v) \<in> set (kw_data w). v \<noteq> JNull"
    using inv_rows [OF assms(1)] by (auto simp: rows_ok_def)
  have prim: "primary \<in> set cand" and fp: "conflict_fingerprint digest cand = conflict_fingerprint digest seen"
    using assms(7) by (auto simp: repair_source_conflict_def Let_def cand_def split: if_splits)
  have seen: "cand = seen"
    using fp assms(4,5) fingerprint_input_inj [of cand seen]
    by (simp add: conflict_fingerprint_def inj_eq cand_def Un_commute)
  obtain d where dem: "demote_rows py_dict primary (filter (\<lambda>i. i \<noteq> primary) cand) (kw_data w) = (d, None)"
    and fl: "then_flush ns ok p (kv_run fmt ns between) (kv_mark_dirty ns (w\<lparr>kw_data := d\<rparr>)) = (w', None)"
    and com: "rr_committed res"
    using assms(7) by (auto simp: repair_source_conflict_def Let_def cand_def
        split: if_splits prod.splits option.splits)
  note left = demotion_leaves_one [OF wf nn prim [unfolded cand_def] dem [unfolded cand_def], folded cand_def, unfolded seen]
  note wr = kv_inv_written [OF assms(1,3) left(2) refl]
  define w1 where "w1 = fst (kv_mark_dirty ns (w\<lparr>kw_data := d\<rparr>))"
  have md: "kv_mark_dirty ns (w\<lparr>kw_data := d\<rparr>) = (w1, None)"
    using wr(7) by (simp add: w1_def prod_eq_iff)
  have b: "kv_inv ns w1" "kw_bound w1 p" "raised w1 p" "kw_data w1 = d"
    using wr assms(3) by (simp_all add: w1_def)
  have idx: "kv_index_done ns ok p (kv_run fmt ns between w1) = (w', None)"
    using fl md by (auto simp: then_flush_def split: prod.splits option.splits)
  note on_file = announced_row_is_saved [OF b(1-3) assms(2,6) idx, unfolded b(4)]
  show ?thesis
  proof (intro conjI exI [of _ d] exI [of _ w1])
    show "primary_candidates key (kw_data w) = seen" using seen by (simp add: cand_def)
    show "(w1, None) = kv_mark_dirty ns (w\<lparr>kw_data := d\<rparr>)" using md by simp
    show "(w', None) = kv_index_done ns ok p (kv_run fmt ns between w1)" using idx by simp
  qed (use com left on_file in blast)+
qed

section \<open>A conflict repaired\<close>

definition shared_file :: "jval \<Rightarrow> jval" where
  "shared_file metadata =
     JObj [(''file_path'', JStr [102]), (''status'', JStr (lit ''processed'')), (''metadata'', metadata)]"

definition opened :: "kv_data \<Rightarrow> kv_world" where
  "opened rows = kv_run (\<lambda>_. []) ''doc_status'' [Kv_register 0, Kv_load 0] (kv_start (Rows rows))"

definition two_primaries :: kv_data where
  "two_primaries = [([98], shared_file JNull), ([97], shared_file (JObj []))]"

lemmas opened_defs = opened_def kv_run_def kv_exec_def kv_start_def kv_register_def get_update_flag_def
  kv_load_def load_json_def is_cache_namespace_def kv_update_def Let_def

lemma opened_simps:
  "kw_bound (opened two_primaries) 0" "kw_data (opened two_primaries) = two_primaries"
  by (simp_all add: opened_defs two_primaries_def)

lemma opened_inv: "kv_inv ''doc_status'' (opened two_primaries)"
proof -
  have "kv_inv ''doc_status'' (kv_start (Rows two_primaries))"
    by (rule kv_start_inv) (simp_all add: two_primaries_def disk_rows_def rows_ok_def od_wf_def shared_file_def)
  moreover have "\<not> is_cache_namespace ''doc_status''" by (simp add: is_cache_namespace_def)
  ultimately show ?thesis using kv_run_inv [of "''doc_status''" _ "[Kv_register 0, Kv_load 0]" "\<lambda>_. []"]
    by (simp add: opened_def kv_op_ok_def)
qed

text \<open>Between the demotion and the save another row of the source is put.\<close>

definition newcomer :: "kv_op list" where
  "newcomer = [Kv_put 0 [([99], shared_file JNull)]]"

definition repaired :: "kv_world \<times> pystr repair_result ds_res" where
  "repaired = repair_source_conflict (\<lambda>x. x) (\<lambda>_. Inl DS_TypeError) ''doc_status'' True 0
     (kv_run (\<lambda>_. []) ''doc_status'' newcomer) [102] [97]
     (int (length [[97], [98 :: nat]])) (conflict_fingerprint (\<lambda>x. x) [[97], [98]]) False (opened two_primaries)"

lemmas repair_defs = repair_source_conflict_def primary_candidates_def primaries_def is_primary_of_def
  is_duplicate_row_def jget_def shared_file_def conflict_fingerprint_def demoted_row_def jtruthy_def
  then_flush_def kv_mark_dirty_def set_all_update_flags_def kv_index_done_def flag_value_def
  clear_all_update_flags_def

lemma two_primaries_candidates: "primary_candidates [102] two_primaries = [[97], [98]]"
  by (simp add: repair_defs two_primaries_def)

lemma repaired_commits: "\<exists>w' res. repaired = (w', Inr res)"
  by (simp add: repaired_def repair_defs opened_defs two_primaries_def newcomer_def kv_put_def kv_op_ok_def split: prod.split)

lemma repair_commits_what_was_seen_witness:
  "\<exists>d. primary_candidates [102] d = [[97]] \<and> is_duplicate_row (the (map_of d [98]))
     \<and> primary_candidates [102] (kw_data (fst repaired)) = [[97], [99]]"
proof -
  obtain w' res where r: "repaired = (w', Inr res)" using repaired_commits by blast
  have "\<forall>i \<in> set [[97], [98]] \<union> set (primary_candidates [102] (kw_data (opened two_primaries))). (0 :: nat) \<notin> set i"
    by (simp add: opened_simps two_primaries_candidates)
  note c = repair_commits_what_was_seen [OF opened_inv _ opened_simps(1) _ this _ r [unfolded repaired_def]]
  have n: "\<forall>op \<in> set newcomer. kv_op_ok op" "\<not> is_cache_namespace ''doc_status''"
    by (simp_all add: newcomer_def kv_op_ok_def shared_file_def is_cache_namespace_def)
  have "primary_candidates [102] (kw_data (fst repaired)) = [[97], [99]]"
    by (simp add: repaired_def repair_defs opened_defs two_primaries_def newcomer_def kv_put_def write_json_def is_surrogate_def split: prod.split)
  moreover have "\<exists>d. primary_candidates [102] d = [[97]] \<and> is_duplicate_row (the (map_of d [98]))"
    using c [OF n(2) _ n(1)] by (fastforce simp: inj_def)
  ultimately show ?thesis by blast
qed

text \<open>A candidate whose metadata is no object stops the repair half-way: the demotions made before it
  stay in the shared dictionary, with every flag down and the file unchanged.\<close>

definition three_primaries :: kv_data where
  "three_primaries = two_primaries @ [([99], shared_file (JNum 1))]"

lemma failed_repair_leaves_demotions:
  "case repair_source_conflict (\<lambda>x. x) (\<lambda>_. Inl DS_TypeError) ''doc_status'' True 0 (\<lambda>w. w) [102] [97] 3
      (conflict_fingerprint (\<lambda>x. x) [[97], [98], [99]]) False (opened three_primaries) of
     (w', res) \<Rightarrow> res = Inl DS_TypeError \<and> primary_candidates [102] (kw_data w') = [[97], [99]]
       \<and> kw_disk w' = Rows three_primaries \<and> \<not> raised w' 0"
  by (simp add: repair_defs opened_defs three_primaries_def two_primaries_def raised_def)

end
