(* ===== verification/DocSweep.thy ===== *)
theory DocSweep
  imports DocStatus
begin

text \<open>
  The sweeps over the document-status storage: the scheduling page and the proof of idleness of
  src/ontorag/pipeline.py, and the discovery of interrupted custom-chunk operations of
  src/ontorag/ontorag.py. Every read of a sweep sees the store as it is then; a run is given the list
  of the stores its rounds see. The locale \<open>doc_pages\<close> is the contract of src/ontorag/base.py that a
  storage promises for its pages, whatever the backend; the JSON storage is shown to keep it.
\<close>

section \<open>The interface\<close>

text \<open>The reads a sweep makes, all strict.\<close>

record 's doc_backend =
  be_page :: "'s \<Rightarrow> doc_status list \<Rightarrow> int \<Rightarrow> cursor \<Rightarrow> ((pystr, sched_record) odict \<times> cursor) ds_res"
  be_hydrate :: "'s \<Rightarrow> pystr list \<Rightarrow> (pystr, doc_full) odict ds_res"
  be_scan :: "'s \<Rightarrow> doc_status list \<Rightarrow> (pystr, doc_full) odict ds_res"

definition json_backend :: "kv_data doc_backend" where
  "json_backend =
     \<lparr>be_page = (\<lambda>d sts n position. get_docs_by_statuses_page sts n position True d),
      be_hydrate = (\<lambda>d ids. get_full_docs_by_ids ids True d),
      be_scan = (\<lambda>d sts. get_docs_by_statuses sts True d)\<rparr>"

definition AUTO_RESUME_DOC_STATUSES :: "doc_status list" where
  "AUTO_RESUME_DOC_STATUSES = [PENDING, PROCESSING, PARSING, ANALYZING]"

definition MANUAL_DRAIN_BLOCKER_SAMPLE :: nat where
  "MANUAL_DRAIN_BLOCKER_SAMPLE = 8"

definition custom_chunk_patch :: "doc_full \<Rightarrow> bool" where
  "custom_chunk_patch doc = has_journal (Some (df_metadata doc))"

section \<open>One round\<close>

definition fetch_scheduling_page ::
    "'s doc_backend \<Rightarrow> doc_status list \<Rightarrow> cursor \<Rightarrow> int \<Rightarrow> 's \<Rightarrow> (pystr list \<times> pystr list \<times> cursor) ds_res" where
  "fetch_scheduling_page B sts position n s =
     ds_bind (be_page B s sts n position) (\<lambda>(docs, next_position).
       Inr (map fst (filter (\<lambda>(i, rec). \<not> sr_journal rec) docs),
            map fst (filter (\<lambda>(i, rec). sr_journal rec) docs), next_position))"

text \<open>Rows that left the set between the page and its hydration are dropped.\<close>

fun keep_statuses :: "doc_status list \<Rightarrow> (pystr, doc_full) odict \<Rightarrow> (pystr, doc_full) odict ds_res" where
  "keep_statuses sts [] = Inr []"
| "keep_statuses sts ((i, doc) # docs) =
     ds_bind (status_member (Some (df_status doc)) sts) (\<lambda>b.
       ds_bind (keep_statuses sts docs) (\<lambda>rest. Inr (if b then (i, doc) # rest else rest)))"

definition hydrate_scheduling_page ::
    "'s doc_backend \<Rightarrow> pystr list \<Rightarrow> doc_status list \<Rightarrow> 's \<Rightarrow> (pystr, doc_full) odict ds_res" where
  "hydrate_scheduling_page B ids sts s = ds_bind (be_hydrate B s ids) (keep_statuses sts)"

text \<open>\<open>s1\<close> is the store the page sees, \<open>s2\<close> the store its hydration sees.\<close>

definition next_scheduling_page ::
    "'s doc_backend \<Rightarrow> int \<Rightarrow> doc_status list \<Rightarrow> cursor \<Rightarrow> 's \<Rightarrow> 's
      \<Rightarrow> ((pystr, doc_full) odict \<times> cursor) ds_res" where
  "next_scheduling_page B page_size sts position s1 s2 =
     (if page_size \<le> 0
      then ds_bind (be_scan B s1 sts) (\<lambda>docs.
             Inr (filter (\<lambda>(i, doc). \<not> custom_chunk_patch doc) docs, CURSOR_END))
      else ds_bind (fetch_scheduling_page B sts position page_size s1)
             (\<lambda>(routable_ids, journaled_ids, next_position).
                if routable_ids = [] then Inr ([], next_position)
                else ds_bind (hydrate_scheduling_page B routable_ids sts s2)
                       (\<lambda>docs. Inr (docs, next_position))))"

section \<open>The proof of idleness\<close>

text \<open>The rounds of \<open>_confirm_auto_drained\<close>, one for every pair of stores; \<open>None\<close> when the rounds the
  list allows are over before the sweep is.\<close>

fun confirm_rounds ::
    "'s doc_backend \<Rightarrow> int \<Rightarrow> cursor \<Rightarrow> pystr list \<Rightarrow> ('s \<times> 's) list
      \<Rightarrow> ((pystr, doc_full) odict \<times> cursor \<times> pystr list) option ds_res" where
  "confirm_rounds B n position blocking [] = Inr None"
| "confirm_rounds B n position blocking ((s1, s2) # views) =
     ds_bind (fetch_scheduling_page B AUTO_RESUME_DOC_STATUSES position n s1)
       (\<lambda>(routable_ids, journaled_ids, next_position).
          ds_bind (if routable_ids = [] then Inr []
                   else hydrate_scheduling_page B routable_ids AUTO_RESUME_DOC_STATUSES s2) (\<lambda>hydrated.
            if hydrated \<noteq> [] then Inr (Some (hydrated, next_position, []))
            else (let blocking' = blocking
                        @ take (MANUAL_DRAIN_BLOCKER_SAMPLE - length blocking) journaled_ids
                  in if next_position = CURSOR_END then Inr (Some ([], CURSOR_END, blocking'))
                     else confirm_rounds B n next_position blocking' views)))"

definition confirm_auto_drained ::
    "'s doc_backend \<Rightarrow> int \<Rightarrow> ('s \<times> 's) list
      \<Rightarrow> ((pystr, doc_full) odict \<times> cursor \<times> pystr list) option ds_res" where
  "confirm_auto_drained B page_size views =
     (if page_size \<le> 0
      then (case views of
              [] \<Rightarrow> Inr None
            | (s, _) # _ \<Rightarrow>
                ds_bind (be_scan B s AUTO_RESUME_DOC_STATUSES) (\<lambda>docs.
                  let routable = filter (\<lambda>(i, doc). \<not> custom_chunk_patch doc) docs
                  in if routable \<noteq> [] then Inr (Some (routable, CURSOR_END, []))
                     else Inr (Some ([], CURSOR_END,
                            take MANUAL_DRAIN_BLOCKER_SAMPLE (sort (map fst docs))))))
      else confirm_rounds B page_size CURSOR_START [] views)"

section \<open>The discovery of interrupted operations\<close>

text \<open>The batches handed to \<open>_roll_back_batch\<close>, one per page; the roll-back changes the store the next
  round sees.\<close>

fun rollback_rounds ::
    "'s doc_backend \<Rightarrow> int \<Rightarrow> cursor \<Rightarrow> 's list \<Rightarrow> pystr list list option ds_res" where
  "rollback_rounds B n position [] = Inr None"
| "rollback_rounds B n position (s # views) =
     ds_bind (be_page B s [FAILED, PROCESSING] n position) (\<lambda>(docs, next_position).
       let batch = map fst (filter (\<lambda>(i, rec). sr_journal rec) docs)
       in if next_position = CURSOR_END then Inr (Some [batch])
          else ds_bind (rollback_rounds B n next_position views)
                 (\<lambda>rest. Inr (map_option (\<lambda>batches. batch # batches) rest)))"

section \<open>The contract of a page\<close>

locale doc_pages =
  fixes B :: "'s doc_backend"
    and valid :: "'s \<Rightarrow> bool"
    and listed :: "doc_status list \<Rightarrow> 's \<Rightarrow> pystr \<Rightarrow> 'k \<Rightarrow> bool"
    and ahead :: "cursor \<Rightarrow> 'k \<Rightarrow> bool"
    and journaled :: "'s \<Rightarrow> pystr \<Rightarrow> bool"
  assumes page_ids: "valid s \<Longrightarrow> be_page B s sts n position = Inr (docs, next_position) \<Longrightarrow>
      i \<in> set (od_keys docs) \<longleftrightarrow> (\<exists>k. listed sts s i k \<and> ahead position k \<and> \<not> ahead next_position k)"
    and page_advances: "valid s \<Longrightarrow> be_page B s sts n position = Inr (docs, next_position) \<Longrightarrow>
      ahead next_position k \<Longrightarrow> ahead position k"
    and page_progress: "valid s \<Longrightarrow> be_page B s sts n position = Inr (docs, next_position) \<Longrightarrow>
      next_position \<noteq> CURSOR_END \<Longrightarrow> docs \<noteq> []"
    and page_journal: "valid s \<Longrightarrow> be_page B s sts n position = Inr (docs, next_position) \<Longrightarrow>
      (i, rec) \<in> set docs \<Longrightarrow> sr_journal rec = journaled s i"
    and page_distinct: "valid s \<Longrightarrow> be_page B s sts n position = Inr (docs, next_position) \<Longrightarrow>
      distinct (od_keys docs)"
    and ahead_start: "ahead CURSOR_START k"
    and ahead_end: "\<not> ahead CURSOR_END k"
    and one_key: "listed sts s i k \<Longrightarrow> listed sts s i k' \<Longrightarrow> k' = k"
    and hydrate_finds: "valid s \<Longrightarrow> PROCESSED \<notin> set sts \<Longrightarrow> listed sts s i k \<Longrightarrow> i \<in> set ids \<Longrightarrow>
      be_hydrate B s ids = Inr found \<Longrightarrow>
      \<exists>doc. (i, doc) \<in> set found \<and> status_member (Some (df_status doc)) sts = Inr True"
begin

lemma keeps_member:
  "keep_statuses sts docs = Inr kept \<Longrightarrow> (i, doc) \<in> set docs \<Longrightarrow>
     status_member (Some (df_status doc)) sts = Inr True \<Longrightarrow> kept \<noteq> []"
proof (induction sts docs arbitrary: kept rule: keep_statuses.induct)
  case (2 sts j doc' docs)
  then show ?case by (cases "(i, doc) = (j, doc')") (auto simp: ds_bind_Inr_iff split: if_splits)
qed simp

lemma fetched:
  assumes "valid s" "fetch_scheduling_page B sts position n s = Inr (routable_ids, journaled_ids, next_position)"
  shows "\<exists>docs. be_page B s sts n position = Inr (docs, next_position)
    \<and> set routable_ids = {i \<in> set (od_keys docs). \<not> journaled s i}
    \<and> set journaled_ids = {i \<in> set (od_keys docs). journaled s i}"
proof -
  obtain docs where pg: "be_page B s sts n position = Inr (docs, next_position)"
    and ids: "routable_ids = map fst (filter (\<lambda>(i, rec). \<not> sr_journal rec) docs)"
      "journaled_ids = map fst (filter (\<lambda>(i, rec). sr_journal rec) docs)"
    using assms(2) by (auto simp: fetch_scheduling_page_def ds_bind_Inr_iff)
  note j = page_journal [OF assms(1) pg]
  show ?thesis using pg ids j by force
qed

text \<open>A row that stays listed under one key, ahead of the cursor, in every store the rounds see.\<close>

definition stays :: "doc_status list \<Rightarrow> 's list \<Rightarrow> pystr \<Rightarrow> 'k \<Rightarrow> bool" where
  "stays sts views i k \<longleftrightarrow> (\<forall>s \<in> set views. valid s \<and> listed sts s i k)"

lemma confirm_finds:
  assumes "confirm_rounds B n position blocking views = Inr (Some ([], CURSOR_END, blocked))"
    and "stays AUTO_RESUME_DOC_STATUSES (map fst views @ map snd views) i k" "ahead position k"
  shows "blocked \<noteq> []"
  using assms
proof (induction views arbitrary: position blocking)
  case (Cons v views)
  obtain s1 s2 where v: "v = (s1, s2)" by (cases v)
  have st: "valid s1" "listed AUTO_RESUME_DOC_STATUSES s1 i k" "valid s2" "listed AUTO_RESUME_DOC_STATUSES s2 i k"
    "stays AUTO_RESUME_DOC_STATUSES (map fst views @ map snd views) i k"
    using Cons.prems(2) v by (auto simp: stays_def)
  obtain routable_ids journaled_ids next_position where
    f: "fetch_scheduling_page B AUTO_RESUME_DOC_STATUSES position n s1 = Inr (routable_ids, journaled_ids, next_position)"
    using Cons.prems(1) v by (auto simp: ds_bind_Inr_iff)
  define bl where "bl = blocking @ take (MANUAL_DRAIN_BLOCKER_SAMPLE - length blocking) journaled_ids"
  have h: "routable_ids = [] \<or> hydrate_scheduling_page B routable_ids AUTO_RESUME_DOC_STATUSES s2 = Inr []"
    and rest: "(if next_position = CURSOR_END then Inr (Some ([], CURSOR_END, bl))
        else confirm_rounds B n next_position bl views) = Inr (Some ([], CURSOR_END, blocked))"
    using Cons.prems(1) v f by (auto simp: ds_bind_Inr_iff Let_def bl_def split: if_splits)
  obtain docs where pg: "be_page B s1 AUTO_RESUME_DOC_STATUSES n position = Inr (docs, next_position)"
    and ids: "set routable_ids = {i \<in> set (od_keys docs). \<not> journaled s1 i}"
      "set journaled_ids = {i \<in> set (od_keys docs). journaled s1 i}"
    using fetched [OF st(1) f] by blast
  have keep: "bl \<noteq> [] \<Longrightarrow> blocked \<noteq> []"
  proof -
    have "blocking \<noteq> [] \<Longrightarrow> confirm_rounds B n position blocking views = Inr (Some ([], CURSOR_END, blocked))
        \<Longrightarrow> blocked \<noteq> []" for position blocking
    proof (induction views arbitrary: position blocking)
      case (Cons v views)
      then show ?case by (cases v) (auto simp: ds_bind_Inr_iff Let_def split: if_splits)
    qed simp
    then show "bl \<noteq> [] \<Longrightarrow> blocked \<noteq> []" using rest by (auto split: if_splits)
  qed
  show ?case
  proof (cases "ahead next_position k")
    case True
    then have "next_position \<noteq> CURSOR_END" using ahead_end by auto
    then show ?thesis using Cons.IH [OF _ st(5) True] rest by simp
  next
    case False
    then have "i \<in> set (od_keys docs)" using page_ids [OF st(1) pg] st(2) Cons.prems(3) by blast
    show ?thesis
    proof (cases "journaled s1 i")
      case True
      then have "journaled_ids \<noteq> []" using ids(2) \<open>i \<in> set (od_keys docs)\<close> by auto
      then have "bl \<noteq> []" by (auto simp: bl_def MANUAL_DRAIN_BLOCKER_SAMPLE_def)
      then show ?thesis by (rule keep)
    next
      case nj: False
      then have r: "i \<in> set routable_ids" using ids(1) \<open>i \<in> set (od_keys docs)\<close> by blast
      then obtain full where full: "be_hydrate B s2 routable_ids = Inr full"
        "keep_statuses AUTO_RESUME_DOC_STATUSES full = Inr []"
        using h by (auto simp: hydrate_scheduling_page_def ds_bind_Inr_iff)
      have "PROCESSED \<notin> set AUTO_RESUME_DOC_STATUSES" by (simp add: AUTO_RESUME_DOC_STATUSES_def)
      from hydrate_finds [OF st(3) this st(4) r full(1)] keeps_member [OF full(2)]
      show ?thesis by blast
    qed
  qed
qed simp

lemma rollback_exactly_once:
  assumes "rollback_rounds B n position views = Inr (Some batches)"
    and "\<forall>s \<in> set views. valid s \<and> listed [FAILED, PROCESSING] s i k \<and> journaled s i" "ahead position k"
  shows "length (filter (\<lambda>batch. i \<in> set batch) batches) = 1 \<and> (\<forall>batch \<in> set batches. distinct batch)"
  using assms
proof (induction views arbitrary: position batches)
  case (Cons s views)
  have st: "valid s" "listed [FAILED, PROCESSING] s i k" "journaled s i" using Cons.prems(2) by auto
  obtain docs next_position where pg: "be_page B s [FAILED, PROCESSING] n position = Inr (docs, next_position)"
    using Cons.prems(1) by (auto simp: ds_bind_Inr_iff)
  define batch where "batch = map fst (filter (\<lambda>(i, rec). sr_journal rec) docs)"
  have inb: "j \<in> set batch \<longleftrightarrow> j \<in> set (od_keys docs) \<and> journaled s j" for j
    using page_journal [OF st(1) pg] by (force simp: batch_def)
  have d: "distinct batch" using page_distinct [OF st(1) pg] by (simp add: batch_def distinct_map_filter)
  have i: "i \<in> set batch \<longleftrightarrow> \<not> ahead next_position k"
    using inb st page_ids [OF st(1) pg] one_key Cons.prems(3) by metis
  have no_more: "\<not> ahead position k \<Longrightarrow> rollback_rounds B n position views = Inr (Some bs)
      \<Longrightarrow> \<forall>b \<in> set bs. i \<notin> set b \<and> distinct b" for position bs
    using Cons.prems(2)
  proof (induction views arbitrary: position bs)
    case (Cons s' views)
    have v: "valid s'" "listed [FAILED, PROCESSING] s' i k" using Cons.prems(3) by auto
    obtain docs' next' where pg': "be_page B s' [FAILED, PROCESSING] n position = Inr (docs', next')"
      using Cons.prems(2) by (auto simp: ds_bind_Inr_iff)
    have "i \<notin> set (od_keys docs')" using page_ids [OF v(1) pg'] one_key [OF v(2)] Cons.prems(1) by blast
    moreover have "\<not> ahead next' k" using page_advances [OF v(1) pg'] Cons.prems(1) by blast
    moreover define b where "b = map fst (filter (\<lambda>(i, rec). sr_journal rec) docs')"
    ultimately have b: "i \<notin> set b \<and> distinct b" "\<not> ahead next' k"
      using page_distinct [OF v(1) pg'] by (auto simp: b_def distinct_map_filter)
    show ?case
    proof (cases "next' = CURSOR_END")
      case True
      then have "bs = [b]" using Cons.prems(2) pg' by (simp add: b_def)
      then show ?thesis using b(1) by simp
    next
      case False
      then obtain bs' where "rollback_rounds B n next' views = Inr (Some bs')" "bs = b # bs'"
        using Cons.prems(2) pg' by (auto simp: b_def Let_def ds_bind_Inr_iff)
      then show ?thesis using Cons.IH [OF b(2)] Cons.prems(3) b(1) by simp
    qed
  qed simp
  show ?case
  proof (cases "next_position = CURSOR_END")
    case True
    then have "batches = [batch]" using Cons.prems(1) pg by (simp add: batch_def Let_def)
    then show ?thesis using i d True ahead_end by simp
  next
    case False
    then obtain rest where r: "rollback_rounds B n next_position views = Inr (Some rest)" "batches = batch # rest"
      using Cons.prems(1) pg by (auto simp: batch_def Let_def ds_bind_Inr_iff)
    show ?thesis
    proof (cases "ahead next_position k")
      case True
      then show ?thesis using Cons.IH [OF r(1) _ True] Cons.prems(2) i d r(2) by simp
    next
      case nx: False
      then have "\<forall>b \<in> set rest. i \<notin> set b \<and> distinct b" using no_more r(1) by blast
      then show ?thesis using i nx d r(2) by (simp add: filter_False)
    qed
  qed
qed simp

text \<open>On a store that does not change, a sweep whose pages do not fail ends: every page but the last
  takes at least one row.\<close>

lemma rollback_ends:
  assumes "valid s" "\<And>position. P position \<Longrightarrow> \<exists>docs next_position.
      be_page B s [FAILED, PROCESSING] n position = Inr (docs, next_position) \<and> P next_position"
    and "finite F" "{i. \<exists>k. listed [FAILED, PROCESSING] s i k \<and> ahead position k} \<subseteq> F"
    and "P position" "card F < rounds"
  shows "\<exists>batches. rollback_rounds B n position (replicate rounds s) = Inr (Some batches)"
  using assms(3-6)
proof (induction rounds arbitrary: position F)
  case (Suc rounds)
  obtain docs next_position where pg: "be_page B s [FAILED, PROCESSING] n position = Inr (docs, next_position)"
    and P: "P next_position" using assms(2) [OF Suc.prems(3)] by blast
  show ?case
  proof (cases "next_position = CURSOR_END")
    case False
    then obtain i where i: "i \<in> set (od_keys docs)" using page_progress [OF assms(1) pg] by (cases docs) auto
    let ?F' = "{i. \<exists>k. listed [FAILED, PROCESSING] s i k \<and> ahead next_position k}"
    have sub: "?F' \<subseteq> F - {i}"
    proof
      fix j assume "j \<in> ?F'"
      then obtain k where k: "listed [FAILED, PROCESSING] s j k" "ahead next_position k" by blast
      then have "ahead position k" using page_advances [OF assms(1) pg] by blast
      then have "j \<in> F" using Suc.prems(2) k(1) by blast
      moreover have "j \<noteq> i" using page_ids [OF assms(1) pg] i k one_key by metis
      ultimately show "j \<in> F - {i}" by simp
    qed
    have iF: "i \<in> F" using i page_ids [OF assms(1) pg] Suc.prems(2) by blast
    have "card (F - {i}) < card F" using iF Suc.prems(1) by (rule card_Diff1_less [rotated])
    then have "card (F - {i}) < rounds" using Suc.prems(4) by linarith
    from Suc.IH [OF _ sub P this] Suc.prems(1) obtain batches where
      "rollback_rounds B n next_position (replicate rounds s) = Inr (Some batches)" by auto
    then show ?thesis using pg False by (simp add: Let_def)
  qed (use pg in \<open>simp add: Let_def\<close>)
qed simp

end

section \<open>The JSON storage keeps the contract\<close>

definition row_journaled :: "kv_data \<Rightarrow> pystr \<Rightarrow> bool" where
  "row_journaled d i = (case map_of d i of Some (JObj r) \<Rightarrow> has_journal (map_of r ''metadata'') | _ \<Rightarrow> False)"

lemma hydrated_row:
  "get_full_docs_by_ids ids True d = Inr found \<Longrightarrow> i \<in> set ids \<Longrightarrow> map_of d i = Some (JObj r)
    \<Longrightarrow> \<exists>f. from_stored (normalize_status_row r) = Inr f \<and> map_of found i = Some f"
proof (induction ids arbitrary: found)
  case (Cons j ids)
  show ?case
  proof (cases "j = i")
    case True
    then show ?thesis using Cons.prems
      by (auto simp: doc_processing_status_from_row_def ds_bind_Inr_iff split: sum.splits)
  next
    case False
    then have i: "i \<in> set ids" using Cons.prems(2) by simp
    have "\<exists>rest. get_full_docs_by_ids ids True d = Inr rest
        \<and> (found = rest \<or> (\<exists>f. found = (j, f) # od_del j rest))"
    proof (cases "map_of d j")
      case (Some v)
      then show ?thesis using Cons.prems(1)
        by (cases v) (auto simp: ds_bind_Inr_iff split: sum.splits)
    qed (use Cons.prems(1) in simp)
    then obtain rest where "get_full_docs_by_ids ids True d = Inr rest" "map_of found i = map_of rest i"
      using False by auto
    then show ?thesis using Cons.IH [OF _ i Cons.prems(3)] by auto
  qed
qed simp

lemma normalized_field:
  "f \<notin> {''content'', ''file_path'', ''metadata'', ''error_msg''}
    \<Longrightarrow> map_of (normalize_status_row r) f = map_of r f"
  by (simp add: normalized_lookup)

lemma from_stored_status:
  assumes "from_stored d = Inr f" "map_of d ''status'' = Some (JStr s)" "s \<noteq> status_value PROCESSED"
  shows "df_status f = JStr s"
  using assms by (auto simp: from_stored_def Let_def or_null_def split: if_splits)

lemma member_text:
  "status_member v sts = Inr True \<longleftrightarrow> (\<exists>s. v = Some (JStr s) \<and> s \<in> set (map status_value sts))"
proof (cases v)
  case (Some x)
  then show ?thesis by (cases x) (auto simp: status_member_def)
qed (simp add: status_member_def)

lemma status_value_inj [simp]: "status_value a = status_value b \<longleftrightarrow> a = b"
  by (cases a; cases b) (simp_all add: status_value_def)

interpretation jp: doc_pages json_backend od_wf in_sweep ahead_of row_journaled
proof unfold_locales
  fix d sts n position docs next_position
  assume d: "od_wf d" and pg: "be_page json_backend d sts n position = Inr (docs, next_position)"
  then have pg': "get_docs_by_statuses_page sts n position True d = Inr (docs, next_position)"
    by (simp add: json_backend_def)
  note sp = strict_page [OF pg' d]
  show "i \<in> set (od_keys docs) \<longleftrightarrow> (\<exists>k. in_sweep sts d i k \<and> ahead_of position k \<and> \<not> ahead_of next_position k)" for i
    using sp by blast
  show "ahead_of next_position k \<Longrightarrow> ahead_of position k" for k using sp by blast
  show "next_position \<noteq> CURSOR_END \<Longrightarrow> docs \<noteq> []" using sp by blast
  show "distinct (od_keys docs)" using sp by blast
  show "sr_journal rec = row_journaled d i" if "(i, rec) \<in> set docs" for i rec
  proof -
    have "\<exists>r. map_of d i = Some (JObj r) \<and> raw_scheduling_record i r = Inr rec" using sp that by blast
    then show ?thesis using raw_record_id by (fastforce simp: row_journaled_def)
  qed
next
  show "ahead_of CURSOR_START k" "\<not> ahead_of CURSOR_END k" for k by (simp_all add: ahead_of_def)
next
  fix sts s i k k' assume "in_sweep sts s i k" "in_sweep sts s i k'"
  then show "k' = k" by (auto simp: in_sweep_def)
next
  fix d sts i k ids found
  assume "PROCESSED \<notin> set sts" and l: "in_sweep sts d i k" and i: "i \<in> set ids"
    and h: "be_hydrate json_backend d ids = Inr found"
  obtain r where r: "map_of d i = Some (JObj r)" "status_member (map_of r ''status'') sts = Inr True"
    using l by (auto simp: in_sweep_def)
  obtain s where s: "map_of r ''status'' = Some (JStr s)" "s \<in> set (map status_value sts)"
    using r(2) by (auto simp: member_text)
  obtain f where f: "from_stored (normalize_status_row r) = Inr f" "map_of found i = Some f"
    using hydrated_row [OF _ i r(1)] h by (auto simp: json_backend_def)
  have "s \<noteq> status_value PROCESSED" using s(2) \<open>PROCESSED \<notin> set sts\<close> by auto
  then have "df_status f = JStr s" using from_stored_status [OF f(1)] s(1) by (simp add: normalized_field)
  then show "\<exists>doc. (i, doc) \<in> set found \<and> status_member (Some (df_status doc)) sts = Inr True"
    using f(2) s(2) by (auto simp: member_text dest: map_of_SomeD)
qed

text \<open>C12. The proof of idleness that lets the exclusive reset start. Whatever pages
  the sweep needs and whatever the other processes write between its reads, if it reports the set of
  resumable documents as drained, then no document was resumable, under one creation time, in every
  store it read.\<close>

theorem idle_proof_is_sound:
  assumes "0 < page_size" "\<forall>d \<in> set (map fst views @ map snd views). od_wf d"
    and "confirm_auto_drained json_backend page_size views = Inr (Some ([], CURSOR_END, []))"
  shows "\<nexists>i k. \<forall>d \<in> set (map fst views @ map snd views). in_sweep AUTO_RESUME_DOC_STATUSES d i k"
proof
  assume "\<exists>i k. \<forall>d \<in> set (map fst views @ map snd views). in_sweep AUTO_RESUME_DOC_STATUSES d i k"
  then obtain i k where "\<forall>d \<in> set (map fst views @ map snd views). in_sweep AUTO_RESUME_DOC_STATUSES d i k"
    by blast
  then have st: "jp.stays AUTO_RESUME_DOC_STATUSES (map fst views @ map snd views) i k"
    using assms(2) by (simp add: jp.stays_def)
  have "confirm_rounds json_backend page_size CURSOR_START [] views = Inr (Some ([], CURSOR_END, []))"
    using assms(1,3) by (simp add: confirm_auto_drained_def)
  from jp.confirm_finds [OF this st] show False using jp.ahead_start by blast
qed

text \<open>C13. The discovery of interrupted custom-chunk operations. Each
  document that stays in the swept set with its journal until the sweep is over is handed to the
  roll-back in exactly one batch, however the roll-backs and other writers change the store between
  pages; on a store of usable rows that nobody changes, the sweep ends within one page more than there
  are rows.\<close>

theorem every_journal_is_rolled_back_once:
  assumes "\<forall>d \<in> set views. od_wf d \<and> in_sweep [FAILED, PROCESSING] d i k \<and> row_journaled d i"
    and "rollback_rounds json_backend n CURSOR_START views = Inr (Some batches)"
    and "usable d" "od_wf d" "0 < n" "length d < rounds"
  shows "length (filter (\<lambda>batch. i \<in> set batch) batches) = 1
    \<and> (\<exists>batches'. rollback_rounds json_backend n CURSOR_START (replicate rounds d) = Inr (Some batches'))"
proof -
  have once: "length (filter (\<lambda>batch. i \<in> set batch) batches) = 1"
    using jp.rollback_exactly_once [OF assms(2,1)] jp.ahead_start by blast
  have pages: "\<exists>docs next_position. be_page json_backend d [FAILED, PROCESSING] n position = Inr (docs, next_position)
      \<and> cursor_ok next_position" if "cursor_ok position" for position
    using usable_page [OF assms(3,4,5) that] by (simp add: json_backend_def)
  have "{i. \<exists>k. in_sweep [FAILED, PROCESSING] d i k \<and> ahead_of CURSOR_START k} \<subseteq> set (od_keys d)"
    by (force simp: in_sweep_def dest: map_of_SomeD)
  moreover have "card (set (od_keys d)) < rounds"
    using assms(6) card_length [of "od_keys d"] by simp
  ultimately have "\<exists>batches'. rollback_rounds json_backend n CURSOR_START (replicate rounds d) = Inr (Some batches')"
    by (intro jp.rollback_ends [OF assms(4), where P=cursor_ok and F="set (od_keys d)", OF pages])
      (simp_all add: cursor_ok_def)
  then show ?thesis using once by blast
qed

section \<open>Two small stores\<close>

definition doc_row :: "pystr \<Rightarrow> doc_status \<Rightarrow> jval \<Rightarrow> jval" where
  "doc_row created st metadata =
     JObj [(''status'', JStr (status_value st)), (''created_at'', JStr created), (''metadata'', metadata)]"

definition journal :: jval where
  "journal = JObj [(''custom_chunk_patch'', JObj [])]"

definition interrupted_store :: kv_data where
  "interrupted_store = [([98], doc_row [50] PROCESSING (JObj [])), ([97], doc_row [49] FAILED journal)]"

definition finished_store :: kv_data where
  "finished_store = [([97], doc_row [49] PROCESSED (JObj [])), ([98], doc_row [50] FAILED (JObj []))]"

lemmas sweep_defs = json_backend_def get_docs_by_statuses_page_def status_member_def
  row_sort_key_def scheduling_record_from_row_def raw_scheduling_record_def doc_status_of_def
  all_statuses_def status_value_def is_text_def or_text_def or_null_def has_journal_def
  encode_cursor_def decode_cursor_def doc_row_def journal_def Let_def

lemma idle_proof_is_sound_witness:
  "\<not> (\<exists>i k. in_sweep AUTO_RESUME_DOC_STATUSES finished_store i k)"
proof -
  have "confirm_auto_drained json_backend 2 [(finished_store, finished_store)] = Inr (Some ([], CURSOR_END, []))"
    by (simp add: confirm_auto_drained_def fetch_scheduling_page_def AUTO_RESUME_DOC_STATUSES_def
        finished_store_def sweep_defs)
  from idle_proof_is_sound [OF _ _ this] show ?thesis by (simp add: finished_store_def od_wf_def)
qed

lemma every_journal_is_rolled_back_once_witness:
  "\<exists>batches. rollback_rounds json_backend 1 CURSOR_START [interrupted_store, interrupted_store, finished_store]
       = Inr (Some batches) \<and> batches = [[[97]], [], []]
     \<and> (\<exists>batches'. rollback_rounds json_backend 1 CURSOR_START (replicate 3 interrupted_store) = Inr (Some batches'))"
proof -
  have run: "rollback_rounds json_backend 1 CURSOR_START [interrupted_store, interrupted_store, interrupted_store]
      = Inr (Some [[[97]], [], []])"
    by (simp add: interrupted_store_def sweep_defs)
  have run': "rollback_rounds json_backend 1 CURSOR_START [interrupted_store, interrupted_store, finished_store]
      = Inr (Some [[[97]], [], []])"
    by (simp add: interrupted_store_def finished_store_def sweep_defs)
  have wf: "od_wf interrupted_store" by (simp add: interrupted_store_def od_wf_def)
  have us: "usable interrupted_store" by (simp add: usable_def interrupted_store_def sweep_defs)
  have i: "in_sweep [FAILED, PROCESSING] interrupted_store [97] ([49], [97])"
    "row_journaled interrupted_store [97]"
    by (simp_all add: in_sweep_def row_journaled_def interrupted_store_def sweep_defs)
  have "\<forall>d \<in> set [interrupted_store, interrupted_store, interrupted_store].
      od_wf d \<and> in_sweep [FAILED, PROCESSING] d [97] ([49], [97]) \<and> row_journaled d [97]" using wf i by simp
  from every_journal_is_rolled_back_once [OF this run us wf, where rounds=3] run'
  show ?thesis by (simp add: interrupted_store_def)
qed

end
