(* ===== verification/DocReset.thy ===== *)
theory DocReset
  imports DocSweep
begin

text \<open>
  Returning documents to \<open>PENDING\<close>, src/ontorag/pipeline.py and src/ontorag/utils_pipeline.py: the
  update a reset writes, the consistency check of a batch before it is processed, and the exclusive
  reset of failed documents of the manual retry, page by page.
\<close>

section \<open>The update of a reset\<close>

text \<open>An exact rational stands for a Python \<open>int\<close> when it is integral; a \<open>bool\<close> is an \<open>int\<close>.\<close>

definition count_value :: "jval \<Rightarrow> jval option" where
  "count_value v =
     (case v of
        JNum r \<Rightarrow> if r = of_int \<lfloor>r\<rfloor> \<and> 0 \<le> r then Some v else None
      | JBool b \<Rightarrow> Some v
      | _ \<Rightarrow> None)"

definition chunk_fields_from_status_doc :: "doc_full \<Rightarrow> jval list \<times> jval" where
  "chunk_fields_from_status_doc doc =
     (let chunks = (case df_chunks_list doc of
                      JArr vs \<Rightarrow> filter (\<lambda>v. case v of JStr s \<Rightarrow> s \<noteq> [] | _ \<Rightarrow> False) vs | _ \<Rightarrow> [])
      in (chunks, case count_value (df_chunks_count doc) of
                    Some v \<Rightarrow> v | None \<Rightarrow> JNum (of_nat (length chunks))))"

definition PLACEHOLDER_DOCUMENT_SOURCES :: "pystr set" where
  "PLACEHOLDER_DOCUMENT_SOURCES = {[], lit ''no-file-path'', lit ''unknown_source''}"

definition source_candidate :: "jval option \<Rightarrow> pystr option" where
  "source_candidate v =
     (case v of
        Some (JStr s) \<Rightarrow> (let c = py_strip s in if c \<notin> PLACEHOLDER_DOCUMENT_SOURCES then Some c else None)
      | _ \<Rightarrow> None)"

definition resolve_doc_file_path :: "doc_full \<Rightarrow> jval option \<Rightarrow> pystr" where
  "resolve_doc_file_path doc content =
     (case source_candidate (Some (df_file_path doc)) of
        Some c \<Rightarrow> c
      | None \<Rightarrow>
          (case source_candidate (case content of None \<Rightarrow> None
               | Some c \<Rightarrow> if jtruthy c then jget c ''file_path'' else None) of
             Some c \<Rightarrow> c
           | None \<Rightarrow> lit ''unknown_source''))"

definition read_source_file_basename :: "kv_row \<Rightarrow> jval option" where
  "read_source_file_basename d =
     (case map_of d ''source_file'' of
        Some v \<Rightarrow> if jtruthy v then Some v else map_of d ''source_file_name''
      | None \<Rightarrow> map_of d ''source_file_name'')"

definition DIRECTIVE_KEYS :: "string list" where
  "DIRECTIVE_KEYS =
     [''process_options'', ''source_file'', ''custom_chunk_patch'', ''kg_write_state'', ''kg_purge'',
      ''is_duplicate'', ''duplicate_kind'', ''original_doc_id'']"

definition directive_value :: "kv_row \<Rightarrow> string \<Rightarrow> jval option" where
  "directive_value raw key =
     (case (if key = ''source_file'' then read_source_file_basename raw else map_of raw key) of
        None \<Rightarrow> None
      | Some v \<Rightarrow> if v = JNull \<or> v = JStr [] then None else Some v)"

definition doc_status_reset_metadata :: "doc_full \<Rightarrow> kv_row" where
  "doc_status_reset_metadata doc =
     (case df_metadata doc of
        JObj raw \<Rightarrow>
          List.map_filter (\<lambda>key. map_option (Pair key) (directive_value raw key)) DIRECTIVE_KEYS
      | _ \<Rightarrow> [])"



definition build_pending_reset_update :: "doc_full \<Rightarrow> jval option \<Rightarrow> pystr \<Rightarrow> kv_row" where
  "build_pending_reset_update doc content now =
     (case chunk_fields_from_status_doc doc of (chunks, n) \<Rightarrow>
        [(''status'', JStr (status_value PENDING)),
         (''content_summary'', df_content_summary doc),
         (''content_length'', df_content_length doc),
         (''chunks_count'', n),
         (''chunks_list'', JArr chunks),
         (''created_at'', df_created_at doc),
         (''updated_at'', JStr now),
         (''file_path'', JStr (resolve_doc_file_path doc content)),
         (''track_id'', df_track_id doc),
         (''content_hash'', df_content_hash doc),
         (''error_msg'', JStr []),
         (''metadata'', JObj (doc_status_reset_metadata doc))])"

section \<open>The consistency check of a batch\<close>


definition present :: "jval option \<Rightarrow> bool" where
  "present c = (case c of None \<Rightarrow> False | Some v \<Rightarrow> jtruthy v)"










definition upsert_rows :: "(pystr \<times> kv_row) list \<Rightarrow> kv_data \<Rightarrow> kv_data" where
  "upsert_rows rows d = kv_update d (map (\<lambda>(i, r). (i, JObj (od_default ''chunks_list'' (JArr []) r))) rows)"


section \<open>The exclusive reset\<close>

definition next_failed_page ::
    "'s doc_backend \<Rightarrow> int \<Rightarrow> cursor \<Rightarrow> 's \<Rightarrow> ((pystr, doc_full) odict \<times> cursor) ds_res" where
  "next_failed_page B page_size position s =
     (if page_size \<le> 0 then ds_bind (be_scan B s [FAILED]) (\<lambda>docs. Inr (docs, CURSOR_END))
      else ds_bind (be_page B s [FAILED] page_size position) (\<lambda>(docs, next_position).
             if docs = [] then Inr ([], next_position)
             else ds_bind (be_hydrate B s (map fst docs)) (\<lambda>full.
                    ds_bind (keep_statuses [FAILED] full) (\<lambda>failed. Inr (failed, next_position)))))"

text \<open>What one round meets: whether the run still owns the freeze before the page and before its write,
  whether the write is saved, and the clock.\<close>

record reset_view =
  rv_owner :: bool
  rv_still_owner :: bool
  rv_saved :: bool
  rv_now :: pystr

fun docs_to_reset ::
    "(pystr \<Rightarrow> jval option ds_res) \<Rightarrow> pystr \<Rightarrow> (pystr, doc_full) odict \<Rightarrow> (pystr \<times> kv_row) list ds_res" where
  "docs_to_reset content now [] = Inr []"
| "docs_to_reset content now ((i, doc) # docs) =
     (if custom_chunk_patch doc then docs_to_reset content now docs
      else ds_bind (content i) (\<lambda>c.
             if \<not> present c then docs_to_reset content now docs
             else ds_bind (docs_to_reset content now docs) (\<lambda>rest.
                    Inr ((i, build_pending_reset_update doc c now) # rest))))"

text \<open>A lost ownership raises a \<open>RuntimeError\<close>; the upsert changes the shared rows before it saves.\<close>

definition reset_failed_page ::
    "(pystr \<Rightarrow> jval option ds_res) \<Rightarrow> reset_view \<Rightarrow> (pystr, doc_full) odict \<Rightarrow> kv_data
      \<Rightarrow> kv_data \<times> nat ds_res" where
  "reset_failed_page content v docs d =
     (case docs_to_reset content (rv_now v) docs of
        Inl e \<Rightarrow> (d, Inl e)
      | Inr rows \<Rightarrow>
          (if rows = [] then (d, Inr 0)
           else if \<not> rv_still_owner v then (d, Inl DS_RuntimeError)
           else (upsert_rows rows d, if rv_saved v then Inr (length rows) else Inl DS_OSError)))"

text \<open>\<open>True\<close> when the sweep reached its end, \<open>False\<close> when the ownership was lost before a page.\<close>

fun reset_rounds ::
    "(pystr \<Rightarrow> jval option ds_res) \<Rightarrow> int \<Rightarrow> cursor \<Rightarrow> nat \<Rightarrow> kv_data \<Rightarrow> reset_view list
      \<Rightarrow> kv_data \<times> (bool \<times> nat) option ds_res" where
  "reset_rounds content n position total_reset d [] = (d, Inr None)"
| "reset_rounds content n position total_reset d (v # views) =
     (if \<not> rv_owner v then (d, Inr (Some (False, total_reset)))
      else (case next_failed_page json_backend n position d of
              Inl e \<Rightarrow> (d, Inl e)
            | Inr (docs, next_position) \<Rightarrow>
                (case (if docs = [] then (d, Inr 0) else reset_failed_page content v docs d) of
                   (d1, Inl e) \<Rightarrow> (d1, Inl e)
                 | (d1, Inr c) \<Rightarrow>
                     (if next_position = CURSOR_END then (d1, Inr (Some (True, total_reset + c)))
                      else reset_rounds content n next_position (total_reset + c) d1 views))))"

section \<open>What the consistency check removes\<close>



lemma upsert_rows_lookup:
  assumes "distinct (map fst rows)"
  shows "map_of (upsert_rows rows d) i =
    (case map_of rows i of None \<Rightarrow> map_of d i | Some r \<Rightarrow> Some (JObj (od_default ''chunks_list'' (JArr []) r)))"
proof -
  have k: "map fst (map (\<lambda>(i, r). (i, JObj (od_default ''chunks_list'' (JArr []) r))) rows) = map fst rows"
    by (simp add: case_prod_beta comp_def)
  have m: "map_of (map (\<lambda>(i, r). (i, JObj (od_default ''chunks_list'' (JArr []) r))) rows) i
      = map_option (\<lambda>r. JObj (od_default ''chunks_list'' (JArr []) r)) (map_of rows i)"
    by (induction rows) auto
  have "od_wf (map (\<lambda>(i, r). (i, JObj (od_default ''chunks_list'' (JArr []) r))) rows)"
    unfolding od_wf_def k by (rule assms)
  then show ?thesis unfolding upsert_rows_def
    by (subst kv_update_lookup) (simp_all add: m split: option.split)
qed



section \<open>What the exclusive reset does\<close>

text \<open>A failed row the reset returns to \<open>PENDING\<close>: no journal, content present.\<close>

definition resettable :: "(pystr \<Rightarrow> jval option) \<Rightarrow> kv_data \<Rightarrow> pystr \<Rightarrow> bool" where
  "resettable content d i \<longleftrightarrow>
     (\<exists>r. map_of d i = Some (JObj r) \<and> map_of r ''status'' = Some (JStr (status_value FAILED))
        \<and> \<not> has_journal (map_of r ''metadata'') \<and> present (content i))"

definition full_row :: "kv_data \<Rightarrow> pystr \<Rightarrow> doc_full" where
  "full_row d i =
     (case map_of d i of
        Some v \<Rightarrow> (case doc_processing_status_from_row v of Inr f \<Rightarrow> f | Inl _ \<Rightarrow> undefined)
      | None \<Rightarrow> undefined)"

definition reset_row :: "(pystr \<Rightarrow> jval option) \<Rightarrow> kv_data \<Rightarrow> pystr \<Rightarrow> pystr \<Rightarrow> kv_row" where
  "reset_row content d now i = build_pending_reset_update (full_row d i) (content i) now"

text \<open>Every row of the store can be hydrated and projected.\<close>

definition sound_rows :: "kv_data \<Rightarrow> bool" where
  "sound_rows d \<longleftrightarrow> od_wf d \<and> usable d \<and> (\<forall>(i, v) \<in> set d. \<exists>r. v = JObj r \<and> row_is_hydratable r)"

lemma sound_row:
  assumes "sound_rows d" "map_of d i = Some v"
  shows "\<exists>r rec f. v = JObj r \<and> raw_scheduling_record i r = Inr rec
    \<and> from_stored (normalize_status_row r) = Inr f \<and> full_row d i = f"
proof -
  have m: "(i, v) \<in> set d" using assms(2) by (rule map_of_SomeD)
  obtain r where r: "v = JObj r" "row_is_hydratable r" using assms(1) m by (auto simp: sound_rows_def)
  obtain rec where rec: "raw_scheduling_record i r = Inr rec"
    using assms(1) m r(1) by (auto simp: sound_rows_def usable_def)
  obtain f where f: "from_stored (normalize_status_row r) = Inr f"
    using r(2) by (auto simp: row_is_hydratable_def split: sum.splits)
  show ?thesis using r(1) rec f assms(2) by (simp add: full_row_def doc_processing_status_from_row_def)
qed

lemma hydrate_sound:
  "sound_rows d \<Longrightarrow> \<forall>i \<in> set ids. map_of d i \<noteq> None \<Longrightarrow> distinct ids
    \<Longrightarrow> get_full_docs_by_ids ids True d = Inr (map (\<lambda>i. (i, full_row d i)) ids)"
proof (induction ids)
  case (Cons i ids)
  then obtain v where v: "map_of d i = Some v" by auto
  obtain r f where r: "v = JObj r" "from_stored (normalize_status_row r) = Inr f" "full_row d i = f"
    using sound_row [OF Cons.prems(1) v] by blast
  have "od_del i (map (\<lambda>j. (j, full_row d j)) ids) = map (\<lambda>j. (j, full_row d j)) ids"
    using Cons.prems(3) by (intro od_del_absent) (auto simp: map_of_eq_None_iff)
  then show ?case using Cons r v by (simp add: doc_processing_status_from_row_def)
qed simp

lemma failed_full_row:
  assumes "sound_rows d" "map_of d i = Some (JObj r)" "map_of r ''status'' = Some (JStr (status_value FAILED))"
  shows "df_status (full_row d i) = JStr (status_value FAILED)"
    "custom_chunk_patch (full_row d i) = has_journal (map_of r ''metadata'')"
    "df_created_at (full_row d i) = or_null (map_of r ''created_at'')"
proof -
  obtain f where f: "from_stored (normalize_status_row r) = Inr f" "full_row d i = f"
    using sound_row [OF assms(1,2)] by blast
  show "df_status (full_row d i) = JStr (status_value FAILED)"
    using from_stored_status [OF f(1)] assms(3) f(2) by (simp add: normalized_field)
  have m: "map_of (normalize_status_row r) ''metadata''
      = (case map_of r ''metadata'' of None \<Rightarrow> Some (JObj []) | Some m \<Rightarrow> Some m)"
    by (simp add: normalized_lookup split: option.split)
  have "df_metadata f = (case map_of r ''metadata'' of None \<Rightarrow> JObj [] | Some m \<Rightarrow> m)"
    using f(1) by (auto simp: from_stored_def Let_def m split: if_splits option.splits)
  then show "custom_chunk_patch (full_row d i) = has_journal (map_of r ''metadata'')"
    using f(2) by (simp add: custom_chunk_patch_def has_journal_def split: option.split)
  show "df_created_at (full_row d i) = or_null (map_of r ''created_at'')"
    unfolding f(2) using f(1) by (auto simp: from_stored_def Let_def normalized_field split: if_splits)
qed

lemma docs_to_reset_total:
  "docs_to_reset (\<lambda>i. Inr (content i)) now docs =
     Inr (map (\<lambda>(i, doc). (i, build_pending_reset_update doc (content i) now))
           (filter (\<lambda>(i, doc). \<not> custom_chunk_patch doc \<and> present (content i)) docs))"
proof (induction docs)
  case (Cons x docs)
  obtain i doc where x: "x = (i, doc)" by (cases x)
  show ?case using Cons.IH by (cases "custom_chunk_patch doc"; cases "present (content i)") (simp_all add: x)
qed simp

lemma keep_all:
  "\<forall>(i, doc) \<in> set docs. df_status doc = JStr (status_value FAILED) \<Longrightarrow> keep_statuses [FAILED] docs = Inr docs"
  by (induction docs) (auto simp: status_member_def)

lemma in_sweep_failed:
  "in_sweep [FAILED] d i k \<longleftrightarrow> (\<exists>r. map_of d i = Some (JObj r)
     \<and> map_of r ''status'' = Some (JStr (status_value FAILED)) \<and> row_sort_key i r = k)"
  by (auto simp: in_sweep_def member_text)

lemma resettable_iff:
  assumes "sound_rows d" "in_sweep [FAILED] d i k"
  shows "resettable content d i \<longleftrightarrow> \<not> custom_chunk_patch (full_row d i) \<and> present (content i)"
proof -
  obtain r where r: "map_of d i = Some (JObj r)" "map_of r ''status'' = Some (JStr (status_value FAILED))"
    using assms(2) by (auto simp: in_sweep_failed)
  show ?thesis using failed_full_row(2) [OF assms(1) r] r by (simp add: resettable_def)
qed

lemma build_lookup:
  "map_of (build_pending_reset_update doc c now) ''status'' = Some (JStr (status_value PENDING))"
  "map_of (build_pending_reset_update doc c now) ''created_at'' = Some (df_created_at doc)"
  "map_of (build_pending_reset_update doc c now) ''updated_at'' = Some (JStr now)"
  "map_of (build_pending_reset_update doc c now) ''content_summary'' \<noteq> None"
  "map_of (build_pending_reset_update doc c now) ''content_length'' \<noteq> None"
  "map_of (build_pending_reset_update doc c now) ''file_path'' \<noteq> None"
  "map_of (build_pending_reset_update doc c now) ''chunks_list'' \<noteq> None"
  by (cases "chunk_fields_from_status_doc doc"; simp add: build_pending_reset_update_def)+

lemma status_of_value [simp]: "doc_status_of (JStr (status_value st)) = Inr st"
  by (cases st) (simp_all add: doc_status_of_def all_statuses_def)

text \<open>The row a reset writes can be read back like any other.\<close>

lemma reset_row_sound:
  assumes "sound_rows d" "resettable content d i"
  shows "\<exists>rec. raw_scheduling_record i (reset_row content d now i) = Inr rec"
    "row_is_hydratable (reset_row content d now i)"
    "od_default ''chunks_list'' x (reset_row content d now i) = reset_row content d now i"
proof -
  obtain r where r: "map_of d i = Some (JObj r)" "map_of r ''status'' = Some (JStr (status_value FAILED))"
    using assms(2) by (auto simp: resettable_def)
  obtain rec where "raw_scheduling_record i r = Inr rec" using sound_row [OF assms(1) r(1)] by blast
  then have "is_text (or_null (map_of r ''created_at''))"
    by (auto simp: raw_scheduling_record_def Let_def or_null_def split: option.splits sum.splits if_splits)
  then have t: "is_text (df_created_at (full_row d i))" using failed_full_row(3) [OF assms(1) r] by simp
  show "\<exists>rec. raw_scheduling_record i (reset_row content d now i) = Inr rec"
    using t by (simp add: reset_row_def raw_scheduling_record_def build_lookup Let_def is_text_def)
  show "od_default ''chunks_list'' x (reset_row content d now i) = reset_row content d now i"
    by (simp add: od_default_def reset_row_def build_lookup(7))
  show "row_is_hydratable (reset_row content d now i)"
    by (simp add: row_is_hydratable_iff reset_row_def build_lookup del: not_None_eq)
qed

definition to_come :: "(pystr \<Rightarrow> jval option) \<Rightarrow> kv_data \<Rightarrow> cursor \<Rightarrow> pystr set" where
  "to_come content d position =
     {i. resettable content d i \<and> (\<exists>k. in_sweep [FAILED] d i k \<and> ahead_of position k)}"

text \<open>One page of the reset.\<close>

lemma reset_page:
  assumes "sound_rows d" "cursor_ok position" "0 < n" "rv_owner v" "rv_still_owner v" "rv_saved v"
  shows "\<exists>docs next_position d1 R.
      next_failed_page json_backend n position d = Inr (docs, next_position) \<and> cursor_ok next_position
    \<and> (if docs = [] then (d, Inr 0) else reset_failed_page (\<lambda>i. Inr (content i)) v docs d) = (d1, Inr (card R))
    \<and> finite R \<and> sound_rows d1
    \<and> (\<forall>i. map_of d1 i = (if i \<in> R then Some (JObj (reset_row content d (rv_now v) i)) else map_of d i))
    \<and> R = {i. resettable content d i \<and> (\<exists>k. in_sweep [FAILED] d i k \<and> ahead_of position k \<and> \<not> ahead_of next_position k)}
    \<and> (\<forall>k. ahead_of next_position k \<longrightarrow> ahead_of position k)
    \<and> (next_position \<noteq> CURSOR_END \<longrightarrow>
        (\<exists>i k. in_sweep [FAILED] d i k \<and> ahead_of position k \<and> \<not> ahead_of next_position k))"
proof -
  have wf: "od_wf d" "usable d" using assms(1) by (simp_all add: sound_rows_def)
  obtain recs next_position where pg: "get_docs_by_statuses_page [FAILED] n position True d = Inr (recs, next_position)"
    and ok: "cursor_ok next_position" using usable_page [OF wf(2,1) assms(3,2)] by blast
  note sp = strict_page [OF pg wf(1)]
  define ids where "ids = od_keys recs"
  have dist: "distinct ids" and mem: "i \<in> set ids \<longleftrightarrow>
      (\<exists>k. in_sweep [FAILED] d i k \<and> ahead_of position k \<and> \<not> ahead_of next_position k)" for i
    using sp by (simp_all add: ids_def)
  have inb: "\<exists>k. in_sweep [FAILED] d i k" if "i \<in> set ids" for i using mem that by blast
  define docs where "docs = map (\<lambda>i. (i, full_row d i)) ids"
  have "\<forall>i \<in> set ids. map_of d i \<noteq> None" using inb by (auto simp: in_sweep_failed)
  then have hyd: "get_full_docs_by_ids ids True d = Inr docs"
    using hydrate_sound [OF assms(1) _ dist] by (simp add: docs_def)
  have "df_status (full_row d i) = JStr (status_value FAILED)" if h: "i \<in> set ids" for i
  proof -
    obtain k where "in_sweep [FAILED] d i k" using inb h by blast
    then show ?thesis using failed_full_row(1) [OF assms(1)] by (auto simp: in_sweep_failed)
  qed
  then have "keep_statuses [FAILED] docs = Inr docs" by (intro keep_all) (auto simp: docs_def)
  then have nf: "next_failed_page json_backend n position d = Inr (docs, next_position)"
    using pg hyd assms(3) by (auto simp: next_failed_page_def json_backend_def ids_def docs_def)
  define R where "R = {i \<in> set ids. resettable content d i}"
  define rows where "rows = map (\<lambda>i. (i, reset_row content d (rv_now v) i)) (filter (resettable content d) ids)"
  have sel: "resettable content d i \<longleftrightarrow> \<not> custom_chunk_patch (full_row d i) \<and> present (content i)"
    if h: "i \<in> set ids" for i
  proof -
    obtain k where "in_sweep [FAILED] d i k" using inb h by blast
    then show ?thesis by (rule resettable_iff [OF assms(1)])
  qed
  have "filter (\<lambda>(i, doc). \<not> custom_chunk_patch doc \<and> present (content i)) docs
      = map (\<lambda>i. (i, full_row d i)) (filter (resettable content d) ids)"
    unfolding docs_def filter_map comp_def prod.case by (rule arg_cong [where f="map _"], rule filter_cong [OF refl]) (simp add: sel)
  then have dr: "docs_to_reset (\<lambda>i. Inr (content i)) (rv_now v) docs = Inr rows"
    by (simp add: docs_to_reset_total rows_def reset_row_def comp_def)
  have lenrows: "length rows = card R"
    using dist by (simp add: rows_def R_def flip: distinct_card)
  have keys: "map fst rows = filter (resettable content d) ids" by (simp add: rows_def comp_def)
  have dk: "distinct (map fst rows)" using dist by (simp add: keys)
  have look: "map_of rows i = (if i \<in> R then Some (reset_row content d (rv_now v) i) else None)" for i
  proof (cases "i \<in> R")
    case True
    then have "(i, reset_row content d (rv_now v) i) \<in> set rows" by (auto simp: rows_def R_def)
    then show ?thesis using dk True by simp
  next
    case False
    then have "i \<notin> set (map fst rows)" by (simp add: keys R_def)
    then show ?thesis using False by (simp add: map_of_eq_None_iff)
  qed
  define d1 where "d1 = upsert_rows rows d"
  have d1: "map_of d1 i = (if i \<in> R then Some (JObj (reset_row content d (rv_now v) i)) else map_of d i)" for i
    using reset_row_sound(3) [OF assms(1)] by (auto simp: d1_def upsert_rows_lookup [OF dk] look R_def)
  have step: "(if docs = [] then (d, Inr 0) else reset_failed_page (\<lambda>i. Inr (content i)) v docs d) = (d1, Inr (card R))"
  proof (cases "rows = []")
    case True
    then have "d1 = d" "card R = 0" using lenrows by (simp_all add: d1_def upsert_rows_def kv_update_def)
    then show ?thesis using True dr by (simp add: reset_failed_page_def)
  next
    case False
    then have "docs \<noteq> []" by (auto simp: rows_def docs_def)
    then show ?thesis using False dr lenrows assms(5,6) by (simp add: reset_failed_page_def d1_def)
  qed
  have "od_wf d1" using wf(1) by (simp add: d1_def upsert_rows_def kv_update_wf)
  moreover have "\<exists>r rec. u = JObj r \<and> raw_scheduling_record i r = Inr rec \<and> row_is_hydratable r"
    if h: "(i, u) \<in> set d1" for i u
  proof -
    have m: "map_of d1 i = Some u" using h \<open>od_wf d1\<close> by (simp add: od_wf_def)
    show ?thesis
    proof (cases "i \<in> R")
      case True
      then show ?thesis using m d1 reset_row_sound [OF assms(1)] by (force simp: R_def)
    next
      case False
      then have "map_of d i = Some u" using m d1 by simp
      then show ?thesis using sound_row [OF assms(1)] by (fastforce simp: row_is_hydratable_def)
    qed
  qed
  ultimately have sound1: "sound_rows d1" by (fastforce simp: sound_rows_def usable_def)
  have prog: "\<exists>i k. in_sweep [FAILED] d i k \<and> ahead_of position k \<and> \<not> ahead_of next_position k"
    if "next_position \<noteq> CURSOR_END"
  proof -
    have "recs \<noteq> []" using sp that by blast
    then obtain i where "i \<in> set ids" by (cases recs) (auto simp: ids_def)
    then show ?thesis using mem by blast
  qed
  have Rset: "R = {i. resettable content d i \<and>
      (\<exists>k. in_sweep [FAILED] d i k \<and> ahead_of position k \<and> \<not> ahead_of next_position k)}"
    using mem by (auto simp: R_def)
  have adv: "\<forall>k. ahead_of next_position k \<longrightarrow> ahead_of position k" using sp by blast
  have "finite R" by (simp add: R_def)
  then show ?thesis using nf ok step sound1 d1 Rset adv prog by blast
qed

lemma full_row_cong: "map_of d1 i = map_of d i \<Longrightarrow> full_row d1 i = full_row d i"
  by (simp add: full_row_def)

lemma resettable_cong: "map_of d1 i = map_of d i \<Longrightarrow> resettable content d1 i = resettable content d i"
  by (simp add: resettable_def)

lemma in_sweep_cong: "map_of d1 i = map_of d i \<Longrightarrow> in_sweep sts d1 i k = in_sweep sts d i k"
  by (simp add: in_sweep_def)

lemma reset_leaves_sweep:
  assumes "map_of d1 i = Some (JObj (reset_row content d now i))"
  shows "\<not> in_sweep [FAILED] d1 i k"
  using assms by (simp add: in_sweep_failed reset_row_def build_lookup)

text \<open>The rounds that are still to come, from any position.\<close>

lemma reset_rounds_exact:
  assumes "sound_rows d" "cursor_ok position" "0 < n"
    and "\<forall>v \<in> set views. rv_owner v \<and> rv_still_owner v \<and> rv_saved v"
    and "finite F" "{i. \<exists>k. in_sweep [FAILED] d i k \<and> ahead_of position k} \<subseteq> F" "card F < length views"
  shows "\<exists>d'. reset_rounds (\<lambda>i. Inr (content i)) n position total_reset d views
        = (d', Inr (Some (True, total_reset + card (to_come content d position))))
    \<and> (\<forall>i. if i \<in> to_come content d position
           then \<exists>v \<in> set views. map_of d' i = Some (JObj (reset_row content d (rv_now v) i))
           else map_of d' i = map_of d i)"
  using assms
proof (induction views arbitrary: d position total_reset F)
  case (Cons v views)
  have v: "rv_owner v" "rv_still_owner v" "rv_saved v" using Cons.prems(4) by auto
  obtain docs next_position d1 R where
    nf: "next_failed_page json_backend n position d = Inr (docs, next_position)" "cursor_ok next_position"
    and st: "(if docs = [] then (d, Inr 0) else reset_failed_page (\<lambda>i. Inr (content i)) v docs d) = (d1, Inr (card R))"
    and fin: "finite R" and sound1: "sound_rows d1"
    and d1: "\<forall>i. map_of d1 i = (if i \<in> R then Some (JObj (reset_row content d (rv_now v) i)) else map_of d i)"
    and R: "R = {i. resettable content d i \<and>
        (\<exists>k. in_sweep [FAILED] d i k \<and> ahead_of position k \<and> \<not> ahead_of next_position k)}"
    and adv: "\<forall>k. ahead_of next_position k \<longrightarrow> ahead_of position k"
    and prog: "next_position \<noteq> CURSOR_END \<longrightarrow>
        (\<exists>i k. in_sweep [FAILED] d i k \<and> ahead_of position k \<and> \<not> ahead_of next_position k)"
    using reset_page [OF Cons.prems(1-3) v, of content] by blast
  have same: "i \<notin> R \<Longrightarrow> map_of d1 i = map_of d i" for i using d1 by simp
  have gone: "i \<in> R \<Longrightarrow> \<not> in_sweep [FAILED] d1 i k" for i k
    using d1 reset_leaves_sweep by simp
  have sub: "in_sweep [FAILED] d1 i k \<Longrightarrow> i \<notin> R \<and> in_sweep [FAILED] d i k" for i k
    using gone in_sweep_cong [OF same] by blast
  have split: "to_come content d position = R \<union> to_come content d1 next_position"
    (is "?T = R \<union> ?T1")
  proof
    show "?T \<subseteq> R \<union> ?T1"
    proof
      fix i assume "i \<in> ?T"
      then obtain k where k: "resettable content d i" "in_sweep [FAILED] d i k" "ahead_of position k"
        by (auto simp: to_come_def)
      show "i \<in> R \<union> ?T1"
      proof (cases "i \<in> R")
        case False
        then have "ahead_of next_position k" using R k by blast
        moreover have "resettable content d1 i" using k(1) resettable_cong [OF same [OF False]] by simp
        moreover have "in_sweep [FAILED] d1 i k" using k(2) in_sweep_cong [OF same [OF False]] by simp
        ultimately have "i \<in> ?T1" unfolding to_come_def by blast
        then show ?thesis by blast
      qed simp
    qed
    show "R \<union> ?T1 \<subseteq> ?T"
    proof
      fix i assume "i \<in> R \<union> ?T1"
      then show "i \<in> ?T"
      proof
        assume "i \<in> R" then show ?thesis using R by (auto simp: to_come_def)
      next
        assume "i \<in> ?T1"
        then obtain k where k: "resettable content d1 i" "in_sweep [FAILED] d1 i k" "ahead_of next_position k"
          by (auto simp: to_come_def)
        have i: "i \<notin> R" "in_sweep [FAILED] d i k" using sub [OF k(2)] by simp_all
        have "resettable content d i" using k(1) resettable_cong [OF same [OF i(1)]] by simp
        moreover have "ahead_of position k" using k(3) adv by blast
        ultimately show ?thesis using i(2) unfolding to_come_def by blast
      qed
    qed
  qed
  have disj: "R \<inter> to_come content d1 next_position = {}" using gone by (auto simp: to_come_def)
  have run: "reset_rounds (\<lambda>i. Inr (content i)) n position total_reset d (v # views) =
      (if next_position = CURSOR_END then (d1, Inr (Some (True, total_reset + card R)))
       else reset_rounds (\<lambda>i. Inr (content i)) n next_position (total_reset + card R) d1 views)"
    using v(1) nf(1) st by simp
  show ?case
  proof (cases "next_position = CURSOR_END")
    case True
    then have "to_come content d1 next_position = {}" by (simp add: to_come_def ahead_of_def)
    then have "to_come content d position = R" using split by simp
    then show ?thesis using run True d1 by auto
  next
    case False
    obtain i k where ik: "in_sweep [FAILED] d i k" "ahead_of position k" "\<not> ahead_of next_position k"
      using prog False by blast
    have fewer: "{j. \<exists>k. in_sweep [FAILED] d1 j k \<and> ahead_of next_position k} \<subseteq> F - {i}"
    proof
      fix j assume "j \<in> {j. \<exists>k. in_sweep [FAILED] d1 j k \<and> ahead_of next_position k}"
      then obtain k' where k': "in_sweep [FAILED] d j k'" "ahead_of next_position k'" using sub by blast
      then have "j \<in> F" using Cons.prems(6) adv by blast
      moreover have "j \<noteq> i" using k' ik jp.one_key by metis
      ultimately show "j \<in> F - {i}" by simp
    qed
    have smaller: "card (F - {i}) < length views"
    proof -
      have "i \<in> F" using ik Cons.prems(6) by blast
      then have "card (F - {i}) < card F" using Cons.prems(5) by (rule card_Diff1_less [rotated])
      then show ?thesis using Cons.prems(7) by simp
    qed
    have vs: "\<forall>v \<in> set views. rv_owner v \<and> rv_still_owner v \<and> rv_saved v" using Cons.prems(4) by simp
    have finF: "finite (F - {i})" using Cons.prems(5) by simp
    obtain d' where
      run': "reset_rounds (\<lambda>i. Inr (content i)) n next_position (total_reset + card R) d1 views
        = (d', Inr (Some (True, total_reset + card R + card (to_come content d1 next_position))))"
      and d': "\<forall>i. if i \<in> to_come content d1 next_position
           then \<exists>v \<in> set views. map_of d' i = Some (JObj (reset_row content d1 (rv_now v) i))
           else map_of d' i = map_of d1 i"
      using Cons.IH [OF sound1 nf(2) Cons.prems(3) vs finF fewer smaller, of "total_reset + card R"] by blast
    have fin1: "finite (to_come content d1 next_position)"
      by (rule finite_subset [of _ "set (od_keys d1)"])
        (force simp: to_come_def in_sweep_def dest: map_of_SomeD, simp)
    have card: "card (to_come content d position) = card R + card (to_come content d1 next_position)"
      unfolding split by (rule card_Un_disjoint [OF fin fin1 disj])
    have final: "if j \<in> to_come content d position
           then \<exists>u \<in> set (v # views). map_of d' j = Some (JObj (reset_row content d (rv_now u) j))
           else map_of d' j = map_of d j" for j
    proof (cases "j \<in> R")
      case True
      then have "j \<notin> to_come content d1 next_position" using disj by blast
      then have "map_of d' j = map_of d1 j" using d' by auto
      then show ?thesis using True d1 split by auto
    next
      case False
      have row: "reset_row content d1 now j = reset_row content d now j" for now
        using full_row_cong [OF same [OF False]] by (simp add: reset_row_def)
      note dj = d' [rule_format, of j]
      show ?thesis
      proof (cases "j \<in> to_come content d1 next_position")
        case True
        then obtain u :: reset_view where "u \<in> set views" "map_of d' j = Some (JObj (reset_row content d1 (rv_now u) j))"
          using dj by auto
        then have "u \<in> set (v # views) \<and> map_of d' j = Some (JObj (reset_row content d (rv_now u) j))"
          using row by simp
        then show ?thesis using True split by auto
      next
        case nt: False
        then have "map_of d' j = map_of d j" using dj same [OF False] by simp
        then show ?thesis using nt False split by simp
      qed
    qed
    have "reset_rounds (\<lambda>i. Inr (content i)) n position total_reset d (v # views)
        = (d', Inr (Some (True, total_reset + card (to_come content d position))))"
      unfolding run card using False run' by (simp add: add.assoc)
    then show ?thesis using final by blast
  qed
qed simp

text \<open>C11. The exclusive reset of a manual retry. While the run keeps its
  ownership and the storage its rows, the sweep ends within one page more than there are rows, having
  returned to \<open>PENDING\<close> exactly the failed documents that have content and no journal, each with the
  creation time it had; every other row is untouched, and the number reported is theirs. The rewriting
  of the rows behind the cursor never makes the sweep skip or repeat one.\<close>

theorem failed_reset_is_exact:
  assumes "sound_rows d" "0 < n" "\<forall>v \<in> set views. rv_owner v \<and> rv_still_owner v \<and> rv_saved v"
    and "length d < length views"
  shows "\<exists>d'. reset_rounds (\<lambda>i. Inr (content i)) n CURSOR_START 0 d views
        = (d', Inr (Some (True, card {i. resettable content d i})))
    \<and> (\<forall>i. if resettable content d i
           then \<exists>r r'. map_of d i = Some (JObj r) \<and> map_of d' i = Some (JObj r')
                  \<and> map_of r' ''status'' = Some (JStr (status_value PENDING))
                  \<and> map_of r' ''created_at'' = map_of r ''created_at''
           else map_of d' i = map_of d i)"
proof -
  have all: "to_come content d CURSOR_START = {i. resettable content d i}"
    by (auto simp: to_come_def resettable_def in_sweep_failed ahead_of_def)
  have "{i. \<exists>k. in_sweep [FAILED] d i k \<and> ahead_of CURSOR_START k} \<subseteq> set (od_keys d)"
    by (force simp: in_sweep_def dest: map_of_SomeD)
  moreover have "card (set (od_keys d)) < length views"
    using assms(4) card_length [of "od_keys d"] by simp
  moreover have "cursor_ok CURSOR_START" by (simp add: cursor_ok_def)
  ultimately obtain d' where d': "reset_rounds (\<lambda>i. Inr (content i)) n CURSOR_START 0 d views
        = (d', Inr (Some (True, card {i. resettable content d i})))"
    "\<forall>i. if resettable content d i
         then \<exists>v \<in> set views. map_of d' i = Some (JObj (reset_row content d (rv_now v) i))
         else map_of d' i = map_of d i"
    using reset_rounds_exact [OF assms(1) _ assms(2,3), of CURSOR_START "set (od_keys d)" content 0]
    by (auto simp: all)
  have "\<exists>r r'. map_of d i = Some (JObj r) \<and> map_of d' i = Some (JObj r')
      \<and> map_of r' ''status'' = Some (JStr (status_value PENDING))
      \<and> map_of r' ''created_at'' = map_of r ''created_at''" if h: "resettable content d i" for i
  proof -
    obtain r where r: "map_of d i = Some (JObj r)" "map_of r ''status'' = Some (JStr (status_value FAILED))"
      using h by (auto simp: resettable_def)
    obtain rec where "raw_scheduling_record i r = Inr rec" using sound_row [OF assms(1) r(1)] by blast
    then obtain c where c: "map_of r ''created_at'' = Some c"
      by (auto simp: raw_scheduling_record_def split: option.splits sum.splits)
    obtain v :: reset_view where "map_of d' i = Some (JObj (reset_row content d (rv_now v) i))"
      using d'(2) [rule_format, of i] h by (simp only: if_True) blast
    then show ?thesis using r(1) c failed_full_row(3) [OF assms(1) r]
      by (simp add: reset_row_def build_lookup or_null_def)
  qed
  then show ?thesis using d' by auto
qed

section \<open>A reset of three documents\<close>

definition full_doc :: "pystr \<Rightarrow> doc_status \<Rightarrow> jval \<Rightarrow> jval" where
  "full_doc created st metadata =
     JObj [(''content_summary'', JStr []), (''content_length'', JNum 0), (''status'', JStr (status_value st)),
           (''created_at'', JStr created), (''updated_at'', JStr created), (''metadata'', metadata)]"

definition retry_store :: kv_data where
  "retry_store = [([97], full_doc [49] FAILED (JObj [])), ([98], full_doc [50] FAILED journal),
     ([99], full_doc [51] PROCESSED (JObj []))]"

definition stored_content :: "pystr \<Rightarrow> jval option" where
  "stored_content i = Some (JObj [(''content'', JStr [120])])"

definition calm :: reset_view where
  "calm = \<lparr>rv_owner = True, rv_still_owner = True, rv_saved = True, rv_now = [57]\<rparr>"

lemma failed_reset_is_exact_witness:
  "\<exists>d' r'. reset_rounds (\<lambda>i. Inr (stored_content i)) 1 CURSOR_START 0 retry_store (replicate 4 calm)
      = (d', Inr (Some (True, 1)))
    \<and> map_of d' [97] = Some (JObj r') \<and> map_of r' ''status'' = Some (JStr (status_value PENDING))
    \<and> map_of d' [98] = map_of retry_store [98]"
proof -
  have s: "sound_rows retry_store"
    by (simp add: sound_rows_def usable_def retry_store_def od_wf_def full_doc_def raw_scheduling_record_def
        is_text_def Let_def row_is_hydratable_iff)
  have r: "resettable stored_content retry_store i \<longleftrightarrow> i = [97]" for i
    by (auto simp: resettable_def retry_store_def full_doc_def journal_def has_journal_def present_def
        stored_content_def jtruthy_def)
  have all: "{i. resettable stored_content retry_store i} = {[97]}" using r by auto
  have c: "\<forall>v \<in> set (replicate 4 calm). rv_owner v \<and> rv_still_owner v \<and> rv_saved v" by (simp add: calm_def)
  have len: "length retry_store < length (replicate 4 calm)" by (simp add: retry_store_def)
  obtain d' where d': "reset_rounds (\<lambda>i. Inr (stored_content i)) 1 CURSOR_START 0 retry_store (replicate 4 calm)
      = (d', Inr (Some (True, 1)))"
    "\<forall>i. if resettable stored_content retry_store i
         then \<exists>r r'. map_of retry_store i = Some (JObj r) \<and> map_of d' i = Some (JObj r')
                \<and> map_of r' ''status'' = Some (JStr (status_value PENDING))
                \<and> map_of r' ''created_at'' = map_of r ''created_at''
         else map_of d' i = map_of retry_store i"
    using failed_reset_is_exact [OF s _ c len, of 1 stored_content] unfolding all by auto
  show ?thesis using d'(1) d'(2) [rule_format, of "[97]"] d'(2) [rule_format, of "[98]"] r by auto
qed



end
