(* ===== verification/RowVersions.thy ===== *)
theory RowVersions
  imports Prelude
begin

text \<open>
  The ordering token of src/ontorag/kg/write_seq.py and the rows of the file-backed vector stores
  that carry it. A row keeps its two bookkeeping keys as options (a row written before a key existed
  lacks it), its payload as an ordered dictionary (values are compared, never computed with, so they
  are HOL strings) and the base64 text of its compressed vector once it has been materialized.
\<close>

record row =
  row_id :: string
  row_created :: "int option"
  row_seq :: "int option"
  row_meta :: "(string, string) odict"
  row_vec :: "string option"

section \<open>Write tokens\<close>

text \<open>\<open>last\<close> is the module's \<open>_last_seq\<close>, \<open>now\<close> the reading of \<open>time.time_ns()\<close>: the token and the
  new \<open>_last_seq\<close>.\<close>

definition next_write_seq :: "int \<Rightarrow> int \<Rightarrow> int \<times> int" where
  "next_write_seq now last_seq = (let seq = max now (last_seq + 1) in (seq, seq))"

text \<open>The tokens of successive calls of one process, one clock reading per call.\<close>

fun stamps :: "int list \<Rightarrow> int \<Rightarrow> int list" where
  "stamps [] last_seq = []"
| "stamps (now # nows) last_seq =
     (let (seq, last_seq') = next_write_seq now last_seq in seq # stamps nows last_seq')"

lemma stamps_above: "t \<in> set (stamps nows l) \<Longrightarrow> l < t"
  by (induction nows arbitrary: l) (fastforce simp: next_write_seq_def Let_def)+

lemma stamps_strictly_increase: "sorted_wrt (<) (stamps nows l)"
  by (induction nows arbitrary: l) (auto simp: next_write_seq_def Let_def dest: stamps_above)

lemma stamps_follow_the_clock: "i < length nows \<Longrightarrow> nows ! i \<le> stamps nows l ! i"
  by (induction nows arbitrary: l i) (auto simp: next_write_seq_def Let_def nth_Cons split: nat.splits)

section \<open>Which of two rows is newer\<close>

definition created_or_zero :: "row \<Rightarrow> int" where
  "created_or_zero r = (case row_created r of None \<Rightarrow> 0 | Some t \<Rightarrow> t)"

definition row_is_strictly_newer :: "row option \<Rightarrow> row \<Rightarrow> bool" where
  "row_is_strictly_newer candidate reference =
     (case candidate of
        None \<Rightarrow> False
      | Some c \<Rightarrow>
          (case (row_seq c, row_seq reference) of
             (Some a, Some b) \<Rightarrow> a > b
           | _ \<Rightarrow> created_or_zero c > created_or_zero reference))"

lemma newer_None [simp]: "\<not> row_is_strictly_newer None r"
  by (simp add: row_is_strictly_newer_def)

lemma newer_irrefl [simp]: "\<not> row_is_strictly_newer (Some r) r"
  by (simp add: row_is_strictly_newer_def split: option.splits)

lemma newer_asym: "row_is_strictly_newer (Some a) b \<Longrightarrow> \<not> row_is_strictly_newer (Some b) a"
  by (auto simp: row_is_strictly_newer_def split: option.splits)

text \<open>Among rows that all carry a token the order is a strict linear order of the tokens.\<close>

lemma newer_trans_stamped:
  assumes "row_is_strictly_newer (Some a) b" "row_is_strictly_newer (Some b) c"
    and "row_seq a \<noteq> None" "row_seq b \<noteq> None" "row_seq c \<noteq> None"
  shows "row_is_strictly_newer (Some a) c"
  using assms by (auto simp: row_is_strictly_newer_def split: option.splits)

end
