(* ===== verification/NanoStore.thy ===== *)
theory NanoStore
  imports RowVersions UpdateFlags
begin

text \<open>
  The file-backed vector store of src/ontorag/kg/nano_vector_db_impl.py: buffered upserts and
  deletes, the flush that materializes them into the in-memory client, the two redo logs that keep
  what a failed save has not made durable, the commit, and the reads that answer from all of them.

  \<open>NanoVectorDB\<close> (a third-party package) is the parameter \<open>nano_db\<close>: its rows, its three operations
  on them, the file contents a save writes and the client a file opens to. \<open>nano_laws\<close> states what
  the storage relies on. The embedding model is an argument of the operations that call it. The
  vector codec (numpy, zlib, base64) and the md5 digest are the fields of \<open>nano_env\<close>.
  Every operation holds the namespace lock for its whole body, so each one is a function.
\<close>

section \<open>The vector database and the environment\<close>

record ('c, 'j, 'v) nano_db =
  nd_data :: "'c \<Rightarrow> row list"
  nd_get :: "'c \<Rightarrow> string list \<Rightarrow> row list"
  nd_upsert :: "'c \<Rightarrow> (row \<times> 'v option) list \<Rightarrow> 'c"
  nd_delete :: "'c \<Rightarrow> string list \<Rightarrow> 'c"
  nd_dump :: "'c \<Rightarrow> 'j"
  nd_open :: "'j option \<Rightarrow> 'c"

text \<open>The row a client holds under an id.\<close>

definition resident :: "('c, 'j, 'v) nano_db \<Rightarrow> 'c \<Rightarrow> string \<Rightarrow> row option" where
  "resident db c = map_of (map (\<lambda>r. (row_id r, r)) (nd_data db c))"

definition nano_laws :: "('c, 'j, 'v) nano_db \<Rightarrow> bool" where
  "nano_laws db \<longleftrightarrow>
     (\<forall>c. distinct (map row_id (nd_data db c))) \<and>
     (\<forall>c ids. distinct (map row_id (nd_get db c ids)) \<and>
        set (nd_get db c ids) = {r \<in> set (nd_data db c). row_id r \<in> set ids}) \<and>
     (\<forall>c rvs. distinct (map (row_id \<circ> fst) rvs) \<longrightarrow> (\<forall>(r, v) \<in> set rvs. v \<noteq> None) \<longrightarrow>
        resident db (nd_upsert db c rvs) =
          resident db c ++ map_of (map (\<lambda>(r, v). (row_id r, r)) rvs)) \<and>
     (\<forall>c ids. resident db (nd_delete db c ids) = (resident db c) |` (- set ids)) \<and>
     (\<forall>c. resident db (nd_open db (Some (nd_dump db c))) = resident db c) \<and>
     resident db (nd_open db None) = Map.empty"

text \<open>
  \<open>ne_enc\<close> is the float16, zlib and base64 encoding of a vector, \<open>ne_dec\<close> its decoding to float32
  lists, \<open>ne_f32\<close> the conversion of a raw vector. \<open>ne_fp\<close> is \<open>md5(json.dumps(row, sort_keys=True))\<close>.
\<close>

record ('v, 'f) nano_env =
  ne_namespace :: string
  ne_batch :: nat
  ne_meta_fields :: "string list"
  ne_enc :: "'v \<Rightarrow> string"
  ne_dec :: "string \<Rightarrow> 'v"
  ne_f32 :: "'v \<Rightarrow> 'v"
  ne_fp :: "row \<Rightarrow> 'f"
  ne_md5 :: "string \<Rightarrow> string"

datatype nano_error =
    BatchSizeZero
  | ContentMissing
  | VectorMissing
  | EmbeddingRaised
  | EmbeddingNotOneToOne nat nat
  | SaveRaised
  | NamespaceNotFound

definition row_fingerprint :: "('v, 'f) nano_env \<Rightarrow> row \<Rightarrow> 'f" where
  "row_fingerprint env r = ne_fp env r"

definition compute_mdhash_id :: "(string \<Rightarrow> string) \<Rightarrow> string \<Rightarrow> string \<Rightarrow> string" where
  "compute_mdhash_id md5 content prefix = prefix @ md5 content"

section \<open>The state of one process\<close>

record 'v pdoc =
  pd_record :: row
  pd_vector :: "'v option"

record ('c, 'v, 'f) nano =
  nn_client :: 'c
  nn_pending_upserts :: "(string, 'v pdoc) odict"
  nn_pending_deletes :: "string set"
  nn_unsaved_deletes :: "(string, 'f) odict"
  nn_unsaved_upserts :: "(string, 'v pdoc) odict"
  nn_client_dirty :: bool
  nn_flag :: flag_handle

text \<open>What the processes share: the file and the update flags.\<close>

record 'j nano_shared =
  sh_file :: "'j option"
  sh_flags :: flag_registry

definition nano_post_init :: "('c, 'j, 'v) nano_db \<Rightarrow> 'j nano_shared \<Rightarrow> ('c, 'v, 'f) nano" where
  "nano_post_init db w =
     \<lparr>nn_client = nd_open db (sh_file w), nn_pending_upserts = [], nn_pending_deletes = {},
      nn_unsaved_deletes = [], nn_unsaved_upserts = [], nn_client_dirty = False,
      nn_flag = ([], 0)\<rparr>"

definition nano_initialize ::
    "('v, 'f) nano_env \<Rightarrow> ('c, 'v, 'f) nano \<Rightarrow> 'j nano_shared \<Rightarrow> ('c, 'v, 'f) nano \<times> 'j nano_shared" where
  "nano_initialize env s w =
     (let (reg, h) = get_update_flag (sh_flags w) (ne_namespace env)
      in (s\<lparr>nn_flag := h\<rparr>, w\<lparr>sh_flags := reg\<rparr>))"

section \<open>Reload\<close>

text \<open>\<open>_reload_client_from_disk_locked\<close>, with its boolean answer.\<close>

definition reload_client ::
    "('c, 'j, 'v) nano_db \<Rightarrow> ('c, 'v, 'f) nano \<Rightarrow> 'j nano_shared
      \<Rightarrow> ('c, 'v, 'f) nano \<times> 'j nano_shared \<times> bool" where
  "reload_client db s w =
     (if \<not> flag_value (sh_flags w) (nn_flag s) then (s, w, False)
      else (s\<lparr>nn_client := nd_open db (sh_file w)\<rparr>,
            w\<lparr>sh_flags := set_flag_value (sh_flags w) (nn_flag s) False\<rparr>, True))"

section \<open>Buffering\<close>

definition pending_record ::
    "('v, 'f) nano_env \<Rightarrow> int \<Rightarrow> int \<Rightarrow> string \<Rightarrow> (string, string) odict \<Rightarrow> row" where
  "pending_record env current_time write_seq k v =
     \<lparr>row_id = k, row_created = Some current_time, row_seq = Some write_seq,
      row_meta = filter (\<lambda>(k1, v1). k1 \<in> set (ne_meta_fields env)) v, row_vec = None\<rparr>"

definition buffer_upsert ::
    "(string \<times> row) \<Rightarrow> ('c, 'v, 'f) nano \<Rightarrow> ('c, 'v, 'f) nano" where
  "buffer_upsert = (\<lambda>(doc_id, record) s. s
     \<lparr>nn_pending_deletes := nn_pending_deletes s - {doc_id},
      nn_pending_upserts :=
        od_set doc_id \<lparr>pd_record = record, pd_vector = None\<rparr> (nn_pending_upserts s)\<rparr>)"

text \<open>\<open>upsert\<close>: \<open>now_s\<close> and \<open>now_ns\<close> are the two clock readings, \<open>last_seq\<close> the module's token state.\<close>

definition nano_upsert ::
    "('v, 'f) nano_env \<Rightarrow> int \<Rightarrow> int \<Rightarrow> int \<Rightarrow> (string, (string, string) odict) odict
      \<Rightarrow> ('c, 'v, 'f) nano \<Rightarrow> ('c, 'v, 'f) nano \<times> int" where
  "nano_upsert env now_s now_ns last_seq data s =
     (if data = [] then (s, last_seq)
      else (let (write_seq, last_seq') = next_write_seq now_ns last_seq;
                pending = map (\<lambda>(k, v). (k, pending_record env now_s write_seq k v)) data
            in (fold buffer_upsert pending s, last_seq')))"

definition buffer_delete :: "string \<Rightarrow> ('c, 'v, 'f) nano \<Rightarrow> ('c, 'v, 'f) nano" where
  "buffer_delete doc_id s = s
     \<lparr>nn_pending_upserts := od_del doc_id (nn_pending_upserts s),
      nn_unsaved_upserts := od_del doc_id (nn_unsaved_upserts s),
      nn_pending_deletes := insert doc_id (nn_pending_deletes s)\<rparr>"

definition nano_delete :: "string list \<Rightarrow> ('c, 'v, 'f) nano \<Rightarrow> ('c, 'v, 'f) nano" where
  "nano_delete ids s = fold buffer_delete ids s"

definition drop_pending_index_ops :: "('c, 'v, 'f) nano \<Rightarrow> ('c, 'v, 'f) nano" where
  "drop_pending_index_ops s = s\<lparr>nn_pending_upserts := [], nn_pending_deletes := {}\<rparr>"

section \<open>The flush\<close>

text \<open>The deletes: a queued id takes whatever row carries it, a logged one only the row version it
  removed before.\<close>

definition delete_matched ::
    "('v, 'f) nano_env \<Rightarrow> ('c, 'v, 'f) nano \<Rightarrow> row \<Rightarrow> (string \<times> 'f) option" where
  "delete_matched env s dp =
     (if row_id dp \<in> nn_pending_deletes s then Some (row_id dp, row_fingerprint env dp)
      else if map_of (nn_unsaved_deletes s) (row_id dp) = Some (row_fingerprint env dp)
      then Some (row_id dp, row_fingerprint env dp)
      else None)"

definition flush_deletes ::
    "('c, 'j, 'v) nano_db \<Rightarrow> ('v, 'f) nano_env \<Rightarrow> ('c, 'v, 'f) nano \<Rightarrow> ('c, 'v, 'f) nano" where
  "flush_deletes db env s =
     (if nn_pending_deletes s = {} \<and> nn_unsaved_deletes s = [] then s
      else (let matched = List.map_filter (delete_matched env s) (nd_data db (nn_client s));
                s1 = (if matched = [] then s
                      else s\<lparr>nn_client := nd_delete db (nn_client s) (map fst matched),
                             nn_client_dirty := True\<rparr>)
            in s1\<lparr>nn_unsaved_deletes := fold (\<lambda>(i, f). od_set i f) matched (nn_unsaved_deletes s1),
                  nn_pending_deletes := {}\<rparr>))"

text \<open>The replay of the upsert redo log.\<close>

datatype redo_action = Redo_skip | Redo_superseded | Redo_replay

definition resident_supersedes_redo :: "row option \<Rightarrow> row \<Rightarrow> bool" where
  "resident_supersedes_redo res redo_record = row_is_strictly_newer res redo_record"

definition redo_action ::
    "('c, 'j, 'v) nano_db \<Rightarrow> ('v, 'f) nano_env \<Rightarrow> ('c, 'v, 'f) nano \<Rightarrow> string \<Rightarrow> 'v pdoc \<Rightarrow> redo_action" where
  "redo_action db env s doc_id pdoc =
     (if map_of (nn_pending_upserts s) doc_id \<noteq> None then Redo_skip
      else (case resident db (nn_client s) doc_id of
              Some res \<Rightarrow>
                if row_fingerprint env res = row_fingerprint env (pd_record pdoc) then Redo_skip
                else if resident_supersedes_redo (Some res) (pd_record pdoc) then Redo_superseded
                else Redo_replay
            | None \<Rightarrow> Redo_replay))"

definition flush_redo ::
    "('c, 'j, 'v) nano_db \<Rightarrow> ('v, 'f) nano_env \<Rightarrow> ('c, 'v, 'f) nano \<Rightarrow> ('c, 'v, 'f) nano" where
  "flush_redo db env s =
     (let replay = filter (\<lambda>(i, d). redo_action db env s i d = Redo_replay) (nn_unsaved_upserts s);
          s1 = s\<lparr>nn_unsaved_upserts :=
            filter (\<lambda>(i, d). redo_action db env s i d \<noteq> Redo_superseded) (nn_unsaved_upserts s)\<rparr>
      in if replay = [] then s1
         else s1\<lparr>nn_client :=
                   nd_upsert db (nn_client s) (map (\<lambda>(i, d). (pd_record d, pd_vector d)) replay),
                 nn_client_dirty := True\<rparr>)"

text \<open>The embedding of the pending documents, in batches.\<close>

function batches :: "nat \<Rightarrow> 'a list \<Rightarrow> 'a list list" where
  "batches n xs = (if n = 0 \<or> xs = [] then [] else take n xs # batches n (drop n xs))"
  by auto
termination by (relation "measure (\<lambda>(n, xs). length xs)") auto

declare batches.simps [simp del]

definition embed_docs ::
    "('v, 'f) nano_env \<Rightarrow> (string list \<Rightarrow> 'v list option) \<Rightarrow> (string \<times> 'v pdoc) list
      \<Rightarrow> nano_error + 'v list" where
  "embed_docs env emb docs =
     (let contents = map (\<lambda>(i, d). map_of (row_meta (pd_record d)) ''content'') docs
      in if None \<in> set contents then Inl ContentMissing
         else if ne_batch env = 0 then Inl BatchSizeZero
         else (let results = map emb (batches (ne_batch env) (map the contents))
               in if None \<in> set results then Inl EmbeddingRaised
                  else (let embeddings = concat (map the results)
                        in if length embeddings \<noteq> length docs
                           then Inl (EmbeddingNotOneToOne (length embeddings) (length docs))
                           else Inr embeddings)))"

text \<open>\<open>pdoc.vector = embedding\<close>, then the compressed vector in the record.\<close>

definition assign_vectors ::
    "(string \<times> 'v) list \<Rightarrow> (string, 'v pdoc) odict \<Rightarrow> (string, 'v pdoc) odict" where
  "assign_vectors vs docs =
     map (\<lambda>(i, d). (i, case map_of vs i of None \<Rightarrow> d | Some v \<Rightarrow> d\<lparr>pd_vector := Some v\<rparr>)) docs"

definition materialize :: "('v, 'f) nano_env \<Rightarrow> 'v pdoc \<Rightarrow> 'v pdoc" where
  "materialize env d =
     (case pd_vector d of None \<Rightarrow> d
      | Some v \<Rightarrow> d\<lparr>pd_record := (pd_record d)\<lparr>row_vec := Some (ne_enc env v)\<rparr>\<rparr>)"

definition flush_upserts ::
    "('c, 'j, 'v) nano_db \<Rightarrow> ('v, 'f) nano_env \<Rightarrow> (string list \<Rightarrow> 'v list option)
      \<Rightarrow> ('c, 'v, 'f) nano \<Rightarrow> ('c, 'v, 'f) nano \<times> nano_error option" where
  "flush_upserts db env emb s =
     (if nn_pending_upserts s = [] then (s, None)
      else (let to_embed = filter (\<lambda>(i, d). pd_vector d = None) (nn_pending_upserts s)
            in case (if to_embed = [] then Inr [] else embed_docs env emb to_embed) of
                 Inl e \<Rightarrow> (s, Some e)
               | Inr embeddings \<Rightarrow>
                   (let items = map (\<lambda>(i, d). (i, materialize env d))
                          (assign_vectors (zip (map fst to_embed) embeddings) (nn_pending_upserts s))
                    in (s\<lparr>nn_client := nd_upsert db (nn_client s)
                            (map (\<lambda>(i, d). (pd_record d, pd_vector d)) items),
                          nn_client_dirty := True,
                          nn_unsaved_upserts :=
                            fold (\<lambda>(i, d). od_set i d) items (nn_unsaved_upserts s),
                          nn_pending_upserts :=
                            fold (\<lambda>(i, d). od_del i) items (nn_pending_upserts s)\<rparr>, None))))"

definition flush_pending ::
    "('c, 'j, 'v) nano_db \<Rightarrow> ('v, 'f) nano_env \<Rightarrow> (string list \<Rightarrow> 'v list option)
      \<Rightarrow> ('c, 'v, 'f) nano \<Rightarrow> ('c, 'v, 'f) nano \<times> nano_error option" where
  "flush_pending db env emb s =
     (if nn_pending_upserts s = [] \<and> nn_pending_deletes s = {} \<and> nn_unsaved_deletes s = []
         \<and> nn_unsaved_upserts s = [] then (s, None)
      else flush_upserts db env emb (flush_redo db env (flush_deletes db env s)))"

section \<open>The commit\<close>

text \<open>\<open>_save_to_disk_locked\<close> with \<open>_committed\<close>: \<open>save_ok\<close> says whether \<open>atomic_write\<close> succeeded. On a
  failure nothing changes; after a success the logs are retired before the flags are raised.\<close>

definition save_to_disk ::
    "('c, 'j, 'v) nano_db \<Rightarrow> ('v, 'f) nano_env \<Rightarrow> bool \<Rightarrow> ('c, 'v, 'f) nano \<Rightarrow> 'j nano_shared
      \<Rightarrow> ('c, 'v, 'f) nano \<times> 'j nano_shared \<times> nano_error option" where
  "save_to_disk db env save_ok s w =
     (if \<not> save_ok then (s, w, Some SaveRaised)
      else (let s1 = s\<lparr>nn_unsaved_deletes := [], nn_unsaved_upserts := []\<rparr>;
                w1 = w\<lparr>sh_file := Some (nd_dump db (nn_client s))\<rparr>
            in case set_all_update_flags (sh_flags w1) (ne_namespace env) of
                 Inl e \<Rightarrow> (s1, w1, Some NamespaceNotFound)
               | Inr reg \<Rightarrow> (s1\<lparr>nn_client_dirty := False\<rparr>,
                            w1\<lparr>sh_flags := set_flag_value reg (nn_flag s) False\<rparr>, None)))"

definition index_done_callback ::
    "('c, 'j, 'v) nano_db \<Rightarrow> ('v, 'f) nano_env \<Rightarrow> (string list \<Rightarrow> 'v list option) \<Rightarrow> bool
      \<Rightarrow> ('c, 'v, 'f) nano \<Rightarrow> 'j nano_shared
      \<Rightarrow> ('c, 'v, 'f) nano \<times> 'j nano_shared \<times> nano_error option" where
  "index_done_callback db env emb save_ok s w =
     (let (s1, w1, _) = reload_client db s w
      in case flush_pending db env emb s1 of
           (s2, Some e) \<Rightarrow> (s2, w1, Some e)
         | (s2, None) \<Rightarrow> save_to_disk db env save_ok s2 w1)"

definition nano_finalize ::
    "('c, 'j, 'v) nano_db \<Rightarrow> ('v, 'f) nano_env \<Rightarrow> (string list \<Rightarrow> 'v list option) \<Rightarrow> bool
      \<Rightarrow> ('c, 'v, 'f) nano \<Rightarrow> 'j nano_shared
      \<Rightarrow> ('c, 'v, 'f) nano \<times> 'j nano_shared \<times> nano_error option" where
  "nano_finalize db env emb save_ok s w =
     (if nn_pending_upserts s = [] \<and> nn_pending_deletes s = {} \<and> nn_unsaved_deletes s = []
         \<and> nn_unsaved_upserts s = [] \<and> \<not> nn_client_dirty s then (s, w, None)
      else (let (s1, w1, reloaded) = reload_client db s w;
                s2 = (if reloaded then s1\<lparr>nn_client_dirty := False\<rparr> else s1)
            in case flush_pending db env emb s2 of
                 (s3, Some e) \<Rightarrow> (s3, w1, Some e)
               | (s3, None) \<Rightarrow>
                   if \<not> nn_client_dirty s3 then (s3, w1, None)
                   else save_to_disk db env save_ok s3 w1))"

text \<open>\<open>drop\<close>: \<open>remove_ok\<close> says whether \<open>os.remove\<close> of an existing file succeeded. The answer is
  \<open>True\<close> for the status "success".\<close>

definition nano_drop ::
    "('c, 'j, 'v) nano_db \<Rightarrow> ('v, 'f) nano_env \<Rightarrow> bool \<Rightarrow> ('c, 'v, 'f) nano \<Rightarrow> 'j nano_shared
      \<Rightarrow> ('c, 'v, 'f) nano \<times> 'j nano_shared \<times> bool" where
  "nano_drop db env remove_ok s w =
     (let s1 = s\<lparr>nn_pending_upserts := [], nn_pending_deletes := {}, nn_unsaved_deletes := [],
                 nn_unsaved_upserts := []\<rparr>
      in if sh_file w \<noteq> None \<and> \<not> remove_ok then (s1, w, False)
         else (let s2 = s1\<lparr>nn_client := nd_open db None, nn_client_dirty := False\<rparr>;
                   w2 = w\<lparr>sh_file := None\<rparr>
               in case set_all_update_flags (sh_flags w2) (ne_namespace env) of
                    Inl e \<Rightarrow> (s2, w2, False)
                  | Inr reg \<Rightarrow> (s2, w2\<lparr>sh_flags := set_flag_value reg (nn_flag s) False\<rparr>, True)))"

section \<open>Eager deletes\<close>

definition delete_entity ::
    "('c, 'j, 'v) nano_db \<Rightarrow> ('v, 'f) nano_env \<Rightarrow> string \<Rightarrow> ('c, 'v, 'f) nano \<Rightarrow> 'j nano_shared
      \<Rightarrow> ('c, 'v, 'f) nano \<times> 'j nano_shared" where
  "delete_entity db env entity_name s w =
     (let entity_id = compute_mdhash_id (ne_md5 env) entity_name ''ent-'';
          (s1, w1, _) = reload_client db s w;
          s2 = (case nd_get db (nn_client s1) [entity_id] of
                  [] \<Rightarrow> s1
                | dp # _ \<Rightarrow> s1\<lparr>nn_client := nd_delete db (nn_client s1) [entity_id],
                              nn_pending_deletes := nn_pending_deletes s1 - {entity_id},
                              nn_unsaved_deletes :=
                                od_set entity_id (row_fingerprint env dp) (nn_unsaved_deletes s1),
                              nn_client_dirty := True\<rparr>)
      in (s2\<lparr>nn_pending_upserts := od_del entity_id (nn_pending_upserts s2),
             nn_unsaved_upserts := od_del entity_id (nn_unsaved_upserts s2)\<rparr>, w1))"

definition incident :: "string \<Rightarrow> row \<Rightarrow> bool" where
  "incident entity_name r \<longleftrightarrow> map_of (row_meta r) ''src_id'' = Some entity_name
                          \<or> map_of (row_meta r) ''tgt_id'' = Some entity_name"

definition delete_entity_relation ::
    "('c, 'j, 'v) nano_db \<Rightarrow> ('v, 'f) nano_env \<Rightarrow> string \<Rightarrow> ('c, 'v, 'f) nano \<Rightarrow> 'j nano_shared
      \<Rightarrow> ('c, 'v, 'f) nano \<times> 'j nano_shared" where
  "delete_entity_relation db env entity_name s w =
     (let (s1, w1, _) = reload_client db s w;
          rows_to_delete = map (\<lambda>dp. (row_id dp, row_fingerprint env dp))
                             (filter (incident entity_name) (nd_data db (nn_client s1)));
          ids_to_delete = map fst rows_to_delete;
          s2 = (if ids_to_delete = [] then s1
                else s1\<lparr>nn_client := nd_delete db (nn_client s1) ids_to_delete,
                        nn_pending_deletes := nn_pending_deletes s1 - set ids_to_delete,
                        nn_unsaved_deletes :=
                          fold (\<lambda>(i, f). od_set i f) rows_to_delete (nn_unsaved_deletes s1),
                        nn_client_dirty := True\<rparr>);
          stays = (\<lambda>(i, d). \<not> incident entity_name (pd_record d))
      in (s2\<lparr>nn_pending_upserts := filter stays (nn_pending_upserts s2),
             nn_unsaved_upserts := filter stays (nn_unsaved_upserts s2)\<rparr>, w1))"

section \<open>Reads\<close>

record public_row =
  pr_id :: string
  pr_created_at :: "int option"
  pr_fields :: "(string, string) odict"

definition format_record :: "row \<Rightarrow> public_row" where
  "format_record dp = \<lparr>pr_id = row_id dp, pr_created_at = row_created dp, pr_fields = row_meta dp\<rparr>"

definition matches_redo_entry :: "('v, 'f) nano_env \<Rightarrow> row \<Rightarrow> 'f option \<Rightarrow> bool" where
  "matches_redo_entry env dp fingerprint =
     (case fingerprint of None \<Rightarrow> False | Some f \<Rightarrow> f = row_fingerprint env dp)"

text \<open>The classification all three reads make of an id, under the lock, from the buffers alone.\<close>

datatype ('v, 'f) read_source =
    From_pending "'v pdoc"
  | Queued_delete
  | From_redo "'v pdoc"
  | From_client "'f option"

definition read_source :: "('c, 'v, 'f) nano \<Rightarrow> string \<Rightarrow> ('v, 'f) read_source" where
  "read_source s i =
     (case map_of (nn_pending_upserts s) i of
        Some d \<Rightarrow> From_pending d
      | None \<Rightarrow>
          if i \<in> nn_pending_deletes s then Queued_delete
          else (case map_of (nn_unsaved_upserts s) i of
                  Some d \<Rightarrow> From_redo d
                | None \<Rightarrow> From_client (map_of (nn_unsaved_deletes s) i)))"

text \<open>The second half of a read: the client, after its own reload, against what the lock section
  found.\<close>

definition choose_row ::
    "('v, 'f) nano_env \<Rightarrow> ('v, 'f) read_source \<Rightarrow> row option \<Rightarrow> row option" where
  "choose_row env src res =
     (case src of
        From_pending d \<Rightarrow> Some (pd_record d)
      | Queued_delete \<Rightarrow> None
      | From_redo d \<Rightarrow>
          if resident_supersedes_redo res (pd_record d) then res else Some (pd_record d)
      | From_client logged \<Rightarrow>
          (case res of None \<Rightarrow> None
           | Some r \<Rightarrow> if matches_redo_entry env r logged then None else Some r))"

definition asks_client :: "('v, 'f) read_source \<Rightarrow> bool" where
  "asks_client src = (case src of From_redo d \<Rightarrow> True | From_client f \<Rightarrow> True | _ \<Rightarrow> False)"

definition get_by_id ::
    "('c, 'j, 'v) nano_db \<Rightarrow> ('v, 'f) nano_env \<Rightarrow> string \<Rightarrow> ('c, 'v, 'f) nano \<Rightarrow> 'j nano_shared
      \<Rightarrow> ('c, 'v, 'f) nano \<times> 'j nano_shared \<times> public_row option" where
  "get_by_id db env i s w =
     (let src = read_source s i
      in if \<not> asks_client src then (s, w, map_option format_record (choose_row env src None))
         else (let (s1, w1, _) = reload_client db s w;
                   res = (case nd_get db (nn_client s1) [i] of [] \<Rightarrow> None | r # _ \<Rightarrow> Some r)
               in (s1, w1, map_option format_record (choose_row env src res))))"

definition get_by_ids ::
    "('c, 'j, 'v) nano_db \<Rightarrow> ('v, 'f) nano_env \<Rightarrow> string list \<Rightarrow> ('c, 'v, 'f) nano \<Rightarrow> 'j nano_shared
      \<Rightarrow> ('c, 'v, 'f) nano \<times> 'j nano_shared \<times> public_row option list" where
  "get_by_ids db env ids s w =
     (let remaining = filter (\<lambda>i. asks_client (read_source s i)) ids;
          (s1, w1, _) = (if remaining = [] then (s, w, False) else reload_client db s w);
          resident_map = (if remaining = [] then []
            else map (\<lambda>dp. (row_id dp, dp)) (nd_get db (nn_client s1) remaining))
      in (s1, w1, map (\<lambda>i. map_option format_record
                             (choose_row env (read_source s i) (map_of resident_map i))) ids))"

text \<open>\<open>get_vectors_by_ids\<close> embeds the pending documents it is asked for, caches the vectors for the
  next flush, and decodes the stored vector of a materialized row.\<close>

definition choose_vector ::
    "('v, 'f) nano_env \<Rightarrow> ('v, 'f) read_source \<Rightarrow> row option \<Rightarrow> nano_error + 'v option" where
  "choose_vector env src res =
     (case src of
        From_pending d \<Rightarrow> Inr (map_option (ne_f32 env) (pd_vector d))
      | Queued_delete \<Rightarrow> Inr None
      | From_redo d \<Rightarrow>
          (case (resident_supersedes_redo res (pd_record d), Option.bind res row_vec, pd_vector d) of
             (True, Some e, _) \<Rightarrow> Inr (Some (ne_dec env e))
           | (_, _, Some v) \<Rightarrow> Inr (Some (ne_f32 env v))
           | (_, _, None) \<Rightarrow> Inl VectorMissing)
      | From_client logged \<Rightarrow>
          (case res of None \<Rightarrow> Inr None
           | Some r \<Rightarrow> Inr (if matches_redo_entry env r logged then None
                           else map_option (ne_dec env) (row_vec r))))"

definition cache_vectors ::
    "('v, 'f) nano_env \<Rightarrow> (string list \<Rightarrow> 'v list option) \<Rightarrow> string list \<Rightarrow> ('c, 'v, 'f) nano
      \<Rightarrow> nano_error + ('c, 'v, 'f) nano" where
  "cache_vectors env emb ids s =
     (let to_embed = List.map_filter (\<lambda>i. case map_of (nn_pending_upserts s) i of
            Some d \<Rightarrow> (if pd_vector d = None then Some (i, d) else None) | None \<Rightarrow> None) ids
      in if to_embed = [] then Inr s
         else (case embed_docs env emb to_embed of
                 Inl e \<Rightarrow> Inl e
               | Inr embeddings \<Rightarrow> Inr (s\<lparr>nn_pending_upserts :=
                   assign_vectors (rev (zip (map fst to_embed) embeddings)) (nn_pending_upserts s)\<rparr>)))"

definition get_vectors_by_ids ::
    "('c, 'j, 'v) nano_db \<Rightarrow> ('v, 'f) nano_env \<Rightarrow> (string list \<Rightarrow> 'v list option) \<Rightarrow> string list
      \<Rightarrow> ('c, 'v, 'f) nano \<Rightarrow> 'j nano_shared
      \<Rightarrow> ('c, 'v, 'f) nano \<times> 'j nano_shared \<times> (nano_error + (string \<rightharpoonup> 'v))" where
  "get_vectors_by_ids db env emb ids s w =
     (case cache_vectors env emb ids s of
        Inl e \<Rightarrow> (s, w, Inl e)
      | Inr s1 \<Rightarrow>
          (let remaining = filter (\<lambda>i. asks_client (read_source s1 i)) ids;
               (s2, w2, _) = (if remaining = [] then (s1, w, False) else reload_client db s1 w);
               resident_map = (if remaining = [] then []
                 else map (\<lambda>dp. (row_id dp, dp)) (nd_get db (nn_client s2) remaining));
               answer = (\<lambda>i. choose_vector env (read_source s1 i) (map_of resident_map i))
           in if \<exists>i\<in>set ids. \<exists>e. answer i = Inl e then (s2, w2, Inl VectorMissing)
              else (s2, w2, Inr (\<lambda>i. if i \<in> set ids
                      then (case answer i of Inr v \<Rightarrow> v | Inl e \<Rightarrow> None) else None))))"

section \<open>What a flush makes of the buffers\<close>

lemma resident_id: "resident db c i = Some r \<Longrightarrow> row_id r = i \<and> r \<in> set (nd_data db c)"
  by (auto simp: resident_def dest!: map_of_SomeD)

lemma resident_iff:
  assumes "nano_laws db"
  shows "resident db c i = Some r \<longleftrightarrow> row_id r = i \<and> r \<in> set (nd_data db c)"
proof -
  have "distinct (map fst (map (\<lambda>r. (row_id r, r)) (nd_data db c)))"
    using assms by (simp add: nano_laws_def comp_def)
  then have "map_of (map (\<lambda>r. (row_id r, r)) (nd_data db c)) i = Some r
               \<longleftrightarrow> (i, r) \<in> set (map (\<lambda>r. (row_id r, r)) (nd_data db c))"
    by (rule map_of_eq_Some_iff)
  then show ?thesis unfolding resident_def by auto
qed

lemma nano_laws_upsert:
  "nano_laws db \<Longrightarrow> distinct (map (row_id \<circ> fst) rvs) \<Longrightarrow> \<forall>(r, v) \<in> set rvs. v \<noteq> None
    \<Longrightarrow> resident db (nd_upsert db c rvs) = resident db c ++ map_of (map (\<lambda>(r, v). (row_id r, r)) rvs)"
  unfolding nano_laws_def by blast

lemma nano_laws_delete:
  "nano_laws db \<Longrightarrow> resident db (nd_delete db c ids) = (resident db c) |` (- set ids)"
  unfolding nano_laws_def by blast

lemma nano_laws_open:
  "nano_laws db \<Longrightarrow> resident db (nd_open db (Some (nd_dump db c))) = resident db c"
  "nano_laws db \<Longrightarrow> resident db (nd_open db None) = Map.empty"
  unfolding nano_laws_def by blast+

text \<open>Looking one id up: the query the two single-id paths make.\<close>

lemma nano_laws_get_set:
  "nano_laws db \<Longrightarrow> set (nd_get db c ids) = {r \<in> set (nd_data db c). row_id r \<in> set ids}"
  unfolding nano_laws_def by blast

lemma option_eqI: "(\<And>x. a = Some x \<longleftrightarrow> b = Some x) \<Longrightarrow> a = b"
  by (cases a; cases b) auto

lemma nano_laws_get1:
  assumes "nano_laws db"
  shows "(case nd_get db c [i] of [] \<Rightarrow> None | r # _ \<Rightarrow> Some r) = resident db c i"
proof (cases "nd_get db c [i]")
  case Nil
  have "resident db c i \<noteq> Some r" for r
    using nano_laws_get_set [OF assms, of c "[i]"] resident_iff [OF assms, of c i r]
    unfolding Nil by auto
  with Nil show ?thesis by (cases "resident db c i") auto
next
  case (Cons r rs)
  have "r \<in> set (nd_get db c [i])" using Cons by simp
  then have "resident db c i = Some r"
    unfolding nano_laws_get_set [OF assms] resident_iff [OF assms] by simp
  with Cons show ?thesis by simp
qed

lemma nano_laws_get_many:
  assumes "nano_laws db"
  shows "map_of (map (\<lambda>dp. (row_id dp, dp)) (nd_get db c ids)) i
           = (if i \<in> set ids then resident db c i else None)"
proof -
  let ?m = "map (\<lambda>dp. (row_id dp, dp)) (nd_get db c ids)"
  have d: "distinct (map fst ?m)" using assms by (simp add: nano_laws_def comp_def)
  have s: "set (nd_get db c ids) = {r \<in> set (nd_data db c). row_id r \<in> set ids}"
    using assms by (simp add: nano_laws_def)
  have "map_of ?m i = Some r \<longleftrightarrow> i \<in> set ids \<and> resident db c i = Some r" for r
    unfolding map_of_eq_Some_iff [OF d] using s resident_iff [OF assms, of c i r] by auto
  then show ?thesis by (intro option_eqI) simp
qed

text \<open>
  A store is well formed when its dictionaries have one entry per id, filed under the id of their
  record, no id is queued for both an upsert and a delete, and every row of the redo log has its
  vector.
\<close>

definition nano_wf :: "('c, 'v, 'f) nano \<Rightarrow> bool" where
  "nano_wf s \<longleftrightarrow>
     od_wf (nn_pending_upserts s) \<and> od_wf (nn_unsaved_upserts s) \<and>
     (\<forall>(i, d) \<in> set (nn_pending_upserts s). row_id (pd_record d) = i \<and> i \<notin> nn_pending_deletes s) \<and>
     (\<forall>(i, d) \<in> set (nn_unsaved_upserts s).
        row_id (pd_record d) = i \<and> i \<notin> nn_pending_deletes s \<and> pd_vector d \<noteq> None)"

text \<open>The client's answer after the deletes of a flush, and after its replay.\<close>

definition after_deletes ::
    "('v, 'f) nano_env \<Rightarrow> ('c, 'v, 'f) nano \<Rightarrow> (string \<rightharpoonup> row) \<Rightarrow> string \<rightharpoonup> row" where
  "after_deletes env s base i =
     (case base i of None \<Rightarrow> None
      | Some r \<Rightarrow> if i \<in> nn_pending_deletes s
                    \<or> map_of (nn_unsaved_deletes s) i = Some (row_fingerprint env r)
                 then None else Some r)"

definition settled ::
    "('v, 'f) nano_env \<Rightarrow> ('c, 'v, 'f) nano \<Rightarrow> (string \<rightharpoonup> row) \<Rightarrow> string \<rightharpoonup> row" where
  "settled env s base i =
     (case map_of (nn_unsaved_upserts s) i of
        None \<Rightarrow> after_deletes env s base i
      | Some d \<Rightarrow>
          (case after_deletes env s base i of
             None \<Rightarrow> Some (pd_record d)
           | Some r \<Rightarrow>
               if row_fingerprint env r = row_fingerprint env (pd_record d)
                  \<or> row_is_strictly_newer (Some r) (pd_record d)
               then Some r else Some (pd_record d)))"

lemma map_filter_matched:
  "map fst (List.map_filter (delete_matched env s) rows)
     = map row_id (filter (\<lambda>r. delete_matched env s r \<noteq> None) rows)"
  by (induction rows) (auto simp: List.map_filter_def delete_matched_def)

lemma set_matched:
  "set (List.map_filter (delete_matched env s) rows)
     = {(row_id r, row_fingerprint env r) | r. r \<in> set rows \<and> delete_matched env s r \<noteq> None}"
  by (induction rows) (auto simp: List.map_filter_def delete_matched_def)

lemma delete_matched_iff:
  "delete_matched env s r \<noteq> None \<longleftrightarrow>
     row_id r \<in> nn_pending_deletes s
     \<or> map_of (nn_unsaved_deletes s) (row_id r) = Some (row_fingerprint env r)"
  by (simp add: delete_matched_def)

lemma flush_deletes_resident:
  assumes "nano_laws db"
  shows "resident db (nn_client (flush_deletes db env s))
           = after_deletes env s (resident db (nn_client s))"
proof (cases "nn_pending_deletes s = {} \<and> nn_unsaved_deletes s = []")
  case True
  then show ?thesis
    by (auto simp: flush_deletes_def after_deletes_def fun_eq_iff split: option.splits)
next
  case False
  let ?c = "nn_client s" and ?m = "List.map_filter (delete_matched env s) (nd_data db (nn_client s))"
  have hit: "i \<in> set (map fst ?m) \<longleftrightarrow> (\<exists>r. resident db ?c i = Some r \<and> delete_matched env s r \<noteq> None)"
    for i unfolding map_filter_matched using resident_iff [OF assms, of ?c i] by auto
  have "resident db (nn_client (flush_deletes db env s)) = (resident db ?c) |` (- set (map fst ?m))"
    using False nano_laws_delete [OF assms, of ?c "map fst ?m"]
    by (auto simp: flush_deletes_def Let_def)
  also have "\<dots> = after_deletes env s (resident db ?c)"
  proof
    fix i
    show "((resident db ?c) |` (- set (map fst ?m))) i = after_deletes env s (resident db ?c) i"
    proof (cases "resident db ?c i")
      case None
      then show ?thesis by (simp add: restrict_map_def after_deletes_def)
    next
      case (Some r)
      then have "row_id r = i" by (simp add: resident_id)
      with Some hit [of i] show ?thesis
        by (simp add: restrict_map_def after_deletes_def delete_matched_iff del: not_None_eq)
    qed
  qed
  finally show ?thesis .
qed

lemma fold_od_set_lookup:
  "distinct (map fst kvs) \<Longrightarrow> map_of (fold (\<lambda>(i, f). od_set i f) kvs d) i =
     (case map_of kvs i of None \<Rightarrow> map_of d i | Some f \<Rightarrow> Some f)"
proof (induction kvs arbitrary: d)
  case (Cons kv kvs)
  obtain k f where kv: "kv = (k, f)" by (cases kv)
  then have "map_of kvs k = None" using Cons.prems by (simp add: map_of_eq_None_iff)
  then show ?case using Cons.IH [of "od_set k f d"] Cons.prems kv
    by (cases "i = k") (simp_all split: option.split)
qed simp

lemma fold_od_set_wf: "od_wf d \<Longrightarrow> od_wf (fold (\<lambda>(i, f). od_set i f) kvs d)"
  by (induction kvs arbitrary: d) auto

lemma fold_od_del_lookup:
  "map_of (fold (\<lambda>(i, f). od_del i) kvs d) i = (if i \<in> fst ` set kvs then None else map_of d i)"
  by (induction kvs arbitrary: d) auto

lemma flush_deletes_rest:
  "nn_pending_upserts (flush_deletes db env s) = nn_pending_upserts s"
  "nn_unsaved_upserts (flush_deletes db env s) = nn_unsaved_upserts s"
  "nn_pending_deletes (flush_deletes db env s) = {}"
  "nn_flag (flush_deletes db env s) = nn_flag s"
  by (auto simp: flush_deletes_def Let_def)

lemma flush_deletes_logged:
  assumes "nano_laws db"
  shows "map_of (nn_unsaved_deletes (flush_deletes db env s)) i =
     (case resident db (nn_client s) i of
        None \<Rightarrow> map_of (nn_unsaved_deletes s) i
      | Some r \<Rightarrow> if i \<in> nn_pending_deletes s then Some (row_fingerprint env r)
                 else map_of (nn_unsaved_deletes s) i)"
proof (cases "nn_pending_deletes s = {} \<and> nn_unsaved_deletes s = []")
  case True
  then show ?thesis by (simp add: flush_deletes_def split: option.splits)
next
  case False
  let ?c = "nn_client s" and ?m = "List.map_filter (delete_matched env s) (nd_data db (nn_client s))"
  have dis: "distinct (map fst ?m)"
    using assms unfolding map_filter_matched nano_laws_def by (simp add: distinct_map_filter)
  let ?hit = "case resident db ?c i of None \<Rightarrow> None
      | Some r \<Rightarrow> if delete_matched env s r \<noteq> None then Some (row_fingerprint env r) else None"
  have "map_of ?m i = Some f \<longleftrightarrow> (\<exists>r. resident db ?c i = Some r \<and> delete_matched env s r \<noteq> None
                                     \<and> f = row_fingerprint env r)" for f
    unfolding map_of_eq_Some_iff [OF dis] set_matched using resident_iff [OF assms, of ?c i] by auto
  then have "map_of ?m i = Some f \<longleftrightarrow> ?hit = Some f" for f
    by (simp split: option.split) blast
  then have m: "map_of ?m i = ?hit" by (rule option_eqI)
  have u: "nn_unsaved_deletes (flush_deletes db env s)
      = fold (\<lambda>(i, f). od_set i f) ?m (nn_unsaved_deletes s)"
    using False by (auto simp: flush_deletes_def Let_def)
  show ?thesis
  proof (cases "resident db ?c i")
    case None
    then show ?thesis unfolding u fold_od_set_lookup [OF dis] m by simp
  next
    case (Some r)
    then have "row_id r = i" by (simp add: resident_id)
    then show ?thesis unfolding u fold_od_set_lookup [OF dis] m Some
      by (simp add: delete_matched_def)
  qed
qed

text \<open>The replay.\<close>

lemma flush_redo_rest:
  "nn_pending_upserts (flush_redo db env s) = nn_pending_upserts s"
  "nn_pending_deletes (flush_redo db env s) = nn_pending_deletes s"
  "nn_unsaved_deletes (flush_redo db env s) = nn_unsaved_deletes s"
  "nn_flag (flush_redo db env s) = nn_flag s"
  "nn_unsaved_upserts (flush_redo db env s)
     = filter (\<lambda>(i, d). redo_action db env s i d \<noteq> Redo_superseded) (nn_unsaved_upserts s)"
  by (simp_all add: flush_redo_def Let_def)

lemma od_filter_lookup:
  "od_wf d \<Longrightarrow> map_of (filter P d) i =
     (case map_of d i of None \<Rightarrow> None | Some v \<Rightarrow> if P (i, v) then Some v else None)"
proof (induction d)
  case (Cons kv d)
  obtain k v where kv: "kv = (k, v)" by (cases kv)
  from Cons.prems kv have "map_of d k = None" "od_wf d" by (auto simp: od_wf_def map_of_eq_None_iff)
  then show ?case using Cons.IH kv by (cases "i = k") auto
qed simp

text \<open>An upsert of documents that are filed under their ids and have their vectors.\<close>

lemma upsert_docs_resident:
  assumes laws: "nano_laws db" and wf: "od_wf docs"
    and filed: "\<forall>(i, d) \<in> set docs. row_id (pd_record d) = i \<and> pd_vector d \<noteq> None"
  shows "resident db (nd_upsert db c (map (\<lambda>(i, d). (pd_record d, pd_vector d)) docs)) i
           = (case map_of docs i of None \<Rightarrow> resident db c i | Some d \<Rightarrow> Some (pd_record d))"
proof -
  let ?rvs = "map (\<lambda>(i, d). (pd_record d, pd_vector d)) docs"
  have ids: "map (row_id \<circ> fst) ?rvs = map fst docs" using filed by (auto simp: split_beta)
  have rows: "map (\<lambda>(r, v). (row_id r, r)) ?rvs = map (\<lambda>(i, d). (i, pd_record d)) docs"
    using filed by (auto simp: split_beta)
  have dis: "distinct (map (row_id \<circ> fst) ?rvs)" using wf unfolding ids od_wf_def .
  have "resident db (nd_upsert db c ?rvs) = resident db c ++ map_of (map (\<lambda>(r, v). (row_id r, r)) ?rvs)"
    using filed by (intro nano_laws_upsert [OF laws dis]) auto
  then show ?thesis
    unfolding rows by (simp add: map_add_def map_of_map split: option.split)
qed

lemma flush_redo_resident:
  assumes laws: "nano_laws db" and wf: "nano_wf s"
  shows "resident db (nn_client (flush_redo db env s)) i =
     (case map_of (nn_unsaved_upserts s) i of
        None \<Rightarrow> resident db (nn_client s) i
      | Some d \<Rightarrow> if redo_action db env s i d = Redo_replay then Some (pd_record d)
                 else resident db (nn_client s) i)"
proof -
  let ?replay = "filter (\<lambda>(i, d). redo_action db env s i d = Redo_replay) (nn_unsaved_upserts s)"
  have u: "od_wf (nn_unsaved_upserts s)" using wf by (simp add: nano_wf_def)
  have look: "map_of ?replay i = (case map_of (nn_unsaved_upserts s) i of None \<Rightarrow> None
      | Some d \<Rightarrow> if redo_action db env s i d = Redo_replay then Some d else None)"
    using od_filter_lookup [OF u, of "\<lambda>(i, d). redo_action db env s i d = Redo_replay" i]
    unfolding prod.case .
  have c: "nn_client (flush_redo db env s) = (if ?replay = [] then nn_client s
      else nd_upsert db (nn_client s) (map (\<lambda>(i, d). (pd_record d, pd_vector d)) ?replay))"
    by (simp add: flush_redo_def Let_def)
  have "\<forall>(i, d) \<in> set ?replay. row_id (pd_record d) = i \<and> pd_vector d \<noteq> None"
    using wf by (auto simp: nano_wf_def)
  from upsert_docs_resident [OF laws od_wf_filter [OF u] this, of "nn_client s" i]
  have "resident db (nn_client (flush_redo db env s)) i
      = (case map_of ?replay i of None \<Rightarrow> resident db (nn_client s) i | Some d \<Rightarrow> Some (pd_record d))"
    unfolding c by auto
  then show ?thesis unfolding look by (simp split: option.split)
qed

text \<open>A wf store after the two first phases of a flush.\<close>

lemma flush_redo_logged:
  assumes "nano_wf s"
  shows "map_of (nn_unsaved_upserts (flush_redo db env s)) i =
     (case map_of (nn_unsaved_upserts s) i of None \<Rightarrow> None
      | Some d \<Rightarrow> if redo_action db env s i d = Redo_superseded then None else Some d)"
  using assms od_filter_lookup [of "nn_unsaved_upserts s"]
  by (simp add: flush_redo_rest nano_wf_def split: option.split)

lemma flush_deletes_wf: "nano_wf s \<Longrightarrow> nano_wf (flush_deletes db env s)"
  by (auto simp: nano_wf_def flush_deletes_rest)

lemma flush_redo_wf: "nano_wf s \<Longrightarrow> nano_wf (flush_redo db env s)"
  by (auto simp: nano_wf_def flush_redo_rest od_wf_filter)

text \<open>The last phase.\<close>

lemma assign_vectors_lookup:
  "map_of (assign_vectors vs docs) i =
     map_option (\<lambda>d. case map_of vs i of None \<Rightarrow> d | Some v \<Rightarrow> d\<lparr>pd_vector := Some v\<rparr>) (map_of docs i)"
  unfolding assign_vectors_def by (induction docs) (auto split: option.split)

lemma assign_vectors_keys [simp]: "od_keys (assign_vectors vs docs) = od_keys docs"
  by (induction docs) (auto simp: assign_vectors_def)

lemma embed_docs_length: "embed_docs env emb docs = Inr es \<Longrightarrow> length es = length docs"
  by (auto simp: embed_docs_def Let_def split: if_splits)

text \<open>\<open>written env d r\<close>: \<open>r\<close> is the row a flush makes of the pending document \<open>d\<close>.\<close>

definition written :: "('v, 'f) nano_env \<Rightarrow> 'v pdoc \<Rightarrow> row \<Rightarrow> bool" where
  "written env d r \<longleftrightarrow>
     (\<exists>v. r = (pd_record d)\<lparr>row_vec := Some (ne_enc env v)\<rparr> \<and> (\<forall>u. pd_vector d = Some u \<longrightarrow> v = u))"

lemma written_fields:
  "written env d r \<Longrightarrow> row_id r = row_id (pd_record d) \<and> row_created r = row_created (pd_record d)
     \<and> row_seq r = row_seq (pd_record d) \<and> row_meta r = row_meta (pd_record d)"
  by (auto simp: written_def)

lemma od_wf_map_values: "od_wf (map (\<lambda>(i, d). (i, f d)) docs) \<longleftrightarrow> od_wf docs"
  by (simp add: od_wf_def split_beta comp_def)

lemma map_values_lookup: "map_of (map (\<lambda>(i, d). (i, f d)) docs) i = map_option f (map_of docs i)"
  by (induction docs) auto

text \<open>The embedded documents of a flush: every pending document gets a vector, and keeps the one it
  had.\<close>

lemma assigned_vector:
  assumes wf: "od_wf docs" and es: "length es = length (filter (\<lambda>(i, d). pd_vector d = None) docs)"
    and d: "map_of docs i = Some d"
  shows "\<exists>v. map_of (assign_vectors (zip (map fst (filter (\<lambda>(i, d). pd_vector d = None) docs)) es) docs) i
                = Some (d\<lparr>pd_vector := Some v\<rparr>) \<and> (\<forall>u. pd_vector d = Some u \<longrightarrow> v = u)"
proof -
  let ?to = "filter (\<lambda>(i, d). pd_vector d = None) docs"
  have look: "map_of ?to i = (if pd_vector d = None then Some d else None)"
    using od_filter_lookup [OF wf, of "\<lambda>(i, d). pd_vector d = None" i] d by simp
  show ?thesis
  proof (cases "pd_vector d")
    case None
    then have "i \<in> set (map fst ?to)" using look by (force dest: map_of_SomeD)
    then obtain v where "map_of (zip (map fst ?to) es) i = Some v"
      using es by (metis length_map map_of_zip_is_Some)
    then show ?thesis using d None by (auto simp: assign_vectors_lookup)
  next
    case (Some u)
    then have "i \<notin> set (map fst ?to)" using look
      by (metis (no_types, lifting) image_set map_of_eq_None_iff option.simps(3))
    then have "map_of (zip (map fst ?to) es) i = None"
      by (metis (no_types, lifting) map_of_SomeD not_None_eq set_zip_leftD)
    moreover have "d = d\<lparr>pd_vector := Some u\<rparr>" using Some by simp
    ultimately show ?thesis using d Some by (auto simp: assign_vectors_lookup)
  qed
qed

lemma flush_upserts_effect:
  assumes laws: "nano_laws db" and wf: "nano_wf s" and ok: "flush_upserts db env emb s = (s', None)"
  shows "(case map_of (nn_pending_upserts s) i of
           None \<Rightarrow> resident db (nn_client s') i = resident db (nn_client s) i
                  \<and> map_of (nn_unsaved_upserts s') i = map_of (nn_unsaved_upserts s) i
         | Some d \<Rightarrow> \<exists>d'. resident db (nn_client s') i = Some (pd_record d')
                  \<and> map_of (nn_unsaved_upserts s') i = Some d'
                  \<and> written env d (pd_record d') \<and> pd_vector d' \<noteq> None)
       \<and> nn_pending_upserts s' = [] \<and> nn_unsaved_deletes s' = nn_unsaved_deletes s
       \<and> nn_pending_deletes s' = nn_pending_deletes s \<and> nn_flag s' = nn_flag s \<and> nano_wf s'"
    (is "?look \<and> ?empty \<and> ?ud \<and> ?pd \<and> ?rest \<and> ?wf")
proof -
  let ?docs = "nn_pending_upserts s"
  have u: "od_wf ?docs" "od_wf (nn_unsaved_upserts s)" using wf by (auto simp: nano_wf_def)
  show ?thesis
  proof (cases "?docs = []")
    case True
    then have "s' = s" using ok by (simp add: flush_upserts_def)
    with True wf show ?thesis by simp
  next
    case False
    let ?to = "filter (\<lambda>(i, d). pd_vector d = None) ?docs"
    obtain es where es: "(if ?to = [] then Inr [] else embed_docs env emb ?to) = Inr es"
      using ok False by (auto simp: flush_upserts_def Let_def split: sum.splits)
    then have len: "length es = length ?to" by (auto split: if_splits dest: embed_docs_length)
    define items where "items = map (\<lambda>(i, d). (i, materialize env d))
      (assign_vectors (zip (map fst ?to) es) ?docs)"
    have keys: "od_keys items = od_keys ?docs" unfolding items_def by (simp add: comp_def split_beta)
    have iw: "od_wf items" using u keys by (simp add: od_wf_def)
    have item: "\<exists>d'. map_of items i = Some d' \<and> written env d (pd_record d') \<and> pd_vector d' \<noteq> None"
      if "map_of ?docs i = Some d" for i d
      using assigned_vector [OF u(1) len that]
      unfolding items_def map_values_lookup by (auto simp: materialize_def written_def)
    have none: "map_of items i = None \<longleftrightarrow> map_of ?docs i = None" for i
      using keys by (metis map_of_eq_None_iff set_map)
    have "row_id (pd_record d') = i \<and> pd_vector d' \<noteq> None" if "(i, d') \<in> set items" for i d'
    proof -
      have m: "map_of items i = Some d'" using iw that by (simp add: od_wf_def)
      then obtain d where d: "map_of ?docs i = Some d" using none [of i] by auto
      then have "(i, d) \<in> set ?docs" by (rule map_of_SomeD)
      then have "row_id (pd_record d) = i" using wf by (auto simp: nano_wf_def)
      with item [OF d] m show ?thesis by (auto dest: written_fields)
    qed
    then have filed: "\<forall>(i, d') \<in> set items. row_id (pd_record d') = i \<and> pd_vector d' \<noteq> None"
      by blast
    have s': "s' = s\<lparr>nn_client := nd_upsert db (nn_client s)
                        (map (\<lambda>(i, d). (pd_record d, pd_vector d)) items),
                     nn_client_dirty := True,
                     nn_unsaved_upserts := fold (\<lambda>(i, d). od_set i d) items (nn_unsaved_upserts s),
                     nn_pending_upserts := fold (\<lambda>(i, d). od_del i) items ?docs\<rparr>"
      using ok False es unfolding flush_upserts_def items_def by (simp add: Let_def)
    have empty: ?empty
    proof -
      have "map_of (fold (\<lambda>(i, d). od_del i) items ?docs) i = None" for i
        using none [of i] by (simp add: fold_od_del_lookup map_of_eq_None_iff)
      then have "fold (\<lambda>(i, d). od_del i) items ?docs = []"
        by (metis map_of_eq_empty_iff ext)
      then show ?thesis by (simp add: s')
    qed
    have log: "map_of (nn_unsaved_upserts s') i =
        (case map_of items i of None \<Rightarrow> map_of (nn_unsaved_upserts s) i | Some d \<Rightarrow> Some d)" for i
      using iw unfolding s' by (simp add: fold_od_set_lookup od_wf_def)
    have look: ?look
      using upsert_docs_resident [OF laws iw filed, of "nn_client s" i] log [of i] item [of i] none [of i]
      unfolding s' by (auto split: option.splits)
    have lw: "od_wf (nn_unsaved_upserts s')" using u unfolding s' by (simp add: fold_od_set_wf)
    have "row_id (pd_record d) = i \<and> i \<notin> nn_pending_deletes s \<and> pd_vector d \<noteq> None"
      if "(i, d) \<in> set (nn_unsaved_upserts s')" for i d
    proof (cases "map_of items i")
      case None
      then have "map_of (nn_unsaved_upserts s) i = Some d"
        using that lw log [of i] by (simp add: od_wf_def)
      then show ?thesis using wf by (auto simp: nano_wf_def dest: map_of_SomeD)
    next
      case (Some d')
      then have "d' = d" using that lw log [of i] by (simp add: od_wf_def)
      moreover have "i \<notin> nn_pending_deletes s"
        using none [of i] Some wf by (fastforce simp: nano_wf_def dest: map_of_SomeD)
      ultimately show ?thesis using filed Some by (auto dest: map_of_SomeD)
    qed
    then have ?wf using lw empty unfolding nano_wf_def by (auto simp: s')
    moreover have "?ud \<and> ?pd \<and> ?rest" by (simp add: s')
    ultimately show ?thesis using look empty by blast
  qed
qed

text \<open>Whether the replay drops the redo entry of an id: a strictly newer row version is in its place.\<close>

definition superseded ::
    "('v, 'f) nano_env \<Rightarrow> ('c, 'v, 'f) nano \<Rightarrow> (string \<rightharpoonup> row) \<Rightarrow> string \<Rightarrow> 'v pdoc \<Rightarrow> bool" where
  "superseded env s base i d =
     (case after_deletes env s base i of
        None \<Rightarrow> False
      | Some r \<Rightarrow> row_fingerprint env r \<noteq> row_fingerprint env (pd_record d)
                 \<and> row_is_strictly_newer (Some r) (pd_record d))"

lemma flush_effect:
  assumes laws: "nano_laws db" and wf: "nano_wf s" and ok: "flush_pending db env emb s = (s', None)"
  shows "(case map_of (nn_pending_upserts s) i of
           None \<Rightarrow> resident db (nn_client s') i = settled env s (resident db (nn_client s)) i
                  \<and> map_of (nn_unsaved_upserts s') i =
                      (case map_of (nn_unsaved_upserts s) i of None \<Rightarrow> None
                       | Some d \<Rightarrow> if superseded env s (resident db (nn_client s)) i d
                                  then None else Some d)
         | Some d \<Rightarrow> \<exists>d'. resident db (nn_client s') i = Some (pd_record d')
                  \<and> map_of (nn_unsaved_upserts s') i = Some d'
                  \<and> written env d (pd_record d') \<and> pd_vector d' \<noteq> None)
       \<and> map_of (nn_unsaved_deletes s') i =
           (case resident db (nn_client s) i of
              None \<Rightarrow> map_of (nn_unsaved_deletes s) i
            | Some r \<Rightarrow> if i \<in> nn_pending_deletes s then Some (row_fingerprint env r)
                       else map_of (nn_unsaved_deletes s) i)
       \<and> nn_pending_upserts s' = [] \<and> nn_pending_deletes s' = {} \<and> nn_flag s' = nn_flag s
       \<and> nano_wf s'"
proof (cases "nn_pending_upserts s = [] \<and> nn_pending_deletes s = {} \<and> nn_unsaved_deletes s = []
              \<and> nn_unsaved_upserts s = []")
  case True
  then have "s' = s" using ok by (simp add: flush_pending_def)
  with True wf show ?thesis by (simp add: settled_def after_deletes_def split: option.split)
next
  case False
  define s1 where "s1 = flush_deletes db env s"
  define s2 where "s2 = flush_redo db env s1"
  let ?base = "resident db (nn_client s)"
  have ok': "flush_upserts db env emb s2 = (s', None)"
    using ok False by (auto simp: flush_pending_def s1_def s2_def)
  have w1: "nano_wf s1" using wf by (simp add: s1_def flush_deletes_wf)
  then have w2: "nano_wf s2" by (simp add: s2_def flush_redo_wf)
  have c1: "resident db (nn_client s1) = after_deletes env s ?base"
    unfolding s1_def by (rule flush_deletes_resident [OF laws])
  have p: "nn_pending_upserts s1 = nn_pending_upserts s" "nn_unsaved_upserts s1 = nn_unsaved_upserts s"
    "nn_pending_deletes s1 = {}" "nn_flag s1 = nn_flag s"
    by (simp_all add: s1_def flush_deletes_rest)
  have act: "redo_action db env s1 i d =
      (case after_deletes env s ?base i of
         None \<Rightarrow> Redo_replay
       | Some r \<Rightarrow> if row_fingerprint env r = row_fingerprint env (pd_record d) then Redo_skip
                  else if row_is_strictly_newer (Some r) (pd_record d) then Redo_superseded
                  else Redo_replay)" if "map_of (nn_pending_upserts s) i = None" for d
    using that by (simp add: redo_action_def p c1 resident_supersedes_redo_def split: option.split)
  have c2: "resident db (nn_client s2) i = settled env s ?base i"
    if "map_of (nn_pending_upserts s) i = None"
    using flush_redo_resident [OF laws w1, of env i] act [OF that]
    unfolding s2_def settled_def p c1 by (auto split: option.splits if_splits)
  have l2: "map_of (nn_unsaved_upserts s2) i =
      (case map_of (nn_unsaved_upserts s) i of None \<Rightarrow> None
       | Some d \<Rightarrow> if superseded env s ?base i d then None else Some d)"
    if "map_of (nn_pending_upserts s) i = None"
    using flush_redo_logged [OF w1, of db env i] act [OF that]
    unfolding s2_def superseded_def p by (auto split: option.splits if_splits)
  have d2: "map_of (nn_unsaved_deletes s2) i =
      (case ?base i of None \<Rightarrow> map_of (nn_unsaved_deletes s) i
       | Some r \<Rightarrow> if i \<in> nn_pending_deletes s then Some (row_fingerprint env r)
                  else map_of (nn_unsaved_deletes s) i)"
    using flush_deletes_logged [OF laws, of env s i] by (simp add: s2_def s1_def flush_redo_rest)
  have q: "nn_pending_upserts s2 = nn_pending_upserts s" "nn_pending_deletes s2 = {}"
    "nn_flag s2 = nn_flag s"
    by (simp_all add: s2_def flush_redo_rest p)
  note e = flush_upserts_effect [OF laws w2 ok', of i, unfolded q]
  show ?thesis
  proof (cases "map_of (nn_pending_upserts s) i")
    case None
    with e c2 l2 d2 show ?thesis by simp
  next
    case (Some d)
    with e d2 show ?thesis by simp
  qed
qed

section \<open>The commit\<close>

text \<open>The rows a locked operation starts from: the client, reloaded when the flag is up.\<close>

definition base_rows ::
    "('c, 'j, 'v) nano_db \<Rightarrow> ('c, 'v, 'f) nano \<Rightarrow> 'j nano_shared \<Rightarrow> string \<rightharpoonup> row" where
  "base_rows db s w =
     (if flag_value (sh_flags w) (nn_flag s) then resident db (nd_open db (sh_file w))
      else resident db (nn_client s))"

definition file_rows :: "('c, 'j, 'v) nano_db \<Rightarrow> 'j nano_shared \<Rightarrow> string \<rightharpoonup> row" where
  "file_rows db w = resident db (nd_open db (sh_file w))"

lemma reload_client_effect:
  assumes "reload_client db s w = (s1, w1, b)"
  shows "resident db (nn_client s1) = base_rows db s w"
    and "nn_pending_upserts s1 = nn_pending_upserts s" "nn_pending_deletes s1 = nn_pending_deletes s"
      "nn_unsaved_deletes s1 = nn_unsaved_deletes s" "nn_unsaved_upserts s1 = nn_unsaved_upserts s"
      "nn_flag s1 = nn_flag s" "nn_client_dirty s1 = nn_client_dirty s"
    and "sh_file w1 = sh_file w" "b = flag_value (sh_flags w) (nn_flag s)"
    and "sh_flags w1 = (if b then set_flag_value (sh_flags w) (nn_flag s) False else sh_flags w)"
  using assms by (auto simp: reload_client_def base_rows_def split: if_splits)

lemma settled_cong:
  assumes "nn_pending_deletes s1 = nn_pending_deletes s" "nn_unsaved_deletes s1 = nn_unsaved_deletes s"
    "nn_unsaved_upserts s1 = nn_unsaved_upserts s"
  shows "settled env s1 = settled env s" "superseded env s1 = superseded env s"
    "after_deletes env s1 = after_deletes env s"
proof -
  show a: "after_deletes env s1 = after_deletes env s"
    by (intro ext) (unfold after_deletes_def assms, rule refl)
  show "settled env s1 = settled env s" by (intro ext) (unfold settled_def a assms, rule refl)
  show "superseded env s1 = superseded env s" by (intro ext) (unfold superseded_def a, rule refl)
qed

lemma save_ok_effect:
  assumes laws: "nano_laws db" and ok: "save_to_disk db env True s w = (s', w', None)"
  shows "file_rows db w' = resident db (nn_client s)" "nn_client s' = nn_client s"
    "nn_unsaved_deletes s' = []" "nn_unsaved_upserts s' = []" "nn_client_dirty s' = False"
    "nn_pending_upserts s' = nn_pending_upserts s" "nn_pending_deletes s' = nn_pending_deletes s"
    "nn_flag s' = nn_flag s"
    "\<exists>reg. set_all_update_flags (sh_flags w) (ne_namespace env) = Inr reg
           \<and> sh_flags w' = set_flag_value reg (nn_flag s) False"
  using ok nano_laws_open [OF laws]
  by (auto simp: save_to_disk_def Let_def file_rows_def split: sum.splits)

text \<open>A completed commit, id by id: the file holds the merge of the buffers and the reloaded client,
  and every buffer is empty.\<close>

lemma commit_effect:
  assumes laws: "nano_laws db" and wf: "nano_wf s"
    and ok: "index_done_callback db env emb True s w = (s', w', None)"
  shows "case map_of (nn_pending_upserts s) i of
           None \<Rightarrow> file_rows db w' i = settled env s (base_rows db s w) i
         | Some d \<Rightarrow> \<exists>r. file_rows db w' i = Some r \<and> written env d r"
    and "nn_pending_upserts s' = []" "nn_pending_deletes s' = {}" "nn_unsaved_deletes s' = []"
      "nn_unsaved_upserts s' = []" "\<not> nn_client_dirty s'" "nn_flag s' = nn_flag s"
      "resident db (nn_client s') = file_rows db w'"
proof -
  obtain s1 w1 b where r: "reload_client db s w = (s1, w1, b)" by (cases "reload_client db s w") auto
  note re = reload_client_effect [OF r]
  obtain s2 where fl: "flush_pending db env emb s1 = (s2, None)"
    and sv: "save_to_disk db env True s2 w1 = (s', w', None)"
    using ok r by (auto simp: index_done_callback_def split: prod.splits option.splits)
  have w1': "nano_wf s1" using wf re by (simp add: nano_wf_def)
  note fe = flush_effect [OF laws w1' fl]
  note se = save_ok_effect [OF laws sv]
  show "case map_of (nn_pending_upserts s) i of
           None \<Rightarrow> file_rows db w' i = settled env s (base_rows db s w) i
         | Some d \<Rightarrow> \<exists>r. file_rows db w' i = Some r \<and> written env d r"
    using fe [of i] se re settled_cong [of s1 s env] by (auto split: option.splits)
  show "nn_pending_upserts s' = []" "nn_pending_deletes s' = {}" "nn_unsaved_deletes s' = []"
    "nn_unsaved_upserts s' = []" "\<not> nn_client_dirty s'" "nn_flag s' = nn_flag s"
    "resident db (nn_client s') = file_rows db w'"
    using fe se re by auto
qed

text \<open>A commit whose save failed: the flush has happened, the file and the flags have not moved.\<close>

lemma failed_commit_effect:
  assumes laws: "nano_laws db" and wf: "nano_wf s"
    and failed: "index_done_callback db env emb False s w = (s', w', Some SaveRaised)"
  shows "case map_of (nn_pending_upserts s) i of
           None \<Rightarrow> map_of (nn_unsaved_upserts s') i =
                    (case map_of (nn_unsaved_upserts s) i of None \<Rightarrow> None
                     | Some d \<Rightarrow> if superseded env s (base_rows db s w) i d then None else Some d)
         | Some d \<Rightarrow> \<exists>d'. map_of (nn_unsaved_upserts s') i = Some d' \<and> written env d (pd_record d')"
    and "map_of (nn_unsaved_deletes s') i =
           (case base_rows db s w i of
              None \<Rightarrow> map_of (nn_unsaved_deletes s) i
            | Some r \<Rightarrow> if i \<in> nn_pending_deletes s then Some (row_fingerprint env r)
                       else map_of (nn_unsaved_deletes s) i)"
    and "nn_pending_upserts s' = []" "nn_pending_deletes s' = {}" "nano_wf s'"
      "sh_file w' = sh_file w" "nn_flag s' = nn_flag s"
proof -
  obtain s1 w1 b where r: "reload_client db s w = (s1, w1, b)" by (cases "reload_client db s w") auto
  note re = reload_client_effect [OF r]
  obtain s2 where fl: "flush_pending db env emb s1 = (s2, None)" and s2: "s' = s2" "w' = w1"
    using failed r by (auto simp: index_done_callback_def save_to_disk_def flush_pending_def
        flush_upserts_def Let_def embed_docs_def split: prod.splits option.splits sum.splits if_splits)
  have w1': "nano_wf s1" using wf re by (simp add: nano_wf_def)
  note fe = flush_effect [OF laws w1' fl]
  show "case map_of (nn_pending_upserts s) i of
           None \<Rightarrow> map_of (nn_unsaved_upserts s') i =
                    (case map_of (nn_unsaved_upserts s) i of None \<Rightarrow> None
                     | Some d \<Rightarrow> if superseded env s (base_rows db s w) i d then None else Some d)
         | Some d \<Rightarrow> \<exists>d'. map_of (nn_unsaved_upserts s') i = Some d' \<and> written env d (pd_record d')"
    using fe [of i] re settled_cong [of s1 s env] unfolding s2 by (auto split: option.splits)
  show "map_of (nn_unsaved_deletes s') i =
           (case base_rows db s w i of
              None \<Rightarrow> map_of (nn_unsaved_deletes s) i
            | Some r \<Rightarrow> if i \<in> nn_pending_deletes s then Some (row_fingerprint env r)
                       else map_of (nn_unsaved_deletes s) i)"
    using fe [of i] unfolding s2 re(1-7) by blast
  show "nn_pending_upserts s' = []" "nn_pending_deletes s' = {}" "nano_wf s'"
      "sh_file w' = sh_file w" "nn_flag s' = nn_flag s"
    using fe re s2 by auto
qed

text \<open>A redo entry that is replayed ends up in the file, unless a strictly newer row is there.\<close>

lemma settled_redo:
  assumes inj: "inj (ne_fp env)" and redo: "map_of (nn_unsaved_upserts s) i = Some d"
  shows "settled env s base i = Some (pd_record d)
       \<or> (\<exists>r. settled env s base i = Some r \<and> base i = Some r \<and> row_is_strictly_newer (Some r) (pd_record d))"
proof (cases "after_deletes env s base i")
  case None
  then show ?thesis using redo by (simp add: settled_def)
next
  case (Some r)
  then have "base i = Some r" by (auto simp: after_deletes_def split: option.splits if_splits)
  with Some redo inj show ?thesis by (auto simp: settled_def row_fingerprint_def dest: injD)
qed

lemma newer_written:
  "written env d r \<Longrightarrow> row_is_strictly_newer c r = row_is_strictly_newer c (pd_record d)"
  by (drule written_fields) (cases c; simp add: row_is_strictly_newer_def created_or_zero_def split: option.split)

text \<open>C18. A save that fails loses no upsert: whatever another process
  publishes before the retry, the retried commit leaves in the file the row of every document that
  was pending, unless the file holds a row under its id that is strictly newer.\<close>

theorem failed_save_keeps_upserts:
  assumes "nano_laws db" and "nano_wf s" and "inj (ne_fp env)"
    and "index_done_callback db env emb False s w = (s1, w1, Some SaveRaised)"
    and "index_done_callback db env emb' True s1 w2 = (s3, w3, None)"
    and "map_of (nn_pending_upserts s) i = Some d"
  shows "\<exists>r. file_rows db w3 i = Some r \<and>
     (written env d r \<or> (base_rows db s1 w2 i = Some r \<and> row_is_strictly_newer (Some r) (pd_record d)))"
proof -
  note f = failed_commit_effect [OF assms(1,2,4)]
  obtain d' where d': "map_of (nn_unsaved_upserts s1) i = Some d'" "written env d (pd_record d')"
    using f(1) [of i] assms(6) by auto
  have "file_rows db w3 i = settled env s1 (base_rows db s1 w2) i"
    using commit_effect(1) [OF assms(1) f(5) assms(5), of i] f(3) by simp
  then show ?thesis
    using settled_redo [OF assms(3) d'(1), of "base_rows db s1 w2"] d'(2) newer_written [OF d'(2)]
    by auto
qed

text \<open>C21. A save that fails loses no delete of a row it saw: after the
  retry the file holds no row of the version that was removed, and a row of another version that
  another process published under the id meanwhile is left alone.\<close>

theorem failed_save_keeps_deletes:
  assumes "nano_laws db" and "nano_wf s" and "inj (ne_fp env)"
    and "index_done_callback db env emb False s w = (s1, w1, Some SaveRaised)"
    and "index_done_callback db env emb' True s1 w2 = (s3, w3, None)"
    and "i \<in> nn_pending_deletes s" and "base_rows db s w i = Some r"
  shows "file_rows db w3 i = (if base_rows db s1 w2 i = Some r then None else base_rows db s1 w2 i)"
proof -
  note f = failed_commit_effect [OF assms(1,2,4)]
  have "map_of (nn_pending_upserts s) i = None" "map_of (nn_unsaved_upserts s) i = None"
    using assms(2,6) unfolding nano_wf_def by (fastforce simp: map_of_eq_None_iff)+
  then have u: "map_of (nn_unsaved_upserts s1) i = None" using f(1) [of i] by simp
  have l: "map_of (nn_unsaved_deletes s1) i = Some (row_fingerprint env r)"
    using f(2) [of i] assms(6,7) by simp
  have "file_rows db w3 i = settled env s1 (base_rows db s1 w2) i"
    using commit_effect(1) [OF assms(1) f(5) assms(5), of i] f(3) by simp
  then show ?thesis
    using u l f(4) assms(3)
    by (auto simp: settled_def after_deletes_def row_fingerprint_def dest: injD split: option.split)
qed

text \<open>C20. Reading an id answers what the next commit makes durable: the
  pending document, nothing for a queued delete, the redo row or the strictly newer resident one,
  and nothing for a row version the redo log removed. The hypothesis on the two logs excludes a row
  that was removed and yet carries a later token than the document written after its removal.\<close>

theorem reads_agree_with_commit:
  assumes laws: "nano_laws db" and wf: "nano_wf s" and inj: "inj (ne_fp env)"
    and tokens: "\<And>r d. base_rows db s w i = Some r
      \<Longrightarrow> map_of (nn_unsaved_deletes s) i = Some (row_fingerprint env r)
      \<Longrightarrow> map_of (nn_unsaved_upserts s) i = Some d \<Longrightarrow> \<not> row_is_strictly_newer (Some r) (pd_record d)"
    and read: "get_by_id db env i s w = (s1, w1, res)"
    and commit: "index_done_callback db env emb True s w = (s2, w2, None)"
  shows "res = map_option format_record (file_rows db w2 i)"
proof -
  obtain s0 w0 b where r: "reload_client db s w = (s0, w0, b)" by (cases "reload_client db s w") auto
  have base: "(case nd_get db (nn_client s0) [i] of [] \<Rightarrow> None | r # _ \<Rightarrow> Some r) = base_rows db s w i"
    using nano_laws_get1 [OF laws] reload_client_effect(1) [OF r] by metis
  have res: "res = map_option format_record (choose_row env (read_source s i)
      (if asks_client (read_source s i) then base_rows db s w i else None))"
    using read r base by (auto simp: get_by_id_def Let_def split: if_splits)
  note c = commit_effect(1) [OF laws wf commit, of i]
  show ?thesis
  proof (cases "map_of (nn_pending_upserts s) i")
    case (Some d)
    then obtain q where "file_rows db w2 i = Some q" "written env d q" using c by auto
    then show ?thesis
      using res Some written_fields by (fastforce simp: read_source_def choose_row_def format_record_def)
  next
    case None
    then have frow: "file_rows db w2 i = settled env s (base_rows db s w) i" using c by simp
    show ?thesis
    proof (cases "map_of (nn_unsaved_upserts s) i")
      case (Some d)
      then have nq: "i \<notin> nn_pending_deletes s"
        using wf by (auto simp: nano_wf_def dest!: map_of_SomeD)
      then have "read_source s i = From_redo d" using None Some by (simp add: read_source_def)
      then show ?thesis
        using res frow Some nq inj tokens [OF _ _ Some]
        by (auto simp: asks_client_def choose_row_def resident_supersedes_redo_def settled_def
            after_deletes_def row_fingerprint_def dest: injD split: option.splits if_splits)
    next
      case unlogged: None
      then show ?thesis
        using res frow None
        by (auto simp: read_source_def asks_client_def choose_row_def settled_def after_deletes_def
            matches_redo_entry_def split: option.splits if_splits)
    qed
  qed
qed

section \<open>A list as the vector database\<close>

text \<open>
  A list of rows with one row per id satisfies \<open>nano_laws\<close>: the instance the concrete runs below
  use. The most recent row of an id shadows the earlier ones.
\<close>

fun newest_rows :: "row list \<Rightarrow> row list" where
  "newest_rows [] = []"
| "newest_rows (r # rs) = r # filter (\<lambda>x. row_id x \<noteq> row_id r) (newest_rows rs)"

definition list_db :: "(row list, row list, 'v) nano_db" where
  "list_db = \<lparr>nd_data = newest_rows,
     nd_get = (\<lambda>c ids. filter (\<lambda>r. row_id r \<in> set ids) (newest_rows c)),
     nd_upsert = (\<lambda>c rvs. rev (map fst rvs) @ c),
     nd_delete = (\<lambda>c ids. filter (\<lambda>r. row_id r \<notin> set ids) c),
     nd_dump = id, nd_open = (\<lambda>f. case f of None \<Rightarrow> [] | Some c \<Rightarrow> c)\<rparr>"

lemma newest_rows_distinct: "distinct (map row_id (newest_rows c))"
  by (induction c) (auto simp: distinct_map_filter)

lemma newest_rows_lookup:
  "map_of (map (\<lambda>r. (row_id r, r)) (newest_rows c)) i = map_of (map (\<lambda>r. (row_id r, r)) c) i"
proof (induction c)
  case (Cons r c)
  have "map_of (map (\<lambda>r. (row_id r, r)) (filter (\<lambda>x. row_id x \<noteq> k) rs)) i
          = (if i = k then None else map_of (map (\<lambda>r. (row_id r, r)) rs) i)" for k and rs :: "row list"
    by (induction rs) auto
  with Cons show ?case by simp
qed simp

lemma list_resident: "resident list_db c = map_of (map (\<lambda>r. (row_id r, r)) c)"
  by (rule ext) (simp add: resident_def list_db_def newest_rows_lookup)

lemma list_upsert_lookup:
  assumes "distinct (map (row_id \<circ> fst) rvs)"
  shows "map_of (map (\<lambda>r. (row_id r, r)) (rev (map fst rvs) @ c)) i
           = (map_of (map (\<lambda>r. (row_id r, r)) c) ++ map_of (map (\<lambda>(r, v). (row_id r, r)) rvs)) i"
  using assms
proof (induction rvs arbitrary: c)
  case (Cons rv rvs)
  have "row_id (fst rv) \<notin> fst ` set (map (\<lambda>(r, v). (row_id r, r)) rvs)"
    using Cons.prems by (force simp: image_iff)
  then have "map_of (map (\<lambda>(r, v). (row_id r, r)) rvs) (row_id (fst rv)) = None"
    by (simp only: map_of_eq_None_iff not_False_eq_True)
  with Cons.IH [of "fst rv # c"] Cons.prems show ?case
    by (cases rv) (auto simp: map_add_def split: option.splits)
qed simp

lemma list_delete_lookup:
  "map_of (map (\<lambda>r. (row_id r, r)) (filter (\<lambda>r. row_id r \<notin> D) c)) i
     = (if i \<in> D then None else map_of (map (\<lambda>r. (row_id r, r)) c) i)"
  by (induction c) auto

lemma list_db_simps:
  "nd_data list_db = newest_rows"
  "nd_get list_db c ids = filter (\<lambda>r. row_id r \<in> set ids) (newest_rows c)"
  "nd_upsert list_db c rvs = rev (map fst rvs) @ c"
  "nd_delete list_db c ids = filter (\<lambda>r. row_id r \<notin> set ids) c"
  "nd_dump list_db c = c" "nd_open list_db None = []" "nd_open list_db (Some c) = c"
  by (simp_all add: list_db_def)

lemma list_db_laws: "nano_laws (list_db :: (row list, row list, 'v) nano_db)"
proof -
  let ?db = "list_db :: (row list, row list, 'v) nano_db"
  have "resident ?db (nd_upsert ?db c rvs)
      = resident ?db c ++ map_of (map (\<lambda>(r, v). (row_id r, r)) rvs)"
    if "distinct (map (row_id \<circ> fst) rvs)" for c rvs
    unfolding list_resident list_db_simps by (rule ext) (rule list_upsert_lookup [OF that])
  moreover have "resident ?db (nd_delete ?db c ids) = (resident ?db c) |` (- set ids)" for c ids
    by (intro ext) (simp add: list_resident list_db_simps list_delete_lookup restrict_map_def)
  moreover have "resident ?db (nd_open ?db None) = Map.empty"
    by (intro ext) (simp add: list_resident list_db_simps)
  ultimately show ?thesis
    unfolding nano_laws_def list_db_simps
    by (simp add: newest_rows_distinct distinct_map_filter)
qed


section \<open>Concrete runs\<close>

abbreviation run_db :: "(row list, row list, nat) nano_db" where
  "run_db \<equiv> list_db"

lemmas run_db_laws = list_db_laws [where 'v = nat]

definition run_env :: "(nat, row) nano_env" where
  "run_env = \<lparr>ne_namespace = ''vdb'', ne_batch = 2, ne_meta_fields = [''content''],
     ne_enc = (\<lambda>v. replicate v CHR ''v''), ne_dec = length, ne_f32 = id, ne_fp = id, ne_md5 = id\<rparr>"

definition run_emb :: "string list \<Rightarrow> nat list option" where
  "run_emb texts = Some (map length texts)"

definition run_row :: "string \<Rightarrow> int \<Rightarrow> row" where
  "run_row i token = \<lparr>row_id = i, row_created = Some 7, row_seq = Some token,
     row_meta = [(''content'', ''abc'')], row_vec = Some ''vvv''\<rparr>"

definition run_doc :: "string \<Rightarrow> int \<Rightarrow> nat pdoc" where
  "run_doc i token = \<lparr>pd_record = (run_row i token)\<lparr>row_vec := None\<rparr>, pd_vector = None\<rparr>"

definition run_store :: "row list \<Rightarrow> (string, nat pdoc) odict \<Rightarrow> string set \<Rightarrow> (row list, nat, row) nano" where
  "run_store c ups dels = \<lparr>nn_client = c, nn_pending_upserts = ups, nn_pending_deletes = dels,
     nn_unsaved_deletes = [], nn_unsaved_upserts = [], nn_client_dirty = False,
     nn_flag = (''vdb'', 0)\<rparr>"

definition run_shared :: "row list \<Rightarrow> bool \<Rightarrow> row list nano_shared" where
  "run_shared f stale = \<lparr>sh_file = Some f, sh_flags = [(''vdb'', [stale, False])]\<rparr>"

lemmas run_defs = run_env_def run_store_def run_shared_def run_doc_def run_row_def

abbreviation "run_start \<equiv> run_store [run_row ''k'' 3] [(''a'', run_doc ''a'' 5)] {''k''}"
abbreviation "run_before \<equiv> run_shared [run_row ''k'' 3] False"
abbreviation "run_foreign \<equiv> run_shared [run_row ''b'' 4, run_row ''k'' 3] True"

definition after_failed :: "(row list, nat, row) nano \<times> row list nano_shared \<times> nano_error option" where
  "after_failed = index_done_callback run_db run_env run_emb False run_start run_before"

definition after_retry :: "(row list, nat, row) nano \<times> row list nano_shared \<times> nano_error option" where
  "after_retry = index_done_callback run_db run_env run_emb True (fst after_failed) run_foreign"

definition after_commit :: "(row list, nat, row) nano \<times> row list nano_shared \<times> nano_error option" where
  "after_commit = index_done_callback run_db run_env run_emb True run_start run_before"

lemma after_failed_run:
  "index_done_callback run_db run_env run_emb False run_start run_before
     = (fst after_failed, fst (snd after_failed), Some SaveRaised)"
proof -
  have "snd (snd after_failed) = Some SaveRaised" by code_simp
  then show ?thesis unfolding after_failed_def by (metis prod.collapse)
qed

lemma after_retry_run:
  "index_done_callback run_db run_env run_emb True (fst after_failed) run_foreign
     = (fst after_retry, fst (snd after_retry), None)"
proof -
  have "snd (snd after_retry) = None" by code_simp
  then show ?thesis unfolding after_retry_def by (metis prod.collapse)
qed

lemma after_commit_run:
  "index_done_callback run_db run_env run_emb True run_start run_before
     = (fst after_commit, fst (snd after_commit), None)"
proof -
  have "snd (snd after_commit) = None" by code_simp
  then show ?thesis unfolding after_commit_def by (metis prod.collapse)
qed

lemma run_start_wf: "nano_wf run_start"
  by (simp add: nano_wf_def od_wf_def run_defs)

lemma run_env_inj: "inj (ne_fp run_env)"
  by (simp add: run_env_def)

theorem failed_save_keeps_upserts_witness:
  "\<exists>r. file_rows run_db (fst (snd after_retry)) ''a'' = Some r \<and>
     (written run_env (run_doc ''a'' 5) r
      \<or> (base_rows run_db (fst after_failed) run_foreign ''a'' = Some r
         \<and> row_is_strictly_newer (Some r) (pd_record (run_doc ''a'' 5))))"
  by (rule failed_save_keeps_upserts
      [OF run_db_laws run_start_wf run_env_inj after_failed_run after_retry_run])
    (simp add: run_store_def)

theorem failed_save_keeps_deletes_witness:
  "file_rows run_db (fst (snd after_retry)) ''k''
     = (if base_rows run_db (fst after_failed) run_foreign ''k'' = Some (run_row ''k'' 3) then None
        else base_rows run_db (fst after_failed) run_foreign ''k'')"
proof (rule failed_save_keeps_deletes
      [OF run_db_laws run_start_wf run_env_inj after_failed_run after_retry_run])
  show "''k'' \<in> nn_pending_deletes run_start" by (simp add: run_store_def)
  show "base_rows run_db run_start run_before ''k'' = Some (run_row ''k'' 3)" by code_simp
qed

theorem reads_agree_with_commit_witness:
  "snd (snd (get_by_id run_db run_env ''a'' run_start run_before))
     = map_option format_record (file_rows run_db (fst (snd after_commit)) ''a'')"
proof (rule reads_agree_with_commit [OF run_db_laws run_start_wf run_env_inj])
  show "index_done_callback run_db run_env run_emb True run_start run_before
     = (fst after_commit, fst (snd after_commit), None)" by (rule after_commit_run)
  show "get_by_id run_db run_env ''a'' run_start run_before
     = (fst (get_by_id run_db run_env ''a'' run_start run_before),
        fst (snd (get_by_id run_db run_env ''a'' run_start run_before)),
        snd (snd (get_by_id run_db run_env ''a'' run_start run_before)))" by simp
  fix r d
  assume "map_of (nn_unsaved_upserts run_start) ''a'' = Some d"
  then show "\<not> row_is_strictly_newer (Some r) (pd_record d)" by (simp add: run_store_def)
qed

text \<open>
  The delete log names the row version a removal found. When that version was itself not durable yet,
  the log names a row no file holds: the durable row \<open>run_row ''a'' 3\<close> is overwritten by the upsert
  with token 5, the save fails, the row is deleted, the save fails again, another process publishes
  \<open>''b''\<close>, and the successful retry brings the durable row back although its id was deleted.
\<close>

definition unsaved_then_deleted :: "(row list, nat, row) nano" where
  "unsaved_then_deleted =
     fst (index_done_callback run_db run_env run_emb False
       (nano_delete [''a'']
         (fst (index_done_callback run_db run_env run_emb False
            (run_store [run_row ''a'' 3] [(''a'', run_doc ''a'' 5)] {})
            (run_shared [run_row ''a'' 3] False))))
       (run_shared [run_row ''a'' 3] False))"

lemma delete_of_unsaved_row_comes_back:
  "file_rows run_db (fst (snd (index_done_callback run_db run_env run_emb True unsaved_then_deleted
       (run_shared [run_row ''b'' 4, run_row ''a'' 3] True)))) ''a'' = Some (run_row ''a'' 3)"
  by code_simp

end
