(* ===== verification/NanoProcesses.thy ===== *)
theory NanoProcesses
  imports NanoStore
begin

text \<open>
  Several processes on the file of one \<open>NanoVectorDBStorage\<close> namespace: the calls of the storage as
  steps of a world that holds the file, the update flags, and the store and token state of every
  process. The world invariant says that a process whose flag is down reads, under every id it has
  not named itself, exactly what the file holds.
\<close>

section \<open>Calls\<close>

text \<open>One call of a process on its storage. \<open>seq\<close> is the process's token state.\<close>

datatype 'v nano_op =
    Op_upsert int int "(string, (string, string) odict) odict"
  | Op_delete "string list"
  | Op_delete_entity string
  | Op_delete_entity_relation string
  | Op_drop_pending
  | Op_commit "string list \<Rightarrow> 'v list option" bool
  | Op_finalize "string list \<Rightarrow> 'v list option" bool
  | Op_drop bool
  | Op_get_by_id string
  | Op_get_by_ids "string list"
  | Op_get_vectors "string list \<Rightarrow> 'v list option" "string list"

definition nano_exec ::
    "('c, 'j, 'v) nano_db \<Rightarrow> ('v, 'f) nano_env \<Rightarrow> 'v nano_op \<Rightarrow> int \<Rightarrow> ('c, 'v, 'f) nano \<Rightarrow> 'j nano_shared
      \<Rightarrow> int \<times> ('c, 'v, 'f) nano \<times> 'j nano_shared" where
  "nano_exec db env op seq s w =
     (case op of
        Op_upsert now_s now_ns data \<Rightarrow>
          (let (s', seq') = nano_upsert env now_s now_ns seq data s in (seq', s', w))
      | Op_delete ids \<Rightarrow> (seq, nano_delete ids s, w)
      | Op_delete_entity n \<Rightarrow> (seq, delete_entity db env n s w)
      | Op_delete_entity_relation n \<Rightarrow> (seq, delete_entity_relation db env n s w)
      | Op_drop_pending \<Rightarrow> (seq, drop_pending_index_ops s, w)
      | Op_commit emb ok \<Rightarrow> (let (s', w', e) = index_done_callback db env emb ok s w in (seq, s', w'))
      | Op_finalize emb ok \<Rightarrow> (let (s', w', e) = nano_finalize db env emb ok s w in (seq, s', w'))
      | Op_drop ok \<Rightarrow> (let (s', w', e) = nano_drop db env ok s w in (seq, s', w'))
      | Op_get_by_id i \<Rightarrow> (let (s', w', a) = get_by_id db env i s w in (seq, s', w'))
      | Op_get_by_ids ids \<Rightarrow> (let (s', w', a) = get_by_ids db env ids s w in (seq, s', w'))
      | Op_get_vectors emb ids \<Rightarrow> (let (s', w', a) = get_vectors_by_ids db env emb ids s w in (seq, s', w')))"

text \<open>The ids a call names: those it may write or remove.\<close>

definition op_names ::
    "('c, 'j, 'v) nano_db \<Rightarrow> ('v, 'f) nano_env \<Rightarrow> 'v nano_op \<Rightarrow> ('c, 'v, 'f) nano \<Rightarrow> 'j nano_shared
      \<Rightarrow> string set" where
  "op_names db env op s w =
     (case op of
        Op_upsert now_s now_ns data \<Rightarrow> fst ` set data
      | Op_delete ids \<Rightarrow> set ids
      | Op_delete_entity n \<Rightarrow> {compute_mdhash_id (ne_md5 env) n ''ent-''}
      | Op_delete_entity_relation n \<Rightarrow> {i. \<exists>r. base_rows db s w i = Some r \<and> incident n r}
      | _ \<Rightarrow> {})"

text \<open>An id no buffer of the process mentions, and the state of one process in which every id
  outside \<open>N\<close> is untouched and read from a client that is current or flagged as stale.\<close>

definition untouched :: "('c, 'v, 'f) nano \<Rightarrow> string \<Rightarrow> bool" where
  "untouched s i \<longleftrightarrow>
     map_of (nn_pending_upserts s) i = None \<and> i \<notin> nn_pending_deletes s
     \<and> map_of (nn_unsaved_deletes s) i = None \<and> map_of (nn_unsaved_upserts s) i = None"

definition current_outside ::
    "('c, 'j, 'v) nano_db \<Rightarrow> string set \<Rightarrow> ('c, 'v, 'f) nano \<Rightarrow> 'j nano_shared \<Rightarrow> bool" where
  "current_outside db N s w \<longleftrightarrow>
     nano_wf s \<and>
     (\<forall>i. i \<notin> N \<longrightarrow> untouched s i
        \<and> (\<not> flag_value (sh_flags w) (nn_flag s)
             \<longrightarrow> resident db (nn_client s) i = file_rows db w i))"

lemma current_base:
  "current_outside db N s w \<Longrightarrow> i \<notin> N \<Longrightarrow> base_rows db s w i = file_rows db w i"
  by (simp add: current_outside_def base_rows_def file_rows_def)

lemma settled_untouched:
  "untouched s i \<Longrightarrow> after_deletes env s base i = base i \<and> settled env s base i = base i"
  by (auto simp: untouched_def settled_def after_deletes_def split: option.split)

lemma flush_untouched:
  assumes laws: "nano_laws db" and wf: "nano_wf s" and fl: "flush_pending db env emb s = (s', e)"
  shows "nano_wf s' \<and> nn_flag s' = nn_flag s
    \<and> (untouched s i \<longrightarrow> untouched s' i \<and> resident db (nn_client s') i = resident db (nn_client s) i)"
proof (cases e)
  case None
  with flush_effect [OF laws wf, of env emb s' i] fl settled_untouched [of s i env]
  show ?thesis by (auto simp: untouched_def split: option.splits)
next
  case (Some x)
  define s1 where "s1 = flush_deletes db env s"
  have s': "s' = flush_redo db env s1"
    using fl Some by (auto simp: flush_pending_def flush_upserts_def Let_def s1_def
        split: if_splits sum.splits)
  have w1: "nano_wf s1" using wf by (simp add: s1_def flush_deletes_wf)
  have c: "untouched s i \<Longrightarrow> resident db (nn_client s1) i = resident db (nn_client s) i"
    using settled_untouched [of s i env] flush_deletes_resident [OF laws, of env s] by (simp add: s1_def)
  have u: "untouched s1 i" if "untouched s i"
    using that flush_deletes_logged [OF laws, of env s i]
    by (simp add: untouched_def s1_def flush_deletes_rest split: option.split)
  have "untouched s' i \<and> resident db (nn_client s') i = resident db (nn_client s1) i"
    if "untouched s1 i"
    using that flush_redo_resident [OF laws w1, of env i] flush_redo_logged [OF w1, of db env i]
    by (simp add: s' untouched_def flush_redo_rest)
  then show ?thesis using c u w1 flush_redo_wf [of s1 db env]
    by (simp add: s' flush_redo_rest s1_def flush_deletes_rest)
qed

text \<open>How one call moves what the processes share: nothing but the caller's own flag, or a
  publication.\<close>

definition shared_step ::
    "('v, 'f) nano_env \<Rightarrow> flag_handle \<Rightarrow> 'j nano_shared \<Rightarrow> 'j nano_shared \<Rightarrow> bool" where
  "shared_step env h w w' \<longleftrightarrow>
     (sh_file w' = sh_file w
        \<and> (sh_flags w' = sh_flags w \<or> sh_flags w' = set_flag_value (sh_flags w) h False))
     \<or> (\<exists>reg. set_all_update_flags (sh_flags w) (ne_namespace env) = Inr reg
          \<and> sh_flags w' = set_flag_value reg h False)
     \<or> (\<exists>reg. set_all_update_flags (set_flag_value (sh_flags w) h False) (ne_namespace env) = Inr reg
          \<and> sh_flags w' = set_flag_value reg h False)"

lemma shared_step_refl: "sh_file w' = sh_file w \<Longrightarrow> sh_flags w' = sh_flags w \<Longrightarrow> shared_step env h w w'"
  by (simp add: shared_step_def)

lemma shared_step_held: "shared_step env h w w' \<Longrightarrow> flag_held (sh_flags w') h' = flag_held (sh_flags w) h'"
  unfolding shared_step_def by (auto simp: uf.held_assign uf.held_announce)

text \<open>Another process of the board is told of every publication.\<close>

lemma shared_step_others:
  assumes "shared_step env h w w'" "flag_held (sh_flags w) h" "flag_held (sh_flags w) h'" "h' \<noteq> h"
    and "fst h' = ne_namespace env" "\<not> flag_value (sh_flags w') h'"
  shows "sh_file w' = sh_file w \<and> \<not> flag_value (sh_flags w) h'"
  using assms unfolding shared_step_def
  by (auto simp: uf.val_assign uf.held_assign uf.held_announce uf.val_announce)

lemma reload_current:
  assumes cur: "current_outside db N s w" and h: "flag_held (sh_flags w) (nn_flag s)"
    and r: "reload_client db s w = (s1, w1, b)"
  shows "current_outside db N s1 w1" "\<not> flag_value (sh_flags w1) (nn_flag s1)"
    "sh_file w1 = sh_file w" "nn_flag s1 = nn_flag s"
    "sh_flags w1 = sh_flags w \<or> sh_flags w1 = set_flag_value (sh_flags w) (nn_flag s) False"
proof -
  note re = reload_client_effect [OF r]
  show "sh_file w1 = sh_file w" "nn_flag s1 = nn_flag s"
    "sh_flags w1 = sh_flags w \<or> sh_flags w1 = set_flag_value (sh_flags w) (nn_flag s) False"
    using re by auto
  show "\<not> flag_value (sh_flags w1) (nn_flag s1)" using re h by (simp add: uf.val_assign)
  have "resident db (nn_client s1) i = file_rows db w1 i" if "i \<notin> N" for i
    using re current_base [OF cur that] by (simp add: file_rows_def)
  then show "current_outside db N s1 w1"
    using cur re by (simp add: current_outside_def nano_wf_def untouched_def)
qed

text \<open>What one call leaves behind, for a caller that named only \<open>N\<close> before: one lemma per operation.\<close>

definition op_effect ::
    "('c, 'j, 'v) nano_db \<Rightarrow> ('v, 'f) nano_env \<Rightarrow> string set \<Rightarrow> ('c, 'v, 'f) nano \<Rightarrow> 'j nano_shared
      \<Rightarrow> ('c, 'v, 'f) nano \<Rightarrow> 'j nano_shared \<Rightarrow> bool" where
  "op_effect db env N s w s' w' \<longleftrightarrow>
     current_outside db N s' w' \<and> shared_step env (nn_flag s) w w' \<and> nn_flag s' = nn_flag s"

text \<open>A call that only edits buffers.\<close>

lemma buffers_effect:
  assumes "current_outside db N s w" "N \<subseteq> M" "nano_wf s'" "nn_client s' = nn_client s"
    "nn_flag s' = nn_flag s" "\<And>i. i \<notin> M \<Longrightarrow> untouched s i \<Longrightarrow> untouched s' i"
  shows "op_effect db env M s w s' w"
proof -
  have "untouched s' i \<and> (\<not> flag_value (sh_flags w) (nn_flag s')
            \<longrightarrow> resident db (nn_client s') i = file_rows db w i)" if "i \<notin> M" for i
    using assms that unfolding current_outside_def by auto
  then show ?thesis using assms(3,5) by (simp add: op_effect_def current_outside_def shared_step_refl)
qed

lemma od_set_mem: "(i, v) \<in> set (od_set k x d) \<Longrightarrow> od_wf d \<Longrightarrow> (i = k \<and> v = x) \<or> (i \<noteq> k \<and> (i, v) \<in> set d)"
  by (induction d) (force simp: od_wf_def split: if_splits)+

lemma od_del_mem: "(i, v) \<in> set (od_del k d) \<longleftrightarrow> i \<noteq> k \<and> (i, v) \<in> set d"
  by (induction d) (auto simp: AList.delete_eq)

lemma buffer_upsert_wf:
  assumes "nano_wf s" "row_id r = i" "map_of (nn_unsaved_upserts s) i = None \<or> i \<notin> nn_pending_deletes s"
  shows "nano_wf (buffer_upsert (i, r) s)"
  using assms unfolding nano_wf_def buffer_upsert_def
  by (auto dest!: od_set_mem)

lemma fold_buffer_upsert:
  assumes "nano_wf s" "\<forall>(k, r) \<in> set pending. row_id r = k"
  shows "nano_wf (fold buffer_upsert pending s)
       \<and> nn_client (fold buffer_upsert pending s) = nn_client s
       \<and> nn_flag (fold buffer_upsert pending s) = nn_flag s
       \<and> (i \<notin> fst ` set pending \<longrightarrow> untouched s i \<longrightarrow> untouched (fold buffer_upsert pending s) i)"
  using assms
proof (induction pending arbitrary: s)
  case (Cons p pending)
  obtain k r where p: "p = (k, r)" by (cases p)
  have "map_of (nn_unsaved_upserts s) k = None \<or> k \<notin> nn_pending_deletes s"
    using Cons.prems(1) by (auto simp: nano_wf_def dest!: map_of_SomeD)
  then have "nano_wf (buffer_upsert p s)" using Cons.prems p by (auto intro: buffer_upsert_wf)
  from Cons.IH [OF this] Cons.prems(2) p show ?case
    by (auto simp: buffer_upsert_def untouched_def)
qed simp

lemma upsert_effect:
  assumes "current_outside db N s w" "nano_upsert env now_s now_ns seq data s = (s', seq')"
  shows "op_effect db env (N \<union> fst ` set data) s w s' w"
proof (cases "data = []")
  case True
  then have "s' = s" using assms(2) by (simp add: nano_upsert_def)
  then show ?thesis using assms(1) by (intro buffers_effect [of db N]) (auto simp: current_outside_def)
next
  case False
  obtain ws l where n: "next_write_seq now_ns seq = (ws, l)" by (cases "next_write_seq now_ns seq")
  let ?p = "map (\<lambda>(k, v). (k, pending_record env now_s ws k v)) data"
  have s': "s' = fold buffer_upsert ?p s"
    using assms(2) False n by (simp add: nano_upsert_def)
  have wf: "nano_wf s" using assms(1) by (simp add: current_outside_def)
  have p: "\<forall>(k, r) \<in> set ?p. row_id r = k" by (auto simp: pending_record_def)
  have k: "fst ` set ?p = fst ` set data" by force
  show ?thesis
    using fold_buffer_upsert [OF wf p] unfolding s' k
    by (intro buffers_effect [OF assms(1)]) blast+
qed

lemma buffer_delete_wf: "nano_wf s \<Longrightarrow> nano_wf (buffer_delete i s)"
  unfolding nano_wf_def buffer_delete_def by (auto simp: od_del_mem)

lemma fold_buffer_delete:
  "nano_wf s \<Longrightarrow> nano_wf (fold buffer_delete ids s)
       \<and> nn_client (fold buffer_delete ids s) = nn_client s
       \<and> nn_flag (fold buffer_delete ids s) = nn_flag s
       \<and> (i \<notin> set ids \<longrightarrow> untouched s i \<longrightarrow> untouched (fold buffer_delete ids s) i)"
proof (induction ids arbitrary: s)
  case (Cons k ids)
  from Cons.IH [OF buffer_delete_wf [OF Cons.prems, of k]] show ?case
    by (auto simp: buffer_delete_def untouched_def)
qed simp

lemma delete_effect:
  assumes "current_outside db N s w"
  shows "op_effect db env (N \<union> set ids) s w (nano_delete ids s) w"
proof -
  have wf: "nano_wf s" using assms by (simp add: current_outside_def)
  show ?thesis
    using fold_buffer_delete [OF wf] unfolding nano_delete_def
    by (intro buffers_effect [OF assms]) blast+
qed

lemma drop_pending_effect:
  assumes "current_outside db N s w"
  shows "op_effect db env N s w (drop_pending_index_ops s) w"
  using assms
  by (intro buffers_effect [OF assms])
    (auto simp: drop_pending_index_ops_def current_outside_def nano_wf_def untouched_def)

lemma effect_after_reload:
  assumes "current_outside db M s' w1" "nn_flag s' = nn_flag s" "sh_file w1 = sh_file w"
    "sh_flags w1 = sh_flags w \<or> sh_flags w1 = set_flag_value (sh_flags w) (nn_flag s) False"
  shows "op_effect db env M s w s' w1"
  using assms by (simp add: op_effect_def shared_step_def)

lemma current_mono: "current_outside db N s w \<Longrightarrow> N \<subseteq> M \<Longrightarrow> current_outside db M s w"
  by (auto simp: current_outside_def)

text \<open>A flush after the reload, whether it completes or not.\<close>

lemma flush_current:
  assumes laws: "nano_laws db" and cur: "current_outside db N s1 w1"
    and fresh: "\<not> flag_value (sh_flags w1) (nn_flag s1)"
    and fl: "flush_pending db env emb s1 = (s2, e)"
  shows "current_outside db N s2 w1"
proof -
  have wf: "nano_wf s1" using cur by (simp add: current_outside_def)
  show ?thesis
    using cur fresh flush_untouched [OF laws wf fl] unfolding current_outside_def by auto
qed

lemma save_effect:
  assumes laws: "nano_laws db" and cur: "current_outside db N s2 w1"
    and h: "flag_held (sh_flags w1) (nn_flag s2)" and ns: "fst (nn_flag s2) = ne_namespace env"
    and fl: "nn_flag s2 = nn_flag s" and w1: "sh_file w1 = sh_file w"
      "sh_flags w1 = sh_flags w \<or> sh_flags w1 = set_flag_value (sh_flags w) (nn_flag s) False"
    and sv: "save_to_disk db env ok s2 w1 = (s', w', e)"
  shows "op_effect db env N s w s' w'"
proof (cases ok)
  case False
  then show ?thesis using sv cur fl w1 by (simp add: save_to_disk_def effect_after_reload)
next
  case True
  obtain reg where reg: "set_all_update_flags (sh_flags w1) (ne_namespace env) = Inr reg"
    using uf.announce_total [OF h] ns by auto
  then have eff: "save_to_disk db env True s2 w1 = (s', w', None)"
    using sv True by (auto simp: save_to_disk_def)
  note se = save_ok_effect [OF laws eff]
  have flags: "sh_flags w' = set_flag_value reg (nn_flag s) False" using se(9) reg fl by auto
  have "current_outside db N s' w'"
    using cur se unfolding current_outside_def nano_wf_def untouched_def by auto
  moreover have "shared_step env (nn_flag s) w w'"
    using w1(2) reg flags unfolding shared_step_def by auto
  ultimately show ?thesis using se(8) fl by (simp add: op_effect_def)
qed

lemma commit_op_effect:
  assumes laws: "nano_laws db" and cur: "current_outside db N s w"
    and h: "flag_held (sh_flags w) (nn_flag s)" "fst (nn_flag s) = ne_namespace env"
    and c: "index_done_callback db env emb ok s w = (s', w', e)"
  shows "op_effect db env N s w s' w'"
proof -
  obtain s1 w1 b where r: "reload_client db s w = (s1, w1, b)" by (cases "reload_client db s w") auto
  note re = reload_current [OF cur h(1) r]
  have h1: "flag_held (sh_flags w1) (nn_flag s1)" using re h by (auto simp: uf.held_assign)
  obtain s2 x where fl: "flush_pending db env emb s1 = (s2, x)" by (cases "flush_pending db env emb s1")
  have wf1: "nano_wf s1" using re(1) by (simp add: current_outside_def)
  have c2: "current_outside db N s2 w1" by (rule flush_current [OF laws re(1,2) fl])
  have f2: "nn_flag s2 = nn_flag s" using flush_untouched [OF laws wf1 fl] re(4) by simp
  show ?thesis
  proof (cases x)
    case (Some y)
    then have "s' = s2" "w' = w1" using c r fl by (auto simp: index_done_callback_def)
    then show ?thesis using effect_after_reload [OF c2 f2 re(3,5)] by simp
  next
    case None
    then have "save_to_disk db env ok s2 w1 = (s', w', e)"
      using c r fl by (simp add: index_done_callback_def)
    then show ?thesis using h h1 f2 re by (intro save_effect [OF laws c2]) auto
  qed
qed

lemma finalize_op_effect:
  assumes laws: "nano_laws db" and cur: "current_outside db N s w"
    and h: "flag_held (sh_flags w) (nn_flag s)" "fst (nn_flag s) = ne_namespace env"
    and c: "nano_finalize db env emb ok s w = (s', w', e)"
  shows "op_effect db env N s w s' w'"
proof (cases "nn_pending_upserts s = [] \<and> nn_pending_deletes s = {} \<and> nn_unsaved_deletes s = []
         \<and> nn_unsaved_upserts s = [] \<and> \<not> nn_client_dirty s")
  case True
  then have "s' = s" "w' = w" using c by (auto simp: nano_finalize_def)
  then show ?thesis using cur by (simp add: op_effect_def shared_step_refl)
next
  case False
  obtain s0 w1 b where r: "reload_client db s w = (s0, w1, b)" by (cases "reload_client db s w") auto
  define s1 where "s1 = (if b then s0\<lparr>nn_client_dirty := False\<rparr> else s0)"
  note re = reload_current [OF cur h(1) r]
  have re1: "current_outside db N s1 w1" "\<not> flag_value (sh_flags w1) (nn_flag s1)" "nn_flag s1 = nn_flag s"
    using re by (auto simp: s1_def current_outside_def nano_wf_def untouched_def)
  have h1: "flag_held (sh_flags w1) (nn_flag s1)" using re re1 h by (auto simp: uf.held_assign)
  obtain s2 x where fl: "flush_pending db env emb s1 = (s2, x)" by (cases "flush_pending db env emb s1")
  have wf1: "nano_wf s1" using re1(1) by (simp add: current_outside_def)
  have c2: "current_outside db N s2 w1" by (rule flush_current [OF laws re1(1,2) fl])
  have f2: "nn_flag s2 = nn_flag s" using flush_untouched [OF laws wf1 fl] re1(3) by simp
  have run: "(case (s2, x) of (s3, Some e) \<Rightarrow> (s3, w1, Some e)
         | (s3, None) \<Rightarrow> if \<not> nn_client_dirty s3 then (s3, w1, None)
                          else save_to_disk db env ok s3 w1) = (s', w', e)"
    using c False r fl unfolding nano_finalize_def s1_def by auto
  show ?thesis
  proof (cases "x = None \<and> nn_client_dirty s2")
    case False
    then have "s' = s2" "w' = w1" using run by (auto split: option.splits)
    then show ?thesis using effect_after_reload [OF c2 f2 re(3,5)] by simp
  next
    case True
    then have "save_to_disk db env ok s2 w1 = (s', w', e)" using run by simp
    then show ?thesis using h h1 f2 re re1 by (intro save_effect [OF laws c2]) auto
  qed
qed

lemma drop_op_effect:
  assumes laws: "nano_laws db" and cur: "current_outside db N s w"
    and h: "flag_held (sh_flags w) (nn_flag s)" "fst (nn_flag s) = ne_namespace env"
    and c: "nano_drop db env ok s w = (s', w', e)"
  shows "op_effect db env N s w s' w'"
proof -
  obtain reg where reg: "set_all_update_flags (sh_flags w) (ne_namespace env) = Inr reg"
    using uf.announce_total [OF h(1)] h(2) by auto
  let ?s1 = "s\<lparr>nn_pending_upserts := [], nn_pending_deletes := {}, nn_unsaved_deletes := [],
               nn_unsaved_upserts := []\<rparr>"
  show ?thesis
  proof (cases "sh_file w \<noteq> None \<and> \<not> ok")
    case True
    then have "s' = ?s1" "w' = w" using c by (auto simp: nano_drop_def)
    then show ?thesis using cur
      by (auto simp: op_effect_def current_outside_def nano_wf_def untouched_def shared_step_refl)
  next
    case False
    then have s': "s' = ?s1\<lparr>nn_client := nd_open db None, nn_client_dirty := False\<rparr>"
      and w': "w' = w\<lparr>sh_file := None, sh_flags := set_flag_value reg (nn_flag s) False\<rparr>"
      using c reg by (auto simp: nano_drop_def Let_def)
    have "current_outside db N s' w'"
      by (simp add: s' w' current_outside_def nano_wf_def untouched_def file_rows_def)
    moreover have "shared_step env (nn_flag s) w w'" using reg by (auto simp: shared_step_def w')
    ultimately show ?thesis by (simp add: op_effect_def s')
  qed
qed

text \<open>A removal from the reloaded client, with the removed ids named.\<close>

lemma removal_current:
  assumes laws: "nano_laws db" and cur: "current_outside db N s1 w1" and sub: "N \<union> set ids \<subseteq> M"
    and wf: "nano_wf s2" and client: "nn_client s2 = nn_client s1 \<or> nn_client s2 = nd_delete db (nn_client s1) ids"
    and flag: "nn_flag s2 = nn_flag s1" and u: "\<And>i. i \<notin> M \<Longrightarrow> untouched s1 i \<Longrightarrow> untouched s2 i"
  shows "current_outside db M s2 w1"
proof -
  have "resident db (nn_client s2) i = resident db (nn_client s1) i" if "i \<notin> M" for i
    using client nano_laws_delete [OF laws] that sub by (auto simp: restrict_map_def)
  then show ?thesis using cur wf flag u sub unfolding current_outside_def by auto
qed

lemma delete_entity_effect:
  assumes laws: "nano_laws db" and cur: "current_outside db N s w"
    and h: "flag_held (sh_flags w) (nn_flag s)"
    and c: "delete_entity db env n s w = (s', w')"
  shows "op_effect db env (N \<union> {compute_mdhash_id (ne_md5 env) n ''ent-''}) s w s' w'"
proof -
  obtain s1 w1 b where r: "reload_client db s w = (s1, w1, b)" by (cases "reload_client db s w") auto
  note re = reload_current [OF cur h r]
  let ?i = "compute_mdhash_id (ne_md5 env) n ''ent-''"
  define s2 where "s2 = (case nd_get db (nn_client s1) [?i] of
                  [] \<Rightarrow> s1
                | dp # _ \<Rightarrow> s1\<lparr>nn_client := nd_delete db (nn_client s1) [?i],
                              nn_pending_deletes := nn_pending_deletes s1 - {?i},
                              nn_unsaved_deletes :=
                                od_set ?i (row_fingerprint env dp) (nn_unsaved_deletes s1),
                              nn_client_dirty := True\<rparr>)"
  have s': "s' = s2\<lparr>nn_pending_upserts := od_del ?i (nn_pending_upserts s2),
             nn_unsaved_upserts := od_del ?i (nn_unsaved_upserts s2)\<rparr>" and w': "w' = w1"
    using c r unfolding delete_entity_def s2_def by (auto simp: Let_def)
  have wf1: "nano_wf s1" using re(1) by (simp add: current_outside_def)
  have wf2: "nano_wf s'" using wf1 unfolding s' s2_def nano_wf_def
    by (auto simp: od_del_mem split: list.split)
  have "current_outside db (N \<union> {?i}) s' w1"
    using wf2 unfolding s' s2_def
    by (intro removal_current [OF laws re(1), of "[?i]"]) (auto simp: untouched_def split: list.split)
  moreover have "nn_flag s' = nn_flag s" using re(4) by (simp add: s' s2_def split: list.split)
  ultimately show ?thesis unfolding w' using re(3,5) by (rule effect_after_reload)
qed

lemma od_filter_none: "map_of d i = None \<Longrightarrow> map_of (filter P d) i = None"
  by (induction d) (auto split: if_splits)

lemma fold_log_untouched:
  "i \<notin> fst ` set kvs \<Longrightarrow> map_of (fold (\<lambda>(i, f). od_set i f) kvs d) i = map_of d i"
  by (induction kvs arbitrary: d) auto

lemma delete_relation_effect:
  assumes laws: "nano_laws db" and cur: "current_outside db N s w"
    and h: "flag_held (sh_flags w) (nn_flag s)"
    and c: "delete_entity_relation db env n s w = (s', w')"
  shows "op_effect db env (N \<union> {i. \<exists>r. base_rows db s w i = Some r \<and> incident n r}) s w s' w'"
proof -
  obtain s1 w1 b where r: "reload_client db s w = (s1, w1, b)" by (cases "reload_client db s w") auto
  note re = reload_current [OF cur h r]
  let ?rows = "map (\<lambda>dp. (row_id dp, row_fingerprint env dp))
                 (filter (incident n) (nd_data db (nn_client s1)))"
  let ?M = "N \<union> {i. \<exists>r. base_rows db s w i = Some r \<and> incident n r}"
  have ids: "i \<in> fst ` set ?rows \<longleftrightarrow> (\<exists>r. base_rows db s w i = Some r \<and> incident n r)" for i
    using resident_iff [OF laws, of "nn_client s1" i] reload_client_effect(1) [OF r]
    by (force simp: image_image)
  define s2 where "s2 = (if map fst ?rows = [] then s1
                else s1\<lparr>nn_client := nd_delete db (nn_client s1) (map fst ?rows),
                        nn_pending_deletes := nn_pending_deletes s1 - set (map fst ?rows),
                        nn_unsaved_deletes := fold (\<lambda>(i, f). od_set i f) ?rows (nn_unsaved_deletes s1),
                        nn_client_dirty := True\<rparr>)"
  let ?stays = "\<lambda>(i, d). \<not> incident n (pd_record d)"
  have s': "s' = s2\<lparr>nn_pending_upserts := filter ?stays (nn_pending_upserts s2),
             nn_unsaved_upserts := filter ?stays (nn_unsaved_upserts s2)\<rparr>" and w': "w' = w1"
    using c r unfolding delete_entity_relation_def s2_def by (auto simp: Let_def)
  have wf1: "nano_wf s1" using re(1) by (simp add: current_outside_def)
  have wf2: "nano_wf s'" using wf1 unfolding s' s2_def nano_wf_def
    by (auto intro: od_wf_filter)
  have "untouched s' i" if "i \<notin> ?M" "untouched s1 i" for i
    using that ids [of i] fold_log_untouched [of i ?rows] od_filter_none [of _ i]
    unfolding s' s2_def untouched_def by auto
  moreover have "set (map fst ?rows) \<subseteq> ?M" using ids by (simp only: set_map) blast
  ultimately have "current_outside db ?M s' w1"
    using wf2 unfolding w'
    by (intro removal_current [OF laws re(1), of "map fst ?rows"]) (auto simp: s' s2_def)
  moreover have "nn_flag s' = nn_flag s" using re(4) by (simp add: s' s2_def)
  ultimately show ?thesis unfolding w' using re(3,5) by (rule effect_after_reload)
qed

lemma get_by_id_effect:
  assumes "current_outside db N s w" "flag_held (sh_flags w) (nn_flag s)"
    and "get_by_id db env i s w = (s', w', a)"
  shows "op_effect db env N s w s' w'"
proof -
  obtain s1 w1 b where r: "reload_client db s w = (s1, w1, b)" by (cases "reload_client db s w") auto
  note re = reload_current [OF assms(1,2) r]
  have "s' = s \<and> w' = w \<or> s' = s1 \<and> w' = w1"
    using assms(3) r by (auto simp: get_by_id_def Let_def split: if_splits)
  then show ?thesis
    using effect_after_reload [OF re(1,4,3,5)] assms(1) by (auto simp: op_effect_def shared_step_refl)
qed

lemma get_by_ids_effect:
  assumes "current_outside db N s w" "flag_held (sh_flags w) (nn_flag s)"
    and "get_by_ids db env ids s w = (s', w', a)"
  shows "op_effect db env N s w s' w'"
proof -
  obtain s1 w1 b where r: "reload_client db s w = (s1, w1, b)" by (cases "reload_client db s w") auto
  note re = reload_current [OF assms(1,2) r]
  have "s' = s \<and> w' = w \<or> s' = s1 \<and> w' = w1"
    using assms(3) r by (auto simp: get_by_ids_def Let_def split: if_splits)
  then show ?thesis
    using effect_after_reload [OF re(1,4,3,5)] assms(1) by (auto simp: op_effect_def shared_step_refl)
qed

text \<open>Caching vectors changes no record and no key of the pending buffer.\<close>

lemma assign_vectors_mem:
  "(i, d') \<in> set (assign_vectors vs docs) \<Longrightarrow> \<exists>d. (i, d) \<in> set docs \<and> pd_record d' = pd_record d"
  by (auto simp: assign_vectors_def split: option.split)

lemma cache_vectors_effect:
  assumes cur: "current_outside db N s w" and c: "cache_vectors env emb ids s = Inr s1"
  shows "current_outside db N s1 w \<and> nn_flag s1 = nn_flag s \<and> nn_client s1 = nn_client s"
proof -
  obtain vs where s1: "s1 = s \<or> s1 = s\<lparr>nn_pending_upserts := assign_vectors vs (nn_pending_upserts s)\<rparr>"
    using c by (auto simp: cache_vectors_def Let_def split: if_splits sum.splits)
  have "nano_wf (s\<lparr>nn_pending_upserts := assign_vectors vs (nn_pending_upserts s)\<rparr>)"
    if "nano_wf s"
    using that unfolding nano_wf_def
    by (auto simp: od_wf_def dest!: assign_vectors_mem)
  moreover have "map_of (assign_vectors vs (nn_pending_upserts s)) i = None
      \<longleftrightarrow> map_of (nn_pending_upserts s) i = None" for i
    by (simp add: assign_vectors_lookup)
  ultimately show ?thesis using s1 cur by (auto simp: current_outside_def untouched_def)
qed

lemma get_vectors_effect:
  assumes cur: "current_outside db N s w" and h: "flag_held (sh_flags w) (nn_flag s)"
    and c: "get_vectors_by_ids db env emb ids s w = (s', w', a)"
  shows "op_effect db env N s w s' w'"
proof (cases "cache_vectors env emb ids s")
  case (Inl e)
  then have "s' = s \<and> w' = w" using c by (simp add: get_vectors_by_ids_def)
  then show ?thesis using cur by (simp add: op_effect_def shared_step_refl)
next
  case (Inr s1)
  note k = cache_vectors_effect [OF cur Inr]
  then have k1: "current_outside db N s1 w" and k2: "nn_flag s1 = nn_flag s" by auto
  obtain s2 w2 b where r: "reload_client db s1 w = (s2, w2, b)" by (cases "reload_client db s1 w") auto
  have "flag_held (sh_flags w) (nn_flag s1)" using h k2 by simp
  note re = reload_current [OF k1 this r]
  have "s' = s1 \<and> w' = w \<or> s' = s2 \<and> w' = w2"
    using c r Inr by (auto simp: get_vectors_by_ids_def Let_def split: if_splits)
  then show ?thesis
    using re k1 k2 effect_after_reload [of db N s2 w2 s w env]
    by (auto simp: op_effect_def shared_step_refl)
qed

lemma exec_effect:
  assumes "nano_laws db" "current_outside db N s w" "flag_held (sh_flags w) (nn_flag s)"
    and "fst (nn_flag s) = ne_namespace env" "nano_exec db env op seq s w = (seq', s', w')"
  shows "op_effect db env (N \<union> op_names db env op s w) s w s' w'"
proof (cases op)
  case (Op_upsert a b data)
  then show ?thesis using assms upsert_effect [OF assms(2)]
    by (auto simp: nano_exec_def op_names_def split: prod.splits)
next
  case (Op_delete ids)
  then show ?thesis using assms delete_effect [OF assms(2)] by (auto simp: nano_exec_def op_names_def)
next
  case (Op_delete_entity n)
  then show ?thesis using assms delete_entity_effect [OF assms(1-3)]
    by (auto simp: nano_exec_def op_names_def)
next
  case (Op_delete_entity_relation n)
  then show ?thesis using assms delete_relation_effect [OF assms(1-3)]
    by (auto simp: nano_exec_def op_names_def)
next
  case Op_drop_pending
  then show ?thesis using assms drop_pending_effect [OF assms(2)]
    by (auto simp: nano_exec_def op_names_def)
next
  case (Op_commit emb ok)
  then show ?thesis using assms commit_op_effect [OF assms(1-4)]
    by (auto simp: nano_exec_def op_names_def split: prod.splits)
next
  case (Op_finalize emb ok)
  then show ?thesis using assms finalize_op_effect [OF assms(1-4)]
    by (auto simp: nano_exec_def op_names_def split: prod.splits)
next
  case (Op_drop ok)
  then show ?thesis using assms drop_op_effect [OF assms(1-4)]
    by (auto simp: nano_exec_def op_names_def split: prod.splits)
next
  case (Op_get_by_id i)
  then show ?thesis using assms get_by_id_effect [OF assms(2,3)]
    by (auto simp: nano_exec_def op_names_def split: prod.splits)
next
  case (Op_get_by_ids ids)
  then show ?thesis using assms get_by_ids_effect [OF assms(2,3)]
    by (auto simp: nano_exec_def op_names_def split: prod.splits)
next
  case (Op_get_vectors emb ids)
  then show ?thesis using assms get_vectors_effect [OF assms(2,3)]
    by (auto simp: nano_exec_def op_names_def split: prod.splits)
qed

section \<open>The world\<close>

record ('c, 'j, 'v, 'f) nano_world =
  nw_shared :: "'j nano_shared"
  nw_loaded :: "nat \<Rightarrow> ('c, 'v, 'f) nano option"
  nw_store :: "nat \<Rightarrow> ('c, 'v, 'f) nano option"
  nw_seq :: "nat \<Rightarrow> int"

text \<open>
  \<open>nano_reach db env W N\<close>: the world \<open>W\<close> is reachable. A process opens the storage in two steps, as the code
  does: \<open>__post_init__\<close> loads the file, \<open>initialize\<close> registers the update flag, and other processes may run
  between the two. \<open>N p\<close> holds the ids for which the process answers itself: the ids whose row in the file,
  when the flag was registered, was no longer the one it had loaded, and the ids it has named since. A
  process that dies, at either stage, leaves its flag behind.
\<close>

definition stale_ids ::
    "('c, 'j, 'v) nano_db \<Rightarrow> ('c, 'v, 'f) nano \<Rightarrow> 'j nano_shared \<Rightarrow> string set" where
  "stale_ids db s w = {i. resident db (nn_client s) i \<noteq> file_rows db w i}"

inductive nano_reach ::
    "('c, 'j, 'v) nano_db \<Rightarrow> ('v, 'f) nano_env \<Rightarrow> ('c, 'j, 'v, 'f) nano_world \<Rightarrow> (nat \<Rightarrow> string set) \<Rightarrow> bool"
  for db env where
  nano_boot: "nano_reach db env
     \<lparr>nw_shared = \<lparr>sh_file = f, sh_flags = []\<rparr>, nw_loaded = (\<lambda>_. None), nw_store = (\<lambda>_. None),
      nw_seq = (\<lambda>_. 0)\<rparr> (\<lambda>_. {})"
| nano_load: "nano_reach db env W N \<Longrightarrow> nw_store W p = None \<Longrightarrow> nw_loaded W p = None
     \<Longrightarrow> nano_reach db env (W\<lparr>nw_loaded := (nw_loaded W)(p \<mapsto> nano_post_init db (nw_shared W))\<rparr>) N"
| nano_register: "nano_reach db env W N \<Longrightarrow> nw_loaded W p = Some s0
     \<Longrightarrow> nano_initialize env s0 (nw_shared W) = (s, w)
     \<Longrightarrow> nano_reach db env
          (W\<lparr>nw_shared := w, nw_loaded := (nw_loaded W)(p := None), nw_store := (nw_store W)(p \<mapsto> s)\<rparr>)
          (N(p := stale_ids db s0 (nw_shared W)))"
| nano_call: "nano_reach db env W N \<Longrightarrow> nw_store W p = Some s
     \<Longrightarrow> nano_exec db env op (nw_seq W p) s (nw_shared W) = (seq', s', w')
     \<Longrightarrow> nano_reach db env
          (W\<lparr>nw_shared := w', nw_store := (nw_store W)(p \<mapsto> s'), nw_seq := (nw_seq W)(p := seq')\<rparr>)
          (N(p := N p \<union> op_names db env op s (nw_shared W)))"
| nano_die: "nano_reach db env W N
     \<Longrightarrow> nano_reach db env
          (W\<lparr>nw_loaded := (nw_loaded W)(p := None), nw_store := (nw_store W)(p := None)\<rparr>) N"

definition nano_inv ::
    "('c, 'j, 'v) nano_db \<Rightarrow> ('v, 'f) nano_env \<Rightarrow> ('c, 'j, 'v, 'f) nano_world \<Rightarrow> (nat \<Rightarrow> string set) \<Rightarrow> bool" where
  "nano_inv db env W N \<longleftrightarrow>
     (\<forall>p s. nw_store W p = Some s \<longrightarrow>
        current_outside db (N p) s (nw_shared W)
        \<and> flag_held (sh_flags (nw_shared W)) (nn_flag s) \<and> fst (nn_flag s) = ne_namespace env) \<and>
     (\<forall>p q s t. nw_store W p = Some s \<longrightarrow> nw_store W q = Some t \<longrightarrow> p \<noteq> q \<longrightarrow> nn_flag s \<noteq> nn_flag t) \<and>
     (\<forall>p s. nw_loaded W p = Some s \<longrightarrow> nw_store W p = None \<and> (\<exists>w. s = nano_post_init db w))"

text \<open>A step of one process leaves the invariant of another one intact.\<close>

lemma others_current:
  assumes "op_effect db env M s w s' w'" "flag_held (sh_flags w) (nn_flag s)"
    and "current_outside db N t w" "flag_held (sh_flags w) (nn_flag t)" "nn_flag t \<noteq> nn_flag s"
    and "fst (nn_flag t) = ne_namespace env"
  shows "current_outside db N t w' \<and> flag_held (sh_flags w') (nn_flag t)"
proof -
  have st: "shared_step env (nn_flag s) w w'" using assms(1) by (simp add: op_effect_def)
  have "sh_file w' = sh_file w \<and> \<not> flag_value (sh_flags w) (nn_flag t)"
    if "\<not> flag_value (sh_flags w') (nn_flag t)"
    using shared_step_others [OF st assms(2,4,5,6) that] .
  then show ?thesis
    using assms(3,4) shared_step_held [OF st] unfolding current_outside_def file_rows_def by auto
qed

lemma nano_reach_inv:
  assumes laws: "nano_laws db"
  shows "nano_reach db env W N \<Longrightarrow> nano_inv db env W N"
proof (induction rule: nano_reach.induct)
  case (nano_boot f)
  show ?case by (simp add: nano_inv_def)
next
  case (nano_load W N p)
  then show ?case by (auto simp: nano_inv_def)
next
  case (nano_register W N p s0 s w)
  let ?w = "nw_shared W"
  obtain reg h where g: "get_update_flag (sh_flags ?w) (ne_namespace env) = (reg, h)"
    by (cases "get_update_flag (sh_flags ?w) (ne_namespace env)")
  have s: "s = s0\<lparr>nn_flag := h\<rparr>" and w: "w = ?w\<lparr>sh_flags := reg\<rparr>"
    using nano_register.hyps(3) g by (auto simp: nano_initialize_def)
  obtain w0 where s0: "s0 = nano_post_init db w0" and none: "nw_store W p = None"
    using nano_register.IH nano_register.hyps(2) unfolding nano_inv_def by blast
  note new = uf.register_new [OF g]
  note old = uf.register_old [OF g]
  have own: "current_outside db (stale_ids db s0 ?w) s w \<and> flag_held (sh_flags w) (nn_flag s)
      \<and> fst (nn_flag s) = ne_namespace env"
    using new by (simp add: s w s0 nano_post_init_def current_outside_def nano_wf_def untouched_def
        file_rows_def stale_ids_def)
  have oth: "current_outside db (N q) t w \<and> flag_held (sh_flags w) (nn_flag t)
      \<and> fst (nn_flag t) = ne_namespace env \<and> nn_flag t \<noteq> h" if "nw_store W q = Some t" for q t
  proof -
    have i: "current_outside db (N q) t ?w" "flag_held (sh_flags ?w) (nn_flag t)"
      "fst (nn_flag t) = ne_namespace env"
      using nano_register.IH that by (auto simp: nano_inv_def)
    then show ?thesis using old [OF i(2)] new by (auto simp: w current_outside_def file_rows_def)
  qed
  show ?case
    using own oth nano_register.IH none s
    unfolding nano_inv_def by (auto split: if_splits)
next
  case (nano_call W N p s op seq' s' w')
  let ?w = "nw_shared W"
  have i: "current_outside db (N p) s ?w" "flag_held (sh_flags ?w) (nn_flag s)"
    "fst (nn_flag s) = ne_namespace env"
    using nano_call.IH nano_call.hyps(2) by (auto simp: nano_inv_def)
  note e = exec_effect [OF laws i nano_call.hyps(3)]
  have own: "current_outside db (N p \<union> op_names db env op s ?w) s' w'" "nn_flag s' = nn_flag s"
    "flag_held (sh_flags w') (nn_flag s')"
    using e i shared_step_held [of env "nn_flag s" ?w w'] by (auto simp: op_effect_def)
  have oth: "current_outside db (N q) t w' \<and> flag_held (sh_flags w') (nn_flag t)
      \<and> fst (nn_flag t) = ne_namespace env \<and> nn_flag t \<noteq> nn_flag s"
    if "nw_store W q = Some t" "q \<noteq> p" for q t
  proof -
    have j: "current_outside db (N q) t ?w" "flag_held (sh_flags ?w) (nn_flag t)"
      "nn_flag t \<noteq> nn_flag s" "fst (nn_flag t) = ne_namespace env"
      using nano_call.IH nano_call.hyps(2) that unfolding nano_inv_def by blast+
    from others_current [OF e i(2) j] j show ?thesis by simp
  qed
  have loaded: "nw_loaded W p = None"
    using nano_call.IH nano_call.hyps(2) by (cases "nw_loaded W p") (auto simp: nano_inv_def)
  have dis: "nn_flag t \<noteq> nn_flag u" if "nw_store W q = Some t" "nw_store W r = Some u" "q \<noteq> r" for q r t u
    using nano_call.IH that unfolding nano_inv_def by blast
  show ?case
    unfolding nano_inv_def using own oth dis i(3) nano_call.IH loaded
    by (auto simp: nano_inv_def split: if_splits dest: not_sym)
next
  case (nano_die W N p)
  then show ?case unfolding nano_inv_def by (auto split: if_splits)
qed

text \<open>Saving a store whose client is current writes back the rows the store never named.\<close>

lemma save_keeps_row:
  assumes laws: "nano_laws db" and cur: "current_outside db N s w" and i: "i \<notin> N"
    and fresh: "\<not> flag_value (sh_flags w) (nn_flag s)"
    and sv: "save_to_disk db env ok s w = (s', w', e)"
  shows "file_rows db w' i = file_rows db w i"
proof -
  have "sh_file w' = sh_file w \<or> sh_file w' = Some (nd_dump db (nn_client s))"
    using sv by (auto simp: save_to_disk_def Let_def split: if_splits sum.splits)
  moreover have "resident db (nn_client s) i = file_rows db w i"
    using cur i fresh by (simp add: current_outside_def)
  ultimately show ?thesis using nano_laws_open(1) [OF laws] by (auto simp: file_rows_def)
qed

lemma commit_keeps_row:
  assumes laws: "nano_laws db" and cur: "current_outside db N s w" and i: "i \<notin> N"
    and h: "flag_held (sh_flags w) (nn_flag s)"
  shows "file_rows db (fst (snd (index_done_callback db env emb ok s w))) i = file_rows db w i"
    and "file_rows db (fst (snd (nano_finalize db env emb ok s w))) i = file_rows db w i"
proof -
  obtain s0 w1 b where r: "reload_client db s w = (s0, w1, b)" by (cases "reload_client db s w") auto
  note re = reload_current [OF cur h r]
  have w1: "file_rows db w1 i = file_rows db w i" using re(3) by (simp add: file_rows_def)
  have step: "file_rows db (fst (snd (save_to_disk db env ok s2 w1))) i = file_rows db w i"
    if fl: "flush_pending db env emb s1 = (s2, x)" and c: "current_outside db N s1 w1"
      "\<not> flag_value (sh_flags w1) (nn_flag s1)" for s1 s2 x
  proof -
    have c2: "current_outside db N s2 w1" by (rule flush_current [OF laws c fl])
    have "nn_flag s2 = nn_flag s1"
      using flush_untouched [OF laws _ fl] c(1) by (simp add: current_outside_def)
    then have f2: "\<not> flag_value (sh_flags w1) (nn_flag s2)" using c(2) by simp
    obtain s3 w3 e where sv: "save_to_disk db env ok s2 w1 = (s3, w3, e)"
      by (cases "save_to_disk db env ok s2 w1") auto
    show ?thesis using save_keeps_row [OF laws c2 i f2 sv] sv w1 by simp
  qed
  obtain s2 x where fl: "flush_pending db env emb s0 = (s2, x)" by (cases "flush_pending db env emb s0")
  show "file_rows db (fst (snd (index_done_callback db env emb ok s w))) i = file_rows db w i"
    using step [OF fl re(1,2)] w1 r fl
    by (cases x) (simp_all add: index_done_callback_def)
  define s1 where "s1 = (if b then s0\<lparr>nn_client_dirty := False\<rparr> else s0)"
  have c1: "current_outside db N s1 w1" "\<not> flag_value (sh_flags w1) (nn_flag s1)"
    using re by (auto simp: s1_def current_outside_def nano_wf_def untouched_def)
  obtain s4 y where fl4: "flush_pending db env emb s1 = (s4, y)" by (cases "flush_pending db env emb s1")
  have "nano_finalize db env emb ok s w = (s, w, None)
      \<or> nano_finalize db env emb ok s w = (s4, w1, y)
      \<or> nano_finalize db env emb ok s w = save_to_disk db env ok s4 w1"
    using r fl4 unfolding nano_finalize_def s1_def by (cases y) auto
  then show "file_rows db (fst (snd (nano_finalize db env emb ok s w))) i = file_rows db w i"
    using step [OF fl4 c1] w1 by auto
qed

lemma read_gives_file_row:
  assumes laws: "nano_laws db" and cur: "current_outside db N s w" and i: "i \<notin> N"
  shows "snd (snd (get_by_id db env i s w)) = map_option format_record (file_rows db w i)"
proof -
  obtain s1 w1 b where r: "reload_client db s w = (s1, w1, b)" by (cases "reload_client db s w") auto
  have u: "untouched s i" using cur i by (simp add: current_outside_def)
  have base: "(case nd_get db (nn_client s1) [i] of [] \<Rightarrow> None | r # _ \<Rightarrow> Some r) = file_rows db w i"
    using nano_laws_get1 [OF laws] reload_client_effect(1) [OF r] current_base [OF cur i] by metis
  show ?thesis
    using u r base
    by (simp add: get_by_id_def read_source_def untouched_def asks_client_def choose_row_def
        matches_redo_entry_def split: option.split)
qed

text \<open>C19. A commit never reverts what another process published: in every
  reachable world a commit or a finalize of a process, completed or failed, leaves in the file the
  row of every id that is not its own, and its read of such an id answers the file's row, however long ago
  it loaded its client. The ids that are its own are those it has named since it registered its update
  flag, and those whose row others changed between its load of the file and the registration: of such a
  change it is never told, and its next commit can revert it (\<open>stale_start\<close>).\<close>

theorem foreign_rows_survive:
  assumes laws: "nano_laws db" and reach: "nano_reach db env W N"
    and store: "nw_store W p = Some s" and i: "i \<notin> N p"
  shows "file_rows db (fst (snd (index_done_callback db env emb ok s (nw_shared W)))) i
           = file_rows db (nw_shared W) i
       \<and> file_rows db (fst (snd (nano_finalize db env emb ok s (nw_shared W)))) i
           = file_rows db (nw_shared W) i
       \<and> snd (snd (get_by_id db env i s (nw_shared W)))
           = map_option format_record (file_rows db (nw_shared W) i)"
proof -
  have "current_outside db (N p) s (nw_shared W)" "flag_held (sh_flags (nw_shared W)) (nn_flag s)"
    using nano_reach_inv [OF laws reach] store by (auto simp: nano_inv_def)
  then show ?thesis
    using commit_keeps_row [OF laws _ i] read_gives_file_row [OF laws _ i] by blast
qed


definition boot_world :: "(row list, row list, nat, row) nano_world" where
  "boot_world = \<lparr>nw_shared = \<lparr>sh_file = Some [run_row ''k'' 3], sh_flags = []\<rparr>,
     nw_loaded = (\<lambda>_. None), nw_store = (\<lambda>_. None), nw_seq = (\<lambda>_. 0)\<rparr>"

definition opened :: "(row list, nat, row) nano \<times> row list nano_shared" where
  "opened = nano_initialize run_env (nano_post_init run_db (nw_shared boot_world)) (nw_shared boot_world)"

definition one_world :: "(row list, row list, nat, row) nano_world" where
  "one_world = boot_world\<lparr>nw_shared := snd opened, nw_loaded := (\<lambda>_. None),
     nw_store := (nw_store boot_world)(0 \<mapsto> fst opened)\<rparr>"

lemma one_world_reach: "nano_reach run_db run_env one_world ((\<lambda>_. {})(0 := {}))"
proof -
  let ?s = "nano_post_init run_db (nw_shared boot_world) :: (row list, nat, row) nano"
  have "nano_reach run_db run_env boot_world (\<lambda>_. {})" unfolding boot_world_def by (rule nano_boot)
  then have "nano_reach run_db run_env (boot_world\<lparr>nw_loaded := (nw_loaded boot_world)(0 \<mapsto> ?s)\<rparr>) (\<lambda>_. {})"
    by (rule nano_load) (simp_all add: boot_world_def)
  from nano_register [OF this, of 0 ?s "fst opened" "snd opened"]
  have "nano_reach run_db run_env one_world ((\<lambda>_. {})(0 := stale_ids run_db ?s (nw_shared boot_world)))"
    by (simp add: one_world_def opened_def boot_world_def)
  moreover have "stale_ids run_db ?s (nw_shared boot_world) = {}"
    by (simp add: stale_ids_def nano_post_init_def file_rows_def)
  ultimately show ?thesis by simp
qed

theorem foreign_rows_survive_witness:
  "file_rows run_db (fst (snd (index_done_callback run_db run_env run_emb True (fst opened)
       (nw_shared one_world)))) ''k'' = file_rows run_db (nw_shared one_world) ''k''
   \<and> file_rows run_db (fst (snd (nano_finalize run_db run_env run_emb True (fst opened)
       (nw_shared one_world)))) ''k'' = file_rows run_db (nw_shared one_world) ''k''
   \<and> snd (snd (get_by_id run_db run_env ''k'' (fst opened) (nw_shared one_world)))
       = map_option format_record (file_rows run_db (nw_shared one_world) ''k'')"
  by (rule foreign_rows_survive [OF run_db_laws one_world_reach, where p = 0])
    (simp_all add: one_world_def)

section \<open>A publication between loading and registering\<close>

text \<open>
  \<open>__post_init__\<close> reads the file; the flag is registered later, by \<open>initialize\<close>, and starts lowered.
  A publication between the two is never announced to the new process: it serves, and its next
  commit writes back, the snapshot without the published row.
\<close>

definition late_start :: "(row list, nat, row) nano \<times> row list nano_shared" where
  "late_start =
     (let w0 = run_shared [run_row ''k'' 3] False;
          q = nano_post_init run_db w0;
          (p, w1, _) = index_done_callback run_db run_env run_emb True
                         (run_store [run_row ''k'' 3] [(''a'', run_doc ''a'' 5)] {}) w0
      in nano_initialize run_env q w1)"

lemma stale_start:
  "file_rows run_db (snd late_start) ''a'' \<noteq> None"
  "snd (snd (get_by_id run_db run_env ''a'' (fst late_start) (snd late_start))) = None"
  "file_rows run_db (fst (snd (index_done_callback run_db run_env run_emb True
       (fst late_start) (snd late_start)))) ''a'' = None"
  by code_simp+

end
