(* ===== verification/TaxonomyGraph.thy ===== *)
theory TaxonomyGraph
  imports Prelude "HOL-Library.List_Lexorder" "HOL-Library.Product_Lexorder"
begin

text \<open>
  The class hierarchy: src/ontorag/taxonomy/graph_loader.py loads parsed classes into a graph
  storage and walks from a class towards a root, src/ontorag/taxonomy/vocabulary.py counts the
  descendants of every class and picks the working vocabulary.

  The graph storage (\<open>BaseGraphStorage\<close>, with one implementation per backend) is the parameter
  \<open>graph_store\<close>; \<open>graph_laws\<close> states the part of its contract the code relies on: the graph is
  undirected, an upsert writes the attributes it is given and touches nothing else, and the edges of
  a node are listed once the node exists. IRIs and texts are lists of code points, whose
  lexicographic order is the order of Python's \<open>sorted\<close> on strings.
\<close>

section \<open>Classes and the graph storage\<close>

type_synonym iri = pystr

record yago_class =
  yc_iri :: iri
  yc_label :: pystr
  yc_comment :: pystr
  yc_parents :: "iri list"

datatype attr = AText pystr | AInt int | AReal rat

type_synonym attrs = "(string, attr) odict"

record 'g graph_store =
  gs_upsert_node :: "iri \<Rightarrow> attrs \<Rightarrow> 'g \<Rightarrow> 'g"
  gs_upsert_edge :: "iri \<Rightarrow> iri \<Rightarrow> attrs \<Rightarrow> 'g \<Rightarrow> 'g"
  gs_index_done :: "'g \<Rightarrow> 'g"
  gs_get_node :: "'g \<Rightarrow> iri \<Rightarrow> attrs option"
  gs_get_edge :: "'g \<Rightarrow> iri \<Rightarrow> iri \<Rightarrow> attrs option"
  gs_get_node_edges :: "'g \<Rightarrow> iri \<Rightarrow> (iri \<times> iri) list option"

text \<open>The other end of a listed edge, as the loops compute it.\<close>

definition other_end :: "iri \<Rightarrow> iri \<times> iri \<Rightarrow> iri" where
  "other_end i = (\<lambda>(src, tgt). if src = i then tgt else src)"

definition graph_laws :: "'g graph_store \<Rightarrow> bool" where
  "graph_laws S \<longleftrightarrow>
     (\<forall>g a b. gs_get_edge S g a b = gs_get_edge S g b a) \<and>
     (\<forall>g a. case gs_get_node_edges S g a of
        None \<Rightarrow> \<forall>b. gs_get_edge S g a b = None
      | Some es \<Rightarrow> other_end a ` set es = {b. gs_get_edge S g a b \<noteq> None}) \<and>
     (\<forall>g i d. gs_get_node S (gs_upsert_node S i d g) i \<noteq> None) \<and>
     (\<forall>g i d j. gs_get_node S g j \<noteq> None \<longrightarrow> gs_get_node S (gs_upsert_node S i d g) j \<noteq> None) \<and>
     (\<forall>g i d a b. gs_get_edge S (gs_upsert_node S i d g) a b = gs_get_edge S g a b) \<and>
     (\<forall>g s t d j. gs_get_node S g j \<noteq> None \<longrightarrow> gs_get_node S (gs_upsert_edge S s t d g) j \<noteq> None) \<and>
     (\<forall>g s t d. gs_get_node S g s \<noteq> None \<longrightarrow> gs_get_node S g t \<noteq> None \<longrightarrow>
        (\<exists>e. gs_get_edge S (gs_upsert_edge S s t d g) s t = Some e
           \<and> (\<forall>k v. map_of d k = Some v \<longrightarrow> map_of e k = Some v))) \<and>
     (\<forall>g s t d a b. {a, b} \<noteq> {s, t}
        \<longrightarrow> gs_get_edge S (gs_upsert_edge S s t d g) a b = gs_get_edge S g a b) \<and>
     (\<forall>g j. gs_get_node S (gs_index_done S g) j = gs_get_node S g j) \<and>
     (\<forall>g a b. gs_get_edge S (gs_index_done S g) a b = gs_get_edge S g a b)"

section \<open>Loading\<close>

definition SUBCLASS_OF_EDGE_TYPE :: pystr where
  "SUBCLASS_OF_EDGE_TYPE = lit ''subClassOf''"

definition class_attrs :: "int \<Rightarrow> yago_class \<Rightarrow> attrs" where
  "class_attrs now c =
     [(''entity_id'', AText (yc_iri c)), (''entity_type'', AText (lit ''YagoClass'')),
      (''label'', AText (yc_label c)), (''description'', AText (yc_comment c)),
      (''source_id'', AText (lit ''yago-taxonomy'')), (''file_path'', AText (lit ''yago-taxonomy'')),
      (''created_at'', AInt now)]"

definition subclass_attrs :: "int \<Rightarrow> yago_class \<Rightarrow> attrs" where
  "subclass_attrs now c =
     [(''relation_type'', AText SUBCLASS_OF_EDGE_TYPE), (''child_iri'', AText (yc_iri c)),
      (''description'', AText (yc_label c @ lit '' is a subclass of'')),
      (''keywords'', AText (lit ''subClassOf,taxonomy'')), (''weight'', AReal 1),
      (''source_id'', AText (lit ''yago-taxonomy'')), (''file_path'', AText (lit ''yago-taxonomy'')),
      (''created_at'', AInt now)]"

definition load_class :: "'g graph_store \<Rightarrow> int \<Rightarrow> yago_class \<Rightarrow> 'g \<Rightarrow> 'g" where
  "load_class S now c = gs_upsert_node S (yc_iri c) (class_attrs now c)"

definition load_parents :: "'g graph_store \<Rightarrow> int \<Rightarrow> yago_class \<Rightarrow> 'g \<Rightarrow> 'g" where
  "load_parents S now c =
     fold (\<lambda>parent. gs_upsert_edge S (yc_iri c) parent (subclass_attrs now c)) (yc_parents c)"

definition load_taxonomy_to_graph :: "'g graph_store \<Rightarrow> int \<Rightarrow> yago_class list \<Rightarrow> 'g \<Rightarrow> 'g" where
  "load_taxonomy_to_graph S now classes g =
     gs_index_done S (fold (load_parents S now) classes (fold (load_class S now) classes g))"

section \<open>Walking towards a root\<close>

text \<open>Whether an edge is a subclass statement about \<open>child\<close>, as both modules filter.\<close>

definition subclass_edge :: "iri \<Rightarrow> attrs option \<Rightarrow> bool" where
  "subclass_edge child edge =
     (case edge of None \<Rightarrow> False
      | Some e \<Rightarrow> map_of e ''relation_type'' = Some (AText SUBCLASS_OF_EDGE_TYPE)
                 \<and> map_of e ''child_iri'' = Some (AText child))"

definition node_edges :: "'g graph_store \<Rightarrow> 'g \<Rightarrow> iri \<Rightarrow> (iri \<times> iri) list" where
  "node_edges S g i = (case gs_get_node_edges S g i of None \<Rightarrow> [] | Some es \<Rightarrow> es)"

definition unvisited_parents :: "'g graph_store \<Rightarrow> 'g \<Rightarrow> iri \<Rightarrow> iri set \<Rightarrow> iri list" where
  "unvisited_parents S g current visited =
     filter (\<lambda>other. other \<notin> visited \<and> subclass_edge current (gs_get_edge S g current other))
       (map (other_end current) (node_edges S g current))"

text \<open>The loop, with the number of IRIs the path may still take.\<close>

fun walk_loop :: "'g graph_store \<Rightarrow> 'g \<Rightarrow> nat \<Rightarrow> iri \<Rightarrow> iri set \<Rightarrow> iri list" where
  "walk_loop S g 0 current visited = []"
| "walk_loop S g (Suc room) current visited =
     (let parents = unvisited_parents S g current visited
      in if parents = [] then []
         else (let next_parent = hd (sort parents)
               in next_parent # walk_loop S g room next_parent (insert next_parent visited)))"

definition walk_ancestors :: "'g graph_store \<Rightarrow> 'g \<Rightarrow> iri \<Rightarrow> int \<Rightarrow> iri list" where
  "walk_ancestors S g i max_depth =
     (case gs_get_node S g i of None \<Rightarrow> []
      | Some n \<Rightarrow> i # walk_loop S g (nat (max_depth - 1)) i {i})"

section \<open>Counting descendants\<close>

text \<open>\<open>children_of\<close>: a class is filed under each of its parents that is counted too.\<close>

definition add_children ::
    "'g graph_store \<Rightarrow> 'g \<Rightarrow> iri set \<Rightarrow> iri \<Rightarrow> (iri, iri list) odict \<Rightarrow> (iri, iri list) odict" where
  "add_children S g iri_set i children_of =
     fold (\<lambda>other ch.
         if subclass_edge i (gs_get_edge S g i other) \<and> other \<in> iri_set
         then (case map_of ch other of None \<Rightarrow> ch | Some cs \<Rightarrow> od_set other (cs @ [i]) ch)
         else ch)
       (map (other_end i) (node_edges S g i)) children_of"

definition children_table :: "'g graph_store \<Rightarrow> 'g \<Rightarrow> iri list \<Rightarrow> (iri, iri list) odict" where
  "children_table S g iris =
     fold (add_children S g (set iris)) iris (fold (\<lambda>i. od_set i []) iris [])"

definition children_at :: "(iri, iri list) odict \<Rightarrow> iri \<Rightarrow> iri list" where
  "children_at children_of i = (case map_of children_of i of None \<Rightarrow> [] | Some cs \<Rightarrow> cs)"

definition bfs_domain :: "(iri, iri list) odict \<Rightarrow> iri list \<Rightarrow> iri set" where
  "bfs_domain ch queue = set queue \<union> \<Union> (set ` snd ` set ch)"

lemma finite_bfs_domain [simp]: "finite (bfs_domain ch queue)"
  by (simp add: bfs_domain_def)

lemma children_at_domain: "set (children_at ch i) \<subseteq> \<Union> (set ` snd ` set ch)"
  by (cases "map_of ch i") (force simp: children_at_def dest: map_of_SomeD)+

text \<open>The breadth-first search: \<open>seen\<close> and the queue.\<close>

function bfs :: "(iri, iri list) odict \<Rightarrow> iri set \<Rightarrow> iri list \<Rightarrow> iri set" where
  "bfs ch seen [] = seen"
| "bfs ch seen (child # queue) =
     (if child \<in> seen then bfs ch seen queue
      else bfs ch (insert child seen) (queue @ children_at ch child))"
  by pat_completeness auto

termination
proof (relation "inv_image (finite_psubset <*lex*> measure length)
                   (\<lambda>(ch, seen, queue). (bfs_domain ch queue - seen, queue))", goal_cases)
  case 1
  show ?case by (auto intro: wf_finite_psubset)
next
  case (2 ch seen child queue)
  then have "bfs_domain ch queue - seen = bfs_domain ch (child # queue) - seen"
    by (auto simp: bfs_domain_def)
  then show ?case by simp
next
  case (3 ch seen child queue)
  have "bfs_domain ch (queue @ children_at ch child) - insert child seen
          \<subset> bfs_domain ch (child # queue) - seen"
    using 3 children_at_domain [of ch child] by (auto simp: bfs_domain_def)
  then show ?case by (simp add: finite_psubset_def)
qed

definition count_descendants :: "'g graph_store \<Rightarrow> 'g \<Rightarrow> iri list \<Rightarrow> (iri, nat) odict" where
  "count_descendants S g iris =
     (let ch = children_table S g iris
      in fold (\<lambda>i. od_set i (card (bfs ch {} (children_at ch i)))) iris [])"

section \<open>The working vocabulary\<close>

definition DEFAULT_EXCLUDED :: "iri set" where
  "DEFAULT_EXCLUDED = {lit ''http://schema.org/Thing''}"

definition select_working_vocabulary ::
    "'g graph_store \<Rightarrow> 'g \<Rightarrow> iri list \<Rightarrow> nat \<Rightarrow> iri list option \<Rightarrow> iri list" where
  "select_working_vocabulary S g iris target_size excluded_iris =
     (let excluded = DEFAULT_EXCLUDED \<union> set (case excluded_iris of None \<Rightarrow> [] | Some xs \<Rightarrow> xs);
          candidates = filter (\<lambda>i. i \<notin> excluded) iris;
          counts = count_descendants S g candidates;
          count = (\<lambda>i. case map_of counts i of None \<Rightarrow> 0 | Some n \<Rightarrow> n)
      in take target_size (sort_key (\<lambda>i. (- int (count i), i)) candidates))"


section \<open>The loaded graph is the parsed hierarchy\<close>

text \<open>The statements the parser found: \<open>parent_of classes x\<close> are the parents stated for \<open>x\<close>.\<close>

definition parent_of :: "yago_class list \<Rightarrow> iri \<Rightarrow> iri set" where
  "parent_of classes x = {p. \<exists>c \<in> set classes. yc_iri c = x \<and> p \<in> set (yc_parents c)}"

text \<open>Every parent is itself a class, and no two classes are parents of each other: an undirected
  graph keeps one edge for such a pair, so one of the two statements would be overwritten.\<close>

definition proper_hierarchy :: "yago_class list \<Rightarrow> bool" where
  "proper_hierarchy classes \<longleftrightarrow>
     (\<forall>x p. p \<in> parent_of classes x
        \<longrightarrow> p \<in> yc_iri ` set classes \<and> (p \<noteq> x \<longrightarrow> x \<notin> parent_of classes p))"

definition no_statements :: "'g graph_store \<Rightarrow> 'g \<Rightarrow> bool" where
  "no_statements S g \<longleftrightarrow> (\<forall>x y. \<not> subclass_edge x (gs_get_edge S g x y))"

lemmas graph_edge_sym = graph_laws_def [THEN iffD1, THEN conjunct1, rule_format]
lemmas graph_listed_edges = graph_laws_def [THEN iffD1, THEN conjunct2, THEN conjunct1, rule_format]
lemmas graph_upserted_node = graph_laws_def [THEN iffD1, THEN conjunct2, THEN conjunct2, THEN conjunct1, rule_format]
lemmas graph_upsert_node_keeps = graph_laws_def [THEN iffD1, THEN conjunct2, THEN conjunct2, THEN conjunct2, THEN conjunct1, rule_format]
lemmas graph_upsert_node_edges = graph_laws_def [THEN iffD1, THEN conjunct2, THEN conjunct2, THEN conjunct2, THEN conjunct2, THEN conjunct1, rule_format]
lemmas graph_upsert_edge_keeps = graph_laws_def [THEN iffD1, THEN conjunct2, THEN conjunct2, THEN conjunct2, THEN conjunct2, THEN conjunct2, THEN conjunct1, rule_format]
lemmas graph_upserted_edge = graph_laws_def [THEN iffD1, THEN conjunct2, THEN conjunct2, THEN conjunct2, THEN conjunct2, THEN conjunct2, THEN conjunct2, THEN conjunct1, rule_format]
lemmas graph_upsert_edge_others = graph_laws_def [THEN iffD1, THEN conjunct2, THEN conjunct2, THEN conjunct2, THEN conjunct2, THEN conjunct2, THEN conjunct2, THEN conjunct2, THEN conjunct1, rule_format]
lemmas graph_done_nodes = graph_laws_def [THEN iffD1, THEN conjunct2, THEN conjunct2, THEN conjunct2, THEN conjunct2, THEN conjunct2, THEN conjunct2, THEN conjunct2, THEN conjunct2, THEN conjunct1, rule_format]
lemmas graph_done_edges = graph_laws_def [THEN iffD1, THEN conjunct2, THEN conjunct2, THEN conjunct2, THEN conjunct2, THEN conjunct2, THEN conjunct2, THEN conjunct2, THEN conjunct2, THEN conjunct2, rule_format]

lemma node_edges_ends:
  assumes "graph_laws S"
  shows "set (map (other_end a) (node_edges S g a)) = {b. gs_get_edge S g a b \<noteq> None}"
  using graph_listed_edges [OF assms, of g a]
  by (cases "gs_get_node_edges S g a") (simp_all add: node_edges_def)

lemma load_classes_effect:
  assumes laws: "graph_laws S"
  shows "(\<forall>c \<in> set cs. gs_get_node S (fold (load_class S now) cs g) (yc_iri c) \<noteq> None)
       \<and> (\<forall>j. gs_get_node S g j \<noteq> None \<longrightarrow> gs_get_node S (fold (load_class S now) cs g) j \<noteq> None)
       \<and> (\<forall>a b. gs_get_edge S (fold (load_class S now) cs g) a b = gs_get_edge S g a b)"
proof (induction cs arbitrary: g)
  case (Cons c cs)
  show ?case
    using Cons.IH [of "load_class S now c g"] graph_upserted_node [OF laws]
      graph_upsert_node_keeps [OF laws] graph_upsert_node_edges [OF laws]
    by (simp add: load_class_def)
qed simp

text \<open>One statement: both ends are nodes, the opposite statement has not been made.\<close>

lemma statement_edge:
  assumes laws: "graph_laws S" and n: "gs_get_node S g (yc_iri c) \<noteq> None" "gs_get_node S g p \<noteq> None"
    and opp: "p \<noteq> yc_iri c \<Longrightarrow> \<not> subclass_edge p (gs_get_edge S g p (yc_iri c))"
  shows "subclass_edge x (gs_get_edge S (gs_upsert_edge S (yc_iri c) p (subclass_attrs now c) g) x y)
     \<longleftrightarrow> subclass_edge x (gs_get_edge S g x y) \<or> (x = yc_iri c \<and> y = p)"
proof (cases "{x, y} = {yc_iri c, p}")
  case False
  then show ?thesis using graph_upsert_edge_others [OF laws False, of "subclass_attrs now c" g] by auto
next
  case True
  let ?g = "gs_upsert_edge S (yc_iri c) p (subclass_attrs now c) g"
  obtain e where e: "gs_get_edge S ?g (yc_iri c) p = Some e"
    and a: "\<forall>k v. map_of (subclass_attrs now c) k = Some v \<longrightarrow> map_of e k = Some v"
    using graph_upserted_edge [OF laws n] by blast
  have k: "map_of e ''relation_type'' = Some (AText SUBCLASS_OF_EDGE_TYPE)"
    "map_of e ''child_iri'' = Some (AText (yc_iri c))"
    using a by (simp_all add: subclass_attrs_def)
  have xy: "gs_get_edge S ?g x y = Some e"
    using True e graph_edge_sym [OF laws, of ?g x y] by (auto simp: doubleton_eq_iff)
  have "subclass_edge x (Some e) \<longleftrightarrow> x = yc_iri c" using k by (auto simp: subclass_edge_def)
  then show ?thesis using True opp unfolding xy by (auto simp: doubleton_eq_iff)
qed

lemma load_parents_effect:
  assumes laws: "graph_laws S" and hier: "proper_hierarchy classes"
    and nodes: "\<forall>c \<in> set classes. gs_get_node S g (yc_iri c) \<noteq> None"
    and sub: "c \<in> set classes" "set ps \<subseteq> set (yc_parents c)"
    and made: "\<And>x y. subclass_edge x (gs_get_edge S g x y) \<Longrightarrow> y \<in> parent_of classes x"
  shows "(let g' = fold (\<lambda>p. gs_upsert_edge S (yc_iri c) p (subclass_attrs now c)) ps g
      in (\<forall>d \<in> set classes. gs_get_node S g' (yc_iri d) \<noteq> None)
         \<and> (\<forall>x y. subclass_edge x (gs_get_edge S g' x y)
              \<longleftrightarrow> subclass_edge x (gs_get_edge S g x y) \<or> (x = yc_iri c \<and> y \<in> set ps)))"
  using nodes sub(2) made unfolding Let_def
proof (induction ps arbitrary: g)
  case (Cons p ps)
  let ?g1 = "gs_upsert_edge S (yc_iri c) p (subclass_attrs now c) g"
  have p: "p \<in> parent_of classes (yc_iri c)" using Cons.prems(2) sub(1) by (auto simp: parent_of_def)
  then have "p \<in> yc_iri ` set classes" and no: "p \<noteq> yc_iri c \<Longrightarrow> yc_iri c \<notin> parent_of classes p"
    using hier unfolding proper_hierarchy_def by blast+
  then have n: "gs_get_node S g (yc_iri c) \<noteq> None" "gs_get_node S g p \<noteq> None"
    using Cons.prems(1) sub(1) by auto
  have e: "subclass_edge x (gs_get_edge S ?g1 x y)
      \<longleftrightarrow> subclass_edge x (gs_get_edge S g x y) \<or> (x = yc_iri c \<and> y = p)" for x y
    using statement_edge [OF laws n, where now = now and x = x and y = y] no Cons.prems(3) by blast
  have "\<forall>d \<in> set classes. gs_get_node S ?g1 (yc_iri d) \<noteq> None"
    using Cons.prems(1) graph_upsert_edge_keeps [OF laws] by blast
  from Cons.IH [OF this] Cons.prems(2,3) e p show ?case by auto
qed simp

lemma loaded_statements:
  assumes laws: "graph_laws S" and hier: "proper_hierarchy classes" and empty: "no_statements S g"
  shows "subclass_edge x (gs_get_edge S (load_taxonomy_to_graph S now classes g) x y)
           \<longleftrightarrow> y \<in> parent_of classes x"
    and "c \<in> set classes \<Longrightarrow> gs_get_node S (load_taxonomy_to_graph S now classes g) (yc_iri c) \<noteq> None"
proof -
  let ?g0 = "fold (load_class S now) classes g"
  have "(\<forall>d \<in> set classes. gs_get_node S (fold (load_parents S now) cs h) (yc_iri d) \<noteq> None)
      \<and> (\<forall>x y. subclass_edge x (gs_get_edge S (fold (load_parents S now) cs h) x y)
           \<longleftrightarrow> subclass_edge x (gs_get_edge S h x y) \<or> y \<in> parent_of cs x)"
    if "set cs \<subseteq> set classes" "\<forall>d \<in> set classes. gs_get_node S h (yc_iri d) \<noteq> None"
      "\<And>x y. subclass_edge x (gs_get_edge S h x y) \<Longrightarrow> y \<in> parent_of classes x" for cs h
    using that
  proof (induction cs arbitrary: h)
    case Nil
    then show ?case by (simp add: parent_of_def)
  next
    case (Cons c cs)
    have c: "c \<in> set classes" using Cons.prems(1) by simp
    note e = load_parents_effect [OF laws hier Cons.prems(2) c subset_refl Cons.prems(3), where now = now, unfolded Let_def]
    have "y \<in> parent_of classes x" if "subclass_edge x (gs_get_edge S (load_parents S now c h) x y)" for x y
      using that e Cons.prems(3) c by (auto simp: load_parents_def parent_of_def)
    with Cons.IH [of "load_parents S now c h"] Cons.prems(1) e show ?case
      by (auto simp: load_parents_def parent_of_def)
  qed
  from this [of classes ?g0] load_classes_effect [OF laws, of classes now g] empty
  have *: "(\<forall>d \<in> set classes. gs_get_node S (fold (load_parents S now) classes ?g0) (yc_iri d) \<noteq> None)
      \<and> (\<forall>x y. subclass_edge x (gs_get_edge S (fold (load_parents S now) classes ?g0) x y)
           \<longleftrightarrow> y \<in> parent_of classes x)"
    unfolding no_statements_def by simp
  note f = graph_done_nodes [OF laws] graph_done_edges [OF laws]
  show "subclass_edge x (gs_get_edge S (load_taxonomy_to_graph S now classes g) x y)
           \<longleftrightarrow> y \<in> parent_of classes x"
    "c \<in> set classes \<Longrightarrow> gs_get_node S (load_taxonomy_to_graph S now classes g) (yc_iri c) \<noteq> None"
    using * unfolding load_taxonomy_to_graph_def f by auto
qed

section \<open>The walk climbs the statements\<close>

text \<open>The walk on the statements themselves: from a class to the least parent not yet visited.\<close>

fun ascend :: "yago_class list \<Rightarrow> nat \<Rightarrow> iri \<Rightarrow> iri set \<Rightarrow> iri list" where
  "ascend classes 0 x visited = []"
| "ascend classes (Suc room) x visited =
     (let parents = parent_of classes x - visited
      in if parents = {} then []
         else Min parents # ascend classes room (Min parents) (insert (Min parents) visited))"

lemma hd_sort_Min: "xs \<noteq> [] \<Longrightarrow> hd (sort xs) = Min (set xs)" for xs :: "'a :: linorder list"
proof -
  assume "xs \<noteq> []"
  then obtain y ys where s: "sort xs = y # ys" by (cases "sort xs") (auto dest: arg_cong [where f = length])
  have "sorted (y # ys)" unfolding s [symmetric] by simp
  moreover have "set xs = set (y # ys)" unfolding s [symmetric] by simp
  ultimately show ?thesis using s by (auto intro!: Min_eqI [symmetric])
qed

lemma unvisited_parents_set:
  assumes "graph_laws S" "\<And>y. subclass_edge x (gs_get_edge S g x y) \<longleftrightarrow> y \<in> parent_of classes x"
  shows "set (unvisited_parents S g x visited) = parent_of classes x - visited"
proof -
  have "gs_get_edge S g x y \<noteq> None" if "y \<in> parent_of classes x" for y
    using assms(2) [of y] that by (auto simp: subclass_edge_def split: option.splits)
  then show ?thesis
    unfolding unvisited_parents_def set_filter node_edges_ends [OF assms(1)] using assms(2) by auto
qed

lemma finite_parent_of [simp]: "finite (parent_of classes x)"
proof -
  have "parent_of classes x \<subseteq> \<Union> (set ` yc_parents ` set classes)" by (auto simp: parent_of_def)
  then show ?thesis by (rule finite_subset) simp
qed

lemma walk_loop_ascend:
  assumes laws: "graph_laws S"
    and st: "\<And>x y. subclass_edge x (gs_get_edge S g x y) \<longleftrightarrow> y \<in> parent_of classes x"
  shows "walk_loop S g room x visited = ascend classes room x visited"
proof (induction room arbitrary: x visited)
  case (Suc room)
  have s: "set (unvisited_parents S g x visited) = parent_of classes x - visited"
    by (rule unvisited_parents_set [OF laws st])
  then have "unvisited_parents S g x visited = [] \<longleftrightarrow> parent_of classes x - visited = {}"
    by (metis set_empty)
  with Suc.IH hd_sort_Min [of "unvisited_parents S g x visited"] s show ?case
    by (simp add: Let_def)
qed simp

lemma ascend_path:
  assumes "x \<in> visited"
  shows "distinct (ascend classes room x visited) \<and> set (ascend classes room x visited) \<inter> visited = {}
       \<and> length (ascend classes room x visited) \<le> room
       \<and> successively (\<lambda>a b. b \<in> parent_of classes a) (x # ascend classes room x visited)"
  using assms
proof (induction room arbitrary: x visited)
  case (Suc room)
  let ?P = "parent_of classes x - visited"
  show ?case
  proof (cases "?P = {}")
    case False
    then have "Min ?P \<in> ?P" by (intro Min_in) auto
    with Suc.IH [of "Min ?P" "insert (Min ?P) visited"] False show ?thesis
      by (auto simp: Let_def)
  qed (simp add: Let_def)
qed simp

text \<open>On the graph that was loaded from a hierarchy, the walk from a class
  returns the class followed by the climb over the parsed statements that takes the least unvisited
  parent at each step: it never repeats a class, takes at most \<open>max_depth\<close> classes, and every class
  after the first is stated to be a parent of the one before it.\<close>

theorem walk_follows_statements:
  assumes "graph_laws S" "proper_hierarchy classes" "no_statements S g" "i \<in> yc_iri ` set classes"
    and "path = walk_ancestors S (load_taxonomy_to_graph S now classes g) i max_depth"
  shows "path = i # ascend classes (nat (max_depth - 1)) i {i} \<and> distinct path
       \<and> (1 \<le> max_depth \<longrightarrow> int (length path) \<le> max_depth)
       \<and> successively (\<lambda>a b. b \<in> parent_of classes a) path"
proof -
  let ?g = "load_taxonomy_to_graph S now classes g"
  note st = loaded_statements [OF assms(1-3), where now = now]
  obtain n where "gs_get_node S ?g i = Some n" using st(2) assms(4) by blast
  then have p: "path = i # ascend classes (nat (max_depth - 1)) i {i}"
    using walk_loop_ascend [OF assms(1) st(1)] assms(5) by (simp add: walk_ancestors_def)
  then show ?thesis using ascend_path [of i "{i}" classes "nat (max_depth - 1)"] by auto
qed

section \<open>The search finds the descendants\<close>

definition child_rel :: "(iri, iri list) odict \<Rightarrow> (iri \<times> iri) set" where
  "child_rel ch = {(p, c). c \<in> set (children_at ch p)}"

lemma bfs_reaches:
  assumes "\<forall>p \<in> seen. set (children_at ch p) \<subseteq> seen \<union> set queue"
  shows "bfs ch seen queue = (child_rel ch)\<^sup>* `` (seen \<union> set queue)"
  using assms
proof (induction ch seen queue rule: bfs.induct)
  case (1 ch seen)
  then have "child_rel ch `` seen \<subseteq> seen" by (auto simp: child_rel_def)
  then show ?case by (simp add: Image_closed_trancl)
next
  case (2 ch seen child queue)
  show ?case
  proof (cases "child \<in> seen")
    case True
    with 2 show ?thesis by (simp add: insert_absorb)
  next
    case False
    let ?A = "seen \<union> set (child # queue)"
    have "(child_rel ch)\<^sup>* `` (insert child seen \<union> set (queue @ children_at ch child))
        = (child_rel ch)\<^sup>* `` ?A \<union> (child_rel ch)\<^sup>* `` set (children_at ch child)"
      by auto
    also have "(child_rel ch)\<^sup>* `` set (children_at ch child) \<subseteq> (child_rel ch)\<^sup>* `` ?A"
      by (auto simp: child_rel_def intro: converse_rtrancl_into_rtrancl)
    finally show ?thesis using 2 False by auto
  qed
qed

lemma bfs_descendants: "bfs ch {} (children_at ch i) = (child_rel ch)\<^sup>+ `` {i}"
proof -
  have "bfs ch {} (children_at ch i) = (child_rel ch)\<^sup>* `` (child_rel ch `` {i})"
    using bfs_reaches [of "{}" ch "children_at ch i"] by (auto simp: child_rel_def)
  then show ?thesis by (simp add: relcomp_Image [symmetric] trancl_unfold_left)
qed

text \<open>The table of children.\<close>

lemma children_at_add:
  assumes "graph_laws S" "dom (map_of ch) = I"
  shows "dom (map_of (add_children S g I i ch)) = I"
    and "set (children_at (add_children S g I i ch) p)
      = set (children_at ch p) \<union> (if p \<in> I \<and> subclass_edge i (gs_get_edge S g i p) then {i} else {})"
proof -
  let ?f = "\<lambda>other ch. if subclass_edge i (gs_get_edge S g i other) \<and> other \<in> I
         then (case map_of ch other of None \<Rightarrow> ch | Some cs \<Rightarrow> od_set other (cs @ [i]) ch) else ch"
  have "dom (map_of (fold ?f os ch)) = I
      \<and> set (children_at (fold ?f os ch) p) = set (children_at ch p)
          \<union> (if p \<in> I \<and> p \<in> set os \<and> subclass_edge i (gs_get_edge S g i p) then {i} else {})" for os
    using assms(2)
  proof (induction os arbitrary: ch)
    case (Cons o' os)
    have "dom (map_of (?f o' ch)) = I" using Cons.prems by (auto split: option.split)
    from Cons.IH [OF this] Cons.prems show ?case
      by (auto simp: children_at_def domIff split: option.splits)
  qed simp
  from this [of "map (other_end i) (node_edges S g i)"]
  have e: "dom (map_of (add_children S g I i ch)) = I"
    "set (children_at (add_children S g I i ch) p) = set (children_at ch p)
       \<union> (if p \<in> I \<and> gs_get_edge S g i p \<noteq> None \<and> subclass_edge i (gs_get_edge S g i p) then {i} else {})"
    unfolding add_children_def node_edges_ends [OF assms(1)] by auto
  then show "dom (map_of (add_children S g I i ch)) = I"
    "set (children_at (add_children S g I i ch) p)
      = set (children_at ch p) \<union> (if p \<in> I \<and> subclass_edge i (gs_get_edge S g i p) then {i} else {})"
    by (auto simp: subclass_edge_def split: option.splits)
qed

lemma empty_table:
  "dom (map_of (fold (\<lambda>i. od_set i []) iris d)) = dom (map_of d) \<union> set iris"
  "children_at d p = [] \<Longrightarrow> children_at (fold (\<lambda>i. od_set i []) iris d) p = []"
  by (induction iris arbitrary: d) (auto simp: children_at_def split: option.splits)

lemma children_table_set:
  assumes "graph_laws S"
  shows "set (children_at (children_table S g iris) p)
      = {i \<in> set iris. p \<in> set iris \<and> subclass_edge i (gs_get_edge S g i p)}"
proof -
  have "dom (map_of (fold (add_children S g (set iris)) is ch)) = set iris
      \<and> set (children_at (fold (add_children S g (set iris)) is ch) p) = set (children_at ch p)
          \<union> {i \<in> set is. p \<in> set iris \<and> subclass_edge i (gs_get_edge S g i p)}"
    if "dom (map_of ch) = set iris" for "is" ch
    using that
  proof (induction "is" arbitrary: ch)
    case (Cons i "is")
    note a = children_at_add [OF assms Cons.prems]
    from Cons.IH [OF a(1)] a(2) show ?case by auto
  qed simp
  then have "set (children_at (children_table S g iris) p)
      = set (children_at (fold (\<lambda>i. od_set i []) iris []) p)
        \<union> {i \<in> set iris. p \<in> set iris \<and> subclass_edge i (gs_get_edge S g i p)}"
    unfolding children_table_def using empty_table(1) [of iris "[]"] by simp
  moreover have "children_at (fold (\<lambda>i. od_set i []) iris []) p = []"
    by (rule empty_table(2)) (simp add: children_at_def)
  ultimately show ?thesis by simp
qed

definition stated_child :: "yago_class list \<Rightarrow> iri list \<Rightarrow> (iri \<times> iri) set" where
  "stated_child classes iris =
     {(p, c). c \<in> set iris \<and> p \<in> set iris \<and> p \<in> parent_of classes c}"

lemma insort_key_cong:
  "f x = g x \<Longrightarrow> (\<And>y. y \<in> set ys \<Longrightarrow> f y = g y) \<Longrightarrow> insort_key f x ys = insort_key g x ys"
  by (induction ys) auto

lemma sort_key_cong: "(\<And>x. x \<in> set xs \<Longrightarrow> f x = g x) \<Longrightarrow> sort_key f xs = sort_key g xs"
proof (induction xs)
  case (Cons x xs)
  then have "sort_key f xs = sort_key g xs" by simp
  moreover have "insort_key f x (sort_key g xs) = insort_key g x (sort_key g xs)"
    using Cons.prems by (intro insort_key_cong) simp_all
  ultimately show ?case by simp
qed simp

lemma fold_od_set_fun:
  "map_of (fold (\<lambda>i. od_set i (f i)) is d) j = (if j \<in> set is then Some (f j) else map_of d j)"
  by (induction "is" arbitrary: d) auto

text \<open>On the loaded graph the count of a class is the number of classes, among
  those asked about, that lead to it through one or more parsed statements between classes asked
  about; every class asked about has a count, whatever cycles the statements have.\<close>

theorem descendants_counted:
  assumes "graph_laws S" "proper_hierarchy classes" "no_statements S g"
  shows "map_of (count_descendants S (load_taxonomy_to_graph S now classes g) iris) i =
     (if i \<in> set iris then Some (card ((stated_child classes iris)\<^sup>+ `` {i})) else None)"
proof -
  let ?g = "load_taxonomy_to_graph S now classes g"
  have "child_rel (children_table S ?g iris) = stated_child classes iris"
    unfolding child_rel_def stated_child_def children_table_set [OF assms(1)]
    using loaded_statements(1) [OF assms, where now = now] by auto
  then show ?thesis by (simp add: count_descendants_def Let_def fold_od_set_fun bfs_descendants)
qed

definition candidates_of :: "iri list \<Rightarrow> iri list option \<Rightarrow> iri list" where
  "candidates_of iris excluded =
     filter (\<lambda>i. i \<notin> DEFAULT_EXCLUDED \<union> set (case excluded of None \<Rightarrow> [] | Some xs \<Rightarrow> xs)) iris"

definition breadth_key :: "yago_class list \<Rightarrow> iri list \<Rightarrow> iri \<Rightarrow> int \<times> iri" where
  "breadth_key classes cands i = (- int (card ((stated_child classes cands)\<^sup>+ `` {i})), i)"

text \<open>C34. The classes are loaded into a graph that holds no subclass statement yet;
  every parent is itself a class, and no two classes name each other as parent; the graph storage keeps one
  undirected edge per pair and lists what was put (\<open>graph_laws\<close>). The candidates are the classes left after the
  exclusions. The working vocabulary is the front of the candidates in the order of their counts, ties by IRI:
  it has the asked size or every candidate, no excluded class, and no candidate left out has a greater count,
  or as great a count and a smaller IRI, than one taken. The count of a class is the number of candidates
  reached from it downwards through candidates alone; a descendant behind an excluded class does not count
  (\<open>excluded_cuts_subtree\<close>).\<close>

theorem vocabulary_is_broadest:
  assumes "graph_laws S" "proper_hierarchy classes" "no_statements S g"
    and "cands = candidates_of iris excluded"
    and "voc = select_working_vocabulary S (load_taxonomy_to_graph S now classes g) iris target_size excluded"
  shows "sorted (map (breadth_key classes cands) voc) \<and> set voc \<subseteq> set cands
       \<and> length voc = min target_size (length cands)
       \<and> (\<forall>x \<in> set voc. \<forall>y \<in> set cands - set voc. breadth_key classes cands x \<le> breadth_key classes cands y)"
proof -
  let ?g = "load_taxonomy_to_graph S now classes g" and ?k = "breadth_key classes cands"
  let ?count = "\<lambda>i. case map_of (count_descendants S ?g cands) i of None \<Rightarrow> 0 | Some n \<Rightarrow> n"
  have "sort_key (\<lambda>i. (- int (?count i), i)) cands = sort_key ?k cands"
    using descendants_counted [OF assms(1-3), where now = now and iris = cands]
    by (intro sort_key_cong) (simp add: breadth_key_def)
  then have voc: "voc = take target_size (sort_key ?k cands)"
    using assms(4,5) unfolding select_working_vocabulary_def candidates_of_def Let_def by simp
  let ?xs = "sort_key ?k cands"
  have sorted: "sorted (map ?k (take target_size ?xs @ drop target_size ?xs))" by simp
  have "?k x \<le> ?k y" if "x \<in> set voc" "y \<in> set cands - set voc" for x y
  proof -
    have "set ?xs = set (take target_size ?xs) \<union> set (drop target_size ?xs)"
      by (metis append_take_drop_id set_append)
    moreover have "y \<in> set ?xs" using that(2) by simp
    ultimately have "y \<in> set (drop target_size ?xs)" using that(2) voc by blast
    then show ?thesis using sorted that(1) voc unfolding map_append sorted_append by auto
  qed
  moreover have "sorted (map ?k voc)" using sorted unfolding voc map_append sorted_append by blast
  moreover have "set voc \<subseteq> set cands" unfolding voc by (auto dest: in_set_takeD)
  moreover have "length voc = min target_size (length cands)" unfolding voc by (simp add: min.commute)
  ultimately show ?thesis by blast
qed

section \<open>A list of edges as the graph storage\<close>

type_synonym list_graph = "(iri, attrs) odict \<times> (iri \<times> iri, attrs) odict"

definition edge_key :: "iri \<Rightarrow> iri \<Rightarrow> iri \<times> iri" where
  "edge_key a b = (min a b, max a b)"

definition list_store :: "list_graph graph_store" where
  "list_store = \<lparr>gs_upsert_node = (\<lambda>i d (ns, es). (od_set i d ns, es)),
     gs_upsert_edge = (\<lambda>s t d (ns, es). (ns, od_set (edge_key s t) d es)),
     gs_index_done = id,
     gs_get_node = (\<lambda>(ns, es) i. map_of ns i),
     gs_get_edge = (\<lambda>(ns, es) a b. map_of es (edge_key a b)),
     gs_get_node_edges = (\<lambda>(ns, es) a. Some (filter (\<lambda>(s, t). (s = a \<or> t = a) \<and> s \<le> t) (map fst es)))\<rparr>"

lemma edge_key_cases: "edge_key a b = edge_key s t \<longleftrightarrow> {a, b} = {s, t}"
  unfolding edge_key_def by (auto simp: doubleton_eq_iff min_def max_def split: if_splits)


lemma edge_key_ends:
  "other_end a ` {(s, t). (s, t) \<in> K \<and> (s = a \<or> t = a) \<and> s \<le> t} = {b. edge_key a b \<in> K}"
proof (intro equalityI subsetI)
  fix b assume "b \<in> {b. edge_key a b \<in> K}"
  then have "edge_key a b \<in> {(s, t). (s, t) \<in> K \<and> (s = a \<or> t = a) \<and> s \<le> t}"
    by (auto simp: edge_key_def min_def max_def)
  moreover have "other_end a (edge_key a b) = b"
    by (auto simp: other_end_def edge_key_def min_def max_def)
  ultimately show "b \<in> other_end a ` {(s, t). (s, t) \<in> K \<and> (s = a \<or> t = a) \<and> s \<le> t}"
    by (metis (no_types, lifting) image_eqI)
next
  fix b assume "b \<in> other_end a ` {(s, t). (s, t) \<in> K \<and> (s = a \<or> t = a) \<and> s \<le> t}"
  then show "b \<in> {b. edge_key a b \<in> K}"
    by (auto simp: other_end_def edge_key_def min_def max_def split: if_splits)
qed

lemma list_store_laws: "graph_laws list_store"
  unfolding graph_laws_def
proof (intro conjI allI)
  fix g :: list_graph and a
  obtain ns es where g: "g = (ns, es)" by (cases g)
  have "{b. map_of es (edge_key a b) \<noteq> None} = {b. edge_key a b \<in> fst ` set es}"
    by (simp add: map_of_eq_None_iff)
  then show "case gs_get_node_edges list_store g a of
      None \<Rightarrow> \<forall>b. gs_get_edge list_store g a b = None
    | Some es \<Rightarrow> other_end a ` set es = {b. gs_get_edge list_store g a b \<noteq> None}"
    using edge_key_ends [of a "fst ` set es"]
    by (simp add: g list_store_def Collect_conj_eq case_prod_unfold)
next
  fix g :: list_graph and s t d a b
  show "{a, b} \<noteq> {s, t} \<longrightarrow> gs_get_edge list_store (gs_upsert_edge list_store s t d g) a b
      = gs_get_edge list_store g a b"
    by (cases g) (auto simp: list_store_def edge_key_cases)
qed (auto simp: list_store_def edge_key_def min_def max_def split: prod.splits)

section \<open>Concrete hierarchies\<close>

definition mini_class :: "string \<Rightarrow> string list \<Rightarrow> yago_class" where
  "mini_class i ps = \<lparr>yc_iri = lit i, yc_label = lit i, yc_comment = [], yc_parents = map lit ps\<rparr>"

definition mini_classes :: "yago_class list" where
  "mini_classes = [mini_class ''agent'' [], mini_class ''person'' [''agent''],
     mini_class ''poet'' [''person'', ''agent''], mini_class ''place'' []]"

lemma mini_proper: "proper_hierarchy mini_classes"
  unfolding proper_hierarchy_def parent_of_def mini_classes_def mini_class_def
  by auto

lemma mini_empty: "no_statements list_store ([], [])"
  by (simp add: no_statements_def list_store_def subclass_edge_def)

theorem walk_follows_statements_witness:
  "(let path = walk_ancestors list_store (load_taxonomy_to_graph list_store 0 mini_classes ([], []))
                 (lit ''poet'') 10
    in path = lit ''poet'' # ascend mini_classes (nat (10 - 1)) (lit ''poet'') {lit ''poet''}
       \<and> distinct path \<and> (1 \<le> (10 :: int) \<longrightarrow> int (length path) \<le> 10)
       \<and> successively (\<lambda>a b. b \<in> parent_of mini_classes a) path)"
  unfolding Let_def
  by (rule walk_follows_statements [OF list_store_laws mini_proper mini_empty _ refl])
    (simp add: mini_classes_def mini_class_def)

theorem descendants_counted_witness:
  "map_of (count_descendants list_store (load_taxonomy_to_graph list_store 0 mini_classes ([], []))
     (map yc_iri mini_classes)) (lit ''agent'')
   = (if lit ''agent'' \<in> set (map yc_iri mini_classes)
      then Some (card ((stated_child mini_classes (map yc_iri mini_classes))\<^sup>+ `` {lit ''agent''}))
      else None)"
  by (rule descendants_counted [OF list_store_laws mini_proper mini_empty])

lemma mini_counts:
  "count_descendants list_store (load_taxonomy_to_graph list_store 0 mini_classes ([], []))
     (map yc_iri mini_classes)
   = [(lit ''agent'', 2), (lit ''person'', 1), (lit ''poet'', 0), (lit ''place'', 0)]"
  by code_simp

theorem vocabulary_is_broadest_witness:
  "(let cands = candidates_of (map yc_iri mini_classes) None;
        voc = select_working_vocabulary list_store
                (load_taxonomy_to_graph list_store 0 mini_classes ([], [])) (map yc_iri mini_classes) 2 None
    in sorted (map (breadth_key mini_classes cands) voc) \<and> set voc \<subseteq> set cands
       \<and> length voc = min 2 (length cands)
       \<and> (\<forall>x \<in> set voc. \<forall>y \<in> set cands - set voc.
            breadth_key mini_classes cands x \<le> breadth_key mini_classes cands y))"
  unfolding Let_def
  by (rule vocabulary_is_broadest [OF list_store_laws mini_proper mini_empty refl refl])

text \<open>
  The exclusion applies to the counting too: a class keeps no count through an excluded one. Without
  \<open>person\<close>, \<open>agent\<close> is still stated to be a parent of \<open>poet\<close>; when \<open>poet\<close> is stated under \<open>person\<close>
  alone, excluding \<open>person\<close> leaves \<open>agent\<close> with no descendant.
\<close>

definition chain_classes :: "yago_class list" where
  "chain_classes = [mini_class ''agent'' [], mini_class ''person'' [''agent''],
     mini_class ''poet'' [''person''], mini_class ''place'' [], mini_class ''town'' [''place'']]"

lemma excluded_cuts_subtree:
  "select_working_vocabulary list_store (load_taxonomy_to_graph list_store 0 chain_classes ([], []))
     (map yc_iri chain_classes) 1 None = [lit ''agent'']"
  "select_working_vocabulary list_store (load_taxonomy_to_graph list_store 0 chain_classes ([], []))
     (map yc_iri chain_classes) 1 (Some [lit ''person'']) = [lit ''place'']"
  by code_simp+

text \<open>Two classes stated to be parents of each other keep one of the two statements.\<close>

lemma mutual_statement_lost:
  "walk_ancestors list_store (load_taxonomy_to_graph list_store 0
     [mini_class ''a'' [''b''], mini_class ''b'' [''a'']] ([], [])) (lit ''a'') 10 = [lit ''a'']"
  by code_simp

end
