(* ===== verification/TaxonomyParser.thy ===== *)
theory TaxonomyParser
  imports TaxonomyGraph
begin

text \<open>
  src/ontorag/taxonomy/parser.py: N-Triples lines to classes. The two regular expressions have no
  ambiguity (every repetition stops at a character its class excludes), so each is a function that
  reads the line from left to right. Which code points above 127 the \<open>re\<close> module classes as word
  characters is the parameter \<open>uw\<close>.
\<close>

section \<open>The two line forms\<close>

definition angle :: "pystr \<Rightarrow> (pystr \<times> pystr) option" where
  "angle s =
     (case s of
        [] \<Rightarrow> None
      | c # r \<Rightarrow>
          (let body = takeWhile (\<lambda>x. x \<noteq> 62) r; rest = dropWhile (\<lambda>x. x \<noteq> 62) r
           in if c = 60 \<and> body \<noteq> [] \<and> rest \<noteq> [] then Some (body, tl rest) else None))"

definition spaces1 :: "pystr \<Rightarrow> pystr option" where
  "spaces1 s = (if s \<noteq> [] \<and> py_isspace (hd s) then Some (dropWhile py_isspace s) else None)"

definition dot_end :: "pystr \<Rightarrow> bool" where
  "dot_end s = (case dropWhile py_isspace s of [] \<Rightarrow> False | c # r \<Rightarrow> c = 46 \<and> dropWhile py_isspace r = [])"

definition two_iris :: "pystr \<Rightarrow> (pystr \<times> pystr \<times> pystr) option" where
  "two_iris line =
     (case angle line of None \<Rightarrow> None
      | Some (subj, r1) \<Rightarrow>
          (case Option.bind (spaces1 r1) angle of None \<Rightarrow> None
           | Some (pred, r2) \<Rightarrow> map_option (\<lambda>r. (subj, pred, r)) (spaces1 r2)))"

definition iri_triple :: "pystr \<Rightarrow> (pystr \<times> pystr \<times> pystr) option" where
  "iri_triple line =
     (case two_iris line of None \<Rightarrow> None
      | Some (subj, pred, r) \<Rightarrow>
          (case angle r of None \<Rightarrow> None
           | Some (obj, r3) \<Rightarrow> if dot_end r3 then Some (subj, pred, obj) else None))"

text \<open>The body of a literal up to its closing quote, escapes kept.\<close>

fun literal_body :: "pystr \<Rightarrow> (pystr \<times> pystr) option" where
  "literal_body [] = None"
| "literal_body (c # s) =
     (if c = 34 then Some ([], s)
      else if c = 92 then
        (case s of [] \<Rightarrow> None
         | d # s' \<Rightarrow> map_option (\<lambda>(b, r). (c # d # b, r)) (literal_body s'))
      else map_option (\<lambda>(b, r). (c # b, r)) (literal_body s))"

definition word_char :: "(nat \<Rightarrow> bool) \<Rightarrow> nat \<Rightarrow> bool" where
  "word_char uw c \<longleftrightarrow> (48 \<le> c \<and> c \<le> 57) \<or> (65 \<le> c \<and> c \<le> 90) \<or> c = 95 \<or> (97 \<le> c \<and> c \<le> 122) \<or> (128 \<le> c \<and> uw c)"

definition lit_triple :: "(nat \<Rightarrow> bool) \<Rightarrow> pystr \<Rightarrow> (pystr \<times> pystr \<times> pystr \<times> pystr) option" where
  "lit_triple uw line =
     (case two_iris line of None \<Rightarrow> None
      | Some (subj, pred, r) \<Rightarrow>
          (case r of [] \<Rightarrow> None
           | q # r1 \<Rightarrow>
               (case literal_body r1 of None \<Rightarrow> None
                | Some (raw, r2) \<Rightarrow>
                    (let lang = takeWhile (word_char uw) (tl r2)
                     in if q = 34 \<and> r2 \<noteq> [] \<and> hd r2 = 64 \<and> lang \<noteq> []
                           \<and> dot_end (dropWhile (word_char uw) (tl r2))
                        then Some (subj, pred, raw, lang) else None))))"

section \<open>Literals\<close>

text \<open>\<open>str.replace\<close> for a nonempty pattern.\<close>

function py_replace :: "pystr \<Rightarrow> pystr \<Rightarrow> pystr \<Rightarrow> pystr" where
  "py_replace pat rep [] = []"
| "py_replace pat rep (c # s) =
     (if pat \<noteq> [] \<and> take (length pat) (c # s) = pat
      then rep @ py_replace pat rep (drop (length pat - 1) s)
      else c # py_replace pat rep s)"
  by pat_completeness auto
termination by (relation "measure (\<lambda>(_, _, s). length s)") auto

definition unescape_literal :: "pystr \<Rightarrow> pystr" where
  "unescape_literal raw = py_replace [92, 110] [10] (py_replace [92, 92] [92] (py_replace [92, 34] [34] raw))"

section \<open>The file\<close>

definition RDFS_SUBCLASS_OF :: pystr where
  "RDFS_SUBCLASS_OF = lit ''http://www.w3.org/2000/01/rdf-schema#subClassOf''"
definition RDFS_LABEL :: pystr where
  "RDFS_LABEL = lit ''http://www.w3.org/2000/01/rdf-schema#label''"
definition RDFS_COMMENT :: pystr where
  "RDFS_COMMENT = lit ''http://www.w3.org/2000/01/rdf-schema#comment''"
definition LABEL_LANGUAGE :: pystr where
  "LABEL_LANGUAGE = lit ''en''"

record nt_state =
  nt_labels :: "iri \<rightharpoonup> pystr"
  nt_comments :: "iri \<rightharpoonup> pystr"
  nt_parents :: "iri \<rightharpoonup> iri list"
  nt_seen :: "iri list"

definition see :: "iri \<Rightarrow> nt_state \<Rightarrow> nt_state" where
  "see i st = st\<lparr>nt_seen := List.insert i (nt_seen st)\<rparr>"

definition nt_line :: "(nat \<Rightarrow> bool) \<Rightarrow> pystr \<Rightarrow> nt_state \<Rightarrow> nt_state" where
  "nt_line uw raw_line st =
     (let line = py_strip raw_line
      in if line = [] \<or> hd line = 35 then st
         else (case iri_triple line of
             Some (subj, pred, obj) \<Rightarrow>
               (let st1 = see subj st
                in if pred = RDFS_SUBCLASS_OF
                   then st1\<lparr>nt_parents := (nt_parents st1)(subj \<mapsto>
                          (case nt_parents st1 subj of None \<Rightarrow> [] | Some ps \<Rightarrow> ps) @ [obj])\<rparr>
                   else st1)
           | None \<Rightarrow>
               (case lit_triple uw line of
                  None \<Rightarrow> st
                | Some (subj, pred, raw, lang) \<Rightarrow>
                    if lang \<noteq> LABEL_LANGUAGE then st
                    else (let st1 = see subj st; val = unescape_literal raw
                          in if pred = RDFS_LABEL then st1\<lparr>nt_labels := (nt_labels st1)(subj \<mapsto> val)\<rparr>
                             else if pred = RDFS_COMMENT
                             then st1\<lparr>nt_comments := (nt_comments st1)(subj \<mapsto> val)\<rparr>
                             else st1))))"

definition nt_classes :: "nt_state \<Rightarrow> yago_class list" where
  "nt_classes st = List.map_filter (\<lambda>i. map_option (\<lambda>label.
       \<lparr>yc_iri = i, yc_label = label,
        yc_comment = (case nt_comments st i of None \<Rightarrow> [] | Some c \<Rightarrow> c),
        yc_parents = (case nt_parents st i of None \<Rightarrow> [] | Some ps \<Rightarrow> ps)\<rparr>) (nt_labels st i))
     (sort (nt_seen st))"

definition nt_start :: nt_state where
  "nt_start = \<lparr>nt_labels = Map.empty, nt_comments = Map.empty, nt_parents = Map.empty, nt_seen = []\<rparr>"

definition parse_lines :: "(nat \<Rightarrow> bool) \<Rightarrow> pystr list \<Rightarrow> yago_class list" where
  "parse_lines uw lines = nt_classes (fold (nt_line uw) lines nt_start)"

text \<open>Reading in text mode: every line ending becomes a line feed, and the lines keep it.\<close>

function universal_newlines :: "pystr \<Rightarrow> pystr" where
  "universal_newlines [] = []"
| "universal_newlines (c # s) =
     (if c = 13 then 10 # universal_newlines (if s \<noteq> [] \<and> hd s = 10 then tl s else s)
      else c # universal_newlines s)"
  by pat_completeness auto
termination by (relation "measure length") auto

fun file_lines :: "pystr \<Rightarrow> pystr list" where
  "file_lines [] = []"
| "file_lines (c # s) =
     (if c = 10 then [c] # file_lines s
      else (case file_lines s of [] \<Rightarrow> [[c]] | l # ls \<Rightarrow> (c # l) # ls))"

text \<open>The text of the file, \<open>None\<close> when there is no file: then the code raises.\<close>

definition parse_ntriples_file :: "(nat \<Rightarrow> bool) \<Rightarrow> pystr option \<Rightarrow> yago_class list option" where
  "parse_ntriples_file uw = map_option (\<lambda>txt. parse_lines uw (file_lines (universal_newlines txt)))"

section \<open>Rendered statements\<close>

text \<open>The statements a taxonomy file is made of, and the line each is written as.\<close>

datatype statement =
    Subclass iri iri
  | Label iri pystr
  | Comment iri pystr

fun escape_char :: "nat \<Rightarrow> pystr" where
  "escape_char c = (if c = 34 then [92, 34] else if c = 92 then [92, 92] else if c = 10 then [92, 110] else [c])"

definition escape_literal :: "pystr \<Rightarrow> pystr" where
  "escape_literal v = concat (map escape_char v)"

definition bracketed :: "iri \<Rightarrow> pystr" where
  "bracketed i = 60 # i @ [62]"

definition render_literal :: "iri \<Rightarrow> iri \<Rightarrow> pystr \<Rightarrow> pystr" where
  "render_literal s p v =
     bracketed s @ 32 # bracketed p @ 32 # 34 # escape_literal v @ 34 # 64 # LABEL_LANGUAGE @ [32, 46]"

fun render :: "statement \<Rightarrow> pystr" where
  "render (Subclass s o') = bracketed s @ 32 # bracketed RDFS_SUBCLASS_OF @ 32 # bracketed o' @ [32, 46]"
| "render (Label s v) = render_literal s RDFS_LABEL v"
| "render (Comment s v) = render_literal s RDFS_COMMENT v"

text \<open>IRIs are nonempty and have no closing bracket and no line ending; a literal with no backslash survives
  the unescaping (\<open>backslash_n_becomes_newline\<close> below shows why the restriction is there), and with no
  carriage return, which is not escaped, the reading of lines.\<close>

definition plain_iri :: "iri \<Rightarrow> bool" where
  "plain_iri i \<longleftrightarrow> i \<noteq> [] \<and> 62 \<notin> set i \<and> 10 \<notin> set i \<and> 13 \<notin> set i"

fun plain :: "statement \<Rightarrow> bool" where
  "plain (Subclass s o') = (plain_iri s \<and> plain_iri o')"
| "plain (Label s v) = (plain_iri s \<and> 92 \<notin> set v \<and> 13 \<notin> set v)"
| "plain (Comment s v) = (plain_iri s \<and> 92 \<notin> set v \<and> 13 \<notin> set v)"

fun subject :: "statement \<Rightarrow> iri" where
  "subject (Subclass s o') = s"
| "subject (Label s v) = s"
| "subject (Comment s v) = s"

text \<open>What a file of statements says of a class: its last label and comment, its parents in the order
  of the file.\<close>

definition said_parents :: "statement list \<Rightarrow> iri \<Rightarrow> iri list" where
  "said_parents sts i =
     List.map_filter (\<lambda>st. case st of Subclass s o' \<Rightarrow> (if s = i then Some o' else None) | _ \<Rightarrow> None) sts"

definition last_of :: "'a list \<Rightarrow> 'a option" where
  "last_of xs = (if xs = [] then None else Some (last xs))"

definition said_label :: "statement list \<Rightarrow> iri \<Rightarrow> pystr option" where
  "said_label sts i =
     last_of (List.map_filter (\<lambda>st. case st of Label s v \<Rightarrow> (if s = i then Some v else None) | _ \<Rightarrow> None) sts)"

definition said_comment :: "statement list \<Rightarrow> iri \<Rightarrow> pystr option" where
  "said_comment sts i =
     last_of (List.map_filter (\<lambda>st. case st of Comment s v \<Rightarrow> (if s = i then Some v else None) | _ \<Rightarrow> None) sts)"

section \<open>Reading back\<close>

lemma angle_bracketed: "plain_iri i \<Longrightarrow> angle (bracketed i @ r) = Some (i, r)"
proof -
  assume p: "plain_iri i"
  then have "takeWhile (\<lambda>x. x \<noteq> 62) (i @ 62 # r) = i" "dropWhile (\<lambda>x. x \<noteq> 62) (i @ 62 # r) = 62 # r"
    by (auto simp: plain_iri_def takeWhile_append dropWhile_append)
  with p show ?thesis by (simp add: angle_def bracketed_def plain_iri_def Let_def)
qed

lemma isspace_blank [simp]: "py_isspace 32" "py_isspace 10"
  by (simp_all add: py_isspace_def)

lemma spaces1_blank: "r \<noteq> [] \<Longrightarrow> \<not> py_isspace (hd r) \<Longrightarrow> spaces1 (32 # r) = Some r"
  by (cases r) (simp_all add: spaces1_def)

lemma dot_end_dot [simp]: "dot_end [32, 46]"
  by (simp add: dot_end_def py_isspace_def)

lemma two_iris_render:
  assumes "plain_iri s" "plain_iri p" "r \<noteq> []" "\<not> py_isspace (hd r)"
  shows "two_iris (bracketed s @ 32 # bracketed p @ 32 # r) = Some (s, p, r)"
proof -
  have "spaces1 (32 # bracketed p @ 32 # r) = Some (bracketed p @ 32 # r)"
    by (rule spaces1_blank) (simp_all add: bracketed_def py_isspace_def)
  then show ?thesis
    using assms by (simp add: two_iris_def angle_bracketed spaces1_blank)
qed

lemma literal_body_escape: "literal_body (escape_literal v @ 34 # r) = Some (escape_literal v, r)"
  by (induction v) (auto simp: escape_literal_def)

lemma unescape_step1:
  "92 \<notin> set v \<Longrightarrow> py_replace [92, 34] [34] (escape_literal v)
     = concat (map (\<lambda>c. if c = 10 then [92, 110] else [c]) v)"
  by (induction v) (auto simp: escape_literal_def)

lemma unescape_step2:
  "92 \<notin> set v \<Longrightarrow> py_replace [92, 92] [92] (concat (map (\<lambda>c. if c = 10 then [92, 110] else [c]) v))
     = concat (map (\<lambda>c. if c = 10 then [92, 110] else [c]) v)"
  by (induction v) auto

lemma unescape_step3:
  "92 \<notin> set v \<Longrightarrow> py_replace [92, 110] [10] (concat (map (\<lambda>c. if c = 10 then [92, 110] else [c]) v)) = v"
  by (induction v) auto

lemma unescape_escape: "92 \<notin> set v \<Longrightarrow> unescape_literal (escape_literal v) = v"
  by (simp add: unescape_literal_def unescape_step1 unescape_step2 unescape_step3)

lemma strip_line:
  assumes "xs \<noteq> []" "\<not> py_isspace (hd xs)" "\<not> py_isspace (last xs)"
  shows "py_strip (xs @ [10]) = xs"
proof -
  have "dropWhile py_isspace (xs @ [10]) = xs @ [10]" using assms(1,2) by (cases xs) auto
  moreover have "dropWhile py_isspace (rev xs) = rev xs"
    using assms(1,3) by (cases "rev xs") (auto simp: hd_rev [symmetric])
  ultimately show ?thesis by (simp add: py_strip_def)
qed

lemma render_ends:
  "render st \<noteq> [] \<and> hd (render st) = 60 \<and> last (render st) = 46"
  by (cases st) (simp_all add: render_literal_def bracketed_def LABEL_LANGUAGE_def)

lemma strip_render: "py_strip (render st @ [10]) = render st"
  by (rule strip_line) (simp_all add: render_ends py_isspace_def)

lemma iri_triple_subclass:
  "plain_iri s \<Longrightarrow> plain_iri p \<Longrightarrow> plain_iri q
    \<Longrightarrow> iri_triple (bracketed s @ 32 # bracketed p @ 32 # bracketed q @ [32, 46]) = Some (s, p, q)"
  using two_iris_render [of s p "bracketed q @ [32, 46]"] angle_bracketed [of q "[32, 46]"]
  by (simp add: iri_triple_def) (simp add: bracketed_def py_isspace_def)

lemma plain_rdfs: "plain_iri RDFS_SUBCLASS_OF" "plain_iri RDFS_LABEL" "plain_iri RDFS_COMMENT"
  by (simp_all add: plain_iri_def RDFS_SUBCLASS_OF_def RDFS_LABEL_def RDFS_COMMENT_def)

lemma rdfs_distinct: "RDFS_LABEL \<noteq> RDFS_COMMENT"
  by (simp add: RDFS_LABEL_def RDFS_COMMENT_def)

lemma literal_two_iris:
  assumes "plain_iri s" "plain_iri p"
  shows "two_iris (render_literal s p v)
     = Some (s, p, 34 # escape_literal v @ 34 # 64 # LABEL_LANGUAGE @ [32, 46])"
  using two_iris_render [OF assms, of "34 # escape_literal v @ 34 # 64 # LABEL_LANGUAGE @ [32, 46]"]
  by (simp add: render_literal_def py_isspace_def)

lemma literal_lines:
  assumes "plain_iri s" "plain_iri p"
  shows "iri_triple (render_literal s p v) = None"
    and "lit_triple uw (render_literal s p v) = Some (s, p, escape_literal v, LABEL_LANGUAGE)"
proof -
  show "iri_triple (render_literal s p v) = None"
    by (simp add: iri_triple_def literal_two_iris [OF assms] angle_def)
  have "takeWhile (word_char uw) (LABEL_LANGUAGE @ [32, 46]) = LABEL_LANGUAGE"
    "dropWhile (word_char uw) (LABEL_LANGUAGE @ [32, 46]) = [32, 46]"
    by (simp_all add: LABEL_LANGUAGE_def word_char_def)
  then show "lit_triple uw (render_literal s p v) = Some (s, p, escape_literal v, LABEL_LANGUAGE)"
    by (simp add: lit_triple_def literal_two_iris [OF assms] literal_body_escape Let_def)
      (simp add: LABEL_LANGUAGE_def)
qed

fun state_it :: "statement \<Rightarrow> nt_state \<Rightarrow> nt_state" where
  "state_it (Subclass s o') st = (see s st)\<lparr>nt_parents := (nt_parents st)(s \<mapsto>
      (case nt_parents st s of None \<Rightarrow> [] | Some ps \<Rightarrow> ps) @ [o'])\<rparr>"
| "state_it (Label s v) st = (see s st)\<lparr>nt_labels := (nt_labels st)(s \<mapsto> v)\<rparr>"
| "state_it (Comment s v) st = (see s st)\<lparr>nt_comments := (nt_comments st)(s \<mapsto> v)\<rparr>"

lemma see_other [simp]:
  "nt_labels (see i st) = nt_labels st" "nt_comments (see i st) = nt_comments st"
  "nt_parents (see i st) = nt_parents st" "nt_seen (see i st) = List.insert i (nt_seen st)"
  by (simp_all add: see_def)

lemma line_states_it: "plain st \<Longrightarrow> nt_line uw (render st @ [10]) x = state_it st x"
proof (cases st)
  case (Subclass s q)
  assume "plain st"
  then show ?thesis
    using render_ends [of st] iri_triple_subclass [OF _ plain_rdfs(1), of s q] Subclass
    unfolding nt_line_def strip_render by (simp add: Let_def)
next
  case (Label s v)
  assume "plain st"
  then show ?thesis
    using render_ends [of st] literal_lines(1) [OF _ plain_rdfs(2), of s v]
      literal_lines(2) [OF _ plain_rdfs(2), of s uw v] Label unescape_escape [of v]
    unfolding nt_line_def strip_render by (simp add: Let_def)
next
  case (Comment s v)
  assume "plain st"
  then show ?thesis
    using render_ends [of st] literal_lines(1) [OF _ plain_rdfs(3), of s v]
      literal_lines(2) [OF _ plain_rdfs(3), of s uw v] Comment unescape_escape [of v]
      rdfs_distinct
    unfolding nt_line_def strip_render by (simp add: Let_def)
qed

lemma last_of_snoc [simp]: "last_of (xs @ [x]) = Some x" "last_of [] = None"
  by (simp_all add: last_of_def)

lemma stated_state:
  "nt_labels (fold state_it sts nt_start) i = said_label sts i
   \<and> nt_comments (fold state_it sts nt_start) i = said_comment sts i
   \<and> (case nt_parents (fold state_it sts nt_start) i of None \<Rightarrow> [] | Some ps \<Rightarrow> ps) = said_parents sts i
   \<and> set (nt_seen (fold state_it sts nt_start)) = subject ` set sts
   \<and> distinct (nt_seen (fold state_it sts nt_start))"
proof (induction sts rule: rev_induct)
  case Nil
  show ?case by (simp add: nt_start_def said_label_def said_comment_def said_parents_def)
next
  case (snoc st sts)
  then show ?case
    by (cases st) (auto simp: said_label_def said_comment_def said_parents_def map_filter_simps
      List.map_filter_def)
qed

text \<open>The lines of the file.\<close>

lemma universal_newlines_line:
  "13 \<notin> set xs \<Longrightarrow> universal_newlines (xs @ 10 # r) = xs @ 10 # universal_newlines r"
  "13 \<notin> set xs \<Longrightarrow> universal_newlines (xs @ 13 # 10 # r) = xs @ 10 # universal_newlines r"
  by (induction xs) auto

lemma file_lines_line: "10 \<notin> set xs \<Longrightarrow> file_lines (xs @ 10 # r) = (xs @ [10]) # file_lines r"
  by (induction xs) auto

lemma escape_literal_lines: "13 \<notin> set v \<Longrightarrow> 10 \<notin> set (escape_literal v) \<and> 13 \<notin> set (escape_literal v)"
  by (auto simp: escape_literal_def)

lemma render_one_line: "plain st \<Longrightarrow> 10 \<notin> set (render st) \<and> 13 \<notin> set (render st)"
  using plain_rdfs escape_literal_lines
  by (cases st) (auto simp: render_literal_def bracketed_def plain_iri_def LABEL_LANGUAGE_def)

lemma statements_lines:
  assumes "\<forall>st \<in> set sts. plain st" "eol = [10] \<or> eol = [13, 10]"
  shows "file_lines (universal_newlines (concat (map (\<lambda>st. render st @ eol) sts))) = map (\<lambda>st. render st @ [10]) sts"
  using assms(1)
proof (induction sts)
  case (Cons st sts)
  have "10 \<notin> set (render st)" "13 \<notin> set (render st)" using render_one_line [of st] Cons.prems by simp_all
  then show ?case
    using Cons assms(2) by (auto simp: universal_newlines_line file_lines_line)
qed simp

text \<open>C35. A file of statements reads back as what it says: one class per subject
  that has an English label, in IRI order, with its last label and comment and all its stated
  parents in the order of the file, whatever the order and interleaving of the lines, and whether they end
  in a line feed or in carriage return and line feed. The statements are plain: no IRI is empty or holds a
  closing bracket or a line ending, and no label or comment holds a backslash, which the unescaping would
  not give back (\<open>backslash_n_becomes_newline\<close>), or a carriage return, which no escape is read for; quotes
  and line feeds are written escaped and come back.\<close>

theorem ntriples_roundtrip:
  assumes "\<forall>st \<in> set sts. plain st" "eol = [10] \<or> eol = [13, 10]"
  shows "parse_ntriples_file uw (Some (concat (map (\<lambda>st. render st @ eol) sts))) =
     Some (List.map_filter (\<lambda>i. map_option (\<lambda>label.
         \<lparr>yc_iri = i, yc_label = label,
          yc_comment = (case said_comment sts i of None \<Rightarrow> [] | Some c \<Rightarrow> c),
          yc_parents = said_parents sts i\<rparr>) (said_label sts i))
       (sorted_list_of_set (subject ` set sts)))"
proof -
  have "fold (nt_line uw) (map (\<lambda>st. render st @ [10]) sts) x = fold state_it sts x" for x
    using assms(1) by (induction sts arbitrary: x) (simp_all add: line_states_it)
  moreover have "sort (nt_seen (fold state_it sts nt_start)) = sorted_list_of_set (subject ` set sts)"
    using stated_state [of sts] by (metis distinct_remdups_id sorted_list_of_set_sort_remdups)
  ultimately show ?thesis
    unfolding parse_ntriples_file_def parse_lines_def nt_classes_def
    by (simp add: statements_lines [OF assms] stated_state)
qed

theorem ntriples_roundtrip_witness:
  "(let sts = [Label (lit ''b'') (lit ''Poet''), Subclass (lit ''b'') (lit ''a''),
               Label (lit ''a'') [34, 10], Comment (lit ''a'') (lit ''a human'')]
    in parse_ntriples_file (\<lambda>_. False) (Some (concat (map (\<lambda>st. render st @ [13, 10]) sts))) =
       Some (List.map_filter (\<lambda>i. map_option (\<lambda>label.
         \<lparr>yc_iri = i, yc_label = label,
          yc_comment = (case said_comment sts i of None \<Rightarrow> [] | Some c \<Rightarrow> c),
          yc_parents = said_parents sts i\<rparr>) (said_label sts i))
       (sorted_list_of_set (subject ` set sts))))"
  unfolding Let_def by (rule ntriples_roundtrip) (simp_all add: plain_iri_def lit_def)

text \<open>
  The replacements of \<open>_unescape_literal\<close> run one after the other over the whole text, so the
  backslash that an escaped backslash leaves is read again: the two characters backslash and \<open>n\<close>,
  written with the backslash escaped, come back as a line feed.
\<close>

lemma backslash_n_becomes_newline:
  "escape_literal [92, 110] = [92, 92, 110]" "unescape_literal [92, 92, 110] = [10]"
  by code_simp+

end
