(* ===== verification/PyNumbers.thy ===== *)
theory PyNumbers
  imports JsonValues "HOL-Library.Log_Nat" "HOL-Library.Product_Lexorder"
begin

text \<open>
  The numbers of Python that \<open>json.loads\<close> makes of a text: an \<open>int\<close> of any size, a \<open>float\<close>, and the three
  values \<open>NaN\<close>, \<open>Infinity\<close> and \<open>-Infinity\<close> it also accepts. A finite float is an exact rational, and
  arithmetic on floats is exact; the conversion of an \<open>int\<close> rounds, and fails where the result is no double.
\<close>

datatype py_float = Fin rat | PosInf | NegInf | NaN

datatype pynum = PyInt int | PyFloat py_float

section \<open>\<open>float(v)\<close>\<close>

text \<open>\<open>n\<close> divided by \<open>d\<close>, to the nearest integer, halves to the even one.\<close>

definition round_half_even :: "int \<Rightarrow> int \<Rightarrow> int" where
  "round_half_even n d =
     (let q = n div d; r = n mod d in if 2 * r > d \<or> 2 * r = d \<and> odd q then q + 1 else q)"

text \<open>The double nearest to an integer that is not negative: 53 bits of it.\<close>

definition nearest_double :: "int \<Rightarrow> int" where
  "nearest_double n =
     (if n < 2 ^ 53 then n
      else (let u = 2 ^ nat (bitlen n - 53) in u * round_half_even n u))"

text \<open>\<open>None\<close>: the \<open>OverflowError\<close> of an integer that rounds to a power beyond the doubles.\<close>

definition float_of :: "pynum \<Rightarrow> py_float option" where
  "float_of v =
     (case v of
        PyFloat f \<Rightarrow> Some f
      | PyInt n \<Rightarrow> (let m = nearest_double \<bar>n\<bar>
                   in if m \<ge> 2 ^ 1024 then None else Some (Fin (of_int (sgn n * m)))))"

text \<open>\<open>isinstance(v, (int, float))\<close>: a Python bool is an int.\<close>

definition py_number :: "pynum json option \<Rightarrow> pynum option" where
  "py_number v =
     (case v of Some (JNum n) \<Rightarrow> Some n | Some (JBool b) \<Rightarrow> Some (PyInt (if b then 1 else 0)) | _ \<Rightarrow> None)"

section \<open>Comparison and arithmetic\<close>

definition flt_less :: "py_float \<Rightarrow> py_float \<Rightarrow> bool" where
  "flt_less a b =
     (case a of
        NaN \<Rightarrow> False
      | PosInf \<Rightarrow> False
      | NegInf \<Rightarrow> b \<noteq> NaN \<and> b \<noteq> NegInf
      | Fin r \<Rightarrow> (case b of Fin s \<Rightarrow> r < s | PosInf \<Rightarrow> True | _ \<Rightarrow> False))"

definition flt_le :: "py_float \<Rightarrow> py_float \<Rightarrow> bool" where
  "flt_le a b \<longleftrightarrow> a \<noteq> NaN \<and> b \<noteq> NaN \<and> \<not> flt_less b a"

definition flt_neg :: "py_float \<Rightarrow> py_float" where
  "flt_neg a = (case a of Fin r \<Rightarrow> Fin (- r) | PosInf \<Rightarrow> NegInf | NegInf \<Rightarrow> PosInf | NaN \<Rightarrow> NaN)"

definition flt_times :: "py_float \<Rightarrow> rat \<Rightarrow> py_float" where
  "flt_times a r =
     (case a of
        Fin s \<Rightarrow> Fin (s * r)
      | NaN \<Rightarrow> NaN
      | _ \<Rightarrow> if r = 0 then NaN else if r > 0 then a else flt_neg a)"

text \<open>\<open>max(a, b)\<close> and \<open>min(a, b)\<close> keep the first unless the second compares as better.\<close>

definition py_max :: "py_float \<Rightarrow> py_float \<Rightarrow> py_float" where
  "py_max a b = (if flt_less a b then b else a)"

definition py_min :: "py_float \<Rightarrow> py_float \<Rightarrow> py_float" where
  "py_min a b = (if flt_less b a then b else a)"

text \<open>An order that agrees with the comparison where there is no \<open>NaN\<close>.\<close>

definition flt_rank :: "py_float \<Rightarrow> int \<times> rat" where
  "flt_rank a = (case a of Fin r \<Rightarrow> (0, r) | PosInf \<Rightarrow> (1, 0) | NegInf \<Rightarrow> (- 1, 0) | NaN \<Rightarrow> (2, 0))"

lemmas flt_defs = flt_less_def flt_le_def flt_neg_def flt_times_def py_max_def py_min_def

lemma flt_le_neg_rank:
  "a \<noteq> NaN \<Longrightarrow> b \<noteq> NaN \<Longrightarrow> flt_rank (flt_neg b) \<le> flt_rank (flt_neg a) \<Longrightarrow> flt_le a b"
  by (auto simp: flt_defs flt_rank_def split: py_float.splits)

lemma not_nan [simp]:
  "flt_neg a = NaN \<longleftrightarrow> a = NaN" "0 < r \<Longrightarrow> flt_times a r = NaN \<longleftrightarrow> a = NaN"
  by (auto simp: flt_defs split: py_float.splits)

lemma py_max_not_nan: "a \<noteq> NaN \<Longrightarrow> py_max a b \<noteq> NaN" "a \<noteq> NaN \<Longrightarrow> py_min a b \<noteq> NaN"
  by (auto simp: flt_defs split: py_float.splits)

lemma not_less_le: "a \<noteq> NaN \<Longrightarrow> b \<noteq> NaN \<Longrightarrow> \<not> flt_less a b \<Longrightarrow> flt_le b a"
  by (simp add: flt_le_def)

section \<open>Which integers overflow\<close>

lemma round_half_even_below:
  assumes "0 < d" "even d" "n < m * d - d div 2"
  shows "round_half_even n d < m"
proof -
  obtain h where h: "d = 2 * h" using assms(2) by blast
  define q r where "q = n div d" and "r = n mod d"
  have n: "n = q * d + r" "0 \<le> r" "r < d" using assms(1) by (simp_all add: q_def r_def)
  have "q * d + r < m * d - h" using assms(3) h n(1) by simp
  then have lt: "q * d < m * d" using n(2) h assms(1) by linarith
  then have q: "q < m" using assms(1) by (simp add: mult_less_cancel_right)
  show ?thesis
  proof (cases "q + 1 < m")
    case False
    with q have "m = q + 1" by simp
    then have "2 * r < d" using assms(3) h n(1) by (simp add: algebra_simps)
    then show ?thesis using q by (simp add: round_half_even_def Let_def q_def r_def)
  next
    case True
    then show ?thesis using q by (simp add: round_half_even_def Let_def q_def r_def)
  qed
qed

lemma overflow_is_large:
  assumes "float_of (PyInt n) = None"
  shows "2 ^ 1024 - 2 ^ 970 \<le> \<bar>n\<bar>"
proof (rule ccontr)
  assume c: "\<not> ?thesis"
  have big: "2 ^ 1024 \<le> nearest_double \<bar>n\<bar>"
    using assms by (simp add: float_of_def Let_def split: if_splits)
  show False
  proof (cases "\<bar>n\<bar> < 2 ^ 53")
    case True
    then show ?thesis using big by (simp add: nearest_double_def)
  next
    case False
    define L where "L = floorlog 2 (nat \<bar>n\<bar>)"
    define u :: int where "u = 2 ^ (L - 53)"
    have small: "\<bar>n\<bar> < 2 ^ 1024 - 2 ^ 970" using c by simp
    then have "nat \<bar>n\<bar> < 2 ^ 1024" by (simp add: nat_less_iff)
    then have L: "L \<le> 1024" unfolding L_def by (rule floorlog_leI) simp_all
    have "2 ^ 53 \<le> nat \<bar>n\<bar>" using False by (simp add: le_nat_iff)
    then have L54: "54 \<le> L" unfolding L_def by (intro floorlog_geI) simp_all
    have "nat \<bar>n\<bar> < 2 ^ L" unfolding L_def by (rule floorlog_leD) simp_all
    then have n: "\<bar>n\<bar> < 2 ^ L" by (simp add: nat_less_iff)
    have e: "2 ^ 1024 \<le> u * round_half_even \<bar>n\<bar> u"
      using big False by (simp add: nearest_double_def Let_def u_def L_def bitlen_def nat_diff_distrib')
    have u: "0 < u" "even u" using L54 by (simp_all add: u_def)
    show False
    proof (cases "L = 1024")
      case True
      then have v: "u = 2 ^ 971" by (simp add: u_def)
      have "round_half_even \<bar>n\<bar> u < 2 ^ 53"
        by (rule round_half_even_below[OF u]) (use small in \<open>simp add: v\<close>)
      then show False using e by (simp add: v)
    next
      case False
      then have "L \<le> 1023" using L by simp
      have "(2 :: int) ^ L = 2 ^ 53 * u" using L54 unfolding u_def power_add [symmetric] by simp
      then have "\<bar>n\<bar> < (2 ^ 53 + 1) * u - u div 2"
      proof -
        have "u div 2 < u" using u(1) by (simp add: int_div_less_self)
        moreover have "(2 ^ 53 + 1) * u = 2 ^ L + u" by (simp only: \<open>2 ^ L = 2 ^ 53 * u\<close> distrib_right mult_1)
        ultimately show ?thesis using n by linarith
      qed
      then have "round_half_even \<bar>n\<bar> u < 2 ^ 53 + 1" by (rule round_half_even_below[OF u])
      then have "u * round_half_even \<bar>n\<bar> u \<le> u * 2 ^ 53" using u by (intro mult_left_mono) simp_all
      also have "\<dots> = 2 ^ L" using \<open>2 ^ L = 2 ^ 53 * u\<close> by simp
      also have "\<dots> \<le> 2 ^ 1023" using \<open>L \<le> 1023\<close> by (intro power_increasing) simp_all
      finally show False using e by simp
    qed
  qed
qed

text \<open>The bound is exact, and above 53 bits a conversion rounds.\<close>

lemma float_of_examples:
  "float_of (PyInt (2 ^ 1024 - 2 ^ 970)) = None"
  "float_of (PyInt (2 ^ 53 + 1)) = Some (Fin (2 ^ 53))"
  "float_of (PyInt (- 7)) = Some (Fin (- 7))"
  by code_simp+

end
