(* ===== verification/Classifier.thy ===== *)
theory Classifier
  imports TaxonomyParser PyNumbers "HOL-Library.Multiset"
begin

text \<open>
  Document classification: src/ontorag/taxonomy/class_index.py (candidates by similarity),
  src/ontorag/taxonomy/neighbors.py (candidates of similar documents) and
  src/ontorag/taxonomy/classifier.py (the prior, the single model call, the threshold rule).

  Arithmetic on floats is exact. The distances of the vector store and the probabilities of the prior are
  finite floats, rationals here; the scores of an answer, and of the assignments stored with a document, are
  any numbers that JSON text can hold in Python (\<open>PyNumbers\<close>). \<open>json.loads\<close> is
  the parameter \<open>loads\<close>, \<open>str.lower\<close> the parameter \<open>lower\<close>, \<open>difflib.get_close_matches\<close> the parameter
  \<open>close\<close>, \<open>list.sort\<close> of the threshold rule the parameter \<open>srt\<close>: Python says nothing about the order it gives
  when a \<open>NaN\<close> is compared. A call that may raise is an option argument: the hits of the vector store, the
  answer of the model, the classes of a document. Rows of the store carry an id, and labels are texts.
\<close>

section \<open>Candidates by similarity\<close>

definition compose_indexable_text :: "pystr \<Rightarrow> pystr \<Rightarrow> pystr" where
  "compose_indexable_text label comment =
     (if py_strip comment \<noteq> [] then py_strip label @ [32, 8212, 32] @ py_strip comment
      else py_strip label)"

record class_row =
  cr_iri :: iri
  cr_label :: pystr
  cr_content :: pystr

definition text_attr :: "attrs \<Rightarrow> string \<Rightarrow> pystr" where
  "text_attr d k = (case map_of d k of Some (AText s) \<Rightarrow> s | _ \<Rightarrow> [])"

text \<open>\<open>build_class_index\<close>: the payload it upserts; an empty payload is not sent.\<close>

definition build_class_index :: "'g graph_store \<Rightarrow> 'g \<Rightarrow> iri list \<Rightarrow> (iri, class_row) odict" where
  "build_class_index S g iris =
     fold (\<lambda>i payload. case gs_get_node S g i of
         None \<Rightarrow> payload
       | Some node \<Rightarrow>
           (let label = text_attr node ''label'';
                content = compose_indexable_text label (text_attr node ''description'')
            in if content = [] then payload
               else od_set i \<lparr>cr_iri = i, cr_label = label, cr_content = content\<rparr> payload)) iris []"

record candidate =
  ca_iri :: iri
  ca_label :: pystr
  ca_score :: rat
  ca_support :: "nat option"

text \<open>One row of a similarity query: the fields the two readers look at.\<close>

record vhit =
  vh_iri :: "pystr option"
  vh_id :: "pystr option"
  vh_full_doc_id :: "pystr option"
  vh_doc_id :: "pystr option"
  vh_label :: "pystr option"
  vh_distance :: "rat option"

definition clip01 :: "rat \<Rightarrow> rat" where
  "clip01 x = max 0 (min 1 x)"

definition similarity :: "vhit \<Rightarrow> rat" where
  "similarity h = clip01 (1 - (case vh_distance h of None \<Rightarrow> 1 | Some d \<Rightarrow> d))"

text \<open>\<open>a or b\<close> on optional strings.\<close>

definition py_or :: "pystr option \<Rightarrow> pystr option \<Rightarrow> pystr option" where
  "py_or a b = (case a of Some s \<Rightarrow> if s \<noteq> [] then a else b | None \<Rightarrow> b)"

definition retrieve_candidate_classes :: "vhit list \<Rightarrow> candidate list" where
  "retrieve_candidate_classes hits =
     map (\<lambda>h. \<lparr>ca_iri = (case py_or (vh_iri h) (vh_id h) of None \<Rightarrow> [] | Some i \<Rightarrow> i),
               ca_label = (case vh_label h of None \<Rightarrow> [] | Some l \<Rightarrow> l),
               ca_score = similarity h, ca_support = None\<rparr>) hits"

section \<open>Candidates of similar documents\<close>

definition UNCATEGORIZED_IRI :: iri where
  "UNCATEGORIZED_IRI = lit ''ontorag:Uncategorized''"

definition neighbor_weights :: "vhit list \<Rightarrow> (pystr, rat) odict" where
  "neighbor_weights hits =
     fold (\<lambda>h ws. case py_or (py_or (vh_full_doc_id h) (vh_doc_id h)) (vh_id h) of
         None \<Rightarrow> ws
       | Some d \<Rightarrow> if d = [] then ws
                  else od_set d (max (case map_of ws d of None \<Rightarrow> 0 | Some w \<Rightarrow> w) (similarity h)) ws)
       hits []"

record votes =
  vo_scores :: "(iri, rat) odict"
  vo_support :: "(iri, nat) odict"
  vo_labels :: "(iri, pystr) odict"

text \<open>\<open>max(0.0, min(1.0, x))\<close>: a \<open>NaN\<close> is not below 1, and counts as 1.\<close>

definition clip_float :: "py_float \<Rightarrow> rat" where
  "clip_float x = (case x of Fin r \<Rightarrow> clip01 r | NegInf \<Rightarrow> 0 | _ \<Rightarrow> 1)"

text \<open>\<open>None\<close>: the conversion of the score raises.\<close>

definition confidence :: "pynum json \<Rightarrow> py_float option" where
  "confidence a =
     (case jget a ''score'' of
        None \<Rightarrow> Some (Fin 1)
      | Some v \<Rightarrow> (case py_number (Some v) of None \<Rightarrow> Some (Fin 1) | Some n \<Rightarrow> float_of n))"

definition vote :: "rat \<Rightarrow> pynum json \<Rightarrow> votes \<Rightarrow> votes option" where
  "vote weight a vs =
     (case jtext (jget a ''iri'') of
        None \<Rightarrow> Some vs
      | Some i \<Rightarrow>
          if i = [] \<or> i = UNCATEGORIZED_IRI then Some vs
          else (case confidence a of None \<Rightarrow> None | Some x \<Rightarrow>
               (let labels = (case jtext (jget a ''label'') of
                        Some l \<Rightarrow> (if l \<noteq> [] \<and> (case map_of (vo_labels vs) i of None \<Rightarrow> [] | Some l' \<Rightarrow> l') = []
                                   then od_set i l (vo_labels vs) else vo_labels vs)
                      | None \<Rightarrow> vo_labels vs)
                in Some \<lparr>vo_scores = od_set i ((case map_of (vo_scores vs) i of None \<Rightarrow> 0 | Some s \<Rightarrow> s)
                                           + weight * clip_float x) (vo_scores vs),
                    vo_support = od_set i ((case map_of (vo_support vs) i of None \<Rightarrow> 0 | Some n \<Rightarrow> n) + 1)
                                   (vo_support vs),
                    vo_labels = labels\<rparr>)))"

fun vote_each :: "rat \<Rightarrow> pynum json list \<Rightarrow> votes \<Rightarrow> votes option" where
  "vote_each weight [] vs = Some vs"
| "vote_each weight (a # as) vs =
     (case vote weight a vs of None \<Rightarrow> None | Some vs' \<Rightarrow> vote_each weight as vs')"

text \<open>The votes of all documents: \<open>Inl True\<close> when a lookup raises, which ends the search with no candidates;
  \<open>Inl False\<close> when a score is too large for a float, which is raised to the caller.\<close>

fun collect_votes ::
    "(pystr \<Rightarrow> pynum json list option) \<Rightarrow> (pystr \<times> rat) list \<Rightarrow> votes \<Rightarrow> bool + votes" where
  "collect_votes classes_of [] vs = Inr vs"
| "collect_votes classes_of ((d, w) # ws) vs =
     (case classes_of d of
        None \<Rightarrow> Inl True
      | Some as \<Rightarrow> (case vote_each w as vs of
            None \<Rightarrow> Inl False
          | Some vs' \<Rightarrow> collect_votes classes_of ws vs'))"

definition neighbor_class_candidates ::
    "vhit list option \<Rightarrow> (pystr \<Rightarrow> pynum json list option) \<Rightarrow> candidate list option" where
  "neighbor_class_candidates hits classes_of =
     (case hits of
        None \<Rightarrow> Some []
      | Some hs \<Rightarrow>
          (case collect_votes classes_of (neighbor_weights hs) \<lparr>vo_scores = [], vo_support = [], vo_labels = []\<rparr> of
             Inl handled \<Rightarrow> if handled then Some [] else None
           | Inr vs \<Rightarrow>
               if vo_scores vs = [] then Some []
               else (let m = Max (snd ` set (vo_scores vs)); top = (if m = 0 then 1 else m)
                     in Some (sort_key (\<lambda>c. (- ca_score c, - int (the (ca_support c)), ca_iri c))
                          (map (\<lambda>(i, s). \<lparr>ca_iri = i,
                                ca_label = (case map_of (vo_labels vs) i of None \<Rightarrow> [] | Some l \<Rightarrow> l),
                                ca_score = s / top,
                                ca_support = Some (case map_of (vo_support vs) i of None \<Rightarrow> 0 | Some n \<Rightarrow> n)\<rparr>)
                            (vo_scores vs))))))"

text \<open>\<open>merge_candidates\<close>: union by IRI with the best score.\<close>

definition merge_index :: "candidate \<Rightarrow> (iri, candidate) odict \<Rightarrow> (iri, candidate) odict" where
  "merge_index c m = od_set (ca_iri c) (c\<lparr>ca_support := None\<rparr>) m"

definition merge_neighbor :: "rat \<Rightarrow> candidate \<Rightarrow> (iri, candidate) odict \<Rightarrow> (iri, candidate) odict" where
  "merge_neighbor neighbor_weight c m =
     (let entry = (case map_of m (ca_iri c) of
            None \<Rightarrow> \<lparr>ca_iri = ca_iri c, ca_label = [], ca_score = 0, ca_support = None\<rparr>
          | Some e \<Rightarrow> e);
          e1 = entry\<lparr>ca_score := max (ca_score entry) (ca_score c * neighbor_weight)\<rparr>;
          e2 = (if ca_label e1 = [] \<and> ca_label c \<noteq> [] then e1\<lparr>ca_label := ca_label c\<rparr> else e1);
          e3 = (if ca_support c \<noteq> None then e2\<lparr>ca_support := ca_support c\<rparr> else e2)
      in od_set (ca_iri c) e3 m)"

definition merge_candidates :: "candidate list \<Rightarrow> candidate list \<Rightarrow> rat \<Rightarrow> candidate list" where
  "merge_candidates index_candidates neighbor_candidates neighbor_weight =
     sort_key (\<lambda>c. (- ca_score c, ca_iri c))
       (map snd (fold (merge_neighbor neighbor_weight) neighbor_candidates
                   (fold merge_index index_candidates [])))"

section \<open>The threshold rule\<close>

type_synonym assignment = "iri \<times> py_float"

text \<open>What the loop makes of one element: nothing, an assignment, or (\<open>None\<close>) the exception of \<open>float\<close>.\<close>

definition clean_assignment :: "pynum json \<Rightarrow> assignment option option" where
  "clean_assignment a =
     (case (jtext (jget a ''iri''), py_number (jget a ''score'')) of
        (Some i, Some n) \<Rightarrow> (case float_of n of None \<Rightarrow> None | Some s \<Rightarrow> Some (Some (i, s)))
      | _ \<Rightarrow> Some None)"

fun clean_all :: "pynum json list \<Rightarrow> assignment list option" where
  "clean_all [] = Some []"
| "clean_all (a # as) =
     (case clean_assignment a of
        None \<Rightarrow> None
      | Some x \<Rightarrow> map_option (\<lambda>rest. (case x of None \<Rightarrow> rest | Some e \<Rightarrow> e # rest)) (clean_all as))"

fun keep_loop :: "nat \<Rightarrow> py_float \<Rightarrow> assignment list \<Rightarrow> assignment list \<Rightarrow> assignment list" where
  "keep_loop max_classes cutoff kept [] = kept"
| "keep_loop max_classes cutoff kept (a # as) =
     (let kept' = (if flt_le cutoff (snd a) then kept @ [a] else kept)
      in if length kept' \<ge> max_classes then kept' else keep_loop max_classes cutoff kept' as)"

definition uncategorized :: "assignment list" where
  "uncategorized = [(UNCATEGORIZED_IRI, Fin 0)]"

definition threshold_sorted :: "nat \<Rightarrow> rat \<Rightarrow> rat \<Rightarrow> assignment list \<Rightarrow> assignment list" where
  "threshold_sorted max_classes secondary_ratio min_score cleaned =
     (case cleaned of
        [] \<Rightarrow> uncategorized
      | a # as \<Rightarrow>
          if flt_less (snd a) (Fin min_score) then uncategorized
          else take max_classes (keep_loop max_classes (flt_times (snd a) secondary_ratio) [a] as))"

definition apply_threshold_rule ::
    "(assignment list \<Rightarrow> assignment list) \<Rightarrow> nat \<Rightarrow> rat \<Rightarrow> rat \<Rightarrow> pynum json list \<Rightarrow> assignment list option" where
  "apply_threshold_rule srt max_classes secondary_ratio min_score assignments =
     map_option (\<lambda>cleaned. threshold_sorted max_classes secondary_ratio min_score (srt cleaned))
       (clean_all assignments)"

section \<open>Reading the model's answer\<close>

definition strip_ticks :: "pystr \<Rightarrow> pystr" where
  "strip_ticks s = rev (dropWhile (\<lambda>c. c = 96) (rev (dropWhile (\<lambda>c. c = 96) s)))"

definition lower_ascii :: "nat \<Rightarrow> nat" where
  "lower_ascii c = (if 65 \<le> c \<and> c \<le> 90 then c + 32 else c)"

definition unfence :: "pystr \<Rightarrow> pystr" where
  "unfence raw =
     (let s = py_strip raw
      in if take 3 s = [96, 96, 96]
         then (let t = strip_ticks s
               in if map lower_ascii (take 4 t) = lit ''json''
                  then dropWhile py_isspace (drop 4 t) else t)
         else s)"

text \<open>The text from the first opening to the last closing brace, when there is such a text.\<close>

definition brace_slice :: "pystr \<Rightarrow> pystr option" where
  "brace_slice s =
     (let front = takeWhile (\<lambda>c. c \<noteq> 123) s; back = takeWhile (\<lambda>c. c \<noteq> 125) (rev s);
          start = length front; end1 = length s - Suc (length back)
      in if 123 \<notin> set s \<or> 125 \<notin> set s \<or> end1 \<le> start then None
         else Some (slice start (Suc end1) s))"

definition parsed_names :: "(string, pynum json) odict \<Rightarrow> pystr list" where
  "parsed_names o' =
     (case map_of o' ''suggested_names'' of
        Some (JArr ns) \<Rightarrow> List.map_filter (\<lambda>n. case jtext (Some n) of
            Some s \<Rightarrow> (if py_strip s \<noteq> [] then Some (py_strip s) else None) | None \<Rightarrow> None) ns
      | _ \<Rightarrow> [])"

definition parse_llm_response ::
    "(pystr \<Rightarrow> pynum json option) \<Rightarrow> pystr \<Rightarrow> (pynum json list \<times> pystr list) option" where
  "parse_llm_response loads raw =
     (let s = unfence raw;
          parsed = (case loads s of Some v \<Rightarrow> Some v | None \<Rightarrow> Option.bind (brace_slice s) loads)
      in case parsed of
           Some (JObj o') \<Rightarrow>
             (case map_of o' ''assignments'' of
                None \<Rightarrow> Some ([], parsed_names o')
              | Some (JArr as) \<Rightarrow> Some (as, parsed_names o')
              | Some _ \<Rightarrow> None)
         | _ \<Rightarrow> None)"


section \<open>Names to candidates\<close>

definition normalize_name :: "(pystr \<Rightarrow> pystr) \<Rightarrow> pystr \<Rightarrow> pystr" where
  "normalize_name lower name =
     filter (\<lambda>c. (97 \<le> c \<and> c \<le> 122) \<or> (48 \<le> c \<and> c \<le> 57)) (lower name)"

definition name_pool :: "(pystr \<Rightarrow> pystr) \<Rightarrow> candidate list \<Rightarrow> (pystr, iri) odict" where
  "name_pool lower cands =
     fold (\<lambda>c pool. let key = normalize_name lower (ca_label c)
         in if key \<noteq> [] \<and> map_of pool key = None \<and> ca_iri c \<noteq> [] then od_set key (ca_iri c) pool
            else pool) cands []"

text \<open>The loop over the names: matched IRIs and unmatched names, in the order of the names.\<close>

fun reconcile_loop ::
    "(pystr \<Rightarrow> pystr) \<Rightarrow> (pystr \<Rightarrow> pystr list \<Rightarrow> pystr option) \<Rightarrow> pystr list \<Rightarrow> pystr set
      \<Rightarrow> (pystr, iri) odict \<Rightarrow> iri list \<times> pystr list" where
  "reconcile_loop lower close [] seen pool = ([], [])"
| "reconcile_loop lower close (name # names) seen pool =
     (let key = normalize_name lower name
      in if key = [] \<or> key \<in> seen then reconcile_loop lower close names seen pool
         else (case (if map_of pool key \<noteq> None then Some key else close key (od_keys pool)) of
             None \<Rightarrow> (let (m, u) = reconcile_loop lower close names (insert key seen) pool
                      in (m, name # u))
           | Some hit \<Rightarrow>
               (let (m, u) = reconcile_loop lower close names (insert key seen) (od_del hit pool)
                in (the (map_of pool hit) # m, u))))"

definition reconcile_names ::
    "(pystr \<Rightarrow> pystr) \<Rightarrow> (pystr \<Rightarrow> pystr list \<Rightarrow> pystr option) \<Rightarrow> pystr list \<Rightarrow> candidate list
      \<Rightarrow> iri list \<times> pystr list" where
  "reconcile_names lower close names cands = reconcile_loop lower close names {} (name_pool lower cands)"

section \<open>The classifier\<close>

record classifier =
  cl_max_classes :: nat
  cl_secondary_ratio :: rat
  cl_min_score :: rat
  cl_neighbor_weight :: rat
  cl_prior_skip_threshold :: rat
  cl_lower :: "pystr \<Rightarrow> pystr"
  cl_close :: "pystr \<Rightarrow> pystr list \<Rightarrow> pystr option"
  cl_loads :: "pystr \<Rightarrow> pynum json option"
  cl_sort :: "assignment list \<Rightarrow> assignment list"

definition threshold :: "classifier \<Rightarrow> pynum json list \<Rightarrow> assignment list option" where
  "threshold K as = apply_threshold_rule (cl_sort K) (cl_max_classes K) (cl_secondary_ratio K) (cl_min_score K) as"

text \<open>\<open>neighbors\<close>: \<open>None\<close> without a provider or when it raises.\<close>

definition gather_candidates :: "classifier \<Rightarrow> vhit list \<Rightarrow> candidate list option \<Rightarrow> candidate list" where
  "gather_candidates K hits neighbors =
     (let cands = retrieve_candidate_classes hits
      in case neighbors of
           None \<Rightarrow> cands
         | Some ns \<Rightarrow> if ns = [] then cands else merge_candidates cands ns (cl_neighbor_weight K))"

text \<open>\<open>prior\<close>: the probabilities, \<open>None\<close> without a prior or when it raises, and its labels.\<close>

definition apply_prior ::
    "classifier \<Rightarrow> (iri, rat) odict option \<Rightarrow> (iri \<rightharpoonup> pystr) \<Rightarrow> candidate list
      \<Rightarrow> candidate list \<times> (iri, rat) odict" where
  "apply_prior K prior labels cands =
     (case prior of
        None \<Rightarrow> (cands, [])
      | Some probs \<Rightarrow>
          if probs = [] then (cands, [])
          else (let by_iri = fold (\<lambda>c m. od_set (ca_iri c) c m) cands [];
                    ranked = fold (\<lambda>(i, p) m. case map_of m i of
                        Some c \<Rightarrow> od_set i (c\<lparr>ca_score := max (ca_score c) p\<rparr>) m
                      | None \<Rightarrow>
                          if p \<ge> cl_min_score K \<and> i \<noteq> UNCATEGORIZED_IRI
                          then od_set i \<lparr>ca_iri = i,
                                 ca_label = (case labels i of None \<Rightarrow> [] | Some l \<Rightarrow> l),
                                 ca_score = p, ca_support = None\<rparr> m
                          else m) probs by_iri
                in (sort_key (\<lambda>c. (- ca_score c, ca_iri c)) (map snd ranked), probs)))"

record classification =
  cn_assignments :: "assignment list"
  cn_unmatched_names :: "pystr list"
  cn_suggested_names :: "pystr list"
  cn_candidates :: "candidate list"
  cn_llm_called :: bool

definition nothing_found :: "candidate list \<Rightarrow> bool \<Rightarrow> classification" where
  "nothing_found cands called = \<lparr>cn_assignments = uncategorized, cn_unmatched_names = [],
     cn_suggested_names = [], cn_candidates = cands, cn_llm_called = called\<rparr>"

text \<open>\<open>max(probs.items(), key=...)\<close>: the first of the greatest.\<close>

definition top_probability :: "(iri, rat) odict \<Rightarrow> iri \<times> rat" where
  "top_probability probs = hd (filter (\<lambda>e. snd e = Max (snd ` set probs)) probs)"

definition json_assignment :: "iri \<times> py_float \<Rightarrow> pynum json" where
  "json_assignment a = JObj [(''iri'', JStr (fst a)), (''score'', JNum (PyFloat (snd a)))]"

text \<open>The scores of the assignments, \<open>None\<close> when one is too large for a float.\<close>

fun float_scores :: "pynum json list \<Rightarrow> py_float list option" where
  "float_scores [] = Some []"
| "float_scores (a # as) =
     (case py_number (jget a ''score'') of
        None \<Rightarrow> float_scores as
      | Some n \<Rightarrow> (case float_of n of None \<Rightarrow> None | Some s \<Rightarrow> map_option (Cons s) (float_scores as)))"

definition py_max_list :: "py_float list \<Rightarrow> py_float" where
  "py_max_list xs = (case xs of [] \<Rightarrow> Fin 0 | x # rest \<Rightarrow> fold (\<lambda>y m. py_max m y) rest x)"

text \<open>The score a matched name gets, and the assignments the names add.\<close>

definition matched_score :: "classifier \<Rightarrow> pynum json list \<Rightarrow> py_float option" where
  "matched_score K in_vocab =
     (case float_scores in_vocab of None \<Rightarrow> None | Some scores \<Rightarrow>
     (let top = py_max_list scores;
          score = py_max (flt_times top (cl_secondary_ratio K)) (Fin (cl_min_score K))
      in Some (if flt_less (Fin 0) top then py_min score top else score)))"

fun add_name :: "py_float \<Rightarrow> iri \<Rightarrow> pynum json list \<times> iri set \<Rightarrow> pynum json list \<times> iri set" where
  "add_name score i (in_vocab, assigned) =
     (if i \<in> assigned then (in_vocab, assigned)
      else (in_vocab @ [json_assignment (i, score)], insert i assigned))"

definition add_matched :: "classifier \<Rightarrow> iri list \<Rightarrow> pynum json list \<Rightarrow> pynum json list option" where
  "add_matched K matched in_vocab =
     (if matched = [] then Some in_vocab
      else map_option (\<lambda>score. fst (fold (add_name score) matched
            (in_vocab, set (List.map_filter (\<lambda>a. jtext (jget a ''iri'')) in_vocab))))
          (matched_score K in_vocab))"

text \<open>The test \<open>a.get("iri") in candidate_iris\<close>: a list or an object is not hashable, so that the test
  raises, outside every \<open>try\<close> of the caller.\<close>

definition vocabulary_test :: "iri set \<Rightarrow> pynum json \<Rightarrow> bool option" where
  "vocabulary_test iris a = (case jget a ''iri'' of
      Some (JArr _) \<Rightarrow> None
    | Some (JObj _) \<Rightarrow> None
    | Some (JStr i) \<Rightarrow> Some (i \<in> iris)
    | _ \<Rightarrow> Some False)"

fun in_vocabulary :: "iri set \<Rightarrow> pynum json list \<Rightarrow> pynum json list option" where
  "in_vocabulary iris [] = Some []"
| "in_vocabulary iris (a # as) =
     (case vocabulary_test iris a of
        None \<Rightarrow> None
      | Some b \<Rightarrow> map_option (\<lambda>rest. if b then a # rest else rest) (in_vocabulary iris as))"

definition read_answer ::
    "classifier \<Rightarrow> candidate list \<Rightarrow> pynum json list \<Rightarrow> pystr list \<Rightarrow> classification option" where
  "read_answer K cands assignments names =
     (case in_vocabulary (set (map ca_iri cands)) assignments of
        None \<Rightarrow> None
      | Some in_vocab \<Rightarrow>
          (let (matched, unmatched) = reconcile_names (cl_lower K) (cl_close K) names cands
           in case add_matched K matched in_vocab of
                None \<Rightarrow> None
              | Some added \<Rightarrow>
                  map_option (\<lambda>kept. \<lparr>cn_assignments = kept, cn_unmatched_names = unmatched,
                      cn_suggested_names = names, cn_candidates = cands, cn_llm_called = True\<rparr>)
                    (threshold K added)))"

text \<open>The classes of a prior that is confident enough.\<close>

definition confident_assignments :: "(iri, rat) odict \<Rightarrow> pynum json list" where
  "confident_assignments probs =
     map (\<lambda>e. json_assignment (fst e, Fin (snd e))) (filter (\<lambda>e. fst e \<noteq> UNCATEGORIZED_IRI) probs)"

text \<open>\<open>hits\<close>: the rows of the class index, \<open>None\<close> when the query raises (the call is not guarded).
  \<open>answer\<close>: the text the model returns, \<open>None\<close> when the call raises. The result is \<open>None\<close> when the
  exception leaves the function.\<close>

definition classify_detailed ::
    "classifier \<Rightarrow> vhit list option \<Rightarrow> candidate list option \<Rightarrow> (iri, rat) odict option \<Rightarrow> (iri \<rightharpoonup> pystr)
      \<Rightarrow> pystr option \<Rightarrow> classification option" where
  "classify_detailed K hits neighbors prior labels answer =
     (case hits of None \<Rightarrow> None | Some hs \<Rightarrow>
     (let (cands, probs) = apply_prior K prior labels (gather_candidates K hs neighbors);
          confident = (case probs of [] \<Rightarrow> False
            | e # es \<Rightarrow> (let (top_iri, top_p) = top_probability (e # es)
                in top_iri \<noteq> UNCATEGORIZED_IRI \<and> top_p \<ge> cl_prior_skip_threshold K))
      in if confident
         then map_option (\<lambda>kept. \<lparr>cn_assignments = kept, cn_unmatched_names = [],
                  cn_suggested_names = [], cn_candidates = cands, cn_llm_called = False\<rparr>)
                (threshold K (confident_assignments probs))
         else if cands = [] then Some (nothing_found [] False)
         else (case answer of
                 None \<Rightarrow> Some (nothing_found cands True)
               | Some raw \<Rightarrow>
                   (case parse_llm_response (cl_loads K) raw of
                      None \<Rightarrow> Some (nothing_found cands True)
                    | Some (assignments, names) \<Rightarrow> read_answer K cands assignments names))))"

definition classify ::
    "classifier \<Rightarrow> vhit list option \<Rightarrow> candidate list option \<Rightarrow> (iri, rat) odict option \<Rightarrow> (iri \<rightharpoonup> pystr)
      \<Rightarrow> pystr option \<Rightarrow> assignment list option" where
  "classify K hits neighbors prior labels answer =
     map_option cn_assignments (classify_detailed K hits neighbors prior labels answer)"

section \<open>The threshold rule keeps the best\<close>

text \<open>What Python documents of \<open>list.sort\<close>: a permutation, and where all pairs compare (no \<open>NaN\<close>) the
  stable order, here by falling score.\<close>

definition sorts :: "(assignment list \<Rightarrow> assignment list) \<Rightarrow> bool" where
  "sorts srt \<longleftrightarrow> (\<forall>xs. mset (srt xs) = mset xs
     \<and> ((\<forall>x \<in> set xs. snd x \<noteq> NaN) \<longrightarrow> srt xs = sort_key (\<lambda>a. flt_rank (flt_neg (snd a))) xs))"

lemma set_sorts: "sorts srt \<Longrightarrow> set (srt xs) = set xs"
  by (metis mset_eq_setD sorts_def)

lemma sorted_sorts:
  assumes "sorts srt" "\<forall>x \<in> set xs. snd x \<noteq> NaN"
  shows "sorted_wrt (\<lambda>a b. flt_le (snd b) (snd a)) (srt xs)"
proof -
  have s: "srt xs = sort_key (\<lambda>a. flt_rank (flt_neg (snd a))) xs" using assms by (simp add: sorts_def)
  have "sorted_wrt (\<lambda>a b. flt_rank (flt_neg (snd a)) \<le> flt_rank (flt_neg (snd b))) (srt xs)"
    unfolding s using sorted_sort_key [of "\<lambda>a. flt_rank (flt_neg (snd a))" xs] by (simp add: sorted_map)
  then show ?thesis
    by (rule sorted_wrt_mono_rel [rotated]) (use assms set_sorts in \<open>auto intro: flt_le_neg_rank\<close>)
qed

lemma take_keep_loop:
  "take m (keep_loop m c kept as) = take m (kept @ filter (\<lambda>a. flt_le c (snd a)) as)"
proof (induction as arbitrary: kept)
  case (Cons a as)
  show ?case
  proof (cases "length (if flt_le c (snd a) then kept @ [a] else kept) \<ge> m")
    case True
    then show ?thesis by (cases "flt_le c (snd a)") (auto simp: Let_def take_Cons')
  next
    case False
    then have "take m (keep_loop m c kept (a # as))
        = take m (keep_loop m c (if flt_le c (snd a) then kept @ [a] else kept) as)"
      by (simp add: Let_def)
    also have "\<dots> = take m ((if flt_le c (snd a) then kept @ [a] else kept) @ filter (\<lambda>a. flt_le c (snd a)) as)"
      by (rule Cons.IH)
    finally show ?thesis by (cases "flt_le c (snd a)") simp_all
  qed
qed simp

text \<open>The rule without the loop: test the best against the floor, keep those within the ratio.\<close>

lemma threshold_sorted_exact:
  "threshold_sorted m ratio low cleaned =
     (case cleaned of
        [] \<Rightarrow> uncategorized
      | a # rest \<Rightarrow> if flt_less (snd a) (Fin low) then uncategorized
                   else take m (a # filter (\<lambda>b. flt_le (flt_times (snd a) ratio) (snd b)) rest))"
  by (simp add: threshold_sorted_def take_keep_loop split: list.split)

lemma clean_all_source:
  "clean_all as = Some cs \<Longrightarrow> \<forall>x \<in> set cs. \<exists>a \<in> set as. clean_assignment a = Some (Some x)"
  by (induction as arbitrary: cs) (simp, fastforce split: option.splits)

definition kept_well :: "nat \<Rightarrow> rat \<Rightarrow> rat \<Rightarrow> assignment list \<Rightarrow> bool" where
  "kept_well m ratio low r \<longleftrightarrow> sorted_wrt (\<lambda>a b. flt_le (snd b) (snd a)) r
     \<and> (r = uncategorized \<or> flt_le (Fin low) (snd (hd r))
          \<and> (\<forall>a \<in> set (tl r). flt_le (flt_times (snd (hd r)) ratio) (snd a)))"

lemma kept_well_uncategorized: "kept_well m ratio low uncategorized"
  by (simp add: kept_well_def uncategorized_def)

lemma threshold_rule_size:
  "1 \<le> m \<Longrightarrow> 1 \<le> length (threshold_sorted m ratio low cleaned) \<and> length (threshold_sorted m ratio low cleaned) \<le> m"
  by (auto simp: threshold_sorted_exact uncategorized_def take_Cons' min_def split: list.split)

lemma threshold_rule_kept_well:
  assumes "1 \<le> m" "sorted_wrt (\<lambda>a b. flt_le (snd b) (snd a)) cleaned" "\<forall>x \<in> set cleaned. snd x \<noteq> NaN"
  shows "kept_well m ratio low (threshold_sorted m ratio low cleaned)"
proof (cases cleaned)
  case (Cons a rest)
  show ?thesis
  proof (cases "flt_less (snd a) (Fin low)")
    case False
    let ?f = "filter (\<lambda>b. flt_le (flt_times (snd a) ratio) (snd b)) rest"
    have r: "threshold_sorted m ratio low cleaned = a # take (m - 1) ?f"
      using Cons False assms by (simp add: threshold_sorted_exact take_Cons')
    have s: "sorted_wrt (\<lambda>a b. flt_le (snd b) (snd a)) (a # rest)" using assms(2) Cons by simp
    then have "sorted_wrt (\<lambda>a b. flt_le (snd b) (snd a)) (take (m - 1) ?f)"
      by (simp add: sorted_wrt_take sorted_wrt_filter)
    moreover have "\<forall>b \<in> set (take (m - 1) ?f). flt_le (snd b) (snd a) \<and> flt_le (flt_times (snd a) ratio) (snd b)"
      using s by (auto dest!: in_set_takeD)
    moreover have "flt_le (Fin low) (snd a)" using False assms(3) Cons not_less_le [of "snd a" "Fin low"] by simp
    ultimately show ?thesis unfolding r kept_well_def list.sel sorted_wrt.simps by blast
  qed (use Cons in \<open>simp add: threshold_sorted_exact kept_well_uncategorized\<close>)
qed (simp add: threshold_sorted_exact kept_well_uncategorized)

lemma threshold_rule_source:
  "set (threshold_sorted m ratio low cleaned) \<subseteq> set cleaned \<union> set uncategorized"
  by (auto simp: threshold_sorted_exact split: list.split dest!: in_set_takeD)

text \<open>An assignment without a score that is no number.\<close>

definition scored :: "pynum json \<Rightarrow> bool" where
  "scored a \<longleftrightarrow> py_number (jget a ''score'') \<noteq> Some (PyFloat NaN)"

lemma float_of_not_nan: "float_of n = Some f \<Longrightarrow> n \<noteq> PyFloat NaN \<Longrightarrow> f \<noteq> NaN"
  by (auto simp: float_of_def Let_def split: pynum.splits if_splits)

lemma clean_assignment_not_nan: "clean_assignment a = Some (Some x) \<Longrightarrow> scored a \<Longrightarrow> snd x \<noteq> NaN"
  by (auto simp: clean_assignment_def scored_def split: option.splits dest: float_of_not_nan)

lemma threshold_kept_well:
  assumes "1 \<le> cl_max_classes K" "sorts (cl_sort K)" "threshold K as = Some r" "\<forall>a \<in> set as. scored a"
  shows "kept_well (cl_max_classes K) (cl_secondary_ratio K) (cl_min_score K) r"
proof -
  obtain cs where cs: "clean_all as = Some cs"
    and r: "r = threshold_sorted (cl_max_classes K) (cl_secondary_ratio K) (cl_min_score K) (cl_sort K cs)"
    using assms(3) by (auto simp: threshold_def apply_threshold_rule_def)
  have n: "\<forall>x \<in> set cs. snd x \<noteq> NaN"
    using clean_all_source [OF cs] assms(4) clean_assignment_not_nan by blast
  show ?thesis unfolding r
    by (rule threshold_rule_kept_well [OF assms(1) sorted_sorts [OF assms(2) n]])
      (use n set_sorts [OF assms(2)] in auto)
qed

section \<open>Where an assignment comes from\<close>

lemma vocabulary_test_source:
  "vocabulary_test iris a = Some True \<Longrightarrow> \<exists>i \<in> iris. jtext (jget a ''iri'') = Some i"
  by (simp add: vocabulary_test_def jtext_def split: option.splits json.splits)

lemma in_vocabulary_source:
  "in_vocabulary iris as = Some vs \<Longrightarrow> \<forall>a \<in> set vs. \<exists>i \<in> iris. jtext (jget a ''iri'') = Some i"
proof (induction as arbitrary: vs)
  case (Cons a as)
  then obtain b rest where b: "vocabulary_test iris a = Some b" "in_vocabulary iris as = Some rest"
    and vs: "vs = (if b then a # rest else rest)"
    by (auto split: option.splits)
  have rest: "\<forall>a \<in> set rest. \<exists>i \<in> iris. jtext (jget a ''iri'') = Some i" by (rule Cons.IH[OF b(2)])
  have hd: "b \<longrightarrow> (\<exists>i \<in> iris. jtext (jget a ''iri'') = Some i)"
    using vocabulary_test_source[of iris a] unfolding b(1) by auto
  have "x = a \<and> b \<or> x \<in> set rest" if "x \<in> set vs" for x
    using that by (cases b) (auto simp: vs)
  then show ?case using rest hd by blast
qed simp

lemma json_assignment_iri [simp]: "jtext (jget (json_assignment a) ''iri'') = Some (fst a)"
  by (simp add: json_assignment_def jget_def jtext_def)

lemma json_assignment_score [simp]: "py_number (jget (json_assignment a) ''score'') = Some (PyFloat (snd a))"
  by (simp add: json_assignment_def jget_def py_number_def)

text \<open>What \<open>difflib.get_close_matches\<close> documents: the match is one of the given words.\<close>

definition picks_a_given :: "(pystr \<Rightarrow> pystr list \<Rightarrow> pystr option) \<Rightarrow> bool" where
  "picks_a_given close \<longleftrightarrow> (\<forall>key ks h. close key ks = Some h \<longrightarrow> h \<in> set ks)"

lemma reconcile_loop_source:
  assumes close: "picks_a_given close"
  shows "set (fst (reconcile_loop lower close names seen pool)) \<subseteq> ran (map_of pool)"
proof (induction names arbitrary: seen pool)
  case (Cons name names)
  let ?key = "normalize_name lower name"
  let ?hit = "if map_of pool ?key \<noteq> None then Some ?key else close ?key (od_keys pool)"
  show ?case
  proof (cases "?key = [] \<or> ?key \<in> seen")
    case False
    show ?thesis
    proof (cases ?hit)
      case (Some h)
      then have "map_of pool h \<noteq> None"
        using close[unfolded picks_a_given_def, rule_format, of ?key "od_keys pool" h]
        by (simp add: map_of_eq_None_iff split: if_splits)
      then obtain i where i: "map_of pool h = Some i" by blast
      have "ran (map_of (od_del h pool)) \<subseteq> ran (map_of pool)" by (auto simp: ran_def split: if_splits)
      then have "set (fst (reconcile_loop lower close names (insert ?key seen) (od_del h pool))) \<subseteq> ran (map_of pool)"
        using Cons.IH by blast
      moreover have "fst (reconcile_loop lower close (name # names) seen pool)
          = i # fst (reconcile_loop lower close names (insert ?key seen) (od_del h pool))"
        using False Some i unfolding reconcile_loop.simps Let_def by (simp add: split_beta)
      ultimately show ?thesis using i by (simp add: ranI)
    qed (use False Cons.IH in \<open>simp add: split_beta Let_def\<close>)
  qed (use Cons.IH in simp)
qed simp

lemma name_pool_source: "ran (map_of (name_pool lower cands)) \<subseteq> ca_iri ` set cands"
  unfolding name_pool_def
  by (rule fold_invariant[where Q = "\<lambda>c. c \<in> set cands"]) (auto simp: Let_def ran_def split: if_splits)

lemma reconcile_names_source:
  assumes "picks_a_given close"
  shows "set (fst (reconcile_names lower close names cands)) \<subseteq> ca_iri ` set cands"
  using reconcile_loop_source[of close lower names "{}" "name_pool lower cands"] assms
    name_pool_source[of lower cands]
  unfolding reconcile_names_def by blast

lemma add_names_each:
  assumes "\<forall>a \<in> set vs. P a" "\<forall>i \<in> set matched. P (json_assignment (i, score))"
  shows "\<forall>a \<in> set (fst (fold (add_name score) matched (vs, s))). P a"
  by (rule fold_invariant[where Q = "\<lambda>i. i \<in> set matched" and P = "\<lambda>p. \<forall>a \<in> set (fst p). P a"])
    (use assms in \<open>auto split: if_splits\<close>)

lemma add_matched_each:
  assumes "add_matched K matched vs = Some added" "\<forall>a \<in> set vs. P a"
    and "\<And>i score. i \<in> set matched \<Longrightarrow> matched_score K vs = Some score \<Longrightarrow> P (json_assignment (i, score))"
  shows "\<forall>a \<in> set added. P a"
proof (cases "matched = []")
  case False
  then obtain score where s: "matched_score K vs = Some score"
    and added: "added = fst (fold (add_name score) matched
            (vs, set (List.map_filter (\<lambda>a. jtext (jget a ''iri'')) vs)))"
    using assms(1) by (auto simp: add_matched_def)
  show ?thesis unfolding added by (rule add_names_each) (use assms(2,3) s in auto)
qed (use assms in \<open>simp add: add_matched_def\<close>)

lemma clean_assignment_iri: "clean_assignment a = Some (Some x) \<Longrightarrow> jtext (jget a ''iri'') = Some (fst x)"
  by (auto simp: clean_assignment_def split: option.splits)

lemma threshold_iris:
  assumes "threshold K as = Some r" "sorts (cl_sort K)"
  shows "fst ` set r \<subseteq> {i. \<exists>a \<in> set as. jtext (jget a ''iri'') = Some i} \<union> {UNCATEGORIZED_IRI}"
proof -
  obtain cs where cs: "clean_all as = Some cs"
    and r: "r = threshold_sorted (cl_max_classes K) (cl_secondary_ratio K) (cl_min_score K) (cl_sort K cs)"
    using assms(1) by (auto simp: threshold_def apply_threshold_rule_def)
  have "fst ` set r \<subseteq> fst ` (set cs \<union> set uncategorized)"
    unfolding r using threshold_rule_source set_sorts [OF assms(2)] by (intro image_mono) metis
  moreover have "fst ` set cs \<subseteq> {i. \<exists>a \<in> set as. jtext (jget a ''iri'') = Some i}"
    using clean_all_source [OF cs] by (auto dest!: clean_assignment_iri)
  ultimately show ?thesis by (auto simp: uncategorized_def)
qed

lemma threshold_size:
  assumes "threshold K as = Some r" "1 \<le> cl_max_classes K"
  shows "1 \<le> length r \<and> length r \<le> cl_max_classes K"
  using assms(1) threshold_rule_size [OF assms(2)] by (auto simp: threshold_def apply_threshold_rule_def)

text \<open>A score of the model is no \<open>NaN\<close>, and the ratio is positive: nor is the score of a matched name.\<close>

lemma py_max_list_not_nan: "\<forall>x \<in> set xs. x \<noteq> NaN \<Longrightarrow> py_max_list xs \<noteq> NaN"
proof (cases xs)
  case (Cons x rest)
  assume "\<forall>x \<in> set xs. x \<noteq> NaN"
  then have "fold (\<lambda>y m. py_max m y) rest x \<noteq> NaN"
    using Cons by (intro fold_invariant[where Q = "\<lambda>_. True" and P = "\<lambda>m. m \<noteq> NaN"]) (auto simp: py_max_not_nan)
  then show ?thesis using Cons by (simp add: py_max_list_def)
qed (simp add: py_max_list_def)

lemma float_scores_not_nan:
  "float_scores vs = Some ss \<Longrightarrow> \<forall>a \<in> set vs. scored a \<Longrightarrow> \<forall>s \<in> set ss. s \<noteq> NaN"
  by (induction vs arbitrary: ss) (auto simp: scored_def split: option.splits dest: float_of_not_nan)

lemma matched_score_not_nan:
  assumes "matched_score K vs = Some score" "\<forall>a \<in> set vs. scored a" "0 < cl_secondary_ratio K"
  shows "score \<noteq> NaN"
proof -
  obtain ss where ss: "float_scores vs = Some ss" using assms(1) by (auto simp: matched_score_def split: option.splits)
  have "py_max_list ss \<noteq> NaN" using float_scores_not_nan [OF ss assms(2)] by (rule py_max_list_not_nan)
  moreover have "py_max (flt_times (py_max_list ss) (cl_secondary_ratio K)) (Fin (cl_min_score K)) \<noteq> NaN"
    using calculation assms(3) by (intro py_max_not_nan) simp
  ultimately show ?thesis
    using assms(1) ss py_max_not_nan(2) by (auto simp: matched_score_def Let_def split: if_splits)
qed

lemma in_vocabulary_subset: "in_vocabulary iris as = Some vs \<Longrightarrow> set vs \<subseteq> set as"
  by (induction as arbitrary: vs) (auto split: option.splits if_splits)

lemma read_answer_source:
  assumes close: "picks_a_given (cl_close K)" and srt: "sorts (cl_sort K)"
    and r: "read_answer K cands assignments names = Some r"
  shows "fst ` set (cn_assignments r) \<subseteq> ca_iri ` set cands \<union> {UNCATEGORIZED_IRI}
    \<and> cn_candidates r = cands \<and> cn_llm_called r
    \<and> (\<exists>added. threshold K added = Some (cn_assignments r)
         \<and> ((\<forall>a \<in> set assignments. scored a) \<longrightarrow> 0 < cl_secondary_ratio K \<longrightarrow> (\<forall>a \<in> set added. scored a)))"
proof -
  obtain vs where vs: "in_vocabulary (set (map ca_iri cands)) assignments = Some vs"
    using r by (auto simp: read_answer_def split: option.splits)
  obtain matched unmatched where m: "reconcile_names (cl_lower K) (cl_close K) names cands = (matched, unmatched)"
    by fastforce
  obtain added where added: "add_matched K matched vs = Some added"
    and th: "threshold K added = Some (cn_assignments r)"
    and rest: "cn_candidates r = cands \<and> cn_llm_called r"
    using r vs m by (auto simp: read_answer_def split: option.splits)
  have "set matched \<subseteq> ca_iri ` set cands"
    using reconcile_names_source[of "cl_close K" "cl_lower K" names cands] close m by simp
  moreover have "\<forall>a \<in> set vs. \<exists>i \<in> ca_iri ` set cands. jtext (jget a ''iri'') = Some i"
    using in_vocabulary_source[OF vs] by simp
  ultimately have "\<forall>a \<in> set added. \<exists>i \<in> ca_iri ` set cands. jtext (jget a ''iri'') = Some i"
    by (intro add_matched_each [OF added]) auto
  then have "{i. \<exists>a \<in> set added. jtext (jget a ''iri'') = Some i} \<subseteq> ca_iri ` set cands" by force
  then have "fst ` set (cn_assignments r) \<subseteq> ca_iri ` set cands \<union> {UNCATEGORIZED_IRI}"
    using threshold_iris[OF th srt] by blast
  moreover have "\<forall>a \<in> set added. scored a" if "\<forall>a \<in> set assignments. scored a" "0 < cl_secondary_ratio K"
  proof (rule add_matched_each [OF added])
    show vs_scored: "\<forall>a \<in> set vs. scored a" using that(1) in_vocabulary_subset [OF vs] by blast
    show "scored (json_assignment (i, score))" if "matched_score K vs = Some score" for i score
      using matched_score_not_nan [OF that vs_scored] \<open>0 < cl_secondary_ratio K\<close> by (simp add: scored_def)
  qed
  ultimately show ?thesis using th rest by blast
qed

lemma confident_assignments_iris:
  "{i. \<exists>a \<in> set (confident_assignments probs). jtext (jget a ''iri'') = Some i} \<subseteq> fst ` set probs"
  by (force simp: confident_assignments_def)

lemma confident_assignments_scored: "\<forall>a \<in> set (confident_assignments probs). scored a"
  by (auto simp: confident_assignments_def scored_def)

lemma apply_prior_probs: "set (snd (apply_prior K prior labels cands)) \<subseteq> set (case prior of None \<Rightarrow> [] | Some ps \<Rightarrow> ps)"
  by (auto simp: apply_prior_def Let_def split: option.splits)

text \<open>The ways a call ends: a confident prior, the sentinel, or an answer that was read.\<close>

lemma classify_detailed_cases:
  assumes r: "classify_detailed K hits neighbors prior labels answer = Some r"
  obtains
      (prior) probs where "set probs \<subseteq> set (case prior of None \<Rightarrow> [] | Some ps \<Rightarrow> ps)"
        "threshold K (confident_assignments probs) = Some (cn_assignments r)" "\<not> cn_llm_called r"
    | (none) cands called where "r = nothing_found cands called"
    | (answer) cands raw assignments names where "answer = Some raw"
        "parse_llm_response (cl_loads K) raw = Some (assignments, names)"
        "read_answer K cands assignments names = Some r"
proof -
  obtain hs where hs: "hits = Some hs" using r by (auto simp: classify_detailed_def split: option.splits)
  obtain cands probs where p: "apply_prior K prior labels (gather_candidates K hs neighbors) = (cands, probs)"
    by fastforce
  have probs: "set probs \<subseteq> set (case prior of None \<Rightarrow> [] | Some ps \<Rightarrow> ps)"
    using apply_prior_probs[of K prior labels "gather_candidates K hs neighbors"] p by simp
  show thesis
    using r unfolding classify_detailed_def hs option.case p Let_def prod.case split_beta
    by (auto split: if_splits option.splits intro: prior [OF probs] none answer sym)
qed

text \<open>No score of the answer is a \<open>NaN\<close>.\<close>

definition answer_scored :: "classifier \<Rightarrow> pystr option \<Rightarrow> bool" where
  "answer_scored K answer =
     (case answer of
        None \<Rightarrow> True
      | Some raw \<Rightarrow> (case parse_llm_response (cl_loads K) raw of
            None \<Rightarrow> True
          | Some (assignments, names) \<Rightarrow> list_all scored assignments))"

text \<open>C32. Whatever the vector index, the neighbours, the prior (with finite
  distances and probabilities) and the model return, a classification that returns has between one and \<open>max_classes\<close> classes, and each class is a
  candidate that was offered to the model (a class of the prior when the call was skipped) or the sentinel.
  If no score of the answer is \<open>NaN\<close> (\<open>nan_passes_the_floor\<close>) and the ratio is positive, the classes come
  best first, and are either the sentinel alone or a best score at or above the floor with every other score
  within the ratio of it; infinite scores included. The fuzzy match is one of the names it was given, and
  \<open>list.sort\<close> a permutation that is sorted where all scores compare.\<close>

theorem classification_is_sound:
  assumes m: "1 \<le> cl_max_classes K"
    and close: "picks_a_given (cl_close K)" and srt: "sorts (cl_sort K)"
    and r: "classify_detailed K hits neighbors prior labels answer = Some r"
  shows "1 \<le> length (cn_assignments r) \<and> length (cn_assignments r) \<le> cl_max_classes K
    \<and> fst ` set (cn_assignments r) \<subseteq> {UNCATEGORIZED_IRI}
        \<union> (if cn_llm_called r then ca_iri ` set (cn_candidates r)
           else fst ` set (case prior of None \<Rightarrow> [] | Some ps \<Rightarrow> ps))
    \<and> (answer_scored K answer \<longrightarrow> 0 < cl_secondary_ratio K \<longrightarrow>
        kept_well (cl_max_classes K) (cl_secondary_ratio K) (cl_min_score K) (cn_assignments r))"
  using r
proof (cases rule: classify_detailed_cases)
  case (prior probs)
  have "fst ` set (cn_assignments r) \<subseteq> {UNCATEGORIZED_IRI} \<union> fst ` set (case prior of None \<Rightarrow> [] | Some ps \<Rightarrow> ps)"
    using threshold_iris[OF prior(2) srt] confident_assignments_iris[of probs] image_mono[OF prior(1), of fst]
    by blast
  then show ?thesis
    using threshold_size[OF prior(2) m] threshold_kept_well[OF m srt prior(2) confident_assignments_scored] prior(3)
    by simp
next
  case (none cands called)
  then show ?thesis
    using kept_well_uncategorized m by (simp add: nothing_found_def) (simp add: uncategorized_def)
next
  case (answer cands raw assignments names)
  from read_answer_source[OF close srt answer(3)] obtain added where
    s: "fst ` set (cn_assignments r) \<subseteq> ca_iri ` set cands \<union> {UNCATEGORIZED_IRI}"
      "cn_candidates r = cands" "cn_llm_called r" "threshold K added = Some (cn_assignments r)"
    and sc: "(\<forall>a \<in> set assignments. scored a) \<longrightarrow> 0 < cl_secondary_ratio K \<longrightarrow> (\<forall>a \<in> set added. scored a)"
    by blast
  have "kept_well (cl_max_classes K) (cl_secondary_ratio K) (cl_min_score K) (cn_assignments r)"
    if "answer_scored K answer" "0 < cl_secondary_ratio K"
    using that sc threshold_kept_well[OF m srt s(4)]
    by (simp add: answer_scored_def answer list_all_iff)
  with s threshold_size[OF s(4) m] show ?thesis by auto
qed

text \<open>A permutation that is stable where all scores compare.\<close>

definition sort_scores :: "assignment list \<Rightarrow> assignment list" where
  "sort_scores = sort_key (\<lambda>a. flt_rank (flt_neg (snd a)))"

lemma sort_scores_sorts: "sorts sort_scores"
  by (simp add: sorts_def sort_scores_def)

definition sample_classifier :: "pynum json \<Rightarrow> classifier" where
  "sample_classifier v = \<lparr>cl_max_classes = 2, cl_secondary_ratio = 1/2, cl_min_score = 3/10,
     cl_neighbor_weight = 1, cl_prior_skip_threshold = 9/10, cl_lower = (\<lambda>s. s),
     cl_close = (\<lambda>k ks. None), cl_loads = (\<lambda>s. Some v), cl_sort = sort_scores\<rparr>"

definition sample_hit :: "string \<Rightarrow> string \<Rightarrow> rat \<Rightarrow> vhit" where
  "sample_hit i l d = \<lparr>vh_iri = Some (lit i), vh_id = Some (lit i), vh_full_doc_id = None,
     vh_doc_id = None, vh_label = Some (lit l), vh_distance = Some d\<rparr>"

definition sample_assign :: "string \<Rightarrow> rat \<Rightarrow> pynum json" where
  "sample_assign i s = JObj [(''iri'', JStr (lit i)), (''score'', JNum (PyFloat (Fin s)))]"

definition one_of_each :: "pynum json" where
  "one_of_each = JObj [(''assignments'', JArr [sample_assign ''a'' (1/2), sample_assign ''x'' 1,
     JObj [(''iri'', JStr (lit ''b'')), (''score'', JNum (PyFloat PosInf))], sample_assign ''c'' (1/5)])]"

lemma classification_is_sound_witness:
  "kept_well 2 (1/2) (3/10) [(lit ''b'', PosInf)]"
proof -
  let ?K = "sample_classifier one_of_each"
  let ?r = "classify_detailed ?K (Some [sample_hit ''a'' ''A'' (1/5), sample_hit ''b'' ''B'' (1/4), sample_hit ''c'' ''C'' (1/2)])
      None None (\<lambda>_. None) (Some [])"
  have r: "map_option cn_assignments ?r = Some [(lit ''b'', PosInf)]"
    by code_simp
  then obtain c where c: "?r = Some c" "cn_assignments c = [(lit ''b'', PosInf)]" by auto
  have k: "picks_a_given (cl_close ?K)" "1 \<le> cl_max_classes ?K" "sorts (cl_sort ?K)" "0 < cl_secondary_ratio ?K"
    by (simp_all add: picks_a_given_def sample_classifier_def sort_scores_sorts)
  have "answer_scored ?K (Some [])" by code_simp
  with classification_is_sound[OF k(2,1,3) c(1)] k(4) show ?thesis
    by (simp add: c(2)) (simp add: sample_classifier_def)
qed

section \<open>What a call can raise\<close>

lemma in_vocabulary_raises:
  "in_vocabulary iris as = None \<Longrightarrow> \<exists>a \<in> set as. vocabulary_test iris a = None"
  by (induction as) (auto split: option.splits)

text \<open>An assignment whose score is an integer beyond the floats.\<close>

definition too_large :: "pynum json \<Rightarrow> bool" where
  "too_large a \<longleftrightarrow> (\<exists>n. jget a ''score'' = Some (JNum (PyInt n)) \<and> 2 ^ 1024 - 2 ^ 970 \<le> \<bar>n\<bar>)"

lemma float_of_small_int: "float_of (PyInt 0) \<noteq> None" "float_of (PyInt 1) \<noteq> None"
  by code_simp+

lemma float_of_fails:
  assumes "py_number (jget a ''score'') = Some n" "float_of n = None"
  shows "too_large a"
proof -
  from assms(2) obtain k where k: "n = PyInt k" by (cases n) (auto simp: float_of_def)
  show ?thesis
    using assms overflow_is_large [of k] float_of_small_int unfolding k too_large_def
    by (auto simp: py_number_def split: option.splits json.splits if_splits)
qed

lemma clean_all_raises:
  "clean_all as = None \<Longrightarrow> \<exists>a \<in> set as. too_large a"
proof (induction as)
  case (Cons a as)
  show ?case
  proof (cases "clean_assignment a")
    case None
    then have "too_large a"
      by (auto simp: clean_assignment_def split: option.splits intro: float_of_fails)
    then show ?thesis by simp
  qed (use Cons in auto)
qed simp

lemma float_scores_raises:
  "float_scores as = None \<Longrightarrow> \<exists>a \<in> set as. too_large a"
  by (induction as) (auto split: option.splits intro: float_of_fails)

lemma json_assignment_small: "\<not> too_large (json_assignment a)"
  by (simp add: too_large_def json_assignment_def jget_def)

lemma threshold_raises: "threshold K as = None \<Longrightarrow> \<exists>a \<in> set as. too_large a"
  by (auto simp: threshold_def apply_threshold_rule_def dest: clean_all_raises)

lemma read_answer_raises:
  assumes "read_answer K cands assignments names = None"
  shows "\<exists>a \<in> set assignments. vocabulary_test (set (map ca_iri cands)) a = None
    \<or> vocabulary_test (set (map ca_iri cands)) a = Some True \<and> too_large a"
proof (cases "in_vocabulary (set (map ca_iri cands)) assignments")
  case None
  then show ?thesis using in_vocabulary_raises by blast
next
  case (Some vs)
  obtain matched unmatched where m: "reconcile_names (cl_lower K) (cl_close K) names cands = (matched, unmatched)"
    by fastforce
  have "\<exists>a \<in> set vs. too_large a"
  proof (cases "add_matched K matched vs")
    case None
    then show ?thesis
      by (auto simp: add_matched_def matched_score_def Let_def split: if_splits option.splits dest: float_scores_raises)
  next
    case added: (Some added)
    then have "threshold K added = None" using assms Some m by (simp add: read_answer_def)
    then obtain a where "a \<in> set added" "too_large a" using threshold_raises by blast
    moreover have "\<forall>a \<in> set added. too_large a \<longrightarrow> a \<in> set vs"
      by (rule add_matched_each [OF added]) (auto simp: json_assignment_small)
    ultimately show ?thesis by blast
  qed
  moreover have "a \<in> set assignments \<and> vocabulary_test (set (map ca_iri cands)) a = Some True" if "a \<in> set vs" for a
    using Some that
    by (induction assignments arbitrary: vs) (auto split: option.splits if_splits)
  ultimately show ?thesis by blast
qed

text \<open>C33. Once the class index has answered, with finite distances, there are two ways an exception
  leaves the classification, both in an assignment of the model's answer: its \<open>iri\<close> is a JSON array or
  object, or its \<open>iri\<close> is a text and its score an integer that is beyond the range of a float. No answer, an
  answer that is not JSON, an empty vocabulary, scores below the floor, malformed, infinite or \<open>NaN\<close> scores
  all end in a result.\<close>

theorem only_unhashable_iri_raises:
  assumes "classify K (Some hs) neighbors prior labels answer = None"
  shows "\<exists>raw as names a v. answer = Some raw \<and> parse_llm_response (cl_loads K) raw = Some (as, names)
    \<and> a \<in> set as \<and> jget a ''iri'' = Some v
    \<and> ((\<exists>vs. v = JArr vs) \<or> (\<exists>ps. v = JObj ps)
       \<or> (\<exists>i n. v = JStr i \<and> jget a ''score'' = Some (JNum (PyInt n)) \<and> 2 ^ 1024 - 2 ^ 970 \<le> \<bar>n\<bar>))"
proof -
  obtain cands probs where p: "apply_prior K prior labels (gather_candidates K hs neighbors) = (cands, probs)"
    by fastforce
  have prior_ok: "threshold K (confident_assignments ps) \<noteq> None" for ps
    using threshold_raises [of K "confident_assignments ps"]
    by (auto simp: confident_assignments_def json_assignment_small)
  obtain raw as names where a: "answer = Some raw" "parse_llm_response (cl_loads K) raw = Some (as, names)"
    and n: "read_answer K cands as names = None"
    using assms unfolding classify_def classify_detailed_def option.case p Let_def prod.case split_beta
    by (auto simp: prior_ok split: if_splits option.splits)
  from read_answer_raises[OF n] obtain b where
    b: "b \<in> set as" "vocabulary_test (set (map ca_iri cands)) b = None
      \<or> vocabulary_test (set (map ca_iri cands)) b = Some True \<and> too_large b" by blast
  then obtain v where "jget b ''iri'' = Some v" "(\<exists>vs. v = JArr vs) \<or> (\<exists>ps. v = JObj ps)
       \<or> (\<exists>i n. v = JStr i \<and> jget b ''score'' = Some (JNum (PyInt n)) \<and> 2 ^ 1024 - 2 ^ 970 \<le> \<bar>n\<bar>)"
    by (auto simp: vocabulary_test_def too_large_def split: option.splits json.splits)
  with a b(1) show ?thesis by blast
qed

definition huge_score :: "pynum json" where
  "huge_score = JObj [(''assignments'', JArr [JObj [(''iri'', JStr (lit ''a'')), (''score'', JNum (PyInt (2 ^ 1024)))]])]"

lemma only_unhashable_iri_raises_witness:
  "\<exists>raw as names a v. Some [] = Some raw
     \<and> parse_llm_response (cl_loads (sample_classifier huge_score)) raw = Some (as, names)
    \<and> a \<in> set as \<and> jget a ''iri'' = Some v
    \<and> ((\<exists>vs. v = JArr vs) \<or> (\<exists>ps. v = JObj ps)
       \<or> (\<exists>i n. v = JStr i \<and> jget a ''score'' = Some (JNum (PyInt n)) \<and> 2 ^ 1024 - 2 ^ 970 \<le> \<bar>n\<bar>))"
proof -
  have "classify (sample_classifier huge_score) (Some [sample_hit ''a'' ''A'' (1/5)]) None None (\<lambda>_. None) (Some []) = None"
    by code_simp
  from only_unhashable_iri_raises[OF this] show ?thesis .
qed

text \<open>An unhashable \<open>iri\<close> raises as well.\<close>

lemma array_iri_raises:
  "classify (sample_classifier (JObj [(''assignments'', JArr [JObj [(''iri'', JArr [])]])]))
     (Some [sample_hit ''a'' ''A'' (1/5)]) None None (\<lambda>_. None) (Some []) = None"
  by code_simp

text \<open>A \<open>NaN\<close> is not below the floor: alone in the answer, it is returned as the document's class.\<close>

lemma nan_passes_the_floor:
  "classify (sample_classifier
      (JObj [(''assignments'', JArr [JObj [(''iri'', JStr (lit ''a'')), (''score'', JNum (PyFloat NaN))]])]))
     (Some [sample_hit ''a'' ''A'' (1/5)]) None None (\<lambda>_. None) (Some []) = Some [(lit ''a'', NaN)]"
  by code_simp

section \<open>Where the rules differ from their comments\<close>

text \<open>The store's \<open>distance\<close> of the vector backends is a cosine similarity, so the row of the exact
  match scores 0 and an orthogonal one 1.\<close>

lemma exact_match_scores_zero:
  "map ca_score (retrieve_candidate_classes [sample_hit ''exact'' ''E'' 1, sample_hit ''unrelated'' ''U'' 0]) = [0, 1]"
  by code_simp

text \<open>A reconciled name outranks a class the model scored itself: \<open>b\<close> was given 27/100, the name
  gets the floor 3/10.\<close>

lemma matched_name_outranks_explicit:
  "map_option (map fst) (Option.bind
      (add_matched (sample_classifier JNull) [lit ''c''] [sample_assign ''a'' (1/2), sample_assign ''b'' (27/100)])
      (threshold (sample_classifier JNull\<lparr>cl_max_classes := 3\<rparr>)))
   = Some [lit ''a'', lit ''c'', lit ''b'']"
  by code_simp

section \<open>Votes of the neighbours\<close>

lemma neighbor_weights_nonneg: "list_all (\<lambda>(d, w). 0 \<le> w) (neighbor_weights hits)"
  unfolding neighbor_weights_def
  by (rule fold_invariant[where Q = "\<lambda>_. True"])
    (auto intro!: list_all_od_set simp: similarity_def clip01_def le_max_iff_disj split: option.splits)

text \<open>What holds of the tables while the votes are counted.\<close>

definition votes_ok :: "votes \<Rightarrow> bool" where
  "votes_ok vs \<longleftrightarrow> od_wf (vo_scores vs) \<and> dom (map_of (vo_support vs)) = dom (map_of (vo_scores vs))
     \<and> list_all (\<lambda>(i, s). i \<noteq> [] \<and> i \<noteq> UNCATEGORIZED_IRI \<and> 0 \<le> s) (vo_scores vs)
     \<and> list_all (\<lambda>(i, n). 1 \<le> n) (vo_support vs)"

lemma vote_ok:
  assumes "votes_ok vs" "0 \<le> w" "vote w a vs = Some vs'"
  shows "votes_ok vs'"
proof (cases "jtext (jget a ''iri'')")
  case (Some i)
  have "0 \<le> (case map_of (vo_scores vs) i of None \<Rightarrow> 0 | Some s \<Rightarrow> s)"
    using assms(1) by (auto simp: votes_ok_def list_all_iff dest: map_of_SomeD split: option.splits)
  moreover have "0 \<le> w * clip_float x" for x
    using assms(2) by (auto simp: clip_float_def clip01_def split: py_float.splits)
  moreover have "vs' = vs \<or> (\<exists>x ls. i \<noteq> [] \<and> i \<noteq> UNCATEGORIZED_IRI
      \<and> vs' = \<lparr>vo_scores = od_set i ((case map_of (vo_scores vs) i of None \<Rightarrow> 0 | Some s \<Rightarrow> s)
                                           + w * clip_float x) (vo_scores vs),
              vo_support = od_set i ((case map_of (vo_support vs) i of None \<Rightarrow> 0 | Some n \<Rightarrow> n) + 1) (vo_support vs),
              vo_labels = ls\<rparr>)"
    using assms(3) Some unfolding vote_def Let_def option.case
    by (cases "confidence a"; cases "i = [] \<or> i = UNCATEGORIZED_IRI") auto
  moreover have "(\<exists>y. map_of (vo_support vs) x = Some y) = (\<exists>y. map_of (vo_scores vs) x = Some y)" for x
    using assms(1) by (metis domIff not_None_eq votes_ok_def)
  ultimately show ?thesis
    using assms(1) by (auto simp: votes_ok_def dom_def set_eq_iff intro!: list_all_od_set) blast
qed (use assms in \<open>simp add: vote_def\<close>)

lemma vote_each_ok:
  "vote_each w as vs = Some vs' \<Longrightarrow> votes_ok vs \<Longrightarrow> 0 \<le> w \<Longrightarrow> votes_ok vs'"
  by (induction as arbitrary: vs) (auto split: option.splits dest: vote_ok)

lemma collect_votes_ok:
  "collect_votes classes_of ws vs = Inr vs' \<Longrightarrow> votes_ok vs \<Longrightarrow> list_all (\<lambda>(d, w). 0 \<le> w) ws \<Longrightarrow> votes_ok vs'"
  by (induction classes_of ws vs rule: collect_votes.induct)
    (auto split: option.splits dest: vote_each_ok)

definition neighbor_row :: "votes \<Rightarrow> rat \<Rightarrow> iri \<times> rat \<Rightarrow> candidate" where
  "neighbor_row vs tp = (\<lambda>(i, s). \<lparr>ca_iri = i,
     ca_label = (case map_of (vo_labels vs) i of None \<Rightarrow> [] | Some l \<Rightarrow> l), ca_score = s / tp,
     ca_support = Some (case map_of (vo_support vs) i of None \<Rightarrow> 0 | Some n \<Rightarrow> n)\<rparr>)"

lemma neighbor_row_sel [simp]:
  "ca_iri (neighbor_row vs tp e) = fst e" "ca_score (neighbor_row vs tp e) = snd e / tp"
  by (simp_all add: neighbor_row_def split_beta)

lemma neighbor_row_support:
  assumes "votes_ok vs" "e \<in> set (vo_scores vs)"
  shows "\<exists>n \<ge> 1. ca_support (neighbor_row vs tp e) = Some n"
proof -
  have "fst e \<in> dom (map_of (vo_support vs))"
    using assms by (simp add: votes_ok_def dom_map_of_conv_image_fst)
  then obtain n where n: "map_of (vo_support vs) (fst e) = Some n" by blast
  then have "1 \<le> n" using assms(1) by (auto simp: votes_ok_def list_all_iff dest: map_of_SomeD)
  with n show ?thesis by (simp add: neighbor_row_def split_beta)
qed

lemma neighbor_class_candidates_cases:
  assumes "neighbor_class_candidates hits classes_of = Some cs"
  obtains (none) "cs = []"
    | (some) vs m tp where "votes_ok vs" "vo_scores vs \<noteq> []" "m = Max (snd ` set (vo_scores vs))"
        "tp = (if m = 0 then 1 else m)"
        "cs = sort_key (\<lambda>c. (- ca_score c, - int (the (ca_support c)), ca_iri c)) (map (neighbor_row vs tp) (vo_scores vs))"
proof (cases hits)
  case (Some hs)
  show ?thesis
  proof (cases "collect_votes classes_of (neighbor_weights hs) \<lparr>vo_scores = [], vo_support = [], vo_labels = []\<rparr>")
    case (Inr vs)
    have ok: "votes_ok vs"
      by (rule collect_votes_ok[OF Inr _ neighbor_weights_nonneg]) (simp add: votes_ok_def)
    show ?thesis
    proof (cases "vo_scores vs = []")
      case False
      show ?thesis
        by (rule some[OF ok False refl refl])
          (use assms in \<open>simp add: neighbor_class_candidates_def \<open>hits = Some hs\<close> Inr False Let_def neighbor_row_def\<close>)
    qed (use none assms in \<open>simp add: neighbor_class_candidates_def \<open>hits = Some hs\<close> Inr\<close>)
  qed (use none assms in \<open>simp add: neighbor_class_candidates_def \<open>hits = Some hs\<close> split: if_splits\<close>)
qed (use none assms in \<open>simp add: neighbor_class_candidates_def\<close>)

lemma head_is_top:
  assumes "sorted_wrt (\<lambda>a b. f a \<ge> (f b :: rat)) xs" "x \<in> set xs"
  shows "f x \<le> f (hd xs)"
  using assms by (cases xs) auto

text \<open>The candidates the neighbours give are ordered by score, no
  class twice and never the sentinel, every score between 0 and 1 and carried by at least one vote;
  the best score is exactly 1 unless every vote weighs nothing.\<close>

theorem neighbor_scores_normalised:
  assumes "neighbor_class_candidates hits classes_of = Some cs"
  shows "distinct (map ca_iri cs) \<and> UNCATEGORIZED_IRI \<notin> ca_iri ` set cs
   \<and> sorted_wrt (\<lambda>a b. ca_score a \<ge> ca_score b) cs
   \<and> (\<forall>c \<in> set cs. 0 \<le> ca_score c \<and> ca_score c \<le> 1 \<and> (\<exists>n \<ge> 1. ca_support c = Some n))
   \<and> (cs = [] \<or> ca_score (hd cs) = 1 \<or> (\<forall>c \<in> set cs. ca_score c = 0))"
  using assms
proof (cases rule: neighbor_class_candidates_cases)
  case (some vs m tp)
  let ?sc = "vo_scores vs" and ?cs = "cs"
  have nonneg: "0 \<le> snd e" if "e \<in> set ?sc" for e
    using some(1) that by (auto simp: votes_ok_def list_all_iff)
  have le: "snd e \<le> m" if "e \<in> set ?sc" for e using that some(3) by simp
  have "m \<in> snd ` set ?sc" using some(2,3) by simp
  then obtain best where best: "best \<in> set ?sc" "snd best = m" by blast
  then have m: "0 \<le> m" using nonneg by blast
  have set: "set ?cs = neighbor_row vs tp ` set ?sc" by (simp add: some(5))
  have rows: "0 \<le> ca_score c \<and> ca_score c \<le> 1 \<and> (\<exists>n \<ge> 1. ca_support c = Some n)" if "c \<in> set ?cs" for c
  proof -
    from that[unfolded set] obtain e where e: "c = neighbor_row vs tp e" "e \<in> set ?sc" by (rule imageE)
    have "0 \<le> snd e / tp \<and> snd e / tp \<le> 1"
      using nonneg[OF e(2)] le[OF e(2)] m by (simp add: some(4) divide_le_eq_1)
    then show ?thesis using neighbor_row_support[OF some(1) e(2)] by (simp add: e(1))
  qed
  have keys: "map ca_iri (map (neighbor_row vs tp) ?sc) = od_keys ?sc" by (simp add: comp_def)
  have "distinct (map ca_iri (map (neighbor_row vs tp) ?sc))"
    using some(1) unfolding keys votes_ok_def od_wf_def by (rule conjunct1)
  then have distinct: "distinct (map ca_iri ?cs)"
    unfolding some(5) by (simp only: distinct_map distinct_sort set_sort)
  have sorted: "sorted_wrt (\<lambda>a b. ca_score a \<ge> ca_score b) ?cs"
  proof -
    have "sorted (map (\<lambda>c. (- ca_score c, - int (the (ca_support c)), ca_iri c)) ?cs)"
      unfolding some(5) by (rule sorted_sort_key)
    then show ?thesis
      unfolding sorted_map by (rule sorted_wrt_mono_rel[rotated]) (auto simp: less_eq_prod_def)
  qed
  have head: "ca_score (hd ?cs) = 1 \<or> (\<forall>c \<in> set ?cs. ca_score c = 0)"
  proof (cases "m = 0")
    case True
    then have "snd e = 0" if "e \<in> set ?sc" for e using nonneg[OF that] le[OF that] by simp
    then show ?thesis unfolding set by simp
  next
    case False
    then have "1 \<le> ca_score (hd ?cs)"
      using head_is_top[OF sorted, of "neighbor_row vs tp best"] best by (simp add: set some(4))
    moreover have "hd ?cs \<in> set ?cs" using set some(2) by (intro hd_in_set) auto
    ultimately show ?thesis using rows by force
  qed
  have "UNCATEGORIZED_IRI \<notin> ca_iri ` set ?cs"
    using some(1) by (fastforce simp: set votes_ok_def list_all_iff)
  then show ?thesis using distinct sorted rows head by simp
qed simp

text \<open>One document that carries a class twice supports it twice.\<close>

lemma support_counts_assignments:
  "map_option (map ca_support) (neighbor_class_candidates (Some [sample_hit ''d'' ''D'' 0])
     (\<lambda>d. Some [sample_assign ''a'' 1, sample_assign ''a'' 1])) = Some [Some 2]"
  by code_simp

lemma neighbor_scores_example:
  "map_option (map ca_score) (neighbor_class_candidates (Some [sample_hit ''d'' ''D'' 0, sample_hit ''e'' ''E'' (1/2)])
     (\<lambda>d. Some (if d = lit ''d'' then [sample_assign ''a'' 1]
                else [sample_assign ''a'' 1, sample_assign ''b'' 1]))) = Some [1, 1/3]"
  by code_simp

text \<open>A stored score beyond the floats is no empty list of candidates but an exception.\<close>

lemma huge_vote_raises:
  "neighbor_class_candidates (Some [sample_hit ''d'' ''D'' 0])
     (\<lambda>d. Some [JObj [(''iri'', JStr (lit ''a'')), (''score'', JNum (PyInt (2 ^ 1024)))]]) = None"
  by code_simp

section \<open>What the merge and the index hold\<close>

lemma map_od_set_snd:
  "\<forall>(k, v) \<in> set d. f v = k \<Longrightarrow> f v = k \<Longrightarrow> \<forall>(k, v) \<in> set (od_set k v d). f v = k"
  by (induction d) (auto split: if_splits)

lemma merge_neighbor_keys:
  "dom (map_of (merge_neighbor w c m)) = insert (ca_iri c) (dom (map_of m))"
  by (auto simp: merge_neighbor_def Let_def)

lemma merge_index_keys: "dom (map_of (merge_index c m)) = insert (ca_iri c) (dom (map_of m))"
  by (auto simp: merge_index_def)

lemma fold_dom:
  assumes "\<And>x m. dom (map_of (f x m)) = insert (k x) (dom (map_of m))"
  shows "dom (map_of (fold f xs m)) = k ` set xs \<union> dom (map_of m)"
  by (induction xs arbitrary: m) (auto simp: assms)

lemma od_values_keys:
  assumes "\<forall>(k, v) \<in> set d. f v = k"
  shows "f ` snd ` set d = dom (map_of d)"
  using assms by (force simp: dom_map_of_conv_image_fst image_iff)

lemma merge_candidates_union:
  "ca_iri ` set (merge_candidates index_cands neighbor_cands w)
     = ca_iri ` set index_cands \<union> ca_iri ` set neighbor_cands"
proof -
  let ?i = "fold merge_index index_cands []"
  let ?m = "fold (merge_neighbor w) neighbor_cands ?i"
  have keyed: "\<forall>(k, c) \<in> set m'. ca_iri c = k" if "m' = ?i \<or> m' = ?m" for m'
  proof -
    have i: "\<forall>(k, c) \<in> set ?i. ca_iri c = k"
    proof (rule fold_invariant[where Q = "\<lambda>_. True" and P = "\<lambda>m. \<forall>(k, c) \<in> set m. ca_iri c = k"])
      fix c :: candidate and m :: "(iri, candidate) odict"
      assume "\<forall>(k, c) \<in> set m. ca_iri c = k"
      then show "\<forall>(k, c) \<in> set (merge_index c m). ca_iri c = k"
        unfolding merge_index_def by (rule map_od_set_snd[where f = ca_iri]) simp
    qed simp_all
    have m: "\<forall>(k, c) \<in> set ?m. ca_iri c = k"
    proof (rule fold_invariant[where Q = "\<lambda>_. True" and P = "\<lambda>m. \<forall>(k, c) \<in> set m. ca_iri c = k"])
      fix c :: candidate and m :: "(iri, candidate) odict"
      assume m: "\<forall>(k, c) \<in> set m. ca_iri c = k"
      show "\<forall>(k, c) \<in> set (merge_neighbor w c m). ca_iri c = k"
      proof (cases "map_of m (ca_iri c)")
        case None
        then show ?thesis
          unfolding merge_neighbor_def Let_def by (intro map_od_set_snd[where f = ca_iri, OF m]) simp
      next
        case (Some e)
        then have "ca_iri e = ca_iri c" using m map_of_SomeD by fastforce
        with Some show ?thesis
          unfolding merge_neighbor_def Let_def by (intro map_od_set_snd[where f = ca_iri, OF m]) simp
      qed
    qed (simp_all add: i)
    from i m that show ?thesis by blast
  qed
  have "ca_iri ` set (merge_candidates index_cands neighbor_cands w) = ca_iri ` snd ` set ?m"
    by (simp add: merge_candidates_def)
  also have "\<dots> = dom (map_of ?m)" using keyed by (intro od_values_keys) blast
  also have "\<dots> = ca_iri ` set neighbor_cands \<union> ca_iri ` set index_cands"
    by (simp add: fold_dom[where k = ca_iri, OF merge_neighbor_keys] fold_dom[where k = ca_iri, OF merge_index_keys])
  finally show ?thesis by (simp only: Un_commute)
qed

lemma build_class_index_payload:
  "map_of (build_class_index S g iris) i =
     (if i \<in> set iris then (case gs_get_node S g i of None \<Rightarrow> None | Some node \<Rightarrow>
        (let label = text_attr node ''label'';
             content = compose_indexable_text label (text_attr node ''description'')
         in if content = [] then None
            else Some \<lparr>cr_iri = i, cr_label = label, cr_content = content\<rparr>)) else None)"
proof -
  have "map_of (fold (\<lambda>i payload. case gs_get_node S g i of
         None \<Rightarrow> payload
       | Some node \<Rightarrow>
           (let label = text_attr node ''label'';
                content = compose_indexable_text label (text_attr node ''description'')
            in if content = [] then payload
               else od_set i \<lparr>cr_iri = i, cr_label = label, cr_content = content\<rparr> payload)) is d) i =
     (case gs_get_node S g i of None \<Rightarrow> map_of d i | Some node \<Rightarrow>
        (let label = text_attr node ''label'';
             content = compose_indexable_text label (text_attr node ''description'')
         in if i \<notin> set is \<or> content = [] then map_of d i
            else Some \<lparr>cr_iri = i, cr_label = label, cr_content = content\<rparr>))" for "is" d
  proof (induction "is" arbitrary: d)
    case (Cons j js)
    show ?case unfolding fold_simps comp_apply Cons.IH
      by (cases "j = i"; cases "gs_get_node S g j") (simp_all add: Let_def split: option.split)
  qed (simp split: option.split)
  from this[of iris "[]"] show ?thesis
    by (simp add: build_class_index_def Let_def split: option.split)
qed

end
