(* ===== verification/TokenChunker.thy ===== *)
theory TokenChunker
  imports Prelude "HOL-Library.Sublist"
begin

text \<open>
  The fixed-token chunker, \<open>ontorag/chunker/token_size.py\<close>. The tokenizer is a library: the two functions
  of \<open>tokenizer\<close>, about which nothing is assumed. Text is a list of code points, a source span a pair of
  offsets. The theorems: every token is in a window and none is too long, chunks are numbered in order, and a
  span that is emitted names exactly the chunk's text, whatever the tokenizer does.
\<close>

record 'tok tokenizer =
  tk_encode :: "pystr \<Rightarrow> 'tok list"
  tk_decode :: "'tok list \<Rightarrow> pystr"

type_synonym span = "nat \<times> nat"

section \<open>Spans\<close>

text \<open>The two loops of \<open>_trimmed_span\<close> over the clamped bounds.\<close>

fun skip_left :: "pystr \<Rightarrow> nat \<Rightarrow> nat \<Rightarrow> nat" where
  "skip_left content start 0 = start"
| "skip_left content start (Suc n) = (if py_isspace (content ! start) then skip_left content (Suc start) n else start)"

fun skip_right :: "pystr \<Rightarrow> nat \<Rightarrow> nat \<Rightarrow> nat" where
  "skip_right content e 0 = e"
| "skip_right content e (Suc n) = (if py_isspace (content ! (e - 1)) then skip_right content (e - 1) n else e)"

definition trimmed_span :: "pystr \<Rightarrow> nat \<Rightarrow> nat \<Rightarrow> span" where
  "trimmed_span content start0 end0 =
     (let s0 = min start0 (length content); e0 = max s0 (min end0 (length content));
          s = skip_left content s0 (e0 - s0); e = skip_right content e0 (e0 - s)
      in (s, e))"

definition source_span :: "pystr \<Rightarrow> nat \<Rightarrow> nat \<Rightarrow> span option" where
  "source_span content start0 end0 =
     (case trimmed_span content start0 end0 of (s, e) \<Rightarrow> if s \<ge> e then None else Some (s, e))"

text \<open>\<open>content.find(sub, lo, hi)\<close>, \<open>None\<close> for -1.\<close>

fun find_upto :: "pystr \<Rightarrow> pystr \<Rightarrow> nat \<Rightarrow> nat \<Rightarrow> nat option" where
  "find_upto content sub i 0 = (if take (length sub) (drop i content) = sub then Some i else None)"
| "find_upto content sub i (Suc n) =
     (if take (length sub) (drop i content) = sub then Some i else find_upto content sub (Suc i) n)"

definition py_find :: "pystr \<Rightarrow> pystr \<Rightarrow> nat \<Rightarrow> nat \<Rightarrow> nat option" where
  "py_find content sub lo hi =
     (if lo + length sub > hi then None else find_upto content sub lo (hi - length sub - lo))"

definition token_window_source_span ::
  "'tok tokenizer \<Rightarrow> pystr \<Rightarrow> 'tok list \<Rightarrow> nat \<Rightarrow> nat \<Rightarrow> nat \<times> nat \<Rightarrow> span option \<times> (nat \<times> nat)" where
  "token_window_source_span tz content tokens start_token end_token anchor =
     (case anchor of (anchor_token, anchor_char) \<Rightarrow>
       (let window = tk_decode tz (slice start_token end_token tokens);
            start = (if start_token \<ge> anchor_token
                     then anchor_char + length (tk_decode tz (slice anchor_token start_token tokens))
                     else length (tk_decode tz (slice 0 start_token tokens)));
            e = start + length window
        in if slice start e content = window
           then (source_span content start e, (start_token, start))
           else
             (case py_find content window (start - 32) (min (length content) (e + 32 + length window)) of
                None \<Rightarrow> (None, anchor)
              | Some found \<Rightarrow>
                  (source_span content found (found + length window), (start_token, found)))))"

section \<open>Chunks\<close>

record chunk =
  ck_tokens :: int
  ck_content :: pystr
  ck_order :: nat
  ck_span :: "span option"

definition make_chunk :: "bool \<Rightarrow> pystr \<Rightarrow> int \<Rightarrow> nat \<Rightarrow> span option \<Rightarrow> chunk" where
  "make_chunk emit content tokens order sp =
     \<lparr>ck_tokens = tokens, ck_content = py_strip content, ck_order = order,
      ck_span = (if emit then sp else None)\<rparr>"

definition window_step :: "int \<Rightarrow> int \<Rightarrow> int res" where
  "window_step chunk_token_size overlap =
     (if overlap \<ge> chunk_token_size then Inl ValueError else Inr (chunk_token_size - overlap))"

text \<open>\<open>range(0, n, step)\<close> for a positive step.\<close>

definition range_step :: "nat \<Rightarrow> nat \<Rightarrow> nat list" where
  "range_step n step = map (\<lambda>i. i * step) [0..<(n + step - 1) div step]"

text \<open>
  The loop over the windows of one token list: pairs of a length, a text and a span. \<open>base\<close> is the offset of
  the segment in the document (0 for the whole document).
\<close>

type_synonym raw_chunk = "int \<times> pystr \<times> span option"

fun window_loop ::
  "'tok tokenizer \<Rightarrow> bool \<Rightarrow> pystr \<Rightarrow> nat \<Rightarrow> 'tok list \<Rightarrow> nat \<Rightarrow> nat list \<Rightarrow> nat \<times> nat \<Rightarrow> raw_chunk list" where
  "window_loop tz emit seg base tokens cap [] anchor = []"
| "window_loop tz emit seg base tokens cap (start # starts) anchor =
     (let end_token = min (start + cap) (length tokens);
          (sp, anchor') = (if emit then token_window_source_span tz seg tokens start end_token anchor
                           else (None, anchor))
      in (min (int cap) (int (length tokens) - int start),
          tk_decode tz (slice start end_token tokens),
          map_option (\<lambda>(s, e). (base + s, base + e)) sp)
         # window_loop tz emit seg base tokens cap starts anchor')"

definition windows ::
  "'tok tokenizer \<Rightarrow> bool \<Rightarrow> int \<Rightarrow> int \<Rightarrow> pystr \<Rightarrow> nat \<Rightarrow> 'tok list \<Rightarrow> raw_chunk list res" where
  "windows tz emit cap overlap seg base tokens =
     bind_res (window_step cap overlap)
       (\<lambda>step. Inr (window_loop tz emit seg base tokens (nat cap) (range_step (length tokens) (nat step)) (0, 0)))"

text \<open>\<open>content.split(sep)\<close> for a non-empty separator: cut at the first occurrence, go on behind it.\<close>

fun cut_first :: "pystr \<Rightarrow> pystr \<Rightarrow> (pystr \<times> pystr) option" where
  "cut_first sep [] = (if sep = [] then Some ([], []) else None)"
| "cut_first sep (c # s) =
     (if prefix sep (c # s) then Some ([], drop (length sep) (c # s))
      else (case cut_first sep s of None \<Rightarrow> None | Some (a, b) \<Rightarrow> Some (c # a, b)))"

lemma cut_first_append: "cut_first sep s = Some (a, b) \<Longrightarrow> s = a @ sep @ b"
  by (induction s arbitrary: a b) (auto simp: prefix_def split: if_splits option.splits)

function split_text :: "pystr \<Rightarrow> pystr \<Rightarrow> pystr list" where
  "split_text sep s =
     (if sep = [] then [s]
      else (case cut_first sep s of None \<Rightarrow> [s] | Some (a, b) \<Rightarrow> a # split_text sep b))"
  by pat_completeness auto
termination
  by (relation "measure (\<lambda>(sep, s). length s)") (auto dest!: cut_first_append)

declare split_text.simps [simp del]

text \<open>The cursor loop that gives each segment its offsets.\<close>

fun raw_spans :: "nat \<Rightarrow> nat \<Rightarrow> pystr list \<Rightarrow> (pystr \<times> nat \<times> nat) list" where
  "raw_spans sep_len cursor [] = []"
| "raw_spans sep_len cursor (w # ws) =
     (w, cursor, cursor + length w) # raw_spans sep_len (cursor + length w + sep_len) ws"

fun only_split ::
  "'tok tokenizer \<Rightarrow> bool \<Rightarrow> int \<Rightarrow> pystr \<Rightarrow> (pystr \<times> nat \<times> nat) list \<Rightarrow> raw_chunk list res" where
  "only_split tz emit cap content [] = Inr []"
| "only_split tz emit cap content ((seg, s, e) # segs) =
     (let n = length (tk_encode tz seg)
      in if int n > cap then Inl (ChunkTokenLimitExceeded n cap)
         else bind_res (only_split tz emit cap content segs)
                (\<lambda>cs. Inr ((int n, seg, if emit then source_span content s e else None) # cs)))"

fun split_and_window ::
  "'tok tokenizer \<Rightarrow> bool \<Rightarrow> int \<Rightarrow> int \<Rightarrow> pystr \<Rightarrow> (pystr \<times> nat \<times> nat) list \<Rightarrow> raw_chunk list res" where
  "split_and_window tz emit cap overlap content [] = Inr []"
| "split_and_window tz emit cap overlap content ((seg, s, e) # segs) =
     (let tokens = tk_encode tz seg
      in bind_res
           (if int (length tokens) > cap then windows tz emit cap overlap seg s tokens
            else Inr [(int (length tokens), seg, if emit then source_span content s e else None)])
           (\<lambda>cs. bind_res (split_and_window tz emit cap overlap content segs) (\<lambda>ds. Inr (cs @ ds))))"

definition number_chunks :: "bool \<Rightarrow> raw_chunk list \<Rightarrow> chunk list" where
  "number_chunks emit cs =
     map (\<lambda>(i, n, txt, sp). make_chunk emit txt n i sp) (zip [0..<length cs] cs)"

text \<open>\<open>split\<close> is \<open>split_by_character\<close>, where the empty string counts as none.\<close>

definition chunking_by_token_size ::
  "'tok tokenizer \<Rightarrow> pystr \<Rightarrow> pystr option \<Rightarrow> bool \<Rightarrow> int \<Rightarrow> int \<Rightarrow> bool \<Rightarrow> chunk list res" where
  "chunking_by_token_size tz content split split_only overlap cap emit =
     (if overlap < 0 then Inl ValueError
      else
        bind_res
          (case split of
             Some sep \<Rightarrow>
               if sep \<noteq> [] then
                 (let segs = raw_spans (length sep) 0 (split_text sep content)
                  in if split_only then only_split tz emit cap content segs
                     else split_and_window tz emit cap overlap content segs)
               else windows tz emit cap overlap content 0 (tk_encode tz content)
           | None \<Rightarrow> windows tz emit cap overlap content 0 (tk_encode tz content))
          (\<lambda>cs. Inr (number_chunks emit cs)))"

definition chunking_by_fixed_token ::
  "'tok tokenizer \<Rightarrow> pystr \<Rightarrow> int \<Rightarrow> int \<Rightarrow> pystr option \<Rightarrow> bool \<Rightarrow> bool \<Rightarrow> chunk list res" where
  "chunking_by_fixed_token tz content cap overlap split split_only emit =
     chunking_by_token_size tz content split split_only overlap cap emit"

section \<open>Spans name the text\<close>

lemma skip_left_bounds: "start \<le> skip_left c start n \<and> skip_left c start n \<le> start + n"
  by (induction n arbitrary: start) (auto, metis Suc_leD, metis add_Suc)

lemma skip_right_bounds: "n \<le> e \<Longrightarrow> e - n \<le> skip_right c e n \<and> skip_right c e n \<le> e"
proof (induction n arbitrary: e)
  case (Suc n)
  have "e - 1 - n \<le> skip_right c (e - 1) n \<and> skip_right c (e - 1) n \<le> e - 1"
    using Suc.IH [of "e - 1"] Suc.prems by simp
  then show ?case by auto
qed simp

lemma skip_left_strip:
  "s + n \<le> length c \<Longrightarrow> dropWhile py_isspace (slice s (s + n) c) = slice (skip_left c s n) (s + n) c"
proof (induction n arbitrary: s)
  case (Suc n)
  have "slice s (s + Suc n) c = (c ! s) # slice (Suc s) (s + Suc n) c"
    using Suc.prems by (simp add: slice_def Cons_nth_drop_Suc [symmetric])
  then show ?case using Suc.IH [of "Suc s"] Suc.prems by simp
qed (simp add: slice_def)

lemma slice_snoc:
  assumes "i \<le> e" "e < length c"
  shows "slice i (Suc e) c = slice i e c @ [c ! e]"
proof -
  have "take (Suc (e - i)) (drop i c) = take (e - i) (drop i c) @ [drop i c ! (e - i)]"
    by (rule take_Suc_conv_app_nth) (use assms in simp)
  then show ?thesis using assms by (simp add: slice_def Suc_diff_le)
qed

lemma skip_right_strip:
  "n \<le> e \<Longrightarrow> e \<le> length c \<Longrightarrow>
   rev (dropWhile py_isspace (rev (slice (e - n) e c))) = slice (e - n) (skip_right c e n) c"
proof (induction n arbitrary: e)
  case (Suc n)
  then obtain e' where e': "e = Suc e'" by (cases e) auto
  have "slice (e' - n) (Suc e') c = slice (e' - n) e' c @ [c ! e']"
    by (rule slice_snoc) (use Suc.prems e' in simp_all)
  then show ?case using Suc.IH [of e'] Suc.prems by (simp add: e')
qed (simp add: slice_def)

lemma slice_clamp:
  "slice s0 e0 c = slice (min s0 (length c)) (max (min s0 (length c)) (min e0 (length c))) c"
proof (cases "s0 < length c")
  case True
  then have s1: "min s0 (length c) = s0" by simp
  consider "e0 \<le> s0" | "s0 < e0" "e0 \<le> length c" | "length c < e0" by linarith
  then show ?thesis
  proof cases
    case 1
    then have "max s0 (min e0 (length c)) = s0" by simp
    then show ?thesis unfolding s1 using 1 by (simp add: slice_def)
  next
    case 2
    then have "max s0 (min e0 (length c)) = e0" by simp
    then show ?thesis unfolding s1 by simp
  next
    case 3
    then have "max s0 (min e0 (length c)) = length c" using True by simp
    then show ?thesis unfolding s1 using 3 by (simp add: slice_def)
  qed
next
  case False
  then have "drop s0 c = []" "min s0 (length c) = length c" by simp_all
  then show ?thesis by (simp add: slice_def)
qed

lemma source_span_text:
  assumes "source_span c s0 e0 = Some (s, e)"
  shows "s < e \<and> e \<le> length c \<and> slice s e c = py_strip (slice s0 e0 c)"
proof -
  define s1 e1 where "s1 = min s0 (length c)" and "e1 = max s1 (min e0 (length c))"
  have le: "s1 \<le> e1" "e1 \<le> length c" by (simp_all add: s1_def e1_def)
  have "trimmed_span c s0 e0
          = (skip_left c s1 (e1 - s1), skip_right c e1 (e1 - skip_left c s1 (e1 - s1)))"
    by (simp only: trimmed_span_def Let_def s1_def e1_def)
  then have "(skip_left c s1 (e1 - s1), skip_right c e1 (e1 - skip_left c s1 (e1 - s1))) = (s, e)" and lt: "s < e"
    using assms by (auto simp: source_span_def split: if_splits)
  then have s: "s = skip_left c s1 (e1 - s1)" and e: "e = skip_right c e1 (e1 - s)" by blast+
  have sb: "s1 \<le> s" "s \<le> e1" using skip_left_bounds [of s1 c "e1 - s1"] le by (simp_all add: s)
  have eb: "e \<le> e1" using skip_right_bounds [of "e1 - s" e1 c] by (simp add: e)
  have "slice s0 e0 c = slice s1 e1 c" unfolding s1_def e1_def by (rule slice_clamp)
  moreover have "dropWhile py_isspace (slice s1 e1 c) = slice s e1 c"
    using skip_left_strip [of s1 "e1 - s1" c] le by (simp add: s)
  moreover have "rev (dropWhile py_isspace (rev (slice s e1 c))) = slice s e c"
    using skip_right_strip [of "e1 - s" e1 c] le sb by (simp add: e)
  ultimately show ?thesis using lt eb le by (simp add: py_strip_def)
qed

lemma find_upto_sound: "find_upto c sub i n = Some k \<Longrightarrow> take (length sub) (drop k c) = sub"
  by (induction c sub i n rule: find_upto.induct) (auto split: if_splits)

lemma py_find_sound: "py_find c sub lo hi = Some k \<Longrightarrow> slice k (k + length sub) c = sub"
  by (auto simp: py_find_def slice_def dest!: find_upto_sound split: if_splits)

text \<open>What it means for a span to name a text of the document: \<open>names_text\<close>.\<close>

definition names_text :: "pystr \<Rightarrow> span option \<Rightarrow> pystr \<Rightarrow> bool" where
  "names_text content sp t \<longleftrightarrow>
     (case sp of None \<Rightarrow> True | Some (s, e) \<Rightarrow> s < e \<and> e \<le> length content \<and> slice s e content = t)"

lemma names_text_None [simp]: "names_text c None t"
  by (simp add: names_text_def)

lemma source_span_names: "names_text c (source_span c s e) (py_strip (slice s e c))"
  by (auto simp: names_text_def dest: source_span_text split: option.splits)

lemma source_span_names_window:
  "slice k (k + length w) c = w \<Longrightarrow> names_text c (source_span c k (k + length w)) (py_strip w)"
  using source_span_names [of c k "k + length w"] by simp

lemma window_span_names:
  "names_text c (fst (token_window_source_span tz c toks st en anchor)) (py_strip (tk_decode tz (slice st en toks)))"
proof -
  have "names_text c (fst (if slice k (k + length w) c = w then (source_span c k (k + length w), q)
          else case py_find c w lo hi of None \<Rightarrow> (None, anchor)
            | Some f \<Rightarrow> (source_span c f (f + length w), g f))) (py_strip w)" for k w q lo hi and g :: "nat \<Rightarrow> nat \<times> nat"
    by (auto intro: source_span_names_window dest: py_find_sound split: option.splits)
  then show ?thesis
    unfolding token_window_source_span_def Let_def by (cases anchor) (simp only: prod.case)
qed

lemma slice_inside:
  assumes "slice base (base + length seg) c = seg" "j \<le> length seg"
  shows "slice i j seg = slice (base + i) (base + j) c"
proof -
  have seg: "seg = take (length seg) (drop base c)" using assms(1) by (simp add: slice_def)
  have "slice i j seg = take (j - i) (drop i (take (length seg) (drop base c)))"
    using seg by (simp add: slice_def)
  also have "\<dots> = take (j - i) (drop (i + base) c)"
    using assms(2) by (simp add: drop_take min_def)
  finally show ?thesis by (simp add: slice_def add.commute)
qed

lemma names_text_shift:
  assumes "names_text seg sp t" "slice base (base + length seg) c = seg" "base + length seg \<le> length c"
  shows "names_text c (map_option (\<lambda>(s, e). (base + s, base + e)) sp) t"
  using assms(1,3) slice_inside [OF assms(2)] by (auto simp: names_text_def split: option.splits)

definition raw_ok :: "pystr \<Rightarrow> int \<Rightarrow> raw_chunk \<Rightarrow> bool" where
  "raw_ok content cap r \<longleftrightarrow> (case r of (n, t, sp) \<Rightarrow> n \<le> cap \<and> names_text content sp (py_strip t))"

text \<open>A segment of the split and its place in the document.\<close>

definition seg_ok :: "pystr \<Rightarrow> pystr \<times> nat \<times> nat \<Rightarrow> bool" where
  "seg_ok content x \<longleftrightarrow> (case x of (seg, s, e) \<Rightarrow>
     e = s + length seg \<and> e \<le> length content \<and> slice s e content = seg)"

lemma raw_ok_simp [simp]: "raw_ok c cap (n, t, sp) \<longleftrightarrow> n \<le> cap \<and> names_text c sp (py_strip t)"
  by (simp add: raw_ok_def)

lemma seg_ok_simp [simp]:
  "seg_ok c (seg, s, e) \<longleftrightarrow> e = s + length seg \<and> e \<le> length c \<and> slice s e c = seg"
  by (simp add: seg_ok_def)

lemma window_loop_ok:
  assumes "slice base (base + length seg) c = seg" "base + length seg \<le> length c" "0 \<le> cap"
  shows "list_all (raw_ok c cap) (window_loop tz emit seg base toks (nat cap) starts anchor)"
proof (induction starts arbitrary: anchor)
  case (Cons st starts)
  have step: "names_text c (map_option (\<lambda>(s, e). (base + s, base + e))
                (fst (token_window_source_span tz seg toks st en anchor))) (py_strip (tk_decode tz (slice st en toks)))"
    for en by (rule names_text_shift [OF window_span_names assms(1,2)])
  obtain sp a where r: "token_window_source_span tz seg toks st (min (st + nat cap) (length toks)) anchor = (sp, a)"
    by (rule prod.exhaust)
  show ?case using Cons [of a] Cons [of anchor] step [of "min (st + nat cap) (length toks)"] assms(3)
    by (cases emit) (simp_all add: r)
qed simp

lemma window_step_pos: "window_step cap ov = Inr step \<longleftrightarrow> ov < cap \<and> step = cap - ov"
  by (auto simp: window_step_def)

lemma windows_ok:
  assumes "windows tz emit cap ov seg base toks = Inr cs" "0 \<le> ov"
    "slice base (base + length seg) c = seg" "base + length seg \<le> length c"
  shows "list_all (raw_ok c cap) cs"
  using assms window_loop_ok [OF assms(3,4), of cap]
  by (auto simp: windows_def bind_res_Inr_iff window_step_pos)

text \<open>\<open>split\<close> and the cursor loop: the segments lie where the cursor says.\<close>

lemma split_text_append:
  "sep \<noteq> [] \<Longrightarrow> (cut_first sep s = None \<and> split_text sep s = [s])
     \<or> (\<exists>a b. cut_first sep s = Some (a, b) \<and> s = a @ sep @ b \<and> split_text sep s = a # split_text sep b)"
  by (subst (1 2) split_text.simps) (auto split: option.splits dest: cut_first_append)

lemma slice_mid: "slice (length xs) (length xs + length ys) (xs @ ys @ zs) = ys"
  by (simp add: slice_def)

lemma raw_spans_ok:
  "sep \<noteq> [] \<Longrightarrow> list_all (seg_ok (pre @ s)) (raw_spans (length sep) (length pre) (split_text sep s))"
proof (induction "length s" arbitrary: s pre rule: less_induct)
  case less
  consider "split_text sep s = [s]" | a b where "s = a @ sep @ b" "split_text sep s = a # split_text sep b"
    using split_text_append [OF less.prems] by blast
  then show ?case
  proof cases
    case 1
    then show ?thesis using slice_mid [of pre s "[]"] by simp
  next
    case 2
    have "list_all (seg_ok ((pre @ a @ sep) @ b))
            (raw_spans (length sep) (length (pre @ a @ sep)) (split_text sep b))"
      by (rule less.hyps) (use 2 less.prems in simp_all)
    then show ?thesis using 2 slice_mid [of pre a "sep @ b"] by (simp add: add.assoc)
  qed
qed

lemma only_split_ok:
  "only_split tz emit cap c segs = Inr cs \<Longrightarrow> list_all (seg_ok c) segs \<Longrightarrow> list_all (raw_ok c cap) cs"
proof (induction segs arbitrary: cs)
  case (Cons x segs)
  obtain seg s e where x: "x = (seg, s, e)" by (cases x)
  have "names_text c (source_span c s e) (py_strip seg)"
    using source_span_names [of c s e] Cons.prems(2) by (auto simp: x)
  then show ?case using Cons
    by (auto simp: x Let_def bind_res_Inr_iff split: if_splits)
qed simp

lemma split_and_window_ok:
  "split_and_window tz emit cap ov c segs = Inr cs \<Longrightarrow> 0 \<le> ov \<Longrightarrow> list_all (seg_ok c) segs \<Longrightarrow>
   list_all (raw_ok c cap) cs"
proof (induction segs arbitrary: cs)
  case (Cons x segs)
  obtain seg s e where x: "x = (seg, s, e)" by (cases x)
  have seg: "slice s (s + length seg) c = seg" "s + length seg \<le> length c" "e = s + length seg"
    using Cons.prems(3) by (auto simp: x)
  have "names_text c (source_span c s e) (py_strip seg)" using source_span_names [of c s e] seg by simp
  then show ?case using Cons windows_ok [OF _ Cons.prems(2) seg(1,2)]
    by (auto simp: x Let_def bind_res_Inr_iff split: if_splits)
qed simp

lemma chunks_raw_ok:
  assumes "chunking_by_token_size tz c splt only ov cap emit = Inr cs"
  shows "\<exists>rs. list_all (raw_ok c cap) rs \<and> cs = number_chunks emit rs"
proof -
  have ov: "0 \<le> ov" using assms by (auto simp: chunking_by_token_size_def split: if_splits)
  have whole: "list_all (raw_ok c cap) rs" if "windows tz emit cap ov c 0 (tk_encode tz c) = Inr rs" for rs
    using windows_ok [OF that ov, of c] by simp
  have segs: "list_all (seg_ok c) (raw_spans (length sep) 0 (split_text sep c))" if "sep \<noteq> []" for sep
    using raw_spans_ok [OF that, of "[]" c] by simp
  obtain rs where cs: "cs = number_chunks emit rs" and rs:
    "(case splt of
        Some sep \<Rightarrow>
          if sep \<noteq> [] then
            (let segs = raw_spans (length sep) 0 (split_text sep c)
             in if only then only_split tz emit cap c segs else split_and_window tz emit cap ov c segs)
          else windows tz emit cap ov c 0 (tk_encode tz c)
      | None \<Rightarrow> windows tz emit cap ov c 0 (tk_encode tz c)) = Inr rs"
    using assms ov by (auto simp: chunking_by_token_size_def bind_res_Inr_iff)
  have "list_all (raw_ok c cap) rs"
    using rs whole segs only_split_ok split_and_window_ok [OF _ ov]
    by (cases splt) (fastforce simp: Let_def split: if_splits)+
  with cs show ?thesis by blast
qed

lemma number_chunks_nth:
  "i < length rs \<Longrightarrow> number_chunks emit rs ! i
     = (case rs ! i of (n, t, sp) \<Rightarrow> make_chunk emit t n i sp)"
  by (simp add: number_chunks_def split: prod.splits)

lemma length_number_chunks [simp]: "length (number_chunks emit rs) = length rs"
  by (simp add: number_chunks_def)

text \<open>Whatever the tokenizer does (also where decoding is not
  concatenative and predicted offsets are off), every chunk a successful call returns has at most the configured
  number of tokens and its own position as its order index, and a source span that is emitted lies inside the
  document and cuts out exactly the chunk's text; in every mode, for every splitter.\<close>

theorem emitted_spans_name_their_chunk:
  assumes "chunking_by_token_size tz content splt split_only overlap cap emit = Inr cs" "i < length cs"
  shows "ck_order (cs ! i) = i \<and> ck_tokens (cs ! i) \<le> cap
         \<and> (case ck_span (cs ! i) of None \<Rightarrow> True
            | Some (s, e) \<Rightarrow> emit \<and> s < e \<and> e \<le> length content \<and> slice s e content = ck_content (cs ! i))"
proof -
  obtain rs where rs: "list_all (raw_ok content cap) rs" and cs: "cs = number_chunks emit rs"
    using chunks_raw_ok [OF assms(1)] by blast
  have i: "i < length rs" using assms(2) cs by simp
  then have "raw_ok content cap (rs ! i)" using rs by (simp add: list_all_length)
  then show ?thesis using i
    by (auto simp: cs number_chunks_nth make_chunk_def raw_ok_def names_text_def split: prod.splits option.splits)
qed

section \<open>No token is lost\<close>

text \<open>The windows of a token list, as the two loops cut them.\<close>

definition token_windows :: "nat \<Rightarrow> nat \<Rightarrow> 'tok list \<Rightarrow> 'tok list list" where
  "token_windows cap step toks =
     map (\<lambda>st. slice st (min (st + cap) (length toks)) toks) (range_step (length toks) step)"

lemma range_step_less:
  assumes "st \<in> set (range_step n step)" "0 < step"
  shows "st < n"
proof -
  obtain i where i: "i < (n + step - 1) div step" "st = i * step" using assms by (auto simp: range_step_def)
  then have "Suc i \<le> (n + step - 1) div step" by simp
  then have "Suc i * step \<le> n + step - 1" using assms(2) by (meson div_times_less_eq_dividend le_trans mult_le_mono1)
  then show ?thesis using i assms(2) by simp
qed

lemma range_step_covers:
  fixes n step :: nat
  assumes "0 < step"
  shows "n \<le> (n + step - 1) div step * step"
proof -
  have "(n + step - 1) mod step < step" using assms by simp
  moreover have "(n + step - 1) div step * step + (n + step - 1) mod step = n + step - 1" by simp
  ultimately show ?thesis by linarith
qed

lemma concat_strides: "concat (map (\<lambda>i. slice (i * step) (i * step + step) xs) [0..<k]) = take (k * step) xs"
proof (induction k)
  case (Suc k)
  have "slice 0 (k * step) xs @ slice (k * step) (k * step + step) xs = slice 0 (k * step + step) xs"
    by (rule slice_append) simp_all
  with Suc show ?case by (simp add: slice_def add.commute)
qed simp

lemma token_windows_cover:
  assumes "0 < step" "step \<le> cap"
  shows "concat (map (take step) (token_windows cap step toks)) = toks"
proof -
  let ?n = "length toks" and ?k = "(length toks + step - 1) div step"
  have "take step (slice st (min (st + cap) ?n) toks) = slice st (st + step) toks" for st
  proof (cases "st + cap \<le> ?n")
    case False
    then have "min (st + cap) ?n = ?n" by simp
    then show ?thesis by (simp add: slice_def)
  qed (use assms in \<open>simp add: slice_def min_def\<close>)
  then have "map (take step) (token_windows cap step toks)
               = map (\<lambda>i. slice (i * step) (i * step + step) toks) [0..<?k]"
    by (simp add: token_windows_def range_step_def)
  then have "concat (map (take step) (token_windows cap step toks)) = take (?k * step) toks"
    by (simp add: concat_strides)
  then show ?thesis using range_step_covers [OF assms(1), of ?n] by simp
qed

lemma window_loop_texts:
  "map (\<lambda>(n, t, sp). t) (window_loop tz emit seg base toks cap starts anchor)
     = map (\<lambda>st. tk_decode tz (slice st (min (st + cap) (length toks)) toks)) starts"
  by (induction starts arbitrary: anchor) (auto simp: Let_def split: prod.splits)

lemma window_loop_lengths:
  "list_all (\<lambda>st. st \<le> length toks) starts \<Longrightarrow>
   map (\<lambda>(n, t, sp). n) (window_loop tz emit seg base toks cap starts anchor)
     = map (\<lambda>st. int (length (slice st (min (st + cap) (length toks)) toks))) starts"
  by (induction starts arbitrary: anchor) (auto simp: Let_def split: prod.splits)

lemma number_chunks_contents:
  "map ck_content (number_chunks emit rs) = map py_strip (map (\<lambda>(n, t, sp). t) rs)"
  by (rule nth_equalityI) (simp_all add: number_chunks_nth make_chunk_def split: prod.splits)

lemma number_chunks_tokens:
  "map ck_tokens (number_chunks emit rs) = map (\<lambda>(n, t, sp). n) rs"
  by (rule nth_equalityI) (simp_all add: number_chunks_nth make_chunk_def split: prod.splits)

text \<open>C25. With an overlap from 0 to one below the chunk size, chunking without a
  separator succeeds; its chunks are the decoded windows of the token list, each counted with its own number of
  tokens, and the windows without their overlaps put together give back the whole token list: nothing is lost,
  repeated beyond the overlap, or reordered.\<close>

theorem windows_lose_no_token:
  assumes "0 \<le> overlap" "overlap < cap"
  shows "\<exists>cs ws. chunking_by_token_size tz content None only overlap cap emit = Inr cs
           \<and> map ck_content cs = map (\<lambda>w. py_strip (tk_decode tz w)) ws
           \<and> map ck_tokens cs = map (\<lambda>w. int (length w)) ws
           \<and> list_all (\<lambda>w. w \<noteq> [] \<and> int (length w) \<le> cap) ws
           \<and> concat (map (take (nat (cap - overlap))) ws) = tk_encode tz content"
proof -
  define toks where "toks = tk_encode tz content"
  define step where "step = nat (cap - overlap)"
  have step: "0 < step" "step \<le> nat cap" using assms by (simp_all add: step_def)
  define starts where "starts = range_step (length toks) step"
  define rs where "rs = window_loop tz emit content 0 toks (nat cap) starts (0, 0)"
  define ws where "ws = token_windows (nat cap) step toks"
  have starts: "st < length toks" if "st \<in> set starts" for st
    using range_step_less [OF _ step(1)] that by (simp add: starts_def)
  have run: "chunking_by_token_size tz content None only overlap cap emit = Inr (number_chunks emit rs)"
    using assms by (simp add: chunking_by_token_size_def windows_def window_step_def rs_def starts_def step_def toks_def)
  have texts: "map ck_content (number_chunks emit rs) = map (\<lambda>w. py_strip (tk_decode tz w)) ws"
    by (simp add: number_chunks_contents rs_def window_loop_texts ws_def token_windows_def starts_def)
  have lens: "map ck_tokens (number_chunks emit rs) = map (\<lambda>w. int (length w)) ws"
    unfolding number_chunks_tokens rs_def
    by (subst window_loop_lengths)
      (use starts in \<open>auto simp: list_all_iff ws_def token_windows_def starts_def less_imp_le\<close>)
  have "w \<noteq> [] \<and> int (length w) \<le> cap" if w: "w \<in> set ws" for w
  proof -
    obtain st where st: "st \<in> set starts" "w = slice st (min (st + nat cap) (length toks)) toks"
      using w by (auto simp: ws_def token_windows_def starts_def)
    show ?thesis using starts [OF st(1)] assms by (auto simp: st(2) simp flip: length_greater_0_conv)
  qed
  then have bounds: "list_all (\<lambda>w. w \<noteq> [] \<and> int (length w) \<le> cap) ws" by (simp add: list_all_iff)
  show ?thesis
    using run texts lens bounds token_windows_cover [OF step, of toks, folded ws_def]
    unfolding step_def [symmetric] toks_def by blast
qed

section \<open>At concrete documents\<close>

text \<open>A tokenizer with one token per character.\<close>

definition char_tokenizer :: "nat tokenizer" where
  "char_tokenizer = \<lparr>tk_encode = (\<lambda>s. s), tk_decode = (\<lambda>ts. ts)\<rparr>"

lemma split_text_step:
  "split_text [44] [97, 98, 32, 99, 44, 100] = [[97, 98, 32, 99], [100]]"
  by (simp add: split_text.simps)

lemma emitted_spans_name_their_chunk_witness:
  "\<exists>cs. chunking_by_token_size char_tokenizer [97, 98, 32, 99, 44, 100] (Some [44]) False 1 3 True = Inr cs
     \<and> ck_span (cs ! 1) = Some (3, 4) \<and> slice 3 4 [97, 98, 32, 99, 44, 100] = ck_content (cs ! 1)"
proof -
  let ?s = "[97, 98, 32, 99, 44, 100] :: pystr"
  let ?cs = "[\<lparr>ck_tokens = 3, ck_content = [97, 98], ck_order = 0, ck_span = Some (0, 2)\<rparr>,
              \<lparr>ck_tokens = 2, ck_content = [99], ck_order = 1, ck_span = Some (3, 4)\<rparr>,
              \<lparr>ck_tokens = 1, ck_content = [100], ck_order = 2, ck_span = Some (5, 6)\<rparr>]"
  have run: "chunking_by_token_size char_tokenizer ?s (Some [44]) False 1 3 True = Inr ?cs"
    by (simp add: chunking_by_token_size_def split_text_step char_tokenizer_def windows_def window_step_def
      range_step_def token_window_source_span_def source_span_def trimmed_span_def slice_def Let_def
      number_chunks_def make_chunk_def py_strip_def py_isspace_def upt_rec)
  show ?thesis using emitted_spans_name_their_chunk [OF run, of 1] run by simp
qed

lemma windows_lose_no_token_witness:
  "\<exists>cs ws. chunking_by_token_size char_tokenizer [97, 98, 99, 100] None False 1 3 False = Inr cs
     \<and> map ck_content cs = map (\<lambda>w. py_strip (tk_decode char_tokenizer w)) ws
     \<and> concat (map (take 2) ws) = [97, 98, 99, 100]"
  using windows_lose_no_token [of 1 3 char_tokenizer "[97, 98, 99, 100]" False False]
  by (auto simp: char_tokenizer_def)

end
