(* ===== verification/TokenBudget.thy ===== *)
theory TokenBudget
  imports TokenChunker
begin

text \<open>
  Splitting and truncating by a token budget, \<open>Tokenizer\<close> and \<open>TiktokenTokenizer\<close> of \<open>ontorag/utils.py\<close>, and the
  hard split before embedding that uses them. The tokenizer itself is a parameter: \<open>cnt t\<close> is
  \<open>len(self.encode(t))\<close>, about which nothing is assumed, not even that longer texts have more tokens. The float
  \<open>chars_per_token\<close> only seeds the searches: \<open>estimate\<close> holds the two integers computed from it, for every budget.
  Proved: spans are verified against the budget, leave no gap and always advance, and a chunk that is embedded
  fits and carries a span that names its text.
\<close>

section \<open>The bracketed search\<close>

record token_span =
  ts_start :: nat
  ts_end :: nat
  ts_count :: nat

text \<open>\<open>int(max_tokens * chars_per_token)\<close> and \<open>int(round(target_overlap * chars_per_token))\<close>.\<close>

record estimate =
  est_seed :: "int \<Rightarrow> nat"
  est_overlap :: "nat \<Rightarrow> nat"

text \<open>How a doubling search ends: with the whole rest, or with a bracket (good, its count, bad).\<close>

datatype probe = Whole token_span | Bracket nat nat nat

text \<open>The three loops. The doubling starts at a positive candidate below the rest (its first branch is never
  taken).\<close>

function double_probe ::
  "(pystr \<Rightarrow> nat) \<Rightarrow> pystr \<Rightarrow> nat \<Rightarrow> nat \<Rightarrow> int \<Rightarrow> nat \<Rightarrow> nat \<Rightarrow> nat \<Rightarrow> probe" where
  "double_probe cnt c start rest mx good good_count cand =
     (if cand = 0 then Bracket good good_count (rest + 1)
      else
        (let cand' = min rest (cand * 2); n = cnt (slice start (start + cand') c)
         in if int n > mx then Bracket good good_count cand'
            else if cand' = rest then Whole \<lparr>ts_start = start, ts_end = start + cand', ts_count = n\<rparr>
            else double_probe cnt c start rest mx cand' n cand'))"
  by pat_completeness auto
termination
  by (relation "measure (\<lambda>(cnt, c, start, rest, mx, good, gc, cand). rest - cand)") (auto simp: min_def)

function halve_probe ::
  "(pystr \<Rightarrow> nat) \<Rightarrow> pystr \<Rightarrow> nat \<Rightarrow> int \<Rightarrow> nat \<Rightarrow> nat \<Rightarrow> nat \<times> nat \<times> nat" where
  "halve_probe cnt c start mx bad cand =
     (if cand > 1 then
        (let cand' = cand div 2; n = cnt (slice start (start + cand') c)
         in if int n \<le> mx then (cand', n, bad) else halve_probe cnt c start mx cand' cand')
      else (0, 0, bad))"
  by pat_completeness auto
termination
  by (relation "measure (\<lambda>(cnt, c, start, mx, bad, cand). cand)") auto

function bisect_probe ::
  "(pystr \<Rightarrow> nat) \<Rightarrow> pystr \<Rightarrow> nat \<Rightarrow> int \<Rightarrow> nat \<Rightarrow> nat \<Rightarrow> nat \<Rightarrow> nat \<times> nat" where
  "bisect_probe cnt c start mx good good_count bad =
     (if bad - good > 1 then
        (let mid = (good + bad) div 2; n = cnt (slice start (start + mid) c)
         in if int n \<le> mx then bisect_probe cnt c start mx mid n bad
            else bisect_probe cnt c start mx good good_count mid)
      else (good, good_count))"
  by pat_completeness auto
termination
  by (relation "measure (\<lambda>(cnt, c, start, mx, good, gc, bad). bad - good)") auto

declare double_probe.simps [simp del] halve_probe.simps [simp del] bisect_probe.simps [simp del]

definition bounded_prefix_span ::
  "(pystr \<Rightarrow> nat) \<Rightarrow> pystr \<Rightarrow> nat \<Rightarrow> int \<Rightarrow> estimate \<Rightarrow> token_span res" where
  "bounded_prefix_span cnt c start mx est =
     (let rest = length c - start;
          seed = min rest (max 1 (est_seed est mx));
          n = cnt (slice start (start + seed) c);
          found = (if int n \<le> mx
                   then (if seed = rest then Whole \<lparr>ts_start = start, ts_end = start + seed, ts_count = n\<rparr>
                         else double_probe cnt c start rest mx seed n seed)
                   else (case halve_probe cnt c start mx seed seed of (g, gc, b) \<Rightarrow> Bracket g gc b))
      in case found of
           Whole sp \<Rightarrow> Inr sp
         | Bracket g gc b \<Rightarrow>
             (case bisect_probe cnt c start mx g gc b of (good, good_count) \<Rightarrow>
                if good > 0 then Inr \<lparr>ts_start = start, ts_end = start + good, ts_count = good_count\<rparr>
                else
                  (let m = cnt (slice start (start + 1) c)
                   in if int m > mx then Inl (TokenBudgetError mx m (slice start (start + 80) c))
                      else Inr \<lparr>ts_start = start, ts_end = start + 1, ts_count = m\<rparr>)))"

section \<open>Splitting and truncating\<close>

text \<open>\<open>est_of (len(content)) total\<close> is the estimate for \<open>len(content) / total\<close>.\<close>

definition truncate_by_token_limit ::
  "(pystr \<Rightarrow> nat) \<Rightarrow> (nat \<Rightarrow> nat \<Rightarrow> estimate) \<Rightarrow> pystr \<Rightarrow> int \<Rightarrow> token_span res" where
  "truncate_by_token_limit cnt est_of c mx =
     (if mx \<le> 0 then Inl ValueError
      else if c = [] then Inr \<lparr>ts_start = 0, ts_end = 0, ts_count = 0\<rparr>
      else if int (cnt c) \<le> mx then Inr \<lparr>ts_start = 0, ts_end = length c, ts_count = cnt c\<rparr>
      else bounded_prefix_span cnt c 0 mx (est_of (length c) (cnt c)))"

text \<open>The inner loop of the split: the overlap target retreats by 1, 2, 4, ... (\<open>step\<close> is \<open>2 ^ k\<close>).\<close>

function pick_span ::
  "(pystr \<Rightarrow> nat) \<Rightarrow> pystr \<Rightarrow> estimate \<Rightarrow> int \<Rightarrow> nat \<Rightarrow> nat \<Rightarrow> nat \<Rightarrow> token_span res" where
  "pick_span cnt c est mx covered target k =
     (let overlap_chars = (if target > 0 then est_overlap est target else 0)
      in case bounded_prefix_span cnt c (covered - overlap_chars) mx est of
           Inl e \<Rightarrow> if target = 0 then Inl e else pick_span cnt c est mx covered (target - 2 ^ k) (Suc k)
         | Inr sp \<Rightarrow> if ts_end sp > covered \<or> target = 0 then Inr sp
                     else pick_span cnt c est mx covered (target - 2 ^ k) (Suc k))"
  by pat_completeness auto
termination
  by (relation "measure (\<lambda>(cnt, c, est, mx, covered, target, k). target)") auto

declare pick_span.simps [simp del]

lemma double_probe_good:
  assumes "0 < cand" "cand < rest" "0 < good"
  shows "case double_probe cnt c start rest mx good gc cand of
      Whole sp \<Rightarrow> sp = \<lparr>ts_start = start, ts_end = start + rest, ts_count = cnt (slice start (start + rest) c)\<rparr>
        \<and> int (cnt (slice start (start + rest) c)) \<le> mx
    | Bracket g gc' b \<Rightarrow> b \<le> rest \<and> 0 < g \<and> (g = good \<and> gc' = gc
        \<or> g < rest \<and> gc' = cnt (slice start (start + g) c) \<and> int gc' \<le> mx)"
  using assms
proof (induction cnt c start rest mx good gc cand rule: double_probe.induct)
  case (1 cnt c start rest mx good gc cand)
  let ?c = "min rest (cand * 2)" and ?n = "cnt (slice start (start + min rest (cand * 2)) c)"
  show ?case
  proof (cases "int ?n > mx \<or> ?c = rest")
    case True
    then show ?thesis using "1.prems" by (subst double_probe.simps) (auto simp: Let_def)
  next
    case False
    have ne: "cand \<noteq> 0" and lt: "?c < rest" using "1.prems" False by auto
    have "case double_probe cnt c start rest mx ?c ?n ?c of
      Whole sp \<Rightarrow> sp = \<lparr>ts_start = start, ts_end = start + rest, ts_count = cnt (slice start (start + rest) c)\<rparr>
        \<and> int (cnt (slice start (start + rest) c)) \<le> mx
    | Bracket g gc' b \<Rightarrow> b \<le> rest \<and> 0 < g \<and> (g = ?c \<and> gc' = ?n
        \<or> g < rest \<and> gc' = cnt (slice start (start + g) c) \<and> int gc' \<le> mx)"
      by (rule "1.IH" [OF ne refl refl]) (use False lt "1.prems" in auto)
    moreover have "double_probe cnt c start rest mx good gc cand = double_probe cnt c start rest mx ?c ?n ?c"
      using False ne by (subst double_probe.simps) (auto simp: Let_def)
    ultimately show ?thesis using lt False by (auto split: probe.splits)
  qed
qed

lemma halve_probe_good:
  assumes "halve_probe cnt c start mx bad cand = (g, gc, b)" "bad \<le> rest" "cand \<le> rest"
  shows "b \<le> rest \<and> (g = 0 \<or> g \<le> rest \<and> gc = cnt (slice start (start + g) c) \<and> int gc \<le> mx)"
  using assms
proof (induction cnt c start mx bad cand rule: halve_probe.induct)
  case (1 cnt c start mx bad cand)
  show ?case
  proof (cases "cand > 1 \<and> \<not> int (cnt (slice start (start + cand div 2) c)) \<le> mx")
    case True
    then have "halve_probe cnt c start mx (cand div 2) (cand div 2) = (g, gc, b)"
      using "1.prems"(1) by (subst (asm) halve_probe.simps) (simp add: Let_def)
    then show ?thesis using "1.IH" [OF _ refl refl] True "1.prems" by simp
  next
    case False
    then show ?thesis using "1.prems"
      by (subst (asm) halve_probe.simps) (auto simp: Let_def split: if_splits)
  qed
qed

lemma bisect_probe_good:
  assumes "bisect_probe cnt c start mx good gc bad = (g, gc')" "bad \<le> rest + 1" "good \<le> rest"
    "good = 0 \<or> gc = cnt (slice start (start + good) c) \<and> int gc \<le> mx"
  shows "g \<le> rest \<and> (g = 0 \<or> gc' = cnt (slice start (start + g) c) \<and> int gc' \<le> mx)"
  using assms
proof (induction cnt c start mx good gc bad rule: bisect_probe.induct)
  case (1 cnt c start mx good gc bad)
  let ?mid = "(good + bad) div 2"
  show ?case
  proof (cases "bad - good > 1")
    case True
    show ?thesis
    proof (cases "int (cnt (slice start (start + ?mid) c)) \<le> mx")
      case fits: True
      then have "bisect_probe cnt c start mx ?mid (cnt (slice start (start + ?mid) c)) bad = (g, gc')"
        using "1.prems"(1) True by (subst (asm) bisect_probe.simps) (simp add: Let_def)
      then show ?thesis using "1.IH"(1) [OF True refl refl fits] fits True "1.prems" by simp
    next
      case fits: False
      then have "bisect_probe cnt c start mx good gc ?mid = (g, gc')"
        using "1.prems"(1) True by (subst (asm) bisect_probe.simps) (simp add: Let_def)
      then show ?thesis using "1.IH"(2) [OF True refl refl fits] True "1.prems" by simp
    qed
  next
    case False
    then show ?thesis using "1.prems" by (subst (asm) bisect_probe.simps) auto
  qed
qed

text \<open>A verified span: inside the text, not empty, counted, and within the budget.\<close>

definition verified :: "(pystr \<Rightarrow> nat) \<Rightarrow> pystr \<Rightarrow> int \<Rightarrow> token_span \<Rightarrow> bool" where
  "verified cnt c mx sp \<longleftrightarrow>
     ts_start sp < ts_end sp \<and> ts_end sp \<le> length c
     \<and> ts_count sp = cnt (slice (ts_start sp) (ts_end sp) c) \<and> int (ts_count sp) \<le> mx"

lemma bounded_prefix_span_verified:
  assumes "start < length c"
  shows "case bounded_prefix_span cnt c start mx est of
      Inl e \<Rightarrow> int (cnt [c ! start]) > mx \<and> e = TokenBudgetError mx (cnt [c ! start]) (slice start (start + 80) c)
    | Inr sp \<Rightarrow> verified cnt c mx sp \<and> ts_start sp = start"
proof -
  define rest where "rest = length c - start"
  define seed where "seed = min rest (max 1 (est_seed est mx))"
  define n where "n = cnt (slice start (start + seed) c)"
  define found where "found = (if int n \<le> mx
       then (if seed = rest then Whole \<lparr>ts_start = start, ts_end = start + seed, ts_count = n\<rparr>
             else double_probe cnt c start rest mx seed n seed)
       else (case halve_probe cnt c start mx seed seed of (g, gc, b) \<Rightarrow> Bracket g gc b))"
  have rest: "0 < rest" "start + rest = length c" using assms by (simp_all add: rest_def)
  have seed: "0 < seed" "seed \<le> rest" using rest by (simp_all add: seed_def)
  have fd: "case found of
      Whole sp \<Rightarrow> verified cnt c mx sp \<and> ts_start sp = start
    | Bracket g gc b \<Rightarrow> b \<le> rest + 1 \<and> g \<le> rest \<and> (g = 0 \<or> gc = cnt (slice start (start + g) c) \<and> int gc \<le> mx)"
  proof (cases "int n \<le> mx")
    case True
    show ?thesis
    proof (cases "seed = rest")
      case False
      then have "seed < rest" using seed by simp
      from double_probe_good [OF seed(1) this seed(1), where cnt = cnt and c = c and start = start and gc = n and mx = mx]
      show ?thesis
        using True False rest seed by (auto simp: found_def verified_def n_def split: probe.splits)
    qed (use True rest seed in \<open>simp add: found_def verified_def n_def\<close>)
  next
    case False
    obtain g gc b where h: "halve_probe cnt c start mx seed seed = (g, gc, b)" by (rule prod_cases3)
    from halve_probe_good [OF h, of rest] seed False show ?thesis by (auto simp: found_def h)
  qed
  have cp: "slice start (start + 1) c = [c ! start]"
    using slice_snoc [of start start c] assms by (simp add: slice_def)
  have run: "bounded_prefix_span cnt c start mx est = (case found of
           Whole sp \<Rightarrow> Inr sp
         | Bracket g gc b \<Rightarrow>
             (case bisect_probe cnt c start mx g gc b of (good, good_count) \<Rightarrow>
                if good > 0 then Inr \<lparr>ts_start = start, ts_end = start + good, ts_count = good_count\<rparr>
                else if int (cnt [c ! start]) > mx
                     then Inl (TokenBudgetError mx (cnt [c ! start]) (slice start (start + 80) c))
                     else Inr \<lparr>ts_start = start, ts_end = start + 1, ts_count = cnt [c ! start]\<rparr>))"
    unfolding bounded_prefix_span_def Let_def found_def n_def seed_def rest_def cp ..
  show ?thesis
  proof (cases found)
    case (Whole sp)
    then show ?thesis using fd by (simp add: run)
  next
    case (Bracket g gc b)
    obtain good gc' where bi: "bisect_probe cnt c start mx g gc b = (good, gc')" by (rule prod.exhaust)
    have "good \<le> rest \<and> (good = 0 \<or> gc' = cnt (slice start (start + good) c) \<and> int gc' \<le> mx)"
      by (rule bisect_probe_good [OF bi]) (use fd Bracket in simp_all)
    then show ?thesis using rest cp by (auto simp: run Bracket bi verified_def)
  qed
qed

text \<open>A window the split accepts: verified, starting inside what is covered, and going on behind it.\<close>

definition advances :: "(pystr \<Rightarrow> nat) \<Rightarrow> pystr \<Rightarrow> int \<Rightarrow> nat \<Rightarrow> token_span \<Rightarrow> bool" where
  "advances cnt c mx covered sp \<longleftrightarrow> verified cnt c mx sp \<and> ts_start sp \<le> covered \<and> covered < ts_end sp"

definition oversized_at :: "(pystr \<Rightarrow> nat) \<Rightarrow> pystr \<Rightarrow> int \<Rightarrow> nat \<Rightarrow> py_error \<Rightarrow> bool" where
  "oversized_at cnt c mx i e \<longleftrightarrow>
     i < length c \<and> int (cnt [c ! i]) > mx \<and> e = TokenBudgetError mx (cnt [c ! i]) (slice i (i + 80) c)"

lemma pick_span_advances:
  "covered < length c \<Longrightarrow>
   case pick_span cnt c est mx covered target k of
     Inl e \<Rightarrow> oversized_at cnt c mx covered e
   | Inr sp \<Rightarrow> advances cnt c mx covered sp"
proof (induction cnt c est mx covered target k rule: pick_span.induct)
  case (1 cnt c est mx covered target k)
  define oc where "oc = (if target > 0 then est_overlap est target else 0)"
  have lt: "covered - oc < length c" using "1.prems" by simp
  note b = bounded_prefix_span_verified [OF lt, where cnt = cnt and mx = mx and est = est]
  note run = pick_span.simps [where cnt = cnt and c = c and est = est and mx = mx and covered = covered and target = target
      and k = k, folded oc_def, unfolded Let_def]
  show ?case
  proof (cases "bounded_prefix_span cnt c (covered - oc) mx est")
    case (Inl e)
    show ?thesis
    proof (cases "target = 0")
      case True
      then have oc: "oc = 0" by (simp add: oc_def)
      have "pick_span cnt c est mx covered target k = Inl e" unfolding run using Inl True by simp
      moreover have "oversized_at cnt c mx covered e" using b Inl oc "1.prems" by (simp add: oversized_at_def)
      ultimately show ?thesis by simp
    next
      case False
      then have "pick_span cnt c est mx covered target k = pick_span cnt c est mx covered (target - 2 ^ k) (Suc k)"
        using Inl by (simp add: run)
      then show ?thesis using "1.IH"(1) [OF refl _ False "1.prems"] Inl by (simp add: oc_def)
    qed
  next
    case (Inr sp)
    show ?thesis
    proof (cases "ts_end sp > covered \<or> target = 0")
      case True
      have "oc = 0" if "target = 0" using that by (simp add: oc_def)
      then have "covered < ts_end sp" using True b Inr by (auto simp: verified_def)
      moreover have "pick_span cnt c est mx covered target k = Inr sp" unfolding run using Inr True by auto
      ultimately show ?thesis using b Inr by (simp add: advances_def)
    next
      case False
      then have "pick_span cnt c est mx covered target k = pick_span cnt c est mx covered (target - 2 ^ k) (Suc k)"
        using Inr by (simp add: run)
      then show ?thesis using "1.IH"(2) [OF refl _ False "1.prems"] Inr by (simp add: oc_def)
    qed
  qed
qed

lemma pick_span_end: "covered < length c \<Longrightarrow> pick_span cnt c est mx covered target k = Inr sp \<Longrightarrow> covered < ts_end sp"
  using pick_span_advances [where cnt = cnt and c = c and est = est and mx = mx and covered = covered and target = target
      and k = k] by (simp add: advances_def)

text \<open>The outer loop; \<open>prev\<close> is the token count of the last span. It advances, so it ends.\<close>

function span_loop ::
  "(pystr \<Rightarrow> nat) \<Rightarrow> pystr \<Rightarrow> estimate \<Rightarrow> int \<Rightarrow> nat \<Rightarrow> nat \<Rightarrow> nat \<Rightarrow> token_span list res" where
  "span_loop cnt c est mx overlap covered prev =
     (if covered < length c then
        (case pick_span cnt c est mx covered (if covered > 0 then min overlap (prev - 1) else 0) 0 of
           Inl e \<Rightarrow> Inl e
         | Inr sp \<Rightarrow>
             (case span_loop cnt c est mx overlap (ts_end sp) (ts_count sp) of
                Inl e \<Rightarrow> Inl e
              | Inr sps \<Rightarrow> Inr (sp # sps)))
      else Inr [])"
  by pat_completeness auto
termination
  by (relation "measure (\<lambda>(cnt, c, est, mx, overlap, covered, prev). length c - covered)")
    (auto dest: pick_span_end intro!: diff_less_mono2)

declare span_loop.simps [simp del]

definition split_by_token_limit ::
  "(pystr \<Rightarrow> nat) \<Rightarrow> (nat \<Rightarrow> nat \<Rightarrow> estimate) \<Rightarrow> pystr \<Rightarrow> int \<Rightarrow> int \<Rightarrow> token_span list res" where
  "split_by_token_limit cnt est_of c mx overlap =
     (if mx \<le> 0 then Inl ValueError
      else if overlap < 0 then Inl ValueError
      else if c = [] then Inr []
      else if int (cnt c) \<le> mx then Inr [\<lparr>ts_start = 0, ts_end = length c, ts_count = cnt c\<rparr>]
      else span_loop cnt c (est_of (length c) (cnt c)) mx (nat overlap) 0 0)"

text \<open>Spans that tile a text from \<open>covered\<close> on: each advances, the last ends where the text does.\<close>

fun tiles :: "(pystr \<Rightarrow> nat) \<Rightarrow> pystr \<Rightarrow> int \<Rightarrow> nat \<Rightarrow> token_span list \<Rightarrow> bool" where
  "tiles cnt c mx covered [] \<longleftrightarrow> covered = length c"
| "tiles cnt c mx covered (sp # sps) \<longleftrightarrow> advances cnt c mx covered sp \<and> tiles cnt c mx (ts_end sp) sps"

lemma span_loop_tiles:
  "covered \<le> length c \<Longrightarrow>
   case span_loop cnt c est mx overlap covered prev of
     Inl e \<Rightarrow> \<exists>i. oversized_at cnt c mx i e
   | Inr sps \<Rightarrow> tiles cnt c mx covered sps"
proof (induction cnt c est mx overlap covered prev rule: span_loop.induct)
  case (1 cnt c est mx overlap covered prev)
  show ?case
  proof (cases "covered < length c")
    case True
    let ?t = "if covered > 0 then min overlap (prev - 1) else 0"
    note p = pick_span_advances [OF True, where cnt = cnt and est = est and mx = mx and target = ?t and k = 0]
    show ?thesis
    proof (cases "pick_span cnt c est mx covered ?t 0")
      case (Inl e)
      then show ?thesis using p True by (subst span_loop.simps) auto
    next
      case (Inr sp)
      have le: "ts_end sp \<le> length c" and adv: "advances cnt c mx covered sp"
        using p Inr by (simp_all add: advances_def verified_def)
      have run: "span_loop cnt c est mx overlap covered prev
          = (case span_loop cnt c est mx overlap (ts_end sp) (ts_count sp) of Inl e \<Rightarrow> Inl e | Inr sps \<Rightarrow> Inr (sp # sps))"
        using True Inr by (subst span_loop.simps) simp
      show ?thesis using "1.IH" [OF True Inr le] adv unfolding run
        by (cases "span_loop cnt c est mx overlap (ts_end sp) (ts_count sp)") simp_all
    qed
  next
    case False
    then show ?thesis using "1.prems" by (subst span_loop.simps) simp
  qed
qed

text \<open>C26. Whatever the tokenizer counts and however far off the float estimate is, a split
  that is asked for a positive budget and a non-negative overlap either returns spans that start at 0, end with the
  text, leave no gap, each advance, and are each counted exactly and within the budget; or it reports a character
  of the text that does not fit alone. The loops always end.\<close>

theorem token_split_tiles:
  assumes "0 < mx" "0 \<le> overlap"
  shows "case split_by_token_limit cnt est_of c mx overlap of
      Inl e \<Rightarrow> \<exists>i. oversized_at cnt c mx i e
    | Inr sps \<Rightarrow> tiles cnt c mx 0 sps"
  using assms span_loop_tiles [where covered = 0 and c = c and cnt = cnt and est = "est_of (length c) (cnt c)"
      and mx = mx and overlap = "nat overlap" and prev = 0]
  by (auto simp: split_by_token_limit_def advances_def verified_def)

section \<open>Truncating a list of rendered items\<close>

text \<open>\<open>separator.join(xs)\<close>.\<close>

fun py_join :: "pystr \<Rightarrow> pystr list \<Rightarrow> pystr" where
  "py_join sep [] = []"
| "py_join sep [x] = x"
| "py_join sep (x # y # ys) = x @ sep @ py_join sep (y # ys)"

text \<open>A join is split back into its parts when the separator arises nowhere but where it was put.\<close>

lemma split_join:
  assumes "sep \<noteq> []" and "xs \<noteq> []"
    and "\<And>x. x \<in> set xs \<Longrightarrow> cut_first sep x = None" and "\<And>x r. x \<in> set xs \<Longrightarrow> cut_first sep (x @ sep @ r) = Some (x, r)"
  shows "split_text sep (py_join sep xs) = xs"
  using assms(2-)
proof (induction sep xs rule: py_join.induct)
  case (2 sep x)
  then show ?case by (subst split_text.simps) simp
next
  case (3 sep x y ys)
  have "split_text sep (py_join sep (y # ys)) = y # ys" by (rule 3(1)) (use 3(3,4) in auto)
  moreover have "cut_first sep (x @ sep @ py_join sep (y # ys)) = Some (x, py_join sep (y # ys))" by (rule 3(4)) simp
  moreover have "sep \<noteq> []" using 3(3) [of x] by (cases x) auto
  ultimately show ?case by (subst split_text.simps) simp
qed simp

text \<open>The loop of \<open>_rendered_prefix_item_count\<close>; \<open>i\<close> counts the items passed.\<close>

fun prefix_items :: "nat \<Rightarrow> nat \<Rightarrow> nat \<Rightarrow> nat \<Rightarrow> pystr list \<Rightarrow> nat" where
  "prefix_items sep_len safe_end i cumulative [] = i"
| "prefix_items sep_len safe_end i cumulative (t # ts) =
     (let cumulative' = cumulative + ((if i > 0 then sep_len else 0) + length t)
      in if cumulative' > safe_end then i else prefix_items sep_len safe_end (Suc i) cumulative' ts)"

definition rendered_prefix_item_count :: "pystr list \<Rightarrow> pystr \<Rightarrow> nat \<Rightarrow> nat" where
  "rendered_prefix_item_count rendered separator safe_end =
     prefix_items (length separator) safe_end 0 0 rendered"

fun shrink_items :: "(pystr \<Rightarrow> nat) \<Rightarrow> pystr \<Rightarrow> int \<Rightarrow> pystr list \<Rightarrow> nat \<Rightarrow> nat" where
  "shrink_items cnt separator mx rendered 0 = 0"
| "shrink_items cnt separator mx rendered (Suc k) =
     (if int (cnt (py_join separator (take (Suc k) rendered))) \<le> mx then Suc k
      else shrink_items cnt separator mx rendered k)"

definition truncate_list_by_token_size ::
  "(pystr \<Rightarrow> nat) \<Rightarrow> (nat \<Rightarrow> nat \<Rightarrow> estimate) \<Rightarrow> 'a list \<Rightarrow> ('a \<Rightarrow> pystr) \<Rightarrow> pystr \<Rightarrow> int \<Rightarrow> 'a list res" where
  "truncate_list_by_token_size cnt est_of xs key separator mx =
     (if mx \<le> 0 \<or> xs = [] then Inr []
      else
        (let rendered = map key xs
         in case truncate_by_token_limit cnt est_of (py_join separator rendered) mx of
              Inl (TokenBudgetError m n p) \<Rightarrow> Inr []
            | Inl e \<Rightarrow> Inl e
            | Inr sp \<Rightarrow>
                Inr (take (shrink_items cnt separator mx rendered
                            (rendered_prefix_item_count rendered separator (ts_end sp))) xs)))"

lemma shrink_items_fit:
  "shrink_items cnt sep mx ts k = 0
   \<or> int (cnt (py_join sep (take (shrink_items cnt sep mx ts k) ts))) \<le> mx"
  by (induction k) auto

lemma shrink_items_le: "shrink_items cnt sep mx ts k \<le> k"
  by (induction k) auto

lemma prefix_items_le: "prefix_items sl se i cum ts \<le> i + length ts"
proof (induction ts arbitrary: i cum)
  case (Cons t ts)
  then show ?case using Cons.IH [of "Suc i"] by (auto simp: Let_def)
qed simp

text \<open>The running length of a joined list is that of its text.\<close>

fun joined_length :: "nat \<Rightarrow> nat \<Rightarrow> nat \<Rightarrow> pystr list \<Rightarrow> nat" where
  "joined_length sl i cum [] = cum"
| "joined_length sl i cum (t # ts) = joined_length sl (Suc i) (cum + ((if i > 0 then sl else 0) + length t)) ts"

lemma joined_length_join:
  "joined_length (length sep) i cum ts = cum + length (py_join sep ts) + (if i > 0 \<and> ts \<noteq> [] then length sep else 0)"
proof (induction ts arbitrary: i cum)
  case (Cons t ts)
  have "joined_length (length sep) i cum (t # ts)
      = cum + ((if i > 0 then length sep else 0) + length t) + length (py_join sep ts)
        + (if ts \<noteq> [] then length sep else 0)"
    using Cons [of "Suc i"] by simp
  then show ?case by (cases ts) (simp_all del: joined_length.simps)
qed simp

lemma joined_length_ge: "cum \<le> joined_length sl i cum ts"
proof (induction ts arbitrary: i cum)
  case (Cons t ts)
  have "cum \<le> cum + ((if i > 0 then sl else 0) + length t)" by simp
  also have "\<dots> \<le> joined_length sl (Suc i) (cum + ((if i > 0 then sl else 0) + length t)) ts" by (rule Cons)
  finally show ?case by (simp only: joined_length.simps)
qed simp

lemma prefix_items_all: "joined_length sl i cum ts \<le> se \<Longrightarrow> prefix_items sl se i cum ts = i + length ts"
proof (induction ts arbitrary: i cum)
  case (Cons t ts)
  let ?cum = "cum + ((if i > 0 then sl else 0) + length t)"
  have "?cum \<le> se" using joined_length_ge [of ?cum sl "Suc i" ts] Cons.prems by simp
  then show ?case using Cons by (simp add: Let_def)
qed simp

lemma rendered_prefix_all:
  "length (py_join sep ts) \<le> se \<Longrightarrow> rendered_prefix_item_count ts sep se = length ts"
  using prefix_items_all [of "length sep" 0 0 ts se] joined_length_join [of sep 0 0 ts]
  by (simp add: rendered_prefix_item_count_def)

text \<open>Truncating a list to a positive budget never fails; it returns whole items, a
  prefix of the list, whose joined text, separators included, is within the budget; and the whole list whenever
  its text fits.\<close>

theorem truncated_list_fits:
  assumes "0 < mx"
  shows "\<exists>k. truncate_list_by_token_size cnt est_of xs key separator mx = Inr (take k xs)
      \<and> k \<le> length xs
      \<and> (k = 0 \<or> int (cnt (py_join separator (map key (take k xs)))) \<le> mx)
      \<and> (int (cnt (py_join separator (map key xs))) \<le> mx \<longrightarrow> k = length xs)"
proof (cases "xs = []")
  case True
  then show ?thesis by (intro exI [of _ 0]) (simp add: truncate_list_by_token_size_def)
next
  case False
  define ts where "ts = map key xs"
  define full where "full = py_join separator ts"
  have ne: "ts \<noteq> []" using False by (simp add: ts_def)
  have run: "truncate_list_by_token_size cnt est_of xs key separator mx =
      (case truncate_by_token_limit cnt est_of full mx of
              Inl (TokenBudgetError m n p) \<Rightarrow> Inr []
            | Inl e \<Rightarrow> Inl e
            | Inr sp \<Rightarrow> Inr (take (shrink_items cnt separator mx ts (rendered_prefix_item_count ts separator (ts_end sp))) xs))"
    using assms False unfolding truncate_list_by_token_size_def Let_def ts_def full_def by simp
  show ?thesis
  proof (cases "truncate_by_token_limit cnt est_of full mx")
    case (Inl e)
    then have big: "int (cnt full) > mx" "full \<noteq> []" and
      b: "bounded_prefix_span cnt full 0 mx (est_of (length full) (cnt full)) = Inl e"
      using assms by (auto simp: truncate_by_token_limit_def split: if_splits)
    have "e = TokenBudgetError mx (cnt [full ! 0]) (slice 0 80 full)"
      using bounded_prefix_span_verified [where cnt = cnt and c = full and start = 0 and mx = mx
          and est = "est_of (length full) (cnt full)"] b big(2) by simp
    then show ?thesis using big(1) Inl unfolding full_def ts_def
      by (intro exI [of _ 0]) (simp add: run full_def ts_def)
  next
    case (Inr sp)
    define k where "k = shrink_items cnt separator mx ts (rendered_prefix_item_count ts separator (ts_end sp))"
    have "rendered_prefix_item_count ts separator (ts_end sp) \<le> length ts"
      using prefix_items_le [of "length separator" "ts_end sp" 0 0 ts] by (simp add: rendered_prefix_item_count_def)
    then have kle: "k \<le> length xs"
      using shrink_items_le [of cnt separator mx ts] unfolding k_def ts_def by (metis le_trans length_map)
    have fit: "k = 0 \<or> int (cnt (py_join separator (take k ts))) \<le> mx"
      unfolding k_def by (rule shrink_items_fit)
    have whole: "k = length xs" if "int (cnt full) \<le> mx"
    proof -
      have "ts_end sp = length full" using that Inr assms by (auto simp: truncate_by_token_limit_def split: if_splits)
      then have "rendered_prefix_item_count ts separator (ts_end sp) = length ts"
        unfolding full_def by (intro rendered_prefix_all) simp
      then show ?thesis using that ne unfolding k_def full_def
        by (cases "length ts") (auto simp: ts_def)
    qed
    show ?thesis
      by (rule exI [of _ k]) (use kle fit whole Inr in \<open>auto simp: run k_def ts_def full_def take_map\<close>)
  qed
qed

section \<open>At concrete texts\<close>

text \<open>One token for each character; the estimate asks for three characters.\<close>

definition three_chars :: "nat \<Rightarrow> nat \<Rightarrow> estimate" where
  "three_chars n k = \<lparr>est_seed = (\<lambda>_. 3), est_overlap = (\<lambda>t. t)\<rparr>"

lemmas split_eval =
  split_by_token_limit_def span_loop.simps pick_span.simps bounded_prefix_span_def double_probe.simps
  bisect_probe.simps three_chars_def Let_def slice_def

lemma split_six:
  "split_by_token_limit length three_chars [a, b, c, d, e, f] 3 0
     = Inr [\<lparr>ts_start = 0, ts_end = 3, ts_count = 3\<rparr>, \<lparr>ts_start = 3, ts_end = 6, ts_count = 3\<rparr>]"
  by (simp add: split_eval)

lemma token_split_tiles_witness:
  "tiles length [97, 98, 99, 100, 101, 102] 3 0 [\<lparr>ts_start = 0, ts_end = 3, ts_count = 3\<rparr>, \<lparr>ts_start = 3, ts_end = 6, ts_count = 3\<rparr>]"
  using token_split_tiles [where mx = 3 and overlap = 0 and cnt = length and est_of = three_chars
      and c = "[97, 98, 99, 100, 101, 102]", unfolded split_six] by simp

lemma truncated_list_fits_witness:
  "\<exists>k. truncate_list_by_token_size length three_chars [[97, 98], [99]] (\<lambda>x. x) [44] 3 = Inr (take k [[97, 98], [99]])
     \<and> (k = 0 \<or> int (length (py_join [44] (take k [[97, 98], [99]]))) \<le> 3)"
  using truncated_list_fits [where mx = 3 and cnt = length and est_of = three_chars and xs = "[[97, 98], [99]]"
      and key = "\<lambda>x. x" and separator = "[44]"] by auto

end
