(* ===== verification/ChunkSchema.thy ===== *)
theory ChunkSchema
  imports JsonValues TokenBudget
begin

text \<open>
  The schema helpers of chunks, src/ontorag/chunk_schema.py: the canonical heading and sidecar, and
  the breadcrumb of headings, with the budget src/ontorag/operate.py puts on it. A chunk is a JSON
  object. Parameters: \<open>str\<close> of a value that is not a text, \<open>int\<close> of a text, and the table of
  \<open>unicodedata.category\<close> (is the character a control or format character). The rewriting of markup
  by regular expressions is not modelled.
\<close>

section \<open>The heading of a chunk\<close>

record pyconv =
  pc_str :: "jval \<Rightarrow> pystr"
  pc_int :: "pystr \<Rightarrow> int option"

text \<open>\<open>v or ""\<close>: which values count as false.\<close>

definition falsy :: "jval \<Rightarrow> bool" where
  "falsy v = (case v of JNull \<Rightarrow> True | JBool b \<Rightarrow> \<not> b | JNum r \<Rightarrow> r = 0 | JStr s \<Rightarrow> s = []
     | JArr xs \<Rightarrow> xs = [] | JObj o' \<Rightarrow> o' = [])"

definition str_or_empty :: "pyconv \<Rightarrow> jval option \<Rightarrow> pystr" where
  "str_or_empty P v = (case v of None \<Rightarrow> [] | Some x \<Rightarrow>
     if falsy x then [] else (case x of JStr s \<Rightarrow> s | _ \<Rightarrow> pc_str P x))"

text \<open>\<open>int(level_raw or 0)\<close> with its two handled errors.\<close>

definition heading_level :: "pyconv \<Rightarrow> jval option \<Rightarrow> int" where
  "heading_level P v = (case v of None \<Rightarrow> 0 | Some x \<Rightarrow>
     if falsy x then 0 else (case x of
       JNum r \<Rightarrow> (if r < 0 then - \<lfloor>- r\<rfloor> else \<lfloor>r\<rfloor>)
     | JBool b \<Rightarrow> 1
     | JStr s \<Rightarrow> (case pc_int P s of None \<Rightarrow> 0 | Some n \<Rightarrow> n)
     | _ \<Rightarrow> 0))"

record heading =
  hd_level :: int
  hd_heading :: pystr
  hd_parents :: "pystr list"

type_synonym chunk_dict = "(string, jval) odict"

definition heading_parents :: "pyconv \<Rightarrow> jval option \<Rightarrow> pystr list" where
  "heading_parents P v = (case v of
     Some (JArr es) \<Rightarrow> filter (\<lambda>t. t \<noteq> []) (map (\<lambda>e. py_strip (str_or_empty P (Some e))) es)
   | _ \<Rightarrow> [])"

text \<open>The three raw values, from the nested or from the flat shape.\<close>

definition heading_source :: "pyconv \<Rightarrow> chunk_dict \<Rightarrow> pystr \<times> jval option \<times> jval option" where
  "heading_source P dp =
     (case map_of dp ''heading'' of
        Some (JObj n) \<Rightarrow> (py_strip (str_or_empty P (map_of n ''heading'')),
                         map_of n ''parent_headings'', map_of n ''level'')
      | nested \<Rightarrow> (py_strip (str_or_empty P nested),
                  map_of dp ''parent_headings'', map_of dp ''level''))"

definition normalize_chunk_heading :: "pyconv \<Rightarrow> chunk_dict \<Rightarrow> heading option" where
  "normalize_chunk_heading P dp =
     (let (heading_text, parents_raw, level_raw) = heading_source P dp;
          parent_headings = heading_parents P parents_raw;
          level = heading_level P level_raw
      in if heading_text = [] \<and> parent_headings = [] \<and> level = 0 then None
         else Some \<lparr>hd_level = level, hd_heading = heading_text, hd_parents = parent_headings\<rparr>)"

section \<open>The breadcrumb\<close>

definition HEADING_BREADCRUMB_SEP :: pystr where
  "HEADING_BREADCRUMB_SEP = [32, 8594, 32]"

definition heading_keep_ws :: "nat \<Rightarrow> bool" where
  "heading_keep_ws c \<longleftrightarrow> c = 9 \<or> c = 10 \<or> c = 13 \<or> c = 12 \<or> c = 11"

text \<open>\<open>re.sub(r"\s+", " ", text)\<close>.\<close>

fun collapse_ws :: "bool \<Rightarrow> pystr \<Rightarrow> pystr" where
  "collapse_ws in_run [] = []"
| "collapse_ws in_run (c # s) =
     (if py_isspace c then (if in_run then collapse_ws True s else 32 # collapse_ws True s)
      else c # collapse_ws False s)"

text \<open>\<open>strips\<close>: the category of the character is \<open>Cc\<close> or \<open>Cf\<close>.\<close>

definition clean_heading_text :: "(nat \<Rightarrow> bool) \<Rightarrow> pystr \<Rightarrow> pystr" where
  "clean_heading_text strips s =
     py_strip (collapse_ws False
       (filter (\<lambda>c. heading_keep_ws c \<or> \<not> strips c) (map (\<lambda>c. if c = 8594 then 32 else c) s)))"

definition truncate_heading_level :: "pystr \<Rightarrow> int \<Rightarrow> pystr" where
  "truncate_heading_level s max_chars =
     (if max_chars \<le> 0 \<or> int (length s) \<le> max_chars then s
      else py_rstrip (take (nat (max_chars - 1)) s) @ [8230])"

definition clean_and_cap_headings :: "(nat \<Rightarrow> bool) \<Rightarrow> pystr list \<Rightarrow> int \<Rightarrow> pystr list" where
  "clean_and_cap_headings strips headings max_heading_len =
     map (\<lambda>c. truncate_heading_level c max_heading_len)
       (filter (\<lambda>c. c \<noteq> []) (map (clean_heading_text strips) headings))"

definition format_parent_headings :: "pyconv \<Rightarrow> (nat \<Rightarrow> bool) \<Rightarrow> chunk_dict \<Rightarrow> int \<Rightarrow> pystr" where
  "format_parent_headings P strips dp max_heading_len =
     (case normalize_chunk_heading P dp of None \<Rightarrow> []
      | Some h \<Rightarrow> py_join HEADING_BREADCRUMB_SEP (clean_and_cap_headings strips (hd_parents h) max_heading_len))"

definition heading_chain :: "heading \<Rightarrow> pystr list" where
  "heading_chain h = hd_parents h @ (if hd_heading h \<noteq> [] then [hd_heading h] else [])"

definition format_heading_context :: "pyconv \<Rightarrow> (nat \<Rightarrow> bool) \<Rightarrow> chunk_dict \<Rightarrow> int \<Rightarrow> pystr" where
  "format_heading_context P strips dp max_heading_len =
     (case normalize_chunk_heading P dp of None \<Rightarrow> []
      | Some h \<Rightarrow> py_join HEADING_BREADCRUMB_SEP (clean_and_cap_headings strips (heading_chain h) max_heading_len))"

text \<open>The token budget: \<open>_truncate_section_context\<close>. The two loops count \<open>keep\<close> down to 0.\<close>

fun keep_loop_suffix ::
    "'tok tokenizer \<Rightarrow> int \<Rightarrow> 'tok list \<Rightarrow> pystr \<Rightarrow> nat \<Rightarrow> pystr option" where
  "keep_loop_suffix tz mx tokens ending keep =
     (let candidate = py_rstrip (tk_decode tz (take keep tokens)) @ ending
      in if int (length (tk_encode tz candidate)) \<le> mx then Some candidate
         else (case keep of 0 \<Rightarrow> None | Suc k \<Rightarrow> keep_loop_suffix tz mx tokens ending k))"

declare keep_loop_suffix.simps [simp del]

definition collapse_path :: "pystr \<Rightarrow> pystr" where
  "collapse_path heading_path =
     (let levels = split_text HEADING_BREADCRUMB_SEP heading_path
      in if length levels \<ge> 3
         then hd levels @ HEADING_BREADCRUMB_SEP @ [8230] @ HEADING_BREADCRUMB_SEP @ last levels
         else heading_path)"

definition truncate_section_context :: "pystr \<Rightarrow> 'tok tokenizer option \<Rightarrow> int \<Rightarrow> pystr" where
  "truncate_section_context heading_path tokenizer max_tokens =
     (case tokenizer of None \<Rightarrow> heading_path
      | Some tz \<Rightarrow>
          if heading_path = [] \<or> max_tokens \<le> 0 then heading_path
          else if int (length (tk_encode tz heading_path)) \<le> max_tokens then heading_path
          else (let path = collapse_path heading_path; tokens = tk_encode tz path;
                    ellipsis_token_count = int (length (tk_encode tz [8230]))
                in if int (length tokens) > max_tokens
                   then (case (if ellipsis_token_count \<le> max_tokens
                               then keep_loop_suffix tz max_tokens tokens [8230] (nat (max_tokens - ellipsis_token_count))
                               else None) of
                           Some candidate \<Rightarrow> candidate
                         | None \<Rightarrow> (case keep_loop_suffix tz max_tokens tokens [] (nat max_tokens) of
                                     Some candidate \<Rightarrow> candidate | None \<Rightarrow> []))
                   else path))"

section \<open>The sidecar of a chunk\<close>

definition sidecar_types :: "pystr set" where
  "sidecar_types = {lit ''block'', lit ''drawing'', lit ''table'', lit ''equation''}"

record sidecar =
  sc_type :: pystr
  sc_id :: pystr
  sc_refs :: "(pystr \<times> pystr) list"
  sc_image_type :: "pystr option"

definition sidecar_ref :: "pyconv \<Rightarrow> jval \<Rightarrow> (pystr \<times> pystr) option" where
  "sidecar_ref P entry = (case entry of
     JObj e \<Rightarrow> (let ref_type = py_strip (str_or_empty P (map_of e ''type''));
                   ref_id = py_strip (str_or_empty P (map_of e ''id''))
               in if ref_type \<in> sidecar_types \<and> ref_id \<noteq> [] then Some (ref_type, ref_id) else None)
   | _ \<Rightarrow> None)"

definition normalize_chunk_sidecar :: "pyconv \<Rightarrow> chunk_dict \<Rightarrow> sidecar option" where
  "normalize_chunk_sidecar P dp =
     (case map_of dp ''sidecar'' of
        Some (JObj sc) \<Rightarrow>
          (let t = py_strip (str_or_empty P (map_of sc ''type''));
               i = py_strip (str_or_empty P (map_of sc ''id''));
               refs = (case map_of sc ''refs'' of
                   Some (JArr es) \<Rightarrow> List.map_filter (sidecar_ref P) es | _ \<Rightarrow> []);
               image_type = py_strip (str_or_empty P (map_of sc ''image_type''))
           in if t \<notin> sidecar_types \<or> i = [] then None
              else Some \<lparr>sc_type = t, sc_id = i, sc_refs = (if refs = [] then [(t, i)] else refs),
                         sc_image_type = (if t = lit ''drawing'' \<and> image_type \<noteq> [] then Some image_type
                                          else None)\<rparr>)
      | _ \<Rightarrow> None)"

section \<open>Splitting the breadcrumb gives the levels\<close>

lemma cut_first_no_arrow: "8594 \<notin> set x \<Longrightarrow> cut_first HEADING_BREADCRUMB_SEP x = None"
  by (induction x) (auto simp: HEADING_BREADCRUMB_SEP_def prefix_def)

lemma cut_first_at_sep:
  "8594 \<notin> set x \<Longrightarrow> cut_first HEADING_BREADCRUMB_SEP (x @ HEADING_BREADCRUMB_SEP @ r) = Some (x, r)"
proof (induction x)
  case (Cons c x)
  have "\<not> prefix HEADING_BREADCRUMB_SEP (c # x @ HEADING_BREADCRUMB_SEP @ r)"
    using Cons.prems by (cases x) (auto simp: HEADING_BREADCRUMB_SEP_def)
  with Cons show ?case by simp
qed (simp add: HEADING_BREADCRUMB_SEP_def)

lemma split_join_levels:
  "xs \<noteq> [] \<Longrightarrow> \<forall>x \<in> set xs. 8594 \<notin> set x
     \<Longrightarrow> split_text HEADING_BREADCRUMB_SEP (py_join HEADING_BREADCRUMB_SEP xs) = xs"
  by (rule split_join) (auto simp: cut_first_at_sep cut_first_no_arrow HEADING_BREADCRUMB_SEP_def [symmetric],
    simp add: HEADING_BREADCRUMB_SEP_def)

lemma set_collapse_ws: "set (collapse_ws b s) \<subseteq> insert 32 {c \<in> set s. \<not> py_isspace c}"
  by (induction s arbitrary: b) auto

lemma set_py_rstrip: "set (py_rstrip s) \<subseteq> set s"
  using set_dropWhileD[of _ py_isspace "rev s"] by (auto simp: py_rstrip_def)

lemma set_py_strip: "set (py_strip s) \<subseteq> set s"
  using set_py_rstrip[of "dropWhile py_isspace s"] set_dropWhileD[of _ py_isspace s]
  unfolding py_strip_rstrip by (auto simp: subset_iff)

lemma clean_heading_chars:
  assumes "c \<in> set (clean_heading_text strips s)"
  shows "c = 32 \<or> (\<not> py_isspace c \<and> \<not> strips c \<and> c \<noteq> 8594)"
proof -
  let ?t = "filter (\<lambda>c. heading_keep_ws c \<or> \<not> strips c) (map (\<lambda>c. if c = 8594 then 32 else c) s)"
  have "c \<in> insert 32 {c \<in> set ?t. \<not> py_isspace c}"
    using assms set_py_strip set_collapse_ws unfolding clean_heading_text_def by blast
  then show ?thesis by (auto simp: heading_keep_ws_def py_isspace_def split: if_splits)
qed

lemma length_py_rstrip: "length (py_rstrip s) \<le> length s"
  using length_dropWhile_le[of py_isspace "rev s"] by (simp add: py_rstrip_def)

lemma capped_level:
  assumes "x \<in> set (clean_and_cap_headings strips headings m)"
  shows "x \<noteq> []" "c \<in> set x \<Longrightarrow> c = 8230 \<or> c = 32 \<or> (\<not> py_isspace c \<and> \<not> strips c \<and> c \<noteq> 8594)"
    "0 < m \<Longrightarrow> int (length x) \<le> m"
proof -
  obtain h where h: "clean_heading_text strips h \<noteq> []"
    and x: "x = truncate_heading_level (clean_heading_text strips h) m"
    using assms by (auto simp: clean_and_cap_headings_def)
  show "x \<noteq> []" using h by (simp add: x truncate_heading_level_def)
  show "c = 8230 \<or> c = 32 \<or> (\<not> py_isspace c \<and> \<not> strips c \<and> c \<noteq> 8594)" if "c \<in> set x"
  proof -
    have "c = 8230 \<or> c \<in> set (clean_heading_text strips h)"
      using that set_py_rstrip[of "take (nat (m - 1)) (clean_heading_text strips h)"]
      by (auto simp: x truncate_heading_level_def dest: in_set_takeD split: if_splits)
    then show ?thesis using clean_heading_chars[of c strips h] by blast
  qed
  show "int (length x) \<le> m" if "0 < m"
    using that length_py_rstrip[of "take (nat (m - 1)) (clean_heading_text strips h)"]
    by (auto simp: x truncate_heading_level_def)
qed

text \<open>The breadcrumb of a chunk with headings, split at its separator, is
  the list of its levels again, so that no heading can forge a level: each level is non-empty, within
  the cap, and holds no separator arrow, no control or format character, and no whitespace but the
  plain space.\<close>

theorem breadcrumb_roundtrip:
  assumes "normalize_chunk_heading P dp = Some h"
    and "clean_and_cap_headings strips (heading_chain h) m = levels" and "levels \<noteq> []"
  shows "split_text HEADING_BREADCRUMB_SEP (format_heading_context P strips dp m) = levels
    \<and> (\<forall>x \<in> set levels. x \<noteq> [] \<and> (0 < m \<longrightarrow> int (length x) \<le> m)
         \<and> (\<forall>c \<in> set x. c = 8230 \<or> c = 32 \<or> (\<not> py_isspace c \<and> \<not> strips c \<and> c \<noteq> 8594)))"
proof
  have level: "x \<noteq> [] \<and> (0 < m \<longrightarrow> int (length x) \<le> m)
      \<and> (\<forall>c \<in> set x. c = 8230 \<or> c = 32 \<or> (\<not> py_isspace c \<and> \<not> strips c \<and> c \<noteq> 8594))" if "x \<in> set levels" for x
    using capped_level[of x strips "heading_chain h" m] that assms(2) by blast
  then show "\<forall>x \<in> set levels. x \<noteq> [] \<and> (0 < m \<longrightarrow> int (length x) \<le> m)
      \<and> (\<forall>c \<in> set x. c = 8230 \<or> c = 32 \<or> (\<not> py_isspace c \<and> \<not> strips c \<and> c \<noteq> 8594))" by blast
  have "\<forall>x \<in> set levels. 8594 \<notin> set x" using level by force
  then have "split_text HEADING_BREADCRUMB_SEP (py_join HEADING_BREADCRUMB_SEP levels) = levels"
    by (rule split_join_levels[OF assms(3)])
  then show "split_text HEADING_BREADCRUMB_SEP (format_heading_context P strips dp m) = levels"
    using assms by (simp add: format_heading_context_def)
qed

definition plain_conv :: pyconv where
  "plain_conv = \<lparr>pc_str = (\<lambda>_. []), pc_int = (\<lambda>_. None)\<rparr>"

lemma breadcrumb_roundtrip_witness:
  "split_text HEADING_BREADCRUMB_SEP (format_heading_context plain_conv (\<lambda>c. c = 0)
     [(''heading'', JStr (lit ''b'' @ [8594] @ lit ''c'')), (''parent_headings'', JArr [JStr (lit ''abcdef'')])] 4)
   = [lit ''abc'' @ [8230], lit ''b c'']"
proof -
  let ?dp = "[(''heading'', JStr (lit ''b'' @ [8594] @ lit ''c'')), (''parent_headings'', JArr [JStr (lit ''abcdef'')])]"
  have n: "normalize_chunk_heading plain_conv ?dp
      = Some \<lparr>hd_level = 0, hd_heading = lit ''b'' @ [8594] @ lit ''c'', hd_parents = [lit ''abcdef'']\<rparr>"
    by (simp add: normalize_chunk_heading_def heading_source_def str_or_empty_def falsy_def heading_parents_def heading_level_def
        py_strip_def py_isspace_def lit_def)
  have c: "clean_and_cap_headings (\<lambda>c. c = 0)
      (heading_chain \<lparr>hd_level = 0, hd_heading = lit ''b'' @ [8594] @ lit ''c'', hd_parents = [lit ''abcdef'']\<rparr>) 4
      = [lit ''abc'' @ [8230], lit ''b c'']"
    by (simp add: clean_and_cap_headings_def heading_chain_def clean_heading_text_def truncate_heading_level_def
        py_strip_def py_rstrip_def py_isspace_def heading_keep_ws_def lit_def)
  show ?thesis using breadcrumb_roundtrip[OF n c] by simp
qed

text \<open>The other whitespace controls, such as U+0085, are dropped without a space.\<close>

lemma next_line_glues_words:
  "clean_heading_text (\<lambda>c. c < 32 \<or> c = 133) (lit ''a'' @ [133] @ lit ''b'') = lit ''ab''"
  by (simp add: clean_heading_text_def py_strip_def py_isspace_def heading_keep_ws_def lit_def)

section \<open>The token budget of the breadcrumb\<close>

lemma keep_loop_fits: "keep_loop_suffix tz mx tokens ending keep = Some r \<Longrightarrow> int (length (tk_encode tz r)) \<le> mx"
proof (induction keep)
  case 0
  then show ?case by (subst (asm) keep_loop_suffix.simps) (auto simp: Let_def split: if_splits)
next
  case (Suc keep)
  then show ?case by (subst (asm) keep_loop_suffix.simps) (auto simp: Let_def split: if_splits)
qed

text \<open>A positive budget is met whatever the tokenizer does on the texts the
  function builds, as long as the empty text has no token.\<close>

theorem section_context_fits:
  assumes "tk_encode tz [] = []" "0 < mx"
  shows "int (length (tk_encode tz (truncate_section_context path (Some tz) mx))) \<le> mx"
proof (cases "path = [] \<or> int (length (tk_encode tz path)) \<le> mx")
  case False
  show ?thesis
    using assms False keep_loop_fits
    by (auto simp: truncate_section_context_def Let_def split: option.split)
qed (use assms in \<open>auto simp: truncate_section_context_def\<close>)

lemma section_context_fits_witness:
  "int (length (tk_encode \<lparr>tk_encode = (\<lambda>s. s), tk_decode = (\<lambda>s. s)\<rparr>
     (truncate_section_context (lit ''abcdefgh'') (Some \<lparr>tk_encode = (\<lambda>s. s), tk_decode = (\<lambda>s. s)\<rparr>) 5))) \<le> 5
   \<and> truncate_section_context (lit ''abcdefgh'') (Some \<lparr>tk_encode = (\<lambda>s. s), tk_decode = (\<lambda>s. s)\<rparr>) 5 = lit ''abcd'' @ [8230]"
proof
  show "int (length (tk_encode \<lparr>tk_encode = (\<lambda>s. s), tk_decode = (\<lambda>s. s)\<rparr>
     (truncate_section_context (lit ''abcdefgh'') (Some \<lparr>tk_encode = (\<lambda>s. s), tk_decode = (\<lambda>s. s)\<rparr>) 5))) \<le> 5"
    by (rule section_context_fits) simp_all
  show "truncate_section_context (lit ''abcdefgh'') (Some \<lparr>tk_encode = (\<lambda>s. s), tk_decode = (\<lambda>s. s)\<rparr>) 5 = lit ''abcd'' @ [8230]"
    by (simp add: truncate_section_context_def collapse_path_def split_text.simps HEADING_BREADCRUMB_SEP_def lit_def
        keep_loop_suffix.simps py_rstrip_def py_isspace_def Let_def)
qed

section \<open>Normalising is idempotent\<close>

lemma str_or_empty_text [simp]: "str_or_empty P (Some (JStr s)) = s"
  by (simp add: str_or_empty_def falsy_def)

lemma heading_level_of_int [simp]: "heading_level P (Some (JNum (of_int n))) = n"
proof -
  have "- (of_int n :: rat) = of_int (- n)" by simp
  then show ?thesis by (simp add: heading_level_def falsy_def del: of_int_minus)
qed

text \<open>The canonical heading as the value stored in a chunk.\<close>

definition heading_value :: "heading \<Rightarrow> jval" where
  "heading_value h = JObj [(''level'', JNum (of_int (hd_level h))), (''heading'', JStr (hd_heading h)),
     (''parent_headings'', JArr (map JStr (hd_parents h)))]"

definition heading_canonical :: "heading \<Rightarrow> bool" where
  "heading_canonical h \<longleftrightarrow> py_strip (hd_heading h) = hd_heading h
     \<and> (\<forall>t \<in> set (hd_parents h). t \<noteq> [] \<and> py_strip t = t)
     \<and> (hd_heading h \<noteq> [] \<or> hd_parents h \<noteq> [] \<or> hd_level h \<noteq> 0)"

lemma heading_source_stripped: "py_strip (fst (heading_source P dp)) = fst (heading_source P dp)"
proof (cases "map_of dp ''heading''")
  case (Some v)
  then show ?thesis by (cases v) (simp_all add: heading_source_def)
qed (simp add: heading_source_def)

lemma heading_parents_stripped: "\<forall>t \<in> set (heading_parents P v). t \<noteq> [] \<and> py_strip t = t"
proof (cases v)
  case (Some x)
  then show ?thesis by (cases x) (auto simp: heading_parents_def)
qed (simp add: heading_parents_def)

lemma normalize_heading_canonical:
  assumes "normalize_chunk_heading P dp = Some h"
  shows "heading_canonical h"
proof -
  obtain a b c where abc: "heading_source P dp = (a, b, c)" by (rule prod_cases3)
  have h: "h = \<lparr>hd_level = heading_level P c, hd_heading = a, hd_parents = heading_parents P b\<rparr>"
    and n: "\<not> (a = [] \<and> heading_parents P b = [] \<and> heading_level P c = 0)"
    using assms unfolding normalize_chunk_heading_def abc Let_def prod.case by (simp_all split: if_splits)
  have "py_strip a = a" using heading_source_stripped[of P dp] abc by simp
  then show ?thesis using heading_parents_stripped[of P b] n unfolding h heading_canonical_def heading.simps by blast
qed

lemma normalize_heading_value:
  assumes "heading_canonical h"
  shows "normalize_chunk_heading P [(''heading'', heading_value h)] = Some h"
proof -
  have "filter (\<lambda>t. t \<noteq> []) (map (\<lambda>e. py_strip (str_or_empty P (Some e))) (map JStr (hd_parents h))) = hd_parents h"
    using assms by (simp add: heading_canonical_def comp_def cong: map_cong)
  then have "heading_parents P (Some (JArr (map JStr (hd_parents h)))) = hd_parents h"
    by (simp add: heading_parents_def)
  then show ?thesis
    using assms by (cases h) (simp add: normalize_chunk_heading_def heading_source_def heading_value_def heading_canonical_def)
qed

text \<open>Normalising is idempotent: the canonical heading of a chunk, in either
  of the two shapes it may have been given, stored back as the nested value is its own canonical form.\<close>

theorem heading_normal_form:
  assumes "normalize_chunk_heading P dp = Some h"
  shows "normalize_chunk_heading P [(''heading'', heading_value h)] = Some h"
  by (rule normalize_heading_value[OF normalize_heading_canonical[OF assms]])

lemma heading_normal_form_witness:
  "normalize_chunk_heading plain_conv
     [(''heading'', heading_value \<lparr>hd_level = 2, hd_heading = lit ''b'', hd_parents = [lit ''a'']\<rparr>)]
   = Some \<lparr>hd_level = 2, hd_heading = lit ''b'', hd_parents = [lit ''a'']\<rparr>"
  by (rule heading_normal_form[where dp = "[(''heading'', JStr (lit '' b'')), (''level'', JNum 2),
        (''parent_headings'', JArr [JStr (lit ''a ''), JNull, JStr (lit '' '')])]"])
    (simp add: normalize_chunk_heading_def heading_source_def str_or_empty_def falsy_def heading_parents_def heading_level_def
        py_strip_def py_isspace_def lit_def)

section \<open>The sidecar is well-typed\<close>

definition sidecar_ok :: "sidecar \<Rightarrow> bool" where
  "sidecar_ok s \<longleftrightarrow> sc_type s \<in> sidecar_types \<and> sc_id s \<noteq> [] \<and> sc_refs s \<noteq> []
     \<and> (\<forall>(t, i) \<in> set (sc_refs s). t \<in> sidecar_types \<and> i \<noteq> [])
     \<and> (\<forall>m. sc_image_type s = Some m \<longrightarrow> sc_type s = lit ''drawing'' \<and> m \<noteq> [])"

lemma sidecar_ref_ok: "sidecar_ref P e = Some (t, i) \<Longrightarrow> t \<in> sidecar_types \<and> i \<noteq> []"
  by (auto simp: sidecar_ref_def Let_def split: json.splits if_splits)

text \<open>C38. Whatever JSON a parser put under \<open>sidecar\<close>, the canonical sidecar has a
  known type, a non-empty id and at least one reference, every reference a known type and a non-empty
  id, and an image type only on a drawing.\<close>

theorem sidecar_well_typed:
  assumes "normalize_chunk_sidecar P dp = Some s"
  shows "sidecar_ok s"
proof -
  obtain sc where sc: "map_of dp ''sidecar'' = Some (JObj sc)"
    using assms by (auto simp: normalize_chunk_sidecar_def split: option.splits json.splits)
  define refs where "refs = (case map_of sc ''refs'' of
                   Some (JArr es) \<Rightarrow> List.map_filter (sidecar_ref P) es | _ \<Rightarrow> [])"
  have "t \<in> sidecar_types \<and> i \<noteq> []" if ti: "(t, i) \<in> set refs" for t i
  proof -
    have "refs = [] \<or> (\<exists>es. refs = List.map_filter (sidecar_ref P) es)"
      unfolding refs_def by (auto split: option.split json.split)
    then obtain es where "(t, i) \<in> set (List.map_filter (sidecar_ref P) es)" using ti by auto
    then obtain e where "sidecar_ref P e = Some (t, i)" unfolding set_map_filter by blast
    then show ?thesis by (rule sidecar_ref_ok)
  qed
  then have "\<forall>(t, i) \<in> set refs. t \<in> sidecar_types \<and> i \<noteq> []" by blast
  then show ?thesis
    using assms
    unfolding normalize_chunk_sidecar_def sc option.case json.case Let_def refs_def[symmetric]
    by (auto simp: sidecar_ok_def split: if_splits)
qed

lemma sidecar_well_typed_witness:
  "sidecar_ok \<lparr>sc_type = lit ''table'', sc_id = lit ''t1'', sc_refs = [(lit ''table'', lit ''t1'')], sc_image_type = None\<rparr>"
  by (rule sidecar_well_typed[where P = plain_conv and dp = "[(''sidecar'',
        JObj [(''type'', JStr (lit ''table'')), (''id'', JStr (lit '' t1'')), (''refs'', JArr [JNull, JObj []]),
              (''image_type'', JStr (lit ''Photo''))])]"])
    (simp add: normalize_chunk_sidecar_def str_or_empty_def falsy_def sidecar_ref_def sidecar_types_def
        py_strip_def py_isspace_def lit_def map_filter_def Let_def)

end
