(* ===== verification/LexicalIndex.thy ===== *)
theory LexicalIndex
  imports ChunkSchema
begin

text \<open>
  The lexical index of src/ontorag/retrieval/index.py: the SQLite tables as a record, one definition
  per transaction, the mirror that keeps it beside the chunk storage (\<open>IndexedChunks\<close>), the rebuild of
  src/ontorag/retrieval/maintenance.py and the opening at startup (src/ontorag/ontorag.py).

  Parameters: the chunk storage (\<open>chunk_storage\<close>, with the laws of \<open>storage_laws\<close>), the ranking of
  FTS5 (\<open>fts\<close>), \<open>\\w\<close> of the regular expressions. A transaction commits as a whole or, when it raises,
  leaves the tables as they were. Which calls raise is an argument, so that every failure is covered.
\<close>

section \<open>The tables\<close>

type_synonym chunk_id = pystr

record lex_index =
  lx_rows :: "(nat \<times> chunk_id \<times> pystr) list"
  lx_keys :: "(chunk_id, nat) odict"
  lx_revision :: nat
  lx_ready :: bool
  lx_documents :: "(pystr, jval) odict"

definition search_text :: "pyconv \<Rightarrow> (nat \<Rightarrow> bool) \<Rightarrow> chunk_dict \<Rightarrow> pystr" where
  "search_text P strips row =
     py_join [10] (filter (\<lambda>v. v \<noteq> [])
       [str_or_empty P (map_of row ''file_path''),
        format_heading_context P strips row 80,
        str_or_empty P (map_of row ''content'')])"

definition bump :: "lex_index \<Rightarrow> lex_index" where
  "bump ix = ix\<lparr>lx_revision := Suc (lx_revision ix)\<rparr>"

text \<open>\<open>initialize\<close>: \<open>INSERT OR IGNORE\<close> keeps the first row of an id and of a rowid.\<close>

definition insert_or_ignore :: "nat \<times> chunk_id \<times> pystr \<Rightarrow> (chunk_id, nat) odict \<Rightarrow> (chunk_id, nat) odict" where
  "insert_or_ignore row keys =
     (case row of (r, k, _) \<Rightarrow>
        if map_of keys k = None \<and> r \<notin> snd ` set keys then keys @ [(k, r)] else keys)"

definition initialize_index :: "lex_index option \<Rightarrow> lex_index" where
  "initialize_index f =
     (case f of
        None \<Rightarrow> \<lparr>lx_rows = [], lx_keys = [], lx_revision = 0, lx_ready = True, lx_documents = []\<rparr>
      | Some ix \<Rightarrow> ix\<lparr>lx_keys := fold insert_or_ignore (lx_rows ix) (lx_keys ix)\<rparr>)"

definition set_ready :: "bool \<Rightarrow> lex_index \<Rightarrow> lex_index" where
  "set_ready b ix = bump (ix\<lparr>lx_ready := b\<rparr>)"

definition touch_index :: "lex_index \<Rightarrow> lex_index" where
  "touch_index ix = bump ix"

definition next_rowid :: "lex_index \<Rightarrow> nat" where
  "next_rowid ix = Suc (fold max (map fst (lx_rows ix)) 0)"

definition without_rowid :: "nat \<Rightarrow> (nat \<times> chunk_id \<times> pystr) list \<Rightarrow> (nat \<times> chunk_id \<times> pystr) list" where
  "without_rowid r rows = filter (\<lambda>e. fst e \<noteq> r) rows"

text \<open>One row of an upsert; a rowid that is already in \<open>chunk_keys\<close> violates its constraint.\<close>

definition upsert_row :: "chunk_id \<Rightarrow> pystr \<Rightarrow> lex_index \<Rightarrow> lex_index option" where
  "upsert_row k body ix =
     (case map_of (lx_keys ix) k of
        Some r \<Rightarrow> Some (ix\<lparr>lx_rows := without_rowid r (lx_rows ix) @ [(r, k, body)]\<rparr>)
      | None \<Rightarrow>
          (let r = next_rowid ix
           in if r \<in> snd ` set (lx_keys ix) then None
              else Some (ix\<lparr>lx_rows := lx_rows ix @ [(r, k, body)], lx_keys := lx_keys ix @ [(k, r)]\<rparr>)))"

fun upsert_rows :: "(chunk_id \<times> pystr) list \<Rightarrow> lex_index \<Rightarrow> lex_index option" where
  "upsert_rows [] ix = Some ix"
| "upsert_rows ((k, body) # rows) ix = Option.bind (upsert_row k body ix) (upsert_rows rows)"

definition index_upsert :: "(chunk_id \<times> pystr) list \<Rightarrow> lex_index \<Rightarrow> lex_index option" where
  "index_upsert rows ix = map_option bump (upsert_rows rows ix)"

definition delete_row :: "chunk_id \<Rightarrow> lex_index \<Rightarrow> lex_index" where
  "delete_row k ix =
     (case map_of (lx_keys ix) k of
        None \<Rightarrow> ix
      | Some r \<Rightarrow> ix\<lparr>lx_rows := without_rowid r (lx_rows ix), lx_keys := od_del k (lx_keys ix)\<rparr>)"

definition index_delete :: "chunk_id list \<Rightarrow> lex_index \<Rightarrow> lex_index" where
  "index_delete ids ix = bump (fold delete_row ids ix)"

definition clear_chunks :: "lex_index \<Rightarrow> lex_index" where
  "clear_chunks ix = bump (ix\<lparr>lx_rows := [], lx_keys := []\<rparr>)"

definition clear_index :: "lex_index \<Rightarrow> lex_index" where
  "clear_index ix = bump (ix\<lparr>lx_rows := [], lx_keys := [], lx_documents := []\<rparr>)"

text \<open>\<open>INSERT OR REPLACE\<close>: the replaced row is a new one.\<close>

definition store_document_metadata :: "pystr \<Rightarrow> jval \<Rightarrow> lex_index \<Rightarrow> lex_index" where
  "store_document_metadata doc_id metadata ix =
     bump (ix\<lparr>lx_documents := od_del doc_id (lx_documents ix) @ [(doc_id, metadata)]\<rparr>)"

definition document_metadata :: "pystr list \<Rightarrow> lex_index \<Rightarrow> (pystr, jval) odict" where
  "document_metadata ids ix =
     fold (\<lambda>k m. case map_of (lx_documents ix) k of None \<Rightarrow> m | Some v \<Rightarrow> od_set k v m) ids []"

section \<open>The search\<close>

fun find_words :: "(nat \<Rightarrow> bool) \<Rightarrow> pystr \<Rightarrow> pystr \<Rightarrow> pystr list" where
  "find_words word cur [] = (if cur = [] then [] else [cur])"
| "find_words word cur (c # s) =
     (if word c then find_words word (cur @ [c]) s
      else (if cur = [] then find_words word [] s else cur # find_words word [] s))"

text \<open>\<open>dict.fromkeys\<close>: the first of equal words, in order.\<close>

definition dict_fromkeys :: "'a list \<Rightarrow> 'a list" where
  "dict_fromkeys xs = rev (remdups (rev xs))"

definition search_terms :: "(nat \<Rightarrow> bool) \<Rightarrow> pystr \<Rightarrow> pystr list" where
  "search_terms word query = take 64 (dict_fromkeys (find_words word [] query))"

definition fts_expression :: "pystr list \<Rightarrow> pystr" where
  "fts_expression terms = py_join (lit '' OR '') (map (\<lambda>t. [34] @ t @ [34]) terms)"

text \<open>\<open>None\<close>: the index requires a rebuild.\<close>

definition index_search ::
    "(pystr \<Rightarrow> (nat \<times> chunk_id \<times> pystr) list \<Rightarrow> chunk_id list) \<Rightarrow> (nat \<Rightarrow> bool)
      \<Rightarrow> pystr \<Rightarrow> nat \<Rightarrow> lex_index \<Rightarrow> chunk_id list option" where
  "index_search fts word query k ix =
     (let terms = search_terms word query
      in if terms = [] then Some []
         else if \<not> lx_ready ix then None
         else Some (take k (fts (fts_expression terms) (lx_rows ix))))"

section \<open>The mirror of the chunk storage\<close>

datatype drop_status = Dropped | DropError | DropRaised

record 's chunk_storage =
  cs_upsert :: "(chunk_id \<times> chunk_dict) list \<Rightarrow> 's \<Rightarrow> 's \<times> bool"
  cs_delete :: "chunk_id list \<Rightarrow> 's \<Rightarrow> 's \<times> bool"
  cs_drop :: "'s \<Rightarrow> 's \<times> drop_status"
  cs_get :: "'s \<Rightarrow> chunk_id \<Rightarrow> chunk_dict option"
  cs_text :: "chunk_dict \<Rightarrow> pystr"

record 's indexed =
  ic_storage :: 's
  ic_index :: lex_index

text \<open>The faults of one call: the index transaction raises, the transaction of the handler does, or
  the last transaction of \<open>drop\<close>.\<close>

record faults =
  fl_index :: bool
  fl_ready :: bool
  fl_last :: bool

definition mark_unready :: "faults \<Rightarrow> lex_index \<Rightarrow> lex_index" where
  "mark_unready f ix = (if fl_ready f then ix else set_ready False ix)"

definition ic_upsert ::
    "'s chunk_storage \<Rightarrow> faults \<Rightarrow> (chunk_id \<times> chunk_dict) list \<Rightarrow> 's indexed \<Rightarrow> 's indexed \<times> bool" where
  "ic_upsert S f rows st =
     (let (s', ok) = cs_upsert S rows (ic_storage st); st' = st\<lparr>ic_storage := s'\<rparr>
      in if \<not> ok then (st'\<lparr>ic_index := mark_unready f (ic_index st')\<rparr>, False)
         else (case (if fl_index f then None
                     else index_upsert (map (\<lambda>(k, row). (k, cs_text S row)) rows) (ic_index st')) of
                 Some ix \<Rightarrow> (st'\<lparr>ic_index := ix\<rparr>, True)
               | None \<Rightarrow> (st'\<lparr>ic_index := mark_unready f (ic_index st')\<rparr>, False)))"

definition ic_delete ::
    "'s chunk_storage \<Rightarrow> faults \<Rightarrow> chunk_id list \<Rightarrow> 's indexed \<Rightarrow> 's indexed \<times> bool" where
  "ic_delete S f ids st =
     (if fl_index f then (st\<lparr>ic_index := mark_unready f (ic_index st)\<rparr>, False)
      else (let st' = st\<lparr>ic_index := index_delete ids (ic_index st)\<rparr>;
                (s', ok) = cs_delete S ids (ic_storage st'); st'' = st'\<lparr>ic_storage := s'\<rparr>
            in if ok then (st'', True)
               else (st''\<lparr>ic_index := mark_unready f (ic_index st'')\<rparr>, False)))"

text \<open>\<open>drop\<close> has no handler: the index is fenced first and released last. \<open>fl_ready\<close> is the first
  transaction, \<open>fl_index\<close> the one that clears.\<close>

definition ic_drop :: "'s chunk_storage \<Rightarrow> faults \<Rightarrow> 's indexed \<Rightarrow> 's indexed \<times> bool" where
  "ic_drop S f st =
     (if fl_ready f then (st, False)
      else (let st1 = st\<lparr>ic_index := set_ready False (ic_index st)\<rparr>
            in if fl_index f then (st1, False)
               else (let st2 = st1\<lparr>ic_index := clear_index (ic_index st1)\<rparr>;
                         (s', r) = cs_drop S (ic_storage st2); st3 = st2\<lparr>ic_storage := s'\<rparr>
                     in case r of
                          Dropped \<Rightarrow> (if fl_last f then (st3, False)
                             else (st3\<lparr>ic_index := set_ready True (ic_index st3)\<rparr>, True))
                        | DropError \<Rightarrow> (st3, True)
                        | DropRaised \<Rightarrow> (st3, False))))"

section \<open>Rebuild and startup\<close>

function batches_of :: "nat \<Rightarrow> 'a list \<Rightarrow> 'a list list" where
  "batches_of n [] = []"
| "batches_of n (x # xs) = take (Suc n) (x # xs) # batches_of n (drop (Suc n) (x # xs))"
  by pat_completeness auto
termination by (relation "measure (\<lambda>(_, xs). length xs)") auto

text \<open>The data of one batch: a dictionary of the rows that exist.\<close>

definition batch_rows :: "'s chunk_storage \<Rightarrow> 's \<Rightarrow> chunk_id list \<Rightarrow> (chunk_id, pystr) odict" where
  "batch_rows S s batch =
     fold (\<lambda>k d. case cs_get S s k of None \<Rightarrow> d | Some row \<Rightarrow> od_set k (cs_text S row) d) batch []"

fun index_batches :: "(chunk_id, pystr) odict list \<Rightarrow> lex_index \<Rightarrow> nat \<Rightarrow> (lex_index \<times> nat) option" where
  "index_batches [] ix count = Some (ix, count)"
| "index_batches (d # ds) ix count =
     Option.bind (index_upsert d ix) (\<lambda>ix'. index_batches ds ix' (count + length d))"

text \<open>\<open>doc_chunks\<close>: the \<open>chunks_list\<close> of each document, in the order of the pages.\<close>

definition rebuild_index ::
    "'s chunk_storage \<Rightarrow> 's \<Rightarrow> chunk_id list list \<Rightarrow> lex_index \<Rightarrow> (lex_index \<times> nat) option" where
  "rebuild_index S s doc_chunks ix =
     map_option (\<lambda>(ix', count). (set_ready True ix', count))
       (index_batches (map (batch_rows S s) (concat (map (batches_of 255) doc_chunks)))
          (clear_chunks (set_ready False ix)) 0)"

text \<open>Opening at startup. \<open>f\<close>: the file, if there is one. \<open>docs\<close>: whether the strict page of one
  document has a document; \<open>None\<close> when reading it raises, which ends the startup.\<close>

definition open_index :: "lex_index option \<Rightarrow> bool option \<Rightarrow> lex_index \<times> bool" where
  "open_index f docs =
     (let new_index = (f = None); ix = initialize_index f
      in if new_index then (case docs of
             None \<Rightarrow> (ix, False)
           | Some d \<Rightarrow> (if d then (set_ready False ix, True) else (ix, True)))
         else (ix, True))"

section \<open>The two tables agree\<close>

definition row_pair :: "nat \<times> chunk_id \<times> pystr \<Rightarrow> chunk_id \<times> nat" where
  "row_pair e = (fst (snd e), fst e)"

definition lx_wf :: "lex_index \<Rightarrow> bool" where
  "lx_wf ix \<longleftrightarrow> distinct (map fst (lx_rows ix)) \<and> distinct (map (fst \<circ> snd) (lx_rows ix))
     \<and> od_wf (lx_keys ix) \<and> set (lx_keys ix) = row_pair ` set (lx_rows ix)"

text \<open>The text under an id.\<close>

definition lx_text :: "lex_index \<Rightarrow> chunk_id \<Rightarrow> pystr option" where
  "lx_text ix k = map_of (map snd (lx_rows ix)) k"

lemma lx_text_iff:
  assumes "lx_wf ix"
  shows "lx_text ix k = Some b \<longleftrightarrow> (\<exists>r. (r, k, b) \<in> set (lx_rows ix))"
proof -
  have "distinct (map fst (map snd (lx_rows ix)))" using assms by (simp add: lx_wf_def)
  then have "lx_text ix k = Some b \<longleftrightarrow> (k, b) \<in> set (map snd (lx_rows ix))"
    by (simp add: lx_text_def)
  then show ?thesis by force
qed

lemma lx_text_eqI:
  assumes "lx_wf ix" "\<And>k b. (\<exists>r. (r, k, b) \<in> set (lx_rows ix)) \<longleftrightarrow> f k = Some b"
  shows "lx_text ix = f"
proof
  fix k
  show "lx_text ix k = f k"
    using lx_text_iff[OF assms(1)] assms(2) by (metis not_None_eq)
qed

lemma keys_iff:
  assumes "lx_wf ix"
  shows "map_of (lx_keys ix) k = Some r \<longleftrightarrow> (\<exists>b. (r, k, b) \<in> set (lx_rows ix))"
proof -
  have "map_of (lx_keys ix) k = Some r \<longleftrightarrow> (k, r) \<in> set (lx_keys ix)"
    using assms by (simp add: lx_wf_def od_wf_def)
  also have "\<dots> \<longleftrightarrow> (\<exists>b. (r, k, b) \<in> set (lx_rows ix))"
    using assms unfolding lx_wf_def row_pair_def by force
  finally show ?thesis .
qed

lemma row_unique_id:
  assumes "lx_wf ix" "(r, k, b) \<in> set (lx_rows ix)" "(r', k, b') \<in> set (lx_rows ix)"
  shows "r' = r \<and> b' = b"
proof -
  have "inj_on (fst \<circ> snd) (set (lx_rows ix))" using assms(1) by (simp add: lx_wf_def distinct_map)
  from inj_onD[OF this _ assms(2,3)] show ?thesis by simp
qed

lemma row_unique_rowid:
  assumes "lx_wf ix" "(r, k, b) \<in> set (lx_rows ix)" "(r, k', b') \<in> set (lx_rows ix)"
  shows "k' = k \<and> b' = b"
proof -
  have "inj_on fst (set (lx_rows ix))" using assms(1) by (simp add: lx_wf_def distinct_map)
  from inj_onD[OF this _ assms(2,3)] show ?thesis by simp
qed

lemma set_without_rowid [simp]: "set (without_rowid r rows) = {e \<in> set rows. fst e \<noteq> r}"
  by (simp add: without_rowid_def)

lemma without_rowid_distinct:
  "distinct (map f rows) \<Longrightarrow> distinct (map f (without_rowid r rows))"
  by (simp add: without_rowid_def distinct_map_filter)

lemma next_rowid_fresh: "e \<in> set (lx_rows ix) \<Longrightarrow> fst e < next_rowid ix"
proof -
  have "\<forall>x \<in> insert m (set xs). x \<le> fold max xs (m :: nat)" for xs m
    by (induction xs arbitrary: m) (auto, (meson le_max_iff_disj order_refl max.bounded_iff order_trans)+)
  then show "e \<in> set (lx_rows ix) \<Longrightarrow> fst e < next_rowid ix"
    unfolding next_rowid_def less_Suc_eq_le by (metis image_eqI insertCI list.set_map)
qed

text \<open>An upsert of one row raises nothing on agreeing tables and changes one text.\<close>

lemma upsert_row_wf:
  assumes wf: "lx_wf ix"
  obtains ix' where "upsert_row k b ix = Some ix'" "lx_wf ix'" "lx_text ix' = (lx_text ix)(k \<mapsto> b)"
    "lx_ready ix' = lx_ready ix" "lx_documents ix' = lx_documents ix" "lx_revision ix' = lx_revision ix"
proof (cases "map_of (lx_keys ix) k")
  case (Some r)
  obtain b0 where b0: "(r, k, b0) \<in> set (lx_rows ix)" using Some keys_iff[OF wf] by blast
  let ?ix = "ix\<lparr>lx_rows := without_rowid r (lx_rows ix) @ [(r, k, b)]\<rparr>"
  have other: "r' = r" if "(r', k, b') \<in> set (lx_rows ix)" for r' b'
    using row_unique_id[OF wf b0] that by blast
  have "distinct (map fst (lx_rows ?ix))" "distinct (map (fst \<circ> snd) (lx_rows ?ix))"
    using wf other by (auto simp: lx_wf_def without_rowid_distinct simp del: map_map)
  moreover have "set (lx_keys ?ix) = row_pair ` set (lx_rows ?ix)"
  proof -
    have "e = (r, k, b0)" if "e \<in> set (lx_rows ix)" "fst e = r" for e
    proof (cases e rule: prod_cases3)
      case (fields a c d)
      then show ?thesis using that row_unique_rowid[OF wf b0, of c d] by simp
    qed
    then have split: "set (lx_rows ix) = {e \<in> set (lx_rows ix). fst e \<noteq> r} \<union> {(r, k, b0)}"
      using b0 by blast
    have "row_pair ` set (lx_rows ix) = row_pair ` {e \<in> set (lx_rows ix). fst e \<noteq> r} \<union> {(k, r)}"
      by (subst split) (simp add: image_Un row_pair_def)
    also have "\<dots> = row_pair ` set (lx_rows ?ix)" by (simp add: row_pair_def)
    finally have "row_pair ` set (lx_rows ix) = row_pair ` set (lx_rows ?ix)" .
    then show ?thesis using wf by (simp add: lx_wf_def)
  qed
  ultimately have wf': "lx_wf ?ix" using wf unfolding lx_wf_def by simp
  moreover have "lx_text ?ix = (lx_text ix)(k \<mapsto> b)"
  proof (rule lx_text_eqI[OF wf'])
    fix k' b'
    show "(\<exists>r'. (r', k', b') \<in> set (lx_rows ?ix)) \<longleftrightarrow> ((lx_text ix)(k \<mapsto> b)) k' = Some b'"
    proof (cases "k' = k")
      case False
      have "r' \<noteq> r" if "(r', k', b') \<in> set (lx_rows ix)" for r'
        using that row_unique_rowid[OF wf b0, of k' b'] False by blast
      then show ?thesis using False by (auto simp: lx_text_iff[OF wf])
    qed (use other in auto)
  qed
  ultimately show thesis by (intro that[of ?ix]) (simp_all add: upsert_row_def Some)
next
  case None
  let ?r = "next_rowid ix"
  let ?ix = "ix\<lparr>lx_rows := lx_rows ix @ [(?r, k, b)], lx_keys := lx_keys ix @ [(k, ?r)]\<rparr>"
  have fresh: "(?r, k', b') \<notin> set (lx_rows ix)" for k' b'
    using next_rowid_fresh[of "(?r, k', b')" ix] by auto
  have new: "(r', k, b') \<notin> set (lx_rows ix)" for r' b'
    using None keys_iff[OF wf, of k r'] by auto
  have "?r \<notin> snd ` set (lx_keys ix)"
    using fresh wf by (force simp: lx_wf_def row_pair_def)
  moreover have wf': "lx_wf ?ix"
    using wf fresh new None
    by (auto simp: lx_wf_def row_pair_def od_wf_def map_of_eq_None_iff)
  moreover have "lx_text ?ix = (lx_text ix)(k \<mapsto> b)"
    by (rule lx_text_eqI[OF wf']) (use new in \<open>auto simp: lx_text_iff[OF wf]\<close>)
  ultimately show thesis by (intro that[of ?ix]) (simp_all add: upsert_row_def None Let_def)
qed

lemma bump_sel [simp]:
  "lx_wf (bump ix) = lx_wf ix" "lx_text (bump ix) = lx_text ix" "lx_ready (bump ix) = lx_ready ix"
  "lx_documents (bump ix) = lx_documents ix" "lx_revision (bump ix) = Suc (lx_revision ix)"
  by (simp_all add: bump_def lx_wf_def lx_text_def fun_eq_iff)

lemma upsert_rows_wf:
  assumes "lx_wf ix"
  shows "\<exists>ix'. upsert_rows rows ix = Some ix' \<and> lx_wf ix' \<and> lx_text ix' = lx_text ix ++ map_of (rev rows)
    \<and> lx_ready ix' = lx_ready ix \<and> lx_documents ix' = lx_documents ix \<and> lx_revision ix' = lx_revision ix"
  using assms
proof (induction rows arbitrary: ix)
  case (Cons e rows)
  obtain k b where e: "e = (k, b)" by (cases e)
  obtain ix1 where ix1: "upsert_row k b ix = Some ix1" "lx_wf ix1" "lx_text ix1 = (lx_text ix)(k \<mapsto> b)"
    "lx_ready ix1 = lx_ready ix" "lx_documents ix1 = lx_documents ix" "lx_revision ix1 = lx_revision ix"
    by (rule upsert_row_wf[OF Cons.prems])
  obtain ix2 where "upsert_rows rows ix1 = Some ix2" "lx_wf ix2" "lx_text ix2 = lx_text ix1 ++ map_of (rev rows)"
    "lx_ready ix2 = lx_ready ix1 \<and> lx_documents ix2 = lx_documents ix1 \<and> lx_revision ix2 = lx_revision ix1"
    using Cons.IH[OF ix1(2)] by blast
  with ix1 show ?case by (simp add: e)
qed simp

lemma index_upsert_wf:
  assumes "lx_wf ix"
  obtains ix' where "index_upsert rows ix = Some ix'" "lx_wf ix'" "lx_text ix' = lx_text ix ++ map_of (rev rows)"
    "lx_ready ix' = lx_ready ix" "lx_documents ix' = lx_documents ix" "lx_revision ix' = Suc (lx_revision ix)"
proof -
  obtain ix1 where ix1: "upsert_rows rows ix = Some ix1" "lx_wf ix1" "lx_text ix1 = lx_text ix ++ map_of (rev rows)"
    "lx_ready ix1 = lx_ready ix \<and> lx_documents ix1 = lx_documents ix \<and> lx_revision ix1 = lx_revision ix"
    using upsert_rows_wf[OF assms] by blast
  show thesis by (rule that[of "bump ix1"]) (simp_all add: index_upsert_def ix1)
qed

lemma delete_row_wf:
  assumes wf: "lx_wf ix"
  shows "lx_wf (delete_row k ix)" "lx_text (delete_row k ix) = (lx_text ix)(k := None)"
    "lx_ready (delete_row k ix) = lx_ready ix" "lx_revision (delete_row k ix) = lx_revision ix"
    "lx_documents (delete_row k ix) = lx_documents ix"
proof -
  show "lx_ready (delete_row k ix) = lx_ready ix" "lx_revision (delete_row k ix) = lx_revision ix"
    "lx_documents (delete_row k ix) = lx_documents ix"
    by (simp_all add: delete_row_def split: option.split)
  have "lx_wf (delete_row k ix) \<and> lx_text (delete_row k ix) = (lx_text ix)(k := None)"
  proof (cases "map_of (lx_keys ix) k")
    case None
    then have "lx_text ix k = None" using lx_text_iff[OF wf] keys_iff[OF wf] by (metis not_None_eq)
    then show ?thesis using wf None by (simp add: delete_row_def fun_upd_idem)
  next
    case (Some r)
    obtain b0 where b0: "(r, k, b0) \<in> set (lx_rows ix)" using Some keys_iff[OF wf] by blast
    let ?ix = "ix\<lparr>lx_rows := without_rowid r (lx_rows ix), lx_keys := od_del k (lx_keys ix)\<rparr>"
    have only: "r' = r \<longleftrightarrow> k' = k" if "(r', k', b') \<in> set (lx_rows ix)" for r' k' b'
      using row_unique_id[OF wf b0] row_unique_rowid[OF wf b0] that by blast
    have keys: "set (od_del k (lx_keys ix)) = {e \<in> set (lx_keys ix). fst e \<noteq> k}"
      by (auto simp: AList.delete_eq)
    have "set (lx_keys ?ix) = row_pair ` set (lx_rows ?ix)"
      using wf only by (force simp: lx_wf_def row_pair_def keys)
    then have wf': "lx_wf ?ix"
      using wf by (simp add: lx_wf_def without_rowid_distinct)
    moreover have "lx_text ?ix = (lx_text ix)(k := None)"
      by (rule lx_text_eqI[OF wf']) (use only in \<open>auto simp: lx_text_iff[OF wf]\<close>)
    ultimately show ?thesis by (simp add: delete_row_def Some)
  qed
  then show "lx_wf (delete_row k ix)" "lx_text (delete_row k ix) = (lx_text ix)(k := None)" by simp_all
qed

lemma index_delete_wf:
  assumes "lx_wf ix"
  shows "lx_wf (index_delete ids ix)" "lx_text (index_delete ids ix) = (\<lambda>k. if k \<in> set ids then None else lx_text ix k)"
    "lx_ready (index_delete ids ix) = lx_ready ix" "lx_documents (index_delete ids ix) = lx_documents ix"
    "lx_revision (index_delete ids ix) = Suc (lx_revision ix)"
proof -
  have "lx_wf (fold delete_row ids ix) \<and> lx_text (fold delete_row ids ix) = (\<lambda>k. if k \<in> set ids then None else lx_text ix k)
    \<and> lx_ready (fold delete_row ids ix) = lx_ready ix \<and> lx_documents (fold delete_row ids ix) = lx_documents ix
    \<and> lx_revision (fold delete_row ids ix) = lx_revision ix"
    using assms
  proof (induction ids arbitrary: ix)
    case (Cons k ids)
    show ?case using Cons.IH[OF delete_row_wf(1)[OF Cons.prems, of k]] delete_row_wf[OF Cons.prems, of k]
      by (auto simp: fun_eq_iff)
  qed simp
  then show "lx_wf (index_delete ids ix)" "lx_text (index_delete ids ix) = (\<lambda>k. if k \<in> set ids then None else lx_text ix k)"
    "lx_ready (index_delete ids ix) = lx_ready ix" "lx_documents (index_delete ids ix) = lx_documents ix"
    "lx_revision (index_delete ids ix) = Suc (lx_revision ix)"
    by (simp_all add: index_delete_def)
qed

lemma set_ready_sel [simp]:
  "lx_wf (set_ready b ix) = lx_wf ix" "lx_text (set_ready b ix) = lx_text ix" "lx_ready (set_ready b ix) = b"
  "lx_documents (set_ready b ix) = lx_documents ix"
  by (simp_all add: set_ready_def lx_wf_def lx_text_def bump_def fun_eq_iff)

lemma clear_sel [simp]:
  "lx_wf (clear_chunks ix)" "lx_text (clear_chunks ix) = Map.empty" "lx_ready (clear_chunks ix) = lx_ready ix"
  "lx_documents (clear_chunks ix) = lx_documents ix"
  "lx_wf (clear_index ix)" "lx_text (clear_index ix) = Map.empty" "lx_ready (clear_index ix) = lx_ready ix"
  by (simp_all add: clear_chunks_def clear_index_def bump_def lx_wf_def lx_text_def fun_eq_iff)

section \<open>The mirror stays in step\<close>

text \<open>The text of the stored chunk, and what the storage promises of a call that returns.\<close>

definition stored :: "'s chunk_storage \<Rightarrow> 's \<Rightarrow> chunk_id \<Rightarrow> pystr option" where
  "stored S s k = map_option (cs_text S) (cs_get S s k)"

definition storage_laws :: "'s chunk_storage \<Rightarrow> bool" where
  "storage_laws S \<longleftrightarrow>
     (\<forall>rows s s'. distinct (map fst rows) \<longrightarrow> cs_upsert S rows s = (s', True) \<longrightarrow>
        stored S s' = stored S s ++ map_of (map (\<lambda>(k, row). (k, cs_text S row)) rows)) \<and>
     (\<forall>ids s s'. cs_delete S ids s = (s', True) \<longrightarrow>
        stored S s' = (\<lambda>k. if k \<in> set ids then None else stored S s k)) \<and>
     (\<forall>s s'. cs_drop S s = (s', Dropped) \<longrightarrow> stored S s' = Map.empty)"

lemma storage_upsert:
  assumes "storage_laws S" "distinct (map fst rows)" "cs_upsert S rows s = (s', True)"
  shows "stored S s' = stored S s ++ map_of (map (\<lambda>(k, row). (k, cs_text S row)) rows)"
  using assms unfolding storage_laws_def by blast

lemma storage_delete:
  assumes "storage_laws S" "cs_delete S ids s = (s', True)"
  shows "stored S s' = (\<lambda>k. if k \<in> set ids then None else stored S s k)"
  using assms unfolding storage_laws_def by blast

lemma storage_drop:
  assumes "storage_laws S" "cs_drop S s = (s', Dropped)"
  shows "stored S s' = Map.empty"
  using assms unfolding storage_laws_def by blast

datatype ic_call = IcUpsert "(chunk_id \<times> chunk_dict) list" | IcDelete "chunk_id list" | IcDrop

fun ic_run :: "'s chunk_storage \<Rightarrow> faults \<times> ic_call \<Rightarrow> 's indexed \<Rightarrow> 's indexed \<times> bool" where
  "ic_run S (f, IcUpsert rows) st = ic_upsert S f rows st"
| "ic_run S (f, IcDelete ids) st = ic_delete S f ids st"
| "ic_run S (f, IcDrop) st = ic_drop S f st"

text \<open>The payload of an upsert is a dictionary, and the transaction of a handler does not raise.\<close>

fun ic_allowed :: "faults \<times> ic_call \<Rightarrow> bool" where
  "ic_allowed (f, IcUpsert rows) = (distinct (map fst rows) \<and> \<not> fl_ready f)"
| "ic_allowed (f, IcDelete ids) = (\<not> fl_ready f)"
| "ic_allowed (f, IcDrop) = True"

definition in_step :: "'s chunk_storage \<Rightarrow> 's indexed \<Rightarrow> bool" where
  "in_step S st \<longleftrightarrow> lx_wf (ic_index st)
     \<and> (lx_ready (ic_index st) \<longrightarrow> lx_text (ic_index st) = stored S (ic_storage st))"

lemma map_of_rev_distinct: "distinct (map fst d) \<Longrightarrow> map_of (rev d) = map_of d"
  by (rule map_of_eqI) (auto simp: rev_map[symmetric] map_of_eq_None_iff dom_map_of_conv_image_fst)

lemma ic_upsert_in_step:
  assumes S: "storage_laws S" and st: "in_step S st" and d: "distinct (map fst rows)" and f: "\<not> fl_ready f"
  shows "in_step S (fst (ic_upsert S f rows st))"
proof -
  obtain s' ok where s': "cs_upsert S rows (ic_storage st) = (s', ok)" by fastforce
  have wf: "lx_wf (ic_index st)" using st by (simp add: in_step_def)
  let ?d = "map (\<lambda>(k, row). (k, cs_text S row)) rows"
  obtain ix' where ix': "index_upsert ?d (ic_index st) = Some ix'" "lx_wf ix'"
    "lx_text ix' = lx_text (ic_index st) ++ map_of (rev ?d)" "lx_ready ix' = lx_ready (ic_index st)"
    by (rule index_upsert_wf[OF wf, of ?d])
  have "distinct (map fst ?d)" using d by (simp add: comp_def case_prod_unfold)
  then have body: "lx_text ix' = lx_text (ic_index st) ++ map_of ?d" using ix'(3) by (simp add: map_of_rev_distinct)
  show ?thesis
  proof (cases "ok \<and> \<not> fl_index f")
    case True
    then have "stored S s' = stored S (ic_storage st) ++ map_of ?d"
      using storage_upsert[OF S d] s' by simp
    then show ?thesis using True st ix'(1,2,4) body by (simp add: ic_upsert_def s' in_step_def)
  next
    case False
    then show ?thesis using wf f by (auto simp: ic_upsert_def s' in_step_def mark_unready_def Let_def)
  qed
qed

lemma ic_delete_in_step:
  assumes S: "storage_laws S" and st: "in_step S st" and f: "\<not> fl_ready f"
  shows "in_step S (fst (ic_delete S f ids st))"
proof -
  obtain s' ok where s': "cs_delete S ids (ic_storage st) = (s', ok)" by fastforce
  have wf: "lx_wf (ic_index st)" using st by (simp add: in_step_def)
  note del = index_delete_wf[OF wf, of ids]
  show ?thesis
  proof (cases "ok \<and> \<not> fl_index f")
    case True
    then have "stored S s' = (\<lambda>k. if k \<in> set ids then None else stored S (ic_storage st) k)"
      using storage_delete[OF S] s' by simp
    then show ?thesis using True st del(1,2,3) by (auto simp: ic_delete_def s' in_step_def)
  next
    case False
    then show ?thesis using wf f del(1) by (auto simp: ic_delete_def s' in_step_def mark_unready_def Let_def)
  qed
qed

lemma ic_drop_in_step:
  assumes S: "storage_laws S" and st: "in_step S st"
  shows "in_step S (fst (ic_drop S f st))"
proof -
  obtain s' r where s': "cs_drop S (ic_storage st) = (s', r)" by fastforce
  show ?thesis
    using st storage_drop[OF S, of "ic_storage st" s'] s'
    by (cases r) (auto simp: ic_drop_def in_step_def Let_def)
qed

lemma ic_run_in_step:
  assumes "storage_laws S" "in_step S st" "ic_allowed c"
  shows "in_step S (fst (ic_run S c st))"
  using assms
  by (cases "(S, c, st)" rule: ic_run.cases) (auto intro: ic_upsert_in_step ic_delete_in_step ic_drop_in_step)

text \<open>C37. The chunk storage does what its calls promise when they return (\<open>storage_laws\<close>:
  an upsert stores the rows, a deletion removes the ids, a drop empties it; a call that raises may have done
  anything), an upsert gets a dictionary, and the transaction of a handler commits. From a state in which
  the index is fenced or mirrors the storage, after any sequence of upserts, deletions and drops, whichever
  of them raise and wherever they stop, the index is again either fenced off until a rebuild or holds
  exactly the text of every stored chunk, and its two tables agree. The start is not always such a state: a
  first start that ended early leaves a ready, empty index beside stored chunks
  (\<open>interrupted_first_start_is_ready\<close>).\<close>

theorem index_mirrors_storage:
  assumes "storage_laws S" "in_step S st" "\<forall>c \<in> set calls. ic_allowed c"
  shows "in_step S (fold (\<lambda>c st. fst (ic_run S c st)) calls st)"
  by (rule fold_invariant[where Q = ic_allowed and P = "in_step S"])
    (use assms in \<open>auto intro: ic_run_in_step\<close>)

text \<open>A storage of one map, whose deletions of two ids or more raise half-way.\<close>

type_synonym map_store = "(chunk_id, chunk_dict) odict"

definition map_storage :: "map_store chunk_storage" where
  "map_storage = \<lparr>cs_upsert = (\<lambda>rows s. (fold (\<lambda>(k, row). od_set k row) rows s, True)),
     cs_delete = (\<lambda>ids s. case ids of [] \<Rightarrow> (s, True) | [i] \<Rightarrow> (od_del i s, True) | i # _ \<Rightarrow> (od_del i s, False)),
     cs_drop = (\<lambda>s. ([], Dropped)), cs_get = map_of,
     cs_text = (\<lambda>row. case map_of row ''content'' of Some (JStr s) \<Rightarrow> s | _ \<Rightarrow> [])\<rparr>"

lemma map_storage_upsert:
  "distinct (map fst rows) \<Longrightarrow> stored map_storage (fold (\<lambda>(k, row). od_set k row) rows s)
     = stored map_storage s ++ map_of (map (\<lambda>(k, row). (k, cs_text map_storage row)) rows)"
proof (induction rows arbitrary: s)
  case (Cons e rows)
  obtain k row where e: "e = (k, row)" by (cases e)
  have "stored map_storage (od_set k row s) = (stored map_storage s)(k \<mapsto> cs_text map_storage row)"
    by (auto simp: stored_def map_storage_def)
  moreover have "map_of (map (\<lambda>(k, row). (k, cs_text map_storage row)) rows) k = None"
    using Cons.prems by (force simp: e map_of_eq_None_iff)
  ultimately show ?case using Cons by (auto simp: e fun_eq_iff map_add_def split: option.split)
qed (simp add: fun_eq_iff)

lemma map_storage_laws: "storage_laws map_storage"
  unfolding storage_laws_def
proof (intro conjI allI impI)
  fix rows s s'
  assume "distinct (map fst rows)" "cs_upsert map_storage rows s = (s', True)"
  then show "stored map_storage s' = stored map_storage s ++ map_of (map (\<lambda>(k, row). (k, cs_text map_storage row)) rows)"
    using map_storage_upsert[of rows s] by (simp add: map_storage_def)
next
  fix ids s s'
  assume "cs_delete map_storage ids s = (s', True)"
  then show "stored map_storage s' = (\<lambda>k. if k \<in> set ids then None else stored map_storage s k)"
    by (auto simp: map_storage_def stored_def fun_eq_iff split: list.splits)
qed (simp add: map_storage_def stored_def fun_eq_iff)

lemma index_mirrors_storage_witness:
  "in_step map_storage (fold (\<lambda>c st. fst (ic_run map_storage c st))
     [(\<lparr>fl_index = False, fl_ready = False, fl_last = False\<rparr>,
         IcUpsert [(lit ''a'', [(''content'', JStr (lit ''x''))]), (lit ''b'', [(''content'', JStr (lit ''y''))])]),
      (\<lparr>fl_index = False, fl_ready = False, fl_last = False\<rparr>, IcDelete [lit ''a'', lit ''b''])]
     \<lparr>ic_storage = [], ic_index = initialize_index None\<rparr>)"
  by (rule index_mirrors_storage[OF map_storage_laws])
    (simp_all add: in_step_def initialize_index_def lx_wf_def lx_text_def stored_def map_storage_def fun_eq_iff lit_def)

section \<open>The rebuild\<close>

lemma set_batches_of: "\<Union> (set ` set (batches_of n xs)) = set xs"
proof (induction n xs rule: batches_of.induct)
  case (2 n x xs)
  have "set (x # xs) = set (take (Suc n) (x # xs)) \<union> set (drop (Suc n) (x # xs))"
    by (metis append_take_drop_id set_append)
  with 2 show ?case by simp
qed simp

lemma batch_rows_get:
  "od_wf (batch_rows S s batch)
   \<and> map_of (batch_rows S s batch) = (\<lambda>k. if k \<in> set batch then stored S s k else None)"
proof -
  have "od_wf (fold (\<lambda>k d. case cs_get S s k of None \<Rightarrow> d | Some row \<Rightarrow> od_set k (cs_text S row) d) batch d)
      \<and> map_of (fold (\<lambda>k d. case cs_get S s k of None \<Rightarrow> d | Some row \<Rightarrow> od_set k (cs_text S row) d) batch d)
         = (\<lambda>k. if k \<in> set batch \<and> stored S s k \<noteq> None then stored S s k else map_of d k)" if "od_wf d" for d
    using that
  proof (induction batch arbitrary: d)
    case (Cons k batch)
    show ?case
    proof (cases "cs_get S s k")
      case None
      then show ?thesis using Cons.IH[OF Cons.prems] by (auto simp: stored_def fun_eq_iff)
    next
      case (Some row)
      then show ?thesis
        using Cons.IH[of "od_set k (cs_text S row) d"] Cons.prems by (auto simp: stored_def fun_eq_iff)
    qed
  qed simp
  from this[of "[]"] show ?thesis by (auto simp: batch_rows_def fun_eq_iff)
qed

lemma index_batches_wf:
  assumes "lx_wf ix" "\<forall>b. lx_text ix b = (if b \<in> A then stored S s b else None)"
  shows "\<exists>ix' n. index_batches (map (batch_rows S s) bs) ix count = Some (ix', n) \<and> lx_wf ix'
    \<and> lx_documents ix' = lx_documents ix
    \<and> (\<forall>k. lx_text ix' k = (if k \<in> A \<union> \<Union> (set ` set bs) then stored S s k else None))"
  using assms
proof (induction bs arbitrary: ix A count)
  case (Cons b bs)
  let ?d = "batch_rows S s b"
  obtain ix1 where ix1: "index_upsert ?d ix = Some ix1" "lx_wf ix1" "lx_text ix1 = lx_text ix ++ map_of (rev ?d)"
    "lx_documents ix1 = lx_documents ix"
    by (rule index_upsert_wf[OF Cons.prems(1), of ?d])
  have "map_of (rev ?d) = map_of ?d" using batch_rows_get[of S s b] by (simp add: od_wf_def map_of_rev_distinct)
  then have "\<forall>k. lx_text ix1 k = (if k \<in> A \<union> set b then stored S s k else None)"
    using Cons.prems(2) batch_rows_get[of S s b] by (auto simp: ix1(3) map_add_def split: option.split)
  from Cons.IH[OF ix1(2) this, of "count + length ?d"] obtain ix' n where
    "index_batches (map (batch_rows S s) bs) ix1 (count + length ?d) = Some (ix', n)" "lx_wf ix'"
    "lx_documents ix' = lx_documents ix1"
    "\<forall>k. lx_text ix' k = (if k \<in> A \<union> set b \<union> \<Union> (set ` set bs) then stored S s k else None)" by blast
  then show ?case using ix1(1,4) by (simp add: Un_assoc)
qed simp

text \<open>Whatever state the index was in, a rebuild over the chunk lists of
  the documents ends, and leaves a usable index: its tables agree, it is ready, it has the text of
  exactly those listed chunks that are stored, and the metadata of the documents is what it was.\<close>

theorem rebuild_indexes_exactly:
  "\<exists>ix' n. rebuild_index S s doc_chunks ix = Some (ix', n) \<and> lx_wf ix' \<and> lx_ready ix'
     \<and> lx_documents ix' = lx_documents ix
     \<and> lx_text ix' = (\<lambda>k. if k \<in> \<Union> (set ` set doc_chunks) then stored S s k else None)"
proof -
  let ?ix = "clear_chunks (set_ready False ix)" and ?bs = "concat (map (batches_of 255) doc_chunks)"
  have bs: "\<Union> (set ` set ?bs) = \<Union> (set ` set doc_chunks)"
    by (induction doc_chunks) (simp_all add: set_batches_of)
  obtain ix' n where ix': "index_batches (map (batch_rows S s) ?bs) ?ix 0 = Some (ix', n)" "lx_wf ix'"
    "lx_documents ix' = lx_documents ?ix"
    "\<forall>k. lx_text ix' k = (if k \<in> {} \<union> \<Union> (set ` set ?bs) then stored S s k else None)"
    using index_batches_wf[of ?ix "{}" S s ?bs 0] by auto
  have "lx_text ix' = (\<lambda>k. if k \<in> \<Union> (set ` set doc_chunks) then stored S s k else None)"
    using ix'(4) unfolding bs by (simp add: fun_eq_iff)
  with ix' show ?thesis by (simp add: rebuild_index_def)
qed

section \<open>A revision names its contents\<close>

inductive lex_step :: "lex_index \<Rightarrow> lex_index \<Rightarrow> bool" where
  ready: "lex_step ix (set_ready b ix)"
| touch: "lex_step ix (touch_index ix)"
| upsert: "index_upsert rows ix = Some ix' \<Longrightarrow> lex_step ix ix'"
| remove: "lex_step ix (index_delete ids ix)"
| clear_rows: "lex_step ix (clear_chunks ix)"
| clear_all: "lex_step ix (clear_index ix)"
| metadata: "lex_step ix (store_document_metadata doc_id m ix)"

lemma upsert_row_revision: "upsert_row k b ix = Some ix' \<Longrightarrow> lx_revision ix' = lx_revision ix"
  by (auto simp: upsert_row_def Let_def split: option.splits if_splits)

lemma upsert_rows_revision: "upsert_rows rows ix = Some ix' \<Longrightarrow> lx_revision ix' = lx_revision ix"
  by (induction rows ix rule: upsert_rows.induct) (auto simp: bind_eq_Some_conv upsert_row_revision)

lemma delete_rows_revision: "lx_revision (fold delete_row ids ix) = lx_revision ix"
  by (induction ids arbitrary: ix) (simp_all add: delete_row_def split: option.split)

lemma lex_step_revision: "lex_step ix ix' \<Longrightarrow> lx_revision ix' = Suc (lx_revision ix)"
  by (induction rule: lex_step.induct)
    (auto simp: set_ready_def touch_index_def index_upsert_def index_delete_def clear_chunks_def
      clear_index_def store_document_metadata_def upsert_rows_revision delete_rows_revision)

lemma lex_steps_revision: "lex_step\<^sup>*\<^sup>* ix ix' \<Longrightarrow> ix' = ix \<or> lx_revision ix < lx_revision ix'"
  by (induction rule: rtranclp_induct) (auto dest: lex_step_revision)

text \<open>Two reads of the index that see the same revision, with any
  transactions of any worker in between, see the same rows, keys, metadata and readiness, so that a
  result remembered under the revision is the result of searching again.\<close>

theorem revision_names_contents:
  assumes "lex_step\<^sup>*\<^sup>* ix ix'" "lx_revision ix' = lx_revision ix"
  shows "ix' = ix \<and> index_search fts word query k ix' = index_search fts word query k ix
    \<and> document_metadata ids ix' = document_metadata ids ix"
  using lex_steps_revision[OF assms(1)] assms(2) by auto

lemma revision_names_contents_witness:
  "index_search (\<lambda>e rows. map (fst \<circ> snd) rows) (\<lambda>c. True) (lit ''q'') 5 (initialize_index None) = Some []"
proof -
  have "lex_step\<^sup>*\<^sup>* (initialize_index None) (initialize_index None)" by simp
  from revision_names_contents[OF this refl, of "\<lambda>e rows. map (fst \<circ> snd) rows" "\<lambda>c. True" "lit ''q''" 5]
  show ?thesis by (simp add: index_search_def search_terms_def dict_fromkeys_def initialize_index_def lit_def)
qed

section \<open>The query text\<close>

definition word_ok :: "(nat \<Rightarrow> bool) \<Rightarrow> pystr \<Rightarrow> bool" where
  "word_ok word t \<longleftrightarrow> t \<noteq> [] \<and> (\<forall>c \<in> set t. word c)"

lemma find_words_chars:
  "\<forall>c \<in> set cur. word c \<Longrightarrow> list_all (word_ok word) (find_words word cur s)"
proof (induction word cur s rule: find_words.induct)
  case (2 word cur c s)
  then show ?case by (cases "word c"; cases "cur = []") (simp_all add: word_ok_def)
qed (simp add: word_ok_def)

text \<open>Whatever the user writes, the expression given to FTS5 is made of at
  most 64 different non-empty terms of word characters: a character that is not one, the quotation mark
  first of all, never gets inside the quotes.\<close>

theorem search_terms_bounded:
  "length (search_terms word query) \<le> 64 \<and> distinct (search_terms word query)
   \<and> (\<forall>t \<in> set (search_terms word query). t \<noteq> [] \<and> (\<forall>c \<in> set t. word c))"
proof -
  have "\<forall>t \<in> set (find_words word [] query). t \<noteq> [] \<and> (\<forall>c \<in> set t. word c)"
    using find_words_chars[of "[]" word query] by (simp add: list_all_iff word_ok_def)
  then show ?thesis
    by (auto simp: search_terms_def dict_fromkeys_def dest!: in_set_takeD)
qed

lemma search_terms_bounded_witness:
  "search_terms (\<lambda>c. 97 \<le> c) (lit ''a NEAR b a'') = [lit ''a'', lit ''b''] \<and> distinct (search_terms (\<lambda>c. 97 \<le> c) (lit ''a NEAR b a''))"
proof
  show "search_terms (\<lambda>c. 97 \<le> c) (lit ''a NEAR b a'') = [lit ''a'', lit ''b'']"
    by (simp add: search_terms_def dict_fromkeys_def lit_def)
  show "distinct (search_terms (\<lambda>c. 97 \<le> c) (lit ''a NEAR b a''))"
    using search_terms_bounded[of "\<lambda>c. 97 \<le> c" "lit ''a NEAR b a''"] by blast
qed

section \<open>Startup\<close>

lemma initialize_index_wf: "lx_wf ix \<Longrightarrow> initialize_index (Some ix) = ix"
proof -
  assume wf: "lx_wf ix"
  have "fold insert_or_ignore es (lx_keys ix) = lx_keys ix" if "set es \<subseteq> set (lx_rows ix)" for es
    using that
  proof (induction es)
    case (Cons e es)
    obtain r k b where e: "e = (r, k, b)" by (cases e rule: prod_cases3)
    have "map_of (lx_keys ix) k = Some r" using Cons.prems keys_iff[OF wf] by (auto simp: e)
    then show ?case using Cons by (simp add: e insert_or_ignore_def)
  qed simp
  then show ?thesis by (simp add: initialize_index_def)
qed

text \<open>When the first start ends between creating the file and fencing the index, the next start opens
  an empty index that says it is ready, although documents exist.\<close>

lemma interrupted_first_start_is_ready:
  "(let (ix, _) = open_index None None; (ix', ok) = open_index (Some ix) (Some True)
    in ok \<and> lx_ready ix' \<and> lx_rows ix' = []
       \<and> index_search (\<lambda>e rows. map (fst \<circ> snd) rows) (\<lambda>c. True) (lit ''q'') 5 ix' = Some [])"
  by (simp add: open_index_def initialize_index_def index_search_def search_terms_def dict_fromkeys_def lit_def)

lemma first_start_is_fenced: "open_index None (Some True) = (ix, ok) \<Longrightarrow> ok \<and> \<not> lx_ready ix"
  by (auto simp: open_index_def)

end
