(* ===== verification/TolerantJson.thy ===== *)
theory TolerantJson
  imports JsonValues
begin

text \<open>
  Recovering a JSON object from a model's text, src/ontorag/utils.py: the code fence, the first
  structural opener, the first balanced slice and \<open>tolerant_load_json_dict\<close>. The regular expression of
  the fence has a single match, which is written out. \<open>json.JSONDecoder().raw_decode\<close> and
  \<open>json_repair.loads\<close> are the parameters \<open>raw_decode\<close> and \<open>repair\<close>; \<open>None\<close> when they raise.
\<close>

section \<open>The fence\<close>

definition py_lstrip :: "pystr \<Rightarrow> pystr" where
  "py_lstrip s = dropWhile py_isspace s"

definition ticks :: pystr where
  "ticks = [96, 96, 96]"

definition strip_markdown_code_fence :: "pystr \<Rightarrow> pystr" where
  "strip_markdown_code_fence s =
     (let a = py_lstrip s
      in if take 3 a \<noteq> ticks then s
         else (let b = drop 3 a;
                   c = py_lstrip (if take 4 b = lit ''json'' \<or> take 4 b = lit ''JSON'' then drop 4 b else b);
                   d = py_rstrip c
               in if length d < 3 \<or> drop (length d - 3) d \<noteq> ticks then s
                  else py_rstrip (take (length d - 3) d)))"

section \<open>The two scans\<close>

text \<open>The state of the first scan: inside a string, after a backslash in it.\<close>

fun opener_scan :: "bool \<Rightarrow> bool \<Rightarrow> nat \<Rightarrow> pystr \<Rightarrow> (nat \<times> nat) option" where
  "opener_scan quote_open escaped i [] = None"
| "opener_scan quote_open escaped i (c # s) =
     (if quote_open
      then (if escaped then opener_scan True False (Suc i) s
            else if c = 92 then opener_scan True True (Suc i) s
            else opener_scan (c \<noteq> 34) False (Suc i) s)
      else if c = 34 then opener_scan True False (Suc i) s
      else if c = 91 \<or> c = 123 then Some (c, i)
      else opener_scan False False (Suc i) s)"

definition first_structural_opener :: "pystr \<Rightarrow> (nat \<times> nat) option" where
  "first_structural_opener s = opener_scan False False 0 s"

record scan =
  sn_depth :: int
  sn_quote :: "nat option"
  sn_escaped :: bool
  sn_prev :: "nat option"

text \<open>One character outside a string: the new state, or \<open>None\<close> when the slice ends with it.\<close>

definition scan_char :: "nat \<Rightarrow> scan \<Rightarrow> scan option" where
  "scan_char c st =
     (let after = (\<lambda>d q. \<lparr>sn_depth = d, sn_quote = q, sn_escaped = sn_escaped st,
                         sn_prev = (if py_isspace c then sn_prev st else Some c)\<rparr>)
      in if c = 34 \<or> (c = 39 \<and> (case sn_prev st of None \<Rightarrow> True | Some p \<Rightarrow> p \<in> {123, 91, 44, 58}))
         then Some (after (sn_depth st) (Some c))
         else if c = 123 then Some (after (sn_depth st + 1) None)
         else if c = 125 then (if sn_depth st - 1 = 0 then None else Some (after (sn_depth st - 1) None))
         else Some (after (sn_depth st) None))"

fun slice_scan :: "scan \<Rightarrow> pystr \<Rightarrow> pystr \<Rightarrow> pystr option" where
  "slice_scan st seen [] = None"
| "slice_scan st seen (c # s) =
     (case sn_quote st of
        Some q \<Rightarrow>
          slice_scan (if sn_escaped st then st\<lparr>sn_escaped := False\<rparr>
                      else if c = 92 then st\<lparr>sn_escaped := True\<rparr>
                      else if c = q then st\<lparr>sn_quote := None\<rparr> else st) (seen @ [c]) s
      | None \<Rightarrow>
          (case scan_char c st of
             None \<Rightarrow> Some (seen @ [c])
           | Some st' \<Rightarrow> slice_scan st' (seen @ [c]) s))"

definition first_balanced_object_slice :: "pystr \<Rightarrow> pystr" where
  "first_balanced_object_slice s =
     (case slice_scan \<lparr>sn_depth = 0, sn_quote = None, sn_escaped = False, sn_prev = None\<rparr> [] s of
        None \<Rightarrow> s | Some r \<Rightarrow> r)"

text \<open>The decoding of the text from the brace on, and the repair of its balanced slice.\<close>

definition recover_object ::
    "(pystr \<Rightarrow> (jval \<times> nat) option) \<Rightarrow> (pystr \<Rightarrow> jval option) \<Rightarrow> pystr \<Rightarrow> (string, jval) odict" where
  "recover_object raw_decode repair sfx =
     (case raw_decode sfx of
        Some (JObj o', _) \<Rightarrow> o'
      | _ \<Rightarrow> (case repair (first_balanced_object_slice sfx) of Some (JObj o') \<Rightarrow> o' | _ \<Rightarrow> []))"

definition tolerant_load_json_dict ::
    "(pystr \<Rightarrow> (jval \<times> nat) option) \<Rightarrow> (pystr \<Rightarrow> jval option) \<Rightarrow> pystr \<Rightarrow> (string, jval) odict" where
  "tolerant_load_json_dict raw_decode repair s =
     (if s = [] then []
      else (let candidate = py_strip (strip_markdown_code_fence s)
            in case first_structural_opener candidate of
                 None \<Rightarrow> []
               | Some (opener, index) \<Rightarrow>
                   if opener \<noteq> 123 then [] else recover_object raw_decode repair (drop index candidate)))"

section \<open>A printer of clean objects\<close>

text \<open>The reference: objects of texts, numbers, arrays and objects, with no space around the marks;
  \<open>num\<close> prints a number.\<close>

fun esc :: "pystr \<Rightarrow> pystr" where
  "esc [] = []"
| "esc (c # s) = (if c = 34 \<or> c = 92 then 92 # c # esc s else c # esc s)"

definition quoted :: "pystr \<Rightarrow> pystr" where
  "quoted s = [34] @ esc s @ [34]"

fun sep_concat :: "pystr list \<Rightarrow> pystr" where
  "sep_concat [] = []"
| "sep_concat [x] = x"
| "sep_concat (x # xs) = x @ [44] @ sep_concat xs"

fun jprint :: "(rat \<Rightarrow> pystr) \<Rightarrow> jval \<Rightarrow> pystr" where
  "jprint num JNull = lit ''null''"
| "jprint num (JBool b) = (if b then lit ''true'' else lit ''false'')"
| "jprint num (JNum r) = num r"
| "jprint num (JStr s) = quoted s"
| "jprint num (JArr xs) = [91] @ sep_concat (map (jprint num) xs) @ [93]"
| "jprint num (JObj o') = [123] @ sep_concat (map (\<lambda>(k, v). quoted (lit k) @ [58] @ jprint num v) o') @ [125]"

section \<open>The slice of a printed object\<close>

definition outside :: "int \<Rightarrow> nat option \<Rightarrow> scan" where
  "outside d p = \<lparr>sn_depth = d, sn_quote = None, sn_escaped = False, sn_prev = p\<rparr>"

text \<open>The scan passes over \<open>xs\<close> from one state to another.\<close>

definition passes :: "scan \<Rightarrow> pystr \<Rightarrow> scan \<Rightarrow> bool" where
  "passes st xs st' \<longleftrightarrow> (\<forall>seen rest. slice_scan st seen (xs @ rest) = slice_scan st' (seen @ xs) rest)"

text \<open>It passes over \<open>xs\<close> outside strings at depth \<open>d\<close>.\<close>

definition neutral :: "int \<Rightarrow> pystr \<Rightarrow> bool" where
  "neutral d xs \<longleftrightarrow> (\<forall>p. \<exists>p'. passes (outside d p) xs (outside d p'))"

lemma passes_append: "passes st xs st' \<Longrightarrow> passes st' ys st'' \<Longrightarrow> passes st (xs @ ys) st''"
  by (simp add: passes_def)

lemma neutral_Nil: "neutral d []"
  by (auto simp: neutral_def passes_def)

lemma neutral_append: "neutral d xs \<Longrightarrow> neutral d ys \<Longrightarrow> neutral d (xs @ ys)"
  unfolding neutral_def by (meson passes_append)

definition mark_free :: "nat \<Rightarrow> bool" where
  "mark_free c \<longleftrightarrow> c \<noteq> 34 \<and> c \<noteq> 39 \<and> c \<noteq> 123 \<and> c \<noteq> 125"

lemma neutral_char: "mark_free c \<Longrightarrow> neutral d [c]"
  by (auto simp: neutral_def passes_def outside_def scan_char_def mark_free_def Let_def)

lemma neutral_chars: "\<forall>c \<in> set xs. mark_free c \<Longrightarrow> neutral d xs"
proof (induction xs)
  case (Cons c xs)
  then show ?case using neutral_append[OF neutral_char[of c d], of xs] by simp
qed (rule neutral_Nil)

lemma passes_esc:
  "passes \<lparr>sn_depth = d, sn_quote = Some 34, sn_escaped = False, sn_prev = p\<rparr> (esc s)
     \<lparr>sn_depth = d, sn_quote = Some 34, sn_escaped = False, sn_prev = p\<rparr>"
  by (induction s) (auto simp: passes_def)

lemma neutral_quoted: "neutral d (quoted s)"
proof -
  have "passes (outside d p) (quoted s) (outside d (Some 34))" for p
  proof -
    let ?q = "\<lparr>sn_depth = d, sn_quote = Some 34, sn_escaped = False, sn_prev = Some 34\<rparr>"
    have "passes (outside d p) [34] ?q"
      by (simp add: passes_def outside_def scan_char_def py_isspace_def Let_def)
    moreover have "passes ?q [34] (outside d (Some 34))" by (simp add: passes_def outside_def)
    ultimately show ?thesis unfolding quoted_def by (blast intro: passes_append passes_esc)
  qed
  then show ?thesis unfolding neutral_def by blast
qed

lemma neutral_sep_concat: "\<forall>x \<in> set xs. neutral d x \<Longrightarrow> neutral d (sep_concat xs)"
proof (induction xs rule: sep_concat.induct)
  case (3 x y xs)
  have "neutral d ([44] @ sep_concat (y # xs))"
    using 3 by (intro neutral_append neutral_char) (simp_all add: mark_free_def)
  then show ?case using 3(2) neutral_append[of d x] by simp
qed (simp_all add: neutral_Nil)

lemma open_brace: "passes (outside d p) [123] (outside (d + 1) (Some 123))"
  by (simp add: passes_def outside_def scan_char_def py_isspace_def Let_def)

lemma close_brace: "1 \<le> d \<Longrightarrow> passes (outside (d + 1) p) [125] (outside d (Some 125))"
  by (simp add: passes_def outside_def scan_char_def py_isspace_def Let_def)

lemma neutral_braces:
  assumes "1 \<le> d" "neutral (d + 1) xs"
  shows "neutral d ([123] @ xs @ [125])"
  unfolding neutral_def
proof
  fix p
  obtain p' where "passes (outside (d + 1) (Some 123)) xs (outside (d + 1) p')"
    using assms(2) unfolding neutral_def by blast
  then have "passes (outside d p) ([123] @ xs @ [125]) (outside d (Some 125))"
    using open_brace close_brace[OF assms(1)] by (blast intro: passes_append)
  then show "\<exists>p'. passes (outside d p) ([123] @ xs @ [125]) (outside d p')" by blast
qed

lemma neutral_jprint:
  assumes num: "\<forall>r. \<forall>c \<in> set (num r). mark_free c"
  shows "1 \<le> d \<Longrightarrow> neutral d (jprint num v)"
proof (induction v arbitrary: d)
  case (JArr xs)
  have "neutral d (sep_concat (map (jprint num) xs))"
    using JArr by (intro neutral_sep_concat) simp
  then have "neutral d ([91] @ sep_concat (map (jprint num) xs) @ [93])"
    by (intro neutral_append neutral_char) (simp_all add: mark_free_def)
  then show ?case by simp
next
  case (JObj o')
  have "neutral (d + 1) (quoted (lit k) @ [58] @ jprint num v)" if "(k, v) \<in> set o'" for k v
  proof (intro neutral_append neutral_quoted neutral_char)
    show "neutral (d + 1) (jprint num v)"
      using JObj.IH[of "(k, v)" v "d + 1"] that JObj.prems by simp
  qed (simp add: mark_free_def)
  then have "neutral (d + 1) (sep_concat (map (\<lambda>(k, v). quoted (lit k) @ [58] @ jprint num v) o'))"
    by (intro neutral_sep_concat) auto
  then show ?case using neutral_braces[OF JObj.prems] by simp
next
  case (JNum r)
  show ?case unfolding jprint.simps by (rule neutral_chars) (use num in blast)
qed (auto simp: neutral_quoted lit_def mark_free_def intro!: neutral_chars)

text \<open>In front of any text whatever, braces, quotes and apostrophes included,
  the slice that is handed to the repair is exactly the printed object, however its texts are filled:
  trailing prose is never folded into the object and the object is never cut.\<close>

theorem slice_is_the_object:
  assumes "\<forall>r. \<forall>c \<in> set (num r). c \<noteq> 34 \<and> c \<noteq> 39 \<and> c \<noteq> 123 \<and> c \<noteq> 125"
  shows "first_balanced_object_slice (jprint num (JObj o') @ rest) = jprint num (JObj o')"
proof -
  have num: "\<forall>r. \<forall>c \<in> set (num r). mark_free c" using assms by (simp add: mark_free_def)
  let ?in = "sep_concat (map (\<lambda>(k, v). quoted (lit k) @ [58] @ jprint num v) o')"
  have "neutral 1 (quoted (lit k) @ [58] @ jprint num v)" for k v
    by (intro neutral_append neutral_quoted neutral_char neutral_jprint[OF num]) (simp_all add: mark_free_def)
  then have "neutral 1 ?in" by (intro neutral_sep_concat) auto
  then obtain p where p: "passes (outside 1 (Some 123)) ?in (outside 1 p)" unfolding neutral_def by blast
  have "passes (outside 0 None) [123] (outside 1 (Some 123))" using open_brace[of 0 None] by simp
  from passes_append[OF this p]
  have "slice_scan (outside 0 None) [] (([123] @ ?in) @ [125] @ rest) = slice_scan (outside 1 p) ([] @ [123] @ ?in) ([125] @ rest)"
    unfolding passes_def by blast
  also have "\<dots> = Some ([123] @ ?in @ [125])" by (simp add: outside_def scan_char_def)
  finally show ?thesis by (simp add: first_balanced_object_slice_def outside_def)
qed

lemma slice_is_the_object_witness:
  "first_balanced_object_slice (lit ''{'' @ [34] @ lit ''a'' @ [34] @ lit '':7} trailing {brace}'')
     = lit ''{'' @ [34] @ lit ''a'' @ [34] @ lit '':7}''"
  using slice_is_the_object[of "\<lambda>_. [55]" "[(''a'', JNum 7)]" "lit '' trailing {brace}''"]
  by (simp add: quoted_def lit_def)

section \<open>The opener decides\<close>

lemma opener_scan_prose:
  "\<forall>c \<in> set prose. c \<notin> {34, 91, 123} \<Longrightarrow> opener_scan False False i (prose @ s) = opener_scan False False (i + length prose) s"
  by (induction prose arbitrary: i) auto

text \<open>A text whose first bracket is that of an array gives the empty
  answer, whatever objects follow and whatever the decoder and the repair would make of them; with an
  object first, the decoder sees exactly the text from its brace on.\<close>

theorem leading_array_rejected:
  assumes "py_strip (strip_markdown_code_fence s) = prose @ b # rest"
    and "\<forall>c \<in> set prose. c \<notin> {34, 91, 123}" and "b = 91 \<or> b = 123"
  shows "tolerant_load_json_dict raw_decode repair s =
     (if b = 91 then [] else recover_object raw_decode repair (b # rest))"
proof (cases "s = []")
  case True
  then show ?thesis using assms(1) by (simp add: strip_markdown_code_fence_def py_lstrip_def ticks_def py_strip_def Let_def)
next
  case False
  have "first_structural_opener (prose @ b # rest) = Some (b, length prose)"
    using opener_scan_prose[OF assms(2), of 0 "b # rest"] assms(3) by (auto simp: first_structural_opener_def)
  then show ?thesis using False assms(3) by (auto simp: tolerant_load_json_dict_def assms(1))
qed

lemma leading_array_rejected_witness:
  "tolerant_load_json_dict (\<lambda>_. Some (JObj [(''a'', JNull)], 0)) (\<lambda>_. None) (lit ''see [{}]'') = []"
proof -
  have s: "py_strip (strip_markdown_code_fence (lit ''see [{}]'')) = lit ''see '' @ 91 # lit ''{}]''"
    by (simp add: strip_markdown_code_fence_def py_lstrip_def ticks_def py_strip_def py_isspace_def lit_def)
  have p: "\<forall>c \<in> set (lit ''see ''). c \<notin> {34, 91, 123}" by (simp add: lit_def)
  show ?thesis
    using leading_array_rejected[OF s p, of "\<lambda>_. Some (JObj [(''a'', JNull)], 0)" "\<lambda>_. None"] by simp
qed

end
