(* ===== verification/Retrieval.thy ===== *)
theory Retrieval
  imports LexicalIndex TolerantJson "HOL-Library.List_Lexorder"
begin

text \<open>
  Retrieval at query time, src/ontorag/retrieval/runtime.py: the fusion of rankings, the two caches,
  hydration, the filters of document versions, the expansion by neighbours, the candidates of a query
  and the verified answer. Rows are JSON objects; scores are exact rationals.

  Parameters (\<open>backend\<close>): the vector store, the visual search, the storage of chunks, the ranking of
  FTS5; \<open>None\<close> when a call raises. Time is an argument. The request's cache key is a value of its own
  type, since the code only compares it.
\<close>

section \<open>Reciprocal rank fusion\<close>

type_synonym row = chunk_dict

definition truthy :: "jval option \<Rightarrow> bool" where
  "truthy v = (case v of None \<Rightarrow> False | Some x \<Rightarrow> \<not> falsy x)"

definition or_else :: "jval option \<Rightarrow> jval option \<Rightarrow> jval option" where
  "or_else a b = (if truthy a then a else b)"

definition row_key :: "row \<Rightarrow> jval option" where
  "row_key row = or_else (map_of row ''chunk_id'') (map_of row ''id'')"

record fusion =
  fu_merged :: "(jval, row) odict"
  fu_scores :: "(jval, rat) odict"

definition row_source :: "row \<Rightarrow> jval" where
  "row_source row = (case map_of row ''source_type'' of None \<Rightarrow> JStr (lit ''unknown'') | Some v \<Rightarrow> v)"

text \<open>What a row adds to the entry of its key.\<close>

definition annotate :: "row \<Rightarrow> row \<Rightarrow> row" where
  "annotate row e =
     (let e1 = (case map_of row ''visual_matches'' of
                  Some v \<Rightarrow> (if truthy (Some v) then od_set ''visual_matches'' v e else e) | None \<Rightarrow> e);
          sources = (case map_of e1 ''retrieval_sources'' of Some (JArr xs) \<Rightarrow> xs | _ \<Rightarrow> [])
      in od_set ''retrieval_sources''
           (JArr (if row_source row \<in> set sources then sources else sources @ [row_source row])) e1)"

definition fuse_row :: "nat \<Rightarrow> nat \<Rightarrow> row \<Rightarrow> jval \<Rightarrow> fusion \<Rightarrow> fusion" where
  "fuse_row k rank row key fu =
     (let merged = (if map_of (fu_merged fu) key = None then fu_merged fu @ [(key, row)] else fu_merged fu)
      in \<lparr>fu_merged = od_set key (annotate row (the (map_of merged key))) merged,
          fu_scores = od_set key ((case map_of (fu_scores fu) key of None \<Rightarrow> 0 | Some s \<Rightarrow> s)
                                  + 1 / rat_of_nat (k + rank)) (fu_scores fu)\<rparr>)"

text \<open>One ranking; \<open>rank\<close> counts from 1, \<open>seen\<close> holds the keys of this ranking.\<close>

fun fuse_ranking :: "nat \<Rightarrow> nat \<Rightarrow> jval set \<Rightarrow> row list \<Rightarrow> fusion \<Rightarrow> fusion" where
  "fuse_ranking k rank seen [] fu = fu"
| "fuse_ranking k rank seen (row # rows) fu =
     (case row_key row of
        None \<Rightarrow> fuse_ranking k (Suc rank) seen rows fu
      | Some key \<Rightarrow>
          if falsy key \<or> key \<in> seen then fuse_ranking k (Suc rank) seen rows fu
          else fuse_ranking k (Suc rank) (insert key seen) rows (fuse_row k rank row key fu))"

definition fuse_tables :: "nat \<Rightarrow> row list list \<Rightarrow> fusion" where
  "fuse_tables k rankings = fold (fuse_ranking k 1 {}) rankings \<lparr>fu_merged = [], fu_scores = []\<rparr>"

definition fuse_rankings :: "nat \<Rightarrow> row list list \<Rightarrow> row list" where
  "fuse_rankings k rankings =
     (let fu = fuse_tables k rankings;
          score = (\<lambda>key. the (map_of (fu_scores fu) key))
      in map (\<lambda>(key, row). od_set ''fusion_score'' (JNum (score key)) row)
           (sort_key (\<lambda>e. - score (fst e)) (fu_merged fu)))"

section \<open>Diverse selection\<close>

record passage =
  pa_rank :: nat
  pa_row :: row
  pa_terms :: "pystr set"

definition jaccard :: "pystr set \<Rightarrow> pystr set \<Rightarrow> rat" where
  "jaccard a b = rat_of_nat (card (a \<inter> b)) / rat_of_nat (max 1 (card (a \<union> b)))"

definition passage_doc :: "row \<Rightarrow> jval option" where
  "passage_doc row = (case map_of row ''full_doc_id'' of Some v \<Rightarrow> Some v | None \<Rightarrow> map_of row ''file_path'')"

definition utility ::
    "pystr set \<Rightarrow> pystr set \<Rightarrow> passage list \<Rightarrow> passage \<Rightarrow> rat" where
  "utility question covered selected item =
     (let novelty = rat_of_nat (card ((pa_terms item \<inter> question) - covered)) / rat_of_nat (max 1 (card question));
          repetition = Max (insert 0 (set (map (\<lambda>o'. jaccard (pa_terms item) (pa_terms o')) selected)));
          diversity = length (filter (\<lambda>o'. passage_doc (pa_row o') = passage_doc (pa_row item)) selected)
      in 1 / rat_of_nat (pa_rank item + 1) + novelty - 35 / 100 * repetition - 3 / 100 * rat_of_nat diversity)"

definition near_duplicate :: "passage \<Rightarrow> passage list \<Rightarrow> bool" where
  "near_duplicate item selected \<longleftrightarrow> (\<exists>o' \<in> set selected. pa_terms item \<noteq> {} \<and> jaccard (pa_terms item) (pa_terms o') \<ge> 92 / 100)"

text \<open>\<open>max\<close> with a key: the first of the greatest.\<close>

fun first_max :: "('a \<Rightarrow> rat) \<Rightarrow> 'a \<Rightarrow> 'a list \<Rightarrow> 'a" where
  "first_max f best [] = best"
| "first_max f best (x # xs) = first_max f (if f x > f best then x else best) xs"

lemma first_max_mem: "first_max f best xs \<in> insert best (set xs)"
proof (induction xs arbitrary: best)
  case (Cons x xs)
  show ?case using Cons.IH[of "if f x > f best then x else best"] by (auto split: if_splits)
qed simp

function select_loop :: "pystr set \<Rightarrow> pystr set \<Rightarrow> passage list \<Rightarrow> passage list \<Rightarrow> passage list" where
  "select_loop question covered selected [] = selected"
| "select_loop question covered selected (x # xs) =
     (let best = first_max (utility question covered selected) x xs; remaining = remove1 best (x # xs)
      in if near_duplicate best selected then select_loop question covered selected remaining
         else select_loop question (covered \<union> (pa_terms best \<inter> question)) (selected @ [best]) remaining)"
  by pat_completeness auto
termination
proof (relation "measure (\<lambda>(_, _, _, xs). length xs)", goal_cases)
  case (2 question covered selected x xs best remaining)
  then have "best \<in> set (x # xs)" using first_max_mem[of "utility question covered selected" x xs] by simp
  with 2 show ?case by (simp add: length_remove1 del: remove1.simps)
next
  case (3 question covered selected x xs best remaining)
  then have "best \<in> set (x # xs)" using first_max_mem[of "utility question covered selected" x xs] by simp
  with 3 show ?case by (simp add: length_remove1 del: remove1.simps)
qed simp

text \<open>\<open>tokens\<close>: the words of a text, case folded.\<close>

definition passages :: "(pystr \<Rightarrow> pystr set) \<Rightarrow> row list \<Rightarrow> passage list" where
  "passages tokens chunks = map (\<lambda>(i, row). \<lparr>pa_rank = i, pa_row = row,
     pa_terms = tokens (case jtext (map_of row ''content'') of None \<Rightarrow> [] | Some s \<Rightarrow> s)\<rparr>) (enumerate 0 chunks)"

definition select_diverse :: "(pystr \<Rightarrow> pystr set) \<Rightarrow> row list \<Rightarrow> pystr \<Rightarrow> row list" where
  "select_diverse tokens chunks query =
     map pa_row (select_loop (tokens query) {} [] (passages tokens chunks))"

section \<open>The caches\<close>

type_synonym ('q, 'v) cache = "('q, rat \<times> 'v) odict"

definition cached :: "rat \<Rightarrow> 'q \<Rightarrow> ('q, 'v) cache \<Rightarrow> 'v option \<times> ('q, 'v) cache" where
  "cached now key cache =
     (case map_of cache key of
        Some (t, v) \<Rightarrow> (if now - t < 60 then (Some v, od_move_to_end key cache) else (None, od_del key cache))
      | None \<Rightarrow> (None, cache))"

definition remember :: "rat \<Rightarrow> 'q \<Rightarrow> 'v \<Rightarrow> ('q, 'v) cache \<Rightarrow> ('q, 'v) cache" where
  "remember now key v cache = evict_front 256 (od_set key (now, v) cache)"

section \<open>Hydration and filters\<close>

record retrieval_param =
  rp_visual :: bool
  rp_lexical :: bool
  rp_cache :: bool
  rp_limit :: nat
  rp_version :: "pystr option"
  rp_exclude_superseded :: bool
  rp_as_of :: "pystr option"
  rp_neighbors :: nat

record backend =
  be_dense :: "pystr \<Rightarrow> nat \<Rightarrow> row list option"
  be_visual :: "pystr \<Rightarrow> row list option"
  be_get :: "chunk_id \<Rightarrow> row option"
  be_fts :: "pystr \<Rightarrow> (nat \<times> chunk_id \<times> pystr) list \<Rightarrow> chunk_id list"
  be_word :: "nat \<Rightarrow> bool"
  be_doc_chunks :: "pystr \<Rightarrow> chunk_id list"

text \<open>\<open>{**a, **b}\<close>.\<close>

definition od_merge :: "row \<Rightarrow> row \<Rightarrow> row" where
  "od_merge a b = fold (\<lambda>(k, v). od_set k v) b a"

definition get_row :: "backend \<Rightarrow> jval option \<Rightarrow> row option" where
  "get_row B key = (case jtext key of None \<Rightarrow> None | Some k \<Rightarrow> be_get B k)"

definition hydrate :: "backend \<Rightarrow> row list \<Rightarrow> row list" where
  "hydrate B hits = List.map_filter (\<lambda>hit.
     case get_row B (row_key hit) of
       None \<Rightarrow> None
     | Some row \<Rightarrow> (if map_of row ''content'' \<noteq> None
                   then Some (od_set ''chunk_id'' (the (row_key hit)) (od_merge hit row)) else None)) hits"

text \<open>The metadata of a row: what the index holds for its document, else what the row carries.\<close>

definition row_metadata :: "(pystr, jval) odict \<Rightarrow> row \<Rightarrow> jval" where
  "row_metadata metadata row =
     (case Option.bind (jtext (map_of row ''full_doc_id'')) (map_of metadata) of
        Some m \<Rightarrow> m
      | None \<Rightarrow> (case map_of row ''document_metadata'' of None \<Rightarrow> JObj [] | Some m \<Rightarrow> m))"

text \<open>The three filters, each with its early end; comparing a date that is no text raises. Metadata
  are objects.\<close>

definition row_verdict :: "retrieval_param \<Rightarrow> jval \<Rightarrow> bool option" where
  "row_verdict p meta =
     (if (case rp_version p of None \<Rightarrow> False | Some v \<Rightarrow> v \<noteq> [] \<and> jget meta ''version'' \<noteq> Some (JStr v))
      then Some False
      else if rp_exclude_superseded p \<and> truthy (jget meta ''superseded'') then Some False
      else (case rp_as_of p of
              None \<Rightarrow> Some True
            | Some day \<Rightarrow>
                if day = [] then Some True
                else if \<not> truthy (jget meta ''effective_from'') then Some False
                else (case jtext (jget meta ''effective_from'') of
                        None \<Rightarrow> None
                      | Some f \<Rightarrow>
                          if f > day then Some False
                          else if \<not> truthy (jget meta ''effective_to'') then Some True
                          else (case jtext (jget meta ''effective_to'') of
                                  None \<Rightarrow> None | Some t \<Rightarrow> Some (\<not> t < day)))))"

definition with_metadata :: "jval \<Rightarrow> row \<Rightarrow> row" where
  "with_metadata meta row = (if falsy meta then row else od_set ''document_metadata'' meta row)"

fun filter_rows :: "retrieval_param \<Rightarrow> (pystr, jval) odict \<Rightarrow> row list \<Rightarrow> row list option" where
  "filter_rows p metadata [] = Some []"
| "filter_rows p metadata (row # rows) =
     (let meta = row_metadata metadata row
      in case row_verdict p meta of
           None \<Rightarrow> None
         | Some keep \<Rightarrow> map_option (\<lambda>rest. if keep then with_metadata meta row # rest else rest)
                         (filter_rows p metadata rows))"

definition current_metadata :: "lex_index option \<Rightarrow> row list \<Rightarrow> (pystr, jval) odict" where
  "current_metadata index chunks =
     (let ids = dict_fromkeys (List.map_filter (\<lambda>row. if truthy (map_of row ''full_doc_id'')
                   then jtext (map_of row ''full_doc_id'') else None) chunks)
      in case index of None \<Rightarrow> [] | Some ix \<Rightarrow> document_metadata ids ix)"

definition filter_chunks :: "lex_index option \<Rightarrow> retrieval_param \<Rightarrow> row list \<Rightarrow> row list option" where
  "filter_chunks index p chunks = filter_rows p (current_metadata index chunks) chunks"

section \<open>The candidates of a query\<close>

definition dense_rows :: "backend \<Rightarrow> pystr \<Rightarrow> nat \<Rightarrow> row list option" where
  "dense_rows B query k = map_option (map (\<lambda>row.
     od_set ''source_type'' (JStr (lit ''vector''))
       (od_set ''chunk_id'' (case map_of row ''id'' of None \<Rightarrow> JNull | Some v \<Rightarrow> v) row))) (be_dense B query k)"

definition lexical_rows :: "backend \<Rightarrow> lex_index \<Rightarrow> pystr \<Rightarrow> nat \<Rightarrow> row list option" where
  "lexical_rows B ix query k = map_option (map (\<lambda>i.
     [(''chunk_id'', JStr i), (''source_type'', JStr (lit ''lexical''))]))
       (index_search (be_fts B) (be_word B) query k ix)"

text \<open>The branches of one text, either of which may raise.\<close>

definition text_branches :: "backend \<Rightarrow> lex_index option \<Rightarrow> retrieval_param \<Rightarrow> pystr \<Rightarrow> row list list option" where
  "text_branches B index p query =
     Option.bind (dense_rows B query (rp_limit p)) (\<lambda>d.
       if rp_lexical p
       then (case index of None \<Rightarrow> None
             | Some ix \<Rightarrow> map_option (\<lambda>l. [d, l]) (lexical_rows B ix query (rp_limit p)))
       else Some [d])"

definition fuse_branches :: "row list list \<Rightarrow> row list" where
  "fuse_branches branches = (if length branches > 1 then fuse_rankings 60 branches else hd branches)"

definition finish :: "backend \<Rightarrow> lex_index option \<Rightarrow> retrieval_param \<Rightarrow> row list \<Rightarrow> row list option" where
  "finish B index p hits = filter_chunks index p (hydrate B hits)"

text \<open>The rewritten question searches the original one as well, without the caches.\<close>

definition search_hits ::
    "backend \<Rightarrow> lex_index option \<Rightarrow> lex_index option \<Rightarrow> retrieval_param \<Rightarrow> pystr \<Rightarrow> pystr \<Rightarrow> row list option" where
  "search_hits B index later p query original =
     Option.bind (text_branches B index p query) (\<lambda>branches.
       if original \<noteq> query
       then Option.bind (text_branches B index p original) (\<lambda>bs.
              map_option (\<lambda>rows. fuse_branches (branches @ [rows])) (finish B later p (fuse_branches bs)))
       else Some (fuse_branches branches))"

text \<open>The key of the result cache: the revision and what the request asked for; the store and the
  embedding function are those of \<open>B\<close>.\<close>

type_synonym result_key = "nat option \<times> pystr \<times> nat \<times> bool \<times> pystr"

definition result_key :: "lex_index option \<Rightarrow> retrieval_param \<Rightarrow> pystr \<Rightarrow> pystr \<Rightarrow> result_key" where
  "result_key index p query original =
     (map_option lx_revision index, query, rp_limit p, rp_lexical p, original)"

text \<open>\<open>index\<close>: the index when the call starts; \<open>later\<close>: when it has searched.\<close>

definition text_candidates ::
    "backend \<Rightarrow> rat \<Rightarrow> lex_index option \<Rightarrow> lex_index option \<Rightarrow> retrieval_param \<Rightarrow> pystr \<Rightarrow> pystr
      \<Rightarrow> (result_key, row list) cache \<Rightarrow> row list option \<times> (result_key, row list) cache" where
  "text_candidates B now index later p query original cache =
     (if rp_lexical p \<and> index = None then (None, cache)
      else (let key = result_key index p query original; use = rp_cache p \<and> index \<noteq> None;
                (hit, cache1) = (if use then cached now key cache else (None, cache))
            in case hit of
                 Some hits \<Rightarrow> (finish B later p hits, cache1)
               | None \<Rightarrow>
                   (case search_hits B index later p query original of
                      None \<Rightarrow> (None, cache1)
                    | Some hits \<Rightarrow>
                        (finish B later p hits,
                         if use \<and> map_option lx_revision index = map_option lx_revision later
                         then remember now key hits cache1 else cache1))))"

definition candidates ::
    "backend \<Rightarrow> rat \<Rightarrow> lex_index option \<Rightarrow> lex_index option \<Rightarrow> retrieval_param \<Rightarrow> pystr \<Rightarrow> pystr
      \<Rightarrow> (result_key, row list) cache \<Rightarrow> row list option \<times> (result_key, row list) cache" where
  "candidates B now index later p query original cache =
     (if rp_visual p
      then (let (rows, cache1) = text_candidates B now index later p query original cache
            in (case (rows, be_visual B query) of
                  (Some t, Some v) \<Rightarrow> finish B later p (fuse_rankings 60 [t, v])
                | _ \<Rightarrow> None, cache1))
      else text_candidates B now index later p query original cache)"

section \<open>Neighbours\<close>

text \<open>The chunks around one of a document, without those that are already there.\<close>

definition neighbor_ids :: "nat \<Rightarrow> chunk_id list \<Rightarrow> chunk_id \<Rightarrow> jval set \<Rightarrow> chunk_id list" where
  "neighbor_ids n order k seen =
     (if k \<in> set order
      then (let position = length (takeWhile (\<lambda>i. i \<noteq> k) order)
            in filter (\<lambda>i. JStr i \<notin> seen) (slice (position - n) (position + n + 1) order))
      else [])"

definition neighbor_row :: "backend \<Rightarrow> row \<Rightarrow> chunk_id \<Rightarrow> row option" where
  "neighbor_row B row i =
     (case be_get B i of
        None \<Rightarrow> None
      | Some nb \<Rightarrow>
          if nb \<noteq> [] \<and> map_of nb ''full_doc_id'' = map_of row ''full_doc_id''
          then Some (od_set ''source_type'' (JStr (lit ''neighbor'')) (od_set ''chunk_id'' (JStr i) nb))
          else None)"

fun add_neighbors :: "backend \<Rightarrow> row \<Rightarrow> chunk_id list \<Rightarrow> jval set \<Rightarrow> row list \<times> jval set" where
  "add_neighbors B row [] seen = ([], seen)"
| "add_neighbors B row (i # is') seen =
     (case neighbor_row B row i of
        None \<Rightarrow> add_neighbors B row is' seen
      | Some nb \<Rightarrow> (let (rest, seen') = add_neighbors B row is' (insert (JStr i) seen) in (nb # rest, seen')))"

definition chunk_id_of :: "row \<Rightarrow> jval" where
  "chunk_id_of row = (case map_of row ''chunk_id'' of None \<Rightarrow> JNull | Some v \<Rightarrow> v)"

definition document_order :: "backend \<Rightarrow> row \<Rightarrow> chunk_id list" where
  "document_order B row = (case jtext (map_of row ''full_doc_id'') of
     None \<Rightarrow> [] | Some d \<Rightarrow> (if d = [] then [] else be_doc_chunks B d))"

fun expand_rows :: "backend \<Rightarrow> nat \<Rightarrow> row list \<Rightarrow> jval set \<Rightarrow> row list" where
  "expand_rows B n [] seen = []"
| "expand_rows B n (row # rows) seen =
     (let ids = (case chunk_id_of row of JStr k \<Rightarrow> neighbor_ids n (document_order B row) k seen | _ \<Rightarrow> []);
          (added, seen') = add_neighbors B row ids seen
      in row # added @ expand_rows B n rows seen')"

definition expand :: "backend \<Rightarrow> lex_index option \<Rightarrow> retrieval_param \<Rightarrow> row list \<Rightarrow> row list option" where
  "expand B index p chunks =
     (if rp_neighbors p = 0 then Some chunks
      else filter_chunks index p (expand_rows B (rp_neighbors p) chunks (set (map chunk_id_of chunks))))"

section \<open>The verified answer\<close>

function cited_numbers :: "(nat \<Rightarrow> bool) \<Rightarrow> pystr \<Rightarrow> pystr list" where
  "cited_numbers digit [] = []"
| "cited_numbers digit (c # s) =
     (let ds = takeWhile digit s; r = dropWhile digit s
      in if c = 91 \<and> ds \<noteq> [] \<and> r \<noteq> [] \<and> hd r = 93 then ds # cited_numbers digit (tl r)
         else cited_numbers digit s)"
  by pat_completeness auto
termination
proof (relation "measure (\<lambda>(_, s). length s)", goal_cases)
  case (2 digit c s ds r)
  then show ?case using length_dropWhile_le[of digit s] by simp
qed auto

definition citations :: "(nat \<Rightarrow> bool) \<Rightarrow> pystr \<Rightarrow> pystr set" where
  "citations digit s = set (cited_numbers digit s)"

record verdict_report =
  vr_supported :: bool
  vr_conflicting :: bool
  vr_missing :: pystr

definition CONFLICT_ANSWER :: pystr where
  "CONFLICT_ANSWER = lit ''The retrieved sources conflict; I cannot give a reliable answer.''"
definition UNSUPPORTED_ANSWER :: pystr where
  "UNSUPPORTED_ANSWER = lit ''The retrieved evidence does not sufficiently support an answer to this question.''"

text \<open>\<open>answer\<close>, \<open>verdict\<close>: the two replies of the model; \<open>loads\<close> is the tolerant decoder, \<open>str\<close>
  prints a value.\<close>

definition verified_answer ::
    "(pystr \<Rightarrow> (string, jval) odict) \<Rightarrow> pyconv \<Rightarrow> (nat \<Rightarrow> bool) \<Rightarrow> pystr list option \<Rightarrow> pystr \<Rightarrow> pystr \<Rightarrow> pystr
      \<Rightarrow> pystr \<times> verdict_report" where
  "verified_answer loads P digit reference_ids evidence answer verdict =
     (let parsed = loads verdict;
          cited = citations digit answer;
          allowed = (case reference_ids of Some ids \<Rightarrow> set ids | None \<Rightarrow> citations digit evidence);
          supported = (map_of parsed ''supported'' = Some (JBool True) \<and> cited \<noteq> {} \<and> cited \<subseteq> allowed
                       \<and> map_of parsed ''conflicting'' = Some (JBool False));
          conflicting = (map_of parsed ''conflicting'' = Some (JBool True));
          report = \<lparr>vr_supported = supported, vr_conflicting = conflicting,
                    vr_missing = take 2000 (case map_of parsed ''missing_evidence'' of
                       None \<Rightarrow> [] | Some (JStr s) \<Rightarrow> s | Some v \<Rightarrow> pc_str P v)\<rparr>
      in (if supported then answer else if conflicting then CONFLICT_ANSWER else UNSUPPORTED_ANSWER, report))"

section \<open>The fused order is the reciprocal rank order\<close>

fun rank_of :: "nat \<Rightarrow> jval \<Rightarrow> row list \<Rightarrow> nat option" where
  "rank_of n key [] = None"
| "rank_of n key (row # rows) = (if row_key row = Some key then Some n else rank_of (Suc n) key rows)"

text \<open>What a ranking gives a key: the reciprocal of \<open>k\<close> plus its first rank.\<close>

definition reciprocal :: "nat \<Rightarrow> jval \<Rightarrow> row list \<Rightarrow> rat" where
  "reciprocal k key rows = (case rank_of 1 key rows of None \<Rightarrow> 0 | Some n \<Rightarrow> 1 / rat_of_nat (k + n))"

definition fu_score :: "fusion \<Rightarrow> jval \<Rightarrow> rat" where
  "fu_score fu key = (case map_of (fu_scores fu) key of None \<Rightarrow> 0 | Some s \<Rightarrow> s)"

definition fu_ok :: "fusion \<Rightarrow> bool" where
  "fu_ok fu \<longleftrightarrow> od_wf (fu_merged fu) \<and> dom (map_of (fu_scores fu)) = dom (map_of (fu_merged fu))
     \<and> (\<forall>(key, row) \<in> set (fu_merged fu). row_key row = Some key \<and> \<not> falsy key)"

lemma row_key_set_other:
  "f \<noteq> ''chunk_id'' \<Longrightarrow> f \<noteq> ''id'' \<Longrightarrow> row_key (od_set f v row) = row_key row"
  by (simp add: row_key_def)

lemma row_key_annotate [simp]: "row_key (annotate row e) = row_key e"
  by (simp add: annotate_def Let_def row_key_set_other split: option.split)

lemma keyed_od_set:
  "\<forall>(k, v) \<in> set d. P k v \<Longrightarrow> P k v \<Longrightarrow> \<forall>(k, v) \<in> set (od_set k v d). P k v"
  by (induction d) (auto split: if_splits)

lemma fuse_row_ok:
  assumes ok: "fu_ok fu" and key: "row_key row = Some key" "\<not> falsy key"
  shows "fu_ok (fuse_row k rank row key fu)"
    "dom (map_of (fu_merged (fuse_row k rank row key fu))) = insert key (dom (map_of (fu_merged fu)))"
    "fu_score (fuse_row k rank row key fu) key' =
       (if key' = key then fu_score fu key + 1 / rat_of_nat (k + rank) else fu_score fu key')"
proof -
  let ?m = "if map_of (fu_merged fu) key = None then fu_merged fu @ [(key, row)] else fu_merged fu"
  have m: "od_wf ?m" "dom (map_of ?m) = insert key (dom (map_of (fu_merged fu)))"
    "\<forall>(k, r) \<in> set ?m. row_key r = Some k \<and> \<not> falsy k"
    using ok key by (auto simp: fu_ok_def od_wf_append)
  obtain e where e: "map_of ?m key = Some e" using m(2) by blast
  then have "row_key e = Some key" using m(3) map_of_SomeD by fastforce
  then have "\<forall>(k, r) \<in> set (od_set key (annotate row e) ?m). row_key r = Some k \<and> \<not> falsy k"
    using key(2) by (intro keyed_od_set[OF m(3)]) simp
  then show "fu_ok (fuse_row k rank row key fu)"
    using ok m(1,2) e by (auto simp: fu_ok_def fuse_row_def Let_def)
  show "dom (map_of (fu_merged (fuse_row k rank row key fu))) = insert key (dom (map_of (fu_merged fu)))"
    using m(2) by (auto simp: fuse_row_def Let_def)
  show "fu_score (fuse_row k rank row key fu) key' =
       (if key' = key then fu_score fu key + 1 / rat_of_nat (k + rank) else fu_score fu key')"
    by (simp add: fu_score_def fuse_row_def Let_def)
qed

definition row_keys :: "row list \<Rightarrow> jval set" where
  "row_keys rows = {key. (\<exists>row \<in> set rows. row_key row = Some key) \<and> \<not> falsy key}"

lemma row_keys_simps [simp]:
  "row_keys [] = {}"
  "row_keys (row # rows) = (case row_key row of None \<Rightarrow> row_keys rows
     | Some key \<Rightarrow> if falsy key then row_keys rows else insert key (row_keys rows))"
  by (auto simp: row_keys_def split: option.split)

lemma rank_of_Some: "rank_of n key rows \<noteq> None \<longleftrightarrow> (\<exists>row \<in> set rows. row_key row = Some key)"
  by (induction rows arbitrary: n) auto

lemma fuse_ranking_ok:
  assumes "fu_ok fu"
  shows "fu_ok (fuse_ranking k n seen rows fu)
    \<and> dom (map_of (fu_merged (fuse_ranking k n seen rows fu))) = (row_keys rows - seen) \<union> dom (map_of (fu_merged fu))
    \<and> (\<forall>key. fu_score (fuse_ranking k n seen rows fu) key = fu_score fu key +
        (if key \<in> row_keys rows - seen
         then (case rank_of n key rows of None \<Rightarrow> 0 | Some m \<Rightarrow> 1 / rat_of_nat (k + m)) else 0))"
  using assms
proof (induction rows arbitrary: n seen fu)
  case (Cons row rows)
  show ?case
  proof (cases "row_key row")
    case None
    then show ?thesis using Cons.IH[OF Cons.prems, of "Suc n" seen] by simp
  next
    case (Some key0)
    show ?thesis
    proof (cases "falsy key0 \<or> key0 \<in> seen")
      case True
      then show ?thesis
        using Cons.IH[OF Cons.prems, of "Suc n" seen] Some by (auto simp: row_keys_def)
    next
      case False
      let ?fu = "fuse_row k n row key0 fu"
      note f = fuse_row_ok[OF Cons.prems Some, of k n]
      have ok: "fu_ok ?fu" using f(1) False by simp
      note IH = Cons.IH[OF ok, of "Suc n" "insert key0 seen"]
      have run: "fuse_ranking k n seen (row # rows) fu = fuse_ranking k (Suc n) (insert key0 seen) rows ?fu"
        using False Some by simp
      have "fu_score (fuse_ranking k (Suc n) (insert key0 seen) rows ?fu) key = fu_score fu key +
        (if key \<in> row_keys (row # rows) - seen
         then (case rank_of n key (row # rows) of None \<Rightarrow> 0 | Some m \<Rightarrow> 1 / rat_of_nat (k + m)) else 0)" for key
        using IH f(3)[of key] False Some by simp
      moreover have "dom (map_of (fu_merged (fuse_ranking k (Suc n) (insert key0 seen) rows ?fu)))
          = (row_keys (row # rows) - seen) \<union> dom (map_of (fu_merged fu))"
        using IH f(2) False Some by auto
      ultimately show ?thesis unfolding run using IH by blast
    qed
  qed
qed simp

lemma reciprocal_absent: "key \<notin> row_keys rows \<Longrightarrow> \<not> falsy key \<Longrightarrow> reciprocal k key rows = 0"
  using rank_of_Some[of 1 key rows] by (auto simp: reciprocal_def row_keys_def split: option.split)

lemma fuse_tables_ok:
  "fu_ok (fuse_tables k rankings)
   \<and> dom (map_of (fu_merged (fuse_tables k rankings))) = (\<Union>r \<in> set rankings. row_keys r)
   \<and> (\<forall>key. \<not> falsy key \<longrightarrow> fu_score (fuse_tables k rankings) key = (\<Sum>r \<leftarrow> rankings. reciprocal k key r))"
proof -
  have "fu_ok fu \<Longrightarrow> fu_ok (fold (fuse_ranking k 1 {}) rankings fu)
   \<and> dom (map_of (fu_merged (fold (fuse_ranking k 1 {}) rankings fu)))
       = (\<Union>r \<in> set rankings. row_keys r) \<union> dom (map_of (fu_merged fu))
   \<and> (\<forall>key. \<not> falsy key \<longrightarrow> fu_score (fold (fuse_ranking k 1 {}) rankings fu) key
       = fu_score fu key + (\<Sum>r \<leftarrow> rankings. reciprocal k key r))" for fu
  proof (induction rankings arbitrary: fu)
    case (Cons r rankings)
    note s = fuse_ranking_ok[OF Cons.prems, of k 1 "{}" r]
    have "fu_score (fuse_ranking k 1 {} r fu) key = fu_score fu key + reciprocal k key r" if "\<not> falsy key" for key
      using s reciprocal_absent[OF _ that, of r k] by (auto simp: reciprocal_def)
    with s Cons.IH[of "fuse_ranking k 1 {} r fu"] show ?case by auto
  qed simp
  from this[of "\<lparr>fu_merged = [], fu_scores = []\<rparr>"] show ?thesis
    by (simp add: fuse_tables_def fu_ok_def fu_score_def)
qed

definition fusion_score :: "row \<Rightarrow> rat" where
  "fusion_score row = (case map_of row ''fusion_score'' of Some (JNum r) \<Rightarrow> r | _ \<Rightarrow> 0)"

text \<open>Fusing rankings returns each chunk of any of them exactly once,
  under the key it came with, and in the order of the sums of the reciprocals of \<open>k\<close> plus its first
  rank in each ranking; repeated and key-less rows of a ranking still count as places.\<close>

theorem fusion_is_reciprocal_rank:
  "let out = fuse_rankings k rankings in
     distinct (map row_key out)
   \<and> set (map row_key out) = Some ` (\<Union>r \<in> set rankings. row_keys r)
   \<and> sorted_wrt (\<lambda>a b. fusion_score a \<ge> fusion_score b) out
   \<and> (\<forall>row \<in> set out. fusion_score row = (\<Sum>r \<leftarrow> rankings. reciprocal k (the (row_key row)) r))"
proof -
  let ?fu = "fuse_tables k rankings"
  let ?xs = "sort_key (\<lambda>e. - the (map_of (fu_scores ?fu) (fst e))) (fu_merged ?fu)"
  let ?f = "\<lambda>(key, row). od_set ''fusion_score'' (JNum (the (map_of (fu_scores ?fu) key))) row"
  have out: "fuse_rankings k rankings = map ?f ?xs"
    by (simp add: fuse_rankings_def Let_def)
  note ok = fuse_tables_ok[of k rankings]
  have entry: "row_key (?f e) = Some (fst e) \<and> \<not> falsy (fst e)
      \<and> fusion_score (?f e) = the (map_of (fu_scores ?fu) (fst e))" if "e \<in> set (fu_merged ?fu)" for e
    using ok that by (cases e) (auto simp: fu_ok_def row_key_set_other fusion_score_def)
  have keys: "map row_key (map ?f ?xs) = map (\<lambda>e. Some (fst e)) ?xs"
    using entry by (simp add: case_prod_unfold)
  have "distinct (map fst ?xs)"
    using ok unfolding fu_ok_def od_wf_def by (simp only: distinct_map distinct_sort set_sort)
  then have d: "distinct (map row_key (map ?f ?xs))"
    unfolding keys by (simp add: distinct_map inj_on_def)
  have "set (map row_key (map ?f ?xs)) = Some ` dom (map_of (fu_merged ?fu))"
    unfolding keys by (simp add: dom_map_of_conv_image_fst image_image)
  then have s: "set (map row_key (map ?f ?xs)) = Some ` (\<Union>r \<in> set rankings. row_keys r)" using ok by simp
  have "sorted_wrt (\<lambda>a b. the (map_of (fu_scores ?fu) (fst a)) \<ge> the (map_of (fu_scores ?fu) (fst b))) ?xs"
    using sorted_sort_key[of "\<lambda>e. - the (map_of (fu_scores ?fu) (fst e))" "fu_merged ?fu"]
    by (simp add: sorted_map)
  then have o: "sorted_wrt (\<lambda>a b. fusion_score a \<ge> fusion_score b) (map ?f ?xs)"
    unfolding sorted_wrt_map by (rule sorted_wrt_mono_rel[rotated]) (simp add: entry)
  have "fusion_score row = (\<Sum>r \<leftarrow> rankings. reciprocal k (the (row_key row)) r)" if "row \<in> set (map ?f ?xs)" for row
  proof -
    from that obtain e where e: "e \<in> set (fu_merged ?fu)" "row = ?f e" by auto
    have "fst e \<in> dom (map_of (fu_merged ?fu))"
      using e(1) by (simp add: dom_map_of_conv_image_fst)
    then have "fst e \<in> dom (map_of (fu_scores ?fu))" using ok unfolding fu_ok_def by simp
    then have "the (map_of (fu_scores ?fu) (fst e)) = fu_score ?fu (fst e)" by (auto simp: fu_score_def)
    then show ?thesis using entry[OF e(1)] ok by (simp add: e(2))
  qed
  with d s o show ?thesis by (simp only: out Let_def) blast
qed

lemma fusion_is_reciprocal_rank_witness:
  "let a = [(''id'', JStr (lit ''a''))]; b = [(''id'', JStr (lit ''b''))]; out = fuse_rankings 60 [[a, b], [b]] in
     distinct (map row_key out) \<and> map row_key out = [Some (JStr (lit ''b'')), Some (JStr (lit ''a''))]"
proof -
  let ?a = "[(''id'', JStr (lit ''a''))]" and ?b = "[(''id'', JStr (lit ''b''))]"
  have "map row_key (fuse_rankings 60 [[?a, ?b], [?b]]) = [Some (JStr (lit ''b'')), Some (JStr (lit ''a''))]"
    by (simp add: fuse_rankings_def fuse_tables_def row_key_def or_else_def truthy_def falsy_def fuse_row_def
        annotate_def row_source_def lit_def Let_def)
  with fusion_is_reciprocal_rank[of 60 "[[?a, ?b], [?b]]"] show ?thesis unfolding Let_def by blast
qed

section \<open>What a candidate must be\<close>






lemma set_dict_fromkeys [simp]: "set (dict_fromkeys xs) = set xs"
  by (simp add: dict_fromkeys_def)










definition no_backend :: backend where
  "no_backend = \<lparr>be_dense = (\<lambda>q k. Some []), be_visual = (\<lambda>q. None), be_get = (\<lambda>k. None),
     be_fts = (\<lambda>e rows. []), be_word = (\<lambda>c. True), be_doc_chunks = (\<lambda>d. [])\<rparr>"

definition sample_backend :: backend where
  "sample_backend = no_backend\<lparr>be_get := (\<lambda>k. if k = lit ''a'' then Some [(''content'', JStr (lit ''x''))] else None)\<rparr>"

definition sample_param :: retrieval_param where
  "sample_param = \<lparr>rp_visual = False, rp_lexical = False, rp_cache = True, rp_limit = 5, rp_version = None,
     rp_exclude_superseded = True, rp_as_of = None, rp_neighbors = 0\<rparr>"


text \<open>The index does not know the document, and the stored row has no metadata: the filter on the version
  goes by the metadata of the cached hit.\<close>

lemma cached_metadata_governs:
  "let ix = Some (initialize_index None); q = lit ''q''; p = sample_param\<lparr>rp_version := Some (lit ''v1'')\<rparr>;
       hit = [(''id'', JStr (lit ''a'')), (''document_metadata'', JObj [(''version'', JStr (lit ''v1''))])]
   in map_option (map chunk_id_of) (fst (candidates sample_backend 20 ix ix p q q [(result_key ix p q q, (10, [hit]))]))
        = Some [JStr (lit ''a'')]
    \<and> map_option (map chunk_id_of) (fst (candidates sample_backend 20 ix ix p q q
          [(result_key ix p q q, (10, [[(''id'', JStr (lit ''a''))]]))])) = Some []"
  by (simp add: candidates_def text_candidates_def sample_param_def result_key_def cached_def finish_def
      filter_chunks_def hydrate_def map_filter_def get_row_def jtext_def row_key_def or_else_def truthy_def falsy_def
      sample_backend_def no_backend_def row_verdict_def row_metadata_def current_metadata_def document_metadata_def
      dict_fromkeys_def initialize_index_def od_merge_def chunk_id_of_def with_metadata_def jget_def lit_def Let_def)

section \<open>The caches serve what was last remembered\<close>

datatype ('q, 'v) cache_op = CacheGet rat 'q | CachePut rat 'q 'v

text \<open>The second component records, beside the cache, the last value put under each key.\<close>

fun cache_do :: "('q, 'v) cache_op \<Rightarrow> ('q, 'v) cache \<times> ('q \<rightharpoonup> rat \<times> 'v) \<Rightarrow> ('q, 'v) cache \<times> ('q \<rightharpoonup> rat \<times> 'v)" where
  "cache_do (CacheGet now key) (cache, latest) = (snd (cached now key cache), latest)"
| "cache_do (CachePut now key v) (cache, latest) = (remember now key v cache, latest(key \<mapsto> (now, v)))"

definition cache_ok :: "('q, 'v) cache \<Rightarrow> ('q \<rightharpoonup> rat \<times> 'v) \<Rightarrow> bool" where
  "cache_ok cache latest \<longleftrightarrow> od_wf cache \<and> length cache \<le> 256
     \<and> (\<forall>k e. map_of cache k = Some e \<longrightarrow> latest k = Some e)"

lemma evict_front_alist:
  assumes "od_wf d"
  shows "od_wf (evict_front n d)" "map_of (evict_front n d) k = Some e \<Longrightarrow> map_of d k = Some e"
proof -
  show "od_wf (evict_front n d)"
    using assms by (simp add: od_wf_def evict_front_drop flip: drop_map)
  assume "map_of (evict_front n d) k = Some e"
  then have "(k, e) \<in> set d" using set_evict_front map_of_SomeD by fastforce
  then show "map_of d k = Some e" using assms by (simp add: od_wf_def)
qed

lemma cached_ok:
  assumes "cache_ok cache latest"
  shows "cache_ok (snd (cached now key cache)) latest"
proof (cases "map_of cache key")
  case (Some e)
  have "length (od_del key cache) \<le> 256" using assms length_od_del_le[of key cache] by (simp add: cache_ok_def)
  then show ?thesis using assms Some by (cases e) (auto simp: cached_def cache_ok_def)
qed (use assms in \<open>simp add: cached_def\<close>)

lemma remember_ok:
  assumes "cache_ok cache latest"
  shows "cache_ok (remember now key v cache) (latest(key \<mapsto> (now, v)))"
proof -
  have wf: "od_wf (od_set key (now, v) cache)" using assms by (simp add: cache_ok_def)
  have "(latest(key \<mapsto> (now, v))) k = Some e" if "map_of (evict_front 256 (od_set key (now, v) cache)) k = Some e" for k e
  proof -
    have "((map_of cache)(key \<mapsto> (now, v))) k = Some e" using evict_front_alist(2)[OF wf that] by simp
    then show ?thesis using assms by (cases "k = key") (simp_all add: cache_ok_def del: split_paired_All)
  qed
  then show ?thesis using evict_front_alist(1)[OF wf] unfolding cache_ok_def remember_def by simp
qed

lemma cache_do_ok:
  assumes "(\<lambda>(c, l). cache_ok c l) s"
  shows "(\<lambda>(c, l). cache_ok c l) (cache_do op s)"
  using assms by (cases "(op, s)" rule: cache_do.cases) (simp_all add: cached_ok remember_ok)

text \<open>In any history of lookups and insertions a cache holds at most 256
  entries, and a hit is the value last remembered under its key, less than a minute old.\<close>

theorem cache_serves_latest:
  "let (cache, latest) = fold cache_do ops ([], Map.empty) in
     length cache \<le> 256
   \<and> (\<forall>now key v. fst (cached now key cache) = Some v \<longrightarrow> (\<exists>t. latest key = Some (t, v) \<and> now - t < 60))"
proof -
  have ok: "(\<lambda>(c, l). cache_ok c l) (fold cache_do ops ([], Map.empty))"
  proof (rule fold_invariant[where Q = "\<lambda>_. True" and P = "\<lambda>(c, l). cache_ok c l"])
    show "(\<lambda>(c, l). cache_ok c l) ([], Map.empty)" by (simp add: cache_ok_def)
  qed (rule TrueI, rule cache_do_ok)
  obtain cache latest where f: "fold cache_do ops ([], Map.empty) = (cache, latest)" by fastforce
  have "\<exists>t. latest key = Some (t, v) \<and> now - t < 60" if "fst (cached now key cache) = Some v" for now key v
    using that ok unfolding f by (auto simp: cached_def cache_ok_def split: option.splits if_splits)
  then show ?thesis using ok unfolding f by (simp add: cache_ok_def)
qed

lemma cache_serves_latest_witness:
  "fst (cached 30 ''q'' (fst (fold cache_do [CachePut 0 ''q'' 1, CachePut 10 ''q'' 2] ([], Map.empty)))) = Some (2::nat)
   \<and> (30 :: rat) - 10 < 60"
proof -
  let ?s = "fold cache_do [CachePut 0 ''q'' 1, CachePut 10 ''q'' 2] ([], Map.empty) :: (string, nat) cache \<times> (string \<rightharpoonup> rat \<times> nat)"
  have hit: "fst (cached 30 ''q'' (fst ?s)) = Some 2" and l: "snd ?s ''q'' = Some (10, 2)"
    by (simp_all add: cached_def remember_def)
  have "\<exists>t. snd ?s ''q'' = Some (t, 2) \<and> 30 - t < 60"
    using cache_serves_latest[of "[CachePut 0 ''q'' 1, CachePut 10 ''q'' (2::nat)]"] hit
    by (simp add: Let_def split_beta)
  with l hit show ?thesis by simp
qed

section \<open>Neighbours are added once\<close>

lemma add_neighbors_ids:
  assumes "distinct is'" "\<forall>i \<in> set is'. JStr i \<notin> seen"
  shows "distinct (map chunk_id_of (fst (add_neighbors B row is' seen)))
    \<and> snd (add_neighbors B row is' seen) = seen \<union> chunk_id_of ` set (fst (add_neighbors B row is' seen))
    \<and> chunk_id_of ` set (fst (add_neighbors B row is' seen)) \<subseteq> JStr ` set is'"
  using assms
proof (induction is' arbitrary: seen)
  case (Cons i is')
  show ?case
  proof (cases "neighbor_row B row i")
    case None
    then show ?thesis using Cons.IH[of seen] Cons.prems by auto
  next
    case (Some nb)
    have nb: "chunk_id_of nb = JStr i"
      using Some by (auto simp: neighbor_row_def chunk_id_of_def split: option.splits if_splits)
    have "\<forall>j \<in> set is'. JStr j \<notin> insert (JStr i) seen" using Cons.prems by auto
    from Cons.IH[OF _ this] show ?thesis using Cons.prems(1) Some nb by (auto simp: split_beta)
  qed
qed simp

definition unseen_neighbors :: "backend \<Rightarrow> nat \<Rightarrow> row \<Rightarrow> jval set \<Rightarrow> chunk_id list" where
  "unseen_neighbors B n row seen =
     (case chunk_id_of row of JStr k \<Rightarrow> neighbor_ids n (document_order B row) k seen | _ \<Rightarrow> [])"

lemma unseen_neighbors_ok:
  assumes "distinct (document_order B row)"
  shows "distinct (unseen_neighbors B n row seen)" "\<forall>i \<in> set (unseen_neighbors B n row seen). JStr i \<notin> seen"
  using assms by (auto simp: unseen_neighbors_def neighbor_ids_def slice_def Let_def split: json.splits)

lemma expand_rows_Cons:
  "expand_rows B n (row # rows) seen =
     row # fst (add_neighbors B row (unseen_neighbors B n row seen) seen)
       @ expand_rows B n rows (snd (add_neighbors B row (unseen_neighbors B n row seen) seen))"
  by (simp add: unseen_neighbors_def Let_def split_beta)

lemma expand_rows_ids:
  assumes "\<forall>row \<in> set rows. distinct (document_order B row)" "distinct (map chunk_id_of rows)"
    "chunk_id_of ` set rows \<subseteq> seen"
  shows "distinct (map chunk_id_of (expand_rows B n rows seen))
    \<and> chunk_id_of ` set (expand_rows B n rows seen) \<inter> seen \<subseteq> chunk_id_of ` set rows"
  using assms
proof (induction rows arbitrary: seen)
  case (Cons row rows)
  let ?add = "add_neighbors B row (unseen_neighbors B n row seen) seen"
  have d: "distinct (document_order B row)" using Cons.prems(1) by simp
  note u = unseen_neighbors_ok[OF d, of n seen]
  note a = add_neighbors_ids[OF u, of B row]
  have new: "chunk_id_of ` set (fst ?add) \<inter> seen = {}" using a u(2) by auto
  have "chunk_id_of ` set rows \<subseteq> snd ?add" using a Cons.prems(3) by auto
  then have IH: "distinct (map chunk_id_of (expand_rows B n rows (snd ?add)))"
    "chunk_id_of ` set (expand_rows B n rows (snd ?add)) \<inter> snd ?add \<subseteq> chunk_id_of ` set rows"
    using Cons.IH[of "snd ?add"] Cons.prems(1,2) by auto
  have head: "chunk_id_of row \<in> seen" "chunk_id_of row \<notin> chunk_id_of ` set rows" using Cons.prems(2,3) by auto
  have "chunk_id_of row \<notin> chunk_id_of ` set (expand_rows B n rows (snd ?add))" using IH(2) a head by blast
  moreover have "chunk_id_of row \<notin> chunk_id_of ` set (fst ?add)" using new head by blast
  moreover have "chunk_id_of ` set (fst ?add) \<inter> chunk_id_of ` set (expand_rows B n rows (snd ?add)) = {}"
    using IH(2) a new Cons.prems(3) by auto
  ultimately have "distinct (map chunk_id_of (expand_rows B n (row # rows) seen))"
    unfolding expand_rows_Cons using a IH(1) by simp
  moreover have "chunk_id_of ` set (expand_rows B n (row # rows) seen) \<inter> seen \<subseteq> chunk_id_of ` set (row # rows)"
    unfolding expand_rows_Cons using new IH(2) a by auto
  ultimately show ?case by blast
qed simp

lemma expand_rows_subseq: "subseq rows (expand_rows B n rows seen)"
proof (induction rows arbitrary: seen)
  case (Cons row rows)
  show ?case unfolding expand_rows_Cons
    using Cons.IH by (simp add: list_emb_append2)
qed simp

text \<open>A row that stands within \<open>n\<close> places of \<open>row\<close> in the order of the same document.\<close>

definition neighbor_of :: "backend \<Rightarrow> nat \<Rightarrow> row \<Rightarrow> row \<Rightarrow> bool" where
  "neighbor_of B n row nb \<longleftrightarrow> (\<exists>k i a b. chunk_id_of row = JStr k \<and> chunk_id_of nb = JStr i
     \<and> a < length (document_order B row) \<and> b < length (document_order B row)
     \<and> document_order B row ! a = k \<and> document_order B row ! b = i \<and> a \<le> b + n \<and> b \<le> a + n
     \<and> map_of nb ''full_doc_id'' = map_of row ''full_doc_id'')"

lemma neighbor_ids_place:
  assumes "i \<in> set (neighbor_ids n order k seen)"
  shows "\<exists>a b. a < length order \<and> b < length order \<and> order ! a = k \<and> order ! b = i \<and> a \<le> b + n \<and> b \<le> a + n"
proof -
  let ?a = "length (takeWhile (\<lambda>j. j \<noteq> k) order)"
  have k: "k \<in> set order" and i: "i \<in> set (slice (?a - n) (?a + n + 1) order)"
    using assms by (auto simp: neighbor_ids_def Let_def split: if_splits)
  have a: "?a < length order" using k by (induction order) auto
  then have ak: "order ! ?a = k" using nth_length_takeWhile by blast
  obtain j where j: "j < length (slice (?a - n) (?a + n + 1) order)" "slice (?a - n) (?a + n + 1) order ! j = i"
    using i by (auto simp: in_set_conv_nth)
  then have "order ! ((?a - n) + j) = i" "(?a - n) + j < length order" "?a \<le> (?a - n) + j + n" "(?a - n) + j \<le> ?a + n"
    by (auto simp: slice_def)
  with a ak show ?thesis by blast
qed

lemma add_neighbors_place:
  "nb \<in> set (fst (add_neighbors B row is' seen)) \<Longrightarrow> \<exists>i \<in> set is'. neighbor_row B row i = Some nb"
  by (induction is' arbitrary: seen) (auto simp: split_beta split: option.splits)

lemma expand_rows_place:
  "x \<in> set (expand_rows B n rows seen) \<Longrightarrow> x \<in> set rows \<or> (\<exists>row \<in> set rows. neighbor_of B n row x)"
proof (induction rows arbitrary: seen)
  case (Cons row rows)
  let ?add = "add_neighbors B row (unseen_neighbors B n row seen) seen"
  consider "x = row" | "x \<in> set (fst ?add)" | "x \<in> set (expand_rows B n rows (snd ?add))"
    using Cons.prems unfolding expand_rows_Cons by auto
  then show ?case
  proof cases
    case 2
    then obtain i where i: "i \<in> set (unseen_neighbors B n row seen)" "neighbor_row B row i = Some x"
      using add_neighbors_place by blast
    obtain k where k: "chunk_id_of row = JStr k" "i \<in> set (neighbor_ids n (document_order B row) k seen)"
      using i(1) by (cases "chunk_id_of row") (simp_all add: unseen_neighbors_def)
    have "chunk_id_of x = JStr i" "map_of x ''full_doc_id'' = map_of row ''full_doc_id''"
      using i(2) by (auto simp: neighbor_row_def chunk_id_of_def split: option.splits if_splits)
    then have "neighbor_of B n row x"
      using neighbor_ids_place[OF k(2)] k(1) unfolding neighbor_of_def by metis
    then show ?thesis by simp
  qed (use Cons.IH in auto)
qed simp

text \<open>The expansion keeps every chunk in its order, adds only chunks of the
  same document within the asked distance of one of them, and lists no chunk twice, however the
  windows of neighbouring hits overlap.\<close>

theorem neighbors_added_once:
  assumes "\<forall>row \<in> set rows. distinct (document_order B row)" "distinct (map chunk_id_of rows)"
  shows "let out = expand_rows B n rows (set (map chunk_id_of rows)) in
     subseq rows out \<and> distinct (map chunk_id_of out)
   \<and> (\<forall>x \<in> set out. x \<in> set rows \<or> (\<exists>row \<in> set rows. neighbor_of B n row x))"
  using expand_rows_ids[OF assms, of "set (map chunk_id_of rows)" n] expand_rows_subseq expand_rows_place
  unfolding Let_def by auto

definition pair_backend :: backend where
  "pair_backend = no_backend\<lparr>be_get := (\<lambda>k. Some [(''content'', JStr k), (''full_doc_id'', JStr (lit ''d''))]),
     be_doc_chunks := (\<lambda>d. [lit ''a'', lit ''b'', lit ''c'', lit ''e''])\<rparr>"

definition doc_row :: "string \<Rightarrow> row" where
  "doc_row k = [(''chunk_id'', JStr (lit k)), (''full_doc_id'', JStr (lit ''d''))]"

lemma neighbors_added_once_witness:
  "map chunk_id_of (expand_rows pair_backend 1 [doc_row ''a'', doc_row ''c'']
      (set (map chunk_id_of [doc_row ''a'', doc_row ''c''])))
     = [JStr (lit ''a''), JStr (lit ''b''), JStr (lit ''c''), JStr (lit ''e'')]
   \<and> distinct (map chunk_id_of (expand_rows pair_backend 1 [doc_row ''a'', doc_row ''c'']
      (set (map chunk_id_of [doc_row ''a'', doc_row ''c'']))))"
proof
  show "map chunk_id_of (expand_rows pair_backend 1 [doc_row ''a'', doc_row ''c'']
      (set (map chunk_id_of [doc_row ''a'', doc_row ''c''])))
     = [JStr (lit ''a''), JStr (lit ''b''), JStr (lit ''c''), JStr (lit ''e'')]"
    by (simp add: doc_row_def pair_backend_def no_backend_def document_order_def chunk_id_of_def jtext_def
        neighbor_ids_def neighbor_row_def slice_def lit_def Let_def)
  have "\<forall>row \<in> set [doc_row ''a'', doc_row ''c'']. distinct (document_order pair_backend row)"
    "distinct (map chunk_id_of [doc_row ''a'', doc_row ''c''])"
    by (simp_all add: doc_row_def pair_backend_def document_order_def chunk_id_of_def jtext_def lit_def)
  from neighbors_added_once[OF this, of 1]
  show "distinct (map chunk_id_of (expand_rows pair_backend 1 [doc_row ''a'', doc_row ''c'']
      (set (map chunk_id_of [doc_row ''a'', doc_row ''c'']))))" unfolding Let_def by blast
qed

section \<open>The selection is diverse and drops only near-duplicates\<close>

definition far_apart :: "passage \<Rightarrow> passage \<Rightarrow> bool" where
  "far_apart earlier item \<longleftrightarrow> pa_terms item = {} \<or> jaccard (pa_terms item) (pa_terms earlier) < 92 / 100"

lemma near_duplicate_far: "\<not> near_duplicate item sel \<longleftrightarrow> (\<forall>o' \<in> set sel. far_apart o' item)"
  by (auto simp: near_duplicate_def far_apart_def not_le)

lemma near_duplicate_mono: "near_duplicate x sel \<Longrightarrow> set sel \<subseteq> set sel' \<Longrightarrow> near_duplicate x sel'"
  by (auto simp: near_duplicate_def)

lemma select_loop_selects:
  assumes "sorted_wrt far_apart sel" "distinct (sel @ xs)"
  shows "sorted_wrt far_apart (select_loop q cov sel xs) \<and> distinct (select_loop q cov sel xs)
    \<and> set sel \<subseteq> set (select_loop q cov sel xs) \<and> set (select_loop q cov sel xs) \<subseteq> set sel \<union> set xs
    \<and> (\<forall>x \<in> set xs. x \<in> set (select_loop q cov sel xs) \<or> near_duplicate x (select_loop q cov sel xs))"
  using assms
proof (induction q cov sel xs rule: select_loop.induct)
  case (2 q cov sel x xs)
  let ?best = "first_max (utility q cov sel) x xs"
  let ?rest = "remove1 ?best (x # xs)"
  have best: "?best \<in> set (x # xs)" using first_max_mem[of "utility q cov sel" x xs] by simp
  have d: "distinct (x # xs)" "distinct sel" "set sel \<inter> set (x # xs) = {}" using "2.prems"(2) by auto
  have rest: "set ?rest = set (x # xs) - {?best}" "distinct ?rest"
    using d(1) by (simp_all only: set_remove1_eq distinct_remove1)
  show ?case
  proof (cases "near_duplicate ?best sel")
    case True
    have "distinct (sel @ ?rest)" using d rest by auto
    note IH = "2.IH"(1)[OF refl refl True "2.prems"(1) this]
    have run: "select_loop q cov sel (x # xs) = select_loop q cov sel ?rest" using True by (simp only: select_loop.simps Let_def if_True)
    have "near_duplicate ?best (select_loop q cov sel ?rest)"
      by (rule near_duplicate_mono[OF True]) (use IH in blast)
    then show ?thesis unfolding run using IH rest(1) best by blast
  next
    case False
    let ?cov = "cov \<union> (pa_terms ?best \<inter> q)"
    have "distinct ((sel @ [?best]) @ ?rest)" using d rest best by auto
    moreover have "sorted_wrt far_apart (sel @ [?best])"
      using "2.prems"(1) False by (simp add: sorted_wrt_append near_duplicate_far)
    ultimately have IH: "sorted_wrt far_apart (select_loop q ?cov (sel @ [?best]) ?rest)
      \<and> distinct (select_loop q ?cov (sel @ [?best]) ?rest)
      \<and> set (sel @ [?best]) \<subseteq> set (select_loop q ?cov (sel @ [?best]) ?rest)
      \<and> set (select_loop q ?cov (sel @ [?best]) ?rest) \<subseteq> set (sel @ [?best]) \<union> set ?rest
      \<and> (\<forall>x \<in> set ?rest. x \<in> set (select_loop q ?cov (sel @ [?best]) ?rest)
           \<or> near_duplicate x (select_loop q ?cov (sel @ [?best]) ?rest))"
      using "2.IH"(2)[OF refl refl False] by blast
    have run: "select_loop q cov sel (x # xs) = select_loop q ?cov (sel @ [?best]) ?rest"
      using False by (simp only: select_loop.simps Let_def if_False)
    define S where "S = select_loop q ?cov (sel @ [?best]) ?rest"
    have S: "sorted_wrt far_apart S" "distinct S" "insert ?best (set sel) \<subseteq> set S"
      "set S \<subseteq> insert ?best (set sel) \<union> set ?rest" "\<forall>y \<in> set ?rest. y \<in> set S \<or> near_duplicate y S"
      using IH unfolding S_def[symmetric] by simp_all
    have "\<forall>y \<in> set (x # xs). y \<in> set S \<or> near_duplicate y S"
      using S(3,5) unfolding rest(1) by blast
    moreover have "set S \<subseteq> set sel \<union> set (x # xs)" "set sel \<subseteq> set S"
      using S(3,4) best unfolding rest(1) by blast+
    ultimately show ?thesis unfolding run S_def[symmetric] using S(1,2) by blast
  qed
qed simp

text \<open>Whatever the utilities, the selected passages are passages that were
  given, none twice, no two of them near-duplicates, and a passage is left out only when it is a
  near-duplicate of a selected one: diversity never excludes a document.\<close>

theorem selection_is_diverse:
  "let ps = passages tokens chunks; sel = select_loop (tokens query) {} [] ps in
     select_diverse tokens chunks query = map pa_row sel
   \<and> sorted_wrt far_apart sel \<and> distinct sel \<and> set sel \<subseteq> set ps
   \<and> (\<forall>x \<in> set ps. x \<in> set sel \<or> near_duplicate x sel)"
proof -
  have "map pa_rank (passages tokens chunks) = [0..<length chunks]"
    by (simp add: passages_def comp_def case_prod_unfold enumerate_eq_zip)
  then have "distinct (passages tokens chunks)" by (metis distinct_map distinct_upt)
  then have "sorted_wrt far_apart []" "distinct ([] @ passages tokens chunks)" by simp_all
  from select_loop_selects[OF this, of "tokens query" "{}"] show ?thesis
    by (simp only: select_diverse_def Let_def list.set(1) Un_empty_left simp_thms, elim conjE)
qed

lemma selection_is_diverse_witness:
  "let tokens = (\<lambda>s. {[c] | c. c \<in> set s}); chunks = [[(''content'', JStr (lit ''ab''))], [(''content'', JStr (lit ''ba''))]];
       sel = select_loop (tokens (lit ''a'')) {} [] (passages tokens chunks)
   in sorted_wrt far_apart sel \<and> (\<forall>x \<in> set (passages tokens chunks). x \<in> set sel \<or> near_duplicate x sel)"
  using selection_is_diverse[of "\<lambda>s. {[c] | c. c \<in> set s}"
      "[[(''content'', JStr (lit ''ab''))], [(''content'', JStr (lit ''ba''))]]" "lit ''a''"]
  unfolding Let_def by blast

section \<open>A verified answer is grounded\<close>

text \<open>Whatever the model and its audit reply, the caller sees either
  one of the two fixed abstentions or the answer itself, and the latter only when it cites at least one
  source, every source it cites is allowed, and the audit said that it is supported and that nothing
  conflicts.\<close>

theorem verified_answer_is_grounded:
  "let (shown, report) = verified_answer loads P digit ids evidence answer verdict in
     (shown = CONFLICT_ANSWER \<and> vr_conflicting report \<and> \<not> vr_supported report)
   \<or> (shown = UNSUPPORTED_ANSWER \<and> \<not> vr_conflicting report \<and> \<not> vr_supported report)
   \<or> (shown = answer \<and> vr_supported report \<and> \<not> vr_conflicting report
      \<and> citations digit answer \<noteq> {}
      \<and> citations digit answer \<subseteq> (case ids of Some xs \<Rightarrow> set xs | None \<Rightarrow> citations digit evidence)
      \<and> map_of (loads verdict) ''supported'' = Some (JBool True))"
  by (simp add: verified_answer_def Let_def)

lemma verified_answer_is_grounded_witness:
  "let r = verified_answer (\<lambda>_. [(''supported'', JBool True), (''conflicting'', JBool False)]) plain_conv
      (\<lambda>c. 48 \<le> c \<and> c \<le> 57) (Some [lit ''1'']) [] (lit ''x [2]'') [] in
     (fst r = CONFLICT_ANSWER \<or> fst r = UNSUPPORTED_ANSWER \<or> citations (\<lambda>c. 48 \<le> c \<and> c \<le> 57) (lit ''x [2]'') \<subseteq> {lit ''1''})
   \<and> fst r = UNSUPPORTED_ANSWER"
proof -
  let ?L = "\<lambda>_. [(''supported'', JBool True), (''conflicting'', JBool False)]" and ?d = "\<lambda>c::nat. 48 \<le> c \<and> c \<le> 57"
  have "fst (verified_answer ?L plain_conv ?d (Some [lit ''1'']) [] (lit ''x [2]'') []) = UNSUPPORTED_ANSWER"
    by (simp add: verified_answer_def citations_def lit_def Let_def)
  moreover have "fst (verified_answer ?L plain_conv ?d (Some [lit ''1'']) [] (lit ''x [2]'') []) = CONFLICT_ANSWER
    \<or> fst (verified_answer ?L plain_conv ?d (Some [lit ''1'']) [] (lit ''x [2]'') []) = UNSUPPORTED_ANSWER
    \<or> citations ?d (lit ''x [2]'') \<subseteq> {lit ''1''}"
    using verified_answer_is_grounded[of ?L plain_conv ?d "Some [lit ''1'']" "[]" "lit ''x [2]''" "[]"]
    unfolding Let_def split_beta by auto
  ultimately show ?thesis unfolding Let_def by blast
qed

end
