(* ===== verification/Ingress.thy ===== *)
theory Ingress
  imports Prelude
begin

text \<open>
  The workspace ingress of \<open>ontorag/kg/pipeline_ingress.py\<close>: the message type and its validators, the
  bounded set of terminal manual-request ids, and \<open>PipelineIngressMailbox\<close> with its three channels
  (documents, the auto-rescan flag, sticky manual retries). Every method of the mailbox runs under
  one condition variable, so each is one function from a mailbox to its result and the next mailbox.
  \<open>IngressContract\<close> states the contract of the \<open>PipelineIngress\<close> protocol as locales and interprets them.
\<close>

section \<open>Messages\<close>

datatype msg_kind = KDocument | KRescan

record ingress_msg =
  m_kind :: msg_kind
  m_doc_id :: "string option"
  m_retry_failed :: bool
  m_request_id :: "string option"

datatype publish_result = ACCEPTED | ALREADY_TERMINAL | CAPACITY_EXCEEDED

datatype terminal_state = RETRY_ACKED | RETRY_CANCELLED_BY_CLEAR

definition TERMINAL_MANUAL_REQUEST_IDS_CAPACITY :: int where
  "TERMINAL_MANUAL_REQUEST_IDS_CAPACITY = 4096"

definition DOCUMENT_CHANNEL_CAPACITY :: int where
  "DOCUMENT_CHANNEL_CAPACITY = 4096"

definition DEFAULT_MAX_UNACKED_MANUAL_RETRIES :: int where
  "DEFAULT_MAX_UNACKED_MANUAL_RETRIES = 64"

text \<open>The argument is the environment's \<open>MAX_UNACKED_MANUAL_RETRIES\<close>, read as an integer.\<close>

definition manual_channel_capacity :: "int option \<Rightarrow> int" where
  "manual_channel_capacity env =
     (case env of None \<Rightarrow> DEFAULT_MAX_UNACKED_MANUAL_RETRIES | Some n \<Rightarrow> n)"

definition validate_document_message :: "ingress_msg \<Rightarrow> unit res" where
  "validate_document_message msg =
     (if m_kind msg \<noteq> KDocument \<or> m_doc_id msg = None \<or> m_doc_id msg = Some '''' then Inl ValueError
      else if m_retry_failed msg \<or> m_request_id msg \<noteq> None then Inl ValueError
      else Inr ())"

definition validate_manual_request :: "string \<Rightarrow> ingress_msg \<Rightarrow> unit res" where
  "validate_manual_request request_id msg =
     (if request_id = '''' then Inl ValueError
      else if m_kind msg \<noteq> KRescan \<or> \<not> m_retry_failed msg \<or> m_request_id msg \<noteq> Some request_id
      then Inl ValueError
      else Inr ())"

abbreviation valid_doc :: "ingress_msg \<Rightarrow> bool" where
  "valid_doc m \<equiv> validate_document_message m = Inr ()"

abbreviation valid_manual :: "string \<Rightarrow> ingress_msg \<Rightarrow> bool" where
  "valid_manual rid m \<equiv> validate_manual_request rid m = Inr ()"

lemma validate_document_cases: "validate_document_message m = Inl ValueError \<or> valid_doc m"
  by (simp add: validate_document_message_def)

lemma validate_manual_cases: "validate_manual_request r m = Inl ValueError \<or> valid_manual r m"
  by (simp add: validate_manual_request_def)

section \<open>Terminal request ids\<close>

record terminal_ids =
  ti_capacity :: nat
  ti_ids :: "(string, terminal_state) odict"

definition terminal_init :: "int \<Rightarrow> terminal_ids" where
  "terminal_init capacity = \<lparr>ti_capacity = nat (max 1 capacity), ti_ids = []\<rparr>"

definition terminal_mem :: "string \<Rightarrow> terminal_ids \<Rightarrow> bool" where
  "terminal_mem rid t \<longleftrightarrow> rid \<in> set (od_keys (ti_ids t))"

definition terminal_get :: "string \<Rightarrow> terminal_ids \<Rightarrow> terminal_state option" where
  "terminal_get rid t = map_of (ti_ids t) rid"

definition terminal_len :: "terminal_ids \<Rightarrow> nat" where
  "terminal_len t = length (ti_ids t)"

definition terminal_add :: "string \<Rightarrow> terminal_state \<Rightarrow> terminal_ids \<Rightarrow> terminal_ids" where
  "terminal_add rid st t =
     (if terminal_mem rid t then t
      else t\<lparr>ti_ids := evict_front (ti_capacity t) (od_set rid st (ti_ids t))\<rparr>)"

definition terminal_inv :: "terminal_ids \<Rightarrow> bool" where
  "terminal_inv t \<longleftrightarrow> 0 < ti_capacity t \<and> od_wf (ti_ids t) \<and> terminal_len t \<le> ti_capacity t"

lemma terminal_mem_get: "terminal_mem rid t \<longleftrightarrow> terminal_get rid t \<noteq> None"
  by (simp add: terminal_mem_def terminal_get_def map_of_eq_None_iff)

lemma od_wf_drop: "od_wf d \<Longrightarrow> od_wf (drop n d)"
  by (simp add: od_wf_def drop_map [symmetric])

lemma terminal_inv_init [simp]: "terminal_inv (terminal_init c)"
  by (simp add: terminal_inv_def terminal_init_def terminal_len_def)

lemma terminal_capacity_add [simp]: "ti_capacity (terminal_add rid st t) = ti_capacity t"
  by (simp add: terminal_add_def)

lemma terminal_add_ids:
  "\<not> terminal_mem rid t \<Longrightarrow>
   ti_ids (terminal_add rid st t)
     = drop (Suc (length (ti_ids t)) - ti_capacity t) (ti_ids t @ [(rid, st)])"
  by (simp add: terminal_add_def evict_front_drop od_set_new terminal_mem_get terminal_get_def)

lemma terminal_inv_add [simp]: "terminal_inv t \<Longrightarrow> terminal_inv (terminal_add rid st t)"
  by (auto simp: terminal_inv_def terminal_add_def terminal_len_def evict_front_drop od_wf_drop)

lemma terminal_mem_add_self:
  assumes "terminal_inv t"
  shows "terminal_mem rid (terminal_add rid st t)"
proof (cases "terminal_mem rid t")
  case False
  have "Suc (length (ti_ids t)) - ti_capacity t \<le> length (ti_ids t)"
    using assms by (auto simp: terminal_inv_def)
  with False show ?thesis by (simp add: terminal_mem_def terminal_add_ids)
qed (simp add: terminal_add_def)

lemma terminal_add_mono:
  "terminal_mem r (terminal_add rid st t) \<Longrightarrow> r = rid \<or> terminal_mem r t"
proof (cases "terminal_mem rid t")
  case False
  assume "terminal_mem r (terminal_add rid st t)"
  then have "r \<in> fst ` set (ti_ids t @ [(rid, st)])"
    using set_drop_subset False
    by (fastforce simp: terminal_mem_def terminal_add_ids)
  then show ?thesis by (auto simp: terminal_mem_def)
qed (simp add: terminal_add_def)

lemma terminal_get_add_first_wins:
  "terminal_get rid t = Some s \<Longrightarrow> terminal_add rid st t = t"
  by (simp add: terminal_add_def terminal_mem_get)

text \<open>
  The replay window. The position of an id, counted from the newest end, grows by at most one for
  every id retired after it; it is evicted only when the position reaches the capacity.
\<close>

definition retired_within :: "nat \<Rightarrow> string \<Rightarrow> terminal_ids \<Rightarrow> bool" where
  "retired_within n rid t \<longleftrightarrow> (\<exists>xs st ys. ti_ids t = xs @ (rid, st) # ys \<and> length ys \<le> n)"

lemma retired_within_mem: "retired_within n rid t \<Longrightarrow> terminal_mem rid t"
  by (auto simp: retired_within_def terminal_mem_def)

lemma terminal_add_retired:
  assumes "terminal_inv t" and "\<not> terminal_mem rid t"
  shows "retired_within 0 rid (terminal_add rid st t)"
proof -
  let ?d = "Suc (length (ti_ids t)) - ti_capacity t"
  have "?d \<le> length (ti_ids t)" using assms(1) by (auto simp: terminal_inv_def)
  then have "ti_ids (terminal_add rid st t) = drop ?d (ti_ids t) @ (rid, st) # []"
    using assms(2) by (simp add: terminal_add_ids)
  then show ?thesis unfolding retired_within_def by (metis le_refl list.size(3))
qed

lemma retired_within_add:
  assumes "retired_within n rid t" and "Suc n < ti_capacity t"
  shows "retired_within (Suc n) rid (terminal_add r st t)"
proof (cases "terminal_mem r t")
  case True
  with assms show ?thesis
    by (auto simp: terminal_add_def retired_within_def intro: le_SucI)
next
  case False
  obtain xs s ys where t: "ti_ids t = xs @ (rid, s) # ys" and ys: "length ys \<le> n"
    using assms(1) by (auto simp: retired_within_def)
  let ?d = "Suc (length (ti_ids t)) - ti_capacity t"
  have "?d \<le> length xs" using t ys assms(2) by simp
  then have "ti_ids (terminal_add r st t) = drop ?d xs @ (rid, s) # (ys @ [(r, st)])"
    using False t by (simp add: terminal_add_ids)
  moreover have "length (ys @ [(r, st)]) \<le> Suc n" using ys by simp
  ultimately show ?thesis unfolding retired_within_def by blast
qed

section \<open>The mailbox\<close>

record mailbox =
  mb_document_capacity :: nat
  mb_manual_capacity :: nat
  mb_documents :: "ingress_msg list"
  mb_document_overflows :: nat
  mb_auto_rescan_pending :: bool
  mb_manual_retries :: "(string, ingress_msg) odict"
  mb_terminal_ids :: terminal_ids

definition mailbox_init :: "int option \<Rightarrow> int \<Rightarrow> int option \<Rightarrow> mailbox" where
  "mailbox_init env document_capacity manual_capacity =
     \<lparr>mb_document_capacity = nat (max 1 document_capacity),
      mb_manual_capacity =
        nat (max 1 (case manual_capacity of
                      None \<Rightarrow> manual_channel_capacity env | Some c \<Rightarrow> c)),
      mb_documents = [],
      mb_document_overflows = 0,
      mb_auto_rescan_pending = False,
      mb_manual_retries = [],
      mb_terminal_ids = terminal_init TERMINAL_MANUAL_REQUEST_IDS_CAPACITY\<rparr>"

subsection \<open>Publishing\<close>

definition put_document_locked :: "ingress_msg \<Rightarrow> mailbox \<Rightarrow> mailbox" where
  "put_document_locked msg m =
     (if length (mb_documents m) \<ge> mb_document_capacity m
      then m\<lparr>mb_document_overflows := Suc (mb_document_overflows m),
             mb_auto_rescan_pending := True\<rparr>
      else m\<lparr>mb_documents := mb_documents m @ [msg]\<rparr>)"

definition put_document :: "ingress_msg \<Rightarrow> mailbox \<Rightarrow> mailbox res" where
  "put_document msg m =
     bind_res (validate_document_message msg) (\<lambda>_. Inr (put_document_locked msg m))"

fun validate_documents :: "ingress_msg list \<Rightarrow> unit res" where
  "validate_documents [] = Inr ()"
| "validate_documents (msg # msgs) =
     bind_res (validate_document_message msg) (\<lambda>_. validate_documents msgs)"

definition put_documents :: "ingress_msg list \<Rightarrow> mailbox \<Rightarrow> mailbox res" where
  "put_documents msgs m =
     bind_res (validate_documents msgs) (\<lambda>_. Inr (fold put_document_locked msgs m))"

definition request_auto_rescan :: "mailbox \<Rightarrow> mailbox" where
  "request_auto_rescan m = m\<lparr>mb_auto_rescan_pending := True\<rparr>"

definition request_manual_retry ::
    "string \<Rightarrow> ingress_msg \<Rightarrow> mailbox \<Rightarrow> (publish_result \<times> mailbox) res" where
  "request_manual_retry request_id msg m =
     bind_res (validate_manual_request request_id msg) (\<lambda>_. Inr
       (if terminal_mem request_id (mb_terminal_ids m) then (ALREADY_TERMINAL, m)
        else if map_of (mb_manual_retries m) request_id = None then
          (if length (mb_manual_retries m) \<ge> mb_manual_capacity m then (CAPACITY_EXCEEDED, m)
           else (ACCEPTED,
                 m\<lparr>mb_manual_retries := od_set request_id msg (mb_manual_retries m)\<rparr>))
        else (ACCEPTED, m)))"

subsection \<open>Consuming\<close>

definition consume_auto_rescan :: "mailbox \<Rightarrow> bool \<times> mailbox" where
  "consume_auto_rescan m = (mb_auto_rescan_pending m, m\<lparr>mb_auto_rescan_pending := False\<rparr>)"

definition drain_documents :: "int option \<Rightarrow> mailbox \<Rightarrow> ingress_msg list \<times> mailbox" where
  "drain_documents limit m =
     (case limit of
        None \<Rightarrow> (mb_documents m, m\<lparr>mb_documents := []\<rparr>)
      | Some l \<Rightarrow>
          if l \<ge> int (length (mb_documents m)) then (mb_documents m, m\<lparr>mb_documents := []\<rparr>)
          else (let k = nat (max 0 l)
                in (take k (mb_documents m), m\<lparr>mb_documents := drop k (mb_documents m)\<rparr>)))"

definition peek_next_manual_retry :: "mailbox \<Rightarrow> ingress_msg option" where
  "peek_next_manual_retry m =
     (case mb_manual_retries m of [] \<Rightarrow> None | (_, msg) # _ \<Rightarrow> Some msg)"

definition snapshot_manual_retries :: "mailbox \<Rightarrow> ingress_msg list" where
  "snapshot_manual_retries m = map snd (mb_manual_retries m)"

definition ack_manual_retry :: "string \<Rightarrow> mailbox \<Rightarrow> bool \<times> mailbox" where
  "ack_manual_retry request_id m =
     (True, m\<lparr>mb_manual_retries := od_del request_id (mb_manual_retries m),
              mb_terminal_ids := terminal_add request_id RETRY_ACKED (mb_terminal_ids m)\<rparr>)"

definition tombstone_all :: "string list \<Rightarrow> terminal_ids \<Rightarrow> terminal_ids" where
  "tombstone_all rids t = fold (\<lambda>rid. terminal_add rid RETRY_CANCELLED_BY_CLEAR) rids t"

definition cancel_manual_retries :: "mailbox \<Rightarrow> nat \<times> mailbox" where
  "cancel_manual_retries m =
     (length (mb_manual_retries m),
      m\<lparr>mb_terminal_ids := tombstone_all (od_keys (mb_manual_retries m)) (mb_terminal_ids m),
        mb_manual_retries := []\<rparr>)"

definition clear :: "mailbox \<Rightarrow> mailbox" where
  "clear m =
     m\<lparr>mb_terminal_ids := tombstone_all (od_keys (mb_manual_retries m)) (mb_terminal_ids m),
       mb_manual_retries := [], mb_documents := [], mb_auto_rescan_pending := False\<rparr>"

subsection \<open>Observing\<close>

definition has_work :: "mailbox \<Rightarrow> bool" where
  "has_work m \<longleftrightarrow>
     mb_documents m \<noteq> [] \<or> mb_auto_rescan_pending m \<or> mb_manual_retries m \<noteq> []"

record ingress_counts =
  c_documents :: nat
  c_document_overflows :: nat
  c_auto_rescan_pending :: bool
  c_manual_retries :: nat
  c_manual_retries_capacity :: nat
  c_terminal_manual_request_ids :: nat

definition counts :: "mailbox \<Rightarrow> ingress_counts" where
  "counts m =
     \<lparr>c_documents = length (mb_documents m),
      c_document_overflows = mb_document_overflows m,
      c_auto_rescan_pending = mb_auto_rescan_pending m,
      c_manual_retries = length (mb_manual_retries m),
      c_manual_retries_capacity = mb_manual_capacity m,
      c_terminal_manual_request_ids = terminal_len (mb_terminal_ids m)\<rparr>"

text \<open>
  A blocking wait reads the mailbox each time the condition wakes it and never writes it. Its
  environment is the list of its wake-ups, as pairs of the elapsed time and the mailbox seen; the
  first is the check before sleeping. \<open>Condition.wait_for\<close> gives up at the first later wake-up at or past
  the timeout whose predicate is false.
\<close>

definition MAX_MAILBOX_WAIT_SECONDS :: real where
  "MAX_MAILBOX_WAIT_SECONDS = 30"

definition bounded_wait :: "real \<Rightarrow> real" where
  "bounded_wait timeout = min (max 0 timeout) MAX_MAILBOX_WAIT_SECONDS"

fun wait_loop :: "(mailbox \<Rightarrow> bool) \<Rightarrow> real \<Rightarrow> (real \<times> mailbox) list \<Rightarrow> bool" where
  "wait_loop p timeout [] = False"
| "wait_loop p timeout ((elapsed, m) # wakeups) =
     (if p m then True else if timeout \<le> elapsed then False else wait_loop p timeout wakeups)"

fun wait_for :: "(mailbox \<Rightarrow> bool) \<Rightarrow> real \<Rightarrow> (real \<times> mailbox) list \<Rightarrow> bool" where
  "wait_for p timeout [] = False"
| "wait_for p timeout ((_, m) # wakeups) = (if p m then True else wait_loop p timeout wakeups)"

definition wait_for_documents :: "real \<Rightarrow> (real \<times> mailbox) list \<Rightarrow> bool" where
  "wait_for_documents timeout wakeups =
     wait_for (\<lambda>m. mb_documents m \<noteq> []) (bounded_wait timeout) wakeups"

definition wait_for_items :: "real \<Rightarrow> (real \<times> mailbox) list \<Rightarrow> bool" where
  "wait_for_items timeout wakeups = wait_for has_work (bounded_wait timeout) wakeups"

section \<open>The mailbox invariant\<close>

definition mailbox_inv :: "mailbox \<Rightarrow> bool" where
  "mailbox_inv m \<longleftrightarrow>
     0 < mb_document_capacity m \<and> length (mb_documents m) \<le> mb_document_capacity m
     \<and> list_all valid_doc (mb_documents m)
     \<and> 0 < mb_manual_capacity m \<and> od_wf (mb_manual_retries m)
     \<and> length (mb_manual_retries m) \<le> mb_manual_capacity m
     \<and> list_all (\<lambda>(r, msg). valid_manual r msg \<and> \<not> terminal_mem r (mb_terminal_ids m))
         (mb_manual_retries m)
     \<and> terminal_inv (mb_terminal_ids m)"

lemma mailbox_inv_init [simp]: "mailbox_inv (mailbox_init env dc mc)"
  by (auto simp: mailbox_inv_def mailbox_init_def)

lemma put_document_locked_inv:
  "mailbox_inv m \<Longrightarrow> valid_doc msg \<Longrightarrow> mailbox_inv (put_document_locked msg m)"
  by (auto simp: mailbox_inv_def put_document_locked_def)

lemma validate_documents_iff: "validate_documents msgs = Inr () \<longleftrightarrow> list_all valid_doc msgs"
  by (induction msgs) (auto simp: bind_res_Inr_iff)

lemma validate_documents_cases: "validate_documents msgs = Inl ValueError \<or> list_all valid_doc msgs"
proof (induction msgs)
  case (Cons x xs)
  then show ?case using validate_document_cases [of x] by auto
qed simp

lemma fold_put_documents_inv:
  "mailbox_inv m \<Longrightarrow> list_all valid_doc msgs \<Longrightarrow> mailbox_inv (fold put_document_locked msgs m)"
  by (induction msgs arbitrary: m) (auto simp: put_document_locked_inv)

lemma put_documents_inv: "mailbox_inv m \<Longrightarrow> put_documents msgs m = Inr m' \<Longrightarrow> mailbox_inv m'"
  using validate_documents_iff [of msgs]
  by (auto simp: put_documents_def bind_res_Inr_iff intro: fold_put_documents_inv)

lemma put_document_single: "put_document msg m = put_documents [msg] m"
  using validate_document_cases [of msg] by (auto simp: put_document_def put_documents_def)

lemma put_document_inv: "mailbox_inv m \<Longrightarrow> put_document msg m = Inr m' \<Longrightarrow> mailbox_inv m'"
  by (simp add: put_document_single put_documents_inv)

lemma request_auto_rescan_inv: "mailbox_inv m \<Longrightarrow> mailbox_inv (request_auto_rescan m)"
  by (simp add: mailbox_inv_def request_auto_rescan_def)

lemma request_manual_retry_inv:
  "mailbox_inv m \<Longrightarrow> request_manual_retry rid msg m = Inr (r, m') \<Longrightarrow> mailbox_inv m'"
  by (auto simp: mailbox_inv_def request_manual_retry_def bind_res_Inr_iff od_set_new od_wf_append
      split: if_splits)

lemma consume_auto_rescan_inv: "mailbox_inv m \<Longrightarrow> mailbox_inv (snd (consume_auto_rescan m))"
  by (simp add: mailbox_inv_def consume_auto_rescan_def)

lemma list_all_drop: "list_all P xs \<Longrightarrow> list_all P (drop n xs)"
  by (auto simp: list_all_iff dest: in_set_dropD)

lemma drain_documents_inv: "mailbox_inv m \<Longrightarrow> mailbox_inv (snd (drain_documents l m))"
  by (auto simp: mailbox_inv_def drain_documents_def Let_def list_all_drop split: option.splits)

lemma key_of_od_del: "r \<in> set (od_keys (od_del k d)) \<Longrightarrow> r \<noteq> k"
  by (simp add: od_keys_del)

lemma ack_manual_retry_inv:
  assumes "mailbox_inv m"
  shows "mailbox_inv (snd (ack_manual_retry rid m))"
proof -
  have "length (od_del rid (mb_manual_retries m)) \<le> mb_manual_capacity m"
    using assms length_od_del_le [of rid "mb_manual_retries m"] by (simp add: mailbox_inv_def)
  moreover have "list_all (\<lambda>(r, msg). valid_manual r msg
      \<and> \<not> terminal_mem r (terminal_add rid RETRY_ACKED (mb_terminal_ids m)))
      (od_del rid (mb_manual_retries m))"
    using assms by (auto simp: mailbox_inv_def list_all_iff AList.delete_eq dest: terminal_add_mono)
  ultimately show ?thesis using assms by (simp add: mailbox_inv_def ack_manual_retry_def)
qed

lemma tombstone_all_inv: "terminal_inv t \<Longrightarrow> terminal_inv (tombstone_all rids t)"
  unfolding tombstone_all_def by (induction rids arbitrary: t) auto

lemma cancel_manual_retries_inv: "mailbox_inv m \<Longrightarrow> mailbox_inv (snd (cancel_manual_retries m))"
  by (simp add: mailbox_inv_def cancel_manual_retries_def tombstone_all_inv)

lemma clear_inv: "mailbox_inv m \<Longrightarrow> mailbox_inv (clear m)"
  by (simp add: mailbox_inv_def clear_def tombstone_all_inv)

section \<open>Operations as one step\<close>

text \<open>A raised \<open>ValueError\<close> precedes every write, so a refused publish leaves the channel as it was.\<close>

datatype ingress_op =
    PutDocument ingress_msg
  | PutDocuments "ingress_msg list"
  | RequestAutoRescan
  | RequestManualRetry string ingress_msg
  | ConsumeAutoRescan
  | DrainDocuments "int option"
  | AckManualRetry string
  | CancelManualRetries
  | Clear

definition keep_on_error :: "'s \<Rightarrow> 's res \<Rightarrow> 's" where
  "keep_on_error s r = (case r of Inl _ \<Rightarrow> s | Inr s' \<Rightarrow> s')"

fun mailbox_step :: "ingress_op \<Rightarrow> mailbox \<Rightarrow> mailbox" where
  "mailbox_step (PutDocument msg) m = keep_on_error m (put_document msg m)"
| "mailbox_step (PutDocuments msgs) m = keep_on_error m (put_documents msgs m)"
| "mailbox_step RequestAutoRescan m = request_auto_rescan m"
| "mailbox_step (RequestManualRetry rid msg) m =
     keep_on_error m (map_sum id snd (request_manual_retry rid msg m))"
| "mailbox_step ConsumeAutoRescan m = snd (consume_auto_rescan m)"
| "mailbox_step (DrainDocuments l) m = snd (drain_documents l m)"
| "mailbox_step (AckManualRetry rid) m = snd (ack_manual_retry rid m)"
| "mailbox_step CancelManualRetries m = snd (cancel_manual_retries m)"
| "mailbox_step Clear m = clear m"

lemma keep_on_error_simps [simp]:
  "keep_on_error s (Inl e) = s"
  "keep_on_error s (Inr s') = s'"
  by (simp_all add: keep_on_error_def)

lemma mailbox_step_inv: "mailbox_inv m \<Longrightarrow> mailbox_inv (mailbox_step op m)"
proof (cases op)
  case (PutDocument msg)
  assume "mailbox_inv m"
  with PutDocument show ?thesis
    by (cases "put_document msg m") (auto intro: put_document_inv)
next
  case (PutDocuments msgs)
  assume "mailbox_inv m"
  with PutDocuments show ?thesis
    by (cases "put_documents msgs m") (auto intro: put_documents_inv)
next
  case (RequestManualRetry rid msg)
  assume "mailbox_inv m"
  with RequestManualRetry show ?thesis
    by (cases "request_manual_retry rid msg m") (auto intro: request_manual_retry_inv)
qed (simp_all add: request_auto_rescan_inv consume_auto_rescan_inv drain_documents_inv
      ack_manual_retry_inv cancel_manual_retries_inv clear_inv)

end
