(* ===== verification/IngressContract.thy ===== *)
theory IngressContract
  imports Ingress
begin

text \<open>
  What the ingress promises over a whole run, and the contract other components rely on. The trace
  lemmas are proved for the mailbox; the locale \<open>ingress_implementation\<close> says what it means for
  another state to implement the mailbox, and carries the trace lemmas over to it. The locale
  \<open>ingress_client\<close> adds the three calls the pipeline reservations make.
\<close>

section \<open>Traces of the mailbox\<close>

lemma mailbox_run_inv: "mailbox_inv m \<Longrightarrow> mailbox_inv (fold mailbox_step ops m)"
  by (induction ops arbitrary: m) (simp_all add: mailbox_step_inv)

subsection \<open>Documents are kept or the rescan flag is set\<close>

fun consumes :: "ingress_op \<Rightarrow> bool" where
  "consumes ConsumeAutoRescan = True"
| "consumes (DrainDocuments _) = True"
| "consumes Clear = True"
| "consumes _ = False"

definition recoverable :: "ingress_msg \<Rightarrow> mailbox \<Rightarrow> bool" where
  "recoverable msg m \<longleftrightarrow> msg \<in> set (mb_documents m) \<or> mb_auto_rescan_pending m"

lemma recoverable_put_locked:
  "recoverable d m \<Longrightarrow> recoverable d (put_document_locked msg m)"
  "recoverable msg (put_document_locked msg m)"
  by (auto simp: recoverable_def put_document_locked_def)

lemma recoverable_fold_put:
  "recoverable d m \<Longrightarrow> recoverable d (fold put_document_locked msgs m)"
  by (induction msgs arbitrary: m) (auto simp: recoverable_put_locked)

lemma recoverable_put_documents:
  "recoverable d m \<Longrightarrow> put_documents msgs m = Inr m' \<Longrightarrow> recoverable d m'"
  by (auto simp: put_documents_def bind_res_Inr_iff recoverable_fold_put)

lemma recoverable_request_manual:
  "recoverable d m \<Longrightarrow> request_manual_retry rid msg m = Inr (r, m') \<Longrightarrow> recoverable d m'"
  by (auto simp: request_manual_retry_def bind_res_Inr_iff recoverable_def split: if_splits)

lemma recoverable_step:
  assumes "recoverable d m" and "\<not> consumes op"
  shows "recoverable d (mailbox_step op m)"
proof (cases op)
  case (PutDocument msg)
  with assms show ?thesis
    by (cases "put_documents [msg] m") (auto simp: put_document_single intro: recoverable_put_documents)
next
  case (PutDocuments msgs)
  with assms show ?thesis
    by (cases "put_documents msgs m") (auto intro: recoverable_put_documents)
next
  case (RequestManualRetry rid msg)
  with assms show ?thesis
    by (cases "request_manual_retry rid msg m") (auto intro: recoverable_request_manual)
qed (use assms in \<open>auto simp: recoverable_def request_auto_rescan_def ack_manual_retry_def
       cancel_manual_retries_def\<close>)

lemma recoverable_run:
  "recoverable d m \<Longrightarrow> \<forall>op\<in>set ops. \<not> consumes op \<Longrightarrow> recoverable d (fold mailbox_step ops m)"
  by (induction ops arbitrary: m) (simp_all add: recoverable_step)

lemma put_document_recoverable: "put_document msg m = Inr m' \<Longrightarrow> recoverable msg m'"
  by (auto simp: put_document_def bind_res_Inr_iff recoverable_put_locked)

subsection \<open>Manual retries stay until retired, in order\<close>

fun drops_manual :: "ingress_op \<Rightarrow> bool" where
  "drops_manual CancelManualRetries = True"
| "drops_manual Clear = True"
| "drops_manual _ = False"

abbreviation pending_ids :: "mailbox \<Rightarrow> string list" where
  "pending_ids m \<equiv> od_keys (mb_manual_retries m)"

lemma pending_put_locked [simp]:
  "mb_manual_retries (put_document_locked msg m) = mb_manual_retries m"
  "mb_manual_retries (fold put_document_locked msgs m) = mb_manual_retries m"
proof -
  show one: "mb_manual_retries (put_document_locked msg m) = mb_manual_retries m" for msg m
    by (simp add: put_document_locked_def)
  show "mb_manual_retries (fold put_document_locked msgs m) = mb_manual_retries m"
    by (induction msgs arbitrary: m) (simp_all add: one)
qed

lemma pending_put_documents:
  "put_documents msgs m = Inr m' \<Longrightarrow> mb_manual_retries m' = mb_manual_retries m"
  by (auto simp: put_documents_def bind_res_Inr_iff)

lemma pending_request:
  "request_manual_retry rid msg m = Inr (r, m') \<Longrightarrow> \<exists>extra. pending_ids m' = pending_ids m @ extra"
  by (auto simp: request_manual_retry_def bind_res_Inr_iff od_keys_set split: if_splits)

lemma pending_step:
  assumes "\<not> drops_manual op"
  shows "\<exists>extra. pending_ids (mailbox_step op m)
           = filter (\<lambda>r. op \<noteq> AckManualRetry r) (pending_ids m) @ extra"
proof (cases op)
  case (PutDocument msg)
  then show ?thesis
    by (cases "put_documents [msg] m") (auto simp: put_document_single pending_put_documents)
next
  case (PutDocuments msgs)
  then show ?thesis
    by (cases "put_documents msgs m") (auto simp: pending_put_documents)
next
  case (RequestManualRetry rid msg)
  then show ?thesis
    by (cases "request_manual_retry rid msg m") (auto dest: pending_request)
next
  case (DrainDocuments l)
  then show ?thesis by (auto simp: drain_documents_def Let_def split: option.splits)
next
  case (AckManualRetry rid)
  then show ?thesis by (auto simp: ack_manual_retry_def od_keys_del eq_commute)
qed (use assms in \<open>simp_all add: request_auto_rescan_def consume_auto_rescan_def\<close>)

lemma pending_run:
  "\<forall>op\<in>set ops. \<not> drops_manual op \<Longrightarrow>
   \<exists>extra. pending_ids (fold mailbox_step ops m)
     = filter (\<lambda>r. AckManualRetry r \<notin> set ops) (pending_ids m) @ extra"
proof (induction ops arbitrary: m)
  case (Cons op ops)
  obtain e1 where e1: "pending_ids (mailbox_step op m)
      = filter (\<lambda>r. op \<noteq> AckManualRetry r) (pending_ids m) @ e1"
    using pending_step Cons.prems by (metis list.set_intros(1))
  obtain e2 where "pending_ids (fold mailbox_step ops (mailbox_step op m))
      = filter (\<lambda>r. AckManualRetry r \<notin> set ops) (pending_ids (mailbox_step op m)) @ e2"
    using Cons.IH Cons.prems by (metis list.set_intros(2))
  then show ?case
    by (auto simp: e1 intro!: exI [of _ "filter (\<lambda>r. AckManualRetry r \<notin> set ops) e1 @ e2"]
        filter_cong)
qed simp

subsection \<open>A retired id is not accepted again\<close>

lemma request_terminal:
  "terminal_mem rid (mb_terminal_ids m) \<Longrightarrow> valid_manual rid msg \<Longrightarrow>
   request_manual_retry rid msg m = Inr (ALREADY_TERMINAL, m)"
  by (simp add: request_manual_retry_def)

lemma request_accepted_pending:
  "request_manual_retry rid msg m = Inr (ACCEPTED, m') \<Longrightarrow> rid \<in> set (pending_ids m')"
  by (auto simp: request_manual_retry_def bind_res_Inr_iff dom_update
      split: if_splits dest: map_of_SomeD intro: rev_image_eqI)

lemma pending_not_terminal:
  "mailbox_inv m \<Longrightarrow> rid \<in> set (pending_ids m) \<Longrightarrow> \<not> terminal_mem rid (mb_terminal_ids m)"
  by (auto simp: mailbox_inv_def list_all_iff)

lemma retired_within_run:
  "retired_within n rid t \<Longrightarrow> n + length rs < ti_capacity t \<Longrightarrow>
   retired_within (n + length rs) rid (fold (\<lambda>r. terminal_add r st) rs t)"
proof (induction rs arbitrary: n t)
  case (Cons r rs)
  then have "retired_within (Suc n) rid (terminal_add r st t)"
    by (intro retired_within_add) auto
  from Cons.IH [OF this] Cons.prems(2) show ?case by simp
qed simp

lemma terminal_ids_after_acks:
  "mb_terminal_ids (fold (\<lambda>r m. snd (ack_manual_retry r m)) rs m)
     = fold (\<lambda>r. terminal_add r RETRY_ACKED) rs (mb_terminal_ids m)"
  by (induction rs arbitrary: m) (simp_all add: ack_manual_retry_def)

lemma mailbox_after_acks_replay:
  assumes inv: "mailbox_inv m" and pend: "rid \<in> set (pending_ids m)"
    and win: "length rs < ti_capacity (mb_terminal_ids m)"
  shows "terminal_mem rid (mb_terminal_ids (fold (\<lambda>r m. snd (ack_manual_retry r m)) (rid # rs) m))"
proof -
  let ?t = "terminal_add rid RETRY_ACKED (mb_terminal_ids m)"
  have "terminal_inv (mb_terminal_ids m)" using inv by (simp add: mailbox_inv_def)
  then have "retired_within 0 rid ?t"
    using pending_not_terminal [OF inv pend] by (rule terminal_add_retired)
  then have "retired_within (0 + length rs) rid (fold (\<lambda>r. terminal_add r RETRY_ACKED) rs ?t)"
    by (rule retired_within_run) (use win in simp)
  then show ?thesis
    unfolding terminal_ids_after_acks by (simp add: retired_within_mem)
qed

lemma tombstone_all_mem:
  assumes "terminal_inv t" and "length rids \<le> ti_capacity t"
    and "\<forall>r\<in>set rids. \<not> terminal_mem r t" and "distinct rids" and "rid \<in> set rids"
  shows "terminal_mem rid (tombstone_all rids t)"
  using assms
proof (induction rids arbitrary: t)
  case (Cons r rs)
  let ?t = "terminal_add r RETRY_CANCELLED_BY_CLEAR t"
  show ?case
  proof (cases "rid = r")
    case True
    have "retired_within 0 r ?t"
      using Cons.prems by (intro terminal_add_retired) auto
    then have "retired_within (0 + length rs) r (tombstone_all rs ?t)"
      unfolding tombstone_all_def by (rule retired_within_run) (use Cons.prems in auto)
    with True show ?thesis by (simp add: retired_within_mem tombstone_all_def)
  next
    case False
    have "terminal_mem rid (tombstone_all rs ?t)"
    proof (rule Cons.IH)
      show "\<forall>x\<in>set rs. \<not> terminal_mem x ?t"
        using Cons.prems by (auto dest: terminal_add_mono)
    qed (use Cons.prems False in auto)
    then show ?thesis by (simp add: tombstone_all_def)
  qed
qed simp

section \<open>The contract\<close>

text \<open>
  A state type implements the mailbox through a view when every operation, seen through the view, is
  the mailbox's operation. The laws are what the code promises for both flavors of the ingress.
\<close>

locale ingress_implementation =
  fixes ok :: "'i \<Rightarrow> bool"
    and view :: "'i \<Rightarrow> mailbox"
    and step :: "ingress_op \<Rightarrow> 'i \<Rightarrow> 'i"
  assumes ok_view: "ok i \<Longrightarrow> mailbox_inv (view i)"
    and ok_step: "ok i \<Longrightarrow> ok (step op i)"
    and view_step: "ok i \<Longrightarrow> view (step op i) = mailbox_step op (view i)"
begin

lemma ok_run: "ok i \<Longrightarrow> ok (fold step ops i)"
  by (induction ops arbitrary: i) (simp_all add: ok_step)

lemma view_run: "ok i \<Longrightarrow> view (fold step ops i) = fold mailbox_step ops (view i)"
  by (induction ops arbitrary: i) (simp_all add: ok_step view_step)

lemma run_bounded: "ok i \<Longrightarrow> mailbox_inv (view (fold step ops i))"
  by (simp add: ok_run ok_view)

lemma run_recoverable:
  "ok i \<Longrightarrow> recoverable d (view i) \<Longrightarrow> \<forall>op\<in>set ops. \<not> consumes op \<Longrightarrow>
   recoverable d (view (fold step ops i))"
  by (simp add: view_run recoverable_run)

lemma run_pending:
  "ok i \<Longrightarrow> \<forall>op\<in>set ops. \<not> drops_manual op \<Longrightarrow>
   \<exists>extra. pending_ids (view (fold step ops i))
     = filter (\<lambda>r. AckManualRetry r \<notin> set ops) (pending_ids (view i)) @ extra"
  by (simp add: view_run pending_run)

end

text \<open>The calls a reservation makes on the ingress it is given.\<close>

locale ingress_client = ingress_implementation ok view step
  for ok :: "'i \<Rightarrow> bool" and view :: "'i \<Rightarrow> mailbox" and step :: "ingress_op \<Rightarrow> 'i \<Rightarrow> 'i" +
  fixes arm :: "'i \<Rightarrow> 'i"
    and peek :: "'i \<Rightarrow> ingress_msg option"
    and publish :: "string \<Rightarrow> ingress_msg \<Rightarrow> 'i \<Rightarrow> (publish_result \<times> 'i) res"
  assumes arm_step: "arm i = step RequestAutoRescan i"
    and peek_view: "ok i \<Longrightarrow> peek i = peek_next_manual_retry (view i)"
    and publish_view: "ok i \<Longrightarrow> map_sum id (map_prod id view) (publish rid msg i)
           = request_manual_retry rid msg (view i)"
begin

lemma arm_pending: "ok i \<Longrightarrow> mb_auto_rescan_pending (view (arm i))"
  by (simp add: arm_step view_step request_auto_rescan_def)

lemma arm_keeps_manual: "ok i \<Longrightarrow> mb_manual_retries (view (arm i)) = mb_manual_retries (view i)"
  by (simp add: arm_step view_step request_auto_rescan_def)

lemma publish_accepted_pending:
  assumes "ok i" and "publish rid msg i = Inr (ACCEPTED, i')"
  shows "rid \<in> set (pending_ids (view i'))"
proof -
  have "request_manual_retry rid msg (view i) = Inr (ACCEPTED, view i')"
    using publish_view [OF assms(1), of rid msg] assms(2) by simp
  then show ?thesis by (rule request_accepted_pending)
qed

lemma publish_refused_unchanged:
  assumes "ok i" and "publish rid msg i = Inr (r, i')" and "r \<noteq> ACCEPTED"
  shows "view i' = view i"
proof -
  have "request_manual_retry rid msg (view i) = Inr (r, view i')"
    using publish_view [OF assms(1), of rid msg] assms(2) by simp
  with assms(3) show ?thesis
    by (auto simp: request_manual_retry_def bind_res_Inr_iff split: if_splits)
qed

end

interpretation mailbox_client: ingress_client mailbox_inv id mailbox_step
    request_auto_rescan peek_next_manual_retry request_manual_retry
  by unfold_locales (auto simp: mailbox_step_inv sum.map_id0 prod.map_id0)

text \<open>A processing run also consumes the auto-rescan flag and counts the queued notifications.\<close>

locale quiescence_client = ingress_client ok view step arm peek publish
  for ok :: "'i \<Rightarrow> bool" and view :: "'i \<Rightarrow> mailbox" and step :: "ingress_op \<Rightarrow> 'i \<Rightarrow> 'i"
    and arm :: "'i \<Rightarrow> 'i" and peek :: "'i \<Rightarrow> ingress_msg option"
    and publish :: "string \<Rightarrow> ingress_msg \<Rightarrow> 'i \<Rightarrow> (publish_result \<times> 'i) res" +
  fixes consume :: "'i \<Rightarrow> bool \<times> 'i"
    and documents :: "'i \<Rightarrow> nat"
  assumes consume_flag: "ok i \<Longrightarrow> fst (consume i) = mb_auto_rescan_pending (view i)"
    and consume_step: "snd (consume i) = step ConsumeAutoRescan i"
    and documents_view: "ok i \<Longrightarrow> documents i = length (mb_documents (view i))"
begin

lemma consume_view:
  assumes "ok i" and "consume i = (b, i')"
  shows "b = mb_auto_rescan_pending (view i)" and "ok i'"
    and "view i' = (view i)\<lparr>mb_auto_rescan_pending := False\<rparr>"
  using consume_flag [OF assms(1)] consume_step [of i] ok_step [OF assms(1), of ConsumeAutoRescan]
    view_step [OF assms(1), of ConsumeAutoRescan] assms(2)
  by (simp_all add: consume_auto_rescan_def)

lemma peek_none: "ok i \<Longrightarrow> peek i = None \<longleftrightarrow> mb_manual_retries (view i) = []"
  by (auto simp: peek_view peek_next_manual_retry_def split: list.split)

end

interpretation mailbox_quiescence: quiescence_client mailbox_inv id mailbox_step
    request_auto_rescan peek_next_manual_retry request_manual_retry
    consume_auto_rescan "\<lambda>m. c_documents (counts m)"
  by unfold_locales (simp_all add: consume_auto_rescan_def counts_def)

section \<open>Properties of the mailbox\<close>

lemma caps_put_locked [simp]:
  "mb_document_capacity (put_document_locked msg m) = mb_document_capacity m"
  "mb_manual_capacity (put_document_locked msg m) = mb_manual_capacity m"
  "mb_terminal_ids (put_document_locked msg m) = mb_terminal_ids m"
  by (simp_all add: put_document_locked_def)

lemma caps_fold_put [simp]:
  "mb_document_capacity (fold put_document_locked msgs m) = mb_document_capacity m"
  "mb_manual_capacity (fold put_document_locked msgs m) = mb_manual_capacity m"
  "mb_terminal_ids (fold put_document_locked msgs m) = mb_terminal_ids m"
  by (induction msgs arbitrary: m) simp_all

lemma capacity_tombstone_all [simp]: "ti_capacity (tombstone_all rids t) = ti_capacity t"
  unfolding tombstone_all_def by (induction rids arbitrary: t) simp_all

lemma mailbox_step_caps [simp]:
  "mb_document_capacity (mailbox_step op m) = mb_document_capacity m"
  "mb_manual_capacity (mailbox_step op m) = mb_manual_capacity m"
  "ti_capacity (mb_terminal_ids (mailbox_step op m)) = ti_capacity (mb_terminal_ids m)"
  by (cases op; auto simp: put_document_def put_documents_def request_manual_retry_def bind_res_def
      keep_on_error_def request_auto_rescan_def consume_auto_rescan_def drain_documents_def
      ack_manual_retry_def cancel_manual_retries_def clear_def Let_def
      split: sum.splits option.splits)+

lemma mailbox_run_caps [simp]:
  "mb_document_capacity (fold mailbox_step ops m) = mb_document_capacity m"
  "mb_manual_capacity (fold mailbox_step ops m) = mb_manual_capacity m"
  "ti_capacity (mb_terminal_ids (fold mailbox_step ops m)) = ti_capacity (mb_terminal_ids m)"
  by (induction ops arbitrary: m) simp_all

text \<open>
  Whatever sequence of operations reaches a mailbox, malformed ones
  included, its three channels stay within the capacities it was built with, every queued document
  message and every pending manual request is well formed, a request id is pending at most once, and
  no id is pending and terminal at the same time.
\<close>

theorem mailbox_stays_bounded:
  fixes ops env dc mc
  defines "m \<equiv> fold mailbox_step ops (mailbox_init env dc mc)"
  shows "length (mb_documents m) \<le> nat (max 1 dc)
    \<and> length (mb_manual_retries m)
        \<le> nat (max 1 (case mc of None \<Rightarrow> manual_channel_capacity env | Some c \<Rightarrow> c))
    \<and> terminal_len (mb_terminal_ids m) \<le> 4096
    \<and> list_all valid_doc (mb_documents m)
    \<and> list_all (\<lambda>(rid, msg). valid_manual rid msg \<and> \<not> terminal_mem rid (mb_terminal_ids m))
        (mb_manual_retries m)
    \<and> distinct (pending_ids m)"
proof -
  have inv: "mailbox_inv m" unfolding m_def by (simp add: mailbox_run_inv)
  have caps: "mb_document_capacity m = nat (max 1 dc)"
    "mb_manual_capacity m
       = nat (max 1 (case mc of None \<Rightarrow> manual_channel_capacity env | Some c \<Rightarrow> c))"
    "ti_capacity (mb_terminal_ids m) = 4096"
    by (simp_all add: m_def mailbox_init_def terminal_init_def
        TERMINAL_MANUAL_REQUEST_IDS_CAPACITY_def)
  from inv caps show ?thesis by (simp add: mailbox_inv_def terminal_inv_def od_wf_def)
qed

text \<open>
  C5. A published document notification is never silently lost:
  until a consumer drains the documents, consumes the rescan flag or clears the mailbox, either the
  message is still queued or the auto-rescan flag, which makes the consumer rebuild it from
  \<open>doc_status\<close>, is set.
\<close>

theorem document_notification_not_lost:
  assumes "put_document msg m = Inr m'" and "\<forall>op\<in>set ops. \<not> consumes op"
  shows "msg \<in> set (mb_documents (fold mailbox_step ops m'))
    \<or> mb_auto_rescan_pending (fold mailbox_step ops m')"
  using recoverable_run [OF put_document_recoverable [OF assms(1)] assms(2)]
  by (simp add: recoverable_def)

text \<open>Sample messages for the witnesses.\<close>

definition ex_doc :: "string \<Rightarrow> ingress_msg" where
  "ex_doc d = \<lparr>m_kind = KDocument, m_doc_id = Some d, m_retry_failed = False, m_request_id = None\<rparr>"

definition ex_retry :: "string \<Rightarrow> ingress_msg" where
  "ex_retry r = \<lparr>m_kind = KRescan, m_doc_id = None, m_retry_failed = True, m_request_id = Some r\<rparr>"

lemma ex_msgs_valid [simp]:
  "d \<noteq> '''' \<Longrightarrow> valid_doc (ex_doc d)"
  "r \<noteq> '''' \<Longrightarrow> valid_manual r (ex_retry r)"
  by (simp_all add: ex_doc_def ex_retry_def validate_document_message_def validate_manual_request_def)

lemma document_notification_not_lost_witness:
  "let m' = fold mailbox_step [PutDocument (ex_doc ''d2''), AckManualRetry ''r'']
              (put_document_locked (ex_doc ''d1'') (mailbox_init None 1 None))
   in ex_doc ''d1'' \<in> set (mb_documents m') \<or> mb_auto_rescan_pending m'"
proof -
  have "put_document (ex_doc ''d1'') (mailbox_init None 1 None)
      = Inr (put_document_locked (ex_doc ''d1'') (mailbox_init None 1 None))"
    by (simp add: put_document_def)
  from document_notification_not_lost
      [OF this, of "[PutDocument (ex_doc ''d2''), AckManualRetry ''r'']"]
  show ?thesis by (simp add: Let_def)
qed

text \<open>
  Manual retries are sticky and first-in first-out: over any run
  without a cancel or a clear, the requests that were pending and were not acknowledged are still
  pending, in the same order and ahead of every request published meanwhile.
\<close>

theorem manual_retries_sticky_fifo:
  assumes "\<forall>op\<in>set ops. \<not> drops_manual op"
  shows "\<exists>newer. pending_ids (fold mailbox_step ops m)
    = filter (\<lambda>rid. AckManualRetry rid \<notin> set ops) (pending_ids m) @ newer"
  by (rule pending_run [OF assms])

text \<open>A mailbox with one pending request, for the witnesses.\<close>

definition ex_pending :: "string \<Rightarrow> mailbox" where
  "ex_pending r = mailbox_step (RequestManualRetry r (ex_retry r)) (mailbox_init None 8 None)"

lemma ex_pending_ids: "pending_ids (ex_pending ''a'') = [''a'']"
  by (simp add: ex_pending_def request_manual_retry_def mailbox_init_def terminal_init_def
      terminal_mem_def manual_channel_capacity_def DEFAULT_MAX_UNACKED_MANUAL_RETRIES_def)

lemma ex_pending_inv: "mailbox_inv (ex_pending r)"
  unfolding ex_pending_def by (rule mailbox_step_inv) simp

lemma ex_pending_caps:
  "ti_capacity (mb_terminal_ids (ex_pending r)) = 4096" "mb_manual_capacity (ex_pending r) = 64"
  unfolding ex_pending_def mailbox_step_caps
  by (simp_all add: mailbox_init_def terminal_init_def TERMINAL_MANUAL_REQUEST_IDS_CAPACITY_def
      manual_channel_capacity_def DEFAULT_MAX_UNACKED_MANUAL_RETRIES_def)

lemma manual_retries_sticky_fifo_witness:
  "\<exists>newer. pending_ids (fold mailbox_step
      [RequestManualRetry ''b'' (ex_retry ''b''), DrainDocuments None] (ex_pending ''a''))
    = [''a''] @ newer"
  using manual_retries_sticky_fifo
    [of "[RequestManualRetry ''b'' (ex_retry ''b''), DrainDocuments None]" "ex_pending ''a''"]
  by (simp only: ex_pending_ids) simp

text \<open>
  The bounded-window replay guard: after a pending request is
  acknowledged, publishing its id again is refused as already terminal for as long as fewer
  acknowledgements than the capacity of the terminal-id set have followed.
\<close>

theorem acked_retry_not_replayed:
  assumes "mailbox_inv m" and "rid \<in> set (pending_ids m)"
    and "length later < ti_capacity (mb_terminal_ids m)" and "valid_manual rid msg"
  shows "request_manual_retry rid msg
      (fold (\<lambda>r s. snd (ack_manual_retry r s)) (rid # later) m)
    = Inr (ALREADY_TERMINAL, fold (\<lambda>r s. snd (ack_manual_retry r s)) (rid # later) m)"
  by (rule request_terminal [OF mailbox_after_acks_replay [OF assms(1-3)] assms(4)])

lemma acked_retry_not_replayed_witness:
  "let m' = fold (\<lambda>r s. snd (ack_manual_retry r s)) [''a'', ''b''] (ex_pending ''a'')
   in request_manual_retry ''a'' (ex_retry ''a'') m' = Inr (ALREADY_TERMINAL, m')"
  using acked_retry_not_replayed [of "ex_pending ''a''" "''a''" "[''b'']" "ex_retry ''a''"]
  by (simp only: ex_pending_inv ex_pending_ids ex_pending_caps Let_def) simp

text \<open>
  A destructive clear tombstones: every request pending at the clear
  is refused afterwards, and the three channels are empty, provided the manual channel fits the
  terminal-id set.
\<close>

theorem cleared_retry_not_replayed:
  assumes "mailbox_inv m" and "rid \<in> set (pending_ids m)"
    and "mb_manual_capacity m \<le> ti_capacity (mb_terminal_ids m)" and "valid_manual rid msg"
  shows "request_manual_retry rid msg (clear m) = Inr (ALREADY_TERMINAL, clear m)
    \<and> \<not> has_work (clear m)"
proof -
  have "terminal_mem rid (tombstone_all (pending_ids m) (mb_terminal_ids m))"
  proof (rule tombstone_all_mem)
    show "\<forall>r\<in>set (pending_ids m). \<not> terminal_mem r (mb_terminal_ids m)"
      using pending_not_terminal [OF assms(1)] by blast
  qed (use assms in \<open>auto simp: mailbox_inv_def od_wf_def\<close>)
  then have "terminal_mem rid (mb_terminal_ids (clear m))" by (simp add: clear_def)
  from request_terminal [OF this assms(4)] show ?thesis by (simp add: has_work_def clear_def)
qed

lemma cleared_retry_not_replayed_witness:
  "request_manual_retry ''a'' (ex_retry ''a'') (clear (ex_pending ''a''))
     = Inr (ALREADY_TERMINAL, clear (ex_pending ''a'')) \<and> \<not> has_work (clear (ex_pending ''a''))"
  using cleared_retry_not_replayed [of "ex_pending ''a''" "''a''" "ex_retry ''a''"]
  by (simp only: ex_pending_inv ex_pending_ids ex_pending_caps) simp

end
