(* ===== verification/IngressHub.thy ===== *)
theory IngressHub
  imports IngressContract
begin

text \<open>
  The two deployments of the ingress in \<open>ontorag/kg/pipeline_ingress.py\<close>: the Manager-side
  \<open>PipelineIngressHub\<close> with its per-workspace client view \<open>ManagerPipelineIngress\<close>, and the
  single-process \<open>AsyncioPipelineIngress\<close>. Both are shown to implement the mailbox.
\<close>

section \<open>The hub\<close>

type_synonym ingress_hub = "(string, mailbox) odict"

text \<open>\<open>_mailbox(namespace)\<close> creates the mailbox on first use. \<open>env\<close> is the configured bound.\<close>

definition hub_mailbox :: "int option \<Rightarrow> string \<Rightarrow> ingress_hub \<Rightarrow> mailbox \<times> ingress_hub" where
  "hub_mailbox env namespace hub =
     (case map_of hub namespace of
        Some mailbox \<Rightarrow> (mailbox, hub)
      | None \<Rightarrow> (let mailbox = mailbox_init env DOCUMENT_CHANNEL_CAPACITY None
                 in (mailbox, od_set namespace mailbox hub)))"

text \<open>
  A method call on the mailbox held in the dictionary mutates that object, so its new state is what
  the dictionary holds afterwards, also when the method raises (it raises before writing).
\<close>

definition hub_call :: "int option \<Rightarrow> string \<Rightarrow> (mailbox \<Rightarrow> 'r \<times> mailbox) \<Rightarrow> ingress_hub
    \<Rightarrow> 'r \<times> ingress_hub" where
  "hub_call env namespace f hub =
     (case hub_mailbox env namespace hub of (mailbox, hub') \<Rightarrow>
        (case f mailbox of (r, mailbox') \<Rightarrow> (r, od_set namespace mailbox' hub')))"

definition as_call :: "('s \<Rightarrow> ('r \<times> 's) res) \<Rightarrow> 's \<Rightarrow> 'r res \<times> 's" where
  "as_call f s = (case f s of Inl e \<Rightarrow> (Inl e, s) | Inr (r, s') \<Rightarrow> (Inr r, s'))"

definition hub_put_document :: "int option \<Rightarrow> string \<Rightarrow> ingress_msg \<Rightarrow> ingress_hub
    \<Rightarrow> unit res \<times> ingress_hub" where
  "hub_put_document env namespace msg =
     hub_call env namespace (as_call (\<lambda>m. map_sum id (Pair ()) (put_document msg m)))"

definition hub_put_documents :: "int option \<Rightarrow> string \<Rightarrow> ingress_msg list \<Rightarrow> ingress_hub
    \<Rightarrow> unit res \<times> ingress_hub" where
  "hub_put_documents env namespace msgs =
     hub_call env namespace (as_call (\<lambda>m. map_sum id (Pair ()) (put_documents msgs m)))"

definition hub_request_auto_rescan :: "int option \<Rightarrow> string \<Rightarrow> ingress_hub \<Rightarrow> unit \<times> ingress_hub" where
  "hub_request_auto_rescan env namespace =
     hub_call env namespace (\<lambda>m. ((), request_auto_rescan m))"

definition hub_request_manual_retry :: "int option \<Rightarrow> string \<Rightarrow> string \<Rightarrow> ingress_msg \<Rightarrow> ingress_hub
    \<Rightarrow> publish_result res \<times> ingress_hub" where
  "hub_request_manual_retry env namespace request_id msg =
     hub_call env namespace (as_call (request_manual_retry request_id msg))"

definition hub_consume_auto_rescan :: "int option \<Rightarrow> string \<Rightarrow> ingress_hub \<Rightarrow> bool \<times> ingress_hub" where
  "hub_consume_auto_rescan env namespace = hub_call env namespace consume_auto_rescan"

definition hub_drain_documents :: "int option \<Rightarrow> string \<Rightarrow> int option \<Rightarrow> ingress_hub
    \<Rightarrow> ingress_msg list \<times> ingress_hub" where
  "hub_drain_documents env namespace limit = hub_call env namespace (drain_documents limit)"

definition hub_peek_next_manual_retry :: "int option \<Rightarrow> string \<Rightarrow> ingress_hub
    \<Rightarrow> ingress_msg option \<times> ingress_hub" where
  "hub_peek_next_manual_retry env namespace =
     hub_call env namespace (\<lambda>m. (peek_next_manual_retry m, m))"

definition hub_snapshot_manual_retries :: "int option \<Rightarrow> string \<Rightarrow> ingress_hub
    \<Rightarrow> ingress_msg list \<times> ingress_hub" where
  "hub_snapshot_manual_retries env namespace =
     hub_call env namespace (\<lambda>m. (snapshot_manual_retries m, m))"

definition hub_ack_manual_retry :: "int option \<Rightarrow> string \<Rightarrow> string \<Rightarrow> ingress_hub
    \<Rightarrow> bool \<times> ingress_hub" where
  "hub_ack_manual_retry env namespace request_id =
     hub_call env namespace (ack_manual_retry request_id)"

definition hub_cancel_manual_retries :: "int option \<Rightarrow> string \<Rightarrow> ingress_hub \<Rightarrow> nat \<times> ingress_hub" where
  "hub_cancel_manual_retries env namespace = hub_call env namespace cancel_manual_retries"

definition hub_clear :: "int option \<Rightarrow> string \<Rightarrow> ingress_hub \<Rightarrow> unit \<times> ingress_hub" where
  "hub_clear env namespace = hub_call env namespace (\<lambda>m. ((), clear m))"

definition hub_has_work :: "int option \<Rightarrow> string \<Rightarrow> ingress_hub \<Rightarrow> bool \<times> ingress_hub" where
  "hub_has_work env namespace = hub_call env namespace (\<lambda>m. (has_work m, m))"

definition hub_counts :: "int option \<Rightarrow> string \<Rightarrow> ingress_hub \<Rightarrow> ingress_counts \<times> ingress_hub" where
  "hub_counts env namespace = hub_call env namespace (\<lambda>m. (counts m, m))"

definition hub_view :: "int option \<Rightarrow> string \<Rightarrow> ingress_hub \<Rightarrow> mailbox" where
  "hub_view env namespace hub = fst (hub_mailbox env namespace hub)"

lemma hub_view_lookup:
  "hub_view env ns hub =
     (case map_of hub ns of Some m \<Rightarrow> m | None \<Rightarrow> mailbox_init env DOCUMENT_CHANNEL_CAPACITY None)"
  by (simp add: hub_view_def hub_mailbox_def Let_def split: option.split)

lemma hub_call_result: "fst (hub_call env ns f hub) = fst (f (hub_view env ns hub))"
  by (simp add: hub_call_def hub_view_def split: prod.split)

lemma hub_call_state:
  "snd (hub_call env ns f hub)
     = od_set ns (snd (f (hub_view env ns hub))) (snd (hub_mailbox env ns hub))"
  by (simp add: hub_call_def hub_view_def split: prod.split)

lemma hub_call_lookup:
  "map_of (snd (hub_call env ns f hub)) = (map_of hub)(ns \<mapsto> snd (f (hub_view env ns hub)))"
  by (simp add: hub_call_def hub_view_def hub_mailbox_def Let_def
      split: prod.split option.split)

lemma hub_call_view:
  "hub_view env n (snd (hub_call env ns f hub))
     = (if n = ns then snd (f (hub_view env ns hub)) else hub_view env n hub)"
  by (simp add: hub_view_lookup hub_call_lookup)

section \<open>The client view\<close>

text \<open>
  \<open>ManagerPipelineIngress\<close> binds a namespace to the hub. It validates before the remote call, so a
  malformed message never reaches the hub (and does not create the mailbox).
\<close>

definition mgr_put_document :: "int option \<Rightarrow> string \<Rightarrow> ingress_msg \<Rightarrow> ingress_hub
    \<Rightarrow> unit res \<times> ingress_hub" where
  "mgr_put_document env namespace msg hub =
     (case validate_document_message msg of
        Inl e \<Rightarrow> (Inl e, hub) | Inr _ \<Rightarrow> hub_put_document env namespace msg hub)"

definition mgr_put_documents :: "int option \<Rightarrow> string \<Rightarrow> ingress_msg list \<Rightarrow> ingress_hub
    \<Rightarrow> unit res \<times> ingress_hub" where
  "mgr_put_documents env namespace msgs hub =
     (case validate_documents msgs of
        Inl e \<Rightarrow> (Inl e, hub) | Inr _ \<Rightarrow> hub_put_documents env namespace msgs hub)"

definition mgr_request_manual_retry :: "int option \<Rightarrow> string \<Rightarrow> string \<Rightarrow> ingress_msg \<Rightarrow> ingress_hub
    \<Rightarrow> publish_result res \<times> ingress_hub" where
  "mgr_request_manual_retry env namespace request_id msg hub =
     (case validate_manual_request request_id msg of
        Inl e \<Rightarrow> (Inl e, hub) | Inr _ \<Rightarrow> hub_request_manual_retry env namespace request_id msg hub)"

text \<open>The other methods of the view forward to the hub unchanged.\<close>

fun mgr_step :: "int option \<Rightarrow> string \<Rightarrow> ingress_op \<Rightarrow> ingress_hub \<Rightarrow> ingress_hub" where
  "mgr_step env ns (PutDocument msg) hub = snd (mgr_put_document env ns msg hub)"
| "mgr_step env ns (PutDocuments msgs) hub = snd (mgr_put_documents env ns msgs hub)"
| "mgr_step env ns RequestAutoRescan hub = snd (hub_request_auto_rescan env ns hub)"
| "mgr_step env ns (RequestManualRetry rid msg) hub = snd (mgr_request_manual_retry env ns rid msg hub)"
| "mgr_step env ns ConsumeAutoRescan hub = snd (hub_consume_auto_rescan env ns hub)"
| "mgr_step env ns (DrainDocuments l) hub = snd (hub_drain_documents env ns l hub)"
| "mgr_step env ns (AckManualRetry rid) hub = snd (hub_ack_manual_retry env ns rid hub)"
| "mgr_step env ns CancelManualRetries hub = snd (hub_cancel_manual_retries env ns hub)"
| "mgr_step env ns Clear hub = snd (hub_clear env ns hub)"

definition hub_inv :: "ingress_hub \<Rightarrow> bool" where
  "hub_inv hub \<longleftrightarrow> list_all (\<lambda>(_, m). mailbox_inv m) hub"

lemma hub_inv_view: "hub_inv hub \<Longrightarrow> mailbox_inv (hub_view env ns hub)"
  by (auto simp: hub_inv_def hub_view_lookup list_all_iff dest: map_of_SomeD split: option.splits)

lemma hub_inv_call:
  assumes "hub_inv hub" and "mailbox_inv (snd (f (hub_view env ns hub)))"
  shows "hub_inv (snd (hub_call env ns f hub))"
  using assms
  by (auto simp: hub_call_def hub_view_def hub_mailbox_def hub_inv_def Let_def list_all_od_set
      split: prod.splits option.splits)

lemma as_call_snd: "snd (as_call f s) = keep_on_error s (map_sum id snd (f s))"
  by (auto simp: as_call_def split: sum.split prod.split)

text \<open>Every step of the view is the mailbox step of its namespace, made in the hub.\<close>

lemma mgr_step_call:
  "mgr_step env ns op hub = hub
     \<and> mailbox_step op (hub_view env ns hub) = hub_view env ns hub
   \<or> mgr_step env ns op hub = snd (hub_call env ns (\<lambda>m. ((), mailbox_step op m)) hub)"
proof (cases op)
  case (PutDocument msg)
  then show ?thesis
    using validate_document_cases [of msg]
    by (auto simp: mgr_put_document_def hub_put_document_def hub_call_state put_document_def
        as_call_snd)
next
  case (PutDocuments msgs)
  have eq: "validate_documents msgs = Inl ValueError \<or> validate_documents msgs = Inr ()"
    using validate_documents_cases validate_documents_iff by blast
  with PutDocuments show ?thesis
    by (auto simp: mgr_put_documents_def hub_put_documents_def hub_call_state put_documents_def
        as_call_snd)
next
  case (RequestManualRetry rid msg)
  then show ?thesis
    using validate_manual_cases [of rid msg]
    by (auto simp: mgr_request_manual_retry_def hub_request_manual_retry_def hub_call_state
        request_manual_retry_def as_call_snd)
qed (simp_all add: hub_request_auto_rescan_def hub_consume_auto_rescan_def hub_drain_documents_def
       hub_ack_manual_retry_def hub_cancel_manual_retries_def hub_clear_def hub_call_state)

lemma mgr_step_view:
  "hub_view env n (mgr_step env ns op hub)
     = (if n = ns then mailbox_step op (hub_view env ns hub) else hub_view env n hub)"
  using mgr_step_call [of env ns op hub] by (auto simp: hub_call_view)

lemma mgr_step_inv: "hub_inv hub \<Longrightarrow> hub_inv (mgr_step env ns op hub)"
  using mgr_step_call [of env ns op hub]
  by (auto intro!: hub_inv_call mailbox_step_inv hub_inv_view)

interpretation mgr_client: ingress_client hub_inv "hub_view env ns" "mgr_step env ns"
    "\<lambda>hub. snd (hub_request_auto_rescan env ns hub)"
    "\<lambda>hub. fst (hub_peek_next_manual_retry env ns hub)"
    "\<lambda>rid msg hub. (case mgr_request_manual_retry env ns rid msg hub of
        (Inl e, _) \<Rightarrow> Inl e | (Inr r, hub') \<Rightarrow> Inr (r, hub'))"
  for env ns
proof unfold_locales
  fix rid msg and hub :: ingress_hub
  show "map_sum id (map_prod id (hub_view env ns))
      (case mgr_request_manual_retry env ns rid msg hub of
        (Inl e, _) \<Rightarrow> Inl e | (Inr r, hub') \<Rightarrow> Inr (r, hub'))
      = request_manual_retry rid msg (hub_view env ns hub)"
  proof (cases "request_manual_retry rid msg (hub_view env ns hub)")
    case (Inl e)
    then have "validate_manual_request rid msg = Inl e"
      by (cases "validate_manual_request rid msg")
        (auto simp: request_manual_retry_def split: if_splits)
    with Inl show ?thesis by (simp add: mgr_request_manual_retry_def)
  next
    case (Inr p)
    then have "valid_manual rid msg"
      by (auto simp: request_manual_retry_def bind_res_Inr_iff)
    with Inr show ?thesis
      using hub_call_view [of env ns ns "as_call (request_manual_retry rid msg)" hub]
        hub_call_result [of env ns "as_call (request_manual_retry rid msg)" hub]
      by (cases p) (auto simp: mgr_request_manual_retry_def hub_request_manual_retry_def as_call_def
          split: prod.split)
  qed
qed (simp_all add: hub_inv_view mgr_step_inv mgr_step_view hub_peek_next_manual_retry_def
      hub_call_result)

interpretation mgr_quiescence: quiescence_client hub_inv "hub_view env ns" "mgr_step env ns"
    "\<lambda>hub. snd (hub_request_auto_rescan env ns hub)"
    "\<lambda>hub. fst (hub_peek_next_manual_retry env ns hub)"
    "\<lambda>rid msg hub. (case mgr_request_manual_retry env ns rid msg hub of
        (Inl e, _) \<Rightarrow> Inl e | (Inr r, hub') \<Rightarrow> Inr (r, hub'))"
    "hub_consume_auto_rescan env ns"
    "\<lambda>hub. c_documents (fst (hub_counts env ns hub))"
  for env ns
  by unfold_locales
    (simp_all add: hub_consume_auto_rescan_def hub_counts_def hub_call_result consume_auto_rescan_def counts_def)

section \<open>Workspace isolation\<close>

lemma mgr_run_view:
  "hub_view env ns (fold (\<lambda>(n, op). mgr_step env n op) ops hub)
     = fold mailbox_step (map snd (filter (\<lambda>(n, _). n = ns) ops)) (hub_view env ns hub)"
  by (induction ops arbitrary: hub) (auto simp: mgr_step_view)

text \<open>
  One hub serves every workspace: however the clients of all workspaces
  interleave, what a workspace sees in the hub is what its own operations would have produced on a
  mailbox of its own, created with the default capacities on first use.
\<close>

theorem workspaces_isolated:
  "hub_view env ns (fold (\<lambda>(n, op). mgr_step env n op) ops [])
     = fold mailbox_step (map snd (filter (\<lambda>(n, _). n = ns) ops))
         (mailbox_init env DOCUMENT_CHANNEL_CAPACITY None)"
  by (simp add: mgr_run_view) (simp add: hub_view_lookup)

end
