(* ===== verification/IngressAsyncio.thy ===== *)
theory IngressAsyncio
  imports IngressContract
begin

text \<open>
  \<open>AsyncioPipelineIngress\<close> of \<open>ontorag/kg/pipeline_ingress.py\<close>: the single-process ingress. Its
  methods are synchronous on one event loop, so each is one step; beside the mailbox's channels it
  keeps the owning loop and the event its waiters sleep on. It implements the mailbox, and the event
  is set exactly when there is work, so no wake-up is lost.
\<close>

record asyncio_ingress =
  ai_owning_loop :: nat
  ai_document_capacity :: nat
  ai_manual_capacity :: nat
  ai_document_messages :: "ingress_msg list"
  ai_document_overflows :: nat
  ai_auto_rescan_pending :: bool
  ai_manual_retries :: "(string, ingress_msg) odict"
  ai_terminal_ids :: terminal_ids
  ai_work_event :: bool

definition ai_init :: "int option \<Rightarrow> nat \<Rightarrow> int \<Rightarrow> int option \<Rightarrow> asyncio_ingress" where
  "ai_init env running_loop document_capacity manual_capacity =
     \<lparr>ai_owning_loop = running_loop,
      ai_document_capacity = nat (max 1 document_capacity),
      ai_manual_capacity =
        nat (max 1 (case manual_capacity of
                      None \<Rightarrow> manual_channel_capacity env | Some c \<Rightarrow> c)),
      ai_document_messages = [],
      ai_document_overflows = 0,
      ai_auto_rescan_pending = False,
      ai_manual_retries = [],
      ai_terminal_ids = terminal_init TERMINAL_MANUAL_REQUEST_IDS_CAPACITY,
      ai_work_event = False\<rparr>"

definition ai_has_work :: "asyncio_ingress \<Rightarrow> bool" where
  "ai_has_work a \<longleftrightarrow>
     ai_document_messages a \<noteq> [] \<or> ai_auto_rescan_pending a \<or> ai_manual_retries a \<noteq> []"

definition ai_maybe_clear_event :: "asyncio_ingress \<Rightarrow> asyncio_ingress" where
  "ai_maybe_clear_event a = (if \<not> ai_has_work a then a\<lparr>ai_work_event := False\<rparr> else a)"

definition ai_rebind_to_current_loop :: "nat \<Rightarrow> asyncio_ingress \<Rightarrow> asyncio_ingress" where
  "ai_rebind_to_current_loop running_loop a =
     (let a1 = a\<lparr>ai_owning_loop := running_loop,
                 ai_document_messages := fold (\<lambda>msg q. q @ [msg]) (ai_document_messages a) [],
                 ai_work_event := False\<rparr>
      in if ai_has_work a1 then a1\<lparr>ai_work_event := True\<rparr> else a1)"

definition ai_put_document :: "ingress_msg \<Rightarrow> asyncio_ingress \<Rightarrow> asyncio_ingress res" where
  "ai_put_document msg a =
     bind_res (validate_document_message msg) (\<lambda>_.
       let a1 = (if length (ai_document_messages a) \<ge> ai_document_capacity a
                 then a\<lparr>ai_document_overflows := Suc (ai_document_overflows a),
                        ai_auto_rescan_pending := True\<rparr>
                 else a\<lparr>ai_document_messages := ai_document_messages a @ [msg]\<rparr>)
       in Inr (a1\<lparr>ai_work_event := True\<rparr>))"

fun ai_put_each :: "ingress_msg list \<Rightarrow> asyncio_ingress \<Rightarrow> asyncio_ingress res" where
  "ai_put_each [] a = Inr a"
| "ai_put_each (msg # msgs) a = bind_res (ai_put_document msg a) (ai_put_each msgs)"

definition ai_put_documents :: "ingress_msg list \<Rightarrow> asyncio_ingress \<Rightarrow> asyncio_ingress res" where
  "ai_put_documents msgs a = bind_res (validate_documents msgs) (\<lambda>_. ai_put_each msgs a)"

definition ai_request_auto_rescan :: "asyncio_ingress \<Rightarrow> asyncio_ingress" where
  "ai_request_auto_rescan a = a\<lparr>ai_auto_rescan_pending := True, ai_work_event := True\<rparr>"

definition ai_request_manual_retry ::
    "string \<Rightarrow> ingress_msg \<Rightarrow> asyncio_ingress \<Rightarrow> (publish_result \<times> asyncio_ingress) res" where
  "ai_request_manual_retry request_id msg a =
     bind_res (validate_manual_request request_id msg) (\<lambda>_. Inr
       (if terminal_mem request_id (ai_terminal_ids a) then (ALREADY_TERMINAL, a)
        else if map_of (ai_manual_retries a) request_id = None then
          (if length (ai_manual_retries a) \<ge> ai_manual_capacity a then (CAPACITY_EXCEEDED, a)
           else (ACCEPTED,
                 a\<lparr>ai_manual_retries := od_set request_id msg (ai_manual_retries a),
                   ai_work_event := True\<rparr>))
        else (ACCEPTED, a)))"

definition ai_consume_auto_rescan :: "asyncio_ingress \<Rightarrow> bool \<times> asyncio_ingress" where
  "ai_consume_auto_rescan a =
     (ai_auto_rescan_pending a, ai_maybe_clear_event (a\<lparr>ai_auto_rescan_pending := False\<rparr>))"

text \<open>\<open>await get_document()\<close>: \<open>None\<close> while the queue is empty (the caller stays suspended).\<close>

definition ai_get_document :: "asyncio_ingress \<Rightarrow> (ingress_msg \<times> asyncio_ingress) option" where
  "ai_get_document a =
     (case ai_document_messages a of
        [] \<Rightarrow> None
      | msg # rest \<Rightarrow> Some (msg, ai_maybe_clear_event (a\<lparr>ai_document_messages := rest\<rparr>)))"

fun ai_drain_loop :: "int option \<Rightarrow> ingress_msg list \<Rightarrow> ingress_msg list
    \<Rightarrow> ingress_msg list \<times> ingress_msg list" where
  "ai_drain_loop limit drained [] = (drained, [])"
| "ai_drain_loop limit drained (msg # queue) =
     (if limit = None \<or> int (length drained) < the limit
      then ai_drain_loop limit (drained @ [msg]) queue
      else (drained, msg # queue))"

definition ai_drain_documents :: "int option \<Rightarrow> asyncio_ingress
    \<Rightarrow> ingress_msg list \<times> asyncio_ingress" where
  "ai_drain_documents limit a =
     (case ai_drain_loop limit [] (ai_document_messages a) of (drained, queue) \<Rightarrow>
        (drained, ai_maybe_clear_event (a\<lparr>ai_document_messages := queue\<rparr>)))"

definition ai_peek_next_manual_retry :: "asyncio_ingress \<Rightarrow> ingress_msg option" where
  "ai_peek_next_manual_retry a =
     (case ai_manual_retries a of [] \<Rightarrow> None | (_, msg) # _ \<Rightarrow> Some msg)"

definition ai_snapshot_manual_retries :: "asyncio_ingress \<Rightarrow> ingress_msg list" where
  "ai_snapshot_manual_retries a = map snd (ai_manual_retries a)"

definition ai_ack_manual_retry :: "string \<Rightarrow> asyncio_ingress \<Rightarrow> bool \<times> asyncio_ingress" where
  "ai_ack_manual_retry request_id a =
     (True, ai_maybe_clear_event
        (a\<lparr>ai_manual_retries := od_del request_id (ai_manual_retries a),
           ai_terminal_ids := terminal_add request_id RETRY_ACKED (ai_terminal_ids a)\<rparr>))"

definition ai_cancel_manual_retries :: "asyncio_ingress \<Rightarrow> nat \<times> asyncio_ingress" where
  "ai_cancel_manual_retries a =
     (length (ai_manual_retries a),
      ai_maybe_clear_event
        (a\<lparr>ai_terminal_ids := tombstone_all (od_keys (ai_manual_retries a)) (ai_terminal_ids a),
           ai_manual_retries := []\<rparr>))"

definition ai_clear :: "asyncio_ingress \<Rightarrow> asyncio_ingress" where
  "ai_clear a =
     (let a1 = a\<lparr>ai_terminal_ids := tombstone_all (od_keys (ai_manual_retries a)) (ai_terminal_ids a),
                 ai_manual_retries := []\<rparr>;
          a2 = snd (ai_drain_documents None a1)
      in ai_maybe_clear_event (a2\<lparr>ai_auto_rescan_pending := False\<rparr>))"

definition ai_counts :: "asyncio_ingress \<Rightarrow> ingress_counts" where
  "ai_counts a =
     \<lparr>c_documents = length (ai_document_messages a),
      c_document_overflows = ai_document_overflows a,
      c_auto_rescan_pending = ai_auto_rescan_pending a,
      c_manual_retries = length (ai_manual_retries a),
      c_manual_retries_capacity = ai_manual_capacity a,
      c_terminal_manual_request_ids = terminal_len (ai_terminal_ids a)\<rparr>"

fun ai_step :: "ingress_op \<Rightarrow> asyncio_ingress \<Rightarrow> asyncio_ingress" where
  "ai_step (PutDocument msg) a = keep_on_error a (ai_put_document msg a)"
| "ai_step (PutDocuments msgs) a = keep_on_error a (ai_put_documents msgs a)"
| "ai_step RequestAutoRescan a = ai_request_auto_rescan a"
| "ai_step (RequestManualRetry rid msg) a =
     keep_on_error a (map_sum id snd (ai_request_manual_retry rid msg a))"
| "ai_step ConsumeAutoRescan a = snd (ai_consume_auto_rescan a)"
| "ai_step (DrainDocuments l) a = snd (ai_drain_documents l a)"
| "ai_step (AckManualRetry rid) a = snd (ai_ack_manual_retry rid a)"
| "ai_step CancelManualRetries a = snd (ai_cancel_manual_retries a)"
| "ai_step Clear a = ai_clear a"

section \<open>The asyncio ingress implements the mailbox\<close>

definition ai_view :: "asyncio_ingress \<Rightarrow> mailbox" where
  "ai_view a =
     \<lparr>mb_document_capacity = ai_document_capacity a,
      mb_manual_capacity = ai_manual_capacity a,
      mb_documents = ai_document_messages a,
      mb_document_overflows = ai_document_overflows a,
      mb_auto_rescan_pending = ai_auto_rescan_pending a,
      mb_manual_retries = ai_manual_retries a,
      mb_terminal_ids = ai_terminal_ids a\<rparr>"

lemma ai_view_maybe_clear [simp]: "ai_view (ai_maybe_clear_event a) = ai_view a"
  by (simp add: ai_view_def ai_maybe_clear_event_def)

lemma ai_has_work_view: "ai_has_work a \<longleftrightarrow> has_work (ai_view a)"
  by (simp add: ai_has_work_def has_work_def ai_view_def)

lemma ai_put_document_view:
  "map_sum id ai_view (ai_put_document msg a) = put_document msg (ai_view a)"
  using validate_document_cases [of msg]
  by (auto simp: ai_put_document_def put_document_def put_document_locked_def ai_view_def Let_def)

lemma ai_put_each_view:
  "list_all valid_doc msgs \<Longrightarrow>
   map_sum id ai_view (ai_put_each msgs a) = Inr (fold put_document_locked msgs (ai_view a))"
proof (induction msgs arbitrary: a)
  case (Cons msg msgs)
  have "map_sum id ai_view (ai_put_document msg a) = Inr (put_document_locked msg (ai_view a))"
    using Cons.prems by (simp add: ai_put_document_view put_document_def)
  then obtain a' where "ai_put_document msg a = Inr a'"
    and "ai_view a' = put_document_locked msg (ai_view a)"
    by (cases "ai_put_document msg a") auto
  with Cons show ?case by simp
qed simp

lemma ai_put_documents_view:
  "map_sum id ai_view (ai_put_documents msgs a) = put_documents msgs (ai_view a)"
  using validate_documents_cases [of msgs] validate_documents_iff [of msgs]
  by (auto simp: ai_put_documents_def put_documents_def ai_put_each_view)

lemma ai_request_manual_view:
  "map_sum id (map_prod id ai_view) (ai_request_manual_retry rid msg a)
     = request_manual_retry rid msg (ai_view a)"
  using validate_manual_cases [of rid msg]
  by (auto simp: ai_request_manual_retry_def request_manual_retry_def ai_view_def)

lemma ai_drain_loop_None: "ai_drain_loop None d q = (d @ q, [])"
  by (induction q arbitrary: d) auto

lemma ai_drain_loop_Some:
  "ai_drain_loop (Some l) d q
     = (d @ take (nat (l - int (length d))) q, drop (nat (l - int (length d))) q)"
proof (induction q arbitrary: d)
  case (Cons x q)
  show ?case
  proof (cases "int (length d) < l")
    case True
    then have "nat (l - int (length d)) = Suc (nat (l - int (length (d @ [x]))))" by simp
    with True show ?thesis by (simp add: Cons.IH)
  qed simp
qed simp

lemma ai_drain_view:
  "map_prod id ai_view (ai_drain_documents l a) = drain_documents l (ai_view a)"
  by (cases l)
    (auto simp: ai_drain_documents_def drain_documents_def ai_drain_loop_None ai_drain_loop_Some
      Let_def ai_view_def ai_maybe_clear_event_def max_def)

lemma map_keep_on_error:
  "map_sum id v r = r' \<Longrightarrow> v (keep_on_error s r) = keep_on_error (v s) r'"
  by (cases r) auto

lemma ai_view_step: "ai_view (ai_step op a) = mailbox_step op (ai_view a)"
proof (cases op)
  case (PutDocument msg)
  then show ?thesis by (simp add: map_keep_on_error [OF ai_put_document_view])
next
  case (PutDocuments msgs)
  then show ?thesis by (simp add: map_keep_on_error [OF ai_put_documents_view])
next
  case (RequestManualRetry rid msg)
  show ?thesis
    using ai_request_manual_view [of rid msg a] RequestManualRetry
    by (cases "ai_request_manual_retry rid msg a") (auto simp flip: ai_request_manual_view)
next
  case (DrainDocuments l)
  then show ?thesis using ai_drain_view [of l a] by (auto simp flip: ai_drain_view)
next
  case Clear
  then show ?thesis
    by (simp add: ai_clear_def clear_def Let_def ai_drain_documents_def ai_drain_loop_None)
      (simp add: ai_view_def ai_maybe_clear_event_def)
qed (simp_all add: ai_view_def request_auto_rescan_def ai_request_auto_rescan_def
       consume_auto_rescan_def ai_consume_auto_rescan_def ack_manual_retry_def
       ai_ack_manual_retry_def cancel_manual_retries_def ai_cancel_manual_retries_def
       ai_maybe_clear_event_def)

definition ai_inv :: "asyncio_ingress \<Rightarrow> bool" where
  "ai_inv a \<longleftrightarrow> mailbox_inv (ai_view a)"

interpretation ai_client: ingress_client ai_inv ai_view ai_step
    ai_request_auto_rescan ai_peek_next_manual_retry ai_request_manual_retry
proof unfold_locales
  fix a op
  assume "ai_inv a"
  then show "ai_inv (ai_step op a)" by (simp add: ai_inv_def ai_view_step mailbox_step_inv)
next
  fix a
  show "ai_peek_next_manual_retry a = peek_next_manual_retry (ai_view a)"
    by (simp add: ai_peek_next_manual_retry_def peek_next_manual_retry_def ai_view_def)
qed (simp_all add: ai_inv_def ai_view_step ai_request_manual_view)

interpretation ai_quiescence: quiescence_client ai_inv ai_view ai_step
    ai_request_auto_rescan ai_peek_next_manual_retry ai_request_manual_retry
    ai_consume_auto_rescan "\<lambda>a. c_documents (ai_counts a)"
  by unfold_locales (simp_all add: ai_consume_auto_rescan_def ai_counts_def ai_view_def)

section \<open>No wake-up is lost\<close>

definition ai_event_ok :: "asyncio_ingress \<Rightarrow> bool" where
  "ai_event_ok a \<longleftrightarrow> ai_work_event a = ai_has_work a"

lemma ai_event_ok_maybe_clear:
  "ai_event_ok (ai_maybe_clear_event a) \<longleftrightarrow> (ai_has_work a \<longrightarrow> ai_work_event a)"
  by (auto simp: ai_event_ok_def ai_maybe_clear_event_def ai_has_work_def)

lemma ai_event_okI:
  "(ai_has_work a \<Longrightarrow> ai_work_event a) \<Longrightarrow> ai_event_ok (ai_maybe_clear_event a)"
  by (simp add: ai_event_ok_maybe_clear)

lemma ai_event_put: "ai_put_document msg a = Inr a' \<Longrightarrow> ai_event_ok a'"
  by (auto simp: ai_put_document_def bind_res_Inr_iff Let_def ai_event_ok_def ai_has_work_def
      split: if_splits)

lemma ai_event_put_each: "ai_event_ok a \<Longrightarrow> ai_put_each msgs a = Inr a' \<Longrightarrow> ai_event_ok a'"
  by (induction msgs arbitrary: a) (auto simp: bind_res_Inr_iff dest: ai_event_put)

lemma ai_drain_subset: "ai_drain_loop l d q = (d', q') \<Longrightarrow> q' \<noteq> [] \<Longrightarrow> q \<noteq> []"
  by (cases q) auto

lemma ai_event_drain: "ai_event_ok a \<Longrightarrow> ai_event_ok (snd (ai_drain_documents l a))"
  by (auto simp: ai_drain_documents_def ai_event_ok_maybe_clear split: prod.split)
    (auto simp: ai_event_ok_def ai_has_work_def dest: ai_drain_subset)

lemma ai_event_step: "ai_event_ok a \<Longrightarrow> ai_event_ok (ai_step op a)"
proof (cases op)
  case (PutDocument msg)
  assume "ai_event_ok a"
  with PutDocument show ?thesis by (cases "ai_put_document msg a") (auto intro: ai_event_put)
next
  case (PutDocuments msgs)
  assume "ai_event_ok a"
  with PutDocuments show ?thesis
    by (cases "ai_put_documents msgs a")
      (auto simp: ai_put_documents_def bind_res_Inr_iff intro: ai_event_put_each)
next
  case (RequestManualRetry rid msg)
  assume "ai_event_ok a"
  with RequestManualRetry show ?thesis
    using validate_manual_cases [of rid msg]
    by (auto simp: ai_request_manual_retry_def ai_event_ok_def ai_has_work_def od_set_new)
next
  case (DrainDocuments l)
  assume "ai_event_ok a"
  with DrainDocuments show ?thesis by (simp add: ai_event_drain)
next
  case (AckManualRetry rid)
  assume "ai_event_ok a"
  with AckManualRetry show ?thesis
    by (auto simp: ai_ack_manual_retry_def intro!: ai_event_okI)
      (auto simp: ai_event_ok_def ai_has_work_def)
next
  case ConsumeAutoRescan
  assume "ai_event_ok a"
  with ConsumeAutoRescan show ?thesis
    by (auto simp: ai_consume_auto_rescan_def intro!: ai_event_okI)
      (auto simp: ai_event_ok_def ai_has_work_def)
next
  case CancelManualRetries
  assume "ai_event_ok a"
  with CancelManualRetries show ?thesis
    by (auto simp: ai_cancel_manual_retries_def intro!: ai_event_okI)
      (auto simp: ai_event_ok_def ai_has_work_def)
next
  case Clear
  then show ?thesis
    by (auto simp: ai_clear_def Let_def ai_drain_documents_def ai_drain_loop_None
        ai_maybe_clear_event_def ai_has_work_def ai_event_ok_def)
qed (auto simp: ai_request_auto_rescan_def ai_event_ok_def ai_has_work_def)

lemma ai_event_run: "ai_event_ok a \<Longrightarrow> ai_event_ok (fold ai_step ops a)"
  by (induction ops arbitrary: a) (simp_all add: ai_event_step)

lemma ai_event_init: "ai_event_ok (ai_init env l dc mc)"
  by (simp add: ai_event_ok_def ai_init_def ai_has_work_def)

lemma ai_inv_init: "ai_inv (ai_init env l dc mc)"
proof -
  have "ai_view (ai_init env l dc mc) = mailbox_init env dc mc"
    by (simp add: ai_view_def ai_init_def mailbox_init_def)
  then show ?thesis by (simp add: ai_inv_def)
qed

lemma ai_rebind_event: "ai_event_ok (ai_rebind_to_current_loop l a)"
  by (simp add: ai_rebind_to_current_loop_def Let_def ai_event_ok_def ai_has_work_def)

lemma fold_append_one: "fold (\<lambda>x q. q @ [x]) xs ys = ys @ xs"
  by (induction xs arbitrary: ys) auto

lemma ai_rebind_view: "ai_view (ai_rebind_to_current_loop l a) = ai_view a"
  by (simp add: ai_rebind_to_current_loop_def Let_def ai_view_def fold_append_one)

lemma ai_get_document_view:
  "ai_get_document a = Some (msg, a') \<Longrightarrow>
   mb_documents (ai_view a) = msg # mb_documents (ai_view a')
   \<and> ai_view a' = (ai_view a)\<lparr>mb_documents := mb_documents (ai_view a')\<rparr>"
  by (auto simp: ai_get_document_def ai_view_def ai_maybe_clear_event_def split: list.splits if_splits)

lemma ai_get_document_event:
  "ai_event_ok a \<Longrightarrow> ai_get_document a = Some (msg, a') \<Longrightarrow> ai_event_ok a'"
  by (auto simp: ai_get_document_def ai_event_ok_maybe_clear split: list.splits)
    (auto simp: ai_event_ok_def ai_has_work_def)

section \<open>Calls and their answers\<close>

text \<open>
  Every method as a call with its answer: the operations of the protocol, and the ones beside them. A
  \<open>get_document\<close> that answers \<open>None\<close> stays suspended. The mailbox has no \<open>get_document\<close>: its consumer drains
  one document; and it belongs to no loop, so it has nothing to rebind.
\<close>

datatype ingress_call =
    Op ingress_op
  | GetDocument
  | RebindLoop nat
  | PeekManual
  | SnapshotManual
  | HasWork
  | Counts

datatype ingress_answer =
    Done
  | Raised py_error
  | Published publish_result
  | Flag bool
  | Number nat
  | Messages "ingress_msg list"
  | NextMessage "ingress_msg option"
  | Observed ingress_counts

definition answer_of :: "'a res \<Rightarrow> ('a \<Rightarrow> ingress_answer) \<Rightarrow> ingress_answer" where
  "answer_of r f = (case r of Inl e \<Rightarrow> Raised e | Inr x \<Rightarrow> f x)"

fun ai_answer :: "ingress_op \<Rightarrow> asyncio_ingress \<Rightarrow> ingress_answer" where
  "ai_answer (PutDocument msg) a = answer_of (ai_put_document msg a) (\<lambda>_. Done)"
| "ai_answer (PutDocuments msgs) a = answer_of (ai_put_documents msgs a) (\<lambda>_. Done)"
| "ai_answer RequestAutoRescan a = Done"
| "ai_answer (RequestManualRetry rid msg) a = answer_of (ai_request_manual_retry rid msg a) (Published \<circ> fst)"
| "ai_answer ConsumeAutoRescan a = Flag (fst (ai_consume_auto_rescan a))"
| "ai_answer (DrainDocuments l) a = Messages (fst (ai_drain_documents l a))"
| "ai_answer (AckManualRetry rid) a = Flag (fst (ai_ack_manual_retry rid a))"
| "ai_answer CancelManualRetries a = Number (fst (ai_cancel_manual_retries a))"
| "ai_answer Clear a = Done"

fun ai_call :: "ingress_call \<Rightarrow> asyncio_ingress \<Rightarrow> ingress_answer \<times> asyncio_ingress" where
  "ai_call (Op op) a = (ai_answer op a, ai_step op a)"
| "ai_call GetDocument a =
     (case ai_get_document a of None \<Rightarrow> (NextMessage None, a) | Some (msg, a') \<Rightarrow> (NextMessage (Some msg), a'))"
| "ai_call (RebindLoop l) a = (Done, ai_rebind_to_current_loop l a)"
| "ai_call PeekManual a = (NextMessage (ai_peek_next_manual_retry a), a)"
| "ai_call SnapshotManual a = (Messages (ai_snapshot_manual_retries a), a)"
| "ai_call HasWork a = (Flag (ai_has_work a), a)"
| "ai_call Counts a = (Observed (ai_counts a), a)"

fun mailbox_answer :: "ingress_op \<Rightarrow> mailbox \<Rightarrow> ingress_answer" where
  "mailbox_answer (PutDocument msg) m = answer_of (put_document msg m) (\<lambda>_. Done)"
| "mailbox_answer (PutDocuments msgs) m = answer_of (put_documents msgs m) (\<lambda>_. Done)"
| "mailbox_answer RequestAutoRescan m = Done"
| "mailbox_answer (RequestManualRetry rid msg) m = answer_of (request_manual_retry rid msg m) (Published \<circ> fst)"
| "mailbox_answer ConsumeAutoRescan m = Flag (fst (consume_auto_rescan m))"
| "mailbox_answer (DrainDocuments l) m = Messages (fst (drain_documents l m))"
| "mailbox_answer (AckManualRetry rid) m = Flag (fst (ack_manual_retry rid m))"
| "mailbox_answer CancelManualRetries m = Number (fst (cancel_manual_retries m))"
| "mailbox_answer Clear m = Done"

fun mailbox_call :: "ingress_call \<Rightarrow> mailbox \<Rightarrow> ingress_answer \<times> mailbox" where
  "mailbox_call (Op op) m = (mailbox_answer op m, mailbox_step op m)"
| "mailbox_call GetDocument m =
     (case drain_documents (Some 1) m of (ds, m') \<Rightarrow>
        (NextMessage (case ds of [] \<Rightarrow> None | d # _ \<Rightarrow> Some d), m'))"
| "mailbox_call (RebindLoop l) m = (Done, m)"
| "mailbox_call PeekManual m = (NextMessage (peek_next_manual_retry m), m)"
| "mailbox_call SnapshotManual m = (Messages (snapshot_manual_retries m), m)"
| "mailbox_call HasWork m = (Flag (has_work m), m)"
| "mailbox_call Counts m = (Observed (counts m), m)"

fun run_calls :: "('c \<Rightarrow> 's \<Rightarrow> 'r \<times> 's) \<Rightarrow> 'c list \<Rightarrow> 's \<Rightarrow> 'r list \<times> 's" where
  "run_calls f [] s = ([], s)"
| "run_calls f (c # cs) s =
     (case f c s of (r, s') \<Rightarrow> (case run_calls f cs s' of (rs, s'') \<Rightarrow> (r # rs, s'')))"

lemma answer_of_view:
  "map_sum id v r = r' \<Longrightarrow> (\<And>x. r = Inr x \<Longrightarrow> f x = g (v x)) \<Longrightarrow> answer_of r f = answer_of r' g"
  by (cases r) (auto simp: answer_of_def)

lemma ai_answer_view: "ai_answer op a = mailbox_answer op (ai_view a)"
proof (cases op)
  case (PutDocument msg)
  then show ?thesis using answer_of_view [OF ai_put_document_view] by simp
next
  case (PutDocuments msgs)
  then show ?thesis using answer_of_view [OF ai_put_documents_view] by simp
next
  case (RequestManualRetry rid msg)
  then show ?thesis using answer_of_view [OF ai_request_manual_view] by simp
next
  case (DrainDocuments l)
  then show ?thesis by (simp flip: ai_drain_view)
qed (simp_all add: ai_consume_auto_rescan_def consume_auto_rescan_def ai_ack_manual_retry_def ack_manual_retry_def
       ai_cancel_manual_retries_def cancel_manual_retries_def ai_view_def)

lemma ai_call_view: "map_prod id ai_view (ai_call c a) = mailbox_call c (ai_view a)"
proof (cases c)
  case GetDocument
  show ?thesis
  proof (cases "ai_document_messages a")
    case Nil
    then show ?thesis using GetDocument
      by (simp add: ai_get_document_def drain_documents_def ai_view_def)
  next
    case (Cons msg rest)
    then show ?thesis using GetDocument
      by (cases rest) (simp_all add: ai_get_document_def drain_documents_def ai_view_def ai_maybe_clear_event_def)
  qed
qed (simp_all add: ai_answer_view ai_view_step ai_rebind_view ai_has_work_view ai_peek_next_manual_retry_def
       peek_next_manual_retry_def ai_snapshot_manual_retries_def snapshot_manual_retries_def ai_counts_def counts_def,
     simp_all add: ai_view_def)

lemma ai_call_event: "ai_event_ok a \<Longrightarrow> ai_event_ok (snd (ai_call c a))"
  by (cases c) (auto simp: ai_event_step ai_rebind_event dest: ai_get_document_event split: option.split)

lemma ai_run_calls:
  "ai_event_ok a \<Longrightarrow> map_prod id ai_view (run_calls ai_call cs a) = run_calls mailbox_call cs (ai_view a)
     \<and> ai_event_ok (snd (run_calls ai_call cs a))"
proof (induction cs arbitrary: a)
  case (Cons c cs)
  obtain r a' where c: "ai_call c a = (r, a')" by fastforce
  then have "mailbox_call c (ai_view a) = (r, ai_view a')" using ai_call_view [of c a] by simp
  moreover have "ai_event_ok a'" using ai_call_event [OF Cons.prems, of c] c by simp
  ultimately show ?case using Cons.IH [of a'] c
    by (cases "run_calls ai_call cs a'") (auto dest!: sym [where t = "run_calls mailbox_call cs (ai_view a')"])
qed simp

text \<open>
  C30. On every sequence of calls, the observers, \<open>get_document\<close> and a
  migration to another event loop included, the single-process ingress gives every answer the Manager-side
  mailbox gives (what is drained, published, acknowledged, counted or raised), and ends in the same channels;
  for the mailbox, \<open>get_document\<close> is a drain of one document, and a migration is nothing. And its wake-up event
  is set exactly when some channel holds work, so a waiter neither sleeps through work nor spins on an empty
  ingress.
\<close>

theorem asyncio_ingress_refines_mailbox:
  fixes calls env l dc mc
  defines "a \<equiv> run_calls ai_call calls (ai_init env l dc mc)"
    and "m \<equiv> run_calls mailbox_call calls (mailbox_init env dc mc)"
  shows "fst a = fst m \<and> ai_view (snd a) = snd m \<and> (ai_work_event (snd a) \<longleftrightarrow> has_work (snd m))"
proof -
  have init: "ai_view (ai_init env l dc mc) = mailbox_init env dc mc"
    by (simp add: ai_view_def ai_init_def mailbox_init_def)
  note r = ai_run_calls [OF ai_event_init, of calls env l dc mc, unfolded init]
  have "map_prod id ai_view a = m" "ai_event_ok (snd a)" using r by (simp_all add: a_def m_def)
  then show ?thesis by (cases a) (auto simp: ai_event_ok_def ai_has_work_view)
qed

end
