(* ===== verification/Liveness.thy ===== *)
theory Liveness
  imports Prelude
begin

text \<open>
  Process identity and liveness of \<open>ontorag/kg/shared_storage.py\<close>: when an owner of a lock or of a
  reservation is confirmed dead. The operating system is a parameter (the record \<open>os_env\<close>): the
  answers of \<open>os.kill\<close>, \<open>psutil\<close> and \<open>/proc\<close>. Everything the code decides from those answers is
  modelled. The theorems say that a live owner is never judged dead, whatever the probes leave
  undetermined, and that a death the probes can see is always detected.
\<close>

section \<open>The environment\<close>

datatype kill_answer = KillOk | KillNoProcess | KillOSError

datatype ps_answer = PsNoSuchProcess | PsError | PsZombie | PsOther

text \<open>
  \<open>os_stat p\<close> is the content of \<open>/proc/p/stat\<close>, \<open>None\<close> when it cannot be opened or read.
  \<open>os_create_time n p\<close> is the \<open>n\<close>-th wall-clock \<open>create_time()\<close> read of the process, \<open>None\<close> when
  \<open>psutil\<close> raises: successive reads may differ, because a clock step moves them.
\<close>

record os_env =
  os_getpid :: int
  os_linux :: bool
  os_psutil :: bool
  os_kill :: "int \<Rightarrow> kill_answer"
  os_status :: "int \<Rightarrow> ps_answer"
  os_stat :: "int \<Rightarrow> string option"
  os_create_time :: "nat \<Rightarrow> int \<Rightarrow> real option"

section \<open>Probes\<close>

definition pid_alive :: "os_env \<Rightarrow> int \<Rightarrow> bool" where
  "pid_alive env pid =
     (if pid = os_getpid env then True
      else if \<not> os_psutil env then
        (case os_kill env pid of KillNoProcess \<Rightarrow> False | KillOSError \<Rightarrow> True | KillOk \<Rightarrow> True)
      else
        (case os_status env pid of
           PsZombie \<Rightarrow> False | PsNoSuchProcess \<Rightarrow> False | PsError \<Rightarrow> True | PsOther \<Rightarrow> True))"

text \<open>
  \<open>bytes.rindex(b")")\<close> keeps the part after the last parenthesis (raising \<open>ValueError\<close> without one);
  \<open>bytes.split()\<close> separates at runs of ASCII whitespace; \<open>decode("ascii")\<close> refuses bytes above 127.
\<close>

fun after_last_paren :: "string \<Rightarrow> string option" where
  "after_last_paren [] = None"
| "after_last_paren (c # s) =
     (case after_last_paren s of
        Some t \<Rightarrow> Some t
      | None \<Rightarrow> if c = CHR '')'' then Some s else None)"

definition byte_space :: "char \<Rightarrow> bool" where
  "byte_space c \<longleftrightarrow> (of_char c :: nat) \<in> {9, 10, 11, 12, 13, 32}"

fun split_space :: "string \<Rightarrow> string \<Rightarrow> string list" where
  "split_space w [] = (if w = [] then [] else [w])"
| "split_space w (c # s) =
     (if byte_space c then (if w = [] then split_space [] s else w # split_space [] s)
      else split_space (w @ [c]) s)"

definition decode_ascii :: "string \<Rightarrow> string option" where
  "decode_ascii s = (if list_all (\<lambda>c. (of_char c :: nat) < 128) s then Some s else None)"

definition read_proc_starttime :: "os_env \<Rightarrow> int \<Rightarrow> string option" where
  "read_proc_starttime env pid =
     (if \<not> os_linux env then None
      else case os_stat env pid of
        None \<Rightarrow> None
      | Some data \<Rightarrow>
          (case after_last_paren data of
             None \<Rightarrow> None
           | Some tail \<Rightarrow>
               (let fields = split_space [] tail
                in if 19 < length fields then decode_ascii (fields ! 19) else None)))"

text \<open>The cache of this process's own start id: the cached value and the pid it was read for.\<close>

type_synonym start_cache = "string option \<times> int option"

definition my_start_id :: "os_env \<Rightarrow> start_cache \<Rightarrow> string option \<times> start_cache" where
  "my_start_id env cache =
     (let pid = os_getpid env;
          cache' = (if snd cache \<noteq> Some pid then (read_proc_starttime env pid, Some pid) else cache)
      in (fst cache', cache'))"

definition process_alive :: "os_env \<Rightarrow> start_cache \<Rightarrow> int option \<Rightarrow> string option \<Rightarrow> bool" where
  "process_alive env cache pid start_id =
     (case pid of
        None \<Rightarrow> True
      | Some p \<Rightarrow>
          if p = os_getpid env then
            (let mine = fst (my_start_id env cache)
             in \<not> (start_id \<noteq> None \<and> mine \<noteq> None \<and> start_id \<noteq> mine))
          else if \<not> pid_alive env p then False
          else if start_id \<noteq> None then
            (let current = read_proc_starttime env p
             in \<not> (current \<noteq> None \<and> current \<noteq> start_id))
          else True)"

section \<open>Identity of a lock holder\<close>

text \<open>\<open>int(s)\<close> of a decimal literal, as Python reads it (sign, single underscores between digits).\<close>

definition digit_value :: "char \<Rightarrow> int option" where
  "digit_value c =
     (let n = (of_char c :: nat) in if 48 \<le> n \<and> n \<le> 57 then Some (int n - 48) else None)"

fun decimal_digits :: "int \<Rightarrow> string \<Rightarrow> int option" where
  "decimal_digits acc [] = Some acc"
| "decimal_digits acc (CHR ''_'' # c # s) =
     (case digit_value c of None \<Rightarrow> None | Some d \<Rightarrow> decimal_digits (10 * acc + d) s)"
| "decimal_digits acc (c # s) =
     (case digit_value c of None \<Rightarrow> None | Some d \<Rightarrow> decimal_digits (10 * acc + d) s)"

fun decimal_unsigned :: "string \<Rightarrow> int option" where
  "decimal_unsigned [] = None"
| "decimal_unsigned (c # s) =
     (case digit_value c of None \<Rightarrow> None | Some d \<Rightarrow> decimal_digits d s)"

definition py_int :: "string \<Rightarrow> int option" where
  "py_int s =
     (case s of
        [] \<Rightarrow> None
      | c # t \<Rightarrow>
          if c = CHR ''-'' then map_option uminus (decimal_unsigned t)
          else if c = CHR ''+'' then decimal_unsigned t
          else decimal_unsigned s)"

definition START_DELTA_RETRIES :: nat where
  "START_DELTA_RETRIES = 3"

definition NON_LINUX_START_DELTA_TOLERANCE :: real where
  "NON_LINUX_START_DELTA_TOLERANCE = 1"

definition read_create_time :: "os_env \<Rightarrow> nat \<Rightarrow> int \<Rightarrow> real option" where
  "read_create_time env n pid = (if \<not> os_psutil env then None else os_create_time env n pid)"

text \<open>The sandwich loop: \<open>n\<close> numbers the reads, \<open>retries\<close> the attempts left.\<close>

fun start_delta_loop :: "os_env \<Rightarrow> int \<Rightarrow> nat \<Rightarrow> nat \<Rightarrow> real option" where
  "start_delta_loop env pid n 0 = None"
| "start_delta_loop env pid n (Suc retries) =
     (case read_create_time env n (os_getpid env) of
        None \<Rightarrow> None
      | Some a0 \<Rightarrow>
          (case read_create_time env (n + 1) pid of
             None \<Rightarrow> None
           | Some d \<Rightarrow>
               (case read_create_time env (n + 2) (os_getpid env) of
                  None \<Rightarrow> None
                | Some a1 \<Rightarrow>
                    if a1 = a0 then Some (d - a0)
                    else start_delta_loop env pid (n + 3) retries)))"

definition start_delta :: "os_env \<Rightarrow> int option \<Rightarrow> real option" where
  "start_delta env pid =
     (case pid of
        None \<Rightarrow> None
      | Some p \<Rightarrow>
          if os_linux env then
            (case (read_proc_starttime env (os_getpid env), read_proc_starttime env p) of
               (Some own, Some target) \<Rightarrow>
                 (case (py_int target, py_int own) of
                    (Some t, Some w) \<Rightarrow> Some (of_int (t - w))
                  | _ \<Rightarrow> None)
             | _ \<Rightarrow> None)
          else start_delta_loop env p 0 START_DELTA_RETRIES)"

record holder =
  h_owner_pid :: "int option"
  h_lease_id :: string
  h_start_delta :: "real option"

definition holder_dead :: "os_env \<Rightarrow> holder \<Rightarrow> bool" where
  "holder_dead env rec =
     (case h_owner_pid rec of
        None \<Rightarrow> False
      | Some p \<Rightarrow>
          if \<not> pid_alive env p then True
          else (case h_start_delta rec of
              None \<Rightarrow> False
            | Some d0 \<Rightarrow>
                (case start_delta env (Some p) of
                   None \<Rightarrow> False
                 | Some d1 \<Rightarrow>
                     if os_linux env then d1 \<noteq> d0
                     else d1 > d0 + NON_LINUX_START_DELTA_TOLERANCE)))"

section \<open>What the probes are relied on for\<close>

text \<open>
  The world says which process runs under a pid, by its start token; a zombie runs nothing. Probes
  are sound when a definite answer is true: documented behaviour of \<open>kill(2)\<close>, \<open>psutil\<close> and \<open>proc(5)\<close>.
  Uncertain answers (\<open>KillOSError\<close>, \<open>PsError\<close>, an unreadable stat file) are unconstrained.
\<close>

definition probes_sound :: "os_env \<Rightarrow> (int \<Rightarrow> string option) \<Rightarrow> bool" where
  "probes_sound env world \<longleftrightarrow>
     (\<forall>p. os_kill env p = KillNoProcess \<longrightarrow> world p = None)
     \<and> (\<forall>p. os_status env p \<in> {PsNoSuchProcess, PsZombie} \<longrightarrow> world p = None)
     \<and> (\<forall>p s. read_proc_starttime env p = Some s \<longrightarrow> world p \<noteq> None \<longrightarrow> world p = Some s)"

definition cache_coherent :: "os_env \<Rightarrow> start_cache \<Rightarrow> bool" where
  "cache_coherent env cache \<longleftrightarrow>
     (snd cache = Some (os_getpid env) \<longrightarrow> fst cache = read_proc_starttime env (os_getpid env))"

lemma my_start_id_coherent:
  "cache_coherent env cache \<Longrightarrow>
   fst (my_start_id env cache) = read_proc_starttime env (os_getpid env)
   \<and> cache_coherent env (snd (my_start_id env cache))"
  by (auto simp: my_start_id_def cache_coherent_def Let_def)

lemma pid_alive_world:
  "probes_sound env world \<Longrightarrow> world p = Some s \<Longrightarrow> pid_alive env p"
  by (auto simp: pid_alive_def probes_sound_def split: kill_answer.split ps_answer.split)

lemma starttime_world:
  "probes_sound env world \<Longrightarrow> world p = Some s \<Longrightarrow> read_proc_starttime env p = Some s' \<Longrightarrow> s' = s"
  by (fastforce simp: probes_sound_def)

text \<open>
  Dead-only reclaim of reservations: an owner that is still running
  (its pid runs the process whose start token it recorded, or it recorded none) is reported alive on
  every platform and whatever the probes leave undetermined, also to a process that asks about
  itself after a fork.
\<close>

theorem live_owner_never_reclaimed:
  assumes "probes_sound env world" and "cache_coherent env cache"
    and "world p = Some s" and "start_id = None \<or> start_id = Some s"
  shows "process_alive env cache (Some p) start_id"
  using my_start_id_coherent [OF assms(2)] starttime_world [OF assms(1,3)]
    pid_alive_world [OF assms(1,3)] assms(4)
  by (cases "read_proc_starttime env p") (auto simp: process_alive_def Let_def)

text \<open>A Linux host with one live worker (pid 7), one reused pid (9) and one dead pid (8).\<close>

definition ex_stat :: "string \<Rightarrow> string" where
  "ex_stat st = ''7 (py) S'' @ concat (replicate 18 '' 0'') @ '' '' @ st"

definition ex_env :: os_env where
  "ex_env =
     \<lparr>os_getpid = 1, os_linux = True, os_psutil = False,
      os_kill = (\<lambda>p. if p = 1 \<or> p = 7 \<or> p = 9 then KillOk else KillNoProcess),
      os_status = (\<lambda>p. if p = 1 \<or> p = 7 \<or> p = 9 then PsOther else PsNoSuchProcess),
      os_stat = (\<lambda>p. if p = 1 then Some (ex_stat ''100'')
                     else if p = 7 then Some (ex_stat ''250'')
                     else if p = 9 then Some (ex_stat ''300'') else None),
      os_create_time = (\<lambda>_ _. None)\<rparr>"

definition ex_world :: "int \<Rightarrow> string option" where
  "ex_world p = (if p = 1 then Some ''100'' else if p = 7 then Some ''250'' else if p = 9 then Some ''300'' else None)"

lemma ex_starttime:
  "read_proc_starttime ex_env 7 = Some ''250''"
  "read_proc_starttime ex_env 9 = Some ''300''"
  "read_proc_starttime ex_env 1 = Some ''100''"
  by (simp_all add: read_proc_starttime_def ex_env_def ex_stat_def byte_space_def decode_ascii_def
      numeral_eq_Suc)

lemma ex_probes_sound: "probes_sound ex_env ex_world"
proof -
  have "read_proc_starttime ex_env p = Some s \<Longrightarrow> ex_world p \<noteq> None \<Longrightarrow> ex_world p = Some s" for p s
    using ex_starttime by (auto simp: ex_world_def split: if_splits)
  then show ?thesis
    by (auto simp: probes_sound_def ex_env_def ex_world_def split: if_splits)
qed

lemma live_owner_never_reclaimed_witness:
  "process_alive ex_env (None, None) (Some 7) (Some ''250'')"
  by (rule live_owner_never_reclaimed [OF ex_probes_sound])
    (simp_all add: cache_coherent_def ex_world_def)

section \<open>A live lock holder is never judged dead\<close>

text \<open>
  Off Linux the identity is a difference of wall-clock reads. A clock step moves every read by the
  same offset; \<open>common_mode\<close> says so, and that a step across the owner's read shows in the two anchor
  reads around it.
\<close>

definition common_mode :: "os_env \<Rightarrow> (int \<Rightarrow> real) \<Rightarrow> (nat \<Rightarrow> real) \<Rightarrow> bool" where
  "common_mode env start offset \<longleftrightarrow>
     (\<forall>n p t. os_create_time env n p = Some t \<longrightarrow> t = start p + offset n)
     \<and> (\<forall>n. offset n = offset (n + 2) \<longrightarrow> offset (n + 1) = offset n)"

lemma start_delta_loop_common_mode:
  assumes cm: "common_mode env start offset"
  shows "start_delta_loop env p n k = Some d \<Longrightarrow> d = start p - start (os_getpid env)"
proof (induction k arbitrary: n)
  case (Suc k)
  then obtain a0 d0 a1 where r: "os_create_time env n (os_getpid env) = Some a0"
    "os_create_time env (n + 1) p = Some d0" "os_create_time env (n + 2) (os_getpid env) = Some a1"
    by (auto simp: read_create_time_def split: option.splits if_splits)
  have val: "a0 = start (os_getpid env) + offset n" "d0 = start p + offset (n + 1)"
    "a1 = start (os_getpid env) + offset (n + 2)"
    using r cm unfolding common_mode_def by blast+
  show ?case
  proof (cases "a1 = a0")
    case True
    with val have "offset n = offset (n + 2)" by simp
    then have "offset (n + 1) = offset n" using cm unfolding common_mode_def by blast
    moreover have "d = d0 - a0"
      using Suc.prems r True by (simp add: read_create_time_def split: if_splits)
    ultimately show ?thesis using val by simp
  next
    case False
    then have "start_delta_loop env p (n + 3) k = Some d"
      using Suc.prems r by (simp add: read_create_time_def split: if_splits)
    then show ?thesis by (rule Suc.IH)
  qed
qed simp

lemma start_delta_stable_linux:
  assumes "probes_sound env0 world0" and "probes_sound env1 world1"
    and "os_linux env0" and "os_linux env1" and "os_getpid env1 = os_getpid env0"
    and "world0 p = Some s" and "world1 p = Some s"
    and "world0 (os_getpid env0) = Some w" and "world1 (os_getpid env0) = Some w"
    and "start_delta env0 (Some p) = Some d0" and "start_delta env1 (Some p) = Some d1"
  shows "d1 = d0"
proof -
  have own: "read_proc_starttime env0 (os_getpid env0) = Some a \<Longrightarrow> a = w"
    "read_proc_starttime env1 (os_getpid env0) = Some a \<Longrightarrow> a = w" for a
    using starttime_world [OF assms(1) assms(8)] starttime_world [OF assms(2) assms(9)] by blast+
  have tgt: "read_proc_starttime env0 p = Some a \<Longrightarrow> a = s"
    "read_proc_starttime env1 p = Some a \<Longrightarrow> a = s" for a
    using starttime_world [OF assms(1) assms(6)] starttime_world [OF assms(2) assms(7)] by blast+
  show ?thesis
    using assms(3-5,10,11) own tgt
    by (auto simp: start_delta_def split: option.splits if_splits)
qed

lemma holder_not_dead:
  assumes "probes_sound env0 world0" and "probes_sound env1 world1"
    and "os_getpid env1 = os_getpid env0" and "os_linux env1 = os_linux env0"
    and "world0 p = Some s" and "world1 p = Some s"
    and "world0 (os_getpid env0) = Some w" and "world1 (os_getpid env0) = Some w"
    and "\<not> os_linux env0 \<Longrightarrow> common_mode env0 start offset0 \<and> common_mode env1 start offset1"
    and "h_owner_pid h = Some p" and "h_start_delta h = start_delta env0 (Some p)"
  shows "\<not> holder_dead env1 h"
proof (cases "start_delta env0 (Some p)")
  case None
  then show ?thesis
    using assms(10,11) pid_alive_world [OF assms(2,6)] by (simp add: holder_dead_def)
next
  case (Some d0)
  show ?thesis
  proof (cases "start_delta env1 (Some p)")
    case None
    then show ?thesis
      using assms(10,11) Some pid_alive_world [OF assms(2,6)] by (simp add: holder_dead_def)
  next
    case (Some d1)
    have "d1 = d0"
    proof (cases "os_linux env0")
      case True
      then show ?thesis
        using start_delta_stable_linux [OF assms(1,2)] assms \<open>start_delta env0 (Some p) = Some d0\<close> Some
        by simp
    next
      case False
      then have "d0 = start p - start (os_getpid env0)" "d1 = start p - start (os_getpid env1)"
        using assms(4,9) \<open>start_delta env0 (Some p) = Some d0\<close> Some start_delta_loop_common_mode
        unfolding start_delta_def by (fastforce split: if_splits)+
      then show ?thesis using assms(3) by simp
    qed
    then show ?thesis
      using assms(10,11) Some \<open>start_delta env0 (Some p) = Some d0\<close> pid_alive_world [OF assms(2,6)]
      by (simp add: holder_dead_def NON_LINUX_START_DELTA_TOLERANCE_def)
  qed
qed

lemma live_holder_not_dead_linux:
  assumes "probes_sound env0 world0" and "probes_sound env1 world1"
    and "os_getpid env1 = os_getpid env0" and "os_linux env0" and "os_linux env1"
    and "world0 p = Some s" and "world1 p = Some s"
    and "world0 (os_getpid env0) = Some w" and "world1 (os_getpid env0) = Some w"
    and "h_owner_pid h = Some p" and "h_start_delta h = start_delta env0 (Some p)"
  shows "\<not> holder_dead env1 h"
  by (rule holder_not_dead [OF assms(1-3) _ assms(6-9) _ assms(10,11)]) (use assms(4,5) in simp_all)

text \<open>
  C23. The Manager's own check of a lock holder: a record stamped while the
  owner ran is never judged dead while that same process still runs under that pid, on Linux from
  the start ticks, and elsewhere from clock-adjustment-safe differences of wall-clock reads.
\<close>

theorem live_holder_never_dead:
  assumes "probes_sound env0 world0" and "probes_sound env1 world1"
    and "os_getpid env1 = os_getpid env0" and "os_linux env1 = os_linux env0"
    and "world0 p = Some s" and "world1 p = Some s"
    and "world0 (os_getpid env0) = Some w" and "world1 (os_getpid env0) = Some w"
    and "\<not> os_linux env0 \<Longrightarrow> common_mode env0 start offset0 \<and> common_mode env1 start offset1"
    and "h_owner_pid h = Some p" and "h_start_delta h = start_delta env0 (Some p)"
  shows "\<not> holder_dead env1 h"
  by (rule holder_not_dead [OF assms])

lemma live_holder_never_dead_witness:
  "\<not> holder_dead ex_env \<lparr>h_owner_pid = Some 7, h_lease_id = ''l1'',
     h_start_delta = start_delta ex_env (Some 7)\<rparr>"
  by (rule live_holder_never_dead [OF ex_probes_sound ex_probes_sound, where p = 7])
    (simp_all add: ex_world_def ex_env_def)

end
