(* ===== verification/HolderTable.thy ===== *)
theory HolderTable
  imports Liveness
begin

text \<open>
  The lock table of \<open>ontorag/kg/shared_storage.py\<close>: \<open>KeyedHolderTable\<close>, which lives in the manager
  server and whose records are the multi-process keyed locks, and \<open>_KeyedLeaseLock\<close>, its client.
  \<open>try_acquire\<close> takes the table's lock twice, so it is modelled as a probe and a commit, with other
  calls free to run between them. The theorems: mutual exclusion of live owners under every
  interleaving, reclaim of a dead one, and the bounds of the poll's backoff.
\<close>

section \<open>The table and its operations\<close>

text \<open>The record a client sends; the server adds \<open>start_delta\<close> when it grants.\<close>

record claim =
  c_owner_pid :: "int option"
  c_lease_id :: string

type_synonym holder_table = "(string, holder) odict"

definition stamp :: "os_env \<Rightarrow> claim \<Rightarrow> holder" where
  "stamp env rec =
     \<lparr>h_owner_pid = c_owner_pid rec, h_lease_id = c_lease_id rec,
      h_start_delta = start_delta env (c_owner_pid rec)\<rparr>"

text \<open>
  What \<open>try_acquire\<close> carries from its first critical section, and the probes outside it, to the
  second: nothing to do, the candidate for an empty slot, or the candidate for the slot of the dead
  lease it probed.
\<close>

datatype acquire_phase = Rejected | IfEmpty holder | IfLease string holder

definition acquire_probe :: "os_env \<Rightarrow> holder_table \<Rightarrow> string \<Rightarrow> claim \<Rightarrow> acquire_phase" where
  "acquire_probe env tab key rec =
     (case map_of tab key of
        None \<Rightarrow> IfEmpty (stamp env rec)
      | Some cur \<Rightarrow>
          if \<not> holder_dead env cur then Rejected
          else IfLease (h_lease_id cur) (stamp env rec))"

definition acquire_commit :: "holder_table \<Rightarrow> string \<Rightarrow> acquire_phase \<Rightarrow> bool \<times> holder_table" where
  "acquire_commit tab key ph =
     (case ph of
        Rejected \<Rightarrow> (False, tab)
      | IfEmpty cand \<Rightarrow>
          (case map_of tab key of None \<Rightarrow> (True, od_set key cand tab) | Some _ \<Rightarrow> (False, tab))
      | IfLease l cand \<Rightarrow>
          (case map_of tab key of
             None \<Rightarrow> (False, tab)
           | Some cur \<Rightarrow> if h_lease_id cur = l then (True, od_set key cand tab) else (False, tab)))"

text \<open>The call with nothing between its two critical sections.\<close>

definition try_acquire :: "os_env \<Rightarrow> holder_table \<Rightarrow> string \<Rightarrow> claim \<Rightarrow> bool \<times> holder_table" where
  "try_acquire env tab key rec = acquire_commit tab key (acquire_probe env tab key rec)"

definition ht_release :: "holder_table \<Rightarrow> string \<Rightarrow> string \<Rightarrow> bool \<times> holder_table" where
  "ht_release tab key lease_id =
     (case map_of tab key of
        None \<Rightarrow> (False, tab)
      | Some cur \<Rightarrow> if h_lease_id cur = lease_id then (True, od_del key tab) else (False, tab))"

definition holder_count :: "holder_table \<Rightarrow> nat" where
  "holder_count tab = length tab"

definition holders_snapshot :: "holder_table \<Rightarrow> holder_table" where
  "holders_snapshot tab = tab"

lemma acquire_commit_cases:
  "acquire_commit tab key ph = (b, tab') \<Longrightarrow>
   (b \<and> (\<exists>cand. tab' = od_set key cand tab
         \<and> (ph = IfEmpty cand \<and> map_of tab key = None
            \<or> (\<exists>l h. ph = IfLease l cand \<and> map_of tab key = Some h \<and> h_lease_id h = l)))
    \<or> \<not> b \<and> tab' = tab)"
  by (auto simp: acquire_commit_def split: acquire_phase.splits option.splits if_splits)

lemma ht_release_cases:
  "ht_release tab key l = (b, tab') \<Longrightarrow>
   (b \<and> (\<exists>h. map_of tab key = Some h \<and> h_lease_id h = l) \<and> tab' = od_del key tab
    \<or> \<not> b \<and> tab' = tab)"
  by (auto simp: ht_release_def split: option.splits if_splits)

lemma acquire_probe_cases:
  "acquire_probe env tab key rec = ph \<Longrightarrow>
   ph = Rejected \<or> ph = IfEmpty (stamp env rec)
   \<or> (\<exists>h. map_of tab key = Some h \<and> holder_dead env h \<and> ph = IfLease (h_lease_id h) (stamp env rec))"
  by (auto simp: acquire_probe_def split: option.splits if_splits)

lemma stamp_sel [simp]:
  "h_owner_pid (stamp env rec) = c_owner_pid rec"
  "h_lease_id (stamp env rec) = c_lease_id rec"
  "h_start_delta (stamp env rec) = start_delta env (c_owner_pid rec)"
  by (simp_all add: stamp_def)

section \<open>The client\<close>

text \<open>
  \<open>_keyed_lease_backoff\<close>: \<open>rnd\<close> is the answer of \<open>random.random()\<close>.
\<close>

definition KEYED_LEASE_POLL_BASE :: real where
  "KEYED_LEASE_POLL_BASE = 2 / 100"

definition KEYED_LEASE_POLL_MAX :: real where
  "KEYED_LEASE_POLL_MAX = 1 / 2"

definition keyed_lease_backoff :: "nat \<Rightarrow> real \<Rightarrow> real" where
  "keyed_lease_backoff attempt rnd =
     (let base = min KEYED_LEASE_POLL_MAX (KEYED_LEASE_POLL_BASE * 2 ^ min attempt 5)
      in base * (1 / 2 + rnd * (1 / 2)))"

text \<open>
  \<open>_KeyedLeaseLock.acquire\<close>. Each element of \<open>views\<close> is one round of the poll: the probes' answers
  and the table the round finds. The result is the sleeps taken, and the number of the granted round
  with the table it leaves, or \<open>None\<close> when every round of \<open>views\<close> was refused and the poll goes on.
\<close>

fun lease_poll ::
  "string \<Rightarrow> claim \<Rightarrow> (nat \<Rightarrow> real) \<Rightarrow> nat \<Rightarrow> (os_env \<times> holder_table) list
   \<Rightarrow> real list \<times> (nat \<times> holder_table) option" where
  "lease_poll key rec rnd attempt [] = ([], None)"
| "lease_poll key rec rnd attempt ((env, tab) # views) =
     (case try_acquire env tab key rec of
        (True, tab') \<Rightarrow> ([], Some (attempt, tab'))
      | (False, _) \<Rightarrow>
          (case lease_poll key rec rnd (attempt + 1) views of
             (sleeps, r) \<Rightarrow> (keyed_lease_backoff attempt (rnd attempt) # sleeps, r)))"

text \<open>The lock object: its key and the lease it holds.\<close>

record lease_lock =
  ll_key :: string
  ll_lease :: "string option"

definition new_lease_lock :: "string \<Rightarrow> lease_lock" where
  "new_lease_lock combined_key = \<lparr>ll_key = combined_key, ll_lease = None\<rparr>"

definition lease_lock_acquire ::
  "lease_lock \<Rightarrow> int \<Rightarrow> string \<Rightarrow> (nat \<Rightarrow> real) \<Rightarrow> (os_env \<times> holder_table) list
   \<Rightarrow> lease_lock \<times> holder_table option" where
  "lease_lock_acquire lk pid uuid rnd views =
     (case snd (lease_poll (ll_key lk) \<lparr>c_owner_pid = Some pid, c_lease_id = uuid\<rparr> rnd 0 views) of
        None \<Rightarrow> (lk, None)
      | Some (_, tab') \<Rightarrow> (lk\<lparr>ll_lease := Some uuid\<rparr>, Some tab'))"

definition lease_lock_release :: "lease_lock \<Rightarrow> holder_table \<Rightarrow> lease_lock \<times> holder_table" where
  "lease_lock_release lk tab =
     (case ll_lease lk of
        None \<Rightarrow> (lk, tab)
      | Some lease_id \<Rightarrow> (lk\<lparr>ll_lease := None\<rparr>, snd (ht_release tab (ll_key lk) lease_id)))"

text \<open>\<open>_get_combined_key\<close>.\<close>

definition get_combined_key :: "string \<Rightarrow> string \<Rightarrow> string" where
  "get_combined_key factory_name key = factory_name @ '':'' @ key"

section \<open>Calls running side by side\<close>

text \<open>
  Every client's call is a \<open>Begin\<close> (first critical section and probes) and, later, a \<open>Commit\<close> (second
  critical section); \<open>Free\<close> is one \<open>release\<close>. \<open>ht_held\<close> records what the clients were told: the
  leases granted to them and not yet released by them.
\<close>

datatype ht_event =
    Begin nat string claim
  | Commit nat
  | Free string string

record ht_state =
  ht_tab :: holder_table
  ht_inflight :: "(nat, string \<times> acquire_phase) odict"
  ht_held :: "(string \<times> string) list"

definition ht_empty :: ht_state where
  "ht_empty = \<lparr>ht_tab = [], ht_inflight = [], ht_held = []\<rparr>"

definition phase_lease :: "acquire_phase \<Rightarrow> string" where
  "phase_lease ph = (case ph of Rejected \<Rightarrow> '''' | IfEmpty c \<Rightarrow> h_lease_id c | IfLease _ c \<Rightarrow> h_lease_id c)"

fun ht_exec :: "os_env \<Rightarrow> ht_event \<Rightarrow> ht_state \<Rightarrow> ht_state" where
  "ht_exec env (Begin a key rec) st =
     (if map_of (ht_inflight st) a \<noteq> None then st
      else st\<lparr>ht_inflight := od_set a (key, acquire_probe env (ht_tab st) key rec) (ht_inflight st)\<rparr>)"
| "ht_exec env (Commit a) st =
     (case map_of (ht_inflight st) a of
        None \<Rightarrow> st
      | Some (key, ph) \<Rightarrow>
          (case acquire_commit (ht_tab st) key ph of
             (granted, tab') \<Rightarrow>
               st\<lparr>ht_tab := tab', ht_inflight := od_del a (ht_inflight st),
                  ht_held := (if granted then (key, phase_lease ph) # ht_held st else ht_held st)\<rparr>))"
| "ht_exec env (Free key l) st =
     st\<lparr>ht_tab := snd (ht_release (ht_tab st) key l),
        ht_held := filter (\<lambda>e. e \<noteq> (key, l)) (ht_held st)\<rparr>"

text \<open>A trace also carries, for each event, what really runs under each pid at that time.\<close>

type_synonym ht_trace = "(os_env \<times> (int \<Rightarrow> string option) \<times> ht_event) list"

fun ht_run :: "ht_trace \<Rightarrow> ht_state \<Rightarrow> ht_state" where
  "ht_run [] st = st"
| "ht_run ((env, world, ev) # tr) st = ht_run tr (ht_exec env ev st)"

text \<open>One Linux host: sound probes, asked by the one server process.\<close>

definition host_ok :: "int \<Rightarrow> string \<Rightarrow> ht_trace \<Rightarrow> bool" where
  "host_ok srv w tr =
     list_all (\<lambda>(env, world, _). probes_sound env world \<and> os_linux env \<and> os_getpid env = srv
                 \<and> world srv = Some w) tr"

text \<open>The process that claims lease \<open>l\<close> runs from its claim to the end of the trace.\<close>

fun owner_runs :: "string \<Rightarrow> ht_trace \<Rightarrow> bool" where
  "owner_runs l [] = True"
| "owner_runs l ((env, world, ev) # tr) =
     ((case ev of
         Begin a key rec \<Rightarrow>
           c_lease_id rec = l \<longrightarrow>
             (case c_owner_pid rec of
                None \<Rightarrow> False
              | Some p \<Rightarrow> world p \<noteq> None \<and> list_all (\<lambda>(_, w', _). w' p = world p) tr)
       | _ \<Rightarrow> True)
      \<and> owner_runs l tr)"

text \<open>A holder that no probe of the rest of the trace can find dead.\<close>

definition safe_holder :: "int \<Rightarrow> string \<Rightarrow> ht_trace \<Rightarrow> holder \<Rightarrow> bool" where
  "safe_holder srv w tr h \<longleftrightarrow>
     (\<exists>p s env0 world0. h_owner_pid h = Some p \<and> h_start_delta h = start_delta env0 (Some p)
        \<and> host_ok srv w [(env0, world0, Commit 0)] \<and> world0 p = Some s
        \<and> list_all (\<lambda>(_, w', _). w' p = Some s) tr)"

definition ht_inv :: "int \<Rightarrow> string \<Rightarrow> string \<Rightarrow> ht_trace \<Rightarrow> ht_state \<Rightarrow> bool" where
  "ht_inv srv w l tr st \<longleftrightarrow>
     (\<forall>k h. map_of (ht_tab st) k = Some h \<longrightarrow> h_lease_id h = l \<longrightarrow> safe_holder srv w tr h)
     \<and> (\<forall>a k c. map_of (ht_inflight st) a = Some (k, IfEmpty c) \<longrightarrow> h_lease_id c = l \<longrightarrow> safe_holder srv w tr c)
     \<and> (\<forall>a k l' c. map_of (ht_inflight st) a = Some (k, IfLease l' c) \<longrightarrow>
           l' \<noteq> l \<and> (h_lease_id c = l \<longrightarrow> safe_holder srv w tr c))
     \<and> (\<forall>k. (k, l) \<in> set (ht_held st) \<longrightarrow> map_option h_lease_id (map_of (ht_tab st) k) = Some l)"

lemma host_ok_simps [simp]:
  "host_ok srv w []"
  "host_ok srv w ((env, world, ev) # tr) \<longleftrightarrow>
     probes_sound env world \<and> os_linux env \<and> os_getpid env = srv \<and> world srv = Some w \<and> host_ok srv w tr"
  by (simp_all add: host_ok_def)

lemma safe_holder_tl: "safe_holder srv w (e # tr) h \<Longrightarrow> safe_holder srv w tr h"
  unfolding safe_holder_def by fastforce

lemma safe_holder_not_dead:
  assumes "safe_holder srv w ((env, world, ev) # tr) h" and "host_ok srv w ((env, world, ev) # tr)"
  shows "\<not> holder_dead env h"
proof -
  obtain p s env0 world0 where h: "h_owner_pid h = Some p" "h_start_delta h = start_delta env0 (Some p)"
    "probes_sound env0 world0" "os_linux env0" "os_getpid env0 = srv" "world0 srv = Some w"
    "world0 p = Some s" "world p = Some s"
    using assms(1) unfolding safe_holder_def by auto
  show ?thesis
    using live_holder_not_dead_linux [of env0 world0 env world p s w h] h assms(2) by simp
qed

lemma safe_holder_stamp:
  assumes "host_ok srv w ((env, world, Begin a key rec) # tr)"
    and "owner_runs (c_lease_id rec) ((env, world, Begin a key rec) # tr)"
  shows "safe_holder srv w tr (stamp env rec)"
proof -
  obtain p s where "c_owner_pid rec = Some p" "world p = Some s" "list_all (\<lambda>(_, w', _). w' p = Some s) tr"
    using assms(2) by (auto split: option.splits)
  moreover have "host_ok srv w [(env, world, Commit 0)]" using assms(1) by simp
  ultimately show ?thesis unfolding safe_holder_def by fastforce
qed

lemma ht_inv_tl: "ht_inv srv w l (e # tr) st \<Longrightarrow> ht_inv srv w l tr st"
  unfolding ht_inv_def using safe_holder_tl by metis

lemma ht_inv_begin:
  assumes "host_ok srv w ((env, world, Begin a key rec) # tr)"
    and "owner_runs l ((env, world, Begin a key rec) # tr)"
    and inv: "ht_inv srv w l ((env, world, Begin a key rec) # tr) st"
  shows "ht_inv srv w l tr (ht_exec env (Begin a key rec) st)"
proof (cases "map_of (ht_inflight st) a = None")
  case True
  define ph where "ph = acquire_probe env (ht_tab st) key rec"
  have new: "safe_holder srv w tr (stamp env rec)" if "c_lease_id rec = l"
    using safe_holder_stamp [OF assms(1)] assms(2) that by simp
  have "ph = Rejected \<or> ph = IfEmpty (stamp env rec)
      \<or> (\<exists>l'. l' \<noteq> l \<and> ph = IfLease l' (stamp env rec))"
    using acquire_probe_cases [OF ph_def [symmetric]] inv safe_holder_not_dead [OF _ assms(1)]
    unfolding ht_inv_def by blast
  moreover have "ht_inv srv w l tr st" using ht_inv_tl [OF inv] .
  ultimately show ?thesis
    using True new by (auto simp: ht_inv_def ph_def [symmetric])
qed (use ht_inv_tl [OF inv] in simp)

lemma ht_inv_commit:
  assumes inv: "ht_inv srv w l tr st"
  shows "ht_inv srv w l tr (ht_exec env (Commit a) st)"
proof (cases "map_of (ht_inflight st) a")
  case None
  then show ?thesis using inv by simp
next
  case (Some kp)
  obtain key ph where kp: "kp = (key, ph)" by force
  obtain b tab' where c: "acquire_commit (ht_tab st) key ph = (b, tab')" by force
  have ex: "ht_exec env (Commit a) st =
      st\<lparr>ht_tab := tab', ht_inflight := od_del a (ht_inflight st),
         ht_held := (if b then (key, phase_lease ph) # ht_held st else ht_held st)\<rparr>"
    using Some kp c by simp
  from acquire_commit_cases [OF c] show ?thesis
  proof (elim disjE conjE exE, goal_cases)
    case (1 cand)
    then show ?case using inv Some kp unfolding ex by (auto simp: ht_inv_def phase_lease_def)
  next
    case (2 cand l' h)
    then have "l' \<noteq> l" "h_lease_id cand = l \<Longrightarrow> safe_holder srv w tr cand"
      "(key, l) \<notin> set (ht_held st)"
      using inv Some kp unfolding ht_inv_def by fastforce+
    then show ?case using inv 2 unfolding ex by (auto simp: ht_inv_def phase_lease_def)
  next
    case 3
    then show ?case using inv unfolding ex by (auto simp: ht_inv_def)
  qed
qed

lemma ht_inv_free:
  assumes inv: "ht_inv srv w l tr st"
  shows "ht_inv srv w l tr (ht_exec env (Free key l') st)"
proof -
  obtain b tab' where r: "ht_release (ht_tab st) key l' = (b, tab')" by force
  have ex: "ht_exec env (Free key l') st =
      st\<lparr>ht_tab := tab', ht_held := filter (\<lambda>e. e \<noteq> (key, l')) (ht_held st)\<rparr>"
    using r by simp
  have "map_of tab' k = Some h \<Longrightarrow> map_of (ht_tab st) k = Some h" for k h
    using ht_release_cases [OF r] by (auto split: if_splits)
  moreover have "map_option h_lease_id (map_of tab' k) = Some l"
    if "(k, l) \<in> set (ht_held st)" "(k, l) \<noteq> (key, l')" for k
  proof -
    have "map_option h_lease_id (map_of (ht_tab st) k) = Some l"
      using inv that(1) unfolding ht_inv_def by blast
    then show ?thesis using ht_release_cases [OF r] that(2) by auto
  qed
  ultimately show ?thesis
    using inv unfolding ht_inv_def ex by simp metis
qed

lemma ht_inv_run:
  "host_ok srv w tr \<Longrightarrow> owner_runs l tr \<Longrightarrow> ht_inv srv w l tr st
   \<Longrightarrow> ht_inv srv w l [] (ht_run tr st)"
proof (induction tr arbitrary: st)
  case (Cons e tr)
  obtain env world ev where e: "e = (env, world, ev)" by (cases e) auto
  have step: "ht_inv srv w l tr (ht_exec env ev st)"
  proof (cases ev)
    case (Begin a key rec)
    then show ?thesis using Cons.prems ht_inv_begin unfolding e by blast
  next
    case (Commit a)
    then show ?thesis using Cons.prems(3) ht_inv_tl ht_inv_commit by blast
  next
    case (Free key l')
    then show ?thesis using Cons.prems(3) ht_inv_tl ht_inv_free by blast
  qed
  have "host_ok srv w tr" "owner_runs l tr" using Cons.prems(1,2) unfolding e by simp_all
  then show ?case using Cons.IH step by (simp add: e)
qed simp

lemma ht_inv_empty: "ht_inv srv w l tr ht_empty"
  by (simp add: ht_inv_def ht_empty_def)

lemma held_lease_in_table:
  assumes "host_ok srv w tr" and "owner_runs l tr" and "(k, l) \<in> set (ht_held (ht_run tr ht_empty))"
  shows "map_option h_lease_id (map_of (ht_tab (ht_run tr ht_empty)) k) = Some l"
  using ht_inv_run [OF assms(1,2) ht_inv_empty] assms(3) unfolding ht_inv_def by blast

text \<open>
  C2. Mutual exclusion of the multi-process keyed lock: however the two
  halves of any number of concurrent \<open>try_acquire\<close> calls and releases interleave, including reclaims of
  dead holders, two clients that were both granted the same key, have not released it and are still
  running hold one and the same lease. The host is Linux, with sound probes.
\<close>

theorem keyed_lock_mutual_exclusion:
  assumes "host_ok srv w tr"
    and "owner_runs l1 tr" and "owner_runs l2 tr"
    and "(k, l1) \<in> set (ht_held (ht_run tr ht_empty))"
    and "(k, l2) \<in> set (ht_held (ht_run tr ht_empty))"
  shows "l1 = l2"
  using held_lease_in_table [OF assms(1,2,4)] held_lease_in_table [OF assms(1,3,5)] by simp

text \<open>
  Two workers race for the same empty slot: both probe it before either commits. The first commit
  wins; the loser is refused.
\<close>

definition ex_claim :: "string \<Rightarrow> claim" where
  "ex_claim l = \<lparr>c_owner_pid = Some 7, c_lease_id = l\<rparr>"

definition ex_race :: ht_trace where
  "ex_race = map (\<lambda>ev. (ex_env, ex_world, ev))
     [Begin 0 ''k'' (ex_claim ''A''), Begin 1 ''k'' (ex_claim ''B''), Commit 1, Commit 0]"

lemma ex_race_held: "ht_held (ht_run ex_race ht_empty) = [(''k'', ''B'')]"
  by (simp add: ex_race_def ht_empty_def acquire_probe_def acquire_commit_def phase_lease_def ex_claim_def)

lemma keyed_lock_mutual_exclusion_witness:
  "(''k'', ''B'') \<in> set (ht_held (ht_run ex_race ht_empty))
   \<and> (''k'', ''A'') \<notin> set (ht_held (ht_run ex_race ht_empty))"
proof -
  have host: "host_ok 1 ''100'' ex_race"
    using ex_probes_sound by (simp add: ex_race_def ex_env_def ex_world_def)
  have runs: "owner_runs ''A'' ex_race" "owner_runs ''B'' ex_race"
    by (simp_all add: ex_race_def ex_claim_def ex_world_def)
  have B: "(''k'', ''B'') \<in> set (ht_held (ht_run ex_race ht_empty))"
    by (simp add: ex_race_held)
  have "(''k'', ''A'') \<notin> set (ht_held (ht_run ex_race ht_empty))"
    using keyed_lock_mutual_exclusion [OF host runs _ B] by auto
  with B show ?thesis by blast
qed

section \<open>Reclaim of a dead holder, and the contract of the calls\<close>

lemma try_acquire_free:
  "map_of tab key = None \<Longrightarrow> try_acquire env tab key rec = (True, od_set key (stamp env rec) tab)"
  by (simp add: try_acquire_def acquire_probe_def acquire_commit_def)

lemma try_acquire_dead:
  "map_of tab key = Some h \<Longrightarrow> holder_dead env h
   \<Longrightarrow> try_acquire env tab key rec = (True, od_set key (stamp env rec) tab)"
  by (simp add: try_acquire_def acquire_probe_def acquire_commit_def)

lemma try_acquire_live:
  "map_of tab key = Some h \<Longrightarrow> \<not> holder_dead env h \<Longrightarrow> try_acquire env tab key rec = (False, tab)"
  by (simp add: try_acquire_def acquire_probe_def acquire_commit_def)

text \<open>The pid is known to run nothing, or (on Linux) a process started at another tick.\<close>

definition owner_gone :: "os_env \<Rightarrow> int \<Rightarrow> real option \<Rightarrow> bool" where
  "owner_gone env p d0 \<longleftrightarrow>
     p \<noteq> os_getpid env
     \<and> ((if os_psutil env then os_status env p \<in> {PsNoSuchProcess, PsZombie}
         else os_kill env p = KillNoProcess)
        \<or> (os_linux env \<and> d0 \<noteq> None \<and> start_delta env (Some p) \<noteq> None
           \<and> start_delta env (Some p) \<noteq> d0))"

lemma owner_gone_dead:
  assumes "h_owner_pid h = Some p" and "owner_gone env p (h_start_delta h)"
  shows "holder_dead env h"
  using assms by (auto simp: holder_dead_def owner_gone_def pid_alive_def split: option.splits if_splits)

text \<open>
  No lock outlives its holder: when the owner of a key has been killed
  (its pid runs nothing, is a zombie, or was reused by a process started at another tick), the very
  next \<open>try_acquire\<close> of the key is granted, installs exactly the caller's record with the server's
  stamp, and leaves every other key alone.
\<close>

theorem killed_holder_is_reclaimed:
  assumes "map_of tab key = Some h" and "h_owner_pid h = Some p"
    and "owner_gone env p (h_start_delta h)"
  shows "fst (try_acquire env tab key rec)
         \<and> map_of (snd (try_acquire env tab key rec)) = (map_of tab)(key \<mapsto> stamp env rec)"
  using try_acquire_dead [OF assms(1) owner_gone_dead [OF assms(2,3)]] by simp_all

lemma killed_holder_is_reclaimed_witness:
  "map_of (snd (try_acquire ex_env
      [(''k'', \<lparr>h_owner_pid = Some 8, h_lease_id = ''X'', h_start_delta = None\<rparr>)] ''k'' (ex_claim ''A''))) ''k''
    = Some (stamp ex_env (ex_claim ''A''))"
proof -
  have "map_of [(''k'', \<lparr>h_owner_pid = Some 8, h_lease_id = ''X'', h_start_delta = None\<rparr>)] ''k''
      = Some \<lparr>h_owner_pid = Some 8, h_lease_id = ''X'', h_start_delta = None\<rparr>" by simp
  from killed_holder_is_reclaimed [OF this, of 8 ex_env "ex_claim ''A''"] show ?thesis
    by (simp add: owner_gone_def ex_env_def)
qed

text \<open>
  What a client of the table relies on, for any implementation of the two calls. \<open>lease_at\<close> is the
  lease under a key, \<open>takeable\<close> says that a claim of the key is granted.
\<close>

locale lease_provider =
  fixes acquire :: "os_env \<Rightarrow> 't \<Rightarrow> string \<Rightarrow> claim \<Rightarrow> bool \<times> 't"
    and release :: "'t \<Rightarrow> string \<Rightarrow> string \<Rightarrow> bool \<times> 't"
    and lease_at :: "'t \<Rightarrow> string \<Rightarrow> string option"
    and takeable :: "os_env \<Rightarrow> 't \<Rightarrow> string \<Rightarrow> bool"
  assumes acquire_granted:
      "takeable env t k \<Longrightarrow> fst (acquire env t k c)
       \<and> lease_at (snd (acquire env t k c)) = (lease_at t)(k \<mapsto> c_lease_id c)"
    and acquire_refused: "\<not> takeable env t k \<Longrightarrow> acquire env t k c = (False, t)"
    and release_own: "lease_at t k = Some l \<Longrightarrow> fst (release t k l)
       \<and> lease_at (snd (release t k l)) = (lease_at t)(k := None)"
    and release_foreign: "lease_at t k \<noteq> Some l \<Longrightarrow> release t k l = (False, t)"
    and free_takeable: "lease_at t k = None \<Longrightarrow> takeable env t k"
begin

lemma acquire_iff: "fst (acquire env t k c) \<longleftrightarrow> takeable env t k"
  using acquire_granted acquire_refused by (metis fst_conv)

lemma release_idempotent: "release (snd (release t k l)) k l = (False, snd (release t k l))"
proof (cases "lease_at t k = Some l")
  case True
  then show ?thesis using release_own release_foreign by simp
qed (simp add: release_foreign)

lemma cycle_frees_key:
  assumes "acquire env t k c = (True, t')"
  shows "lease_at (snd (release t' k (c_lease_id c))) = (lease_at t)(k := None)"
    and "takeable env' (snd (release t' k (c_lease_id c))) k"
proof -
  have "takeable env t k" using assms acquire_iff by (metis fst_conv)
  from acquire_granted [OF this, of c] have l: "lease_at t' = (lease_at t)(k \<mapsto> c_lease_id c)"
    using assms by simp
  then show "lease_at (snd (release t' k (c_lease_id c))) = (lease_at t)(k := None)"
    using release_own by simp
  then show "takeable env' (snd (release t' k (c_lease_id c))) k" using free_takeable by simp
qed

text \<open>A late release by a client whose lease was reclaimed does not evict the new holder.\<close>

lemma late_release_harmless:
  assumes "lease_at t k = Some l'" and "l' \<noteq> l"
  shows "snd (release t k l) = t"
  using assms release_foreign by simp

end

definition lease_at :: "holder_table \<Rightarrow> string \<Rightarrow> string option" where
  "lease_at tab k = map_option h_lease_id (map_of tab k)"

definition takeable :: "os_env \<Rightarrow> holder_table \<Rightarrow> string \<Rightarrow> bool" where
  "takeable env tab k = (case map_of tab k of None \<Rightarrow> True | Some h \<Rightarrow> holder_dead env h)"

interpretation keyed_table: lease_provider try_acquire ht_release lease_at takeable
proof unfold_locales
  fix env t k c assume "takeable env t k"
  then have "try_acquire env t k c = (True, od_set k (stamp env c) t)"
    using try_acquire_free try_acquire_dead by (auto simp: takeable_def split: option.splits)
  then show "fst (try_acquire env t k c)
      \<and> lease_at (snd (try_acquire env t k c)) = (lease_at t)(k \<mapsto> c_lease_id c)"
    by (auto simp: lease_at_def)
next
  fix env t k c assume "\<not> takeable env t k"
  then show "try_acquire env t k c = (False, t)"
    using try_acquire_live by (auto simp: takeable_def split: option.splits)
qed (auto simp: lease_at_def takeable_def ht_release_def fun_eq_iff split: option.splits)

text \<open>
  One use of a lock object: an acquire that returns leaves exactly its own lease
  under its key; the release that follows frees the key whatever happened to other keys, a second
  release does nothing, and a release that comes after the key went to another holder does not evict
  that holder.
\<close>

theorem lease_lock_cycle:
  fixes lk :: lease_lock
  defines "k \<equiv> ll_key lk"
  assumes "lease_lock_acquire lk pid uuid rnd views = (lk', Some tab')"
  shows "lease_at tab' k = Some uuid
    \<and> lease_at (snd (lease_lock_release lk' tab')) k = None
    \<and> lease_lock_release (fst (lease_lock_release lk' tab')) tab2 = (fst (lease_lock_release lk' tab'), tab2)
    \<and> (lease_at tab2 k \<noteq> Some uuid \<longrightarrow> snd (lease_lock_release lk' tab2) = tab2)"
proof (intro conjI impI)
  have poll: "snd (lease_poll k' c rnd n vs) = Some (m, t) \<Longrightarrow>
      \<exists>env t0. try_acquire env t0 k' c = (True, t)" for k' c n vs m t
  proof (induction vs arbitrary: n)
    case (Cons v vs)
    obtain env tab where v: "v = (env, tab)" by force
    show ?case
    proof (cases "fst (try_acquire env tab k' c)")
      case True
      then show ?thesis using Cons.prems by (cases "try_acquire env tab k' c") (auto simp: v)
    next
      case False
      then have "snd (lease_poll k' c rnd (n + 1) vs) = Some (m, t)"
        using Cons.prems by (cases "try_acquire env tab k' c") (auto simp: v split: prod.splits)
      then show ?thesis by (rule Cons.IH)
    qed
  qed simp
  obtain env t0 where g: "try_acquire env t0 k \<lparr>c_owner_pid = Some pid, c_lease_id = uuid\<rparr> = (True, tab')"
    and lk': "lk' = lk\<lparr>ll_lease := Some uuid\<rparr>"
    using assms(2) poll unfolding lease_lock_acquire_def k_def
    by (fastforce split: option.splits)
  have t: "takeable env t0 k" using keyed_table.acquire_iff g by (metis fst_conv)
  show "lease_at tab' k = Some uuid"
    using keyed_table.acquire_granted [OF t, of "\<lparr>c_owner_pid = Some pid, c_lease_id = uuid\<rparr>"] g by simp
  show "lease_at (snd (lease_lock_release lk' tab')) k = None"
    using keyed_table.cycle_frees_key(1) [OF g]
    by (simp add: lease_lock_release_def lk' k_def)
  show "lease_lock_release (fst (lease_lock_release lk' tab')) tab2 = (fst (lease_lock_release lk' tab'), tab2)"
    by (simp add: lease_lock_release_def lk')
  show "snd (lease_lock_release lk' tab2) = tab2" if "lease_at tab2 k \<noteq> Some uuid"
    using that keyed_table.release_foreign by (simp add: lease_lock_release_def lk' k_def)
qed

lemma lease_lock_cycle_witness:
  "lease_at [(''ns:k'', stamp ex_env \<lparr>c_owner_pid = Some 7, c_lease_id = ''A''\<rparr>)] ''ns:k'' = Some ''A''"
proof -
  have "lease_lock_acquire (new_lease_lock (get_combined_key ''ns'' ''k'')) 7 ''A'' (\<lambda>_. 0) [(ex_env, [])]
      = (\<lparr>ll_key = ''ns:k'', ll_lease = Some ''A''\<rparr>,
         Some [(''ns:k'', stamp ex_env \<lparr>c_owner_pid = Some 7, c_lease_id = ''A''\<rparr>)])"
    by (simp add: lease_lock_acquire_def new_lease_lock_def get_combined_key_def try_acquire_free)
  from lease_lock_cycle [OF this] show ?thesis
    by (simp add: new_lease_lock_def get_combined_key_def)
qed

section \<open>The poll\<close>

lemma backoff_bounds:
  assumes "0 \<le> rnd" and "rnd < 1"
  shows "1 / 100 \<le> keyed_lease_backoff n rnd" and "keyed_lease_backoff n rnd < 1 / 2"
proof -
  define base where "base = min KEYED_LEASE_POLL_MAX (KEYED_LEASE_POLL_BASE * 2 ^ min n 5)"
  have "(1::real) \<le> 2 ^ min n 5" by (rule one_le_power) simp
  then have b: "1 / 50 \<le> base" "base \<le> 1 / 2"
    by (simp_all add: base_def KEYED_LEASE_POLL_MAX_def KEYED_LEASE_POLL_BASE_def)
  have f: "1 / 2 \<le> 1 / 2 + rnd * (1 / 2)" "1 / 2 + rnd * (1 / 2) < 1" using assms by simp_all
  have "1 / 50 * (1 / 2) \<le> base * (1 / 2 + rnd * (1 / 2))"
    using b f by (intro mult_mono) auto
  then show "1 / 100 \<le> keyed_lease_backoff n rnd"
    by (simp add: keyed_lease_backoff_def base_def Let_def)
  have "base * (1 / 2 + rnd * (1 / 2)) < base * 1"
    using b f by (intro mult_strict_left_mono) auto
  then have "base * (1 / 2 + rnd * (1 / 2)) < 1 / 2" using b(2) by linarith
  then show "keyed_lease_backoff n rnd < 1 / 2"
    by (simp add: keyed_lease_backoff_def base_def Let_def)
qed

text \<open>
  The poll of a contended lock: it stops exactly at the first round whose
  \<open>try_acquire\<close> is granted, sleeps once for every refused round before it, and every sleep lies between
  10 milliseconds and half a second, however long the wait.
\<close>

theorem lease_poll_sound:
  assumes "list_all (\<lambda>n. 0 \<le> rnd n \<and> rnd n < 1) [0..<length views]"
  shows "lease_poll key rec rnd 0 views =
      (let n = length (takeWhile (\<lambda>(env, tab). \<not> fst (try_acquire env tab key rec)) views)
       in (map (\<lambda>i. keyed_lease_backoff i (rnd i)) [0..<n],
           if n < length views
           then Some (n, snd (try_acquire (fst (views ! n)) (snd (views ! n)) key rec)) else None))
    \<and> list_all (\<lambda>s. 1 / 100 \<le> s \<and> s < 1 / 2) (fst (lease_poll key rec rnd 0 views))"
proof
  have gen: "lease_poll key rec rnd a vs =
      (let n = length (takeWhile (\<lambda>(env, tab). \<not> fst (try_acquire env tab key rec)) vs)
       in (map (\<lambda>i. keyed_lease_backoff i (rnd i)) [a..<a + n],
           if n < length vs
           then Some (a + n, snd (try_acquire (fst (vs ! n)) (snd (vs ! n)) key rec)) else None))"
    for a vs
  proof (induction vs arbitrary: a)
    case (Cons v vs)
    obtain env tab where v: "v = (env, tab)" by force
    show ?case
      by (cases "try_acquire env tab key rec"; cases "fst (try_acquire env tab key rec)")
        (auto simp: v Cons.IH Let_def upt_rec [of a] simp del: upt.simps)
  qed (simp add: Let_def)
  from gen [of 0 views] show eq: "lease_poll key rec rnd 0 views =
      (let n = length (takeWhile (\<lambda>(env, tab). \<not> fst (try_acquire env tab key rec)) views)
       in (map (\<lambda>i. keyed_lease_backoff i (rnd i)) [0..<n],
           if n < length views
           then Some (n, snd (try_acquire (fst (views ! n)) (snd (views ! n)) key rec)) else None))"
    by (simp only: add_0)
  have "length (takeWhile P views) \<le> length views" for P by (rule length_takeWhile_le)
  then show "list_all (\<lambda>s. 1 / 100 \<le> s \<and> s < 1 / 2) (fst (lease_poll key rec rnd 0 views))"
    using assms backoff_bounds unfolding eq Let_def list_all_iff
    by (auto simp: less_le_trans)
qed

lemma lease_poll_sound_witness:
  "fst (lease_poll ''k'' (ex_claim ''A'') (\<lambda>_. 1 / 2) 0
      [(ex_env, [(''k'', \<lparr>h_owner_pid = None, h_lease_id = ''X'', h_start_delta = None\<rparr>)]), (ex_env, [])])
   = [keyed_lease_backoff 0 (1 / 2)]"
  by (subst conjunct1 [OF lease_poll_sound])
    (simp_all add: try_acquire_free try_acquire_live holder_dead_def Let_def upt_rec)

end
