(* ===== verification/Reservation.thy ===== *)
theory Reservation
  imports IngressHub IngressAsyncio Liveness
begin

text \<open>
  The pipeline reservations of \<open>ontorag/kg/shared_storage.py\<close>: the shared \<open>pipeline_status\<close> record,
  the recovery of dead owners' reservations, and the operations that take, check and release a
  reservation. Each operation runs under \<open>pipeline_status_lock\<close>, so it is one function from the status
  to its result and the new status. \<open>snapshot.update(u)\<close> followed by \<open>status.update(u)\<close> is one update,
  since the snapshot is a copy taken under the lock. The ingress calls are arguments.
\<close>

section \<open>The shared status\<close>

datatype owner_key = BusyOwner | ScanningOwner

datatype manual_phase = MANUAL_PHASE_IDLE | MANUAL_PHASE_DRAIN_TO_IDLE | MANUAL_PHASE_EXCLUSIVE_RESET

record operation =
  op_kind :: string
  op_doc_id :: "string option"
  op_scope :: "string option"

record owner_rec =
  ow_token :: string
  ow_pid :: "int option"
  ow_start :: "string option"
  ow_kind :: "string option"

text \<open>An owner slot holds a bare token or an owner record (a \<open>dict\<close>).\<close>

datatype owner = Bare string | Rec owner_rec

record manual_owner =
  mo_request_id :: string
  mo_owner_token :: string
  mo_pid :: "int option"
  mo_start :: "string option"

text \<open>The metadata of one pending enqueue; \<open>em_weight\<close> is \<open>None\<close> when it is no integer.\<close>

record enq_meta =
  em_pid :: "int option"
  em_start :: "string option"
  em_weight :: "int option"

record fence =
  fe_kind :: "string option"
  fe_owner_key :: owner_key
  fe_operation :: "operation option"
  fe_message :: "string option"

record pipeline_status =
  ps_busy :: bool
  ps_destructive_busy :: bool
  ps_scanning :: bool
  ps_scanning_exclusive :: bool
  ps_pending_enqueues :: nat
  ps_job_name :: string
  ps_job_start :: "string option"
  ps_docs :: int
  ps_batchs :: int
  ps_cur_batch :: int
  ps_cancellation_requested :: bool
  ps_cancellation_reason :: "string option"
  ps_cancellation_detail :: "string option"
  ps_latest_message :: string
  ps_history_messages :: "string list"
  ps_busy_owner :: "owner option"
  ps_scanning_owner :: "owner option"
  ps_pending_enqueue_tokens :: "(string, enq_meta option) odict"
  ps_operation_record :: "operation option"
  ps_recovery_required :: "fence option"
  ps_scan_deferred_processing :: bool
  ps_manual_freeze_requested :: bool
  ps_manual_freeze_started_at :: "real option"
  ps_manual_resetting :: bool
  ps_manual_phase :: manual_phase
  ps_manual_owner :: "manual_owner option"

definition initial_pipeline_status :: pipeline_status where
  "initial_pipeline_status =
     \<lparr>ps_busy = False, ps_destructive_busy = False, ps_scanning = False,
      ps_scanning_exclusive = False, ps_pending_enqueues = 0, ps_job_name = ''-'',
      ps_job_start = None, ps_docs = 0, ps_batchs = 0, ps_cur_batch = 0,
      ps_cancellation_requested = False, ps_cancellation_reason = None,
      ps_cancellation_detail = None, ps_latest_message = '''', ps_history_messages = [],
      ps_busy_owner = None, ps_scanning_owner = None, ps_pending_enqueue_tokens = [],
      ps_operation_record = None, ps_recovery_required = None, ps_scan_deferred_processing = False,
      ps_manual_freeze_requested = False, ps_manual_freeze_started_at = None,
      ps_manual_resetting = False, ps_manual_phase = MANUAL_PHASE_IDLE, ps_manual_owner = None\<rparr>"

lemma initial_pipeline_status_sel [simp]:
  "\<not> ps_busy initial_pipeline_status"
  "\<not> ps_destructive_busy initial_pipeline_status"
  "\<not> ps_scanning initial_pipeline_status"
  "\<not> ps_scanning_exclusive initial_pipeline_status"
  "ps_pending_enqueues initial_pipeline_status = 0"
  "ps_busy_owner initial_pipeline_status = None"
  "ps_scanning_owner initial_pipeline_status = None"
  "ps_pending_enqueue_tokens initial_pipeline_status = []"
  "ps_recovery_required initial_pipeline_status = None"
  "\<not> ps_manual_freeze_requested initial_pipeline_status"
  "\<not> ps_manual_resetting initial_pipeline_status"
  "ps_manual_phase initial_pipeline_status = MANUAL_PHASE_IDLE"
  "ps_manual_owner initial_pipeline_status = None"
  "\<not> ps_scan_deferred_processing initial_pipeline_status"
  by (simp_all add: initial_pipeline_status_def)

text \<open>\<open>status[owner_key]\<close>, read and written.\<close>

definition get_owner :: "owner_key \<Rightarrow> pipeline_status \<Rightarrow> owner option" where
  "get_owner k st = (case k of BusyOwner \<Rightarrow> ps_busy_owner st | ScanningOwner \<Rightarrow> ps_scanning_owner st)"

definition set_owner :: "owner_key \<Rightarrow> owner option \<Rightarrow> pipeline_status \<Rightarrow> pipeline_status" where
  "set_owner k ow st =
     (case k of BusyOwner \<Rightarrow> st\<lparr>ps_busy_owner := ow\<rparr> | ScanningOwner \<Rightarrow> st\<lparr>ps_scanning_owner := ow\<rparr>)"

text \<open>The fields a \<open>reject_when\<close> list can name. The last two have no conflict of their own.\<close>

datatype flag =
    FBusy | FScanning | FScanningExclusive | FPendingEnqueues | FDestructiveBusy
  | FManualFreezeRequested | FManualResetting | FScanDeferredProcessing

definition get_flag :: "pipeline_status \<Rightarrow> flag \<Rightarrow> bool" where
  "get_flag st f =
     (case f of
        FBusy \<Rightarrow> ps_busy st
      | FScanning \<Rightarrow> ps_scanning st
      | FScanningExclusive \<Rightarrow> ps_scanning_exclusive st
      | FPendingEnqueues \<Rightarrow> ps_pending_enqueues st \<noteq> 0
      | FDestructiveBusy \<Rightarrow> ps_destructive_busy st
      | FManualFreezeRequested \<Rightarrow> ps_manual_freeze_requested st
      | FManualResetting \<Rightarrow> ps_manual_resetting st
      | FScanDeferredProcessing \<Rightarrow> ps_scan_deferred_processing st)"

definition flag_name :: "flag \<Rightarrow> string" where
  "flag_name f =
     (case f of
        FBusy \<Rightarrow> ''busy''
      | FScanning \<Rightarrow> ''scanning''
      | FScanningExclusive \<Rightarrow> ''scanning_exclusive''
      | FPendingEnqueues \<Rightarrow> ''pending_enqueues''
      | FDestructiveBusy \<Rightarrow> ''destructive_busy''
      | FManualFreezeRequested \<Rightarrow> ''manual_freeze_requested''
      | FManualResetting \<Rightarrow> ''manual_resetting''
      | FScanDeferredProcessing \<Rightarrow> ''scan_deferred_processing'')"

text \<open>The entries of the \<open>flags\<close> dictionary of an acquire, applied in order.\<close>

datatype status_write =
    WBusy bool | WDestructiveBusy bool | WScanning bool | WScanningExclusive bool
  | WOperationRecord "operation option"
  | WJobName string | WJobStart "string option" | WDocs int | WBatchs int | WCurBatch int
  | WCancellationRequested bool | WCancellationReason "string option"
  | WCancellationDetail "string option" | WLatestMessage string

fun apply_write :: "status_write \<Rightarrow> pipeline_status \<Rightarrow> pipeline_status" where
  "apply_write (WBusy b) st = st\<lparr>ps_busy := b\<rparr>"
| "apply_write (WDestructiveBusy b) st = st\<lparr>ps_destructive_busy := b\<rparr>"
| "apply_write (WScanning b) st = st\<lparr>ps_scanning := b\<rparr>"
| "apply_write (WScanningExclusive b) st = st\<lparr>ps_scanning_exclusive := b\<rparr>"
| "apply_write (WOperationRecord r) st = st\<lparr>ps_operation_record := r\<rparr>"
| "apply_write (WJobName s) st = st\<lparr>ps_job_name := s\<rparr>"
| "apply_write (WJobStart s) st = st\<lparr>ps_job_start := s\<rparr>"
| "apply_write (WDocs n) st = st\<lparr>ps_docs := n\<rparr>"
| "apply_write (WBatchs n) st = st\<lparr>ps_batchs := n\<rparr>"
| "apply_write (WCurBatch n) st = st\<lparr>ps_cur_batch := n\<rparr>"
| "apply_write (WCancellationRequested b) st = st\<lparr>ps_cancellation_requested := b\<rparr>"
| "apply_write (WCancellationReason s) st = st\<lparr>ps_cancellation_reason := s\<rparr>"
| "apply_write (WCancellationDetail s) st = st\<lparr>ps_cancellation_detail := s\<rparr>"
| "apply_write (WLatestMessage s) st = st\<lparr>ps_latest_message := s\<rparr>"

definition apply_writes :: "status_write list \<Rightarrow> pipeline_status \<Rightarrow> pipeline_status" where
  "apply_writes = fold apply_write"

section \<open>Owners\<close>

text \<open>
  The host a call runs on: the probes, this process's start-id cache, and whether the workers share a
  manager. The cache's refreshed value is not threaded on: a refresh stores what the next call would
  compute again (\<open>my_start_id_coherent\<close>).
\<close>

record host =
  ho_env :: os_env
  ho_cache :: start_cache
  ho_multiprocess :: bool

definition reservation_recovery_enabled :: "host \<Rightarrow> bool" where
  "reservation_recovery_enabled h \<longleftrightarrow> ho_multiprocess h \<and> os_linux (ho_env h)"

definition make_owner_record :: "host \<Rightarrow> string \<Rightarrow> string \<Rightarrow> owner_rec" where
  "make_owner_record h token kind =
     \<lparr>ow_token = token, ow_pid = Some (os_getpid (ho_env h)),
      ow_start = fst (my_start_id (ho_env h) (ho_cache h)), ow_kind = Some kind\<rparr>"

definition make_manual_owner_record :: "host \<Rightarrow> string \<Rightarrow> string \<Rightarrow> manual_owner" where
  "make_manual_owner_record h request_id token =
     (let owner = make_owner_record h token ''manual''
      in \<lparr>mo_request_id = request_id, mo_owner_token = ow_token owner, mo_pid = ow_pid owner,
          mo_start = ow_start owner\<rparr>)"

definition reservation_owner_token :: "owner option \<Rightarrow> string option" where
  "reservation_owner_token record =
     (case record of None \<Rightarrow> None | Some (Bare t) \<Rightarrow> Some t | Some (Rec r) \<Rightarrow> Some (ow_token r))"

definition owner_identity_unprobeable :: "owner_rec \<Rightarrow> bool" where
  "owner_identity_unprobeable rec \<longleftrightarrow> ow_pid rec = None"

section \<open>The recovery fence\<close>

definition falsy :: "string option \<Rightarrow> bool" where
  "falsy s \<longleftrightarrow> s = None \<or> s = Some ''''"

text \<open>An f-string shows \<open>None\<close> as a word.\<close>

definition show_opt :: "string option \<Rightarrow> string" where
  "show_opt s = (case s of None \<Rightarrow> ''None'' | Some t \<Rightarrow> t)"

definition fence_target :: "fence \<Rightarrow> string" where
  "fence_target rec =
     (case fe_operation rec of
        None \<Rightarrow> ''''
      | Some op \<Rightarrow>
          if \<not> falsy (op_doc_id op) then the (op_doc_id op)
          else if \<not> falsy (op_scope op) then the (op_scope op) else '''')"

definition fence_message :: "fence \<Rightarrow> string" where
  "fence_message rec =
     (if \<not> falsy (fe_message rec) then
        ''Pipeline is fenced pending recovery: '' @ the (fe_message rec)
        @ '' All mutations are refused until the workspace is recovered or force-reset.''
      else
        (let target = fence_target rec;
             shown = (if target = '''' then '''' else '' (target: '' @ target @ '')'')
         in ''Pipeline is fenced pending recovery: a worker died mid '' @ [CHR 0x27]
            @ show_opt (fe_kind rec) @ [CHR 0x27] @ shown
            @ '', which may have left storage in a partially-committed state. ''
            @ ''All mutations are refused until the workspace is recovered or force-reset.''))"

definition pipeline_recovery_blocked_message :: "fence option \<Rightarrow> string" where
  "pipeline_recovery_blocked_message fence =
     (case fence of None \<Rightarrow> ''Pipeline is not fenced for recovery.'' | Some rec \<Rightarrow> fence_message rec)"

record fence_view =
  fv_recovery_required :: bool
  fv_recovery_kind :: "string option"
  fv_recovery_message :: "string option"

definition describe_recovery_fence :: "pipeline_status \<Rightarrow> fence_view" where
  "describe_recovery_fence st =
     (case ps_recovery_required st of
        None \<Rightarrow> \<lparr>fv_recovery_required = False, fv_recovery_kind = None, fv_recovery_message = None\<rparr>
      | Some rec \<Rightarrow>
          \<lparr>fv_recovery_required = True, fv_recovery_kind = fe_kind rec,
           fv_recovery_message = Some (pipeline_recovery_blocked_message (Some rec))\<rparr>)"

text \<open>
  \<open>fence_workspace_for_recovery\<close>: the first cause is kept. \<open>run_to_completion\<close> only shields the call
  from cancellation.
\<close>

definition fence_workspace_for_recovery ::
  "string \<Rightarrow> string \<Rightarrow> operation option \<Rightarrow> pipeline_status \<Rightarrow> pipeline_status" where
  "fence_workspace_for_recovery kind message operation_record st =
     (if ps_recovery_required st \<noteq> None then st
      else st\<lparr>ps_recovery_required :=
          Some \<lparr>fe_kind = Some kind, fe_owner_key = BusyOwner, fe_operation = operation_record,
                fe_message = Some message\<rparr>\<rparr>)"

section \<open>Recovery of dead owners' reservations\<close>

definition RERUNNABLE_RESERVATION_KINDS :: "string list" where
  "RERUNNABLE_RESERVATION_KINDS = [''processing'', ''scan'']"

definition owner_flags_set :: "owner_key \<Rightarrow> pipeline_status \<Rightarrow> bool" where
  "owner_flags_set k st =
     (case k of
        BusyOwner \<Rightarrow> ps_busy st \<or> ps_destructive_busy st
      | ScanningOwner \<Rightarrow> ps_scanning st \<or> ps_scanning_exclusive st)"

definition clear_owner_flags :: "owner_key \<Rightarrow> pipeline_status \<Rightarrow> pipeline_status" where
  "clear_owner_flags k st =
     (case k of
        BusyOwner \<Rightarrow> st\<lparr>ps_busy := False, ps_destructive_busy := False\<rparr>
      | ScanningOwner \<Rightarrow> st\<lparr>ps_scanning := False, ps_scanning_exclusive := False\<rparr>)"

definition clear_manual_state :: "pipeline_status \<Rightarrow> pipeline_status" where
  "clear_manual_state st =
     st\<lparr>ps_manual_freeze_requested := False, ps_manual_freeze_started_at := None,
        ps_manual_resetting := False, ps_manual_phase := MANUAL_PHASE_IDLE, ps_manual_owner := None\<rparr>"

definition dead_reservation_updates ::
  "owner_key \<Rightarrow> owner_rec \<Rightarrow> pipeline_status \<Rightarrow> pipeline_status" where
  "dead_reservation_updates k rec st =
     (let st1 = clear_owner_flags k (set_owner k None st);
          st2 = (if k = BusyOwner then clear_manual_state st1 else st1)
      in if (case ow_kind rec of None \<Rightarrow> False | Some kind \<Rightarrow> kind \<in> set RERUNNABLE_RESERVATION_KINDS)
         then st2
         else st2\<lparr>ps_recovery_required :=
             Some \<lparr>fe_kind = ow_kind rec, fe_owner_key = k, fe_operation = ps_operation_record st,
                   fe_message = None\<rparr>\<rparr>)"

definition owner_key_name :: "owner_key \<Rightarrow> string" where
  "owner_key_name k = (case k of BusyOwner \<Rightarrow> ''busy_owner'' | ScanningOwner \<Rightarrow> ''scanning_owner'')"

definition unprobeable_fence :: "owner_key \<Rightarrow> owner_rec \<Rightarrow> pipeline_status \<Rightarrow> fence" where
  "unprobeable_fence k rec st =
     \<lparr>fe_kind = (if falsy (ow_kind rec) then Some (owner_key_name k) else ow_kind rec),
      fe_owner_key = k, fe_operation = ps_operation_record st,
      fe_message = Some (''the '' @ [CHR 0x27] @ owner_key_name k @ [CHR 0x27]
        @ '' holder records no process identity, so it can never be confirmed alive or dead; ''
        @ ''its reservation is left untouched rather than reclaimed on a guess.'')\<rparr>"

text \<open>One round of the loop over the two owners.\<close>

definition recover_owner :: "host \<Rightarrow> owner_key \<Rightarrow> pipeline_status \<Rightarrow> pipeline_status" where
  "recover_owner h k st =
     (case get_owner k st of
        Some (Rec rec) \<Rightarrow>
          if \<not> owner_flags_set k st then st
          else if process_alive (ho_env h) (ho_cache h) (ow_pid rec) (ow_start rec) then
            (if owner_identity_unprobeable rec \<and> ps_recovery_required st = None
             then st\<lparr>ps_recovery_required := Some (unprobeable_fence k rec st)\<rparr> else st)
          else dead_reservation_updates k rec st
      | _ \<Rightarrow> st)"

definition token_alive :: "host \<Rightarrow> enq_meta option \<Rightarrow> bool" where
  "token_alive h meta =
     (case meta of
        None \<Rightarrow> process_alive (ho_env h) (ho_cache h) None None
      | Some m \<Rightarrow> process_alive (ho_env h) (ho_cache h) (em_pid m) (em_start m))"

definition recover_tokens :: "host \<Rightarrow> pipeline_status \<Rightarrow> pipeline_status" where
  "recover_tokens h st =
     (let tokens = ps_pending_enqueue_tokens st;
          alive = filter (\<lambda>(token, meta). token_alive h meta) tokens
      in if length alive \<noteq> length tokens \<or> ps_pending_enqueues st \<noteq> length alive
         then st\<lparr>ps_pending_enqueue_tokens := alive, ps_pending_enqueues := length alive\<rparr> else st)"

definition reconcile_dead_pipeline_reservations :: "host \<Rightarrow> pipeline_status \<Rightarrow> pipeline_status" where
  "reconcile_dead_pipeline_reservations h st =
     (if \<not> reservation_recovery_enabled h then st
      else recover_tokens h (recover_owner h ScanningOwner (recover_owner h BusyOwner st)))"

section \<open>Taking a reservation\<close>

text \<open>
  What one workspace's calls share: the status, the ingress (of any implementation), and the two
  process counters the calls increment.
\<close>

record 'i pipe =
  pl_status :: pipeline_status
  pl_ingress :: 'i
  pl_freeze_rejects :: nat
  pl_auto_rescan_rearms :: nat

abbreviation map_status :: "(pipeline_status \<Rightarrow> pipeline_status) \<Rightarrow> 'i pipe \<Rightarrow> 'i pipe" where
  "map_status f p \<equiv> p\<lparr>pl_status := f (pl_status p)\<rparr>"

datatype conflict =
    BUSY | SCANNING | PENDING_ENQUEUE | DESTRUCTIVE | RECOVERY_REQUIRED | MANUAL_FREEZE

record reservation_result =
  rr_acquired :: bool
  rr_conflict :: "conflict option"
  rr_message :: "string option"
  rr_snapshot :: pipeline_status
  rr_fence :: "string option"

definition granted :: "pipeline_status \<Rightarrow> reservation_result" where
  "granted st = \<lparr>rr_acquired = True, rr_conflict = None, rr_message = None, rr_snapshot = st, rr_fence = None\<rparr>"

definition recovery_required_result :: "pipeline_status \<Rightarrow> reservation_result" where
  "recovery_required_result snapshot =
     \<lparr>rr_acquired = False, rr_conflict = Some RECOVERY_REQUIRED,
      rr_message = Some (pipeline_recovery_blocked_message (ps_recovery_required snapshot)),
      rr_snapshot = snapshot, rr_fence = Some ''recovery_required''\<rparr>"

definition conflict_of_flag :: "flag \<Rightarrow> conflict option" where
  "conflict_of_flag f =
     (case f of
        FBusy \<Rightarrow> Some BUSY
      | FScanning \<Rightarrow> Some SCANNING
      | FScanningExclusive \<Rightarrow> Some SCANNING
      | FPendingEnqueues \<Rightarrow> Some PENDING_ENQUEUE
      | FDestructiveBusy \<Rightarrow> Some DESTRUCTIVE
      | FManualFreezeRequested \<Rightarrow> Some MANUAL_FREEZE
      | FManualResetting \<Rightarrow> None
      | FScanDeferredProcessing \<Rightarrow> None)"

text \<open>\<open>_conflict_for_status_flag\<close>: counts a freeze refusal, raises on an unmapped flag.\<close>

definition conflict_for_status_flag :: "flag \<Rightarrow> 'i pipe \<Rightarrow> conflict res \<times> 'i pipe" where
  "conflict_for_status_flag f p =
     (let p' = (if f = FManualFreezeRequested
                then p\<lparr>pl_freeze_rejects := Suc (pl_freeze_rejects p)\<rparr> else p)
      in (case conflict_of_flag f of None \<Rightarrow> Inl ValueError | Some c \<Rightarrow> Inr c, p'))"

definition refuse_flag ::
  "flag \<Rightarrow> string \<Rightarrow> 'i pipe \<Rightarrow> reservation_result res \<times> 'i pipe" where
  "refuse_flag f reason p =
     (case conflict_for_status_flag f p of
        (r, p') \<Rightarrow>
          (map_sum id (\<lambda>c. \<lparr>rr_acquired = False, rr_conflict = Some c, rr_message = Some reason,
                            rr_snapshot = pl_status p', rr_fence = Some (flag_name f)\<rparr>) r, p'))"

text \<open>\<open>for flag_key, reason in reject_when: if snapshot.get(flag_key): ...\<close>: the first flag set.\<close>

definition first_reject :: "(flag \<times> string) list \<Rightarrow> pipeline_status \<Rightarrow> (flag \<times> string) option" where
  "first_reject reject_when st = find (\<lambda>(f, reason). get_flag st f) reject_when"

definition pending_manual_message :: "ingress_msg \<Rightarrow> string" where
  "pending_manual_message msg =
     ''An earlier manual retry request ('' @ take 8 (show_opt (m_request_id msg))
     @ '') is still queued. A scan must not jump the manual retry FIFO ''
     @ [CHR 0xE2, CHR 0x80, CHR 0x94] @ '' retry once it has been served.''"

text \<open>
  \<open>acquire_reservation\<close>. \<open>peek\<close> is \<open>pipeline_ingress.peek_next_manual_retry\<close>, \<open>None\<close> when no ingress is
  passed.
\<close>

definition acquire_reservation ::
  "host \<Rightarrow> owner_key \<Rightarrow> owner \<Rightarrow> string option \<Rightarrow> status_write list \<Rightarrow> (flag \<times> string) list
   \<Rightarrow> ('i \<Rightarrow> ingress_msg option) option \<Rightarrow> bool \<Rightarrow> 'i pipe \<Rightarrow> reservation_result res \<times> 'i pipe" where
  "acquire_reservation h owner_key owner owner_kind flags reject_when peek refuse_when_manual_pending p =
     (let owner' = (case owner_kind of
            None \<Rightarrow> owner
          | Some kind \<Rightarrow> Rec (make_owner_record h (the (reservation_owner_token (Some owner))) kind))
      in if refuse_when_manual_pending \<and> peek = None then (Inl ValueError, p)
      else
        (let p1 = map_status (reconcile_dead_pipeline_reservations h) p;
             snapshot = pl_status p1
         in if ps_recovery_required snapshot \<noteq> None then (Inr (recovery_required_result snapshot), p1)
         else (case first_reject reject_when snapshot of
             Some (f, reason) \<Rightarrow> refuse_flag f reason p1
           | None \<Rightarrow>
               (case (if refuse_when_manual_pending then (the peek) (pl_ingress p1) else None) of
                  Some msg \<Rightarrow>
                    (Inr \<lparr>rr_acquired = False, rr_conflict = Some MANUAL_FREEZE,
                          rr_message = Some (pending_manual_message msg), rr_snapshot = snapshot,
                          rr_fence = None\<rparr>, p1)
                | None \<Rightarrow>
                    (let p2 = map_status (set_owner owner_key (Some owner') \<circ> apply_writes flags) p1
                     in (Inr (granted (pl_status p2)), p2))))))"

definition reservation_weight :: "enq_meta option \<Rightarrow> int" where
  "reservation_weight metadata =
     (case metadata of
        None \<Rightarrow> 0
      | Some m \<Rightarrow> (case em_weight m of None \<Rightarrow> 0 | Some w \<Rightarrow> if w > 0 then w else 0))"

definition set_tokens :: "(string, enq_meta option) odict \<Rightarrow> pipeline_status \<Rightarrow> pipeline_status" where
  "set_tokens tokens st =
     st\<lparr>ps_pending_enqueue_tokens := tokens, ps_pending_enqueues := length tokens\<rparr>"

definition reserved_elsewhere :: "string \<Rightarrow> pipeline_status \<Rightarrow> int" where
  "reserved_elsewhere token st =
     sum_list (map (reservation_weight \<circ> snd)
       (filter (\<lambda>(other, _). other \<noteq> token) (ps_pending_enqueue_tokens st)))"

definition new_enq_meta :: "host \<Rightarrow> int \<Rightarrow> enq_meta option" where
  "new_enq_meta h weight =
     Some \<lparr>em_pid = Some (os_getpid (ho_env h)), em_start = fst (my_start_id (ho_env h) (ho_cache h)),
           em_weight = Some weight\<rparr>"

definition acquire_enqueue_reservation ::
  "host \<Rightarrow> string \<Rightarrow> (flag \<times> string) list \<Rightarrow> int \<Rightarrow> int \<Rightarrow> int option \<Rightarrow> 'i pipe
   \<Rightarrow> reservation_result res \<times> 'i pipe" where
  "acquire_enqueue_reservation h token reject_when weight capacity active_count p =
     (if capacity > 0 \<and> active_count = None then (Inl ValueError, p)
      else
        (let p1 = map_status (reconcile_dead_pipeline_reservations h) p;
             snapshot = pl_status p1;
             tokens = ps_pending_enqueue_tokens snapshot
         in if ps_recovery_required snapshot \<noteq> None then (Inr (recovery_required_result snapshot), p1)
         else (case (if map_of tokens token = None then first_reject reject_when snapshot else None) of
             Some (f, reason) \<Rightarrow> refuse_flag f reason p1
           | None \<Rightarrow>
               (let current = (case active_count of None \<Rightarrow> 0 | Some n \<Rightarrow> n) + reserved_elsewhere token snapshot
                in if capacity > 0 \<and> current + weight > capacity
                   then (Inl (PipelineBackpressure current weight capacity), p1)
                   else
                     (let p2 = map_status (set_tokens (od_set token (new_enq_meta h weight) tokens)) p1
                      in (Inr (granted (pl_status p2)), p2))))))"

definition check_pipeline_status_mutation ::
  "host \<Rightarrow> (flag \<times> string) list \<Rightarrow> string option \<Rightarrow> 'i pipe \<Rightarrow> reservation_result res \<times> 'i pipe" where
  "check_pipeline_status_mutation h reject_when exempt_if_reserved p =
     (let p1 = map_status (reconcile_dead_pipeline_reservations h) p;
          snapshot = pl_status p1;
          reject_when' =
            (case exempt_if_reserved of
               None \<Rightarrow> reject_when
             | Some t \<Rightarrow> if map_of (ps_pending_enqueue_tokens snapshot) t \<noteq> None then [] else reject_when)
      in if ps_recovery_required snapshot \<noteq> None then (Inr (recovery_required_result snapshot), p1)
      else (case first_reject reject_when' snapshot of
          Some (f, reason) \<Rightarrow> refuse_flag f reason p1
        | None \<Rightarrow> (Inr (granted snapshot), p1)))"

text \<open>
  \<open>acquire_processing_reservation\<close>. \<open>arm\<close> is \<open>pipeline_ingress.request_auto_rescan\<close>; the history list
  is shared, so clearing it through the snapshot clears it in the status.
\<close>

definition scanning_message :: string where
  "scanning_message =
     ''Document scan is classifying files; processing resumes after the classification phase finishes.''"

definition busy_message :: string where
  "busy_message = ''Another process is already processing the document queue.''"

definition take_processing_slot ::
  "host \<Rightarrow> string \<Rightarrow> bool \<Rightarrow> status_write list \<Rightarrow> pipeline_status \<Rightarrow> pipeline_status" where
  "take_processing_slot h token owns flags st =
     (let st1 = (apply_writes flags st)\<lparr>ps_busy := True,
                  ps_busy_owner := Some (Rec (make_owner_record h token ''processing'')),
                  ps_history_messages := []\<rparr>
      in if owns then st1 else st1\<lparr>ps_scan_deferred_processing := False\<rparr>)"

definition owns_scan_fence :: "string option \<Rightarrow> pipeline_status \<Rightarrow> bool" where
  "owns_scan_fence scan_reset_owner_token snapshot \<longleftrightarrow>
     scan_reset_owner_token \<noteq> None
     \<and> reservation_owner_token (ps_scanning_owner snapshot) = scan_reset_owner_token"

definition acquire_processing_reservation ::
  "host \<Rightarrow> string \<Rightarrow> bool \<Rightarrow> ('i \<Rightarrow> 'i) \<Rightarrow> status_write list \<Rightarrow> string option \<Rightarrow> 'i pipe
   \<Rightarrow> reservation_result \<times> 'i pipe" where
  "acquire_processing_reservation h token already_held arm flags scan_reset_owner_token p =
     (let p1 = map_status (reconcile_dead_pipeline_reservations h) p;
          snapshot = pl_status p1;
          owns = owns_scan_fence scan_reset_owner_token snapshot
      in if ps_recovery_required snapshot \<noteq> None then (recovery_required_result snapshot, p1)
      else if \<not> already_held \<and> \<not> owns \<and> ps_scanning_exclusive snapshot then
        (let p2 = map_status (ps_scan_deferred_processing_update (\<lambda>_. True)) p1
         in (\<lparr>rr_acquired = False, rr_conflict = Some SCANNING, rr_message = Some scanning_message,
              rr_snapshot = pl_status p2, rr_fence = None\<rparr>, p2))
      else if \<not> already_held \<and> ps_busy snapshot then
        (\<lparr>rr_acquired = False, rr_conflict = Some BUSY, rr_message = Some busy_message,
          rr_snapshot = snapshot, rr_fence = None\<rparr>,
         p1\<lparr>pl_ingress := arm (pl_ingress p1),
            pl_auto_rescan_rearms := Suc (pl_auto_rescan_rearms p1)\<rparr>)
      else
        (let p2 = map_status (take_processing_slot h token owns flags) p1
         in (granted (pl_status p2), p2)))"

definition transition_scanning_reservation :: "string \<Rightarrow> pipeline_status \<Rightarrow> bool \<times> pipeline_status" where
  "transition_scanning_reservation token st =
     (if reservation_owner_token (ps_scanning_owner st) \<noteq> Some token then (False, st)
      else if \<not> ps_scanning_exclusive st then (True, st)
      else (True, st\<lparr>ps_scanning_exclusive := False\<rparr>))"

definition has_scan_deferred_processing :: "pipeline_status \<Rightarrow> bool" where
  "has_scan_deferred_processing st = ps_scan_deferred_processing st"

section \<open>Releasing a reservation\<close>

text \<open>
  \<open>with_reservation_lock\<close> and its self-fetching form \<open>release_owned_reservation\<close>: \<open>action\<close> runs only for
  the owner. A workspace whose status was never initialised is \<open>None\<close>.
\<close>

definition with_reservation_lock ::
  "owner_key \<Rightarrow> string \<Rightarrow> ('i pipe \<Rightarrow> 'r \<times> 'i pipe) \<Rightarrow> 'i pipe \<Rightarrow> 'r option \<times> 'i pipe" where
  "with_reservation_lock owner_key token action p =
     (if reservation_owner_token (get_owner owner_key (pl_status p)) \<noteq> Some token then (None, p)
      else (case action p of (r, p') \<Rightarrow> (Some r, p')))"

definition with_token_set_reservation_lock ::
  "string \<Rightarrow> ('i pipe \<Rightarrow> 'r \<times> 'i pipe) option \<Rightarrow> 'i pipe \<Rightarrow> 'r option \<times> 'i pipe" where
  "with_token_set_reservation_lock token action p =
     (let tokens = ps_pending_enqueue_tokens (pl_status p)
      in if map_of tokens token = None then (None, p)
      else
        (let p1 = map_status (set_tokens (od_del token tokens)) p
         in (case action of None \<Rightarrow> (None, p1) | Some a \<Rightarrow> (case a p1 of (r, p2) \<Rightarrow> (Some r, p2)))))"

definition release_owned_reservation ::
  "owner_key \<Rightarrow> string \<Rightarrow> ('i pipe \<Rightarrow> 'r \<times> 'i pipe) \<Rightarrow> 'i pipe option \<Rightarrow> 'r option \<times> 'i pipe option" where
  "release_owned_reservation owner_key token action w =
     (case w of
        None \<Rightarrow> (None, None)
      | Some p \<Rightarrow>
          if reservation_owner_token (get_owner owner_key (pl_status p)) \<noteq> Some token then (None, Some p)
          else (case action p of (r, p') \<Rightarrow> (Some r, Some p')))"

definition release_token_set_reservation ::
  "string \<Rightarrow> ('i pipe \<Rightarrow> 'r \<times> 'i pipe) option \<Rightarrow> 'i pipe option \<Rightarrow> 'r option \<times> 'i pipe option" where
  "release_token_set_reservation token action w =
     (case w of
        None \<Rightarrow> (None, None)
      | Some p \<Rightarrow>
          (let tokens = ps_pending_enqueue_tokens (pl_status p)
           in if map_of tokens token = None then (None, Some p)
           else
             (let p1 = map_status (set_tokens (od_del token tokens)) p
              in (case action of
                    None \<Rightarrow> (None, Some p1)
                  | Some a \<Rightarrow> (case a p1 of (r, p2) \<Rightarrow> (Some r, Some p2))))))"

section \<open>Committing a manual retry\<close>

text \<open>
  \<open>commit_manual_retry_request\<close>: the answer is the refusal (its text, and whether the channel was
  full), or \<open>None\<close> with \<open>committed\<close>. \<open>publish\<close> is \<open>ingress.request_manual_retry\<close>, which may raise.
\<close>

record manual_refusal =
  mr_message :: string
  mr_capacity_exceeded :: bool

definition destructive_refusal :: string where
  "destructive_refusal =
     ''A clear/delete operation is dropping storages; a manual retry accepted now would be wiped with them. ''
     @ ''Retry after it finishes.''"

definition commit_manual_retry_request ::
  "host \<Rightarrow> (string \<Rightarrow> ingress_msg \<Rightarrow> 'i \<Rightarrow> (publish_result \<times> 'i) res) \<Rightarrow> string \<Rightarrow> 'i pipe
   \<Rightarrow> (manual_refusal option \<times> bool) res \<times> 'i pipe" where
  "commit_manual_retry_request h publish request_id p =
     (let message = \<lparr>m_kind = KRescan, m_doc_id = None, m_retry_failed = True, m_request_id = Some request_id\<rparr>;
          p1 = map_status (reconcile_dead_pipeline_reservations h) p;
          snapshot = pl_status p1
      in if ps_recovery_required snapshot \<noteq> None then
           (Inr (Some \<lparr>mr_message = pipeline_recovery_blocked_message (ps_recovery_required snapshot),
                       mr_capacity_exceeded = False\<rparr>, False), p1)
         else if ps_destructive_busy snapshot then
           (Inr (Some \<lparr>mr_message = destructive_refusal, mr_capacity_exceeded = False\<rparr>, False), p1)
         else (case publish request_id message (pl_ingress p1) of
             Inl e \<Rightarrow> (Inl e, p1)
           | Inr (ALREADY_TERMINAL, i) \<Rightarrow>
               (Inr (Some \<lparr>mr_message = ''manual retry request id '' @ [CHR 0x27] @ request_id @ [CHR 0x27]
                             @ '' was already finalized; mint a new request id'',
                           mr_capacity_exceeded = False\<rparr>, False), p1\<lparr>pl_ingress := i\<rparr>)
           | Inr (CAPACITY_EXCEEDED, i) \<Rightarrow>
               (Inr (Some \<lparr>mr_message = ''Too many manual retry requests are still waiting to be ''
                             @ ''served for this workspace. Retry once the queued requests ''
                             @ ''have been processed.'', mr_capacity_exceeded = True\<rparr>, False),
                p1\<lparr>pl_ingress := i\<rparr>)
           | Inr (ACCEPTED, i) \<Rightarrow> (Inr (None, True), p1\<lparr>pl_ingress := i\<rparr>)))"

section \<open>What recovery does\<close>

lemma dead_reservation_updates_sel [simp]:
  "ps_pending_enqueue_tokens (dead_reservation_updates k rec st) = ps_pending_enqueue_tokens st"
  "ps_pending_enqueues (dead_reservation_updates k rec st) = ps_pending_enqueues st"
  "get_owner k (dead_reservation_updates k rec st) = None"
  "\<not> owner_flags_set k (dead_reservation_updates k rec st)"
  by (cases k; simp add: dead_reservation_updates_def clear_owner_flags_def set_owner_def get_owner_def
      clear_manual_state_def owner_flags_set_def Let_def)+

lemma recover_owner_cases:
  "recover_owner h k st = st
   \<or> (\<exists>rec. get_owner k st = Some (Rec rec) \<and> ps_recovery_required st = None \<and> ow_pid rec = None
       \<and> recover_owner h k st = st\<lparr>ps_recovery_required := Some (unprobeable_fence k rec st)\<rparr>)
   \<or> (\<exists>rec. get_owner k st = Some (Rec rec) \<and> owner_flags_set k st
       \<and> \<not> process_alive (ho_env h) (ho_cache h) (ow_pid rec) (ow_start rec)
       \<and> recover_owner h k st = dead_reservation_updates k rec st)"
  by (auto simp: recover_owner_def owner_identity_unprobeable_def split: option.splits owner.splits)

lemma recover_owner_tokens [simp]:
  "ps_pending_enqueue_tokens (recover_owner h k st) = ps_pending_enqueue_tokens st"
  "ps_pending_enqueues (recover_owner h k st) = ps_pending_enqueues st"
  using recover_owner_cases [of h k st] by auto

text \<open>A fence only ever comes from a recovery or stays: it is never lifted.\<close>

lemma dead_reservation_fence: "ps_recovery_required st \<noteq> None \<Longrightarrow>
    ps_recovery_required (dead_reservation_updates k rec st) \<noteq> None"
  by (cases k) (simp_all add: dead_reservation_updates_def clear_owner_flags_def set_owner_def
      clear_manual_state_def Let_def split: option.split)

lemma recover_owner_fence:
  "ps_recovery_required st \<noteq> None \<Longrightarrow> ps_recovery_required (recover_owner h k st) \<noteq> None"
  using recover_owner_cases [of h k st] dead_reservation_fence by auto

lemma recover_tokens_sel [simp]:
  "ps_recovery_required (recover_tokens h st) = ps_recovery_required st"
  "get_owner k (recover_tokens h st) = get_owner k st"
  "ps_busy (recover_tokens h st) = ps_busy st"
  "ps_scanning (recover_tokens h st) = ps_scanning st"
  by (cases k; simp add: recover_tokens_def get_owner_def Let_def)+

lemma reconcile_fence:
  "ps_recovery_required st \<noteq> None \<Longrightarrow>
   ps_recovery_required (reconcile_dead_pipeline_reservations h st) \<noteq> None"
  unfolding reconcile_dead_pipeline_reservations_def
  using recover_owner_fence [of "recover_owner h BusyOwner st" h ScanningOwner]
    recover_owner_fence [of st h BusyOwner]
  by auto

text \<open>A kind that is not re-runnable and whose owner died leaves the fence.\<close>

lemma dead_destructive_fences:
  assumes "ow_kind rec = Some kind" and "kind \<notin> set RERUNNABLE_RESERVATION_KINDS"
  shows "ps_recovery_required (dead_reservation_updates k rec st) =
    Some \<lparr>fe_kind = Some kind, fe_owner_key = k, fe_operation = ps_operation_record st, fe_message = None\<rparr>"
  using assms by (simp add: dead_reservation_updates_def Let_def)

section \<open>Properties of the reservations\<close>

text \<open>
  C31. A workspace fenced for recovery refuses every mutation: whatever
  flags a caller asks for or exempts itself from, every way to take or check a reservation (the scan's, which
  also refuses while a manual retry waits and so needs a way to look at the mailbox, included), and a
  manual retry, answers with the recovery refusal, takes nothing, publishes nothing, and the fence
  stays.
\<close>

theorem recovery_fence_blocks_mutations:
  fixes h :: host and p :: "'i pipe"
  defines "p' \<equiv> map_status (reconcile_dead_pipeline_reservations h) p"
  assumes "ps_recovery_required (pl_status p) \<noteq> None"
  shows "(\<not> manual \<or> peek \<noteq> None \<longrightarrow>
         acquire_reservation h k ow kind flags rejects peek manual p = (Inr (recovery_required_result (pl_status p')), p'))
    \<and> (capacity \<le> 0 \<or> active \<noteq> None \<longrightarrow>
         acquire_enqueue_reservation h token rejects weight capacity active p
           = (Inr (recovery_required_result (pl_status p')), p'))
    \<and> acquire_processing_reservation h token held arm flags scan p = (recovery_required_result (pl_status p'), p')
    \<and> check_pipeline_status_mutation h rejects exempt p = (Inr (recovery_required_result (pl_status p')), p')
    \<and> (\<exists>m. commit_manual_retry_request h publish rid p = (Inr (Some m, False), p'))
    \<and> pl_ingress p' = pl_ingress p \<and> ps_recovery_required (pl_status p') \<noteq> None"
proof -
  obtain f where "ps_recovery_required (pl_status p') = Some f"
    using reconcile_fence [OF assms(2)] by (auto simp: p'_def)
  then show ?thesis
    unfolding p'_def
    by (auto simp: acquire_reservation_def acquire_enqueue_reservation_def
        acquire_processing_reservation_def check_pipeline_status_mutation_def
        commit_manual_retry_request_def Let_def)
qed

definition ex_fenced :: "mailbox pipe" where
  "ex_fenced = \<lparr>pl_status = fence_workspace_for_recovery ''clear'' ''drain stalled'' None initial_pipeline_status,
     pl_ingress = mailbox_init None 4 (Some 4), pl_freeze_rejects = 0, pl_auto_rescan_rearms = 0\<rparr>"

definition ex_host :: host where
  "ex_host = \<lparr>ho_env = ex_env, ho_cache = (None, None), ho_multiprocess = True\<rparr>"

lemma recovery_fence_blocks_mutations_witness:
  "rr_conflict (fst (acquire_processing_reservation ex_host ''t'' False request_auto_rescan [] None ex_fenced))
     = Some RECOVERY_REQUIRED"
proof -
  have "ps_recovery_required (pl_status ex_fenced) \<noteq> None"
    by (simp add: ex_fenced_def fence_workspace_for_recovery_def initial_pipeline_status_def)
  from recovery_fence_blocks_mutations [OF this, where h = ex_host and manual = True and peek = "Some (\<lambda>m. None)" and token = "''t''" and held = False
      and arm = request_auto_rescan and flags = "[]" and scan = None]
  have "acquire_processing_reservation ex_host ''t'' False request_auto_rescan [] None ex_fenced
      = (recovery_required_result (reconcile_dead_pipeline_reservations ex_host (pl_status ex_fenced)),
         map_status (reconcile_dead_pipeline_reservations ex_host) ex_fenced)" by simp
  then show ?thesis by (simp add: recovery_required_result_def)
qed

text \<open>The weights of all registered reservations together.\<close>

definition reserved_total :: "pipeline_status \<Rightarrow> int" where
  "reserved_total st = sum_list (map (reservation_weight \<circ> snd) (ps_pending_enqueue_tokens st))"

lemma weight_after_set:
  assumes "od_wf d"
  shows "sum_list (map (reservation_weight \<circ> snd) (od_set t m d))
     = reservation_weight m + sum_list (map (reservation_weight \<circ> snd) (filter (\<lambda>(o', _). o' \<noteq> t) d))"
  using assms
proof (induction d)
  case (Cons e d)
  obtain k v where e: "e = (k, v)" by force
  show ?case
  proof (cases "k = t")
    case True
    then have "filter (\<lambda>(o', _). o' \<noteq> t) d = d"
      using Cons.prems by (auto simp: e od_wf_def filter_id_conv rev_image_eqI)
    then show ?thesis using True by (simp add: e)
  next
    case False
    then show ?thesis using Cons by (simp add: e od_wf_def)
  qed
qed simp

lemma reservation_weight_nonneg: "0 \<le> reservation_weight m"
  by (simp add: reservation_weight_def split: option.split)

lemma reconcile_tokens:
  "ps_pending_enqueue_tokens (reconcile_dead_pipeline_reservations h st) =
     (if reservation_recovery_enabled h
      then filter (\<lambda>(token, meta). token_alive h meta) (ps_pending_enqueue_tokens st)
      else ps_pending_enqueue_tokens st)"
proof -
  have "filter (\<lambda>(token, meta). token_alive h meta) d = d"
    if "length (filter (\<lambda>(token, meta). token_alive h meta) d) = length d" for d
    using that by (metis filter_id_conv length_filter_less not_less_iff_gr_or_eq)
  from this [of "ps_pending_enqueue_tokens st"] show ?thesis
    by (auto simp: reconcile_dead_pipeline_reservations_def recover_tokens_def Let_def)
qed

lemma reconcile_tokens_wf:
  "od_wf (ps_pending_enqueue_tokens st) \<Longrightarrow>
   od_wf (ps_pending_enqueue_tokens (reconcile_dead_pipeline_reservations h st))"
  by (simp add: reconcile_tokens od_wf_filter)

lemma refuse_flag_cases:
  "refuse_flag f reason p = (r, p') \<Longrightarrow>
   pl_status p' = pl_status p \<and> pl_ingress p' = pl_ingress p
   \<and> (r = Inl ValueError \<or> (\<exists>res. r = Inr res \<and> \<not> rr_acquired res))"
  by (auto simp: refuse_flag_def conflict_for_status_flag_def Let_def split: option.splits if_splits)

lemma refuse_flag_not_granted: "refuse_flag f reason p = (Inr r, p') \<Longrightarrow> \<not> rr_acquired r"
  using refuse_flag_cases by blast

lemma enqueue_granted:
  assumes "acquire_enqueue_reservation h token rejects weight capacity active p = (Inr r, p')"
    and "rr_acquired r"
  defines "st \<equiv> reconcile_dead_pipeline_reservations h (pl_status p)"
  shows "pl_status p' = set_tokens (od_set token (new_enq_meta h weight) (ps_pending_enqueue_tokens st)) st"
    and "pl_ingress p' = pl_ingress p"
    and "ps_recovery_required st = None"
    and "map_of (ps_pending_enqueue_tokens st) token = None \<Longrightarrow> first_reject rejects st = None"
    and "capacity > 0 \<Longrightarrow> (case active of None \<Rightarrow> 0 | Some n \<Rightarrow> n) + reserved_elsewhere token st + weight \<le> capacity"
  using assms
  by (auto simp: acquire_enqueue_reservation_def Let_def recovery_required_result_def granted_def
      dest: refuse_flag_not_granted split: if_splits option.splits prod.splits)

text \<open>
  C22. Admission: an enqueue reservation that is granted under a
  capacity leaves the strict count of active documents plus the weights of all registered
  reservations, its own new weight included, within that capacity. Re-registering a token replaces its
  weight, so a request is never charged twice, and the mirrored count is the number of registered
  tokens.
\<close>

theorem admission_never_exceeds_capacity:
  assumes "acquire_enqueue_reservation h token rejects weight capacity (Some n) p = (Inr r, p')"
    and "rr_acquired r" and "capacity > 0" and "weight \<ge> 0"
    and "od_wf (ps_pending_enqueue_tokens (pl_status p))"
  shows "n + reserved_total (pl_status p') \<le> capacity
    \<and> map_option reservation_weight (map_of (ps_pending_enqueue_tokens (pl_status p')) token) = Some weight
    \<and> ps_pending_enqueues (pl_status p') = length (ps_pending_enqueue_tokens (pl_status p'))
    \<and> od_wf (ps_pending_enqueue_tokens (pl_status p'))"
proof -
  let ?st = "reconcile_dead_pipeline_reservations h (pl_status p)"
  have wf: "od_wf (ps_pending_enqueue_tokens ?st)" using assms(5) by (rule reconcile_tokens_wf)
  have st': "pl_status p' = set_tokens (od_set token (new_enq_meta h weight) (ps_pending_enqueue_tokens ?st)) ?st"
    using enqueue_granted(1) [OF assms(1,2)] .
  have "n + reserved_elsewhere token ?st + weight \<le> capacity"
    using enqueue_granted(5) [OF assms(1,2,3)] by simp
  moreover have "reservation_weight (new_enq_meta h weight) = weight"
    using assms(4) by (simp add: reservation_weight_def new_enq_meta_def)
  ultimately show ?thesis
    using wf by (simp add: st' reserved_total_def set_tokens_def weight_after_set reserved_elsewhere_def)
qed

definition ex_idle :: "mailbox pipe" where
  "ex_idle = \<lparr>pl_status = initial_pipeline_status, pl_ingress = mailbox_init None 4 (Some 4),
     pl_freeze_rejects = 0, pl_auto_rescan_rearms = 0\<rparr>"

lemma ex_idle_reconcile: "reconcile_dead_pipeline_reservations ex_host initial_pipeline_status = initial_pipeline_status"
  by (simp add: reconcile_dead_pipeline_reservations_def recover_owner_def recover_tokens_def
      get_owner_def)

lemma admission_never_exceeds_capacity_witness:
  "7 + reserved_total (pl_status (snd
     (acquire_enqueue_reservation ex_host ''t'' [(FBusy, ''busy'')] 3 10 (Some 7) ex_idle))) \<le> 10"
proof -
  obtain r p' where rp: "acquire_enqueue_reservation ex_host ''t'' [(FBusy, ''busy'')] 3 10 (Some 7) ex_idle = (Inr r, p')"
    and acq: "rr_acquired r"
    by (simp add: acquire_enqueue_reservation_def ex_idle_def ex_idle_reconcile Let_def granted_def
        first_reject_def get_flag_def reserved_elsewhere_def)
  have "od_wf (ps_pending_enqueue_tokens (pl_status ex_idle))"
    by (simp add: ex_idle_def initial_pipeline_status_def od_wf_def)
  from admission_never_exceeds_capacity [OF rp acq _ _ this] show ?thesis by (simp add: rp)
qed

section \<open>Reservations and the ingress\<close>

lemma processing_cases:
  assumes "acquire_processing_reservation h token held arm flags scan p = (r, p')"
  defines "st \<equiv> reconcile_dead_pipeline_reservations h (pl_status p)"
  shows "(\<not> rr_acquired r \<and> rr_conflict r = Some RECOVERY_REQUIRED \<and> p' = p\<lparr>pl_status := st\<rparr>
            \<and> ps_recovery_required st \<noteq> None)
    \<or> (\<not> rr_acquired r \<and> rr_conflict r = Some SCANNING \<and> ps_scanning_exclusive st
        \<and> p' = p\<lparr>pl_status := st\<lparr>ps_scan_deferred_processing := True\<rparr>\<rparr>)
    \<or> (\<not> rr_acquired r \<and> rr_conflict r = Some BUSY \<and> ps_busy st \<and> \<not> held
        \<and> p' = p\<lparr>pl_status := st, pl_ingress := arm (pl_ingress p),
                  pl_auto_rescan_rearms := Suc (pl_auto_rescan_rearms p)\<rparr>)
    \<or> (rr_acquired r \<and> rr_conflict r = None \<and> ps_recovery_required st = None \<and> (held \<or> \<not> ps_busy st)
        \<and> (held \<or> \<not> ps_scanning_exclusive st \<or> owns_scan_fence scan st)
        \<and> p' = p\<lparr>pl_status := take_processing_slot h token (owns_scan_fence scan st) flags st\<rparr>)"
proof -
  have call: "(r, p') =
     (let p1 = p\<lparr>pl_status := st\<rparr>
      in if ps_recovery_required st \<noteq> None then (recovery_required_result st, p1)
      else if \<not> held \<and> \<not> owns_scan_fence scan st \<and> ps_scanning_exclusive st then
        (let p2 = p\<lparr>pl_status := st\<lparr>ps_scan_deferred_processing := True\<rparr>\<rparr>
         in (\<lparr>rr_acquired = False, rr_conflict = Some SCANNING, rr_message = Some scanning_message,
              rr_snapshot = pl_status p2, rr_fence = None\<rparr>, p2))
      else if \<not> held \<and> ps_busy st then
        (\<lparr>rr_acquired = False, rr_conflict = Some BUSY, rr_message = Some busy_message,
          rr_snapshot = st, rr_fence = None\<rparr>,
         p1\<lparr>pl_ingress := arm (pl_ingress p), pl_auto_rescan_rearms := Suc (pl_auto_rescan_rearms p)\<rparr>)
      else
        (let p2 = p\<lparr>pl_status := take_processing_slot h token (owns_scan_fence scan st) flags st\<rparr>
         in (granted (pl_status p2), p2)))"
    unfolding assms(1) [symmetric] acquire_processing_reservation_def st_def
    by (simp add: Let_def)
  show ?thesis
    using call unfolding Let_def
    by (simp add: recovery_required_result_def granted_def split: if_splits) (blast)
qed

lemma commit_cases:
  assumes "commit_manual_retry_request h publish rid p = (Inr (refusal, committed), p')"
  defines "st \<equiv> reconcile_dead_pipeline_reservations h (pl_status p)"
    and "msg \<equiv> \<lparr>m_kind = KRescan, m_doc_id = None, m_retry_failed = True, m_request_id = Some rid\<rparr>"
  shows "pl_status p' = st
    \<and> (committed \<longleftrightarrow> refusal = None)
    \<and> (pl_ingress p' = pl_ingress p \<and> \<not> committed
        \<or> ps_recovery_required st = None \<and> \<not> ps_destructive_busy st
          \<and> (\<exists>r. publish rid msg (pl_ingress p) = Inr (r, pl_ingress p') \<and> (committed \<longleftrightarrow> r = ACCEPTED)))"
  using assms
  by (auto simp: commit_manual_retry_request_def Let_def split: if_splits sum.splits publish_result.splits)

context ingress_client
begin

lemma busy_refusal_arms:
  assumes "ok (pl_ingress p)"
    and "acquire_processing_reservation h token held arm flags scan p = (r, p')"
    and "rr_conflict r = Some BUSY"
  shows "mb_auto_rescan_pending (view (pl_ingress p'))
    \<and> mb_manual_retries (view (pl_ingress p')) = mb_manual_retries (view (pl_ingress p))
    \<and> mb_documents (view (pl_ingress p')) = mb_documents (view (pl_ingress p))
    \<and> pl_status p' = reconcile_dead_pipeline_reservations h (pl_status p) \<and> ps_busy (pl_status p')
    \<and> ok (pl_ingress p')"
proof -
  have "p' = p\<lparr>pl_status := reconcile_dead_pipeline_reservations h (pl_status p), pl_ingress := arm (pl_ingress p),
      pl_auto_rescan_rearms := Suc (pl_auto_rescan_rearms p)\<rparr>"
    "ps_busy (reconcile_dead_pipeline_reservations h (pl_status p))"
    using processing_cases [OF assms(2)] assms(3) by auto
  moreover have "\<And>a. ok a \<Longrightarrow> ok (arm a)" by (simp add: arm_step ok_step)
  moreover have "mb_documents (view (arm (pl_ingress p))) = mb_documents (view (pl_ingress p))"
    using assms(1) by (simp add: arm_step view_step request_auto_rescan_def)
  ultimately show ?thesis using assms(1) arm_pending arm_keeps_manual by simp
qed

lemma commit_publishes:
  assumes "ok (pl_ingress p)"
    and "commit_manual_retry_request h publish rid p = (Inr (refusal, committed), p')"
  shows "(committed \<longrightarrow> refusal = None \<and> rid \<in> set (pending_ids (view (pl_ingress p')))
            \<and> \<not> ps_destructive_busy (pl_status p') \<and> ps_recovery_required (pl_status p') = None)
    \<and> (\<not> committed \<longrightarrow> refusal \<noteq> None \<and> view (pl_ingress p') = view (pl_ingress p))
    \<and> pl_status p' = reconcile_dead_pipeline_reservations h (pl_status p)"
  using commit_cases [OF assms(2)] publish_accepted_pending [OF assms(1)]
    publish_refused_unchanged [OF assms(1)] by auto

end

text \<open>
  No lost wake-up on a busy pipeline, in the multi-worker deployment: a
  processing request refused because another run is busy leaves the workspace's auto-rescan flag
  armed in the same critical section, while the slot is still held, loses no queued document
  notification and no manual request, and changes nothing else of the status than the recovery of
  dead owners.
\<close>

theorem busy_refusal_keeps_wakeup:
  assumes "hub_inv (pl_ingress p)"
    and "acquire_processing_reservation h token held
           (\<lambda>hub. snd (hub_request_auto_rescan env ns hub)) flags scan p = (r, p')"
    and "rr_conflict r = Some BUSY"
  shows "mb_auto_rescan_pending (hub_view env ns (pl_ingress p'))
    \<and> mb_manual_retries (hub_view env ns (pl_ingress p')) = mb_manual_retries (hub_view env ns (pl_ingress p))
    \<and> mb_documents (hub_view env ns (pl_ingress p')) = mb_documents (hub_view env ns (pl_ingress p))
    \<and> pl_status p' = reconcile_dead_pipeline_reservations h (pl_status p) \<and> ps_busy (pl_status p')
    \<and> hub_inv (pl_ingress p')"
  by (rule mgr_client.busy_refusal_arms [OF assms])

definition ex_single_host :: host where
  "ex_single_host = \<lparr>ho_env = ex_env, ho_cache = (None, None), ho_multiprocess = False\<rparr>"

lemma ex_single_reconcile [simp]: "reconcile_dead_pipeline_reservations ex_single_host st = st"
  by (simp add: reconcile_dead_pipeline_reservations_def reservation_recovery_enabled_def ex_single_host_def)

lemma busy_refusal_keeps_wakeup_witness:
  "mb_auto_rescan_pending (hub_view None ''ws'' (pl_ingress (snd
     (acquire_processing_reservation ex_single_host ''t'' False
        (\<lambda>hub. snd (hub_request_auto_rescan None ''ws'' hub)) [] None
        \<lparr>pl_status = initial_pipeline_status\<lparr>ps_busy := True\<rparr>, pl_ingress = [],
         pl_freeze_rejects = 0, pl_auto_rescan_rearms = 0\<rparr>))))"
proof -
  let ?p = "\<lparr>pl_status = initial_pipeline_status\<lparr>ps_busy := True\<rparr>, pl_ingress = [],
         pl_freeze_rejects = 0, pl_auto_rescan_rearms = 0\<rparr>"
  let ?call = "acquire_processing_reservation ex_single_host ''t'' False
        (\<lambda>hub. snd (hub_request_auto_rescan None ''ws'' hub)) [] None ?p"
  obtain r p' where rp: "?call = (r, p')" by force
  have "rr_conflict (fst ?call) = Some BUSY"
    by (simp add: acquire_processing_reservation_def Let_def)
  moreover have "hub_inv (pl_ingress ?p)" by (simp add: hub_inv_def)
  ultimately show ?thesis using busy_refusal_keeps_wakeup [OF _ rp] rp by simp
qed

text \<open>
  A committed manual retry is a sticky pending request of the
  workspace, accepted while no clear or delete was dropping storages and no recovery fence was up; a
  refused one has no side effect on the ingress. Either way the status only sees the recovery of dead
  owners.
\<close>

theorem manual_commit_is_all_or_nothing:
  assumes "ai_inv (pl_ingress p)"
    and "commit_manual_retry_request h ai_request_manual_retry rid p = (Inr (refusal, committed), p')"
  shows "(committed \<longrightarrow> refusal = None \<and> rid \<in> set (pending_ids (ai_view (pl_ingress p')))
            \<and> \<not> ps_destructive_busy (pl_status p') \<and> ps_recovery_required (pl_status p') = None)
    \<and> (\<not> committed \<longrightarrow> refusal \<noteq> None \<and> ai_view (pl_ingress p') = ai_view (pl_ingress p))
    \<and> pl_status p' = reconcile_dead_pipeline_reservations h (pl_status p)"
  by (rule ai_client.commit_publishes [OF assms])

lemma manual_commit_is_all_or_nothing_witness:
  "''r1'' \<in> set (pending_ids (ai_view (pl_ingress (snd
     (commit_manual_retry_request ex_single_host ai_request_manual_retry ''r1''
        \<lparr>pl_status = initial_pipeline_status, pl_ingress = ai_init None 0 4 (Some 4),
         pl_freeze_rejects = 0, pl_auto_rescan_rearms = 0\<rparr>)))))"
proof -
  let ?p = "\<lparr>pl_status = initial_pipeline_status, pl_ingress = ai_init None 0 4 (Some 4),
         pl_freeze_rejects = 0, pl_auto_rescan_rearms = 0\<rparr>"
  have "fst (commit_manual_retry_request ex_single_host ai_request_manual_retry ''r1'' ?p) = Inr (None, True)"
    by (simp add: commit_manual_retry_request_def Let_def ai_request_manual_retry_def ai_init_def
        validate_manual_request_def terminal_mem_def terminal_init_def)
  then obtain p' where "commit_manual_retry_request ex_single_host ai_request_manual_retry ''r1'' ?p
      = (Inr (None, True), p')" by (metis surjective_pairing)
  moreover have "ai_inv (pl_ingress ?p)" by (simp add: ai_inv_init)
  ultimately show ?thesis using manual_commit_is_all_or_nothing [of ?p] by fastforce
qed

end
