(* ===== verification/Pipeline.thy ===== *)
theory Pipeline
  imports Reservation
begin

text \<open>
  The protocol the callers run on the reservations: the exact acquires, transitions and releases of the
  document routes (\<open>ontorag/api/routers/document_routes.py\<close>), the processing run and its manual-retry
  drain (\<open>ontorag/pipeline.py\<close>), the custom-chunk insert and the single-document delete
  (\<open>ontorag/ontorag.py\<close>), the index maintenance (\<open>ontorag/retrieval/maintenance.py\<close>) and the
  source-conflict repair. Each is one critical section under the status lock. Lines appended to the
  status log are left out here. The step relation at the end lets any of them happen in any order; the
  invariant says which activities never overlap.
\<close>

section \<open>Enqueue reservations\<close>

definition INGRESS_FENCES :: "(flag \<times> string) list" where
  "INGRESS_FENCES =
     [(FScanningExclusive,
       ''Document scan is classifying files. Wait for the classification phase to finish before submitting new work.''),
      (FDestructiveBusy,
       ''Pipeline is clearing or deleting documents. Wait for the running job to finish before submitting new work.''),
      (FManualFreezeRequested,
       ''A retry of failed documents is draining the pipeline. Wait for it to finish before submitting new work.'')]"

text \<open>The list \<open>apipeline_enqueue_documents\<close> builds; a scan's own enqueues skip the first two.\<close>

definition enqueue_fences :: "bool \<Rightarrow> (flag \<times> string) list" where
  "enqueue_fences from_scan =
     (if from_scan then []
      else
        [(FScanningExclusive,
          ''Cannot enqueue while scan is classifying files; wait for the classification phase to finish before retrying.''),
         (FManualFreezeRequested,
          ''Cannot enqueue while a manual retry is draining the pipeline; wait for it to finish before retrying.'')])
     @ [(FDestructiveBusy,
         ''Cannot enqueue while pipeline is clearing or deleting documents; wait for the running job to finish before retrying.'')]"

definition REPAIR_INGRESS_FENCES :: "flag list" where
  "REPAIR_INGRESS_FENCES = [FDestructiveBusy, FScanningExclusive, FManualFreezeRequested]"

text \<open>\<open>_reserve_enqueue_slot\<close> with the route's default fences, and the re-charge of a held token.\<close>

definition reserve_enqueue_slot ::
  "host \<Rightarrow> string \<Rightarrow> int \<Rightarrow> int \<Rightarrow> int option \<Rightarrow> 'i pipe \<Rightarrow> reservation_result res \<times> 'i pipe" where
  "reserve_enqueue_slot h token weight capacity active p =
     acquire_enqueue_reservation h token INGRESS_FENCES weight capacity
       (if capacity > 0 then active else None) p"

definition reweight_enqueue_slot ::
  "host \<Rightarrow> string \<Rightarrow> int \<Rightarrow> int \<Rightarrow> int option \<Rightarrow> 'i pipe \<Rightarrow> reservation_result res \<times> 'i pipe" where
  "reweight_enqueue_slot h token weight capacity active p =
     (if capacity \<le> 0 then (Inr (granted (pl_status p)), p)
      else acquire_enqueue_reservation h token [] weight capacity active p)"

definition reserve_ingress_slot ::
  "host \<Rightarrow> string \<Rightarrow> int \<Rightarrow> int \<Rightarrow> int option \<Rightarrow> 'i pipe \<Rightarrow> reservation_result res \<times> 'i pipe" where
  "reserve_ingress_slot h token requested capacity active p =
     acquire_enqueue_reservation h token (enqueue_fences False) requested capacity
       (if capacity > 0 then active else None) p"

definition reserve_repair_slot :: "host \<Rightarrow> string \<Rightarrow> (flag \<Rightarrow> string) \<Rightarrow> 'i pipe \<Rightarrow> reservation_result res \<times> 'i pipe" where
  "reserve_repair_slot h token reason p =
     acquire_enqueue_reservation h token (map (\<lambda>f. (f, reason f)) REPAIR_INGRESS_FENCES) 0 0 None p"

definition release_enqueue_slot :: "string \<Rightarrow> 'i pipe \<Rightarrow> 'i pipe" where
  "release_enqueue_slot token p =
     snd (with_token_set_reservation_lock token (None :: ('i pipe \<Rightarrow> unit \<times> 'i pipe) option) p)"

section \<open>Clear and delete jobs\<close>

definition acquire_destructive_busy ::
  "host \<Rightarrow> string \<Rightarrow> string \<Rightarrow> operation option \<Rightarrow> 'i pipe \<Rightarrow> reservation_result res \<times> 'i pipe" where
  "acquire_destructive_busy h token kind operation_record p =
     acquire_reservation h BusyOwner (Bare token) (Some kind)
       [WBusy True, WDestructiveBusy True, WOperationRecord operation_record]
       [(FBusy, ''Pipeline is busy with another operation.''),
        (FScanning, ''Document scan is in progress. Wait for the scan to complete before clearing or deleting.''),
        (FPendingEnqueues,
         ''An upload/insert or a source-conflict repair is in flight. Wait for it to complete before clearing or deleting.'')]
       None False p"

definition release_destructive_busy :: "string \<Rightarrow> 'i pipe \<Rightarrow> unit option \<times> 'i pipe" where
  "release_destructive_busy token =
     with_reservation_lock BusyOwner token
       (\<lambda>p. ((), map_status (\<lambda>st. st\<lparr>ps_busy := False, ps_destructive_busy := False,
                                     ps_busy_owner := None, ps_operation_record := None\<rparr>) p))"

text \<open>
  The batch delete's exit: it also clears a cancellation, and probes the ingress in the same critical
  section. \<open>work\<close> is the answer of \<open>has_work\<close>, \<open>None\<close> when the probe failed (fail toward driving).
\<close>

definition probe_work :: "('i \<Rightarrow> bool option) option \<Rightarrow> 'i \<Rightarrow> bool" where
  "probe_work probe i =
     (case probe of None \<Rightarrow> True | Some f \<Rightarrow> (case f i of None \<Rightarrow> True | Some b \<Rightarrow> b))"

definition batch_delete_release ::
  "('i \<Rightarrow> bool option) option \<Rightarrow> string \<Rightarrow> string \<Rightarrow> 'i pipe \<Rightarrow> bool option \<times> 'i pipe" where
  "batch_delete_release probe completion_msg token =
     with_reservation_lock BusyOwner token
       (\<lambda>p. (probe_work probe (pl_ingress p),
             map_status (\<lambda>st. st\<lparr>ps_busy := False, ps_destructive_busy := False, ps_busy_owner := None,
                ps_operation_record := None, ps_cancellation_requested := False,
                ps_latest_message := completion_msg\<rparr>) p))"

text \<open>\<open>adelete_by_doc_id\<close>'s own acquire: it refuses only while the pipeline is busy.\<close>

definition acquire_single_delete ::
  "host \<Rightarrow> string \<Rightarrow> string \<Rightarrow> string option \<Rightarrow> 'i pipe \<Rightarrow> reservation_result res \<times> 'i pipe" where
  "acquire_single_delete h token doc_id now_iso p =
     acquire_reservation h BusyOwner (Bare token) (Some ''delete'')
       [WBusy True,
        WOperationRecord (Some \<lparr>op_kind = ''delete'', op_doc_id = Some doc_id, op_scope = None\<rparr>),
        WJobName ''Single document deletion'', WJobStart now_iso, WDocs 1, WBatchs 1, WCurBatch 0,
        WCancellationRequested False,
        WLatestMessage (''Starting deletion for document: '' @ doc_id)]
       [(FBusy, ''Pipeline is busy with another operation.'')] None False p"

section \<open>Custom chunks, and the exits that may hand the slot on\<close>

definition acquire_custom_chunks ::
  "host \<Rightarrow> string \<Rightarrow> string \<Rightarrow> string option \<Rightarrow> 'i pipe \<Rightarrow> reservation_result res \<times> 'i pipe" where
  "acquire_custom_chunks h token doc_key now_iso p =
     acquire_reservation h BusyOwner (Bare token) (Some ''custom_chunks'')
       [WBusy True,
        WOperationRecord (Some \<lparr>op_kind = ''custom_chunks'', op_doc_id = Some doc_key, op_scope = None\<rparr>),
        WJobName ''Custom chunks insert'', WJobStart now_iso, WLatestMessage ''Inserting custom chunks'',
        WCancellationRequested False, WCancellationReason None, WCancellationDetail None]
       [(FBusy, ''Pipeline is busy with another operation; ainsert_custom_chunks cannot run concurrently. Wait for it to finish and retry.''),
        (FScanning, ''A document scan is in progress; ainsert_custom_chunks cannot run concurrently. Wait for the scan to finish and retry.'')]
       None False p"

text \<open>
  The exit decision, owner-checked: with work in the ingress the slot is kept for the handoff run,
  otherwise it is released. The custom-chunk exit also clears the cancellation's cause
  (\<open>clear_cause\<close>); the single delete's exit posts its completion message (\<open>msg\<close>), the backstops
  post none.
\<close>

datatype exit_decision = Handoff | Released

definition finish_operation :: "bool \<Rightarrow> string option \<Rightarrow> pipeline_status \<Rightarrow> pipeline_status" where
  "finish_operation clear_cause msg st =
     (let st1 = st\<lparr>ps_operation_record := None, ps_cancellation_requested := False\<rparr>;
          st2 = (if clear_cause
                 then st1\<lparr>ps_cancellation_reason := None, ps_cancellation_detail := None\<rparr> else st1)
      in case msg of None \<Rightarrow> st2 | Some m \<Rightarrow> st2\<lparr>ps_latest_message := m\<rparr>)"

definition exit_action ::
  "('i \<Rightarrow> bool option) option \<Rightarrow> bool \<Rightarrow> string option \<Rightarrow> string \<Rightarrow> 'i pipe \<Rightarrow> exit_decision option \<times> 'i pipe" where
  "exit_action probe clear_cause msg token =
     with_reservation_lock BusyOwner token
       (\<lambda>p. if probe_work probe (pl_ingress p)
            then (Handoff, map_status (finish_operation clear_cause msg) p)
            else (Released, map_status
              (\<lambda>st. (finish_operation clear_cause msg st)\<lparr>ps_busy := False, ps_busy_owner := None\<rparr>) p))"

definition terminal_release :: "bool \<Rightarrow> string \<Rightarrow> 'i pipe \<Rightarrow> unit option \<times> 'i pipe" where
  "terminal_release clear_cause token =
     with_reservation_lock BusyOwner token
       (\<lambda>p. ((), map_status
              (\<lambda>st. (finish_operation clear_cause None st)\<lparr>ps_busy := False, ps_busy_owner := None\<rparr>) p))"

section \<open>Scans\<close>

definition acquire_scan ::
  "host \<Rightarrow> ('i \<Rightarrow> ingress_msg option) \<Rightarrow> string \<Rightarrow> 'i pipe \<Rightarrow> reservation_result res \<times> 'i pipe" where
  "acquire_scan h peek token p =
     acquire_reservation h ScanningOwner (Bare token) (Some ''scan'')
       [WScanning True, WScanningExclusive True]
       [(FBusy, ''Pipeline is currently busy processing documents. Wait for the running job to finish before triggering another scan.''),
        (FScanning, ''Another scan is already in progress. Wait for it to finish before triggering a new one.''),
        (FPendingEnqueues, ''An upload/insert or a source-conflict repair is in flight. Wait for it to complete before triggering a scan.''),
        (FManualFreezeRequested, ''A manual retry is draining the pipeline for its exclusive reset. Wait for it to finish before triggering a scan.'')]
       (Some peek) True p"

definition acquire_maintenance :: "host \<Rightarrow> string \<Rightarrow> 'i pipe \<Rightarrow> reservation_result res \<times> 'i pipe" where
  "acquire_maintenance h token p =
     acquire_reservation h ScanningOwner (Bare token) (Some ''scan'')
       [WScanning True, WScanningExclusive True]
       [(FBusy, ''Pipeline busy''), (FScanning, ''Scan running''), (FPendingEnqueues, ''Enqueues pending'')]
       None False p"

definition release_scanning :: "string \<Rightarrow> 'i pipe \<Rightarrow> unit option \<times> 'i pipe" where
  "release_scanning token =
     with_reservation_lock ScanningOwner token
       (\<lambda>p. ((), map_status (\<lambda>st. st\<lparr>ps_scanning := False, ps_scanning_exclusive := False,
                                     ps_scanning_owner := None\<rparr>) p))"

section \<open>The processing run\<close>

definition processing_flags :: "string \<Rightarrow> string option \<Rightarrow> status_write list" where
  "processing_flags job_name now_iso =
     [WJobName job_name, WJobStart now_iso, WDocs 0, WBatchs 0, WCurBatch 0,
      WCancellationRequested False, WCancellationReason None, WCancellationDetail None,
      WLatestMessage '''']"

definition run_acquire ::
  "host \<Rightarrow> ('i \<Rightarrow> 'i) \<Rightarrow> string option \<Rightarrow> bool \<Rightarrow> string \<Rightarrow> 'i pipe \<Rightarrow> reservation_result \<times> 'i pipe" where
  "run_acquire h arm now_iso holding_busy token =
     acquire_processing_reservation h token holding_busy arm (processing_flags ''Default Job'' now_iso) None"

definition scan_reset_acquire ::
  "host \<Rightarrow> ('i \<Rightarrow> 'i) \<Rightarrow> string option \<Rightarrow> string option \<Rightarrow> string \<Rightarrow> 'i pipe \<Rightarrow> reservation_result \<times> 'i pipe" where
  "scan_reset_acquire h arm now_iso scan_owner_token token =
     acquire_processing_reservation h token False arm
       (processing_flags ''Scan: reset failed documents'' now_iso) scan_owner_token"

text \<open>\<open>_begin_manual_drain\<close>, the entry of \<open>_run_exclusive_failed_reset\<close>, \<open>_end_manual_drain\<close>.\<close>

definition begin_manual_drain :: "host \<Rightarrow> real \<Rightarrow> string \<Rightarrow> string \<Rightarrow> 'i pipe \<Rightarrow> bool \<times> 'i pipe" where
  "begin_manual_drain h now request_id token p =
     (case with_reservation_lock BusyOwner token
        (\<lambda>p. (True, map_status (\<lambda>st. st\<lparr>ps_manual_freeze_requested := True,
             ps_manual_freeze_started_at := Some now, ps_manual_resetting := False,
             ps_manual_phase := MANUAL_PHASE_DRAIN_TO_IDLE,
             ps_manual_owner := Some (make_manual_owner_record h request_id token)\<rparr>) p)) p of
        (r, p') \<Rightarrow> (r = Some True, p'))"

definition enter_exclusive_reset :: "string \<Rightarrow> 'i pipe \<Rightarrow> bool \<times> 'i pipe" where
  "enter_exclusive_reset token p =
     (case with_reservation_lock BusyOwner token
        (\<lambda>p. (True, map_status (\<lambda>st. st\<lparr>ps_manual_resetting := True,
             ps_manual_phase := MANUAL_PHASE_EXCLUSIVE_RESET\<rparr>) p)) p of
        (r, p') \<Rightarrow> (r = Some True, p'))"

definition end_manual_drain :: "string \<Rightarrow> 'i pipe \<Rightarrow> bool option \<times> 'i pipe" where
  "end_manual_drain token =
     with_reservation_lock BusyOwner token (\<lambda>p. (True, map_status clear_manual_state p))"

definition still_freeze_owner :: "string \<Rightarrow> 'i pipe \<Rightarrow> bool" where
  "still_freeze_owner token p \<longleftrightarrow> reservation_owner_token (ps_busy_owner (pl_status p)) = Some token"

text \<open>The release at the end of \<open>apipeline_reset_failed_for_scan\<close>.\<close>

definition scan_reset_release :: "string \<Rightarrow> 'i pipe \<Rightarrow> bool option \<times> 'i pipe" where
  "scan_reset_release token =
     with_reservation_lock BusyOwner token
       (\<lambda>p. (True, map_status (\<lambda>st. clear_manual_state (st\<lparr>ps_busy := False, ps_busy_owner := None\<rparr>)) p))"

datatype next_step =
    RELEASED | CONTINUE_AUTO | CONTINUE_MANUAL "string option" | CONTINUE_DRAIN_WAIT
  | BEGIN_EXCLUSIVE_RESET | CONTINUE_DOCUMENT | CONTINUE_SWEEP_PAGE | CANCELLED bool

text \<open>
  \<open>_decide_pipeline_next_step\<close>. \<open>consume\<close> and \<open>documents\<close> are \<open>consume_auto_rescan\<close> and the
  \<open>"documents"\<close> of \<open>counts\<close>; \<open>sweep_done\<close> says that the sweep's cursor is \<open>CURSOR_END\<close>.
\<close>

definition decide_pipeline_next_step ::
  "('i \<Rightarrow> ingress_msg option) \<Rightarrow> ('i \<Rightarrow> bool \<times> 'i) \<Rightarrow> ('i \<Rightarrow> nat) \<Rightarrow> bool \<Rightarrow> 'i pipe
   \<Rightarrow> next_step \<times> 'i pipe" where
  "decide_pipeline_next_step peek consume documents sweep_done p =
     (let st = pl_status p
      in if ps_cancellation_requested st
         then (CANCELLED (ps_cancellation_reason st = Some ''internal_error''), p)
      else if ps_manual_phase st = MANUAL_PHASE_DRAIN_TO_IDLE then
        (if \<not> sweep_done then (CONTINUE_SWEEP_PAGE, p)
         else (case consume (pl_ingress p) of
             (True, i) \<Rightarrow> (CONTINUE_AUTO, p\<lparr>pl_ingress := i\<rparr>)
           | (False, i) \<Rightarrow>
               (let p1 = p\<lparr>pl_ingress := i\<rparr>
                in if documents i \<noteq> 0 then (CONTINUE_DOCUMENT, p1)
                else if ps_pending_enqueues st > 0 then (CONTINUE_DRAIN_WAIT, p1)
                else (BEGIN_EXCLUSIVE_RESET, p1))))
      else (case peek (pl_ingress p) of
          Some msg \<Rightarrow> (CONTINUE_MANUAL (m_request_id msg), p)
        | None \<Rightarrow>
            if \<not> sweep_done then (CONTINUE_SWEEP_PAGE, p)
            else (case consume (pl_ingress p) of
                (True, i) \<Rightarrow> (CONTINUE_AUTO, p\<lparr>pl_ingress := i\<rparr>)
              | (False, i) \<Rightarrow>
                  (let p1 = p\<lparr>pl_ingress := i\<rparr>
                   in if documents i \<noteq> 0 then (CONTINUE_DOCUMENT, p1)
                   else (RELEASED, map_status (\<lambda>st. st\<lparr>ps_busy := False, ps_busy_owner := None\<rparr>) p1)))))"

text \<open>
  The run's final bookkeeping (\<open>_finalize\<close>), for a run that took the slot. \<open>released_in_loop\<close> says that
  the decision above already released it; \<open>halt\<close> is the rendered halt message.
\<close>

definition final_message :: "string \<Rightarrow> pipeline_status \<Rightarrow> string" where
  "final_message halt st =
     (if ps_cancellation_reason st = Some ''internal_error'' then halt
      else ''Enqueued document processing pipeline stopped'')"

definition finalize_status :: "bool \<Rightarrow> string \<Rightarrow> string \<Rightarrow> pipeline_status \<Rightarrow> pipeline_status" where
  "finalize_status released_in_loop halt token st =
     (let current_owner = reservation_owner_token (ps_busy_owner st);
          released_here = (\<not> released_in_loop \<and> current_owner = Some token);
          st1 = (if released_here
                 then clear_manual_state (st\<lparr>ps_busy := False, ps_busy_owner := None\<rparr>) else st);
          current_owner1 = (if released_here then None else current_owner)
      in if current_owner1 \<noteq> None \<and> current_owner1 \<noteq> Some token then st
         else if \<not> released_in_loop \<and> \<not> released_here then st
         else st1\<lparr>ps_cancellation_requested := False, ps_cancellation_reason := None,
                ps_cancellation_detail := None,
                ps_latest_message := final_message halt st\<rparr>)"

definition finalize_run ::
  "('i \<Rightarrow> 'i) \<Rightarrow> bool \<Rightarrow> bool \<Rightarrow> string \<Rightarrow> string \<Rightarrow> 'i pipe \<Rightarrow> 'i pipe" where
  "finalize_run arm uncommitted_wakeup released_in_loop halt token p =
     map_status (finalize_status released_in_loop halt token)
       (if uncommitted_wakeup
        then p\<lparr>pl_ingress := arm (pl_ingress p), pl_auto_rescan_rearms := Suc (pl_auto_rescan_rearms p)\<rparr>
        else p)"

section \<open>The drain's forward-progress check\<close>

definition MANUAL_DRAIN_STALL_ROUNDS :: nat where
  "MANUAL_DRAIN_STALL_ROUNDS = 3"

record drain_progress =
  dp_blocking_ids :: "string set option"
  dp_repeats :: nat

definition drain_progress_init :: drain_progress where
  "drain_progress_init = \<lparr>dp_blocking_ids = None, dp_repeats = 0\<rparr>"

definition drain_observe :: "string list \<Rightarrow> drain_progress \<Rightarrow> bool \<times> drain_progress" where
  "drain_observe doc_ids dp =
     (if dp_blocking_ids dp \<noteq> Some (set doc_ids)
      then (True, dp\<lparr>dp_blocking_ids := Some (set doc_ids), dp_repeats := 1\<rparr>)
      else (Suc (dp_repeats dp) < MANUAL_DRAIN_STALL_ROUNDS, dp\<lparr>dp_repeats := Suc (dp_repeats dp)\<rparr>))"

section \<open>Operator override\<close>

datatype force_reset_result = NO_RECOVERY_REQUIRED | RESET nat

text \<open>
  \<open>force_reset_recovery\<close> once confirmed, with the ingress resolved; \<open>cancel\<close> is
  \<open>cancel_manual_retries\<close>, \<open>None\<close> when the call fails (the endpoint answers 503 and keeps the fence).
\<close>

definition force_reset_recovery ::
  "('i \<Rightarrow> (nat \<times> 'i) option) \<Rightarrow> 'i pipe \<Rightarrow> force_reset_result option \<times> 'i pipe" where
  "force_reset_recovery cancel p =
     (if ps_recovery_required (pl_status p) = None then (Some NO_RECOVERY_REQUIRED, p)
      else (case cancel (pl_ingress p) of
          None \<Rightarrow> (None, p)
        | Some (n, i) \<Rightarrow>
            (Some (RESET n),
             map_status (\<lambda>st. clear_manual_state (st\<lparr>ps_recovery_required := None,
                ps_operation_record := None, ps_busy := False, ps_destructive_busy := False,
                ps_busy_owner := None, ps_scanning := False, ps_scanning_exclusive := False,
                ps_scanning_owner := None\<rparr>)) (p\<lparr>pl_ingress := i\<rparr>))))"

section \<open>Every caller, in any order\<close>

text \<open>
  One step is one critical section of one caller; \<open>pr_ready\<close> remembers the run whose last decision was
  to begin the exclusive reset. The ingress calls (\<open>peek\<close>, \<open>arm\<close>, \<open>consume\<close>, ...) are arbitrary, and the
  ingress may change at any time. The premises are what the callers know: a handed-off slot is their
  own and not a destructive job's, a token that is re-weighted is registered, the drain's steps are
  taken by the processing run that owns the slot.
\<close>

record 'i prun =
  pr_pipe :: "'i pipe"
  pr_ready :: "string option"

abbreviation run_status :: "'i prun \<Rightarrow> pipeline_status" where
  "run_status s \<equiv> pl_status (pr_pipe s)"

abbreviation busy_token :: "pipeline_status \<Rightarrow> string option" where
  "busy_token st \<equiv> reservation_owner_token (ps_busy_owner st)"

text \<open>Steps that leave the decision alone.\<close>

inductive caller_step :: "'i pipe \<Rightarrow> 'i pipe \<Rightarrow> bool" where
  enqueue_slot: "reserve_enqueue_slot h token weight capacity active p = (r, p') \<Longrightarrow> caller_step p p'"
| ingress_slot: "reserve_ingress_slot h token weight capacity active p = (r, p') \<Longrightarrow> caller_step p p'"
| repair_slot: "reserve_repair_slot h token reason p = (r, p') \<Longrightarrow> caller_step p p'"
| reweight: "reweight_enqueue_slot h token weight capacity active p = (r, p')
    \<Longrightarrow> map_of (ps_pending_enqueue_tokens (reconcile_dead_pipeline_reservations h (pl_status p))) token \<noteq> None
    \<Longrightarrow> caller_step p p'"
| release_slot: "caller_step p (release_enqueue_slot token p)"
| check: "check_pipeline_status_mutation h rejects exempt p = (r, p') \<Longrightarrow> caller_step p p'"
| destructive: "acquire_destructive_busy h token kind operation p = (r, p') \<Longrightarrow> caller_step p p'"
| destructive_release: "release_destructive_busy token p = (u, p')
    \<Longrightarrow> busy_token (pl_status p) = Some token \<longrightarrow> \<not> ps_manual_freeze_requested (pl_status p) \<Longrightarrow> caller_step p p'"
| delete_release: "batch_delete_release probe msg token p = (b, p')
    \<Longrightarrow> busy_token (pl_status p) = Some token \<longrightarrow> \<not> ps_manual_freeze_requested (pl_status p) \<Longrightarrow> caller_step p p'"
| single_delete: "acquire_single_delete h token doc now_iso p = (r, p') \<Longrightarrow> caller_step p p'"
| custom_chunks: "acquire_custom_chunks h token doc now_iso p = (r, p') \<Longrightarrow> caller_step p p'"
| sdk_exit: "exit_action probe clear_cause msg token p = (d, p')
    \<Longrightarrow> busy_token (pl_status p) = Some token \<longrightarrow>
          \<not> ps_destructive_busy (pl_status p) \<and> \<not> ps_manual_freeze_requested (pl_status p)
    \<Longrightarrow> caller_step p p'"
| sdk_backstop: "terminal_release clear_cause token p = (u, p')
    \<Longrightarrow> busy_token (pl_status p) = Some token \<longrightarrow>
          \<not> ps_destructive_busy (pl_status p) \<and> \<not> ps_manual_freeze_requested (pl_status p)
    \<Longrightarrow> caller_step p p'"
| scan: "acquire_scan h peek token p = (r, p') \<Longrightarrow> caller_step p p'"
| maintenance: "acquire_maintenance h token p = (r, p') \<Longrightarrow> caller_step p p'"
| scan_transition: "transition_scanning_reservation token (pl_status p) = (b, st) \<Longrightarrow> caller_step p (p\<lparr>pl_status := st\<rparr>)"
| scan_release: "release_scanning token p = (u, p') \<Longrightarrow> caller_step p p'"
| reap: "caller_step p (map_status (reconcile_dead_pipeline_reservations h) p)"
| fenced: "caller_step p (map_status (fence_workspace_for_recovery kind msg operation) p)"
| force_reset: "force_reset_recovery cancel p = (r, p') \<Longrightarrow> caller_step p p'"
| commit: "commit_manual_retry_request h publish rid p = (r, p') \<Longrightarrow> caller_step p p'"
| ingress: "caller_step p (p\<lparr>pl_ingress := i\<rparr>)"

inductive pl_step :: "'i prun \<Rightarrow> 'i prun \<Rightarrow> bool" where
  caller: "caller_step (pr_pipe s) p' \<Longrightarrow> pl_step s (s\<lparr>pr_pipe := p'\<rparr>)"
| run: "run_acquire h arm now_iso False token (pr_pipe s) = (r, p')
    \<Longrightarrow> pl_step s (s\<lparr>pr_pipe := p', pr_ready := None\<rparr>)"
| handoff: "run_acquire h arm now_iso True token (pr_pipe s) = (r, p')
    \<Longrightarrow> busy_token (reconcile_dead_pipeline_reservations h (run_status s)) = Some token
    \<Longrightarrow> \<not> ps_destructive_busy (run_status s) \<Longrightarrow> pl_step s (s\<lparr>pr_pipe := p', pr_ready := None\<rparr>)"
| scan_reset: "scan_reset_acquire h arm now_iso scan_owner_token token (pr_pipe s) = (r, p')
    \<Longrightarrow> pl_step s (s\<lparr>pr_pipe := p', pr_ready := None\<rparr>)"
| begin_drain: "begin_manual_drain h now rid token (pr_pipe s) = (b, p')
    \<Longrightarrow> busy_token (run_status s) = Some token \<longrightarrow> \<not> ps_destructive_busy (run_status s)
    \<Longrightarrow> pl_step s (s\<lparr>pr_pipe := p', pr_ready := None\<rparr>)"
| decide: "decide_pipeline_next_step peek consume documents sweep_done (pr_pipe s) = (d, p')
    \<Longrightarrow> busy_token (run_status s) = Some token
    \<Longrightarrow> \<not> ps_destructive_busy (run_status s) \<Longrightarrow> \<not> ps_manual_resetting (run_status s)
    \<Longrightarrow> pl_step s (s\<lparr>pr_pipe := p', pr_ready := (if d = BEGIN_EXCLUSIVE_RESET then Some token else None)\<rparr>)"
| scan_confirm: "busy_token (run_status s) = Some token \<Longrightarrow> ps_pending_enqueues (run_status s) = 0
    \<Longrightarrow> ps_manual_phase (run_status s) = MANUAL_PHASE_DRAIN_TO_IDLE
    \<Longrightarrow> pl_step s (s\<lparr>pr_ready := Some token\<rparr>)"
| enter_reset: "enter_exclusive_reset token (pr_pipe s) = (b, p') \<Longrightarrow> pr_ready s = Some token
    \<Longrightarrow> ps_manual_freeze_requested (run_status s)
    \<Longrightarrow> pl_step s (s\<lparr>pr_pipe := p'\<rparr>)"
| end_drain: "end_manual_drain token (pr_pipe s) = (b, p') \<Longrightarrow> pl_step s (s\<lparr>pr_pipe := p'\<rparr>)"
| scan_reset_done: "scan_reset_release token (pr_pipe s) = (b, p')
    \<Longrightarrow> busy_token (run_status s) = Some token \<longrightarrow> \<not> ps_destructive_busy (run_status s)
    \<Longrightarrow> pl_step s (s\<lparr>pr_pipe := p'\<rparr>)"
| finalize: "p' = finalize_run arm uncommitted released halt token (pr_pipe s)
    \<Longrightarrow> busy_token (run_status s) = Some token \<longrightarrow> \<not> ps_destructive_busy (run_status s) \<Longrightarrow> pl_step s (s\<lparr>pr_pipe := p'\<rparr>)"

inductive pl_reachable :: "'i prun \<Rightarrow> bool" where
  init: "pl_status p = initial_pipeline_status \<Longrightarrow> pl_reachable \<lparr>pr_pipe = p, pr_ready = None\<rparr>"
| step: "pl_reachable s \<Longrightarrow> pl_step s s' \<Longrightarrow> pl_reachable s'"

section \<open>The invariant\<close>

definition core_inv ::
  "bool \<Rightarrow> bool \<Rightarrow> bool \<Rightarrow> bool \<Rightarrow> nat \<Rightarrow> owner option \<Rightarrow> owner option \<Rightarrow> (string, enq_meta option) odict
   \<Rightarrow> bool \<Rightarrow> bool \<Rightarrow> manual_phase \<Rightarrow> manual_owner option \<Rightarrow> bool" where
  "core_inv busy destructive scanning exclusive pending busy_owner scanning_owner tokens freeze
     resetting phase manual_owner \<longleftrightarrow>
     (destructive \<longrightarrow> busy \<and> \<not> scanning \<and> tokens = [] \<and> \<not> freeze)
     \<and> (exclusive \<longrightarrow> scanning \<and> tokens = [])
     \<and> (busy \<longleftrightarrow> busy_owner \<noteq> None)
     \<and> (scanning \<longleftrightarrow> scanning_owner \<noteq> None)
     \<and> pending = length tokens \<and> od_wf tokens
     \<and> (freeze \<longleftrightarrow> phase \<noteq> MANUAL_PHASE_IDLE)
     \<and> (resetting \<longleftrightarrow> phase = MANUAL_PHASE_EXCLUSIVE_RESET)
     \<and> (freeze \<longrightarrow> busy \<and> map_option mo_owner_token manual_owner = reservation_owner_token busy_owner)
     \<and> (\<not> freeze \<longrightarrow> manual_owner = None)
     \<and> (resetting \<longrightarrow> tokens = [])"

definition pl_inv :: "pipeline_status \<Rightarrow> bool" where
  "pl_inv st \<longleftrightarrow>
     core_inv (ps_busy st) (ps_destructive_busy st) (ps_scanning st) (ps_scanning_exclusive st)
       (ps_pending_enqueues st) (ps_busy_owner st) (ps_scanning_owner st) (ps_pending_enqueue_tokens st)
       (ps_manual_freeze_requested st) (ps_manual_resetting st) (ps_manual_phase st) (ps_manual_owner st)"

lemma pl_inv_initial: "pl_inv initial_pipeline_status"
  by (simp add: pl_inv_def core_inv_def od_wf_def)


text \<open>The fields the invariant does not speak of.\<close>

lemma pl_inv_frame [simp]:
  "pl_inv (st\<lparr>ps_recovery_required := fe\<rparr>) = pl_inv st"
  "pl_inv (st\<lparr>ps_scan_deferred_processing := b\<rparr>) = pl_inv st"
  "pl_inv (st\<lparr>ps_operation_record := rec\<rparr>) = pl_inv st"
  "pl_inv (st\<lparr>ps_job_name := name\<rparr>) = pl_inv st"
  "pl_inv (st\<lparr>ps_job_start := start\<rparr>) = pl_inv st"
  "pl_inv (st\<lparr>ps_docs := n\<rparr>) = pl_inv st"
  "pl_inv (st\<lparr>ps_batchs := n\<rparr>) = pl_inv st"
  "pl_inv (st\<lparr>ps_cur_batch := n\<rparr>) = pl_inv st"
  "pl_inv (st\<lparr>ps_cancellation_requested := b\<rparr>) = pl_inv st"
  "pl_inv (st\<lparr>ps_cancellation_reason := reason\<rparr>) = pl_inv st"
  "pl_inv (st\<lparr>ps_cancellation_detail := reason\<rparr>) = pl_inv st"
  "pl_inv (st\<lparr>ps_latest_message := msg\<rparr>) = pl_inv st"
  "pl_inv (st\<lparr>ps_history_messages := msgs\<rparr>) = pl_inv st"
  by (simp_all add: pl_inv_def)

text \<open>What each owner's flags may change to.\<close>

lemma core_inv_idle:
  "core_inv busy destructive scanning exclusive pending bo so tokens freeze resetting phase mo \<Longrightarrow>
   core_inv False False scanning exclusive pending None so tokens False False MANUAL_PHASE_IDLE None"
  by (auto simp: core_inv_def)

lemma core_inv_no_scan:
  "core_inv busy destructive scanning exclusive pending bo so tokens freeze resetting phase mo \<Longrightarrow>
   core_inv busy destructive False False pending bo None tokens freeze resetting phase mo"
  by (auto simp: core_inv_def)

lemma core_inv_end_drain:
  "core_inv busy destructive scanning exclusive pending bo so tokens freeze resetting phase mo \<Longrightarrow>
   core_inv busy destructive scanning exclusive pending bo so tokens False False MANUAL_PHASE_IDLE None"
  by (auto simp: core_inv_def)

lemma pl_inv_dead: "pl_inv st \<Longrightarrow> pl_inv (dead_reservation_updates k rec st)"
  by (cases k) (simp_all add: pl_inv_def dead_reservation_updates_def clear_owner_flags_def set_owner_def
      clear_manual_state_def Let_def core_inv_idle core_inv_no_scan)

lemma pl_inv_recover_owner: "pl_inv st \<Longrightarrow> pl_inv (recover_owner h k st)"
proof -
  assume inv: "pl_inv st"
  from recover_owner_cases [of h k st] show ?thesis
  proof (elim disjE exE conjE)
    fix rec
    assume "recover_owner h k st = st\<lparr>ps_recovery_required := Some (unprobeable_fence k rec st)\<rparr>"
    then show ?thesis using inv by simp
  next
    fix rec
    assume "get_owner k st = Some (Rec rec)" "recover_owner h k st = dead_reservation_updates k rec st"
    then show ?thesis using inv pl_inv_dead by simp
  qed (use inv in simp)
qed

lemma pl_inv_recover_tokens: "pl_inv st \<Longrightarrow> pl_inv (recover_tokens h st)"
  by (auto simp: pl_inv_def core_inv_def recover_tokens_def Let_def od_wf_filter)

lemma pl_inv_reconcile: "pl_inv st \<Longrightarrow> pl_inv (reconcile_dead_pipeline_reservations h st)"
  by (simp add: reconcile_dead_pipeline_reservations_def pl_inv_recover_owner pl_inv_recover_tokens)

text \<open>
  What a caller's step may do: keep the invariant, and while a freeze lasts neither change the frozen
  run nor admit a first reservation.
\<close>

definition caller_ok :: "pipeline_status \<Rightarrow> pipeline_status \<Rightarrow> bool" where
  "caller_ok st st' \<longleftrightarrow>
     pl_inv st'
     \<and> (ps_manual_freeze_requested st' \<longrightarrow> ps_manual_freeze_requested st \<and> busy_token st' = busy_token st
          \<and> (ps_pending_enqueue_tokens st = [] \<longrightarrow> ps_pending_enqueue_tokens st' = []))"

lemma caller_ok_refl: "pl_inv st \<Longrightarrow> caller_ok st st"
  by (simp add: caller_ok_def)

lemma caller_ok_trans: "caller_ok st st1 \<Longrightarrow> caller_ok st1 st2 \<Longrightarrow> caller_ok st st2"
  by (auto simp: caller_ok_def)

lemma recover_owner_freeze:
  "ps_manual_freeze_requested (recover_owner h k st) \<Longrightarrow>
   ps_manual_freeze_requested st \<and> ps_busy_owner (recover_owner h k st) = ps_busy_owner st"
proof -
  assume fr: "ps_manual_freeze_requested (recover_owner h k st)"
  have dead: "\<not> ps_manual_freeze_requested (dead_reservation_updates BusyOwner rec st)"
    "ps_manual_freeze_requested (dead_reservation_updates ScanningOwner rec st) = ps_manual_freeze_requested st"
    "ps_busy_owner (dead_reservation_updates ScanningOwner rec st) = ps_busy_owner st" for rec
    by (simp_all add: dead_reservation_updates_def clear_owner_flags_def set_owner_def
      clear_manual_state_def Let_def)
  from recover_owner_cases [of h k st] show ?thesis
  proof (elim disjE exE conjE)
    fix rec assume "recover_owner h k st = dead_reservation_updates k rec st"
    then show ?thesis using fr dead by (cases k) simp_all
  qed (use fr in simp_all)
qed

lemma recover_tokens_freeze [simp]:
  "ps_manual_freeze_requested (recover_tokens h st) = ps_manual_freeze_requested st"
  "ps_busy_owner (recover_tokens h st) = ps_busy_owner st"
  by (simp_all add: recover_tokens_def Let_def)

lemma caller_ok_reconcile:
  assumes "pl_inv st"
  shows "caller_ok st (reconcile_dead_pipeline_reservations h st)"
proof (cases "reservation_recovery_enabled h")
  case True
  let ?s1 = "recover_owner h BusyOwner st"
  let ?s2 = "recover_owner h ScanningOwner ?s1"
  have eq: "reconcile_dead_pipeline_reservations h st = recover_tokens h ?s2"
    using True by (simp add: reconcile_dead_pipeline_reservations_def)
  have "ps_pending_enqueue_tokens st = [] \<Longrightarrow>
      ps_pending_enqueue_tokens (reconcile_dead_pipeline_reservations h st) = []"
    by (simp add: reconcile_tokens)
  then show ?thesis
    using pl_inv_reconcile [OF assms, of h] recover_owner_freeze [of h ScanningOwner ?s1]
      recover_owner_freeze [of h BusyOwner st]
    unfolding caller_ok_def eq by simp
qed (use assms in \<open>simp add: reconcile_dead_pipeline_reservations_def caller_ok_refl\<close>)

lemma acquire_reservation_cases:
  assumes "acquire_reservation h k (Bare token) (Some kind) flags rejects peek refuse p = (r, p')"
  defines "st \<equiv> reconcile_dead_pipeline_reservations h (pl_status p)"
  shows "pl_status p' = pl_status p \<or> pl_status p' = st
    \<or> (first_reject rejects st = None \<and> ps_recovery_required st = None
       \<and> pl_status p' = set_owner k (Some (Rec (make_owner_record h token kind))) (apply_writes flags st))"
  using assms
  by (auto simp: acquire_reservation_def Let_def reservation_owner_token_def dest: refuse_flag_cases
      split: if_splits option.splits prod.splits)

lemma first_reject_None: "first_reject rejects st = None \<longleftrightarrow> list_all (\<lambda>(f, _). \<not> get_flag st f) rejects"
  by (auto simp: first_reject_def find_None_iff list_all_iff)

lemma reserve_cases:
  assumes "acquire_enqueue_reservation h token rejects weight capacity active p = (r, p')"
  defines "st \<equiv> reconcile_dead_pipeline_reservations h (pl_status p)"
  shows "pl_status p' = pl_status p \<or> pl_status p' = st
    \<or> ((map_of (ps_pending_enqueue_tokens st) token = None \<longrightarrow> first_reject rejects st = None)
       \<and> pl_status p' = set_tokens (od_set token (new_enq_meta h weight) (ps_pending_enqueue_tokens st)) st)"
  using assms
  by (auto simp: acquire_enqueue_reservation_def Let_def dest: refuse_flag_cases
      split: if_splits option.splits prod.splits)

lemma with_lock_cases:
  "with_reservation_lock k token action p = (r, p') \<Longrightarrow>
   p' = p \<or> (reservation_owner_token (get_owner k (pl_status p)) = Some token \<and> p' = snd (action p))"
  by (auto simp: with_reservation_lock_def split: if_splits prod.splits)

lemma core_inv_tokens:
  "core_inv busy destructive scanning exclusive pending bo so tokens freeze resetting phase mo
   \<Longrightarrow> od_wf tokens' \<Longrightarrow> tokens' = [] \<or> tokens \<noteq> [] \<or> \<not> destructive \<and> \<not> exclusive \<and> \<not> freeze \<Longrightarrow>
   core_inv busy destructive scanning exclusive (length tokens') bo so tokens' freeze resetting phase mo"
  by (auto simp: core_inv_def)

text \<open>An enqueue reservation whose fences hold back new tokens during a scan, a clear or a freeze.\<close>

lemma caller_ok_reserve:
  assumes inv: "pl_inv (pl_status p)"
    and call: "acquire_enqueue_reservation h token rejects weight capacity active p = (r, p')"
    and fences: "map_of (ps_pending_enqueue_tokens (reconcile_dead_pipeline_reservations h (pl_status p))) token \<noteq> None
       \<or> {FScanningExclusive, FDestructiveBusy, FManualFreezeRequested} \<subseteq> fst ` set rejects"
  shows "caller_ok (pl_status p) (pl_status p')"
proof -
  let ?st = "reconcile_dead_pipeline_reservations h (pl_status p)"
  have ok: "caller_ok (pl_status p) ?st" using inv by (rule caller_ok_reconcile)
  from reserve_cases [OF call] show ?thesis
  proof (elim disjE conjE)
    assume rej: "map_of (ps_pending_enqueue_tokens ?st) token = None \<longrightarrow> first_reject rejects ?st = None"
      and st': "pl_status p' = set_tokens (od_set token (new_enq_meta h weight) (ps_pending_enqueue_tokens ?st)) ?st"
    have idle: "\<not> ps_scanning_exclusive ?st \<and> \<not> ps_destructive_busy ?st \<and> \<not> ps_manual_freeze_requested ?st"
      if "ps_pending_enqueue_tokens ?st = []"
    proof -
      have "list_all (\<lambda>(f, _). \<not> get_flag ?st f) rejects"
        "{FScanningExclusive, FDestructiveBusy, FManualFreezeRequested} \<subseteq> fst ` set rejects"
        using rej fences that by (auto simp: first_reject_None)
      then show ?thesis by (force simp: list_all_iff get_flag_def)
    qed
    have core: "pl_inv ?st" using ok by (simp add: caller_ok_def)
    then have "od_wf (ps_pending_enqueue_tokens ?st)" by (simp add: pl_inv_def core_inv_def)
    then have "pl_inv (pl_status p')"
      using core_inv_tokens [OF core [unfolded pl_inv_def], of "od_set token (new_enq_meta h weight) (ps_pending_enqueue_tokens ?st)"] idle
      unfolding st' pl_inv_def set_tokens_def by simp
    then have "caller_ok ?st (pl_status p')"
      using idle by (auto simp: caller_ok_def st' set_tokens_def)
    with ok show ?thesis by (rule caller_ok_trans)
  qed (use ok inv in \<open>simp_all add: caller_ok_refl\<close>)
qed

text \<open>A single-holder acquire, reduced to its effect on an idle slot.\<close>

lemma caller_ok_acquire:
  assumes inv: "pl_inv (pl_status p)"
    and call: "acquire_reservation h k (Bare token) (Some kind) flags rejects peek refuse p = (r, p')"
    and take: "\<And>st. pl_inv st \<Longrightarrow> list_all (\<lambda>(f, _). \<not> get_flag st f) rejects \<Longrightarrow>
       caller_ok st (set_owner k (Some (Rec (make_owner_record h token kind))) (apply_writes flags st))"
  shows "caller_ok (pl_status p) (pl_status p')"
proof -
  let ?st = "reconcile_dead_pipeline_reservations h (pl_status p)"
  have ok: "caller_ok (pl_status p) ?st" using inv by (rule caller_ok_reconcile)
  then have "pl_inv ?st" by (simp add: caller_ok_def)
  with acquire_reservation_cases [OF call] ok inv show ?thesis
    using take [of ?st] caller_ok_trans [OF ok] by (auto simp: first_reject_None caller_ok_refl)
qed

lemma caller_ok_lock:
  assumes "pl_inv (pl_status p)" and "with_reservation_lock k token action p = (r, p')"
    and "reservation_owner_token (get_owner k (pl_status p)) = Some token \<Longrightarrow>
      caller_ok (pl_status p) (pl_status (snd (action p)))"
  shows "caller_ok (pl_status p) (pl_status p')"
  using with_lock_cases [OF assms(2)] assms(1,3) by (auto simp: caller_ok_refl)

lemma core_inv_release:
  "core_inv busy destructive scanning exclusive pending bo so tokens False resetting phase mo
   \<Longrightarrow> core_inv False False scanning exclusive pending None so tokens False resetting phase mo"
  by (auto simp: core_inv_def)

lemma pl_inv_idle:
  "pl_inv st \<Longrightarrow> \<not> ps_busy st \<Longrightarrow> \<not> ps_manual_freeze_requested st \<and> \<not> ps_destructive_busy st"
  by (auto simp: pl_inv_def core_inv_def)

lemma pl_inv_no_tokens: "pl_inv st \<Longrightarrow> ps_pending_enqueues st = 0 \<Longrightarrow> ps_pending_enqueue_tokens st = []"
  by (simp add: pl_inv_def core_inv_def)

lemma core_inv_take_busy:
  "core_inv False destructive scanning exclusive pending bo so tokens freeze resetting phase mo \<Longrightarrow>
   core_inv True destructive scanning exclusive pending (Some ow) so tokens freeze resetting phase mo"
  by (auto simp: core_inv_def)

lemma core_inv_take_destructive:
  "core_inv False destructive False exclusive 0 bo so tokens freeze resetting phase mo \<Longrightarrow>
   core_inv True True False exclusive 0 (Some ow) so tokens freeze resetting phase mo"
  by (auto simp: core_inv_def)

lemma core_inv_take_scan:
  "core_inv False destructive False exclusive 0 bo so tokens freeze resetting phase mo \<Longrightarrow>
   core_inv False destructive True True 0 bo (Some ow) tokens freeze resetting phase mo"
  by (auto simp: core_inv_def)

lemma core_inv_handoff:
  "core_inv busy False scanning exclusive pending bo so tokens freeze resetting phase mo \<Longrightarrow>
   reservation_owner_token bo = reservation_owner_token (Some ow) \<Longrightarrow>
   core_inv True False scanning exclusive pending (Some ow) so tokens freeze resetting phase mo"
  by (auto simp: core_inv_def)

lemma core_inv_begin_drain:
  "core_inv busy False scanning exclusive pending bo so tokens freeze resetting phase mo \<Longrightarrow>
   reservation_owner_token bo = Some (mo_owner_token mo') \<Longrightarrow>
   core_inv busy False scanning exclusive pending bo so tokens True False MANUAL_PHASE_DRAIN_TO_IDLE (Some mo')"
  by (auto simp: core_inv_def reservation_owner_token_def split: option.splits)

lemma core_inv_enter_reset:
  "core_inv busy destructive scanning exclusive pending bo so [] True resetting phase mo \<Longrightarrow>
   core_inv busy destructive scanning exclusive pending bo so [] True True MANUAL_PHASE_EXCLUSIVE_RESET mo"
  by (auto simp: core_inv_def)

lemmas core_inv_rules = core_inv_release core_inv_idle core_inv_no_scan core_inv_end_drain
  core_inv_take_busy core_inv_take_destructive core_inv_take_scan

lemma owner_record_token [simp]: "reservation_owner_token (Some (Rec (make_owner_record h token kind))) = Some token"
  by (simp add: reservation_owner_token_def make_owner_record_def)

lemma caller_ok_take:
  assumes "pl_inv (pl_status p)"
    and "acquire_reservation h k (Bare token) (Some kind) flags ((FBusy, reason) # rejects) peek refuse p = (r, p')"
    and "\<And>st ow. pl_inv st \<Longrightarrow> \<not> ps_busy st \<Longrightarrow> list_all (\<lambda>(f, _). \<not> get_flag st f) rejects \<Longrightarrow>
       pl_inv (set_owner k (Some ow) (apply_writes flags st))"
    and "\<And>st ow. ps_manual_freeze_requested (set_owner k (Some ow) (apply_writes flags st))
       = ps_manual_freeze_requested st"
  shows "caller_ok (pl_status p) (pl_status p')"
proof (rule caller_ok_acquire [OF assms(1,2)])
  fix st assume inv: "pl_inv st" and rej: "list_all (\<lambda>(f, _). \<not> get_flag st f) ((FBusy, reason) # rejects)"
  then have "\<not> ps_busy st" by (simp add: get_flag_def)
  moreover from this have "\<not> ps_manual_freeze_requested st" using pl_inv_idle [OF inv] by simp
  ultimately show "caller_ok st (set_owner k (Some (Rec (make_owner_record h token kind))) (apply_writes flags st))"
    using assms(3) [OF inv] assms(4) rej by (simp add: caller_ok_def)
qed

lemmas take_simps = set_owner_def apply_writes_def get_flag_def

lemma caller_ok_destructive:
  "pl_inv (pl_status p) \<Longrightarrow> acquire_destructive_busy h token kind operation p = (r, p') \<Longrightarrow>
   caller_ok (pl_status p) (pl_status p')"
  unfolding acquire_destructive_busy_def
  by (erule (1) caller_ok_take) (simp_all add: take_simps pl_inv_def core_inv_take_destructive)

lemma caller_ok_single_delete:
  "pl_inv (pl_status p) \<Longrightarrow> acquire_single_delete h token doc now_iso p = (r, p') \<Longrightarrow>
   caller_ok (pl_status p) (pl_status p')"
  unfolding acquire_single_delete_def
  by (erule (1) caller_ok_take) (simp_all add: take_simps pl_inv_def core_inv_take_busy)

lemma caller_ok_custom_chunks:
  "pl_inv (pl_status p) \<Longrightarrow> acquire_custom_chunks h token doc now_iso p = (r, p') \<Longrightarrow>
   caller_ok (pl_status p) (pl_status p')"
  unfolding acquire_custom_chunks_def
  by (erule (1) caller_ok_take) (simp_all add: take_simps pl_inv_def core_inv_take_busy)

lemma caller_ok_scan:
  "pl_inv (pl_status p) \<Longrightarrow> acquire_scan h peek token p = (r, p') \<Longrightarrow> caller_ok (pl_status p) (pl_status p')"
  unfolding acquire_scan_def
  by (erule (1) caller_ok_take) (simp_all add: take_simps pl_inv_def core_inv_take_scan)

lemma caller_ok_maintenance:
  "pl_inv (pl_status p) \<Longrightarrow> acquire_maintenance h token p = (r, p') \<Longrightarrow> caller_ok (pl_status p) (pl_status p')"
  unfolding acquire_maintenance_def
  by (erule (1) caller_ok_take) (simp_all add: take_simps pl_inv_def core_inv_take_scan)

lemma fst_enqueue_fences:
  "{FScanningExclusive, FDestructiveBusy, FManualFreezeRequested} \<subseteq> fst ` set INGRESS_FENCES"
  "{FScanningExclusive, FDestructiveBusy, FManualFreezeRequested} \<subseteq> fst ` set (enqueue_fences False)"
  "{FScanningExclusive, FDestructiveBusy, FManualFreezeRequested}
     \<subseteq> fst ` set (map (\<lambda>f. (f, reason f)) REPAIR_INGRESS_FENCES)"
  by (auto simp: INGRESS_FENCES_def enqueue_fences_def REPAIR_INGRESS_FENCES_def)

lemma caller_ok_enqueues:
  assumes "pl_inv (pl_status p)"
  shows "reserve_enqueue_slot h token weight capacity active p = (r, p') \<Longrightarrow> caller_ok (pl_status p) (pl_status p')"
    and "reserve_ingress_slot h token weight capacity active p = (r, p') \<Longrightarrow> caller_ok (pl_status p) (pl_status p')"
    and "reserve_repair_slot h token reason p = (r, p') \<Longrightarrow> caller_ok (pl_status p) (pl_status p')"
    and "reweight_enqueue_slot h token weight capacity active p = (r, p') \<Longrightarrow>
      map_of (ps_pending_enqueue_tokens (reconcile_dead_pipeline_reservations h (pl_status p))) token \<noteq> None \<Longrightarrow>
      caller_ok (pl_status p) (pl_status p')"
  unfolding reserve_enqueue_slot_def reserve_ingress_slot_def reserve_repair_slot_def reweight_enqueue_slot_def
  using caller_ok_reserve [OF assms] fst_enqueue_fences caller_ok_refl [OF assms]
  by (blast, blast, blast, auto split: if_splits)

lemma core_inv_del_token:
  "core_inv busy destructive scanning exclusive pending bo so tokens freeze resetting phase mo
   \<Longrightarrow> core_inv busy destructive scanning exclusive (length (od_del t tokens)) bo so (od_del t tokens) freeze resetting phase mo"
  by (auto simp: core_inv_def)

lemma caller_ok_release_slot:
  assumes "pl_inv (pl_status p)"
  shows "caller_ok (pl_status p) (pl_status (release_enqueue_slot token p))"
  using assms
  by (simp add: release_enqueue_slot_def with_token_set_reservation_lock_def Let_def caller_ok_def
      set_tokens_def pl_inv_def core_inv_del_token)

lemma caller_ok_check:
  "pl_inv (pl_status p) \<Longrightarrow> check_pipeline_status_mutation h rejects exempt p = (r, p') \<Longrightarrow>
   caller_ok (pl_status p) (pl_status p')"
  using caller_ok_reconcile [of "pl_status p" h]
  by (auto simp: check_pipeline_status_mutation_def Let_def dest: refuse_flag_cases
      split: if_splits option.splits prod.splits)

lemma caller_ok_releases:
  assumes inv: "pl_inv (pl_status p)"
  shows "release_destructive_busy token p = (u, p') \<Longrightarrow>
      busy_token (pl_status p) = Some token \<longrightarrow> \<not> ps_manual_freeze_requested (pl_status p) \<Longrightarrow>
      caller_ok (pl_status p) (pl_status p')"
    and "batch_delete_release probe msg token p = (b, p') \<Longrightarrow>
      busy_token (pl_status p) = Some token \<longrightarrow> \<not> ps_manual_freeze_requested (pl_status p) \<Longrightarrow>
      caller_ok (pl_status p) (pl_status p')"
    and "release_scanning token p = (u, p') \<Longrightarrow> caller_ok (pl_status p) (pl_status p')"
  unfolding release_destructive_busy_def batch_delete_release_def release_scanning_def
  by ((erule caller_ok_lock [OF inv], use inv in \<open>simp add: caller_ok_def pl_inv_def get_owner_def
      core_inv_release core_inv_no_scan\<close>)+)

lemma core_inv_release_busy:
  "core_inv busy False scanning exclusive pending bo so tokens False resetting phase mo
   \<Longrightarrow> core_inv False False scanning exclusive pending None so tokens False resetting phase mo"
  by (auto simp: core_inv_def)

lemma finish_operation_sel [simp]:
  "pl_inv (finish_operation c m st) = pl_inv st"
  "ps_manual_freeze_requested (finish_operation c m st) = ps_manual_freeze_requested st"
  "ps_busy_owner (finish_operation c m st) = ps_busy_owner st"
  "ps_pending_enqueue_tokens (finish_operation c m st) = ps_pending_enqueue_tokens st"
  "pl_inv ((finish_operation c m st)\<lparr>ps_busy := False, ps_busy_owner := None\<rparr>)
     = pl_inv (st\<lparr>ps_busy := False, ps_busy_owner := None\<rparr>)"
  by (simp_all add: finish_operation_def Let_def pl_inv_def split: option.split)

lemma caller_ok_sdk_exits:
  assumes inv: "pl_inv (pl_status p)"
    and own: "busy_token (pl_status p) = Some token \<longrightarrow>
       \<not> ps_destructive_busy (pl_status p) \<and> \<not> ps_manual_freeze_requested (pl_status p)"
  shows "exit_action probe c m token p = (d, p') \<Longrightarrow> caller_ok (pl_status p) (pl_status p')"
    and "terminal_release c token p = (u, p') \<Longrightarrow> caller_ok (pl_status p) (pl_status p')"
proof -
  have rel: "caller_ok (pl_status p) ((finish_operation c m (pl_status p))\<lparr>ps_busy := False, ps_busy_owner := None\<rparr>)"
    if "busy_token (pl_status p) = Some token" for m
  proof -
    have "pl_inv ((pl_status p)\<lparr>ps_busy := False, ps_busy_owner := None\<rparr>)"
      using inv own that by (simp add: pl_inv_def core_inv_release_busy)
    then show ?thesis using own that by (simp add: caller_ok_def)
  qed
  have keep: "caller_ok (pl_status p) (finish_operation c m (pl_status p))"
    using inv by (simp add: caller_ok_def)
  show "exit_action probe c m token p = (d, p') \<Longrightarrow> caller_ok (pl_status p) (pl_status p')"
    unfolding exit_action_def
    by (erule caller_ok_lock [OF inv]) (use rel keep in \<open>simp add: get_owner_def\<close>)
  show "terminal_release c token p = (u, p') \<Longrightarrow> caller_ok (pl_status p) (pl_status p')"
    unfolding terminal_release_def
    by (erule caller_ok_lock [OF inv]) (use rel in \<open>simp add: get_owner_def\<close>)
qed

lemma core_inv_narrow_scan:
  "core_inv busy destructive scanning exclusive pending bo so tokens freeze resetting phase mo
   \<Longrightarrow> core_inv busy destructive scanning False pending bo so tokens freeze resetting phase mo"
  by (auto simp: core_inv_def)

lemma caller_ok_transition:
  "pl_inv st \<Longrightarrow> transition_scanning_reservation token st = (b, st') \<Longrightarrow> caller_ok st st'"
  by (auto simp: transition_scanning_reservation_def caller_ok_refl split: if_splits)
    (simp add: caller_ok_def pl_inv_def core_inv_narrow_scan)

lemma caller_ok_fence: "pl_inv st \<Longrightarrow> caller_ok st (fence_workspace_for_recovery kind msg operation st)"
  by (simp add: fence_workspace_for_recovery_def caller_ok_def)

lemma core_inv_force_reset:
  "core_inv busy destructive scanning exclusive pending bo so tokens freeze resetting phase mo
   \<Longrightarrow> core_inv False False False False pending None None tokens False False MANUAL_PHASE_IDLE None"
  by (auto simp: core_inv_def)

lemma caller_ok_force_reset:
  "pl_inv (pl_status p) \<Longrightarrow> force_reset_recovery cancel p = (r, p') \<Longrightarrow> caller_ok (pl_status p) (pl_status p')"
  by (cases "cancel (pl_ingress p)")
    (auto simp: force_reset_recovery_def caller_ok_refl caller_ok_def pl_inv_def clear_manual_state_def
      core_inv_force_reset split: if_splits prod.splits)

lemma commit_status:
  "commit_manual_retry_request h publish rid p = (r, p') \<Longrightarrow>
   pl_status p' = reconcile_dead_pipeline_reservations h (pl_status p)"
  by (auto simp: commit_manual_retry_request_def Let_def split: if_splits sum.splits publish_result.splits prod.splits)

lemma caller_step_ok:
  assumes "caller_step p p'" and inv: "pl_inv (pl_status p)"
  shows "caller_ok (pl_status p) (pl_status p')"
  using assms(1)
proof cases
  case enqueue_slot
  then show ?thesis using caller_ok_enqueues(1) [OF inv] by blast
next
  case ingress_slot
  then show ?thesis using caller_ok_enqueues(2) [OF inv] by blast
next
  case repair_slot
  then show ?thesis using caller_ok_enqueues(3) [OF inv] by blast
next
  case reweight
  then show ?thesis using caller_ok_enqueues(4) [OF inv] by blast
next
  case check
  then show ?thesis using caller_ok_check [OF inv] by blast
next
  case destructive
  then show ?thesis using caller_ok_destructive [OF inv] by blast
next
  case destructive_release
  then show ?thesis using caller_ok_releases(1) [OF inv] by blast
next
  case delete_release
  then show ?thesis using caller_ok_releases(2) [OF inv] by blast
next
  case single_delete
  then show ?thesis using caller_ok_single_delete [OF inv] by blast
next
  case custom_chunks
  then show ?thesis using caller_ok_custom_chunks [OF inv] by blast
next
  case sdk_exit
  then show ?thesis using caller_ok_sdk_exits(1) [OF inv] by blast
next
  case sdk_backstop
  then show ?thesis using caller_ok_sdk_exits(2) [OF inv] by blast
next
  case scan
  then show ?thesis using caller_ok_scan [OF inv] by blast
next
  case maintenance
  then show ?thesis using caller_ok_maintenance [OF inv] by blast
next
  case scan_release
  then show ?thesis using caller_ok_releases(3) [OF inv] by blast
next
  case force_reset
  then show ?thesis using caller_ok_force_reset [OF inv] by blast
next
  case release_slot
  then show ?thesis using caller_ok_release_slot [OF inv] by simp
next
  case scan_transition
  then show ?thesis using caller_ok_transition [OF inv] by simp
next
  case reap
  then show ?thesis using caller_ok_reconcile [OF inv] by simp
next
  case fenced
  then show ?thesis using caller_ok_fence [OF inv] by simp
next
  case ingress
  then show ?thesis using caller_ok_refl [OF inv] by simp
next
  case commit
  then show ?thesis using caller_ok_reconcile [OF inv] commit_status by metis
qed

text \<open>
  The whole machine: the invariant of the status, and that a run about to enter the exclusive reset has
  no enqueue in flight.
\<close>

definition pr_inv :: "'i prun \<Rightarrow> bool" where
  "pr_inv s \<longleftrightarrow>
     pl_inv (run_status s)
     \<and> (pr_ready s \<noteq> None \<longrightarrow> busy_token (run_status s) = pr_ready s
          \<longrightarrow> ps_manual_freeze_requested (run_status s) \<longrightarrow> ps_pending_enqueue_tokens (run_status s) = [])"

lemma pr_inv_undecided [simp]: "pr_inv (s\<lparr>pr_pipe := p, pr_ready := None\<rparr>) = pl_inv (pl_status p)"
  by (simp add: pr_inv_def)

lemma pr_inv_caller: "pr_inv s \<Longrightarrow> caller_step (pr_pipe s) p' \<Longrightarrow> pr_inv (s\<lparr>pr_pipe := p'\<rparr>)"
  using caller_step_ok [of "pr_pipe s" p'] by (auto simp: pr_inv_def caller_ok_def)

lemma take_processing_slot_sel:
  "ps_destructive_busy (take_processing_slot h token owns (processing_flags name now) st) = ps_destructive_busy st"
  "pl_inv (take_processing_slot h token owns (processing_flags name now) st)
     = pl_inv (st\<lparr>ps_busy := True, ps_busy_owner := Some (Rec (make_owner_record h token ''processing''))\<rparr>)"
  by (simp_all add: take_processing_slot_def processing_flags_def apply_writes_def Let_def pl_inv_def)

lemma recover_owner_destructive:
  assumes "ps_destructive_busy (recover_owner h k st)"
  shows "ps_destructive_busy st"
proof -
  have dead: "ps_destructive_busy (dead_reservation_updates k rec st) \<Longrightarrow> ps_destructive_busy st" for rec
    by (cases k) (simp_all add: dead_reservation_updates_def clear_owner_flags_def set_owner_def
        clear_manual_state_def Let_def split: if_splits)
  from recover_owner_cases [of h k st] show ?thesis
    by (elim disjE exE conjE) (use assms dead in simp_all)
qed

lemma reconcile_destructive:
  "ps_destructive_busy (reconcile_dead_pipeline_reservations h st) \<Longrightarrow> ps_destructive_busy st"
  by (simp add: reconcile_dead_pipeline_reservations_def recover_tokens_def Let_def split: if_splits)
    (blast dest: recover_owner_destructive)+

lemma pl_inv_processing:
  assumes inv: "pl_inv (pl_status p)"
    and call: "acquire_processing_reservation h token held arm (processing_flags name now) scan p = (r, p')"
    and held: "held \<Longrightarrow> busy_token (reconcile_dead_pipeline_reservations h (pl_status p)) = Some token
       \<and> \<not> ps_destructive_busy (pl_status p)"
  shows "pl_inv (pl_status p')"
proof -
  let ?st = "reconcile_dead_pipeline_reservations h (pl_status p)"
  have st: "pl_inv ?st" using pl_inv_reconcile [OF inv] .
  note destr = reconcile_destructive [of h "pl_status p"]
  have take: "pl_inv (?st\<lparr>ps_busy := True, ps_busy_owner := Some (Rec (make_owner_record h token ''processing''))\<rparr>)"
    if "held \<or> \<not> ps_busy ?st"
  proof (cases "ps_busy ?st")
    case True
    then have "held" using that by simp
    then have "\<not> ps_destructive_busy ?st" "busy_token ?st = Some token" using held destr by auto
    then show ?thesis using core_inv_handoff [of "ps_busy ?st"] st True by (simp add: pl_inv_def)
  next
    case False
    then show ?thesis using st by (simp add: pl_inv_def core_inv_take_busy)
  qed
  from processing_cases [OF call] show ?thesis
    using st take by (elim disjE conjE) (simp_all add: take_processing_slot_sel)
qed

lemma pr_inv_decide:
  assumes inv: "pr_inv s" and call: "decide_pipeline_next_step peek consume documents sweep_done (pr_pipe s) = (d, p')"
    and "\<not> ps_destructive_busy (run_status s)" and "\<not> ps_manual_resetting (run_status s)"
  shows "pr_inv (s\<lparr>pr_pipe := p', pr_ready := (if d = BEGIN_EXCLUSIVE_RESET then Some token else None)\<rparr>)"
proof -
  have st: "pl_inv (run_status s)" using inv by (simp add: pr_inv_def)
  have "pl_status p' = run_status s \<and> (d = BEGIN_EXCLUSIVE_RESET \<longrightarrow> ps_pending_enqueues (run_status s) = 0)
      \<or> d = RELEASED \<and> ps_manual_phase (run_status s) \<noteq> MANUAL_PHASE_DRAIN_TO_IDLE
        \<and> pl_status p' = (run_status s)\<lparr>ps_busy := False, ps_busy_owner := None\<rparr>"
    using call by (auto simp: decide_pipeline_next_step_def Let_def split: if_splits prod.splits bool.splits option.splits)
  then show ?thesis
  proof (elim disjE conjE)
    assume "pl_status p' = run_status s" "d = BEGIN_EXCLUSIVE_RESET \<longrightarrow> ps_pending_enqueues (run_status s) = 0"
    then show ?thesis using st pl_inv_no_tokens [OF st] by (auto simp: pr_inv_def)
  next
    assume d: "d = RELEASED" and ph: "ps_manual_phase (run_status s) \<noteq> MANUAL_PHASE_DRAIN_TO_IDLE"
      and p': "pl_status p' = (run_status s)\<lparr>ps_busy := False, ps_busy_owner := None\<rparr>"
    have "\<not> ps_manual_freeze_requested (run_status s)"
      using st ph assms(4) by (cases "ps_manual_phase (run_status s)") (auto simp: pl_inv_def core_inv_def)
    then have "pl_inv (pl_status p')"
      using st assms(3) unfolding p' by (simp add: pl_inv_def core_inv_release_busy)
    then show ?thesis using d by (simp add: pr_inv_def)
  qed
qed

lemma core_inv_reset:
  "core_inv busy destructive scanning exclusive pending bo so tokens freeze resetting phase mo \<Longrightarrow>
   \<not> destructive \<Longrightarrow>
   core_inv False destructive scanning exclusive pending None so tokens False False MANUAL_PHASE_IDLE None"
  by (auto simp: core_inv_def)

lemma finalize_status_cases:
  "finalize_status released halt token st = st
   \<or> finalize_status released halt token st =
        st\<lparr>ps_cancellation_requested := False, ps_cancellation_reason := None,
           ps_cancellation_detail := None, ps_latest_message := final_message halt st\<rparr>
   \<or> (busy_token st = Some token
      \<and> finalize_status released halt token st =
        (clear_manual_state (st\<lparr>ps_busy := False, ps_busy_owner := None\<rparr>))\<lparr>
           ps_cancellation_requested := False, ps_cancellation_reason := None,
           ps_cancellation_detail := None, ps_latest_message := final_message halt st\<rparr>)"
proof -
  have "finalize_status True halt token st =
      (if busy_token st = None \<or> busy_token st = Some token
       then st\<lparr>ps_cancellation_requested := False, ps_cancellation_reason := None,
           ps_cancellation_detail := None, ps_latest_message := final_message halt st\<rparr> else st)"
    unfolding finalize_status_def Let_def by simp
  moreover have "finalize_status False halt token st =
      (if busy_token st = Some token
       then (clear_manual_state (st\<lparr>ps_busy := False, ps_busy_owner := None\<rparr>))\<lparr>
           ps_cancellation_requested := False, ps_cancellation_reason := None,
           ps_cancellation_detail := None, ps_latest_message := final_message halt st\<rparr> else st)"
    unfolding finalize_status_def Let_def by simp
  ultimately show ?thesis by (cases released) presburger+
qed

lemma finalize_run_status:
  "pl_status (finalize_run arm uncommitted released halt token p) = finalize_status released halt token (pl_status p)"
  by (simp add: finalize_run_def)

lemma pl_step_inv:
  assumes "pl_step s s'" and inv: "pr_inv s"
  shows "pr_inv s'"
proof -
  have st: "pl_inv (run_status s)" using inv by (simp add: pr_inv_def)
  from assms(1) show ?thesis
  proof cases
    case (caller p')
    then show ?thesis using pr_inv_caller [OF inv] by simp
  next
    case (run h arm now_iso token r p')
    then show ?thesis using pl_inv_processing [OF st] by (simp add: run_acquire_def)
  next
    case (handoff h arm now_iso token r p')
    then show ?thesis using pl_inv_processing [OF st] by (simp add: run_acquire_def)
  next
    case (scan_reset h arm now_iso scan_owner_token token r p')
    then show ?thesis using pl_inv_processing [OF st] by (simp add: scan_reset_acquire_def)
  next
    case (begin_drain h now rid token b p')
    have "p' = pr_pipe s \<or> busy_token (run_status s) = Some token
      \<and> pl_status p' = (run_status s)\<lparr>ps_manual_freeze_requested := True,
             ps_manual_freeze_started_at := Some now, ps_manual_resetting := False,
             ps_manual_phase := MANUAL_PHASE_DRAIN_TO_IDLE,
             ps_manual_owner := Some (make_manual_owner_record h rid token)\<rparr>"
      using begin_drain(2) by (auto simp: begin_manual_drain_def with_reservation_lock_def get_owner_def split: if_splits)
    then have "pl_inv (pl_status p')"
    proof
      assume *: "busy_token (run_status s) = Some token
        \<and> pl_status p' = (run_status s)\<lparr>ps_manual_freeze_requested := True,
             ps_manual_freeze_started_at := Some now, ps_manual_resetting := False,
             ps_manual_phase := MANUAL_PHASE_DRAIN_TO_IDLE,
             ps_manual_owner := Some (make_manual_owner_record h rid token)\<rparr>"
      moreover have "mo_owner_token (make_manual_owner_record h rid token) = token"
        by (simp add: make_manual_owner_record_def make_owner_record_def Let_def)
      ultimately show ?thesis
        using st begin_drain(3) core_inv_begin_drain by (simp add: pl_inv_def)
    qed (use st in simp)
    then show ?thesis using begin_drain(1) by simp
  next
    case (decide peek consume documents sweep_done d p' token)
    then show ?thesis using pr_inv_decide [OF inv] by simp
  next
    case (scan_confirm token)
    then show ?thesis using st pl_inv_no_tokens by (simp add: pr_inv_def)
  next
    case (enter_reset token b p')
    have "p' = pr_pipe s \<or> busy_token (run_status s) = Some token
      \<and> pl_status p' = (run_status s)\<lparr>ps_manual_resetting := True, ps_manual_phase := MANUAL_PHASE_EXCLUSIVE_RESET\<rparr>"
      using enter_reset(2) by (auto simp: enter_exclusive_reset_def with_reservation_lock_def get_owner_def split: if_splits)
    then show ?thesis
    proof
      assume own: "busy_token (run_status s) = Some token
        \<and> pl_status p' = (run_status s)\<lparr>ps_manual_resetting := True, ps_manual_phase := MANUAL_PHASE_EXCLUSIVE_RESET\<rparr>"
      then have "ps_pending_enqueue_tokens (run_status s) = []"
        using inv enter_reset(3,4) by (simp add: pr_inv_def)
      then show ?thesis
        using own st enter_reset(1,4) core_inv_enter_reset by (simp add: pr_inv_def pl_inv_def)
    qed (use inv enter_reset(1) in \<open>simp add: pr_inv_def\<close>)
  next
    case (end_drain token b p')
    have "p' = pr_pipe s \<or> pl_status p' = clear_manual_state (run_status s)"
      using end_drain(2) by (auto simp: end_manual_drain_def dest!: with_lock_cases)
    then show ?thesis
      using inv st end_drain(1) core_inv_end_drain
      by (auto simp: pr_inv_def pl_inv_def clear_manual_state_def)
  next
    case (scan_reset_done token b p')
    have "p' = pr_pipe s \<or> busy_token (run_status s) = Some token
        \<and> pl_status p' = clear_manual_state ((run_status s)\<lparr>ps_busy := False, ps_busy_owner := None\<rparr>)"
      using scan_reset_done(2) by (auto simp: scan_reset_release_def get_owner_def dest!: with_lock_cases)
    then show ?thesis
      using inv st scan_reset_done(1,3) core_inv_reset
      by (auto simp: pr_inv_def pl_inv_def clear_manual_state_def)
  next
    case (finalize p' arm uncommitted released halt token)
    have p': "pl_status p' = finalize_status released halt token (run_status s)"
      using finalize(2) by (simp add: finalize_run_status)
    have "pr_inv (s\<lparr>pr_pipe := p'\<rparr>)"
      using finalize_status_cases [of released halt token "run_status s"]
    proof (elim disjE exE conjE)
      assume "finalize_status released halt token (run_status s) = run_status s"
      then show ?thesis using inv by (simp add: pr_inv_def p')
    next
      assume "finalize_status released halt token (run_status s) =
        (run_status s)\<lparr>ps_cancellation_requested := False, ps_cancellation_reason := None,
           ps_cancellation_detail := None, ps_latest_message := final_message halt (run_status s)\<rparr>"
      then show ?thesis using inv by (simp add: pr_inv_def p')
    next
      assume "busy_token (run_status s) = Some token"
        and "finalize_status released halt token (run_status s) =
         (clear_manual_state ((run_status s)\<lparr>ps_busy := False, ps_busy_owner := None\<rparr>))\<lparr>
           ps_cancellation_requested := False, ps_cancellation_reason := None,
           ps_cancellation_detail := None, ps_latest_message := final_message halt (run_status s)\<rparr>"
      then show ?thesis
        using st finalize(3) core_inv_reset by (simp add: pr_inv_def p' pl_inv_def clear_manual_state_def)
    qed
    then show ?thesis using finalize(1) by simp
  qed
qed

lemma pl_reachable_inv: "pl_reachable s \<Longrightarrow> pr_inv s"
proof (induction rule: pl_reachable.induct)
  case (init p)
  then show ?case by (simp add: pr_inv_def pl_inv_initial)
next
  case (step s s')
  then show ?case using pl_step_inv by blast
qed

text \<open>
  C1. Safety of the whole reservation protocol: in every state that
  any interleaving of enqueues, scans, processing runs, manual retries, clears, deletes, custom-chunk
  inserts, repairs, dead-owner recoveries and force-resets can reach, a clear or delete job that drops
  storages never overlaps a scan, an in-flight enqueue or a manual freeze; a scan's classification and
  an exclusive FAILED reset never overlap an in-flight enqueue; a freeze is always held by the run
  that owns the slot, under its own token; a raised flag always has an owner; and the mirrored count
  is the number of in-flight enqueues.
\<close>

theorem pipeline_activities_never_overlap:
  assumes "pl_reachable s"
  defines "st \<equiv> run_status s"
  shows "(ps_destructive_busy st \<longrightarrow> ps_busy st \<and> \<not> ps_scanning st \<and> ps_pending_enqueue_tokens st = []
            \<and> \<not> ps_manual_freeze_requested st)
    \<and> (ps_scanning_exclusive st \<longrightarrow> ps_scanning st \<and> ps_pending_enqueue_tokens st = [])
    \<and> (ps_manual_resetting st \<longrightarrow> ps_manual_freeze_requested st \<and> ps_pending_enqueue_tokens st = [])
    \<and> (ps_manual_freeze_requested st \<longrightarrow> ps_busy st
          \<and> (\<exists>mo. ps_manual_owner st = Some mo \<and> busy_token st = Some (mo_owner_token mo)))
    \<and> (ps_busy st \<longleftrightarrow> ps_busy_owner st \<noteq> None) \<and> (ps_scanning st \<longleftrightarrow> ps_scanning_owner st \<noteq> None)
    \<and> ps_pending_enqueues st = length (ps_pending_enqueue_tokens st)"
proof -
  have inv: "pl_inv st" using pl_reachable_inv [OF assms(1)] by (simp add: pr_inv_def st_def)
  have "ps_manual_freeze_requested st \<Longrightarrow>
      \<exists>mo. ps_manual_owner st = Some mo \<and> busy_token st = Some (mo_owner_token mo)"
  proof -
    assume "ps_manual_freeze_requested st"
    then have *: "map_option mo_owner_token (ps_manual_owner st) = busy_token st" "ps_busy_owner st \<noteq> None"
      using inv by (auto simp: pl_inv_def core_inv_def)
    then have "busy_token st \<noteq> None" by (auto simp: reservation_owner_token_def split: owner.split)
    with * show ?thesis by (cases "ps_manual_owner st") auto
  qed
  with inv show ?thesis by (auto simp: pl_inv_def core_inv_def)
qed

text \<open>A clear job that took an idle pipeline.\<close>

definition ex_clearing :: "mailbox pipe" where
  "ex_clearing = snd (acquire_destructive_busy ex_single_host ''d1'' ''clear'' None ex_idle)"

lemma ex_clearing_status:
  "ps_destructive_busy (pl_status ex_clearing)"
  by (simp add: ex_clearing_def acquire_destructive_busy_def acquire_reservation_def ex_idle_def first_reject_def
      get_flag_def Let_def apply_writes_def set_owner_def)

lemma pipeline_activities_never_overlap_witness:
  "ps_destructive_busy (pl_status ex_clearing) \<and> ps_busy (pl_status ex_clearing)
   \<and> ps_busy_owner (pl_status ex_clearing) \<noteq> None"
proof -
  have "pl_reachable \<lparr>pr_pipe = ex_idle, pr_ready = None\<rparr>"
    by (rule pl_reachable.init) (simp add: ex_idle_def)
  moreover have "caller_step ex_idle ex_clearing"
    unfolding ex_clearing_def
    by (rule caller_step.destructive [of ex_single_host "''d1''" "''clear''" None _
          "fst (acquire_destructive_busy ex_single_host ''d1'' ''clear'' None ex_idle)"]) simp
  ultimately have "pl_reachable \<lparr>pr_pipe = ex_clearing, pr_ready = None\<rparr>"
    using pl_step.caller [of "\<lparr>pr_pipe = ex_idle, pr_ready = None\<rparr>" ex_clearing] pl_reachable.step by fastforce
  from pipeline_activities_never_overlap [OF this] show ?thesis using ex_clearing_status by auto
qed

section \<open>Quiescence\<close>

context quiescence_client
begin

lemma decide_released:
  assumes "ok (pl_ingress p)"
    and "decide_pipeline_next_step peek consume documents sweep_done p = (RELEASED, p')"
  shows "sweep_done \<and> \<not> has_work (view (pl_ingress p)) \<and> \<not> ps_cancellation_requested (pl_status p)
    \<and> ps_manual_phase (pl_status p) \<noteq> MANUAL_PHASE_DRAIN_TO_IDLE
    \<and> pl_status p' = (pl_status p)\<lparr>ps_busy := False, ps_busy_owner := None\<rparr>
    \<and> view (pl_ingress p') = view (pl_ingress p)"
proof -
  obtain b i where ci: "consume (pl_ingress p) = (b, i)" by force
  note cv = consume_view [OF assms(1) ci]
  have "mb_manual_retries (view (pl_ingress p)) = [] \<longleftrightarrow> peek (pl_ingress p) = None"
    using peek_none [OF assms(1)] by simp
  then show ?thesis
    using assms(2) ci cv documents_view [OF cv(2)]
    by (auto simp: decide_pipeline_next_step_def Let_def has_work_def split: if_splits option.splits bool.splits)
qed

lemma decide_begin_reset:
  assumes "ok (pl_ingress p)"
    and "decide_pipeline_next_step peek consume documents sweep_done p = (BEGIN_EXCLUSIVE_RESET, p')"
  shows "sweep_done \<and> ps_manual_phase (pl_status p) = MANUAL_PHASE_DRAIN_TO_IDLE
    \<and> ps_pending_enqueues (pl_status p) = 0
    \<and> mb_documents (view (pl_ingress p)) = [] \<and> \<not> mb_auto_rescan_pending (view (pl_ingress p))"
proof -
  obtain b i where ci: "consume (pl_ingress p) = (b, i)" by force
  note cv = consume_view [OF assms(1) ci]
  show ?thesis
    using assms(2) ci cv documents_view [OF cv(2)]
    by (auto simp: decide_pipeline_next_step_def Let_def split: if_splits option.splits bool.splits)
qed

lemma decide_keeps:
  assumes "ok (pl_ingress p)"
    and "decide_pipeline_next_step peek consume documents sweep_done p = (d, p')"
  shows "(d \<noteq> RELEASED \<longrightarrow> pl_status p' = pl_status p)
    \<and> mb_documents (view (pl_ingress p')) = mb_documents (view (pl_ingress p))
    \<and> mb_manual_retries (view (pl_ingress p')) = mb_manual_retries (view (pl_ingress p))
    \<and> (d \<noteq> CONTINUE_AUTO \<longrightarrow> mb_auto_rescan_pending (view (pl_ingress p')) = mb_auto_rescan_pending (view (pl_ingress p)))
    \<and> ok (pl_ingress p')"
proof -
  obtain b i where ci: "consume (pl_ingress p) = (b, i)" by force
  note cv = consume_view [OF assms(1) ci]
  show ?thesis
    using assms ci cv
    by (auto simp: decide_pipeline_next_step_def Let_def split: if_splits option.splits bool.splits)
qed

end

text \<open>
  C6. The quiescence decision, in the multi-worker deployment: it releases
  the slot only when the sweep is finished, nothing is cancelled, no drain is running, and the
  workspace's mailbox holds no document notification, no auto-rescan flag and no manual request; it
  begins an exclusive reset only with the drain finished, the mailbox's AUTO work gone and no enqueue
  in flight. It never drops a notification or a manual request, consumes the flag only when the run
  goes on to serve it, and otherwise leaves the status alone.
\<close>

theorem quiescence_strands_no_work:
  assumes "hub_inv (pl_ingress p)"
    and "decide_pipeline_next_step (\<lambda>hub. fst (hub_peek_next_manual_retry env ns hub))
           (hub_consume_auto_rescan env ns) (\<lambda>hub. c_documents (fst (hub_counts env ns hub))) sweep_done p = (d, p')"
  shows "(d = RELEASED \<longrightarrow> sweep_done \<and> \<not> has_work (hub_view env ns (pl_ingress p))
            \<and> \<not> ps_cancellation_requested (pl_status p)
            \<and> ps_manual_phase (pl_status p) \<noteq> MANUAL_PHASE_DRAIN_TO_IDLE
            \<and> pl_status p' = (pl_status p)\<lparr>ps_busy := False, ps_busy_owner := None\<rparr>)
    \<and> (d = BEGIN_EXCLUSIVE_RESET \<longrightarrow> sweep_done \<and> ps_manual_phase (pl_status p) = MANUAL_PHASE_DRAIN_TO_IDLE
            \<and> ps_pending_enqueues (pl_status p) = 0 \<and> mb_documents (hub_view env ns (pl_ingress p)) = []
            \<and> \<not> mb_auto_rescan_pending (hub_view env ns (pl_ingress p)))
    \<and> (d \<noteq> RELEASED \<longrightarrow> pl_status p' = pl_status p)
    \<and> mb_documents (hub_view env ns (pl_ingress p')) = mb_documents (hub_view env ns (pl_ingress p))
    \<and> mb_manual_retries (hub_view env ns (pl_ingress p')) = mb_manual_retries (hub_view env ns (pl_ingress p))
    \<and> (d \<noteq> CONTINUE_AUTO \<longrightarrow> mb_auto_rescan_pending (hub_view env ns (pl_ingress p'))
          = mb_auto_rescan_pending (hub_view env ns (pl_ingress p)))"
  using mgr_quiescence.decide_released [OF assms(1)] mgr_quiescence.decide_begin_reset [OF assms(1)]
    mgr_quiescence.decide_keeps [OF assms] assms(2) by blast

lemma quiescence_strands_no_work_witness:
  "fst (decide_pipeline_next_step (\<lambda>hub. fst (hub_peek_next_manual_retry None ''ws'' hub))
     (hub_consume_auto_rescan None ''ws'') (\<lambda>hub. c_documents (fst (hub_counts None ''ws'' hub))) True
     \<lparr>pl_status = initial_pipeline_status\<lparr>ps_busy := True\<rparr>,
      pl_ingress = snd (hub_request_auto_rescan None ''ws'' []),
      pl_freeze_rejects = 0, pl_auto_rescan_rearms = 0\<rparr>) \<noteq> RELEASED"
proof -
  let ?p = "\<lparr>pl_status = initial_pipeline_status\<lparr>ps_busy := True\<rparr>,
      pl_ingress = snd (hub_request_auto_rescan None ''ws'' []),
      pl_freeze_rejects = 0, pl_auto_rescan_rearms = 0\<rparr>"
  have "hub_inv ([] :: ingress_hub)" by (simp add: hub_inv_def)
  then have "hub_inv (pl_ingress ?p)"
    using mgr_step_inv [of "[]" None "''ws''" RequestAutoRescan] by simp
  moreover have "has_work (hub_view None ''ws'' (pl_ingress ?p))"
    using mgr_client.arm_pending [OF \<open>hub_inv []\<close>, of None "''ws''"] by (simp add: has_work_def)
  ultimately show ?thesis
    using quiescence_strands_no_work [of ?p None "''ws''" True] by (metis surjective_pairing)
qed

definition drain_after :: "string list list \<Rightarrow> drain_progress" where
  "drain_after rounds = fold (\<lambda>ids dp. snd (drain_observe ids dp)) rounds drain_progress_init"

lemma same_rounds:
  assumes "rounds \<noteq> []"
  shows "length (takeWhile (\<lambda>r. set r = S) (rev rounds)) =
    (if set (last rounds) = S then length (takeWhile (\<lambda>r. set r = set (last rounds)) (rev rounds)) else 0)"
proof (cases "set (last rounds) = S")
  case False
  then show ?thesis using assms by (cases rounds rule: rev_cases) simp_all
qed simp

lemma drain_after_snoc: "drain_after (rounds @ [r]) = snd (drain_observe r (drain_after rounds))"
  by (simp add: drain_after_def)

lemma drain_after_state:
  "rounds \<noteq> [] \<Longrightarrow>
   dp_blocking_ids (drain_after rounds) = Some (set (last rounds))
   \<and> dp_repeats (drain_after rounds) = length (takeWhile (\<lambda>r. set r = set (last rounds)) (rev rounds))"
proof (induction rounds rule: rev_induct)
  case (snoc r rounds)
  show ?case
  proof (cases "rounds = []")
    case True
    then show ?thesis by (simp add: drain_after_def drain_observe_def drain_progress_init_def)
  next
    case False
    note IH = snoc.IH [OF False]
    show ?thesis
    proof (cases "set (last rounds) = set r")
      case True
      then show ?thesis
        using IH by (simp add: drain_after_snoc drain_observe_def)
    next
      case ne: False
      then show ?thesis
        using IH same_rounds [OF False, of "set r"] by (simp add: drain_after_snoc drain_observe_def)
    qed
  qed
qed simp

text \<open>
  A manual drain is declared stalled exactly when the same set of rows has
  blocked three confirmation rounds in a row, whatever the earlier rounds were: a changing set never
  is, an unchanging one always is.
\<close>

theorem drain_stall_is_detected:
  "\<not> fst (drain_observe ids (drain_after rounds))
   \<longleftrightarrow> 2 \<le> length (takeWhile (\<lambda>r. set r = set ids) (rev rounds))"
proof (cases "rounds = []")
  case True
  then show ?thesis by (simp add: drain_after_def drain_observe_def drain_progress_init_def)
next
  case False
  show ?thesis
  proof (cases "set (last rounds) = set ids")
    case True
    then show ?thesis
      using drain_after_state [OF False] by (simp add: drain_observe_def MANUAL_DRAIN_STALL_ROUNDS_def) linarith
  next
    case ne: False
    then show ?thesis
      using drain_after_state [OF False] same_rounds [OF False, of "set ids"]
      by (simp add: drain_observe_def)
  qed
qed

text \<open>
  When a single-document delete of the SDK is admitted: exactly
  when the workspace is not fenced and no one is busy, after recovery. A scan that is classifying
  files and an enqueue in flight do not refuse it, unlike every other job that rewrites storage.
\<close>

theorem single_delete_waits_only_for_busy:
  fixes h :: host and p :: "'i pipe"
  defines "st \<equiv> reconcile_dead_pipeline_reservations h (pl_status p)"
  shows "(\<exists>r. fst (acquire_single_delete h token doc now_iso p) = Inr r \<and> rr_acquired r)
     \<longleftrightarrow> ps_recovery_required st = None \<and> \<not> ps_busy st"
  unfolding acquire_single_delete_def acquire_reservation_def Let_def st_def
  by (auto simp: recovery_required_result_def granted_def first_reject_def get_flag_def refuse_flag_def
      conflict_for_status_flag_def conflict_of_flag_def)

end
