(* ===== verification/GlobalGate.thy ===== *)
theory GlobalGate
  imports Liveness
begin

text \<open>
  The cross-worker concurrency gate of \<open>ontorag/kg/shared_storage.py\<close>: leases on the global slots of a
  group, their heartbeat and reclaim, the waiters that poll for a slot, and the aggregation of the
  workers' queue statistics. The whole gate of a group is one value of the shared namespace, read and
  written back under the group's keyed lock, so an operation is one function from gate to gate. The
  theorems: the cap is never exceeded, a live and renewing holder keeps its lease, a reclaimed lease
  never comes back, the longest waiter is the one told so.
\<close>

section \<open>State\<close>

definition HEARTBEAT_TTL :: real where
  "HEARTBEAT_TTL = 20"

definition SUSPECT_GRACE :: real where
  "SUSPECT_GRACE = 20"

definition WAITER_STALE_TTL :: real where
  "WAITER_STALE_TTL = 1"

definition QUEUE_STATS_STALE_TTL :: real where
  "QUEUE_STATS_STALE_TTL = 15"

record lease =
  le_pid :: "int option"
  le_updated_at :: real
  le_suspect_since :: "real option"

record waiter =
  wa_pid :: "int option"
  wa_wait_start :: real
  wa_last_poll :: real

text \<open>The waiters are keyed by \<open>str(pid)\<close>, here by the pid itself.\<close>

record gate =
  ga_leases :: "(string, lease) odict"
  ga_waiters :: "(int, waiter) odict"

type_synonym gate_ns = "(string, gate) odict"

definition empty_gate_state :: gate where
  "empty_gate_state = \<lparr>ga_leases = [], ga_waiters = []\<rparr>"

definition load_gate_state :: "gate_ns \<Rightarrow> string \<Rightarrow> gate" where
  "load_gate_state ns grp = (case map_of ns grp of None \<Rightarrow> empty_gate_state | Some g \<Rightarrow> g)"

text \<open>The configured limits, \<open>None\<close> when there are none.\<close>

type_synonym limits = "(string, int) odict option"

definition get_global_concurrency_limit :: "limits \<Rightarrow> string \<Rightarrow> int option" where
  "get_global_concurrency_limit limits grp =
     (case limits of None \<Rightarrow> None | Some m \<Rightarrow> if grp = '''' \<or> m = [] then None else map_of m grp)"

definition is_global_concurrency_limited :: "limits \<Rightarrow> string \<Rightarrow> bool" where
  "is_global_concurrency_limited limits grp =
     (case get_global_concurrency_limit limits grp of None \<Rightarrow> False | Some l \<Rightarrow> l > 0)"

section \<open>Reclaim\<close>

text \<open>What the reap decides for one lease: drop it, or keep it, possibly with its suspect mark changed.\<close>

definition reap_lease :: "os_env \<Rightarrow> real \<Rightarrow> lease \<Rightarrow> lease option" where
  "reap_lease env now le =
     (case le_pid le of
        None \<Rightarrow> None
      | Some pid \<Rightarrow>
          if \<not> pid_alive env pid then None
          else if now - le_updated_at le > HEARTBEAT_TTL then
            (case le_suspect_since le of
               None \<Rightarrow> Some (le\<lparr>le_suspect_since := Some now\<rparr>)
             | Some since \<Rightarrow> if now - since > SUSPECT_GRACE then None else Some le)
          else Some (le\<lparr>le_suspect_since := None\<rparr>))"

fun reap_leases ::
  "os_env \<Rightarrow> real \<Rightarrow> (string, lease) odict \<Rightarrow> (string, lease) odict \<times> nat \<times> bool \<times> int list" where
  "reap_leases env now [] = ([], 0, False, [])"
| "reap_leases env now ((lease_id, le) # leases) =
     (case reap_leases env now leases of (kept, live, changed, reclaimed_pids) \<Rightarrow>
        (case reap_lease env now le of
           None \<Rightarrow>
             (kept, live, True, (case le_pid le of None \<Rightarrow> reclaimed_pids | Some pid \<Rightarrow> pid # reclaimed_pids))
         | Some le' \<Rightarrow> ((lease_id, le') # kept, Suc live, changed \<or> le' \<noteq> le, reclaimed_pids)))"

definition waiter_gone :: "os_env \<Rightarrow> real \<Rightarrow> int list \<Rightarrow> waiter \<Rightarrow> bool" where
  "waiter_gone env now reclaimed_pids w =
     (case wa_pid w of
        None \<Rightarrow> True
      | Some pid \<Rightarrow> pid \<in> set reclaimed_pids \<or> \<not> pid_alive env pid \<or> now - wa_last_poll w > WAITER_STALE_TTL)"

definition reap_gate_state :: "os_env \<Rightarrow> real \<Rightarrow> gate \<Rightarrow> nat \<times> bool \<times> gate" where
  "reap_gate_state env now g =
     (case reap_leases env now (ga_leases g) of (leases, live, changed, reclaimed_pids) \<Rightarrow>
        (let waiters = filter (\<lambda>(_, w). \<not> waiter_gone env now reclaimed_pids w) (ga_waiters g)
         in (live, changed \<or> length waiters \<noteq> length (ga_waiters g),
             \<lparr>ga_leases = leases, ga_waiters = waiters\<rparr>)))"

section \<open>Operations\<close>

text \<open>The loop of \<open>_is_longest_live_waiter\<close>: this process's start, and the earliest of the others.\<close>

fun waiter_starts :: "int \<Rightarrow> waiter list \<Rightarrow> real option \<Rightarrow> real option \<Rightarrow> real option \<times> real option" where
  "waiter_starts pid [] my_start others_min = (my_start, others_min)"
| "waiter_starts pid (w # ws) my_start others_min =
     (if wa_pid w = Some pid then waiter_starts pid ws (Some (wa_wait_start w)) others_min
      else if (case others_min of None \<Rightarrow> True | Some m \<Rightarrow> wa_wait_start w < m)
      then waiter_starts pid ws my_start (Some (wa_wait_start w))
      else waiter_starts pid ws my_start others_min)"

definition is_longest_live_waiter :: "gate \<Rightarrow> int \<Rightarrow> bool" where
  "is_longest_live_waiter g pid =
     (case waiter_starts pid (map snd (ga_waiters g)) None None of
        (None, _) \<Rightarrow> False
      | (Some mine, None) \<Rightarrow> True
      | (Some mine, Some others) \<Rightarrow> mine \<le> others)"

text \<open>
  \<open>_acquire_global_slot\<close>. \<open>shared_ok\<close> is false when the shared namespace cannot be reached: the call
  fails closed. \<open>uuid\<close> is the fresh lease id. A write of an unchanged value is no write.
\<close>

definition acquire_global_slot ::
  "os_env \<Rightarrow> limits \<Rightarrow> bool \<Rightarrow> real \<Rightarrow> string \<Rightarrow> string \<Rightarrow> bool \<Rightarrow> gate_ns
   \<Rightarrow> (string option \<times> bool) \<times> gate_ns" where
  "acquire_global_slot env limits shared_ok now uuid grp track_wait ns =
     (case get_global_concurrency_limit limits grp of
        None \<Rightarrow> ((None, False), ns)
      | Some limit \<Rightarrow>
          if limit \<le> 0 \<or> \<not> shared_ok then ((None, False), ns)
          else
            (case reap_gate_state env now (load_gate_state ns grp) of (in_use, changed, g) \<Rightarrow>
               (let pid = os_getpid env
                in if int in_use \<ge> limit then
                     (if \<not> track_wait then ((None, False), if changed then od_set grp g ns else ns)
                      else
                        (let w = (case map_of (ga_waiters g) pid of
                               None \<Rightarrow> \<lparr>wa_pid = Some pid, wa_wait_start = now, wa_last_poll = now\<rparr>
                             | Some w \<Rightarrow> w\<lparr>wa_last_poll := now\<rparr>);
                             g' = g\<lparr>ga_waiters := od_set pid w (ga_waiters g)\<rparr>
                         in ((None, is_longest_live_waiter g' pid), od_set grp g' ns)))
                   else
                     ((Some uuid, True),
                      od_set grp
                        (g\<lparr>ga_leases := od_set uuid
                               \<lparr>le_pid = Some pid, le_updated_at = now, le_suspect_since = None\<rparr> (ga_leases g),
                            ga_waiters := od_del pid (ga_waiters g)\<rparr>) ns))))"

definition try_acquire_global_slot ::
  "os_env \<Rightarrow> limits \<Rightarrow> bool \<Rightarrow> real \<Rightarrow> string \<Rightarrow> string \<Rightarrow> gate_ns \<Rightarrow> string option \<times> gate_ns" where
  "try_acquire_global_slot env limits shared_ok now uuid grp ns =
     (case acquire_global_slot env limits shared_ok now uuid grp False ns of ((l, _), ns') \<Rightarrow> (l, ns'))"

definition try_acquire_global_slot_tracked ::
  "os_env \<Rightarrow> limits \<Rightarrow> bool \<Rightarrow> real \<Rightarrow> string \<Rightarrow> string \<Rightarrow> gate_ns \<Rightarrow> (string option \<times> bool) \<times> gate_ns" where
  "try_acquire_global_slot_tracked env limits shared_ok now uuid grp ns =
     acquire_global_slot env limits shared_ok now uuid grp True ns"

definition clear_slot_waiter :: "os_env \<Rightarrow> string \<Rightarrow> gate_ns \<Rightarrow> gate_ns" where
  "clear_slot_waiter env grp ns =
     (let g = load_gate_state ns grp
      in if map_of (ga_waiters g) (os_getpid env) = None then ns
         else od_set grp (g\<lparr>ga_waiters := od_del (os_getpid env) (ga_waiters g)\<rparr>) ns)"

definition release_global_slot :: "string \<Rightarrow> string \<Rightarrow> gate_ns \<Rightarrow> gate_ns" where
  "release_global_slot grp lease_id ns =
     (let g = load_gate_state ns grp
      in if map_of (ga_leases g) lease_id = None then ns
         else od_set grp (g\<lparr>ga_leases := od_del lease_id (ga_leases g)\<rparr>) ns)"

definition renew_lease :: "os_env \<Rightarrow> real \<Rightarrow> string \<Rightarrow> (string, lease) odict \<Rightarrow> (string, lease) odict" where
  "renew_lease env now lease_id leases =
     (if map_of leases lease_id = None then leases
      else od_set lease_id
        \<lparr>le_pid = Some (os_getpid env), le_updated_at = now, le_suspect_since = None\<rparr> leases)"

definition renew_global_slots :: "os_env \<Rightarrow> real \<Rightarrow> string \<Rightarrow> string list \<Rightarrow> gate_ns \<Rightarrow> gate_ns" where
  "renew_global_slots env now grp lease_ids ns =
     (let g = load_gate_state ns grp
      in if list_all (\<lambda>l. map_of (ga_leases g) l = None) lease_ids then ns
         else od_set grp (g\<lparr>ga_leases := fold (renew_lease env now) lease_ids (ga_leases g)\<rparr>) ns)"

definition reconcile_global_slots :: "os_env \<Rightarrow> real \<Rightarrow> string \<Rightarrow> gate_ns \<Rightarrow> nat \<times> gate_ns" where
  "reconcile_global_slots env now grp ns =
     (case reap_gate_state env now (load_gate_state ns grp) of (live, changed, g) \<Rightarrow>
        (live, if changed then od_set grp g ns else ns))"

definition global_concurrency_in_use :: "string \<Rightarrow> gate_ns \<Rightarrow> nat" where
  "global_concurrency_in_use grp ns = length (ga_leases (load_gate_state ns grp))"

definition global_slot_waiters :: "real \<Rightarrow> string \<Rightarrow> gate_ns \<Rightarrow> (int option \<times> real) list" where
  "global_slot_waiters now grp ns =
     sort_key (\<lambda>(_, waited). - waited)
       (map (\<lambda>(_, w). (wa_pid w, max 0 (now - wa_wait_start w)))
         (filter (\<lambda>(_, w). \<not> now - wa_last_poll w > WAITER_STALE_TTL) (ga_waiters (load_gate_state ns grp))))"

section \<open>Reaping\<close>

lemma reap_leases_kept:
  "fst (reap_leases env now d) =
     map (\<lambda>(l, le). (l, the (reap_lease env now le))) (filter (\<lambda>(_, le). reap_lease env now le \<noteq> None) d)"
  by (induction d) (auto split: prod.split option.split)

lemma reap_leases_live: "fst (snd (reap_leases env now d)) = length (fst (reap_leases env now d))"
  by (induction d) (auto split: prod.split option.split)

lemma reap_leases_unchanged: "\<not> fst (snd (snd (reap_leases env now d))) \<Longrightarrow> fst (reap_leases env now d) = d"
  by (induction d) (auto split: prod.splits option.splits)

lemma reap_leases_pids:
  "p \<in> set (snd (snd (snd (reap_leases env now d)))) \<longleftrightarrow>
   (\<exists>(l, le)\<in>set d. reap_lease env now le = None \<and> le_pid le = Some p)"
  by (induction d) (auto split: prod.splits option.splits)

lemma reap_gate_parts:
  "ga_leases (snd (snd (reap_gate_state env now g))) = fst (reap_leases env now (ga_leases g))"
  "fst (reap_gate_state env now g) = length (ga_leases (snd (snd (reap_gate_state env now g))))"
  "\<not> fst (snd (reap_gate_state env now g)) \<Longrightarrow> snd (snd (reap_gate_state env now g)) = g"
proof -
  obtain leases live changed pids where r: "reap_leases env now (ga_leases g) = (leases, live, changed, pids)"
    by (cases "reap_leases env now (ga_leases g)") auto
  show "ga_leases (snd (snd (reap_gate_state env now g))) = fst (reap_leases env now (ga_leases g))"
    "fst (reap_gate_state env now g) = length (ga_leases (snd (snd (reap_gate_state env now g))))"
    using r reap_leases_live [of env now "ga_leases g"] by (simp_all add: reap_gate_state_def Let_def)
  assume "\<not> fst (snd (reap_gate_state env now g))"
  then have nc: "\<not> changed"
    and len: "length (filter (\<lambda>(_, w). \<not> waiter_gone env now pids w) (ga_waiters g)) = length (ga_waiters g)"
    using r by (simp_all add: reap_gate_state_def Let_def)
  from len have "filter (\<lambda>(_, w). \<not> waiter_gone env now pids w) (ga_waiters g) = ga_waiters g"
    by (metis filter_id_conv length_filter_less nless_le)
  then show "snd (snd (reap_gate_state env now g)) = g"
    using r nc reap_leases_unchanged [of env now "ga_leases g"] by (simp add: reap_gate_state_def Let_def)
qed

lemma map_of_map_filter_Some:
  "od_wf d \<Longrightarrow> map_of (map (\<lambda>(l, le). (l, the (f le))) (filter (\<lambda>(_, le). f le \<noteq> None) d)) l
     = (case map_of d l of None \<Rightarrow> None | Some le \<Rightarrow> f le)"
proof (induction d)
  case (Cons e d)
  obtain k v where e: "e = (k, v)" by force
  have wf: "od_wf d" "map_of d k = None"
    using Cons.prems by (auto simp: od_wf_def e map_of_eq_None_iff)
  note IH = Cons.IH [OF wf(1)]
  show ?case
    using IH wf(2) by (cases "k = l"; cases "f v") (auto simp: e)
qed simp

lemma reap_lookup:
  assumes "od_wf (ga_leases g)"
  shows "map_of (ga_leases (snd (snd (reap_gate_state env now g)))) l =
    (case map_of (ga_leases g) l of None \<Rightarrow> None | Some le \<Rightarrow> reap_lease env now le)"
  using map_of_map_filter_Some [OF assms] by (simp add: reap_gate_parts(1) reap_leases_kept)

lemma reap_wf:
  assumes "od_wf (ga_leases g)"
  shows "od_wf (ga_leases (snd (snd (reap_gate_state env now g))))"
proof -
  let ?kept = "filter (\<lambda>(_, le). reap_lease env now le \<noteq> None) (ga_leases g)"
  have "od_keys (fst (reap_leases env now (ga_leases g))) = od_keys ?kept"
    unfolding reap_leases_kept by (induction "ga_leases g") (simp_all add: split_beta)
  moreover have "distinct (od_keys d) \<Longrightarrow> distinct (od_keys (filter P d))"
    for P and d :: "(string, lease) odict"
    by (induction d) auto
  ultimately show ?thesis
    using assms unfolding od_wf_def reap_gate_parts(1) by metis
qed

lemma reap_length: "length (ga_leases (snd (snd (reap_gate_state env now g)))) \<le> length (ga_leases g)"
  by (simp add: reap_gate_parts(1) reap_leases_kept)

section \<open>The gate under any sequence of calls\<close>

datatype gate_op =
    Acquire bool string string bool
  | Release string string
  | Renew string "string list"
  | Reconcile string
  | ClearWaiter string

fun gate_step :: "limits \<Rightarrow> os_env \<Rightarrow> real \<Rightarrow> gate_op \<Rightarrow> gate_ns \<Rightarrow> gate_ns" where
  "gate_step limits env now (Acquire ok uuid grp track) ns =
     snd (acquire_global_slot env limits ok now uuid grp track ns)"
| "gate_step limits env now (Release grp l) ns = release_global_slot grp l ns"
| "gate_step limits env now (Renew grp ls) ns = renew_global_slots env now grp ls ns"
| "gate_step limits env now (Reconcile grp) ns = snd (reconcile_global_slots env now grp ns)"
| "gate_step limits env now (ClearWaiter grp) ns = clear_slot_waiter env grp ns"

type_synonym gate_trace = "(os_env \<times> real \<times> gate_op) list"

definition gate_run :: "limits \<Rightarrow> gate_trace \<Rightarrow> gate_ns \<Rightarrow> gate_ns" where
  "gate_run limits tr ns = fold (\<lambda>(env, now, op). gate_step limits env now op) tr ns"

text \<open>What one call does to the leases of one group, seen through \<open>load_gate_state\<close>.\<close>

abbreviation leases_of :: "gate_ns \<Rightarrow> string \<Rightarrow> (string, lease) odict" where
  "leases_of ns grp \<equiv> ga_leases (load_gate_state ns grp)"

lemma load_set [simp]: "load_gate_state (od_set grp g ns) grp' = (if grp' = grp then g else load_gate_state ns grp')"
  by (simp add: load_gate_state_def)

definition reaped :: "os_env \<Rightarrow> real \<Rightarrow> (string, lease) odict \<Rightarrow> (string, lease) odict" where
  "reaped env now d = fst (reap_leases env now d)"

lemma reaped_gate: "ga_leases (snd (snd (reap_gate_state env now g))) = reaped env now (ga_leases g)"
  by (simp add: reaped_def reap_gate_parts(1))

lemma acquire_leases:
  "leases_of (snd (acquire_global_slot env limits ok now uuid grp track ns)) grp' =
     (case get_global_concurrency_limit limits grp of
        None \<Rightarrow> leases_of ns grp'
      | Some limit \<Rightarrow>
          if grp' \<noteq> grp \<or> limit \<le> 0 \<or> \<not> ok then leases_of ns grp'
          else if int (length (reaped env now (leases_of ns grp))) \<ge> limit then reaped env now (leases_of ns grp)
          else od_set uuid \<lparr>le_pid = Some (os_getpid env), le_updated_at = now, le_suspect_since = None\<rparr>
                 (reaped env now (leases_of ns grp)))"
proof -
  obtain in_use changed g where r: "reap_gate_state env now (load_gate_state ns grp) = (in_use, changed, g)"
    by (cases "reap_gate_state env now (load_gate_state ns grp)") auto
  have g: "ga_leases g = reaped env now (leases_of ns grp)" "in_use = length (ga_leases g)"
    using reaped_gate [of env now "load_gate_state ns grp"] reap_gate_parts(2) [of env now "load_gate_state ns grp"] r
    by simp_all
  have nc: "\<not> changed \<Longrightarrow> g = load_gate_state ns grp"
    using reap_gate_parts(3) [of env now "load_gate_state ns grp"] r by simp
  show ?thesis
    using r g nc by (auto simp: acquire_global_slot_def Let_def split: option.splits)
qed

lemma reconcile_leases:
  "leases_of (snd (reconcile_global_slots env now grp ns)) grp' =
     (if grp' = grp then reaped env now (leases_of ns grp) else leases_of ns grp')"
proof -
  obtain in_use changed g where r: "reap_gate_state env now (load_gate_state ns grp) = (in_use, changed, g)"
    by (cases "reap_gate_state env now (load_gate_state ns grp)") auto
  have g: "ga_leases g = reaped env now (leases_of ns grp)"
    using reaped_gate [of env now "load_gate_state ns grp"] r by simp
  have nc: "\<not> changed \<Longrightarrow> g = load_gate_state ns grp"
    using reap_gate_parts(3) [of env now "load_gate_state ns grp"] r by simp
  show ?thesis using r g nc by (auto simp: reconcile_global_slots_def)
qed

lemma renew_unchanged: "list_all (\<lambda>l. map_of d l = None) ls \<Longrightarrow> fold (renew_lease env now) ls d = d"
  by (induction ls) (simp_all add: renew_lease_def)

lemma gate_step_leases:
  "leases_of (gate_step limits env now (Release grp l) ns) grp' =
     (if grp' = grp then od_del l (leases_of ns grp) else leases_of ns grp')"
  "leases_of (gate_step limits env now (Renew grp ls) ns) grp' =
     (if grp' = grp then fold (renew_lease env now) ls (leases_of ns grp) else leases_of ns grp')"
  "leases_of (gate_step limits env now (ClearWaiter grp) ns) grp' = leases_of ns grp'"
  by (auto simp: release_global_slot_def renew_global_slots_def clear_slot_waiter_def Let_def od_del_absent
      renew_unchanged)

lemma length_reaped: "length (reaped env now d) \<le> length d"
  using reap_length [of env now "\<lparr>ga_leases = d, ga_waiters = []\<rparr>"]
  by (simp add: reap_gate_parts(1) reaped_def)

lemma renew_keys: "od_keys (fold (renew_lease env now) ls d) = od_keys d"
proof (induction ls arbitrary: d)
  case (Cons l ls)
  have "od_keys (renew_lease env now l d) = od_keys d"
    by (simp add: renew_lease_def od_keys_set)
  then show ?case using Cons by simp
qed simp

lemma length_renew: "length (fold (renew_lease env now) ls d) = length d"
  using renew_keys by (metis length_map)

definition cap_of :: "limits \<Rightarrow> string \<Rightarrow> int" where
  "cap_of limits grp = (case get_global_concurrency_limit limits grp of None \<Rightarrow> 0 | Some l \<Rightarrow> max 0 l)"

lemma gate_step_cap:
  assumes "\<And>grp. int (length (leases_of ns grp)) \<le> cap_of limits grp"
  shows "int (length (leases_of (gate_step limits env now op ns) grp)) \<le> cap_of limits grp"
proof (cases op)
  case (Acquire ok uuid g track)
  have "int (length (reaped env now (leases_of ns g))) \<le> int (length (leases_of ns g))"
    using length_reaped by simp
  then show ?thesis
    using assms [of grp] assms [of g]
    by (auto simp: Acquire acquire_leases length_od_set cap_of_def simp del: acquire_leases
        split: option.splits) (auto simp: acquire_leases length_od_set cap_of_def split: option.splits)
next
  case (Release g l)
  then show ?thesis using assms [of grp] length_od_del_le [of l "leases_of ns g"]
    by (auto simp: gate_step_leases simp del: gate_step.simps)
next
  case (Renew g ls)
  then show ?thesis using assms [of grp] by (auto simp: gate_step_leases length_renew simp del: gate_step.simps)
next
  case (Reconcile g)
  then show ?thesis using assms [of grp] length_reaped [of env now "leases_of ns g"]
    by (auto simp: reconcile_leases)
next
  case (ClearWaiter g)
  then show ?thesis using assms [of grp] by (simp add: gate_step_leases del: gate_step.simps)
qed

definition gates_wf :: "gate_ns \<Rightarrow> bool" where
  "gates_wf ns \<longleftrightarrow> (\<forall>grp. od_wf (leases_of ns grp))"

lemma reaped_wf: "od_wf d \<Longrightarrow> od_wf (reaped env now d)"
  using reap_wf [of "\<lparr>ga_leases = d, ga_waiters = []\<rparr>"] by (simp add: reaped_gate)

lemma reaped_lookup:
  "od_wf d \<Longrightarrow> map_of (reaped env now d) l = (case map_of d l of None \<Rightarrow> None | Some le \<Rightarrow> reap_lease env now le)"
  using reap_lookup [of "\<lparr>ga_leases = d, ga_waiters = []\<rparr>"] by (simp add: reaped_gate)

lemma renew_wf: "od_wf d \<Longrightarrow> od_wf (fold (renew_lease env now) ls d)"
  by (simp add: od_wf_def renew_keys)

lemma renew_lookup:
  "map_of (fold (renew_lease env now) ls d) l =
     (if l \<in> set ls \<and> map_of d l \<noteq> None
      then Some \<lparr>le_pid = Some (os_getpid env), le_updated_at = now, le_suspect_since = None\<rparr> else map_of d l)"
  by (induction ls arbitrary: d) (auto simp: renew_lease_def)

lemma gate_step_wf:
  assumes "gates_wf ns"
  shows "gates_wf (gate_step limits env now op ns)"
proof -
  have wf: "od_wf (leases_of ns grp)" for grp using assms by (simp add: gates_wf_def)
  have "od_wf (leases_of (gate_step limits env now op ns) grp)" for grp
  proof (cases op)
    case (Acquire ok uuid g track)
    show ?thesis using wf reaped_wf by (simp add: Acquire acquire_leases split: option.split)
  next
    case (Reconcile g)
    show ?thesis using wf reaped_wf by (simp add: Reconcile reconcile_leases)
  qed (use wf in \<open>simp_all add: gate_step_leases renew_wf del: gate_step.simps\<close>)
  then show ?thesis by (simp add: gates_wf_def)
qed

text \<open>
  C17. The cap is a cap: whatever sequence of acquires (tracked or not, failing
  closed or not), releases, renewals, reconciliations and deaths of processes the workers produce, no
  group ever holds more leases than its configured limit, and none at all without a positive limit.
\<close>

theorem gate_never_exceeds_limit:
  "int (global_concurrency_in_use grp (gate_run limits tr [])) \<le> cap_of limits grp"
proof -
  have "(\<And>grp. int (length (leases_of ns grp)) \<le> cap_of limits grp) \<Longrightarrow>
      int (length (leases_of (gate_run limits tr ns) grp)) \<le> cap_of limits grp" for ns
  proof (induction tr arbitrary: ns)
    case (Cons e tr)
    obtain env now op where "e = (env, now, op)" by (cases e) auto
    then show ?case using Cons.IH gate_step_cap [OF Cons.prems] by (simp add: gate_run_def)
  qed (simp add: gate_run_def)
  from this [of "[]"] show ?thesis
    by (simp add: global_concurrency_in_use_def load_gate_state_def empty_gate_state_def cap_of_def split: option.split)
qed

text \<open>
  The holder \<open>p\<close> of lease \<open>l\<close> lives on and renews it at least every 40 seconds (the heartbeat's time to
  live plus the suspect grace), counted from \<open>t\<close>; nobody releases the lease or reuses its id.
\<close>

fun kept_alive :: "string \<Rightarrow> string \<Rightarrow> int \<Rightarrow> real \<Rightarrow> gate_trace \<Rightarrow> bool" where
  "kept_alive grp l p t [] = True"
| "kept_alive grp l p t ((env, now, op) # tr) =
     (pid_alive env p \<and> now - t \<le> HEARTBEAT_TTL + SUSPECT_GRACE
      \<and> (case op of
           Acquire _ uuid g _ \<Rightarrow> g \<noteq> grp \<or> uuid \<noteq> l
         | Release g l' \<Rightarrow> g \<noteq> grp \<or> l' \<noteq> l
         | Renew g ls \<Rightarrow> g \<noteq> grp \<or> l \<notin> set ls \<or> os_getpid env = p
         | _ \<Rightarrow> True)
      \<and> kept_alive grp l p (case op of Renew g ls \<Rightarrow> if g = grp \<and> l \<in> set ls then now else t | _ \<Rightarrow> t) tr)"

definition holds :: "string \<Rightarrow> int \<Rightarrow> real \<Rightarrow> (string, lease) odict \<Rightarrow> bool" where
  "holds l p t d \<longleftrightarrow>
     (\<exists>le. map_of d l = Some le \<and> le_pid le = Some p \<and> le_updated_at le = t
        \<and> (\<forall>s. le_suspect_since le = Some s \<longrightarrow> s > t + HEARTBEAT_TTL))"

lemma holds_reaped:
  assumes "od_wf d" and "holds l p t d" and "pid_alive env p" and "now - t \<le> HEARTBEAT_TTL + SUSPECT_GRACE"
  shows "holds l p t (reaped env now d)"
  using assms by (auto simp: holds_def reaped_lookup reap_lease_def split: option.splits)

lemma gate_step_holds:
  assumes wf: "gates_wf ns" and "holds l p t (leases_of ns grp)"
    and "kept_alive grp l p t ((env, now, op) # tr)"
  shows "holds l p (case op of Renew g ls \<Rightarrow> if g = grp \<and> l \<in> set ls then now else t | _ \<Rightarrow> t)
     (leases_of (gate_step limits env now op ns) grp)"
proof -
  have wf1: "od_wf (leases_of ns grp)" using wf by (simp add: gates_wf_def)
  have hr: "holds l p t (reaped env now (leases_of ns grp))"
    using holds_reaped [OF wf1 assms(2)] assms(3) by simp
  show ?thesis
  proof (cases op)
    case (Acquire ok uuid g track)
    have "holds l p t (od_set uuid x (reaped env now (leases_of ns grp)))" if "g = grp" for x
      using hr that assms(3) by (auto simp: Acquire holds_def)
    then show ?thesis using hr assms(2) by (auto simp: Acquire acquire_leases split: option.split)
  next
    case (Release g l')
    then show ?thesis using assms(2,3) by (auto simp: gate_step_leases holds_def simp del: gate_step.simps)
  next
    case (Renew g ls)
    then show ?thesis using assms(2,3)
      by (auto simp: gate_step_leases holds_def renew_lookup simp del: gate_step.simps)
  next
    case (Reconcile g)
    then show ?thesis using hr assms(2) by (auto simp: reconcile_leases)
  next
    case (ClearWaiter g)
    then show ?thesis using assms(2) by (simp add: gate_step_leases del: gate_step.simps)
  qed
qed

text \<open>
  A long-running task never loses its slot: as long as the process that
  holds a lease lives and renews it at least every 40 seconds, the lease stays in the gate under that
  process, through any calls of any other worker.
\<close>

theorem renewing_holder_keeps_slot:
  assumes "gates_wf ns" and "map_of (leases_of ns grp) l = Some le"
    and "le_pid le = Some p" and "le_suspect_since le = None"
    and "kept_alive grp l p (le_updated_at le) tr"
  shows "map_option le_pid (map_of (leases_of (gate_run limits tr ns) grp) l) = Some (Some p)"
proof -
  have "gates_wf ns \<Longrightarrow> holds l p t (leases_of ns grp) \<Longrightarrow> kept_alive grp l p t tr \<Longrightarrow>
      map_option le_pid (map_of (leases_of (gate_run limits tr ns) grp) l) = Some (Some p)" for t ns
  proof (induction tr arbitrary: ns t)
    case Nil
    then show ?case by (auto simp: gate_run_def holds_def)
  next
    case (Cons e tr)
    obtain env now op where e: "e = (env, now, op)" by (cases e) auto
    let ?t' = "case op of Renew g ls \<Rightarrow> if g = grp \<and> l \<in> set ls then now else t | _ \<Rightarrow> t"
    have "holds l p ?t' (leases_of (gate_step limits env now op ns) grp)"
      using gate_step_holds [OF Cons.prems(1,2)] Cons.prems(3) by (simp add: e)
    moreover have "kept_alive grp l p ?t' tr" using Cons.prems(3) by (simp add: e)
    ultimately have "map_option le_pid
        (map_of (leases_of (gate_run limits tr (gate_step limits env now op ns)) grp) l) = Some (Some p)"
      using Cons.IH gate_step_wf [OF Cons.prems(1)] by blast
    then show ?case by (simp add: gate_run_def e)
  qed
  moreover have "holds l p (le_updated_at le) (leases_of ns grp)"
    using assms(2-4) by (simp add: holds_def)
  ultimately show ?thesis using assms(1,5) by blast
qed

definition ex_gate :: gate_ns where
  "ex_gate = [(''llm'', \<lparr>ga_leases = [(''L'', \<lparr>le_pid = Some 7, le_updated_at = 0, le_suspect_since = None\<rparr>)],
     ga_waiters = []\<rparr>)]"

text \<open>A silence of 35 seconds, a reap that suspects the holder, a late renewal, another reap.\<close>

definition ex_gate_trace :: gate_trace where
  "ex_gate_trace =
     [(ex_env, 35, Reconcile ''llm''), (ex_env\<lparr>os_getpid := 7\<rparr>, 38, Renew ''llm'' [''L'']),
      (ex_env, 70, Acquire True ''M'' ''llm'' True)]"

lemma renewing_holder_keeps_slot_witness:
  "map_option le_pid (map_of (leases_of (gate_run (Some [(''llm'', 1)]) ex_gate_trace ex_gate) ''llm'') ''L'')
     = Some (Some 7)"
proof -
  have "gates_wf ex_gate"
    by (simp add: gates_wf_def ex_gate_def load_gate_state_def od_wf_def empty_gate_state_def)
  moreover have "kept_alive ''llm'' ''L'' 7 0 ex_gate_trace"
    by (simp add: ex_gate_trace_def ex_env_def pid_alive_def HEARTBEAT_TTL_def SUSPECT_GRACE_def)
  ultimately show ?thesis
    using renewing_holder_keeps_slot [of ex_gate "''llm''" "''L''"
        "\<lparr>le_pid = Some 7, le_updated_at = 0, le_suspect_since = None\<rparr>" 7 ex_gate_trace]
    by (simp add: ex_gate_def load_gate_state_def)
qed

section \<open>A reclaimed lease stays reclaimed\<close>

definition never_granted :: "string \<Rightarrow> string \<Rightarrow> gate_trace \<Rightarrow> bool" where
  "never_granted grp l tr =
     list_all (\<lambda>(_, _, op). case op of Acquire _ uuid g _ \<Rightarrow> g \<noteq> grp \<or> uuid \<noteq> l | _ \<Rightarrow> True) tr"

lemma gate_step_absent:
  assumes "gates_wf ns" and "map_of (leases_of ns grp) l = None"
    and "case op of Acquire _ uuid g _ \<Rightarrow> g \<noteq> grp \<or> uuid \<noteq> l | _ \<Rightarrow> True"
  shows "map_of (leases_of (gate_step limits env now op ns) grp) l = None"
proof -
  have wf: "od_wf (leases_of ns grp)" using assms(1) by (simp add: gates_wf_def)
  have r: "map_of (reaped env now (leases_of ns grp)) l = None"
    using assms(2) by (simp add: reaped_lookup [OF wf])
  show ?thesis
  proof (cases op)
    case (Acquire ok uuid g track)
    then show ?thesis using assms(2,3) r by (auto simp: acquire_leases split: option.split)
  next
    case (Reconcile g)
    then show ?thesis using assms(2) r by (cases "g = grp") (auto simp: reconcile_leases)
  qed (use assms(2) in \<open>auto simp: gate_step_leases renew_lookup simp del: gate_step.simps\<close>)
qed

lemma gate_run_absent:
  "gates_wf ns \<Longrightarrow> map_of (leases_of ns grp) l = None \<Longrightarrow> never_granted grp l tr \<Longrightarrow>
   map_of (leases_of (gate_run limits tr ns) grp) l = None"
proof (induction tr arbitrary: ns)
  case (Cons e tr)
  obtain env now op where e: "e = (env, now, op)" by (cases e) auto
  have c: "case op of Acquire _ uuid g _ \<Rightarrow> g \<noteq> grp \<or> uuid \<noteq> l | _ \<Rightarrow> True" "never_granted grp l tr"
    using Cons.prems(3) by (cases op; simp add: e never_granted_def)+
  have "map_of (leases_of (gate_run limits tr (gate_step limits env now op ns)) grp) l = None"
    by (rule Cons.IH [OF gate_step_wf [OF Cons.prems(1)] gate_step_absent [OF Cons.prems(1,2) c(1)] c(2)])
  then show ?case by (simp add: gate_run_def e)
qed (simp add: gate_run_def)

text \<open>
  Self-healing: a lease whose owner process is dead is gone after the
  next reconciliation of its group, and no later call brings it back, in particular not a renewal that
  still names it; its slot is free for others.
\<close>

theorem dead_lease_is_gone_for_good:
  assumes "gates_wf ns" and "map_of (leases_of ns grp) l = Some le"
    and "case le_pid le of None \<Rightarrow> True | Some p \<Rightarrow> \<not> pid_alive env p"
    and "never_granted grp l tr"
  shows "map_of (leases_of (gate_run limits ((env, now, Reconcile grp) # tr) ns) grp) l = None"
proof -
  have wf: "od_wf (leases_of ns grp)" using assms(1) by (simp add: gates_wf_def)
  have "map_of (leases_of (gate_step limits env now (Reconcile grp) ns) grp) l = None"
    using assms(2,3) by (cases "le_pid le") (simp_all add: reconcile_leases reaped_lookup [OF wf] reap_lease_def)
  then show ?thesis
    using gate_run_absent [OF gate_step_wf [OF assms(1)] _ assms(4)]
    by (simp add: gate_run_def del: gate_step.simps)
qed

lemma dead_lease_is_gone_for_good_witness:
  "map_of (leases_of (gate_run (Some [(''llm'', 1)])
      [(ex_env, 1, Reconcile ''llm''), (ex_env, 2, Renew ''llm'' [''D''])]
      [(''llm'', \<lparr>ga_leases = [(''D'', \<lparr>le_pid = Some 8, le_updated_at = 0, le_suspect_since = None\<rparr>)],
         ga_waiters = []\<rparr>)]) ''llm'') ''D'' = None"
proof (rule dead_lease_is_gone_for_good)
  let ?ns = "[(''llm'', \<lparr>ga_leases = [(''D'', \<lparr>le_pid = Some 8, le_updated_at = 0, le_suspect_since = None\<rparr>)],
         ga_waiters = []\<rparr>)]"
  show "gates_wf ?ns"
    by (simp add: gates_wf_def load_gate_state_def od_wf_def empty_gate_state_def)
  show "map_of (leases_of ?ns ''llm'') ''D'' = Some \<lparr>le_pid = Some 8, le_updated_at = 0, le_suspect_since = None\<rparr>"
    by (simp add: load_gate_state_def)
qed (simp_all add: pid_alive_def ex_env_def never_granted_def)

section \<open>Fairness\<close>

lemma waiter_starts_others:
  "snd (waiter_starts p ws m others) = others' \<Longrightarrow>
   (\<forall>x. others' = Some x \<longrightarrow>
      (\<forall>o1. others = Some o1 \<longrightarrow> x \<le> o1) \<and> (\<forall>w\<in>set ws. wa_pid w \<noteq> Some p \<longrightarrow> x \<le> wa_wait_start w)
      \<and> (others = Some x \<or> (\<exists>w\<in>set ws. wa_pid w \<noteq> Some p \<and> wa_wait_start w = x)))
   \<and> (others' = None \<longrightarrow> others = None \<and> (\<forall>w\<in>set ws. wa_pid w = Some p))"
proof (induction ws arbitrary: m others)
  case (Cons w ws)
  show ?case
  proof (cases "wa_pid w = Some p")
    case True
    then show ?thesis using Cons by simp
  next
    case False
    then show ?thesis
    proof (cases "case others of None \<Rightarrow> True | Some m \<Rightarrow> wa_wait_start w < m")
      case True
      then have "snd (waiter_starts p ws m (Some (wa_wait_start w))) = others'"
        using Cons.prems False by simp
      from Cons.IH [OF this] True False show ?thesis by (force split: option.splits)
    next
      case nolt: False
      then have "snd (waiter_starts p ws m others) = others'" using Cons.prems False by simp
      from Cons.IH [OF this] nolt False show ?thesis by (force split: option.splits)
    qed
  qed
qed auto

lemma waiter_starts_mine:
  "fst (waiter_starts p ws m others) = (case filter (\<lambda>w. wa_pid w = Some p) ws of [] \<Rightarrow> m
     | _ \<Rightarrow> Some (wa_wait_start (last (filter (\<lambda>w. wa_pid w = Some p) ws))))"
  by (induction ws arbitrary: m others) (auto split: list.splits)

text \<open>Every waiter record of a gate is stored under its own pid.\<close>

definition waiters_keyed :: "gate \<Rightarrow> bool" where
  "waiters_keyed g \<longleftrightarrow> od_wf (ga_waiters g) \<and> list_all (\<lambda>(p, w). wa_pid w = Some p) (ga_waiters g)"

lemma own_records:
  assumes "waiters_keyed g" and "map_of (ga_waiters g) p = Some w"
  shows "filter (\<lambda>w. wa_pid w = Some p) (map snd (ga_waiters g)) = [w]"
proof -
  have h: "od_wf d \<Longrightarrow> list_all (\<lambda>(p, w). wa_pid w = Some p) d \<Longrightarrow>
      filter (\<lambda>w. wa_pid w = Some p) (map snd d) = (case map_of d p of None \<Rightarrow> [] | Some w \<Rightarrow> [w])" for d
  proof (induction d)
    case (Cons e d)
    obtain q v where e: "e = (q, v)" by force
    have "od_wf d" "q \<notin> fst ` set d" using Cons.prems(1) by (auto simp: e od_wf_def)
    moreover have "map_of d q = None" using calculation(2) by (simp add: map_of_eq_None_iff)
    ultimately show ?case using Cons.IH Cons.prems(2) by (auto simp: e)
  qed simp
  show ?thesis using h [of "ga_waiters g"] assms by (simp add: waiters_keyed_def)
qed

lemma longest_iff:
  assumes "waiters_keyed g" and "map_of (ga_waiters g) p = Some mine"
  shows "is_longest_live_waiter g p \<longleftrightarrow>
     list_all (\<lambda>(q, w). q = p \<or> wa_wait_start mine \<le> wa_wait_start w) (ga_waiters g)"
proof -
  obtain m others where r: "waiter_starts p (map snd (ga_waiters g)) None None = (m, others)" by force
  have m: "m = Some (wa_wait_start mine)"
    using waiter_starts_mine [of p "map snd (ga_waiters g)" None None] own_records [OF assms] r by simp
  have pid: "(q, w) \<in> set (ga_waiters g) \<Longrightarrow> wa_pid w = Some q" for q w
    using assms(1) by (auto simp: waiters_keyed_def list_all_iff)
  have o: "(\<forall>x. others = Some x \<longrightarrow>
      (\<forall>w\<in>set (map snd (ga_waiters g)). wa_pid w \<noteq> Some p \<longrightarrow> x \<le> wa_wait_start w)
      \<and> (\<exists>w\<in>set (map snd (ga_waiters g)). wa_pid w \<noteq> Some p \<and> wa_wait_start w = x))"
    "others = None \<longrightarrow> (\<forall>w\<in>set (map snd (ga_waiters g)). wa_pid w = Some p)"
    using waiter_starts_others [of p "map snd (ga_waiters g)" None None others] r by auto
  show ?thesis
  proof (cases others)
    case None
    then have "list_all (\<lambda>(q, w). q = p \<or> wa_wait_start mine \<le> wa_wait_start w) (ga_waiters g)"
      using o(2) pid by (fastforce simp: list_all_iff)
    then show ?thesis using None r m by (simp add: is_longest_live_waiter_def)
  next
    case (Some x)
    then have "(\<forall>w\<in>set (map snd (ga_waiters g)). wa_pid w \<noteq> Some p \<longrightarrow> x \<le> wa_wait_start w)"
      "(\<exists>w\<in>set (map snd (ga_waiters g)). wa_pid w \<noteq> Some p \<and> wa_wait_start w = x)" using o(1) by auto
    then have "wa_wait_start mine \<le> x \<longleftrightarrow>
        list_all (\<lambda>(q, w). q = p \<or> wa_wait_start mine \<le> wa_wait_start w) (ga_waiters g)"
      using pid by (fastforce simp: list_all_iff)
    then show ?thesis using Some r m by (simp add: is_longest_live_waiter_def)
  qed
qed

lemma reap_keeps_keyed:
  assumes "waiters_keyed g"
  shows "waiters_keyed (snd (snd (reap_gate_state env now g)))"
proof -
  have "od_wf (filter P d)" if "od_wf d" for P and d :: "(int, waiter) odict"
    using that by (induction d) (auto simp: od_wf_def)
  then show ?thesis
    using assms by (auto simp: waiters_keyed_def reap_gate_state_def Let_def list_all_iff split: prod.split)
qed

lemma keyed_set:
  assumes "od_wf d \<and> list_all (\<lambda>(p, w). wa_pid w = Some p) d" and "wa_pid w = Some p"
  shows "od_wf (od_set p w d) \<and> list_all (\<lambda>(p, w). wa_pid w = Some p) (od_set p w d)"
proof -
  have wf: "od_wf (od_set p w d)" using assms(1) by simp
  have "wa_pid y = Some x" if "(x, y) \<in> set (od_set p w d)" for x y
  proof -
    have "map_of (od_set p w d) x = Some y" using wf that map_of_is_SomeI unfolding od_wf_def by metis
    then show ?thesis using assms
      by (auto simp: list_all_iff split: if_splits dest!: map_of_SomeD)
  qed
  then show ?thesis using wf by (auto simp: list_all_iff)
qed

text \<open>
  A refused tracked acquire leaves this process registered as a waiter of the
  group with its original start of waiting (now, if it was not waiting) and a fresh poll, so polling
  never costs it its place; and the second component of the answer is true exactly when no other
  registered waiter has been waiting longer.
\<close>

theorem longest_waiter_is_told:
  assumes "list_all (\<lambda>(_, g). waiters_keyed g) ns"
    and "get_global_concurrency_limit limits grp = Some limit" and "limit > 0"
    and "acquire_global_slot env limits True now uuid grp True ns = ((None, longest), ns')"
  shows "\<exists>mine. map_of (ga_waiters (load_gate_state ns' grp)) (os_getpid env) = Some mine
    \<and> wa_last_poll mine = now
    \<and> longest = list_all (\<lambda>(q, w). q = os_getpid env \<or> wa_wait_start mine \<le> wa_wait_start w)
         (ga_waiters (load_gate_state ns' grp))
    \<and> (case map_of (ga_waiters (snd (snd (reap_gate_state env now (load_gate_state ns grp))))) (os_getpid env) of
         None \<Rightarrow> wa_wait_start mine = now | Some w \<Rightarrow> wa_wait_start mine = wa_wait_start w)"
proof -
  obtain n c g where r: "reap_gate_state env now (load_gate_state ns grp) = (n, c, g)"
    by (cases "reap_gate_state env now (load_gate_state ns grp)") auto
  let ?pid = "os_getpid env"
  define w where "w = (case map_of (ga_waiters g) ?pid of
       None \<Rightarrow> \<lparr>wa_pid = Some ?pid, wa_wait_start = now, wa_last_poll = now\<rparr>
     | Some w \<Rightarrow> w\<lparr>wa_last_poll := now\<rparr>)"
  define g' where "g' = g\<lparr>ga_waiters := od_set ?pid w (ga_waiters g)\<rparr>"
  have full: "int n \<ge> limit"
    using assms(2-4) r by (simp add: acquire_global_slot_def Let_def split: if_splits)
  then have res: "longest = is_longest_live_waiter g' ?pid" "ns' = od_set grp g' ns"
    using assms(2-4) r by (simp_all add: acquire_global_slot_def Let_def g'_def w_def)
  have "waiters_keyed (load_gate_state ns grp)"
    using assms(1) by (auto simp: load_gate_state_def empty_gate_state_def waiters_keyed_def od_wf_def list_all_iff
        split: option.split dest!: map_of_SomeD)
  then have gk: "waiters_keyed g" using reap_keeps_keyed [of "load_gate_state ns grp" env now] r by simp
  then have "wa_pid w = Some ?pid"
    by (auto simp: w_def waiters_keyed_def list_all_iff split: option.split dest!: map_of_SomeD)
  then have "waiters_keyed g'" using gk by (simp add: g'_def waiters_keyed_def keyed_set)
  then show ?thesis
    using longest_iff [of g' ?pid w] res r
    by (auto simp: g'_def w_def split: option.splits)
qed

definition ex_full_gate :: gate_ns where
  "ex_full_gate = [(''llm'', \<lparr>ga_leases = [(''L'', \<lparr>le_pid = Some 7, le_updated_at = 0, le_suspect_since = None\<rparr>)],
     ga_waiters = [(1, \<lparr>wa_pid = Some 1, wa_wait_start = 5, wa_last_poll = 5\<rparr>)]\<rparr>)]"

lemma longest_waiter_is_told_witness:
  "\<exists>mine. map_of (ga_waiters (load_gate_state ex_full_gate ''llm'')) (os_getpid ex_env) = Some mine
    \<and> wa_last_poll mine = 5 \<and> wa_wait_start mine = 5"
proof -
  have l: "acquire_global_slot ex_env (Some [(''llm'', 1)]) True 5 ''N'' ''llm'' True ex_gate =
     ((None, True), ex_full_gate)"
    by (simp add: acquire_global_slot_def get_global_concurrency_limit_def ex_gate_def load_gate_state_def
        reap_gate_state_def reap_lease_def pid_alive_def ex_env_def HEARTBEAT_TTL_def is_longest_live_waiter_def
        ex_full_gate_def)
  have k: "list_all (\<lambda>(_, g). waiters_keyed g) ex_gate"
    by (simp add: ex_gate_def waiters_keyed_def od_wf_def)
  have w: "map_of (ga_waiters (snd (snd (reap_gate_state ex_env 5 (load_gate_state ex_gate ''llm''))))) (os_getpid ex_env) = None"
    by (simp add: reap_gate_state_def reap_lease_def pid_alive_def ex_env_def HEARTBEAT_TTL_def ex_gate_def
        load_gate_state_def)
  have lim: "get_global_concurrency_limit (Some [(''llm'', 1)]) ''llm'' = Some 1" "(0::int) < 1"
    by (simp_all add: get_global_concurrency_limit_def)
  from longest_waiter_is_told [OF k lim l] show ?thesis unfolding w by auto
qed

section \<open>Queue statistics\<close>

text \<open>
  \<open>publish_queue_stats\<close>, \<open>unpublish_queue_stats\<close>, \<open>aggregate_queue_stats\<close>. A snapshot is keyed by the
  queue's name and the pid; its counters are the fields of the dict (a missing one counts 0). The
  aggregation reads, then deletes the stale keys it saw under the internal lock: two steps, between
  which other workers publish.
\<close>

definition QUEUE_STATS_SUM_FIELDS :: "string list" where
  "QUEUE_STATS_SUM_FIELDS =
     [''queued'', ''running'', ''in_flight'', ''worker_count'', ''submitted_total'', ''completed_total'',
      ''failed_total'', ''cancelled_total'', ''rejected_total'', ''global_slot_waits'', ''physical_queued'']"

record stats_snapshot =
  ss_pid :: "int option"
  ss_updated_at :: real
  ss_counters :: "(string, int) odict"

type_synonym stats_ns = "(string \<times> int, stats_snapshot) odict"

definition publish_queue_stats :: "bool \<Rightarrow> os_env \<Rightarrow> string \<Rightarrow> stats_snapshot \<Rightarrow> stats_ns \<Rightarrow> stats_ns" where
  "publish_queue_stats initialized env queue snapshot ns =
     (if \<not> initialized then ns else od_set (queue, os_getpid env) snapshot ns)"

definition unpublish_queue_stats :: "bool \<Rightarrow> os_env \<Rightarrow> string \<Rightarrow> stats_ns \<Rightarrow> stats_ns" where
  "unpublish_queue_stats initialized env queue ns =
     (if \<not> initialized then ns else od_del (queue, os_getpid env) ns)"

definition snapshot_stale :: "os_env \<Rightarrow> real \<Rightarrow> stats_snapshot \<Rightarrow> bool" where
  "snapshot_stale env now s \<longleftrightarrow>
     (case ss_pid s of None \<Rightarrow> False | Some p \<Rightarrow> \<not> pid_alive env p) \<or> now - ss_updated_at s > QUEUE_STATS_STALE_TTL"

text \<open>The scan: the live snapshots by their pid, a later one replacing an earlier, and the stale keys.\<close>

definition stats_scan ::
  "os_env \<Rightarrow> real \<Rightarrow> string \<Rightarrow> stats_ns
   \<Rightarrow> (int option, stats_snapshot) odict \<times> ((string \<times> int) \<times> real) list" where
  "stats_scan env now queue ns =
     (let mine = filter (\<lambda>((q, _), _). q = queue) ns
      in (fold (\<lambda>(_, s) d. if snapshot_stale env now s then d else od_set (ss_pid s) s d) mine [],
          map (\<lambda>(k, s). (k, ss_updated_at s)) (filter (\<lambda>(_, s). snapshot_stale env now s) mine)))"

definition stats_reap_one :: "(string \<times> int) \<times> real \<Rightarrow> stats_ns \<Rightarrow> stats_ns" where
  "stats_reap_one e ns =
     (case map_of ns (fst e) of
        None \<Rightarrow> ns
      | Some cur \<Rightarrow> if ss_updated_at cur \<noteq> snd e then ns else od_del (fst e) ns)"

definition stats_reap :: "((string \<times> int) \<times> real) list \<Rightarrow> stats_ns \<Rightarrow> stats_ns" where
  "stats_reap stale ns = fold stats_reap_one stale ns"

definition stats_sum :: "(int option, stats_snapshot) odict \<Rightarrow> string \<Rightarrow> int" where
  "stats_sum per_worker field =
     sum_list (map (\<lambda>(_, s). case map_of (ss_counters s) field of None \<Rightarrow> 0 | Some n \<Rightarrow> n) per_worker)"

definition stats_result ::
  "(int option, stats_snapshot) odict \<Rightarrow> (string, int) odict \<times> nat \<times> (int option, stats_snapshot) odict" where
  "stats_result per_worker =
     (map (\<lambda>f. (f, stats_sum per_worker f)) QUEUE_STATS_SUM_FIELDS, length per_worker, per_worker)"

lemma stats_reap_keeps:
  "map_of ns k = Some s \<Longrightarrow> list_all (\<lambda>(k', t). k' = k \<longrightarrow> t \<noteq> ss_updated_at s) stale \<Longrightarrow>
   map_of (stats_reap stale ns) k = Some s"
proof (induction stale arbitrary: ns)
  case (Cons e stale)
  have "map_of (stats_reap_one e ns) k = Some s"
    using Cons.prems by (cases e) (auto simp: stats_reap_one_def split: option.split)
  then show ?case using Cons by (simp add: stats_reap_def)
qed (simp add: stats_reap_def)

text \<open>
  The two-phase reap of the statistics never loses a fresh report: if the
  snapshot a worker has in the namespace when the lock is taken differs in its time stamp from the one
  the scan saw under that key (or the scan saw none there, or a live one), it is still there afterwards,
  whatever else changed in between.
\<close>

theorem republished_stats_survive:
  assumes "od_wf seen" and "map_of now_ns (queue, p) = Some s"
    and "case map_of seen (queue, p) of None \<Rightarrow> True
         | Some old \<Rightarrow> ss_updated_at old \<noteq> ss_updated_at s \<or> \<not> snapshot_stale env now old"
  shows "map_of (stats_reap (snd (stats_scan env now queue seen)) now_ns) (queue, p) = Some s"
proof (rule stats_reap_keeps [OF assms(2)])
  have "map_of seen k = Some x" if "(k, x) \<in> set seen" for k x
    using assms(1) that by (simp add: od_wf_def)
  then show "list_all (\<lambda>(k', t). k' = (queue, p) \<longrightarrow> t \<noteq> ss_updated_at s) (snd (stats_scan env now queue seen))"
    using assms(3) by (fastforce simp: stats_scan_def list_all_iff)
qed

lemma republished_stats_survive_witness:
  "map_of (stats_reap (snd (stats_scan ex_env 100 ''llm''
       [((''llm'', 7), \<lparr>ss_pid = Some 7, ss_updated_at = 50, ss_counters = []\<rparr>)]))
     [((''llm'', 7), \<lparr>ss_pid = Some 7, ss_updated_at = 99, ss_counters = []\<rparr>)]) (''llm'', 7)
   = Some \<lparr>ss_pid = Some 7, ss_updated_at = 99, ss_counters = []\<rparr>"
  by (rule republished_stats_survive) (simp_all add: od_wf_def)

end
