(* ===== verification/ScanJobs.thy ===== *)
theory ScanJobs
  imports Prelude "HOL-Library.List_Lexorder" "HOL-Library.Product_Lexorder"
begin

text \<open>
  The bounded store of scan jobs, \<open>ontorag/kg/scan_job_store.py\<close>: the per-workspace
  \<open>AsyncioScanJobStore\<close> (one function from store to store per method, because each runs under the
  store's lock), the server-side \<open>ScanJobStoreHub\<close> and the client view. The clock is read once per call
  and is a parameter. Refusal messages for the caller are left out; the message stored in a record is
  modelled, because it counts against the record's byte ceiling.
\<close>

section \<open>State\<close>

definition SCAN_JOB_STORE_CAPACITY :: int where "SCAN_JOB_STORE_CAPACITY = 128"
definition SCAN_JOB_SAMPLE_LIMIT :: int where "SCAN_JOB_SAMPLE_LIMIT = 20"
definition SCAN_JOB_SAMPLE_MAX_BYTES :: int where "SCAN_JOB_SAMPLE_MAX_BYTES = 512"
definition SCAN_JOB_RECORD_MAX_BYTES :: int where "SCAN_JOB_RECORD_MAX_BYTES = 65536"
definition SCAN_JOB_MAX_COUNTER_KEYS :: int where "SCAN_JOB_MAX_COUNTER_KEYS = 32"
definition SCAN_JOB_COUNTER_KEY_MAX_BYTES :: int where "SCAN_JOB_COUNTER_KEY_MAX_BYTES = 64"
definition SCAN_JOB_IDENTIFIER_MAX_BYTES :: int where "SCAN_JOB_IDENTIFIER_MAX_BYTES = 128"
definition SCAN_JOB_COUNTER_VALUE_MAX :: int where "SCAN_JOB_COUNTER_VALUE_MAX = 2 ^ 53"
definition SCAN_JOB_LEASE_SECONDS :: real where "SCAN_JOB_LEASE_SECONDS = 60"
definition SCAN_JOB_TTL_SECONDS :: real where "SCAN_JOB_TTL_SECONDS = 3600"

datatype sample_bucket = Processed | Warning | Error

definition SAMPLE_BUCKETS :: "sample_bucket list" where
  "SAMPLE_BUCKETS = [Processed, Warning, Error]"

datatype job_status = RUNNING | COMPLETED | FAILED | CANCELLED | ABANDONED

definition TERMINAL_STATUSES :: "job_status list" where
  "TERMINAL_STATUSES = [COMPLETED, FAILED, CANCELLED, ABANDONED]"

text \<open>The width of the status words, the widest of which the size estimate charges.\<close>

definition status_value :: "job_status \<Rightarrow> pystr" where
  "status_value s = lit (case s of RUNNING \<Rightarrow> ''running'' | COMPLETED \<Rightarrow> ''completed'' | FAILED \<Rightarrow> ''failed''
     | CANCELLED \<Rightarrow> ''cancelled'' | ABANDONED \<Rightarrow> ''abandoned'')"

definition STATUS_MAX_BYTES :: nat where
  "STATUS_MAX_BYTES =
     fold max (map (utf8_len \<circ> status_value) [RUNNING, COMPLETED, FAILED, CANCELLED, ABANDONED]) 0"

datatype create_outcome = ACCEPTED | ALREADY_EXISTS | CAPACITY_EXCEEDED | INVALID_IDENTIFIER

datatype update_conflict = NOT_FOUND | OWNER | VERSION | TERMINAL | INVALID_STATUS

record bucket =
  bu_items :: "pystr list"
  bu_truncated :: bool
  bu_dropped :: nat

record job =
  jo_track_id :: pystr
  jo_workspace :: pystr
  jo_owner_token :: pystr
  jo_status :: job_status
  jo_counts :: "(pystr, int) odict"
  jo_samples :: "(sample_bucket, bucket) odict"
  jo_created_at :: real
  jo_updated_at :: real
  jo_lease_expires_at :: real
  jo_version :: nat
  jo_message :: pystr
  jo_counters_dropped :: nat

text \<open>What \<open>to_public\<close> leaves out: the workspace, the owner token and the lease.\<close>

record public_job =
  pj_track_id :: pystr
  pj_status :: job_status
  pj_counts :: "(pystr, int) odict"
  pj_counters_dropped :: nat
  pj_samples :: "(sample_bucket, bucket) odict"
  pj_created_at :: real
  pj_updated_at :: real
  pj_version :: nat
  pj_message :: pystr

definition to_public :: "job \<Rightarrow> public_job" where
  "to_public r = \<lparr>pj_track_id = jo_track_id r, pj_status = jo_status r, pj_counts = jo_counts r,
     pj_counters_dropped = jo_counters_dropped r, pj_samples = jo_samples r,
     pj_created_at = jo_created_at r, pj_updated_at = jo_updated_at r, pj_version = jo_version r,
     pj_message = jo_message r\<rparr>"

record scan_limits =
  sl_capacity :: nat
  sl_sample_limit :: nat
  sl_sample_max :: nat
  sl_record_max :: nat
  sl_max_keys :: nat
  sl_key_max :: nat
  sl_value_max :: nat
  sl_identifier_max :: nat
  sl_lease_seconds :: real
  sl_ttl_seconds :: real

text \<open>The clamps of the constructor.\<close>

definition scan_limits_of :: "int \<Rightarrow> int \<Rightarrow> int \<Rightarrow> int \<Rightarrow> int \<Rightarrow> int \<Rightarrow> int \<Rightarrow> int \<Rightarrow> real \<Rightarrow> real \<Rightarrow> scan_limits" where
  "scan_limits_of capacity sample_limit sample_max record_max max_keys key_max value_max identifier_max lease ttl =
     \<lparr>sl_capacity = nat (max 1 capacity), sl_sample_limit = nat (max 0 sample_limit),
      sl_sample_max = nat (max 1 sample_max), sl_record_max = nat (max 1 record_max),
      sl_max_keys = nat (max 1 max_keys), sl_key_max = nat (max 1 key_max),
      sl_value_max = nat (max 1 value_max), sl_identifier_max = nat (max 1 identifier_max),
      sl_lease_seconds = lease, sl_ttl_seconds = ttl\<rparr>"

definition default_scan_limits :: scan_limits where
  "default_scan_limits =
     scan_limits_of SCAN_JOB_STORE_CAPACITY SCAN_JOB_SAMPLE_LIMIT SCAN_JOB_SAMPLE_MAX_BYTES
       SCAN_JOB_RECORD_MAX_BYTES SCAN_JOB_MAX_COUNTER_KEYS SCAN_JOB_COUNTER_KEY_MAX_BYTES
       SCAN_JOB_COUNTER_VALUE_MAX SCAN_JOB_IDENTIFIER_MAX_BYTES SCAN_JOB_LEASE_SECONDS SCAN_JOB_TTL_SECONDS"

record store =
  sj_workspace :: pystr
  sj_limits :: scan_limits
  sj_jobs :: "(pystr, job) odict"

definition new_scan_store :: "pystr \<Rightarrow> scan_limits \<Rightarrow> store" where
  "new_scan_store workspace limits = \<lparr>sj_workspace = workspace, sj_limits = limits, sj_jobs = []\<rparr>"

section \<open>Sizes and samples\<close>

text \<open>
  \<open>_cap_sample\<close>: encoding with \<open>errors="replace"\<close> turns a lone surrogate into a question mark; a cut
  encoding is decoded with \<open>errors="ignore"\<close>, which loses the incomplete code point.
\<close>

definition replace_surrogate :: "nat \<Rightarrow> nat" where
  "replace_surrogate c = (if 55296 \<le> c \<and> c \<le> 57343 then 63 else c)"

definition cap_sample :: "pystr \<Rightarrow> nat \<Rightarrow> pystr \<times> bool" where
  "cap_sample txt max_bytes =
     (if utf8_len txt \<le> max_bytes then (txt, False)
      else (take_bytes max_bytes (map replace_surrogate txt), True))"

definition bucket_bytes :: "bucket \<Rightarrow> nat" where
  "bucket_bytes b = sum_list (map utf8_len (bu_items b))"

definition approx_bytes :: "job \<Rightarrow> nat" where
  "approx_bytes r =
     sum_list (map (\<lambda>k. utf8_len k + 8) (od_keys (jo_counts r)))
     + sum_list (map (\<lambda>(_, b). bucket_bytes b) (jo_samples r))
     + (STATUS_MAX_BYTES + (utf8_len (jo_track_id r) + utf8_len (jo_workspace r)
         + utf8_len (jo_owner_token r) + utf8_len (jo_message r)))
     + 128"

definition new_samples :: "(sample_bucket, bucket) odict" where
  "new_samples = map (\<lambda>b. (b, \<lparr>bu_items = [], bu_truncated = False, bu_dropped = 0\<rparr>)) SAMPLE_BUCKETS"

definition fit_message :: "scan_limits \<Rightarrow> job \<Rightarrow> pystr \<Rightarrow> pystr" where
  "fit_message cf r message =
     (let remaining = int (sl_record_max cf) - (int (approx_bytes r) - int (utf8_len (jo_message r)));
          budget = min (int (sl_sample_max cf)) remaining
      in if budget \<le> 0 then [] else fst (cap_sample message (nat budget)))"

section \<open>Reaping and eviction\<close>

definition lease_expired_message :: pystr where
  "lease_expired_message = lit ''Lease expired: owner presumed dead; job abandoned.''"

definition maybe_abandon :: "scan_limits \<Rightarrow> real \<Rightarrow> job \<Rightarrow> job" where
  "maybe_abandon cf now r =
     (if jo_status r = RUNNING \<and> jo_lease_expires_at r \<le> now then
        (let r' = r\<lparr>jo_status := ABANDONED, jo_updated_at := now, jo_version := jo_version r + 1\<rparr>
         in r'\<lparr>jo_message := fit_message cf r' lease_expired_message\<rparr>)
      else r)"

definition is_terminal :: "job \<Rightarrow> bool" where
  "is_terminal r \<longleftrightarrow> jo_status r \<in> set TERMINAL_STATUSES"

definition reap_jobs :: "scan_limits \<Rightarrow> real \<Rightarrow> (pystr, job) odict \<Rightarrow> (pystr, job) odict" where
  "reap_jobs cf now jobs =
     (let jobs' = map (\<lambda>(t, r). (t, maybe_abandon cf now r)) jobs
      in filter (\<lambda>(_, r). \<not> (is_terminal r \<and> now - jo_updated_at r \<ge> sl_ttl_seconds cf)) jobs')"

definition evict_one_terminal :: "(pystr, job) odict \<Rightarrow> (pystr, job) odict option" where
  "evict_one_terminal jobs =
     (case sort (map (\<lambda>(t, r). (jo_updated_at r, t)) (filter (\<lambda>(_, r). is_terminal r) jobs)) of
        [] \<Rightarrow> None
      | (_, t) # _ \<Rightarrow> Some (od_del t jobs))"

section \<open>Operations\<close>

definition new_job :: "store \<Rightarrow> real \<Rightarrow> pystr \<Rightarrow> pystr \<Rightarrow> job" where
  "new_job st now track_id owner_token =
     \<lparr>jo_track_id = track_id, jo_workspace = sj_workspace st, jo_owner_token = owner_token,
      jo_status = RUNNING, jo_counts = [], jo_samples = new_samples, jo_created_at = now,
      jo_updated_at = now, jo_lease_expires_at = now + sl_lease_seconds (sj_limits st),
      jo_version = 1, jo_message = [], jo_counters_dropped = 0\<rparr>"

definition create_job ::
  "real \<Rightarrow> pystr \<Rightarrow> pystr \<Rightarrow> store \<Rightarrow> (create_outcome \<times> public_job option) \<times> store" where
  "create_job now track_id owner_token st =
     (let cf = sj_limits st
      in if utf8_len track_id > sl_identifier_max cf \<or> utf8_len owner_token > sl_identifier_max cf
         then ((INVALID_IDENTIFIER, None), st)
         else
           (let jobs = reap_jobs cf now (sj_jobs st); st' = st\<lparr>sj_jobs := jobs\<rparr>
            in case map_of jobs track_id of
                 Some existing \<Rightarrow> ((ALREADY_EXISTS, Some (to_public existing)), st')
               | None \<Rightarrow>
                   (let r = new_job st now track_id owner_token
                    in if approx_bytes r > sl_record_max cf then ((INVALID_IDENTIFIER, None), st')
                       else if length jobs < sl_capacity cf then
                         ((ACCEPTED, Some (to_public r)), st\<lparr>sj_jobs := od_set track_id r jobs\<rparr>)
                       else
                         (case evict_one_terminal jobs of
                            None \<Rightarrow> ((CAPACITY_EXCEEDED, None), st')
                          | Some jobs' \<Rightarrow>
                              ((ACCEPTED, Some (to_public r)), st\<lparr>sj_jobs := od_set track_id r jobs'\<rparr>)))))"

text \<open>A value of the \<open>count_deltas\<close> dict: an \<open>int\<close> that is no \<open>bool\<close>, or anything else.\<close>

datatype delta_value = DInt int | DOther

definition apply_delta :: "scan_limits \<Rightarrow> pystr \<times> delta_value \<Rightarrow> job \<Rightarrow> job" where
  "apply_delta cf kd r =
     (case kd of
        (_, DOther) \<Rightarrow> r
      | (key, DInt delta) \<Rightarrow>
          (let refused = r\<lparr>jo_counters_dropped := jo_counters_dropped r + 1\<rparr>
           in if \<bar>delta\<bar> > int (sl_value_max cf) then refused
              else
                (case map_of (jo_counts r) key of
                   Some n \<Rightarrow>
                     if \<bar>n + delta\<bar> > int (sl_value_max cf) then refused
                     else r\<lparr>jo_counts := od_set key (n + delta) (jo_counts r)\<rparr>
                 | None \<Rightarrow>
                     if utf8_len key > sl_key_max cf \<or> length (jo_counts r) \<ge> sl_max_keys cf
                        \<or> approx_bytes r + utf8_len key + 8 > sl_record_max cf
                     then refused
                     else r\<lparr>jo_counts := od_set key delta (jo_counts r)\<rparr>)))"

text \<open>\<open>None\<close> as the bucket stands for a name that is none of the three.\<close>

definition apply_sample :: "scan_limits \<Rightarrow> sample_bucket option \<times> pystr \<Rightarrow> job \<Rightarrow> job" where
  "apply_sample cf sample r =
     (case sample of (bucket_name, txt) \<Rightarrow>
       (case bucket_name of
          None \<Rightarrow> r
        | Some nm \<Rightarrow>
            (case map_of (jo_samples r) nm of
               None \<Rightarrow> r
             | Some b \<Rightarrow>
                 (case cap_sample txt (sl_sample_max cf) of (capped, truncated) \<Rightarrow>
                    (let b' =
                       (if length (bu_items b) \<ge> sl_sample_limit cf then b\<lparr>bu_dropped := bu_dropped b + 1\<rparr>
                        else if approx_bytes r + utf8_len capped > sl_record_max cf
                        then b\<lparr>bu_dropped := bu_dropped b + 1\<rparr>
                        else b\<lparr>bu_items := bu_items b @ [capped], bu_truncated := bu_truncated b \<or> truncated\<rparr>)
                     in r\<lparr>jo_samples := od_set nm b' (jo_samples r)\<rparr>)))))"

record update_result =
  ur_ok :: bool
  ur_conflict :: "update_conflict option"
  ur_record :: "public_job option"

definition put_job :: "pystr \<Rightarrow> job \<Rightarrow> store \<Rightarrow> store" where
  "put_job track_id r st = st\<lparr>sj_jobs := od_set track_id r (sj_jobs st)\<rparr>"

text \<open>
  The owner and version checks that \<open>update\<close> and \<open>set_status\<close> share, on the record after the lease
  check: the refusal, or \<open>None\<close> when the write may go ahead.
\<close>

definition cas_refusal :: "job \<Rightarrow> pystr \<Rightarrow> nat \<Rightarrow> update_result option" where
  "cas_refusal r owner_token expected_version =
     (if jo_owner_token r \<noteq> owner_token
      then Some \<lparr>ur_ok = False, ur_conflict = Some OWNER, ur_record = None\<rparr>
      else if jo_status r \<noteq> RUNNING
      then Some \<lparr>ur_ok = False, ur_conflict = Some TERMINAL, ur_record = Some (to_public r)\<rparr>
      else if jo_version r \<noteq> expected_version
      then Some \<lparr>ur_ok = False, ur_conflict = Some VERSION, ur_record = Some (to_public r)\<rparr>
      else None)"

definition not_found_result :: update_result where
  "not_found_result = \<lparr>ur_ok = False, ur_conflict = Some NOT_FOUND, ur_record = None\<rparr>"

definition update_job ::
  "real \<Rightarrow> pystr \<Rightarrow> pystr \<Rightarrow> (pystr \<times> delta_value) list \<Rightarrow> (sample_bucket option \<times> pystr) option \<Rightarrow> nat
   \<Rightarrow> store \<Rightarrow> update_result \<times> store" where
  "update_job now track_id owner_token count_deltas sample expected_version st =
     (let cf = sj_limits st
      in case map_of (sj_jobs st) track_id of
           None \<Rightarrow> (not_found_result, st)
         | Some r0 \<Rightarrow>
             (let r = maybe_abandon cf now r0
              in case cas_refusal r owner_token expected_version of
                   Some refusal \<Rightarrow> (refusal, put_job track_id r st)
                 | None \<Rightarrow>
                     (let r1 = fold (apply_delta cf) count_deltas r;
                          r2 = (case sample of None \<Rightarrow> r1 | Some s \<Rightarrow> apply_sample cf s r1);
                          r3 = r2\<lparr>jo_version := jo_version r2 + 1, jo_updated_at := now,
                                 jo_lease_expires_at := now + sl_lease_seconds cf\<rparr>
                      in (\<lparr>ur_ok = True, ur_conflict = None, ur_record = Some (to_public r3)\<rparr>,
                          put_job track_id r3 st))))"

definition finish_job :: "scan_limits \<Rightarrow> real \<Rightarrow> job_status \<Rightarrow> pystr \<Rightarrow> job \<Rightarrow> job" where
  "finish_job cf now status message r =
     (let r' = r\<lparr>jo_status := status, jo_updated_at := now, jo_version := jo_version r + 1\<rparr>
      in if message = [] then r' else r'\<lparr>jo_message := fit_message cf r' message\<rparr>)"

definition set_status ::
  "real \<Rightarrow> pystr \<Rightarrow> pystr \<Rightarrow> job_status \<Rightarrow> nat \<Rightarrow> pystr \<Rightarrow> store \<Rightarrow> update_result \<times> store" where
  "set_status now track_id owner_token status expected_version message st =
     (let cf = sj_limits st
      in if status \<notin> set TERMINAL_STATUSES
         then (\<lparr>ur_ok = False, ur_conflict = Some INVALID_STATUS, ur_record = None\<rparr>, st)
         else
           (case map_of (sj_jobs st) track_id of
              None \<Rightarrow> (not_found_result, st)
            | Some r0 \<Rightarrow>
                (let r = maybe_abandon cf now r0
                 in case cas_refusal r owner_token expected_version of
                      Some refusal \<Rightarrow> (refusal, put_job track_id r st)
                    | None \<Rightarrow>
                        (let r' = finish_job cf now status message r
                         in (\<lparr>ur_ok = True, ur_conflict = None, ur_record = Some (to_public r')\<rparr>,
                             put_job track_id r' st)))))"

definition get_job :: "real \<Rightarrow> pystr \<Rightarrow> store \<Rightarrow> public_job option \<times> store" where
  "get_job now track_id st =
     (case map_of (sj_jobs st) track_id of
        None \<Rightarrow> (None, st)
      | Some r0 \<Rightarrow>
          (let r = maybe_abandon (sj_limits st) now r0 in (Some (to_public r), put_job track_id r st)))"

definition cancel_job :: "real \<Rightarrow> pystr \<Rightarrow> pystr \<Rightarrow> pystr \<Rightarrow> store \<Rightarrow> update_result \<times> store" where
  "cancel_job now track_id owner_token message st =
     (case map_of (sj_jobs st) track_id of
        None \<Rightarrow> (not_found_result, st)
      | Some r \<Rightarrow>
          if jo_owner_token r \<noteq> owner_token
          then (\<lparr>ur_ok = False, ur_conflict = Some OWNER, ur_record = None\<rparr>, st)
          else if jo_status r \<noteq> RUNNING
          then (\<lparr>ur_ok = True, ur_conflict = Some TERMINAL, ur_record = Some (to_public r)\<rparr>, st)
          else
            (let r' = finish_job (sj_limits st) now CANCELLED message r
             in (\<lparr>ur_ok = True, ur_conflict = None, ur_record = Some (to_public r')\<rparr>, put_job track_id r' st)))"

definition remove_terminal :: "pystr \<Rightarrow> store \<Rightarrow> bool \<times> store" where
  "remove_terminal track_id st =
     (case map_of (sj_jobs st) track_id of
        None \<Rightarrow> (False, st)
      | Some r \<Rightarrow>
          if \<not> is_terminal r then (False, st) else (True, st\<lparr>sj_jobs := od_del track_id (sj_jobs st)\<rparr>))"

definition snapshot_jobs :: "real \<Rightarrow> store \<Rightarrow> public_job list \<times> store" where
  "snapshot_jobs now st =
     (let jobs = reap_jobs (sj_limits st) now (sj_jobs st)
      in (map (\<lambda>(_, r). to_public r) jobs, st\<lparr>sj_jobs := jobs\<rparr>))"

section \<open>The calls of a store as steps\<close>

datatype scan_op =
    CreateJob pystr pystr
  | UpdateJob pystr pystr "(pystr \<times> delta_value) list" "(sample_bucket option \<times> pystr) option" nat
  | SetStatus pystr pystr job_status nat pystr
  | GetJob pystr
  | CancelJob pystr pystr pystr
  | RemoveTerminal pystr
  | SnapshotJobs

datatype scan_answer =
    ACreate create_outcome "public_job option"
  | AUpdate update_result
  | AGet "public_job option"
  | ARemove bool
  | ASnapshot "public_job list"

fun scan_call :: "real \<Rightarrow> scan_op \<Rightarrow> store \<Rightarrow> scan_answer \<times> store" where
  "scan_call now (CreateJob t own) st = (case create_job now t own st of ((c, p), st') \<Rightarrow> (ACreate c p, st'))"
| "scan_call now (UpdateJob t own ds s v) st = (case update_job now t own ds s v st of (r, st') \<Rightarrow> (AUpdate r, st'))"
| "scan_call now (SetStatus t own x v m) st = (case set_status now t own x v m st of (r, st') \<Rightarrow> (AUpdate r, st'))"
| "scan_call now (GetJob t) st = (case get_job now t st of (p, st') \<Rightarrow> (AGet p, st'))"
| "scan_call now (CancelJob t own m) st = (case cancel_job now t own m st of (r, st') \<Rightarrow> (AUpdate r, st'))"
| "scan_call now (RemoveTerminal t) st = (case remove_terminal t st of (b, st') \<Rightarrow> (ARemove b, st'))"
| "scan_call now SnapshotJobs st = (case snapshot_jobs now st of (ps, st') \<Rightarrow> (ASnapshot ps, st'))"

type_synonym scan_trace = "(real \<times> scan_op) list"

definition scan_run :: "scan_trace \<Rightarrow> store \<Rightarrow> store" where
  "scan_run tr st = fold (\<lambda>(now, op) s. snd (scan_call now op s)) tr st"

section \<open>Byte accounting\<close>

lemma cap_sample_le: "utf8_len (fst (cap_sample s n)) \<le> n"
  by (simp add: cap_sample_def take_bytes_le)

lemma status_width: "STATUS_MAX_BYTES = 9"
  by (simp add: STATUS_MAX_BYTES_def status_value_def utf8_width_def)

lemma sum_od_set:
  fixes f :: "'b \<Rightarrow> nat"
  assumes "map_of d k = Some old"
  shows "sum_list (map (\<lambda>(_, b). f b) (od_set k v d)) + f old = sum_list (map (\<lambda>(_, b). f b) d) + f v"
  using assms by (induction d) (auto split: if_splits)

lemma approx_scalar [simp]:
  "approx_bytes (r\<lparr>jo_status := s\<rparr>) = approx_bytes r"
  "approx_bytes (r\<lparr>jo_updated_at := t\<rparr>) = approx_bytes r"
  "approx_bytes (r\<lparr>jo_lease_expires_at := t\<rparr>) = approx_bytes r"
  "approx_bytes (r\<lparr>jo_version := v\<rparr>) = approx_bytes r"
  "approx_bytes (r\<lparr>jo_counters_dropped := n\<rparr>) = approx_bytes r"
  by (simp_all add: approx_bytes_def)

lemma approx_message:
  "approx_bytes (r\<lparr>jo_message := m\<rparr>) + utf8_len (jo_message r) = approx_bytes r + utf8_len m"
  by (simp add: approx_bytes_def)

lemma fit_message_fits:
  assumes "approx_bytes r \<le> sl_record_max cf"
  shows "approx_bytes (r\<lparr>jo_message := fit_message cf r m\<rparr>) \<le> sl_record_max cf"
    and "utf8_len (fit_message cf r m) \<le> sl_sample_max cf"
proof -
  define rest where "rest = approx_bytes r - utf8_len (jo_message r)"
  have rest: "approx_bytes r = rest + utf8_len (jo_message r)"
    unfolding rest_def by (simp add: approx_bytes_def)
  have "utf8_len (fit_message cf r m) \<le> nat (min (int (sl_sample_max cf)) (int (sl_record_max cf) - int rest))"
    using cap_sample_le [of m "nat (min (int (sl_sample_max cf)) (int (sl_record_max cf) - int rest))"]
    by (simp add: fit_message_def Let_def rest)
  then show "utf8_len (fit_message cf r m) \<le> sl_sample_max cf"
    "approx_bytes (r\<lparr>jo_message := fit_message cf r m\<rparr>) \<le> sl_record_max cf"
    using assms approx_message [of "fit_message cf r m" r] rest by linarith+
qed

section \<open>The bounds of one record\<close>

definition bucket_ok :: "scan_limits \<Rightarrow> bucket \<Rightarrow> bool" where
  "bucket_ok cf b \<longleftrightarrow>
     length (bu_items b) \<le> sl_sample_limit cf \<and> list_all (\<lambda>s. utf8_len s \<le> sl_sample_max cf) (bu_items b)"

definition job_ok :: "scan_limits \<Rightarrow> job \<Rightarrow> bool" where
  "job_ok cf r \<longleftrightarrow>
     approx_bytes r \<le> sl_record_max cf
     \<and> length (jo_counts r) \<le> sl_max_keys cf
     \<and> list_all (\<lambda>(k, n). utf8_len k \<le> sl_key_max cf \<and> \<bar>n\<bar> \<le> int (sl_value_max cf)) (jo_counts r)
     \<and> od_keys (jo_samples r) = SAMPLE_BUCKETS
     \<and> list_all (\<lambda>(_, b). bucket_ok cf b) (jo_samples r)
     \<and> utf8_len (jo_message r) \<le> sl_sample_max cf"

lemma job_ok_abandon: "job_ok cf r \<Longrightarrow> job_ok cf (maybe_abandon cf now r)"
  using fit_message_fits [where cf = cf and r = "r\<lparr>jo_status := ABANDONED, jo_updated_at := now, jo_version := jo_version r + 1\<rparr>"]
  by (simp add: job_ok_def maybe_abandon_def Let_def)

lemma job_ok_finish: "job_ok cf r \<Longrightarrow> job_ok cf (finish_job cf now s m r)"
  using fit_message_fits [where cf = cf and r = "r\<lparr>jo_status := s, jo_updated_at := now, jo_version := jo_version r + 1\<rparr>"]
  by (simp add: job_ok_def finish_job_def Let_def)

lemma job_ok_delta:
  assumes "job_ok cf r"
  shows "job_ok cf (apply_delta cf kd r)"
proof (cases kd)
  case (Pair key dv)
  show ?thesis
  proof (cases dv)
    case (DInt delta)
    have same: "approx_bytes (r\<lparr>jo_counts := od_set key n (jo_counts r)\<rparr>) =
        (if map_of (jo_counts r) key = None then approx_bytes r + utf8_len key + 8 else approx_bytes r)" for n
      by (simp add: approx_bytes_def od_keys_set)
    have key: "utf8_len key \<le> sl_key_max cf" if "map_of (jo_counts r) key = Some n" for n
      using assms map_of_SomeD [OF that] by (auto simp: job_ok_def list_all_iff)
    show ?thesis
      using assms key
      by (auto simp: Pair DInt apply_delta_def Let_def job_ok_def same length_od_set
          split: option.splits intro!: list_all_od_set)
  qed (use assms Pair in \<open>simp add: apply_delta_def\<close>)
qed

lemma job_ok_sample:
  assumes "job_ok cf r"
  shows "job_ok cf (apply_sample cf sample r)"
proof -
  obtain bn tx where s: "sample = (bn, tx)" by force
  obtain cp tr where c: "cap_sample tx (sl_sample_max cf) = (cp, tr)" by force
  have cl: "utf8_len cp \<le> sl_sample_max cf" using cap_sample_le [of tx "sl_sample_max cf"] c by simp
  have put: "job_ok cf (r\<lparr>jo_samples := od_set nm b' (jo_samples r)\<rparr>)"
    if b: "map_of (jo_samples r) nm = Some b" and ok: "bucket_ok cf b'"
      and bytes: "approx_bytes r + bucket_bytes b' \<le> sl_record_max cf + bucket_bytes b" for nm b b'
  proof -
    have "approx_bytes (r\<lparr>jo_samples := od_set nm b' (jo_samples r)\<rparr>) + bucket_bytes b
        = approx_bytes r + bucket_bytes b'"
      using sum_od_set [OF b, of bucket_bytes b'] by (simp add: approx_bytes_def)
    then show ?thesis
      using assms b ok bytes by (auto simp: job_ok_def od_keys_set intro!: list_all_od_set)
  qed
  have bk: "bucket_ok cf b" if "map_of (jo_samples r) nm = Some b" for nm b
    using assms map_of_SomeD [OF that] by (auto simp: job_ok_def list_all_iff)
  have ap: "approx_bytes r \<le> sl_record_max cf" using assms by (simp add: job_ok_def)
  show ?thesis
  proof (cases bn)
    case (Some nm)
    show ?thesis
    proof (cases "map_of (jo_samples r) nm")
      case b: (Some b)
      show ?thesis
        using bk [OF b] cl ap assms
        by (auto simp: s Some b c apply_sample_def Let_def bucket_ok_def bucket_bytes_def intro!: put [OF b])
    qed (use assms s Some in \<open>simp add: apply_sample_def\<close>)
  qed (use assms s in \<open>simp add: apply_sample_def\<close>)
qed

lemma job_ok_deltas: "job_ok cf r \<Longrightarrow> job_ok cf (fold (apply_delta cf) ds r)"
  by (induction ds arbitrary: r) (simp_all add: job_ok_delta)

lemma job_ok_new:
  "approx_bytes (new_job st now t own) \<le> sl_record_max cf \<Longrightarrow> job_ok cf (new_job st now t own)"
  by (simp add: job_ok_def new_job_def new_samples_def SAMPLE_BUCKETS_def bucket_ok_def)

section \<open>How a record may change\<close>

text \<open>
  A terminal record is never touched again; a running one keeps its identity, and any change of it
  raises the version.
\<close>

definition job_evolves :: "job \<Rightarrow> job \<Rightarrow> bool" where
  "job_evolves r r' \<longleftrightarrow>
     jo_owner_token r' = jo_owner_token r \<and> jo_track_id r' = jo_track_id r
     \<and> jo_created_at r' = jo_created_at r
     \<and> (r' = r \<or> jo_status r = RUNNING \<and> jo_version r < jo_version r')"

lemma job_evolves_refl [simp]: "job_evolves r r"
  by (simp add: job_evolves_def)

lemma job_evolves_abandon [simp]: "job_evolves r (maybe_abandon cf now r)"
  by (simp add: job_evolves_def maybe_abandon_def Let_def)

lemma job_evolves_finish: "jo_status r = RUNNING \<Longrightarrow> job_evolves r (finish_job cf now s m r)"
  by (simp add: job_evolves_def finish_job_def Let_def)

lemma delta_frame:
  "jo_owner_token (apply_delta cf kd r) = jo_owner_token r" "jo_track_id (apply_delta cf kd r) = jo_track_id r"
  "jo_created_at (apply_delta cf kd r) = jo_created_at r" "jo_version (apply_delta cf kd r) = jo_version r"
  "jo_status (apply_delta cf kd r) = jo_status r"
  by (simp_all add: apply_delta_def Let_def split: prod.split delta_value.split option.split)

lemma deltas_frame:
  "jo_owner_token (fold (apply_delta cf) ds r) = jo_owner_token r \<and> jo_track_id (fold (apply_delta cf) ds r) = jo_track_id r
   \<and> jo_created_at (fold (apply_delta cf) ds r) = jo_created_at r \<and> jo_version (fold (apply_delta cf) ds r) = jo_version r
   \<and> jo_status (fold (apply_delta cf) ds r) = jo_status r"
  by (induction ds arbitrary: r) (simp_all add: delta_frame)

lemma sample_frame:
  "jo_owner_token (apply_sample cf s r) = jo_owner_token r" "jo_track_id (apply_sample cf s r) = jo_track_id r"
  "jo_created_at (apply_sample cf s r) = jo_created_at r" "jo_version (apply_sample cf s r) = jo_version r"
  "jo_status (apply_sample cf s r) = jo_status r"
  by (simp_all add: apply_sample_def Let_def split: prod.split option.split)

section \<open>The store's invariant\<close>

definition store_ok :: "store \<Rightarrow> bool" where
  "store_ok st \<longleftrightarrow>
     od_wf (sj_jobs st) \<and> length (sj_jobs st) \<le> sl_capacity (sj_limits st)
     \<and> list_all (\<lambda>(_, r). job_ok (sj_limits st) r) (sj_jobs st)"

lemma reap_jobs_lookup:
  assumes "od_wf jobs"
  shows "map_of (reap_jobs cf now jobs) t = (case map_of jobs t of None \<Rightarrow> None
     | Some r \<Rightarrow> (let r' = maybe_abandon cf now r
                 in if is_terminal r' \<and> now - jo_updated_at r' \<ge> sl_ttl_seconds cf then None else Some r'))"
  using assms
proof (induction jobs)
  case (Cons e jobs)
  obtain k r where e: "e = (k, r)" by force
  have "od_wf jobs" "map_of jobs k = None"
    using Cons.prems by (auto simp: e od_wf_def map_of_eq_None_iff)
  with Cons.IH show ?case by (auto simp: e reap_jobs_def Let_def)
qed (simp add: reap_jobs_def)

lemma reap_keys: "od_wf jobs \<Longrightarrow> od_wf (reap_jobs cf now jobs)"
proof (induction jobs)
  case (Cons e jobs)
  obtain k r where e: "e = (k, r)" by force
  have h: "od_wf jobs" "map_of jobs k = None"
    using Cons.prems by (auto simp: e od_wf_def map_of_eq_None_iff)
  then have "map_of (reap_jobs cf now jobs) k = None" by (simp add: reap_jobs_lookup)
  then show ?case using Cons.IH [OF h(1)]
    by (auto simp: e reap_jobs_def Let_def od_wf_def map_of_eq_None_iff)
qed (simp add: reap_jobs_def)

lemma reap_ok:
  assumes "list_all (\<lambda>(_, r). job_ok cf r) jobs"
  shows "list_all (\<lambda>(_, r). job_ok cf r) (reap_jobs cf now jobs)"
  using assms job_ok_abandon by (fastforce simp: reap_jobs_def Let_def list_all_iff)

lemma reap_jobs_length: "length (reap_jobs cf now jobs) \<le> length jobs"
  by (simp add: reap_jobs_def Let_def order_trans [OF length_filter_le])

lemma store_ok_reap: "store_ok st \<Longrightarrow> store_ok (st\<lparr>sj_jobs := reap_jobs (sj_limits st) now (sj_jobs st)\<rparr>)"
  using reap_keys reap_ok reap_jobs_length [of "sj_limits st" now "sj_jobs st"] by (fastforce simp: store_ok_def)

lemma evict_one:
  assumes "evict_one_terminal jobs = Some jobs'"
  obtains t r where "map_of jobs t \<noteq> None" "(t, r) \<in> set jobs" "is_terminal r" "jobs' = od_del t jobs"
proof -
  let ?ts = "map (\<lambda>(t, r). (jo_updated_at r, t)) (filter (\<lambda>(_, r). is_terminal r) jobs)"
  obtain u t rest where s: "sort ?ts = (u, t) # rest" "jobs' = od_del t jobs"
    using assms by (auto simp: evict_one_terminal_def split: list.splits)
  have "(u, t) \<in> set ?ts" using s(1) by (metis list.set_intros(1) set_sort)
  then obtain r where "(t, r) \<in> set jobs" "is_terminal r" by auto
  moreover from this have "map_of jobs t \<noteq> None" by (metis option.distinct(1) weak_map_of_SomeI)
  ultimately show ?thesis using that s(2) by blast
qed

lemma store_ok_put:
  assumes "store_ok st" and "map_of (sj_jobs st) t \<noteq> None" and "job_ok (sj_limits st) r"
  shows "store_ok (put_job t r st)"
  using assms by (auto simp: store_ok_def put_job_def length_od_set intro!: list_all_od_set)

lemma store_job_ok: "store_ok st \<Longrightarrow> map_of (sj_jobs st) t = Some r \<Longrightarrow> job_ok (sj_limits st) r"
  by (auto simp: store_ok_def list_all_iff dest!: map_of_SomeD)

lemma store_ok_create:
  assumes "store_ok st"
  shows "store_ok (snd (create_job now t own st))"
proof -
  let ?jobs = "reap_jobs (sj_limits st) now (sj_jobs st)"
  let ?r = "new_job st now t own"
  have ok: "store_ok (st\<lparr>sj_jobs := ?jobs\<rparr>)" by (rule store_ok_reap [OF assms])
  have new: "store_ok (st\<lparr>sj_jobs := od_set t ?r jobs\<rparr>)"
    if "od_wf jobs" "list_all (\<lambda>(_, r). job_ok (sj_limits st) r) jobs" "map_of jobs t = None"
      "length jobs < sl_capacity (sj_limits st)" "approx_bytes ?r \<le> sl_record_max (sj_limits st)" for jobs
    using that job_ok_new by (auto simp: store_ok_def length_od_set intro!: list_all_od_set)
  have ev: "store_ok (st\<lparr>sj_jobs := od_set t ?r jobs'\<rparr>)"
    if e: "evict_one_terminal ?jobs = Some jobs'" and n: "map_of ?jobs t = None"
      and b: "approx_bytes ?r \<le> sl_record_max (sj_limits st)" for jobs'
  proof -
    obtain v r where v: "map_of ?jobs v \<noteq> None" "jobs' = od_del v ?jobs" using evict_one [OF e] by metis
    have w: "od_wf ?jobs" using ok by (simp add: store_ok_def)
    have "length ?jobs > 0" using v(1) by (cases ?jobs) auto
    moreover have "length jobs' = length ?jobs - 1" using length_od_del [OF w, of v] v by simp
    moreover have "length ?jobs \<le> sl_capacity (sj_limits st)" using ok by (simp add: store_ok_def)
    ultimately have "length jobs' < sl_capacity (sj_limits st)" by linarith
    then show ?thesis
      using ok n b v by (intro new) (auto simp: store_ok_def list_all_od_del)
  qed
  show ?thesis
    using assms ok new ev
    by (auto simp: create_job_def Let_def store_ok_def split: option.split)
qed

lemma store_ok_call:
  assumes "store_ok st"
  shows "store_ok (snd (scan_call now op st))"
proof (cases op)
  case (CreateJob t own)
  then show ?thesis using store_ok_create [OF assms] by (simp split: prod.split) (metis snd_conv)
next
  case (UpdateJob t own ds s v)
  show ?thesis
  proof (cases "map_of (sj_jobs st) t")
    case (Some r0)
    let ?cf = "sj_limits st"
    have a: "job_ok ?cf (maybe_abandon ?cf now r0)" using store_job_ok [OF assms Some] by (rule job_ok_abandon)
    have d: "job_ok ?cf (fold (apply_delta ?cf) ds (maybe_abandon ?cf now r0))" using a by (rule job_ok_deltas)
    have bump: "job_ok ?cf r \<Longrightarrow> job_ok ?cf (r\<lparr>jo_version := x, jo_updated_at := y, jo_lease_expires_at := z\<rparr>)"
      for r x y z by (simp add: job_ok_def)
    show ?thesis using assms a d
      by (auto simp: UpdateJob update_job_def Let_def Some split: option.split
          intro!: store_ok_put bump job_ok_sample)
  qed (use assms UpdateJob in \<open>simp add: update_job_def Let_def\<close>)
next
  case (SetStatus t own x v m)
  show ?thesis
  proof (cases "map_of (sj_jobs st) t")
    case (Some r0)
    have a: "job_ok (sj_limits st) (maybe_abandon (sj_limits st) now r0)"
      using store_job_ok [OF assms Some] by (rule job_ok_abandon)
    show ?thesis using assms a
      by (auto simp: SetStatus set_status_def Let_def Some split: option.split intro!: store_ok_put job_ok_finish)
  qed (use assms SetStatus in \<open>simp add: set_status_def Let_def\<close>)
next
  case (GetJob t)
  then show ?thesis using assms store_job_ok [OF assms, of t]
    by (auto simp: get_job_def Let_def split: option.split intro!: store_ok_put job_ok_abandon)
next
  case (CancelJob t own m)
  then show ?thesis using assms store_job_ok [OF assms, of t]
    by (auto simp: cancel_job_def Let_def split: option.split intro!: store_ok_put job_ok_finish)
next
  case (RemoveTerminal t)
  then show ?thesis using assms length_od_del_le [of t "sj_jobs st"]
    by (auto simp: remove_terminal_def store_ok_def list_all_od_del split: option.split)
next
  case SnapshotJobs
  then show ?thesis using store_ok_reap [OF assms] by (simp add: snapshot_jobs_def Let_def)
qed

lemma limits_fixed: "sj_limits (snd (scan_call now op st)) = sj_limits st \<and> sj_workspace (snd (scan_call now op st)) = sj_workspace st"
  by (cases op)
    (auto simp: create_job_def update_job_def set_status_def get_job_def cancel_job_def remove_terminal_def
      snapshot_jobs_def put_job_def Let_def split: option.split)

lemma run_ok: "store_ok st \<Longrightarrow> store_ok (scan_run tr st) \<and> sj_limits (scan_run tr st) = sj_limits st"
proof (induction tr arbitrary: st)
  case (Cons e tr)
  obtain now op where e: "e = (now, op)" by force
  show ?case using Cons.IH [OF store_ok_call [OF Cons.prems, of now op]] limits_fixed [of now op st]
    by (simp add: scan_run_def e)
qed (simp add: scan_run_def)

text \<open>
  C29. Bounded by construction: whatever calls the clients make, with whatever texts,
  counters, tokens and clock readings, the store never holds more records than its capacity, and every
  record it holds measures at most the record ceiling, has at most the configured number of counters,
  each with a short key and a value in range, exactly the three sample buckets, each with at most the
  configured number of samples of bounded size, and a bounded message.
\<close>

theorem scan_store_bounded:
  "length (sj_jobs (scan_run tr (new_scan_store ws cf))) \<le> sl_capacity cf
   \<and> list_all (\<lambda>(_, r). job_ok cf r) (sj_jobs (scan_run tr (new_scan_store ws cf)))"
proof -
  have "store_ok (new_scan_store ws cf)" by (simp add: store_ok_def new_scan_store_def)
  from run_ok [OF this, of tr] have "store_ok (scan_run tr (new_scan_store ws cf))"
    and l: "sj_limits (scan_run tr (new_scan_store ws cf)) = cf" by (simp_all add: new_scan_store_def)
  then show ?thesis unfolding store_ok_def l by blast
qed

section \<open>Running and terminal records\<close>

text \<open>What one call leaves of a record: it evolves, or it was terminal (perhaps by this call's own reap) and is
  gone, or it is the fresh record of a \<open>create\<close>.\<close>

lemma cas_running:
  "cas_refusal r own v = None \<Longrightarrow> jo_status r = RUNNING \<and> jo_owner_token r = own \<and> jo_version r = v"
  by (simp add: cas_refusal_def split: if_splits)

lemma evolves_bump:
  assumes "jo_status (maybe_abandon cf now r) = RUNNING"
    and "r2 = (case s of None \<Rightarrow> fold (apply_delta cf) ds (maybe_abandon cf now r)
             | Some x \<Rightarrow> apply_sample cf x (fold (apply_delta cf) ds (maybe_abandon cf now r)))"
  shows "job_evolves r (r2\<lparr>jo_version := jo_version r2 + 1, jo_updated_at := y, jo_lease_expires_at := z\<rparr>)"
proof -
  have "maybe_abandon cf now r = r" using assms(1) by (auto simp: maybe_abandon_def Let_def split: if_splits)
  then show ?thesis using assms deltas_frame [of cf ds r]
    by (auto simp: job_evolves_def sample_frame split: option.split)
qed

lemma evolves_finish_abandon:
  "jo_status (maybe_abandon cf now r) = RUNNING \<Longrightarrow> job_evolves r (finish_job cf now s m (maybe_abandon cf now r))"
  using job_evolves_finish [of r cf now s m] by (simp add: maybe_abandon_def Let_def split: if_splits)

lemma evict_keeps:
  assumes "od_wf jobs" "evict_one_terminal jobs = Some jobs'" "map_of jobs t = Some r" "\<not> is_terminal r"
  shows "map_of jobs' t = Some r"
proof -
  obtain v rv where v: "(v, rv) \<in> set jobs" "is_terminal rv" "jobs' = od_del v jobs"
    using evict_one [OF assms(2)] by metis
  have "map_of jobs v = Some rv" using v(1) assms(1) by (simp add: od_wf_def)
  then show ?thesis using assms(3,4) v by auto
qed

lemma evict_subset: "evict_one_terminal jobs = Some jobs' \<Longrightarrow> map_of jobs' t = None \<or> map_of jobs' t = map_of jobs t"
  by (erule evict_one) auto

definition call_effect :: "real \<Rightarrow> scan_op \<Rightarrow> store \<Rightarrow> pystr \<Rightarrow> bool" where
  "call_effect now op st t \<longleftrightarrow>
     (case map_of (sj_jobs (snd (scan_call now op st))) t of
        None \<Rightarrow> (case map_of (sj_jobs st) t of None \<Rightarrow> True
            | Some r \<Rightarrow> is_terminal (maybe_abandon (sj_limits st) now r))
      | Some r' \<Rightarrow> (case map_of (sj_jobs st) t of
            Some r \<Rightarrow> job_evolves r r' \<or> is_terminal (maybe_abandon (sj_limits st) now r) \<and> (\<exists>own. op = CreateJob t own)
          | None \<Rightarrow> (\<exists>own. op = CreateJob t own)))"

lemma put_lookup [simp]: "map_of (sj_jobs (put_job t r st)) = (map_of (sj_jobs st))(t \<mapsto> r)"
  by (simp add: put_job_def)

lemma effect_put:
  assumes "snd (scan_call now op st) = put_job t' r' st"
    and "map_of (sj_jobs st) t' = Some r" and "job_evolves r r'"
  shows "call_effect now op st t"
  using assms by (auto simp: call_effect_def simp del: scan_call.simps split: option.split)

lemma effect_same: "snd (scan_call now op st) = st \<Longrightarrow> call_effect now op st t"
  by (auto simp: call_effect_def simp del: scan_call.simps split: option.split)

lemma effect_reap:
  assumes "store_ok st"
    and "snd (scan_call now op st) = st\<lparr>sj_jobs := reap_jobs (sj_limits st) now (sj_jobs st)\<rparr>"
  shows "call_effect now op st t"
  using assms reap_jobs_lookup [of "sj_jobs st" "sj_limits st" now t]
  by (auto simp: call_effect_def store_ok_def Let_def simp del: scan_call.simps split: option.split if_splits)

lemma create_effect_eq:
  "snd (scan_call now (CreateJob v own) st) =
     (let cf = sj_limits st; jobs = reap_jobs cf now (sj_jobs st); r = new_job st now v own
      in if utf8_len v > sl_identifier_max cf \<or> utf8_len own > sl_identifier_max cf then st
         else if map_of jobs v \<noteq> None \<or> approx_bytes r > sl_record_max cf
              \<or> length jobs \<ge> sl_capacity cf \<and> evict_one_terminal jobs = None
         then st\<lparr>sj_jobs := jobs\<rparr>
         else if length jobs < sl_capacity cf then st\<lparr>sj_jobs := od_set v r jobs\<rparr>
         else st\<lparr>sj_jobs := od_set v r (the (evict_one_terminal jobs))\<rparr>)"
  by (auto simp: create_job_def Let_def split: option.split)

lemma effect_create:
  assumes "store_ok st"
  shows "call_effect now (CreateJob v own) st t"
proof -
  let ?jobs = "reap_jobs (sj_limits st) now (sj_jobs st)"
  have wf: "od_wf (sj_jobs st)" using assms by (simp add: store_ok_def)
  have look: "map_of ?jobs t = (case map_of (sj_jobs st) t of None \<Rightarrow> None
     | Some r \<Rightarrow> (let r' = maybe_abandon (sj_limits st) now r
                 in if is_terminal r' \<and> now - jo_updated_at r' \<ge> sl_ttl_seconds (sj_limits st) then None else Some r'))" for t
    by (rule reap_jobs_lookup [OF wf])
  have gone: "is_terminal (maybe_abandon (sj_limits st) now r)"
    if "map_of ?jobs t = None" "map_of (sj_jobs st) t = Some r" for t r
    using that by (auto simp: look Let_def split: if_splits)
  have new: "call_effect now (CreateJob v own) st t"
    if s: "snd (scan_call now (CreateJob v own) st) = st\<lparr>sj_jobs := od_set v r jobs'\<rparr>"
      and n: "map_of ?jobs v = None" and j: "map_of jobs' t = map_of ?jobs t
        \<or> map_of jobs' t = None \<and> (\<forall>r. map_of ?jobs t = Some r \<longrightarrow> is_terminal r)" for jobs' r
    using j gone [OF n]
    by (cases "t = v") (auto simp: call_effect_def s look Let_def simp del: scan_call.simps split: option.splits if_splits)
  have ev: "map_of jobs' t = map_of ?jobs t \<or> map_of jobs' t = None \<and> (\<forall>r. map_of ?jobs t = Some r \<longrightarrow> is_terminal r)"
    if "evict_one_terminal ?jobs = Some jobs'" for jobs'
    using evict_keeps [OF reap_keys [OF wf] that, of t] evict_subset [OF that, of t] by fastforce
  let ?cf = "sj_limits st"
  let ?bad = "utf8_len v > sl_identifier_max ?cf \<or> utf8_len own > sl_identifier_max ?cf"
  let ?stop = "map_of ?jobs v \<noteq> None \<or> approx_bytes (new_job st now v own) > sl_record_max ?cf
     \<or> length ?jobs \<ge> sl_capacity ?cf \<and> evict_one_terminal ?jobs = None"
  note eq = create_effect_eq [of now v own st, unfolded Let_def]
  show ?thesis
  proof (cases ?bad)
    case True
    then show ?thesis by (intro effect_same) (simp only: eq if_True)
  next
    case good: False
    show ?thesis
    proof (cases ?stop)
      case True
      then show ?thesis using good by (intro effect_reap [OF assms]) (simp only: eq if_True if_False)
    next
      case go: False
      show ?thesis
      proof (cases "length ?jobs < sl_capacity ?cf")
        case True
        then show ?thesis using good go
          by (intro new [of "new_job st now v own" ?jobs]) (simp_all only: eq if_True if_False, simp_all)
      next
        case False
        then obtain jobs' where j: "evict_one_terminal ?jobs = Some jobs'" using go by fastforce
        show ?thesis
          by (rule new [of "new_job st now v own" jobs', OF _ _ ev [OF j]])
            (use False good go j in \<open>simp_all only: eq if_True if_False, simp_all\<close>)
      qed
    qed
  qed
qed

lemma effect_call:
  assumes "store_ok st"
  shows "call_effect now op st t"
proof (cases op)
  case (CreateJob v own)
  then show ?thesis using effect_create [OF assms] by simp
next
  case (UpdateJob v own ds s n)
  show ?thesis
  proof (cases "map_of (sj_jobs st) v")
    case (Some r)
    let ?r = "maybe_abandon (sj_limits st) now r"
    show ?thesis
    proof (cases "cas_refusal ?r own n")
      case None
      show ?thesis
        by (rule effect_put [OF _ Some evolves_bump [OF conjunct1 [OF cas_running [OF None]]
                refl [of "case s of None \<Rightarrow> fold (apply_delta (sj_limits st)) ds ?r
             | Some x \<Rightarrow> apply_sample (sj_limits st) x (fold (apply_delta (sj_limits st)) ds ?r)"]]])
          (use None Some in \<open>simp add: UpdateJob update_job_def Let_def\<close>)
    next
      case (Some x)
      show ?thesis
        by (rule effect_put [OF _ \<open>map_of (sj_jobs st) v = Some r\<close> job_evolves_abandon])
          (use Some \<open>map_of (sj_jobs st) v = Some r\<close> in \<open>simp add: UpdateJob update_job_def Let_def\<close>)
    qed
  qed (use UpdateJob in \<open>simp add: effect_same update_job_def Let_def\<close>)
next
  case (SetStatus v own x n m)
  show ?thesis
  proof (cases "map_of (sj_jobs st) v")
    case (Some r)
    let ?r = "maybe_abandon (sj_limits st) now r"
    show ?thesis
    proof (cases "x \<in> set TERMINAL_STATUSES")
      case True
      show ?thesis
      proof (cases "cas_refusal ?r own n")
        case None
        show ?thesis
          by (rule effect_put [OF _ Some evolves_finish_abandon [OF conjunct1 [OF cas_running [OF None]]]])
            (use None Some True in \<open>simp add: SetStatus set_status_def Let_def\<close>)
      next
        case (Some y)
        show ?thesis
          by (rule effect_put [OF _ \<open>map_of (sj_jobs st) v = Some r\<close> job_evolves_abandon])
            (use Some True \<open>map_of (sj_jobs st) v = Some r\<close> in \<open>simp add: SetStatus set_status_def Let_def\<close>)
      qed
    qed (use SetStatus in \<open>simp add: effect_same set_status_def Let_def\<close>)
  qed (use SetStatus in \<open>simp add: effect_same set_status_def Let_def\<close>)
next
  case (GetJob v)
  show ?thesis
  proof (cases "map_of (sj_jobs st) v")
    case (Some r)
    show ?thesis
      by (rule effect_put [OF _ Some job_evolves_abandon]) (simp add: GetJob get_job_def Some Let_def)
  qed (simp add: GetJob effect_same get_job_def)
next
  case (CancelJob v own m)
  show ?thesis
  proof (cases "\<exists>r. map_of (sj_jobs st) v = Some r \<and> jo_owner_token r = own \<and> jo_status r = RUNNING")
    case True
    then obtain r where r: "map_of (sj_jobs st) v = Some r" "jo_owner_token r = own" "jo_status r = RUNNING" by blast
    show ?thesis
      by (rule effect_put [OF _ r(1) job_evolves_finish [OF r(3)]])
        (simp add: CancelJob cancel_job_def r Let_def)
  qed (auto simp: CancelJob cancel_job_def intro!: effect_same split: option.split)
next
  case (RemoveTerminal v)
  have "is_terminal r \<Longrightarrow> maybe_abandon cf now r = r" for cf r
    by (auto simp: is_terminal_def TERMINAL_STATUSES_def maybe_abandon_def)
  then show ?thesis
    by (auto simp: RemoveTerminal remove_terminal_def call_effect_def split: option.split)
next
  case SnapshotJobs
  show ?thesis by (rule effect_reap [OF assms]) (simp add: SnapshotJobs snapshot_jobs_def Let_def)
qed

text \<open>
  A valid running job is never removed by force: whatever call another
  client makes (a create at full capacity, a clearing removal, a snapshot that reaps), the record of a
  running job whose lease has not expired is still there afterwards, and is the same one, owned by the
  same token.
\<close>

theorem running_scan_never_evicted:
  assumes "store_ok st" and "map_of (sj_jobs st) t = Some r"
    and "jo_status r = RUNNING" and "now < jo_lease_expires_at r"
  shows "\<exists>r'. map_of (sj_jobs (snd (scan_call now op st))) t = Some r' \<and> job_evolves r r'"
proof -
  have "maybe_abandon (sj_limits st) now r = r" "\<not> is_terminal r"
    using assms(3,4) by (simp_all add: maybe_abandon_def is_terminal_def TERMINAL_STATUSES_def)
  then show ?thesis
    using effect_call [OF assms(1), of now op t] assms(2)
    by (auto simp: call_effect_def split: option.splits)
qed

definition ex_limits :: scan_limits where
  "ex_limits = scan_limits_of 1 1 16 512 4 16 1000 16 60 3600"

definition ex_store :: store where
  "ex_store = scan_run [(0, CreateJob (lit ''t1'') (lit ''o1''))] (new_scan_store [] ex_limits)"

definition ex_job :: job where
  "ex_job = new_job (new_scan_store [] ex_limits) 0 (lit ''t1'') (lit ''o1'')"

lemma ex_store_eval: "sj_jobs ex_store = [(lit ''t1'', ex_job)]" "sj_limits ex_store = ex_limits"
  by (simp_all add: ex_store_def scan_run_def create_job_def new_scan_store_def ex_limits_def scan_limits_of_def
      reap_jobs_def approx_bytes_def new_samples_def SAMPLE_BUCKETS_def bucket_bytes_def status_width
      new_job_def utf8_width_def ex_job_def Let_def)

lemma ex_store_ok: "store_ok ex_store"
  unfolding ex_store_def
  by (rule conjunct1 [OF run_ok]) (simp add: store_ok_def new_scan_store_def)

lemma ex_job_simps: "jo_status ex_job = RUNNING" "jo_lease_expires_at ex_job = 60" "jo_version ex_job = 1"
  "jo_owner_token ex_job = lit ''o1''"
  by (simp_all add: ex_job_def new_job_def new_scan_store_def ex_limits_def scan_limits_of_def)

lemma running_scan_never_evicted_witness:
  "\<exists>r'. map_of (sj_jobs (snd (scan_call 5 (CreateJob (lit ''t2'') (lit ''o2'')) ex_store))) (lit ''t1'') = Some r'
     \<and> job_evolves ex_job r'"
  by (rule running_scan_never_evicted [OF ex_store_ok]) (simp_all add: ex_store_eval ex_job_simps)

definition creates :: "pystr \<Rightarrow> scan_op \<Rightarrow> bool" where
  "creates t op = (case op of CreateJob v _ \<Rightarrow> v = t | _ \<Rightarrow> False)"

lemma run_effect:
  assumes "store_ok st" and "list_all (\<lambda>(_, op). \<not> creates t op) tr"
  shows "case map_of (sj_jobs (scan_run tr st)) t of
       None \<Rightarrow> True
     | Some r' \<Rightarrow> \<exists>r. map_of (sj_jobs st) t = Some r \<and> (r' = r \<or> jo_status r = RUNNING \<and> jo_version r < jo_version r')"
  using assms
proof (induction tr arbitrary: st)
  case (Cons e tr)
  obtain now op where e: "e = (now, op)" by force
  let ?st = "snd (scan_call now op st)"
  have "\<not> creates t op" "list_all (\<lambda>(_, op). \<not> creates t op) tr" using Cons.prems(2) by (simp_all add: e)
  then show ?case
    using Cons.IH [OF store_ok_call [OF Cons.prems(1), of now op]] effect_call [OF Cons.prems(1), of now op t]
    by (auto simp: scan_run_def e call_effect_def job_evolves_def creates_def
        simp del: scan_call.simps split: option.splits)
qed (simp add: scan_run_def split: option.split)

text \<open>
  A late completion cannot overwrite a newer status: once a job is terminal
  (completed, failed, cancelled, or abandoned because its lease expired) its record never changes again,
  through any calls short of a new job under its id; it can only be evicted.
\<close>

theorem terminal_scan_is_final:
  assumes "store_ok st" and "map_of (sj_jobs st) t = Some r" and "is_terminal r"
    and "list_all (\<lambda>(_, op). \<not> creates t op) tr"
  shows "map_of (sj_jobs (scan_run tr st)) t = None \<or> map_of (sj_jobs (scan_run tr st)) t = Some r"
  using run_effect [OF assms(1,4)] assms(2,3)
  by (auto simp: is_terminal_def TERMINAL_STATUSES_def split: option.splits)

definition ex_abandoned :: store where
  "ex_abandoned = snd (get_job 61 (lit ''t1'') ex_store)"

lemma terminal_scan_is_final_witness:
  "map_of (sj_jobs (scan_run [(62, SetStatus (lit ''t1'') (lit ''o1'') COMPLETED 1 [])] ex_abandoned)) (lit ''t1'') = None
   \<or> map_of (sj_jobs (scan_run [(62, SetStatus (lit ''t1'') (lit ''o1'') COMPLETED 1 [])] ex_abandoned)) (lit ''t1'')
      = Some (maybe_abandon ex_limits 61 ex_job)"
proof (rule terminal_scan_is_final)
  show "store_ok ex_abandoned"
    using store_ok_call [OF ex_store_ok, of 61 "GetJob (lit ''t1'')"] by (simp add: ex_abandoned_def split: prod.splits)
  show "map_of (sj_jobs ex_abandoned) (lit ''t1'') = Some (maybe_abandon ex_limits 61 ex_job)"
    by (simp add: ex_abandoned_def get_job_def ex_store_eval Let_def)
  show "is_terminal (maybe_abandon ex_limits 61 ex_job)"
    by (simp add: maybe_abandon_def ex_job_simps Let_def is_terminal_def TERMINAL_STATUSES_def)
qed (simp add: creates_def)

text \<open>The versioned writes: an update or a status transition of job \<open>t\<close> that expects version \<open>v\<close>.\<close>

fun expects :: "pystr \<Rightarrow> nat \<Rightarrow> scan_op \<Rightarrow> bool" where
  "expects t v (UpdateJob t' _ _ _ n) = (t' = t \<and> n = v)"
| "expects t v (SetStatus t' _ _ n _) = (t' = t \<and> n = v)"
| "expects t v _ = False"

definition write_ok :: "scan_answer \<Rightarrow> bool" where
  "write_ok a = (case a of AUpdate u \<Rightarrow> ur_ok u | _ \<Rightarrow> False)"

lemma cas_not_ok: "cas_refusal r own v = Some x \<Longrightarrow> \<not> ur_ok x"
  by (auto simp: cas_refusal_def split: if_splits)

lemma write_ok_running:
  assumes "expects t v op" and "write_ok (fst (scan_call now op st))"
  shows "\<exists>r. map_of (sj_jobs st) t = Some r \<and> jo_status r = RUNNING \<and> jo_version r = v"
proof -
  have run: "jo_status r = RUNNING \<and> jo_version r = v" if "cas_refusal (maybe_abandon cf now r) own v = None" for cf r own
    using cas_running [OF that] by (auto simp: maybe_abandon_def Let_def split: if_splits)
  show ?thesis
  proof (cases op)
    case (UpdateJob t' own ds s n)
    then show ?thesis using assms run
      by (auto simp: update_job_def write_ok_def Let_def not_found_result_def
          split: option.splits dest: cas_not_ok)
  next
    case (SetStatus t' own x n m)
    then show ?thesis using assms run
      by (auto simp: set_status_def write_ok_def Let_def not_found_result_def
          split: option.splits if_splits dest: cas_not_ok)
  qed (use assms in simp_all)
qed

lemma write_ok_bumps:
  assumes "expects t v op" and "write_ok (fst (scan_call now op st))"
  shows "\<exists>r'. map_of (sj_jobs (snd (scan_call now op st))) t = Some r' \<and> v < jo_version r'"
proof (cases op)
  case (UpdateJob t' own ds s n)
  then show ?thesis using assms
    by (auto simp: update_job_def write_ok_def Let_def not_found_result_def sample_frame deltas_frame
        split: option.splits dest: cas_not_ok cas_running)
next
  case (SetStatus t' own x n m)
  then show ?thesis using assms
    by (auto simp: set_status_def write_ok_def Let_def not_found_result_def finish_job_def
        split: option.splits if_splits dest: cas_not_ok cas_running)
qed (use assms in simp_all)

text \<open>
  No lost update: of all the writes of one job that expect the same version,
  whoever sends them and whatever happens in between, at most one is applied; after it every other one
  is refused.
\<close>

theorem scan_cas_has_one_winner:
  assumes "store_ok st" and "expects t v op1" and "write_ok (fst (scan_call now1 op1 st))"
    and "list_all (\<lambda>(_, op). \<not> creates t op) tr" and "expects t v op2"
  shows "\<not> write_ok (fst (scan_call now2 op2 (scan_run tr (snd (scan_call now1 op1 st)))))"
proof
  let ?st = "snd (scan_call now1 op1 st)"
  assume "write_ok (fst (scan_call now2 op2 (scan_run tr ?st)))"
  from write_ok_running [OF assms(5) this] obtain r2 where
    "map_of (sj_jobs (scan_run tr ?st)) t = Some r2" "jo_version r2 = v" by blast
  moreover obtain r1 where "map_of (sj_jobs ?st) t = Some r1" "v < jo_version r1"
    using write_ok_bumps [OF assms(2,3)] by blast
  ultimately show False
    using run_effect [OF store_ok_call [OF assms(1)] assms(4), of now1 op1] by auto
qed

lemma scan_cas_has_one_winner_witness:
  "\<not> write_ok (fst (scan_call 3 (SetStatus (lit ''t1'') (lit ''o1'') COMPLETED 1 [])
     (scan_run [(2, GetJob (lit ''t1''))]
       (snd (scan_call 1 (UpdateJob (lit ''t1'') (lit ''o1'') [(lit ''seen'', DInt 3)] None 1) ex_store)))))"
  by (rule scan_cas_has_one_winner [OF ex_store_ok, where t = "lit ''t1''" and v = 1])
    (simp_all add: creates_def write_ok_def update_job_def ex_store_eval Let_def maybe_abandon_def ex_job_simps
      cas_refusal_def)

section \<open>The server-side hub\<close>

text \<open>
  \<open>ScanJobStoreHub\<close>: one store per namespace, made lazily with the default limits; \<open>clear\<close> replaces a
  namespace's store. A \<open>ManagerScanJobStore\<close> is the pair of the hub and a namespace.
\<close>

type_synonym scan_hub = "(pystr, store) odict"

definition hub_store :: "pystr \<Rightarrow> scan_hub \<Rightarrow> store" where
  "hub_store namespace hub =
     (case map_of hub namespace of None \<Rightarrow> new_scan_store namespace default_scan_limits | Some st \<Rightarrow> st)"

definition scan_hub_call :: "pystr \<Rightarrow> real \<Rightarrow> scan_op \<Rightarrow> scan_hub \<Rightarrow> scan_answer \<times> scan_hub" where
  "scan_hub_call namespace now op hub =
     (case scan_call now op (hub_store namespace hub) of (a, st) \<Rightarrow> (a, od_set namespace st hub))"

definition scan_hub_clear :: "pystr \<Rightarrow> scan_hub \<Rightarrow> scan_hub" where
  "scan_hub_clear namespace hub = od_set namespace (new_scan_store namespace default_scan_limits) hub"

definition hub_run :: "(pystr \<times> real \<times> scan_op) list \<Rightarrow> scan_hub \<Rightarrow> scan_hub" where
  "hub_run tr hub = fold (\<lambda>(ns, now, op) h. snd (scan_hub_call ns now op h)) tr hub"

lemma hub_store_set [simp]: "hub_store n (od_set m st hub) = (if n = m then st else hub_store n hub)"
  by (simp add: hub_store_def)

lemma hub_run_view:
  "hub_store namespace (hub_run tr hub)
     = scan_run (map snd (filter (\<lambda>(n, _). n = namespace) tr)) (hub_store namespace hub)"
proof (induction tr arbitrary: hub)
  case (Cons e tr)
  obtain n now op where e: "e = (n, now, op)" by (cases e) auto
  show ?case using Cons.IH [of "snd (scan_hub_call n now op hub)"]
    by (simp add: hub_run_def scan_run_def e scan_hub_call_def split: prod.split)
qed (simp add: hub_run_def scan_run_def)

text \<open>
  The multi-process store is the single-process store, per workspace: after
  any interleaving of the calls of all clients, a call through the view of one workspace answers exactly
  what the in-process store answers after that workspace's own calls alone.
\<close>

theorem scan_hub_refines_store:
  "fst (scan_hub_call namespace now op (hub_run tr [])) =
     fst (scan_call now op (scan_run (map snd (filter (\<lambda>(n, _). n = namespace) tr))
       (new_scan_store namespace default_scan_limits)))"
  using hub_run_view [of namespace tr "[]"]
  by (simp add: scan_hub_call_def hub_store_def split: prod.split)

end
