(* ===== verification/StatusHistory.thy ===== *)
theory StatusHistory
  imports Prelude
begin

text \<open>
  The bounded history of status messages, src/ontorag/kg/shared_storage.py: the clamp of a message, the
  amortized trim, \<open>append_pipeline_history\<close> and \<open>PipelineStatusLogger\<close>. The lists live in the Manager; a
  handle is an address. Writers take no lock, so a write is three calls (extend, count and measure,
  delete) and other processes may act between them. Proved: a clamped message fits its budget, a write
  never raises, and a history that its processes alone write to stays within its capacity, 127 lines per
  process, and the lines whose check failed since it was last measured, under every interleaving. Two claims of
  the comments do not hold: the counter is shared by all histories of a process, and two trims that race drop
  lines inside the retained window.
\<close>

section \<open>Messages\<close>

text \<open>A message: a string, or another object with what \<open>str\<close> makes of it (\<open>None\<close> when that raises).\<close>

datatype message = Str pystr | Object nat "pystr option"

definition PIPELINE_HISTORY_MAX_MESSAGES :: nat where
  "PIPELINE_HISTORY_MAX_MESSAGES = 5000"

definition PIPELINE_HISTORY_MESSAGE_MAX_BYTES :: nat where
  "PIPELINE_HISTORY_MESSAGE_MAX_BYTES = 4096"

definition HISTORY_TRIM_CHECK_INTERVAL :: nat where
  "HISTORY_TRIM_CHECK_INTERVAL = 128"

text \<open>\<open>message.encode("utf-8")\<close> raises on a lone surrogate.\<close>

definition encodable :: "pystr \<Rightarrow> bool" where
  "encodable s \<longleftrightarrow> list_all (\<lambda>c. \<not> (55296 \<le> c \<and> c \<le> 57343)) s"

definition truncation_marker :: "nat \<Rightarrow> pystr" where
  "truncation_marker n = 8230 # lit ''[truncated, '' @ dec_digits n @ lit '' bytes]''"

definition clamp_text :: "pystr \<Rightarrow> pystr" where
  "clamp_text s =
     (if \<not> encodable s then s
      else if utf8_len s \<le> PIPELINE_HISTORY_MESSAGE_MAX_BYTES then s
      else (let marker = truncation_marker (utf8_len s);
                budget = PIPELINE_HISTORY_MESSAGE_MAX_BYTES - utf8_len marker
            in take_bytes budget s @ marker))"

definition clamp_pipeline_history_message :: "message \<Rightarrow> message" where
  "clamp_pipeline_history_message m =
     (case m of
        Str s \<Rightarrow> Str (clamp_text s)
      | Object i None \<Rightarrow> Object i None
      | Object i (Some s) \<Rightarrow> Str (clamp_text s))"

section \<open>The shared status and its histories\<close>

text \<open>
  \<open>sb_ref\<close> is \<open>pipeline_status["history_messages"]\<close>, a handle; \<open>None\<close> when the key is missing or holds
  \<open>None\<close>. \<open>sb_lists\<close> are the lists of the Manager.
\<close>

record status_board =
  sb_latest :: "message option"
  sb_ref :: "nat option"
  sb_lists :: "nat \<Rightarrow> message list"

text \<open>
  How the calls of one write end. A call that raises has either had no effect or had its effect already
  (the reply was lost).
\<close>

datatype fate = Done | Failed bool

record write_fates =
  wf_latest :: fate
  wf_get :: fate
  wf_extend :: fate
  wf_len :: fate
  wf_del :: fate

definition takes_effect :: "fate \<Rightarrow> bool" where
  "takes_effect f \<longleftrightarrow> f = Done \<or> f = Failed True"

definition after :: "fate \<Rightarrow> ('a \<Rightarrow> 'a) \<Rightarrow> 'a \<Rightarrow> 'a" where
  "after f g x = (if takes_effect f then g x else x)"

definition on_list :: "nat \<Rightarrow> (message list \<Rightarrow> message list) \<Rightarrow> status_board \<Rightarrow> status_board" where
  "on_list a f b = b\<lparr>sb_lists := (sb_lists b)(a := f (sb_lists b a))\<rparr>"

text \<open>
  \<open>_maybe_trim_pipeline_history\<close>. The counter belongs to the process, whatever the history. The first
  part decides; \<open>None\<close> means that no slice is deleted.
\<close>

definition trim_decision :: "nat \<Rightarrow> nat \<Rightarrow> nat \<Rightarrow> nat option \<times> nat" where
  "trim_decision appended counter len =
     (let counter' = counter + appended
      in if counter' < HISTORY_TRIM_CHECK_INTERVAL then (None, counter')
         else (if PIPELINE_HISTORY_MAX_MESSAGES < len then Some (len - PIPELINE_HISTORY_MAX_MESSAGES) else None, 0))"

definition maybe_trim_pipeline_history ::
  "write_fates \<Rightarrow> nat \<Rightarrow> nat \<Rightarrow> nat \<Rightarrow> status_board \<Rightarrow> nat \<times> status_board" where
  "maybe_trim_pipeline_history F a appended counter b =
     (case trim_decision appended counter (length (sb_lists b a)) of
        (None, counter') \<Rightarrow> (counter', b)
      | (Some overflow, counter') \<Rightarrow>
          (counter', if wf_len F = Done then after (wf_del F) (on_list a (drop overflow)) b else b))"

definition append_pipeline_history ::
  "write_fates \<Rightarrow> message list \<Rightarrow> nat \<Rightarrow> status_board \<Rightarrow> nat \<times> status_board" where
  "append_pipeline_history F messages counter b =
     (if messages = [] then (counter, b)
      else if wf_get F \<noteq> Done then (counter, b)
      else (case sb_ref b of
              None \<Rightarrow> (counter, b)
            | Some a \<Rightarrow>
                (let b1 = after (wf_extend F)
                            (on_list a (\<lambda>h. h @ map clamp_pipeline_history_message messages)) b
                 in if wf_extend F \<noteq> Done then (counter, b1)
                    else maybe_trim_pipeline_history F a (length messages) counter b1)))"

section \<open>The logger of one operation\<close>

text \<open>The cache: \<open>None\<close> is \<open>_UNRESOLVED\<close>.\<close>

definition psl_log ::
  "write_fates \<Rightarrow> message list \<Rightarrow> nat option \<Rightarrow> nat \<Rightarrow> status_board \<Rightarrow> nat option \<times> nat \<times> status_board" where
  "psl_log F messages cache counter b =
     (if messages = [] then (cache, counter, b)
      else
        (let ms = map clamp_pipeline_history_message messages;
             b1 = after (wf_latest F) (\<lambda>b. b\<lparr>sb_latest := Some (last ms)\<rparr>) b;
             fetched = (case cache of
                          Some a \<Rightarrow> Some a
                        | None \<Rightarrow> (if wf_get F \<noteq> Done then None else sb_ref b1))
         in (case fetched of
               None \<Rightarrow> (None, counter, b1)
             | Some a \<Rightarrow>
                 (let b2 = after (wf_extend F) (on_list a (\<lambda>h. h @ ms)) b1
                  in if wf_extend F \<noteq> Done then (None, counter, b2)
                     else (case maybe_trim_pipeline_history F a (length ms) counter b2 of
                             (counter', b3) \<Rightarrow> (Some a, counter', b3))))))"

section \<open>What a clamp keeps\<close>

lemma encodable_append [simp]: "encodable (s @ t) \<longleftrightarrow> encodable s \<and> encodable t"
  by (simp add: encodable_def)

lemma dec_digits_length: "n < 10 ^ Suc k \<Longrightarrow> length (dec_digits n) \<le> Suc k"
proof (induction k arbitrary: n)
  case 0
  then show ?case by (simp add: dec_digits.simps)
next
  case (Suc k)
  show ?case
  proof (cases "n < 10")
    case True
    then show ?thesis by (simp add: dec_digits.simps)
  next
    case False
    have "n div 10 < 10 ^ Suc k" using Suc.prems by (simp add: less_mult_imp_div_less)
    from Suc.IH [OF this] False show ?thesis by (simp add: dec_digits.simps [of n])
  qed
qed

lemma dec_digits_ascii: "c \<in> set (dec_digits n) \<Longrightarrow> c < 128"
proof (induction n rule: dec_digits.induct)
  case (1 n)
  show ?case
  proof (cases "n < 10")
    case True
    with 1(2) show ?thesis by (simp add: dec_digits.simps)
  next
    case False
    with 1 show ?thesis by (auto simp: dec_digits.simps [of n])
  qed
qed

lemma utf8_len_ascii: "(\<And>c. c \<in> set s \<Longrightarrow> c < 128) \<Longrightarrow> utf8_len s = length s"
  by (induction s) (simp_all add: utf8_width_def)

lemma truncation_marker_len: "utf8_len (truncation_marker n) = 22 + length (dec_digits n)"
proof -
  have "utf8_len (dec_digits n) = length (dec_digits n)"
    by (rule utf8_len_ascii) (rule dec_digits_ascii)
  then show ?thesis by (simp add: truncation_marker_def utf8_width_def)
qed

lemma clamp_text_fits:
  assumes "encodable s" and "utf8_len s < 10 ^ 100"
  shows "utf8_len (clamp_text s) \<le> PIPELINE_HISTORY_MESSAGE_MAX_BYTES"
proof (cases "utf8_len s \<le> PIPELINE_HISTORY_MESSAGE_MAX_BYTES")
  case False
  let ?m = "truncation_marker (utf8_len s)"
  have "utf8_len s < 10 ^ Suc 99" using assms(2) by simp
  then have "length (dec_digits (utf8_len s)) \<le> Suc 99" by (rule dec_digits_length)
  then have m: "utf8_len ?m \<le> PIPELINE_HISTORY_MESSAGE_MAX_BYTES"
    by (simp add: truncation_marker_len PIPELINE_HISTORY_MESSAGE_MAX_BYTES_def)
  have "utf8_len (take_bytes (PIPELINE_HISTORY_MESSAGE_MAX_BYTES - utf8_len ?m) s)
      \<le> PIPELINE_HISTORY_MESSAGE_MAX_BYTES - utf8_len ?m"
    by (rule take_bytes_le)
  with m False assms(1) show ?thesis by (simp add: clamp_text_def Let_def)
qed (simp add: clamp_text_def)

lemma clamp_text_keeps_head:
  "clamp_text s = s \<or> (\<exists>k. clamp_text s = take k s @ truncation_marker (utf8_len s))"
proof -
  obtain k where "take_bytes (PIPELINE_HISTORY_MESSAGE_MAX_BYTES - utf8_len (truncation_marker (utf8_len s))) s = take k s"
    using take_bytes_prefix by blast
  then show ?thesis unfolding clamp_text_def Let_def by (cases "encodable s") auto
qed

text \<open>A file name that the operating system gave with \<open>surrogateescape\<close> is not encodable: the message is
  neither clamped nor counted.\<close>

lemma surrogates_escape_the_clamp: "\<not> encodable s \<Longrightarrow> clamp_text s = s"
  by (simp add: clamp_text_def)

section \<open>A write without failures keeps the newest lines\<close>

definition no_failures :: write_fates where
  "no_failures = \<lparr>wf_latest = Done, wf_get = Done, wf_extend = Done, wf_len = Done, wf_del = Done\<rparr>"

lemma on_list_lists [simp]: "sb_lists (on_list a f b) = (sb_lists b)(a := f (sb_lists b a))"
  by (simp add: on_list_def)

lemma on_list_ref [simp]: "sb_ref (on_list a f b) = sb_ref b"
  by (simp add: on_list_def)

lemma append_keeps_newest:
  assumes "sb_ref b = Some a" and "append_pipeline_history no_failures ms counter b = (counter', b')"
  shows "\<exists>k. sb_lists b' a = drop k (sb_lists b a @ map clamp_pipeline_history_message ms)
             \<and> (k = 0 \<or> length (sb_lists b' a) = PIPELINE_HISTORY_MAX_MESSAGES)"
proof (cases "ms = []")
  case True
  with assms(2) show ?thesis by (auto simp: append_pipeline_history_def intro: exI [of _ 0])
next
  case False
  let ?h = "sb_lists b a @ map clamp_pipeline_history_message ms"
  let ?b1 = "on_list a (\<lambda>h. h @ map clamp_pipeline_history_message ms) b"
  have t: "maybe_trim_pipeline_history no_failures a (length ms) counter ?b1 = (counter', b')"
    using assms False
    by (simp add: append_pipeline_history_def no_failures_def after_def takes_effect_def Let_def)
  obtain r c where d: "trim_decision (length ms) counter (length ?h) = (r, c)" by (cases "trim_decision (length ms) counter (length ?h)")
  show ?thesis
  proof (cases r)
    case None
    then have "b' = ?b1" using t d
      by (simp add: maybe_trim_pipeline_history_def)
    then show ?thesis by (intro exI [of _ 0]) simp
  next
    case (Some k)
    then have k: "k = length ?h - PIPELINE_HISTORY_MAX_MESSAGES" "PIPELINE_HISTORY_MAX_MESSAGES < length ?h"
      using d by (auto simp: trim_decision_def Let_def split: if_splits)
    have "b' = on_list a (drop k) ?b1" using t d Some
      by (simp add: maybe_trim_pipeline_history_def no_failures_def after_def takes_effect_def)
    then show ?thesis using k by (intro exI [of _ k]) simp
  qed
qed

text \<open>A failed extend is not tried again: the messages of the call are in the list once or not at all.\<close>

lemma failed_extend_drops_cache:
  assumes "ms \<noteq> []" and "wf_extend F = Failed applied"
    and "psl_log F ms (Some a) counter b = (cache', counter', b')"
  shows "cache' = None \<and> counter' = counter
         \<and> sb_lists b' a = sb_lists b a @ (if applied then map clamp_pipeline_history_message ms else [])"
  using assms by (cases applied) (auto simp: psl_log_def Let_def after_def takes_effect_def on_list_def split: if_splits)

text \<open>The cached handle is the history only while the history is reset in place.\<close>

lemma replaced_history_is_not_written:
  assumes "sb_ref b = Some r" and "r \<noteq> a" and "psl_log no_failures ms (Some a) counter b = (cache', counter', b')"
  shows "sb_lists b' r = sb_lists b r"
  using assms
  by (auto simp: psl_log_def Let_def after_def takes_effect_def no_failures_def maybe_trim_pipeline_history_def
           split: if_splits prod.splits option.splits)

section \<open>Writers of several processes\<close>

text \<open>
  Where a process stands in a write: nothing under way, the list extended by \<open>n\<close> messages and the trim
  still to come, or an overflow measured and not yet deleted. \<open>hs_missed\<close> only keeps account: the lines whose
  check failed since the history was last measured.
\<close>

datatype write_pc = Quiet | Extended nat nat | Deleting nat nat

record history_sys =
  hs_lists :: "nat \<Rightarrow> message list"
  hs_counter :: "nat \<Rightarrow> nat"
  hs_pc :: "nat \<Rightarrow> write_pc"
  hs_missed :: nat

definition extend_to :: "nat \<Rightarrow> nat \<Rightarrow> message list \<Rightarrow> history_sys \<Rightarrow> history_sys" where
  "extend_to p a ms s =
     s\<lparr>hs_lists := (hs_lists s)(a := hs_lists s a @ map clamp_pipeline_history_message ms),
       hs_pc := (hs_pc s)(p := Extended a (length ms))\<rparr>"

definition measure_step :: "nat \<Rightarrow> nat \<Rightarrow> nat \<Rightarrow> history_sys \<Rightarrow> history_sys" where
  "measure_step p a n s =
     (case trim_decision n (hs_counter s p) (length (hs_lists s a)) of
        (r, c) \<Rightarrow> s\<lparr>hs_counter := (hs_counter s)(p := c),
                   hs_pc := (hs_pc s)(p := (case r of None \<Rightarrow> Quiet | Some k \<Rightarrow> Deleting a k)),
                   hs_missed := (if hs_counter s p + n < HISTORY_TRIM_CHECK_INTERVAL then hs_missed s else 0)\<rparr>)"

definition delete_step :: "nat \<Rightarrow> nat \<Rightarrow> nat \<Rightarrow> history_sys \<Rightarrow> history_sys" where
  "delete_step p a k s =
     s\<lparr>hs_lists := (hs_lists s)(a := drop k (hs_lists s a)), hs_pc := (hs_pc s)(p := Quiet)\<rparr>"

text \<open>
  A call to the Manager that raises: an \<open>extend\<close> (the write ends, the lines may be in the list), the \<open>len\<close> of
  the check (the counter is back at zero and the trim is skipped) or the \<open>del\<close> (it may have had its effect).
\<close>

definition extend_failed :: "nat \<Rightarrow> nat \<Rightarrow> message list \<Rightarrow> bool \<Rightarrow> history_sys \<Rightarrow> history_sys" where
  "extend_failed p a ms applied s =
     (if applied
      then s\<lparr>hs_lists := (hs_lists s)(a := hs_lists s a @ map clamp_pipeline_history_message ms),
             hs_missed := hs_missed s + length ms\<rparr>
      else s)"

definition measure_failed :: "nat \<Rightarrow> nat \<Rightarrow> nat \<Rightarrow> history_sys \<Rightarrow> history_sys" where
  "measure_failed p a n s =
     (let counter = hs_counter s p + n
      in if counter < HISTORY_TRIM_CHECK_INTERVAL then measure_step p a n s
         else s\<lparr>hs_counter := (hs_counter s)(p := 0), hs_pc := (hs_pc s)(p := Quiet),
                hs_missed := hs_missed s + counter\<rparr>)"

definition delete_failed :: "nat \<Rightarrow> nat \<Rightarrow> nat \<Rightarrow> bool \<Rightarrow> history_sys \<Rightarrow> history_sys" where
  "delete_failed p a k applied s =
     (if applied then delete_step p a k s
      else s\<lparr>hs_pc := (hs_pc s)(p := Quiet), hs_missed := hs_missed s + k\<rparr>)"

text \<open>A process that is replaced by a new one: the counter is gone, and with it a write under way.\<close>

definition restart_process :: "nat \<Rightarrow> history_sys \<Rightarrow> history_sys" where
  "restart_process p s =
     s\<lparr>hs_counter := (hs_counter s)(p := 0), hs_pc := (hs_pc s)(p := Quiet),
       hs_missed := hs_missed s + hs_counter s p
         + (case hs_pc s p of Quiet \<Rightarrow> 0 | Extended a n \<Rightarrow> n | Deleting a k \<Rightarrow> k)\<rparr>"

text \<open>
  The processes are \<open>P\<close>, the histories they write to \<open>A\<close>. A reset is \<open>del h[:]\<close> or \<open>h[:] = [line]\<close>
  (\<open>acquire_reservation\<close>, the scan and the clear routes).
\<close>

inductive history_step :: "nat set \<Rightarrow> nat set \<Rightarrow> history_sys \<Rightarrow> history_sys \<Rightarrow> bool" for P A where
  extend: "p \<in> P \<Longrightarrow> a \<in> A \<Longrightarrow> hs_pc s p = Quiet \<Longrightarrow> history_step P A s (extend_to p a ms s)"
| measure: "p \<in> P \<Longrightarrow> hs_pc s p = Extended a n \<Longrightarrow> history_step P A s (measure_step p a n s)"
| delete: "p \<in> P \<Longrightarrow> hs_pc s p = Deleting a k \<Longrightarrow> history_step P A s (delete_step p a k s)"
| extend_fails: "p \<in> P \<Longrightarrow> a \<in> A \<Longrightarrow> hs_pc s p = Quiet \<Longrightarrow> history_step P A s (extend_failed p a ms applied s)"
| measure_fails: "p \<in> P \<Longrightarrow> hs_pc s p = Extended a n \<Longrightarrow> history_step P A s (measure_failed p a n s)"
| delete_fails: "p \<in> P \<Longrightarrow> hs_pc s p = Deleting a k \<Longrightarrow> history_step P A s (delete_failed p a k applied s)"
| restart: "p \<in> P \<Longrightarrow> history_step P A s (restart_process p s)"
| reset: "a \<in> A \<Longrightarrow> length ms \<le> 1 \<Longrightarrow> history_step P A s (s\<lparr>hs_lists := (hs_lists s)(a := ms)\<rparr>)"

definition history_start :: history_sys where
  "history_start = \<lparr>hs_lists = (\<lambda>_. []), hs_counter = (\<lambda>_. 0), hs_pc = (\<lambda>_. Quiet), hs_missed = 0\<rparr>"

definition history_reach :: "nat set \<Rightarrow> nat set \<Rightarrow> history_sys \<Rightarrow> bool" where
  "history_reach P A = (history_step P A)\<^sup>*\<^sup>* history_start"

fun pending :: "write_pc \<Rightarrow> nat" where
  "pending Quiet = 0"
| "pending (Extended a n) = n"
| "pending (Deleting a k) = k"

fun pc_on :: "nat \<Rightarrow> write_pc \<Rightarrow> bool" where
  "pc_on a Quiet = True"
| "pc_on a (Extended b n) = (b = a)"
| "pc_on a (Deleting b k) = (b = a)"

definition owed :: "nat set \<Rightarrow> history_sys \<Rightarrow> nat" where
  "owed P s = (\<Sum>p\<in>P. hs_counter s p + pending (hs_pc s p))"

definition history_inv :: "nat set \<Rightarrow> nat \<Rightarrow> history_sys \<Rightarrow> bool" where
  "history_inv P a s \<longleftrightarrow>
     length (hs_lists s a) \<le> PIPELINE_HISTORY_MAX_MESSAGES + owed P s + hs_missed s
     \<and> (\<forall>p. pc_on a (hs_pc s p)) \<and> (\<forall>p. hs_counter s p < HISTORY_TRIM_CHECK_INTERVAL)"

lemma sum_one_changed:
  assumes "finite P" and "p \<in> P" and "\<And>q. q \<noteq> p \<Longrightarrow> g q = f q"
  shows "sum g P + f p = sum f P + (g p :: nat)"
proof -
  have "sum g (P - {p}) = sum f (P - {p})" by (rule sum.cong) (simp_all add: assms(3))
  with sum.remove [OF assms(1,2), of g] sum.remove [OF assms(1,2), of f] show ?thesis by simp
qed

lemma owed_changed:
  assumes "finite P" and "p \<in> P"
    and "\<And>q. q \<noteq> p \<Longrightarrow> hs_counter s' q = hs_counter s q" and "\<And>q. q \<noteq> p \<Longrightarrow> hs_pc s' q = hs_pc s q"
  shows "owed P s' + (hs_counter s p + pending (hs_pc s p)) = owed P s + (hs_counter s' p + pending (hs_pc s' p))"
  unfolding owed_def using sum_one_changed [OF assms(1,2), of "\<lambda>q. hs_counter s' q + pending (hs_pc s' q)"
      "\<lambda>q. hs_counter s q + pending (hs_pc s q)"] assms(3,4) by simp

text \<open>The three steps of a write.\<close>

lemma measure_inv:
  assumes "finite P" "p \<in> P" "hs_pc s p = Extended b n" and inv: "history_inv P a s"
  shows "history_inv P a (measure_step p b n s)"
proof -
  note I = inv [unfolded history_inv_def]
  have b: "b = a" using I assms(3) by (metis pc_on.simps(2))
  let ?s = "measure_step p b n s"
  obtain r c where d: "trim_decision n (hs_counter s p) (length (hs_lists s a)) = (r, c)"
    by (cases "trim_decision n (hs_counter s p) (length (hs_lists s a))")
  have s': "hs_lists ?s = hs_lists s" "hs_counter ?s = (hs_counter s)(p := c)"
    "hs_pc ?s = (hs_pc s)(p := (case r of None \<Rightarrow> Quiet | Some k \<Rightarrow> Deleting a k))"
    "hs_missed ?s = (if hs_counter s p + n < HISTORY_TRIM_CHECK_INTERVAL then hs_missed s else 0)"
    using d b by (simp_all add: measure_step_def)
  have o: "owed P ?s + (hs_counter s p + n) = owed P s + (c + pending (hs_pc ?s p))"
    using owed_changed [OF assms(1,2), of ?s s] assms(3) s' by simp
  have "c < HISTORY_TRIM_CHECK_INTERVAL
    \<and> length (hs_lists s a) \<le> PIPELINE_HISTORY_MAX_MESSAGES + owed P ?s + hs_missed ?s"
  proof (cases "hs_counter s p + n < HISTORY_TRIM_CHECK_INTERVAL")
    case True
    then have "c = hs_counter s p + n" "r = None" using d by (auto simp: trim_decision_def)
    with True o s' I show ?thesis by simp
  next
    case False
    then have c: "c = 0" and r: "r = (if PIPELINE_HISTORY_MAX_MESSAGES < length (hs_lists s a)
        then Some (length (hs_lists s a) - PIPELINE_HISTORY_MAX_MESSAGES) else None)"
      using d by (auto simp: trim_decision_def)
    have "hs_counter ?s p + pending (hs_pc ?s p) \<le> owed P ?s"
      unfolding owed_def by (rule member_le_sum) (use assms(1,2) in simp_all)
    moreover have "length (hs_lists s a) \<le> PIPELINE_HISTORY_MAX_MESSAGES + pending (hs_pc ?s p)"
      using s' r by (cases "PIPELINE_HISTORY_MAX_MESSAGES < length (hs_lists s a)") simp_all
    ultimately show ?thesis using c by (simp add: HISTORY_TRIM_CHECK_INTERVAL_def)
  qed
  moreover have "\<forall>q. pc_on a (hs_pc ?s q)" using s' I by (cases r) simp_all
  ultimately show ?thesis using s' I by (simp add: history_inv_def)
qed

lemma delete_inv:
  assumes "finite P" "p \<in> P" "hs_pc s p = Deleting b k" and inv: "history_inv P a s"
  shows "history_inv P a (delete_step p b k s)"
proof -
  note I = inv [unfolded history_inv_def]
  have b: "b = a" using I assms(3) by (metis pc_on.simps(3))
  have "owed P (delete_step p b k s) + k = owed P s"
    using owed_changed [OF assms(1,2), of "delete_step p b k s" s] assms(3) by (simp add: delete_step_def)
  moreover have "length (hs_lists (delete_step p b k s) a) = length (hs_lists s a) - k"
    using b by (simp add: delete_step_def)
  ultimately have "length (hs_lists (delete_step p b k s) a) \<le> PIPELINE_HISTORY_MAX_MESSAGES
      + owed P (delete_step p b k s) + hs_missed s"
    using I by linarith
  with I b show ?thesis by (simp add: history_inv_def delete_step_def)
qed

lemma history_step_inv:
  assumes "history_step P {a} s s'" and "finite P" and inv: "history_inv P a s"
  shows "history_inv P a s'"
proof -
  note I = inv [unfolded history_inv_def]
  from assms(1) show ?thesis
  proof cases
    case (extend p b ms)
    then have "owed P s' = owed P s + length ms"
      using owed_changed [OF assms(2), of p s' s] by (simp add: extend_to_def)
    with I extend show ?thesis by (simp add: history_inv_def extend_to_def)
  next
    case (measure p b n)
    then show ?thesis using measure_inv [OF assms(2) _ _ inv] by simp
  next
    case (delete p b k)
    then show ?thesis using delete_inv [OF assms(2) _ _ inv] by simp
  next
    case (extend_fails p b ms applied)
    then have "owed P s' = owed P s" by (simp add: owed_def extend_failed_def)
    with I extend_fails show ?thesis by (simp add: history_inv_def extend_failed_def)
  next
    case (measure_fails p b n)
    show ?thesis
    proof (cases "hs_counter s p + n < HISTORY_TRIM_CHECK_INTERVAL")
      case True
      then show ?thesis using measure_inv [OF assms(2) _ _ inv] measure_fails by (simp add: measure_failed_def)
    next
      case False
      then have "owed P s' + (hs_counter s p + n) = owed P s"
        using owed_changed [OF assms(2), of p s' s] measure_fails by (simp add: measure_failed_def)
      with I False measure_fails show ?thesis
        by (simp add: history_inv_def measure_failed_def HISTORY_TRIM_CHECK_INTERVAL_def)
    qed
  next
    case (delete_fails p b k applied)
    show ?thesis
    proof (cases applied)
      case True
      then show ?thesis using delete_inv [OF assms(2) _ _ inv] delete_fails by (simp add: delete_failed_def)
    next
      case False
      then have "owed P s' + k = owed P s"
        using owed_changed [OF assms(2), of p s' s] delete_fails by (simp add: delete_failed_def)
      with I False delete_fails show ?thesis by (simp add: history_inv_def delete_failed_def)
    qed
  next
    case (restart p)
    have n: "(case hs_pc s p of Quiet \<Rightarrow> 0 | Extended a n \<Rightarrow> n | Deleting a k \<Rightarrow> k) = pending (hs_pc s p)"
      by (cases "hs_pc s p") simp_all
    have "owed P s' + (hs_counter s p + pending (hs_pc s p)) = owed P s"
      using owed_changed [OF assms(2), of p s' s] restart by (simp add: restart_process_def)
    with I restart n show ?thesis
      by (simp add: history_inv_def restart_process_def HISTORY_TRIM_CHECK_INTERVAL_def)
  next
    case (reset b ms)
    then have "owed P s' = owed P s" by (simp add: owed_def)
    with I reset show ?thesis by (simp add: history_inv_def PIPELINE_HISTORY_MAX_MESSAGES_def)
  qed
qed

lemma history_reach_inv: "history_reach P {a} s \<Longrightarrow> finite P \<Longrightarrow> history_inv P a s"
  unfolding history_reach_def
proof (induction rule: rtranclp_induct)
  case base
  show ?case by (simp add: history_inv_def history_start_def HISTORY_TRIM_CHECK_INTERVAL_def)
next
  case (step s s')
  then show ?case using history_step_inv by blast
qed

text \<open>
  C39. Processes \<open>P\<close> that write to one history and to no other (a process that writes to
  two can let one grow without bound, \<open>starved_history_grows\<close>). However their writes interleave, whichever
  calls to the Manager raise, with or without effect, and whichever processes are replaced, the history holds
  at most 5000 lines, 127 for each process, the lines of the writes that are under way, and the lines whose
  check was lost since the history was last measured: those of an \<open>extend\<close> that took effect and raised, of a
  \<open>len\<close> or \<open>del\<close> that raised, of a process that went away. Without failures these are none.
\<close>

theorem history_stays_bounded:
  assumes "history_reach P {a} s" and "finite P"
  shows "length (hs_lists s a)
         \<le> PIPELINE_HISTORY_MAX_MESSAGES + (HISTORY_TRIM_CHECK_INTERVAL - 1) * card P
           + (\<Sum>p\<in>P. pending (hs_pc s p)) + hs_missed s"
proof -
  have I: "length (hs_lists s a) \<le> PIPELINE_HISTORY_MAX_MESSAGES + owed P s + hs_missed s"
    "\<And>p. hs_counter s p < HISTORY_TRIM_CHECK_INTERVAL"
    using history_reach_inv [OF assms] by (simp_all add: history_inv_def)
  have "(\<Sum>p\<in>P. hs_counter s p) \<le> (\<Sum>p\<in>P. HISTORY_TRIM_CHECK_INTERVAL - 1)"
  proof (rule sum_mono)
    fix p
    from I(2) [of p] show "hs_counter s p \<le> HISTORY_TRIM_CHECK_INTERVAL - 1" by simp
  qed
  then have "owed P s \<le> (HISTORY_TRIM_CHECK_INTERVAL - 1) * card P + (\<Sum>p\<in>P. pending (hs_pc s p))"
    by (simp add: owed_def sum.distrib mult.commute)
  with I(1) show ?thesis by simp
qed

lemma history_stays_bounded_witness:
  "length (hs_lists (extend_failed 1 0 [Str [65]] True history_start) 0)
   \<le> PIPELINE_HISTORY_MAX_MESSAGES + (HISTORY_TRIM_CHECK_INTERVAL - 1) * 1 + 1"
proof -
  have "history_step {1} {0} history_start (extend_failed 1 0 [Str [65]] True history_start)"
    by (rule history_step.extend_fails) (simp_all add: history_start_def)
  then have "history_reach {1} {0} (extend_failed 1 0 [Str [65]] True history_start)"
    by (simp add: history_reach_def r_into_rtranclp)
  from history_stays_bounded [OF this] show ?thesis by (simp add: extend_failed_def history_start_def)
qed

text \<open>Nothing is missed while no call fails and no process goes away: every step but those keeps the account
  at zero.\<close>

lemma nothing_missed:
  "hs_missed s = 0 \<Longrightarrow> hs_missed (extend_to p a ms s) = 0 \<and> hs_missed (measure_step p a n s) = 0
     \<and> hs_missed (delete_step p a k s) = 0"
  by (simp add: extend_to_def measure_step_def delete_step_def split: prod.split)

text \<open>
  The comment says that a race of two trims can only run the trim twice and never removes a line newer
  than the retained window. Both measure the same overflow and both delete it: two lines of the newest
  5000 are gone.
\<close>

lemma racing_trims_lose_lines:
  assumes "p \<in> P" "q \<in> P" "p \<noteq> q" "a \<in> A" and "hs_pc s p = Quiet" "hs_pc s q = Quiet"
    and "hs_counter s p = 127" "hs_counter s q = 127" and "length (hs_lists s a) = PIPELINE_HISTORY_MAX_MESSAGES"
  shows "\<exists>s'. (history_step P A)\<^sup>*\<^sup>* s s' \<and> length (hs_lists s' a) = PIPELINE_HISTORY_MAX_MESSAGES - 2"
proof -
  define s1 where "s1 = extend_to p a [Str []] s"
  define s2 where "s2 = extend_to q a [Str []] s1"
  define s3 where "s3 = measure_step p a 1 s2"
  define s4 where "s4 = measure_step q a 1 s3"
  define s5 where "s5 = delete_step p a 2 s4"
  define s6 where "s6 = delete_step q a 2 s5"
  note defs = s1_def s2_def s3_def s4_def s5_def s6_def extend_to_def measure_step_def delete_step_def
    trim_decision_def HISTORY_TRIM_CHECK_INTERVAL_def PIPELINE_HISTORY_MAX_MESSAGES_def
  note A = assms [unfolded PIPELINE_HISTORY_MAX_MESSAGES_def]
  have "history_step P A s s1" unfolding s1_def by (rule history_step.extend) (simp_all add: assms)
  moreover have "history_step P A s1 s2" unfolding s2_def
    by (rule history_step.extend) (use A in \<open>simp_all add: s1_def extend_to_def\<close>)
  moreover have "history_step P A s2 s3" unfolding s3_def
    by (rule history_step.measure) (use A in \<open>simp_all add: s1_def s2_def extend_to_def\<close>)
  moreover have "history_step P A s3 s4" unfolding s4_def
    by (rule history_step.measure) (use A in \<open>simp_all add: defs\<close>)
  moreover have "history_step P A s4 s5" unfolding s5_def
    by (rule history_step.delete) (use A in \<open>simp_all add: defs\<close>)
  moreover have "history_step P A s5 s6" unfolding s6_def
    by (rule history_step.delete) (use A in \<open>simp_all add: defs\<close>)
  moreover have "length (hs_lists s6 a) = PIPELINE_HISTORY_MAX_MESSAGES - 2"
    using A by (simp add: defs)
  ultimately show ?thesis by (meson rtranclp.rtrancl_refl rtranclp.rtrancl_into_rtrancl)
qed

section \<open>Two histories of one process\<close>

text \<open>
  The counter is shared. A process that writes 127 lines to one workspace's history for each line it writes
  to another's only ever measures the second: the first grows without bound.
\<close>

definition unequal_round :: "nat \<times> status_board \<times> status_board \<Rightarrow> nat \<times> status_board \<times> status_board" where
  "unequal_round s =
     (case s of (counter, b1, b2) \<Rightarrow>
        (case append_pipeline_history no_failures (replicate 127 (Str [65])) counter b1 of
           (c1, b1') \<Rightarrow>
             (case append_pipeline_history no_failures [Str [65]] c1 b2 of (c2, b2') \<Rightarrow> (c2, b1', b2'))))"

definition two_boards :: "nat \<times> status_board \<times> status_board" where
  "two_boards =
     (0, \<lparr>sb_latest = None, sb_ref = Some 0, sb_lists = (\<lambda>_. [])\<rparr>,
         \<lparr>sb_latest = None, sb_ref = Some 1, sb_lists = (\<lambda>_. [])\<rparr>)"

lemma starved_history_grows:
  "\<exists>b1 b2. (unequal_round ^^ n) two_boards = (0, b1, b2) \<and> sb_ref b1 = Some 0 \<and> sb_ref b2 = Some 1
           \<and> length (sb_lists b1 0) = 127 * n"
proof (induction n)
  case 0
  show ?case by (simp add: two_boards_def)
next
  case (Suc n)
  then obtain b1 b2 where s: "(unequal_round ^^ n) two_boards = (0, b1, b2)" "sb_ref b1 = Some 0" "sb_ref b2 = Some 1"
    "length (sb_lists b1 0) = 127 * n" by blast
  have 1: "append_pipeline_history no_failures (replicate 127 (Str [65])) 0 b1
    = (127, on_list 0 (\<lambda>h. h @ map clamp_pipeline_history_message (replicate 127 (Str [65]))) b1)"
    using s by (simp add: append_pipeline_history_def no_failures_def after_def takes_effect_def
      maybe_trim_pipeline_history_def trim_decision_def HISTORY_TRIM_CHECK_INTERVAL_def)
  obtain c b2' where 2: "append_pipeline_history no_failures [Str [65]] 127 b2 = (c, b2')"
    by (cases "append_pipeline_history no_failures [Str [65]] 127 b2")
  have "c = 0 \<and> sb_ref b2' = Some 1"
    using 2 s by (auto simp: append_pipeline_history_def no_failures_def after_def takes_effect_def Let_def
      maybe_trim_pipeline_history_def trim_decision_def HISTORY_TRIM_CHECK_INTERVAL_def split: if_splits prod.splits option.splits)
  with s 1 2 have "(unequal_round ^^ Suc n) two_boards
      = (0, on_list 0 (\<lambda>h. h @ map clamp_pipeline_history_message (replicate 127 (Str [65]))) b1, b2')"
    by (simp add: unequal_round_def [of "(0, b1, b2)"])
  moreover have "sb_ref b2' = Some 1" using \<open>c = 0 \<and> sb_ref b2' = Some 1\<close> by simp
  ultimately show ?case using s by simp
qed

end
