(* ===== verification/SourceIds.thy ===== *)
theory SourceIds
  imports JsonValues TokenBudget "HOL-Library.List_Lexorder"
begin

text \<open>
  Attribution of graph objects to chunks, src/ontorag/utils.py and src/ontorag/utils_graph.py: the lists of
  chunk ids an entity or a relation is made from, joined with \<open><SEP>\<close> in a graph field and kept whole in a
  tracking row, and the key of a relation's row. Proved: merged ids survive the join, an update removes and
  adds exactly what changed, and a relation's key is read back.
\<close>

section \<open>The separator\<close>

definition GRAPH_FIELD_SEP :: pystr where
  "GRAPH_FIELD_SEP = lit ''<SEP>''"

definition RELATION_NO_EVIDENCE_SOURCE_IDS :: "pystr set" where
  "RELATION_NO_EVIDENCE_SOURCE_IDS = {lit ''manual_creation'', lit ''UNKNOWN''}"

text \<open>\<open>split_string_by_multi_markers\<close> for the one marker it is called with.\<close>

definition split_string_by_marker :: "pystr \<Rightarrow> pystr \<Rightarrow> pystr list" where
  "split_string_by_marker marker content = filter (\<lambda>r. r \<noteq> []) (map py_strip (split_text marker content))"

section \<open>Lists of ids\<close>

text \<open>An element of a list of ids: a string, or another value (is it true, and what \<open>str\<close> makes of it).\<close>

datatype source_item = Id pystr | Other bool pystr

fun item_text :: "source_item \<Rightarrow> pystr" where
  "item_text (Id s) = s"
| "item_text (Other truth s) = (if truth then s else [])"

text \<open>The two nested loops: \<open>merged\<close> is the list so far, \<open>seen\<close> its set.\<close>

definition add_ids :: "'a list \<Rightarrow> 'a list \<Rightarrow> 'a list" where
  "add_ids sids merged = fold (\<lambda>sid m. if sid \<in> set m then m else m @ [sid]) sids merged"

definition merge_item :: "source_item \<Rightarrow> pystr list \<Rightarrow> pystr list" where
  "merge_item i merged =
     (case i of
        Id s \<Rightarrow> (if s = [] then merged else add_ids (split_string_by_marker GRAPH_FIELD_SEP s) merged)
      | Other truth s \<Rightarrow> (if \<not> truth then merged else add_ids (split_string_by_marker GRAPH_FIELD_SEP s) merged))"

definition merge_source_ids :: "source_item list option \<Rightarrow> source_item list option \<Rightarrow> pystr list" where
  "merge_source_ids existing_ids new_ids =
     fold merge_item (case new_ids of None \<Rightarrow> [] | Some is \<Rightarrow> is)
       (fold merge_item (case existing_ids of None \<Rightarrow> [] | Some is \<Rightarrow> is) [])"

datatype limit_method = KEEP | FIFO

text \<open>\<open>str.upper\<close> is a parameter.\<close>

definition normalize_source_ids_limit_method :: "(pystr \<Rightarrow> pystr) \<Rightarrow> pystr option \<Rightarrow> limit_method" where
  "normalize_source_ids_limit_method upper m =
     (case m of
        None \<Rightarrow> KEEP
      | Some s \<Rightarrow> (if s = [] then KEEP else if upper s = lit ''FIFO'' then FIFO else KEEP))"

definition apply_source_ids_limit ::
    "(pystr \<Rightarrow> pystr) \<Rightarrow> pystr list \<Rightarrow> int \<Rightarrow> pystr option \<Rightarrow> pystr list" where
  "apply_source_ids_limit upper source_ids limit m =
     (if limit \<le> 0 then []
      else if int (length source_ids) \<le> limit then source_ids
      else (case normalize_source_ids_limit_method upper m of
              FIFO \<Rightarrow> drop (length source_ids - nat limit) source_ids
            | KEEP \<Rightarrow> take (nat limit) source_ids))"

definition compute_incremental_chunk_ids :: "pystr list \<Rightarrow> pystr list \<Rightarrow> pystr list \<Rightarrow> pystr list" where
  "compute_incremental_chunk_ids existing_full old new =
     (let chunks_to_remove = set old - set new;
          chunks_to_add = set new - set old;
          updated = filter (\<lambda>cid. cid \<noteq> [] \<and> cid \<notin> chunks_to_remove) existing_full
      in fold (\<lambda>cid u. if cid \<noteq> [] \<and> cid \<in> chunks_to_add \<and> cid \<notin> set u then u @ [cid] else u) new updated)"

definition subtract_source_ids :: "pystr list \<Rightarrow> pystr list \<Rightarrow> pystr list" where
  "subtract_source_ids source_ids ids_to_remove =
     (if set ids_to_remove = {} then filter (\<lambda>s. s \<noteq> []) source_ids
      else filter (\<lambda>s. s \<noteq> [] \<and> s \<notin> set ids_to_remove) source_ids)"

definition has_chunk_tracking_row :: "jval \<Rightarrow> bool" where
  "has_chunk_tracking_row stored = (case jget stored ''chunk_ids'' of Some (JArr _) \<Rightarrow> True | _ \<Rightarrow> False)"

section \<open>Relations\<close>

text \<open>\<open>sorted((src, tgt))\<close>: Python orders strings by code points.\<close>

definition sorted_pair :: "pystr \<Rightarrow> pystr \<Rightarrow> pystr \<times> pystr" where
  "sorted_pair src tgt = (if tgt < src then (tgt, src) else (src, tgt))"

definition make_relation_chunk_key :: "pystr \<Rightarrow> pystr \<Rightarrow> pystr" where
  "make_relation_chunk_key src tgt = (case sorted_pair src tgt of (a, b) \<Rightarrow> py_join GRAPH_FIELD_SEP [a, b])"

definition parse_relation_chunk_key :: "pystr \<Rightarrow> (pystr \<times> pystr) res" where
  "parse_relation_chunk_key key =
     (case split_text GRAPH_FIELD_SEP key of [a, b] \<Rightarrow> Inr (a, b) | _ \<Rightarrow> Inl ValueError)"

definition relation_evidence_source_ids :: "pystr \<Rightarrow> pystr list" where
  "relation_evidence_source_ids source_id =
     add_ids (filter (\<lambda>s. s \<noteq> [] \<and> s \<notin> RELATION_NO_EVIDENCE_SOURCE_IDS) (split_text GRAPH_FIELD_SEP source_id)) []"

definition relation_evidence_count :: "pystr \<Rightarrow> nat" where
  "relation_evidence_count source_id = length (relation_evidence_source_ids source_id)"

section \<open>Joining and splitting\<close>

lemma GRAPH_FIELD_SEP_eval: "GRAPH_FIELD_SEP = [60, 83, 69, 80, 62]"
  by (simp add: GRAPH_FIELD_SEP_def)

definition has_sep :: "pystr \<Rightarrow> bool" where
  "has_sep s \<longleftrightarrow> cut_first GRAPH_FIELD_SEP s \<noteq> None"

lemma has_sep_Cons: "has_sep (c # s) \<longleftrightarrow> prefix GRAPH_FIELD_SEP (c # s) \<or> has_sep s"
  by (auto simp: has_sep_def split: option.splits)

lemma has_sep_Nil [simp]: "\<not> has_sep []"
  by (simp add: has_sep_def GRAPH_FIELD_SEP_eval)

text \<open>No proper prefix of the separator is its suffix, so it cannot arise across a border.\<close>

lemma no_sep_across: "\<not> has_sep (c # x) \<Longrightarrow> \<not> prefix GRAPH_FIELD_SEP (c # x @ GRAPH_FIELD_SEP @ r)"
  unfolding has_sep_Cons
  by (cases x rule: list.exhaust; cases "tl x" rule: list.exhaust; cases "tl (tl x)" rule: list.exhaust;
      cases "tl (tl (tl x))" rule: list.exhaust) (auto simp: GRAPH_FIELD_SEP_eval)

lemma cut_at_sep: "\<not> has_sep x \<Longrightarrow> cut_first GRAPH_FIELD_SEP (x @ GRAPH_FIELD_SEP @ r) = Some (x, r)"
proof (induction x)
  case Nil
  show ?case by (simp add: GRAPH_FIELD_SEP_eval)
next
  case (Cons c x)
  have "\<not> prefix GRAPH_FIELD_SEP (c # x @ GRAPH_FIELD_SEP @ r)" by (rule no_sep_across [OF Cons.prems])
  moreover have "\<not> has_sep x" using Cons.prems by (simp add: has_sep_Cons)
  ultimately show ?case using Cons.IH by simp
qed

lemma split_join_ids:
  "xs \<noteq> [] \<Longrightarrow> \<forall>x \<in> set xs. \<not> has_sep x \<Longrightarrow> split_text GRAPH_FIELD_SEP (py_join GRAPH_FIELD_SEP xs) = xs"
proof (rule split_join)
  show "GRAPH_FIELD_SEP \<noteq> []" by (simp add: GRAPH_FIELD_SEP_eval)
next
  fix x assume "xs \<noteq> []" "\<forall>x\<in>set xs. \<not> has_sep x" "x \<in> set xs"
  then have x: "\<not> has_sep x" by blast
  then show "cut_first GRAPH_FIELD_SEP x = None" by (simp add: has_sep_def del: not_None_eq)
  from x show "cut_first GRAPH_FIELD_SEP (x @ GRAPH_FIELD_SEP @ r) = Some (x, r)" for r by (rule cut_at_sep)
qed

lemma has_sep_iff: "has_sep s \<longleftrightarrow> (\<exists>u v. s = u @ GRAPH_FIELD_SEP @ v)"
proof
  assume "has_sep s"
  then obtain a b where "cut_first GRAPH_FIELD_SEP s = Some (a, b)" by (auto simp: has_sep_def)
  then show "\<exists>u v. s = u @ GRAPH_FIELD_SEP @ v" using cut_first_append by blast
next
  assume "\<exists>u v. s = u @ GRAPH_FIELD_SEP @ v"
  then obtain u v where s: "s = u @ GRAPH_FIELD_SEP @ v" by blast
  have "has_sep (u @ GRAPH_FIELD_SEP @ v)"
  proof (induction u)
    case Nil
    have "prefix GRAPH_FIELD_SEP (60 # tl GRAPH_FIELD_SEP @ v)" by (simp add: GRAPH_FIELD_SEP_eval)
    then have "has_sep (60 # tl GRAPH_FIELD_SEP @ v)" unfolding has_sep_Cons by (rule disjI1)
    then show ?case by (simp add: GRAPH_FIELD_SEP_eval)
  qed (simp add: has_sep_Cons)
  with s show "has_sep s" by simp
qed

lemma has_sep_part: "has_sep y \<Longrightarrow> has_sep (u @ y @ v)"
  unfolding has_sep_iff by (metis append.assoc)

lemma cut_first_none: "cut_first sep s = Some (a, b) \<Longrightarrow> sep \<noteq> [] \<Longrightarrow> cut_first sep a = None"
proof (induction s arbitrary: a b)
  case (Cons c s)
  show ?case
  proof (cases "prefix sep (c # s)")
    case False
    then obtain a' where a: "a = c # a'" and s: "cut_first sep s = Some (a', b)"
      using Cons.prems(1) by (auto split: option.splits)
    have "\<not> prefix sep (c # a')"
      using False cut_first_append [OF s] by (metis append_Cons prefix_def prefix_order.trans)
    then show ?thesis using Cons.IH [OF s Cons.prems(2)] a by simp
  qed (use Cons.prems in auto)
qed simp

lemma split_text_parts: "sep \<noteq> [] \<Longrightarrow> x \<in> set (split_text sep s) \<Longrightarrow> cut_first sep x = None"
proof (induction sep s rule: split_text.induct)
  case (1 sep s)
  show ?case
  proof (cases "cut_first sep s")
    case None
    then show ?thesis using 1(2,3) by (simp add: split_text.simps [of sep s])
  next
    case (Some p)
    obtain a b where p: "p = (a, b)" by (cases p)
    have "x = a \<or> x \<in> set (split_text sep b)"
      using 1(2,3) Some p by (simp add: split_text.simps [of sep s])
    then show ?thesis
      using 1(1) [OF 1(2) Some p [symmetric] 1(2)] 1(2) cut_first_none [of sep s a b] Some p by auto
  qed
qed

section \<open>Merged ids\<close>

text \<open>An id that a merge can put out: not empty, stripped, and free of the separator.\<close>

definition clean_id :: "pystr \<Rightarrow> bool" where
  "clean_id s \<longleftrightarrow> s \<noteq> [] \<and> py_strip s = s \<and> \<not> has_sep s"

lemma split_string_clean: "x \<in> set (split_string_by_marker GRAPH_FIELD_SEP s) \<Longrightarrow> clean_id x"
proof -
  assume "x \<in> set (split_string_by_marker GRAPH_FIELD_SEP s)"
  then obtain y where y: "y \<in> set (split_text GRAPH_FIELD_SEP s)" "x = py_strip y" "x \<noteq> []"
    by (auto simp: split_string_by_marker_def)
  have "\<not> has_sep y" using split_text_parts [OF _ y(1)] by (simp add: has_sep_def GRAPH_FIELD_SEP_eval)
  moreover obtain u v where "y = u @ x @ v" using py_strip_part y(2) by blast
  ultimately have "\<not> has_sep x" using has_sep_part by metis
  then show ?thesis using y by (simp add: clean_id_def py_strip_idem)
qed

lemma split_string_of_clean: "clean_id s \<Longrightarrow> split_string_by_marker GRAPH_FIELD_SEP s = [s]"
  using split_join_ids [of "[s]"] by (simp add: split_string_by_marker_def clean_id_def)

lemma add_ids_simps [simp]:
  "add_ids [] m = m"
  "add_ids (x # xs) m = add_ids xs (if x \<in> set m then m else m @ [x])"
  by (simp_all add: add_ids_def)

lemma set_add_ids [simp]: "set (add_ids xs m) = set m \<union> set xs"
  by (induction xs arbitrary: m) auto

lemma distinct_add_ids [simp]: "distinct (add_ids xs m) = distinct m"
  by (induction xs arbitrary: m) auto

lemma add_ids_prefix: "prefix m (add_ids xs m)"
proof (induction xs arbitrary: m)
  case (Cons x xs)
  then show ?case by (cases "x \<in> set m") (auto dest: append_prefixD)
qed simp

lemma add_ids_new: "distinct (m @ xs) \<Longrightarrow> add_ids xs m = m @ xs"
  by (induction xs arbitrary: m) auto

definition item_ids :: "source_item \<Rightarrow> pystr list" where
  "item_ids i = split_string_by_marker GRAPH_FIELD_SEP (item_text i)"

lemma split_string_Nil [simp]: "split_string_by_marker GRAPH_FIELD_SEP [] = []"
  by (simp add: split_string_by_marker_def split_text.simps GRAPH_FIELD_SEP_eval py_strip_def)

lemma merge_item_ids: "merge_item i m = add_ids (item_ids i) m"
  by (cases i) (simp_all add: merge_item_def item_ids_def)

lemma merge_items:
  "fold merge_item is m = add_ids (concat (map item_ids is)) m"
proof (induction "is" arbitrary: m)
  case (Cons i "is")
  have "add_ids ys (add_ids xs m) = add_ids (xs @ ys) m" for xs ys m by (simp add: add_ids_def)
  with Cons show ?case by (simp add: merge_item_ids)
qed simp

lemma merge_source_ids_eq:
  "merge_source_ids (Some a) (Some b) = add_ids (concat (map item_ids (a @ b))) []"
  by (simp add: merge_source_ids_def merge_items add_ids_def)

lemma distinct_merged: "distinct (merge_source_ids a b)"
  by (simp add: merge_source_ids_def merge_items)

lemma merged_clean: "\<forall>x \<in> set (merge_source_ids a b). clean_id x"
  using split_string_clean by (auto simp: merge_source_ids_def merge_items item_ids_def)

lemma item_ids_clean: "clean_id s \<Longrightarrow> item_ids (Id s) = [s]"
  by (simp add: item_ids_def split_string_of_clean)

lemma merge_clean:
  assumes "\<forall>x \<in> set xs. clean_id x" and "distinct xs"
  shows "merge_source_ids (Some (map Id xs)) b = add_ids (concat (map item_ids (case b of None \<Rightarrow> [] | Some is \<Rightarrow> is))) xs"
proof -
  have "concat (map item_ids (map Id xs)) = xs"
    using assms(1) by (induction xs) (simp_all add: item_ids_clean)
  moreover have "add_ids xs [] = xs" using add_ids_new [of "[]" xs] assms(2) by simp
  ultimately show ?thesis by (simp add: merge_source_ids_def merge_items)
qed

lemma clean_id_strip: "clean_id x \<Longrightarrow> py_strip x = x \<and> x \<noteq> []"
  by (simp add: clean_id_def)

text \<open>
  C40. What a merge of two lists of ids puts out is what the next merge reads back.
  Joined into a graph's \<open>source_id\<close> and split again, with empty parts left out, it is the same list; an empty list, which two blank lists merge to, joins to an empty text, and only the
  bare split makes one empty part of that. Merging the list, or the joined text as one id, gives the list
  again; merging it with new ids keeps it in front; every id of either list is in it, whether it came alone or
  joined with others, and none is twice.
\<close>

theorem source_ids_roundtrip:
  assumes "ids = merge_source_ids (Some existing) (Some new)"
  shows "split_text GRAPH_FIELD_SEP (py_join GRAPH_FIELD_SEP ids) = (if ids = [] then [[]] else ids)
    \<and> filter (\<lambda>c. c \<noteq> []) (split_text GRAPH_FIELD_SEP (py_join GRAPH_FIELD_SEP ids)) = ids
    \<and> split_string_by_marker GRAPH_FIELD_SEP (py_join GRAPH_FIELD_SEP ids) = ids
    \<and> merge_source_ids (Some (map Id ids)) None = ids
    \<and> merge_source_ids (Some [Id (py_join GRAPH_FIELD_SEP ids)]) None = ids
    \<and> prefix ids (merge_source_ids (Some (map Id ids)) (Some later))
    \<and> set ids = (\<Union>i \<in> set existing \<union> set new. set (item_ids i)) \<and> distinct ids"
proof (intro conjI)
  have c: "\<forall>x \<in> set ids. clean_id x" and d: "distinct ids"
    using assms merged_clean distinct_merged by simp_all
  show split: "split_text GRAPH_FIELD_SEP (py_join GRAPH_FIELD_SEP ids) = (if ids = [] then [[]] else ids)"
    using c by (cases ids) (simp_all add: split_join_ids clean_id_def, simp add: split_text.simps GRAPH_FIELD_SEP_eval)
  show "filter (\<lambda>c. c \<noteq> []) (split_text GRAPH_FIELD_SEP (py_join GRAPH_FIELD_SEP ids)) = ids"
    using c clean_id_strip by (auto simp: split filter_id_conv)
  have strip: "map py_strip ids = ids" using c clean_id_strip by (simp add: map_idI)
  show marker: "split_string_by_marker GRAPH_FIELD_SEP (py_join GRAPH_FIELD_SEP ids) = ids"
    using c clean_id_strip strip
    by (auto simp: split_string_by_marker_def split filter_id_conv py_strip_def)
  show "merge_source_ids (Some (map Id ids)) None = ids" by (simp add: merge_clean [OF c d])
  show "merge_source_ids (Some [Id (py_join GRAPH_FIELD_SEP ids)]) None = ids"
    using add_ids_new [of "[]" ids] d marker by (auto simp: merge_source_ids_def merge_item_ids item_ids_def)
  show "prefix ids (merge_source_ids (Some (map Id ids)) (Some later))"
    by (simp add: merge_clean [OF c d] add_ids_prefix)
  show "set ids = (\<Union>i \<in> set existing \<union> set new. set (item_ids i))"
    by (auto simp: assms merge_source_ids_eq)
  show "distinct ids" by (rule d)
qed

lemma source_ids_roundtrip_witness:
  "split_text GRAPH_FIELD_SEP (py_join GRAPH_FIELD_SEP [lit ''a'', lit ''b'']) = [lit ''a'', lit ''b'']
   \<and> split_text GRAPH_FIELD_SEP (py_join GRAPH_FIELD_SEP []) = [[]]"
proof -
  have "[lit ''a'', lit ''b''] = merge_source_ids (Some [Id (lit ''a<SEP> b'')]) (Some [Id (lit ''b'')])"
    by (simp add: merge_source_ids_def merge_item_def split_string_by_marker_def split_text.simps
        GRAPH_FIELD_SEP_def py_strip_def py_isspace_def)
  note full = source_ids_roundtrip [OF this]
  have "[] = merge_source_ids (Some [Id [32]]) (Some [Id []])"
    by (simp add: merge_source_ids_def merge_item_def split_string_by_marker_def split_text.simps
        GRAPH_FIELD_SEP_def py_strip_def py_isspace_def)
  from full source_ids_roundtrip [OF this] show ?thesis by simp
qed

section \<open>Incremental updates\<close>

lemma fold_additions:
  "fold (\<lambda>cid u. if cid \<noteq> [] \<and> cid \<in> A \<and> cid \<notin> set u then u @ [cid] else u) new u
   = add_ids (filter (\<lambda>cid. cid \<noteq> [] \<and> cid \<in> A) new) u"
  by (induction new arbitrary: u) auto

lemma incremental_eq:
  "compute_incremental_chunk_ids existing old new
   = add_ids (filter (\<lambda>cid. cid \<noteq> [] \<and> cid \<in> set new - set old) new)
       (filter (\<lambda>cid. cid \<noteq> [] \<and> cid \<notin> set old - set new) existing)"
  unfolding compute_incremental_chunk_ids_def Let_def fold_additions ..

text \<open>
  An update of a tracking row removes exactly the ids the edit dropped,
  keeps the others in their order in front, appends exactly the ids the edit brought in, and never restores an
  id that the row had been pruned of although the truncated \<open>source_id\<close> still names it.
\<close>

theorem incremental_update_is_exact:
  "set (compute_incremental_chunk_ids existing old new)
     = {cid. cid \<noteq> [] \<and> (cid \<in> set existing \<and> cid \<notin> set old - set new \<or> cid \<in> set new - set old)}
   \<and> prefix (filter (\<lambda>cid. cid \<noteq> [] \<and> cid \<notin> set old - set new) existing)
       (compute_incremental_chunk_ids existing old new)
   \<and> (\<forall>cid \<in> set old \<inter> set new. cid \<in> set (compute_incremental_chunk_ids existing old new) \<longrightarrow> cid \<in> set existing)
   \<and> (distinct existing \<longrightarrow> distinct (compute_incremental_chunk_ids existing old new))"
  unfolding incremental_eq using add_ids_prefix by auto

lemma incremental_update_is_exact_witness:
  "compute_incremental_chunk_ids [lit ''1'', lit ''2'', lit ''3''] [lit ''1'', lit ''2''] [lit ''2'', lit ''4'']
     = [lit ''2'', lit ''3'', lit ''4'']
   \<and> distinct (compute_incremental_chunk_ids [lit ''1''] [] [])"
proof
  show "compute_incremental_chunk_ids [lit ''1'', lit ''2'', lit ''3''] [lit ''1'', lit ''2''] [lit ''2'', lit ''4'']
     = [lit ''2'', lit ''3'', lit ''4'']"
    by (simp add: compute_incremental_chunk_ids_def)
  show "distinct (compute_incremental_chunk_ids [lit ''1''] [] [])"
    using incremental_update_is_exact [of "[lit ''1'']" "[]" "[]"] by simp
qed

text \<open>The update is documented to deduplicate; an id that the row already holds twice stays twice.\<close>

lemma incremental_keeps_duplicates:
  "compute_incremental_chunk_ids [lit ''1'', lit ''1''] [] [] = [lit ''1'', lit ''1'']"
  by (simp add: compute_incremental_chunk_ids_def)

lemma subtract_exact: "subtract_source_ids ids gone = filter (\<lambda>s. s \<noteq> [] \<and> s \<notin> set gone) ids"
  by (simp add: subtract_source_ids_def)

section \<open>The limit\<close>

text \<open>The limit keeps the oldest or the newest ids, never more than it says, in their order.\<close>

lemma limit_bounds:
  "int (length (apply_source_ids_limit up ids limit m)) \<le> max 0 limit"
  by (auto simp: apply_source_ids_limit_def split: limit_method.splits)

lemma limit_keeps_order:
  "prefix (apply_source_ids_limit up ids limit m) ids \<or> suffix (apply_source_ids_limit up ids limit m) ids"
  by (auto simp: apply_source_ids_limit_def take_is_prefix suffix_drop split: limit_method.splits)

lemma limit_subset: "set (apply_source_ids_limit up ids limit m) \<subseteq> set ids"
  by (auto simp: apply_source_ids_limit_def dest: in_set_takeD in_set_dropD split: limit_method.splits if_splits)

section \<open>Keys of relations\<close>

lemma sorted_pair_commute: "sorted_pair s t = sorted_pair t s"
  by (cases s t rule: linorder_cases) (auto simp: sorted_pair_def dest: less_asym)

text \<open>The key of a relation does not depend on its direction, and is read back as the ordered pair.\<close>

lemma relation_key_roundtrip:
  assumes "\<not> has_sep src" and "\<not> has_sep tgt"
  shows "parse_relation_chunk_key (make_relation_chunk_key src tgt) = Inr (sorted_pair src tgt)"
    and "make_relation_chunk_key src tgt = make_relation_chunk_key tgt src"
proof -
  obtain a b where p: "sorted_pair src tgt = (a, b)" by (cases "sorted_pair src tgt")
  then have "\<not> has_sep a" "\<not> has_sep b" using assms by (auto simp: sorted_pair_def split: if_splits)
  then have "split_text GRAPH_FIELD_SEP (py_join GRAPH_FIELD_SEP [a, b]) = [a, b]"
    by (intro split_join_ids) auto
  then show "parse_relation_chunk_key (make_relation_chunk_key src tgt) = Inr (sorted_pair src tgt)"
    by (simp add: make_relation_chunk_key_def parse_relation_chunk_key_def p)
  show "make_relation_chunk_key src tgt = make_relation_chunk_key tgt src"
    unfolding make_relation_chunk_key_def by (simp only: sorted_pair_commute)
qed

lemma relation_key_injective:
  assumes "\<not> has_sep s" "\<not> has_sep t" "\<not> has_sep u" "\<not> has_sep v"
    and "make_relation_chunk_key s t = make_relation_chunk_key u v"
  shows "sorted_pair s t = sorted_pair u v"
  using relation_key_roundtrip(1) [OF assms(1,2)] relation_key_roundtrip(1) [OF assms(3,4)] assms(5) by simp

text \<open>Placeholders of manual relations are no evidence.\<close>

lemma placeholders_are_no_evidence:
  "relation_evidence_count (py_join GRAPH_FIELD_SEP [lit ''manual_creation'', lit ''c'', lit ''UNKNOWN'', lit ''c'']) = 1"
proof -
  have "split_text GRAPH_FIELD_SEP (py_join GRAPH_FIELD_SEP [lit ''manual_creation'', lit ''c'', lit ''UNKNOWN'', lit ''c''])
    = [lit ''manual_creation'', lit ''c'', lit ''UNKNOWN'', lit ''c'']"
    by (intro split_join_ids) (auto simp: has_sep_def GRAPH_FIELD_SEP_def)
  then show ?thesis
    by (simp add: relation_evidence_count_def relation_evidence_source_ids_def RELATION_NO_EVIDENCE_SOURCE_IDS_def)
qed

end
