(* ===== verification/KgState.thy ===== *)
theory KgState
  imports SourceIds
begin

text \<open>
  The stores a purge of one document touches, and what a storage call does to them. Every storage keeps its
  rows in memory and writes them to disk when it is flushed; a call may raise, before or after its effect,
  and a process may die, which leaves of every storage either what it had in memory (a storage that writes
  through) or what it had flushed. A computation over the stores passes the state along and stops at the
  first error; the Hoare triples at the end have one postcondition for a return and one for an error.
\<close>

section \<open>Rows\<close>

datatype purge_phase = Prepared | Derived_Committed | Anchors_Pending | Completed

fun phase_index :: "purge_phase \<Rightarrow> nat" where
  "phase_index Prepared = 0"
| "phase_index Derived_Committed = 1"
| "phase_index Anchors_Pending = 2"
| "phase_index Completed = 3"

text \<open>
  The recovery keys of a \<open>doc_status\<close> row's metadata. \<open>pj_operation\<close> is \<open>None\<close> when the journal's operation
  id is not a string, \<open>pj_phase\<close> when its phase is not one of the four.
\<close>

record journal =
  pj_operation :: "pystr option"
  pj_phase :: "purge_phase option"

datatype write_state = Pre_Graph | Mutation_Started | Other_State

record patch =
  pt_entity_names :: "jval list"
  pt_relation_pairs :: "jval list"

record status_row =
  st_purge :: "journal option"
  st_write :: "write_state option"
  st_patch :: "patch option"

text \<open>
  A row of \<open>full_entities\<close> or \<open>full_relations\<close>: absent, present without a list of names (and whether what it
  has there is true), or the names.
\<close>

datatype 'a anchor = Absent | Unusable bool | Names "'a list"

text \<open>A node's \<open>source_id\<close> is empty when it is missing or false; \<open>ed_source\<close> is \<open>None\<close> when the key is missing.\<close>

record node =
  nd_entity_id :: pystr
  nd_source :: pystr

record edge =
  ed_source :: "pystr option"

text \<open>
  The stores, seen from one document: its rows, the graph (undirected: an edge is kept under the ordered pair
  of its ends), the tracking rows (the list of their \<open>chunk_ids\<close>), and the ids in the vector stores and in the
  chunk store.
\<close>

record kg_state =
  kg_status :: "status_row option"
  kg_full_entities :: "pystr anchor"
  kg_full_relations :: "(pystr \<times> pystr) anchor"
  kg_nodes :: "(pystr, node) odict"
  kg_edges :: "(pystr \<times> pystr, edge) odict"
  kg_entity_chunks :: "(pystr, pystr list) odict"
  kg_relation_chunks :: "(pystr, pystr list) odict"
  kg_entity_vectors :: "pystr set"
  kg_relation_vectors :: "pystr set"
  kg_chunk_vectors :: "pystr set"
  kg_text_chunks :: "pystr set"

section \<open>Storage calls\<close>

datatype comp = C_Status | C_Full_Entities | C_Full_Relations | C_Graph | C_Entity_Chunks | C_Relation_Chunks
  | C_Entity_Vectors | C_Relation_Vectors | C_Chunk_Vectors | C_Text_Chunks

text \<open>\<open>copy P x y\<close> is \<open>y\<close> with the storages of \<open>P\<close> taken from \<open>x\<close>.\<close>

definition copy :: "(comp \<Rightarrow> bool) \<Rightarrow> kg_state \<Rightarrow> kg_state \<Rightarrow> kg_state" where
  "copy P x y =
     \<lparr>kg_status = (if P C_Status then kg_status x else kg_status y),
      kg_full_entities = (if P C_Full_Entities then kg_full_entities x else kg_full_entities y),
      kg_full_relations = (if P C_Full_Relations then kg_full_relations x else kg_full_relations y),
      kg_nodes = (if P C_Graph then kg_nodes x else kg_nodes y),
      kg_edges = (if P C_Graph then kg_edges x else kg_edges y),
      kg_entity_chunks = (if P C_Entity_Chunks then kg_entity_chunks x else kg_entity_chunks y),
      kg_relation_chunks = (if P C_Relation_Chunks then kg_relation_chunks x else kg_relation_chunks y),
      kg_entity_vectors = (if P C_Entity_Vectors then kg_entity_vectors x else kg_entity_vectors y),
      kg_relation_vectors = (if P C_Relation_Vectors then kg_relation_vectors x else kg_relation_vectors y),
      kg_chunk_vectors = (if P C_Chunk_Vectors then kg_chunk_vectors x else kg_chunk_vectors y),
      kg_text_chunks = (if P C_Text_Chunks then kg_text_chunks x else kg_text_chunks y)\<rparr>"

text \<open>
  \<open>ks_calls\<close> is how many more storage calls succeed (\<open>None\<close>: all of them). What the call that fails leaves
  behind is a \<open>fault\<close>: whether its effect took place, and which storages of a flush were written.
\<close>

record kg_sys =
  ks_mem :: kg_state
  ks_disk :: kg_state
  ks_calls :: "nat option"

record fault =
  fa_effect :: bool
  fa_flushed :: "comp \<Rightarrow> bool"

datatype missing_reason = Missing_Anchor_Rows | Chunkless_Contributions

datatype purge_error =
    Storage_Failure
  | Recovery_Anchor_Missing missing_reason
  | Operation_Conflict
  | Storage_Record_Not_Found
  | Purge_Stage_Error string

type_synonym 'a kgm = "kg_sys \<Rightarrow> (purge_error + 'a) \<times> kg_sys"

definition kg_return :: "'a \<Rightarrow> 'a kgm" where
  "kg_return x s = (Inr x, s)"

definition kg_raise :: "purge_error \<Rightarrow> 'a kgm" where
  "kg_raise e s = (Inl e, s)"

definition kg_bind :: "'a kgm \<Rightarrow> ('a \<Rightarrow> 'b kgm) \<Rightarrow> 'b kgm" where
  "kg_bind m f s = (case m s of (Inl e, s') \<Rightarrow> (Inl e, s') | (Inr x, s') \<Rightarrow> f x s')"

definition kg_then :: "'a kgm \<Rightarrow> 'b kgm \<Rightarrow> 'b kgm" where
  "kg_then m n = kg_bind m (\<lambda>_. n)"

definition kg_when :: "bool \<Rightarrow> unit kgm \<Rightarrow> unit kgm" where
  "kg_when b m = (if b then m else kg_return ())"

definition kg_read :: "(kg_state \<Rightarrow> 'a) \<Rightarrow> 'a kgm" where
  "kg_read g s =
     (case ks_calls s of
        None \<Rightarrow> (Inr (g (ks_mem s)), s)
      | Some 0 \<Rightarrow> (Inl Storage_Failure, s)
      | Some (Suc n) \<Rightarrow> (Inr (g (ks_mem s)), s\<lparr>ks_calls := Some n\<rparr>))"

definition kg_write :: "fault \<Rightarrow> (kg_state \<Rightarrow> kg_state) \<Rightarrow> unit kgm" where
  "kg_write F f s =
     (case ks_calls s of
        None \<Rightarrow> (Inr (), s\<lparr>ks_mem := f (ks_mem s)\<rparr>)
      | Some 0 \<Rightarrow> (Inl Storage_Failure, if fa_effect F then s\<lparr>ks_mem := f (ks_mem s)\<rparr> else s)
      | Some (Suc n) \<Rightarrow> (Inr (), s\<lparr>ks_mem := f (ks_mem s), ks_calls := Some n\<rparr>))"

text \<open>\<open>_flush_storages\<close>: every storage is flushed before the first failure is raised.\<close>

definition kg_flush :: "fault \<Rightarrow> (comp \<Rightarrow> bool) \<Rightarrow> unit kgm" where
  "kg_flush F P s =
     (case ks_calls s of
        None \<Rightarrow> (Inr (), s\<lparr>ks_disk := copy P (ks_mem s) (ks_disk s)\<rparr>)
      | Some 0 \<Rightarrow> (Inl Storage_Failure,
          s\<lparr>ks_disk := copy (\<lambda>c. P c \<and> fa_flushed F c) (ks_mem s) (ks_disk s)\<rparr>)
      | Some (Suc n) \<Rightarrow> (Inr (), s\<lparr>ks_disk := copy P (ks_mem s) (ks_disk s), ks_calls := Some n\<rparr>))"

text \<open>\<open>except Exception as e: raise _PurgeStageError(\<dots>, stage=\<dots>)\<close>.\<close>

definition kg_stage :: "string \<Rightarrow> 'a kgm \<Rightarrow> 'a kgm" where
  "kg_stage name m s = (case m s of (Inl e, s') \<Rightarrow> (Inl (Purge_Stage_Error name), s') | (Inr x, s') \<Rightarrow> (Inr x, s'))"

text \<open>\<open>except Exception: log\<close>.\<close>

definition kg_swallow :: "unit kgm \<Rightarrow> unit kgm" where
  "kg_swallow m s = (case m s of (Inl e, s') \<Rightarrow> (Inr (), s') | (Inr x, s') \<Rightarrow> (Inr (), s'))"

fun kg_each :: "('a \<Rightarrow> unit kgm) \<Rightarrow> 'a list \<Rightarrow> unit kgm" where
  "kg_each f [] = kg_return ()"
| "kg_each f (x # xs) = kg_then (f x) (kg_each f xs)"

section \<open>Triples\<close>

text \<open>\<open>Q\<close> holds after a return, \<open>X\<close> after an error.\<close>

definition kg_triple ::
    "(kg_sys \<Rightarrow> bool) \<Rightarrow> 'a kgm \<Rightarrow> ('a \<Rightarrow> kg_sys \<Rightarrow> bool) \<Rightarrow> (kg_sys \<Rightarrow> bool) \<Rightarrow> bool" where
  "kg_triple P m Q X \<longleftrightarrow> (\<forall>s. P s \<longrightarrow> (case m s of (Inl e, s') \<Rightarrow> X s' | (Inr x, s') \<Rightarrow> Q x s'))"

lemma kg_tripleI:
  "(\<And>s x s'. P s \<Longrightarrow> m s = (Inr x, s') \<Longrightarrow> Q x s') \<Longrightarrow> (\<And>s e s'. P s \<Longrightarrow> m s = (Inl e, s') \<Longrightarrow> X s') \<Longrightarrow> kg_triple P m Q X"
  unfolding kg_triple_def by (auto split: prod.splits sum.splits)

lemma kg_tripleD:
  "kg_triple P m Q X \<Longrightarrow> P s \<Longrightarrow> m s = (Inr x, s') \<Longrightarrow> Q x s'"
  "kg_triple P m Q X \<Longrightarrow> P s \<Longrightarrow> m s = (Inl e, s') \<Longrightarrow> X s'"
  unfolding kg_triple_def by (metis (mono_tags, lifting) case_prod_conv sum.case)+

lemma kg_conseq:
  "kg_triple P' m Q' X' \<Longrightarrow> (\<And>s. P s \<Longrightarrow> P' s) \<Longrightarrow> (\<And>x s. Q' x s \<Longrightarrow> Q x s) \<Longrightarrow> (\<And>s. X' s \<Longrightarrow> X s) \<Longrightarrow> kg_triple P m Q X"
  unfolding kg_triple_def by (fastforce split: prod.splits sum.splits)

lemma kg_pre: "kg_triple P' m Q X \<Longrightarrow> (\<And>s. P s \<Longrightarrow> P' s) \<Longrightarrow> kg_triple P m Q X"
  by (rule kg_conseq)

lemma kg_return_triple: "(\<And>s. P s \<Longrightarrow> Q x s) \<Longrightarrow> kg_triple P (kg_return x) Q X"
  by (rule kg_tripleI) (auto simp: kg_return_def)

lemma kg_raise_triple: "(\<And>s. P s \<Longrightarrow> X s) \<Longrightarrow> kg_triple P (kg_raise e) Q X"
  by (rule kg_tripleI) (auto simp: kg_raise_def)

lemma kg_bind_triple:
  assumes "kg_triple P m R X" and "\<And>x. kg_triple (R x) (f x) Q X"
  shows "kg_triple P (kg_bind m f) Q X"
proof -
  have "(case kg_bind m f s of (Inl e, s') \<Rightarrow> X s' | (Inr y, s') \<Rightarrow> Q y s')" if "P s" for s
  proof (cases "m s")
    case (Pair r s')
    show ?thesis
    proof (cases r)
      case (Inl e)
      then show ?thesis using kg_tripleD(2) [OF assms(1) that] Pair by (simp add: kg_bind_def)
    next
      case (Inr x)
      then have "R x s'" using kg_tripleD(1) [OF assms(1) that] Pair by simp
      then show ?thesis using assms(2) [of x] Pair Inr by (simp add: kg_bind_def kg_triple_def)
    qed
  qed
  then show ?thesis unfolding kg_triple_def by blast
qed

lemma kg_then_triple:
  "kg_triple P m (\<lambda>_. R) X \<Longrightarrow> kg_triple R n Q X \<Longrightarrow> kg_triple P (kg_then m n) Q X"
  unfolding kg_then_def by (rule kg_bind_triple)

lemma kg_when_triple:
  "(b \<Longrightarrow> kg_triple P m (\<lambda>_. Q) X) \<Longrightarrow> (\<And>s. \<not> b \<Longrightarrow> P s \<Longrightarrow> Q s) \<Longrightarrow> kg_triple P (kg_when b m) (\<lambda>_. Q) X"
  unfolding kg_when_def by (cases b) (auto intro: kg_return_triple)

lemma kg_stage_triple: "kg_triple P m Q X \<Longrightarrow> kg_triple P (kg_stage n m) Q X"
  by (rule kg_tripleI) (auto simp: kg_stage_def dest: kg_tripleD split: prod.splits sum.splits)

lemma kg_swallow_triple: "kg_triple P m (\<lambda>_. Q) Q \<Longrightarrow> kg_triple P (kg_swallow m) (\<lambda>_. Q) X"
proof -
  assume m: "kg_triple P m (\<lambda>_. Q) Q"
  have "Q (snd (m s))" if "P s" for s
  proof (cases "m s")
    case (Pair r s')
    then show ?thesis using kg_tripleD [OF m that] by (cases r) auto
  qed
  moreover have "kg_swallow m s = (Inr (), snd (m s))" for s
    by (simp add: kg_swallow_def split: prod.splits sum.splits)
  ultimately show ?thesis by (intro kg_tripleI) auto
qed

lemma kg_each_triple:
  assumes "\<And>x. x \<in> set xs \<Longrightarrow> kg_triple P (f x) (\<lambda>_. P) X"
  shows "kg_triple P (kg_each f xs) (\<lambda>_. P) X"
  using assms
proof (induction xs)
  case (Cons x xs)
  then show ?case by (auto intro!: kg_then_triple)
qed (auto intro: kg_return_triple)

text \<open>A predicate that does not look at the number of calls.\<close>

definition calls_free :: "(kg_sys \<Rightarrow> bool) \<Rightarrow> bool" where
  "calls_free P \<longleftrightarrow> (\<forall>s n. P (s\<lparr>ks_calls := n\<rparr>) = P s)"

lemma kg_read_triple:
  assumes "calls_free P"
  shows "kg_triple P (kg_read g) (\<lambda>x s. P s \<and> x = g (ks_mem s)) P"
  using assms by (intro kg_tripleI) (auto simp: kg_read_def calls_free_def split: option.splits nat.splits)

lemma kg_write_triple:
  assumes "calls_free P" and "calls_free Q"
    and "\<And>s. P s \<Longrightarrow> Q (s\<lparr>ks_mem := f (ks_mem s)\<rparr>)"
    and "\<And>s. P s \<Longrightarrow> X s" "\<And>s. P s \<Longrightarrow> X (s\<lparr>ks_mem := f (ks_mem s)\<rparr>)"
  shows "kg_triple P (kg_write F f) (\<lambda>_. Q) X"
proof (rule kg_tripleI)
  fix s x s' assume "P s" "kg_write F f s = (Inr x, s')"
  then have "\<exists>n. s' = s\<lparr>ks_mem := f (ks_mem s)\<rparr>\<lparr>ks_calls := n\<rparr>"
    by (auto simp: kg_write_def split: option.splits nat.splits intro: exI [of _ "ks_calls s"])
  with assms(3) [OF \<open>P s\<close>] show "Q s'" using assms(2) unfolding calls_free_def by metis
next
  fix s e s' assume "P s" "kg_write F f s = (Inl e, s')"
  then show "X s'" using assms(4,5) by (auto simp: kg_write_def split: option.splits nat.splits if_splits)
qed

lemma kg_flush_triple:
  assumes "calls_free P" and "calls_free Q"
    and "\<And>s. P s \<Longrightarrow> Q (s\<lparr>ks_disk := copy C (ks_mem s) (ks_disk s)\<rparr>)"
    and "\<And>s D. P s \<Longrightarrow> X (s\<lparr>ks_disk := copy D (ks_mem s) (ks_disk s)\<rparr>)"
  shows "kg_triple P (kg_flush F C) (\<lambda>_. Q) X"
proof (rule kg_tripleI)
  fix s x s' assume "P s" "kg_flush F C s = (Inr x, s')"
  then have "\<exists>n. s' = s\<lparr>ks_disk := copy C (ks_mem s) (ks_disk s)\<rparr>\<lparr>ks_calls := n\<rparr>"
    by (auto simp: kg_flush_def split: option.splits nat.splits intro: exI [of _ "ks_calls s"])
  with assms(3) [OF \<open>P s\<close>] show "Q s'" using assms(2) unfolding calls_free_def by metis
next
  fix s e s' assume "P s" "kg_flush F C s = (Inl e, s')"
  then show "X s'" using assms(4) by (auto simp: kg_flush_def split: option.splits nat.splits)
qed

section \<open>Computations that return when no call fails\<close>

definition kg_total :: "'a kgm \<Rightarrow> bool" where
  "kg_total m \<longleftrightarrow> (\<forall>s. ks_calls s = None \<longrightarrow> (\<exists>x s'. m s = (Inr x, s') \<and> ks_calls s' = None))"

lemma kg_total_basic:
  "kg_total (kg_return x)" "kg_total (kg_read g)" "kg_total (kg_write F f)" "kg_total (kg_flush F P)"
  by (simp_all add: kg_total_def kg_return_def kg_read_def kg_write_def kg_flush_def)

lemma kg_total_bind: "kg_total m \<Longrightarrow> (\<And>x. kg_total (f x)) \<Longrightarrow> kg_total (kg_bind m f)"
  unfolding kg_total_def kg_bind_def by (metis (no_types, lifting) case_prod_conv sum.case(2))

lemma kg_total_then: "kg_total m \<Longrightarrow> kg_total n \<Longrightarrow> kg_total (kg_then m n)"
  unfolding kg_then_def by (rule kg_total_bind)

lemma kg_total_when: "kg_total m \<Longrightarrow> kg_total (kg_when b m)"
  unfolding kg_when_def by (simp add: kg_total_basic)

lemma kg_total_stage: "kg_total m \<Longrightarrow> kg_total (kg_stage n m)"
  unfolding kg_total_def kg_stage_def by (metis (no_types, lifting) case_prod_conv sum.case(2))

lemma kg_total_each: "(\<And>x. kg_total (f x)) \<Longrightarrow> kg_total (kg_each f xs)"
  by (induction xs) (simp_all add: kg_total_basic kg_total_then)

text \<open>A swallowed error does not end the computation, but it must not use up calls.\<close>

definition keeps_unlimited :: "'a kgm \<Rightarrow> bool" where
  "keeps_unlimited m \<longleftrightarrow> (\<forall>s. ks_calls s = None \<longrightarrow> ks_calls (snd (m s)) = None)"

lemma keeps_unlimited_basic:
  "keeps_unlimited (kg_return x)" "keeps_unlimited (kg_raise e)" "keeps_unlimited (kg_read g)"
  "keeps_unlimited (kg_write F f)" "keeps_unlimited (kg_flush F P)"
  by (simp_all add: keeps_unlimited_def kg_return_def kg_raise_def kg_read_def kg_write_def kg_flush_def)

lemma keeps_unlimited_bind: "keeps_unlimited m \<Longrightarrow> (\<And>x. keeps_unlimited (f x)) \<Longrightarrow> keeps_unlimited (kg_bind m f)"
  unfolding keeps_unlimited_def kg_bind_def by (auto split: prod.splits sum.splits) (metis snd_conv)+

lemma keeps_unlimited_then: "keeps_unlimited m \<Longrightarrow> keeps_unlimited n \<Longrightarrow> keeps_unlimited (kg_then m n)"
  unfolding kg_then_def by (rule keeps_unlimited_bind)

lemma keeps_unlimited_when: "keeps_unlimited m \<Longrightarrow> keeps_unlimited (kg_when b m)"
  unfolding kg_when_def by (simp add: keeps_unlimited_basic)

lemma keeps_unlimited_each: "(\<And>x. keeps_unlimited (f x)) \<Longrightarrow> keeps_unlimited (kg_each f xs)"
  by (induction xs) (simp_all add: keeps_unlimited_basic keeps_unlimited_then)

lemma kg_total_swallow: "keeps_unlimited m \<Longrightarrow> kg_total (kg_swallow m)"
  unfolding kg_total_def keeps_unlimited_def kg_swallow_def
  by (auto split: prod.splits sum.splits) (metis snd_conv sumE)

section \<open>Triples about memory and disk\<close>

definition on :: "(kg_state \<Rightarrow> kg_state \<Rightarrow> bool) \<Rightarrow> kg_sys \<Rightarrow> bool" where
  "on P s = P (ks_mem s) (ks_disk s)"

lemma calls_free_on: "calls_free (on P)"
  by (simp add: calls_free_def on_def)

lemma on_read:
  assumes "\<And>x y. P x y \<Longrightarrow> X x y"
  shows "kg_triple (on P) (kg_read g) (\<lambda>v. on (\<lambda>x y. P x y \<and> v = g x)) (on X)"
proof (rule kg_conseq)
  show "kg_triple (on P) (kg_read g) (\<lambda>v s. on P s \<and> v = g (ks_mem s)) (on P)"
    by (rule kg_read_triple [OF calls_free_on])
qed (use assms in \<open>auto simp: on_def\<close>)

lemma on_write:
  assumes "\<And>x y. P x y \<Longrightarrow> Q (f x) y" and "\<And>x y. P x y \<Longrightarrow> X x y" and "\<And>x y. P x y \<Longrightarrow> X (f x) y"
  shows "kg_triple (on P) (kg_write F f) (\<lambda>_. on Q) (on X)"
  by (rule kg_write_triple [OF calls_free_on calls_free_on]) (use assms in \<open>auto simp: on_def\<close>)

lemma on_flush:
  assumes "\<And>x y. P x y \<Longrightarrow> Q x (copy C x y)" and "\<And>x y D. P x y \<Longrightarrow> X x (copy D x y)"
  shows "kg_triple (on P) (kg_flush F C) (\<lambda>_. on Q) (on X)"
  by (rule kg_flush_triple [OF calls_free_on calls_free_on]) (use assms in \<open>auto simp: on_def\<close>)

lemma on_return:
  "(\<And>x y. P x y \<Longrightarrow> Q v x y) \<Longrightarrow> kg_triple (on P) (kg_return v) (\<lambda>v. on (Q v)) X"
  by (rule kg_return_triple) (simp add: on_def)

lemma on_raise: "(\<And>x y. P x y \<Longrightarrow> X x y) \<Longrightarrow> kg_triple (on P) (kg_raise e) Q (on X)"
  by (rule kg_raise_triple) (simp add: on_def)

lemma on_pre: "kg_triple (on P') m Q X \<Longrightarrow> (\<And>x y. P x y \<Longrightarrow> P' x y) \<Longrightarrow> kg_triple (on P) m Q X"
  by (rule kg_pre [where P = "on P" and P' = "on P'"]) (auto simp: on_def)

lemma on_conseq:
  "kg_triple (on P') m (\<lambda>v. on (Q' v)) (on X') \<Longrightarrow> (\<And>x y. P x y \<Longrightarrow> P' x y) \<Longrightarrow> (\<And>v x y. Q' v x y \<Longrightarrow> Q v x y)
     \<Longrightarrow> (\<And>x y. X' x y \<Longrightarrow> X x y) \<Longrightarrow> kg_triple (on P) m (\<lambda>v. on (Q v)) (on X)"
  by (rule kg_conseq [where P = "on P" and P' = "on P'" and Q = "\<lambda>v. on (Q v)" and Q' = "\<lambda>v. on (Q' v)"
        and X = "on X" and X' = "on X'"]) (auto simp: on_def)

text \<open>A precondition that is false, or that says something of the value read, is used as a fact.\<close>

lemma on_fact: "(b \<Longrightarrow> kg_triple (on P) m Q X) \<Longrightarrow> kg_triple (on (\<lambda>x y. P x y \<and> b)) m Q X"
  by (cases b) (simp_all add: kg_triple_def on_def)

lemma copy_simps [simp]:
  "kg_status (copy P x y) = (if P C_Status then kg_status x else kg_status y)"
  "kg_full_entities (copy P x y) = (if P C_Full_Entities then kg_full_entities x else kg_full_entities y)"
  "kg_full_relations (copy P x y) = (if P C_Full_Relations then kg_full_relations x else kg_full_relations y)"
  "kg_nodes (copy P x y) = (if P C_Graph then kg_nodes x else kg_nodes y)"
  "kg_edges (copy P x y) = (if P C_Graph then kg_edges x else kg_edges y)"
  "kg_entity_chunks (copy P x y) = (if P C_Entity_Chunks then kg_entity_chunks x else kg_entity_chunks y)"
  "kg_relation_chunks (copy P x y) = (if P C_Relation_Chunks then kg_relation_chunks x else kg_relation_chunks y)"
  "kg_entity_vectors (copy P x y) = (if P C_Entity_Vectors then kg_entity_vectors x else kg_entity_vectors y)"
  "kg_relation_vectors (copy P x y) = (if P C_Relation_Vectors then kg_relation_vectors x else kg_relation_vectors y)"
  "kg_chunk_vectors (copy P x y) = (if P C_Chunk_Vectors then kg_chunk_vectors x else kg_chunk_vectors y)"
  "kg_text_chunks (copy P x y) = (if P C_Text_Chunks then kg_text_chunks x else kg_text_chunks y)"
  by (simp_all add: copy_def)

lemma copy_all: "copy (\<lambda>_. True) x y = x"
  by (simp add: copy_def)

end
