(* ===== verification/KgPurge.thy ===== *)
theory KgPurge
  imports KgState
begin

text \<open>
  The purge of a document's contributions to the knowledge graph, src/ontorag/ontorag.py, with the rebuild of
  what other documents still support, src/ontorag/operate.py. A purge finds what the document contributed
  from its recovery anchors, deletes them last, and keeps a journal in the document's status, so that an
  attempt that stops anywhere can be resumed. Descriptions, keywords, weights and file paths are left out:
  the model keeps which objects there are and which chunks they are attributed to. The cached extraction
  results are a parameter, which says for which chunks there are data about an object.
\<close>

datatype rebuild_item = Item_Entity pystr | Item_Relation "pystr \<times> pystr"

record purge_env =
  pe_fault :: fault
  pe_md5 :: "pystr \<Rightarrow> pystr"
  pe_upper :: "pystr \<Rightarrow> pystr"
  pe_limit_method :: "pystr option"
  pe_max_entity :: int
  pe_max_relation :: int
  pe_cached :: "pystr \<Rightarrow> bool"
  pe_entity_data :: "pystr \<Rightarrow> pystr \<Rightarrow> bool"
  pe_relation_data :: "pystr \<Rightarrow> pystr \<times> pystr \<Rightarrow> bool"
  pe_fails :: "rebuild_item \<Rightarrow> nat \<Rightarrow> bool"

section \<open>Ids\<close>

definition compute_mdhash_id :: "purge_env \<Rightarrow> pystr \<Rightarrow> pystr \<Rightarrow> pystr" where
  "compute_mdhash_id E content pre = pre @ pe_md5 E content"

definition make_kg_purge_operation_id :: "purge_env \<Rightarrow> pystr \<Rightarrow> pystr list \<Rightarrow> pystr" where
  "make_kg_purge_operation_id E doc_key chunk_ids =
     (let joined = py_join (lit ''|'') (sort (remdups chunk_ids))
      in compute_mdhash_id E (dec_digits (length doc_key) @ lit '':'' @ doc_key @ lit '':'' @ joined) (lit ''purge-''))"

definition relation_vector_ids :: "purge_env \<Rightarrow> (pystr \<times> pystr) list \<Rightarrow> pystr set" where
  "relation_vector_ids E pairs =
     (\<Union>(s, t) \<in> set pairs. {compute_mdhash_id E (s @ t) (lit ''rel-''), compute_mdhash_id E (t @ s) (lit ''rel-'')})"

section \<open>The proof that a purge may start\<close>

datatype proof_kind = By_Anchors | By_Pre_Graph | By_Journal | By_Empty_Scope

record recovery_proof =
  pr_kind :: "proof_kind option"
  pr_operation :: pystr
  pr_phase :: "purge_phase option"
  pr_missing :: "missing_reason option"
  pr_patch_entities :: "pystr list"
  pr_patch_relations :: "(pystr \<times> pystr) list"

definition phase_at_least :: "recovery_proof \<Rightarrow> purge_phase \<Rightarrow> bool" where
  "phase_at_least pf phase =
     (case pr_phase pf of None \<Rightarrow> False | Some p \<Rightarrow> phase_index phase \<le> phase_index p)"

fun patch_entity :: "jval \<Rightarrow> pystr option" where
  "patch_entity (JStr s) = (if s = [] then None else Some s)"
| "patch_entity _ = None"

fun patch_relation :: "jval \<Rightarrow> (pystr \<times> pystr) option" where
  "patch_relation (JArr [JStr a, JStr b]) = (if a = [] \<or> b = [] then None else Some (a, b))"
| "patch_relation _ = None"

definition patch_journal_candidates :: "status_row option \<Rightarrow> pystr list \<times> (pystr \<times> pystr) list" where
  "patch_journal_candidates status_doc =
     (case status_doc of
        None \<Rightarrow> ([], [])
      | Some row \<Rightarrow> (case st_patch row of
          None \<Rightarrow> ([], [])
        | Some journal \<Rightarrow> (List.map_filter patch_entity (pt_entity_names journal),
                          List.map_filter patch_relation (pt_relation_pairs journal))))"

definition anchor_names :: "'a anchor \<Rightarrow> 'a list" where
  "anchor_names a = (case a of Names xs \<Rightarrow> xs | _ \<Rightarrow> [])"

definition anchor_usable :: "'a anchor \<Rightarrow> bool" where
  "anchor_usable a = (case a of Names _ \<Rightarrow> True | _ \<Rightarrow> False)"

definition anchor_populated :: "'a anchor \<Rightarrow> bool" where
  "anchor_populated a = (case a of Names xs \<Rightarrow> xs \<noteq> [] | Unusable truth \<Rightarrow> truth | Absent \<Rightarrow> False)"

text \<open>The decision over the two anchor rows, once the journal gives no proof.\<close>

definition proof_from_rows ::
    "pystr list \<Rightarrow> write_state option \<Rightarrow> pystr anchor \<Rightarrow> (pystr \<times> pystr) anchor \<Rightarrow> proof_kind option \<times> missing_reason option" where
  "proof_from_rows chunk_ids write entities_row relations_row =
     (if anchor_usable entities_row \<and> anchor_usable relations_row
      then (if chunk_ids = [] \<and> (anchor_names entities_row \<noteq> [] \<or> anchor_names relations_row \<noteq> [])
            then (None, Some Chunkless_Contributions)
            else (Some By_Anchors, None))
      else if write = Some Pre_Graph then (Some By_Pre_Graph, None)
      else if chunk_ids = [] \<and> \<not> anchor_populated entities_row \<and> \<not> anchor_populated relations_row
      then (Some By_Empty_Scope, None)
      else (None, Some Missing_Anchor_Rows))"

text \<open>The phase the journal gives, or the refusal.\<close>

definition journal_phase :: "pystr \<Rightarrow> journal option \<Rightarrow> purge_error + purge_phase option" where
  "journal_phase operation_id journal =
     (case journal of
        None \<Rightarrow> Inr None
      | Some j \<Rightarrow>
          (if pj_operation j \<noteq> Some operation_id
           then (if pj_phase j = Some Completed then Inr None else Inl Operation_Conflict)
           else Inr (pj_phase j)))"

definition resolve_purge_recovery_proof :: "purge_env \<Rightarrow> pystr \<Rightarrow> pystr list \<Rightarrow> recovery_proof kgm" where
  "resolve_purge_recovery_proof E doc_id chunk_ids =
     kg_bind (kg_read kg_status) (\<lambda>status_doc.
       let operation_id = make_kg_purge_operation_id E doc_id chunk_ids;
           journal = (case status_doc of None \<Rightarrow> None | Some row \<Rightarrow> st_purge row);
           write = (case status_doc of None \<Rightarrow> None | Some row \<Rightarrow> st_write row);
           (patch_entities, patch_relations) = patch_journal_candidates status_doc
       in (case journal_phase operation_id journal of
             Inl e \<Rightarrow> kg_raise e
           | Inr phase \<Rightarrow>
               (let pf = \<lparr>pr_kind = None, pr_operation = operation_id, pr_phase = phase, pr_missing = None,
                          pr_patch_entities = patch_entities, pr_patch_relations = patch_relations\<rparr>
                in if phase \<noteq> None \<and> phase \<noteq> Some Prepared then kg_return (pf\<lparr>pr_kind := Some By_Journal\<rparr>)
                   else kg_bind (kg_read kg_full_entities) (\<lambda>entities_row.
                          kg_bind (kg_read kg_full_relations) (\<lambda>relations_row.
                            case proof_from_rows chunk_ids write entities_row relations_row of
                              (kind, missing) \<Rightarrow> kg_return (pf\<lparr>pr_kind := kind, pr_missing := missing\<rparr>))))))"

section \<open>The journal\<close>

definition write_kg_purge_phase :: "purge_env \<Rightarrow> purge_phase \<Rightarrow> pystr \<Rightarrow> unit kgm" where
  "write_kg_purge_phase E phase operation_id =
     kg_bind (kg_read kg_status) (\<lambda>status_doc.
       case status_doc of
         None \<Rightarrow> kg_raise Storage_Record_Not_Found
       | Some row \<Rightarrow>
           kg_then (kg_write (pe_fault E) (\<lambda>x. x\<lparr>kg_status :=
                      Some (row\<lparr>st_purge := Some \<lparr>pj_operation = Some operation_id, pj_phase = Some phase\<rparr>\<rparr>)\<rparr>))
                   (kg_flush (pe_fault E) (\<lambda>c. c = C_Status)))"

definition clear_kg_purge_journal :: "purge_env \<Rightarrow> unit kgm" where
  "clear_kg_purge_journal E =
     kg_bind (kg_read kg_status) (\<lambda>status_doc.
       case status_doc of
         None \<Rightarrow> kg_raise Storage_Record_Not_Found
       | Some row \<Rightarrow>
           kg_then (kg_write (pe_fault E) (\<lambda>x. x\<lparr>kg_status := Some (row\<lparr>st_purge := None\<rparr>)\<rparr>))
                   (kg_flush (pe_fault E) (\<lambda>c. c = C_Status)))"

section \<open>Classification\<close>

definition graph_sources :: "pystr \<Rightarrow> pystr list" where
  "graph_sources source_id = (if source_id = [] then [] else filter (\<lambda>c. c \<noteq> []) (split_text GRAPH_FIELD_SEP source_id))"

definition tracked_ids :: "('k, pystr list) odict \<Rightarrow> 'k \<Rightarrow> pystr list" where
  "tracked_ids rows k = filter (\<lambda>c. c \<noteq> []) (case map_of rows k of None \<Rightarrow> [] | Some ids \<Rightarrow> ids)"

definition existing_sources :: "pystr list \<Rightarrow> pystr list \<Rightarrow> pystr list" where
  "existing_sources tracked graph = (if tracked \<noteq> [] then tracked else graph)"

datatype verdict = Remove | Rebuild "pystr list" | Keep

definition classify :: "bool \<Rightarrow> pystr list \<Rightarrow> pystr list \<Rightarrow> pystr list \<Rightarrow> verdict" where
  "classify rollback chunk_ids tracked graph =
     (let existing = existing_sources tracked graph;
          remaining = subtract_source_ids existing chunk_ids;
          graph_references_deleted_chunks = graph \<noteq> [] \<and> set graph \<inter> set chunk_ids \<noteq> {}
      in if existing = [] \<or> remaining = [] then Remove
         else if remaining \<noteq> existing \<or> graph_references_deleted_chunks \<or> rollback then Rebuild remaining
         else Keep)"

record plan =
  pl_delete_entities :: "pystr list"
  pl_rebuild_entities :: "(pystr, pystr list) odict"
  pl_delete_relations :: "(pystr \<times> pystr) list"
  pl_rebuild_relations :: "(pystr \<times> pystr, pystr list) odict"

definition plan_entity :: "pystr \<Rightarrow> verdict \<Rightarrow> plan \<Rightarrow> plan" where
  "plan_entity label v pl =
     (case v of
        Remove \<Rightarrow> pl\<lparr>pl_delete_entities := add_ids [label] (pl_delete_entities pl)\<rparr>
      | Rebuild remaining \<Rightarrow> pl\<lparr>pl_rebuild_entities := od_set label remaining (pl_rebuild_entities pl)\<rparr>
      | Keep \<Rightarrow> pl)"

definition plan_relation :: "pystr \<times> pystr \<Rightarrow> verdict \<Rightarrow> plan \<Rightarrow> plan" where
  "plan_relation edge_tuple v pl =
     (case v of
        Remove \<Rightarrow> pl\<lparr>pl_delete_relations := add_ids [edge_tuple] (pl_delete_relations pl)\<rparr>
      | Rebuild remaining \<Rightarrow> pl\<lparr>pl_rebuild_relations := od_set edge_tuple remaining (pl_rebuild_relations pl)\<rparr>
      | Keep \<Rightarrow> pl)"

fun classify_nodes :: "bool \<Rightarrow> pystr list \<Rightarrow> node list \<Rightarrow> plan \<Rightarrow> plan kgm" where
  "classify_nodes rollback chunk_ids [] pl = kg_return pl"
| "classify_nodes rollback chunk_ids (d # ds) pl =
     (if nd_entity_id d = [] then classify_nodes rollback chunk_ids ds pl
      else kg_bind (kg_read (\<lambda>x. tracked_ids (kg_entity_chunks x) (nd_entity_id d))) (\<lambda>tracked.
             classify_nodes rollback chunk_ids ds
               (plan_entity (nd_entity_id d) (classify rollback chunk_ids tracked (graph_sources (nd_source d))) pl)))"

fun classify_edges :: "bool \<Rightarrow> pystr list \<Rightarrow> ((pystr \<times> pystr) \<times> edge) list \<Rightarrow> plan \<Rightarrow> plan kgm" where
  "classify_edges rollback chunk_ids [] pl = kg_return pl"
| "classify_edges rollback chunk_ids (((src, tgt), d) # ds) pl =
     (let edge_tuple = sorted_pair src tgt
      in if src = [] \<or> tgt = [] \<or> ed_source d = None
            \<or> edge_tuple \<in> set (pl_delete_relations pl) \<or> map_of (pl_rebuild_relations pl) edge_tuple \<noteq> None
         then classify_edges rollback chunk_ids ds pl
         else kg_bind (kg_read (\<lambda>x. tracked_ids (kg_relation_chunks x) (make_relation_chunk_key src tgt))) (\<lambda>tracked.
                classify_edges rollback chunk_ids ds
                  (plan_relation edge_tuple
                     (classify rollback chunk_ids tracked (graph_sources (the (ed_source d)))) pl)))"

section \<open>The candidates\<close>

text \<open>\<open>None\<close>: from the anchor row. The extras are appended when they are not there yet.\<close>

definition resolve_candidates ::
    "pystr list option \<Rightarrow> (pystr \<times> pystr) list option \<Rightarrow> pystr list \<Rightarrow> (pystr \<times> pystr) list
      \<Rightarrow> (pystr list \<times> (pystr \<times> pystr) list) kgm" where
  "resolve_candidates candidate_entities candidate_relations extra_entities extra_relations =
     kg_bind (case candidate_entities of
                Some names \<Rightarrow> kg_return names
              | None \<Rightarrow> kg_read (\<lambda>x. anchor_names (kg_full_entities x))) (\<lambda>entities.
       kg_bind (case candidate_relations of
                  Some pairs \<Rightarrow> kg_return pairs
                | None \<Rightarrow> kg_read (\<lambda>x. anchor_names (kg_full_relations x))) (\<lambda>relations.
         kg_return (add_ids extra_entities entities, add_ids extra_relations relations)))"

definition affected_nodes :: "pystr list \<Rightarrow> node list kgm" where
  "affected_nodes entities =
     (if entities = [] then kg_return []
      else kg_read (\<lambda>x. List.map_filter (map_of (kg_nodes x)) entities))"

definition affected_edges :: "(pystr \<times> pystr) list \<Rightarrow> ((pystr \<times> pystr) \<times> edge) list kgm" where
  "affected_edges relations =
     (if relations = [] then kg_return []
      else kg_read (\<lambda>x. List.map_filter
             (\<lambda>(s, t). map_option (\<lambda>d. ((s, t), d)) (map_of (kg_edges x) (sorted_pair s t))) relations))"

section \<open>Tracking and deletion\<close>

definition upsert_rows :: "('k \<times> pystr list) list \<Rightarrow> ('k, pystr list) odict \<Rightarrow> ('k, pystr list) odict" where
  "upsert_rows payload rows = fold (\<lambda>(k, ids). od_set k ids) payload rows"

definition delete_rows :: "'k list \<Rightarrow> ('k, 'v) odict \<Rightarrow> ('k, 'v) odict" where
  "delete_rows ks rows = filter (\<lambda>(k, _). k \<notin> set ks) rows"

definition relation_payload :: "(pystr \<times> pystr, pystr list) odict \<Rightarrow> (pystr \<times> pystr list) list" where
  "relation_payload updates =
     map (\<lambda>((a, b), remaining). (make_relation_chunk_key a b,
            filter (\<lambda>c. c \<notin> RELATION_NO_EVIDENCE_SOURCE_IDS) remaining)) updates"

definition update_chunk_tracking :: "purge_env \<Rightarrow> plan \<Rightarrow> unit kgm" where
  "update_chunk_tracking E pl =
     kg_then (kg_when (pl_rebuild_entities pl \<noteq> [])
                (kg_write (pe_fault E) (\<lambda>x. x\<lparr>kg_entity_chunks :=
                   upsert_rows (pl_rebuild_entities pl) (kg_entity_chunks x)\<rparr>)))
             (kg_when (pl_rebuild_relations pl \<noteq> [])
                (kg_write (pe_fault E) (\<lambda>x. x\<lparr>kg_relation_chunks :=
                   upsert_rows (relation_payload (pl_rebuild_relations pl)) (kg_relation_chunks x)\<rparr>)))"

definition chunk_keys :: "(pystr \<times> pystr) list \<Rightarrow> pystr list" where
  "chunk_keys pairs = map (\<lambda>(a, b). make_relation_chunk_key a b) pairs"

definition drop_relation_vectors :: "purge_env \<Rightarrow> (pystr \<times> pystr) list \<Rightarrow> kg_state \<Rightarrow> kg_state" where
  "drop_relation_vectors E pairs x = x\<lparr>kg_relation_vectors := kg_relation_vectors x - relation_vector_ids E pairs\<rparr>"

definition drop_relation_rows :: "(pystr \<times> pystr) list \<Rightarrow> kg_state \<Rightarrow> kg_state" where
  "drop_relation_rows pairs x = x\<lparr>kg_relation_chunks := delete_rows (chunk_keys pairs) (kg_relation_chunks x)\<rparr>"

definition remove_edges :: "(pystr \<times> pystr) list \<Rightarrow> kg_state \<Rightarrow> kg_state" where
  "remove_edges pairs x = x\<lparr>kg_edges := delete_rows pairs (kg_edges x)\<rparr>"

text \<open>The graph removes the edges of a node it removes.\<close>

definition touches :: "pystr list \<Rightarrow> pystr \<times> pystr \<Rightarrow> bool" where
  "touches names p \<longleftrightarrow> fst p \<in> set names \<or> snd p \<in> set names"

definition remove_nodes :: "pystr list \<Rightarrow> kg_state \<Rightarrow> kg_state" where
  "remove_nodes names x =
     x\<lparr>kg_nodes := delete_rows names (kg_nodes x), kg_edges := filter (\<lambda>(p, _). \<not> touches names p) (kg_edges x)\<rparr>"

definition delete_relationships :: "purge_env \<Rightarrow> (pystr \<times> pystr) list \<Rightarrow> unit kgm" where
  "delete_relationships E pairs =
     kg_then (kg_write (pe_fault E) (drop_relation_vectors E pairs))
       (kg_then (kg_write (pe_fault E) (remove_edges pairs))
          (kg_write (pe_fault E) (drop_relation_rows pairs)))"

definition delete_entities :: "purge_env \<Rightarrow> pystr list \<Rightarrow> unit kgm" where
  "delete_entities E names =
     kg_bind (kg_read (\<lambda>x. filter (touches names) (od_keys (kg_edges x)))) (\<lambda>edges_to_delete.
       kg_then
         (kg_when (edges_to_delete \<noteq> [])
            (kg_then (kg_write (pe_fault E) (drop_relation_vectors E edges_to_delete))
                     (kg_write (pe_fault E) (drop_relation_rows edges_to_delete))))
         (kg_then (kg_write (pe_fault E) (remove_nodes names))
            (kg_then (kg_write (pe_fault E) (\<lambda>x. x\<lparr>kg_entity_vectors :=
                        kg_entity_vectors x - (\<lambda>e. compute_mdhash_id E e (lit ''ent-'')) ` set names\<rparr>))
                     (kg_write (pe_fault E) (\<lambda>x. x\<lparr>kg_entity_chunks := delete_rows names (kg_entity_chunks x)\<rparr>)))))"

text \<open>\<open>_insert_done\<close> flushes every storage.\<close>

definition insert_done :: "purge_env \<Rightarrow> unit kgm" where
  "insert_done E = kg_flush (pe_fault E) (\<lambda>_. True)"

section \<open>The rebuild\<close>

definition guarded :: "bool \<Rightarrow> 'a kgm \<Rightarrow> 'a kgm" where
  "guarded fails m = (if fails then kg_raise Storage_Failure else m)"

definition update_entity_storage :: "purge_env \<Rightarrow> pystr \<Rightarrow> node \<Rightarrow> pystr list \<Rightarrow> unit kgm" where
  "update_entity_storage E name current source_chunk_ids =
     kg_then (guarded (pe_fails E (Item_Entity name) 3)
                (kg_write (pe_fault E) (\<lambda>x. x\<lparr>kg_nodes :=
                   od_set name (current\<lparr>nd_source := py_join GRAPH_FIELD_SEP source_chunk_ids\<rparr>) (kg_nodes x)\<rparr>)))
             (guarded (pe_fails E (Item_Entity name) 4)
                (kg_write (pe_fault E) (\<lambda>x. x\<lparr>kg_entity_vectors :=
                   insert (compute_mdhash_id E name (lit ''ent-'')) (kg_entity_vectors x)\<rparr>)))"

text \<open>The data of the chunks that the limit keeps, the structural fallback, or what the relations say.\<close>

definition refresh_entity :: "purge_env \<Rightarrow> bool \<Rightarrow> pystr \<Rightarrow> node \<Rightarrow> pystr list \<Rightarrow> unit kgm" where
  "refresh_entity E structural_fallback name current chunk_ids =
     (let limited = apply_source_ids_limit (pe_upper E) chunk_ids (pe_max_entity E) (pe_limit_method E);
          data = (\<exists>c \<in> set limited. pe_cached E c \<and> pe_entity_data E c name)
      in if data \<or> structural_fallback
         then guarded (pe_fails E (Item_Entity name) 2) (update_entity_storage E name current limited)
         else kg_bind (guarded (pe_fails E (Item_Entity name) 2)
                        (kg_read (\<lambda>x. filter (touches [name]) (od_keys (kg_edges x))))) (\<lambda>edges.
                if edges = [] then kg_return () else update_entity_storage E name current limited))"

definition rebuild_single_entity :: "purge_env \<Rightarrow> bool \<Rightarrow> pystr \<Rightarrow> pystr list \<Rightarrow> unit kgm" where
  "rebuild_single_entity E structural_fallback name chunk_ids =
     kg_bind (guarded (pe_fails E (Item_Entity name) 0) (kg_read (\<lambda>x. map_of (kg_nodes x) name))) (\<lambda>current.
       case current of
         None \<Rightarrow> kg_return ()
       | Some d \<Rightarrow>
           kg_then
             (kg_when (chunk_ids \<noteq> [])
                (guarded (pe_fails E (Item_Entity name) 1)
                   (kg_write (pe_fault E) (\<lambda>x. x\<lparr>kg_entity_chunks := od_set name chunk_ids (kg_entity_chunks x)\<rparr>))))
             (refresh_entity E structural_fallback name d chunk_ids))"

text \<open>A missing end of a rebuilt relation is created with the relation's sources.\<close>

definition ensure_endpoint :: "purge_env \<Rightarrow> (pystr \<times> pystr) \<Rightarrow> pystr list \<Rightarrow> pystr \<Rightarrow> unit kgm" where
  "ensure_endpoint E pair limited node_id =
     kg_bind (guarded (pe_fails E (Item_Relation pair) 2) (kg_read (\<lambda>x. map_of (kg_nodes x) node_id))) (\<lambda>found.
       kg_when (found = None)
         (kg_then (kg_write (pe_fault E) (\<lambda>x. x\<lparr>kg_nodes := od_set node_id
                     \<lparr>nd_entity_id = node_id, nd_source = py_join GRAPH_FIELD_SEP limited\<rparr> (kg_nodes x)\<rparr>))
            (kg_then
               (kg_when (limited \<noteq> [])
                  (kg_write (pe_fault E) (\<lambda>x. x\<lparr>kg_entity_chunks := od_set node_id limited (kg_entity_chunks x)\<rparr>)))
               (guarded (pe_fails E (Item_Relation pair) 3)
                  (kg_write (pe_fault E) (\<lambda>x. x\<lparr>kg_entity_vectors :=
                     insert (compute_mdhash_id E node_id (lit ''ent-'')) (kg_entity_vectors x)\<rparr>))))))"

definition update_relation_storage :: "purge_env \<Rightarrow> bool \<Rightarrow> pystr \<times> pystr \<Rightarrow> edge \<Rightarrow> pystr list \<Rightarrow> unit kgm" where
  "update_relation_storage E structural_fallback pair current limited =
     kg_then (kg_each (ensure_endpoint E pair limited) (add_ids [fst pair, snd pair] []))
       (kg_then (guarded (pe_fails E (Item_Relation pair) 4)
                   (kg_write (pe_fault E) (\<lambda>x. x\<lparr>kg_edges := od_set (sorted_pair (fst pair) (snd pair))
                      (current\<lparr>ed_source := Some (py_join GRAPH_FIELD_SEP limited)\<rparr>) (kg_edges x)\<rparr>)))
          (kg_then
             (if structural_fallback
              then kg_write (pe_fault E) (drop_relation_vectors E [pair])
              else kg_swallow (kg_write (pe_fault E) (drop_relation_vectors E [pair])))
             (guarded (pe_fails E (Item_Relation pair) 5)
                (kg_write (pe_fault E) (\<lambda>x. x\<lparr>kg_relation_vectors :=
                   insert (case sorted_pair (fst pair) (snd pair) of (a, b) \<Rightarrow>
                             compute_mdhash_id E (a @ b) (lit ''rel-''))
                     (kg_relation_vectors x)\<rparr>)))))"

definition rebuild_single_relationship :: "purge_env \<Rightarrow> bool \<Rightarrow> pystr \<times> pystr \<Rightarrow> pystr list \<Rightarrow> unit kgm" where
  "rebuild_single_relationship E structural_fallback pair chunk_ids =
     kg_bind (guarded (pe_fails E (Item_Relation pair) 0)
                (kg_read (\<lambda>x. map_of (kg_edges x) (sorted_pair (fst pair) (snd pair))))) (\<lambda>current.
       case current of
         None \<Rightarrow> kg_return ()
       | Some d \<Rightarrow>
           (let normalized = filter (\<lambda>c. c \<noteq> [] \<and> c \<notin> RELATION_NO_EVIDENCE_SOURCE_IDS) chunk_ids;
                limited = apply_source_ids_limit (pe_upper E) normalized (pe_max_relation E) (pe_limit_method E);
                data = (\<exists>c \<in> set limited. pe_cached E c
                          \<and> (pe_relation_data E c pair \<or> pe_relation_data E c (snd pair, fst pair)))
            in kg_then
                 (kg_when (chunk_ids \<noteq> [])
                    (guarded (pe_fails E (Item_Relation pair) 1)
                       (kg_write (pe_fault E) (\<lambda>x. x\<lparr>kg_relation_chunks :=
                          od_set (make_relation_chunk_key (fst pair) (snd pair)) normalized (kg_relation_chunks x)\<rparr>))))
                 (kg_when (data \<or> structural_fallback)
                    (update_relation_storage E structural_fallback pair d limited))))"

text \<open>
  The tasks run concurrently, each under the locks of its names; they write different rows, and the model runs
  them one after the other. Without the rollback policy the error of a task is logged and nothing more.
\<close>

definition rebuild_task :: "bool \<Rightarrow> unit kgm \<Rightarrow> unit kgm" where
  "rebuild_task rollback m = (if rollback then m else kg_swallow m)"

definition rebuild_knowledge_from_chunks ::
    "purge_env \<Rightarrow> bool \<Rightarrow> (pystr, pystr list) odict \<Rightarrow> (pystr \<times> pystr, pystr list) odict \<Rightarrow> unit kgm" where
  "rebuild_knowledge_from_chunks E rollback entities relations =
     (if entities = [] \<and> relations = [] then kg_return ()
      else kg_bind (kg_read (\<lambda>x. ()))
        (\<lambda>_. if (\<forall>c \<in> (\<Union>ids \<in> snd ` set entities \<union> snd ` set relations. set ids). \<not> pe_cached E c) \<and> \<not> rollback
             then kg_return ()
             else kg_then
               (kg_each (\<lambda>(name, ids). rebuild_task rollback (rebuild_single_entity E rollback name ids)) entities)
               (kg_each (\<lambda>(pair, ids). rebuild_task rollback (rebuild_single_relationship E rollback pair ids)) relations)))"

section \<open>The purge\<close>

definition apply_plan :: "purge_env \<Rightarrow> bool \<Rightarrow> plan \<Rightarrow> unit kgm" where
  "apply_plan E rollback pl =
     kg_then (kg_stage ''update_chunk_tracking'' (update_chunk_tracking E pl))
       (kg_then (kg_when (pl_delete_relations pl \<noteq> [])
                   (kg_stage ''delete_relationships'' (delete_relationships E (pl_delete_relations pl))))
          (kg_then (kg_when (pl_delete_entities pl \<noteq> [])
                      (kg_stage ''delete_entities'' (delete_entities E (pl_delete_entities pl))))
             (kg_then (kg_stage ''persist_pre_rebuild_changes'' (insert_done E))
                (kg_when (pl_rebuild_entities pl \<noteq> [] \<or> pl_rebuild_relations pl \<noteq> [])
                   (kg_then (kg_stage ''rebuild_knowledge_graph''
                               (rebuild_knowledge_from_chunks E rollback (pl_rebuild_entities pl) (pl_rebuild_relations pl)))
                            (kg_stage ''persist_rebuilt_knowledge'' (insert_done E)))))))"

definition empty_plan :: plan where
  "empty_plan = \<lparr>pl_delete_entities = [], pl_rebuild_entities = [], pl_delete_relations = [], pl_rebuild_relations = []\<rparr>"

definition purge_derived_kg_contributions ::
    "purge_env \<Rightarrow> pystr list \<Rightarrow> pystr list option \<Rightarrow> (pystr \<times> pystr) list option \<Rightarrow> pystr list \<Rightarrow> (pystr \<times> pystr) list
      \<Rightarrow> bool \<Rightarrow> unit kgm" where
  "purge_derived_kg_contributions E chunk_ids candidate_entities candidate_relations extra_entities extra_relations rollback =
     kg_bind (kg_stage ''analyze_graph_dependencies''
                (kg_bind (resolve_candidates candidate_entities candidate_relations extra_entities extra_relations)
                   (\<lambda>(entities, relations).
                      kg_bind (affected_nodes entities) (\<lambda>nodes.
                        kg_bind (affected_edges relations) (\<lambda>edges. kg_return (nodes, edges))))))
       (\<lambda>(nodes, edges).
          kg_bind (kg_stage ''update_chunk_tracking''
                     (kg_bind (classify_nodes rollback chunk_ids nodes empty_plan)
                        (classify_edges rollback chunk_ids edges)))
            (apply_plan E rollback))"

text \<open>The steps after the proof; \<open>pf\<close> is \<open>None\<close> in the mode that is not journaled.\<close>

definition purge_steps ::
    "purge_env \<Rightarrow> pystr list \<Rightarrow> recovery_proof option \<Rightarrow> pystr list option \<Rightarrow> (pystr \<times> pystr) list option
      \<Rightarrow> bool \<Rightarrow> bool \<Rightarrow> unit kgm" where
  "purge_steps E chunk_ids pf candidate_entities candidate_relations patch_only rollback =
     (let past = (\<lambda>phase. case pf of None \<Rightarrow> False | Some p \<Rightarrow> phase_at_least p phase);
          record = (\<lambda>phase. case pf of None \<Rightarrow> kg_return () | Some p \<Rightarrow> write_kg_purge_phase E phase (pr_operation p))
      in kg_then
           (kg_when (\<not> past Derived_Committed)
              (kg_then (purge_derived_kg_contributions E chunk_ids candidate_entities candidate_relations
                          (case pf of None \<Rightarrow> [] | Some p \<Rightarrow> pr_patch_entities p)
                          (case pf of None \<Rightarrow> [] | Some p \<Rightarrow> pr_patch_relations p) rollback)
                       (record Derived_Committed)))
           (kg_then
              (kg_when (chunk_ids \<noteq> [] \<and> \<not> past Anchors_Pending)
                 (kg_stage ''delete_chunks''
                    (kg_then (kg_write (pe_fault E) (\<lambda>x. x\<lparr>kg_chunk_vectors := kg_chunk_vectors x - set chunk_ids\<rparr>))
                       (kg_then (kg_write (pe_fault E) (\<lambda>x. x\<lparr>kg_text_chunks := kg_text_chunks x - set chunk_ids\<rparr>))
                          (kg_flush (pe_fault E) (\<lambda>c. c = C_Chunk_Vectors \<or> c = C_Text_Chunks))))))
              (kg_then
                 (kg_when (\<not> past Anchors_Pending) (record Anchors_Pending))
                 (kg_then
                    (kg_when (\<not> patch_only)
                       (kg_stage ''delete_doc_graph_metadata''
                          (kg_then (kg_write (pe_fault E) (\<lambda>x. x\<lparr>kg_full_entities := Absent\<rparr>))
                             (kg_then (kg_write (pe_fault E) (\<lambda>x. x\<lparr>kg_full_relations := Absent\<rparr>))
                                (kg_flush (pe_fault E) (\<lambda>c. c = C_Full_Entities \<or> c = C_Full_Relations))))))
                    (record Completed)))))"

definition purge_kg_contributions ::
    "purge_env \<Rightarrow> pystr \<Rightarrow> pystr list \<Rightarrow> pystr list option \<Rightarrow> (pystr \<times> pystr) list option \<Rightarrow> bool \<Rightarrow> bool \<Rightarrow> unit kgm" where
  "purge_kg_contributions E doc_id chunk_ids candidate_entities candidate_relations patch_only rollback =
     (if candidate_entities = None \<and> candidate_relations = None \<and> \<not> patch_only
      then kg_bind (resolve_purge_recovery_proof E doc_id chunk_ids) (\<lambda>pf.
             if phase_at_least pf Completed then kg_return ()
             else (case pr_kind pf of
                     None \<Rightarrow> kg_raise (Recovery_Anchor_Missing
                              (case pr_missing pf of None \<Rightarrow> Missing_Anchor_Rows | Some r \<Rightarrow> r))
                   | Some kind \<Rightarrow>
                       (let explicit = (kind = By_Pre_Graph \<or> kind = By_Empty_Scope)
                        in kg_then (kg_when (pr_phase pf = None) (write_kg_purge_phase E Prepared (pr_operation pf)))
                             (purge_steps E chunk_ids (Some pf) (if explicit then Some [] else None)
                                (if explicit then Some [] else None) patch_only rollback))))
      else if chunk_ids = [] then kg_return ()
      else purge_steps E chunk_ids None candidate_entities candidate_relations patch_only rollback)"

definition purge_doc_chunks_and_kg :: "purge_env \<Rightarrow> pystr \<Rightarrow> pystr list \<Rightarrow> unit kgm" where
  "purge_doc_chunks_and_kg E doc_id chunk_ids = purge_kg_contributions E doc_id chunk_ids None None False False"

end
