(* ===== verification/KgSources.thy ===== *)
theory KgSources
  imports KgPurge
begin

text \<open>
  What a purge has to establish of the objects its anchors name: an object is clean when its tracking row
  names no purged chunk and it is not attributed to purged chunks alone. Each write of the derived pass is
  shown to keep clean objects clean and the graph in shape, and the triples of \<open>KgState\<close> are specialised to
  writes that leave the status, the anchors and the chunks alone.
\<close>

section \<open>Objects and their sources\<close>

definition stranded :: "pystr set \<Rightarrow> pystr list \<Rightarrow> bool" where
  "stranded W l \<longleftrightarrow> l \<noteq> [] \<and> set l \<subseteq> W"

text \<open>\<open>W\<close> is the set of chunks the purge removes.\<close>

definition clean_entity :: "pystr set \<Rightarrow> kg_state \<Rightarrow> pystr \<Rightarrow> bool" where
  "clean_entity W x e \<longleftrightarrow>
     (\<forall>d. map_of (kg_nodes x) e = Some d \<longrightarrow>
        (let tracked = tracked_ids (kg_entity_chunks x) e
         in set tracked \<inter> W = {} \<and> \<not> stranded W (existing_sources tracked (graph_sources (nd_source d)))))"

definition relation_row :: "kg_state \<Rightarrow> pystr \<times> pystr \<Rightarrow> pystr list" where
  "relation_row x p = tracked_ids (kg_relation_chunks x) (make_relation_chunk_key (fst p) (snd p))"

definition clean_relation :: "pystr set \<Rightarrow> kg_state \<Rightarrow> pystr \<times> pystr \<Rightarrow> bool" where
  "clean_relation W x p \<longleftrightarrow>
     (\<forall>d source. map_of (kg_edges x) p = Some d \<and> ed_source d = Some source \<longrightarrow>
        set (relation_row x p) \<inter> W = {} \<and> \<not> stranded W (existing_sources (relation_row x p) (graph_sources source)))"

text \<open>The shape of the graph and of the relations' rows.\<close>

definition graph_wf :: "kg_state \<Rightarrow> bool" where
  "graph_wf x \<longleftrightarrow>
     (\<forall>n d. map_of (kg_nodes x) n = Some d \<longrightarrow> nd_entity_id d = n \<and> n \<noteq> [])
     \<and> (\<forall>a b d. map_of (kg_edges x) (a, b) = Some d \<longrightarrow>
          sorted_pair a b = (a, b) \<and> map_of (kg_nodes x) a \<noteq> None \<and> map_of (kg_nodes x) b \<noteq> None
          \<and> \<not> has_sep a \<and> \<not> has_sep b \<and> a \<noteq> [] \<and> b \<noteq> [])"

definition rows_wf :: "kg_state \<Rightarrow> bool" where
  "rows_wf x \<longleftrightarrow> (\<forall>k ids. map_of (kg_relation_chunks x) k = Some ids \<longrightarrow> set ids \<inter> RELATION_NO_EVIDENCE_SOURCE_IDS = {})"

definition kg_wf :: "kg_state \<Rightarrow> bool" where
  "kg_wf x \<longleftrightarrow> graph_wf x \<and> rows_wf x"

lemma graph_wf_node: "graph_wf x \<Longrightarrow> map_of (kg_nodes x) n = Some d \<Longrightarrow> nd_entity_id d = n \<and> n \<noteq> []"
  unfolding graph_wf_def by blast

lemma graph_wf_edge:
  assumes "graph_wf x" "map_of (kg_edges x) (a, b) = Some d"
  shows "sorted_pair a b = (a, b)" "map_of (kg_nodes x) a \<noteq> None" "map_of (kg_nodes x) b \<noteq> None"
    "\<not> has_sep a" "\<not> has_sep b" "a \<noteq> []" "b \<noteq> []"
  using assms unfolding graph_wf_def by blast+

text \<open>The objects that still wait: to be removed (\<open>DE\<close>, \<open>DR\<close>) or to have their row rewritten (\<open>KE\<close>, \<open>KR\<close>).\<close>

definition pend ::
    "pystr set \<Rightarrow> pystr set \<Rightarrow> (pystr \<times> pystr) set \<Rightarrow> pystr set \<Rightarrow> pystr set \<Rightarrow> (pystr \<times> pystr) set \<Rightarrow> (pystr \<times> pystr) set
      \<Rightarrow> kg_state \<Rightarrow> bool" where
  "pend W Es Ps DE KE DR KR x \<longleftrightarrow>
     (\<forall>e \<in> Es. e \<in> DE \<or> e \<in> KE \<or> clean_entity W x e) \<and> (\<forall>p \<in> Ps. p \<in> DR \<or> p \<in> KR \<or> clean_relation W x p)"

text \<open>A rebuilt relation whose ids are all placeholders keeps a source that stays.\<close>

definition loose :: "pystr set \<Rightarrow> kg_state \<Rightarrow> pystr \<times> pystr \<Rightarrow> bool" where
  "loose W x p \<longleftrightarrow> (\<forall>d source. map_of (kg_edges x) p = Some d \<and> ed_source d = Some source \<longrightarrow>
                     \<not> stranded W (graph_sources source))"

definition evidence :: "pystr list \<Rightarrow> pystr list" where
  "evidence ids = filter (\<lambda>c. c \<notin> RELATION_NO_EVIDENCE_SOURCE_IDS) ids"

definition good_ids :: "pystr set \<Rightarrow> pystr list \<Rightarrow> bool" where
  "good_ids W ids \<longleftrightarrow> ids \<noteq> [] \<and> set ids \<inter> W = {} \<and> [] \<notin> set ids"

section \<open>Single writes\<close>

lemma map_of_delete_rows [simp]:
  "map_of (delete_rows ks rows) k = (if k \<in> set ks then None else map_of rows k)"
  by (induction rows) (auto simp: delete_rows_def)

lemma map_of_filter_keys: "map_of (filter (\<lambda>(k, _). P k) rows) k = (if P k then map_of rows k else None)"
  by (induction rows) auto

lemma upsert_rows_other: "k \<notin> fst ` set payload \<Longrightarrow> map_of (upsert_rows payload rows) k = map_of rows k"
  unfolding upsert_rows_def by (induction payload arbitrary: rows) auto

lemma upsert_rows_get:
  "k \<in> fst ` set payload \<Longrightarrow> \<exists>ids. (k, ids) \<in> set payload \<and> map_of (upsert_rows payload rows) k = Some ids"
proof (induction payload arbitrary: rows)
  case (Cons q payload)
  obtain k' ids where q: "q = (k', ids)" by (cases q)
  show ?case
  proof (cases "k \<in> fst ` set payload")
    case True
    then show ?thesis using Cons.IH [of "od_set k' ids rows"] q by (auto simp: upsert_rows_def)
  next
    case False
    then have "k = k'" using Cons.prems q by auto
    then show ?thesis using upsert_rows_other [OF False, of "od_set k' ids rows"] q
      by (auto simp: upsert_rows_def)
  qed
qed simp

lemma tracked_ids_Some: "map_of rows k = Some ids \<Longrightarrow> [] \<notin> set ids \<Longrightarrow> tracked_ids rows k = ids"
  unfolding tracked_ids_def by (simp add: filter_id_conv) metis

text \<open>A row of good ids answers for its object.\<close>

lemma clean_entity_row:
  "tracked_ids (kg_entity_chunks x) e = ids \<Longrightarrow> good_ids W ids \<Longrightarrow> clean_entity W x e"
  by (cases ids) (auto simp: clean_entity_def good_ids_def stranded_def existing_sources_def Let_def)

lemma clean_relation_row:
  "relation_row x p = ids \<Longrightarrow> good_ids W ids \<Longrightarrow> clean_relation W x p"
  by (cases ids) (auto simp: clean_relation_def good_ids_def stranded_def existing_sources_def)

lemma clean_relation_empty_row: "relation_row x p = [] \<Longrightarrow> loose W x p \<Longrightarrow> clean_relation W x p"
  unfolding clean_relation_def loose_def existing_sources_def by auto

lemma clean_entity_gone: "map_of (kg_nodes x) e = None \<Longrightarrow> clean_entity W x e"
  by (simp add: clean_entity_def)

lemma clean_relation_gone: "map_of (kg_edges x) p = None \<Longrightarrow> clean_relation W x p"
  by (simp add: clean_relation_def)

lemma clean_entity_cong:
  "map_of (kg_nodes x') e = map_of (kg_nodes x) e \<Longrightarrow> map_of (kg_entity_chunks x') e = map_of (kg_entity_chunks x) e
     \<Longrightarrow> clean_entity W x' e = clean_entity W x e"
  by (simp add: clean_entity_def tracked_ids_def)

lemma clean_relation_cong:
  assumes "map_of (kg_edges x') p = map_of (kg_edges x) p"
    and "map_of (kg_relation_chunks x') (make_relation_chunk_key (fst p) (snd p))
       = map_of (kg_relation_chunks x) (make_relation_chunk_key (fst p) (snd p))"
  shows "clean_relation W x' p = clean_relation W x p"
  using assms by (simp add: clean_relation_def relation_row_def tracked_ids_def)

text \<open>Different edges of the graph have different keys.\<close>

definition keyed :: "pystr \<times> pystr \<Rightarrow> bool" where
  "keyed p \<longleftrightarrow> sorted_pair (fst p) (snd p) = p \<and> \<not> has_sep (fst p) \<and> \<not> has_sep (snd p)"

lemma keyed_edge: "graph_wf x \<Longrightarrow> map_of (kg_edges x) p = Some d \<Longrightarrow> keyed p"
  unfolding keyed_def using graph_wf_edge [of x "fst p" "snd p" d] by simp

lemma key_injective:
  assumes "keyed p" "keyed q"
    and "make_relation_chunk_key (fst p) (snd p) = make_relation_chunk_key (fst q) (snd q)"
  shows "p = q"
  using relation_key_injective [of "fst p" "snd p" "fst q" "snd q"] assms unfolding keyed_def by metis

section \<open>What each write does to the waiting objects\<close>

lemma pend_cong:
  "kg_nodes x' = kg_nodes x \<Longrightarrow> kg_edges x' = kg_edges x \<Longrightarrow> kg_entity_chunks x' = kg_entity_chunks x
     \<Longrightarrow> kg_relation_chunks x' = kg_relation_chunks x \<Longrightarrow> pend W Es Ps DE KE DR KR x' = pend W Es Ps DE KE DR KR x"
  by (simp add: pend_def clean_entity_def clean_relation_def relation_row_def)

lemma pend_weaken:
  "pend W Es Ps DE KE DR KR x \<Longrightarrow> DE \<subseteq> DE' \<Longrightarrow> KE \<subseteq> KE' \<Longrightarrow> DR \<subseteq> DR' \<Longrightarrow> KR \<subseteq> KR' \<Longrightarrow> pend W Es Ps DE' KE' DR' KR' x"
  unfolding pend_def by blast

text \<open>How a write carries \<open>pend\<close> over: object by object.\<close>

lemma pend_step:
  assumes "pend W Es Ps DE KE DR KR x"
    and "\<And>e. e \<in> DE \<Longrightarrow> e \<in> DE' \<or> clean_entity W x' e" "\<And>e. e \<in> KE \<Longrightarrow> e \<in> DE' \<or> e \<in> KE' \<or> clean_entity W x' e"
    and "\<And>e. clean_entity W x e \<Longrightarrow> e \<in> DE' \<or> clean_entity W x' e"
    and "\<And>p. p \<in> DR \<Longrightarrow> p \<in> DR' \<or> clean_relation W x' p" "\<And>p. p \<in> KR \<Longrightarrow> p \<in> DR' \<or> p \<in> KR' \<or> clean_relation W x' p"
    and "\<And>p. clean_relation W x p \<Longrightarrow> p \<in> DR' \<or> clean_relation W x' p"
  shows "pend W Es Ps DE' KE' DR' KR' x'"
  using assms unfolding pend_def by metis

lemma pend_track_entities:
  assumes "pend W Es Ps DE KE DR KR x" and "\<forall>(e, ids) \<in> set payload. good_ids W ids"
  shows "pend W Es Ps DE (KE - fst ` set payload) DR KR
           (x\<lparr>kg_entity_chunks := upsert_rows payload (kg_entity_chunks x)\<rparr>)" (is "pend _ _ _ _ _ _ _ ?x")
proof -
  have row: "clean_entity W ?x e" if e: "e \<in> fst ` set payload" for e
  proof -
    obtain ids where "(e, ids) \<in> set payload" "map_of (kg_entity_chunks ?x) e = Some ids"
      using upsert_rows_get [OF e, of "kg_entity_chunks x"] by auto
    moreover from this assms(2) have "good_ids W ids" by auto
    ultimately show ?thesis
      using clean_entity_row [of ?x e ids W] tracked_ids_Some [of "kg_entity_chunks ?x" e ids] by (simp add: good_ids_def)
  qed
  have other: "clean_entity W ?x e = clean_entity W x e" if "e \<notin> fst ` set payload" for e
    by (rule clean_entity_cong) (simp_all add: upsert_rows_other [OF that])
  have rel: "clean_relation W ?x p = clean_relation W x p" for p by (rule clean_relation_cong) simp_all
  have e: "clean_entity W ?x e" if "e \<in> fst ` set payload \<or> clean_entity W x e" for e
    using row [of e] other [of e] that by blast
  have p: "clean_relation W ?x p" if "clean_relation W x p" for p using rel [of p] that by blast
  show ?thesis by (rule pend_step [OF assms(1)]) (blast intro: e p)+
qed

lemma evidence_good: "good_ids W ids \<Longrightarrow> evidence ids \<noteq> [] \<Longrightarrow> good_ids W (evidence ids)"
  by (auto simp: good_ids_def evidence_def)

lemma relation_row_upd:
  "relation_row (x\<lparr>kg_relation_chunks := rows\<rparr>) p = tracked_ids rows (make_relation_chunk_key (fst p) (snd p))"
  by (simp add: relation_row_def)

lemma loose_cong: "kg_edges x' = kg_edges x \<Longrightarrow> loose W x' p = loose W x p"
  by (simp add: loose_def)

text \<open>A rebuilt relation: good ids under a key of its own, and a source that stays when no evidence is left.\<close>

definition rebuildable :: "pystr set \<Rightarrow> kg_state \<Rightarrow> pystr \<times> pystr \<Rightarrow> pystr list \<Rightarrow> bool" where
  "rebuildable W x p ids \<longleftrightarrow> keyed p \<and> good_ids W ids \<and> (evidence ids = [] \<longrightarrow> loose W x p)"

lemma evidence_row_clean:
  assumes "rebuildable W x p ids" and "kg_edges x' = kg_edges x" and "relation_row x' p = evidence ids"
  shows "clean_relation W x' p"
proof (cases "evidence ids = []")
  case True
  then have "loose W x' p" using assms(1,2) loose_cong [of x' x W p] by (simp add: rebuildable_def)
  then show ?thesis using clean_relation_empty_row assms(3) True by simp
next
  case False
  then show ?thesis using clean_relation_row [OF assms(3)] evidence_good assms(1) by (simp add: rebuildable_def)
qed

lemma pend_track_relations:
  assumes "pend W Es Ps DE KE DR KR x" and "graph_wf x" and r: "\<forall>(p, ids) \<in> set rs. rebuildable W x p ids"
  shows "pend W Es Ps DE KE DR (KR - fst ` set rs)
           (x\<lparr>kg_relation_chunks := upsert_rows (relation_payload rs) (kg_relation_chunks x)\<rparr>)" (is "pend _ _ _ _ _ _ _ ?x")
proof -
  have keys: "q \<in> fst ` set (relation_payload rs) \<longleftrightarrow> (\<exists>p \<in> fst ` set rs. q = make_relation_chunk_key (fst p) (snd p))" for q
    by (auto simp: relation_payload_def image_iff split_beta)
  have row: "clean_relation W ?x p" if p: "p \<in> fst ` set rs" for p
  proof -
    let ?k = "make_relation_chunk_key (fst p) (snd p)"
    have "?k \<in> fst ` set (relation_payload rs)" using p keys by blast
    from upsert_rows_get [OF this, of "kg_relation_chunks x"]
    obtain ids where i: "(?k, ids) \<in> set (relation_payload rs)"
      "map_of (upsert_rows (relation_payload rs) (kg_relation_chunks x)) ?k = Some ids" by blast
    then obtain q js where q: "(q, js) \<in> set rs" "?k = make_relation_chunk_key (fst q) (snd q)" "ids = evidence js"
      by (auto simp: relation_payload_def evidence_def)
    have R: "rebuildable W x q js" using r q(1) by auto
    have "keyed p" using p r by (auto simp: rebuildable_def)
    with R q(2) have "p = q" using key_injective by (simp add: rebuildable_def)
    have "[] \<notin> set ids" using R q(3) by (auto simp: rebuildable_def good_ids_def evidence_def)
    then have "relation_row ?x p = ids"
      using i(2) tracked_ids_Some by (simp add: relation_row_upd)
    then show ?thesis using evidence_row_clean [OF R, of ?x] q(3) \<open>p = q\<close> by simp
  qed
  have other: "clean_relation W ?x p" if "p \<notin> fst ` set rs" "clean_relation W x p" for p
  proof (cases "map_of (kg_edges x) p")
    case None
    then show ?thesis by (simp add: clean_relation_gone)
  next
    case (Some d)
    have "make_relation_chunk_key (fst p) (snd p) \<notin> fst ` set (relation_payload rs)"
    proof
      assume "make_relation_chunk_key (fst p) (snd p) \<in> fst ` set (relation_payload rs)"
      then obtain q where "q \<in> fst ` set rs" "make_relation_chunk_key (fst p) (snd p) = make_relation_chunk_key (fst q) (snd q)"
        using keys by blast
      moreover have "keyed q" using \<open>q \<in> fst ` set rs\<close> r by (auto simp: rebuildable_def)
      ultimately show False using key_injective [OF keyed_edge [OF assms(2) Some]] that(1) by auto
    qed
    then have "clean_relation W ?x p = clean_relation W x p"
      by (intro clean_relation_cong) (simp_all add: upsert_rows_other)
    with that(2) show ?thesis by simp
  qed
  have ent: "clean_entity W ?x e = clean_entity W x e" for e by (rule clean_entity_cong) simp_all
  have p: "clean_relation W ?x p" if "p \<in> fst ` set rs \<or> clean_relation W x p" for p
    using row [of p] other [of p] that by blast
  have e: "clean_entity W ?x e" if "clean_entity W x e" for e using ent [of e] that by blast
  show ?thesis by (rule pend_step [OF assms(1)]) (blast intro: e p)+
qed

lemma pend_remove_edges:
  assumes "pend W Es Ps DE KE DR KR x"
  shows "pend W Es Ps DE KE (DR - set pairs) KR (remove_edges pairs x)"
proof -
  have "clean_relation W (remove_edges pairs x) p" if "p \<in> set pairs \<or> clean_relation W x p" for p
    using that by (cases "p \<in> set pairs") (auto simp: clean_relation_def remove_edges_def relation_row_def)
  moreover have "clean_entity W (remove_edges pairs x) e = clean_entity W x e" for e
    by (rule clean_entity_cong) (simp_all add: remove_edges_def)
  ultimately show ?thesis by (intro pend_step [OF assms]) auto
qed

lemma pend_drop_rows:
  assumes "pend W Es Ps DE KE DR KR x" and "graph_wf x"
    and "\<forall>p \<in> set pairs. keyed p" "\<forall>p \<in> set pairs. p \<in> DR \<or> map_of (kg_edges x) p = None"
  shows "pend W Es Ps DE KE DR KR (drop_relation_rows pairs x)"
proof -
  have c: "p \<in> DR \<or> clean_relation W (drop_relation_rows pairs x) p" if "clean_relation W x p" for p
  proof (cases "map_of (kg_edges x) p = None \<or> p \<in> DR")
    case True
    then show ?thesis by (auto simp: clean_relation_gone drop_relation_rows_def)
  next
    case False
    then obtain d where d: "map_of (kg_edges x) p = Some d" "p \<notin> set pairs" using assms(4) by auto
    have "make_relation_chunk_key (fst p) (snd p) \<notin> set (chunk_keys pairs)"
      using key_injective [OF keyed_edge [OF assms(2) d(1)]] assms(3) d(2) by (auto simp: chunk_keys_def)
    then have "clean_relation W (drop_relation_rows pairs x) p = clean_relation W x p"
      by (intro clean_relation_cong) (simp_all add: drop_relation_rows_def)
    with that show ?thesis by simp
  qed
  have "clean_entity W (drop_relation_rows pairs x) e = clean_entity W x e" for e
    by (rule clean_entity_cong) (simp_all add: drop_relation_rows_def)
  with c show ?thesis by (intro pend_step [OF assms(1)]) auto
qed

lemma pend_remove_nodes:
  assumes "pend W Es Ps DE KE DR KR x"
  shows "pend W Es Ps (DE - set names) KE (DR - {p. touches names p}) KR (remove_nodes names x)"
proof -
  have "map_of (kg_edges (remove_nodes names x)) p = (if touches names p then None else map_of (kg_edges x) p)" for p
    by (simp add: remove_nodes_def map_of_filter_keys)
  then have r: "clean_relation W (remove_nodes names x) p" if "touches names p \<or> clean_relation W x p" for p
    using that by (cases "touches names p") (auto simp: clean_relation_def relation_row_def remove_nodes_def)
  have e: "clean_entity W (remove_nodes names x) e" if "e \<in> set names \<or> clean_entity W x e" for e
    using that by (cases "e \<in> set names") (auto simp: clean_entity_def remove_nodes_def)
  from r e show ?thesis by (intro pend_step [OF assms]) auto
qed

lemma pend_drop_entity_rows:
  assumes "pend W Es Ps DE KE DR KR x" and "\<forall>n \<in> set names. map_of (kg_nodes x) n = None"
  shows "pend W Es Ps DE KE DR KR (x\<lparr>kg_entity_chunks := delete_rows names (kg_entity_chunks x)\<rparr>)" (is "pend _ _ _ _ _ _ _ ?x")
proof -
  have e: "clean_entity W ?x e" if "clean_entity W x e" for e
    using that assms(2) by (cases "e \<in> set names") (auto simp: clean_entity_def tracked_ids_def)
  have "clean_relation W ?x p = clean_relation W x p" for p by (rule clean_relation_cong) simp_all
  with e show ?thesis by (intro pend_step [OF assms(1)]) auto
qed

section \<open>The shape is kept\<close>

lemma graph_wf_cong: "kg_nodes x' = kg_nodes x \<Longrightarrow> kg_edges x' = kg_edges x \<Longrightarrow> graph_wf x' = graph_wf x"
  by (simp add: graph_wf_def)

lemma rows_wf_cong: "kg_relation_chunks x' = kg_relation_chunks x \<Longrightarrow> rows_wf x' = rows_wf x"
  by (simp add: rows_wf_def)

lemma kg_wf_cong:
  "kg_nodes x' = kg_nodes x \<Longrightarrow> kg_edges x' = kg_edges x \<Longrightarrow> kg_relation_chunks x' = kg_relation_chunks x
     \<Longrightarrow> kg_wf x \<Longrightarrow> kg_wf x'"
  using graph_wf_cong rows_wf_cong by (metis kg_wf_def)

lemma kg_wf_copy: "kg_wf x \<Longrightarrow> kg_wf y \<Longrightarrow> kg_wf (copy P x y)"
  unfolding kg_wf_def graph_wf_def rows_wf_def by (cases "P C_Graph"; cases "P C_Relation_Chunks") simp_all

lemma rows_wf_upsert:
  assumes "rows_wf x" and "\<forall>(k, ids) \<in> set payload. set ids \<inter> RELATION_NO_EVIDENCE_SOURCE_IDS = {}"
  shows "rows_wf (x\<lparr>kg_relation_chunks := upsert_rows payload (kg_relation_chunks x)\<rparr>)"
proof -
  have "set ids \<inter> RELATION_NO_EVIDENCE_SOURCE_IDS = {}"
    if "map_of (upsert_rows payload (kg_relation_chunks x)) k = Some ids" for k ids
  proof (cases "k \<in> fst ` set payload")
    case True
    from upsert_rows_get [OF this, of "kg_relation_chunks x"] that assms(2) show ?thesis by auto
  next
    case False
    from upsert_rows_other [OF this] that assms(1) show ?thesis by (metis rows_wf_def)
  qed
  then show ?thesis unfolding rows_wf_def by (simp del: disjoint_iff)
qed

lemma relation_payload_evidence:
  "\<forall>(k, ids) \<in> set (relation_payload rs). set ids \<inter> RELATION_NO_EVIDENCE_SOURCE_IDS = {}"
  by (auto simp: relation_payload_def)

text \<open>Fewer edges, the ends of which stay.\<close>

lemma kg_wf_sub:
  assumes "kg_wf x" and "rows_wf x'"
    and "\<And>n d. map_of (kg_nodes x') n = Some d \<Longrightarrow> \<exists>d'. map_of (kg_nodes x) n = Some d' \<and> nd_entity_id d = nd_entity_id d'"
    and "\<And>p d. map_of (kg_edges x') p = Some d \<Longrightarrow> map_of (kg_edges x) p \<noteq> None"
    and "\<And>p d n. map_of (kg_edges x') p = Some d \<Longrightarrow> n = fst p \<or> n = snd p \<Longrightarrow> map_of (kg_nodes x) n \<noteq> None
           \<Longrightarrow> map_of (kg_nodes x') n \<noteq> None"
  shows "kg_wf x'"
proof -
  have g: "graph_wf x" using assms(1) by (simp add: kg_wf_def)
  have "nd_entity_id d = n \<and> n \<noteq> []" if "map_of (kg_nodes x') n = Some d" for n d
    using assms(3) [OF that] graph_wf_node [OF g] by metis
  moreover have "sorted_pair a b = (a, b) \<and> map_of (kg_nodes x') a \<noteq> None \<and> map_of (kg_nodes x') b \<noteq> None
      \<and> \<not> has_sep a \<and> \<not> has_sep b \<and> a \<noteq> [] \<and> b \<noteq> []" if e: "map_of (kg_edges x') (a, b) = Some d" for a b d
  proof -
    obtain d' where d': "map_of (kg_edges x) (a, b) = Some d'" using assms(4) [OF e] by blast
    note E = graph_wf_edge [OF g d']
    show ?thesis using E assms(5) [OF e, of a] assms(5) [OF e, of b] by simp
  qed
  ultimately have "graph_wf x'" unfolding graph_wf_def by blast
  with assms(2) show ?thesis by (simp add: kg_wf_def)
qed

lemma kg_wf_track_relations:
  "kg_wf x \<Longrightarrow> kg_wf (x\<lparr>kg_relation_chunks := upsert_rows (relation_payload rs) (kg_relation_chunks x)\<rparr>)"
  by (rule kg_wf_sub [of x], assumption, rule rows_wf_upsert [OF _ relation_payload_evidence])
    (auto simp: kg_wf_def)

lemma kg_wf_remove_edges: "kg_wf x \<Longrightarrow> kg_wf (remove_edges pairs x)"
  by (rule kg_wf_sub) (auto simp: kg_wf_def rows_wf_def remove_edges_def split: if_splits)

lemma kg_wf_drop_rows: "kg_wf x \<Longrightarrow> kg_wf (drop_relation_rows pairs x)"
  by (rule kg_wf_sub) (auto simp: kg_wf_def rows_wf_def drop_relation_rows_def split: if_splits)

lemma kg_wf_remove_nodes: "kg_wf x \<Longrightarrow> kg_wf (remove_nodes names x)"
  by (rule kg_wf_sub)
    (auto simp: kg_wf_def rows_wf_def remove_nodes_def map_of_filter_keys touches_def split: if_splits)

lemma kg_wf_node:
  "kg_wf x \<Longrightarrow> map_of (kg_nodes x) n = Some d \<Longrightarrow> kg_wf (x\<lparr>kg_nodes := od_set n (d\<lparr>nd_source := s\<rparr>) (kg_nodes x)\<rparr>)"
  by (rule kg_wf_sub) (auto simp: kg_wf_def rows_wf_def split: if_splits)

lemma kg_wf_edge:
  "kg_wf x \<Longrightarrow> map_of (kg_edges x) p = Some d \<Longrightarrow> kg_wf (x\<lparr>kg_edges := od_set p (d\<lparr>ed_source := s\<rparr>) (kg_edges x)\<rparr>)"
  by (rule kg_wf_sub) (auto simp: kg_wf_def rows_wf_def split: if_splits)

lemma kg_wf_relation_row:
  "kg_wf x \<Longrightarrow> set ids \<inter> RELATION_NO_EVIDENCE_SOURCE_IDS = {}
     \<Longrightarrow> kg_wf (x\<lparr>kg_relation_chunks := od_set k ids (kg_relation_chunks x)\<rparr>)"
  by (rule kg_wf_sub) (auto simp: kg_wf_def rows_wf_def split: if_splits)

section \<open>Triples for the derived pass\<close>

text \<open>The derived pass leaves the status, the anchors and the chunks as they are in \<open>z\<close>.\<close>

definition same_frame :: "kg_state \<Rightarrow> kg_state \<Rightarrow> bool" where
  "same_frame z x \<longleftrightarrow> kg_status x = kg_status z \<and> kg_full_entities x = kg_full_entities z
     \<and> kg_full_relations x = kg_full_relations z \<and> kg_chunk_vectors x = kg_chunk_vectors z
     \<and> kg_text_chunks x = kg_text_chunks z"

definition framed :: "kg_state \<Rightarrow> kg_state \<Rightarrow> kg_state \<Rightarrow> bool" where
  "framed z x y \<longleftrightarrow> same_frame z x \<and> same_frame z y \<and> kg_wf x \<and> kg_wf y"

lemma framed_copy: "framed z x y \<Longrightarrow> framed z x (copy P x y)"
  unfolding framed_def using kg_wf_copy by (auto simp: same_frame_def)

definition dtr ::
    "kg_state \<Rightarrow> (kg_state \<Rightarrow> bool) \<Rightarrow> 'a kgm \<Rightarrow> ('a \<Rightarrow> kg_state \<Rightarrow> bool) \<Rightarrow> (kg_state \<Rightarrow> bool) \<Rightarrow> bool" where
  "dtr z P m Q R \<longleftrightarrow> kg_triple (on (\<lambda>x y. framed z x y \<and> P x)) m (\<lambda>v. on (\<lambda>x y. framed z x y \<and> Q v x))
                     (on (\<lambda>x y. framed z x y \<and> R x))"

lemma dtr_conseq:
  "dtr z P' m Q' R' \<Longrightarrow> (\<And>x. kg_wf x \<Longrightarrow> P x \<Longrightarrow> P' x) \<Longrightarrow> (\<And>v x. kg_wf x \<Longrightarrow> Q' v x \<Longrightarrow> Q v x)
     \<Longrightarrow> (\<And>x. R' x \<Longrightarrow> R x) \<Longrightarrow> dtr z P m Q R"
  unfolding dtr_def by (erule on_conseq) (auto simp: framed_def)

lemma dtr_pre: "dtr z P' m Q R \<Longrightarrow> (\<And>x. kg_wf x \<Longrightarrow> P x \<Longrightarrow> P' x) \<Longrightarrow> dtr z P m Q R"
  by (erule dtr_conseq)

lemma dtr_bind: "dtr z P m S R \<Longrightarrow> (\<And>v. dtr z (S v) (f v) Q R) \<Longrightarrow> dtr z P (kg_bind m f) Q R"
  unfolding dtr_def by (rule kg_bind_triple)

lemma dtr_then: "dtr z P m (\<lambda>_. S) R \<Longrightarrow> dtr z S n Q R \<Longrightarrow> dtr z P (kg_then m n) Q R"
  unfolding kg_then_def by (rule dtr_bind)

lemma dtr_return: "(\<And>x. kg_wf x \<Longrightarrow> P x \<Longrightarrow> Q v x) \<Longrightarrow> dtr z P (kg_return v) Q R"
  unfolding dtr_def by (rule on_return) (auto simp: framed_def)

lemma dtr_raise: "(\<And>x. kg_wf x \<Longrightarrow> P x \<Longrightarrow> R x) \<Longrightarrow> dtr z P (kg_raise e) Q R"
  unfolding dtr_def by (rule on_raise) (auto simp: framed_def)

lemma dtr_when:
  "(b \<Longrightarrow> dtr z P m (\<lambda>_. Q) R) \<Longrightarrow> (\<And>x. \<not> b \<Longrightarrow> kg_wf x \<Longrightarrow> P x \<Longrightarrow> Q x) \<Longrightarrow> dtr z P (kg_when b m) (\<lambda>_. Q) R"
  unfolding kg_when_def by (cases b) (auto intro: dtr_return)

lemma dtr_stage: "dtr z P m Q R \<Longrightarrow> dtr z P (kg_stage n m) Q R"
  unfolding dtr_def by (rule kg_stage_triple)

lemma dtr_swallow: "dtr z P m (\<lambda>_. Q) Q \<Longrightarrow> dtr z P (kg_swallow m) (\<lambda>_. Q) R"
  unfolding dtr_def by (rule kg_swallow_triple)

lemma dtr_each: "(\<And>v. v \<in> set vs \<Longrightarrow> dtr z P (f v) (\<lambda>_. P) R) \<Longrightarrow> dtr z P (kg_each f vs) (\<lambda>_. P) R"
  unfolding dtr_def by (rule kg_each_triple)

lemma dtr_read:
  "(\<And>x. kg_wf x \<Longrightarrow> P x \<Longrightarrow> R x) \<Longrightarrow> dtr z P (kg_read g) (\<lambda>v x. P x \<and> v = g x) R"
  unfolding dtr_def by (rule on_conseq [OF on_read [where X = "\<lambda>x y. framed z x y \<and> R x"]]) (auto simp: framed_def)

lemma dtr_write:
  assumes "\<And>x. same_frame z (f x) = same_frame z x" and "\<And>x. kg_wf x \<Longrightarrow> P x \<Longrightarrow> kg_wf (f x)"
    and "\<And>x. kg_wf x \<Longrightarrow> P x \<Longrightarrow> Q (f x)" and "\<And>x. kg_wf x \<Longrightarrow> P x \<Longrightarrow> R x" and "\<And>x. Q x \<Longrightarrow> R x"
  shows "dtr z P (kg_write F f) (\<lambda>_. Q) R"
  unfolding dtr_def by (rule on_write) (use assms in \<open>auto simp: framed_def\<close>)

lemma dtr_flush: "(\<And>x. kg_wf x \<Longrightarrow> P x \<Longrightarrow> R x) \<Longrightarrow> dtr z P (kg_flush F C) (\<lambda>_. P) R"
  unfolding dtr_def
proof (rule on_flush, goal_cases)
  case (1 x y)
  then show ?case using framed_copy by blast
next
  case (2 x y D)
  then have "R x" by (simp add: framed_def)
  with 2 show ?case using framed_copy by blast
qed

lemma dtr_guarded: "dtr z P m Q R \<Longrightarrow> (\<And>x. kg_wf x \<Longrightarrow> P x \<Longrightarrow> R x) \<Longrightarrow> dtr z P (guarded b m) Q R"
  unfolding guarded_def by (cases b) (auto intro: dtr_raise)

lemma dtr_fact: "(b \<Longrightarrow> dtr z P m Q R) \<Longrightarrow> dtr z (\<lambda>x. P x \<and> b) m Q R"
  unfolding dtr_def by (cases b) (simp_all add: kg_triple_def on_def)

end
