(* ===== verification/KgDerived.thy ===== *)
theory KgDerived
  imports KgSources
begin

text \<open>
  The derived pass of a purge, steps 1 to 6: when it returns, every object the anchors name is clean, in
  memory and on disk; when it fails, the status, the anchors and the chunks are as they were.
\<close>

section \<open>The plan\<close>

lemma classify_cases:
  assumes "classify rollback C tracked graph = v" and "[] \<notin> set tracked" "[] \<notin> set graph"
  shows "v = Keep \<Longrightarrow> set tracked \<inter> set C = {} \<and> \<not> stranded (set C) (existing_sources tracked graph)"
    and "v = Rebuild ids \<Longrightarrow> good_ids (set C) ids"
    and "v = Rebuild ids \<Longrightarrow> set ids \<subseteq> set (existing_sources tracked graph)"
proof -
  let ?e = "existing_sources tracked graph"
  have r: "subtract_source_ids ?e C = filter (\<lambda>s. s \<noteq> [] \<and> s \<notin> set C) ?e" by (rule subtract_exact)
  note d = assms(1) [unfolded classify_def Let_def r, symmetric]
  show "v = Keep \<Longrightarrow> set tracked \<inter> set C = {} \<and> \<not> stranded (set C) ?e"
  proof -
    assume "v = Keep"
    with d have k: "?e \<noteq> []" "filter (\<lambda>s. s \<noteq> [] \<and> s \<notin> set C) ?e = ?e"
      by (auto split: if_splits)
    have dis: "set ?e \<inter> set C = {}"
      using k(2) unfolding filter_id_conv by blast
    then have "set tracked \<inter> set C = {}" by (auto simp: existing_sources_def split: if_splits)
    moreover have "\<not> stranded (set C) ?e" using dis k(1) by (cases ?e) (auto simp: stranded_def)
    ultimately show ?thesis ..
  qed
  show "v = Rebuild ids \<Longrightarrow> good_ids (set C) ids"
    using d by (auto simp: good_ids_def split: if_splits)
  show "v = Rebuild ids \<Longrightarrow> set ids \<subseteq> set ?e"
    using d by (auto split: if_splits)
qed

lemma graph_sources_nonempty: "[] \<notin> set (graph_sources s)"
  by (simp add: graph_sources_def)

lemma tracked_ids_nonempty: "[] \<notin> set (tracked_ids rows k)"
  by (simp add: tracked_ids_def)

text \<open>The classification only reads: what it returns is a function of the state.\<close>

definition node_verdict :: "bool \<Rightarrow> pystr list \<Rightarrow> kg_state \<Rightarrow> node \<Rightarrow> verdict" where
  "node_verdict rollback C x d =
     classify rollback C (tracked_ids (kg_entity_chunks x) (nd_entity_id d)) (graph_sources (nd_source d))"

fun plan_nodes :: "bool \<Rightarrow> pystr list \<Rightarrow> kg_state \<Rightarrow> node list \<Rightarrow> plan \<Rightarrow> plan" where
  "plan_nodes rollback C x [] pl = pl"
| "plan_nodes rollback C x (d # ds) pl =
     plan_nodes rollback C x ds
       (if nd_entity_id d = [] then pl else plan_entity (nd_entity_id d) (node_verdict rollback C x d) pl)"

definition edge_verdict :: "bool \<Rightarrow> pystr list \<Rightarrow> kg_state \<Rightarrow> pystr \<times> pystr \<Rightarrow> edge \<Rightarrow> verdict" where
  "edge_verdict rollback C x p d =
     classify rollback C (tracked_ids (kg_relation_chunks x) (make_relation_chunk_key (fst p) (snd p)))
       (graph_sources (the (ed_source d)))"

fun plan_edges :: "bool \<Rightarrow> pystr list \<Rightarrow> kg_state \<Rightarrow> ((pystr \<times> pystr) \<times> edge) list \<Rightarrow> plan \<Rightarrow> plan" where
  "plan_edges rollback C x [] pl = pl"
| "plan_edges rollback C x ((p, d) # ds) pl =
     plan_edges rollback C x ds
       (if fst p = [] \<or> snd p = [] \<or> ed_source d = None
           \<or> sorted_pair (fst p) (snd p) \<in> set (pl_delete_relations pl)
           \<or> map_of (pl_rebuild_relations pl) (sorted_pair (fst p) (snd p)) \<noteq> None
        then pl else plan_relation (sorted_pair (fst p) (snd p)) (edge_verdict rollback C x p d) pl)"

lemma classify_nodes_triple:
  "dtr z P (classify_nodes rollback C ds pl) (\<lambda>pl' x. P x \<and> pl' = plan_nodes rollback C x ds pl) P"
proof (induction ds arbitrary: pl P)
  case Nil
  show ?case by (auto intro: dtr_return)
next
  case (Cons d ds)
  show ?case
  proof (cases "nd_entity_id d = []")
    case True
    then show ?thesis using Cons.IH [of P pl] by simp
  next
    case False
    have "dtr z P (kg_bind (kg_read (\<lambda>x. tracked_ids (kg_entity_chunks x) (nd_entity_id d)))
        (\<lambda>tracked. classify_nodes rollback C ds
           (plan_entity (nd_entity_id d) (classify rollback C tracked (graph_sources (nd_source d))) pl)))
      (\<lambda>pl' x. P x \<and> pl' = plan_nodes rollback C x (d # ds) pl) P"
    proof (rule dtr_bind [OF dtr_read])
      fix v
      show "dtr z (\<lambda>x. P x \<and> v = tracked_ids (kg_entity_chunks x) (nd_entity_id d))
        (classify_nodes rollback C ds
           (plan_entity (nd_entity_id d) (classify rollback C v (graph_sources (nd_source d))) pl))
        (\<lambda>pl' x. P x \<and> pl' = plan_nodes rollback C x (d # ds) pl) P"
        by (rule dtr_conseq [OF Cons.IH [of "\<lambda>x. P x \<and> v = tracked_ids (kg_entity_chunks x) (nd_entity_id d)"]])
          (auto simp: False node_verdict_def)
    qed
    then show ?thesis using False by simp
  qed
qed

lemma key_sorted_pair: "make_relation_chunk_key (fst p) (snd p) = make_relation_chunk_key s t"
  if "p = sorted_pair s t"
proof -
  have "sorted_pair (fst p) (snd p) = sorted_pair s t"
    using that by (cases s t rule: linorder_cases) (auto simp: sorted_pair_def dest: less_asym)
  then show ?thesis by (simp add: make_relation_chunk_key_def)
qed

lemma classify_edges_triple:
  "dtr z P (classify_edges rollback C ds pl) (\<lambda>pl' x. P x \<and> pl' = plan_edges rollback C x ds pl) P"
proof (induction ds arbitrary: pl P)
  case Nil
  show ?case by (auto intro: dtr_return)
next
  case (Cons q ds)
  obtain s t d where q: "q = ((s, t), d)" by (cases q) auto
  let ?p = "sorted_pair s t"
  show ?case
  proof (cases "s = [] \<or> t = [] \<or> ed_source d = None \<or> ?p \<in> set (pl_delete_relations pl)
      \<or> map_of (pl_rebuild_relations pl) ?p \<noteq> None")
    case True
    then show ?thesis using Cons.IH [of P pl] q by (simp del: not_None_eq add: Let_def)
  next
    case False
    let ?read = "\<lambda>x. tracked_ids (kg_relation_chunks x) (make_relation_chunk_key s t)"
    have "dtr z P (kg_bind (kg_read ?read)
        (\<lambda>tracked. classify_edges rollback C ds
           (plan_relation ?p (classify rollback C tracked (graph_sources (the (ed_source d)))) pl)))
      (\<lambda>pl' x. P x \<and> pl' = plan_edges rollback C x (q # ds) pl) P"
    proof (rule dtr_bind [OF dtr_read])
      fix v
      show "dtr z (\<lambda>x. P x \<and> v = ?read x)
        (classify_edges rollback C ds (plan_relation ?p (classify rollback C v (graph_sources (the (ed_source d)))) pl))
        (\<lambda>pl' x. P x \<and> pl' = plan_edges rollback C x (q # ds) pl) P"
        by (rule dtr_conseq [OF Cons.IH [of "\<lambda>x. P x \<and> v = ?read x"]])
          (use False q in \<open>auto simp del: not_None_eq simp: edge_verdict_def\<close>)
    qed
    then show ?thesis using False q by (simp del: not_None_eq add: Let_def)
  qed
qed

text \<open>What a plan has settled: its removals, its rewritten rows, and the objects that are clean already.\<close>

definition plan_ok :: "pystr set \<Rightarrow> kg_state \<Rightarrow> plan \<Rightarrow> bool" where
  "plan_ok W x pl \<longleftrightarrow>
     (\<forall>(e, ids) \<in> set (pl_rebuild_entities pl). good_ids W ids)
     \<and> (\<forall>p \<in> set (pl_delete_relations pl). keyed p)
     \<and> (\<forall>(p, ids) \<in> set (pl_rebuild_relations pl). rebuildable W x p ids)
     \<and> od_wf (pl_rebuild_relations pl)"

definition entity_settled :: "pystr set \<Rightarrow> kg_state \<Rightarrow> plan \<Rightarrow> pystr \<Rightarrow> bool" where
  "entity_settled W x pl e \<longleftrightarrow>
     e \<in> set (pl_delete_entities pl) \<or> e \<in> fst ` set (pl_rebuild_entities pl) \<or> clean_entity W x e"

definition relation_settled :: "pystr set \<Rightarrow> kg_state \<Rightarrow> plan \<Rightarrow> pystr \<times> pystr \<Rightarrow> bool" where
  "relation_settled W x pl p \<longleftrightarrow>
     p \<in> set (pl_delete_relations pl) \<or> p \<in> fst ` set (pl_rebuild_relations pl) \<or> clean_relation W x p"

lemma set_od_set: "set (od_set k v d) \<subseteq> insert (k, v) (set d)"
  by (induction d) auto

lemma keys_od_set: "fst ` set (od_set k v d) = insert k (fst ` set d)"
  by (induction d) auto

lemma in_keys_iff: "k \<in> fst ` set d \<longleftrightarrow> map_of d k \<noteq> None"
  by (simp add: map_of_eq_None_iff del: not_None_eq)

lemma plan_entity_settled:
  assumes "map_of (kg_nodes x) e = Some d" "nd_entity_id d = e"
  shows "entity_settled (set C) x (plan_entity e (node_verdict rb C x d) pl) e"
proof (cases "node_verdict rb C x d")
  case Keep
  then have "set (tracked_ids (kg_entity_chunks x) e) \<inter> set C = {}
      \<and> \<not> stranded (set C) (existing_sources (tracked_ids (kg_entity_chunks x) e) (graph_sources (nd_source d)))"
    using classify_cases(1) [OF _ tracked_ids_nonempty graph_sources_nonempty] assms(2)
    by (simp add: node_verdict_def)
  then have "clean_entity (set C) x e" using assms(1) by (simp add: clean_entity_def)
  then show ?thesis using Keep by (simp add: entity_settled_def plan_entity_def)
next
  case (Rebuild ids)
  then show ?thesis by (simp add: entity_settled_def plan_entity_def keys_od_set)
qed (simp add: entity_settled_def plan_entity_def)

lemma plan_entity_mono:
  "entity_settled W x pl e \<Longrightarrow> entity_settled W x (plan_entity l v pl) e"
  by (cases v) (auto simp: entity_settled_def plan_entity_def keys_od_set)

lemma plan_entity_relations [simp]:
  "pl_delete_relations (plan_entity l v pl) = pl_delete_relations pl"
  "pl_rebuild_relations (plan_entity l v pl) = pl_rebuild_relations pl"
  by (cases v; simp add: plan_entity_def)+

lemma plan_entity_ok:
  assumes "plan_ok (set C) x pl"
  shows "plan_ok (set C) x (plan_entity l (node_verdict rb C x d) pl)"
proof (cases "node_verdict rb C x d")
  case (Rebuild ids)
  then have "good_ids (set C) ids"
    using classify_cases(2) [OF _ tracked_ids_nonempty graph_sources_nonempty] by (simp add: node_verdict_def)
  moreover have "set (od_set l ids (pl_rebuild_entities pl)) \<subseteq> insert (l, ids) (set (pl_rebuild_entities pl))"
    by (rule set_od_set)
  ultimately have "\<forall>(e, ids') \<in> set (od_set l ids (pl_rebuild_entities pl)). good_ids (set C) ids'"
    using assms unfolding plan_ok_def by blast
  then show ?thesis using assms Rebuild by (simp add: plan_ok_def plan_entity_def)
qed (use assms in \<open>simp_all add: plan_ok_def plan_entity_def\<close>)

lemma plan_nodes_spec:
  assumes "graph_wf x" and "\<forall>d \<in> set ds. map_of (kg_nodes x) (nd_entity_id d) = Some d"
    and "plan_ok (set C) x pl"
  shows "plan_ok (set C) x (plan_nodes rb C x ds pl)
    \<and> (\<forall>d \<in> set ds. entity_settled (set C) x (plan_nodes rb C x ds pl) (nd_entity_id d))
    \<and> (\<forall>e. entity_settled (set C) x pl e \<longrightarrow> entity_settled (set C) x (plan_nodes rb C x ds pl) e)
    \<and> pl_delete_relations (plan_nodes rb C x ds pl) = pl_delete_relations pl
    \<and> pl_rebuild_relations (plan_nodes rb C x ds pl) = pl_rebuild_relations pl"
  using assms(2,3)
proof (induction ds arbitrary: pl)
  case (Cons d ds)
  let ?e = "nd_entity_id d"
  let ?pl = "plan_entity ?e (node_verdict rb C x d) pl"
  have d: "map_of (kg_nodes x) ?e = Some d" using Cons.prems(1) by simp
  then have ne: "?e \<noteq> []" using graph_wf_node [OF assms(1)] by blast
  have I: "plan_ok (set C) x (plan_nodes rb C x ds ?pl)
    \<and> (\<forall>d \<in> set ds. entity_settled (set C) x (plan_nodes rb C x ds ?pl) (nd_entity_id d))
    \<and> (\<forall>e. entity_settled (set C) x ?pl e \<longrightarrow> entity_settled (set C) x (plan_nodes rb C x ds ?pl) e)
    \<and> pl_delete_relations (plan_nodes rb C x ds ?pl) = pl_delete_relations ?pl
    \<and> pl_rebuild_relations (plan_nodes rb C x ds ?pl) = pl_rebuild_relations ?pl"
    by (rule Cons.IH) (use Cons.prems plan_entity_ok in auto)
  moreover have "entity_settled (set C) x ?pl ?e" by (rule plan_entity_settled [OF d refl])
  moreover have "entity_settled (set C) x ?pl e" if "entity_settled (set C) x pl e" for e
    by (rule plan_entity_mono [OF that])
  ultimately show ?case using ne by (simp del: split_paired_All)
qed simp

lemma plan_relation_settled:
  assumes "map_of (kg_edges x) p = Some d" "ed_source d = Some source"
  shows "relation_settled (set C) x (plan_relation p (edge_verdict rb C x p d) pl) p"
proof (cases "edge_verdict rb C x p d")
  case Keep
  then have "set (relation_row x p) \<inter> set C = {}
      \<and> \<not> stranded (set C) (existing_sources (relation_row x p) (graph_sources source))"
    using classify_cases(1) [OF _ tracked_ids_nonempty graph_sources_nonempty] assms(2)
    by (simp add: edge_verdict_def relation_row_def)
  then have "clean_relation (set C) x p" using assms by (simp add: clean_relation_def)
  then show ?thesis using Keep by (simp add: relation_settled_def plan_relation_def)
next
  case (Rebuild ids)
  then show ?thesis by (simp add: relation_settled_def plan_relation_def keys_od_set)
qed (simp add: relation_settled_def plan_relation_def)

lemma plan_relation_mono:
  "relation_settled W x pl q \<Longrightarrow> relation_settled W x (plan_relation p v pl) q"
  by (cases v) (auto simp: relation_settled_def plan_relation_def keys_od_set)

lemma plan_relation_entities [simp]:
  "pl_delete_entities (plan_relation p v pl) = pl_delete_entities pl"
  "pl_rebuild_entities (plan_relation p v pl) = pl_rebuild_entities pl"
  by (cases v; simp add: plan_relation_def)+

lemma tracked_no_placeholder:
  assumes "rows_wf x"
  shows "set (tracked_ids (kg_relation_chunks x) k) \<inter> RELATION_NO_EVIDENCE_SOURCE_IDS = {}"
proof (cases "map_of (kg_relation_chunks x) k")
  case (Some ids)
  then have "set ids \<inter> RELATION_NO_EVIDENCE_SOURCE_IDS = {}" using assms by (metis rows_wf_def)
  then show ?thesis using Some by (auto simp: tracked_ids_def)
qed (simp add: tracked_ids_def)

lemma verdict_rebuildable:
  assumes "kg_wf x" and "map_of (kg_edges x) p = Some d" "ed_source d = Some source"
    and v: "edge_verdict rb C x p d = Rebuild ids"
  shows "rebuildable (set C) x p ids"
proof -
  let ?t = "tracked_ids (kg_relation_chunks x) (make_relation_chunk_key (fst p) (snd p))"
  note V = v [unfolded edge_verdict_def]
  have g: "good_ids (set C) ids"
    using classify_cases(2) [OF V tracked_ids_nonempty graph_sources_nonempty] by simp
  have s: "set ids \<subseteq> set (existing_sources ?t (graph_sources source))"
    using classify_cases(3) [OF V tracked_ids_nonempty graph_sources_nonempty] assms(3) by simp
  have "loose (set C) x p" if "evidence ids = []"
  proof -
    obtain c where c: "c \<in> set ids" "c \<notin> set C" using g by (cases ids) (auto simp: good_ids_def)
    then have "c \<in> RELATION_NO_EVIDENCE_SOURCE_IDS" using that by (auto simp: evidence_def filter_empty_conv)
    then have "c \<notin> set ?t" using tracked_no_placeholder [of x] assms(1) by (auto simp: kg_wf_def)
    then have "c \<in> set (graph_sources source)" using c(1) s by (auto simp: existing_sources_def split: if_splits)
    then show ?thesis using c(2) assms(2,3) by (auto simp: loose_def stranded_def)
  qed
  then show ?thesis using g keyed_edge [OF _ assms(2)] assms(1) by (simp add: rebuildable_def kg_wf_def)
qed

lemma plan_relation_ok:
  assumes "kg_wf x" and "plan_ok (set C) x pl" and "map_of (kg_edges x) p = Some d" "ed_source d = Some source"
  shows "plan_ok (set C) x (plan_relation p (edge_verdict rb C x p d) pl)"
proof (cases "edge_verdict rb C x p d")
  case (Rebuild ids)
  have "rebuildable (set C) x p ids" by (rule verdict_rebuildable [OF assms(1,3,4) Rebuild])
  moreover have "set (od_set p ids (pl_rebuild_relations pl)) \<subseteq> insert (p, ids) (set (pl_rebuild_relations pl))"
    by (rule set_od_set)
  ultimately have "\<forall>(q, js) \<in> set (od_set p ids (pl_rebuild_relations pl)). rebuildable (set C) x q js"
    using assms(2) unfolding plan_ok_def by blast
  then show ?thesis using assms(2) Rebuild by (simp add: plan_ok_def plan_relation_def)
next
  case Remove
  then show ?thesis using assms keyed_edge [OF _ assms(3)]
    by (auto simp: plan_ok_def plan_relation_def kg_wf_def)
qed (use assms in \<open>simp add: plan_ok_def plan_relation_def\<close>)

lemma plan_edges_spec:
  assumes "kg_wf x" and "\<forall>(p, d) \<in> set ds. map_of (kg_edges x) (sorted_pair (fst p) (snd p)) = Some d"
    and "plan_ok (set C) x pl"
  shows "plan_ok (set C) x (plan_edges rb C x ds pl)
    \<and> (\<forall>(p, d) \<in> set ds. relation_settled (set C) x (plan_edges rb C x ds pl) (sorted_pair (fst p) (snd p)))
    \<and> (\<forall>q. relation_settled (set C) x pl q \<longrightarrow> relation_settled (set C) x (plan_edges rb C x ds pl) q)
    \<and> pl_delete_entities (plan_edges rb C x ds pl) = pl_delete_entities pl
    \<and> pl_rebuild_entities (plan_edges rb C x ds pl) = pl_rebuild_entities pl"
  using assms(2,3)
proof (induction ds arbitrary: pl)
  case (Cons r ds)
  obtain p d where r: "r = (p, d)" by (cases r)
  let ?q = "sorted_pair (fst p) (snd p)"
  let ?skip = "fst p = [] \<or> snd p = [] \<or> ed_source d = None \<or> ?q \<in> set (pl_delete_relations pl)
      \<or> map_of (pl_rebuild_relations pl) ?q \<noteq> None"
  let ?pl = "if ?skip then pl else plan_relation ?q (edge_verdict rb C x p d) pl"
  have d: "map_of (kg_edges x) ?q = Some d" using Cons.prems(1) r by simp
  have v: "edge_verdict rb C x p d = edge_verdict rb C x ?q d"
    using key_sorted_pair [OF refl, of "fst p" "snd p"] by (simp add: edge_verdict_def)
  have ne: "fst p \<noteq> []" "snd p \<noteq> []"
    using graph_wf_edge(6,7) [of x "fst ?q" "snd ?q" d] assms(1) d
    by (cases "snd p < fst p"; simp add: kg_wf_def sorted_pair_def)+
  have ok: "plan_ok (set C) x ?pl"
  proof (cases ?skip)
    case False
    then obtain s where "ed_source d = Some s" by (cases "ed_source d") auto
    then show ?thesis using plan_relation_ok [OF assms(1) Cons.prems(2) d] False v by simp
  qed (use Cons.prems(2) in simp)
  have settled: "relation_settled (set C) x ?pl ?q"
  proof (cases ?skip)
    case True
    then have "ed_source d = None \<or> ?q \<in> set (pl_delete_relations pl) \<or> ?q \<in> fst ` set (pl_rebuild_relations pl)"
      using ne in_keys_iff [of ?q "pl_rebuild_relations pl"] by blast
    then have "relation_settled (set C) x pl ?q"
      using d by (auto simp: relation_settled_def clean_relation_def)
    then show ?thesis using True by simp
  next
    case False
    then obtain s where "ed_source d = Some s" by (cases "ed_source d") auto
    then show ?thesis using plan_relation_settled [OF d] False v by simp
  qed
  have mono: "relation_settled (set C) x ?pl q" if "relation_settled (set C) x pl q" for q
    using that plan_relation_mono by (cases ?skip) simp_all
  have I: "plan_ok (set C) x (plan_edges rb C x ds ?pl)
    \<and> (\<forall>(p, d) \<in> set ds. relation_settled (set C) x (plan_edges rb C x ds ?pl) (sorted_pair (fst p) (snd p)))
    \<and> (\<forall>q. relation_settled (set C) x ?pl q \<longrightarrow> relation_settled (set C) x (plan_edges rb C x ds ?pl) q)
    \<and> pl_delete_entities (plan_edges rb C x ds ?pl) = pl_delete_entities ?pl
    \<and> pl_rebuild_entities (plan_edges rb C x ds ?pl) = pl_rebuild_entities ?pl"
    by (rule Cons.IH) (use Cons.prems ok in auto)
  have e: "plan_edges rb C x (r # ds) pl = plan_edges rb C x ds ?pl" by (simp add: r)
  have keep: "pl_delete_entities ?pl = pl_delete_entities pl" "pl_rebuild_entities ?pl = pl_rebuild_entities pl"
    by (cases ?skip; simp)+
  show ?case unfolding e using I settled mono keep r by (simp del: split_paired_All)
qed simp

section \<open>Applying the plan\<close>

lemma same_frame_updates [simp]:
  "same_frame z (x\<lparr>kg_entity_chunks := r\<rparr>) = same_frame z x" "same_frame z (x\<lparr>kg_relation_chunks := q\<rparr>) = same_frame z x"
  "same_frame z (x\<lparr>kg_nodes := n\<rparr>) = same_frame z x" "same_frame z (x\<lparr>kg_edges := g\<rparr>) = same_frame z x"
  "same_frame z (x\<lparr>kg_entity_vectors := v\<rparr>) = same_frame z x" "same_frame z (x\<lparr>kg_relation_vectors := v\<rparr>) = same_frame z x"
  "same_frame z (drop_relation_vectors E ps x) = same_frame z x" "same_frame z (drop_relation_rows ps x) = same_frame z x"
  "same_frame z (remove_edges ps x) = same_frame z x" "same_frame z (remove_nodes ns x) = same_frame z x"
  by (simp_all add: same_frame_def drop_relation_vectors_def drop_relation_rows_def remove_edges_def remove_nodes_def)

definition all_rebuildable :: "pystr set \<Rightarrow> (pystr \<times> pystr, pystr list) odict \<Rightarrow> kg_state \<Rightarrow> bool" where
  "all_rebuildable W rs x \<longleftrightarrow> (\<forall>(p, ids) \<in> set rs. rebuildable W x p ids)"

lemma loose_fewer:
  "loose W x p \<Longrightarrow> map_of (kg_edges x') p = None \<or> map_of (kg_edges x') p = map_of (kg_edges x) p \<Longrightarrow> loose W x' p"
  by (auto simp: loose_def)

lemma all_rebuildable_fewer:
  "all_rebuildable W rs x \<Longrightarrow> (\<And>p. map_of (kg_edges x') p = None \<or> map_of (kg_edges x') p = map_of (kg_edges x) p)
     \<Longrightarrow> all_rebuildable W rs x'"
  unfolding all_rebuildable_def rebuildable_def using loose_fewer [of W x _ x'] by blast

lemma all_rebuildable_cong: "kg_edges x' = kg_edges x \<Longrightarrow> all_rebuildable W rs x' = all_rebuildable W rs x"
proof -
  assume "kg_edges x' = kg_edges x"
  then have "loose W x' p = loose W x p" for p by (rule loose_cong)
  then show ?thesis by (simp add: all_rebuildable_def rebuildable_def)
qed

lemma all_rebuildable_updates [simp]:
  "all_rebuildable W rs (x\<lparr>kg_entity_chunks := r\<rparr>) = all_rebuildable W rs x"
  "all_rebuildable W rs (x\<lparr>kg_relation_chunks := q\<rparr>) = all_rebuildable W rs x"
  "all_rebuildable W rs (x\<lparr>kg_nodes := n\<rparr>) = all_rebuildable W rs x"
  "all_rebuildable W rs (drop_relation_rows ps x) = all_rebuildable W rs x"
  by (rule all_rebuildable_cong; simp add: drop_relation_rows_def)+

text \<open>The state of the pass: what waits, and that the relations to rebuild can be.\<close>

definition passing ::
    "pystr set \<Rightarrow> pystr set \<Rightarrow> (pystr \<times> pystr) set \<Rightarrow> (pystr \<times> pystr, pystr list) odict
      \<Rightarrow> pystr set \<Rightarrow> pystr set \<Rightarrow> (pystr \<times> pystr) set \<Rightarrow> (pystr \<times> pystr) set \<Rightarrow> kg_state \<Rightarrow> bool" where
  "passing W Es Ps rs DE KE DR KR x \<longleftrightarrow> pend W Es Ps DE KE DR KR x \<and> all_rebuildable W rs x"

lemma passing_cong:
  "kg_nodes x' = kg_nodes x \<Longrightarrow> kg_edges x' = kg_edges x \<Longrightarrow> kg_entity_chunks x' = kg_entity_chunks x
     \<Longrightarrow> kg_relation_chunks x' = kg_relation_chunks x \<Longrightarrow> passing W Es Ps rs DE KE DR KR x' = passing W Es Ps rs DE KE DR KR x"
  unfolding passing_def using pend_cong all_rebuildable_cong by metis

lemma passing_vectors [simp]:
  "passing W Es Ps rs DE KE DR KR (drop_relation_vectors E ps x) = passing W Es Ps rs DE KE DR KR x"
  "passing W Es Ps rs DE KE DR KR (x\<lparr>kg_entity_vectors := v\<rparr>) = passing W Es Ps rs DE KE DR KR x"
  "passing W Es Ps rs DE KE DR KR (x\<lparr>kg_relation_vectors := v\<rparr>) = passing W Es Ps rs DE KE DR KR x"
  by (rule passing_cong; simp add: drop_relation_vectors_def)+

lemma kg_wf_vectors [simp]:
  "kg_wf (drop_relation_vectors E ps x) = kg_wf x" "kg_wf (x\<lparr>kg_entity_vectors := v\<rparr>) = kg_wf x"
  "kg_wf (x\<lparr>kg_relation_vectors := v\<rparr>) = kg_wf x" "kg_wf (x\<lparr>kg_entity_chunks := r\<rparr>) = kg_wf x"
  by (simp_all add: kg_wf_def graph_wf_def rows_wf_def drop_relation_vectors_def)

lemma track_triple:
  assumes "\<forall>(e, ids) \<in> set (pl_rebuild_entities pl). good_ids W ids" and "rs = pl_rebuild_relations pl"
  shows "dtr z (passing W Es Ps rs DE (fst ` set (pl_rebuild_entities pl)) DR (fst ` set rs))
           (update_chunk_tracking E pl) (\<lambda>_. passing W Es Ps rs DE {} DR {}) (\<lambda>_. True)"
  unfolding update_chunk_tracking_def
proof (rule dtr_then)
  show "dtr z (passing W Es Ps rs DE (fst ` set (pl_rebuild_entities pl)) DR (fst ` set rs))
      (kg_when (pl_rebuild_entities pl \<noteq> []) (kg_write (pe_fault E)
         (\<lambda>x. x\<lparr>kg_entity_chunks := upsert_rows (pl_rebuild_entities pl) (kg_entity_chunks x)\<rparr>)))
      (\<lambda>_. passing W Es Ps rs DE {} DR (fst ` set rs)) (\<lambda>_. True)"
  proof (rule dtr_when, rule dtr_write)
    fix x assume p: "passing W Es Ps rs DE (fst ` set (pl_rebuild_entities pl)) DR (fst ` set rs) x"
    have "pend W Es Ps DE (fst ` set (pl_rebuild_entities pl) - fst ` set (pl_rebuild_entities pl)) DR (fst ` set rs)
        (x\<lparr>kg_entity_chunks := upsert_rows (pl_rebuild_entities pl) (kg_entity_chunks x)\<rparr>)"
      by (rule pend_track_entities) (use p assms(1) in \<open>simp_all add: passing_def\<close>)
    then show "passing W Es Ps rs DE {} DR (fst ` set rs)
        (x\<lparr>kg_entity_chunks := upsert_rows (pl_rebuild_entities pl) (kg_entity_chunks x)\<rparr>)"
      using p by (simp add: passing_def)
  qed simp_all
next
  show "dtr z (passing W Es Ps rs DE {} DR (fst ` set rs))
      (kg_when (pl_rebuild_relations pl \<noteq> []) (kg_write (pe_fault E)
         (\<lambda>x. x\<lparr>kg_relation_chunks := upsert_rows (relation_payload (pl_rebuild_relations pl)) (kg_relation_chunks x)\<rparr>)))
      (\<lambda>_. passing W Es Ps rs DE {} DR {}) (\<lambda>_. True)"
    unfolding assms(2) [symmetric]
  proof (rule dtr_when, rule dtr_write)
    fix x assume w: "kg_wf x" and p: "passing W Es Ps rs DE {} DR (fst ` set rs) x"
    have "pend W Es Ps DE {} DR (fst ` set rs - fst ` set rs)
        (x\<lparr>kg_relation_chunks := upsert_rows (relation_payload rs) (kg_relation_chunks x)\<rparr>)"
      by (rule pend_track_relations) (use p w in \<open>simp_all add: passing_def kg_wf_def all_rebuildable_def\<close>)
    then show "passing W Es Ps rs DE {} DR {}
        (x\<lparr>kg_relation_chunks := upsert_rows (relation_payload rs) (kg_relation_chunks x)\<rparr>)"
      using p by (simp add: passing_def)
  qed (simp_all add: kg_wf_track_relations)
qed

lemma delete_relationships_triple:
  assumes "\<forall>p \<in> set ps. keyed p"
  shows "dtr z (passing W Es Ps rs DE {} (set ps) {}) (delete_relationships E ps)
           (\<lambda>_. passing W Es Ps rs DE {} {} {}) (\<lambda>_. True)"
  unfolding delete_relationships_def
proof (rule dtr_then [where S = "passing W Es Ps rs DE {} (set ps) {}"], rule dtr_write)
  show "dtr z (passing W Es Ps rs DE {} (set ps) {})
      (kg_then (kg_write (pe_fault E) (remove_edges ps)) (kg_write (pe_fault E) (drop_relation_rows ps)))
      (\<lambda>_. passing W Es Ps rs DE {} {} {}) (\<lambda>_. True)"
  proof (rule dtr_then, rule dtr_write)
    fix x assume p: "passing W Es Ps rs DE {} (set ps) {} x"
    have "pend W Es Ps DE {} (set ps - set ps) {} (remove_edges ps x)"
      by (rule pend_remove_edges) (use p in \<open>simp add: passing_def\<close>)
    moreover have "all_rebuildable W rs (remove_edges ps x)"
      by (rule all_rebuildable_fewer [of W rs x]) (use p in \<open>auto simp: passing_def remove_edges_def\<close>)
    moreover have "\<forall>p \<in> set ps. map_of (kg_edges (remove_edges ps x)) p = None" by (simp add: remove_edges_def)
    ultimately show "passing W Es Ps rs DE {} {} {} (remove_edges ps x)
        \<and> (\<forall>p \<in> set ps. map_of (kg_edges (remove_edges ps x)) p = None)" by (simp add: passing_def)
  next
    show "dtr z (\<lambda>x. passing W Es Ps rs DE {} {} {} x \<and> (\<forall>p \<in> set ps. map_of (kg_edges x) p = None))
        (kg_write (pe_fault E) (drop_relation_rows ps)) (\<lambda>_. passing W Es Ps rs DE {} {} {}) (\<lambda>_. True)"
    proof (rule dtr_write)
      fix x assume w: "kg_wf x"
        and p: "passing W Es Ps rs DE {} {} {} x \<and> (\<forall>p \<in> set ps. map_of (kg_edges x) p = None)"
      have "pend W Es Ps DE {} {} {} (drop_relation_rows ps x)"
        by (rule pend_drop_rows) (use p w assms in \<open>auto simp: passing_def kg_wf_def\<close>)
      then show "passing W Es Ps rs DE {} {} {} (drop_relation_rows ps x)"
        using p by (simp add: passing_def)
    qed (simp_all add: kg_wf_drop_rows)
  qed (simp_all add: kg_wf_remove_edges)
qed simp_all

lemma delete_entities_triple:
  "dtr z (passing W Es Ps rs (set names) {} {} {}) (delete_entities E names)
     (\<lambda>_. passing W Es Ps rs {} {} {} {}) (\<lambda>_. True)"
  unfolding delete_entities_def
proof (rule dtr_bind [OF dtr_read])
  fix es
  let ?T = "{p. touches names p}"
  let ?P = "\<lambda>x. passing W Es Ps rs (set names) {} ?T {} x \<and> (\<forall>p \<in> set es. keyed p \<and> p \<in> ?T)"
  have "dtr z ?P
      (kg_then
         (kg_when (es \<noteq> [])
            (kg_then (kg_write (pe_fault E) (drop_relation_vectors E es))
                     (kg_write (pe_fault E) (drop_relation_rows es))))
         (kg_then (kg_write (pe_fault E) (remove_nodes names))
            (kg_then (kg_write (pe_fault E) (\<lambda>x. x\<lparr>kg_entity_vectors :=
                        kg_entity_vectors x - (\<lambda>e. compute_mdhash_id E e (lit ''ent-'')) ` set names\<rparr>))
                     (kg_write (pe_fault E) (\<lambda>x. x\<lparr>kg_entity_chunks := delete_rows names (kg_entity_chunks x)\<rparr>)))))
      (\<lambda>_. passing W Es Ps rs {} {} {} {}) (\<lambda>_. True)"
  proof (rule dtr_then)
    show "dtr z ?P (kg_when (es \<noteq> [])
            (kg_then (kg_write (pe_fault E) (drop_relation_vectors E es))
                     (kg_write (pe_fault E) (drop_relation_rows es)))) (\<lambda>_. ?P) (\<lambda>_. True)"
    proof (rule dtr_when, rule dtr_then [where S = ?P], rule dtr_write)
      show "dtr z ?P (kg_write (pe_fault E) (drop_relation_rows es)) (\<lambda>_. ?P) (\<lambda>_. True)"
      proof (rule dtr_write)
        fix x assume w: "kg_wf x" and p: "?P x"
        have "pend W Es Ps (set names) {} ?T {} (drop_relation_rows es x)"
          by (rule pend_drop_rows) (use p w in \<open>auto simp: passing_def kg_wf_def\<close>)
        then show "?P (drop_relation_rows es x)"
          using p by (simp add: passing_def)
      qed (simp_all add: kg_wf_drop_rows)
    qed simp_all
  next
    let ?Q = "\<lambda>x. passing W Es Ps rs {} {} {} {} x \<and> (\<forall>n \<in> set names. map_of (kg_nodes x) n = None)"
    show "dtr z ?P
      (kg_then (kg_write (pe_fault E) (remove_nodes names))
            (kg_then (kg_write (pe_fault E) (\<lambda>x. x\<lparr>kg_entity_vectors :=
                        kg_entity_vectors x - (\<lambda>e. compute_mdhash_id E e (lit ''ent-'')) ` set names\<rparr>))
                     (kg_write (pe_fault E) (\<lambda>x. x\<lparr>kg_entity_chunks := delete_rows names (kg_entity_chunks x)\<rparr>))))
      (\<lambda>_. passing W Es Ps rs {} {} {} {}) (\<lambda>_. True)"
    proof (rule dtr_then [where S = ?Q], rule dtr_write)
      fix x assume p: "?P x"
      have "pend W Es Ps (set names - set names) {} (?T - ?T) {} (remove_nodes names x)"
        by (rule pend_remove_nodes) (use p in \<open>simp add: passing_def\<close>)
      moreover have "all_rebuildable W rs (remove_nodes names x)"
        by (rule all_rebuildable_fewer [of W rs x])
          (use p in \<open>auto simp: passing_def remove_nodes_def map_of_filter_keys\<close>)
      ultimately show "?Q (remove_nodes names x)" by (simp add: passing_def remove_nodes_def)
    next
      show "dtr z ?Q
        (kg_then (kg_write (pe_fault E) (\<lambda>x. x\<lparr>kg_entity_vectors :=
                    kg_entity_vectors x - (\<lambda>e. compute_mdhash_id E e (lit ''ent-'')) ` set names\<rparr>))
                 (kg_write (pe_fault E) (\<lambda>x. x\<lparr>kg_entity_chunks := delete_rows names (kg_entity_chunks x)\<rparr>)))
        (\<lambda>_. passing W Es Ps rs {} {} {} {}) (\<lambda>_. True)"
      proof (rule dtr_then [where S = ?Q], rule dtr_write)
        show "dtr z ?Q (kg_write (pe_fault E) (\<lambda>x. x\<lparr>kg_entity_chunks := delete_rows names (kg_entity_chunks x)\<rparr>))
            (\<lambda>_. passing W Es Ps rs {} {} {} {}) (\<lambda>_. True)"
        proof (rule dtr_write)
          fix x assume p: "?Q x"
          have "pend W Es Ps {} {} {} {} (x\<lparr>kg_entity_chunks := delete_rows names (kg_entity_chunks x)\<rparr>)"
            by (rule pend_drop_entity_rows) (use p in \<open>simp_all add: passing_def\<close>)
          then show "passing W Es Ps rs {} {} {} {} (x\<lparr>kg_entity_chunks := delete_rows names (kg_entity_chunks x)\<rparr>)"
            using p by (simp add: passing_def)
        qed simp_all
      qed simp_all
    qed (simp_all add: kg_wf_remove_nodes)
  qed
  then show "dtr z (\<lambda>x. passing W Es Ps rs (set names) {} {} {} x \<and> es = filter (touches names) (od_keys (kg_edges x)))
      (kg_then
         (kg_when (es \<noteq> [])
            (kg_then (kg_write (pe_fault E) (drop_relation_vectors E es))
                     (kg_write (pe_fault E) (drop_relation_rows es))))
         (kg_then (kg_write (pe_fault E) (remove_nodes names))
            (kg_then (kg_write (pe_fault E) (\<lambda>x. x\<lparr>kg_entity_vectors :=
                        kg_entity_vectors x - (\<lambda>e. compute_mdhash_id E e (lit ''ent-'')) ` set names\<rparr>))
                     (kg_write (pe_fault E) (\<lambda>x. x\<lparr>kg_entity_chunks := delete_rows names (kg_entity_chunks x)\<rparr>)))))
      (\<lambda>_. passing W Es Ps rs {} {} {} {}) (\<lambda>_. True)"
  proof (rule dtr_pre)
    fix x assume w: "kg_wf x"
      and p: "passing W Es Ps rs (set names) {} {} {} x \<and> es = filter (touches names) (od_keys (kg_edges x))"
    have "keyed q \<and> touches names q" if q: "q \<in> set es" for q
    proof -
      have "q \<in> fst ` set (kg_edges x)" "touches names q" using p q by auto
      then obtain d where "map_of (kg_edges x) q = Some d" using in_keys_iff [of q "kg_edges x"] by auto
      moreover have "graph_wf x" using w by (simp add: kg_wf_def)
      ultimately show ?thesis using keyed_edge [of x q d] \<open>touches names q\<close> by blast
    qed
    moreover have "passing W Es Ps rs (set names) {} ?T {} x"
      using p pend_weaken [of W Es Ps "set names" "{}" "{}" "{}" x "set names" "{}" ?T "{}"] by (simp add: passing_def)
    ultimately show "?P x" by simp
  qed
qed simp

section \<open>The rebuild keeps objects clean\<close>

abbreviation settled_pass ::
    "pystr set \<Rightarrow> pystr set \<Rightarrow> (pystr \<times> pystr) set \<Rightarrow> (pystr \<times> pystr, pystr list) odict \<Rightarrow> kg_state \<Rightarrow> bool" where
  "settled_pass W Es Ps rs \<equiv> passing W Es Ps rs {} {} {} {}"

lemma settled_pass_steps:
  assumes "settled_pass W Es Ps rs x" and "\<And>e. clean_entity W x e \<Longrightarrow> clean_entity W x' e"
    and "\<And>p. clean_relation W x p \<Longrightarrow> clean_relation W x' p" and "all_rebuildable W rs x'"
  shows "settled_pass W Es Ps rs x'"
  using assms unfolding passing_def pend_def by blast

lemma settled_entity_row:
  assumes "settled_pass W Es Ps rs x" and "good_ids W ids"
  shows "settled_pass W Es Ps rs (x\<lparr>kg_entity_chunks := od_set name ids (kg_entity_chunks x)\<rparr>)" (is "settled_pass _ _ _ _ ?x")
proof (rule settled_pass_steps [OF assms(1)])
  fix e assume c: "clean_entity W x e"
  show "clean_entity W ?x e"
  proof (cases "e = name")
    case True
    have "tracked_ids (kg_entity_chunks ?x) name = ids"
      by (rule tracked_ids_Some) (use assms(2) in \<open>auto simp: good_ids_def\<close>)
    then show ?thesis using clean_entity_row assms(2) True by blast
  next
    case False
    then have "clean_entity W ?x e = clean_entity W x e" by (intro clean_entity_cong) simp_all
    with c show ?thesis by simp
  qed
next
  fix p assume "clean_relation W x p"
  then show "clean_relation W ?x p" using clean_relation_cong [of ?x p x] by simp
qed (use assms(1) in \<open>simp add: passing_def\<close>)

lemma settled_node:
  assumes "settled_pass W Es Ps rs x" and "map_of (kg_entity_chunks x) name = Some ids" "good_ids W ids"
  shows "settled_pass W Es Ps rs (x\<lparr>kg_nodes := od_set name d (kg_nodes x)\<rparr>)" (is "settled_pass _ _ _ _ ?x")
proof (rule settled_pass_steps [OF assms(1)])
  fix e assume c: "clean_entity W x e"
  show "clean_entity W ?x e"
  proof (cases "e = name")
    case True
    have "tracked_ids (kg_entity_chunks ?x) name = ids"
      using tracked_ids_Some [OF assms(2)] assms(3) by (simp add: good_ids_def)
    then show ?thesis using clean_entity_row assms(3) True by blast
  next
    case False
    then have "clean_entity W ?x e = clean_entity W x e" by (intro clean_entity_cong) simp_all
    with c show ?thesis by simp
  qed
next
  fix p assume "clean_relation W x p"
  then show "clean_relation W ?x p" using clean_relation_cong [of ?x p x] by simp
qed (use assms(1) in \<open>simp add: passing_def\<close>)

text \<open>The row has been written, so the node's own list does not matter any more.\<close>

definition node_rowed :: "pystr \<Rightarrow> node \<Rightarrow> pystr list \<Rightarrow> kg_state \<Rightarrow> bool" where
  "node_rowed name d ids x \<longleftrightarrow> map_of (kg_nodes x) name = Some d \<and> map_of (kg_entity_chunks x) name = Some ids"

lemma update_entity_triple:
  assumes "good_ids W ids"
  shows "dtr z (\<lambda>x. settled_pass W Es Ps rs x \<and> node_rowed name d ids x) (update_entity_storage E name d l)
           (\<lambda>_. settled_pass W Es Ps rs) (settled_pass W Es Ps rs)"
  unfolding update_entity_storage_def
proof (rule dtr_then [OF dtr_guarded [OF dtr_write]])
  fix x assume w: "kg_wf x" and b: "settled_pass W Es Ps rs x \<and> node_rowed name d ids x"
  show "kg_wf (x\<lparr>kg_nodes := od_set name (d\<lparr>nd_source := py_join GRAPH_FIELD_SEP l\<rparr>) (kg_nodes x)\<rparr>)"
    by (rule kg_wf_node [OF w]) (use b in \<open>simp add: node_rowed_def\<close>)
  show "settled_pass W Es Ps rs (x\<lparr>kg_nodes := od_set name (d\<lparr>nd_source := py_join GRAPH_FIELD_SEP l\<rparr>) (kg_nodes x)\<rparr>)"
    by (rule settled_node [OF _ _ assms]) (use b in \<open>auto simp: node_rowed_def\<close>)
next
  show "dtr z (settled_pass W Es Ps rs) (guarded (pe_fails E (Item_Entity name) 4)
      (kg_write (pe_fault E) (\<lambda>x. x\<lparr>kg_entity_vectors :=
         insert (compute_mdhash_id E name (lit ''ent-'')) (kg_entity_vectors x)\<rparr>)))
      (\<lambda>_. settled_pass W Es Ps rs) (settled_pass W Es Ps rs)"
    by (rule dtr_guarded [OF dtr_write]) simp_all
qed simp_all

lemma refresh_entity_triple:
  assumes "good_ids W ids"
  shows "dtr z (\<lambda>x. settled_pass W Es Ps rs x \<and> node_rowed name d ids x) (refresh_entity E rb name d ids)
           (\<lambda>_. settled_pass W Es Ps rs) (settled_pass W Es Ps rs)" (is "dtr z ?B _ _ ?A")
proof -
  let ?l = "apply_source_ids_limit (pe_upper E) ids (pe_max_entity E) (pe_limit_method E)"
  have "dtr z ?B (guarded (pe_fails E (Item_Entity name) 2) (update_entity_storage E name d ?l)) (\<lambda>_. ?A) ?A"
    by (rule dtr_guarded [OF update_entity_triple [OF assms]]) simp
  moreover have "dtr z ?B (kg_bind (guarded (pe_fails E (Item_Entity name) 2)
        (kg_read (\<lambda>x. filter (touches [name]) (od_keys (kg_edges x))))) (\<lambda>edges.
          if edges = [] then kg_return () else update_entity_storage E name d ?l)) (\<lambda>_. ?A) ?A"
  proof (rule dtr_bind [OF dtr_guarded [OF dtr_read]])
    fix es :: "(pystr \<times> pystr) list"
    have "dtr z ?B (if es = [] then kg_return () else update_entity_storage E name d ?l) (\<lambda>_. ?A) ?A"
      using update_entity_triple [OF assms] by (cases "es = []") (auto intro: dtr_return)
    then show "dtr z (\<lambda>x. ?B x \<and> es = filter (touches [name]) (od_keys (kg_edges x)))
        (if es = [] then kg_return () else update_entity_storage E name d ?l) (\<lambda>_. ?A) ?A"
      by (rule dtr_pre) simp
  qed simp_all
  ultimately show ?thesis unfolding refresh_entity_def Let_def by (simp split: if_split)
qed

lemma rebuild_entity_triple:
  assumes "good_ids W ids"
  shows "dtr z (settled_pass W Es Ps rs) (rebuild_single_entity E rb name ids) (\<lambda>_. settled_pass W Es Ps rs)
           (settled_pass W Es Ps rs)" (is "dtr z ?A _ _ _")
  unfolding rebuild_single_entity_def
proof (rule dtr_bind [OF dtr_guarded [OF dtr_read]])
  fix v
  show "dtr z (\<lambda>x. ?A x \<and> v = map_of (kg_nodes x) name)
    (case v of None \<Rightarrow> kg_return ()
     | Some d \<Rightarrow>
         kg_then
           (kg_when (ids \<noteq> []) (guarded (pe_fails E (Item_Entity name) 1)
              (kg_write (pe_fault E) (\<lambda>x. x\<lparr>kg_entity_chunks := od_set name ids (kg_entity_chunks x)\<rparr>))))
           (refresh_entity E rb name d ids)) (\<lambda>_. ?A) ?A"
  proof (cases v)
    case (Some d)
    show ?thesis unfolding Some option.case
    proof (rule dtr_then [OF dtr_when [OF dtr_guarded [OF dtr_write]] refresh_entity_triple [OF assms]])
      fix x assume "?A x \<and> Some d = map_of (kg_nodes x) name"
      then show "?A (x\<lparr>kg_entity_chunks := od_set name ids (kg_entity_chunks x)\<rparr>)
          \<and> node_rowed name d ids (x\<lparr>kg_entity_chunks := od_set name ids (kg_entity_chunks x)\<rparr>)"
        using settled_entity_row [OF _ assms, of Es Ps rs x name] by (simp add: node_rowed_def)
    qed (use assms in \<open>auto simp: good_ids_def\<close>)
  qed (auto intro: dtr_return)
qed simp_all

lemma settled_relation_row:
  assumes "settled_pass W Es Ps rs x" and "kg_wf x" and "(p, ids) \<in> set rs"
  shows "settled_pass W Es Ps rs
    (x\<lparr>kg_relation_chunks := od_set (make_relation_chunk_key (fst p) (snd p)) (evidence ids) (kg_relation_chunks x)\<rparr>)"
    (is "settled_pass _ _ _ _ ?x")
proof (rule settled_pass_steps [OF assms(1)])
  have R: "rebuildable W x p ids" using assms(1,3) by (auto simp: passing_def all_rebuildable_def)
  have ne: "[] \<notin> set (evidence ids)" using R by (auto simp: rebuildable_def good_ids_def evidence_def)
  fix q assume c: "clean_relation W x q"
  show "clean_relation W ?x q"
  proof (cases "map_of (kg_edges x) q")
    case None
    then show ?thesis by (simp add: clean_relation_gone)
  next
    case (Some d)
    have k: "keyed q" using keyed_edge [OF _ Some] assms(2) by (simp add: kg_wf_def)
    show ?thesis
    proof (cases "q = p")
      case True
      have "relation_row ?x p = evidence ids"
        by (simp add: relation_row_upd) (rule tracked_ids_Some [OF _ ne], simp)
      then show ?thesis using evidence_row_clean [OF R, of ?x] True by simp
    next
      case False
      then have "make_relation_chunk_key (fst q) (snd q) \<noteq> make_relation_chunk_key (fst p) (snd p)"
        using key_injective [OF k, of p] R unfolding rebuildable_def by blast
      then have "clean_relation W ?x q = clean_relation W x q" by (intro clean_relation_cong) simp_all
      with c show ?thesis by simp
    qed
  qed
next
  fix e assume "clean_entity W x e"
  then show "clean_entity W ?x e" using clean_entity_cong [of ?x e x] by simp
qed (use assms(1) in \<open>simp add: passing_def\<close>)

text \<open>The edge and its row, once the row has been written.\<close>

definition edge_rowed :: "pystr \<times> pystr \<Rightarrow> edge \<Rightarrow> pystr list \<Rightarrow> kg_state \<Rightarrow> bool" where
  "edge_rowed p d ids x \<longleftrightarrow> map_of (kg_edges x) p = Some d
     \<and> map_of (kg_relation_chunks x) (make_relation_chunk_key (fst p) (snd p)) = Some (evidence ids)"

lemma graph_sources_Nil [simp]: "graph_sources [] = []"
  by (simp add: graph_sources_def)

lemma settled_edge:
  assumes "settled_pass W Es Ps rs x" and "edge_rowed p d ids x" and "(p, ids) \<in> set rs" "od_wf rs"
    and "set l \<subseteq> set (evidence ids)"
  shows "settled_pass W Es Ps rs (x\<lparr>kg_edges := od_set p (d\<lparr>ed_source := Some (py_join GRAPH_FIELD_SEP l)\<rparr>) (kg_edges x)\<rparr>)"
    (is "settled_pass _ _ _ _ ?x")
proof (rule settled_pass_steps [OF assms(1)])
  have R: "rebuildable W x p ids" using assms(1,3) by (auto simp: passing_def all_rebuildable_def)
  have ne: "[] \<notin> set (evidence ids)" using R by (auto simp: rebuildable_def good_ids_def evidence_def)
  have e: "map_of (kg_relation_chunks x) (make_relation_chunk_key (fst p) (snd p)) = Some (evidence ids)"
    using assms(2) by (simp add: edge_rowed_def)
  have row: "relation_row ?x p = evidence ids"
    using tracked_ids_Some [OF e ne] by (simp add: relation_row_def)
  have Nil: "l = []" if "evidence ids = []" using that assms(5) by simp
  have lp: "loose W ?x p" if "evidence ids = []"
    using Nil [OF that] by (simp add: loose_def stranded_def)
  fix q assume c: "clean_relation W x q"
  show "clean_relation W ?x q"
  proof (cases "q = p")
    case True
    show ?thesis
    proof (cases "evidence ids = []")
      case True
      then show ?thesis using clean_relation_empty_row [OF _ lp] row \<open>q = p\<close> by simp
    next
      case False
      then show ?thesis using clean_relation_row [OF row] evidence_good R \<open>q = p\<close> by (simp add: rebuildable_def)
    qed
  next
    case False
    then have "clean_relation W ?x q = clean_relation W x q" by (intro clean_relation_cong) simp_all
    with c show ?thesis by simp
  qed
next
  fix e assume "clean_entity W x e"
  then show "clean_entity W ?x e" using clean_entity_cong [of ?x e x] by simp
next
  have "rebuildable W ?x q js" if q: "(q, js) \<in> set rs" for q js
  proof -
    have r: "rebuildable W x q js" using assms(1) q by (auto simp: passing_def all_rebuildable_def)
    show ?thesis
    proof (cases "q = p")
      case True
      then have "js = ids" using q assms(3,4) unfolding od_wf_def by (metis eq_key_imp_eq_value)
      then have "loose W ?x q" if "evidence js = []"
        using that assms(5) True by (simp add: loose_def stranded_def)
      with r show ?thesis by (simp add: rebuildable_def)
    next
      case False
      then have "loose W ?x q = loose W x q" by (auto simp: loose_def)
      with r show ?thesis by (simp add: rebuildable_def)
    qed
  qed
  then show "all_rebuildable W rs ?x" by (auto simp: all_rebuildable_def)
qed

text \<open>In a graph in shape the ends of an edge are there, so no node is created.\<close>

lemma ensure_endpoint_triple:
  assumes "n = fst p \<or> n = snd p"
  shows "dtr z (\<lambda>x. settled_pass W Es Ps rs x \<and> edge_rowed p d ids x) (ensure_endpoint E p l n)
           (\<lambda>_ x. settled_pass W Es Ps rs x \<and> edge_rowed p d ids x) (settled_pass W Es Ps rs)" (is "dtr z ?B _ _ ?A")
  unfolding ensure_endpoint_def
proof (rule dtr_bind [OF dtr_guarded [OF dtr_read]])
  fix found
  have present: "found \<noteq> None" if "kg_wf x" "?B x \<and> found = map_of (kg_nodes x) n" for x
  proof -
    have "map_of (kg_edges x) (fst p, snd p) = Some d" using that(2) by (simp add: edge_rowed_def)
    then show ?thesis using graph_wf_edge(2,3) [of x "fst p" "snd p" d] that assms by (auto simp: kg_wf_def)
  qed
  show "dtr z (\<lambda>x. ?B x \<and> found = map_of (kg_nodes x) n)
    (kg_when (found = None)
         (kg_then (kg_write (pe_fault E) (\<lambda>x. x\<lparr>kg_nodes := od_set n
                     \<lparr>nd_entity_id = n, nd_source = py_join GRAPH_FIELD_SEP l\<rparr> (kg_nodes x)\<rparr>))
            (kg_then
               (kg_when (l \<noteq> [])
                  (kg_write (pe_fault E) (\<lambda>x. x\<lparr>kg_entity_chunks := od_set n l (kg_entity_chunks x)\<rparr>)))
               (guarded (pe_fails E (Item_Relation p) 3)
                  (kg_write (pe_fault E) (\<lambda>x. x\<lparr>kg_entity_vectors :=
                     insert (compute_mdhash_id E n (lit ''ent-'')) (kg_entity_vectors x)\<rparr>))))))
    (\<lambda>_. ?B) ?A"
  proof (cases "found = None")
    case True
    have "dtr z (\<lambda>_. False) m (\<lambda>_. ?B) ?A" for m :: "unit kgm" by (simp add: dtr_def kg_triple_def on_def)
    then show ?thesis by (rule dtr_pre) (use present True in blast)
  qed (auto intro: dtr_return simp: kg_when_def)
qed simp_all

lemma update_relation_triple:
  assumes "(p, ids) \<in> set rs" "od_wf rs" "keyed p" "set l \<subseteq> set (evidence ids)"
  shows "dtr z (\<lambda>x. settled_pass W Es Ps rs x \<and> edge_rowed p d ids x) (update_relation_storage E rb p d l)
           (\<lambda>_. settled_pass W Es Ps rs) (settled_pass W Es Ps rs)" (is "dtr z ?B _ _ ?A")
  unfolding update_relation_storage_def
proof (rule dtr_then [OF dtr_each dtr_then [OF dtr_guarded [OF dtr_write] dtr_then]])
  fix n assume "n \<in> set (add_ids [fst p, snd p] [])"
  then show "dtr z ?B (ensure_endpoint E p l n) (\<lambda>_. ?B) ?A" by (intro ensure_endpoint_triple) (auto split: if_splits)
next
  have k: "sorted_pair (fst p) (snd p) = p" using assms(3) by (simp add: keyed_def)
  fix x assume w: "kg_wf x" and b: "?B x"
  show "kg_wf (x\<lparr>kg_edges := od_set (sorted_pair (fst p) (snd p))
      (d\<lparr>ed_source := Some (py_join GRAPH_FIELD_SEP l)\<rparr>) (kg_edges x)\<rparr>)"
    by (rule kg_wf_edge [OF w]) (use b in \<open>simp add: edge_rowed_def k\<close>)
  show "?A (x\<lparr>kg_edges := od_set (sorted_pair (fst p) (snd p))
      (d\<lparr>ed_source := Some (py_join GRAPH_FIELD_SEP l)\<rparr>) (kg_edges x)\<rparr>)"
    unfolding k by (rule settled_edge [OF _ _ assms(1,2,4)]) (use b in auto)
next
  have w: "dtr z ?A (kg_write (pe_fault E) (drop_relation_vectors E [p])) (\<lambda>_. ?A) ?A" by (rule dtr_write) simp_all
  show "dtr z ?A (if rb then kg_write (pe_fault E) (drop_relation_vectors E [p])
      else kg_swallow (kg_write (pe_fault E) (drop_relation_vectors E [p]))) (\<lambda>_. ?A) ?A"
    using w dtr_swallow [OF w] by (cases rb) simp_all
next
  show "dtr z ?A (guarded (pe_fails E (Item_Relation p) 5)
      (kg_write (pe_fault E) (\<lambda>x. x\<lparr>kg_relation_vectors :=
         insert (case sorted_pair (fst p) (snd p) of (a, b) \<Rightarrow> compute_mdhash_id E (a @ b) (lit ''rel-''))
           (kg_relation_vectors x)\<rparr>))) (\<lambda>_. ?A) ?A"
    by (rule dtr_guarded [OF dtr_write]) simp_all
qed simp_all

lemma rebuild_relation_triple:
  assumes "(p, ids) \<in> set rs" "od_wf rs" "keyed p" "good_ids W ids"
  shows "dtr z (settled_pass W Es Ps rs) (rebuild_single_relationship E rb p ids) (\<lambda>_. settled_pass W Es Ps rs)
           (settled_pass W Es Ps rs)" (is "dtr z ?A _ _ _")
proof -
  have k: "sorted_pair (fst p) (snd p) = p" using assms(3) by (simp add: keyed_def)
  have n: "filter (\<lambda>c. c \<noteq> [] \<and> c \<notin> RELATION_NO_EVIDENCE_SOURCE_IDS) ids = evidence ids"
    unfolding evidence_def by (rule filter_cong) (use assms(4) in \<open>auto simp: good_ids_def\<close>)
  let ?l = "apply_source_ids_limit (pe_upper E) (evidence ids) (pe_max_relation E) (pe_limit_method E)"
  have l: "set ?l \<subseteq> set (evidence ids)" by (rule limit_subset)
  let ?key = "make_relation_chunk_key (fst p) (snd p)"
  have one: "dtr z (\<lambda>x. ?A x \<and> Some d = map_of (kg_edges x) p)
     (kg_then
        (kg_when (ids \<noteq> []) (guarded (pe_fails E (Item_Relation p) 1)
           (kg_write (pe_fault E) (\<lambda>x. x\<lparr>kg_relation_chunks := od_set ?key (evidence ids) (kg_relation_chunks x)\<rparr>))))
        (kg_when b (update_relation_storage E rb p d ?l))) (\<lambda>_. ?A) ?A" for b d
  proof (rule dtr_then [where S = "\<lambda>x. ?A x \<and> edge_rowed p d ids x"])
    show "dtr z (\<lambda>x. ?A x \<and> Some d = map_of (kg_edges x) p)
      (kg_when (ids \<noteq> []) (guarded (pe_fails E (Item_Relation p) 1)
         (kg_write (pe_fault E) (\<lambda>x. x\<lparr>kg_relation_chunks := od_set ?key (evidence ids) (kg_relation_chunks x)\<rparr>))))
      (\<lambda>_ x. ?A x \<and> edge_rowed p d ids x) ?A"
    proof (rule dtr_when, rule dtr_guarded [OF dtr_write])
      fix x assume w: "kg_wf x" and a: "?A x \<and> Some d = map_of (kg_edges x) p"
      show "kg_wf (x\<lparr>kg_relation_chunks := od_set ?key (evidence ids) (kg_relation_chunks x)\<rparr>)"
        by (rule kg_wf_relation_row [OF w]) (auto simp: evidence_def)
      show "?A (x\<lparr>kg_relation_chunks := od_set ?key (evidence ids) (kg_relation_chunks x)\<rparr>)
          \<and> edge_rowed p d ids (x\<lparr>kg_relation_chunks := od_set ?key (evidence ids) (kg_relation_chunks x)\<rparr>)"
        using settled_relation_row [OF _ w assms(1)] a by (simp add: edge_rowed_def)
    qed (use assms(4) in \<open>auto simp: good_ids_def\<close>)
  next
    show "dtr z (\<lambda>x. ?A x \<and> edge_rowed p d ids x) (kg_when b (update_relation_storage E rb p d ?l)) (\<lambda>_. ?A) ?A"
      by (rule dtr_when [OF update_relation_triple [OF assms(1-3) l]]) simp
  qed
  show ?thesis unfolding rebuild_single_relationship_def k n Let_def
  proof (rule dtr_bind [OF dtr_guarded [OF dtr_read]])
    fix v
    show "dtr z (\<lambda>x. ?A x \<and> v = map_of (kg_edges x) p)
      (case v of None \<Rightarrow> kg_return ()
       | Some d \<Rightarrow> kg_then
           (kg_when (ids \<noteq> []) (guarded (pe_fails E (Item_Relation p) 1)
              (kg_write (pe_fault E) (\<lambda>x. x\<lparr>kg_relation_chunks := od_set ?key (evidence ids) (kg_relation_chunks x)\<rparr>))))
           (kg_when ((\<exists>c \<in> set ?l. pe_cached E c \<and> (pe_relation_data E c p \<or> pe_relation_data E c (snd p, fst p))) \<or> rb)
              (update_relation_storage E rb p d ?l))) (\<lambda>_. ?A) ?A"
      using one by (cases v) (auto intro: dtr_return)
  qed simp_all
qed

lemma rebuild_task_triple: "dtr z P m (\<lambda>_. P) P \<Longrightarrow> dtr z P (rebuild_task rb m) (\<lambda>_. P) P"
  unfolding rebuild_task_def by (cases rb) (auto intro: dtr_swallow)

lemma rebuild_knowledge_triple:
  assumes "plan_ok W x0 pl" and "rs = pl_rebuild_relations pl"
  shows "dtr z (settled_pass W Es Ps rs) (rebuild_knowledge_from_chunks E rb (pl_rebuild_entities pl) rs)
           (\<lambda>_. settled_pass W Es Ps rs) (\<lambda>_. True)" (is "dtr z ?A _ _ _")
proof -
  have "dtr z ?A
    (kg_then
       (kg_each (\<lambda>(name, ids). rebuild_task rb (rebuild_single_entity E rb name ids)) (pl_rebuild_entities pl))
       (kg_each (\<lambda>(p, ids). rebuild_task rb (rebuild_single_relationship E rb p ids)) rs)) (\<lambda>_. ?A) ?A"
  proof (rule dtr_then [OF dtr_each dtr_each])
    fix q assume "q \<in> set (pl_rebuild_entities pl)"
    then have "good_ids W (snd q)" using assms(1) by (auto simp: plan_ok_def)
    then show "dtr z ?A (case q of (name, ids) \<Rightarrow> rebuild_task rb (rebuild_single_entity E rb name ids)) (\<lambda>_. ?A) ?A"
      by (cases q) (simp, intro rebuild_task_triple rebuild_entity_triple)
  next
    fix q assume q: "q \<in> set rs"
    then have "keyed (fst q) \<and> good_ids W (snd q)" "od_wf rs"
      using assms by (auto simp: plan_ok_def rebuildable_def)
    then show "dtr z ?A (case q of (p, ids) \<Rightarrow> rebuild_task rb (rebuild_single_relationship E rb p ids)) (\<lambda>_. ?A) ?A"
      using q by (cases q) (simp, intro rebuild_task_triple rebuild_relation_triple, auto)
  qed
  then have m: "dtr z (\<lambda>x. ?A x \<and> v = ())
    (kg_then
       (kg_each (\<lambda>(name, ids). rebuild_task rb (rebuild_single_entity E rb name ids)) (pl_rebuild_entities pl))
       (kg_each (\<lambda>(p, ids). rebuild_task rb (rebuild_single_relationship E rb p ids)) rs)) (\<lambda>_. ?A) (\<lambda>_. True)" for v
    by (rule dtr_conseq) simp_all
  show ?thesis
  proof (cases "pl_rebuild_entities pl = [] \<and> rs = []")
    case True
    show ?thesis unfolding rebuild_knowledge_from_chunks_def if_P [OF True] by (rule dtr_return)
  next
    case False
    show ?thesis unfolding rebuild_knowledge_from_chunks_def if_not_P [OF False]
    proof (rule dtr_bind [OF dtr_read])
      fix v
      have r: "dtr z (\<lambda>x. ?A x \<and> v = ()) (kg_return ()) (\<lambda>_. ?A) (\<lambda>_. True)" by (rule dtr_return) simp
      show "dtr z (\<lambda>x. ?A x \<and> v = ())
        (if (\<forall>c \<in> (\<Union>ids \<in> snd ` set (pl_rebuild_entities pl) \<union> snd ` set rs. set ids). \<not> pe_cached E c) \<and> \<not> rb
         then kg_return ()
         else kg_then
           (kg_each (\<lambda>(name, ids). rebuild_task rb (rebuild_single_entity E rb name ids)) (pl_rebuild_entities pl))
           (kg_each (\<lambda>(p, ids). rebuild_task rb (rebuild_single_relationship E rb p ids)) rs)) (\<lambda>_. ?A) (\<lambda>_. True)"
        using m [of v] r by (simp only: split: if_split) blast
    qed simp
  qed
qed

text \<open>After \<open>_insert_done\<close> the disk is what memory is.\<close>

definition clean_all :: "pystr set \<Rightarrow> pystr set \<Rightarrow> (pystr \<times> pystr) set \<Rightarrow> kg_state \<Rightarrow> bool" where
  "clean_all W Es Ps x \<longleftrightarrow> (\<forall>e \<in> Es. clean_entity W x e) \<and> (\<forall>p \<in> Ps. clean_relation W x p)"

lemma insert_done_triple:
  "kg_triple (on (\<lambda>x y. framed z x y \<and> P x)) (insert_done E) (\<lambda>_. on (\<lambda>x y. framed z x y \<and> P x \<and> y = x)) (on (framed z))"
  unfolding insert_done_def
proof (rule on_flush, goal_cases)
  case (1 x y)
  then show ?case by (simp add: copy_all framed_def)
next
  case (2 x y D)
  then show ?case using framed_copy by blast
qed

lemma on_of_dtr:
  "dtr z P m Q R \<Longrightarrow> kg_triple (on (\<lambda>x y. framed z x y \<and> P x)) m (\<lambda>v. on (\<lambda>x y. framed z x y \<and> Q v x)) (on (framed z))"
  unfolding dtr_def by (erule on_conseq) auto

lemma apply_plan_triple:
  assumes "plan_ok W x0 pl" and "rs = pl_rebuild_relations pl"
  shows "kg_triple
    (on (\<lambda>x y. framed z x y \<and> passing W Es Ps rs (set (pl_delete_entities pl)) (fst ` set (pl_rebuild_entities pl))
           (set (pl_delete_relations pl)) (fst ` set rs) x))
    (apply_plan E rb pl) (\<lambda>_. on (\<lambda>x y. framed z x y \<and> clean_all W Es Ps x \<and> y = x)) (on (framed z))"
proof -
  let ?DE = "set (pl_delete_entities pl)"
  let ?DR = "set (pl_delete_relations pl)"
  let ?A = "settled_pass W Es Ps rs"
  have good: "\<forall>(e, ids) \<in> set (pl_rebuild_entities pl). good_ids W ids" and keyed: "\<forall>p \<in> ?DR. keyed p"
    using assms(1) by (auto simp: plan_ok_def)
  have rel: "dtr z (passing W Es Ps rs ?DE {} ?DR {})
      (kg_when (pl_delete_relations pl \<noteq> [])
         (kg_stage ''delete_relationships'' (delete_relationships E (pl_delete_relations pl))))
      (\<lambda>_. passing W Es Ps rs ?DE {} {} {}) (\<lambda>_. True)"
    by (rule dtr_when [OF dtr_stage [OF delete_relationships_triple [OF keyed]]]) simp
  have ent: "dtr z (passing W Es Ps rs ?DE {} {} {})
      (kg_when (pl_delete_entities pl \<noteq> [])
         (kg_stage ''delete_entities'' (delete_entities E (pl_delete_entities pl)))) (\<lambda>_. ?A) (\<lambda>_. True)"
    by (rule dtr_when [OF dtr_stage [OF delete_entities_triple]]) simp
  have flush: "kg_triple (on (\<lambda>x y. framed z x y \<and> ?A x)) (kg_stage n (insert_done E))
      (\<lambda>_. on (\<lambda>x y. framed z x y \<and> ?A x \<and> y = x)) (on (framed z))" for n
    by (rule kg_stage_triple [OF insert_done_triple])
  have rebuild: "kg_triple (on (\<lambda>x y. framed z x y \<and> ?A x \<and> y = x))
      (kg_when (pl_rebuild_entities pl \<noteq> [] \<or> pl_rebuild_relations pl \<noteq> [])
         (kg_then (kg_stage ''rebuild_knowledge_graph''
                     (rebuild_knowledge_from_chunks E rb (pl_rebuild_entities pl) (pl_rebuild_relations pl)))
                  (kg_stage ''persist_rebuilt_knowledge'' (insert_done E))))
      (\<lambda>_. on (\<lambda>x y. framed z x y \<and> ?A x \<and> y = x)) (on (framed z))"
  proof (rule kg_when_triple, rule kg_then_triple [OF _ flush], rule kg_stage_triple)
    have "dtr z ?A (rebuild_knowledge_from_chunks E rb (pl_rebuild_entities pl) (pl_rebuild_relations pl))
        (\<lambda>_. ?A) (\<lambda>_. True)"
      using rebuild_knowledge_triple [OF assms] assms(2) by simp
    from on_of_dtr [OF this]
    show "kg_triple (on (\<lambda>x y. framed z x y \<and> ?A x \<and> y = x))
        (rebuild_knowledge_from_chunks E rb (pl_rebuild_entities pl) (pl_rebuild_relations pl))
        (\<lambda>_. on (\<lambda>x y. framed z x y \<and> ?A x)) (on (framed z))"
      by (rule on_pre) simp
  qed simp
  have "kg_triple
    (on (\<lambda>x y. framed z x y \<and> passing W Es Ps rs ?DE (fst ` set (pl_rebuild_entities pl)) ?DR (fst ` set rs) x))
    (apply_plan E rb pl) (\<lambda>_. on (\<lambda>x y. framed z x y \<and> ?A x \<and> y = x)) (on (framed z))"
    unfolding apply_plan_def
    by (rule kg_then_triple [OF on_of_dtr [OF dtr_stage [OF track_triple [OF good assms(2)]]]
          kg_then_triple [OF on_of_dtr [OF rel] kg_then_triple [OF on_of_dtr [OF ent]
            kg_then_triple [OF flush rebuild]]]])
  then show ?thesis
    by (rule on_conseq) (auto simp: passing_def pend_def clean_all_def)
qed

end
