(* ===== verification/KgPass.thy ===== *)
theory KgPass
  imports KgDerived
begin

text \<open>
  The derived pass as a whole, \<open>purge_derived_kg_contributions\<close>: when it returns, every object the anchors or
  the extra candidates name is clean, in memory and on disk; when it fails, the status, the anchors and the
  chunks are as they were.
\<close>

definition candidate_names :: "kg_state \<Rightarrow> pystr list option \<Rightarrow> pystr list \<Rightarrow> pystr set" where
  "candidate_names z names extra =
     set extra \<union> set (case names of Some ns \<Rightarrow> ns | None \<Rightarrow> anchor_names (kg_full_entities z))"

definition candidate_pairs :: "kg_state \<Rightarrow> (pystr \<times> pystr) list option \<Rightarrow> (pystr \<times> pystr) list \<Rightarrow> (pystr \<times> pystr) set" where
  "candidate_pairs z pairs extra =
     (\<lambda>(s, t). sorted_pair s t) `
       (set extra \<union> set (case pairs of Some ps \<Rightarrow> ps | None \<Rightarrow> anchor_names (kg_full_relations z)))"

definition found_nodes :: "pystr list \<Rightarrow> kg_state \<Rightarrow> node list" where
  "found_nodes entities x = List.map_filter (map_of (kg_nodes x)) entities"

definition found_edges :: "(pystr \<times> pystr) list \<Rightarrow> kg_state \<Rightarrow> ((pystr \<times> pystr) \<times> edge) list" where
  "found_edges relations x =
     List.map_filter (\<lambda>(s, t). map_option (\<lambda>d. ((s, t), d)) (map_of (kg_edges x) (sorted_pair s t))) relations"

lemma dtr_post: "dtr z P m Q' R \<Longrightarrow> (\<And>v x. same_frame z x \<Longrightarrow> kg_wf x \<Longrightarrow> Q' v x \<Longrightarrow> Q v x) \<Longrightarrow> dtr z P m Q R"
  unfolding dtr_def by (erule on_conseq) (auto simp: framed_def)

lemma resolve_candidates_triple:
  "dtr z (\<lambda>_. True) (resolve_candidates ce cr extraE extraR)
     (\<lambda>v _. set (fst v) = candidate_names z ce extraE
          \<and> (\<lambda>(s, t). sorted_pair s t) ` set (snd v) = candidate_pairs z cr extraR) (\<lambda>_. True)"
proof -
  have e: "dtr z (\<lambda>_. True)
      (case ce of Some names \<Rightarrow> kg_return names | None \<Rightarrow> kg_read (\<lambda>x. anchor_names (kg_full_entities x)))
      (\<lambda>v _. set v = set (case ce of Some ns \<Rightarrow> ns | None \<Rightarrow> anchor_names (kg_full_entities z))) (\<lambda>_. True)"
  proof (cases ce)
    case None
    then show ?thesis
      by (simp, intro dtr_post [OF dtr_read [where P = "\<lambda>_. True" and R = "\<lambda>_. True"]]) (auto simp: same_frame_def)
  qed (auto intro: dtr_return)
  have r: "dtr z (\<lambda>_. b)
      (case cr of Some pairs \<Rightarrow> kg_return pairs | None \<Rightarrow> kg_read (\<lambda>x. anchor_names (kg_full_relations x)))
      (\<lambda>v _. b \<and> set v = set (case cr of Some ns \<Rightarrow> ns | None \<Rightarrow> anchor_names (kg_full_relations z))) (\<lambda>_. True)" for b
  proof (cases cr)
    case None
    then show ?thesis
      by (simp, intro dtr_post [OF dtr_read [where P = "\<lambda>_. b" and R = "\<lambda>_. True"]]) (auto simp: same_frame_def)
  qed (auto intro: dtr_return)
  show ?thesis unfolding resolve_candidates_def
    by (rule dtr_bind [OF e dtr_bind [OF r dtr_return]])
      (auto simp: set_add_ids candidate_names_def candidate_pairs_def)
qed

text \<open>What the analysis hands to the classification.\<close>

definition analyzed ::
    "pystr set \<Rightarrow> (pystr \<times> pystr) set \<Rightarrow> node list \<times> ((pystr \<times> pystr) \<times> edge) list \<Rightarrow> kg_state \<Rightarrow> bool" where
  "analyzed Es Ps v x \<longleftrightarrow> (\<exists>entities relations. set entities = Es \<and> (\<lambda>(s, t). sorted_pair s t) ` set relations = Ps
     \<and> fst v = found_nodes entities x \<and> snd v = found_edges relations x)"

lemma analyze_triple:
  "dtr z (\<lambda>_. True)
     (kg_bind (resolve_candidates ce cr extraE extraR)
        (\<lambda>(entities, relations). kg_bind (affected_nodes entities) (\<lambda>nodes.
           kg_bind (affected_edges relations) (\<lambda>edges. kg_return (nodes, edges)))))
     (analyzed (candidate_names z ce extraE) (candidate_pairs z cr extraR)) (\<lambda>_. True)"
proof (rule dtr_bind [OF resolve_candidates_triple])
  fix v :: "pystr list \<times> (pystr \<times> pystr) list"
  obtain es rs where v: "v = (es, rs)" by (cases v)
  let ?b = "set es = candidate_names z ce extraE \<and> (\<lambda>(s, t). sorted_pair s t) ` set rs = candidate_pairs z cr extraR"
  have n: "dtr z (\<lambda>_. True) (affected_nodes es) (\<lambda>ns x. ns = found_nodes es x) (\<lambda>_. True)"
  proof (cases "es = []")
    case False
    show ?thesis unfolding affected_nodes_def if_not_P [OF False]
      by (rule dtr_post [OF dtr_read [where P = "\<lambda>_. True" and R = "\<lambda>_. True"]]) (simp_all add: found_nodes_def)
  qed (auto simp: affected_nodes_def found_nodes_def intro: dtr_return)
  have e: "dtr z (\<lambda>x. ns = found_nodes es x) (affected_edges rs)
      (\<lambda>rs' x. ns = found_nodes es x \<and> rs' = found_edges rs x) (\<lambda>_. True)" for ns
  proof (cases "rs = []")
    case False
    show ?thesis unfolding affected_edges_def if_not_P [OF False]
      by (rule dtr_post [OF dtr_read [where P = "\<lambda>x. ns = found_nodes es x" and R = "\<lambda>_. True"]])
        (simp_all add: found_edges_def)
  qed (auto simp: affected_edges_def found_edges_def intro: dtr_return)
  have "dtr z (\<lambda>_. True \<and> ?b) (kg_bind (affected_nodes es) (\<lambda>nodes.
      kg_bind (affected_edges rs) (\<lambda>edges. kg_return (nodes, edges))))
    (analyzed (candidate_names z ce extraE) (candidate_pairs z cr extraR)) (\<lambda>_. True)"
    by (rule dtr_fact, rule dtr_bind [OF n dtr_bind [OF e dtr_return]]) (auto simp: analyzed_def)
  then show "dtr z (\<lambda>_. set (fst v) = candidate_names z ce extraE
        \<and> (\<lambda>(s, t). sorted_pair s t) ` set (snd v) = candidate_pairs z cr extraR)
      (case v of (entities, relations) \<Rightarrow> kg_bind (affected_nodes entities) (\<lambda>nodes.
         kg_bind (affected_edges relations) (\<lambda>edges. kg_return (nodes, edges))))
      (analyzed (candidate_names z ce extraE) (candidate_pairs z cr extraR)) (\<lambda>_. True)"
    by (simp add: v)
qed

section \<open>The plan of the found objects\<close>

lemma found_nodes_of:
  assumes "graph_wf x"
  shows "\<forall>d \<in> set (found_nodes entities x). map_of (kg_nodes x) (nd_entity_id d) = Some d"
    and "e \<in> set entities \<Longrightarrow> map_of (kg_nodes x) e = Some d \<Longrightarrow> d \<in> set (found_nodes entities x) \<and> nd_entity_id d = e"
  using graph_wf_node [OF assms] by (force simp: found_nodes_def List.map_filter_def)+

lemma found_edges_of:
  shows "\<forall>(p, d) \<in> set (found_edges relations x). map_of (kg_edges x) (sorted_pair (fst p) (snd p)) = Some d"
    and "(s, t) \<in> set relations \<Longrightarrow> map_of (kg_edges x) (sorted_pair s t) = Some d
           \<Longrightarrow> ((s, t), d) \<in> set (found_edges relations x)"
  by (force simp: found_edges_def List.map_filter_def)+

lemma plan_settles:
  fixes rb :: bool and C :: "pystr list"
  assumes "kg_wf x" and "analyzed Es Ps (nodes, edges) x"
  defines "pl \<equiv> plan_edges rb C x edges (plan_nodes rb C x nodes empty_plan)"
  shows "plan_ok (set C) x pl"
    and "passing (set C) Es Ps (pl_rebuild_relations pl) (set (pl_delete_entities pl)) (fst ` set (pl_rebuild_entities pl))
           (set (pl_delete_relations pl)) (fst ` set (pl_rebuild_relations pl)) x"
proof -
  obtain entities relations where a: "set entities = Es" "(\<lambda>(s, t). sorted_pair s t) ` set relations = Ps"
    "nodes = found_nodes entities x" "edges = found_edges relations x"
    using assms(2) by (auto simp: analyzed_def)
  have g: "graph_wf x" using assms(1) by (simp add: kg_wf_def)
  let ?p0 = "plan_nodes rb C x nodes empty_plan"
  have "plan_ok (set C) x empty_plan" by (simp add: plan_ok_def empty_plan_def od_wf_def)
  note N = plan_nodes_spec [OF g found_nodes_of(1) [OF g, of entities] this, of rb]
  have ok0: "plan_ok (set C) x ?p0" using N a(3) by blast
  note R = plan_edges_spec [OF assms(1) found_edges_of(1) [of relations] ok0, of rb]
  show ok: "plan_ok (set C) x pl" using R a(4) by (simp add: pl_def)
  have same: "pl_delete_entities pl = pl_delete_entities ?p0" "pl_rebuild_entities pl = pl_rebuild_entities ?p0"
    using R a(4) by (simp_all add: pl_def)
  have e: "entity_settled (set C) x pl e" if "e \<in> Es" for e
  proof (cases "map_of (kg_nodes x) e")
    case None
    then show ?thesis by (simp add: entity_settled_def clean_entity_gone)
  next
    case (Some d)
    then have "d \<in> set nodes" "nd_entity_id d = e" using found_nodes_of(2) [OF g] that a by auto
    then have "entity_settled (set C) x ?p0 e" using N a(3) by blast
    then show ?thesis using same by (simp add: entity_settled_def)
  qed
  have p: "relation_settled (set C) x pl p" if "p \<in> Ps" for p
  proof -
    obtain s t where st: "(s, t) \<in> set relations" "p = sorted_pair s t" using \<open>p \<in> Ps\<close> a(2) by auto
    show ?thesis
    proof (cases "map_of (kg_edges x) p")
      case None
      then show ?thesis by (simp add: relation_settled_def clean_relation_gone)
    next
      case (Some d)
      then have "((s, t), d) \<in> set edges" using found_edges_of(2) st a(4) by blast
      then show ?thesis using R a(4) st(2) by (force simp: pl_def)
    qed
  qed
  show "passing (set C) Es Ps (pl_rebuild_relations pl) (set (pl_delete_entities pl)) (fst ` set (pl_rebuild_entities pl))
      (set (pl_delete_relations pl)) (fst ` set (pl_rebuild_relations pl)) x"
    unfolding passing_def pend_def all_rebuildable_def
    using e p ok by (auto simp: entity_settled_def relation_settled_def plan_ok_def)
qed

lemma purge_derived_triple:
  "kg_triple (on (framed z)) (purge_derived_kg_contributions E C ce cr extraE extraR rb)
     (\<lambda>_. on (\<lambda>x y. framed z x y
        \<and> clean_all (set C) (candidate_names z ce extraE) (candidate_pairs z cr extraR) x \<and> y = x)) (on (framed z))"
proof -
  let ?Es = "candidate_names z ce extraE" and ?Ps = "candidate_pairs z cr extraR"
  let ?S = "\<lambda>pl x. plan_ok (set C) x pl
     \<and> passing (set C) ?Es ?Ps (pl_rebuild_relations pl) (set (pl_delete_entities pl)) (fst ` set (pl_rebuild_entities pl))
         (set (pl_delete_relations pl)) (fst ` set (pl_rebuild_relations pl)) x"
  let ?A = "\<lambda>v. analyzed ?Es ?Ps v"
  have n: "dtr z (?A v) (classify_nodes rb C (fst v) empty_plan)
      (\<lambda>pl x. ?A v x \<and> pl = plan_nodes rb C x (fst v) empty_plan) (\<lambda>_. True)" for v
    by (rule dtr_conseq [OF classify_nodes_triple]) simp_all
  have e: "dtr z (\<lambda>x. ?A v x \<and> pl = plan_nodes rb C x (fst v) empty_plan) (classify_edges rb C (snd v) pl) ?S (\<lambda>_. True)"
    for v pl
  proof (rule dtr_conseq [OF classify_edges_triple])
    fix pl' x
    assume "kg_wf x" "(?A v x \<and> pl = plan_nodes rb C x (fst v) empty_plan) \<and> pl' = plan_edges rb C x (snd v) pl"
    then show "?S pl' x" using plan_settles [of x ?Es ?Ps "fst v" "snd v"] by simp
  qed simp_all
  have a: "kg_triple (on (\<lambda>x y. framed z x y \<and> ?S pl x)) (apply_plan E rb pl)
      (\<lambda>_. on (\<lambda>x y. framed z x y \<and> clean_all (set C) ?Es ?Ps x \<and> y = x)) (on (framed z))" for pl
  proof (cases "\<exists>x0. plan_ok (set C) x0 pl")
    case True
    then obtain x0 where "plan_ok (set C) x0 pl" by blast
    from apply_plan_triple [OF this refl] show ?thesis by (rule on_pre) simp
  next
    case False
    then show ?thesis by (auto simp: kg_triple_def on_def)
  qed
  show ?thesis unfolding purge_derived_kg_contributions_def
  proof (rule kg_bind_triple)
    show "kg_triple (on (framed z))
      (kg_stage ''analyze_graph_dependencies''
        (kg_bind (resolve_candidates ce cr extraE extraR)
           (\<lambda>(entities, relations). kg_bind (affected_nodes entities) (\<lambda>nodes.
              kg_bind (affected_edges relations) (\<lambda>edges. kg_return (nodes, edges))))))
      (\<lambda>v. on (\<lambda>x y. framed z x y \<and> ?A v x)) (on (framed z))"
      by (rule on_pre [OF on_of_dtr [OF dtr_stage [OF analyze_triple]]]) simp
  next
    fix v :: "node list \<times> ((pystr \<times> pystr) \<times> edge) list"
    have "kg_triple (on (\<lambda>x y. framed z x y \<and> ?A v x))
      (kg_bind (kg_stage ''update_chunk_tracking''
           (kg_bind (classify_nodes rb C (fst v) empty_plan) (classify_edges rb C (snd v)))) (apply_plan E rb))
      (\<lambda>_. on (\<lambda>x y. framed z x y \<and> clean_all (set C) ?Es ?Ps x \<and> y = x)) (on (framed z))"
      by (rule kg_bind_triple [OF on_of_dtr [OF dtr_stage [OF dtr_bind [OF n e]]] a])
    then show "kg_triple (on (\<lambda>x y. framed z x y \<and> ?A v x))
      (case v of (nodes, edges) \<Rightarrow> kg_bind (kg_stage ''update_chunk_tracking''
           (kg_bind (classify_nodes rb C nodes empty_plan) (classify_edges rb C edges))) (apply_plan E rb))
      (\<lambda>_. on (\<lambda>x y. framed z x y \<and> clean_all (set C) ?Es ?Ps x \<and> y = x)) (on (framed z))"
      by (cases v) simp
  qed
qed

end
