(* ===== verification/KgRecovery.thy ===== *)
theory KgRecovery
  imports KgPass
begin

text \<open>
  The recovery protocol: attempts at purging one document, each of which may stop at any storage call, with
  flushes and crashes between them. The journal in the document's status says how far the attempts have come,
  and an invariant ties it to the stores, in memory and on disk.
\<close>

section \<open>Triples that also say how a computation ends\<close>

text \<open>A refusal is an error a later attempt meets again.\<close>

definition refusal :: "purge_error \<Rightarrow> bool" where
  "refusal e \<longleftrightarrow> e = Operation_Conflict \<or> (\<exists>r. e = Recovery_Anchor_Missing r)"

text \<open>No error is a refusal, and without a failing storage call there is no error.\<close>

definition ends :: "(kg_state \<Rightarrow> kg_state \<Rightarrow> bool) \<Rightarrow> 'a kgm \<Rightarrow> bool" where
  "ends P m \<longleftrightarrow> (\<forall>s. P (ks_mem s) (ks_disk s) \<longrightarrow>
     (case m s of (Inl e, s') \<Rightarrow> \<not> refusal e \<and> ks_calls s \<noteq> None | (Inr _, s') \<Rightarrow> ks_calls s = None \<longrightarrow> ks_calls s' = None))"

definition sure ::
    "(kg_state \<Rightarrow> kg_state \<Rightarrow> bool) \<Rightarrow> 'a kgm \<Rightarrow> ('a \<Rightarrow> kg_state \<Rightarrow> kg_state \<Rightarrow> bool) \<Rightarrow> (kg_state \<Rightarrow> kg_state \<Rightarrow> bool) \<Rightarrow> bool" where
  "sure P m Q X \<longleftrightarrow> kg_triple (on P) m (\<lambda>v. on (Q v)) (on X) \<and> ends P m"

lemma sureD:
  assumes "sure P m Q X" "P (ks_mem s) (ks_disk s)"
  shows "m s = (Inr v, s') \<Longrightarrow> Q v (ks_mem s') (ks_disk s')" "m s = (Inl e, s') \<Longrightarrow> X (ks_mem s') (ks_disk s')"
    "m s = (Inl e, s') \<Longrightarrow> \<not> refusal e" "ks_calls s = None \<Longrightarrow> \<exists>v s'. m s = (Inr v, s')"
proof -
  have t: "kg_triple (on P) m (\<lambda>v. on (Q v)) (on X)" and e: "ends P m" using assms(1) by (auto simp: sure_def)
  have p: "on P s" using assms(2) by (simp add: on_def)
  show "m s = (Inr v, s') \<Longrightarrow> Q v (ks_mem s') (ks_disk s')" "m s = (Inl e, s') \<Longrightarrow> X (ks_mem s') (ks_disk s')"
    using kg_tripleD [OF t p] by (auto simp: on_def)
  show "m s = (Inl e, s') \<Longrightarrow> \<not> refusal e" using e assms(2) by (fastforce simp: ends_def)
  show "ks_calls s = None \<Longrightarrow> \<exists>v s'. m s = (Inr v, s')"
    using e assms(2) by (cases "m s"; cases "fst (m s)") (fastforce simp: ends_def)+
qed

lemma sure_conseq:
  "sure P' m Q' X' \<Longrightarrow> (\<And>x y. P x y \<Longrightarrow> P' x y) \<Longrightarrow> (\<And>v x y. Q' v x y \<Longrightarrow> Q v x y) \<Longrightarrow> (\<And>x y. X' x y \<Longrightarrow> X x y) \<Longrightarrow> sure P m Q X"
  unfolding sure_def using on_conseq [of P' m Q' X' P Q X] by (auto simp: ends_def)

lemma sure_pre: "sure P' m Q X \<Longrightarrow> (\<And>x y. P x y \<Longrightarrow> P' x y) \<Longrightarrow> sure P m Q X"
  by (rule sure_conseq)

lemma sure_bind: "sure P m R X \<Longrightarrow> (\<And>v. sure (R v) (f v) Q X) \<Longrightarrow> sure P (kg_bind m f) Q X"
  unfolding sure_def
proof (intro conjI)
  assume m: "kg_triple (on P) m (\<lambda>v. on (R v)) (on X) \<and> ends P m"
    and f: "\<And>v. kg_triple (on (R v)) (f v) (\<lambda>v. on (Q v)) (on X) \<and> ends (R v) (f v)"
  show "kg_triple (on P) (kg_bind m f) (\<lambda>v. on (Q v)) (on X)" using m f by (blast intro: kg_bind_triple)
  show "ends P (kg_bind m f)" unfolding ends_def
  proof (intro allI impI)
    fix s :: kg_sys assume p: "P (ks_mem s) (ks_disk s)"
    obtain r s' where r: "m s = (r, s')" by (cases "m s")
    show "case kg_bind m f s of (Inl e, s') \<Rightarrow> \<not> refusal e \<and> ks_calls s \<noteq> None
        | (Inr _, s') \<Rightarrow> ks_calls s = None \<longrightarrow> ks_calls s' = None"
    proof (cases r)
      case (Inl e)
      then show ?thesis using m p r by (fastforce simp: kg_bind_def ends_def)
    next
      case (Inr v)
      have "R v (ks_mem s') (ks_disk s')"
        using kg_tripleD(1) [of "on P" m "\<lambda>v. on (R v)" "on X" s v s'] m p r Inr by (simp add: on_def)
      moreover have "ks_calls s = None \<longrightarrow> ks_calls s' = None" using m p r Inr by (fastforce simp: ends_def)
      ultimately show ?thesis using f [of v] r Inr
        by (fastforce simp: kg_bind_def ends_def split: prod.splits sum.splits)
    qed
  qed
qed

lemma sure_then: "sure P m (\<lambda>_. R) X \<Longrightarrow> sure R n Q X \<Longrightarrow> sure P (kg_then m n) Q X"
  unfolding kg_then_def by (rule sure_bind)

lemma sure_return: "(\<And>x y. P x y \<Longrightarrow> Q v x y) \<Longrightarrow> sure P (kg_return v) Q X"
  unfolding sure_def by (auto intro: on_return simp: ends_def kg_return_def)

lemma sure_when: "(b \<Longrightarrow> sure P m (\<lambda>_. Q) X) \<Longrightarrow> (\<And>x y. \<not> b \<Longrightarrow> P x y \<Longrightarrow> Q x y) \<Longrightarrow> sure P (kg_when b m) (\<lambda>_. Q) X"
  unfolding kg_when_def by (cases b) (auto intro: sure_return)

lemma sure_stage: "sure P m Q X \<Longrightarrow> sure P (kg_stage n m) Q X"
  unfolding sure_def
  by (auto intro: kg_stage_triple simp: ends_def kg_stage_def refusal_def split: prod.splits sum.splits)

lemma sure_read: "(\<And>x y. P x y \<Longrightarrow> X x y) \<Longrightarrow> sure P (kg_read g) (\<lambda>v x y. P x y \<and> v = g x) X"
  unfolding sure_def
  by (auto intro: on_read simp: ends_def kg_read_def refusal_def split: option.splits nat.splits)

lemma sure_write:
  "(\<And>x y. P x y \<Longrightarrow> Q (f x) y) \<Longrightarrow> (\<And>x y. P x y \<Longrightarrow> X x y) \<Longrightarrow> (\<And>x y. P x y \<Longrightarrow> X (f x) y) \<Longrightarrow> sure P (kg_write F f) (\<lambda>_. Q) X"
  unfolding sure_def
  by (auto intro: on_write simp: ends_def kg_write_def refusal_def split: option.splits nat.splits)

lemma sure_flush:
  "(\<And>x y. P x y \<Longrightarrow> Q x (copy C x y)) \<Longrightarrow> (\<And>x y D. P x y \<Longrightarrow> X x (copy D x y)) \<Longrightarrow> sure P (kg_flush F C) (\<lambda>_. Q) X"
  unfolding sure_def
  by (auto intro: on_flush simp: ends_def kg_flush_def refusal_def split: option.splits nat.splits)

lemma sure_fact: "(b \<Longrightarrow> sure P m Q X) \<Longrightarrow> sure (\<lambda>x y. P x y \<and> b) m Q X"
  by (cases b) (simp_all add: sure_def ends_def kg_triple_def on_def)

section \<open>The derived pass ends\<close>

definition unrefused :: "'a kgm \<Rightarrow> bool" where
  "unrefused m \<longleftrightarrow> (\<forall>s e s'. m s = (Inl e, s') \<longrightarrow> \<not> refusal e)"

lemma unrefused_stage: "unrefused (kg_stage n m)"
  by (auto simp: unrefused_def kg_stage_def refusal_def split: prod.splits sum.splits)

lemma unrefused_return: "unrefused (kg_return v)"
  by (simp add: unrefused_def kg_return_def)

lemma unrefused_bind: "unrefused m \<Longrightarrow> (\<And>v. unrefused (f v)) \<Longrightarrow> unrefused (kg_bind m f)"
  unfolding unrefused_def kg_bind_def by (auto split: prod.splits sum.splits)

lemma unrefused_then: "unrefused m \<Longrightarrow> unrefused n \<Longrightarrow> unrefused (kg_then m n)"
  unfolding kg_then_def by (rule unrefused_bind)

lemma unrefused_when: "unrefused m \<Longrightarrow> unrefused (kg_when b m)"
  unfolding kg_when_def by (simp add: unrefused_return)

lemma unrefused_apply_plan: "unrefused (apply_plan E rb pl)"
  unfolding apply_plan_def by (intro unrefused_then unrefused_when unrefused_stage)

lemma unrefused_derived: "unrefused (purge_derived_kg_contributions E C ce cr extraE extraR rb)"
proof -
  have "unrefused (case v of (nodes, edges) \<Rightarrow> kg_bind (kg_stage ''update_chunk_tracking''
      (kg_bind (classify_nodes rb C nodes empty_plan) (classify_edges rb C edges))) (apply_plan E rb))" for v
    by (cases v) (auto intro: unrefused_bind unrefused_stage unrefused_apply_plan)
  then show ?thesis unfolding purge_derived_kg_contributions_def
    by (intro unrefused_bind unrefused_stage)
qed

lemma keeps_unlimited_guarded: "keeps_unlimited m \<Longrightarrow> keeps_unlimited (guarded b m)"
  by (simp add: guarded_def keeps_unlimited_basic)

lemma keeps_unlimited_swallow: "keeps_unlimited m \<Longrightarrow> keeps_unlimited (kg_swallow m)"
  unfolding keeps_unlimited_def kg_swallow_def by (auto split: prod.splits sum.splits) (metis snd_conv)+

lemmas unlimited_rules = keeps_unlimited_basic keeps_unlimited_bind keeps_unlimited_then keeps_unlimited_when
  keeps_unlimited_each keeps_unlimited_guarded keeps_unlimited_swallow

lemma unlimited_rebuild_entity: "keeps_unlimited (rebuild_single_entity E rb name ids)"
proof -
  have u: "keeps_unlimited (refresh_entity E rb name d ids)" for d
    unfolding refresh_entity_def Let_def update_entity_storage_def by (auto intro!: unlimited_rules)
  show ?thesis unfolding rebuild_single_entity_def
    by (auto intro!: unlimited_rules u split: option.split)
qed

lemma unlimited_rebuild_relationship: "keeps_unlimited (rebuild_single_relationship E rb p ids)"
proof -
  have n: "keeps_unlimited (ensure_endpoint E p l v)" for l v
    unfolding ensure_endpoint_def by (intro unlimited_rules)
  have u: "keeps_unlimited (update_relation_storage E rb p d l)" for d l
    unfolding update_relation_storage_def by (auto intro!: unlimited_rules n)
  show ?thesis unfolding rebuild_single_relationship_def Let_def
    by (auto intro!: unlimited_rules u split: option.split)
qed

lemmas total_rules = kg_total_basic kg_total_bind kg_total_then kg_total_when kg_total_stage kg_total_each

lemma total_rebuild: "kg_total (rebuild_knowledge_from_chunks E False es rs)"
  unfolding rebuild_knowledge_from_chunks_def rebuild_task_def
  by (auto intro!: total_rules kg_total_swallow unlimited_rebuild_entity unlimited_rebuild_relationship)

lemma total_classify_nodes: "kg_total (classify_nodes rb C ds pl)"
  by (induction ds arbitrary: pl) (auto intro!: total_rules)

lemma total_classify_edges: "kg_total (classify_edges rb C ds pl)"
  by (induction ds arbitrary: pl) (auto intro!: total_rules simp: Let_def split_beta)

lemma total_apply_plan: "kg_total (apply_plan E False pl)"
  unfolding apply_plan_def update_chunk_tracking_def delete_relationships_def delete_entities_def insert_done_def
  by (intro total_rules total_rebuild)

lemma total_derived: "kg_total (purge_derived_kg_contributions E C ce cr extraE extraR False)"
proof -
  have a: "kg_total (resolve_candidates ce cr extraE extraR)"
    unfolding resolve_candidates_def by (auto intro!: total_rules split: option.split)
  have n: "kg_total (affected_nodes es)" for es unfolding affected_nodes_def by (simp add: total_rules(1-4))
  have e: "kg_total (affected_edges rs)" for rs unfolding affected_edges_def by (simp add: total_rules(1-4))
  show ?thesis unfolding purge_derived_kg_contributions_def
    by (auto intro!: total_rules a n e total_classify_nodes total_classify_edges total_apply_plan)
qed

lemma sure_of_total:
  assumes "kg_triple (on P) m (\<lambda>v. on (Q v)) (on X)" "kg_total m" "unrefused m"
  shows "sure P m Q X"
  unfolding sure_def ends_def
proof (intro conjI assms(1) allI impI)
  fix s :: kg_sys
  obtain r s' where r: "m s = (r, s')" by (cases "m s")
  have t: "\<exists>v s'. m s = (Inr v, s') \<and> ks_calls s' = None" if "ks_calls s = None"
    using assms(2) that by (simp add: kg_total_def)
  have u: "\<not> refusal e" if "m s = (Inl e, s')" for e s' using assms(3) that unfolding unrefused_def by blast
  show "case m s of (Inl e, s') \<Rightarrow> \<not> refusal e \<and> ks_calls s \<noteq> None | (Inr _, s') \<Rightarrow> ks_calls s = None \<longrightarrow> ks_calls s' = None"
    by (cases r) (use t u r in auto)
qed

section \<open>The state of the protocol\<close>

fun level :: "purge_phase option \<Rightarrow> nat" where
  "level None = 0"
| "level (Some phase) = Suc (phase_index phase)"

text \<open>The document's row with the journal of the purge, if any.\<close>

definition journaled :: "status_row \<Rightarrow> pystr \<Rightarrow> purge_phase option \<Rightarrow> status_row" where
  "journaled row operation phase =
     (case phase of None \<Rightarrow> row
      | Some p \<Rightarrow> row\<lparr>st_purge := Some \<lparr>pj_operation = Some operation, pj_phase = Some p\<rparr>\<rparr>)"

definition same_anchors :: "kg_state \<Rightarrow> kg_state \<Rightarrow> bool" where
  "same_anchors z x \<longleftrightarrow> kg_full_entities x = kg_full_entities z \<and> kg_full_relations x = kg_full_relations z"

definition same_chunks :: "kg_state \<Rightarrow> kg_state \<Rightarrow> bool" where
  "same_chunks z x \<longleftrightarrow> kg_chunk_vectors x = kg_chunk_vectors z \<and> kg_text_chunks x = kg_text_chunks z"

definition same_derived :: "kg_state \<Rightarrow> kg_state \<Rightarrow> bool" where
  "same_derived x y \<longleftrightarrow> kg_nodes y = kg_nodes x \<and> kg_edges y = kg_edges x
     \<and> kg_entity_chunks y = kg_entity_chunks x \<and> kg_relation_chunks y = kg_relation_chunks x"

definition chunks_gone :: "pystr list \<Rightarrow> kg_state \<Rightarrow> bool" where
  "chunks_gone C x \<longleftrightarrow> kg_chunk_vectors x \<inter> set C = {} \<and> kg_text_chunks x \<inter> set C = {}"

definition anchors_gone :: "kg_state \<Rightarrow> bool" where
  "anchors_gone x \<longleftrightarrow> kg_full_entities x = Absent \<and> kg_full_relations x = Absent"

text \<open>What a purge has to clean: the names in the anchors of \<open>z\<close> and in the row's patch journal.\<close>

definition purge_names :: "status_row \<Rightarrow> kg_state \<Rightarrow> pystr set" where
  "purge_names row z = candidate_names z None (fst (patch_journal_candidates (Some row)))"

definition purge_pairs :: "status_row \<Rightarrow> kg_state \<Rightarrow> (pystr \<times> pystr) set" where
  "purge_pairs row z = candidate_pairs z None (snd (patch_journal_candidates (Some row)))"

definition purge_clean :: "pystr list \<Rightarrow> status_row \<Rightarrow> kg_state \<Rightarrow> kg_state \<Rightarrow> bool" where
  "purge_clean C row z x \<longleftrightarrow> clean_all (set C) (purge_names row z) (purge_pairs row z) x"

text \<open>\<open>pm\<close> is the phase in memory and \<open>pd\<close> the phase on disk.\<close>

definition inv_at ::
    "status_row \<Rightarrow> pystr \<Rightarrow> pystr list \<Rightarrow> kg_state \<Rightarrow> purge_phase option \<Rightarrow> purge_phase option \<Rightarrow> kg_state \<Rightarrow> kg_state \<Rightarrow> bool" where
  "inv_at row operation C z pm pd x y \<longleftrightarrow>
     kg_status x = Some (journaled row operation pm) \<and> kg_status y = Some (journaled row operation pd)
     \<and> kg_wf x \<and> kg_wf y
     \<and> (2 \<le> level pm \<or> 2 \<le> level pd \<longrightarrow> purge_clean C row z x \<and> same_derived x y)
     \<and> (3 \<le> level pm \<or> 3 \<le> level pd \<longrightarrow> chunks_gone C x \<and> chunks_gone C y)
     \<and> (4 \<le> level pm \<or> 4 \<le> level pd \<longrightarrow> anchors_gone x \<and> anchors_gone y)
     \<and> (level pm < 2 \<or> level pd < 2 \<longrightarrow> same_chunks z x \<and> same_chunks z y)
     \<and> (level pm < 3 \<or> level pd < 3 \<longrightarrow> same_anchors z x \<and> same_anchors z y)"

definition purge_inv :: "status_row \<Rightarrow> pystr \<Rightarrow> pystr list \<Rightarrow> kg_state \<Rightarrow> kg_state \<Rightarrow> kg_state \<Rightarrow> bool" where
  "purge_inv row operation C z x y \<longleftrightarrow> (\<exists>pm pd. inv_at row operation C z pm pd x y)"

text \<open>
  A purge can start here: its anchors are there, and the journal, if any, is that of a completed purge of
  other chunks.
\<close>

definition purge_start :: "purge_env \<Rightarrow> pystr \<Rightarrow> pystr list \<Rightarrow> kg_state \<Rightarrow> bool" where
  "purge_start E doc_id C z \<longleftrightarrow> kg_status z \<noteq> None
     \<and> journal_phase (make_kg_purge_operation_id E doc_id C) (st_purge (the (kg_status z))) = Inr None
     \<and> anchor_usable (kg_full_entities z) \<and> anchor_usable (kg_full_relations z)
     \<and> (C = [] \<longrightarrow> anchor_names (kg_full_entities z) = [] \<and> anchor_names (kg_full_relations z) = [])
     \<and> kg_wf z"

lemma purge_clean_cong: "same_derived x y \<Longrightarrow> purge_clean C row z y = purge_clean C row z x"
  by (simp add: purge_clean_def clean_all_def clean_entity_def clean_relation_def relation_row_def same_derived_def)

lemma inv_at_copy:
  assumes "inv_at row operation C z pm pd x y"
  shows "inv_at row operation C z pm (if P C_Status then pm else pd) x (copy P x y)"
  using assms kg_wf_copy [of x y P]
  by (auto simp: inv_at_def same_derived_def chunks_gone_def anchors_gone_def same_chunks_def same_anchors_def)

lemma inv_at_swap:
  assumes "inv_at row operation C z pm pd x y"
  shows "inv_at row operation C z pd pm y x"
  using assms purge_clean_cong [of x y C row z]
  by (auto simp: inv_at_def same_derived_def)

lemma inv_at_same:
  assumes "inv_at row operation C z pm pd x y"
  shows "inv_at row operation C z pm pm x x"
  using assms by (auto simp: inv_at_def same_derived_def)

lemma purge_inv_flush: "purge_inv row operation C z x y \<Longrightarrow> purge_inv row operation C z x (copy P x y)"
  unfolding purge_inv_def using inv_at_copy by blast

lemma purge_inv_crash: "purge_inv row operation C z x y \<Longrightarrow> purge_inv row operation C z (copy P x y) (copy P x y)"
  unfolding purge_inv_def using inv_at_same [OF inv_at_swap [OF inv_at_copy]] by blast

section \<open>One attempt\<close>

definition purge_proof :: "status_row \<Rightarrow> pystr \<Rightarrow> purge_phase option \<Rightarrow> recovery_proof" where
  "purge_proof row operation p =
     \<lparr>pr_kind = Some (if level p < 2 then By_Anchors else By_Journal), pr_operation = operation, pr_phase = p,
      pr_missing = None, pr_patch_entities = fst (patch_journal_candidates (Some row)),
      pr_patch_relations = snd (patch_journal_candidates (Some row))\<rparr>"

lemma patch_journaled [simp]:
  "patch_journal_candidates (Some (journaled row operation p)) = patch_journal_candidates (Some row)"
  by (cases p) (simp_all add: journaled_def patch_journal_candidates_def)

lemma journaled_again [simp]:
  "journaled row operation p\<lparr>st_purge := Some \<lparr>pj_operation = Some operation, pj_phase = Some q\<rparr>\<rparr>
     = journaled row operation (Some q)"
  by (cases p) (simp_all add: journaled_def)

lemma low_level: "level p < 2 \<longleftrightarrow> p = None \<or> p = Some Prepared"
  by (cases p; cases "the p") auto

lemma resolve_triple:
  assumes s: "purge_start E doc_id C z" and op: "operation = make_kg_purge_operation_id E doc_id C"
    and row: "kg_status z = Some row"
  shows "sure (inv_at row operation C z p p) (resolve_purge_recovery_proof E doc_id C)
    (\<lambda>pf x y. inv_at row operation C z p p x y \<and> pf = purge_proof row operation p) (purge_inv row operation C z)"
    (is "sure ?I _ ?Q ?X")
proof -
  have X: "?I x y \<Longrightarrow> ?X x y" for x y by (auto simp: purge_inv_def)
  have j: "journal_phase operation (st_purge (journaled row operation p)) = Inr p"
    using s op row by (cases p) (simp_all add: purge_start_def journaled_def journal_phase_def)
  let ?pf = "\<lparr>pr_kind = None, pr_operation = operation, pr_phase = p, pr_missing = None,
     pr_patch_entities = fst (patch_journal_candidates (Some row)),
     pr_patch_relations = snd (patch_journal_candidates (Some row))\<rparr>"
  let ?rows = "kg_bind (kg_read kg_full_entities) (\<lambda>e. kg_bind (kg_read kg_full_relations) (\<lambda>r.
     case proof_from_rows C (st_write (journaled row operation p)) e r of
       (kind, missing) \<Rightarrow> kg_return (?pf\<lparr>pr_kind := kind, pr_missing := missing\<rparr>)))"
  have rows: "sure ?I ?rows ?Q ?X" if "level p < 2"
  proof (rule sure_bind [OF sure_read [OF X] sure_bind [OF sure_read]])
    fix e r
    show "sure (\<lambda>x y. (?I x y \<and> e = kg_full_entities x) \<and> r = kg_full_relations x)
      (case proof_from_rows C (st_write (journaled row operation p)) e r of
         (kind, missing) \<Rightarrow> kg_return (?pf\<lparr>pr_kind := kind, pr_missing := missing\<rparr>)) ?Q ?X"
    proof (cases "e = kg_full_entities z \<and> r = kg_full_relations z")
      case True
      then have "proof_from_rows C (st_write (journaled row operation p)) e r = (Some By_Anchors, None)"
        using s by (auto simp: purge_start_def proof_from_rows_def)
      then show ?thesis using that by (auto intro!: sure_return simp: purge_proof_def)
    next
      case False
      then have "sure (\<lambda>x y. False) m ?Q ?X" for m by (simp add: sure_def ends_def kg_triple_def on_def)
      then show ?thesis by (rule sure_pre) (use False that in \<open>auto simp: inv_at_def same_anchors_def\<close>)
    qed
  qed (auto intro: X)
  let ?body = "\<lambda>v. let operation_id = make_kg_purge_operation_id E doc_id C;
           journal = (case v of None \<Rightarrow> None | Some row \<Rightarrow> st_purge row);
           write = (case v of None \<Rightarrow> None | Some row \<Rightarrow> st_write row);
           (patch_entities, patch_relations) = patch_journal_candidates v
       in (case journal_phase operation_id journal of
             Inl e \<Rightarrow> kg_raise e
           | Inr phase \<Rightarrow>
               (let pf = \<lparr>pr_kind = None, pr_operation = operation_id, pr_phase = phase, pr_missing = None,
                          pr_patch_entities = patch_entities, pr_patch_relations = patch_relations\<rparr>
                in if phase \<noteq> None \<and> phase \<noteq> Some Prepared then kg_return (pf\<lparr>pr_kind := Some By_Journal\<rparr>)
                   else kg_bind (kg_read kg_full_entities) (\<lambda>entities_row.
                          kg_bind (kg_read kg_full_relations) (\<lambda>relations_row.
                            case proof_from_rows C write entities_row relations_row of
                              (kind, missing) \<Rightarrow> kg_return (pf\<lparr>pr_kind := kind, pr_missing := missing\<rparr>)))))"
  have body: "?body (Some (journaled row operation p)) =
      (if p \<noteq> None \<and> p \<noteq> Some Prepared then kg_return (?pf\<lparr>pr_kind := Some By_Journal\<rparr>) else ?rows)"
    unfolding op [symmetric] Let_def by (simp only: option.case j sum.case patch_journaled split_beta)
  have step: "sure ?I (?body (Some (journaled row operation p))) ?Q ?X"
  proof (cases "level p < 2")
    case True
    then have "\<not> (p \<noteq> None \<and> p \<noteq> Some Prepared)" by (auto simp: low_level)
    then show ?thesis unfolding body using rows [OF True] by (simp only: if_False)
  next
    case False
    then have "p \<noteq> None \<and> p \<noteq> Some Prepared" by (auto simp: low_level)
    then show ?thesis unfolding body using False by (auto intro!: sure_return simp: purge_proof_def)
  qed
  show ?thesis unfolding resolve_purge_recovery_proof_def
  proof (rule sure_bind [OF sure_read [OF X]])
    fix v
    show "sure (\<lambda>x y. ?I x y \<and> v = kg_status x) (?body v) ?Q ?X"
    proof (cases "v = Some (journaled row operation p)")
      case True
      show ?thesis unfolding True by (rule sure_pre [OF step]) blast
    next
      case False
      then have "sure (\<lambda>x y. False) m ?Q ?X" for m by (simp add: sure_def ends_def kg_triple_def on_def)
      then show ?thesis by (rule sure_pre) (use False in \<open>auto simp: inv_at_def\<close>)
    qed
  qed
qed

lemma record_triple:
  assumes "\<And>x y. Pre x y \<Longrightarrow> inv_at row operation C z p p x y"
    and "\<And>x y. Pre x y \<Longrightarrow> inv_at row operation C z (Some q) p (x\<lparr>kg_status := Some (journaled row operation (Some q))\<rparr>) y"
  shows "sure Pre (write_kg_purge_phase E q operation) (\<lambda>_. inv_at row operation C z (Some q) (Some q))
    (purge_inv row operation C z)" (is "sure _ _ ?Q ?X")
proof -
  let ?w = "kg_write (pe_fault E) (\<lambda>x. x\<lparr>kg_status := Some (journaled row operation (Some q))\<rparr>)"
  have w: "sure Pre ?w (\<lambda>_. inv_at row operation C z (Some q) p) ?X"
    by (rule sure_write) (use assms in \<open>unfold purge_inv_def, blast+\<close>)
  have f: "sure (inv_at row operation C z (Some q) p) (kg_flush (pe_fault E) (\<lambda>c. c = C_Status)) ?Q ?X"
  proof (rule sure_flush)
    fix x y assume "inv_at row operation C z (Some q) p x y"
    from inv_at_copy [OF this, of "\<lambda>c. c = C_Status"]
    show "inv_at row operation C z (Some q) (Some q) x (copy (\<lambda>c. c = C_Status) x y)" by simp
  qed (use inv_at_copy in \<open>unfold purge_inv_def, blast\<close>)
  show ?thesis unfolding write_kg_purge_phase_def
  proof (rule sure_bind [OF sure_read])
    fix v
    show "sure (\<lambda>x y. Pre x y \<and> v = kg_status x)
      (case v of None \<Rightarrow> kg_raise Storage_Record_Not_Found
       | Some row \<Rightarrow> kg_then (kg_write (pe_fault E) (\<lambda>x. x\<lparr>kg_status :=
                      Some (row\<lparr>st_purge := Some \<lparr>pj_operation = Some operation, pj_phase = Some q\<rparr>\<rparr>)\<rparr>))
                   (kg_flush (pe_fault E) (\<lambda>c. c = C_Status))) ?Q ?X"
    proof (cases "v = Some (journaled row operation p)")
      case True
      show ?thesis unfolding True option.case journaled_again by (rule sure_then [OF sure_pre [OF w] f]) simp
    next
      case False
      then have "sure (\<lambda>x y. False) m ?Q ?X" for m by (simp add: sure_def ends_def kg_triple_def on_def)
      then show ?thesis by (rule sure_pre) (use False assms(1) in \<open>auto simp: inv_at_def\<close>)
    qed
  qed (use assms in \<open>auto simp: purge_inv_def\<close>)
qed

text \<open>The stages, each from the phase before it.\<close>

lemma derived_stage:
  assumes "level p < 2" and row: "kg_status z = Some row"
  shows "sure (inv_at row operation C z p p)
    (purge_derived_kg_contributions E C None None (fst (patch_journal_candidates (Some row)))
       (snd (patch_journal_candidates (Some row))) False)
    (\<lambda>_ x y. inv_at row operation C z p p x y \<and> purge_clean C row z x \<and> y = x) (purge_inv row operation C z)"
proof -
  let ?z = "z\<lparr>kg_status := Some (journaled row operation p)\<rparr>"
  have f: "framed ?z x y \<longleftrightarrow> inv_at row operation C z p p x y" for x y
    using assms(1) by (auto simp: framed_def same_frame_def inv_at_def same_anchors_def same_chunks_def)
  have "sure (framed ?z) (purge_derived_kg_contributions E C None None (fst (patch_journal_candidates (Some row)))
       (snd (patch_journal_candidates (Some row))) False)
    (\<lambda>_ x y. framed ?z x y \<and> purge_clean C row z x \<and> y = x) (framed ?z)"
    using sure_of_total [OF purge_derived_triple [of ?z E C None None "fst (patch_journal_candidates (Some row))"
        "snd (patch_journal_candidates (Some row))" False] total_derived unrefused_derived]
    by (simp add: purge_clean_def purge_names_def purge_pairs_def candidate_names_def candidate_pairs_def)
  then show ?thesis by (rule sure_conseq) (auto simp: f purge_inv_def)
qed

lemma chunk_stage:
  "sure (inv_at row operation C z (Some Derived_Committed) (Some Derived_Committed))
     (kg_then (kg_write F (\<lambda>x. x\<lparr>kg_chunk_vectors := kg_chunk_vectors x - set C\<rparr>))
        (kg_then (kg_write F (\<lambda>x. x\<lparr>kg_text_chunks := kg_text_chunks x - set C\<rparr>))
           (kg_flush F (\<lambda>c. c = C_Chunk_Vectors \<or> c = C_Text_Chunks))))
     (\<lambda>_ x y. inv_at row operation C z (Some Derived_Committed) (Some Derived_Committed) x y
        \<and> chunks_gone C x \<and> chunks_gone C y) (purge_inv row operation C z)" (is "sure ?I _ _ ?X")
proof -
  have X: "?I x y \<Longrightarrow> ?X x y" for x y by (auto simp: purge_inv_def)
  have v: "?I (x\<lparr>kg_chunk_vectors := V\<rparr>) y = ?I x y" "?I (x\<lparr>kg_text_chunks := V\<rparr>) y = ?I x y" for x y V
    by (simp_all add: inv_at_def purge_clean_def clean_all_def clean_entity_def clean_relation_def relation_row_def
        same_derived_def kg_wf_def graph_wf_def rows_wf_def same_anchors_def)
  let ?v = "\<lambda>x y. ?I x y \<and> kg_chunk_vectors x \<inter> set C = {}"
  show ?thesis
  proof (rule sure_then [where R = ?v, OF sure_write sure_then [where R = "\<lambda>x y. ?I x y \<and> chunks_gone C x",
          OF sure_write sure_flush]])
    fix x y assume "?I x y \<and> chunks_gone C x"
    moreover have "?I x (copy (\<lambda>c. c = C_Chunk_Vectors \<or> c = C_Text_Chunks) x y)"
      using inv_at_copy [of row operation C z _ _ x y "\<lambda>c. c = C_Chunk_Vectors \<or> c = C_Text_Chunks"] calculation by force
    ultimately show "?I x (copy (\<lambda>c. c = C_Chunk_Vectors \<or> c = C_Text_Chunks) x y) \<and> chunks_gone C x
        \<and> chunks_gone C (copy (\<lambda>c. c = C_Chunk_Vectors \<or> c = C_Text_Chunks) x y)"
      by (simp add: chunks_gone_def)
  next
    fix x y D assume "?I x y \<and> chunks_gone C x"
    then show "?X x (copy D x y)" using purge_inv_flush X by blast
  qed (auto simp: v chunks_gone_def intro: X)
qed

lemma anchor_stage:
  "sure (inv_at row operation C z (Some Anchors_Pending) (Some Anchors_Pending))
     (kg_then (kg_write F (\<lambda>x. x\<lparr>kg_full_entities := Absent\<rparr>))
        (kg_then (kg_write F (\<lambda>x. x\<lparr>kg_full_relations := Absent\<rparr>))
           (kg_flush F (\<lambda>c. c = C_Full_Entities \<or> c = C_Full_Relations))))
     (\<lambda>_ x y. inv_at row operation C z (Some Anchors_Pending) (Some Anchors_Pending) x y
        \<and> anchors_gone x \<and> anchors_gone y) (purge_inv row operation C z)" (is "sure ?I _ _ ?X")
proof -
  have X: "?I x y \<Longrightarrow> ?X x y" for x y by (auto simp: purge_inv_def)
  have v: "?I (x\<lparr>kg_full_entities := V\<rparr>) y = ?I x y" "?I (x\<lparr>kg_full_relations := U\<rparr>) y = ?I x y" for x y V U
    by (simp_all add: inv_at_def purge_clean_def clean_all_def clean_entity_def clean_relation_def relation_row_def
        same_derived_def kg_wf_def graph_wf_def rows_wf_def same_chunks_def chunks_gone_def)
  let ?v = "\<lambda>x y. ?I x y \<and> kg_full_entities x = Absent"
  show ?thesis
  proof (rule sure_then [where R = ?v, OF sure_write sure_then [where R = "\<lambda>x y. ?I x y \<and> anchors_gone x",
          OF sure_write sure_flush]])
    fix x y assume "?I x y \<and> anchors_gone x"
    moreover have "?I x (copy (\<lambda>c. c = C_Full_Entities \<or> c = C_Full_Relations) x y)"
      using inv_at_copy [of row operation C z _ _ x y "\<lambda>c. c = C_Full_Entities \<or> c = C_Full_Relations"] calculation by force
    ultimately show "?I x (copy (\<lambda>c. c = C_Full_Entities \<or> c = C_Full_Relations) x y) \<and> anchors_gone x
        \<and> anchors_gone (copy (\<lambda>c. c = C_Full_Entities \<or> c = C_Full_Relations) x y)"
      by (simp add: anchors_gone_def)
  next
    fix x y D assume "?I x y \<and> anchors_gone x"
    then show "?X x (copy D x y)" using purge_inv_flush X by blast
  qed (auto simp: v anchors_gone_def intro: X)
qed

lemma inv_at_advance:
  assumes "inv_at row operation C z p p x y" and "level p \<le> level (Some q)"
    and "2 \<le> level (Some q) \<Longrightarrow> purge_clean C row z x \<and> same_derived x y"
    and "3 \<le> level (Some q) \<Longrightarrow> chunks_gone C x \<and> chunks_gone C y"
    and "4 \<le> level (Some q) \<Longrightarrow> anchors_gone x \<and> anchors_gone y"
  shows "inv_at row operation C z (Some q) p (x\<lparr>kg_status := Some (journaled row operation (Some q))\<rparr>) y"
proof -
  let ?x = "x\<lparr>kg_status := Some (journaled row operation (Some q))\<rparr>"
  have v: "purge_clean C row z ?x = purge_clean C row z x" "same_derived ?x y = same_derived x y"
    "chunks_gone C ?x = chunks_gone C x" "anchors_gone ?x = anchors_gone x" "same_chunks z ?x = same_chunks z x"
    "same_anchors z ?x = same_anchors z x" "kg_wf ?x = kg_wf x"
    by (simp_all add: purge_clean_def clean_all_def clean_entity_def clean_relation_def relation_row_def same_derived_def
        chunks_gone_def anchors_gone_def same_chunks_def same_anchors_def kg_wf_def graph_wf_def rows_wf_def)
  show ?thesis using assms unfolding inv_at_def v by auto
qed

lemma anchors_to_completed:
  "sure (inv_at row operation C z (Some Anchors_Pending) (Some Anchors_Pending))
     (kg_then (kg_stage ''delete_doc_graph_metadata''
        (kg_then (kg_write (pe_fault E) (\<lambda>x. x\<lparr>kg_full_entities := Absent\<rparr>))
           (kg_then (kg_write (pe_fault E) (\<lambda>x. x\<lparr>kg_full_relations := Absent\<rparr>))
              (kg_flush (pe_fault E) (\<lambda>c. c = C_Full_Entities \<or> c = C_Full_Relations)))))
        (write_kg_purge_phase E Completed operation))
     (\<lambda>_. inv_at row operation C z (Some Completed) (Some Completed)) (purge_inv row operation C z)"
proof (rule sure_then [OF sure_stage [OF anchor_stage] record_triple])
  fix x y
  assume a: "inv_at row operation C z (Some Anchors_Pending) (Some Anchors_Pending) x y \<and> anchors_gone x \<and> anchors_gone y"
  then show "inv_at row operation C z (Some Anchors_Pending) (Some Anchors_Pending) x y" ..
  show "inv_at row operation C z (Some Completed) (Some Anchors_Pending)
      (x\<lparr>kg_status := Some (journaled row operation (Some Completed))\<rparr>) y"
    by (rule inv_at_advance) (use a in \<open>auto simp: inv_at_def\<close>)
qed

lemma chunks_to_anchors:
  "sure (inv_at row operation C z (Some Derived_Committed) (Some Derived_Committed))
     (kg_then (kg_when (C \<noteq> []) (kg_stage ''delete_chunks''
        (kg_then (kg_write (pe_fault E) (\<lambda>x. x\<lparr>kg_chunk_vectors := kg_chunk_vectors x - set C\<rparr>))
           (kg_then (kg_write (pe_fault E) (\<lambda>x. x\<lparr>kg_text_chunks := kg_text_chunks x - set C\<rparr>))
              (kg_flush (pe_fault E) (\<lambda>c. c = C_Chunk_Vectors \<or> c = C_Text_Chunks))))))
        (write_kg_purge_phase E Anchors_Pending operation))
     (\<lambda>_. inv_at row operation C z (Some Anchors_Pending) (Some Anchors_Pending)) (purge_inv row operation C z)"
proof (rule sure_then [OF sure_when [OF sure_stage [OF chunk_stage]] record_triple])
  fix x y
  assume "\<not> C \<noteq> []" "inv_at row operation C z (Some Derived_Committed) (Some Derived_Committed) x y"
  then show "inv_at row operation C z (Some Derived_Committed) (Some Derived_Committed) x y
      \<and> chunks_gone C x \<and> chunks_gone C y" by (simp add: chunks_gone_def)
next
  fix x y
  assume a: "inv_at row operation C z (Some Derived_Committed) (Some Derived_Committed) x y
      \<and> chunks_gone C x \<and> chunks_gone C y"
  then show "inv_at row operation C z (Some Derived_Committed) (Some Derived_Committed) x y" ..
  show "inv_at row operation C z (Some Anchors_Pending) (Some Derived_Committed)
      (x\<lparr>kg_status := Some (journaled row operation (Some Anchors_Pending))\<rparr>) y"
    by (rule inv_at_advance) (use a in \<open>auto simp: inv_at_def\<close>)
qed

lemma prepared_to_derived:
  assumes "level p < 2" "kg_status z = Some row"
  shows "sure (inv_at row operation C z p p)
     (kg_then (purge_derived_kg_contributions E C None None (fst (patch_journal_candidates (Some row)))
                 (snd (patch_journal_candidates (Some row))) False)
        (write_kg_purge_phase E Derived_Committed operation))
     (\<lambda>_. inv_at row operation C z (Some Derived_Committed) (Some Derived_Committed)) (purge_inv row operation C z)"
proof (rule sure_then [OF derived_stage [OF assms] record_triple])
  fix x y
  assume a: "inv_at row operation C z p p x y \<and> purge_clean C row z x \<and> y = x"
  then show "inv_at row operation C z p p x y" ..
  show "inv_at row operation C z (Some Derived_Committed) p
      (x\<lparr>kg_status := Some (journaled row operation (Some Derived_Committed))\<rparr>) y"
    by (rule inv_at_advance) (use a assms(1) in \<open>auto simp: same_derived_def\<close>)
qed

lemma none_to_prepared:
  "sure (inv_at row operation C z None None) (write_kg_purge_phase E Prepared operation)
     (\<lambda>_. inv_at row operation C z (Some Prepared) (Some Prepared)) (purge_inv row operation C z)"
  by (rule record_triple, assumption) (rule inv_at_advance, simp_all)

lemma proof_fields [simp]:
  "pr_operation (purge_proof row operation p) = operation" "pr_phase (purge_proof row operation p) = p"
  "pr_patch_entities (purge_proof row operation p) = fst (patch_journal_candidates (Some row))"
  "pr_patch_relations (purge_proof row operation p) = snd (patch_journal_candidates (Some row))"
  "pr_kind (purge_proof row operation p) = Some (if level p < 2 then By_Anchors else By_Journal)"
  by (simp_all add: purge_proof_def)

lemma proof_phase [simp]: "phase_at_least (purge_proof row operation p) q \<longleftrightarrow> level (Some q) \<le> level p"
  by (cases p) (simp_all add: phase_at_least_def)

lemma kg_when_simps: "kg_when True m = m" "kg_when False m = kg_return ()"
  by (simp_all add: kg_when_def)

lemma kg_then_assoc: "kg_then (kg_then a b) c = kg_then a (kg_then b c)"
  unfolding kg_then_def kg_bind_def by (rule ext) (simp split: prod.split sum.split)

lemma kg_then_return: "kg_then (kg_return ()) m = m"
  unfolding kg_then_def kg_bind_def kg_return_def by (rule ext) simp

lemma steps_triple:
  assumes row: "kg_status z = Some row" and pq: "p = q \<or> p = None \<and> q = Some Prepared" "q \<noteq> None" "p \<noteq> Some Completed"
  shows "sure (inv_at row operation C z q q) (purge_steps E C (Some (purge_proof row operation p)) None None False False)
    (\<lambda>_. inv_at row operation C z (Some Completed) (Some Completed)) (purge_inv row operation C z)"
proof -
  note tail = sure_then [OF chunks_to_anchors anchors_to_completed, unfolded kg_then_assoc]
  consider "level p < 2" "q = Some Prepared" | "p = Some Derived_Committed" "q = p" | "p = Some Anchors_Pending" "q = p"
    using pq by (cases p; cases "the p") auto
  then show ?thesis
  proof cases
    case 1
    have n: "\<not> Suc (phase_index Derived_Committed) \<le> level p" "\<not> Suc (phase_index Anchors_Pending) \<le> level p"
      using 1 by auto
    show ?thesis unfolding purge_steps_def Let_def 1(2)
      by (simp add: n kg_when_simps del: phase_index.simps)
        (rule sure_then [OF prepared_to_derived [OF _ row] tail], simp)
  next
    case 2
    show ?thesis unfolding purge_steps_def Let_def 2 by (simp add: kg_when_simps kg_then_return) (rule tail)
  next
    case 3
    show ?thesis unfolding purge_steps_def Let_def 3
      by (simp add: kg_when_simps kg_then_return) (rule anchors_to_completed)
  qed
qed

lemma attempt_triple:
  assumes s: "purge_start E doc_id C z" and op: "operation = make_kg_purge_operation_id E doc_id C"
    and row: "kg_status z = Some row"
  shows "sure (inv_at row operation C z p p) (purge_doc_chunks_and_kg E doc_id C)
    (\<lambda>_. inv_at row operation C z (Some Completed) (Some Completed)) (purge_inv row operation C z)"
    (is "sure _ _ ?Q ?X")
proof -
  let ?I = "\<lambda>p. inv_at row operation C z p p"
  have body: "sure (?I p)
     (if phase_at_least (purge_proof row operation p) Completed then kg_return ()
      else kg_then (kg_when (p = None) (write_kg_purge_phase E Prepared operation))
             (purge_steps E C (Some (purge_proof row operation p)) None None False False)) ?Q ?X"
  proof (cases "p = Some Completed")
    case True
    then show ?thesis by (auto intro: sure_return)
  next
    case False
    then have n: "\<not> phase_at_least (purge_proof row operation p) Completed"
      by (cases p; cases "the p") auto
    show ?thesis unfolding if_not_P [OF n]
    proof (cases p)
      case None
      show "sure (?I p) (kg_then (kg_when (p = None) (write_kg_purge_phase E Prepared operation))
             (purge_steps E C (Some (purge_proof row operation p)) None None False False)) ?Q ?X"
        unfolding None by (simp add: kg_when_simps)
          (rule sure_then [OF none_to_prepared steps_triple [OF row]], simp_all)
    next
      case (Some ph)
      show "sure (?I p) (kg_then (kg_when (p = None) (write_kg_purge_phase E Prepared operation))
             (purge_steps E C (Some (purge_proof row operation p)) None None False False)) ?Q ?X"
        using False Some by (simp add: kg_when_simps kg_then_return) (rule steps_triple [OF row], simp_all)
    qed
  qed
  show ?thesis unfolding purge_doc_chunks_and_kg_def purge_kg_contributions_def
  proof (simp only: simp_thms if_True, rule sure_bind [OF resolve_triple [OF s op row]], rule sure_fact)
    fix pf assume pf: "pf = purge_proof row operation p"
    show "sure (?I p) (if phase_at_least pf Completed then kg_return ()
             else (case pr_kind pf of
                     None \<Rightarrow> kg_raise (Recovery_Anchor_Missing
                              (case pr_missing pf of None \<Rightarrow> Missing_Anchor_Rows | Some r \<Rightarrow> r))
                   | Some kind \<Rightarrow>
                       (let explicit = (kind = By_Pre_Graph \<or> kind = By_Empty_Scope)
                        in kg_then (kg_when (pr_phase pf = None) (write_kg_purge_phase E Prepared (pr_operation pf)))
                             (purge_steps E C (Some pf) (if explicit then Some [] else None)
                                (if explicit then Some [] else None) False False)))) ?Q ?X"
      using body by (auto simp: pf Let_def)
  qed
qed

section \<open>Runs\<close>

text \<open>
  Attempts with any environment (of the same hash), each stopped at any call or not at all; flushes of any
  storages; crashes, after which memory is what the disk has, a storage that writes through having everything.
  An attempt starts when the document's status row is on disk as it is in memory.
\<close>

inductive purge_run :: "purge_env \<Rightarrow> pystr \<Rightarrow> pystr list \<Rightarrow> kg_state \<Rightarrow> kg_sys \<Rightarrow> bool"
  for E :: purge_env and doc_id :: pystr and C :: "pystr list" and z :: kg_state where
  run_start: "purge_run E doc_id C z \<lparr>ks_mem = z, ks_disk = z, ks_calls = n\<rparr>"
| run_attempt: "purge_run E doc_id C z s \<Longrightarrow> kg_status (ks_mem s) = kg_status (ks_disk s) \<Longrightarrow> pe_md5 E' = pe_md5 E
    \<Longrightarrow> purge_run E doc_id C z (snd (purge_doc_chunks_and_kg E' doc_id C (s\<lparr>ks_calls := n\<rparr>)))"
| run_flush: "purge_run E doc_id C z s \<Longrightarrow> purge_run E doc_id C z (s\<lparr>ks_disk := copy P (ks_mem s) (ks_disk s)\<rparr>)"
| run_crash: "purge_run E doc_id C z s \<Longrightarrow> purge_run E doc_id C z
    (s\<lparr>ks_mem := copy P (ks_mem s) (ks_disk s), ks_disk := copy P (ks_mem s) (ks_disk s), ks_calls := n\<rparr>)"

lemma operation_cong:
  "pe_md5 E' = pe_md5 E \<Longrightarrow> make_kg_purge_operation_id E' doc_id C = make_kg_purge_operation_id E doc_id C"
  by (simp add: make_kg_purge_operation_id_def compute_mdhash_id_def Let_def)

lemma start_cong: "pe_md5 E' = pe_md5 E \<Longrightarrow> purge_start E doc_id C z \<Longrightarrow> purge_start E' doc_id C z"
  using operation_cong [of E' E doc_id C] by (simp add: purge_start_def)

lemma journal_of_journaled:
  "journal_phase operation (st_purge row) = Inr None \<Longrightarrow> journal_phase operation (st_purge (journaled row operation p)) = Inr p"
  by (cases p) (simp_all add: journaled_def journal_phase_def)

lemma settled_level:
  assumes "purge_inv row operation C z x y" "kg_status x = kg_status y"
    and "journal_phase operation (st_purge row) = Inr None"
  shows "\<exists>p. inv_at row operation C z p p x y"
proof -
  obtain pm pd where i: "inv_at row operation C z pm pd x y" using assms(1) by (auto simp: purge_inv_def)
  have "journaled row operation pm = journaled row operation pd"
    using i assms(2) unfolding inv_at_def by (metis option.inject)
  then have "pm = pd" using journal_of_journaled [OF assms(3)] by (metis sum.inject(2))
  with i show ?thesis by blast
qed

lemma purge_invariant:
  assumes "purge_run E doc_id C z s" and "purge_start E doc_id C z"
  shows "purge_inv (the (kg_status z)) (make_kg_purge_operation_id E doc_id C) C z (ks_mem s) (ks_disk s)"
    (is "purge_inv ?row ?op C z _ _")
  using assms(1)
proof induction
  case (run_start n)
  have "inv_at ?row ?op C z None None z z"
    using assms(2) by (auto simp: inv_at_def purge_start_def journaled_def same_anchors_def same_chunks_def)
  then show ?case by (auto simp: purge_inv_def)
next
  case (run_attempt s E' n)
  have st: "purge_start E' doc_id C z" by (rule start_cong [OF run_attempt.hyps(3) assms(2)])
  have row: "kg_status z = Some ?row" using assms(2) by (simp add: purge_start_def)
  obtain p where p: "inv_at ?row ?op C z p p (ks_mem s) (ks_disk s)"
    using settled_level [OF run_attempt.IH run_attempt.hyps(2)] assms(2) by (auto simp: purge_start_def)
  note T = attempt_triple [OF st operation_cong [OF run_attempt.hyps(3), of doc_id C, symmetric] row, of p]
  let ?s = "s\<lparr>ks_calls := n\<rparr>"
  have pre: "inv_at ?row ?op C z p p (ks_mem ?s) (ks_disk ?s)" using p by simp
  obtain r s' where r: "purge_doc_chunks_and_kg E' doc_id C ?s = (r, s')" by (cases "purge_doc_chunks_and_kg E' doc_id C ?s")
  show ?case
  proof (cases r)
    case (Inl e)
    then show ?thesis using sureD(2) [OF T pre] r by simp
  next
    case (Inr u)
    then have "inv_at ?row ?op C z (Some Completed) (Some Completed) (ks_mem s') (ks_disk s')"
      using sureD(1) [OF T pre] r by simp
    then show ?thesis using r by (auto simp: purge_inv_def)
  qed
next
  case (run_flush s P)
  then show ?case by (simp add: purge_inv_flush)
next
  case (run_crash s P n)
  then show ?case by (simp add: purge_inv_crash)
qed

text \<open>What the next attempt finds, when the run is in a state in which it may start.\<close>

lemma next_attempt:
  assumes "purge_run E doc_id C z s" and "purge_start E doc_id C z"
    and "kg_status (ks_mem s) = kg_status (ks_disk s)" and "pe_md5 E' = pe_md5 E"
  obtains p where "inv_at (the (kg_status z)) (make_kg_purge_operation_id E doc_id C) C z p p (ks_mem s) (ks_disk s)"
    "sure (inv_at (the (kg_status z)) (make_kg_purge_operation_id E doc_id C) C z p p) (purge_doc_chunks_and_kg E' doc_id C)
      (\<lambda>_. inv_at (the (kg_status z)) (make_kg_purge_operation_id E doc_id C) C z (Some Completed) (Some Completed))
      (purge_inv (the (kg_status z)) (make_kg_purge_operation_id E doc_id C) C z)"
proof -
  let ?row = "the (kg_status z)" and ?op = "make_kg_purge_operation_id E doc_id C"
  have row: "kg_status z = Some ?row" using assms(2) by (simp add: purge_start_def)
  obtain p where p: "inv_at ?row ?op C z p p (ks_mem s) (ks_disk s)"
    using settled_level [OF purge_invariant [OF assms(1,2)] assms(3)] assms(2) by (auto simp: purge_start_def)
  show ?thesis
    by (rule that [OF p attempt_triple [OF start_cong [OF assms(4,2)] operation_cong [OF assms(4), symmetric] row]])
qed

lemma inv_at_order:
  assumes "inv_at row operation C z pm pd x y"
  shows "(same_chunks z x \<or> purge_clean C row z x) \<and> (same_anchors z x \<or> purge_clean C row z x \<and> chunks_gone C x)"
proof (cases "level pm < 2 \<or> level pd < 2")
  case True
  then have "level pm < 3 \<or> level pd < 3" by auto
  with True assms show ?thesis unfolding inv_at_def by blast
next
  case False
  then have c: "purge_clean C row z x" using assms unfolding inv_at_def by (meson linorder_not_less)
  show ?thesis
  proof (cases "level pm < 3 \<or> level pd < 3")
    case True
    with c assms show ?thesis unfolding inv_at_def by blast
  next
    case False
    then have "chunks_gone C x" using assms unfolding inv_at_def by (meson linorder_not_less)
    with c show ?thesis by blast
  qed
qed

text \<open>The parts of an attempt that come before its first write, and those that refuse nothing.\<close>

lemma unrefused_basic: "unrefused (kg_read g)" "unrefused (kg_write F f)" "unrefused (kg_flush F P)"
  by (auto simp: unrefused_def kg_read_def kg_write_def kg_flush_def refusal_def split: option.splits nat.splits)

lemma unrefused_record: "unrefused (write_kg_purge_phase E q operation)"
proof -
  have "unrefused (kg_raise Storage_Record_Not_Found)" by (simp add: unrefused_def kg_raise_def refusal_def)
  then show ?thesis unfolding write_kg_purge_phase_def
    by (auto intro!: unrefused_bind unrefused_then unrefused_basic split: option.split)
qed

lemma unrefused_steps: "unrefused (purge_steps E C (Some pf) ce cr po rb)"
  unfolding purge_steps_def Let_def option.case
  by (intro unrefused_then unrefused_when unrefused_stage unrefused_record unrefused_derived)

lemma resolve_only_reads:
  "kg_triple (on (\<lambda>x y. x = a \<and> y = b)) (resolve_purge_recovery_proof E doc_id C) (\<lambda>_. on (\<lambda>x y. x = a \<and> y = b))
     (on (\<lambda>x y. x = a \<and> y = b))" (is "kg_triple ?P _ ?Q ?X")
proof -
  have r: "kg_triple ?P (kg_read g) (\<lambda>_. ?P) ?X" for g :: "kg_state \<Rightarrow> 'b"
    by (rule on_conseq [OF on_read [of "\<lambda>x y. x = a \<and> y = b" "\<lambda>x y. x = a \<and> y = b"]]) simp_all
  have v: "kg_triple ?P (kg_return v) ?Q ?X" for v :: recovery_proof by (rule on_return)
  have e: "kg_triple ?P (kg_raise e) ?Q ?X" for e by (rule on_raise)
  show ?thesis unfolding resolve_purge_recovery_proof_def
    by (rule kg_bind_triple [OF r]) (auto simp: Let_def split_beta intro!: kg_bind_triple [OF r] v e split: sum.split)
qed

section \<open>A concrete document\<close>

text \<open>
  The chunk \<open>c1\<close> is all there is of the entity \<open>A\<close> and of its relation with \<open>B\<close>, which another document's
  chunk \<open>c2\<close> supports as well.
\<close>

definition sample_env :: purge_env where
  "sample_env =
     \<lparr>pe_fault = \<lparr>fa_effect = True, fa_flushed = (\<lambda>_. False)\<rparr>, pe_md5 = (\<lambda>s. s), pe_upper = (\<lambda>s. s),
      pe_limit_method = None, pe_max_entity = 300, pe_max_relation = 300, pe_cached = (\<lambda>_. True),
      pe_entity_data = (\<lambda>_ _. True), pe_relation_data = (\<lambda>_ _. True), pe_fails = (\<lambda>_ _. False)\<rparr>"

definition sample_kg :: kg_state where
  "sample_kg =
     \<lparr>kg_status = Some \<lparr>st_purge = None, st_write = None, st_patch = None\<rparr>,
      kg_full_entities = Names [lit ''A'', lit ''B''], kg_full_relations = Names [(lit ''A'', lit ''B'')],
      kg_nodes = [(lit ''A'', \<lparr>nd_entity_id = lit ''A'', nd_source = lit ''c1''\<rparr>),
                  (lit ''B'', \<lparr>nd_entity_id = lit ''B'', nd_source = lit ''c1<SEP>c2''\<rparr>)],
      kg_edges = [((lit ''A'', lit ''B''), \<lparr>ed_source = Some (lit ''c1'')\<rparr>)],
      kg_entity_chunks = [(lit ''A'', [lit ''c1'']), (lit ''B'', [lit ''c1'', lit ''c2''])],
      kg_relation_chunks = [(make_relation_chunk_key (lit ''A'') (lit ''B''), [lit ''c1''])],
      kg_entity_vectors = {lit ''ent-A'', lit ''ent-B''}, kg_relation_vectors = {lit ''rel-AB''},
      kg_chunk_vectors = {lit ''c1'', lit ''c2''}, kg_text_chunks = {lit ''c1'', lit ''c2''}\<rparr>"

lemma sample_wf: "kg_wf sample_kg"
  unfolding kg_wf_def graph_wf_def rows_wf_def
  by (auto simp: sample_kg_def has_sep_def GRAPH_FIELD_SEP_def sorted_pair_def RELATION_NO_EVIDENCE_SOURCE_IDS_def split: if_splits)

lemma sample_start: "purge_start sample_env (lit ''d'') [lit ''c1''] sample_kg"
  using sample_wf by (simp add: purge_start_def sample_kg_def journal_phase_def anchor_usable_def)

text \<open>An attempt stopped at its fifteenth call, and the crash after it.\<close>

definition sample_interrupted :: kg_sys where
  "sample_interrupted =
     (let s = snd (purge_doc_chunks_and_kg sample_env (lit ''d'') [lit ''c1'']
                \<lparr>ks_mem = sample_kg, ks_disk = sample_kg, ks_calls = Some 14\<rparr>)
      in s\<lparr>ks_mem := copy (\<lambda>_. False) (ks_mem s) (ks_disk s), ks_disk := copy (\<lambda>_. False) (ks_mem s) (ks_disk s),
           ks_calls := None\<rparr>)"

lemma sample_run: "purge_run sample_env (lit ''d'') [lit ''c1''] sample_kg sample_interrupted"
  unfolding sample_interrupted_def Let_def
  by (rule run_crash, rule run_attempt [OF run_start [of _ _ _ _ None], simplified]) simp_all

lemma sample_settled: "kg_status (ks_mem sample_interrupted) = kg_status (ks_disk sample_interrupted)"
  by (simp add: sample_interrupted_def Let_def)

section \<open>Limits of the protocol\<close>

definition sample_attempt :: "purge_env \<Rightarrow> nat option \<Rightarrow> kg_sys \<Rightarrow> (purge_error + unit) \<times> kg_sys" where
  "sample_attempt E n s = purge_doc_chunks_and_kg E (lit ''d'') [lit ''c1''] (s\<lparr>ks_calls := n\<rparr>)"

definition sample_sys :: kg_sys where
  "sample_sys = \<lparr>ks_mem = sample_kg, ks_disk = sample_kg, ks_calls = None\<rparr>"

text \<open>A failing call without effect.\<close>

definition sample_failing :: purge_env where
  "sample_failing = sample_env\<lparr>pe_fault := \<lparr>fa_effect = False, fa_flushed = (\<lambda>_. False)\<rparr>\<rparr>"

text \<open>
  The nodes of the entities are removed before their vectors and tracking rows. When the call that removes the
  vectors fails, the next attempt no longer finds the node, skips the entity, and completes: the vector and
  the tracking row of a deleted entity are there for good.
\<close>

lemma failed_vector_deletion_is_not_retried:
  "let s = snd (sample_attempt sample_failing (Some 19) sample_sys); r = sample_attempt sample_failing None s
   in fst r = Inr () \<and> map_of (kg_nodes (ks_disk (snd r))) (lit ''A'') = None
      \<and> lit ''ent-A'' \<in> kg_entity_vectors (ks_disk (snd r))
      \<and> map_of (kg_entity_chunks (ks_disk (snd r))) (lit ''A'') = Some [lit ''c1'']"
  by code_simp

text \<open>
  A phase is written to memory and then flushed; when the flush fails the attempt fails, but the next one
  trusts the phase in memory. If that goes on until the anchors are deleted, and the process then dies, the
  phase on disk is \<open>Prepared\<close> and the anchors are gone: every later attempt is refused. So the hypothesis that
  an attempt starts with the row on disk cannot be dropped.
\<close>

lemma unflushed_journal_is_trusted:
  "let s1 = snd (sample_attempt sample_env (Some 30) sample_sys);
       s2 = snd (sample_attempt sample_env (Some 6) s1);
       s3 = snd (sample_attempt sample_env (Some 6) s2);
       s4 = s3\<lparr>ks_mem := ks_disk s3\<rparr>
   in fst (sample_attempt sample_env None s4) = Inl (Recovery_Anchor_Missing Missing_Anchor_Rows)"
  by code_simp

text \<open>
  When no extraction result is cached the rebuild returns at once, and the surviving node names the deleted
  chunk in its \<open>source_id\<close>; only its tracking row has been rewritten.
\<close>

lemma uncached_rebuild_keeps_deleted_source:
  "let r = sample_attempt (sample_env\<lparr>pe_cached := (\<lambda>_. False)\<rparr>) None sample_sys
   in fst r = Inr () \<and> lit ''c1'' \<notin> kg_text_chunks (ks_disk (snd r))
      \<and> map_option (\<lambda>d. graph_sources (nd_source d)) (map_of (kg_nodes (ks_disk (snd r))) (lit ''B''))
        = Some [lit ''c1'', lit ''c2'']
      \<and> map_of (kg_entity_chunks (ks_disk (snd r))) (lit ''B'') = Some [lit ''c2'']"
  by code_simp

section \<open>Properties\<close>

text \<open>
  C8. In every state of a run, in memory and on disk: no chunk is gone and no chunk vector
  before everything the anchors and the patch journal name is clean, and no anchor is gone before the chunks
  are. So whatever a stopped purge leaves behind, what is still to be done can be found from what is left.
\<close>

theorem deletion_order:
  assumes "purge_run E doc_id C z s" and "purge_start E doc_id C z" and "x = ks_mem s \<or> x = ks_disk s"
  shows "(same_chunks z x \<or> purge_clean C (the (kg_status z)) z x)
    \<and> (same_anchors z x \<or> purge_clean C (the (kg_status z)) z x \<and> chunks_gone C x)"
proof -
  obtain pm pd where i: "inv_at (the (kg_status z)) (make_kg_purge_operation_id E doc_id C) C z pm pd (ks_mem s) (ks_disk s)"
    using purge_invariant [OF assms(1,2)] by (auto simp: purge_inv_def)
  show ?thesis using assms(3) inv_at_order [OF i] inv_at_order [OF inv_at_swap [OF i]] by blast
qed

lemma deletion_order_witness:
  "(same_chunks sample_kg (ks_disk sample_interrupted)
      \<or> purge_clean [lit ''c1''] (the (kg_status sample_kg)) sample_kg (ks_disk sample_interrupted))
   \<and> (same_anchors sample_kg (ks_disk sample_interrupted)
      \<or> purge_clean [lit ''c1''] (the (kg_status sample_kg)) sample_kg (ks_disk sample_interrupted)
        \<and> chunks_gone [lit ''c1''] (ks_disk sample_interrupted))"
  by (rule deletion_order [OF sample_run sample_start]) simp

text \<open>
  C9. A purge starts on a status row that journals no purge that is under way, with both
  anchor rows present and readable (empty, where there are no chunks) and the graph in shape. Attempts follow,
  each begun with the status row on disk as in memory and stopped at any call or none, with flushes and
  crashes in between. One more attempt that also finds the status row on disk as in memory, with the same
  digest, is never refused for want of a recovery proof or for the journal of another purge, whatever call of
  it fails. Where the row was not flushed it can be (\<open>unflushed_journal_is_trusted\<close>).
\<close>

theorem purge_is_never_stuck:
  assumes "purge_run E doc_id C z s" and "purge_start E doc_id C z"
    and "kg_status (ks_mem s) = kg_status (ks_disk s)" and "pe_md5 E' = pe_md5 E"
    and "purge_doc_chunks_and_kg E' doc_id C s = (Inl e, s')"
  shows "e \<noteq> Operation_Conflict \<and> e \<noteq> Recovery_Anchor_Missing r"
proof -
  obtain p where p: "inv_at (the (kg_status z)) (make_kg_purge_operation_id E doc_id C) C z p p (ks_mem s) (ks_disk s)"
    and t: "sure (inv_at (the (kg_status z)) (make_kg_purge_operation_id E doc_id C) C z p p) (purge_doc_chunks_and_kg E' doc_id C)
      (\<lambda>_. inv_at (the (kg_status z)) (make_kg_purge_operation_id E doc_id C) C z (Some Completed) (Some Completed))
      (purge_inv (the (kg_status z)) (make_kg_purge_operation_id E doc_id C) C z)"
    by (rule next_attempt [OF assms(1-4)])
  from sureD(3) [OF t p assms(5)] show ?thesis by (auto simp: refusal_def)
qed

lemma purge_is_never_stuck_witness:
  "\<exists>s'. sample_attempt sample_env (Some 5) sample_interrupted = (Inl (Purge_Stage_Error ''analyze_graph_dependencies''), s')
     \<and> Purge_Stage_Error ''analyze_graph_dependencies'' \<noteq> Operation_Conflict
     \<and> Purge_Stage_Error ''analyze_graph_dependencies'' \<noteq> Recovery_Anchor_Missing Missing_Anchor_Rows"
proof -
  let ?m = "purge_doc_chunks_and_kg sample_env (lit ''d'') [lit ''c1''] (sample_interrupted\<lparr>ks_calls := Some 5\<rparr>)"
  have "fst ?m = Inl (Purge_Stage_Error ''analyze_graph_dependencies'')" by code_simp
  then have m: "?m = (Inl (Purge_Stage_Error ''analyze_graph_dependencies''), snd ?m)" by (metis prod.collapse)
  have run: "purge_run sample_env (lit ''d'') [lit ''c1''] sample_kg (sample_interrupted\<lparr>ks_calls := Some 5\<rparr>)"
    using run_crash [OF sample_run, where P = "\<lambda>_. True" and n = "Some 5"] by (simp add: copy_all sample_interrupted_def Let_def)
  show ?thesis
    using purge_is_never_stuck [OF run sample_start _ refl m, of Missing_Anchor_Rows] sample_settled m by (auto simp: sample_attempt_def)
qed



text \<open>
  C10. A purge that is refused, for want of a recovery proof or because another purge
  is journaled, has changed nothing, in memory or on disk.
\<close>

theorem refusal_changes_nothing:
  assumes "purge_doc_chunks_and_kg E doc_id C s = (Inl e, s')" and "e = Operation_Conflict \<or> e = Recovery_Anchor_Missing r"
  shows "ks_mem s' = ks_mem s \<and> ks_disk s' = ks_disk s"
proof -
  let ?m = "resolve_purge_recovery_proof E doc_id C"
  let ?f = "\<lambda>pf. if phase_at_least pf Completed then kg_return ()
     else (case pr_kind pf of
             None \<Rightarrow> kg_raise (Recovery_Anchor_Missing (case pr_missing pf of None \<Rightarrow> Missing_Anchor_Rows | Some r \<Rightarrow> r))
           | Some kind \<Rightarrow>
               (let explicit = (kind = By_Pre_Graph \<or> kind = By_Empty_Scope)
                in kg_then (kg_when (pr_phase pf = None) (write_kg_purge_phase E Prepared (pr_operation pf)))
                     (purge_steps E C (Some pf) (if explicit then Some [] else None)
                        (if explicit then Some [] else None) False False)))"
  have m: "kg_bind ?m ?f s = (Inl e, s')"
    using assms(1) by (simp add: purge_doc_chunks_and_kg_def purge_kg_contributions_def)
  have e: "refusal e" using assms(2) by (auto simp: refusal_def)
  note same = kg_tripleD [OF resolve_only_reads [of "ks_mem s" "ks_disk s" E doc_id C], of s]
  show ?thesis
  proof (cases "?m s")
    case (Pair v s1)
    show ?thesis
    proof (cases v)
      case (Inl e1)
      then show ?thesis using same(2) Pair m by (simp add: kg_bind_def on_def)
    next
      case (Inr pf)
      then have s1: "ks_mem s1 = ks_mem s \<and> ks_disk s1 = ks_disk s" using same(1) Pair by (simp add: on_def)
      have f: "?f pf s1 = (Inl e, s')" using m Pair Inr by (simp add: kg_bind_def)
      have "pr_kind pf = None \<and> \<not> phase_at_least pf Completed"
      proof (rule ccontr)
        assume n: "\<not> (pr_kind pf = None \<and> \<not> phase_at_least pf Completed)"
        have "unrefused (?f pf)"
          using n by (auto simp: Let_def intro!: unrefused_return unrefused_then unrefused_when unrefused_record unrefused_steps)
        then show False using f e unfolding unrefused_def by blast
      qed
      then have "s' = s1" using f by (simp add: kg_raise_def)
      with s1 show ?thesis by simp
    qed
  qed
qed

lemma refusal_changes_nothing_witness:
  "\<exists>s'. purge_doc_chunks_and_kg sample_env (lit ''d'') [lit ''c1'']
       (sample_sys\<lparr>ks_mem := sample_kg\<lparr>kg_full_relations := Absent\<rparr>\<rparr>) = (Inl (Recovery_Anchor_Missing Missing_Anchor_Rows), s')
     \<and> ks_mem s' = sample_kg\<lparr>kg_full_relations := Absent\<rparr> \<and> ks_disk s' = sample_kg"
proof -
  let ?s = "sample_sys\<lparr>ks_mem := sample_kg\<lparr>kg_full_relations := Absent\<rparr>\<rparr>"
  let ?m = "purge_doc_chunks_and_kg sample_env (lit ''d'') [lit ''c1''] ?s"
  have "fst ?m = Inl (Recovery_Anchor_Missing Missing_Anchor_Rows)" by code_simp
  then have m: "?m = (Inl (Recovery_Anchor_Missing Missing_Anchor_Rows), snd ?m)" by (metis prod.collapse)
  then show ?thesis using refusal_changes_nothing [OF m, of Missing_Anchor_Rows] by (auto simp: sample_sys_def)
qed

end
