(* ===== verification/LoginLimiter.thy ===== *)
theory LoginLimiter
  imports Prelude
begin

text \<open>
  Brute-force protection of the login endpoint: \<open>ontorag/api/login_rate_limit.py\<close> and the part of the
  \<open>/login\<close> handler of \<open>ontorag/api/ontorag_server.py\<close> that drives it. Every method runs on the event loop
  without an await, so it is one function from limiter to limiter; the handler awaits only the password
  check, so a request is two steps, its admission and its end. The clock is a parameter of each call.
\<close>

section \<open>State\<close>

record login_entry =
  en_failures :: "real list"
  en_pending :: nat

datatype alert_category = Lockout | TableFull

record limiter =
  lr_max_attempts :: int
  lr_window :: real
  lr_max_keys :: int
  lr_alert_interval :: real
  lr_entries :: "(string, login_entry) odict"
  lr_alert_last :: "(alert_category, real) odict"
  lr_alert_suppressed :: "(alert_category, nat) odict"

text \<open>The constructor.\<close>

definition DEFAULT_MAX_TRACKED_KEYS :: int where "DEFAULT_MAX_TRACKED_KEYS = 10000"
definition DEFAULT_ALERT_INTERVAL_SECONDS :: real where "DEFAULT_ALERT_INTERVAL_SECONDS = 60"
definition PENDING_RETRY_AFTER_SECONDS :: real where "PENDING_RETRY_AFTER_SECONDS = 1"

definition new_limiter :: "int \<Rightarrow> real \<Rightarrow> int \<Rightarrow> real \<Rightarrow> limiter" where
  "new_limiter max_attempts window max_keys interval =
     \<lparr>lr_max_attempts = max_attempts, lr_window = window, lr_max_keys = max_keys,
      lr_alert_interval = interval, lr_entries = [], lr_alert_last = [], lr_alert_suppressed = []\<rparr>"

definition enabled :: "limiter \<Rightarrow> bool" where
  "enabled l \<longleftrightarrow> lr_max_attempts l > 0 \<and> lr_window l > 0"

section \<open>Operations\<close>

definition prune :: "limiter \<Rightarrow> real \<Rightarrow> login_entry \<Rightarrow> login_entry" where
  "prune l now e = e\<lparr>en_failures := dropWhile (\<lambda>t. t \<le> now - lr_window l) (en_failures e)\<rparr>"

definition set_entry :: "string \<Rightarrow> login_entry \<Rightarrow> limiter \<Rightarrow> limiter" where
  "set_entry key e l = l\<lparr>lr_entries := od_set key e (lr_entries l)\<rparr>"

definition del_entry :: "string \<Rightarrow> limiter \<Rightarrow> limiter" where
  "del_entry key l = l\<lparr>lr_entries := od_del key (lr_entries l)\<rparr>"

definition live_entry :: "string \<Rightarrow> real \<Rightarrow> limiter \<Rightarrow> login_entry option \<times> limiter" where
  "live_entry key now l =
     (case map_of (lr_entries l) key of
        None \<Rightarrow> (None, l)
      | Some e0 \<Rightarrow>
          (let e = prune l now e0
           in if en_failures e = [] \<and> en_pending e = 0 then (None, del_entry key l)
              else (Some e, set_entry key e l)))"

definition retry_after :: "string \<Rightarrow> real \<Rightarrow> limiter \<Rightarrow> real option \<times> limiter" where
  "retry_after key now l =
     (if \<not> enabled l then (None, l)
      else
        (case live_entry key now l of
           (None, l') \<Rightarrow> (None, l')
         | (Some e, l') \<Rightarrow>
             (let confirmed = length (en_failures e)
              in if int (confirmed + en_pending e) < lr_max_attempts l then (None, l')
                 else if int confirmed \<ge> lr_max_attempts l
                 then (Some (max 0 (lr_window l - (now - hd (en_failures e)))), l')
                 else (Some PENDING_RETRY_AFTER_SECONDS, l'))))"

text \<open>\<open>_alert\<close>: the first component says whether a warning is logged, and with how many suppressed ones.\<close>

definition alert :: "real \<Rightarrow> alert_category \<Rightarrow> limiter \<Rightarrow> nat option \<times> limiter" where
  "alert now category l =
     (let suppressed = (case map_of (lr_alert_suppressed l) category of None \<Rightarrow> 0 | Some n \<Rightarrow> n)
      in case map_of (lr_alert_last l) category of
           Some t \<Rightarrow>
             if now - t < lr_alert_interval l
             then (None, l\<lparr>lr_alert_suppressed := od_set category (suppressed + 1) (lr_alert_suppressed l)\<rparr>)
             else (Some suppressed, l\<lparr>lr_alert_suppressed := od_del category (lr_alert_suppressed l),
                                      lr_alert_last := od_set category now (lr_alert_last l)\<rparr>)
         | None \<Rightarrow> (Some suppressed, l\<lparr>lr_alert_suppressed := od_del category (lr_alert_suppressed l),
                                      lr_alert_last := od_set category now (lr_alert_last l)\<rparr>))"

text \<open>
  \<open>_make_room\<close>, recursive over the entries of the dict from the front. \<open>next\<close> of the iterator of an empty
  dict raises: with a bound of 0 keys or less, \<open>None\<close>.
\<close>

fun make_room_from :: "real \<Rightarrow> (string \<times> login_entry) list \<Rightarrow> limiter \<Rightarrow> (bool \<times> limiter) option" where
  "make_room_from now [] l = (if int (length (lr_entries l)) \<ge> lr_max_keys l then None else Some (True, l))"
| "make_room_from now ((key, e0) # es) l =
     (if int (length (lr_entries l)) \<ge> lr_max_keys l then
        (let e = prune l now e0
         in if en_failures e \<noteq> [] \<or> en_pending e > 0
            then Some (False, snd (alert now TableFull (set_entry key e l)))
            else make_room_from now es (del_entry key l))
      else Some (True, l))"

definition make_room :: "real \<Rightarrow> limiter \<Rightarrow> (bool \<times> limiter) option" where
  "make_room now l = make_room_from now (lr_entries l) l"

definition touch :: "string \<Rightarrow> limiter \<Rightarrow> limiter" where
  "touch key l = l\<lparr>lr_entries := od_move_to_end key (lr_entries l)\<rparr>"

definition reserve_attempt :: "string \<Rightarrow> real \<Rightarrow> limiter \<Rightarrow> limiter option" where
  "reserve_attempt key now l =
     (if \<not> enabled l then Some l
      else
        (case live_entry key now l of
           (Some e, l') \<Rightarrow> Some (touch key (set_entry key (e\<lparr>en_pending := en_pending e + 1\<rparr>) l'))
         | (None, l') \<Rightarrow>
             (case make_room now l' of
                None \<Rightarrow> None
              | Some (False, l'') \<Rightarrow> Some l''
              | Some (True, l'') \<Rightarrow> Some (touch key (set_entry key \<lparr>en_failures = [], en_pending = 1\<rparr> l'')))))"

definition release :: "string \<Rightarrow> limiter \<Rightarrow> limiter" where
  "release key l =
     (case map_of (lr_entries l) key of
        None \<Rightarrow> l
      | Some e0 \<Rightarrow>
          (let e = e0\<lparr>en_pending := en_pending e0 - 1\<rparr>
           in if en_pending e = 0 \<and> en_failures e = [] then del_entry key l else set_entry key e l))"

definition commit_failure :: "string \<Rightarrow> real \<Rightarrow> limiter \<Rightarrow> nat option \<times> limiter" where
  "commit_failure key now l =
     (if \<not> enabled l then (None, l)
      else
        (case map_of (lr_entries l) key of
           None \<Rightarrow> (None, l)
         | Some e0 \<Rightarrow>
             (let e1 = prune l now e0; e = e1\<lparr>en_failures := en_failures e1 @ [now]\<rparr>;
                  l' = touch key (set_entry key e l)
              in if int (length (en_failures e)) = lr_max_attempts l then alert now Lockout l' else (None, l'))))"

definition reset_key :: "string \<Rightarrow> limiter \<Rightarrow> limiter" where
  "reset_key key l =
     (case map_of (lr_entries l) key of
        None \<Rightarrow> l
      | Some e0 \<Rightarrow> if en_pending e0 = 0 then del_entry key l else set_entry key (e0\<lparr>en_failures := []\<rparr>) l)"

section \<open>The login handler\<close>

text \<open>
  Before the await: the check, then the reservation. \<open>Inl\<close> is the 429 answer with its \<open>Retry-After\<close>.
\<close>

definition login_begin :: "string \<Rightarrow> real \<Rightarrow> limiter \<Rightarrow> ((real + unit) \<times> limiter) option" where
  "login_begin key now l =
     (case retry_after key now l of
        (Some s, l') \<Rightarrow> Some (Inl (of_int (floor s) + 1), l')
      | (None, l') \<Rightarrow> (case reserve_attempt key now l' of None \<Rightarrow> None | Some l'' \<Rightarrow> Some (Inr (), l'')))"

text \<open>After the await: a wrong password, a correct one, or an exception in the check; then the \<open>finally\<close>.\<close>

datatype verdict = Wrong | Correct | Crashed

definition login_end :: "string \<Rightarrow> verdict \<Rightarrow> real \<Rightarrow> limiter \<Rightarrow> limiter" where
  "login_end key v now l =
     release key (case v of Wrong \<Rightarrow> snd (commit_failure key now l) | Correct \<Rightarrow> reset_key key l | Crashed \<Rightarrow> l)"

section \<open>Lookups\<close>

text \<open>What the operations do to the entry of one key.\<close>

abbreviation entry :: "limiter \<Rightarrow> string \<Rightarrow> login_entry option" where
  "entry l \<equiv> map_of (lr_entries l)"

lemma entry_simps [simp]:
  "entry (set_entry k e l) = (entry l)(k \<mapsto> e)"
  "entry (del_entry k l) = (entry l)(k := None)"
  "entry (touch k l) = entry l"
  "entry (snd (alert now c l)) = entry l"
  by (simp_all add: set_entry_def del_entry_def touch_def alert_def Let_def split: option.split)

lemma frame_simps [simp]:
  "lr_max_attempts (set_entry k e l) = lr_max_attempts l" "lr_window (set_entry k e l) = lr_window l"
  "lr_max_keys (set_entry k e l) = lr_max_keys l"
  "lr_max_attempts (del_entry k l) = lr_max_attempts l" "lr_window (del_entry k l) = lr_window l"
  "lr_max_keys (del_entry k l) = lr_max_keys l"
  "lr_max_attempts (touch k l) = lr_max_attempts l" "lr_window (touch k l) = lr_window l"
  "lr_max_keys (touch k l) = lr_max_keys l"
  "lr_max_attempts (snd (alert now c l)) = lr_max_attempts l" "lr_window (snd (alert now c l)) = lr_window l"
  "lr_max_keys (snd (alert now c l)) = lr_max_keys l"
  by (simp_all add: set_entry_def del_entry_def touch_def alert_def Let_def split: option.split)

definition pruned :: "limiter \<Rightarrow> real \<Rightarrow> string \<Rightarrow> login_entry option" where
  "pruned l now key =
     (case entry l key of None \<Rightarrow> None
      | Some e0 \<Rightarrow> (let e = prune l now e0 in if en_failures e = [] \<and> en_pending e = 0 then None else Some e))"

lemma live_entry_result:
  "fst (live_entry key now l) = pruned l now key"
  "entry (snd (live_entry key now l)) = (entry l)(key := pruned l now key)"
  by (auto simp: live_entry_def pruned_def Let_def fun_eq_iff split: option.split)

lemma live_entry_frame [simp]:
  "lr_max_attempts (snd (live_entry key now l)) = lr_max_attempts l"
  "lr_window (snd (live_entry key now l)) = lr_window l"
  "lr_max_keys (snd (live_entry key now l)) = lr_max_keys l"
  by (simp_all add: live_entry_def Let_def split: option.split)

section \<open>The slot of a key\<close>

text \<open>A key that is not tracked counts as one without failures and without requests in flight.\<close>

definition slot :: "limiter \<Rightarrow> string \<Rightarrow> real list \<times> nat" where
  "slot l k = (case entry l k of None \<Rightarrow> ([], 0) | Some e \<Rightarrow> (en_failures e, en_pending e))"

definition in_window :: "limiter \<Rightarrow> real \<Rightarrow> real list \<Rightarrow> real list" where
  "in_window l now ts = dropWhile (\<lambda>t. t \<le> now - lr_window l) ts"

lemma slot_live:
  "slot (snd (live_entry key now l)) k =
     (if k = key then (in_window l now (fst (slot l key)), snd (slot l key)) else slot l k)"
  by (auto simp: slot_def live_entry_result pruned_def Let_def prune_def in_window_def eq_commute [of "[]"]
      split: option.splits)

lemma live_none: "fst (live_entry key now l) = None \<Longrightarrow>
    in_window l now (fst (slot l key)) = [] \<and> snd (slot l key) = 0 \<and> entry (snd (live_entry key now l)) key = None"
  by (auto simp: slot_def live_entry_result pruned_def Let_def prune_def in_window_def split: option.splits if_splits)

lemma live_some: "fst (live_entry key now l) = Some e \<Longrightarrow>
    en_failures e = in_window l now (fst (slot l key)) \<and> en_pending e = snd (slot l key)
    \<and> entry (snd (live_entry key now l)) key = Some e"
  by (auto simp: slot_def live_entry_result pruned_def Let_def prune_def in_window_def split: option.splits if_splits)

lemma retry_limiter: "snd (retry_after key now l) = (if enabled l then snd (live_entry key now l) else l)"
  by (auto simp: retry_after_def Let_def split: prod.split option.split)

lemma retry_none:
  assumes "enabled l" and "fst (retry_after key now l) = None"
  shows "int (length (in_window l now (fst (slot l key))) + snd (slot l key)) < lr_max_attempts l"
proof (cases "fst (live_entry key now l)")
  case None
  then show ?thesis using live_none [OF None] assms(1) by (simp add: enabled_def)
next
  case (Some e)
  then show ?thesis using live_some [OF Some] assms
    by (auto simp: retry_after_def Let_def split: prod.splits if_splits)
qed

lemma in_window_idem: "in_window l now (in_window l now ts) = in_window l now ts"
  by (simp add: in_window_def)

lemma make_room_free: "int (length (lr_entries l)) < lr_max_keys l \<Longrightarrow> make_room now l = Some (True, l)"
  by (cases "lr_entries l") (auto simp: make_room_def)

text \<open>With room for one more key, nothing is evicted, and a reservation counts.\<close>

lemma reserve_slot:
  assumes "enabled l" and "int (length (od_set key x (lr_entries l))) \<le> lr_max_keys l"
    and "od_wf (lr_entries l)"
  shows "\<exists>l'. reserve_attempt key now l = Some l'
    \<and> (\<forall>k. slot l' k = (if k = key then (in_window l now (fst (slot l key)), snd (slot l key) + 1) else slot l k))
    \<and> lr_max_attempts l' = lr_max_attempts l \<and> lr_window l' = lr_window l \<and> lr_max_keys l' = lr_max_keys l"
proof -
  obtain r l1 where le: "live_entry key now l = (r, l1)" by force
  have fr: "lr_max_attempts l1 = lr_max_attempts l" "lr_window l1 = lr_window l" "lr_max_keys l1 = lr_max_keys l"
    using live_entry_frame [of key now l] by (simp_all add: le)
  have sl: "slot l1 k = (if k = key then (in_window l now (fst (slot l key)), snd (slot l key)) else slot l k)" for k
    using slot_live [of key now l k] by (simp add: le)
  show ?thesis
  proof (cases r)
    case None
    have n: "in_window l now (fst (slot l key)) = []" "snd (slot l key) = 0"
      using live_none [of key now l] by (simp_all add: le None)
    have "int (length (lr_entries l1)) < lr_max_keys l1"
    proof (cases "entry l key")
      case None
      then have "l1 = l" using le by (simp add: live_entry_def)
      then show ?thesis using assms(2) None by (simp add: length_od_set)
    next
      case (Some e)
      have "lr_entries l1 = od_del key (lr_entries l)"
        using le None Some by (auto simp: live_entry_def Let_def del_entry_def split: if_splits)
      moreover have "length (od_del key (lr_entries l)) < length (lr_entries l)"
        using length_od_del [OF assms(3), of key] Some by (cases "lr_entries l") auto
      ultimately show ?thesis using assms(2) Some fr by (simp add: length_od_set)
    qed
    then have "make_room now l1 = Some (True, l1)" by (rule make_room_free)
    then have eq: "reserve_attempt key now l = Some (touch key (set_entry key \<lparr>en_failures = [], en_pending = 1\<rparr> l1))"
      using assms(1) by (simp add: reserve_attempt_def le None)
    have "slot (touch key (set_entry key \<lparr>en_failures = [], en_pending = 1\<rparr> l1)) k =
        (if k = key then (in_window l now (fst (slot l key)), snd (slot l key) + 1) else slot l k)" for k
      using sl [of k] n by (simp add: slot_def split: if_splits)
    then show ?thesis using eq fr by simp
  next
    case (Some e)
    have n: "en_failures e = in_window l now (fst (slot l key))" "en_pending e = snd (slot l key)"
      using live_some [of key now l e] by (simp_all add: le Some)
    have eq: "reserve_attempt key now l = Some (touch key (set_entry key (e\<lparr>en_pending := en_pending e + 1\<rparr>) l1))"
      using assms(1) by (simp add: reserve_attempt_def le Some)
    have "slot (touch key (set_entry key (e\<lparr>en_pending := en_pending e + 1\<rparr>) l1)) k =
        (if k = key then (in_window l now (fst (slot l key)), snd (slot l key) + 1) else slot l k)" for k
      using sl [of k] n by (simp add: slot_def split: if_splits)
    then show ?thesis using eq fr by simp
  qed
qed

lemma release_slot:
  "slot (release key l) k = (if k = key then (fst (slot l key), snd (slot l key) - 1) else slot l k)"
  by (auto simp: release_def slot_def Let_def split: option.split)

lemma commit_slot:
  assumes "enabled l" and "snd (slot l key) > 0"
  shows "slot (snd (commit_failure key now l)) k =
    (if k = key then (in_window l now (fst (slot l key)) @ [now], snd (slot l key)) else slot l k)"
proof -
  obtain e where e: "entry l key = Some e" using assms(2) by (cases "entry l key") (auto simp: slot_def)
  show ?thesis using assms(1) e by (auto simp: commit_failure_def Let_def slot_def prune_def in_window_def)
qed

lemma reset_slot:
  assumes "snd (slot l key) > 0"
  shows "slot (reset_key key l) k = (if k = key then ([], snd (slot l key)) else slot l k)"
  using assms by (auto simp: reset_key_def slot_def split: option.splits)

lemma end_slot:
  assumes "enabled l" and "snd (slot l key) > 0"
  shows "slot (login_end key v now l) k =
    (if k = key then
       ((case v of Wrong \<Rightarrow> in_window l now (fst (slot l key)) @ [now] | Correct \<Rightarrow> [] | Crashed \<Rightarrow> fst (slot l key)),
        snd (slot l key) - 1)
     else slot l k)"
  using commit_slot [OF assms, of now] reset_slot [OF assms(2)]
  by (cases v) (simp_all add: login_end_def release_slot)

section \<open>Which keys are tracked\<close>

definition tracks :: "string set \<Rightarrow> limiter \<Rightarrow> bool" where
  "tracks K l \<longleftrightarrow> od_wf (lr_entries l) \<and> dom (entry l) \<subseteq> K"

lemma alert_entries [simp]: "lr_entries (snd (alert now c l)) = lr_entries l"
  by (simp add: alert_def Let_def split: option.split)

lemma tracks_parts:
  "tracks K l \<Longrightarrow> k \<in> K \<Longrightarrow> tracks K (set_entry k e l)"
  "tracks K l \<Longrightarrow> tracks K (del_entry k l)"
  "tracks K l \<Longrightarrow> tracks K (touch k l)"
  "tracks K l \<Longrightarrow> tracks K (snd (alert now c l))"
  by (auto simp: tracks_def) (auto simp: set_entry_def del_entry_def touch_def)

lemma tracks_live: "tracks K l \<Longrightarrow> k \<in> K \<Longrightarrow> tracks K (snd (live_entry k now l))"
  by (auto simp: live_entry_def Let_def tracks_parts split: option.split)

lemma tracks_make_room:
  "tracks K l \<Longrightarrow> fst ` set es \<subseteq> K \<Longrightarrow> make_room_from now es l = Some (b, l') \<Longrightarrow> tracks K l'"
proof (induction es arbitrary: l)
  case (Cons e es)
  obtain key e0 where e: "e = (key, e0)" by force
  show ?case using Cons.prems Cons.IH [OF tracks_parts(2) [OF Cons.prems(1)], of key]
    by (auto simp: e Let_def tracks_parts split: if_splits)
qed (auto split: if_splits)

lemma tracks_reserve:
  assumes "tracks K l" and "key \<in> K" and "reserve_attempt key now l = Some l'"
  shows "tracks K l'"
proof (cases "enabled l")
  case True
  let ?l1 = "snd (live_entry key now l)"
  have t: "tracks K ?l1" using tracks_live [OF assms(1,2)] .
  show ?thesis
  proof (cases "fst (live_entry key now l)")
    case (Some e)
    then show ?thesis using True t assms
      by (auto simp: reserve_attempt_def tracks_parts split: prod.splits)
  next
    case None
    then obtain b l2 where m: "make_room now ?l1 = Some (b, l2)"
      and l': "l' = (if b then touch key (set_entry key \<lparr>en_failures = [], en_pending = 1\<rparr> l2) else l2)"
      using True assms(3) by (auto simp: reserve_attempt_def split: prod.splits option.splits bool.splits)
    have "tracks K l2"
      using tracks_make_room [OF t _ m [unfolded make_room_def]] t by (simp add: tracks_def dom_map_of_conv_image_fst)
    then show ?thesis using l' assms(2) by (simp add: tracks_parts)
  qed
qed (use assms in \<open>simp add: reserve_attempt_def\<close>)

lemma tracks_end: "tracks K l \<Longrightarrow> key \<in> K \<Longrightarrow> tracks K (login_end key v now l)"
proof -
  assume t: "tracks K l" "key \<in> K"
  have r: "tracks K l' \<Longrightarrow> tracks K (release key l')" for l'
    using t(2) by (auto simp: release_def Let_def tracks_parts split: option.split)
  have "tracks K (snd (commit_failure key now l))" "tracks K (reset_key key l)"
    using t by (auto simp: commit_failure_def reset_key_def Let_def tracks_parts split: option.split)
  then show ?thesis using t r by (cases v) (simp_all add: login_end_def)
qed

lemma end_frame:
  "lr_max_attempts (login_end key v now l) = lr_max_attempts l"
  "lr_window (login_end key v now l) = lr_window l"
  "lr_max_keys (login_end key v now l) = lr_max_keys l"
  by (cases v; simp add: login_end_def release_def commit_failure_def reset_key_def Let_def split: option.split)+

section \<open>The server under concurrent logins\<close>

text \<open>
  Beside the limiter, two histories that the code does not keep: the requests of a key that are between
  admission and end, and the times of the wrong passwords verified for a key since its last success.
\<close>

datatype login_event = LoginBegin string | LoginEnd string verdict

record login_server =
  sv_limiter :: limiter
  sv_inflight :: "string \<Rightarrow> nat"
  sv_wrong :: "string \<Rightarrow> real list"

definition login_start :: "limiter \<Rightarrow> login_server" where
  "login_start l = \<lparr>sv_limiter = l, sv_inflight = (\<lambda>_. 0), sv_wrong = (\<lambda>_. [])\<rparr>"

fun login_step :: "real \<Rightarrow> login_event \<Rightarrow> login_server \<Rightarrow> login_server" where
  "login_step now (LoginBegin k) s =
     (case login_begin k now (sv_limiter s) of
        None \<Rightarrow> s
      | Some (Inl _, l) \<Rightarrow> s\<lparr>sv_limiter := l\<rparr>
      | Some (Inr _, l) \<Rightarrow> s\<lparr>sv_limiter := l, sv_inflight := (sv_inflight s)(k := sv_inflight s k + 1)\<rparr>)"
| "login_step now (LoginEnd k v) s =
     (if sv_inflight s k = 0 then s
      else s\<lparr>sv_limiter := login_end k v now (sv_limiter s),
             sv_inflight := (sv_inflight s)(k := sv_inflight s k - 1),
             sv_wrong := (sv_wrong s)(k := (case v of Wrong \<Rightarrow> sv_wrong s k @ [now] | Correct \<Rightarrow> []
                                            | Crashed \<Rightarrow> sv_wrong s k))\<rparr>)"

definition login_run :: "(real \<times> login_event) list \<Rightarrow> login_server \<Rightarrow> login_server" where
  "login_run tr s = fold (\<lambda>(now, ev). login_step now ev) tr s"

fun event_key :: "login_event \<Rightarrow> string" where
  "event_key (LoginBegin k) = k"
| "event_key (LoginEnd k _) = k"

definition login_inv :: "limiter \<Rightarrow> string set \<Rightarrow> real \<Rightarrow> login_server \<Rightarrow> bool" where
  "login_inv l0 K now s \<longleftrightarrow>
     tracks K (sv_limiter s) \<and> lr_max_attempts (sv_limiter s) = lr_max_attempts l0
     \<and> lr_window (sv_limiter s) = lr_window l0 \<and> lr_max_keys (sv_limiter s) = lr_max_keys l0
     \<and> (\<forall>k. snd (slot (sv_limiter s) k) = sv_inflight s k
          \<and> filter (\<lambda>t. now - lr_window l0 < t) (fst (slot (sv_limiter s) k))
            = filter (\<lambda>t. now - lr_window l0 < t) (sv_wrong s k)
          \<and> int (length (fst (slot (sv_limiter s) k)) + sv_inflight s k) \<le> lr_max_attempts l0)"

lemma filter_window: "filter (\<lambda>t. now - lr_window l < t) (in_window l now ts) = filter (\<lambda>t. now - lr_window l < t) ts"
  by (induction ts) (auto simp: in_window_def)

lemma length_in_window: "length (in_window l now ts) \<le> length ts"
  by (simp add: in_window_def length_dropWhile_le)

lemma filter_later:
  assumes "now \<le> now'" and "filter (\<lambda>t. now - w < t) xs = filter (\<lambda>t. (now::real) - w < t) ys"
  shows "filter (\<lambda>t. now' - w < t) xs = filter (\<lambda>t. now' - w < t) ys"
proof -
  have "filter (\<lambda>t. now' - w < t) zs = filter (\<lambda>t. now' - w < t) (filter (\<lambda>t. now - w < t) zs)" for zs
    using assms(1) by (induction zs) auto
  then show ?thesis using assms(2) by metis
qed

lemma login_inv_later: "login_inv l0 K now s \<Longrightarrow> now \<le> now' \<Longrightarrow> login_inv l0 K now' s"
proof -
  assume a: "login_inv l0 K now s" and b: "now \<le> now'"
  have "filter (\<lambda>t. now' - lr_window l0 < t) (fst (slot (sv_limiter s) k))
      = filter (\<lambda>t. now' - lr_window l0 < t) (sv_wrong s k)" for k
    by (rule filter_later [OF b]) (use a in \<open>unfold login_inv_def, blast\<close>)
  then show "login_inv l0 K now' s" using a unfolding login_inv_def by blast
qed

lemma inv_in_window:
  assumes "login_inv l0 K now s"
  shows "filter (\<lambda>t. now - lr_window l0 < t) (in_window (sv_limiter s) now (fst (slot (sv_limiter s) k)))
      = filter (\<lambda>t. now - lr_window l0 < t) (sv_wrong s k)"
proof -
  have w: "lr_window (sv_limiter s) = lr_window l0" using assms by (simp add: login_inv_def)
  show ?thesis
    using filter_window [of now "sv_limiter s" "fst (slot (sv_limiter s) k)"] assms
    unfolding w login_inv_def by simp
qed

lemma login_inv_begin:
  assumes inv: "login_inv l0 K now s" and "enabled l0" and "k \<in> K"
    and "finite K" and "int (card K) \<le> lr_max_keys l0"
  shows "login_inv l0 K now (login_step now (LoginBegin k) s)"
proof -
  let ?l = "sv_limiter s"
  have fr: "lr_max_attempts ?l = lr_max_attempts l0" "lr_window ?l = lr_window l0" "lr_max_keys ?l = lr_max_keys l0"
    and tr: "tracks K ?l" using inv by (simp_all add: login_inv_def)
  have en: "enabled ?l" using assms(2) fr by (simp add: enabled_def)
  obtain r l1 where ra: "retry_after k now ?l = (r, l1)" by force
  then have l1: "l1 = snd (live_entry k now ?l)" using retry_limiter [of k now ?l] en by simp
  have fr1: "lr_max_attempts l1 = lr_max_attempts l0" "lr_window l1 = lr_window l0" "lr_max_keys l1 = lr_max_keys l0"
    using fr by (simp_all add: l1)
  have tr1: "tracks K l1" using tracks_live [OF tr assms(3)] by (simp add: l1)
  have sl: "slot l1 x = (if x = k then (in_window ?l now (fst (slot ?l k)), snd (slot ?l k)) else slot ?l x)" for x
    using slot_live [of k now ?l x] by (simp add: l1)
  have inv1: "login_inv l0 K now (s\<lparr>sv_limiter := l1\<rparr>)"
    using inv inv_in_window [OF inv, of k] length_in_window [of ?l now "fst (slot ?l k)"] fr1 tr1
    by (auto simp: login_inv_def sl) (smt (verit) of_nat_mono of_nat_add)+
  show ?thesis
  proof (cases r)
    case (Some x)
    then show ?thesis using inv1 by (simp add: login_begin_def ra)
  next
    case None
    have en1: "enabled l1" using assms(2) fr1 by (simp add: enabled_def)
    have free: "int (length (in_window ?l now (fst (slot ?l k))) + snd (slot ?l k)) < lr_max_attempts l0"
      using retry_none [OF en, of k now] ra None fr by simp
    have "set (od_keys (od_set k x (lr_entries l1))) \<subseteq> K" "distinct (od_keys (od_set k x (lr_entries l1)))" for x
      using tr1 assms(3) od_wf_set [of "lr_entries l1" k x]
      by (auto simp: tracks_def od_wf_def dom_map_of_conv_image_fst od_keys_set map_of_eq_None_iff)
    then have "length (od_set k x (lr_entries l1)) \<le> card K" for x
      using assms(4) by (metis card_mono distinct_card length_map)
    then have room: "int (length (od_set k x (lr_entries l1))) \<le> lr_max_keys l1" for x
      using assms(5) fr1 by (metis of_nat_mono order_trans)
    obtain l2 where l2: "reserve_attempt k now l1 = Some l2"
      and sl2: "\<And>x. slot l2 x = (if x = k then (in_window l1 now (fst (slot l1 k)), snd (slot l1 k) + 1) else slot l1 x)"
      and fr2: "lr_max_attempts l2 = lr_max_attempts l1" "lr_window l2 = lr_window l1" "lr_max_keys l2 = lr_max_keys l1"
      using reserve_slot [OF en1 room, of now] tr1 by (auto simp: tracks_def)
    have w: "in_window l1 now (fst (slot l1 k)) = in_window ?l now (fst (slot ?l k))"
      using fr fr1 by (simp add: sl in_window_def)
    have tr2: "tracks K l2" by (rule tracks_reserve [OF tr1 assms(3) l2])
    have step: "login_step now (LoginBegin k) s
        = s\<lparr>sv_limiter := l2, sv_inflight := (sv_inflight s)(k := sv_inflight s k + 1)\<rparr>"
      by (simp add: login_begin_def ra None l2)
    have sl3: "slot l2 x = (if x = k then (in_window ?l now (fst (slot ?l k)), sv_inflight s k + 1) else slot ?l x)" for x
      using sl2 [of x] sl [of x] sl [of k] w inv by (simp add: login_inv_def)
    have "snd (slot ?l k) = sv_inflight s k" using inv by (simp add: login_inv_def)
    then show ?thesis
      using inv inv_in_window [OF inv, of k] free tr2 fr2 fr1
      unfolding step by (simp add: login_inv_def sl3)
  qed
qed

lemma login_inv_end:
  assumes inv: "login_inv l0 K now s" and "enabled l0" and "k \<in> K" and "lr_window l0 > 0"
  shows "login_inv l0 K now (login_step now (LoginEnd k v) s)"
proof (cases "sv_inflight s k = 0")
  case False
  let ?l = "sv_limiter s"
  let ?f = "case v of Wrong \<Rightarrow> in_window ?l now (fst (slot ?l k)) @ [now] | Correct \<Rightarrow> [] | Crashed \<Rightarrow> fst (slot ?l k)"
  have fr: "lr_max_attempts ?l = lr_max_attempts l0" "lr_window ?l = lr_window l0" "lr_max_keys ?l = lr_max_keys l0"
    and tr: "tracks K ?l" and p: "snd (slot ?l k) = sv_inflight s k" using inv by (simp_all add: login_inv_def)
  have en: "enabled ?l" using assms(2) fr by (simp add: enabled_def)
  have sl: "slot (login_end k v now ?l) x = (if x = k then (?f, sv_inflight s k - 1) else slot ?l x)" for x
    using end_slot [OF en, of k v now x] False p by simp
  have fr': "lr_max_attempts (login_end k v now ?l) = lr_max_attempts l0"
    "lr_window (login_end k v now ?l) = lr_window l0" "lr_max_keys (login_end k v now ?l) = lr_max_keys l0"
    using fr by (simp_all add: end_frame)
  have len: "int (length ?f + (sv_inflight s k - 1)) \<le> lr_max_attempts l0"
  proof -
    have "length (fst (slot ?l k)) + sv_inflight s k \<le> nat (lr_max_attempts l0)"
      using inv by (simp add: login_inv_def) (metis nat_int of_nat_add nat_mono)
    then show ?thesis using False length_in_window [of ?l now "fst (slot ?l k)"] assms(2)
      by (cases v) (auto simp: enabled_def)
  qed
  have log: "filter (\<lambda>t. now - lr_window l0 < t) ?f = filter (\<lambda>t. now - lr_window l0 < t)
      (case v of Wrong \<Rightarrow> sv_wrong s k @ [now] | Correct \<Rightarrow> [] | Crashed \<Rightarrow> sv_wrong s k)"
    using inv inv_in_window [OF inv, of k] assms(4) by (cases v) (auto simp: login_inv_def)
  show ?thesis
    using inv False fr' tracks_end [OF tr assms(3)] len log by (simp add: login_inv_def sl)
qed (use assms in simp)

definition login_clock :: "(real \<times> login_event) list \<Rightarrow> bool" where
  "login_clock tr = sorted (map fst tr)"

lemma login_run_inv:
  assumes "enabled l0" and "finite K" and "int (card K) \<le> lr_max_keys l0"
  shows "login_inv l0 K now s \<Longrightarrow> sorted (now # map fst tr) \<Longrightarrow> event_key ` snd ` set tr \<subseteq> K \<Longrightarrow>
    login_inv l0 K (last (now # map fst tr)) (login_run tr s)"
proof (induction tr arbitrary: now s)
  case (Cons e tr)
  obtain t ev where e: "e = (t, ev)" by force
  have inv: "login_inv l0 K t s" using login_inv_later [OF Cons.prems(1)] Cons.prems(2) by (simp add: e)
  have k: "event_key ev \<in> K" using Cons.prems(3) by (simp add: e)
  have "login_inv l0 K t (login_step t ev s)"
  proof (cases ev)
    case (LoginBegin k) then show ?thesis using login_inv_begin [OF inv assms(1) _ assms(2,3)] k by simp
  next
    case (LoginEnd k v) then show ?thesis using login_inv_end [OF inv assms(1)] k assms(1) by (simp add: enabled_def)
  qed
  from Cons.IH [OF this] Cons.prems(2,3) show ?case by (simp add: e login_run_def)
qed (simp add: login_run_def)

text \<open>
  No bypass by concurrency: while the table has room for every key that
  shows up, for every key and at every moment, the wrong passwords verified for it in the last window
  since its last success, together with the requests being verified right now, are at most
  \<open>max_attempts\<close>, whatever interleaving of admissions, verdicts and failures of the check.
\<close>

theorem login_attempts_bounded:
  assumes "attempts > 0" and "window > 0" and "login_clock tr" and "tr \<noteq> []"
    and "int (card (set (map (event_key \<circ> snd) tr))) \<le> max_keys"
  shows "int (length (filter (\<lambda>t. fst (last tr) - window < t)
            (sv_wrong (login_run tr (login_start (new_limiter attempts window max_keys interval))) k))
          + sv_inflight (login_run tr (login_start (new_limiter attempts window max_keys interval))) k) \<le> attempts"
proof -
  let ?l0 = "new_limiter attempts window max_keys interval"
  let ?K = "set (map (event_key \<circ> snd) tr)"
  let ?s = "login_run tr (login_start ?l0)"
  have en: "enabled ?l0" using assms(1,2) by (simp add: enabled_def new_limiter_def)
  have "login_inv ?l0 ?K (fst (hd tr)) (login_start ?l0)"
    using assms(1) by (simp add: login_inv_def login_start_def tracks_def slot_def new_limiter_def)
  moreover have "sorted (fst (hd tr) # map fst tr)" using assms(3,4) by (cases tr) (auto simp: login_clock_def)
  moreover have "event_key ` snd ` set tr \<subseteq> ?K" by auto
  ultimately have "login_inv ?l0 ?K (last (fst (hd tr) # map fst tr)) ?s"
    using login_run_inv [OF en, of ?K] assms(5) by (simp add: new_limiter_def)
  then have inv: "login_inv ?l0 ?K (fst (last tr)) ?s" using assms(4) by (simp add: last_map)
  let ?f = "fst (slot (sv_limiter ?s) k)"
  have "filter (\<lambda>t. fst (last tr) - window < t) (sv_wrong ?s k) = filter (\<lambda>t. fst (last tr) - window < t) ?f"
    and b: "int (length ?f + sv_inflight ?s k) \<le> attempts"
    using inv by (simp_all add: login_inv_def new_limiter_def)
  then have "length (filter (\<lambda>t. fst (last tr) - window < t) (sv_wrong ?s k)) \<le> length ?f"
    using length_filter_le by metis
  then show ?thesis using b by linarith
qed

lemma login_attempts_bounded_witness:
  "int (length (filter (\<lambda>t. fst (last [(0, LoginBegin ''a''), (1, LoginBegin ''a''), (2, LoginEnd ''a'' Wrong)]) - 300 < t)
          (sv_wrong (login_run [(0, LoginBegin ''a''), (1, LoginBegin ''a''), (2, LoginEnd ''a'' Wrong)]
             (login_start (new_limiter 2 300 10 60))) ''a''))
        + sv_inflight (login_run [(0, LoginBegin ''a''), (1, LoginBegin ''a''), (2, LoginEnd ''a'' Wrong)]
             (login_start (new_limiter 2 300 10 60))) ''a'') \<le> 2"
  by (rule login_attempts_bounded) (simp_all add: login_clock_def)

section \<open>Two edges of the full table\<close>

lemmas login_eval =
  login_run_def login_start_def new_limiter_def login_begin_def login_end_def retry_after_def enabled_def
  live_entry_def reserve_attempt_def make_room_def prune_def set_entry_def del_entry_def touch_def
  release_def commit_failure_def reset_key_def alert_def od_move_to_end_def Let_def

text \<open>
  A request admitted while the table was full is not tracked. If its key is tracked by the time it ends,
  its release is not the no-op the code's comment expects: it takes away the reservation of another
  request, which is still being verified.
\<close>

definition ex_untracked :: login_server where
  "ex_untracked = login_run
     [(0, LoginBegin ''a''), (1, LoginBegin ''k''), (2, LoginEnd ''a'' Correct), (3, LoginBegin ''k''),
      (4, LoginEnd ''k'' Crashed)] (login_start (new_limiter 5 300 1 60))"

lemma untracked_release_drops_reservation:
  "sv_inflight ex_untracked ''k'' = 1 \<and> entry (sv_limiter ex_untracked) ''k'' = None"
  by (simp add: ex_untracked_def login_eval)

text \<open>
  The front key of the table can be live while a later one is dead: a reservation moves a key to the
  back even when it ends without a verdict. The new key \<open>c\<close> then goes untracked although the dead
  key \<open>b\<close> could have been evicted.
\<close>

definition ex_front_live :: login_server where
  "ex_front_live = login_run
     [(5, LoginBegin ''b''), (5, LoginEnd ''b'' Wrong), (10, LoginBegin ''a''), (10, LoginEnd ''a'' Wrong),
      (20, LoginBegin ''b''), (20, LoginEnd ''b'' Crashed), (306, LoginBegin ''c'')]
     (login_start (new_limiter 5 300 2 60))"

lemma full_table_keeps_dead_key:
  "entry (sv_limiter ex_front_live) ''c'' = None
   \<and> pruned (sv_limiter ex_front_live) 306 ''b'' = None \<and> entry (sv_limiter ex_front_live) ''b'' \<noteq> None"
  by (simp add: ex_front_live_def pruned_def login_eval)

end
