(* ===== verification/ApiAccess.thy ===== *)
theory ApiAccess
  imports Prelude "HOL-Library.Sublist"
begin

text \<open>
  Who may call the API: the whitelist of paths, the acceptance of tokens and API keys, and the bounded
  record of token renewals (\<open>ontorag/api/utils_api.py\<close>), the accounts and the validation of a token's
  claims (\<open>ontorag/api/auth.py\<close>). Decoding and signing of a JWT is the library's: a parameter that gives
  the claims of a token whose signature and algorithm are right, and nothing otherwise.
\<close>

section \<open>Strings\<close>

text \<open>\<open>s.split(sep)\<close> for a one-character separator, and \<open>s.rstrip(c)\<close>.\<close>

fun py_split :: "nat \<Rightarrow> pystr \<Rightarrow> pystr list" where
  "py_split sep [] = [[]]"
| "py_split sep (c # s) =
     (if c = sep then [] # py_split sep s
      else (case py_split sep s of [] \<Rightarrow> [[c]] | w # ws \<Rightarrow> (c # w) # ws))"

definition py_rstrip_char :: "nat \<Rightarrow> pystr \<Rightarrow> pystr" where
  "py_rstrip_char c s = rev (dropWhile (\<lambda>x. x = c) (rev s))"

definition slash :: nat where "slash = 47"

section \<open>The whitelist\<close>

type_synonym pattern = "pystr \<times> bool"

text \<open>The patterns compiled when the module is loaded: prefix patterns end in \<open>/*\<close>.\<close>

definition compile_entry :: "pystr \<Rightarrow> pattern list" where
  "compile_entry raw =
     (let path = py_strip raw
      in if path = [] then []
         else if suffix (lit ''/*'') path then [(take (length path - 2) path, True)]
         else [(path, False)])"

definition whitelist_patterns :: "pystr \<Rightarrow> pattern list" where
  "whitelist_patterns whitelist_paths = concat (map compile_entry (py_split 44 whitelist_paths))"

record asgi_scope =
  sc_path :: "pystr option"
  sc_root_path :: "pystr option"

definition or_empty :: "pystr option \<Rightarrow> pystr" where
  "or_empty x = (case x of None \<Rightarrow> [] | Some s \<Rightarrow> s)"

definition get_route_path :: "asgi_scope \<Rightarrow> pystr \<Rightarrow> pystr" where
  "get_route_path scope mount_prefix =
     (let path = or_empty (sc_path scope);
          pre = py_rstrip_char slash
                  (if or_empty (sc_root_path scope) \<noteq> [] then or_empty (sc_root_path scope) else mount_prefix)
      in if pre = [] \<or> \<not> prefix pre path then path
         else
           (let remainder = drop (length pre) path
            in if remainder = [] then [slash]
               else if prefix [slash] remainder then remainder
               else path))"

definition pattern_matches :: "pystr \<Rightarrow> pattern \<Rightarrow> bool" where
  "pattern_matches route p =
     (case p of (pat, is_prefix) \<Rightarrow>
        if is_prefix then route = pat \<or> prefix (pat @ [slash]) route else route = pat)"

definition path_is_whitelisted :: "pattern list \<Rightarrow> asgi_scope \<Rightarrow> pystr \<Rightarrow> bool" where
  "path_is_whitelisted patterns scope mount_prefix =
     list_ex (pattern_matches (get_route_path scope mount_prefix)) patterns"

definition exposes_entry :: "pystr \<Rightarrow> bool" where
  "exposes_entry raw =
     (let entry = py_strip raw
      in if entry = [] then False
         else if suffix (lit ''/*'') entry then
           (let pre = take (length entry - 2) entry
            in prefix pre (lit ''/api'') \<or> prefix (lit ''/api/'') pre)
         else entry = lit ''/api'' \<or> prefix (lit ''/api/'') entry)"

definition whitelist_exposes_api_routes :: "pystr \<Rightarrow> bool" where
  "whitelist_exposes_api_routes whitelist_paths = list_ex exposes_entry (py_split 44 whitelist_paths)"

section \<open>Accounts and tokens\<close>

definition MAX_TOKEN_SUBJECT_LENGTH :: nat where "MAX_TOKEN_SUBJECT_LENGTH = 256"

text \<open>\<open>account.split(":", 1)\<close> unpacked into two names: \<open>None\<close> without a colon.\<close>

fun split_once :: "nat \<Rightarrow> pystr \<Rightarrow> (pystr \<times> pystr) option" where
  "split_once sep [] = None"
| "split_once sep (c # s) =
     (if c = sep then Some ([], s)
      else (case split_once sep s of None \<Rightarrow> None | Some (a, b) \<Rightarrow> Some (c # a, b)))"

text \<open>The accounts of \<open>AuthHandler.__init__\<close>: the accepted ones, the malformed and the oversized.\<close>

fun parse_accounts ::
  "pystr list \<Rightarrow> (pystr, pystr) odict \<Rightarrow> bool \<Rightarrow> bool \<Rightarrow> (pystr, pystr) odict \<times> bool \<times> bool" where
  "parse_accounts [] accounts invalid oversized = (accounts, invalid, oversized)"
| "parse_accounts (a # rest) accounts invalid oversized =
     (case split_once 58 a of
        None \<Rightarrow> parse_accounts rest accounts True oversized
      | Some (username, password) \<Rightarrow>
          if username = [] \<or> password = [] then parse_accounts rest accounts True oversized
          else if length username > MAX_TOKEN_SUBJECT_LENGTH then parse_accounts rest accounts invalid True
          else parse_accounts rest (od_set username password accounts) invalid oversized)"

definition load_accounts :: "pystr \<Rightarrow> (pystr, pystr) odict res" where
  "load_accounts auth_accounts =
     (if auth_accounts = [] then Inr []
      else
        (case parse_accounts (py_split 44 auth_accounts) [] False False of (accounts, invalid, oversized) \<Rightarrow>
           if invalid then Inl ValueError else if oversized then Inl ValueError else Inr accounts))"

text \<open>
  The claims a decoded token carries. A claim of another JSON type than the one expected is \<open>JOther\<close>;
  \<open>cl_exp_time\<close> is the time of a numeric \<open>exp\<close>, \<open>None\<close> when it is outside the range of \<open>datetime\<close>.
\<close>

datatype json_str = JStr pystr | JOther

record claims =
  cl_sub :: "json_str option"
  cl_exp :: "(real option) option"
  cl_role :: "json_str option"

record token_info =
  ti_username :: pystr
  ti_role :: json_str
  ti_exp :: real

type_synonym http_status = nat

text \<open>\<open>jwt_decode token\<close> is \<open>None\<close> where \<open>jwt.decode\<close> raises a \<open>PyJWTError\<close>.\<close>

definition validate_token ::
  "bool \<Rightarrow> (pystr \<Rightarrow> claims option) \<Rightarrow> real \<Rightarrow> pystr \<Rightarrow> http_status + token_info" where
  "validate_token algorithm_none jwt_decode now token =
     (if algorithm_none then Inl 500
      else
        (case jwt_decode token of
           None \<Rightarrow> Inl 401
         | Some payload \<Rightarrow>
             (case cl_sub payload of
                Some (JStr username) \<Rightarrow>
                  if username = [] then Inl 401
                  else if length username > MAX_TOKEN_SUBJECT_LENGTH then Inl 401
                  else
                    (case cl_exp payload of
                       None \<Rightarrow> Inl 401
                     | Some None \<Rightarrow> Inl 401
                     | Some (Some expire_time) \<Rightarrow>
                         if now > expire_time then Inl 401
                         else Inr \<lparr>ti_username = username,
                                   ti_role = (case cl_role payload of None \<Rightarrow> JStr (lit ''user'') | Some r \<Rightarrow> r),
                                   ti_exp = expire_time\<rparr>)
              | _ \<Rightarrow> Inl 401)))"

definition is_guest :: "token_info \<Rightarrow> bool" where
  "is_guest i \<longleftrightarrow> ti_role i = JStr (lit ''guest'')"

section \<open>The decision\<close>

text \<open>
  Credentials are optional strings, and an empty one is none. \<open>validate\<close> is the handler's
  \<^const>\<open>validate_token\<close> at the time of the request.
\<close>

definition truthy :: "pystr option \<Rightarrow> bool" where
  "truthy x \<longleftrightarrow> or_empty x \<noteq> []"

definition key_matches :: "pystr option \<Rightarrow> pystr option \<Rightarrow> bool" where
  "key_matches header api_key \<longleftrightarrow> truthy api_key \<and> truthy header \<and> header = api_key"

definition credentials_accepted ::
  "bool \<Rightarrow> (pystr \<Rightarrow> http_status + token_info) \<Rightarrow> pystr option \<Rightarrow> pystr option \<Rightarrow> pystr option \<Rightarrow> bool" where
  "credentials_accepted auth_configured validate token header api_key =
     (if \<not> auth_configured \<and> \<not> truthy api_key then True
      else if key_matches header api_key then True
      else if truthy token then
        (case validate (or_empty token) of
           Inl _ \<Rightarrow> False
         | Inr info \<Rightarrow> auth_configured \<and> \<not> is_guest info)
      else False)"

text \<open>The answer of \<open>combined_dependency\<close>: access, with the token to renew, or a status code.\<close>

datatype access = Allow "token_info option" | Deny http_status

definition after_token ::
  "bool \<Rightarrow> pystr option \<Rightarrow> pystr option \<Rightarrow> pystr option \<Rightarrow> token_info option \<Rightarrow> access" where
  "after_token auth_configured token header api_key info =
     (if \<not> auth_configured \<and> \<not> truthy api_key then Allow None
      else if key_matches header api_key then Allow info
      else if auth_configured \<and> \<not> truthy token then Deny 401
      else Deny 403)"

definition combined_dependency ::
  "bool \<Rightarrow> pattern list \<Rightarrow> bool \<Rightarrow> (pystr \<Rightarrow> http_status + token_info) \<Rightarrow> asgi_scope
   \<Rightarrow> pystr option \<Rightarrow> pystr option \<Rightarrow> pystr option \<Rightarrow> access" where
  "combined_dependency respect_whitelist patterns auth_configured validate scope token header api_key =
     (if respect_whitelist \<and> path_is_whitelisted patterns scope [] then Allow None
      else if truthy token then
        (case validate (or_empty token) of
           Inl code \<Rightarrow> if code = 401 then Deny 401 else after_token auth_configured token header api_key None
         | Inr info \<Rightarrow>
             if \<not> auth_configured \<and> is_guest info then
               (if \<not> truthy api_key then Allow (Some info)
                else after_token auth_configured token header api_key (Some info))
             else if auth_configured \<and> \<not> is_guest info then Allow (Some info)
             else Deny 401)
      else after_token auth_configured token header api_key None)"

section \<open>Renewal bookkeeping\<close>

definition RENEWAL_MIN_INTERVAL :: real where "RENEWAL_MIN_INTERVAL = 60"
definition MAX_TRACKED_RENEWALS :: nat where "MAX_TRACKED_RENEWALS = 10000"

definition record_token_renewal :: "pystr \<Rightarrow> real \<Rightarrow> (pystr, real) odict \<Rightarrow> (pystr, real) odict" where
  "record_token_renewal username renewed_at cache =
     (let purged = dropWhile (\<lambda>(_, oldest_at). \<not> renewed_at - oldest_at < RENEWAL_MIN_INTERVAL) cache
      in evict_front MAX_TRACKED_RENEWALS (od_del username purged @ [(username, renewed_at)]))"

text \<open>
  \<open>_renew_token_if_needed\<close> after its configuration checks: the renewed users and the cache.
  \<open>skip_paths\<close> are the route paths that never renew, \<open>lifetime\<close> the configured lifetime of the
  token's role in seconds.
\<close>

definition renew_skipped :: "pystr list \<Rightarrow> pystr \<Rightarrow> bool" where
  "renew_skipped skip_paths path = list_ex (\<lambda>s. path = s \<or> prefix (s @ [slash]) path) skip_paths"

definition renew_token_if_needed ::
  "bool \<Rightarrow> pystr list \<Rightarrow> real \<Rightarrow> (token_info \<Rightarrow> real) \<Rightarrow> real \<Rightarrow> pystr \<Rightarrow> token_info \<Rightarrow> (pystr, real) odict
   \<Rightarrow> bool \<times> (pystr, real) odict" where
  "renew_token_if_needed auto_renew skip_paths threshold lifetime now path info cache =
     (if \<not> auto_renew \<or> renew_skipped skip_paths path then (False, cache)
      else if ti_exp info - now \<ge> lifetime info * threshold then (False, cache)
      else
        (let last_renewal = (case map_of cache (ti_username info) of None \<Rightarrow> 0 | Some t \<Rightarrow> t)
         in if now - last_renewal < RENEWAL_MIN_INTERVAL then (False, cache)
            else (True, record_token_renewal (ti_username info) now cache)))"

section \<open>Access\<close>

text \<open>A token that the request carries and that the configured mode turns away with 401.\<close>

definition token_refused :: "bool \<Rightarrow> (pystr \<Rightarrow> http_status + token_info) \<Rightarrow> pystr option \<Rightarrow> bool" where
  "token_refused auth_configured validate token \<longleftrightarrow>
     truthy token \<and>
       (case validate (or_empty token) of Inl code \<Rightarrow> code = 401 | Inr info \<Rightarrow> is_guest info = auth_configured)"

definition allowed :: "access \<Rightarrow> bool" where
  "allowed a = (case a of Allow _ \<Rightarrow> True | Deny _ \<Rightarrow> False)"

text \<open>
  The gate lets a request in exactly when its path is whitelisted (where the whitelist is
  respected), or its credentials are accepted by the shared acceptance rules and it does not carry a token
  that the configured mode refuses.
\<close>

theorem access_iff:
  "allowed (combined_dependency respect patterns auth validate scope token header api_key) =
     ((respect \<and> path_is_whitelisted patterns scope [])
      \<or> (credentials_accepted auth validate token header api_key \<and> \<not> token_refused auth validate token))"
  by (auto simp: combined_dependency_def after_token_def credentials_accepted_def token_refused_def allowed_def
      split: sum.splits)

section \<open>The whitelist and the mount point\<close>

lemma rstrip_id: "s \<noteq> [] \<Longrightarrow> last s \<noteq> c \<Longrightarrow> py_rstrip_char c s = s"
  by (cases s rule: rev_cases) (simp_all add: py_rstrip_char_def)

lemma route_mounted:
  assumes "pre \<noteq> []" and "last pre \<noteq> slash" and "route = slash # rest"
  shows "get_route_path \<lparr>sc_path = Some (pre @ route), sc_root_path = Some pre\<rparr> mount = route"
  using assms by (simp add: get_route_path_def Let_def or_empty_def rstrip_id)

text \<open>A proxy that strips the prefix shows the bare path; it is left alone unless it starts with the prefix
  as a whole segment.\<close>

lemma route_stripped:
  assumes "pre \<noteq> []" and "last pre \<noteq> slash" and "route \<noteq> pre" and "\<not> prefix (pre @ [slash]) route"
  shows "get_route_path \<lparr>sc_path = Some route, sc_root_path = Some pre\<rparr> mount = route"
proof (cases "prefix pre route")
  case True
  then obtain rest where "route = pre @ rest" by (auto simp: prefix_def)
  then show ?thesis using assms
    by (auto simp: get_route_path_def Let_def or_empty_def rstrip_id)
qed (use assms in \<open>simp add: get_route_path_def Let_def or_empty_def rstrip_id\<close>)

text \<open>
  Mounting the application under a prefix changes nothing about which routes
  skip authentication: for any whitelist, the route under its mounted path, the route behind a proxy that
  strips the prefix, and the route of an unmounted server are whitelisted alike. A prefix that itself looks
  like a whitelisted path opens nothing.
\<close>

theorem whitelist_mount_invariant:
  assumes "pre \<noteq> []" and "last pre \<noteq> slash" and "route \<noteq> pre" and "\<not> prefix (pre @ [slash]) route"
    and "prefix [slash] route"
  shows "path_is_whitelisted pats \<lparr>sc_path = Some (pre @ route), sc_root_path = Some pre\<rparr> mount
       = path_is_whitelisted pats \<lparr>sc_path = Some route, sc_root_path = None\<rparr> []
    \<and> path_is_whitelisted pats \<lparr>sc_path = Some route, sc_root_path = Some pre\<rparr> mount
       = path_is_whitelisted pats \<lparr>sc_path = Some route, sc_root_path = None\<rparr> []"
proof -
  obtain rest where "route = slash # rest" using assms(5) by (auto simp: prefix_def)
  note mounted = route_mounted [OF assms(1,2) this, of mount]
  note stripped = route_stripped [OF assms(1-4), of mount]
  have "get_route_path \<lparr>sc_path = Some route, sc_root_path = None\<rparr> [] = route"
    by (simp add: get_route_path_def Let_def or_empty_def py_rstrip_char_def)
  then show ?thesis using mounted stripped by (simp add: path_is_whitelisted_def)
qed

definition ex_whitelist :: pystr where
  "ex_whitelist = lit ''/health,/api/*''"

lemma whitelist_mount_invariant_witness:
  "path_is_whitelisted (whitelist_patterns ex_whitelist)
       \<lparr>sc_path = Some (lit ''/api/site'' @ lit ''/documents''), sc_root_path = Some (lit ''/api/site'')\<rparr> []
     = path_is_whitelisted (whitelist_patterns ex_whitelist)
       \<lparr>sc_path = Some (lit ''/documents''), sc_root_path = None\<rparr> []
   \<and> path_is_whitelisted (whitelist_patterns ex_whitelist)
       \<lparr>sc_path = Some (lit ''/documents''), sc_root_path = Some (lit ''/api/site'')\<rparr> []
     = path_is_whitelisted (whitelist_patterns ex_whitelist)
       \<lparr>sc_path = Some (lit ''/documents''), sc_root_path = None\<rparr> []"
  by (rule whitelist_mount_invariant) (simp_all add: slash_def)

section \<open>The exposure report\<close>

lemma pattern_of_exposed:
  assumes "pattern_matches route p" and "p \<in> set (compile_entry raw)"
    and "route = lit ''/api'' \<or> prefix (lit ''/api/'') route"
  shows "exposes_entry raw"
proof -
  let ?e = "py_strip raw" and ?pre = "take (length (py_strip raw) - 2) (py_strip raw)"
  have ne: "?e \<noteq> []" using assms(2) by (auto simp: compile_entry_def)
  show ?thesis
  proof (cases "suffix (lit ''/*'') ?e")
    case False
    then have "route = ?e" using assms(1,2) ne by (simp add: compile_entry_def pattern_matches_def)
    then show ?thesis using assms(3) ne False by (auto simp: exposes_entry_def Let_def)
  next
    case True
    then have m: "route = ?pre \<or> prefix (?pre @ [slash]) route"
      using assms(1,2) ne by (simp add: compile_entry_def pattern_matches_def Let_def)
    have "prefix ?pre (lit ''/api'') \<or> prefix (lit ''/api/'') ?pre"
    proof (cases "route = ?pre")
      case True
      then show ?thesis using assms(3) by auto
    next
      case False
      then have pr: "prefix (?pre @ [slash]) route" using m by blast
      then have pre: "prefix ?pre route" by (rule append_prefixD)
      from assms(3) show ?thesis
      proof
        assume "route = lit ''/api''"
        then show ?thesis using pre by simp
      next
        assume api: "prefix (lit ''/api/'') route"
        have split: "lit ''/api/'' = lit ''/api'' @ [slash]" by (simp add: slash_def)
        from prefix_same_cases [OF pre api] show ?thesis
        proof
          assume "prefix ?pre (lit ''/api/'')"
          then have "?pre = lit ''/api/'' \<or> prefix ?pre (lit ''/api'')"
            by (simp only: split prefix_snoc)
          then show ?thesis by (metis prefix_order.refl)
        qed simp
      qed
    qed
    then show ?thesis using ne True by (simp add: exposes_entry_def Let_def)
  qed
qed

text \<open>
  The startup report on the whitelist is sound: when
  \<open>whitelist_exposes_api_routes\<close> says that the entries expose no Ollama-compatible route, then no request
  whose route is \<open>/api\<close> or lies under \<open>/api/\<close> is whitelisted, under whatever mount point.
\<close>

theorem exposure_report_sound:
  assumes "\<not> whitelist_exposes_api_routes entries"
    and "get_route_path scope mount = lit ''/api'' \<or> prefix (lit ''/api/'') (get_route_path scope mount)"
  shows "\<not> path_is_whitelisted (whitelist_patterns entries) scope mount"
proof
  assume "path_is_whitelisted (whitelist_patterns entries) scope mount"
  then obtain raw p where "raw \<in> set (py_split 44 entries)" "p \<in> set (compile_entry raw)"
    "pattern_matches (get_route_path scope mount) p"
    by (auto simp: path_is_whitelisted_def whitelist_patterns_def list_ex_iff)
  then have "exposes_entry raw" "raw \<in> set (py_split 44 entries)"
    using pattern_of_exposed assms(2) by blast+
  then have "whitelist_exposes_api_routes entries"
    by (auto simp: whitelist_exposes_api_routes_def list_ex_iff)
  then show False using assms(1) by blast
qed

lemma exposure_report_sound_witness:
  "\<not> path_is_whitelisted (whitelist_patterns (lit ''/health,/apiary/*''))
      \<lparr>sc_path = Some (lit ''/api/chat''), sc_root_path = None\<rparr> []"
  by (rule exposure_report_sound)
    (simp_all add: whitelist_exposes_api_routes_def exposes_entry_def py_strip_def py_isspace_def Let_def
      suffix_def get_route_path_def or_empty_def py_rstrip_char_def)

section \<open>Bounds\<close>

lemma renewal_cache_bounded: "length (record_token_renewal u t cache) \<le> MAX_TRACKED_RENEWALS"
  by (simp add: record_token_renewal_def Let_def)

lemma accepted_names_fit:
  "parse_accounts accs d bad ov = (d', bad', ov') \<Longrightarrow> list_all (\<lambda>e. length (fst e) \<le> MAX_TOKEN_SUBJECT_LENGTH) d
   \<Longrightarrow> list_all (\<lambda>e. length (fst e) \<le> MAX_TOKEN_SUBJECT_LENGTH) d'"
proof (induction accs arbitrary: d bad ov)
  case (Cons a accs)
  have put: "length u \<le> MAX_TOKEN_SUBJECT_LENGTH
      \<Longrightarrow> list_all (\<lambda>e. length (fst e) \<le> MAX_TOKEN_SUBJECT_LENGTH) (od_set u w d)" for u w
    using Cons.prems(2) by (intro list_all_od_set) simp_all
  show ?case
    using Cons.prems Cons.IH put by (auto split: option.splits prod.splits if_splits)
qed simp

end
