(* ===== verification/KeyedLocks.thy ===== *)
theory KeyedLocks
  imports Prelude "HOL-Library.List_Lexorder"
begin

text \<open>
  The keyed locks of one process, \<open>KeyedUnifiedLock\<close> and \<open>_KeyedLockContext\<close> of \<open>ontorag/kg/shared_storage.py\<close> in
  single-process mode: the table of locks and reference counts that is kept only while a key is in use, and the
  context that takes several keys in sorted order, rolls back when it is cancelled and releases in reverse. A
  step is what the code does between two suspension points (or less). An \<open>asyncio.Lock\<close> is a cell of a heap that
  holds its owner; which waiter gets a free lock is left open. Proved: mutual exclusion although lock objects are
  dropped and made again, exact reference counts, nothing left behind, and no deadlock between contexts with
  distinct keys; a context that names a key twice waits for itself.
\<close>

section \<open>State\<close>

type_synonym task = nat

text \<open>An entry of a context: its key, the lock object it refers to, and whether it was entered.\<close>

record entry =
  ke_key :: pystr
  ke_addr :: nat
  ke_entered :: bool

text \<open>\<open>Acquiring ks\<close>: \<open>__aenter__\<close> with \<open>ks\<close> still to come. \<open>Releasing\<close>: rollback or \<open>__aexit__\<close>.\<close>

datatype phase = Idle | Acquiring "pystr list" | Inside | Releasing

record klocks =
  kl_lock :: "pystr \<Rightarrow> nat option"
  kl_count :: "pystr \<Rightarrow> int option"
  kl_heap :: "nat \<Rightarrow> task option"
  kl_next :: nat
  kl_phase :: "task \<Rightarrow> phase"
  kl_entries :: "task \<Rightarrow> entry list"

definition kl_init :: klocks where
  "kl_init = \<lparr>kl_lock = (\<lambda>_. None), kl_count = (\<lambda>_. None), kl_heap = (\<lambda>_. None), kl_next = 0,
     kl_phase = (\<lambda>_. Idle), kl_entries = (\<lambda>_. [])\<rparr>"

section \<open>The table\<close>

definition get_combined_key :: "pystr \<Rightarrow> pystr \<Rightarrow> pystr" where
  "get_combined_key factory_name key = factory_name @ [58] @ key"

definition get_or_create_async_lock :: "pystr \<Rightarrow> klocks \<Rightarrow> nat \<times> klocks" where
  "get_or_create_async_lock k s =
     (let (a, s1) = (case kl_lock s k of
            Some a \<Rightarrow> (a, s)
          | None \<Rightarrow> (kl_next s, s\<lparr>kl_lock := (kl_lock s)(k \<mapsto> kl_next s), kl_next := Suc (kl_next s)\<rparr>));
          n = (case kl_count s k of None \<Rightarrow> 0 | Some n \<Rightarrow> n) + 1
      in (a, s1\<lparr>kl_count := (kl_count s)(k \<mapsto> n)\<rparr>))"

definition release_async_lock :: "pystr \<Rightarrow> klocks \<Rightarrow> klocks" where
  "release_async_lock k s =
     (case kl_count s k of
        None \<Rightarrow> s
      | Some n \<Rightarrow>
          if n - 1 \<le> 0 then s\<lparr>kl_count := (kl_count s)(k := None), kl_lock := (kl_lock s)(k := None)\<rparr>
          else s\<lparr>kl_count := (kl_count s)(k \<mapsto> n - 1)\<rparr>)"

section \<open>The context\<close>

text \<open>\<open>async with get_storage_keyed_lock(keys, namespace)\<close> starts: the keys are sorted. \<open>None\<close>: not enabled.\<close>

definition kl_enter :: "task \<Rightarrow> pystr \<Rightarrow> pystr list \<Rightarrow> klocks \<Rightarrow> klocks option" where
  "kl_enter t namespace keys s =
     (if kl_phase s t = Idle
      then Some (s\<lparr>kl_phase := (kl_phase s)(t := Acquiring (map (get_combined_key namespace) (sort keys))),
                   kl_entries := (kl_entries s)(t := [])\<rparr>)
      else None)"

text \<open>One key of the loop up to the \<open>await\<close>: reference the lock, append the entry.\<close>

definition kl_reference :: "task \<Rightarrow> klocks \<Rightarrow> klocks option" where
  "kl_reference t s =
     (case kl_phase s t of
        Acquiring (k # ks) \<Rightarrow>
          if list_all ke_entered (kl_entries s t)
          then (case get_or_create_async_lock k s of (a, s1) \<Rightarrow>
                  Some (s1\<lparr>kl_phase := (kl_phase s)(t := Acquiring ks),
                           kl_entries := (kl_entries s)(t := kl_entries s t
                             @ [\<lparr>ke_key = k, ke_addr = a, ke_entered = False\<rparr>])\<rparr>))
          else None
      | _ \<Rightarrow> None)"

text \<open>\<open>await lock.__aenter__()\<close> returns: the lock was free.\<close>

definition kl_take :: "task \<Rightarrow> klocks \<Rightarrow> klocks option" where
  "kl_take t s =
     (case kl_phase s t of
        Acquiring _ \<Rightarrow>
          if kl_entries s t \<noteq> [] \<and> \<not> ke_entered (last (kl_entries s t))
             \<and> kl_heap s (ke_addr (last (kl_entries s t))) = None
          then Some (s\<lparr>kl_heap := (kl_heap s)(ke_addr (last (kl_entries s t)) \<mapsto> t),
                       kl_entries := (kl_entries s)(t := butlast (kl_entries s t)
                         @ [(last (kl_entries s t))\<lparr>ke_entered := True\<rparr>])\<rparr>)
          else None
      | _ \<Rightarrow> None)"

text \<open>\<open>__aenter__\<close> returns; the wait is cancelled, and the rollback starts; \<open>__aexit__\<close> starts.\<close>

definition kl_entered :: "task \<Rightarrow> klocks \<Rightarrow> klocks option" where
  "kl_entered t s =
     (if kl_phase s t = Acquiring [] \<and> list_all ke_entered (kl_entries s t)
      then Some (s\<lparr>kl_phase := (kl_phase s)(t := Inside)\<rparr>) else None)"

definition kl_cancel :: "task \<Rightarrow> klocks \<Rightarrow> klocks option" where
  "kl_cancel t s =
     (case kl_phase s t of
        Acquiring _ \<Rightarrow>
          if kl_entries s t \<noteq> [] \<and> \<not> ke_entered (last (kl_entries s t))
          then Some (s\<lparr>kl_phase := (kl_phase s)(t := Releasing)\<rparr>) else None
      | _ \<Rightarrow> None)"

definition kl_exit :: "task \<Rightarrow> klocks \<Rightarrow> klocks option" where
  "kl_exit t s =
     (if kl_phase s t = Inside then Some (s\<lparr>kl_phase := (kl_phase s)(t := Releasing)\<rparr>) else None)"

text \<open>The release of the last entry, of the rollback and of \<open>__aexit__\<close> alike: unlock if entered, drop the
  reference. With no entry left the context ends.\<close>

definition kl_release_one :: "task \<Rightarrow> klocks \<Rightarrow> klocks option" where
  "kl_release_one t s =
     (if kl_phase s t \<noteq> Releasing then None
      else if kl_entries s t = [] then Some (s\<lparr>kl_phase := (kl_phase s)(t := Idle)\<rparr>)
      else
        (let e = last (kl_entries s t);
             s1 = (if ke_entered e then s\<lparr>kl_heap := (kl_heap s)(ke_addr e := None)\<rparr> else s);
             s2 = release_async_lock (ke_key e) s1
         in Some (s2\<lparr>kl_entries := (kl_entries s)(t := butlast (kl_entries s t))\<rparr>)))"

datatype kl_event =
    Ev_Enter task pystr "pystr list"
  | Ev_Reference task
  | Ev_Take task
  | Ev_Entered task
  | Ev_Cancel task
  | Ev_Exit task
  | Ev_Release task

fun kl_step :: "kl_event \<Rightarrow> klocks \<Rightarrow> klocks option" where
  "kl_step (Ev_Enter t ns keys) s = kl_enter t ns keys s"
| "kl_step (Ev_Reference t) s = kl_reference t s"
| "kl_step (Ev_Take t) s = kl_take t s"
| "kl_step (Ev_Entered t) s = kl_entered t s"
| "kl_step (Ev_Cancel t) s = kl_cancel t s"
| "kl_step (Ev_Exit t) s = kl_exit t s"
| "kl_step (Ev_Release t) s = kl_release_one t s"

text \<open>The states that are reached when every context is entered with keys that satisfy \<open>P\<close>.\<close>

inductive kl_reach :: "(pystr list \<Rightarrow> bool) \<Rightarrow> klocks \<Rightarrow> bool" for P where
  start: "kl_reach P kl_init"
| step: "kl_reach P s \<Longrightarrow> (\<And>t ns keys. ev = Ev_Enter t ns keys \<Longrightarrow> P keys) \<Longrightarrow> kl_step ev s = Some s' \<Longrightarrow>
    kl_reach P s'"

section \<open>The invariant\<close>

text \<open>The references to a key: task and position of every entry with it.\<close>

definition refs :: "klocks \<Rightarrow> pystr \<Rightarrow> (task \<times> nat) set" where
  "refs s k = {(t, i). i < length (kl_entries s t) \<and> ke_key (kl_entries s t ! i) = k}"

definition entered_at :: "klocks \<Rightarrow> task \<Rightarrow> nat \<Rightarrow> bool" where
  "entered_at s t a \<longleftrightarrow> (\<exists>e \<in> set (kl_entries s t). ke_entered e \<and> ke_addr e = a)"

definition table_ok :: "klocks \<Rightarrow> bool" where
  "table_ok s \<longleftrightarrow>
     (\<forall>k. finite (refs s k)
        \<and> kl_count s k = (if refs s k = {} then None else Some (int (card (refs s k))))
        \<and> (kl_lock s k = None \<longleftrightarrow> refs s k = {}))"

definition heap_ok :: "klocks \<Rightarrow> bool" where
  "heap_ok s \<longleftrightarrow>
     (\<forall>t. \<forall>e \<in> set (kl_entries s t). kl_lock s (ke_key e) = Some (ke_addr e))
     \<and> (\<forall>k k' a. kl_lock s k = Some a \<longrightarrow> kl_lock s k' = Some a \<longrightarrow> k = k')
     \<and> (\<forall>k a. kl_lock s k = Some a \<longrightarrow> a < kl_next s)
     \<and> (\<forall>a t. kl_heap s a = Some t \<longleftrightarrow> entered_at s t a)
     \<and> (\<forall>t. distinct (map ke_addr (filter ke_entered (kl_entries s t))))"

text \<open>Only the last entry of a context can be one that is not entered, and not while it is inside.\<close>

definition phase_ok :: "klocks \<Rightarrow> bool" where
  "phase_ok s \<longleftrightarrow>
     (\<forall>t. list_all ke_entered (butlast (kl_entries s t))
        \<and> (kl_phase s t = Inside \<longrightarrow> list_all ke_entered (kl_entries s t))
        \<and> (kl_phase s t = Idle \<longrightarrow> kl_entries s t = []))"

definition kl_inv :: "klocks \<Rightarrow> bool" where
  "kl_inv s \<longleftrightarrow> table_ok s \<and> heap_ok s \<and> phase_ok s"

lemma kl_inv_init: "kl_inv kl_init"
  by (simp add: kl_inv_def table_ok_def heap_ok_def phase_ok_def kl_init_def refs_def entered_at_def)

text \<open>References follow the keys of the entries.\<close>

lemma refs_keys: "refs s k = {(t, i). i < length (map ke_key (kl_entries s t)) \<and> map ke_key (kl_entries s t) ! i = k}"
  by (auto simp: refs_def)

lemma refs_cong: "(\<And>t. map ke_key (kl_entries s' t) = map ke_key (kl_entries s t)) \<Longrightarrow> refs s' k = refs s k"
  by (simp only: refs_keys)

lemma refs_append:
  assumes "kl_entries s' = (kl_entries s)(t := kl_entries s t @ [e])"
  shows "refs s' k = (if ke_key e = k then insert (t, length (kl_entries s t)) (refs s k) else refs s k)"
  by (auto simp: refs_def assms nth_append less_Suc_eq split: if_splits)

lemma refs_fresh: "(t, length (kl_entries s t)) \<notin> refs s k"
  by (simp add: refs_def)

lemma refs_butlast:
  assumes "kl_entries s' = (kl_entries s)(t := butlast (kl_entries s t))" "kl_entries s t \<noteq> []"
  shows "refs s' k = refs s k - {(t, length (kl_entries s t) - 1)}"
  by (auto simp: refs_def assms(1) nth_butlast split: if_splits)

lemma refs_last: "kl_entries s t \<noteq> [] \<Longrightarrow> (t, length (kl_entries s t) - 1) \<in> refs s (ke_key (last (kl_entries s t)))"
  by (simp add: refs_def last_conv_nth)

lemma refs_last_only:
  "kl_entries s t \<noteq> [] \<Longrightarrow> (t, length (kl_entries s t) - 1) \<in> refs s k \<Longrightarrow> k = ke_key (last (kl_entries s t))"
  by (simp add: refs_def last_conv_nth)

lemma entry_refs: "e \<in> set (kl_entries s t) \<Longrightarrow> refs s (ke_key e) \<noteq> {}"
  by (fastforce simp: refs_def in_set_conv_nth)

lemma locked_iff: "table_ok s \<Longrightarrow> kl_lock s k = None \<longleftrightarrow> refs s k = {}"
  by (simp add: table_ok_def)

lemma entered_at_same:
  "(\<And>t'. t' \<noteq> t \<Longrightarrow> kl_entries s' t' = kl_entries s t') \<Longrightarrow>
   set (filter ke_entered (kl_entries s' t)) = set (filter ke_entered (kl_entries s t)) \<Longrightarrow>
   entered_at s' t' a = entered_at s t' a"
  by (cases "t' = t") (auto simp: entered_at_def)

lemma entered_unique: "heap_ok s \<Longrightarrow> entered_at s t a \<Longrightarrow> entered_at s u a \<Longrightarrow> t = u"
  unfolding heap_ok_def by (metis option.inject)

section \<open>Every step keeps it\<close>

lemma phase_frame [simp]:
  "table_ok (s\<lparr>kl_phase := f\<rparr>) = table_ok s"
  "heap_ok (s\<lparr>kl_phase := f\<rparr>) = heap_ok s"
  by (simp_all add: table_ok_def heap_ok_def refs_def entered_at_def)

lemma kl_inv_enter:
  assumes "kl_inv s" "kl_enter t ns keys s = Some s'"
  shows "kl_inv s'"
proof -
  have idle: "kl_phase s t = Idle" and s': "s' = s\<lparr>kl_phase := (kl_phase s)(t := Acquiring (map (get_combined_key ns) (sort keys))),
                   kl_entries := (kl_entries s)(t := [])\<rparr>"
    using assms(2) by (auto simp: kl_enter_def split: if_splits)
  then have e: "kl_entries s t = []" using assms(1) by (simp add: kl_inv_def phase_ok_def)
  then have "s' = s\<lparr>kl_phase := (kl_phase s)(t := Acquiring (map (get_combined_key ns) (sort keys)))\<rparr>"
    using s' by (simp add: fun_upd_idem)
  then show ?thesis using assms(1) e by (simp add: kl_inv_def phase_ok_def)
qed

lemma get_or_create_table:
  assumes "get_or_create_async_lock k s = (a, s1)"
  shows "kl_lock s1 = (kl_lock s)(k \<mapsto> a)" "kl_heap s1 = kl_heap s" "kl_phase s1 = kl_phase s"
    "kl_entries s1 = kl_entries s"
    "kl_count s1 = (kl_count s)(k \<mapsto> (case kl_count s k of None \<Rightarrow> 0 | Some n \<Rightarrow> n) + 1)"
    "kl_lock s k = Some a \<and> kl_next s1 = kl_next s \<or> kl_lock s k = None \<and> a = kl_next s \<and> kl_next s1 = Suc (kl_next s)"
  using assms by (auto simp: get_or_create_async_lock_def Let_def split: option.splits)

lemma kl_inv_reference:
  assumes inv: "kl_inv s" and st: "kl_reference t s = Some s'"
  shows "kl_inv s'"
proof -
  obtain k ks a s1 where ph: "kl_phase s t = Acquiring (k # ks)" and ent: "list_all ke_entered (kl_entries s t)"
    and g: "get_or_create_async_lock k s = (a, s1)"
    and s': "s' = s1\<lparr>kl_phase := (kl_phase s)(t := Acquiring ks),
        kl_entries := (kl_entries s)(t := kl_entries s t @ [\<lparr>ke_key = k, ke_addr = a, ke_entered = False\<rparr>])\<rparr>"
    using st by (auto simp: kl_reference_def split: phase.splits list.splits if_splits prod.splits)
  note g = get_or_create_table [OF g]
  let ?e = "\<lparr>ke_key = k, ke_addr = a, ke_entered = False\<rparr>"
  have tab: "table_ok s" and heap: "heap_ok s" and ph_ok: "phase_ok s" using inv by (simp_all add: kl_inv_def)
  have es: "kl_entries s' = (kl_entries s)(t := kl_entries s t @ [?e])" by (simp add: s')
  have refs: "refs s' k' = (if k = k' then insert (t, length (kl_entries s t)) (refs s k') else refs s k')" for k'
    using refs_append [OF es, of k'] by simp
  have lock': "kl_lock s' = (kl_lock s)(k \<mapsto> a)" and heap': "kl_heap s' = kl_heap s"
    and next': "kl_next s' = kl_next s1"
    and count': "kl_count s' = (kl_count s)(k \<mapsto> (case kl_count s k of None \<Rightarrow> 0 | Some n \<Rightarrow> n) + 1)"
    by (simp_all add: s' g)
  have "finite (refs s' k')
      \<and> kl_count s' k' = (if refs s' k' = {} then None else Some (int (card (refs s' k'))))
      \<and> (kl_lock s' k' = None \<longleftrightarrow> refs s' k' = {})" for k'
    using tab refs_fresh [of t s k'] unfolding table_ok_def refs lock' count' by (cases "k = k'") auto
  then have "table_ok s'" unfolding table_ok_def by blast
  moreover have "heap_ok s'"
  proof -
    have fresh: "e \<in> set (kl_entries s u) \<Longrightarrow> ke_key e = k \<Longrightarrow> kl_lock s k = None \<Longrightarrow> False" for e u
      using entry_refs [of e s u] locked_iff [OF tab, of k] by auto
    have ea: "entered_at s' u b = entered_at s u b" for u b
      by (rule entered_at_same [of t]) (simp_all add: es)
    have locks: "\<forall>u. \<forall>e \<in> set (kl_entries s' u). kl_lock s' (ke_key e) = Some (ke_addr e)"
      using heap fresh g(6) by (auto simp: es lock' heap_ok_def)
    have inj: "\<forall>k1 k2 b. kl_lock s' k1 = Some b \<longrightarrow> kl_lock s' k2 = Some b \<longrightarrow> k1 = k2"
      using heap g(6) unfolding lock' heap_ok_def by (auto split: if_splits)
    have bound: "\<forall>k1 b. kl_lock s' k1 = Some b \<longrightarrow> b < kl_next s'"
      using heap g(6) unfolding lock' next' heap_ok_def by (metis fun_upd_apply lessI less_SucI option.inject)
    have "\<forall>u. distinct (map ke_addr (filter ke_entered (kl_entries s' u)))"
      using heap by (simp add: es heap_ok_def)
    then show ?thesis using locks inj bound heap by (simp add: heap_ok_def ea heap')
  qed
  moreover have "phase_ok s'" using ph_ok ent by (simp add: phase_ok_def s')
  ultimately show ?thesis by (simp add: kl_inv_def)
qed

lemma kl_inv_take:
  assumes inv: "kl_inv s" and st: "kl_take t s = Some s'"
  shows "kl_inv s'"
proof -
  define es e where "es = butlast (kl_entries s t)" and "e = last (kl_entries s t)"
  obtain ks where ph: "kl_phase s t = Acquiring ks" and ne: "kl_entries s t \<noteq> []" and un: "\<not> ke_entered e"
    and free: "kl_heap s (ke_addr e) = None"
    and s': "s' = s\<lparr>kl_heap := (kl_heap s)(ke_addr e \<mapsto> t), kl_entries := (kl_entries s)(t := es @ [e\<lparr>ke_entered := True\<rparr>])\<rparr>"
    using st by (auto simp: kl_take_def es_def e_def split: phase.splits if_splits)
  have ent: "kl_entries s t = es @ [e]" using ne by (simp add: es_def e_def)
  have tab: "table_ok s" and heap: "heap_ok s" and ph_ok: "phase_ok s" using inv by (simp_all add: kl_inv_def)
  have refs: "refs s' k = refs s k" for k by (rule refs_cong) (simp add: s' ent)
  have lock': "kl_lock s' = kl_lock s" and count': "kl_count s' = kl_count s" and next': "kl_next s' = kl_next s"
    and heap': "kl_heap s' = (kl_heap s)(ke_addr e \<mapsto> t)"
    and es': "kl_entries s' = (kl_entries s)(t := es @ [e\<lparr>ke_entered := True\<rparr>])" by (simp_all add: s')
  have "table_ok s'" using tab unfolding table_ok_def refs lock' count' .
  moreover have "heap_ok s'"
  proof -
    have none: "\<not> entered_at s u (ke_addr e)" for u using heap free by (simp add: heap_ok_def) (metis option.simps(3))
    have ea: "entered_at s' u b \<longleftrightarrow> (if b = ke_addr e then u = t else entered_at s u b)" for u b
      using none [of u] un by (auto simp: entered_at_def es' ent)
    have "distinct (map ke_addr (filter ke_entered (kl_entries s t)))" using heap by (simp add: heap_ok_def)
    then have "distinct (map ke_addr (filter ke_entered es))" using un by (simp add: ent)
    then have "\<forall>u. distinct (map ke_addr (filter ke_entered (kl_entries s' u)))"
      using heap none [of t] un by (auto simp: es' heap_ok_def ent entered_at_def)
    moreover have "\<forall>u. \<forall>e \<in> set (kl_entries s' u). kl_lock s' (ke_key e) = Some (ke_addr e)"
    proof -
      have all: "kl_lock s (ke_key e') = Some (ke_addr e')" if "e' \<in> set (kl_entries s u)" for u e'
        using heap that by (simp add: heap_ok_def)
      show ?thesis using all all [of e t] all [of _ t] by (auto simp: es' lock' ent)
    qed
    moreover have "\<forall>b u. kl_heap s' b = Some u \<longleftrightarrow> entered_at s' u b" using heap by (auto simp: ea heap' heap_ok_def)
    ultimately show ?thesis using heap unfolding heap_ok_def lock' next' by blast
  qed
  moreover have "list_all ke_entered es" using ph_ok ent by (simp add: phase_ok_def es_def)
  then have "phase_ok s'" using ph_ok ph by (simp add: phase_ok_def s')
  ultimately show ?thesis by (simp add: kl_inv_def)
qed

lemma kl_inv_moves:
  "kl_inv s \<Longrightarrow> kl_entered t s = Some s' \<Longrightarrow> kl_inv s'"
  "kl_inv s \<Longrightarrow> kl_cancel t s = Some s' \<Longrightarrow> kl_inv s'"
  "kl_inv s \<Longrightarrow> kl_exit t s = Some s' \<Longrightarrow> kl_inv s'"
  by (auto simp: kl_entered_def kl_cancel_def kl_exit_def kl_inv_def phase_ok_def
    split: if_splits phase.splits)

lemma release_async_table:
  assumes "kl_count s k = Some n"
  shows "kl_lock (release_async_lock k s) = (if n \<le> 1 then (kl_lock s)(k := None) else kl_lock s)"
    "kl_count (release_async_lock k s) = (kl_count s)(k := (if n \<le> 1 then None else Some (n - 1)))"
    "kl_heap (release_async_lock k s) = kl_heap s" "kl_next (release_async_lock k s) = kl_next s"
    "kl_phase (release_async_lock k s) = kl_phase s" "kl_entries (release_async_lock k s) = kl_entries s"
  using assms by (auto simp: release_async_lock_def)

lemma release_frame: "kl_count (s\<lparr>kl_heap := h\<rparr>) = kl_count s"
  by simp

lemma kl_inv_release_last:
  assumes inv: "kl_inv s" and ne: "kl_entries s t \<noteq> []" and ph: "kl_phase s t = Releasing"
    and st: "kl_release_one t s = Some s'"
  shows "kl_inv s'"
proof -
  define es e where "es = butlast (kl_entries s t)" and "e = last (kl_entries s t)"
  have ent: "kl_entries s t = es @ [e]" using ne by (simp add: es_def e_def)
  have tab: "table_ok s" and heap: "heap_ok s" and ph_ok: "phase_ok s" using inv by (simp_all add: kl_inv_def)
  let ?k = "ke_key e" and ?R = "refs s (ke_key e)" and ?x = "(t, length (kl_entries s t) - 1)"
  have x: "?x \<in> ?R" using refs_last [OF ne] by (simp add: e_def)
  have fin: "finite ?R" and cnt: "kl_count s ?k = Some (int (card ?R))"
    using tab x by (auto simp: table_ok_def)
  define s1 where "s1 = (if ke_entered e then s\<lparr>kl_heap := (kl_heap s)(ke_addr e := None)\<rparr> else s)"
  have s1: "kl_count s1 = kl_count s" "kl_lock s1 = kl_lock s" "kl_next s1 = kl_next s" "kl_phase s1 = kl_phase s"
    "kl_entries s1 = kl_entries s"
    "kl_heap s1 = (if ke_entered e then (kl_heap s)(ke_addr e := None) else kl_heap s)"
    by (simp_all add: s1_def)
  have s': "s' = (release_async_lock ?k s1)\<lparr>kl_entries := (kl_entries s)(t := es)\<rparr>"
    using st ph ne by (simp add: kl_release_one_def Let_def s1_def es_def e_def split: if_splits)
  have cnt1: "kl_count s1 ?k = Some (int (card ?R))" by (simp add: s1 cnt)
  note rel = release_async_table [OF cnt1]
  have lock': "kl_lock s' = (if card ?R \<le> 1 then (kl_lock s)(?k := None) else kl_lock s)"
    and count': "kl_count s' = (kl_count s)(?k := (if card ?R \<le> 1 then None else Some (int (card ?R) - 1)))"
    and heap': "kl_heap s' = (if ke_entered e then (kl_heap s)(ke_addr e := None) else kl_heap s)"
    and next': "kl_next s' = kl_next s" and ph': "kl_phase s' = kl_phase s"
    and es': "kl_entries s' = (kl_entries s)(t := butlast (kl_entries s t))"
    by (simp_all add: s' rel s1 es_def)
  have refs: "refs s' k = refs s k - {?x}" for k by (rule refs_butlast [OF es' ne])
  have other: "refs s' k = refs s k" if "k \<noteq> ?k" for k
    using refs refs_last_only [OF ne, of k] that by (auto simp: e_def)
  have card: "card (refs s' ?k) = card ?R - 1" using x fin by (simp add: refs)
  have gone: "refs s' ?k = {} \<longleftrightarrow> card ?R \<le> 1"
    using card fin x by (metis card_0_eq card_gt_0_iff diff_is_0_eq empty_iff finite_Diff refs)
  have "finite (refs s' k)
      \<and> kl_count s' k = (if refs s' k = {} then None else Some (int (card (refs s' k))))
      \<and> (kl_lock s' k = None \<longleftrightarrow> refs s' k = {})" for k
  proof (cases "k = ?k")
    case True
    have "1 \<le> card ?R" using x fin by (metis One_nat_def Suc_leI card_gt_0_iff empty_iff)
    then show ?thesis using True fin gone card tab x unfolding lock' count'
      by (auto simp: refs table_ok_def of_nat_diff)
  next
    case False
    then show ?thesis using tab other [OF False] unfolding lock' count' table_ok_def by auto
  qed
  then have "table_ok s'" unfolding table_ok_def by blast
  moreover have "heap_ok s'"
  proof -
    have dist: "distinct (map ke_addr (filter ke_entered (es @ [e])))" using heap ent by (simp add: heap_ok_def flip: ent)
    have ea: "entered_at s' u b \<longleftrightarrow> entered_at s u b \<and> \<not> (ke_entered e \<and> b = ke_addr e)" for u b
    proof (cases "ke_entered e \<and> b = ke_addr e")
      case True
      have "entered_at s t b" using True by (simp add: entered_at_def ent)
      then have only: "entered_at s u b \<Longrightarrow> u = t" using entered_unique [OF heap] by blast
      have "ke_addr x \<noteq> ke_addr e" if "x \<in> set es" "ke_entered x" for x
        using True dist that by (auto simp: image_def)
      then have no: "\<not> entered_at s' t b" using True by (simp add: entered_at_def es' ent)
      have "entered_at s' u b = entered_at s u b" if "u \<noteq> t" using that by (simp add: entered_at_def es')
      then show ?thesis using True only no by blast
    next
      case False
      then show ?thesis by (auto simp: entered_at_def es' ent split: if_splits)
    qed
    have locks: "\<forall>u. \<forall>e' \<in> set (kl_entries s' u). kl_lock s' (ke_key e') = Some (ke_addr e')"
    proof (intro allI ballI)
      fix u e' assume e': "e' \<in> set (kl_entries s' u)"
      then have "e' \<in> set (kl_entries s u)" by (auto simp: es' split: if_splits dest: in_set_butlastD)
      then have l: "kl_lock s (ke_key e') = Some (ke_addr e')" using heap by (auto simp: heap_ok_def)
      have "refs s' (ke_key e') \<noteq> {}" by (rule entry_refs [OF e'])
      then show "kl_lock s' (ke_key e') = Some (ke_addr e')" using l gone unfolding lock' by auto
    qed
    have "\<forall>u. distinct (map ke_addr (filter ke_entered (kl_entries s' u)))"
      using heap dist by (auto simp: es' heap_ok_def ent)
    moreover have "\<forall>b u. kl_heap s' b = Some u \<longleftrightarrow> entered_at s' u b" using heap by (auto simp: ea heap' heap_ok_def)
    moreover have "\<forall>k1 k2 b. kl_lock s' k1 = Some b \<longrightarrow> kl_lock s' k2 = Some b \<longrightarrow> k1 = k2"
      "\<forall>k1 b. kl_lock s' k1 = Some b \<longrightarrow> b < kl_next s'"
      using heap unfolding lock' next' heap_ok_def by (auto split: if_splits)
    ultimately show ?thesis using locks unfolding heap_ok_def by blast
  qed
  moreover have "phase_ok s'" using ph_ok ph
    by (auto simp: phase_ok_def es' ph' list_all_iff dest: in_set_butlastD)
  ultimately show ?thesis by (simp add: kl_inv_def)
qed

lemma kl_inv_release:
  assumes "kl_inv s" "kl_release_one t s = Some s'"
  shows "kl_inv s'"
proof (cases "kl_entries s t = []")
  case True
  then show ?thesis using assms by (auto simp: kl_release_one_def kl_inv_def phase_ok_def split: if_splits)
next
  case False
  moreover have "kl_phase s t = Releasing" using assms(2) by (auto simp: kl_release_one_def split: if_splits)
  ultimately show ?thesis using kl_inv_release_last assms by blast
qed

lemma kl_inv_step: "kl_inv s \<Longrightarrow> kl_step ev s = Some s' \<Longrightarrow> kl_inv s'"
  by (cases ev) (auto intro: kl_inv_enter kl_inv_reference kl_inv_take kl_inv_moves kl_inv_release)

lemma kl_reach_inv: "kl_reach P s \<Longrightarrow> kl_inv s"
  by (induction rule: kl_reach.induct) (auto intro: kl_inv_init kl_inv_step)


section \<open>Exclusion and reference counts\<close>

definition holds_key :: "klocks \<Rightarrow> task \<Rightarrow> pystr \<Rightarrow> bool" where
  "holds_key s t k \<longleftrightarrow> (\<exists>e \<in> set (kl_entries s t). ke_entered e \<and> ke_key e = k)"

lemma holds_heap: "kl_inv s \<Longrightarrow> holds_key s t k \<Longrightarrow> \<exists>a. kl_lock s k = Some a \<and> kl_heap s a = Some t"
  by (fastforce simp: kl_inv_def heap_ok_def holds_key_def entered_at_def)

text \<open>What one run of events makes of a state; \<open>None\<close> when an event is not enabled where it comes.\<close>

fun kl_run :: "kl_event list \<Rightarrow> klocks \<Rightarrow> klocks option" where
  "kl_run [] s = Some s"
| "kl_run (ev # evs) s = (case kl_step ev s of None \<Rightarrow> None | Some s' \<Rightarrow> kl_run evs s')"

text \<open>A context works through the keys it named: those of its entries and those still to come are all of them,
  in sorted order, until it starts to release.\<close>

definition works_through :: "pystr list \<Rightarrow> klocks \<Rightarrow> task \<Rightarrow> bool" where
  "works_through K s t \<longleftrightarrow>
     (\<forall>ks. kl_phase s t = Acquiring ks \<longrightarrow> map ke_key (kl_entries s t) @ ks = K)
     \<and> (kl_phase s t = Inside \<longrightarrow> map ke_key (kl_entries s t) = K)"

lemma works_through_enter:
  "kl_enter t ns keys s = Some s' \<Longrightarrow> works_through (map (get_combined_key ns) (sort keys)) s' t"
  by (auto simp: works_through_def kl_enter_def split: if_splits)

lemma release_lock_frame:
  "kl_phase (release_async_lock k s) = kl_phase s" "kl_entries (release_async_lock k s) = kl_entries s"
  by (auto simp: release_async_lock_def split: option.splits)

lemma entered_keys: "es \<noteq> [] \<Longrightarrow> map ke_key (butlast es @ [(last es)\<lparr>ke_entered := True\<rparr>]) = map ke_key es"
  by (induction es rule: rev_induct) simp_all

lemma works_through_step:
  assumes "works_through K s t" "kl_step ev s = Some s'" "\<And>ns keys. ev \<noteq> Ev_Enter t ns keys"
  shows "works_through K s' t"
proof (cases ev)
  case (Ev_Enter u ns keys)
  then have "u \<noteq> t" using assms(3) by blast
  then show ?thesis using assms(1,2) Ev_Enter by (auto simp: works_through_def kl_enter_def split: if_splits)
next
  case (Ev_Take u)
  then show ?thesis using assms entered_keys [of "kl_entries s u"]
    by (auto simp: works_through_def kl_take_def simp del: map_append split: phase.splits if_splits)
qed (use assms in \<open>auto simp: works_through_def kl_enter_def kl_reference_def kl_entered_def kl_cancel_def kl_exit_def
  kl_release_one_def release_lock_frame get_or_create_table(3,4) Let_def
  split: phase.splits list.splits if_splits prod.splits\<close>)

lemma works_through_run:
  "works_through K s t \<Longrightarrow> kl_run evs s = Some s' \<Longrightarrow> \<forall>ns keys. Ev_Enter t ns keys \<notin> set evs \<Longrightarrow> works_through K s' t"
proof (induction evs arbitrary: s)
  case (Cons ev evs)
  then obtain s1 where s1: "kl_step ev s = Some s1" "kl_run evs s1 = Some s'" by (auto split: option.splits)
  have "works_through K s1 t" by (rule works_through_step [OF Cons.prems(1) s1(1)]) (use Cons.prems(3) in auto)
  then show ?case using Cons.IH s1(2) Cons.prems(3) by auto
qed simp

lemma kl_run_inv: "kl_inv s \<Longrightarrow> kl_run evs s = Some s' \<Longrightarrow> kl_inv s'"
  by (induction evs arbitrary: s) (auto intro: kl_inv_step split: option.splits)

lemma inside_holds: "kl_inv s \<Longrightarrow> kl_phase s t = Inside \<Longrightarrow> holds_key s t k \<longleftrightarrow> k \<in> ke_key ` set (kl_entries s t)"
  by (auto simp: kl_inv_def phase_ok_def holds_key_def list_all_iff)

lemma holds_unique: "kl_inv s \<Longrightarrow> holds_key s t k \<Longrightarrow> holds_key s u k \<Longrightarrow> t = u"
  using holds_heap [of s t k] holds_heap [of s u k] by auto

lemma idle_leaves_nothing:
  assumes "kl_inv s" "\<forall>v. kl_phase s v = Idle"
  shows "kl_lock s k = None \<and> kl_count s k = None \<and> kl_heap s a = None"
proof -
  have tab: "table_ok s" and heap: "heap_ok s" and ph: "phase_ok s" using assms(1) by (simp_all add: kl_inv_def)
  have none: "kl_entries s v = []" for v using ph assms(2) by (simp add: phase_ok_def)
  then have "refs s k = {}" by (simp add: refs_def)
  moreover have "kl_heap s a \<noteq> Some v" for v using heap none by (simp add: heap_ok_def entered_at_def)
  ultimately show ?thesis using tab by (auto simp: table_ok_def)
qed

text \<open>C3. A task asks for any keys, and any contexts of other tasks, entered before or
  after, are interleaved with it, cancelled and rolled back. Whenever the task is then inside its context, it
  holds the locks of exactly the keys it asked for, in sorted order, and no other task holds one of them,
  although lock objects are dropped and made again. At any time a key is held by one task at most, and the
  count of a key is the number of contexts that hold or await it, with an entry exactly while there is one;
  and when no context is open, no lock, no count and no held lock object is left.\<close>

theorem keyed_locks_exclude:
  assumes "kl_reach P s0" "kl_run (Ev_Enter t ns keys # evs) s0 = Some s" "\<forall>ns' keys'. Ev_Enter t ns' keys' \<notin> set evs"
  shows "(kl_phase s t = Inside \<longrightarrow>
        map ke_key (kl_entries s t) = map (get_combined_key ns) (sort keys)
        \<and> (\<forall>k \<in> set keys. holds_key s t (get_combined_key ns k)
             \<and> (\<forall>u. u \<noteq> t \<longrightarrow> \<not> holds_key s u (get_combined_key ns k))))
    \<and> (holds_key s v k \<longrightarrow> holds_key s w k \<longrightarrow> v = w)
    \<and> kl_count s k = (if refs s k = {} then None else Some (int (card (refs s k))))
    \<and> (kl_lock s k = None \<longleftrightarrow> refs s k = {})
    \<and> ((\<forall>v. kl_phase s v = Idle) \<longrightarrow> kl_lock s k = None \<and> kl_count s k = None \<and> kl_heap s a = None)"
proof -
  obtain s1 where s1: "kl_enter t ns keys s0 = Some s1" "kl_run evs s1 = Some s"
    using assms(2) by (auto split: option.splits)
  have inv: "kl_inv s" using kl_run_inv [OF kl_reach_inv [OF assms(1)] assms(2)] .
  have work: "works_through (map (get_combined_key ns) (sort keys)) s t"
    by (rule works_through_run [OF works_through_enter [OF s1(1)] s1(2) assms(3)])
  have "map ke_key (kl_entries s t) = map (get_combined_key ns) (sort keys)
      \<and> (\<forall>k \<in> set keys. holds_key s t (get_combined_key ns k) \<and> (\<forall>u. u \<noteq> t \<longrightarrow> \<not> holds_key s u (get_combined_key ns k)))"
    if i: "kl_phase s t = Inside"
  proof -
    have keys: "map ke_key (kl_entries s t) = map (get_combined_key ns) (sort keys)"
      using work i by (simp add: works_through_def)
    then have "ke_key ` set (kl_entries s t) = get_combined_key ns ` set keys" by (metis list.set_map set_sort)
    then show ?thesis using keys inside_holds [OF inv i] holds_unique [OF inv] by blast
  qed
  moreover have "kl_count s k = (if refs s k = {} then None else Some (int (card (refs s k))))"
    "kl_lock s k = None \<longleftrightarrow> refs s k = {}" using inv by (simp_all add: kl_inv_def table_ok_def)
  ultimately show ?thesis using holds_unique [OF inv] idle_leaves_nothing [OF inv, of k a] by blast
qed

section \<open>No deadlock between ordered contexts\<close>

text \<open>Tasks that wait for one resource each, always above all they hold: a wait for the highest wanted resource
  is blocked only by tasks that do not wait.\<close>

locale ordered_waiting =
  fixes ok :: "'s \<Rightarrow> bool"
    and wants :: "'s \<Rightarrow> 't \<Rightarrow> 'k::linorder option"
    and holds :: "'s \<Rightarrow> 't \<Rightarrow> 'k \<Rightarrow> bool"
  assumes finite_waits: "ok s \<Longrightarrow> finite {t. wants s t \<noteq> None}"
    and ordered: "ok s \<Longrightarrow> wants s t = Some w \<Longrightarrow> holds s t k \<Longrightarrow> k < w"
begin

lemma highest_wait:
  assumes "ok s" "wants s t = Some w"
  shows "\<exists>t' w'. wants s t' = Some w' \<and> (\<forall>u. holds s u w' \<longrightarrow> wants s u = None)"
proof -
  let ?W = "(\<lambda>t. the (wants s t)) ` {t. wants s t \<noteq> None}"
  have fin: "finite ?W" using finite_waits [OF assms(1)] by simp
  have "w \<in> ?W" using assms(2) by force
  then have "Max ?W \<in> ?W" using fin by (metis Max_in empty_iff)
  then obtain t' where t': "wants s t' = Some (Max ?W)" by auto
  have "wants s u = None" if "holds s u (Max ?W)" for u
  proof (rule ccontr)
    assume "wants s u \<noteq> None"
    then obtain v where v: "wants s u = Some v" by auto
    then have "v \<in> ?W" by force
    then have "v \<le> Max ?W" using fin by simp
    moreover have "Max ?W < v" by (rule ordered [OF assms(1) v that])
    ultimately show False by simp
  qed
  then show ?thesis using t' by blast
qed

end

definition wants_key :: "klocks \<Rightarrow> task \<Rightarrow> pystr option" where
  "wants_key s t =
     (case kl_phase s t of
        Acquiring _ \<Rightarrow>
          if kl_entries s t \<noteq> [] \<and> \<not> ke_entered (last (kl_entries s t))
          then Some (ke_key (last (kl_entries s t))) else None
      | _ \<Rightarrow> None)"

text \<open>The order of a context's keys, and the finitely many open contexts.\<close>

definition order_ok :: "klocks \<Rightarrow> bool" where
  "order_ok s \<longleftrightarrow> finite {t. kl_phase s t \<noteq> Idle}
     \<and> (\<forall>t ks. kl_phase s t = Acquiring ks \<longrightarrow> sorted_wrt (<) (map ke_key (kl_entries s t) @ ks))"

lemma combined_key_less: "a < b \<Longrightarrow> get_combined_key ns a < get_combined_key ns b"
  by (simp add: get_combined_key_def list_less_def lexord_append_leftI)

lemma combined_keys_ordered:
  "distinct keys \<Longrightarrow> sorted_wrt (<) (map (get_combined_key ns) (sort keys))"
proof -
  assume "distinct keys"
  then have "sorted_wrt (<) (sort keys)" by (simp add: strict_sorted_iff)
  then show ?thesis by (auto simp: sorted_wrt_map intro: sorted_wrt_mono_rel [rotated] combined_key_less)
qed

lemma finite_phase_upd: "finite {t. f t \<noteq> Idle} \<Longrightarrow> finite {t. (f(u := p)) t \<noteq> Idle}"
  by (rule finite_subset [of _ "insert u {t. f t \<noteq> Idle}"]) auto

lemma finite_but_one: "finite {t. P t} \<Longrightarrow> finite {t. t \<noteq> u \<longrightarrow> P t}"
  by (rule finite_subset [of _ "insert u {t. P t}"]) auto

lemma order_ok_step:
  assumes "order_ok s" "kl_step ev s = Some s'" "\<And>t ns keys. ev = Ev_Enter t ns keys \<Longrightarrow> distinct keys"
  shows "order_ok s'"
proof (cases ev)
  case (Ev_Enter t ns keys)
  then have "distinct keys" using assms(3) by simp
  then show ?thesis using assms(1,2) Ev_Enter combined_keys_ordered [of keys ns]
    by (auto simp: order_ok_def kl_enter_def finite_but_one split: if_splits)
next
  case (Ev_Reference t)
  then show ?thesis using assms(1,2) get_or_create_table(3,4)
    by (fastforce simp: order_ok_def kl_reference_def finite_phase_upd finite_but_one split: phase.splits list.splits if_splits prod.splits)
next
  case (Ev_Take t)
  have keys: "map ke_key (butlast es @ [(last es)\<lparr>ke_entered := True\<rparr>]) = map ke_key es" if "es \<noteq> []" for es :: "entry list"
    using that by (metis (no_types, lifting) append_butlast_last_id entry.select_convs(1) entry.surjective
        entry.update_convs(3) list.map(1,2) map_append)
  show ?thesis using assms(1,2) Ev_Take keys
    by (auto simp: order_ok_def kl_take_def simp del: map_append split: phase.splits if_splits)
next
  case (Ev_Release t)
  then have ph: "kl_phase s t = Releasing" using assms(2) by (auto simp: kl_release_one_def split: if_splits)
  have "kl_phase (release_async_lock k s0) = kl_phase s0" "kl_entries (release_async_lock k s0) = kl_entries s0" for k s0
    by (auto simp: release_async_lock_def split: option.splits)
  then show ?thesis using assms(1,2) Ev_Release ph
    by (auto simp: order_ok_def kl_release_one_def Let_def finite_phase_upd finite_but_one split: if_splits)
qed (use assms(1,2) in \<open>auto simp: order_ok_def kl_entered_def kl_cancel_def kl_exit_def finite_phase_upd finite_but_one
  split: if_splits phase.splits\<close>)

lemma kl_reach_order: "kl_reach distinct s \<Longrightarrow> order_ok s"
proof (induction rule: kl_reach.induct)
  case start
  then show ?case by (simp add: order_ok_def kl_init_def)
next
  case (step s ev s')
  then show ?case using order_ok_step by blast
qed

interpretation kl: ordered_waiting "kl_reach distinct" wants_key holds_key
proof
  fix s
  assume "kl_reach distinct s"
  then have "order_ok s" by (rule kl_reach_order)
  moreover have "{t. wants_key s t \<noteq> None} \<subseteq> {t. kl_phase s t \<noteq> Idle}"
    by (auto simp: wants_key_def split: phase.splits)
  ultimately show "finite {t. wants_key s t \<noteq> None}" by (auto simp: order_ok_def intro: finite_subset)
next
  fix s t w k
  assume r: "kl_reach distinct s" and w: "wants_key s t = Some w" and h: "holds_key s t k"
  obtain ks where ph: "kl_phase s t = Acquiring ks" and ne: "kl_entries s t \<noteq> []"
    and un: "\<not> ke_entered (last (kl_entries s t))" and k: "w = ke_key (last (kl_entries s t))"
    using w by (auto simp: wants_key_def split: phase.splits if_splits)
  have ord: "sorted_wrt (<) (map ke_key (kl_entries s t) @ ks)" using kl_reach_order [OF r] ph by (simp add: order_ok_def)
  have es: "kl_entries s t = butlast (kl_entries s t) @ [last (kl_entries s t)]" using ne by simp
  obtain e where "e \<in> set (kl_entries s t)" "ke_entered e" "ke_key e = k" using h by (auto simp: holds_key_def)
  then have e: "e \<in> set (butlast (kl_entries s t))" "ke_key e = k"
    using un es by (metis in_set_conv_decomp UnE set_append list.set(1,2) insert_iff empty_iff)+
  have "sorted_wrt (<) (map ke_key (butlast (kl_entries s t)) @ [w])"
    using ord by (subst (asm) es) (simp add: sorted_wrt_append k)
  then show "k < w" using e by (auto simp: sorted_wrt_append)
qed

text \<open>What an open context can do on its own.\<close>

definition can_move :: "klocks \<Rightarrow> task \<Rightarrow> bool" where
  "can_move s t \<longleftrightarrow>
     (\<exists>ev \<in> {Ev_Reference t, Ev_Take t, Ev_Entered t, Ev_Exit t, Ev_Release t}. kl_step ev s \<noteq> None)"

lemma not_waiting_moves:
  assumes "phase_ok s" "kl_phase s t \<noteq> Idle" "wants_key s t = None"
  shows "can_move s t"
proof (cases "kl_phase s t")
  case (Acquiring ks)
  then have "kl_entries s t = [] \<or> ke_entered (last (kl_entries s t))"
    using assms(3) by (auto simp: wants_key_def split: if_splits)
  moreover have "list_all ke_entered (butlast (kl_entries s t))" using assms(1) by (simp add: phase_ok_def)
  ultimately have "list_all ke_entered (kl_entries s t)"
    using list_all_append [of ke_entered "butlast (kl_entries s t)" "[last (kl_entries s t)]"]
    by (cases "kl_entries s t = []") simp_all
  then show ?thesis using Acquiring
    by (cases ks) (auto simp: can_move_def kl_entered_def kl_reference_def split: prod.splits)
qed (use assms in \<open>auto simp: can_move_def kl_exit_def kl_release_one_def Let_def\<close>)

text \<open>C4. When every context names distinct keys, then as long as a context is open
  some open context can take its next step, be it to reference or take a lock, to enter, to leave or to release,
  without any cancellation: sorting the keys rules out a cycle of waits.\<close>

theorem keyed_locks_never_deadlock:
  assumes "kl_reach distinct s" "kl_phase s t \<noteq> Idle"
  shows "\<exists>u. kl_phase s u \<noteq> Idle \<and> can_move s u"
proof (cases "wants_key s t")
  case None
  then show ?thesis using assms kl_reach_inv [OF assms(1)] not_waiting_moves by (auto simp: kl_inv_def)
next
  case (Some w)
  have inv: "kl_inv s" by (rule kl_reach_inv [OF assms(1)])
  obtain t' w' where t': "wants_key s t' = Some w'" and free: "\<And>u. holds_key s u w' \<Longrightarrow> wants_key s u = None"
    using kl.highest_wait [OF assms(1) Some] by blast
  let ?e = "last (kl_entries s t')"
  have ph: "kl_phase s t' \<noteq> Idle" using t' by (auto simp: wants_key_def)
  have ne: "kl_entries s t' \<noteq> []" and k: "ke_key ?e = w'"
    using t' by (auto simp: wants_key_def split: phase.splits if_splits)
  have lock: "kl_lock s w' = Some (ke_addr ?e)"
    using inv last_in_set [OF ne] k unfolding kl_inv_def heap_ok_def by blast
  show ?thesis
  proof (cases "kl_heap s (ke_addr ?e)")
    case None
    then have "kl_take t' s \<noteq> None" using t' by (auto simp: wants_key_def kl_take_def split: phase.splits if_splits)
    then show ?thesis using ph by (auto simp: can_move_def)
  next
    case (Some u)
    then obtain e where e: "e \<in> set (kl_entries s u)" "ke_entered e" "ke_addr e = ke_addr ?e"
      using inv by (auto simp: kl_inv_def heap_ok_def entered_at_def)
    then have "kl_lock s (ke_key e) = Some (ke_addr ?e)" using inv by (auto simp: kl_inv_def heap_ok_def)
    then have "ke_key e = w'" using inv lock unfolding kl_inv_def heap_ok_def by blast
    then have "wants_key s u = None" using free e by (auto simp: holds_key_def)
    moreover have "kl_phase s u \<noteq> Idle" using inv e by (auto simp: kl_inv_def phase_ok_def)
    ultimately show ?thesis using inv not_waiting_moves by (auto simp: kl_inv_def)
  qed
qed


section \<open>A key named twice\<close>

text \<open>A context that waits for a lock it holds itself.\<close>

definition waits_for_itself :: "klocks \<Rightarrow> task \<Rightarrow> bool" where
  "waits_for_itself s t \<longleftrightarrow>
     (\<exists>ks. kl_phase s t = Acquiring ks) \<and> kl_entries s t \<noteq> [] \<and> \<not> ke_entered (last (kl_entries s t))
     \<and> holds_key s t (ke_key (last (kl_entries s t)))"

text \<open>Nothing but its own cancellation ends that wait, and every other context with the key waits with it.\<close>

lemma waits_for_itself_forever:
  assumes inv: "kl_inv s" and w: "waits_for_itself s t" and st: "kl_step ev s = Some s'" and ev: "ev \<noteq> Ev_Cancel t"
  shows "waits_for_itself s' t"
proof -
  have other: "waits_for_itself s' t" if "kl_phase s' t = kl_phase s t" "kl_entries s' t = kl_entries s t"
    using w that by (simp add: waits_for_itself_def holds_key_def)
  have not_all: "\<not> list_all ke_entered (kl_entries s t)"
    using w last_in_set by (auto simp: waits_for_itself_def list_all_iff)
  have locked: "kl_heap s (ke_addr (last (kl_entries s t))) \<noteq> None"
  proof -
    obtain a where "kl_lock s (ke_key (last (kl_entries s t))) = Some a" "kl_heap s a = Some t"
      using holds_heap [OF inv] w by (auto simp: waits_for_itself_def)
    moreover have "kl_lock s (ke_key (last (kl_entries s t))) = Some (ke_addr (last (kl_entries s t)))"
      using inv w last_in_set unfolding kl_inv_def heap_ok_def waits_for_itself_def by blast
    ultimately show ?thesis by simp
  qed
  have rel: "kl_phase (release_async_lock k s0) = kl_phase s0" "kl_entries (release_async_lock k s0) = kl_entries s0" for k s0
    by (auto simp: release_async_lock_def split: option.splits)
  show ?thesis
    by (rule other; cases ev)
      (use st ev w not_all locked in
        \<open>auto simp: kl_enter_def kl_reference_def kl_take_def kl_entered_def kl_cancel_def kl_exit_def kl_release_one_def
          waits_for_itself_def Let_def rel get_or_create_table(3,4)
          split: if_splits phase.splits list.splits prod.splits\<close>)
qed

section \<open>At concrete states\<close>

lemma kl_run_reach:
  "kl_reach P s \<Longrightarrow> kl_run evs s = Some s' \<Longrightarrow> \<forall>t ns keys. Ev_Enter t ns keys \<in> set evs \<longrightarrow> P keys \<Longrightarrow> kl_reach P s'"
proof (induction evs arbitrary: s)
  case (Cons ev evs)
  then obtain s1 where s1: "kl_step ev s = Some s1" "kl_run evs s1 = Some s'" by (auto split: option.splits)
  have "kl_reach P s1" by (rule kl_reach.step [OF Cons.prems(1) _ s1(1)]) (use Cons.prems(3) in auto)
  then show ?case using Cons.IH [OF _ s1(2)] Cons.prems(3) by auto
qed simp

definition two_tasks :: "kl_event list" where
  "two_tasks = [Ev_Enter 1 [71] [[65]], Ev_Reference 1, Ev_Take 1, Ev_Enter 2 [71] [[65]], Ev_Reference 2]"

lemmas kl_eval = kl_init_def kl_enter_def kl_reference_def kl_take_def get_or_create_async_lock_def get_combined_key_def
  Let_def

lemma two_tasks_run:
  "\<exists>s. kl_run two_tasks kl_init = Some s \<and> kl_reach P' s \<and> kl_phase s 2 \<noteq> Idle
     \<and> kl_count s [71, 58, 65] = Some 2 \<and> holds_key s 1 [71, 58, 65]" if "P' [[65]]"
proof -
  have "kl_run two_tasks kl_init \<noteq> None" by (simp add: two_tasks_def kl_eval)
  then obtain s where s: "kl_run two_tasks kl_init = Some s" by auto
  have "kl_reach P' s" by (rule kl_run_reach [OF kl_reach.start s]) (use that in \<open>auto simp: two_tasks_def\<close>)
  moreover have "kl_phase s 2 \<noteq> Idle \<and> kl_count s [71, 58, 65] = Some 2 \<and> holds_key s 1 [71, 58, 65]"
    using s by (auto simp: two_tasks_def kl_eval holds_key_def)
  ultimately show ?thesis using s by blast
qed

text \<open>One task is inside its context of two keys, another waits for one of them.\<close>

definition inside_and_waiting :: "kl_event list" where
  "inside_and_waiting = [Ev_Reference 1, Ev_Take 1, Ev_Enter 2 [71] [[65]], Ev_Reference 1, Ev_Reference 2, Ev_Take 1,
     Ev_Entered 1]"

lemma keyed_locks_exclude_witness:
  "\<exists>s. kl_run (Ev_Enter 1 [71] [[66], [65]] # inside_and_waiting) kl_init = Some s \<and> kl_phase s 1 = Inside
     \<and> map ke_key (kl_entries s 1) = [[71, 58, 65], [71, 58, 66]]
     \<and> holds_key s 1 [71, 58, 65] \<and> \<not> holds_key s 2 [71, 58, 65]"
proof -
  let ?r = "kl_run (Ev_Enter 1 [71] [[66], [65]] # inside_and_waiting) kl_init"
  have "?r \<noteq> None" by (simp add: inside_and_waiting_def kl_eval kl_entered_def)
  then obtain s where s: "?r = Some s" by auto
  have i: "kl_phase s 1 = Inside" using s by (auto simp: inside_and_waiting_def kl_eval kl_entered_def)
  have n: "\<forall>ns' keys'. Ev_Enter 1 ns' keys' \<notin> set inside_and_waiting" by (simp add: inside_and_waiting_def)
  have P: "kl_reach (\<lambda>_. True) kl_init" by (rule kl_reach.start)
  from keyed_locks_exclude [OF P s n] i have "map ke_key (kl_entries s 1) = map (get_combined_key [71]) (sort [[66], [65]])"
    "\<forall>k \<in> set [[66], [65]]. holds_key s 1 (get_combined_key [71] k)
       \<and> (\<forall>u. u \<noteq> 1 \<longrightarrow> \<not> holds_key s u (get_combined_key [71] k))" by blast+
  then show ?thesis using s i by (auto simp: get_combined_key_def)
qed

lemma keyed_locks_never_deadlock_witness:
  "\<exists>s u. kl_run two_tasks kl_init = Some s \<and> kl_phase s u \<noteq> Idle \<and> can_move s u"
proof -
  obtain s where s: "kl_run two_tasks kl_init = Some s" "kl_reach distinct s" "kl_phase s 2 \<noteq> Idle"
    using two_tasks_run [of distinct] by auto
  show ?thesis using keyed_locks_never_deadlock [OF s(2,3)] s(1) by blast
qed

text \<open>The context of a relation whose two ends are the same entity.\<close>

lemma self_loop_waits_for_itself:
  "\<exists>s. kl_run [Ev_Enter 1 [71] [[65], [65]], Ev_Reference 1, Ev_Take 1, Ev_Reference 1] kl_init = Some s
     \<and> waits_for_itself s 1"
  by (simp add: kl_eval waits_for_itself_def holds_key_def)

end
