(* ===== verification/RecursiveChunker.thy ===== *)
theory RecursiveChunker
  imports TokenChunker
begin

text \<open>
  The recursive character chunker, \<open>ontorag/chunker/recursive_character.py\<close>: the bounded separator cascade, the
  split with source offsets, the merge of small pieces and the chunks built from them. The LangChain splitter is
  a library the code only asks for its settings: its constructor is a parameter. So are the matches of a regular
  expression (a separator is one only when the splitter says so); an escaped separator is matched literally.
  The theorems: every span names its chunk's text, no character other than whitespace is lost, and the shortcut
  for separators that do not divide the text gives the same pieces wherever the recursion is entered.
\<close>

section \<open>The separator cascade\<close>

definition MAX_R_SEPARATORS :: nat where "MAX_R_SEPARATORS = 64"
definition MAX_R_SEPARATOR_CHARS :: nat where "MAX_R_SEPARATOR_CHARS = 256"

record separator_normalization =
  rn_separators :: "pystr list option"
  rn_dropped :: nat
  rn_truncated_from :: "nat option"

definition rn_changed :: "separator_normalization \<Rightarrow> bool" where
  "rn_changed r \<longleftrightarrow> rn_dropped r > 0 \<or> rn_truncated_from r \<noteq> None"

definition inspect_r_separators :: "pystr list option \<Rightarrow> separator_normalization" where
  "inspect_r_separators separators =
     (case separators of
        None \<Rightarrow> \<lparr>rn_separators = None, rn_dropped = 0, rn_truncated_from = None\<rparr>
      | Some seps \<Rightarrow>
          (let bounded = filter (\<lambda>c. \<not> length c > MAX_R_SEPARATOR_CHARS) seps;
               dropped = length (filter (\<lambda>c. length c > MAX_R_SEPARATOR_CHARS) seps)
           in if length bounded > MAX_R_SEPARATORS
              then (let sentinel = list_ex (\<lambda>c. c = []) bounded;
                        keep = MAX_R_SEPARATORS - (if sentinel then 1 else 0);
                        truncated = filter (\<lambda>c. c \<noteq> []) (take keep bounded)
                                      @ (if sentinel then [[]] else [])
                    in \<lparr>rn_separators = Some truncated, rn_dropped = dropped,
                        rn_truncated_from = Some (length bounded)\<rparr>)
              else \<lparr>rn_separators = Some bounded, rn_dropped = dropped, rn_truncated_from = None\<rparr>))"

definition normalize_r_separators :: "pystr list option \<Rightarrow> pystr list option" where
  "normalize_r_separators separators = rn_separators (inspect_r_separators separators)"

section \<open>Splitting with offsets\<close>

text \<open>A piece: its text, its start and its end in the document.\<close>

type_synonym piece = "pystr \<times> nat \<times> nat"

datatype keep_separator = Keep_No | Keep_Start | Keep_End

text \<open>The settings of the splitter: \<open>_separators\<close>, \<open>_chunk_size\<close>, \<open>_chunk_overlap\<close>, the length function,
  \<open>_keep_separator\<close>, \<open>_is_separator_regex\<close>, \<open>_strip_whitespace\<close>.\<close>

record splitter =
  sp_separators :: "pystr list"
  sp_chunk_size :: int
  sp_chunk_overlap :: int
  sp_length :: "pystr \<Rightarrow> nat"
  sp_keep :: keep_separator
  sp_is_regex :: bool
  sp_strip :: bool

text \<open>\<open>re.finditer\<close> with an escaped, non-empty separator: the occurrences from left to right, not overlapping.\<close>

function literal_matches :: "pystr \<Rightarrow> nat \<Rightarrow> pystr \<Rightarrow> (nat \<times> nat) list" where
  "literal_matches sep i s =
     (if sep = [] \<or> s = [] then []
      else if prefix sep s then (i, i + length sep) # literal_matches sep (i + length sep) (drop (length sep) s)
      else literal_matches sep (Suc i) (tl s))"
  by pat_completeness auto
termination
  by (relation "measure (\<lambda>(sep, i, s). length s)") auto

declare literal_matches.simps [simp del]

text \<open>The matches of a separator: \<open>rx\<close> is \<open>re.finditer\<close> on a regular expression.\<close>

definition separator_matches ::
  "(pystr \<Rightarrow> pystr \<Rightarrow> (nat \<times> nat) list) \<Rightarrow> bool \<Rightarrow> pystr \<Rightarrow> pystr \<Rightarrow> (nat \<times> nat) list" where
  "separator_matches rx is_regex sep t = (if is_regex then rx sep t else literal_matches sep 0 t)"

fun pieces_end :: "pystr \<Rightarrow> nat \<Rightarrow> nat \<Rightarrow> (nat \<times> nat) list \<Rightarrow> piece list" where
  "pieces_end t base cursor [] =
     (if cursor < length t then [(drop cursor t, base + cursor, base + length t)] else [])"
| "pieces_end t base cursor ((ms, me) # rest) =
     (if me > cursor then [(slice cursor me t, base + cursor, base + me)] else []) @ pieces_end t base me rest"

fun pieces_start :: "pystr \<Rightarrow> nat \<Rightarrow> (nat \<times> nat) list \<Rightarrow> piece list" where
  "pieces_start t base [] = []"
| "pieces_start t base ((ms, me) # rest) =
     (let e = (case rest of [] \<Rightarrow> length t | (ms', me') # _ \<Rightarrow> ms')
      in (if e > ms then [(slice ms e t, base + ms, base + e)] else []) @ pieces_start t base rest)"

fun pieces_between :: "pystr \<Rightarrow> nat \<Rightarrow> nat \<Rightarrow> (nat \<times> nat) list \<Rightarrow> piece list" where
  "pieces_between t base cursor [] =
     (if cursor < length t then [(drop cursor t, base + cursor, base + length t)] else [])"
| "pieces_between t base cursor ((ms, me) # rest) =
     (if ms > cursor then [(slice cursor ms t, base + cursor, base + ms)] else []) @ pieces_between t base me rest"

definition split_text_with_regex_spans ::
  "(pystr \<Rightarrow> pystr \<Rightarrow> (nat \<times> nat) list) \<Rightarrow> bool \<Rightarrow> keep_separator \<Rightarrow> pystr \<Rightarrow> pystr \<Rightarrow> nat \<Rightarrow> piece list" where
  "split_text_with_regex_spans rx is_regex keep sep t base =
     (if sep = [] then map (\<lambda>i. ([t ! i], base + i, base + i + 1)) [0..<length t]
      else
        (case separator_matches rx is_regex sep t of
           [] \<Rightarrow> if t = [] then [] else [(t, base, base + length t)]
         | (ms, me) # rest \<Rightarrow>
             filter (\<lambda>p. fst p \<noteq> [])
               (case keep of
                  Keep_End \<Rightarrow> pieces_end t base 0 ((ms, me) # rest)
                | Keep_Start \<Rightarrow>
                    (if ms > 0 then [(take ms t, base, base + ms)] else [])
                      @ pieces_start t base ((ms, me) # rest)
                | Keep_No \<Rightarrow> pieces_between t base 0 ((ms, me) # rest))))"

section \<open>Joining and merging\<close>

fun join_chars :: "pystr \<Rightarrow> nat option \<Rightarrow> piece list \<Rightarrow> pystr" where
  "join_chars sep prev [] = []"
| "join_chars sep prev ((t, s, e) # ps) =
     (case prev of None \<Rightarrow> [] | Some _ \<Rightarrow> sep) @ t @ join_chars sep (Some e) ps"

fun join_offsets :: "pystr \<Rightarrow> nat option \<Rightarrow> piece list \<Rightarrow> nat list" where
  "join_offsets sep prev [] = []"
| "join_offsets sep prev ((t, s, e) # ps) =
     (case prev of None \<Rightarrow> [] | Some q \<Rightarrow> [q..<q + length sep]) @ [s..<e] @ join_offsets sep (Some e) ps"

definition join_span_pieces :: "piece list \<Rightarrow> pystr \<Rightarrow> bool \<Rightarrow> piece option" where
  "join_span_pieces pieces sep strip =
     (if pieces = [] then None
      else
        (let t = join_chars sep None pieces; offs = join_offsets sep None pieces;
             left = (if strip then skip_left t 0 (length t) else 0);
             right = (if strip then skip_right t (length t) (length t - left) else length t)
         in if left \<ge> right then None
            else Some (slice left right t, offs ! left, offs ! (right - 1) + 1)))"

text \<open>The inner loop of the merge, and the whole of it. \<open>total\<close> is the length of \<open>current_doc\<close> with its
  separators, so the loop ends at the empty document at the latest (\<open>shrink_stops_at_nothing\<close>).\<close>

fun shrink_doc :: "splitter \<Rightarrow> int \<Rightarrow> int \<Rightarrow> int \<Rightarrow> piece list \<Rightarrow> int \<times> piece list" where
  "shrink_doc p sep_len split_len tot [] = (tot, [])"
| "shrink_doc p sep_len split_len tot (d # ds) =
     (if tot > sp_chunk_overlap p \<or> (tot + split_len + sep_len > sp_chunk_size p \<and> tot > 0)
      then shrink_doc p sep_len split_len
             (tot - (int (sp_length p (fst d)) + (if length (d # ds) > 1 then sep_len else 0))) ds
      else (tot, d # ds))"

fun merge_loop :: "splitter \<Rightarrow> pystr \<Rightarrow> int \<Rightarrow> int \<Rightarrow> piece list \<Rightarrow> piece list \<Rightarrow> piece list" where
  "merge_loop p sep sep_len tot cur [] =
     (case join_span_pieces cur sep (sp_strip p) of None \<Rightarrow> [] | Some d \<Rightarrow> [d])"
| "merge_loop p sep sep_len tot cur (x # xs) =
     (let n = int (sp_length p (fst x));
          full = (tot + n + (if cur \<noteq> [] then sep_len else 0) > sp_chunk_size p \<and> cur \<noteq> []);
          docs = (if full then (case join_span_pieces cur sep (sp_strip p) of None \<Rightarrow> [] | Some d \<Rightarrow> [d]) else []);
          (tot1, cur1) = (if full then shrink_doc p sep_len n tot cur else (tot, cur));
          cur2 = cur1 @ [x]
      in docs @ merge_loop p sep sep_len (tot1 + n + (if length cur2 > 1 then sep_len else 0)) cur2 xs)"

definition merge_splits_with_spans :: "splitter \<Rightarrow> pystr \<Rightarrow> piece list \<Rightarrow> piece list" where
  "merge_splits_with_spans p sep splits = merge_loop p sep (int (sp_length p sep)) 0 [] splits"

section \<open>The recursion\<close>

text \<open>The choice of the separator: the first one that is empty or occurs, else the last one; and what is left of
  the cascade behind it.\<close>

fun choose_separator ::
  "(pystr \<Rightarrow> pystr \<Rightarrow> (nat \<times> nat) list) \<Rightarrow> bool \<Rightarrow> pystr \<Rightarrow> pystr \<Rightarrow> pystr list \<Rightarrow> pystr \<times> pystr list" where
  "choose_separator rx is_regex t dflt [] = (dflt, [])"
| "choose_separator rx is_regex t dflt (c # cs) =
     (if c = [] then (c, [])
      else if separator_matches rx is_regex c t \<noteq> [] then (c, cs)
      else choose_separator rx is_regex t dflt cs)"

lemma choose_separator_shorter: "length (snd (choose_separator rx r t dflt cs)) \<le> length cs - 1"
  by (induction cs) auto

text \<open>\<open>_split_text_with_spans\<close> on a cascade that is not empty, with the loop over its pieces.\<close>

function (sequential)
  split_spans :: "(pystr \<Rightarrow> pystr \<Rightarrow> (nat \<times> nat) list) \<Rightarrow> splitter \<Rightarrow> pystr list \<Rightarrow> pystr \<Rightarrow> nat \<Rightarrow> piece list"
  and split_loop :: "(pystr \<Rightarrow> pystr \<Rightarrow> (nat \<times> nat) list) \<Rightarrow> splitter \<Rightarrow> pystr list \<Rightarrow> pystr \<Rightarrow> piece list \<Rightarrow> piece list \<Rightarrow> piece list" where
  "split_spans rx p [] t base = []"
| "split_spans rx p (c # cs) t base =
     (let (sep, new) = choose_separator rx (sp_is_regex p) t (last (c # cs)) (c # cs);
          splits = split_text_with_regex_spans rx (sp_is_regex p) (sp_keep p) sep t base
      in if new \<noteq> [] \<and> (case splits of [(t', s', e')] \<Rightarrow> t' = t \<and> s' = base | _ \<Rightarrow> False)
         then split_spans rx p new t base
         else split_loop rx p new (if sp_keep p \<noteq> Keep_No then [] else sep) [] splits)"
| "split_loop rx p new msep good [] = (if good \<noteq> [] then merge_splits_with_spans p msep good else [])"
| "split_loop rx p new msep good (x # xs) =
     (if int (sp_length p (fst x)) < sp_chunk_size p then split_loop rx p new msep (good @ [x]) xs
      else (if good \<noteq> [] then merge_splits_with_spans p msep good else [])
           @ (if new = [] then [x] else split_spans rx p new (fst x) (fst (snd x)))
           @ split_loop rx p new msep [] xs)"
  by pat_completeness auto
termination
proof (relation "measures [case_sum (\<lambda>(rx, p, cs, t, base). length cs) (\<lambda>(rx, p, new, msep, good, xs). length new),
                           case_sum (\<lambda>(rx, p, cs, t, base). 0) (\<lambda>(rx, p, new, msep, good, xs). Suc (length xs))]", goal_cases)
  case (2 rx p c cs t base x sep new splits)
  then show ?case using choose_separator_shorter [of rx "sp_is_regex p" t "last (c # cs)" "c # cs"]
    by (cases "choose_separator rx (sp_is_regex p) t (last (c # cs)) (c # cs)") simp
next
  case (3 rx p c cs t base x sep new splits)
  then show ?case using choose_separator_shorter [of rx "sp_is_regex p" t "last (c # cs)" "c # cs"]
    by (cases "choose_separator rx (sp_is_regex p) t (last (c # cs)) (c # cs)") simp
qed simp_all

definition split_text_with_spans ::
  "(pystr \<Rightarrow> pystr \<Rightarrow> (nat \<times> nat) list) \<Rightarrow> splitter \<Rightarrow> pystr \<Rightarrow> nat \<Rightarrow> pystr list \<Rightarrow> piece list res" where
  "split_text_with_spans rx p t base separators =
     (if separators = [] then Inl IndexError else Inr (split_spans rx p separators t base))"

section \<open>The chunks\<close>

definition trim_piece :: "piece \<Rightarrow> piece option" where
  "trim_piece x =
     (case x of (raw, s, e) \<Rightarrow>
        (let left = skip_left raw 0 (length raw); right = skip_right raw (length raw) (length raw - left)
         in if slice left right raw = [] then None
            else Some (slice left right raw, s + left, e - (length raw - right))))"

definition piece_chunks :: "'tok tokenizer \<Rightarrow> piece list \<Rightarrow> chunk list" where
  "piece_chunks tz pieces =
     (let trimmed = List.map_filter trim_piece pieces
      in map (\<lambda>(i, t, s, e). \<lparr>ck_tokens = int (length (tk_encode tz t)), ck_content = t, ck_order = i,
                               ck_span = Some (s, e)\<rparr>)
           (zip [0..<length trimmed] trimmed))"

definition fallback_chunk :: "'tok tokenizer \<Rightarrow> pystr \<Rightarrow> chunk list" where
  "fallback_chunk tz content =
     (let body = py_strip content
      in if body = [] then []
         else [\<lparr>ck_tokens = int (length (tk_encode tz body)), ck_content = body, ck_order = 0,
                ck_span = map_option (\<lambda>i. (i, i + length body)) (py_find content body 0 (length content))\<rparr>])"

text \<open>\<open>mk_splitter\<close> is the constructor of LangChain's splitter.\<close>

definition chunking_by_recursive_character ::
  "(pystr \<Rightarrow> pystr \<Rightarrow> (nat \<times> nat) list)
   \<Rightarrow> (int \<Rightarrow> int \<Rightarrow> (pystr \<Rightarrow> nat) \<Rightarrow> bool \<Rightarrow> pystr list option \<Rightarrow> splitter res)
   \<Rightarrow> 'tok tokenizer \<Rightarrow> pystr \<Rightarrow> int \<Rightarrow> int \<Rightarrow> pystr list option \<Rightarrow> chunk list res" where
  "chunking_by_recursive_character rx mk_splitter tz content chunk_token_size overlap separators =
     (if content = [] \<or> py_strip content = [] then Inr []
      else
        (let norm = normalize_r_separators separators;
             seps = (if norm = Some [] then None else norm);
             len_fn = (\<lambda>t. length (tk_encode tz t))
         in bind_res (mk_splitter (max chunk_token_size 1) (max overlap 0) len_fn True seps)
              (\<lambda>p. bind_res (split_text_with_spans rx (p\<lparr>sp_length := len_fn\<rparr>) content 0 (sp_separators p))
                (\<lambda>pieces. let results = piece_chunks tz pieces
                          in Inr (if results = [] then fallback_chunk tz content else results)))))"

section \<open>The shortcut for separators that do not divide\<close>

text \<open>The literal mirror of LangChain's recursion: the same without the shortcut.\<close>

function (sequential)
  mirror_spans :: "(pystr \<Rightarrow> pystr \<Rightarrow> (nat \<times> nat) list) \<Rightarrow> splitter \<Rightarrow> pystr list \<Rightarrow> pystr \<Rightarrow> nat \<Rightarrow> piece list"
  and mirror_loop :: "(pystr \<Rightarrow> pystr \<Rightarrow> (nat \<times> nat) list) \<Rightarrow> splitter \<Rightarrow> pystr list \<Rightarrow> pystr \<Rightarrow> piece list \<Rightarrow> piece list \<Rightarrow> piece list" where
  "mirror_spans rx p [] t base = []"
| "mirror_spans rx p (c # cs) t base =
     (let (sep, new) = choose_separator rx (sp_is_regex p) t (last (c # cs)) (c # cs)
      in mirror_loop rx p new (if sp_keep p \<noteq> Keep_No then [] else sep) []
           (split_text_with_regex_spans rx (sp_is_regex p) (sp_keep p) sep t base))"
| "mirror_loop rx p new msep good [] = (if good \<noteq> [] then merge_splits_with_spans p msep good else [])"
| "mirror_loop rx p new msep good (x # xs) =
     (if int (sp_length p (fst x)) < sp_chunk_size p then mirror_loop rx p new msep (good @ [x]) xs
      else (if good \<noteq> [] then merge_splits_with_spans p msep good else [])
           @ (if new = [] then [x] else mirror_spans rx p new (fst x) (fst (snd x)))
           @ mirror_loop rx p new msep [] xs)"
  by pat_completeness auto
termination
proof (relation "measures [case_sum (\<lambda>(rx, p, cs, t, base). length cs) (\<lambda>(rx, p, new, msep, good, xs). length new),
                           case_sum (\<lambda>(rx, p, cs, t, base). 0) (\<lambda>(rx, p, new, msep, good, xs). Suc (length xs))]", goal_cases)
  case (2 rx p c cs t base x sep new)
  then show ?case using choose_separator_shorter [of rx "sp_is_regex p" t "last (c # cs)" "c # cs"]
    by (cases "choose_separator rx (sp_is_regex p) t (last (c # cs)) (c # cs)") simp
qed simp_all

lemma split_spans_mirror:
  "sp_chunk_size p \<le> int (sp_length p t) \<Longrightarrow> split_spans rx p cs t base = mirror_spans rx p cs t base"
  "split_loop rx p new msep good xs = mirror_loop rx p new msep good xs"
proof (induction rx p cs t base and rx p new msep good xs rule: split_spans_split_loop.induct)
  case (2 rx p c cs t base)
  obtain sep new where ch: "choose_separator rx (sp_is_regex p) t (last (c # cs)) (c # cs) = (sep, new)"
    by (rule prod.exhaust)
  define splits where "splits = split_text_with_regex_spans rx (sp_is_regex p) (sp_keep p) sep t base"
  define noop where
    "noop \<longleftrightarrow> new \<noteq> [] \<and> (case splits of [(t', s', e')] \<Rightarrow> t' = t \<and> s' = base | _ \<Rightarrow> False)"
  let ?msep = "if sp_keep p \<noteq> Keep_No then [] else sep"
  have skip: "split_spans rx p (c # cs) t base
      = (if noop then split_spans rx p new t base else split_loop rx p new ?msep [] splits)"
    by (simp only: split_spans.simps ch Let_def prod.case splits_def noop_def)
  have full: "mirror_spans rx p (c # cs) t base = mirror_loop rx p new ?msep [] splits"
    by (simp only: mirror_spans.simps ch Let_def prod.case splits_def)
  show ?case
  proof (cases noop)
    case True
    then obtain e' where e': "splits = [(t, base, e')]" and new: "new \<noteq> []"
      by (auto simp: noop_def split: list.splits prod.splits)
    have "split_spans rx p new t base = mirror_spans rx p new t base"
      by (rule "2.IH"(1) [OF ch [symmetric] refl splits_def]) (use True "2.prems" in \<open>simp_all add: noop_def\<close>)
    then show ?thesis using skip full True e' new "2.prems" by simp
  next
    case False
    have "split_loop rx p new ?msep [] splits = mirror_loop rx p new ?msep [] splits"
      by (rule "2.IH"(2) [OF ch [symmetric] refl splits_def]) (use False in \<open>simp add: noop_def\<close>)
    then show ?thesis using skip full False by simp
  qed
qed auto

text \<open>Where the recursion is entered, with a text that has at least the chunk
  size, skipping the separators that match without dividing the text gives exactly the pieces and offsets of the
  literal recursion, for every cascade, every splitter setting and every length function.\<close>

theorem shortcut_mirrors_recursion:
  assumes "sp_chunk_size p \<le> int (sp_length p t)"
  shows "split_spans rx p separators t base = mirror_spans rx p separators t base"
  using assms by (rule split_spans_mirror)

section \<open>Chains of pieces\<close>

text \<open>A piece is exact when its span cuts out its text; a chain is a list of exact pieces without gaps.\<close>

definition exact :: "pystr \<Rightarrow> piece \<Rightarrow> bool" where
  "exact c x \<longleftrightarrow> (case x of (t, a, b) \<Rightarrow> t \<noteq> [] \<and> b = a + length t \<and> b \<le> length c \<and> slice a b c = t)"

fun chain :: "pystr \<Rightarrow> nat \<Rightarrow> piece list \<Rightarrow> nat \<Rightarrow> bool" where
  "chain c s [] e \<longleftrightarrow> s = e"
| "chain c s (x # xs) e \<longleftrightarrow> exact c x \<and> fst (snd x) = s \<and> chain c (snd (snd x)) xs e"

definition covers :: "pystr \<Rightarrow> piece list \<Rightarrow> nat \<Rightarrow> nat \<Rightarrow> bool" where
  "covers c ds i j \<longleftrightarrow>
     (\<forall>k. i \<le> k \<longrightarrow> k < j \<longrightarrow> \<not> py_isspace (c ! k) \<longrightarrow> (\<exists>(t, a, b) \<in> set ds. a \<le> k \<and> k < b))"

lemma coversD:
  assumes "covers c ds i j" "i \<le> k" "k < j" "\<not> py_isspace (c ! k)"
  obtains y where "y \<in> set ds" "fst (snd y) \<le> k" "k < snd (snd y)"
  using assms unfolding covers_def case_prod_beta by blast

lemma exact_simp [simp]:
  "exact c (t, a, b) \<longleftrightarrow> t \<noteq> [] \<and> b = a + length t \<and> b \<le> length c \<and> slice a b c = t"
  by (simp add: exact_def)

lemma chain_append [simp]: "chain c s (xs @ ys) e \<longleftrightarrow> (\<exists>m. chain c s xs m \<and> chain c m ys e)"
  by (induction xs arbitrary: s) auto

lemma chain_le: "chain c s xs e \<Longrightarrow> s \<le> e"
  by (induction xs arbitrary: s) (auto, force)

lemma chain_end: "chain c s xs e \<Longrightarrow> s \<le> length c \<Longrightarrow> e \<le> length c"
  by (induction xs arbitrary: s) auto

lemma chain_nonempty: "chain c s xs e \<Longrightarrow> list_all (\<lambda>x. fst x \<noteq> []) xs"
  by (induction xs arbitrary: s) auto

lemma covers_Nil [simp]: "covers c ds i i"
  by (simp add: covers_def)

lemma covers_join: "covers c ds i j \<Longrightarrow> covers c ds' k l \<Longrightarrow> k \<le> j \<Longrightarrow> covers c (ds @ ds') i l"
  unfolding covers_def by (auto simp: Ball_def Bex_def) (metis leI le_trans)

lemma covers_exact: "covers c [(t, a, b)] a b"
  by (auto simp: covers_def)

lemma exact_inside:
  assumes "slice base (base + length seg) c = seg" "base + length seg \<le> length c" "i < j" "j \<le> length seg"
  shows "exact c (slice i j seg, base + i, base + j)"
  using assms slice_inside [OF assms(1,4), of i] by (auto simp flip: length_greater_0_conv)

text \<open>Matches in order and inside the text.\<close>

fun spaced :: "nat \<Rightarrow> nat \<Rightarrow> (nat \<times> nat) list \<Rightarrow> bool" where
  "spaced lo n [] \<longleftrightarrow> True"
| "spaced lo n ((s, e) # ms) \<longleftrightarrow> lo \<le> s \<and> s \<le> e \<and> e \<le> n \<and> spaced e n ms"

lemma spaced_mono: "spaced lo n ms \<Longrightarrow> lo' \<le> lo \<Longrightarrow> spaced lo' n ms"
  by (cases ms) auto

lemma literal_matches_spaced: "spaced i (i + length s) (literal_matches sep i s)"
proof (induction sep i s rule: literal_matches.induct)
  case (1 sep i s)
  show ?case
  proof (cases "sep = [] \<or> s = []")
    case False
    show ?thesis
    proof (cases "prefix sep s")
      case True
      then have len: "length sep \<le> length s" by (rule prefix_length_le)
      then show ?thesis using False True "1.IH"(1) [OF False True]
        by (subst literal_matches.simps) simp
    next
      case no: False
      have "spaced (Suc i) (Suc i + length (tl s)) (literal_matches sep (Suc i) (tl s))"
        by (rule "1.IH"(2) [OF False no])
      moreover have eq: "Suc i + length (tl s) = i + length s" using False by (cases s) simp_all
      ultimately have "spaced (Suc i) (i + length s) (literal_matches sep (Suc i) (tl s))" by (simp only: eq)
      from spaced_mono [OF this] show ?thesis using False no
        by (subst literal_matches.simps) simp
    qed
  qed (simp add: literal_matches.simps)
qed

section \<open>The split makes a chain\<close>

lemma drop_slice: "drop i xs = slice i (length xs) xs"
  by (simp add: slice_def)

lemma pieces_end_chain:
  assumes at: "slice base (base + length t) c = t" "base + length t \<le> length c"
  shows "spaced cursor (length t) ms \<Longrightarrow> cursor \<le> length t \<Longrightarrow>
    chain c (base + cursor) (pieces_end t base cursor ms) (base + length t)"
proof (induction ms arbitrary: cursor)
  case Nil
  then show ?case using exact_inside [OF at, of cursor "length t"] by (auto simp: drop_slice)
next
  case (Cons m rest)
  obtain ms me where m: "m = (ms, me)" by (cases m)
  have "chain c (base + me) (pieces_end t base me rest) (base + length t)"
    using Cons by (auto simp: m)
  moreover have "cursor = me" if "\<not> cursor < me" using that Cons.prems by (simp add: m)
  ultimately show ?case using exact_inside [OF at, of cursor me] Cons.prems
    by (cases "cursor < me") (simp_all add: m del: exact_simp)
qed

lemma pieces_start_chain:
  assumes at: "slice base (base + length t) c = t" "base + length t \<le> length c"
  shows "spaced lo (length t) ((ms, me) # rest) \<Longrightarrow>
    chain c (base + ms) (pieces_start t base ((ms, me) # rest)) (base + length t)"
proof (induction rest arbitrary: lo ms me)
  case Nil
  then show ?case using exact_inside [OF at, of ms "length t"]
    by (cases "ms < length t") (simp_all add: Let_def del: exact_simp)
next
  case (Cons m rest)
  obtain ms' me' where m: "m = (ms', me')" by (cases m)
  have "chain c (base + ms') (pieces_start t base ((ms', me') # rest)) (base + length t)"
    by (rule Cons.IH [of me]) (use Cons.prems in \<open>simp add: m\<close>)
  moreover have "ms \<le> ms'" "ms' \<le> length t" using Cons.prems by (simp_all add: m)
  ultimately show ?case using exact_inside [OF at, of ms ms']
    by (cases "ms < ms'") (simp_all add: m Let_def del: exact_simp)
qed

lemma char_pieces_chain:
  assumes at: "slice base (base + length t) c = t" "base + length t \<le> length c"
  shows "n \<le> length t \<Longrightarrow> chain c base (map (\<lambda>i. ([t ! i], base + i, base + i + 1)) [0..<n]) (base + n)"
proof (induction n)
  case (Suc n)
  have "slice n (Suc n) t = [t ! n]" using Suc.prems slice_snoc [of n n t] by (simp add: slice_def)
  then show ?case using Suc exact_inside [OF at, of n "Suc n"] by (simp del: exact_simp)
qed simp

lemma regex_split_chain:
  assumes at: "slice base (base + length t) c = t" "base + length t \<le> length c"
    and keep: "keep \<noteq> Keep_No"
    and rx: "is_regex \<Longrightarrow> spaced 0 (length t) (rx sep t)"
  shows "chain c base (split_text_with_regex_spans rx is_regex keep sep t base) (base + length t)"
proof (cases "sep = []")
  case True
  then show ?thesis using char_pieces_chain [OF at, of "length t"] by (simp add: split_text_with_regex_spans_def)
next
  case sep: False
  have sp: "spaced 0 (length t) (separator_matches rx is_regex sep t)"
    using rx literal_matches_spaced [of 0 t sep] by (simp add: separator_matches_def)
  show ?thesis
  proof (cases "separator_matches rx is_regex sep t")
    case Nil
    then show ?thesis using sep exact_inside [OF at, of 0 "length t"]
      by (cases "t = []") (simp_all add: split_text_with_regex_spans_def del: exact_simp)
  next
    case (Cons m rest)
    obtain ms me where m: "m = (ms, me)" by (cases m)
    let ?raw = "case keep of Keep_End \<Rightarrow> pieces_end t base 0 ((ms, me) # rest)
                | Keep_Start \<Rightarrow> (if ms > 0 then [(take ms t, base, base + ms)] else [])
                      @ pieces_start t base ((ms, me) # rest)
                | Keep_No \<Rightarrow> pieces_between t base 0 ((ms, me) # rest)"
    have "chain c base ?raw (base + length t)"
    proof (cases keep)
      case Keep_Start
      have "take ms t = slice 0 ms t" by (simp add: slice_def)
      then show ?thesis
        using Keep_Start sp pieces_start_chain [OF at, of 0 ms me rest] exact_inside [OF at, of 0 ms]
        by (cases "ms = 0") (simp_all add: Cons m del: exact_simp)
    qed (use keep sp pieces_end_chain [OF at, of 0 "(ms, me) # rest"] in \<open>simp_all add: Cons m\<close>)
    moreover have "filter (\<lambda>x. fst x \<noteq> []) ?raw = ?raw"
      by (rule filter_True) (use chain_nonempty [OF calculation] in \<open>simp add: list_all_iff\<close>)
    ultimately show ?thesis using sep by (simp add: split_text_with_regex_spans_def Cons m)
  qed
qed

section \<open>Joining a chain\<close>

lemma join_chain:
  "chain c s xs e \<Longrightarrow> join_chars [] prev xs = slice s e c \<and> join_offsets [] prev xs = [s..<e]"
proof (induction xs arbitrary: s prev)
  case (Cons x xs)
  obtain t a b where x: "x = (t, a, b)" by (cases x)
  have ex: "t \<noteq> []" "b = a + length t" "b \<le> length c" "slice a b c = t" "a = s" and ch: "chain c b xs e"
    using Cons.prems by (auto simp: x)
  have be: "b \<le> e" using chain_le [OF ch] .
  have sb: "s \<le> b" using ex by simp
  have tx: "t @ slice b e c = slice s e c" using slice_append [OF sb be, of c] ex by simp
  have off: "[s..<b] @ [b..<e] = [s..<e]" using upt_add_eq_append [OF sb, of "e - b"] be by simp
  have "join_chars [] prev (x # xs) = t @ slice b e c" "join_offsets [] prev (x # xs) = [s..<b] @ [b..<e]"
    using Cons.IH [OF ch, of "Some b"] ex(5) by (simp_all add: x split: option.splits)
  then show ?case by (simp only: tx off)
qed (simp add: slice_def)

lemma skip_left_spaces: "start \<le> k \<Longrightarrow> k < skip_left c start n \<Longrightarrow> py_isspace (c ! k)"
proof (induction n arbitrary: start)
  case (Suc n)
  then show ?case using Suc.IH [of "Suc start"] by (cases "k = start") (auto split: if_splits)
qed simp

lemma skip_right_spaces: "skip_right c e n \<le> k \<Longrightarrow> k < e \<Longrightarrow> py_isspace (c ! k)"
proof (induction n arbitrary: e)
  case (Suc n)
  then show ?case using Suc.IH [of "e - 1"] by (cases "k = e - 1") (auto split: if_splits)
qed simp

text \<open>What is left of a text after both trimming loops.\<close>

lemma trim_loops:
  assumes "left = skip_left t 0 (length t)" "right = skip_right t (length t) (length t - left)"
  shows "left \<le> length t" "left \<le> right" "right \<le> length t"
    "\<And>k. k < length t \<Longrightarrow> \<not> py_isspace (t ! k) \<Longrightarrow> left \<le> k \<and> k < right"
proof -
  show l: "left \<le> length t" using skip_left_bounds [of 0 t "length t"] assms by simp
  show "left \<le> right" "right \<le> length t"
    using skip_right_bounds [of "length t - left" "length t" t] l assms by simp_all
  show "left \<le> k \<and> k < right" if "k < length t" "\<not> py_isspace (t ! k)" for k
    using that skip_left_spaces [of 0 k t "length t"] skip_right_spaces [of t "length t" "length t - left" k] assms
    by (meson leI le0)
qed

lemma nth_slice: "k < j - i \<Longrightarrow> i + k < length c \<Longrightarrow> slice i j c ! k = c ! (i + k)"
  by (simp add: slice_def)

definition docs_of :: "piece option \<Rightarrow> piece list" where
  "docs_of d = (case d of None \<Rightarrow> [] | Some x \<Rightarrow> [x])"

lemma join_exact:
  assumes "chain c s xs e" "s \<le> length c"
  shows "list_all (exact c) (docs_of (join_span_pieces xs [] strip))
         \<and> covers c (docs_of (join_span_pieces xs [] strip)) s e"
proof (cases "xs = []")
  case True
  then show ?thesis using assms by (simp add: join_span_pieces_def docs_of_def)
next
  case False
  have le: "s \<le> e" "e \<le> length c" using chain_le [OF assms(1)] chain_end [OF assms] by simp_all
  define t where "t = slice s e c"
  have len: "length t = e - s" using le by (simp add: t_def)
  define left where "left = (if strip then skip_left t 0 (length t) else 0)"
  define right where "right = (if strip then skip_right t (length t) (length t - left) else length t)"
  have b: "left \<le> length t" "left \<le> right" "right \<le> length t"
    using trim_loops [of left t right] by (auto simp: left_def right_def)
  have in_t: "left \<le> k \<and> k < right" if "k < length t" "\<not> py_isspace (t ! k)" for k
    using trim_loops(4) [of left t right k] that by (auto simp: left_def right_def)
  have cov: "s + left \<le> k \<and> k < s + right" if "s \<le> k" "k < e" "\<not> py_isspace (c ! k)" for k
  proof -
    have "t ! (k - s) = c ! k" using that le nth_slice [of "k - s" e s c] by (simp add: t_def)
    then have "left \<le> k - s \<and> k - s < right" using in_t [of "k - s"] that len by simp
    then show ?thesis using that(1) by linarith
  qed
  have j: "join_span_pieces xs [] strip
      = (if left \<ge> right then None else Some (slice left right t, [s..<e] ! left, [s..<e] ! (right - 1) + 1))"
    using False join_chain [OF assms(1), of None]
    by (simp add: join_span_pieces_def Let_def t_def [symmetric] left_def right_def)
  show ?thesis
  proof (cases "left < right")
    case True
    have at: "slice s (s + length t) c = t" "s + length t \<le> length c" using le by (simp_all add: len t_def)
    have "[s..<e] ! left = s + left" "[s..<e] ! (right - 1) + 1 = s + right" using True b len by simp_all
    then have "join_span_pieces xs [] strip = Some (slice left right t, s + left, s + right)"
      using True j by simp
    then show ?thesis using exact_inside [OF at True b(3)] cov
      by (auto simp: docs_of_def covers_def simp del: exact_simp)
  qed (use cov j in \<open>force simp: docs_of_def covers_def\<close>)
qed

section \<open>Merging a chain\<close>

text \<open>The length of a document with its separators, which \<open>total\<close> is.\<close>

definition doc_total :: "splitter \<Rightarrow> int \<Rightarrow> piece list \<Rightarrow> int" where
  "doc_total p sep_len ds = (\<Sum>d\<leftarrow>ds. int (sp_length p (fst d))) + int (length ds - 1) * sep_len"

lemma shrink_stops_at_nothing:
  "shrink_doc p sl n (doc_total p sl ds) ds = (tot, ds') \<Longrightarrow> tot = doc_total p sl ds'"
proof (induction ds)
  case (Cons d ds)
  define tot0 where "tot0 = doc_total p sl (d # ds)"
  have step: "tot0 - (int (sp_length p (fst d)) + (if length (d # ds) > 1 then sl else 0)) = doc_total p sl ds"
    unfolding tot0_def by (cases ds) (simp_all add: doc_total_def algebra_simps)
  have run: "shrink_doc p sl n tot0 (d # ds)
      = (if tot0 > sp_chunk_overlap p \<or> (tot0 + n + sl > sp_chunk_size p \<and> tot0 > 0)
         then shrink_doc p sl n (doc_total p sl ds) ds else (tot0, d # ds))"
    by (simp only: shrink_doc.simps step)
  show ?case
    using Cons.prems Cons.IH unfolding tot0_def [symmetric] run by (metis prod.inject tot0_def)
qed simp

lemma doc_total_Nil [simp]: "doc_total p sl [] = 0"
  by (simp add: doc_total_def)

lemma shrink_chain: "chain c k cur s \<Longrightarrow> \<exists>k'. k \<le> k' \<and> k' \<le> s \<and> chain c k' (snd (shrink_doc p sl n tot cur)) s"
proof (induction cur arbitrary: k tot)
  case (Cons d ds)
  obtain t a b where d: "d = (t, a, b)" by (cases d)
  have ch: "chain c b ds s" and kb: "k \<le> b" using Cons.prems by (auto simp: d)
  have rest: "\<exists>k'. k \<le> k' \<and> k' \<le> s \<and> chain c k' (snd (shrink_doc p sl n tot' ds)) s" for tot'
    using Cons.IH [OF ch, of tot'] kb by (meson le_trans)
  have stay: "\<exists>k'. k \<le> k' \<and> k' \<le> s \<and> chain c k' (d # ds) s"
    using Cons.prems chain_le [OF Cons.prems] by blast
  show ?case
    by (cases "tot > sp_chunk_overlap p \<or> (tot + n + sl > sp_chunk_size p \<and> tot > 0)")
      (simp_all only: shrink_doc.simps if_True if_False snd_conv rest stay)
qed auto

lemma merge_loop_simps:
  "merge_loop p sep sl tot cur [] = docs_of (join_span_pieces cur sep (sp_strip p))"
  "merge_loop p sep sl tot cur (x # xs) =
     (let n = int (sp_length p (fst x));
          full = (tot + n + (if cur \<noteq> [] then sl else 0) > sp_chunk_size p \<and> cur \<noteq> []);
          cur1 = (if full then shrink_doc p sl n tot cur else (tot, cur))
      in (if full then docs_of (join_span_pieces cur sep (sp_strip p)) else [])
         @ merge_loop p sep sl (fst cur1 + n + (if length (snd cur1 @ [x]) > 1 then sl else 0)) (snd cur1 @ [x]) xs)"
  by (simp_all only: merge_loop.simps docs_of_def Let_def case_prod_beta)

declare merge_loop.simps [simp del]

lemma merge_loop_exact:
  "chain c k cur s \<Longrightarrow> k \<le> length c \<Longrightarrow> chain c s xs e \<Longrightarrow>
   list_all (exact c) (merge_loop p [] sl tot cur xs) \<and> covers c (merge_loop p [] sl tot cur xs) k e"
proof (induction xs arbitrary: k cur s tot)
  case Nil
  then show ?case using join_exact [of c k cur s "sp_strip p"] by (simp add: merge_loop_simps)
next
  case (Cons x xs)
  let ?n = "int (sp_length p (fst x))"
  define full where "full \<longleftrightarrow> tot + ?n + (if cur \<noteq> [] then sl else 0) > sp_chunk_size p \<and> cur \<noteq> []"
  define cur1 where "cur1 = (if full then shrink_doc p sl ?n tot cur else (tot, cur))"
  define tot2 where "tot2 = fst cur1 + ?n + (if length (snd cur1 @ [x]) > 1 then sl else 0)"
  let ?docs = "if full then docs_of (join_span_pieces cur [] (sp_strip p)) else []"
  have run: "merge_loop p [] sl tot cur (x # xs) = ?docs @ merge_loop p [] sl tot2 (snd cur1 @ [x]) xs"
    by (simp only: merge_loop_simps Let_def full_def cur1_def tot2_def)
  obtain t a b where x: "x = (t, a, b)" by (cases x)
  have ex: "exact c x" and a: "a = s" and ch: "chain c b xs e" using Cons.prems(3) by (auto simp: x)
  have s: "s \<le> length c" by (rule chain_end [OF Cons.prems(1,2)])
  obtain k' where k': "k \<le> k'" "k' \<le> s" "chain c k' (snd cur1) s" and keep: "\<not> full \<Longrightarrow> k' = k"
  proof (cases full)
    case True
    then show ?thesis using shrink_chain [OF Cons.prems(1), of p sl ?n tot] that by (auto simp: cur1_def)
  next
    case False
    then show ?thesis using Cons.prems(1) chain_le [OF Cons.prems(1)] that [of k] by (simp add: cur1_def)
  qed
  have cx: "chain c k' (snd cur1 @ [x]) b" using k'(3) ex a by (auto simp: x)
  have rest: "list_all (exact c) (merge_loop p [] sl tot2 (snd cur1 @ [x]) xs)
        \<and> covers c (merge_loop p [] sl tot2 (snd cur1 @ [x]) xs) k' e"
    by (rule Cons.IH [OF cx _ ch]) (use k' s in simp)
  show ?case
  proof (cases full)
    case True
    have docs: "list_all (exact c) ?docs \<and> covers c ?docs k s"
      using join_exact [OF Cons.prems(1,2)] True by simp
    then show ?thesis using rest covers_join [of c ?docs k s _ k' e] k' by (simp only: run list_all_append)
  next
    case False
    then show ?thesis using rest keep by (simp add: run)
  qed
qed

lemma merge_exact:
  "chain c g xs s \<Longrightarrow> g \<le> length c \<Longrightarrow>
   list_all (exact c) (merge_splits_with_spans p [] xs) \<and> covers c (merge_splits_with_spans p [] xs) g s"
  unfolding merge_splits_with_spans_def using merge_loop_exact [of c g "[]" g xs s p] by simp

section \<open>The recursion loses nothing\<close>

lemma split_exact:
  assumes keep: "sp_keep p \<noteq> Keep_No" and rx: "\<And>sep t. sp_is_regex p \<Longrightarrow> spaced 0 (length t) (rx sep t)"
  shows
  "cs \<noteq> [] \<Longrightarrow> slice base (base + length t) c = t \<Longrightarrow> base + length t \<le> length c \<Longrightarrow>
   list_all (exact c) (split_spans rx p cs t base) \<and> covers c (split_spans rx p cs t base) base (base + length t)"
  "msep = [] \<Longrightarrow> chain c g good s \<Longrightarrow> g \<le> length c \<Longrightarrow> chain c s xs e \<Longrightarrow>
   list_all (exact c) (split_loop rx p new msep good xs) \<and> covers c (split_loop rx p new msep good xs) g e"
  using keep rx
proof (induction rx p cs t base and rx p new msep good xs arbitrary: and g s e rule: split_spans_split_loop.induct)
  case (2 rx p cc cs t base)
  obtain sep new where ch: "choose_separator rx (sp_is_regex p) t (last (cc # cs)) (cc # cs) = (sep, new)"
    by (rule prod.exhaust)
  define splits where "splits = split_text_with_regex_spans rx (sp_is_regex p) (sp_keep p) sep t base"
  define noop where
    "noop \<longleftrightarrow> new \<noteq> [] \<and> (case splits of [(t', s', e')] \<Rightarrow> t' = t \<and> s' = base | _ \<Rightarrow> False)"
  let ?msep = "if sp_keep p \<noteq> Keep_No then [] else sep"
  have run: "split_spans rx p (cc # cs) t base
      = (if noop then split_spans rx p new t base else split_loop rx p new ?msep [] splits)"
    by (simp only: split_spans.simps ch Let_def prod.case splits_def noop_def)
  show ?case
  proof (cases noop)
    case True
    then show ?thesis using "2.IH"(1) [OF ch [symmetric] refl splits_def] "2.prems"
      unfolding run by (simp add: noop_def)
  next
    case False
    have chain: "chain c base splits (base + length t)"
      unfolding splits_def by (rule regex_split_chain) (use "2.prems" in auto)
    have "list_all (exact c) (split_loop rx p new ?msep [] splits)
          \<and> covers c (split_loop rx p new ?msep [] splits) base (base + length t)"
      by (rule "2.IH"(2) [OF ch [symmetric] refl splits_def]) (use False chain "2.prems" in \<open>simp_all add: noop_def\<close>)
    then show ?thesis by (simp only: run False if_False)
  qed
next
  case (3 rx p new msep good)
  then show ?case using merge_exact [of c g good s p] by (cases "good = []") auto
next
  case (4 rx p new msep good x xs)
  obtain t a b where x: "x = (t, a, b)" by (cases x)
  have ex: "exact c x" and a: "a = s" and ch: "chain c b xs e" using "4.prems"(4) by (auto simp: x)
  have s: "s \<le> length c" by (rule chain_end [OF "4.prems"(2,3)])
  show ?case
  proof (cases "int (sp_length p (fst x)) < sp_chunk_size p")
    case True
    have "chain c g (good @ [x]) b" using "4.prems"(2) ex a by (auto simp: x)
    then show ?thesis using "4.IH"(1) [OF True "4.prems"(1) _ "4.prems"(3) ch "4.prems"(5,6)] True by simp
  next
    case False
    have exx: "b = s + length t" "b \<le> length c" "slice s (s + length t) c = t" using ex a by (auto simp: x)
    let ?m = "if good \<noteq> [] then merge_splits_with_spans p msep good else []"
    let ?x = "if new = [] then [x] else split_spans rx p new (fst x) (fst (snd x))"
    have m: "list_all (exact c) ?m \<and> covers c ?m g s"
      using merge_exact [of c g good s p] "4.prems" by (cases "good = []") auto
    have x': "list_all (exact c) ?x \<and> covers c ?x s b"
    proof (cases "new = []")
      case True
      then show ?thesis using ex a covers_exact [of c t a b] by (simp add: x del: exact_simp)
    next
      case new: False
      then show ?thesis using "4.IH"(2) [OF False new new] exx a "4.prems"(5,6) by (simp add: x)
    qed
    have rest: "list_all (exact c) (split_loop rx p new msep [] xs) \<and> covers c (split_loop rx p new msep [] xs) b e"
      by (rule "4.IH"(3) [OF False "4.prems"(1) _ _ ch "4.prems"(5,6)]) (use ex in \<open>simp_all add: x\<close>)
    have "covers c (?m @ ?x @ split_loop rx p new msep [] xs) g e"
      using covers_join [OF _ covers_join] m x' rest by (meson le_refl)
    then show ?thesis using False m x' rest by simp
  qed
qed simp

section \<open>The chunks cover the document\<close>

lemma trim_piece_exact:
  assumes "exact c (t, a, b)"
  shows "list_all (exact c) (docs_of (trim_piece (t, a, b))) \<and> covers c (docs_of (trim_piece (t, a, b))) a b"
proof -
  define left where "left = skip_left t 0 (length t)"
  define right where "right = skip_right t (length t) (length t - left)"
  have b: "left \<le> length t" "left \<le> right" "right \<le> length t" by (rule trim_loops [OF left_def right_def])+
  have in_t: "left \<le> k \<and> k < right" if "k < length t" "\<not> py_isspace (t ! k)" for k
    by (rule trim_loops(4) [OF left_def right_def that])
  have ex: "b = a + length t" "b \<le> length c" "slice a (a + length t) c = t" using assms by auto
  have cov: "a + left \<le> k \<and> k < a + right" if "a \<le> k" "k < b" "\<not> py_isspace (c ! k)" for k
  proof -
    have "slice a b c ! (k - a) = c ! (a + (k - a))" by (rule nth_slice) (use that ex in simp_all)
    then have "t ! (k - a) = c ! k" using that ex by simp
    then have "left \<le> k - a \<and> k - a < right" using in_t [of "k - a"] that ex by simp
    then show ?thesis using that(1) by linarith
  qed
  have run: "trim_piece (t, a, b)
      = (if slice left right t = [] then None else Some (slice left right t, a + left, b - (length t - right)))"
    by (simp only: trim_piece_def prod.case Let_def left_def right_def)
  show ?thesis
  proof (cases "left < right")
    case True
    have "b - (length t - right) = a + right" using ex b by simp
    moreover have "slice left right t \<noteq> []" using True b by (simp flip: length_greater_0_conv)
    ultimately have "trim_piece (t, a, b) = Some (slice left right t, a + left, a + right)" by (simp add: run)
    moreover have "exact c (slice left right t, a + left, a + right)"
      by (rule exact_inside) (use True b ex in simp_all)
    ultimately show ?thesis using cov by (auto simp: docs_of_def covers_def simp del: exact_simp)
  next
    case False
    then have "trim_piece (t, a, b) = None" using b by (simp add: run slice_def)
    moreover have "covers c [] a b" using cov False unfolding covers_def by (meson le_less_trans nat_add_left_cancel_less not_le)
    ultimately show ?thesis by (simp add: docs_of_def)
  qed
qed

lemma map_filter_docs: "List.map_filter f xs = concat (map (\<lambda>x. docs_of (f x)) xs)"
  by (induction xs) (simp_all add: docs_of_def map_filter_simps split: option.splits)

lemma trimmed_exact:
  assumes "list_all (exact c) ps" "covers c ps i j"
  shows "list_all (exact c) (List.map_filter trim_piece ps) \<and> covers c (List.map_filter trim_piece ps) i j"
proof -
  have one: "list_all (exact c) (docs_of (trim_piece x))
      \<and> covers c (docs_of (trim_piece x)) (fst (snd x)) (snd (snd x))" if "x \<in> set ps" for x
    using assms(1) that trim_piece_exact [of c "fst x" "fst (snd x)" "snd (snd x)"] by (simp add: list_all_iff)
  have "\<exists>y \<in> set (List.map_filter trim_piece ps). fst (snd y) \<le> k \<and> k < snd (snd y)"
    if k: "i \<le> k" "k < j" "\<not> py_isspace (c ! k)" for k
  proof -
    obtain x where x: "x \<in> set ps" "fst (snd x) \<le> k" "k < snd (snd x)"
      using coversD [OF assms(2) k] by blast
    obtain y where "y \<in> set (docs_of (trim_piece x))" "fst (snd y) \<le> k" "k < snd (snd y)"
      using coversD [OF conjunct2 [OF one [OF x(1)]] x(2,3) k(3)] by blast
    then show ?thesis using x(1) unfolding map_filter_docs by auto
  qed
  then have "covers c (List.map_filter trim_piece ps) i j" unfolding covers_def by fastforce
  moreover have "list_all (exact c) (List.map_filter trim_piece ps)"
    using one by (auto simp: list_all_iff map_filter_docs)
  ultimately show ?thesis by simp
qed

lemma strip_empty_iff: "py_strip s = [] \<longleftrightarrow> (\<forall>k < length s. py_isspace (s ! k))"
proof
  assume "py_strip s = []"
  then have "dropWhile py_isspace (rev (dropWhile py_isspace s)) = []" by (simp only: py_strip_def rev_is_Nil_conv)
  then have "\<forall>x \<in> set (dropWhile py_isspace s). py_isspace x"
    by (simp only: dropWhile_eq_Nil_conv set_rev)
  then have "dropWhile py_isspace s = []"
    using hd_dropWhile [of py_isspace s] hd_in_set by blast
  then show "\<forall>k < length s. py_isspace (s ! k)" by (simp add: dropWhile_eq_Nil_conv)
next
  assume "\<forall>k < length s. py_isspace (s ! k)"
  then have "\<forall>x \<in> set s. py_isspace x" by (simp add: all_set_conv_all_nth)
  then have empty: "dropWhile py_isspace s = []" by (simp add: dropWhile_eq_Nil_conv)
  show "py_strip s = []" unfolding py_strip_def empty by simp
qed

lemma piece_chunks_nth:
  "i < length (piece_chunks tz ps) \<Longrightarrow> piece_chunks tz ps ! i =
     (case List.map_filter trim_piece ps ! i of (t, s, e) \<Rightarrow>
        \<lparr>ck_tokens = int (length (tk_encode tz t)), ck_content = t, ck_order = i, ck_span = Some (s, e)\<rparr>)"
  by (simp add: piece_chunks_def Let_def split: prod.splits)

lemma length_piece_chunks [simp]: "length (piece_chunks tz ps) = length (List.map_filter trim_piece ps)"
  by (simp add: piece_chunks_def Let_def)

text \<open>What a chunk list must be: numbered, counted, with exact non-empty spans, and complete.\<close>

definition chunks_tile :: "'tok tokenizer \<Rightarrow> pystr \<Rightarrow> chunk list \<Rightarrow> bool" where
  "chunks_tile tz content cs \<longleftrightarrow>
     (\<forall>i < length cs. ck_order (cs ! i) = i
        \<and> ck_tokens (cs ! i) = int (length (tk_encode tz (ck_content (cs ! i))))
        \<and> (\<exists>s e. ck_span (cs ! i) = Some (s, e) \<and> s < e \<and> e \<le> length content
               \<and> slice s e content = ck_content (cs ! i)))
     \<and> (\<forall>k < length content. py_isspace (content ! k)
          \<or> (\<exists>ck \<in> set cs. \<exists>s e. ck_span ck = Some (s, e) \<and> s \<le> k \<and> k < e))"

lemma piece_chunks_tile:
  assumes "list_all (exact c) ps" "covers c ps 0 (length c)"
  shows "chunks_tile tz c (piece_chunks tz ps)"
proof -
  let ?ts = "List.map_filter trim_piece ps"
  have ts: "list_all (exact c) ?ts" "covers c ?ts 0 (length c)" using trimmed_exact [OF assms] by simp_all
  have nth: "\<exists>s e. piece_chunks tz ps ! i = \<lparr>ck_tokens = int (length (tk_encode tz (fst (?ts ! i)))),
        ck_content = fst (?ts ! i), ck_order = i, ck_span = Some (s, e)\<rparr>
        \<and> ?ts ! i = (fst (?ts ! i), s, e) \<and> s < e \<and> e \<le> length c \<and> slice s e c = fst (?ts ! i)"
    if i: "i < length ?ts" for i
  proof -
    obtain t s e where t: "?ts ! i = (t, s, e)" by (rule prod_cases3)
    have "exact c (?ts ! i)" using ts(1) i by (simp add: list_all_length)
    then show ?thesis using piece_chunks_nth [of i tz ps] i by (auto simp: t)
  qed
  have "\<exists>ck \<in> set (piece_chunks tz ps). \<exists>s e. ck_span ck = Some (s, e) \<and> s \<le> k \<and> k < e"
    if k: "k < length c" "\<not> py_isspace (c ! k)" for k
  proof -
    obtain x where x: "x \<in> set ?ts" "fst (snd x) \<le> k" "k < snd (snd x)"
      using coversD [OF ts(2) le0 k] by blast
    then obtain i where i: "i < length ?ts" "x = ?ts ! i" by (auto simp: in_set_conv_nth)
    obtain s e where "ck_span (piece_chunks tz ps ! i) = Some (s, e)" "?ts ! i = (fst (?ts ! i), s, e)"
      using nth [OF i(1)] by auto
    then have n: "ck_span (piece_chunks tz ps ! i) = Some (s, e)" "snd x = (s, e)"
      using i(2) by (simp_all add: prod_eq_iff)
    have "piece_chunks tz ps ! i \<in> set (piece_chunks tz ps)" using i(1) by (intro nth_mem) simp
    then show ?thesis using n x by fastforce
  qed
  then show ?thesis unfolding chunks_tile_def using nth by fastforce
qed

text \<open>C24. For a splitter that keeps separators, splits on literal separators and never
  returns an empty cascade when asked with none or a non-empty one (LangChain's documented defaults), the chunker
  fails only where the splitter's constructor does; else its chunks are numbered in order, counted by the
  tokenizer, each span cuts its chunk's text out of the document, and every character that is not whitespace lies
  in the span of some chunk: recursion, merging, overlaps and the shortcut lose nothing.\<close>

theorem recursive_chunks_cover:
  assumes keeps: "\<And>n v f st seps p. mk_splitter n v f st seps = Inr p \<Longrightarrow> seps \<noteq> Some [] \<Longrightarrow>
      sp_keep p \<noteq> Keep_No \<and> \<not> sp_is_regex p \<and> sp_separators p \<noteq> []"
  shows "case chunking_by_recursive_character rx mk_splitter tz content cap overlap separators of
      Inl err \<Rightarrow> (\<exists>seps. mk_splitter (max cap 1) (max overlap 0) (\<lambda>t. length (tk_encode tz t)) True seps = Inl err)
    | Inr cs \<Rightarrow> chunks_tile tz content cs"
proof (cases "py_strip content = []")
  case True
  then have "\<forall>k < length content. py_isspace (content ! k)" by (simp add: strip_empty_iff)
  then show ?thesis using True by (simp add: chunking_by_recursive_character_def chunks_tile_def)
next
  case False
  then have ne: "content \<noteq> []" by (auto simp: py_strip_def)
  define norm where "norm = normalize_r_separators separators"
  define seps where "seps = (if norm = Some [] then None else norm)"
  define len_fn where "len_fn = (\<lambda>t. length (tk_encode tz t))"
  have seps: "seps \<noteq> Some []" by (simp add: seps_def)
  have run: "chunking_by_recursive_character rx mk_splitter tz content cap overlap separators
    = bind_res (mk_splitter (max cap 1) (max overlap 0) len_fn True seps)
        (\<lambda>p. bind_res (split_text_with_spans rx (p\<lparr>sp_length := len_fn\<rparr>) content 0 (sp_separators p))
          (\<lambda>pieces. let results = piece_chunks tz pieces
                    in Inr (if results = [] then fallback_chunk tz content else results)))"
    using False ne unfolding chunking_by_recursive_character_def Let_def norm_def seps_def len_fn_def by simp
  show ?thesis
  proof (cases "mk_splitter (max cap 1) (max overlap 0) len_fn True seps")
    case (Inl err)
    then show ?thesis unfolding run by (auto simp: len_fn_def)
  next
    case (Inr p)
    have p: "sp_keep p \<noteq> Keep_No" "\<not> sp_is_regex p" "sp_separators p \<noteq> []" using keeps [OF Inr seps] by simp_all
    define ps where "ps = split_spans rx (p\<lparr>sp_length := len_fn\<rparr>) (sp_separators p) content 0"
    have "list_all (exact content) ps \<and> covers content ps 0 (0 + length content)"
      unfolding ps_def by (rule split_exact(1)) (use p in simp_all)
    then have tile: "chunks_tile tz content (piece_chunks tz ps)" by (intro piece_chunks_tile) simp_all
    have "piece_chunks tz ps \<noteq> []"
      using tile strip_empty_iff [of content] False unfolding chunks_tile_def by (metis empty_iff empty_set)
    then have "chunking_by_recursive_character rx mk_splitter tz content cap overlap separators
        = Inr (piece_chunks tz ps)"
      using p unfolding run Inr by (simp add: split_text_with_spans_def ps_def Let_def)
    then show ?thesis using tile by simp
  qed
qed

section \<open>The cascade stays bounded\<close>

lemma truncated_cascade:
  assumes "length bounded > MAX_R_SEPARATORS"
  shows "length (filter (\<lambda>c. c \<noteq> []) (take (MAX_R_SEPARATORS - (if list_ex (\<lambda>c. c = []) bounded then 1 else 0)) bounded)
      @ (if list_ex (\<lambda>c. c = []) bounded then [[]] else [])) \<le> MAX_R_SEPARATORS"
proof -
  have "length (filter (\<lambda>c. c \<noteq> []) (take k bounded)) \<le> k" for k
    by (rule le_trans [OF length_filter_le]) simp
  from this [of 63] this [of 64] show ?thesis by (simp add: MAX_R_SEPARATORS_def)
qed

text \<open>The cascade that comes out of the normalizer has at most 64 separators of at
  most 256 characters, all of them the caller's; it keeps the empty separator, which alone can split anything,
  exactly when the caller had one; a second pass changes nothing; and the result says it was changed exactly when
  it differs from what the caller gave.\<close>

theorem cascade_stays_bounded:
  "(case normalize_r_separators (Some seps) of
      None \<Rightarrow> False
    | Some out \<Rightarrow> length out \<le> 64 \<and> list_all (\<lambda>c. length c \<le> 256) out \<and> set out \<subseteq> set seps
        \<and> ([] \<in> set out \<longleftrightarrow> [] \<in> set seps)
        \<and> normalize_r_separators (Some out) = Some out
        \<and> (rn_changed (inspect_r_separators (Some seps)) \<longleftrightarrow> out \<noteq> seps))"
proof -
  define bounded where "bounded = filter (\<lambda>c. \<not> length c > MAX_R_SEPARATOR_CHARS) seps"
  define cut where "cut = filter (\<lambda>c. c \<noteq> [])
      (take (MAX_R_SEPARATORS - (if list_ex (\<lambda>c. c = []) bounded then 1 else 0)) bounded)
      @ (if list_ex (\<lambda>c. c = []) bounded then [[]] else [])"
  define out where "out = (if length bounded > MAX_R_SEPARATORS then cut else bounded)"
  have norm: "normalize_r_separators (Some seps) = Some out"
    unfolding normalize_r_separators_def inspect_r_separators_def Let_def option.case
    by (simp only: bounded_def [symmetric] cut_def [symmetric] out_def
      if_distrib [of rn_separators] separator_normalization.simps if_distrib [of Some])
  have changed: "rn_changed (inspect_r_separators (Some seps))
      \<longleftrightarrow> filter (\<lambda>c. length c > MAX_R_SEPARATOR_CHARS) seps \<noteq> [] \<or> length bounded > MAX_R_SEPARATORS"
    unfolding inspect_r_separators_def Let_def option.case
    by (simp add: bounded_def [symmetric] rn_changed_def)
  have len: "length out \<le> MAX_R_SEPARATORS"
    using truncated_cascade [of bounded] by (auto simp: out_def cut_def)
  have sub: "set out \<subseteq> set bounded"
    by (auto simp: out_def cut_def list_ex_iff dest: in_set_takeD split: if_splits)
  have chars: "list_all (\<lambda>c. length c \<le> MAX_R_SEPARATOR_CHARS) out"
    using sub by (auto simp: list_all_iff bounded_def)
  have same: "filter (\<lambda>c. \<not> length c > MAX_R_SEPARATOR_CHARS) out = out"
    by (rule filter_True) (use chars in \<open>auto simp: list_all_iff\<close>)
  have idem: "normalize_r_separators (Some out) = Some out"
    unfolding normalize_r_separators_def inspect_r_separators_def Let_def option.case same using len by simp
  have "[] \<in> set bounded \<longleftrightarrow> [] \<in> set seps" by (simp add: bounded_def)
  moreover have "[] \<in> set out \<longleftrightarrow> [] \<in> set bounded" by (auto simp: out_def cut_def list_ex_iff)
  ultimately have sentinel: "[] \<in> set out \<longleftrightarrow> [] \<in> set seps" by simp
  have ch: "rn_changed (inspect_r_separators (Some seps)) \<longleftrightarrow> out \<noteq> seps"
  proof (cases "filter (\<lambda>c. length c > MAX_R_SEPARATOR_CHARS) seps = []")
    case True
    then have "bounded = seps" unfolding bounded_def by (simp add: filter_empty_conv filter_id_conv)
    then show ?thesis using True len changed by (auto simp: out_def)
  next
    case False
    then obtain c where "c \<in> set seps" "length c > MAX_R_SEPARATOR_CHARS" by (auto simp: filter_empty_conv)
    then have "out \<noteq> seps" using chars by (auto simp: list_all_iff)
    then show ?thesis using False changed by simp
  qed
  have "set out \<subseteq> set seps" using sub by (auto simp: bounded_def)
  then show ?thesis using len chars idem sentinel ch
    by (simp add: norm MAX_R_SEPARATORS_def MAX_R_SEPARATOR_CHARS_def)
qed

section \<open>At concrete documents\<close>

text \<open>LangChain's constructor with its documented defaults.\<close>

definition langchain_splitter ::
  "int \<Rightarrow> int \<Rightarrow> (pystr \<Rightarrow> nat) \<Rightarrow> bool \<Rightarrow> pystr list option \<Rightarrow> splitter res" where
  "langchain_splitter n v f st seps =
     (if v > n then Inl ValueError
      else Inr \<lparr>sp_separators = (case seps of None \<Rightarrow> [[10, 10], [10], [32], []] | Some ss \<Rightarrow> ss),
                sp_chunk_size = n, sp_chunk_overlap = v, sp_length = f, sp_keep = Keep_Start,
                sp_is_regex = False, sp_strip = st\<rparr>)"

lemma recursive_chunks_cover_witness:
  "\<exists>cs. chunking_by_recursive_character (\<lambda>_ _. []) langchain_splitter char_tokenizer [97, 32, 98, 99, 10] 3 0 None
          = Inr cs \<and> chunks_tile char_tokenizer [97, 32, 98, 99, 10] cs"
proof -
  let ?s = "[97, 32, 98, 99, 10] :: pystr"
  have keeps: "sp_keep p \<noteq> Keep_No \<and> \<not> sp_is_regex p \<and> sp_separators p \<noteq> []"
    if "langchain_splitter n v f st seps = Inr p" "seps \<noteq> Some []" for n v f st seps p
    using that by (auto simp: langchain_splitter_def split: if_splits option.splits)
  have "case chunking_by_recursive_character (\<lambda>_ _. []) langchain_splitter char_tokenizer ?s 3 0 None of
      Inl err \<Rightarrow> (\<exists>seps. langchain_splitter (max 3 1) (max 0 0) (\<lambda>t. length (tk_encode char_tokenizer t)) True seps = Inl err)
    | Inr cs \<Rightarrow> chunks_tile char_tokenizer ?s cs"
    by (rule recursive_chunks_cover) (rule keeps)
  moreover have "langchain_splitter (max 3 1) (max 0 0) (\<lambda>t. length (tk_encode char_tokenizer t)) True seps \<noteq> Inl err"
    for seps err by (simp add: langchain_splitter_def)
  ultimately show ?thesis by (auto split: sum.splits)
qed

text \<open>One token for four characters, as a byte-pair encoding may have them.\<close>

definition quad_splitter :: "int \<Rightarrow> splitter" where
  "quad_splitter n = \<lparr>sp_separators = [[10], []], sp_chunk_size = n, sp_chunk_overlap = 0,
     sp_length = (\<lambda>t. (length t + 3) div 4), sp_keep = Keep_Start, sp_is_regex = False, sp_strip = True\<rparr>"

lemma shortcut_mirrors_recursion_witness:
  "split_spans (\<lambda>_ _. []) (quad_splitter 1) [[10], [32], []] [10, 97, 32, 98] 0
     = mirror_spans (\<lambda>_ _. []) (quad_splitter 1) [[10], [32], []] [10, 97, 32, 98] 0"
  by (rule shortcut_mirrors_recursion) (simp add: quad_splitter_def)

text \<open>Below the chunk size, where the document itself enters, the shortcut does change the result: a text of one
  token whose only separator stands at its start is cut into characters, each counted as a token.\<close>

lemma shortcut_cuts_small_text:
  "mirror_spans (\<lambda>_ _. []) (quad_splitter 3) [[10], []] [10, 97, 98, 99] 0 = [([97, 98, 99], 1, 4)]"
  "split_spans (\<lambda>_ _. []) (quad_splitter 3) [[10], []] [10, 97, 98, 99] 0 = [([97, 98], 1, 3), ([99], 3, 4)]"
  by (simp_all add: quad_splitter_def separator_matches_def literal_matches.simps split_text_with_regex_spans_def
    Let_def merge_splits_with_spans_def merge_loop_simps join_span_pieces_def docs_of_def slice_def py_isspace_def
    upt_rec)

end
