(* ===== verification/Tiktoken.thy ===== *)
theory Tiktoken
  imports TokenBudget
begin

text \<open>
  The fast path of \<open>TiktokenTokenizer\<close> in \<open>ontorag/utils.py\<close>: candidates are located by the character offset of
  each token instead of a ratio. \<open>decode_with_offsets\<close> of the tiktoken library is a parameter, \<open>None\<close> when it
  raises; what the theorem uses of it is that offsets start at 0, do not decrease and stay inside the text, several
  tokens of one character sharing its offset. Where it fails or the decoded text differs, the generic methods of
  \<open>TokenBudget\<close> are used.
\<close>

section \<open>Locating a prefix by token boundaries\<close>

definition tok_boundary :: "pystr \<Rightarrow> nat list \<Rightarrow> nat \<Rightarrow> nat \<Rightarrow> nat" where
  "tok_boundary c offs tot k = (if k < tot then offs ! k else length c)"

text \<open>The retreat in token space (\<open>step\<close> is \<open>2 ^ j\<close>); \<open>None\<close> when the loop is left by \<open>break\<close>.\<close>

function boundary_probe ::
  "(pystr \<Rightarrow> nat) \<Rightarrow> pystr \<Rightarrow> (nat \<Rightarrow> nat) \<Rightarrow> nat \<Rightarrow> nat \<Rightarrow> int \<Rightarrow> nat \<Rightarrow> nat \<Rightarrow> nat option \<Rightarrow> (token_span \<times> nat) option" where
  "boundary_probe cnt c bnd start_char start_token mx k j last_end =
     (let e = bnd (start_token + k); n = cnt (slice start_char e c)
      in if last_end \<noteq> Some e \<and> e > start_char \<and> int n \<le> mx
         then Some (\<lparr>ts_start = start_char, ts_end = e, ts_count = n\<rparr>, start_token + k)
         else if k \<le> 1 then None
         else boundary_probe cnt c bnd start_char start_token mx (max 1 (k - 2 ^ j)) (Suc j) (Some e))"
  by pat_completeness auto
termination
  by (relation "measure (\<lambda>(cnt, c, bnd, s, t, mx, k, j, last). k)") (auto simp: max_def)

function floor_token :: "(nat \<Rightarrow> nat) \<Rightarrow> nat \<Rightarrow> nat \<Rightarrow> nat \<Rightarrow> nat" where
  "floor_token bnd tot end_char tok =
     (if tok < tot \<and> bnd tok < end_char then floor_token bnd tot end_char (Suc tok) else tok)"
  by pat_completeness auto
termination
  by (relation "measure (\<lambda>(bnd, tot, e, tok). tot - tok)") auto

declare boundary_probe.simps [simp del] floor_token.simps [simp del]

definition prefix_span_via_boundary ::
  "(pystr \<Rightarrow> nat) \<Rightarrow> pystr \<Rightarrow> nat \<Rightarrow> nat \<Rightarrow> int \<Rightarrow> nat \<Rightarrow> (nat \<Rightarrow> nat) \<Rightarrow> (token_span \<times> nat) res" where
  "prefix_span_via_boundary cnt c start_char start_token mx tot bnd =
     (case boundary_probe cnt c bnd start_char start_token mx (min (tot - start_token) (nat mx)) 0 None of
        Some r \<Rightarrow> Inr r
      | None \<Rightarrow>
          (let first_cp = slice start_char (start_char + 1) c; n = cnt first_cp
           in if int n > mx then Inl (TokenBudgetError mx n (slice start_char (start_char + 80) c))
              else Inr (\<lparr>ts_start = start_char, ts_end = start_char + 1, ts_count = n\<rparr>,
                        floor_token bnd tot (start_char + 1) start_token)))"

definition tiktoken_truncate ::
  "(pystr \<Rightarrow> nat) \<Rightarrow> (nat \<Rightarrow> nat \<Rightarrow> estimate) \<Rightarrow> (pystr \<times> nat list) option \<Rightarrow> pystr \<Rightarrow> int \<Rightarrow> token_span res" where
  "tiktoken_truncate cnt est_of decoded c mx =
     (if mx \<le> 0 then Inl ValueError
      else if c = [] then Inr \<lparr>ts_start = 0, ts_end = 0, ts_count = 0\<rparr>
      else if int (cnt c) \<le> mx then Inr \<lparr>ts_start = 0, ts_end = length c, ts_count = cnt c\<rparr>
      else (case decoded of
              None \<Rightarrow> truncate_by_token_limit cnt est_of c mx
            | Some (decoded_text, offs) \<Rightarrow>
                if decoded_text \<noteq> c then truncate_by_token_limit cnt est_of c mx
                else bind_res (prefix_span_via_boundary cnt c 0 0 mx (cnt c) (tok_boundary c offs (cnt c)))
                       (\<lambda>(sp, _). Inr sp)))"

section \<open>The split\<close>

function tik_pick ::
  "(pystr \<Rightarrow> nat) \<Rightarrow> pystr \<Rightarrow> int \<Rightarrow> nat \<Rightarrow> (nat \<Rightarrow> nat) \<Rightarrow> nat \<Rightarrow> nat \<Rightarrow> nat \<Rightarrow> nat \<Rightarrow> (token_span \<times> nat) res" where
  "tik_pick cnt c mx tot bnd covered_char covered_token target k =
     (let start_token = covered_token - target
      in case prefix_span_via_boundary cnt c (bnd start_token) start_token mx tot bnd of
           Inl e \<Rightarrow> if target = 0 then Inl e
                    else tik_pick cnt c mx tot bnd covered_char covered_token (target - 2 ^ k) (Suc k)
         | Inr r \<Rightarrow> if ts_end (fst r) > covered_char \<or> target = 0 then Inr r
                    else tik_pick cnt c mx tot bnd covered_char covered_token (target - 2 ^ k) (Suc k))"
  by pat_completeness auto
termination
  by (relation "measure (\<lambda>(cnt, c, mx, tot, bnd, cc, ct, target, k). target)") auto

declare tik_pick.simps [simp del]

text \<open>The outer loop, with fuel (\<open>None\<close> when it is spent). A text of \<open>n\<close> characters needs at most \<open>n + 1\<close>
  rounds, since each one advances; \<open>prev\<close> is the token count of the last span.\<close>

fun tik_loop ::
  "nat \<Rightarrow> (pystr \<Rightarrow> nat) \<Rightarrow> pystr \<Rightarrow> int \<Rightarrow> nat \<Rightarrow> nat \<Rightarrow> (nat \<Rightarrow> nat) \<Rightarrow> nat \<Rightarrow> nat \<Rightarrow> nat \<Rightarrow> token_span list res option" where
  "tik_loop 0 cnt c mx overlap tot bnd covered_char covered_token prev = None"
| "tik_loop (Suc fuel) cnt c mx overlap tot bnd covered_char covered_token prev =
     (if covered_char < length c then
        (case tik_pick cnt c mx tot bnd covered_char covered_token
                (if covered_token > 0 then min overlap (prev - 1) else 0) 0 of
           Inl e \<Rightarrow> Some (Inl e)
         | Inr (sp, end_token) \<Rightarrow>
             map_option (\<lambda>r. bind_res r (\<lambda>sps. Inr (sp # sps)))
               (tik_loop fuel cnt c mx overlap tot bnd (ts_end sp) end_token (ts_count sp)))
      else Some (Inr []))"

definition tiktoken_split ::
  "(pystr \<Rightarrow> nat) \<Rightarrow> (nat \<Rightarrow> nat \<Rightarrow> estimate) \<Rightarrow> (pystr \<times> nat list) option \<Rightarrow> pystr \<Rightarrow> int \<Rightarrow> int
   \<Rightarrow> token_span list res option" where
  "tiktoken_split cnt est_of decoded c mx overlap =
     (if mx \<le> 0 then Some (Inl ValueError)
      else if overlap < 0 then Some (Inl ValueError)
      else if c = [] then Some (Inr [])
      else if int (cnt c) \<le> mx then Some (Inr [\<lparr>ts_start = 0, ts_end = length c, ts_count = cnt c\<rparr>])
      else (case decoded of
              None \<Rightarrow> Some (split_by_token_limit cnt est_of c mx overlap)
            | Some (decoded_text, offs) \<Rightarrow>
                if decoded_text \<noteq> c then Some (split_by_token_limit cnt est_of c mx overlap)
                else tik_loop (length c + 1) cnt c mx (nat overlap) (cnt c) (tok_boundary c offs (cnt c)) 0 0 0))"

section \<open>Spans are verified and advance\<close>

text \<open>A span as the fast path returns it: counted, within the budget, not empty.\<close>

definition counted :: "(pystr \<Rightarrow> nat) \<Rightarrow> pystr \<Rightarrow> int \<Rightarrow> token_span \<Rightarrow> bool" where
  "counted cnt c mx sp \<longleftrightarrow>
     ts_start sp < ts_end sp \<and> ts_count sp = cnt (slice (ts_start sp) (ts_end sp) c) \<and> int (ts_count sp) \<le> mx"

lemma boundary_probe_result:
  "boundary_probe cnt c bnd s tok mx k j last_end = Some (sp, t) \<Longrightarrow>
   counted cnt c mx sp \<and> ts_start sp = s \<and> ts_end sp = bnd t"
proof (induction cnt c bnd s tok mx k j last_end rule: boundary_probe.induct)
  case (1 cnt c bnd s tok mx k j last_end)
  let ?e = "bnd (tok + k)" and ?n = "cnt (slice s (bnd (tok + k)) c)"
  show ?case
  proof (cases "last_end \<noteq> Some ?e \<and> ?e > s \<and> int ?n \<le> mx")
    case True
    then show ?thesis using "1.prems" by (subst (asm) boundary_probe.simps) (auto simp: Let_def counted_def)
  next
    case False
    then show ?thesis using "1.prems" "1.IH" [OF refl refl False]
      by (subst (asm) (1) boundary_probe.simps) (simp add: Let_def split: if_splits)
  qed
qed

text \<open>The numbers of tokens the retreat tries: the most, then one fewer, then two, four and so on, down to one.\<close>

function retreat :: "nat \<Rightarrow> nat \<Rightarrow> nat list" where
  "retreat k j = (if k \<le> 1 then [k] else k # retreat (max 1 (k - 2 ^ j)) (Suc j))"
  by pat_completeness auto
termination
  by (relation "measure fst") (auto simp: max_def)

declare retreat.simps [simp del]

definition fits :: "(pystr \<Rightarrow> nat) \<Rightarrow> pystr \<Rightarrow> int \<Rightarrow> nat \<Rightarrow> nat \<Rightarrow> bool" where
  "fits cnt c mx s e \<longleftrightarrow> s < e \<and> int (cnt (slice s e c)) \<le> mx"

text \<open>No token boundary that is tried from a token at \<open>s\<close> fits.\<close>

definition stuck :: "(pystr \<Rightarrow> nat) \<Rightarrow> pystr \<Rightarrow> int \<Rightarrow> nat \<Rightarrow> (nat \<Rightarrow> nat) \<Rightarrow> nat \<Rightarrow> bool" where
  "stuck cnt c mx tot bnd s \<longleftrightarrow>
     (\<exists>tok. bnd tok = s \<and> (\<forall>k \<in> set (retreat (min (tot - tok) (nat mx)) 0). \<not> fits cnt c mx s (bnd (tok + k))))"

lemma boundary_probe_None:
  "boundary_probe cnt c bnd s tok mx k j last_end = None \<Longrightarrow>
   (\<And>e. last_end = Some e \<Longrightarrow> \<not> fits cnt c mx s e) \<Longrightarrow>
   \<forall>k' \<in> set (retreat k j). \<not> fits cnt c mx s (bnd (tok + k'))"
proof (induction cnt c bnd s tok mx k j last_end rule: boundary_probe.induct)
  case (1 cnt c bnd s tok mx k j last_end)
  let ?e = "bnd (tok + k)"
  have no: "\<not> (last_end \<noteq> Some ?e \<and> ?e > s \<and> int (cnt (slice s ?e c)) \<le> mx)"
    using "1.prems"(1) by (subst (asm) boundary_probe.simps) (auto simp: Let_def)
  then have e: "\<not> fits cnt c mx s ?e" using "1.prems"(2) by (auto simp: fits_def)
  show ?case
  proof (cases "k \<le> 1")
    case True
    then show ?thesis using e by (simp add: retreat.simps [of k])
  next
    case False
    then have "boundary_probe cnt c bnd s tok mx (max 1 (k - 2 ^ j)) (Suc j) (Some ?e) = None"
      using "1.prems"(1) no by (subst (asm) (1) boundary_probe.simps) (simp add: Let_def split: if_splits)
    then have "\<forall>k' \<in> set (retreat (max 1 (k - 2 ^ j)) (Suc j)). \<not> fits cnt c mx s (bnd (tok + k'))"
      using "1.IH" [OF refl refl no False] e by blast
    then show ?thesis using e False by (simp add: retreat.simps [of k])
  qed
qed

lemma floor_token_bound: "tot \<le> floor_token bnd tot e tok \<or> e \<le> bnd (floor_token bnd tot e tok)"
proof (induction bnd tot e tok rule: floor_token.induct)
  case (1 bnd tot e tok)
  then show ?case
    by (cases "tok < tot \<and> bnd tok < e") (simp_all add: floor_token.simps [where tot = tot and tok = tok], auto)
qed

lemma floor_token_skips: "tok \<le> j \<Longrightarrow> j < floor_token bnd tot e tok \<Longrightarrow> bnd j < e"
proof (induction bnd tot e tok rule: floor_token.induct)
  case (1 bnd tot e tok)
  show ?case
  proof (cases "tok < tot \<and> bnd tok < e")
    case True
    then show ?thesis using 1 by (cases "j = tok") (simp_all add: floor_token.simps [where tot = tot and tok = tok])
  next
    case False
    then have "floor_token bnd tot e tok = tok"
      unfolding floor_token.simps [of bnd tot e tok] by (simp only: if_False)
    then show ?thesis using "1.prems" by simp
  qed
qed

text \<open>What the offsets of the library promise of the boundaries.\<close>

definition boundaries_ok :: "pystr \<Rightarrow> nat \<Rightarrow> (nat \<Rightarrow> nat) \<Rightarrow> bool" where
  "boundaries_ok c tot bnd \<longleftrightarrow>
     bnd 0 = 0 \<and> (\<forall>i j. i \<le> j \<longrightarrow> bnd i \<le> bnd j) \<and> (\<forall>i. bnd i \<le> length c) \<and> (\<forall>i \<ge> tot. bnd i = length c)"

lemma tok_boundary_ok:
  assumes "sorted offs" "length offs = tot" "offs \<noteq> [] \<longrightarrow> hd offs = 0" "\<forall>x \<in> set offs. x \<le> length c" "0 < tot"
  shows "boundaries_ok c tot (tok_boundary c offs tot)"
  using assms by (auto simp: boundaries_ok_def tok_boundary_def hd_conv_nth sorted_iff_nth_mono)

text \<open>The one character that is taken, or reported, when the retreat found nothing.\<close>

definition lone :: "(pystr \<Rightarrow> nat) \<Rightarrow> pystr \<Rightarrow> int \<Rightarrow> nat \<Rightarrow> (nat \<Rightarrow> nat) \<Rightarrow> token_span \<Rightarrow> bool" where
  "lone cnt c mx tot bnd sp \<longleftrightarrow> ts_end sp = Suc (ts_start sp) \<and> stuck cnt c mx tot bnd (ts_start sp)"

definition too_wide :: "(pystr \<Rightarrow> nat) \<Rightarrow> pystr \<Rightarrow> int \<Rightarrow> nat \<Rightarrow> (nat \<Rightarrow> nat) \<Rightarrow> py_error \<Rightarrow> bool" where
  "too_wide cnt c mx tot bnd e \<longleftrightarrow>
     (\<exists>s < length c. int (cnt (slice s (Suc s) c)) > mx \<and> stuck cnt c mx tot bnd s
        \<and> e = TokenBudgetError mx (cnt (slice s (Suc s) c)) (slice s (s + 80) c))"

text \<open>Where a window may end: at a token boundary, or behind a lone character, from which the next boundary is not
  before it and is the first such.\<close>

definition ends_ok :: "(pystr \<Rightarrow> nat) \<Rightarrow> pystr \<Rightarrow> int \<Rightarrow> nat \<Rightarrow> (nat \<Rightarrow> nat) \<Rightarrow> token_span \<Rightarrow> nat \<Rightarrow> bool" where
  "ends_ok cnt c mx tot bnd sp tok \<longleftrightarrow>
     (ts_end sp = bnd tok \<or> lone cnt c mx tot bnd sp) \<and> (ts_end sp \<le> bnd tok \<or> length c < ts_end sp)
     \<and> (\<forall>j. ts_end sp \<le> bnd j \<longrightarrow> bnd tok \<le> bnd j)"

lemma prefix_span_result:
  assumes ok: "boundaries_ok c tot bnd" and s: "s = bnd tok" and mx: "0 < mx" and none: "cnt [] = 0"
  shows "case prefix_span_via_boundary cnt c s tok mx tot bnd of
      Inl e \<Rightarrow> too_wide cnt c mx tot bnd e
    | Inr (sp, t) \<Rightarrow> counted cnt c mx sp \<and> ts_start sp = s \<and> ends_ok cnt c mx tot bnd sp t"
proof (cases "boundary_probe cnt c bnd s tok mx (min (tot - tok) (nat mx)) 0 None")
  case None
  have st: "stuck cnt c mx tot bnd s"
    using boundary_probe_None [OF None] s by (auto simp: stuck_def)
  let ?t = "floor_token bnd tot (Suc s) tok"
  have f: "bnd ?t = length c \<or> Suc s \<le> bnd ?t"
    using floor_token_bound [of tot bnd "Suc s" tok] ok by (auto simp: boundaries_ok_def)
  have first: "bnd ?t \<le> bnd j" if "Suc s \<le> bnd j" for j
  proof -
    have "tok \<le> j" using that s ok by (metis boundaries_ok_def not_less_eq_eq nat_le_linear)
    then have "\<not> j < ?t" using floor_token_skips that by (meson leD)
    then show ?thesis using ok by (simp add: boundaries_ok_def)
  qed
  have "s < length c" if "int (cnt (slice s (Suc s) c)) > mx"
    using that none mx by (cases "s < length c") (simp_all add: slice_def)
  then show ?thesis using None st f first
    by (auto simp: prefix_span_via_boundary_def Let_def counted_def ends_ok_def lone_def too_wide_def)
next
  case (Some r)
  then obtain sp t where "r = (sp, t)" by (cases r)
  then show ?thesis using boundary_probe_result [where sp = sp and t = t] Some
    by (auto simp: prefix_span_via_boundary_def ends_ok_def)
qed

lemma tik_pick_result:
  assumes "boundaries_ok c tot bnd" "covered_char \<le> bnd covered_token" "0 < mx" "cnt [] = 0"
  shows "case tik_pick cnt c mx tot bnd covered_char covered_token target k of
      Inl e \<Rightarrow> too_wide cnt c mx tot bnd e
    | Inr (sp, t) \<Rightarrow> counted cnt c mx sp \<and> ts_start sp \<le> bnd covered_token \<and> covered_char < ts_end sp
        \<and> ends_ok cnt c mx tot bnd sp t"
  using assms
proof (induction cnt c mx tot bnd covered_char covered_token target k rule: tik_pick.induct)
  case (1 cnt c mx tot bnd cc ct target k)
  let ?s = "bnd (ct - target)"
  note p = prefix_span_result [where cnt = cnt and c = c and bnd = bnd and s = ?s and tok = "ct - target" and tot = tot
      and mx = mx, OF "1.prems"(1) refl "1.prems"(3,4)]
  note run = tik_pick.simps [where cnt = cnt and c = c and mx = mx and tot = tot and bnd = bnd and covered_char = cc
      and covered_token = ct and target = target and k = k, unfolded Let_def]
  show ?case
  proof (cases "prefix_span_via_boundary cnt c ?s (ct - target) mx tot bnd")
    case (Inl e)
    show ?thesis
    proof (cases "target = 0")
      case True
      have "tik_pick cnt c mx tot bnd cc ct target k = Inl e" unfolding run using Inl True by simp
      then show ?thesis using p Inl by simp
    next
      case False
      have "tik_pick cnt c mx tot bnd cc ct target k = tik_pick cnt c mx tot bnd cc ct (target - 2 ^ k) (Suc k)"
        unfolding run using Inl False by simp
      then show ?thesis using "1.IH"(1) [OF refl Inl False "1.prems"] by simp
    qed
  next
    case (Inr r)
    obtain sp t where r: "r = (sp, t)" by (cases r)
    have sp: "counted cnt c mx sp" "ts_start sp = ?s" "ends_ok cnt c mx tot bnd sp t" using p Inr r by auto
    show ?thesis
    proof (cases "ts_end sp > cc \<or> target = 0")
      case True
      have "tik_pick cnt c mx tot bnd cc ct target k = Inr (sp, t)" unfolding run using Inr r True by auto
      moreover have "?s \<le> bnd ct" using "1.prems"(1) by (simp add: boundaries_ok_def)
      moreover have "cc < ts_end sp" using True sp(1,2) "1.prems"(2) by (auto simp: counted_def)
      ultimately show ?thesis using sp by simp
    next
      case False
      have "tik_pick cnt c mx tot bnd cc ct target k = tik_pick cnt c mx tot bnd cc ct (target - 2 ^ k) (Suc k)"
        unfolding run using Inr r False by auto
      then show ?thesis using "1.IH"(2) [OF refl Inr _ "1.prems"] r False by simp
    qed
  qed
qed

text \<open>Spans that advance to the end of the text. A span starts inside what is covered, unless the one before it is
  a lone character (\<open>gap\<close>); then no token boundary lies between the two.\<close>

fun tik_tiles :: "(pystr \<Rightarrow> nat) \<Rightarrow> pystr \<Rightarrow> int \<Rightarrow> nat \<Rightarrow> (nat \<Rightarrow> nat) \<Rightarrow> nat \<Rightarrow> bool \<Rightarrow> token_span list \<Rightarrow> bool" where
  "tik_tiles cnt c mx tot bnd covered gap [] \<longleftrightarrow> length c \<le> covered"
| "tik_tiles cnt c mx tot bnd covered gap (sp # sps) \<longleftrightarrow>
     counted cnt c mx sp \<and> covered < ts_end sp
     \<and> (ts_start sp \<le> covered \<or> gap \<and> (\<forall>j. covered \<le> bnd j \<longrightarrow> ts_start sp \<le> bnd j))
     \<and> tik_tiles cnt c mx tot bnd (ts_end sp) (lone cnt c mx tot bnd sp) sps"

lemma tik_loop_tiles:
  assumes ok: "boundaries_ok c tot bnd" and mx: "0 < mx" and none: "cnt [] = 0"
  shows "length c - covered < fuel \<Longrightarrow> covered \<le> bnd tok \<or> length c < covered \<Longrightarrow> covered = bnd tok \<or> gap \<Longrightarrow>
    (\<forall>j. covered \<le> bnd j \<longrightarrow> bnd tok \<le> bnd j) \<Longrightarrow>
    \<exists>r. tik_loop fuel cnt c mx overlap tot bnd covered tok prev = Some r
      \<and> (case r of Inl e \<Rightarrow> too_wide cnt c mx tot bnd e
         | Inr sps \<Rightarrow> tik_tiles cnt c mx tot bnd covered gap sps)"
proof (induction fuel arbitrary: covered tok prev gap)
  case (Suc fuel)
  show ?case
  proof (cases "covered < length c")
    case True
    let ?t = "if tok > 0 then min overlap (prev - 1) else 0"
    have le: "covered \<le> bnd tok" using Suc.prems True by simp
    note p = tik_pick_result [where cnt = cnt and c = c and bnd = bnd and mx = mx and tot = tot and target = ?t
        and k = 0 and covered_char = covered and covered_token = tok, OF ok le mx none]
    show ?thesis
    proof (cases "tik_pick cnt c mx tot bnd covered tok ?t 0")
      case (Inl e)
      then show ?thesis using p True by simp
    next
      case (Inr r)
      obtain sp t where r: "r = (sp, t)" by (cases r)
      have sp: "counted cnt c mx sp" "ts_start sp \<le> bnd tok" "covered < ts_end sp" "ends_ok cnt c mx tot bnd sp t"
        using p Inr r by auto
      have "\<exists>r. tik_loop fuel cnt c mx overlap tot bnd (ts_end sp) t (ts_count sp) = Some r
        \<and> (case r of Inl e \<Rightarrow> too_wide cnt c mx tot bnd e
           | Inr sps \<Rightarrow> tik_tiles cnt c mx tot bnd (ts_end sp) (lone cnt c mx tot bnd sp) sps)"
        by (rule Suc.IH) (use Suc.prems(1) sp True in \<open>auto simp: ends_ok_def\<close>)
      then obtain r' where r': "tik_loop fuel cnt c mx overlap tot bnd (ts_end sp) t (ts_count sp) = Some r'"
        and rest: "case r' of Inl e \<Rightarrow> too_wide cnt c mx tot bnd e
           | Inr sps \<Rightarrow> tik_tiles cnt c mx tot bnd (ts_end sp) (lone cnt c mx tot bnd sp) sps"
        by blast
      have "ts_start sp \<le> covered \<or> gap \<and> (\<forall>j. covered \<le> bnd j \<longrightarrow> ts_start sp \<le> bnd j)"
        using Suc.prems(3,4) sp(2) le_trans by blast
      then show ?thesis using True Inr r r' rest sp by (cases r') auto
    qed
  qed simp
qed simp

text \<open>C28. For a positive budget, an overlap that is not negative and a text over the
  budget, with the library's promise about offsets and no tokens in the empty text: the fast path always returns
  within the length of the text plus one rounds. Either it reports a character of the text that is itself over the
  budget, with its count and the text from it on, and none of the token boundaries tried from there fitted; or it
  gives spans that are each counted exactly and within the budget, reach strictly further than the one before, and
  together reach the end of the text. A span starts behind the end of the one before only where that one is a single
  character, taken because none of the token boundaries tried from its start fitted; and no token boundary lies
  in between. Tried are the furthest boundary the budget could hold, then one, two, four tokens back and so on,
  down to the next.\<close>

theorem tiktoken_spans_advance:
  assumes "0 < mx" "0 \<le> overlap" "int (cnt c) > mx" "cnt [] = 0"
    "sorted offs" "length offs = cnt c" "hd offs = 0" "\<forall>x \<in> set offs. x \<le> length c"
  shows "\<exists>r. tiktoken_split cnt est_of (Some (c, offs)) c mx overlap = Some r
      \<and> (case r of Inl e \<Rightarrow> too_wide cnt c mx (cnt c) (tok_boundary c offs (cnt c)) e
         | Inr sps \<Rightarrow> tik_tiles cnt c mx (cnt c) (tok_boundary c offs (cnt c)) 0 False sps)"
proof -
  have c: "c \<noteq> []" using assms(1,3,4) by auto
  have ok: "boundaries_ok c (cnt c) (tok_boundary c offs (cnt c))"
    by (rule tok_boundary_ok) (use assms in auto)
  then have "tok_boundary c offs (cnt c) 0 = 0" by (simp add: boundaries_ok_def)
  then show ?thesis
    using tik_loop_tiles [where cnt = cnt and c = c and bnd = "tok_boundary c offs (cnt c)" and tot = "cnt c"
        and mx = mx and covered = 0 and tok = 0 and fuel = "length c + 1"
        and overlap = "nat overlap" and prev = 0 and gap = False, OF ok assms(1,4)] c assms(1-3)
    by (simp add: tiktoken_split_def)
qed

section \<open>At concrete texts\<close>

lemma tiktoken_spans_advance_witness:
  "\<exists>r. tiktoken_split length three_chars (Some ([97, 98, 99], [0, 1, 2])) [97, 98, 99] 2 1 = Some r
     \<and> (case r of Inl e \<Rightarrow> too_wide length [97, 98, 99] 2 3 (tok_boundary [97, 98, 99] [0, 1, 2] 3) e
        | Inr sps \<Rightarrow> tik_tiles length [97, 98, 99] 2 3 (tok_boundary [97, 98, 99] [0, 1, 2] 3) 0 False sps)"
proof -
  have n: "length [97, 98, 99 :: nat] = 3" by simp
  show ?thesis
    by (rule tiktoken_spans_advance [of 2 1 length "[97, 98, 99]" "[0, 1, 2]" three_chars, unfolded n]) simp_all
qed

text \<open>That gap is real: three characters, the first of two tokens the second of which also holds the next
  character. The first two characters alone do not fit, so the first is taken alone; the window after it starts at
  the next token boundary, behind the second character, which no span covers.\<close>

definition gap_count :: "pystr \<Rightarrow> nat" where
  "gap_count t = (if t = [7, 8] then 3 else if t = [7] then 2 else length t)"

lemma gap_windows:
  "prefix_span_via_boundary gap_count [7, 8, 9] 0 0 2 3 (tok_boundary [7, 8, 9] [0, 0, 2] 3)
     = Inr (\<lparr>ts_start = 0, ts_end = 1, ts_count = 2\<rparr>, 2)"
  "prefix_span_via_boundary gap_count [7, 8, 9] 2 2 2 3 (tok_boundary [7, 8, 9] [0, 0, 2] 3)
     = Inr (\<lparr>ts_start = 2, ts_end = 3, ts_count = 1\<rparr>, 3)"
  by code_simp+

lemma floor_leaves_gap:
  "tiktoken_split gap_count est_of (Some ([7, 8, 9], [0, 0, 2])) [7, 8, 9] 2 0
   = Some (Inr [\<lparr>ts_start = 0, ts_end = 1, ts_count = 2\<rparr>, \<lparr>ts_start = 2, ts_end = 3, ts_count = 1\<rparr>])"
proof -
  let ?c = "[7, 8, 9] :: pystr" and ?b = "tok_boundary [7, 8, 9] [0, 0, 2] 3"
  have n: "gap_count ?c = 3" by (simp add: gap_count_def)
  have b: "?b 0 = 0" "?b 2 = 2" by (simp_all add: tok_boundary_def)
  have fuel: "length ?c + 1 = Suc (Suc (Suc (Suc 0)))" by simp
  have p1: "tik_pick gap_count ?c 2 3 ?b 0 0 0 0 = Inr (\<lparr>ts_start = 0, ts_end = 1, ts_count = 2\<rparr>, 2)"
    using gap_windows(1) by (simp add: tik_pick.simps [where target = 0] b)
  have p2: "tik_pick gap_count ?c 2 3 ?b 1 2 0 0 = Inr (\<lparr>ts_start = 2, ts_end = 3, ts_count = 1\<rparr>, 3)"
    using gap_windows(2) by (simp add: tik_pick.simps [where target = 0] b)
  have "tik_loop (Suc (Suc (Suc (Suc 0)))) gap_count ?c 2 0 3 ?b 0 0 0
      = Some (Inr [\<lparr>ts_start = 0, ts_end = 1, ts_count = 2\<rparr>, \<lparr>ts_start = 2, ts_end = 3, ts_count = 1\<rparr>])"
    using p1 p2 by simp
  then show ?thesis unfolding tiktoken_split_def n fuel by simp
qed

end
